(* ===== verification/FX_Prelude.thy ===== *)
theory FX_Prelude
imports Complex_Main "HOL-Library.AList"
begin

text \<open>
  The shared vocabulary of the development: the JavaScript values the panel's code coerces, the
  insertion-ordered \<open>Map\<close> it keeps its state in, and the generic lemmas about both.

  Conventions.
  \<^item> A TypeScript \<open>number\<close> that has already passed an \<open>isFinite\<close> or \<open>isInteger\<close> test, or that the
    code only ever fills with such values (identifiers, ports, millisecond time stamps), is an
    \<^typ>\<open>int\<close>; other finite numbers are exact \<^typ>\<open>rat\<close> values.  Where the rounding of IEEE doubles
    decides a result it is written out (theory \<open>Probe_Counters\<close>).
  \<^item> A parameter of type \<open>unknown\<close> is a \<open>jsval\<close>, converted by the functions below exactly where
    the code calls \<open>Number(...)\<close>, \<open>String(...)\<close> or tests its truth.
  \<^item> Strings are lists of characters; the model covers strings of 8-bit characters.
\<close>

named_theorems js_eval \<open>evaluation of conversions on concrete values\<close>
named_theorems jmap_simps \<open>lookups in insertion-ordered maps\<close>

section \<open>JavaScript values and conversions\<close>

datatype jsval =
    JUndef
  | JNull
  | JBool bool
  | JNum rat
  | JNaN
  | JPosInf
  | JNegInf
  | JStr string

text \<open>A value that may be a \<open>Date\<close>; an invalid date has no time.\<close>

datatype time_value = TDate "rat option" | TVal jsval

fun js_truthy :: "jsval \<Rightarrow> bool" where
  "js_truthy JUndef = False"
| "js_truthy JNull = False"
| "js_truthy (JBool b) = b"
| "js_truthy (JNum q) = (q \<noteq> 0)"
| "js_truthy JNaN = False"
| "js_truthy JPosInf = True"
| "js_truthy JNegInf = True"
| "js_truthy (JStr s) = (s \<noteq> [])"

definition js_or :: "jsval \<Rightarrow> jsval \<Rightarrow> jsval" where
  "js_or a b = (if js_truthy a then a else b)"

definition js_nullish :: "jsval \<Rightarrow> bool" where
  "js_nullish v = (v = JUndef \<or> v = JNull)"

subsection \<open>Characters and strings\<close>

definition js_space :: "char \<Rightarrow> bool" where
  "js_space c = (let n = (of_char c :: nat) in 9 \<le> n \<and> n \<le> 13 \<or> n = 32 \<or> n = 160)"

definition js_trim :: "string \<Rightarrow> string" where
  "js_trim s = rev (dropWhile js_space (rev (dropWhile js_space s)))"

definition js_lower_char :: "char \<Rightarrow> char" where
  "js_lower_char c =
     (let n = (of_char c :: nat)
      in if 65 \<le> n \<and> n \<le> 90 \<or> 192 \<le> n \<and> n \<le> 222 \<and> n \<noteq> 215 then char_of (n + 32) else c)"

definition js_lower :: "string \<Rightarrow> string" where
  "js_lower s = map js_lower_char s"

definition js_starts_with :: "string \<Rightarrow> string \<Rightarrow> bool" where
  "js_starts_with prefix s = (take (length prefix) s = prefix)"

definition js_digit :: "char \<Rightarrow> bool" where
  "js_digit c = (let n = (of_char c :: nat) in 48 \<le> n \<and> n \<le> 57)"

definition digit_value :: "char \<Rightarrow> nat" where
  "digit_value c = of_char c - 48"

definition digits_value :: "string \<Rightarrow> nat" where
  "digits_value s = foldl (\<lambda>acc c. 10 * acc + digit_value c) 0 s"

text \<open>\<open>String(n)\<close> for an integer.\<close>

fun nat_to_str :: "nat \<Rightarrow> string" where
  "nat_to_str n =
     (if n < 10 then [char_of (48 + n)] else nat_to_str (n div 10) @ [char_of (48 + n mod 10)])"

declare nat_to_str.simps [simp del]

definition int_to_str :: "int \<Rightarrow> string" where
  "int_to_str i = (if i < 0 then CHR ''-'' # nat_to_str (nat (- i)) else nat_to_str (nat i))"

text \<open>\<open>Array.prototype.join\<close> and \<open>String.prototype.split\<close> with a one-character separator.\<close>

fun js_join :: "char \<Rightarrow> string list \<Rightarrow> string" where
  "js_join c [] = []"
| "js_join c [s] = s"
| "js_join c (s # t # ss) = s @ c # js_join c (t # ss)"

fun js_split :: "char \<Rightarrow> string \<Rightarrow> string list" where
  "js_split c [] = [[]]"
| "js_split c (x # xs) =
     (if x = c then [] # js_split c xs
      else (case js_split c xs of [] \<Rightarrow> [[x]] | s # ss \<Rightarrow> (x # s) # ss))"

subsection \<open>\<open>Number(...)\<close>\<close>

text \<open>
  \<open>Number(string)\<close>: surrounding white space is dropped, the empty string is 0, then a decimal
  literal with optional sign, fraction and exponent, or a hexadecimal, octal or binary literal.
  \<open>None\<close> stands for every value that is not finite: \<open>NaN\<close> and the infinities.
\<close>

definition base_digit :: "nat \<Rightarrow> char \<Rightarrow> nat option" where
  "base_digit b c =
     (let n = (of_char (js_lower_char c) :: nat);
          d = (if 48 \<le> n \<and> n \<le> 57 then n - 48 else if 97 \<le> n \<and> n \<le> 122 then n - 87 else 99)
      in if d < b then Some d else None)"

fun based_value :: "nat \<Rightarrow> nat \<Rightarrow> string \<Rightarrow> nat option" where
  "based_value b acc [] = Some acc"
| "based_value b acc (c # cs) =
     (case base_digit b c of None \<Rightarrow> None | Some d \<Rightarrow> based_value b (b * acc + d) cs)"

definition exponent_value :: "string \<Rightarrow> rat option" where
  "exponent_value s =
     (case s of
        [] \<Rightarrow> Some 1
      | c # r \<Rightarrow>
          if c = CHR ''e'' \<or> c = CHR ''E'' then
            (let (neg, ds) =
               (if r \<noteq> [] \<and> hd r = CHR ''-'' then (True, tl r)
                else if r \<noteq> [] \<and> hd r = CHR ''+'' then (False, tl r)
                else (False, r))
             in if ds \<noteq> [] \<and> list_all js_digit ds
                then Some (if neg then 1 / 10 ^ digits_value ds else 10 ^ digits_value ds)
                else None)
          else None)"

definition unsigned_decimal :: "string \<Rightarrow> rat option" where
  "unsigned_decimal s =
     (let ip = takeWhile js_digit s;
          r1 = dropWhile js_digit s;
          (fp, r2) =
            (if r1 \<noteq> [] \<and> hd r1 = CHR ''.''
             then (takeWhile js_digit (tl r1), dropWhile js_digit (tl r1)) else ([], r1))
      in if ip = [] \<and> fp = [] then None
         else (case exponent_value r2 of
                 None \<Rightarrow> None
               | Some e \<Rightarrow> Some (of_nat (digits_value (ip @ fp)) / 10 ^ length fp * e)))"

definition radix_prefix :: "string \<Rightarrow> nat option" where
  "radix_prefix s =
     (if length s < 3 \<or> hd s \<noteq> CHR ''0'' then None
      else if js_lower_char (s ! 1) = CHR ''x'' then Some 16
      else if js_lower_char (s ! 1) = CHR ''o'' then Some 8
      else if js_lower_char (s ! 1) = CHR ''b'' then Some 2
      else None)"

definition str_to_number :: "string \<Rightarrow> rat option" where
  "str_to_number text =
     (let s = js_trim text in
      if s = [] then Some 0
      else if hd s = CHR ''-'' then map_option uminus (unsigned_decimal (tl s))
      else if hd s = CHR ''+'' then unsigned_decimal (tl s)
      else (case radix_prefix s of
              Some b \<Rightarrow> map_option of_nat (based_value b 0 (drop 2 s))
            | None \<Rightarrow> unsigned_decimal s))"

fun js_number :: "jsval \<Rightarrow> rat option" where
  "js_number JUndef = None"
| "js_number JNull = Some 0"
| "js_number (JBool b) = Some (if b then 1 else 0)"
| "js_number (JNum q) = Some q"
| "js_number JNaN = None"
| "js_number JPosInf = None"
| "js_number JNegInf = None"
| "js_number (JStr s) = str_to_number s"

definition js_is_integer :: "rat \<Rightarrow> bool" where
  "js_is_integer q = (rat_of_int \<lfloor>q\<rfloor> = q)"

text \<open>The guard \<open>Number.isInteger(x)\<close> on a converted value, and the positive variant that almost
  every identifier of the panel passes through.\<close>

definition js_integer :: "jsval \<Rightarrow> int option" where
  "js_integer v =
     (case js_number v of None \<Rightarrow> None | Some q \<Rightarrow> if js_is_integer q then Some \<lfloor>q\<rfloor> else None)"

definition js_positive_int :: "jsval \<Rightarrow> int option" where
  "js_positive_int v =
     (case js_integer v of None \<Rightarrow> None | Some i \<Rightarrow> if 0 < i then Some i else None)"

text \<open>\<open>String(v)\<close> for the values whose text the code uses: strings, integers and the words.\<close>

fun js_string :: "jsval \<Rightarrow> string" where
  "js_string JUndef = ''undefined''"
| "js_string JNull = ''null''"
| "js_string (JBool b) = (if b then ''true'' else ''false'')"
| "js_string (JNum q) =
     (if js_is_integer q then int_to_str \<lfloor>q\<rfloor>
      else int_to_str (fst (quotient_of q)) @ ''/'' @ int_to_str (snd (quotient_of q)))"
| "js_string JNaN = ''NaN''"
| "js_string JPosInf = ''Infinity''"
| "js_string JNegInf = ''-Infinity''"
| "js_string (JStr s) = s"

definition js_max_safe_integer :: int where
  "js_max_safe_integer = 9007199254740991"

text \<open>The counters that wrap to 1 instead of leaving the safe integers.\<close>

definition next_generation :: "int \<Rightarrow> int" where
  "next_generation current = (if js_max_safe_integer \<le> current then 1 else current + 1)"


lemma next_generation_bounds:
  "0 \<le> c \<Longrightarrow> 1 \<le> next_generation c"
  by (simp add: next_generation_def)

lemma next_generation_neq: "next_generation c \<noteq> c"
  by (simp add: next_generation_def js_max_safe_integer_def)

lemma js_is_integer_of_int [simp, js_eval]: "js_is_integer (rat_of_int i)"
  by (simp add: js_is_integer_def)

lemma js_is_integer_numeral [simp, js_eval]:
  "js_is_integer (numeral n)" "js_is_integer 0" "js_is_integer 1" "js_is_integer (- numeral n)" "js_is_integer (- 1)"
  using js_is_integer_of_int [of "numeral n"] js_is_integer_of_int [of 0] js_is_integer_of_int [of 1]
    js_is_integer_of_int [of "- numeral n"] js_is_integer_of_int [of "- 1"]
  by simp_all

lemma js_is_integerE:
  assumes "js_is_integer q"
  obtains i where "q = rat_of_int i"
  using assms by (metis js_is_integer_def)

lemma js_integer_num [simp, js_eval]: "js_integer (JNum (rat_of_int i)) = Some i"
  by (simp add: js_integer_def)

lemma js_integer_numeral [simp, js_eval]:
  "js_integer (JNum (numeral n)) = Some (numeral n)" "js_integer (JNum 0) = Some 0" "js_integer (JNum 1) = Some 1"
  using js_integer_num [of "numeral n"] js_integer_num [of 0] js_integer_num [of 1] by simp_all

lemma js_positive_int_num [simp, js_eval]:
  "0 < i \<Longrightarrow> js_positive_int (JNum (rat_of_int i)) = Some i"
  by (simp add: js_positive_int_def)

lemma js_positive_int_numeral [simp, js_eval]:
  "js_positive_int (JNum (numeral n)) = Some (numeral n)"
  "js_positive_int (JNum 1) = Some 1"
  using js_positive_int_num [of "numeral n"] js_positive_int_num [of 1] by simp_all

lemma js_positive_intD: "js_positive_int v = Some i \<Longrightarrow> 0 < i"
  by (auto simp: js_positive_int_def split: option.splits if_splits)

section \<open>Insertion-ordered maps\<close>

text \<open>
  A JavaScript \<open>Map\<close> iterates in insertion order; setting an existing key keeps its place and a new
  key goes to the end.  It is an association list with distinct keys, with the library's
  \<^const>\<open>AList.update\<close> and \<^const>\<open>AList.delete\<close> as \<open>set\<close> and \<open>delete\<close>.  A \<open>for\<close> loop over the map that
  deletes the entries satisfying a test is \<open>jm_prune\<close>.
\<close>

type_synonym ('k, 'v) jmap = "('k \<times> 'v) list"

abbreviation jm_get :: "('k, 'v) jmap \<Rightarrow> 'k \<Rightarrow> 'v option" where
  "jm_get \<equiv> map_of"

abbreviation jm_set :: "'k \<Rightarrow> 'v \<Rightarrow> ('k, 'v) jmap \<Rightarrow> ('k, 'v) jmap" where
  "jm_set \<equiv> AList.update"

abbreviation jm_del :: "'k \<Rightarrow> ('k, 'v) jmap \<Rightarrow> ('k, 'v) jmap" where
  "jm_del \<equiv> AList.delete"

abbreviation jm_keys :: "('k, 'v) jmap \<Rightarrow> 'k list" where
  "jm_keys m \<equiv> map fst m"

abbreviation jm_values :: "('k, 'v) jmap \<Rightarrow> 'v list" where
  "jm_values m \<equiv> map snd m"

definition jm_ok :: "('k, 'v) jmap \<Rightarrow> bool" where
  "jm_ok m = distinct (jm_keys m)"

definition jm_has :: "('k, 'v) jmap \<Rightarrow> 'k \<Rightarrow> bool" where
  "jm_has m k = (jm_get m k \<noteq> None)"

definition jm_prune :: "('k \<Rightarrow> 'v \<Rightarrow> bool) \<Rightarrow> ('k, 'v) jmap \<Rightarrow> ('k, 'v) jmap" where
  "jm_prune P m = filter (\<lambda>(k, v). \<not> P k v) m"

lemma jm_ok_Nil [simp]: "jm_ok []"
  by (simp add: jm_ok_def)

lemma jm_ok_Cons [simp]: "jm_ok ((k, v) # m) \<longleftrightarrow> k \<notin> set (jm_keys m) \<and> jm_ok m"
  by (simp add: jm_ok_def)

lemma jm_ok_set [simp, intro]: "jm_ok m \<Longrightarrow> jm_ok (jm_set k v m)"
  by (simp add: jm_ok_def distinct_update)

lemma jm_ok_del [simp, intro]: "jm_ok m \<Longrightarrow> jm_ok (jm_del k m)"
  by (simp add: jm_ok_def distinct_delete)

lemma jm_ok_prune [simp, intro]: "jm_ok m \<Longrightarrow> jm_ok (jm_prune P m)"
  by (simp add: jm_ok_def jm_prune_def distinct_map_filter)

lemma jm_get_set [simp, jmap_simps]: "jm_get (jm_set k v m) k' = (if k' = k then Some v else jm_get m k')"
  by (simp add: update_conv')

lemma jm_get_del [simp, jmap_simps]: "jm_get (jm_del k m) k' = (if k' = k then None else jm_get m k')"
  by (simp add: delete_conv')

lemma jm_get_prune [jmap_simps]:
  "jm_ok m \<Longrightarrow>
   jm_get (jm_prune P m) k =
     (case jm_get m k of None \<Rightarrow> None | Some v \<Rightarrow> if P k v then None else Some v)"
proof (induction m)
  case Nil
  then show ?case by (simp add: jm_prune_def)
next
  case (Cons e m)
  obtain a b where e: "e = (a, b)" by (cases e)
  have "jm_get m a = None" using Cons.prems e by (simp add: map_of_eq_None_iff)
  moreover have "jm_get (jm_prune P m) a = None"
    using Cons.prems e by (auto simp: map_of_eq_None_iff jm_prune_def)
  ultimately show ?case
    using Cons e by (auto simp: jm_prune_def split: option.splits)
qed

lemma jm_get_in_set: "jm_get m k = Some v \<Longrightarrow> (k, v) \<in> set m"
  by (rule map_of_SomeD)

lemma jm_get_value: "jm_get m k = Some v \<Longrightarrow> v \<in> set (jm_values m)"
  by (force dest: map_of_SomeD)

lemma jm_in_set_get: "jm_ok m \<Longrightarrow> (k, v) \<in> set m \<Longrightarrow> jm_get m k = Some v"
  by (simp add: jm_ok_def)

lemma jm_set_prune [simp]: "set (jm_prune P m) = {(k, v). (k, v) \<in> set m \<and> \<not> P k v}"
  by (auto simp: jm_prune_def)

lemma jm_keys_set: "set (jm_keys (jm_set k v m)) = insert k (set (jm_keys m))"
  by (simp add: dom_update)

lemma jm_keys_del: "set (jm_keys (jm_del k m)) = set (jm_keys m) - {k}"
  by (auto simp: delete_keys)

lemma jm_get_None_iff: "jm_get m k = None \<longleftrightarrow> k \<notin> set (jm_keys m)"
  by (simp add: map_of_eq_None_iff)

lemma jm_length_set: "length (jm_set k v m) = (if k \<in> set (jm_keys m) then length m else Suc (length m))"
  by (induction m) auto

lemma jm_length_del:
  "jm_ok m \<Longrightarrow> length (jm_del k m) = (if k \<in> set (jm_keys m) then length m - 1 else length m)"
proof (induction m)
  case Nil
  then show ?case by simp
next
  case (Cons e m)
  then show ?case by (cases e) (auto simp: jm_ok_def intro: Suc_pred length_pos_if_in_set)
qed

lemma jm_length_prune_le: "length (jm_prune P m) \<le> length m"
  by (simp add: jm_prune_def)

lemma length_filter_list_update:
  "n < length xs \<Longrightarrow> length (filter P (xs[n := y])) + of_bool (P (xs ! n)) = length (filter P xs) + of_bool (P y)"
proof (induction xs arbitrary: n)
  case (Cons x xs)
  then show ?case by (cases n) fastforce+
qed simp

text \<open>How many values of a map satisfy a test, as an integer so that changes are differences.\<close>

definition jm_count :: "('v \<Rightarrow> bool) \<Rightarrow> ('k, 'v) jmap \<Rightarrow> int" where
  "jm_count P m = int (length (filter P (jm_values m)))"

lemma jm_count_new: "jm_get m k = None \<Longrightarrow> jm_count P (jm_set k v m) = jm_count P m + of_bool (P v)"
  by (induction m) (auto simp: jm_count_def split: if_splits)

lemma jm_count_set:
  "jm_get m k = Some w \<Longrightarrow> jm_count P (jm_set k v m) = jm_count P m - of_bool (P w) + of_bool (P v)"
  by (induction m) (auto simp: jm_count_def split: if_splits)

lemma jm_count_mono: "(\<And>v. P v \<Longrightarrow> Q v) \<Longrightarrow> jm_count P m \<le> jm_count Q m"
  by (induction m) (auto simp: jm_count_def)

lemma jm_count_pos: "jm_get m k = Some v \<Longrightarrow> P v \<Longrightarrow> 0 < jm_count P m"
proof -
  assume "jm_get m k = Some v" "P v"
  then have "v \<in> set (filter P (jm_values m))" using jm_get_value [of m k v] by (simp del: set_map)
  then show "0 < jm_count P m" unfolding jm_count_def by (metis length_pos_if_in_set of_nat_0_less_iff)
qed

lemma jm_count_nonneg [simp]: "0 \<le> jm_count P m"
  by (simp add: jm_count_def)

lemma jm_count_Nil [simp]: "jm_count P [] = 0"
  by (simp add: jm_count_def)

text \<open>The sum of a weight over the values of a map.\<close>

definition jm_sum :: "('v \<Rightarrow> nat) \<Rightarrow> ('k, 'v) jmap \<Rightarrow> nat" where
  "jm_sum f m = (\<Sum>v \<leftarrow> jm_values m. f v)"

lemma jm_sum_Nil [simp]: "jm_sum f [] = 0"
  by (simp add: jm_sum_def)

lemma jm_sum_new: "jm_get m k = None \<Longrightarrow> jm_sum f (jm_set k v m) = jm_sum f m + f v"
  by (induction m) (auto simp: jm_sum_def split: if_splits)

lemma jm_sum_del: "jm_ok m \<Longrightarrow> jm_get m k = Some v \<Longrightarrow> jm_sum f (jm_del k m) + f v = jm_sum f m"
proof (induction m)
  case (Cons e m)
  show ?case
  proof (cases "fst e = k")
    case True
    then have "jm_get m k = None" using Cons.prems(1) by (cases e) (simp add: jm_get_None_iff)
    then have "jm_del k m = m" by (simp add: jm_get_None_iff delete_id)
    then show ?thesis using True Cons.prems by (cases e) (simp add: jm_sum_def)
  next
    case False
    then show ?thesis using Cons by (cases e) (auto simp: jm_sum_def)
  qed
qed simp

lemma jm_del_absent: "jm_get m k = None \<Longrightarrow> jm_del k m = m"
  by (simp add: jm_get_None_iff delete_id)

lemma jm_sum_del_le: "jm_sum f (jm_del k m) \<le> jm_sum f m"
  by (induction m) (auto simp: jm_sum_def)

lemma jm_sum_cong: "(\<And>v. v \<in> set (jm_values m) \<Longrightarrow> f v = g v) \<Longrightarrow> jm_sum f m = jm_sum g m"
  unfolding jm_sum_def by (rule arg_cong [where f = sum_list]) (rule map_cong, auto)

lemma jm_sum_mono: "(\<And>v. f v \<le> g v) \<Longrightarrow> jm_sum f m \<le> jm_sum g m"
  unfolding jm_sum_def by (rule sum_list_mono)

lemma jm_sum_change:
  "distinct (jm_values m) \<Longrightarrow> v \<in> set (jm_values m) \<Longrightarrow> (\<And>w. w \<noteq> v \<Longrightarrow> g w = f w) \<Longrightarrow> jm_sum g m + f v = jm_sum f m + g v"
proof (induction m)
  case (Cons e m)
  show ?case
  proof (cases "snd e = v")
    case True
    have "v \<notin> set (jm_values m)" using Cons.prems(1) True by (simp del: set_map)
    then have "jm_sum g m = jm_sum f m" using Cons.prems(3) by (intro jm_sum_cong) metis
    then show ?thesis using True by (cases e) (simp add: jm_sum_def)
  next
    case False
    then show ?thesis using Cons by (cases e) (auto simp: jm_sum_def)
  qed
qed simp

lemma jm_value_get: "jm_ok m \<Longrightarrow> v \<in> set (jm_values m) \<Longrightarrow> \<exists>k. jm_get m k = Some v"
  by (force intro: jm_in_set_get)

lemma jm_distinct_values:
  "jm_ok m \<Longrightarrow> (\<And>k k' v. jm_get m k = Some v \<Longrightarrow> jm_get m k' = Some v \<Longrightarrow> k = k') \<Longrightarrow> distinct (jm_values m)"
proof -
  assume ok: "jm_ok m" and inj: "\<And>k k' v. jm_get m k = Some v \<Longrightarrow> jm_get m k' = Some v \<Longrightarrow> k = k'"
  have "inj_on snd (set m)"
    by (rule inj_onI) (metis inj jm_in_set_get ok prod.collapse)
  then show "distinct (jm_values m)"
    using ok by (simp add: jm_ok_def distinct_map)
qed

text \<open>Adding an element to a \<open>Set\<close>, kept as the list of its elements in insertion order.\<close>

definition set_add :: "'a \<Rightarrow> 'a list \<Rightarrow> 'a list" where
  "set_add x xs = (if x \<in> set xs then xs else xs @ [x])"

lemma set_set_add [simp]: "set (set_add x xs) = insert x (set xs)"
  by (auto simp: set_add_def)

lemma distinct_set_add [simp]: "distinct xs \<Longrightarrow> distinct (set_add x xs)"
  by (simp add: set_add_def)

lemma set_add_nonempty [simp]: "set_add x xs \<noteq> []"
  by (auto simp: set_add_def)

text \<open>The duplicates of a list dropped, first occurrences kept: \<open>Array.from(new Set(xs))\<close>.\<close>

definition js_uniq :: "'a list \<Rightarrow> 'a list" where
  "js_uniq xs = rev (remdups (rev xs))"

lemma set_js_uniq [simp]: "set (js_uniq xs) = set xs"
  by (simp add: js_uniq_def)

lemma distinct_js_uniq [simp]: "distinct (js_uniq xs)"
  by (simp add: js_uniq_def)

lemma js_uniq_distinct: "distinct xs \<Longrightarrow> js_uniq xs = xs"
  by (simp add: js_uniq_def distinct_remdups_id)

lemma js_uniq_Nil [simp]: "js_uniq [] = []"
  by (simp add: js_uniq_def)

lemma set_map_filter: "set (List.map_filter f xs) = {y. \<exists>x \<in> set xs. f x = Some y}"
  by (induction xs) (auto split: option.splits)

lemma map_filter_inverse:
  "(\<And>x. x \<in> set xs \<Longrightarrow> f (g x) = Some x) \<Longrightarrow> List.map_filter f (map g xs) = xs"
  by (induction xs) auto

lemma length_filter_less_iff: "length (filter P xs) < length xs \<longleftrightarrow> (\<exists>x \<in> set xs. \<not> P x)"
  by (metis filter_True length_filter_less nat_neq_iff)

lemma length_filter_eq_iff: "length (filter P xs) = length xs \<longleftrightarrow> (\<forall>x \<in> set xs. P x)"
  using length_filter_less_iff [of P xs] length_filter_le [of P xs] by (metis nat_less_le)

section \<open>Decimal numerals and separators\<close>

lemma of_char_digit: "d < 10 \<Longrightarrow> of_char (char_of (48 + d :: nat) :: char) = (48 + d :: nat)"
  by (simp add: of_char_of)

lemma js_digit_char_of: "d < 10 \<Longrightarrow> js_digit (char_of (48 + d :: nat))"
  unfolding js_digit_def Let_def by (subst of_char_digit; simp)+

lemma digit_value_char_of: "d < 10 \<Longrightarrow> digit_value (char_of (48 + d :: nat)) = d"
  unfolding digit_value_def by (subst of_char_digit) simp_all

lemma digits_value_snoc: "digits_value (s @ [c]) = 10 * digits_value s + digit_value c"
  by (simp add: digits_value_def)

lemma nat_to_str_digits: "list_all js_digit (nat_to_str n)"
proof (induction n rule: nat_to_str.induct)
  case (1 n)
  then show ?case
    by (cases "n < 10") (simp_all add: nat_to_str.simps [of n] js_digit_char_of)
qed

lemma nat_to_str_nonempty: "nat_to_str n \<noteq> []"
  by (subst nat_to_str.simps) simp

lemma digits_value_nat_to_str: "digits_value (nat_to_str n) = n"
proof (induction n rule: nat_to_str.induct)
  case (1 n)
  show ?case
  proof (cases "n < 10")
    case True
    then show ?thesis
      by (simp add: nat_to_str.simps [of n] digits_value_def digit_value_char_of)
  next
    case False
    with 1 show ?thesis
      by (simp add: nat_to_str.simps [of n] digits_value_snoc digit_value_char_of)
  qed
qed

lemma nat_to_str_inject: "nat_to_str a = nat_to_str b \<longleftrightarrow> a = b"
  by (metis digits_value_nat_to_str)

lemma int_to_str_nonneg_inject:
  "0 \<le> a \<Longrightarrow> 0 \<le> b \<Longrightarrow> int_to_str a = int_to_str b \<longleftrightarrow> a = b"
  by (auto simp: int_to_str_def nat_to_str_inject eq_nat_nat_iff)

lemma js_digit_not_space: "js_digit c \<Longrightarrow> \<not> js_space c"
  by (auto simp: js_digit_def js_space_def Let_def)

lemma js_trim_no_space:
  assumes "\<forall>c \<in> set s. \<not> js_space c"
  shows "js_trim s = s"
proof -
  have "dropWhile js_space s = s" "dropWhile js_space (rev s) = rev s"
    using assms hd_in_set [of s] hd_in_set [of "rev s"] by (auto simp: dropWhile_eq_self_iff)
  then show ?thesis by (simp add: js_trim_def)
qed

lemma js_trim_digits:
  assumes "list_all js_digit s"
  shows "js_trim s = s"
  using assms by (intro js_trim_no_space) (auto simp: list_all_iff js_digit_not_space)

lemma unsigned_decimal_digits:
  assumes "list_all js_digit s" "s \<noteq> []"
  shows "unsigned_decimal s = Some (of_nat (digits_value s))"
proof -
  have tw: "takeWhile js_digit s = s" and dw: "dropWhile js_digit s = []"
    using assms by (auto simp: list_all_iff takeWhile_eq_all_conv)
  show ?thesis
    using assms(2) by (simp only: unsigned_decimal_def Let_def tw dw) (simp add: exponent_value_def)
qed

lemma js_digit_bounds: "js_digit c \<longleftrightarrow> 48 \<le> (of_char c :: nat) \<and> (of_char c :: nat) \<le> 57"
  by (simp add: js_digit_def Let_def)

lemma js_digit_neq [simp]:
  "js_digit c \<Longrightarrow> c \<noteq> CHR ''-''" "js_digit c \<Longrightarrow> c \<noteq> CHR ''+''"
  "js_digit c \<Longrightarrow> c \<noteq> CHR '':''" "js_digit c \<Longrightarrow> c \<noteq> CHR '',''" 
  by (auto simp: js_digit_bounds)

lemma js_lower_char_digit: "js_digit c \<Longrightarrow> js_lower_char c = c"
  by (simp add: js_lower_char_def js_digit_bounds)

lemma radix_prefix_digits: "list_all js_digit s \<Longrightarrow> radix_prefix s = None"
proof (cases "length s < 3")
  case False
  assume dig: "list_all js_digit s"
  with False have d: "js_digit (s ! 1)" by (auto simp: list_all_length)
  then have "js_lower_char (s ! 1) = s ! 1" by (rule js_lower_char_digit)
  with d show ?thesis by (auto simp: radix_prefix_def js_digit_bounds)
qed (simp add: radix_prefix_def)

lemma str_to_number_nat: "str_to_number (nat_to_str n) = Some (of_nat n)"
proof -
  let ?s = "nat_to_str n"
  have dig: "list_all js_digit ?s" by (rule nat_to_str_digits)
  have ne: "?s \<noteq> []" by (rule nat_to_str_nonempty)
  have tr: "js_trim ?s = ?s" using dig by (rule js_trim_digits)
  have ud: "unsigned_decimal ?s = Some (of_nat n)"
    using unsigned_decimal_digits [OF dig ne] by (simp add: digits_value_nat_to_str)
  have "js_digit (hd ?s)" using dig ne by (cases ?s) auto
  then have "hd ?s \<noteq> CHR ''-''" "hd ?s \<noteq> CHR ''+''" by simp_all
  with ne tr ud radix_prefix_digits [OF dig] show ?thesis
    by (simp add: str_to_number_def Let_def)
qed

lemma js_split_no_sep: "c \<notin> set s \<Longrightarrow> js_split c s = [s]"
  by (induction c s rule: js_split.induct) (auto split: list.splits)

lemma js_split_sep: "c \<notin> set s \<Longrightarrow> js_split c (s @ c # r) = s # js_split c r"
  by (induction s) auto

lemma js_join_split:
  "\<forall>s \<in> set ss. c \<notin> set s \<Longrightarrow> ss \<noteq> [] \<Longrightarrow> js_split c (js_join c ss) = ss"
  by (induction c ss rule: js_join.induct) (simp_all add: js_split_no_sep js_split_sep)

lemma nat_to_str_no_sep: "\<not> js_digit c \<Longrightarrow> c \<notin> set (nat_to_str n)"
  using nat_to_str_digits [of n] by (auto simp: list_all_iff)

lemma set_js_join: "x \<in> set (js_join c ss) \<Longrightarrow> x = c \<or> (\<exists>s \<in> set ss. x \<in> set s)"
  by (induction c ss rule: js_join.induct) auto

lemma js_join_nonempty: "s \<in> set ss \<Longrightarrow> s \<noteq> [] \<Longrightarrow> js_join c ss \<noteq> []"
  by (induction c ss rule: js_join.induct) auto

lemma js_trim_join_digits:
  "\<not> js_space c \<Longrightarrow> \<forall>s \<in> set ss. list_all js_digit s \<Longrightarrow> js_trim (js_join c ss) = js_join c ss"
  by (rule js_trim_no_space) (auto simp: list_all_iff js_digit_not_space dest!: set_js_join)

lemma js_starts_with_iff: "js_starts_with p s \<longleftrightarrow> (\<exists>z. s = p @ z)"
  by (auto simp: js_starts_with_def) (metis append_take_drop_id)

text \<open>A key \<open>`${id}:...`\<close> names the identifier before its first colon and no other.\<close>

lemma key_prefix_inject:
  assumes "nat_to_str a @ CHR '':'' # x = nat_to_str b @ CHR '':'' # y"
  shows "a = b \<and> x = y"
proof -
  have na: "CHR '':'' \<notin> set (nat_to_str a)" and nb: "CHR '':'' \<notin> set (nat_to_str b)"
    by (rule nat_to_str_no_sep, simp add: js_digit_bounds)+
  have tw: "takeWhile (\<lambda>c. c \<noteq> CHR '':'') (nat_to_str n @ CHR '':'' # z) = nat_to_str n"
    if "CHR '':'' \<notin> set (nat_to_str n)" for n z
    using that by (subst takeWhile_append2) auto
  have "nat_to_str a = nat_to_str b" using assms tw [OF na] tw [OF nb] by metis
  then show ?thesis using assms by (simp add: nat_to_str_inject)
qed

end
