(* ===== verification/Port_Policy.thy ===== *)
theory Port_Policy
imports FX_Prelude "HOL-Library.Product_Lexorder"
begin

text \<open>
  The port policies of \<open>server/portPolicy.ts\<close>: the set of ports a host, a subscription or a
  forwarding group lets a rule listen on, kept as one primary range, further ranges and single
  ports.  The theory models parsing, normalising, intersecting and querying policies and picking a
  free port, and shows that a combined policy allows exactly the ports all its parts allow, that the
  two binary searches agree with linear search, and that picking a port is sound and complete.

  A port number in a hand-made policy may be any finite number (the code rounds with \<open>Math.ceil\<close>
  and \<open>Math.floor\<close>), so end points are \<open>rat\<close>; normalised intervals are integers.  The \<open>WeakSet\<close>
  \<open>normalizedPolicies\<close> is the flag \<open>pp_normalized\<close> of the policy object: \<open>normalizedPolicy\<close> sets it.
\<close>

section \<open>Policies and intervals\<close>

record port_policy_source =
  ps_portRangeStart :: jsval
  ps_portRangeEnd :: jsval
  ps_portAllowlist :: jsval
  ps_portRanges :: "(jsval \<times> jsval) list"

record port_policy =
  pp_rangeStart :: "rat option"
  pp_rangeEnd :: "rat option"
  pp_allowlist :: "rat list"
  pp_ranges :: "(rat \<times> rat) list"
  pp_denyAll :: bool
  pp_normalized :: bool

type_synonym port_interval = "int \<times> int"

definition clip_interval :: "rat \<times> rat \<Rightarrow> port_interval list" where
  "clip_interval r =
     (let start = max 1 \<lceil>fst r\<rceil>; stop = min 65535 \<lfloor>snd r\<rfloor>
      in if start \<le> stop then [(start, stop)] else [])"

text \<open>The merge loop; the accumulator is the array \<open>normalized\<close> with its last element first.\<close>

fun merge_step :: "port_interval list \<Rightarrow> port_interval \<Rightarrow> port_interval list" where
  "merge_step [] r = [r]"
| "merge_step (previous # rest) r =
     (if fst r \<le> snd previous + 1 then (fst previous, max (snd previous) (snd r)) # rest
      else r # previous # rest)"

definition normalizeIntervals :: "(rat \<times> rat) list \<Rightarrow> port_interval list" where
  "normalizeIntervals intervals =
     rev (foldl merge_step [] (sort (concat (map clip_interval intervals))))"

definition policyIntervals :: "port_policy \<Rightarrow> port_interval list" where
  "policyIntervals policy =
     (if pp_denyAll policy then []
      else normalizeIntervals
        ((case (pp_rangeStart policy, pp_rangeEnd policy) of
            (Some s, Some e) \<Rightarrow> [(s, e)] | _ \<Rightarrow> [])
         @ pp_ranges policy @ map (\<lambda>port. (port, port)) (pp_allowlist policy)))"

text \<open>The two-pointer loop; advancing an index drops the head of its list.\<close>

fun intersectIntervals :: "port_interval list \<Rightarrow> port_interval list \<Rightarrow> port_interval list" where
  "intersectIntervals [] right = []"
| "intersectIntervals left [] = []"
| "intersectIntervals (l # left) (r # right) =
     (let start = max (fst l) (fst r); stop = min (snd l) (snd r);
          here = (if start \<le> stop then [(start, stop)] else [])
      in here @ (if snd l < snd r then intersectIntervals left (r # right)
                 else intersectIntervals (l # left) right))"

section \<open>Binary search\<close>

datatype probe = Hit | GoLow | GoHigh

function bisect_loop :: "('a \<Rightarrow> probe) \<Rightarrow> 'a list \<Rightarrow> int \<Rightarrow> int \<Rightarrow> bool" where
  "bisect_loop cls values low high =
     (if low \<le> high then
        (let middle = (low + high) div 2 in
         case cls (values ! nat middle) of
           Hit \<Rightarrow> True
         | GoHigh \<Rightarrow> bisect_loop cls values (middle + 1) high
         | GoLow \<Rightarrow> bisect_loop cls values low (middle - 1))
      else False)"
  by pat_completeness auto
termination
  by (relation "measure (\<lambda>(_, _, low, high). nat (high - low + 1))") auto

declare bisect_loop.simps [simp del]

definition classify_number :: "rat \<Rightarrow> rat \<Rightarrow> probe" where
  "classify_number target value =
     (if value = target then Hit else if value < target then GoHigh else GoLow)"

definition classify_interval :: "rat \<Rightarrow> rat \<times> rat \<Rightarrow> probe" where
  "classify_interval target rng =
     (if target < fst rng then GoLow else if snd rng < target then GoHigh else Hit)"

definition sortedNumbersInclude :: "rat list \<Rightarrow> rat \<Rightarrow> bool" where
  "sortedNumbersInclude values target =
     bisect_loop (classify_number target) values 0 (int (length values) - 1)"

definition sortedIntervalsInclude :: "(rat \<times> rat) list \<Rightarrow> rat \<Rightarrow> bool" where
  "sortedIntervalsInclude intervals target =
     bisect_loop (classify_interval target) intervals 0 (int (length intervals) - 1)"

section \<open>Building policies\<close>

definition normalizedPolicy :: "port_policy \<Rightarrow> port_policy" where
  "normalizedPolicy policy = policy\<lparr>pp_normalized := True\<rparr>"

definition valid_port_number :: "rat option \<Rightarrow> int option" where
  "valid_port_number port =
     (case port of
        None \<Rightarrow> None
      | Some q \<Rightarrow> if js_is_integer q \<and> 1 \<le> q \<and> q \<le> 65535 then Some \<lfloor>q\<rfloor> else None)"

text \<open>\<open>String(value || "").trim()\<close>, split at commas, numbers that are ports, without duplicates, sorted.\<close>

definition parsePortAllowlist :: "jsval \<Rightarrow> int list" where
  "parsePortAllowlist value =
     (let text = js_trim (js_string (js_or value (JStr ''''))) in
      if text = [] then []
      else sort (js_uniq (List.map_filter (\<lambda>item. valid_port_number (str_to_number (js_trim item)))
             (js_split CHR '','' text))))"

definition normalizePortAllowlist :: "jsval \<Rightarrow> string" where
  "normalizePortAllowlist value = js_join CHR '','' (map int_to_str (parsePortAllowlist value))"

definition optionalPort :: "jsval \<Rightarrow> int option" where
  "optionalPort value =
     (if js_nullish value \<or> value = JStr '''' then None else valid_port_number (js_number value))"

definition source_ranges :: "(jsval \<times> jsval) list \<Rightarrow> (rat \<times> rat) list" where
  "source_ranges ranges =
     js_uniq (List.map_filter
       (\<lambda>range. case (optionalPort (fst range), optionalPort (snd range)) of
                  (Some s, Some e) \<Rightarrow> if s \<le> e then Some (rat_of_int s, rat_of_int e) else None
                | _ \<Rightarrow> None)
       ranges)"

text \<open>\<open>None\<close> is the source \<open>null\<close> or \<open>undefined\<close>.\<close>

definition portPolicyFrom :: "port_policy_source option \<Rightarrow> port_policy" where
  "portPolicyFrom source =
     (let rangeStart = Option.bind source (\<lambda>s. optionalPort (ps_portRangeStart s));
          rangeEnd = Option.bind source (\<lambda>s. optionalPort (ps_portRangeEnd s));
          hasValidRange = (case (rangeStart, rangeEnd) of (Some s, Some e) \<Rightarrow> s \<le> e | _ \<Rightarrow> False);
          ranges = normalizeIntervals
            (case source of None \<Rightarrow> [] | Some s \<Rightarrow> source_ranges (ps_portRanges s))
      in normalizedPolicy
           \<lparr>pp_rangeStart = (if hasValidRange then map_option rat_of_int rangeStart else None),
            pp_rangeEnd = (if hasValidRange then map_option rat_of_int rangeEnd else None),
            pp_allowlist = map rat_of_int
              (case source of None \<Rightarrow> [] | Some s \<Rightarrow> parsePortAllowlist (ps_portAllowlist s)),
            pp_ranges = map (\<lambda>(s, e). (rat_of_int s, rat_of_int e)) ranges,
            pp_denyAll = False,
            pp_normalized = False\<rparr>)"

definition portPolicyHasRestriction :: "port_policy \<Rightarrow> bool" where
  "portPolicyHasRestriction policy =
     (pp_denyAll policy
      \<or> (pp_rangeStart policy \<noteq> None \<and> pp_rangeEnd policy \<noteq> None)
      \<or> 0 < length (pp_ranges policy)
      \<or> 0 < length (pp_allowlist policy))"

definition in_primary_range :: "rat \<Rightarrow> port_policy \<Rightarrow> bool" where
  "in_primary_range port policy =
     (case (pp_rangeStart policy, pp_rangeEnd policy) of
        (Some s, Some e) \<Rightarrow> s \<le> port \<and> port \<le> e | _ \<Rightarrow> False)"

definition isPortAllowedByPolicy :: "rat \<Rightarrow> port_policy \<Rightarrow> bool" where
  "isPortAllowedByPolicy port policy =
     (if \<not> js_is_integer port \<or> port < 1 \<or> 65535 < port then False
      else if pp_denyAll policy then False
      else if \<not> portPolicyHasRestriction policy then True
      else if in_primary_range port policy then True
      else if pp_normalized policy then
        sortedIntervalsInclude (pp_ranges policy) port \<or> sortedNumbersInclude (pp_allowlist policy) port
      else list_ex (\<lambda>range. fst range \<le> port \<and> port \<le> snd range) (pp_ranges policy)
        \<or> List.member (pp_allowlist policy) port)"

fun combine_loop :: "port_interval list \<Rightarrow> port_policy list \<Rightarrow> port_interval list" where
  "combine_loop allowed [] = allowed"
| "combine_loop allowed (p # ps) =
     (if 0 < length allowed then combine_loop (intersectIntervals allowed (policyIntervals p)) ps
      else allowed)"

definition interval_span :: "port_interval \<Rightarrow> int" where
  "interval_span r = snd r - fst r"

definition best_interval_index :: "port_interval list \<Rightarrow> nat" where
  "best_interval_index allowed =
     foldl (\<lambda>best i. if interval_span (allowed ! best) < interval_span (allowed ! i) then i else best)
       0 [1..<length allowed]"

definition interval_to_rat :: "port_interval \<Rightarrow> rat \<times> rat" where
  "interval_to_rat r = (rat_of_int (fst r), rat_of_int (snd r))"

definition policy_of_intervals :: "port_interval list \<Rightarrow> port_policy" where
  "policy_of_intervals allowed =
     (let bestIndex = best_interval_index allowed;
          best = allowed ! bestIndex;
          hasPrimaryRange = fst best < snd best;
          remaining = map snd (filter (\<lambda>(index, _). \<not> hasPrimaryRange \<or> index \<noteq> bestIndex)
                        (List.enumerate 0 allowed))
      in normalizedPolicy
           \<lparr>pp_rangeStart = (if hasPrimaryRange then Some (rat_of_int (fst best)) else None),
            pp_rangeEnd = (if hasPrimaryRange then Some (rat_of_int (snd best)) else None),
            pp_allowlist = map (\<lambda>r. rat_of_int (fst r)) (filter (\<lambda>r. fst r = snd r) remaining),
            pp_ranges = map interval_to_rat (filter (\<lambda>r. fst r \<noteq> snd r) remaining),
            pp_denyAll = False,
            pp_normalized = False\<rparr>)"

definition deny_all_policy :: port_policy where
  "deny_all_policy =
     \<lparr>pp_rangeStart = None, pp_rangeEnd = None, pp_allowlist = [], pp_ranges = [],
      pp_denyAll = True, pp_normalized = False\<rparr>"

definition combinePortPolicies :: "port_policy list \<Rightarrow> port_policy" where
  "combinePortPolicies policies =
     (case filter portPolicyHasRestriction policies of
        [] \<Rightarrow> portPolicyFrom None
      | first # others \<Rightarrow>
          (let allowed = combine_loop (policyIntervals first) others in
           if length allowed = 0 then normalizedPolicy deny_all_policy
           else policy_of_intervals allowed))"

definition combineHostPortPolicyWithRange ::
  "port_policy_source option \<Rightarrow> jsval \<Rightarrow> jsval \<Rightarrow> port_policy" where
  "combineHostPortPolicyWithRange hostSource preferredStart preferredEnd =
     (let hostPolicy = portPolicyFrom hostSource in
      case (optionalPort preferredStart, optionalPort preferredEnd) of
        (Some s, Some e) \<Rightarrow>
          if e < s then hostPolicy
          else if pp_rangeStart hostPolicy = Some (rat_of_int s)
            \<and> pp_rangeEnd hostPolicy = Some (rat_of_int e) then hostPolicy
          else combinePortPolicies
            [hostPolicy, portPolicyFrom (Some
               \<lparr>ps_portRangeStart = JNum (rat_of_int s), ps_portRangeEnd = JNum (rat_of_int e),
                ps_portAllowlist = JUndef, ps_portRanges = []\<rparr>)]
      | _ \<Rightarrow> hostPolicy)"

section \<open>Picking a port\<close>

text \<open>The loop \<open>for (let port = s; port <= e; port++)\<close>.\<close>

definition count_up :: "rat \<Rightarrow> rat \<Rightarrow> rat list" where
  "count_up s e = map (\<lambda>i. s + of_nat i) [0..<nat (\<lfloor>e - s\<rfloor> + 1)]"

text \<open>\<open>addCandidate\<close> over a list of ports: used and repeated ports are skipped.\<close>

definition add_candidates :: "rat set \<Rightarrow> rat list \<Rightarrow> rat list" where
  "add_candidates used ports = js_uniq (filter (\<lambda>p. p \<notin> used) ports)"

definition policy_scan :: "port_policy \<Rightarrow> rat list" where
  "policy_scan policy =
     (case (pp_rangeStart policy, pp_rangeEnd policy) of
        (Some s, Some e) \<Rightarrow> count_up s e | _ \<Rightarrow> [])
     @ concat (map (\<lambda>range. count_up (fst range) (snd range)) (pp_ranges policy))
     @ pp_allowlist policy"

definition choose_candidate :: "rat \<Rightarrow> rat list \<Rightarrow> rat option" where
  "choose_candidate random candidates =
     (if length candidates = 0 then None
      else Some (candidates ! nat \<lfloor>random * of_nat (length candidates)\<rfloor>))"

text \<open>The scan of a large unrestricted range from a random offset: the first free port.\<close>

fun offset_scan :: "rat set \<Rightarrow> int \<Rightarrow> int \<Rightarrow> int \<Rightarrow> int list \<Rightarrow> rat option" where
  "offset_scan used start offset rng [] = None"
| "offset_scan used start offset rng (i # is) =
     (let port = rat_of_int (start + (offset + i) mod rng) in
      if port \<notin> used then Some port else offset_scan used start offset rng is)"

text \<open>\<open>random\<close> is the value \<open>Math.random()\<close> returns, in the half-open unit interval.\<close>

definition pickAvailablePort ::
  "rat \<Rightarrow> port_policy \<Rightarrow> rat set \<Rightarrow> int \<times> int \<Rightarrow> rat option" where
  "pickAvailablePort random policy used defaults =
     (if portPolicyHasRestriction policy then
        choose_candidate random (add_candidates used (policy_scan policy))
      else
        (let start = max 1 (min 65535 (fst defaults));
             stop = max start (min 65535 (snd defaults));
             range = stop - start + 1
         in if range \<le> 10000 then
              choose_candidate random (add_candidates used (map rat_of_int [start..stop]))
            else
              (let offset = \<lfloor>random * of_int range\<rfloor> in
               offset_scan used start offset range [0..range - 1])))"

section \<open>Interval lists as sets of ports\<close>

definition covers :: "port_interval list \<Rightarrow> int \<Rightarrow> bool" where
  "covers xs p = (\<exists>r \<in> set xs. fst r \<le> p \<and> p \<le> snd r)"

definition raw_covers :: "(rat \<times> rat) list \<Rightarrow> int \<Rightarrow> bool" where
  "raw_covers xs p = (\<exists>r \<in> set xs. fst r \<le> rat_of_int p \<and> rat_of_int p \<le> snd r)"

definition separated :: "port_interval list \<Rightarrow> bool" where
  "separated xs = (sorted_wrt (\<lambda>a b. snd a < fst b) xs \<and> (\<forall>r \<in> set xs. fst r \<le> snd r))"

definition in_port_domain :: "port_interval list \<Rightarrow> bool" where
  "in_port_domain xs = (\<forall>r \<in> set xs. 1 \<le> fst r \<and> snd r \<le> 65535)"

lemma covers_Nil [simp]: "\<not> covers [] p"
  by (simp add: covers_def)

lemma covers_Cons [simp]: "covers (r # xs) p \<longleftrightarrow> fst r \<le> p \<and> p \<le> snd r \<or> covers xs p"
  by (simp add: covers_def)

lemma covers_append [simp]: "covers (xs @ ys) p \<longleftrightarrow> covers xs p \<or> covers ys p"
  by (auto simp: covers_def)

lemma covers_set_cong: "set xs = set ys \<Longrightarrow> covers xs p = covers ys p"
  by (simp add: covers_def)

lemma covers_rev [simp]: "covers (rev xs) p = covers xs p"
  by (rule covers_set_cong) simp

lemma covers_sort [simp]: "covers (sort xs) p = covers xs p"
  by (rule covers_set_cong) simp

lemma separated_Nil [simp]: "separated []"
  by (simp add: separated_def)

lemma separated_Cons:
  "separated (r # xs) \<longleftrightarrow> fst r \<le> snd r \<and> (\<forall>x \<in> set xs. snd r < fst x) \<and> separated xs"
  by (auto simp: separated_def)

lemma separated_filter: "separated xs \<Longrightarrow> separated (filter P xs)"
  by (auto simp: separated_def sorted_wrt_filter)

lemma covers_clip_interval:
  "covers (clip_interval r) p \<longleftrightarrow>
     1 \<le> p \<and> p \<le> 65535 \<and> fst r \<le> rat_of_int p \<and> rat_of_int p \<le> snd r"
proof -
  have "covers (clip_interval r) p \<longleftrightarrow> max 1 \<lceil>fst r\<rceil> \<le> p \<and> p \<le> min 65535 \<lfloor>snd r\<rfloor>"
    unfolding clip_interval_def Let_def by (auto simp del: max.bounded_iff min.bounded_iff)
  then show ?thesis by (auto simp: ceiling_le_iff le_floor_iff)
qed

lemma covers_clip:
  "covers (concat (map clip_interval xs)) p \<longleftrightarrow> 1 \<le> p \<and> p \<le> 65535 \<and> raw_covers xs p"
  by (induction xs) (auto simp: covers_clip_interval raw_covers_def)

lemma clip_in_domain: "in_port_domain (concat (map clip_interval xs))"
  by (auto simp: in_port_domain_def clip_interval_def Let_def split: if_splits)

lemma clip_nonempty: "r \<in> set (concat (map clip_interval xs)) \<Longrightarrow> fst r \<le> snd r"
  by (auto simp: clip_interval_def Let_def split: if_splits)

text \<open>The merge loop keeps its intervals apart and loses no port.\<close>

definition descending_apart :: "port_interval list \<Rightarrow> bool" where
  "descending_apart acc =
     (sorted_wrt (\<lambda>a b. snd b < fst a) acc \<and> (\<forall>r \<in> set acc. fst r \<le> snd r))"

lemma merge_step_apart:
  assumes "descending_apart acc" "fst r \<le> snd r" "\<forall>a \<in> set acc. fst a \<le> fst r"
  shows "descending_apart (merge_step acc r)"
    and "covers (merge_step acc r) p \<longleftrightarrow> covers acc p \<or> fst r \<le> p \<and> p \<le> snd r"
    and "\<forall>a \<in> set (merge_step acc r). fst a \<le> fst r"
  using assms by (cases acc; auto simp: descending_apart_def max_def)+

lemma foldl_merge_step:
  assumes "sorted_wrt (\<lambda>a b. fst a \<le> fst b) rs" "\<forall>r \<in> set rs. fst r \<le> snd r"
    "descending_apart acc" "\<forall>a \<in> set acc. \<forall>r \<in> set rs. fst a \<le> fst r"
  shows "descending_apart (foldl merge_step acc rs)
    \<and> (\<forall>p. covers (foldl merge_step acc rs) p \<longleftrightarrow> covers acc p \<or> covers rs p)"
  using assms
proof (induction rs arbitrary: acc)
  case Nil
  then show ?case by simp
next
  case (Cons r rs)
  have r: "descending_apart acc" "fst r \<le> snd r" "\<forall>a \<in> set acc. fst a \<le> fst r"
    using Cons.prems by auto
  have "\<forall>a \<in> set (merge_step acc r). \<forall>x \<in> set rs. fst a \<le> fst x"
    using merge_step_apart(3) [OF r] Cons.prems(1) by fastforce
  with Cons.IH [OF _ _ merge_step_apart(1) [OF r]] Cons.prems show ?case
    by (auto simp: merge_step_apart(2) [OF r])
qed

lemma merge_step_domain:
  "in_port_domain acc \<Longrightarrow> 1 \<le> fst r \<Longrightarrow> snd r \<le> 65535 \<Longrightarrow> in_port_domain (merge_step acc r)"
  by (cases acc) (auto simp: in_port_domain_def)

lemma foldl_merge_step_domain:
  "in_port_domain acc \<Longrightarrow> in_port_domain rs \<Longrightarrow> in_port_domain (foldl merge_step acc rs)"
proof (induction rs arbitrary: acc)
  case (Cons r rs)
  have "in_port_domain (merge_step acc r)"
    using Cons.prems by (intro merge_step_domain) (auto simp: in_port_domain_def)
  moreover have "in_port_domain rs" using Cons.prems(2) by (simp add: in_port_domain_def)
  ultimately show ?case using Cons.IH by simp
qed simp

lemma normalizeIntervals_correct:
  shows normalizeIntervals_separated: "separated (normalizeIntervals xs)"
    and covers_normalizeIntervals:
      "covers (normalizeIntervals xs) p \<longleftrightarrow> 1 \<le> p \<and> p \<le> 65535 \<and> raw_covers xs p"
proof -
  let ?c = "sort (concat (map clip_interval xs))"
  have "sorted ?c" by simp
  then have s: "sorted_wrt (\<lambda>a b. fst a \<le> fst b) ?c"
    by (rule sorted_wrt_mono_rel [rotated]) (auto simp: less_eq_prod_def)
  have ne: "\<forall>r \<in> set ?c. fst r \<le> snd r" using clip_nonempty by auto
  have "descending_apart (foldl merge_step [] ?c)
      \<and> (\<forall>p. covers (foldl merge_step [] ?c) p \<longleftrightarrow> covers [] p \<or> covers ?c p)"
    by (rule foldl_merge_step [OF s ne]) (simp_all add: descending_apart_def)
  then show "separated (normalizeIntervals xs)"
    and "covers (normalizeIntervals xs) p \<longleftrightarrow> 1 \<le> p \<and> p \<le> 65535 \<and> raw_covers xs p"
    by (auto simp: normalizeIntervals_def descending_apart_def separated_def sorted_wrt_rev covers_clip)
qed

lemma normalizeIntervals_domain: "in_port_domain (normalizeIntervals xs)"
proof -
  have "in_port_domain (foldl merge_step [] (sort (concat (map clip_interval xs))))"
    using clip_in_domain [of xs] by (intro foldl_merge_step_domain) (auto simp: in_port_domain_def)
  then show ?thesis by (simp add: normalizeIntervals_def in_port_domain_def)
qed

text \<open>The two-pointer loop intersects.\<close>

lemma intersect_bounds:
  "x \<in> set (intersectIntervals ls rs) \<Longrightarrow>
   fst x \<le> snd x \<and> (\<exists>l \<in> set ls. fst l \<le> fst x \<and> snd x \<le> snd l)
     \<and> (\<exists>r \<in> set rs. fst r \<le> fst x \<and> snd x \<le> snd r)"
proof (induction ls rs rule: intersectIntervals.induct)
  case (3 l left r right)
  show ?case
  proof (cases "x = (max (fst l) (fst r), min (snd l) (snd r)) \<and> fst x \<le> snd x")
    case True
    then show ?thesis by auto
  next
    case False
    then have "x \<in> set (if snd l < snd r then intersectIntervals left (r # right)
                 else intersectIntervals (l # left) right)"
      using "3.prems" by (auto simp: Let_def split: if_splits)
    then show ?thesis using 3 by (auto split: if_splits)
  qed
qed simp_all

lemma intersectIntervals_correct:
  assumes "separated ls" "separated rs"
  shows "separated (intersectIntervals ls rs)
    \<and> (covers (intersectIntervals ls rs) p \<longleftrightarrow> covers ls p \<and> covers rs p)"
  using assms
proof (induction ls rs rule: intersectIntervals.induct)
  case (3 l left r right)
  let ?start = "max (fst l) (fst r)" and ?stop = "min (snd l) (snd r)"
  let ?rest = "if snd l < snd r then intersectIntervals left (r # right)
                 else intersectIntervals (l # left) right"
  have rest: "separated ?rest" "covers ?rest p \<longleftrightarrow>
      (if snd l < snd r then covers left p \<and> covers (r # right) p
       else covers (l # left) p \<and> covers right p)"
    using 3 by (auto simp: separated_Cons)
  have later: "?stop < fst x" if x: "x \<in> set ?rest" for x
  proof (cases "snd l < snd r")
    case True
    with x obtain l' where "l' \<in> set left" "fst l' \<le> fst x" by (auto dest!: intersect_bounds)
    with "3.prems" True show ?thesis by (fastforce simp: separated_Cons)
  next
    case False
    with x obtain r' where "r' \<in> set right" "fst r' \<le> fst x" by (auto dest!: intersect_bounds)
    with "3.prems" False show ?thesis by (fastforce simp: separated_Cons)
  qed
  have sep: "separated (intersectIntervals (l # left) (r # right))"
    using rest(1) later by (auto simp: Let_def separated_Cons)
  have left: "covers left p \<Longrightarrow> snd l < p" and right: "covers right p \<Longrightarrow> snd r < p"
    using "3.prems" by (fastforce simp: separated_Cons covers_def)+
  have "covers (intersectIntervals (l # left) (r # right)) p
      \<longleftrightarrow> ?start \<le> p \<and> p \<le> ?stop \<or> covers ?rest p"
    by (auto simp: Let_def)
  also have "\<dots> \<longleftrightarrow> covers (l # left) p \<and> covers (r # right) p"
    unfolding rest(2) using left right by auto
  finally show ?case using sep by blast
qed simp_all

lemma intersectIntervals_domain:
  "in_port_domain ls \<Longrightarrow> in_port_domain (intersectIntervals ls rs)"
  by (fastforce simp: in_port_domain_def dest: intersect_bounds)


section \<open>Binary search is linear search\<close>

text \<open>
  A classifier is bisectable on a list when \<open>GoLow\<close> rules out everything from the probed element
  on and \<open>GoHigh\<close> everything up to it.
\<close>

locale bisectable =
  fixes cls :: "'b \<Rightarrow> 'a \<Rightarrow> probe" and ordered :: "'a list \<Rightarrow> bool"
  assumes low: "ordered xs \<Longrightarrow> i \<le> j \<Longrightarrow> j < length xs \<Longrightarrow> cls t (xs ! i) = GoLow \<Longrightarrow> cls t (xs ! j) \<noteq> Hit"
    and high: "ordered xs \<Longrightarrow> j \<le> i \<Longrightarrow> i < length xs \<Longrightarrow> cls t (xs ! i) = GoHigh \<Longrightarrow> cls t (xs ! j) \<noteq> Hit"
begin

lemma bisect_between:
  assumes "ordered xs" "0 \<le> lo" "hi < int (length xs)"
  shows "bisect_loop (cls t) xs lo hi \<longleftrightarrow> (\<exists>i. lo \<le> int i \<and> int i \<le> hi \<and> cls t (xs ! i) = Hit)"
  using assms
proof (induction "cls t" xs lo hi rule: bisect_loop.induct)
  case (1 ys lo hi)
  show ?case
  proof (cases "lo \<le> hi")
    case False
    then show ?thesis by (simp add: bisect_loop.simps [of "cls t"])
  next
    case True
    define m where "m = (lo + hi) div 2"
    have m: "lo \<le> m" "m \<le> hi" "0 \<le> m" "m < int (length ys)"
      using True "1.prems" by (auto simp: m_def)
    note step = bisect_loop.simps [of "cls t" ys lo hi, folded m_def]
    show ?thesis
    proof (cases "cls t (ys ! nat m)")
      case Hit
      then show ?thesis using True m step by (auto intro!: exI [of _ "nat m"])
    next
      case GoLow
      have "bisect_loop (cls t) ys lo hi = bisect_loop (cls t) ys lo (m - 1)"
        using True GoLow step by simp
      also have "\<dots> \<longleftrightarrow> (\<exists>i. lo \<le> int i \<and> int i \<le> m - 1 \<and> cls t (ys ! i) = Hit)"
        using "1.hyps"(1) [OF True m_def GoLow] "1.prems" m by simp
      also have "\<dots> \<longleftrightarrow> (\<exists>i. lo \<le> int i \<and> int i \<le> hi \<and> cls t (ys ! i) = Hit)"
      proof -
        have "int i \<le> m - 1" if "int i \<le> hi" "cls t (ys ! i) = Hit" for i
          using low [OF "1.prems"(1) _ _ GoLow, of i] that "1.prems"(3) m by force
        then show ?thesis using m by fastforce
      qed
      finally show ?thesis .
    next
      case GoHigh
      have "bisect_loop (cls t) ys lo hi = bisect_loop (cls t) ys (m + 1) hi"
        using True GoHigh step by simp
      also have "\<dots> \<longleftrightarrow> (\<exists>i. m + 1 \<le> int i \<and> int i \<le> hi \<and> cls t (ys ! i) = Hit)"
        using "1.hyps"(2) [OF True m_def GoHigh] "1.prems" m by simp
      also have "\<dots> \<longleftrightarrow> (\<exists>i. lo \<le> int i \<and> int i \<le> hi \<and> cls t (ys ! i) = Hit)"
      proof -
        have "m + 1 \<le> int i" if "cls t (ys ! i) = Hit" for i
          using high [OF "1.prems"(1) _ _ GoHigh, of i] that m by force
        then show ?thesis using m by (intro iff_exI) force
      qed
      finally show ?thesis .
    qed
  qed
qed

lemma bisect_linear:
  assumes "ordered xs"
  shows "bisect_loop (cls t) xs 0 (int (length xs) - 1) \<longleftrightarrow> (\<exists>x \<in> set xs. cls t x = Hit)"
  using bisect_between [OF assms, of 0 "int (length xs) - 1" t]
  by (fastforce simp: in_set_conv_nth)

end

definition sorted_ranges :: "(rat \<times> rat) list \<Rightarrow> bool" where
  "sorted_ranges xs = (sorted_wrt (\<lambda>a b. snd a < fst b) xs \<and> (\<forall>r \<in> set xs. fst r \<le> snd r))"

interpretation number_search: bisectable classify_number "sorted_wrt (<)"
proof unfold_locales
  fix xs :: "rat list" and i j t
  assume s: "sorted_wrt (<) xs"
  show "classify_number t (xs ! j) \<noteq> Hit"
    if "i \<le> j" "j < length xs" "classify_number t (xs ! i) = GoLow"
    using that sorted_wrt_nth_less [OF s, of i j]
    by (cases "i = j") (auto simp: classify_number_def split: if_splits)
  show "classify_number t (xs ! j) \<noteq> Hit"
    if "j \<le> i" "i < length xs" "classify_number t (xs ! i) = GoHigh"
    using that sorted_wrt_nth_less [OF s, of j i]
    by (cases "i = j") (auto simp: classify_number_def split: if_splits)
qed

interpretation interval_search: bisectable classify_interval sorted_ranges
proof unfold_locales
  fix xs :: "(rat \<times> rat) list" and i j t
  assume "sorted_ranges xs"
  then have s: "sorted_wrt (\<lambda>a b. snd a < fst b) xs" and ne: "\<And>k. k < length xs \<Longrightarrow> fst (xs ! k) \<le> snd (xs ! k)"
    by (auto simp: sorted_ranges_def)
  show "classify_interval t (xs ! j) \<noteq> Hit"
    if "i \<le> j" "j < length xs" "classify_interval t (xs ! i) = GoLow"
    using that sorted_wrt_nth_less [OF s, of i j] ne [of i]
    by (cases "i = j") (auto simp: classify_interval_def split: if_splits)
  show "classify_interval t (xs ! j) \<noteq> Hit"
    if "j \<le> i" "i < length xs" "classify_interval t (xs ! i) = GoHigh"
    using that sorted_wrt_nth_less [OF s, of j i] ne [of i]
    by (cases "i = j") (auto simp: classify_interval_def split: if_splits)
qed

lemma sortedNumbersInclude_linear:
  "sorted_wrt (<) values \<Longrightarrow> sortedNumbersInclude values target \<longleftrightarrow> target \<in> set values"
  by (auto simp: sortedNumbersInclude_def number_search.bisect_linear classify_number_def)

lemma sortedIntervalsInclude_linear:
  "sorted_ranges rs \<Longrightarrow>
   sortedIntervalsInclude rs target \<longleftrightarrow> (\<exists>r \<in> set rs. fst r \<le> target \<and> target \<le> snd r)"
  by (auto simp: sortedIntervalsInclude_def interval_search.bisect_linear classify_interval_def
      not_less intro: ccontr)

section \<open>Well-formed policies\<close>

text \<open>
  The invariant behind the two searches: what is registered in \<open>normalizedPolicies\<close> is sorted.
  A policy that denies everything, as the code builds it, lists no port.
\<close>

definition policy_ok :: "port_policy \<Rightarrow> bool" where
  "policy_ok policy =
     ((pp_normalized policy \<longrightarrow>
        sorted_wrt (<) (pp_allowlist policy) \<and> sorted_ranges (pp_ranges policy))
      \<and> (pp_denyAll policy \<longrightarrow> pp_rangeStart policy = None \<and> pp_ranges policy = []
          \<and> pp_allowlist policy = []))"

definition listed :: "port_policy \<Rightarrow> rat \<Rightarrow> bool" where
  "listed policy port =
     (in_primary_range port policy
      \<or> (\<exists>r \<in> set (pp_ranges policy). fst r \<le> port \<and> port \<le> snd r)
      \<or> port \<in> set (pp_allowlist policy))"

definition valid_port :: "rat \<Rightarrow> bool" where
  "valid_port port = (js_is_integer port \<and> 1 \<le> port \<and> port \<le> 65535)"

lemma allowed_iff:
  assumes "policy_ok policy"
  shows "isPortAllowedByPolicy port policy \<longleftrightarrow>
    valid_port port \<and> \<not> pp_denyAll policy \<and> (portPolicyHasRestriction policy \<longrightarrow> listed policy port)"
  using assms
  by (auto simp: isPortAllowedByPolicy_def valid_port_def listed_def policy_ok_def list_ex_iff
      sortedNumbersInclude_linear sortedIntervalsInclude_linear)

lemma covers_policyIntervals:
  "covers (policyIntervals policy) p \<longleftrightarrow>
     valid_port (rat_of_int p) \<and> \<not> pp_denyAll policy \<and> listed policy (rat_of_int p)"
  by (auto simp: policyIntervals_def covers_normalizeIntervals raw_covers_def listed_def valid_port_def
      in_primary_range_def bex_Un split: option.splits)

lemma restricted_allowed:
  assumes "policy_ok policy" "portPolicyHasRestriction policy"
  shows "isPortAllowedByPolicy (rat_of_int p) policy \<longleftrightarrow> covers (policyIntervals policy) p"
  using assms by (auto simp: allowed_iff covers_policyIntervals)

lemma policyIntervals_separated: "separated (policyIntervals policy)"
  by (simp add: policyIntervals_def normalizeIntervals_separated)

lemma policyIntervals_domain: "in_port_domain (policyIntervals policy)"
  using normalizeIntervals_domain by (auto simp: policyIntervals_def in_port_domain_def)

lemma combine_loop_correct:
  "separated allowed \<Longrightarrow>
   separated (combine_loop allowed ps)
     \<and> (covers (combine_loop allowed ps) p
          \<longleftrightarrow> covers allowed p \<and> (\<forall>q \<in> set ps. covers (policyIntervals q) p))"
proof (induction ps arbitrary: allowed)
  case (Cons q ps)
  show ?case
  proof (cases "allowed = []")
    case False
    have "separated (intersectIntervals allowed (policyIntervals q))
        \<and> (covers (intersectIntervals allowed (policyIntervals q)) p
             \<longleftrightarrow> covers allowed p \<and> covers (policyIntervals q) p)"
      by (rule intersectIntervals_correct [OF Cons.prems policyIntervals_separated])
    then show ?thesis using Cons.IH False by auto
  qed simp
qed simp

lemma combine_loop_domain: "in_port_domain allowed \<Longrightarrow> in_port_domain (combine_loop allowed ps)"
  by (induction ps arbitrary: allowed) (auto simp: intersectIntervals_domain)

text \<open>The split of the intersection into a primary range, ranges and single ports loses nothing.\<close>

lemma best_interval_index_less:
  "xs \<noteq> [] \<Longrightarrow> best_interval_index xs < length xs"
proof -
  assume ne: "xs \<noteq> []"
  have "foldl (\<lambda>best i. if interval_span (xs ! best) < interval_span (xs ! i) then i else best) b is
      < length xs" if "b < length xs" "\<forall>i \<in> set is. i < length xs" for b "is"
    using that by (induction "is" arbitrary: b) auto
  then show ?thesis using ne by (simp add: best_interval_index_def)
qed

lemma enumerate_filter_set:
  "set (map snd (filter (\<lambda>(i, _). Q i) (List.enumerate 0 xs))) = {xs ! i | i. i < length xs \<and> Q i}"
  by (force simp: in_set_enumerate_eq image_iff)

lemma enumerate_filter_sorted:
  "sorted_wrt R xs \<Longrightarrow> sorted_wrt R (map snd (filter (\<lambda>(i, _). Q i) (List.enumerate n xs)))"
proof (induction xs arbitrary: n)
  case (Cons x xs)
  have "set (map snd (filter (\<lambda>(i, _). Q i) (List.enumerate (Suc n) xs))) \<subseteq> set xs"
    by (auto simp: in_set_enumerate_eq)
  then show ?case using Cons by fastforce
qed simp

definition remaining_intervals :: "port_interval list \<Rightarrow> port_interval list" where
  "remaining_intervals allowed =
     map snd (filter (\<lambda>(index, _).
         \<not> fst (allowed ! best_interval_index allowed) < snd (allowed ! best_interval_index allowed)
           \<or> index \<noteq> best_interval_index allowed)
       (List.enumerate 0 allowed))"

lemma remaining_intervals_set:
  assumes "allowed \<noteq> []"
  shows "r \<in> set allowed \<longleftrightarrow>
    r \<in> set (remaining_intervals allowed)
      \<or> r = allowed ! best_interval_index allowed"
proof -
  have "set (remaining_intervals allowed) \<subseteq> set allowed"
    unfolding remaining_intervals_def enumerate_filter_set by auto
  moreover have "allowed ! best_interval_index allowed \<in> set allowed"
    using best_interval_index_less [OF assms] by simp
  moreover have "r \<in> set (remaining_intervals allowed)"
    if "r \<in> set allowed" "r \<noteq> allowed ! best_interval_index allowed"
  proof -
    from that(1) obtain i where "i < length allowed" "r = allowed ! i" by (auto simp: in_set_conv_nth)
    with that(2) show ?thesis unfolding remaining_intervals_def enumerate_filter_set by auto
  qed
  ultimately show ?thesis by auto
qed

lemma remaining_intervals_best:
  assumes "allowed \<noteq> []"
    "\<not> fst (allowed ! best_interval_index allowed) < snd (allowed ! best_interval_index allowed)"
  shows "allowed ! best_interval_index allowed \<in> set (remaining_intervals allowed)"
  using assms(2) best_interval_index_less [OF assms(1)]
  unfolding remaining_intervals_def enumerate_filter_set by auto

lemma policy_of_intervals_simps:
  fixes allowed defines "best \<equiv> allowed ! best_interval_index allowed"
  shows "pp_rangeStart (policy_of_intervals allowed) =
      (if fst best < snd best then Some (rat_of_int (fst best)) else None)"
    and "pp_rangeEnd (policy_of_intervals allowed) =
      (if fst best < snd best then Some (rat_of_int (snd best)) else None)"
    and "pp_allowlist (policy_of_intervals allowed) =
      map (\<lambda>r. rat_of_int (fst r)) (filter (\<lambda>r. fst r = snd r) (remaining_intervals allowed))"
    and "pp_ranges (policy_of_intervals allowed) =
      map interval_to_rat (filter (\<lambda>r. fst r \<noteq> snd r) (remaining_intervals allowed))"
    and "pp_denyAll (policy_of_intervals allowed) = False"
    and "pp_normalized (policy_of_intervals allowed) = True"
  by (simp_all add: policy_of_intervals_def normalizedPolicy_def remaining_intervals_def best_def Let_def)

lemma listed_policy_of_intervals:
  assumes "separated allowed" "allowed \<noteq> []"
  shows "listed (policy_of_intervals allowed) (rat_of_int p) \<longleftrightarrow> covers allowed p"
proof -
  let ?best = "allowed ! best_interval_index allowed"
  let ?rem = "remaining_intervals allowed"
  have "covers allowed p \<longleftrightarrow> covers ?rem p \<or> fst ?best \<le> p \<and> p \<le> snd ?best"
    unfolding covers_def using remaining_intervals_set [OF assms(2)] by blast
  also have "\<dots> \<longleftrightarrow> covers ?rem p \<or> fst ?best < snd ?best \<and> fst ?best \<le> p \<and> p \<le> snd ?best"
    using remaining_intervals_best [OF assms(2)] by (auto simp: covers_def not_less)
  also have "covers ?rem p \<longleftrightarrow>
      (\<exists>r \<in> set (pp_ranges (policy_of_intervals allowed)).
          fst r \<le> rat_of_int p \<and> rat_of_int p \<le> snd r)
        \<or> rat_of_int p \<in> set (pp_allowlist (policy_of_intervals allowed))"
  proof -
    have "(\<exists>r \<in> set ?rem. fst r \<le> p \<and> p \<le> snd r) \<longleftrightarrow>
        (\<exists>r \<in> set ?rem. fst r \<noteq> snd r \<and> fst r \<le> p \<and> p \<le> snd r)
          \<or> (\<exists>r \<in> set ?rem. fst r = snd r \<and> p = fst r)"
      by (metis order_antisym order_refl)
    also have "(\<exists>r \<in> set ?rem. fst r = snd r \<and> p = fst r)
        \<longleftrightarrow> rat_of_int p \<in> set (pp_allowlist (policy_of_intervals allowed))"
      unfolding policy_of_intervals_simps by (simp add: image_iff Bex_def)
    finally show ?thesis
      by (simp add: covers_def policy_of_intervals_simps interval_to_rat_def Bex_def conj_assoc)
  qed
  also have "(\<dots> \<or> fst ?best < snd ?best \<and> fst ?best \<le> p \<and> p \<le> snd ?best)
      \<longleftrightarrow> listed (policy_of_intervals allowed) (rat_of_int p)"
    unfolding listed_def in_primary_range_def by (simp add: policy_of_intervals_simps) blast
  finally show ?thesis by simp
qed

lemma policy_of_intervals_restricted:
  assumes "allowed \<noteq> []"
  shows "portPolicyHasRestriction (policy_of_intervals allowed)"
proof -
  let ?best = "allowed ! best_interval_index allowed"
  show ?thesis
  proof (cases "fst ?best < snd ?best")
    case False
    then have "?best \<in> set (remaining_intervals allowed)"
      using remaining_intervals_best assms by blast
    then have "filter (\<lambda>r. fst r = snd r) (remaining_intervals allowed) \<noteq> []
        \<or> filter (\<lambda>r. fst r \<noteq> snd r) (remaining_intervals allowed) \<noteq> []"
      by (force simp: filter_empty_conv)
    then show ?thesis by (simp add: portPolicyHasRestriction_def policy_of_intervals_simps) blast
  qed (simp add: portPolicyHasRestriction_def policy_of_intervals_simps)
qed

lemma sorted_ranges_map:
  "separated xs \<Longrightarrow> sorted_ranges (map interval_to_rat xs)"
  by (auto simp: sorted_ranges_def separated_def sorted_wrt_map interval_to_rat_def)

lemma separated_starts_sorted:
  "separated xs \<Longrightarrow> sorted_wrt (<) (map (\<lambda>r. rat_of_int (fst r)) xs)"
  unfolding sorted_wrt_map separated_def
  by (auto elim!: sorted_wrt_mono_rel [rotated])

lemma separated_remaining: "separated allowed \<Longrightarrow> separated (remaining_intervals allowed)"
proof -
  assume sep: "separated allowed"
  have "set (remaining_intervals allowed) \<subseteq> set allowed"
    unfolding remaining_intervals_def enumerate_filter_set by auto
  moreover have "sorted_wrt (\<lambda>a b. snd a < fst b) (remaining_intervals allowed)"
    using sep unfolding remaining_intervals_def separated_def by (simp add: enumerate_filter_sorted)
  ultimately show ?thesis using sep unfolding separated_def by blast
qed

lemma policy_of_intervals_ok:
  "separated allowed \<Longrightarrow> policy_ok (policy_of_intervals allowed)"
  by (auto simp: policy_ok_def policy_of_intervals_simps
      intro!: sorted_ranges_map separated_starts_sorted separated_filter separated_remaining)

lemma parsePortAllowlist_ports:
  "sorted_wrt (<) (parsePortAllowlist v) \<and> (\<forall>p \<in> set (parsePortAllowlist v). 1 \<le> p \<and> p \<le> 65535)"
  by (auto simp: parsePortAllowlist_def Let_def strict_sorted_iff set_map_filter valid_port_number_def
      le_floor_iff floor_le_iff js_is_integer_def split: option.splits if_splits)

lemma portPolicyFrom_ok: "policy_ok (portPolicyFrom source)"
proof -
  have "sorted_wrt (<) (map rat_of_int (parsePortAllowlist v))" for v
    using parsePortAllowlist_ports by (simp add: sorted_wrt_map)
  moreover have "sorted_ranges (map (\<lambda>(s, e). (rat_of_int s, rat_of_int e)) (normalizeIntervals xs))" for xs
    using sorted_ranges_map [OF normalizeIntervals_separated [of xs]]
    unfolding interval_to_rat_def case_prod_unfold .
  ultimately show ?thesis
    by (simp add: policy_ok_def portPolicyFrom_def normalizedPolicy_def Let_def split: option.split)
qed

lemma portPolicyFrom_none: "\<not> portPolicyHasRestriction (portPolicyFrom None)"
  by (simp add: portPolicyHasRestriction_def portPolicyFrom_def normalizedPolicy_def Let_def
      parsePortAllowlist_def normalizeIntervals_def)

lemma combinePortPolicies_ok: "policy_ok (combinePortPolicies policies)"
proof (cases "filter portPolicyHasRestriction policies")
  case Nil
  then show ?thesis by (simp add: combinePortPolicies_def portPolicyFrom_ok)
next
  case (Cons first others)
  have "separated (combine_loop (policyIntervals first) others)"
    using combine_loop_correct [OF policyIntervals_separated] by blast
  then show ?thesis
    using Cons by (simp add: combinePortPolicies_def Let_def policy_of_intervals_ok)
      (simp add: policy_ok_def normalizedPolicy_def deny_all_policy_def sorted_ranges_def)
qed

lemma isPortAllowed_valid: "isPortAllowedByPolicy port policy \<Longrightarrow> valid_port port"
  by (auto simp: isPortAllowedByPolicy_def valid_port_def split: if_splits)

lemma unrestricted_allowed:
  "valid_port port \<Longrightarrow> \<not> portPolicyHasRestriction policy \<Longrightarrow> isPortAllowedByPolicy port policy"
  by (auto simp: isPortAllowedByPolicy_def valid_port_def portPolicyHasRestriction_def)

lemma combine_allowed_int:
  assumes ok: "\<forall>q \<in> set policies. policy_ok q" and p: "valid_port (rat_of_int p)"
  shows "isPortAllowedByPolicy (rat_of_int p) (combinePortPolicies policies)
    \<longleftrightarrow> (\<forall>q \<in> set policies. isPortAllowedByPolicy (rat_of_int p) q)"
proof -
  let ?r = "filter portPolicyHasRestriction policies"
  have all: "(\<forall>q \<in> set policies. isPortAllowedByPolicy (rat_of_int p) q)
      \<longleftrightarrow> (\<forall>q \<in> set ?r. covers (policyIntervals q) p)"
    using ok p by (metis (no_types, lifting) mem_Collect_eq restricted_allowed set_filter unrestricted_allowed)
  show ?thesis
  proof (cases ?r)
    case Nil
    then show ?thesis
      unfolding all using p portPolicyFrom_none portPolicyFrom_ok [of None]
      by (simp add: combinePortPolicies_def allowed_iff portPolicyFrom_def normalizedPolicy_def Let_def
          portPolicyHasRestriction_def)
  next
    case (Cons first others)
    let ?a = "combine_loop (policyIntervals first) others"
    have c: "separated ?a" "covers ?a p \<longleftrightarrow> (\<forall>q \<in> set ?r. covers (policyIntervals q) p)"
      using combine_loop_correct [OF policyIntervals_separated, of first others p] Cons by auto
    have m: "combinePortPolicies policies =
        (if ?a = [] then normalizedPolicy deny_all_policy else policy_of_intervals ?a)"
      using Cons by (simp add: combinePortPolicies_def Let_def)
    show ?thesis
    proof (cases "?a = []")
      case True
      then show ?thesis unfolding all m using c
        by (simp add: isPortAllowedByPolicy_def normalizedPolicy_def deny_all_policy_def)
    next
      case False
      then show ?thesis unfolding all m
        using c p allowed_iff [OF policy_of_intervals_ok [OF c(1)], of "rat_of_int p"]
          listed_policy_of_intervals [OF c(1) False, of p] policy_of_intervals_restricted [OF False]
        by (simp add: policy_of_intervals_simps)
    qed
  qed
qed

section \<open>Policies over ports only\<close>

text \<open>The policies the panel builds list whole ports only.\<close>

definition policy_ports :: "port_policy \<Rightarrow> bool" where
  "policy_ports policy =
     ((\<forall>s. pp_rangeStart policy = Some s \<longrightarrow> valid_port s)
      \<and> (\<forall>e. pp_rangeEnd policy = Some e \<longrightarrow> valid_port e)
      \<and> (\<forall>r \<in> set (pp_ranges policy). valid_port (fst r) \<and> valid_port (snd r))
      \<and> (\<forall>p \<in> set (pp_allowlist policy). valid_port p))"

lemma valid_port_of_int [simp]: "valid_port (rat_of_int i) \<longleftrightarrow> 1 \<le> i \<and> i \<le> 65535"
  by (simp add: valid_port_def)

lemma valid_portE:
  assumes "valid_port p"
  obtains i where "p = rat_of_int i" "1 \<le> i" "i \<le> 65535"
  using assms by (metis js_is_integerE valid_port_def valid_port_of_int)

lemma optionalPort_valid: "optionalPort v = Some p \<Longrightarrow> 1 \<le> p \<and> p \<le> 65535"
  by (auto simp: optionalPort_def valid_port_number_def js_is_integer_def le_floor_iff floor_le_iff
      split: option.splits if_splits)

lemma portPolicyFrom_ports: "policy_ports (portPolicyFrom source)"
proof -
  have dom: "1 \<le> s \<and> s \<le> 65535 \<and> 1 \<le> e \<and> e \<le> 65535"
    if "(s, e) \<in> set (normalizeIntervals xs)" for s e xs
    using that normalizeIntervals_domain [of xs] normalizeIntervals_separated [of xs]
    by (fastforce simp: in_port_domain_def separated_def)
  show ?thesis
    using parsePortAllowlist_ports
    by (cases source)
      (auto simp: policy_ports_def portPolicyFrom_def normalizedPolicy_def Let_def
        dest: dom optionalPort_valid split: option.splits if_splits)
qed

lemma policy_of_intervals_ports:
  assumes "in_port_domain allowed" "separated allowed" "allowed \<noteq> []"
  shows "policy_ports (policy_of_intervals allowed)"
proof -
  have all: "1 \<le> fst r \<and> fst r \<le> 65535 \<and> 1 \<le> snd r \<and> snd r \<le> 65535" if "r \<in> set allowed" for r
    using assms(1,2) that unfolding in_port_domain_def separated_def by fastforce
  moreover have "allowed ! best_interval_index allowed \<in> set allowed"
    "\<And>r. r \<in> set (remaining_intervals allowed) \<Longrightarrow> r \<in> set allowed"
    using remaining_intervals_set [OF assms(3)] by blast+
  ultimately show ?thesis
    by (auto simp: policy_ports_def policy_of_intervals_simps interval_to_rat_def split: if_splits)
qed

lemma combinePortPolicies_ports: "policy_ports (combinePortPolicies policies)"
proof (cases "filter portPolicyHasRestriction policies")
  case Nil
  then show ?thesis by (simp add: combinePortPolicies_def portPolicyFrom_ports)
next
  case (Cons first others)
  let ?a = "combine_loop (policyIntervals first) others"
  have "separated ?a" "in_port_domain ?a"
    using combine_loop_correct [OF policyIntervals_separated]
      combine_loop_domain [OF policyIntervals_domain] by blast+
  then show ?thesis
    using Cons by (simp add: combinePortPolicies_def Let_def policy_of_intervals_ports)
      (simp add: policy_ports_def normalizedPolicy_def deny_all_policy_def)
qed

section \<open>The scans list the allowed ports\<close>

lemma set_count_up: "set (count_up (rat_of_int s) (rat_of_int e)) = rat_of_int ` {s..e}"
proof -
  have "set (count_up (rat_of_int s) (rat_of_int e)) =
      (\<lambda>i. rat_of_int s + of_nat i) ` {0..<nat (e - s + 1)}"
    by (simp add: count_up_def flip: of_int_diff)
  also have "\<dots> = rat_of_int ` {s..e}"
  proof (intro set_eqI iffI)
    fix x assume "x \<in> rat_of_int ` {s..e}"
    then obtain i where i: "x = rat_of_int i" "s \<le> i" "i \<le> e" by auto
    then show "x \<in> (\<lambda>i. rat_of_int s + of_nat i) ` {0..<nat (e - s + 1)}"
      by (intro image_eqI [of _ _ "nat (i - s)"]) auto
  next
    fix x assume "x \<in> (\<lambda>i. rat_of_int s + of_nat i) ` {0..<nat (e - s + 1)}"
    then obtain i where "x = rat_of_int s + of_nat i" "i < nat (e - s + 1)" by auto
    then show "x \<in> rat_of_int ` {s..e}"
      by (intro image_eqI [of _ _ "s + int i"]) auto
  qed
  finally show ?thesis .
qed

lemma count_up_ports:
  assumes "valid_port s" "valid_port e"
  shows "p \<in> set (count_up s e) \<longleftrightarrow> valid_port p \<and> s \<le> p \<and> p \<le> e"
proof -
  obtain s' e' where se: "s = rat_of_int s'" "e = rat_of_int e'" "1 \<le> s'" "e' \<le> 65535"
    using assms by (metis valid_portE)
  show ?thesis
    unfolding se(1,2) set_count_up using se(3,4) by (auto elim!: valid_portE)
qed

lemma set_policy_scan:
  assumes "policy_ports policy"
  shows "p \<in> set (policy_scan policy) \<longleftrightarrow> valid_port p \<and> listed policy p"
  using assms
  by (auto simp: policy_scan_def listed_def in_primary_range_def policy_ports_def count_up_ports
      split: option.splits)

lemma choose_candidate_member:
  assumes "0 \<le> random" "random < 1"
  shows "choose_candidate random cs = None \<longleftrightarrow> cs = []"
    and "choose_candidate random cs = Some p \<Longrightarrow> p \<in> set cs"
proof -
  have "nat \<lfloor>random * of_nat (length cs)\<rfloor> < length cs" if "cs \<noteq> []"
  proof -
    have "random * of_nat (length cs) < of_nat (length cs)" using assms that by simp
    then have "\<lfloor>random * of_nat (length cs)\<rfloor> < int (length cs)"
      by (simp add: floor_less_iff)
    moreover have "0 \<le> \<lfloor>random * of_nat (length cs)\<rfloor>" using assms(1) by simp
    ultimately show ?thesis by linarith
  qed
  then show "choose_candidate random cs = None \<longleftrightarrow> cs = []"
    "choose_candidate random cs = Some p \<Longrightarrow> p \<in> set cs"
    by (auto simp: choose_candidate_def split: if_splits)
qed

lemma set_add_candidates [simp]: "set (add_candidates used ports) = set ports - used"
  by (auto simp: add_candidates_def)

lemma offset_scan_Some:
  "offset_scan used start offset rng is = Some p \<Longrightarrow>
   p \<notin> used \<and> (\<exists>i \<in> set is. p = rat_of_int (start + (offset + i) mod rng))"
  by (induction used start offset rng "is" rule: offset_scan.induct) (auto simp: Let_def split: if_splits)

lemma offset_scan_None:
  "offset_scan used start offset rng is = None \<longleftrightarrow>
   (\<forall>i \<in> set is. rat_of_int (start + (offset + i) mod rng) \<in> used)"
  by (induction used start offset rng "is" rule: offset_scan.induct) (auto simp: Let_def)

text \<open>A full turn from any offset visits every port of the range.\<close>

lemma offset_scan_range:
  fixes start offset rng :: int
  assumes "0 < rng"
  shows "(\<lambda>i. start + (offset + i) mod rng) ` {0..rng - 1} = {start..start + rng - 1}"
proof (intro set_eqI iffI)
  fix x :: int assume "x \<in> (\<lambda>i. start + (offset + i) mod rng) ` {0..rng - 1}"
  then show "x \<in> {start..start + rng - 1}" using assms by (auto simp: pos_mod_bound)
next
  fix x :: int assume x: "x \<in> {start..start + rng - 1}"
  let ?i = "(x - start - offset) mod rng"
  have "(offset + ?i) mod rng = x - start"
    using x by (simp add: mod_add_right_eq)
  then have "x = start + (offset + ?i) mod rng" by simp
  moreover have "?i \<in> {0..rng - 1}" using assms by simp
  ultimately show "x \<in> (\<lambda>i. start + (offset + i) mod rng) ` {0..rng - 1}" by blast
qed

lemma offset_scan_full:
  fixes start offset rng :: int
  assumes "0 < rng"
  shows "offset_scan used start offset rng [0..rng - 1] = Some p \<Longrightarrow>
      p \<notin> used \<and> p \<in> rat_of_int ` {start..start + rng - 1}"
    and "offset_scan used start offset rng [0..rng - 1] = None \<Longrightarrow>
      rat_of_int ` {start..start + rng - 1} \<subseteq> used"
  unfolding offset_scan_range [OF assms, of start offset, symmetric]
  by (auto simp: offset_scan_None simp del: of_int_add dest!: offset_scan_Some)

definition default_window :: "int \<times> int \<Rightarrow> int set" where
  "default_window defaults =
     (let start = max 1 (min 65535 (fst defaults)) in {start..max start (min 65535 (snd defaults))})"

definition eligible :: "port_policy \<Rightarrow> int \<times> int \<Rightarrow> rat \<Rightarrow> bool" where
  "eligible policy defaults p =
     (isPortAllowedByPolicy p policy
      \<and> (portPolicyHasRestriction policy \<or> p \<in> rat_of_int ` default_window defaults))"

lemma default_window_allowed:
  "\<not> portPolicyHasRestriction policy \<Longrightarrow> i \<in> default_window defaults \<Longrightarrow>
   isPortAllowedByPolicy (rat_of_int i) policy"
  by (rule unrestricted_allowed) (auto simp: default_window_def Let_def)

lemma pickAvailablePort_cases:
  assumes "0 \<le> random" "random < 1" "policy_ok policy" "policy_ports policy"
  shows "(\<forall>p. pickAvailablePort random policy used defaults = Some p \<longrightarrow> eligible policy defaults p \<and> p \<notin> used)
    \<and> (pickAvailablePort random policy used defaults = None \<longrightarrow> (\<forall>p. eligible policy defaults p \<longrightarrow> p \<in> used))"
proof (cases "portPolicyHasRestriction policy")
  case True
  have "eligible policy defaults p \<longleftrightarrow> p \<in> set (policy_scan policy)" for p
    using True assms(3,4) by (auto simp: eligible_def set_policy_scan allowed_iff policy_ok_def listed_def
        in_primary_range_def)
  then show ?thesis
    using True choose_candidate_member [OF assms(1,2), of "add_candidates used (policy_scan policy)"]
    by (auto simp: pickAvailablePort_def)
      (metis Diff_iff set_add_candidates empty_iff list.set(1))+
next
  case False
  let ?s = "max 1 (min 65535 (fst defaults))"
  let ?e = "max ?s (min 65535 (snd defaults))"
  have el: "eligible policy defaults p \<longleftrightarrow> p \<in> rat_of_int ` {?s..?e}" for p
    using False default_window_allowed [OF False, of _ defaults]
    by (auto simp: eligible_def default_window_def Let_def)
  show ?thesis
  proof (cases "?e - ?s + 1 \<le> 10000")
    case True
    have "pickAvailablePort random policy used defaults =
        choose_candidate random (add_candidates used (map rat_of_int [?s..?e]))"
      using True by (simp only: pickAvailablePort_def Let_def False if_False if_True)
    moreover have "set (add_candidates used (map rat_of_int [?s..?e])) = rat_of_int ` {?s..?e} - used"
      by simp
    ultimately show ?thesis unfolding el
      using choose_candidate_member [OF assms(1,2), of "add_candidates used (map rat_of_int [?s..?e])"]
      by (metis (no_types, lifting) Diff_iff empty_iff list.set(1))
  next
    case large: False
    let ?rng = "?e - ?s + 1"
    let ?off = "\<lfloor>random * of_int ?rng\<rfloor>"
    have pick: "pickAvailablePort random policy used defaults =
        offset_scan used ?s ?off ?rng [0..?rng - 1]"
      using large by (simp only: pickAvailablePort_def Let_def False if_False)
    have "0 < ?rng" using large by linarith
    note full = offset_scan_full [OF this, of used ?s ?off]
    have e: "?s + ?rng - 1 = ?e" by simp
    show ?thesis unfolding el pick using full [unfolded e] by blast
  qed
qed

section \<open>Properties\<close>

text \<open>
  C24. Combining policies is intersecting them.  For any policies that keep the searches' invariant,
  \<open>combinePortPolicies\<close> yields a policy that keeps it too and allows a port exactly when the port is
  a valid one and every policy allows it; the loop over interval lists, the early stop on an empty
  intersection, the choice of the widest interval as primary range and the split of the rest into
  ranges and single ports change nothing.
\<close>
theorem combinePortPolicies_allows:
  assumes "\<forall>q \<in> set policies. policy_ok q"
  shows "policy_ok (combinePortPolicies policies)
    \<and> (isPortAllowedByPolicy port (combinePortPolicies policies)
        \<longleftrightarrow> valid_port port \<and> (\<forall>q \<in> set policies. isPortAllowedByPolicy port q))"
proof (cases "valid_port port")
  case True
  then obtain p where "port = rat_of_int p" by (rule valid_portE)
  with True combine_allowed_int [OF assms] show ?thesis by (simp add: combinePortPolicies_ok)
qed (auto simp: combinePortPolicies_ok dest: isPortAllowed_valid)

theorem combinePortPolicies_allows_witness:
  "policy_ok (combinePortPolicies [portPolicyFrom None, combinePortPolicies []])
    \<and> isPortAllowedByPolicy 443 (combinePortPolicies [portPolicyFrom None, combinePortPolicies []])"
proof -
  have "isPortAllowedByPolicy 443 (portPolicyFrom None)"
    by (rule unrestricted_allowed [OF _ portPolicyFrom_none]) (simp add: valid_port_def)
  then show ?thesis
    using combinePortPolicies_allows [of "[portPolicyFrom None, combinePortPolicies []]" 443]
    by (simp add: combinePortPolicies_ok portPolicyFrom_ok valid_port_def)
      (simp add: combinePortPolicies_def)
qed

text \<open>
  Picking a port is sound and complete.  With a random number from the half-open unit interval
  and a policy of whole ports, \<open>pickAvailablePort\<close> returns only a port that the policy allows (within
  the default window when the policy is unrestricted) and that is not in use, and it returns
  \<open>null\<close> only when every such port is in use, whichever branch it takes.
\<close>
theorem pickAvailablePort_correct:
  assumes "0 \<le> random" "random < 1" "policy_ok policy" "policy_ports policy"
  shows "case pickAvailablePort random policy used defaults of
      Some p \<Rightarrow> eligible policy defaults p \<and> p \<notin> used
    | None \<Rightarrow> \<forall>p. eligible policy defaults p \<longrightarrow> p \<in> used"
  using pickAvailablePort_cases [OF assms, of used defaults] by (simp split: option.split)

theorem pickAvailablePort_correct_witness:
  "case pickAvailablePort (1 / 2) (combinePortPolicies []) {1000, 1001} (1000, 40000) of
      Some p \<Rightarrow> eligible (combinePortPolicies []) (1000, 40000) p \<and> p \<notin> {1000, 1001}
    | None \<Rightarrow> \<forall>p. eligible (combinePortPolicies []) (1000, 40000) p \<longrightarrow> p \<in> {1000, 1001}"
  by (rule pickAvailablePort_correct) (simp_all add: combinePortPolicies_ok combinePortPolicies_ports)

text \<open>
  A narrower preferred range is an additional limit, an identical one is not: with a valid
  preferred range \<open>combineHostPortPolicyWithRange\<close> allows the ports of the host policy inside the
  range, except that a range equal to the host's own primary range keeps the extra ports of the
  allow list.
\<close>
theorem combineHostPortPolicyWithRange_allows:
  fixes hostSource
  assumes "optionalPort ps = Some s" "optionalPort pe = Some e" "s \<le> e"
  defines "host \<equiv> portPolicyFrom hostSource"
  shows "isPortAllowedByPolicy (rat_of_int p) (combineHostPortPolicyWithRange hostSource ps pe)
    \<longleftrightarrow> isPortAllowedByPolicy (rat_of_int p) host
        \<and> (pp_rangeStart host = Some (rat_of_int s) \<and> pp_rangeEnd host = Some (rat_of_int e)
           \<or> s \<le> p \<and> p \<le> e)"
proof -
  let ?range = "portPolicyFrom (Some \<lparr>ps_portRangeStart = JNum (rat_of_int s),
      ps_portRangeEnd = JNum (rat_of_int e), ps_portAllowlist = JUndef, ps_portRanges = []\<rparr>)"
  have host_ok: "policy_ok host" unfolding host_def by (rule portPolicyFrom_ok)
  have port: "optionalPort (JNum (rat_of_int i)) = Some i" if "1 \<le> i" "i \<le> 65535" for i
    using that by (simp add: optionalPort_def valid_port_number_def js_nullish_def)
  have r: "?range = \<lparr>pp_rangeStart = Some (rat_of_int s), pp_rangeEnd = Some (rat_of_int e),
      pp_allowlist = [], pp_ranges = [], pp_denyAll = False, pp_normalized = True\<rparr>"
    using assms(3) port optionalPort_valid [OF assms(1)] optionalPort_valid [OF assms(2)]
    by (simp add: portPolicyFrom_def normalizedPolicy_def parsePortAllowlist_def js_or_def js_trim_def
        source_ranges_def normalizeIntervals_def)
  have in_range: "isPortAllowedByPolicy (rat_of_int p) ?range \<longleftrightarrow> 1 \<le> p \<and> p \<le> 65535 \<and> s \<le> p \<and> p \<le> e"
    unfolding r by (simp add: isPortAllowedByPolicy_def portPolicyHasRestriction_def in_primary_range_def
        sortedIntervalsInclude_def sortedNumbersInclude_def bisect_loop.simps)
  show ?thesis
    using assms(1-3) combinePortPolicies_allows [of "[host, ?range]" "rat_of_int p"]
    unfolding combineHostPortPolicyWithRange_def host_def [symmetric] Let_def
    by (auto simp: in_range portPolicyFrom_ok host_ok dest: isPortAllowed_valid)
qed

theorem combineHostPortPolicyWithRange_allows_witness:
  "isPortAllowedByPolicy 8080 (combineHostPortPolicyWithRange None (JNum 8000) (JNum 9000))
    \<and> \<not> isPortAllowedByPolicy 443 (combineHostPortPolicyWithRange None (JNum 8000) (JNum 9000))"
proof -
  have port: "optionalPort (JNum 8000) = Some 8000" "optionalPort (JNum 9000) = Some 9000"
    by (simp_all add: optionalPort_def valid_port_number_def js_nullish_def)
  have "isPortAllowedByPolicy p (portPolicyFrom None)" if "valid_port p" for p
    by (rule unrestricted_allowed [OF that portPolicyFrom_none])
  moreover have "pp_rangeStart (portPolicyFrom None) = None"
    by (simp add: portPolicyFrom_def normalizedPolicy_def)
  ultimately show ?thesis
    using combineHostPortPolicyWithRange_allows [OF port, of 8080 None]
      combineHostPortPolicyWithRange_allows [OF port, of 443 None]
    by (simp add: valid_port_def)
qed

text \<open>
  The stored text of an allow list is a normal form: parsing \<open>normalizePortAllowlist\<close> gives the
  ports that parsing the original value gives, which are distinct, ascending and between 1 and 65535.
\<close>
theorem portAllowlist_roundtrip:
  "parsePortAllowlist (JStr (normalizePortAllowlist v)) = parsePortAllowlist v
    \<and> sorted_wrt (<) (parsePortAllowlist v)
    \<and> (\<forall>p \<in> set (parsePortAllowlist v). 1 \<le> p \<and> p \<le> 65535)"
proof -
  let ?ps = "parsePortAllowlist v"
  let ?text = "js_join CHR '','' (map int_to_str ?ps)"
  have ps: "sorted_wrt (<) ?ps" "\<forall>p \<in> set ?ps. 1 \<le> p \<and> p \<le> 65535"
    using parsePortAllowlist_ports by blast+
  have str: "int_to_str p = nat_to_str (nat p)" if "p \<in> set ?ps" for p
    using ps(2) that by (auto simp: int_to_str_def)
  show ?thesis
  proof (cases "?ps = []")
    case True
    then show ?thesis by (simp add: normalizePortAllowlist_def parsePortAllowlist_def js_or_def js_trim_def)
  next
    case False
    have digits: "list_all js_digit (int_to_str p)" "int_to_str p \<noteq> []" if "p \<in> set ?ps" for p
      using str [OF that] by (simp_all add: nat_to_str_digits nat_to_str_nonempty)
    have trim: "js_trim ?text = ?text"
      using digits by (intro js_trim_join_digits) (auto simp: js_space_def)
    have ne: "?text \<noteq> []"
      using digits False by (intro js_join_nonempty [of "int_to_str (hd ?ps)"]) auto
    have split: "js_split CHR '','' ?text = map int_to_str ?ps"
      using False by (intro js_join_split) (auto simp: str nat_to_str_no_sep js_digit_bounds)
    have "valid_port_number (str_to_number (js_trim (int_to_str p))) = Some p" if "p \<in> set ?ps" for p
    proof -
      have "rat_of_nat (nat p) = rat_of_int p" "1 \<le> rat_of_int p" "rat_of_int p \<le> 65535"
        using ps(2) that by (auto simp: of_nat_nat)
      then show ?thesis
        by (simp add: str [OF that] js_trim_digits nat_to_str_digits str_to_number_nat valid_port_number_def)
    qed
    then have "List.map_filter (\<lambda>item. valid_port_number (str_to_number (js_trim item)))
        (map int_to_str ?ps) = ?ps"
      by (rule map_filter_inverse)
    then show ?thesis
      using ps trim ne split by (simp add: normalizePortAllowlist_def parsePortAllowlist_def [of "JStr _"]
          js_or_def js_uniq_distinct strict_sorted_iff sorted_sort_id)
  qed
qed


theorem portAllowlist_roundtrip_witness:
  "parsePortAllowlist (JStr ''443, 80,x,443'') = [80, 443]
    \<and> parsePortAllowlist (JStr (normalizePortAllowlist (JStr ''443, 80,x,443''))) = [80, 443]"
proof -
  have "parsePortAllowlist (JStr ''443, 80,x,443'') = [80, 443]" by code_simp
  with portAllowlist_roundtrip [of "JStr ''443, 80,x,443''"] show ?thesis by simp
qed

end
