(* ===== verification/Port_Reservations.thy ===== *)
theory Port_Reservations
imports FX_Prelude
begin

text \<open>
  The in-process reservations of \<open>server/portReservations.ts\<close>: between choosing a port on a host and
  storing the rule that uses it, the port is held by a token so that no concurrent request takes it.
  The module-level map is \<open>rs_map\<close>; a \<open>Symbol\<close> is a fresh number and the \<open>released\<close> variable of each
  \<open>release\<close> closure is membership in \<open>rs_released\<close>.  An \<open>await\<close> lets other requests run: they are
  the action lists between the atomic steps of the asynchronous functions.
\<close>

section \<open>Protocols\<close>

datatype rule_protocol = Tcp | Udp | Both

definition compact_protocol :: "string \<Rightarrow> string" where
  "compact_protocol raw = filter (\<lambda>c. \<not> (js_space c \<or> c \<in> set ''_+/-'')) raw"

definition normalizeForwardRuleProtocol :: "jsval \<Rightarrow> rule_protocol \<Rightarrow> rule_protocol" where
  "normalizeForwardRuleProtocol protocol fallback =
     (let raw = js_lower (js_trim (if js_nullish protocol then [] else js_string protocol)) in
      if raw = [] then fallback
      else if raw = ''tcp'' then Tcp
      else if raw = ''udp'' then Udp
      else if raw = ''both'' then Both
      else (let compact = compact_protocol raw in
            if compact = ''tcpudp'' \<or> compact = ''udptcp'' \<or> compact = ''tcpandudp''
              \<or> compact = ''udpandtcp'' then Both
            else fallback))"

definition forwardRuleProtocols :: "jsval \<Rightarrow> rule_protocol \<Rightarrow> rule_protocol list" where
  "forwardRuleProtocols protocol fallback =
     (case normalizeForwardRuleProtocol protocol fallback of
        Udp \<Rightarrow> [Udp] | Both \<Rightarrow> [Tcp, Udp] | Tcp \<Rightarrow> [Tcp])"

section \<open>State and operations\<close>

record reservation_entry =
  re_token :: nat
  re_protocol :: rule_protocol

record reservation =
  hr_hostId :: int
  hr_port :: int
  hr_protocol :: rule_protocol
  hr_token :: nat

type_synonym host_ports = "(int, reservation_entry list) jmap"

record reservation_state =
  rs_map :: "(int, host_ports) jmap"
  rs_next :: nat
  rs_released :: "nat list"

definition initial_reservations :: reservation_state where
  "initial_reservations = \<lparr>rs_map = [], rs_next = 0, rs_released = []\<rparr>"

definition protocolsConflict :: "rule_protocol \<Rightarrow> rule_protocol \<Rightarrow> bool" where
  "protocolsConflict left right = True"

definition normalizedHostId :: "jsval \<Rightarrow> int" where
  "normalizedHostId v = (case js_integer v of Some h \<Rightarrow> if 0 < h then h else 0 | None \<Rightarrow> 0)"

definition normalizedPort :: "jsval \<Rightarrow> int" where
  "normalizedPort v =
     (case js_integer v of Some p \<Rightarrow> if 1 \<le> p \<and> p \<le> 65535 then p else 0 | None \<Rightarrow> 0)"

definition reservedHostPorts :: "reservation_state \<Rightarrow> jsval \<Rightarrow> jsval \<Rightarrow> int list" where
  "reservedHostPorts st hostIdValue protocolValue =
     (let hostId = normalizedHostId hostIdValue;
          protocol = normalizeForwardRuleProtocol protocolValue Both
      in case jm_get (rs_map st) hostId of
           None \<Rightarrow> []
         | Some hostReservations \<Rightarrow>
             map fst (filter (\<lambda>(port, entries).
                 list_ex (\<lambda>entry. protocolsConflict (re_protocol entry) protocol) entries)
               hostReservations))"

definition tryReserveHostPort ::
  "reservation_state \<Rightarrow> jsval \<Rightarrow> jsval \<Rightarrow> jsval \<Rightarrow> reservation option \<times> reservation_state" where
  "tryReserveHostPort st hostIdValue portValue protocolValue =
     (let hostId = normalizedHostId hostIdValue;
          port = normalizedPort portValue;
          protocol = normalizeForwardRuleProtocol protocolValue Both
      in if hostId = 0 \<or> port = 0 then (None, st)
         else
           (let hostReservations = (case jm_get (rs_map st) hostId of Some m \<Rightarrow> m | None \<Rightarrow> []);
                st1 = st\<lparr>rs_map := (if jm_has (rs_map st) hostId then rs_map st
                                    else jm_set hostId [] (rs_map st))\<rparr>;
                entries = (case jm_get hostReservations port of Some es \<Rightarrow> es | None \<Rightarrow> [])
            in if list_ex (\<lambda>entry. protocolsConflict (re_protocol entry) protocol) entries then (None, st1)
               else
                 (let token = rs_next st1;
                      entries' = entries @ [\<lparr>re_token = token, re_protocol = protocol\<rparr>]
                  in (Some \<lparr>hr_hostId = hostId, hr_port = port, hr_protocol = protocol, hr_token = token\<rparr>,
                      st1\<lparr>rs_map := jm_set hostId (jm_set port entries' hostReservations) (rs_map st1),
                          rs_next := Suc token\<rparr>))))"

definition release :: "reservation \<Rightarrow> reservation_state \<Rightarrow> reservation_state" where
  "release r st =
     (if List.member (rs_released st) (hr_token r) then st
      else
        (let st1 = st\<lparr>rs_released := hr_token r # rs_released st\<rparr> in
         case jm_get (rs_map st1) (hr_hostId r) of
           None \<Rightarrow> st1
         | Some currentHost \<Rightarrow>
             (case jm_get currentHost (hr_port r) of
                None \<Rightarrow> st1
              | Some currentEntries \<Rightarrow>
                  (let remaining = filter (\<lambda>entry. re_token entry \<noteq> hr_token r) currentEntries;
                       currentHost' = (if 0 < length remaining then jm_set (hr_port r) remaining currentHost
                                       else jm_del (hr_port r) currentHost)
                   in st1\<lparr>rs_map := (if length currentHost' = 0 then jm_del (hr_hostId r) (rs_map st1)
                                     else jm_set (hr_hostId r) currentHost' (rs_map st1))\<rparr>))))"

definition releaseHostPortReservations :: "reservation list \<Rightarrow> reservation_state \<Rightarrow> reservation_state" where
  "releaseHostPortReservations items st = foldl (\<lambda>s r. release r s) st items"

section \<open>The asynchronous functions\<close>

text \<open>
  What other requests do while one awaits: reserve, or release one of the reservations handed out
  to them (the \<open>k\<close>-th object of the list \<open>others\<close>).
\<close>

datatype reservation_action = Reserve jsval jsval jsval | Release nat

fun run_action ::
  "reservation_action \<Rightarrow> reservation_state \<times> reservation list \<Rightarrow> reservation_state \<times> reservation list" where
  "run_action (Reserve h p protocol) (st, others) =
     (case tryReserveHostPort st h p protocol of
        (Some r, st') \<Rightarrow> (st', r # others)
      | (None, st') \<Rightarrow> (st', others))"
| "run_action (Release k) (st, others) =
     (if k < length others then (release (others ! k) st, others) else (st, others))"

definition run_actions ::
  "reservation_action list \<Rightarrow> reservation_state \<times> reservation list \<Rightarrow> reservation_state \<times> reservation list" where
  "run_actions as sys = foldl (\<lambda>s a. run_action a s) sys as"

datatype port_usage = Used | Free | UsageFails

datatype found_port = FoundPort rat | NoPort | FindFails

datatype reserve_outcome = Returns "reservation option" | Throws

text \<open>\<open>isUsed\<close> is the optional check with the actions of others while it is awaited.\<close>

definition settle_usage ::
  "(int \<Rightarrow> port_usage \<times> reservation_action list) option \<Rightarrow> reservation
     \<Rightarrow> reservation_state \<times> reservation list \<Rightarrow> port_usage \<times> (reservation_state \<times> reservation list)" where
  "settle_usage isUsed r sys =
     (case isUsed of
        None \<Rightarrow> (Free, sys)
      | Some check \<Rightarrow>
          (let (answer, interleaved) = check (hr_port r);
               (st, others) = run_actions interleaved sys
           in (answer, (if answer = Free then st else release r st, others))))"

definition reserveSpecificHostPort ::
  "reservation_state \<times> reservation list \<Rightarrow> jsval \<Rightarrow> jsval \<Rightarrow> jsval
     \<Rightarrow> (int \<Rightarrow> port_usage \<times> reservation_action list) option
     \<Rightarrow> reserve_outcome \<times> (reservation_state \<times> reservation list)" where
  "reserveSpecificHostPort sys hostId port protocol isUsed =
     (case tryReserveHostPort (fst sys) hostId port protocol of
        (None, st) \<Rightarrow> (Returns None, (st, snd sys))
      | (Some r, st) \<Rightarrow>
          (case settle_usage isUsed r (st, snd sys) of
             (Free, sys') \<Rightarrow> (Returns (Some r), sys')
           | (Used, sys') \<Rightarrow> (Returns None, sys')
           | (UsageFails, sys') \<Rightarrow> (Throws, sys')))"

text \<open>\<open>Math.max(1, Math.min(256, Number(options.maxAttempts) || 64))\<close>\<close>

definition max_attempts :: "jsval \<Rightarrow> rat" where
  "max_attempts v =
     (if v = JPosInf then 256
      else if v = JNegInf then 1
      else max 1 (min 256 (case js_number v of Some q \<Rightarrow> if q = 0 then 64 else q | None \<Rightarrow> 64)))"

text \<open>
  The retry loop.  \<open>findPort attempt reserved\<close> is the answer of the caller's search in that attempt
  together with what others do meanwhile.
\<close>

fun reserve_attempts ::
  "nat list \<Rightarrow> reservation_state \<times> reservation list \<Rightarrow> jsval \<Rightarrow> jsval
     \<Rightarrow> (nat \<Rightarrow> int list \<Rightarrow> found_port \<times> reservation_action list)
     \<Rightarrow> (nat \<Rightarrow> int \<Rightarrow> port_usage \<times> reservation_action list) option
     \<Rightarrow> reserve_outcome \<times> (reservation_state \<times> reservation list)" where
  "reserve_attempts [] sys hostId protocol findPort isUsed = (Returns None, sys)"
| "reserve_attempts (attempt # rest) sys hostId protocol findPort isUsed =
     (let (found, interleaved) = findPort attempt (reservedHostPorts (fst sys) hostId protocol);
          sys1 = run_actions interleaved sys
      in case found of
           FindFails \<Rightarrow> (Throws, sys1)
         | NoPort \<Rightarrow> (Returns None, sys1)
         | FoundPort port \<Rightarrow>
             if port = 0 then (Returns None, sys1)
             else
               (case tryReserveHostPort (fst sys1) hostId (JNum port) protocol of
                  (None, st) \<Rightarrow> reserve_attempts rest (st, snd sys1) hostId protocol findPort isUsed
                | (Some r, st) \<Rightarrow>
                    (case settle_usage (map_option (\<lambda>check. check attempt) isUsed) r (st, snd sys1) of
                       (Free, sys2) \<Rightarrow> (Returns (Some r), sys2)
                     | (Used, sys2) \<Rightarrow> reserve_attempts rest sys2 hostId protocol findPort isUsed
                     | (UsageFails, sys2) \<Rightarrow> (Throws, sys2))))"

definition reserveAvailableHostPort ::
  "reservation_state \<times> reservation list \<Rightarrow> jsval \<Rightarrow> jsval
     \<Rightarrow> (nat \<Rightarrow> int list \<Rightarrow> found_port \<times> reservation_action list)
     \<Rightarrow> (nat \<Rightarrow> int \<Rightarrow> port_usage \<times> reservation_action list) option \<Rightarrow> jsval
     \<Rightarrow> reserve_outcome \<times> (reservation_state \<times> reservation list)" where
  "reserveAvailableHostPort sys hostId protocol findPort isUsed maxAttempts =
     reserve_attempts [0..<nat \<lceil>max_attempts maxAttempts\<rceil>] sys hostId protocol findPort isUsed"

section \<open>The abstract lease table\<close>

text \<open>
  A reservation object is live until it is released.  The table always represents the partial
  function from host and port to the one live reservation object that holds it.
\<close>

definition entries_at :: "reservation_state \<Rightarrow> int \<Rightarrow> int \<Rightarrow> reservation_entry list" where
  "entries_at st h p =
     (case jm_get (rs_map st) h of
        None \<Rightarrow> []
      | Some m \<Rightarrow> (case jm_get m p of None \<Rightarrow> [] | Some es \<Rightarrow> es))"

definition live :: "reservation_state \<Rightarrow> reservation \<Rightarrow> bool" where
  "live st r = (hr_token r \<notin> set (rs_released st))"

definition hr_key :: "reservation \<Rightarrow> int \<times> int" where
  "hr_key r = (hr_hostId r, hr_port r)"

definition entry_of :: "reservation \<Rightarrow> reservation_entry" where
  "entry_of r = \<lparr>re_token = hr_token r, re_protocol = hr_protocol r\<rparr>"

definition table_ok :: "reservation_state \<Rightarrow> bool" where
  "table_ok st =
     (jm_ok (rs_map st)
      \<and> (\<forall>h m. jm_get (rs_map st) h = Some m \<longrightarrow>
           jm_ok m \<and> m \<noteq> [] \<and> (\<forall>p es. jm_get m p = Some es \<longrightarrow> length es = 1)))"

definition reservations_inv :: "reservation_state \<Rightarrow> reservation list \<Rightarrow> bool" where
  "reservations_inv st objs =
     (table_ok st
      \<and> distinct (map hr_token objs)
      \<and> (\<forall>r \<in> set objs. hr_token r < rs_next st)
      \<and> (\<forall>t \<in> set (rs_released st). t < rs_next st)
      \<and> (\<forall>h p. set (entries_at st h p) = entry_of ` {r \<in> set objs. live st r \<and> hr_key r = (h, p)}))"

lemma live_update [simp]: "live (st\<lparr>rs_map := m\<rparr>) r = live st r" "live (st\<lparr>rs_next := n\<rparr>) r = live st r"
  by (simp_all add: live_def)

lemma table_okD:
  assumes "table_ok st" "jm_get (rs_map st) h = Some m"
  shows "jm_ok m" "m \<noteq> []" "jm_get m p = Some es \<Longrightarrow> length es = 1"
  using assms by (auto simp: table_ok_def)

lemma table_ok_put:
  assumes "table_ok st" "jm_ok m" "m \<noteq> []" "\<And>p es. jm_get m p = Some es \<Longrightarrow> length es = 1"
  shows "table_ok (st\<lparr>rs_map := jm_set h m (rs_map st)\<rparr>)"
  using assms by (auto simp: table_ok_def)

lemma table_ok_drop: "table_ok st \<Longrightarrow> table_ok (st\<lparr>rs_map := jm_del h (rs_map st)\<rparr>)"
  by (auto simp: table_ok_def)

lemma table_ok_next: "table_ok (st\<lparr>rs_next := n\<rparr>) = table_ok st"
  by (simp add: table_ok_def)

lemma entries_at_put:
  "entries_at (st\<lparr>rs_map := jm_set h m (rs_map st)\<rparr>) h' p =
     (if h' = h then (case jm_get m p of None \<Rightarrow> [] | Some es \<Rightarrow> es) else entries_at st h' p)"
  by (simp add: entries_at_def)

text \<open>The three outcomes of \<open>tryReserveHostPort\<close>.\<close>

lemma list_ex_conflict: "list_ex (\<lambda>entry. protocolsConflict (re_protocol entry) p) es \<longleftrightarrow> es \<noteq> []"
  by (induction es) (auto simp: protocolsConflict_def)

lemma tryReserve_cases:
  fixes hv pv
  assumes "table_ok st"
  defines "h \<equiv> normalizedHostId hv" and "p \<equiv> normalizedPort pv"
  shows "tryReserveHostPort st hv pv prv =
    (if h = 0 \<or> p = 0 \<or> entries_at st h p \<noteq> [] then (None, st)
     else
       (let r = \<lparr>hr_hostId = h, hr_port = p, hr_protocol = normalizeForwardRuleProtocol prv Both,
                 hr_token = rs_next st\<rparr>
        in (Some r,
            st\<lparr>rs_map := jm_set h (jm_set p [entry_of r]
                 (case jm_get (rs_map st) h of Some m \<Rightarrow> m | None \<Rightarrow> [])) (rs_map st),
               rs_next := Suc (rs_next st)\<rparr>)))"
proof (cases "h = 0 \<or> p = 0")
  case True
  then show ?thesis by (auto simp: tryReserveHostPort_def h_def p_def Let_def)
next
  case False
  note unf = tryReserveHostPort_def h_def [symmetric] p_def [symmetric] Let_def list_ex_conflict
  show ?thesis
  proof (cases "jm_get (rs_map st) h")
    case None
    then show ?thesis using False
      by (simp add: unf entries_at_def jm_has_def entry_of_def)
  next
    case (Some m)
    show ?thesis
    proof (cases "jm_get m p")
      case None
      then show ?thesis using False Some
        by (simp add: unf entries_at_def jm_has_def entry_of_def)
    next
      case es: (Some es)
      have "es \<noteq> []" using table_okD(3) [OF assms(1) Some es] by auto
      then show ?thesis using False Some es by (simp add: unf entries_at_def jm_has_def)
    qed
  qed
qed

lemma tryReserve_None:
  assumes "table_ok st" "tryReserveHostPort st hv pv prv = (None, st')"
  shows "st' = st"
  using assms by (auto simp: tryReserve_cases Let_def split: if_splits)

lemma tryReserve_Some:
  assumes "table_ok st" "tryReserveHostPort st hv pv prv = (Some r, st')"
  shows "hr_hostId r = normalizedHostId hv" "hr_port r = normalizedPort pv" "0 < hr_hostId r"
    "1 \<le> hr_port r \<and> hr_port r \<le> 65535" "hr_token r = rs_next st" "rs_next st' = Suc (rs_next st)"
    "rs_released st' = rs_released st" "table_ok st'" "entries_at st (hr_hostId r) (hr_port r) = []"
    "\<And>h p. entries_at st' h p = (if (h, p) = hr_key r then [entry_of r] else entries_at st h p)"
proof -
  let ?h = "normalizedHostId hv" and ?p = "normalizedPort pv"
  let ?m = "case jm_get (rs_map st) ?h of Some m \<Rightarrow> m | None \<Rightarrow> []"
  have g: "?h \<noteq> 0" "?p \<noteq> 0" "entries_at st ?h ?p = []"
    and r: "r = \<lparr>hr_hostId = ?h, hr_port = ?p, hr_protocol = normalizeForwardRuleProtocol prv Both,
                 hr_token = rs_next st\<rparr>"
    and st': "st' = st\<lparr>rs_map := jm_set ?h (jm_set ?p [entry_of r] ?m) (rs_map st),
               rs_next := Suc (rs_next st)\<rparr>"
    using assms by (auto simp: tryReserve_cases Let_def split: if_splits)
  show "hr_hostId r = ?h" "hr_port r = ?p" "hr_token r = rs_next st" by (simp_all add: r)
  show "0 < hr_hostId r" "1 \<le> hr_port r \<and> hr_port r \<le> 65535"
    using g(1,2) by (auto simp: r normalizedHostId_def normalizedPort_def split: option.splits if_splits)
  show "rs_next st' = Suc (rs_next st)" "rs_released st' = rs_released st" by (simp_all add: st')
  show "entries_at st (hr_hostId r) (hr_port r) = []" using g(3) by (simp add: r)
  have m: "jm_ok ?m" "\<And>p es. jm_get ?m p = Some es \<Longrightarrow> length es = 1"
    using table_okD [OF assms(1)] by (auto split: option.splits)
  have "length es = 1" if "jm_get (jm_set ?p [entry_of r] ?m) q = Some es" for q es
    using that m(2) [of q es] by (simp only: jm_get_set) (auto split: if_splits)
  then show "table_ok st'"
    unfolding st' table_ok_next using m(1) by (intro table_ok_put [OF assms(1)]) simp_all
  show "entries_at st' h p = (if (h, p) = hr_key r then [entry_of r] else entries_at st h p)" for h p
    by (auto simp: st' r hr_key_def entries_at_def split: option.splits)
qed

lemma release_entries:
  assumes "table_ok st"
  shows "table_ok (release r st)"
    and "rs_next (release r st) = rs_next st"
    and "set (rs_released (release r st)) = insert (hr_token r) (set (rs_released st))"
    and "entries_at (release r st) h p =
      (if live st r \<and> (h, p) = hr_key r then filter (\<lambda>e. re_token e \<noteq> hr_token r) (entries_at st h p)
       else entries_at st h p)"
proof -
  let ?st1 = "st\<lparr>rs_released := hr_token r # rs_released st\<rparr>"
  have ok1: "table_ok ?st1" using assms by (simp add: table_ok_def)
  have e1: "entries_at ?st1 h p = entries_at st h p" for h p by (simp add: entries_at_def)
  have all: "table_ok (release r st) \<and> rs_next (release r st) = rs_next st
    \<and> set (rs_released (release r st)) = insert (hr_token r) (set (rs_released st))
    \<and> entries_at (release r st) h p =
      (if live st r \<and> (h, p) = hr_key r then filter (\<lambda>e. re_token e \<noteq> hr_token r) (entries_at st h p)
       else entries_at st h p)" for h p
  proof (cases "live st r")
    case False
    then show ?thesis using assms by (auto simp: live_def release_def)
  next
    case lv: True
    then have nm: "\<not> List.member (rs_released st) (hr_token r)" by (simp add: live_def)
    show ?thesis
    proof (cases "jm_get (rs_map st) (hr_hostId r)")
      case None
      then show ?thesis using nm ok1 e1
        by (auto simp: release_def Let_def entries_at_def hr_key_def)
    next
      case (Some m)
      show ?thesis
      proof (cases "jm_get m (hr_port r)")
        case None
        then show ?thesis using nm ok1 e1 Some
          by (auto simp: release_def Let_def entries_at_def hr_key_def)
      next
        case es: (Some es)
        let ?rem = "filter (\<lambda>e. re_token e \<noteq> hr_token r) es"
        let ?m' = "if 0 < length ?rem then jm_set (hr_port r) ?rem m else jm_del (hr_port r) m"
        have m: "jm_ok m" "\<And>p es. jm_get m p = Some es \<Longrightarrow> length es = 1"
          using table_okD [OF assms Some] by auto
        have rem: "length ?rem = 1" if "0 < length ?rem"
          using m(2) [OF es] that by (cases es) (auto split: if_splits)
        have rel: "release r st = ?st1\<lparr>rs_map := (if ?m' = [] then jm_del (hr_hostId r) (rs_map st)
            else jm_set (hr_hostId r) ?m' (rs_map st))\<rparr>"
          using nm Some es by (simp add: release_def Let_def)
        have get: "(case jm_get ?m' q of None \<Rightarrow> [] | Some es \<Rightarrow> es) =
            (if q = hr_port r then ?rem else (case jm_get m q of None \<Rightarrow> [] | Some es \<Rightarrow> es))" for q
          by auto
        have m'ok: "jm_ok ?m'" "\<And>q es. jm_get ?m' q = Some es \<Longrightarrow> length es = 1"
          using m rem by (auto split: if_splits)
        have tok: "table_ok (release r st)"
          unfolding rel using table_ok_put [OF ok1 m'ok(1) _ m'ok(2)] table_ok_drop [OF ok1] by simp
        have "entries_at (release r st) h p =
            (if h = hr_hostId r then (case jm_get ?m' p of None \<Rightarrow> [] | Some es \<Rightarrow> es) else entries_at st h p)"
          unfolding rel by (auto simp: entries_at_def split: if_splits)
        then have "entries_at (release r st) h p =
            (if (h, p) = hr_key r then filter (\<lambda>e. re_token e \<noteq> hr_token r) (entries_at st h p)
             else entries_at st h p)"
          unfolding get using Some es by (auto simp: entries_at_def hr_key_def)
        then show ?thesis using tok lv unfolding rel by simp
      qed
    qed
  qed
  then show "table_ok (release r st)" "rs_next (release r st) = rs_next st"
    "set (rs_released (release r st)) = insert (hr_token r) (set (rs_released st))"
    "entries_at (release r st) h p =
      (if live st r \<and> (h, p) = hr_key r then filter (\<lambda>e. re_token e \<noteq> hr_token r) (entries_at st h p)
       else entries_at st h p)" by blast+
qed

lemma initial_inv: "reservations_inv initial_reservations []"
  by (simp add: reservations_inv_def table_ok_def initial_reservations_def entries_at_def)

lemma inv_reserve:
  assumes inv: "reservations_inv st objs" and r: "tryReserveHostPort st hv pv prv = (Some r, st')"
  shows "reservations_inv st' (r # objs)" "live st' r" "hr_key r \<notin> hr_key ` {o' \<in> set objs. live st o'}"
    "\<And>o'. o' \<in> set objs \<Longrightarrow> live st' o' = live st o'" "hr_token r \<notin> hr_token ` set objs"
proof -
  have t: "table_ok st" and old: "\<forall>o' \<in> set objs. hr_token o' < rs_next st"
    "\<forall>t \<in> set (rs_released st). t < rs_next st"
    and at: "\<And>h p. set (entries_at st h p) = entry_of ` {o' \<in> set objs. live st o' \<and> hr_key o' = (h, p)}"
    and dist: "distinct (map hr_token objs)"
    using inv by (auto simp: reservations_inv_def)
  note s = tryReserve_Some [OF t r]
  have lv: "live st' o' = live st o'" for o' by (simp add: live_def s(7))
  show "live st' r" using old(2) by (auto simp: live_def s(5,7))
  have none: "{o' \<in> set objs. live st o' \<and> hr_key o' = hr_key r} = {}"
    using at [of "hr_hostId r" "hr_port r"] s(9) by (auto simp: hr_key_def)
  then show "hr_key r \<notin> hr_key ` {o' \<in> set objs. live st o'}" by auto
  show "live st' o' = live st o'" if "o' \<in> set objs" for o' by (rule lv)
  show fresh: "hr_token r \<notin> hr_token ` set objs" using old(1) s(5) by auto
  have "set (entries_at st' h p) = entry_of ` {o' \<in> set (r # objs). live st' o' \<and> hr_key o' = (h, p)}" for h p
    using \<open>live st' r\<close> none at [of h p] by (auto simp: s(10) lv)
  then show "reservations_inv st' (r # objs)"
    using s(5,6,7,8) old dist fresh by (auto simp: reservations_inv_def)
qed

lemma inv_release:
  assumes inv: "reservations_inv st objs" and "r \<in> set objs"
  shows "reservations_inv (release r st) objs" "\<not> live (release r st) r"
    "\<And>o'. o' \<in> set objs \<Longrightarrow> o' \<noteq> r \<Longrightarrow> live (release r st) o' = live st o'"
proof -
  have t: "table_ok st" and dist: "distinct (map hr_token objs)"
    and at: "\<And>h p. set (entries_at st h p) = entry_of ` {o' \<in> set objs. live st o' \<and> hr_key o' = (h, p)}"
    using inv by (auto simp: reservations_inv_def)
  note e = release_entries [OF t, of r]
  have inj: "hr_token o' = hr_token r \<longleftrightarrow> o' = r" if "o' \<in> set objs" for o'
    using dist assms(2) that by (auto simp: distinct_map inj_on_def)
  have lv: "live (release r st) o' \<longleftrightarrow> live st o' \<and> o' \<noteq> r" if "o' \<in> set objs" for o'
    using inj [OF that] by (auto simp: live_def e(3))
  show "\<not> live (release r st) r" using lv [OF assms(2)] by simp
  show "live (release r st) o' = live st o'" if "o' \<in> set objs" "o' \<noteq> r" for o'
    using lv that by simp
  have "set (entries_at (release r st) h p) =
      entry_of ` {o' \<in> set objs. live (release r st) o' \<and> hr_key o' = (h, p)}" for h p
  proof -
    have tok: "re_token (entry_of o') = hr_token o'" for o' by (simp add: entry_of_def)
    show ?thesis
      using assms(2) inj lv by (auto simp: e(4) at tok) (metis (mono_tags, lifting) imageI mem_Collect_eq)+
  qed
  then show "reservations_inv (release r st) objs"
    using inv e(1-3) assms(2) by (auto simp: reservations_inv_def)
qed

lemma inv_live_distinct:
  assumes "reservations_inv st objs"
  shows "distinct (map hr_key (filter (live st) objs))"
proof -
  have at: "\<And>h p. set (entries_at st h p) = entry_of ` {r \<in> set objs. live st r \<and> hr_key r = (h, p)}"
    and dist: "distinct (map hr_token objs)"
    using assms by (auto simp: reservations_inv_def)
  have one: "length (entries_at st h p) \<le> 1" for h p
    using assms by (force simp: reservations_inv_def table_ok_def entries_at_def split: option.splits)
  have "a = b" if ab: "a \<in> set objs" "b \<in> set objs" "live st a" "live st b" "hr_key a = hr_key b" for a b
  proof -
    obtain h p where k: "hr_key a = (h, p)" by (cases "hr_key a")
    have mem: "entry_of a \<in> set (entries_at st h p)" "entry_of b \<in> set (entries_at st h p)"
      unfolding at using ab k by auto
    moreover obtain e where "set (entries_at st h p) \<subseteq> {e}"
      using one [of h p] by (cases "entries_at st h p") auto
    ultimately have "entry_of a = entry_of b" by auto
    then show ?thesis
      using dist ab(1,2) by (auto simp: entry_of_def distinct_map inj_on_def)
  qed
  then show ?thesis
    using dist by (auto simp: distinct_map inj_on_def distinct_filter intro!: distinct_filter)
qed

lemma run_action_inv:
  assumes "reservations_inv st (others @ mine)" "run_action a (st, others) = (st', others')"
  shows "reservations_inv st' (others' @ mine) \<and> (\<forall>r \<in> set mine. live st' r = live st r)"
proof (cases a)
  case (Reserve h p protocol)
  have t: "table_ok st" using assms(1) by (simp add: reservations_inv_def)
  show ?thesis
  proof (cases "tryReserveHostPort st h p protocol")
    case (Pair ro st1)
    show ?thesis
    proof (cases ro)
      case None
      then have "st1 = st" using Pair tryReserve_None [OF t] by simp
      then show ?thesis using assms Reserve Pair None by simp
    next
      case (Some r)
      then have "tryReserveHostPort st h p protocol = (Some r, st1)" using Pair by simp
      from inv_reserve [OF assms(1) this] show ?thesis
        using assms(2) Reserve Pair Some by auto
    qed
  qed
next
  case (Release k)
  show ?thesis
  proof (cases "k < length others")
    case True
    then have k: "others ! k \<in> set (others @ mine)" by simp
    have "r \<noteq> others ! k" if "r \<in> set mine" for r
    proof -
      have "distinct (map hr_token others @ map hr_token mine)"
        using assms(1) by (simp add: reservations_inv_def)
      then have "hr_token r \<notin> hr_token ` set others" using that by auto
      moreover have "hr_token (others ! k) \<in> hr_token ` set others" using True by simp
      ultimately show ?thesis by auto
    qed
    then show ?thesis
      using inv_release [OF assms(1) k] assms(2) Release True by auto
  qed (use assms Release in simp)
qed

lemma run_actions_inv:
  assumes "reservations_inv st (others @ mine)" "run_actions as (st, others) = (st', others')"
  shows "reservations_inv st' (others' @ mine) \<and> (\<forall>r \<in> set mine. live st' r = live st r)"
  using assms
proof (induction "as" arbitrary: st others)
  case (Cons a "as")
  obtain st1 others1 where a: "run_action a (st, others) = (st1, others1)" by (cases "run_action a (st, others)")
  with run_action_inv [OF Cons.prems(1) a] Cons.IH [of st1 others1] Cons.prems(2)
  show ?case by (auto simp: run_actions_def)
qed (simp add: run_actions_def)

lemma inv_drop_dead:
  assumes "reservations_inv st (xs @ [r])" "\<not> live st r"
  shows "reservations_inv st xs"
  using assms by (auto simp: reservations_inv_def intro!: image_cong)

lemma inv_rotate: "reservations_inv st (xs @ [r]) = reservations_inv st (r # xs)"
  by (auto simp: reservations_inv_def)

lemma settle_usage_inv:
  assumes inv: "reservations_inv st (r # others)" and "live st r"
    and s: "settle_usage isUsed r (st, others) = (answer, st', others')"
  shows "if answer = Free then reservations_inv st' (r # others') \<and> live st' r
      \<and> (case isUsed of None \<Rightarrow> True | Some check \<Rightarrow> fst (check (hr_port r)) = Free)
    else reservations_inv st' others'"
proof (cases isUsed)
  case None
  then show ?thesis using assms by (simp add: settle_usage_def)
next
  case (Some check)
  obtain ans il where c: "check (hr_port r) = (ans, il)" by (cases "check (hr_port r)")
  obtain st1 others1 where r: "run_actions il (st, others) = (st1, others1)"
    by (cases "run_actions il (st, others)")
  have i: "reservations_inv st1 (others1 @ [r])" "live st1 r"
    using run_actions_inv [of st others "[r]" il st1 others1] inv r assms(2) by (auto simp: inv_rotate)
  have res: "answer = ans" "others' = others1" "st' = (if ans = Free then st1 else release r st1)"
    using s Some c r by (auto simp: settle_usage_def)
  have "reservations_inv (release r st1) others1"
    using inv_drop_dead inv_release [OF i(1), of r] by simp
  then show ?thesis using i res Some c by (simp add: inv_rotate)
qed

lemma reserve_attempts_inv:
  assumes "reservations_inv st others"
    "reserve_attempts ks (st, others) hostId protocol findPort isUsed = (outcome, st', others')"
  shows "case outcome of
      Returns (Some r) \<Rightarrow> reservations_inv st' (r # others') \<and> live st' r
        \<and> hr_hostId r = normalizedHostId hostId
        \<and> (\<forall>check. isUsed = Some check \<longrightarrow> (\<exists>k \<in> set ks. fst (check k (hr_port r)) = Free))
    | _ \<Rightarrow> reservations_inv st' others'"
  using assms
proof (induction ks arbitrary: st others)
  case Nil
  then show ?case by auto
next
  case (Cons k ks)
  let ?fp = "findPort k (reservedHostPorts st hostId protocol)"
  obtain found il where f: "?fp = (found, il)" by (cases ?fp)
  obtain st1 others1 where r1: "run_actions il (st, others) = (st1, others1)"
    by (cases "run_actions il (st, others)")
  have i1: "reservations_inv st1 others1"
    using run_actions_inv [of st others "[]" il st1 others1] Cons.prems(1) r1 by simp
  show ?case
  proof (cases "\<exists>port. found = FoundPort port \<and> port \<noteq> 0")
    case False
    then show ?thesis using Cons.prems(2) f r1 i1 by (cases found) auto
  next
    case True
    then obtain port where port: "found = FoundPort port" "port \<noteq> 0" by blast
    obtain ro st2 where t: "tryReserveHostPort st1 hostId (JNum port) protocol = (ro, st2)"
      by (cases "tryReserveHostPort st1 hostId (JNum port) protocol")
    have tok: "table_ok st1" using i1 by (simp add: reservations_inv_def)
    show ?thesis
    proof (cases ro)
      case None
      then have "st2 = st1" using t tryReserve_None [OF tok] by simp
      then show ?thesis
        using Cons.IH [OF i1] Cons.prems(2) f r1 port t None
        by (fastforce split: reserve_outcome.splits option.splits)
    next
      case (Some r)
      obtain ans st3 others3 where se: "settle_usage (map_option (\<lambda>check. check k) isUsed) r (st2, others1)
          = (ans, st3, others3)"
        by (cases "settle_usage (map_option (\<lambda>check. check k) isUsed) r (st2, others1)")
      have i2: "reservations_inv st2 (r # others1)" "live st2 r"
        using inv_reserve [OF i1] t Some by auto
      note i3 = settle_usage_inv [OF i2 se]
      have h: "hr_hostId r = normalizedHostId hostId" using tryReserve_Some [OF tok] t Some by blast
      show ?thesis
      proof (cases ans)
        case Free
        then show ?thesis using i3 h Cons.prems(2) f r1 port t Some se by auto
      next
        case Used
        then have eq: "reserve_attempts ks (st3, others3) hostId protocol findPort isUsed = (outcome, st', others')"
          using Cons.prems(2) f r1 port t Some se by simp
        have "reservations_inv st3 others3" using i3 Used by simp
        from Cons.IH [OF this eq] show ?thesis
          by (auto split: reserve_outcome.splits option.splits)
      next
        case UsageFails
        then show ?thesis using i3 Cons.prems(2) f r1 port t Some se by auto
      qed
    qed
  qed
qed

lemma reservedHostPorts_set:
  assumes "reservations_inv st objs"
  shows "set (reservedHostPorts st hv pv) =
    hr_port ` {r \<in> set objs. live st r \<and> hr_hostId r = normalizedHostId hv}"
proof -
  let ?h = "normalizedHostId hv"
  have t: "table_ok st"
    and at: "\<And>h p. set (entries_at st h p) = entry_of ` {r \<in> set objs. live st r \<and> hr_key r = (h, p)}"
    using assms by (auto simp: reservations_inv_def)
  have "p \<in> set (reservedHostPorts st hv pv) \<longleftrightarrow> entries_at st ?h p \<noteq> []" for p
  proof (cases "jm_get (rs_map st) ?h")
    case (Some m)
    have "p \<in> set (reservedHostPorts st hv pv) \<longleftrightarrow> (\<exists>es. (p, es) \<in> set m \<and> es \<noteq> [])"
      using Some by (force simp: reservedHostPorts_def Let_def list_ex_conflict)
    also have "\<dots> \<longleftrightarrow> (\<exists>es. jm_get m p = Some es \<and> es \<noteq> [])"
      using jm_in_set_get [OF table_okD(1) [OF t Some]] jm_get_in_set by metis
    finally show ?thesis using Some by (auto simp: entries_at_def split: option.splits)
  qed (simp add: reservedHostPorts_def entries_at_def Let_def)
  moreover have "entries_at st ?h p \<noteq> [] \<longleftrightarrow> (\<exists>r \<in> set objs. live st r \<and> hr_key r = (?h, p))" for p
    using at [of ?h p] by (metis (mono_tags, lifting) Collect_empty_eq image_is_empty set_empty)
  ultimately show ?thesis by (auto simp: hr_key_def)
qed

section \<open>Properties\<close>

text \<open>
  C27. Mutual exclusion.  Whatever sequence of reservations and releases runs from an empty table,
  no two live reservation objects hold the same port of the same host, the table reports exactly the
  ports of the live objects as reserved, whatever the protocols, and a further request for a held
  port is refused while one for a free, valid port is granted.
\<close>
theorem reservations_exclusive:
  assumes "run_actions as (initial_reservations, []) = (st, objs)"
  shows "distinct (map hr_key (filter (live st) objs))
    \<and> set (reservedHostPorts st hv pv) =
        hr_port ` {r \<in> set objs. live st r \<and> hr_hostId r = normalizedHostId hv}
    \<and> (fst (tryReserveHostPort st hv portv pv) \<noteq> None \<longleftrightarrow>
        normalizedHostId hv \<noteq> 0 \<and> normalizedPort portv \<noteq> 0
          \<and> normalizedPort portv \<notin> set (reservedHostPorts st hv pv))"
proof -
  have inv: "reservations_inv st objs"
    using run_actions_inv [of initial_reservations "[]" "[]" "as" st objs] assms initial_inv by simp
  then have t: "table_ok st"
    and at: "set (entries_at st (normalizedHostId hv) (normalizedPort portv)) =
      entry_of ` {r \<in> set objs. live st r \<and> hr_key r = (normalizedHostId hv, normalizedPort portv)}"
    by (auto simp: reservations_inv_def)
  have "entries_at st (normalizedHostId hv) (normalizedPort portv) \<noteq> []
      \<longleftrightarrow> normalizedPort portv \<in> set (reservedHostPorts st hv pv)"
    unfolding reservedHostPorts_set [OF inv] set_empty [symmetric] at by (force simp: hr_key_def)
  then show ?thesis
    using inv_live_distinct [OF inv] reservedHostPorts_set [OF inv]
    by (simp add: tryReserve_cases [OF t] Let_def)
qed

theorem reservations_exclusive_witness:
  "\<exists>st objs. run_actions [Reserve (JNum 3) (JNum 8080) (JStr ''tcp''), Release 0] (initial_reservations, [])
      = (st, objs)
    \<and> distinct (map hr_key (filter (live st) objs))"
  using reservations_exclusive [of "[Reserve (JNum 3) (JNum 8080) (JStr ''tcp''), Release 0]"]
  by (meson surj_pair)

text \<open>
  The retrying search returns a port that is exclusively ours, or leaves nothing behind.
  However other requests interleave with the awaited calls, when \<open>reserveAvailableHostPort\<close> returns
  a reservation it is live, is for the requested host, collides with no other live reservation and
  its port was reported free; when it returns \<open>null\<close> or throws, the table is that of the others alone.
\<close>
theorem reserveAvailableHostPort_exclusive:
  assumes "reservations_inv st others"
    "reserveAvailableHostPort (st, others) hostId protocol findPort isUsed maxAttempts = (outcome, st', others')"
  shows "case outcome of
      Returns (Some r) \<Rightarrow> live st' r \<and> hr_hostId r = normalizedHostId hostId
        \<and> hr_key r \<notin> hr_key ` {o' \<in> set others'. live st' o'}
        \<and> (\<forall>check. isUsed = Some check \<longrightarrow> (\<exists>k < 256. fst (check k (hr_port r)) = Free))
        \<and> reservations_inv st' (r # others')
    | _ \<Rightarrow> reservations_inv st' others'"
proof -
  have "\<lceil>max_attempts maxAttempts\<rceil> \<le> 256" by (simp add: ceiling_le_iff max_attempts_def)
  then have k: "k < 256" if "k \<in> set [0..<nat \<lceil>max_attempts maxAttempts\<rceil>]" for k
  proof -
    have "k < nat \<lceil>max_attempts maxAttempts\<rceil>" using that by simp
    with \<open>\<lceil>max_attempts maxAttempts\<rceil> \<le> 256\<close> show ?thesis by linarith
  qed
  note i = reserve_attempts_inv [OF assms(1) assms(2) [unfolded reserveAvailableHostPort_def]]
  show ?thesis
  proof (cases outcome)
    case (Returns ro)
    show ?thesis
    proof (cases ro)
      case (Some r)
      have "hr_key r \<notin> hr_key ` {o' \<in> set others'. live st' o'}"
        using inv_live_distinct [of st' "r # others'"] i Returns Some by auto
      then show ?thesis using i k Returns Some by auto
    qed (use i Returns in simp)
  qed (use i in simp)
qed

theorem reserveAvailableHostPort_exclusive_witness:
  "\<exists>st r. reserveAvailableHostPort (initial_reservations, []) (JNum 3) JUndef
        (\<lambda>k ports. (FoundPort 8080, [])) None (JNum 2)
      = (Returns (Some r), st, []) \<and> live st r \<and> hr_hostId r = 3 \<and> reservations_inv st [r]"
proof -
  have two: "[0..<nat \<lceil>max_attempts (JNum 2)\<rceil>] = [0, 1]"
    by (simp add: max_attempts_def upt_conv_Cons)
  obtain st r where run: "reserveAvailableHostPort (initial_reservations, []) (JNum 3) JUndef
      (\<lambda>k ports. (FoundPort 8080, [])) None (JNum 2) = (Returns (Some r), st, [])"
    unfolding reserveAvailableHostPort_def two
    by (simp add: run_actions_def tryReserveHostPort_def settle_usage_def initial_reservations_def
        normalizedHostId_def normalizedPort_def jm_has_def Let_def)
  have "normalizedHostId (JNum 3) = 3" by (simp add: normalizedHostId_def)
  with reserveAvailableHostPort_exclusive [OF initial_inv run] run show ?thesis by auto
qed

text \<open>
  The one-shot reservation is released exactly when it is not returned.  Whatever happens while
  the usage check is awaited, \<open>reserveSpecificHostPort\<close> returns a live, exclusive reservation of the
  requested port when the check says free, and otherwise nothing of it remains in the table.
\<close>
theorem reserveSpecificHostPort_exclusive:
  assumes "reservations_inv st others"
    "reserveSpecificHostPort (st, others) hostId port protocol isUsed = (outcome, st', others')"
  shows "case outcome of
      Returns (Some r) \<Rightarrow> live st' r \<and> hr_key r = (normalizedHostId hostId, normalizedPort port)
        \<and> (\<forall>check. isUsed = Some check \<longrightarrow> fst (check (normalizedPort port)) = Free)
        \<and> reservations_inv st' (r # others')
    | _ \<Rightarrow> reservations_inv st' others'"
proof -
  have tok: "table_ok st" using assms(1) by (simp add: reservations_inv_def)
  obtain ro st1 where t: "tryReserveHostPort st hostId port protocol = (ro, st1)"
    by (cases "tryReserveHostPort st hostId port protocol")
  show ?thesis
  proof (cases ro)
    case None
    then have "st1 = st" using t tryReserve_None [OF tok] by simp
    then show ?thesis using assms t None by (auto simp: reserveSpecificHostPort_def)
  next
    case (Some r)
    obtain ans st2 others2 where se: "settle_usage isUsed r (st1, others) = (ans, st2, others2)"
      by (cases "settle_usage isUsed r (st1, others)")
    have r: "hr_key r = (normalizedHostId hostId, normalizedPort port)"
      using tryReserve_Some(1,2) [OF tok] t Some by (auto simp: hr_key_def)
    have i: "reservations_inv st1 (r # others)" "live st1 r"
      using inv_reserve [OF assms(1)] t Some by auto
    show ?thesis
      using settle_usage_inv [OF i se] assms(2) t Some se r
      by (cases ans) (auto simp: reserveSpecificHostPort_def hr_key_def)
  qed
qed

theorem reserveSpecificHostPort_exclusive_witness:
  "\<exists>st. reserveSpecificHostPort (initial_reservations, []) (JNum 3) (JNum 443) JUndef (Some (\<lambda>p. (Used, [])))
      = (Returns None, st, []) \<and> reservations_inv st []"
proof -
  obtain st where run: "reserveSpecificHostPort (initial_reservations, []) (JNum 3) (JNum 443) JUndef
      (Some (\<lambda>p. (Used, []))) = (Returns None, st, [])"
    by (simp add: reserveSpecificHostPort_def run_actions_def tryReserveHostPort_def settle_usage_def
        initial_reservations_def normalizedHostId_def normalizedPort_def jm_has_def Let_def)
  with reserveSpecificHostPort_exclusive [OF initial_inv run] show ?thesis by auto
qed

end
