(* ===== verification/Probe_Counters.thy ===== *)
theory Probe_Counters
imports FX_Prelude
begin

text \<open>
  The packet counters of path probes, with the floating-point arithmetic that combines them.
  Several modules store, per hop, how many probe packets were sent and how many came back, and
  combine the hops by the lowest success ratio.  The ratio is an IEEE double, so whether the scaled
  ratio reaches an integer is decided by rounding: \<open>fl\<close> is round-to-nearest-even to 53 bits, and
  the theory shows which of the two formulas in use computes the exact number.
\<close>

section \<open>Rounding to doubles\<close>

definition round_half_even :: "rat \<Rightarrow> int" where
  "round_half_even x =
     (let f = \<lfloor>x\<rfloor>; d = x - of_int f in
      if d < 1 / 2 then f else if 1 / 2 < d then f + 1 else if even f then f else f + 1)"

text \<open>
  Scale a positive value below \<open>2 ^ 53\<close> to a 53-bit significand and round it.  After 1074 doublings
  the unit is that of the subnormal numbers, where a double keeps no further bit.
\<close>

fun fl_scaled :: "nat \<Rightarrow> rat \<Rightarrow> rat" where
  "fl_scaled 0 m = of_int (round_half_even m)"
| "fl_scaled (Suc n) m =
     (if 2 ^ 52 \<le> m then of_int (round_half_even m) else fl_scaled n (2 * m) / 2)"

definition fl :: "rat \<Rightarrow> rat" where
  "fl q = (if q = 0 then 0 else if q < 0 then - fl_scaled 1074 (- q) else fl_scaled 1074 q)"

definition probe_eps :: rat where
  "probe_eps = fl (1 / 10 ^ 9)"

lemma round_half_even_error: "\<bar>of_int (round_half_even x) - x\<bar> \<le> 1 / 2"
proof -
  define f where "f = \<lfloor>x\<rfloor>"
  have "of_int f \<le> x" "x < of_int f + 1" unfolding f_def by linarith+
  then show ?thesis unfolding round_half_even_def Let_def f_def [symmetric] by (auto simp: abs_if)
qed

lemma fl_scaled_error:
  "2 ^ 52 \<le> m * 2 ^ n \<Longrightarrow> \<bar>fl_scaled n m - m\<bar> \<le> m / 2 ^ 53"
proof (induction n m rule: fl_scaled.induct)
  case (1 m)
  have "\<bar>of_int (round_half_even m) - m\<bar> \<le> (1 / 2 :: rat)" by (rule round_half_even_error)
  also have "\<dots> \<le> m / 2 ^ 53" using 1 by simp
  finally show ?case by simp
next
  case (2 n m)
  show ?case
  proof (cases "2 ^ 52 \<le> m")
    case True
    have "\<bar>of_int (round_half_even m) - m\<bar> \<le> (1 / 2 :: rat)" by (rule round_half_even_error)
    also have "\<dots> \<le> m / 2 ^ 53" using True by simp
    finally show ?thesis using True by simp
  next
    case False
    have "\<bar>fl_scaled n (2 * m) - 2 * m\<bar> \<le> 2 * m / 2 ^ 53"
      using "2.IH" [OF False] "2.prems" by (simp add: mult.commute mult.left_commute)
    then have "\<bar>fl_scaled n (2 * m) / 2 - m\<bar> \<le> m / 2 ^ 53" by (simp add: abs_le_iff field_simps)
    then show ?thesis using False by simp
  qed
qed

text \<open>The values of the probe computations are at least \<open>2 ^ -1000\<close>, far from the subnormal range.\<close>

lemma fl_error:
  assumes "1 / 2 ^ 1000 \<le> q"
  shows "\<bar>fl q - q\<bar> \<le> q / 2 ^ 53"
proof -
  have pos: "0 < q" using assms by (rule less_le_trans [rotated]) simp
  have "(2::rat) ^ 52 \<le> 1 / 2 ^ 1000 * 2 ^ 1074" by simp
  also have "\<dots> \<le> q * 2 ^ 1074" using assms by (intro mult_right_mono) simp_all
  finally show ?thesis using fl_scaled_error [of q 1074] pos by (simp add: fl_def)
qed

text \<open>The two sides of an error bound, in the form linear arithmetic uses.\<close>

lemma abs_leD: "\<bar>a - b\<bar> \<le> (d :: rat) \<Longrightarrow> a \<le> b + d \<and> b - d \<le> a"
  by (simp add: abs_le_iff)

lemma fl_bounds:
  assumes "1 / 10000000000 \<le> q"
  shows "fl q \<le> q + q / 9007199254740992" "q - q / 9007199254740992 \<le> fl q"
proof -
  have "1 / 2 ^ 1000 \<le> (1 / 10000000000 :: rat)" by simp
  with assms have "1 / 2 ^ 1000 \<le> q" by (rule order_trans [rotated])
  from fl_error [OF this] have "\<bar>fl q - q\<bar> \<le> q / 9007199254740992" by simp
  then show "fl q \<le> q + q / 9007199254740992" "q - q / 9007199254740992 \<le> fl q"
    using abs_leD by blast+
qed

text \<open>Evaluation: the significand of \<open>q\<close> is found by scaling with the right power of two.\<close>

lemma fl_scaled_at:
  "2 ^ 52 \<le> m * 2 ^ k \<Longrightarrow> m * 2 ^ k < 2 ^ 53 \<Longrightarrow> k \<le> n \<Longrightarrow> 0 < m \<Longrightarrow>
   fl_scaled n m = of_int (round_half_even (m * 2 ^ k)) / 2 ^ k"
proof (induction k arbitrary: n m)
  case 0
  then show ?case by (cases n) simp_all
next
  case (Suc k)
  then obtain n' where n: "n = Suc n'" "k \<le> n'" by (cases n) auto
  have "m * 2 \<le> m * 2 ^ Suc k" using Suc.prems(4) by (intro mult_left_mono) simp_all
  then have "\<not> 2 ^ 52 \<le> m" using Suc.prems(2) by simp
  moreover have "fl_scaled n' (2 * m) = of_int (round_half_even (2 * m * 2 ^ k)) / 2 ^ k"
    using Suc.prems n by (intro Suc.IH) (simp_all add: mult.commute mult.left_commute)
  moreover have "2 * m * 2 ^ k = m * 2 ^ Suc k" by simp
  ultimately show ?case by (simp add: n(1))
qed

lemma fl_at:
  assumes "k \<le> 1074" "0 < q" "2 ^ 52 \<le> q * 2 ^ k" "q * 2 ^ k < 2 ^ 53"
  shows "fl q = of_int (round_half_even (q * 2 ^ k)) / 2 ^ k"
  using fl_scaled_at [OF assms(3,4,1,2)] assms(2) by (simp add: fl_def)

lemma fl_0 [simp]: "fl 0 = 0"
  by (simp add: fl_def)


section \<open>Scaling a success ratio\<close>

text \<open>
  A valid sample counts between 1 and 1024 packets, and no more successes than packets.  The exact
  number the code approximates is \<open>s * P div c\<close>.
\<close>

definition valid_counts :: "int \<times> int \<Rightarrow> bool" where
  "valid_counts cs = (1 \<le> fst cs \<and> fst cs \<le> 1024 \<and> 0 \<le> snd cs \<and> snd cs \<le> fst cs)"

definition scaled :: "int \<Rightarrow> int \<Rightarrow> int \<Rightarrow> rat" where
  "scaled s c P = fl (fl (of_int s / of_int c) * of_int P)"

lemma scaled_error:
  assumes "1 \<le> c" "c \<le> 1024" "0 \<le> s" "s \<le> c" "1 \<le> P" "P \<le> 1024"
  shows "scaled s c P \<le> of_int (s * P) / of_int c + 1 / 1000000000000"
    and "of_int (s * P) / of_int c - 1 / 1000000000000 \<le> scaled s c P" and "0 \<le> scaled s c P"
proof -
  have both: "scaled s c P \<le> of_int (s * P) / of_int c + 1 / 1000000000000
    \<and> of_int (s * P) / of_int c - 1 / 1000000000000 \<le> scaled s c P \<and> 0 \<le> scaled s c P"
  proof (cases "s = 0")
    case True
    then show ?thesis by (simp add: scaled_def)
  next
    case False
    define r :: rat where "r = of_int s / of_int c"
    define p :: rat where "p = of_int P"
    have c: "(1::rat) \<le> of_int c" "of_int c \<le> (1024::rat)"
      and s: "(1::rat) \<le> of_int s" "of_int s \<le> (of_int c :: rat)" and p: "1 \<le> p" "p \<le> 1024"
      using assms False by (simp_all add: p_def)
    have r: "1 / 1024 \<le> r" "r \<le> 1"
      using c s unfolding r_def by (auto simp: divide_simps)
    have f: "fl r \<le> r + 1 / 9007199254740992" "r - 1 / 9007199254740992 \<le> fl r"
      using fl_bounds [of r] r by linarith+
    have y: "fl r * p \<le> r * p + 1024 / 9007199254740992" "r * p - 1024 / 9007199254740992 \<le> fl r * p"
      using mult_right_mono [OF f(1), of p] mult_right_mono [OF f(2), of p] p
      by (simp_all add: distrib_right left_diff_distrib)
    have rp: "1 / 1024 \<le> r * p" "r * p \<le> 1024"
      using mult_mono [of "1 / 1024" r 1 p] mult_mono [of r 1 p 1024] r p by auto
    have "fl (fl r * p) \<le> r * p + 1 / 1000000000000" "r * p - 1 / 1000000000000 \<le> fl (fl r * p)"
      "0 \<le> fl (fl r * p)"
      using fl_bounds [of "fl r * p"] y rp by linarith+
    then show ?thesis by (simp add: scaled_def r_def p_def)
  qed
  then show "scaled s c P \<le> of_int (s * P) / of_int c + 1 / 1000000000000"
    "of_int (s * P) / of_int c - 1 / 1000000000000 \<le> scaled s c P" "0 \<le> scaled s c P" by auto
qed

lemma probe_eps_bounds: "9 / 10000000000 \<le> probe_eps" "probe_eps \<le> 11 / 10000000000"
proof -
  have "probe_eps = fl (1 / 1000000000)" by (simp add: probe_eps_def)
  then show "9 / 10000000000 \<le> probe_eps" "probe_eps \<le> 11 / 10000000000"
    using fl_bounds [of "1 / 1000000000"] by simp_all
qed

text \<open>The quotient is an integer or stays a 1024th away from the next one.\<close>

lemma quotient_gap:
  assumes "1 \<le> c" "c \<le> 1024"
  shows "of_int (a div c) \<le> (of_int a / of_int c :: rat)"
    and "(of_int a / of_int c :: rat) \<le> of_int (a div c) + 1 - 1 / 1024"
proof -
  have c: "(0::rat) < of_int c" using assms by simp
  have "a = c * (a div c) + a mod c" by simp
  then have eq: "(of_int a :: rat) = of_int c * of_int (a div c) + of_int (a mod c)"
    by (metis of_int_add of_int_mult)
  have m: "0 \<le> a mod c" "a mod c \<le> c - 1" using assms by (auto simp: pos_mod_bound) 
  have q: "(of_int a / of_int c :: rat) = of_int (a div c) + of_int (a mod c) / of_int c"
    using c by (subst eq) (simp add: add_divide_distrib)
  have "(of_int (a mod c) :: rat) \<le> of_int (c - 1)" using m(2) by (simp only: of_int_le_iff)
  then have "(of_int (a mod c) / of_int c :: rat) \<le> (of_int c - 1) / of_int c"
    using c by (intro divide_right_mono) simp_all
  also have "\<dots> = 1 - 1 / of_int c" using c by (simp add: diff_divide_distrib)
  also have "\<dots> \<le> 1 - 1 / 1024" using assms by (simp add: frac_le)
  finally show "(of_int a / of_int c :: rat) \<le> of_int (a div c) + 1 - 1 / 1024" unfolding q by simp
  have "0 \<le> (of_int (a mod c) / of_int c :: rat)" using c m(1) by simp
  then show "of_int (a div c) \<le> (of_int a / of_int c :: rat)" unfolding q by simp
qed

text \<open>With the correction term the floor is exact.\<close>

lemma floor_scaled_eps:
  assumes "1 \<le> c" "c \<le> 1024" "0 \<le> s" "s \<le> c" "1 \<le> P" "P \<le> 1024"
  shows "\<lfloor>fl (scaled s c P + probe_eps)\<rfloor> = s * P div c"
proof -
  define d where "d = (of_int (s * P div c) :: rat)"
  define x where "x = (of_int (s * P) / of_int c :: rat)"
  define w where "w = scaled s c P"
  note e = scaled_error [OF assms, folded x_def w_def]
  note g = quotient_gap [OF assms(1,2), of "s * P", folded x_def d_def]
  have "s * P div c \<le> 1024"
  proof -
    have "s * P \<le> c * 1024" using assms by (intro mult_mono) auto
    then have "s * P div c \<le> c * 1024 div c" using assms by (intro zdiv_mono1) auto
    then show ?thesis using assms by simp
  qed
  then have d: "d \<le> 1024" by (simp add: d_def)
  have z: "1 / 10000000000 \<le> w + probe_eps" using e(3) probe_eps_bounds(1) by linarith
  have up: "w + probe_eps \<le> d + (1 - 1 / 2048)" and lo: "d + 8 / 10000000000 \<le> w + probe_eps"
    using e g probe_eps_bounds by linarith+
  have "w + probe_eps \<le> 1025" using up d by linarith
  then have "(w + probe_eps) / 9007199254740992 \<le> 1025 / 9007199254740992"
    by (rule divide_right_mono) simp
  also have "\<dots> \<le> 1 / 1000000000000" by simp
  finally have t: "(w + probe_eps) / 9007199254740992 \<le> 1 / 1000000000000" .
  have "fl (w + probe_eps) < d + 1" using fl_bounds(1) [OF z] t up by linarith
  moreover have "d \<le> fl (w + probe_eps)" using fl_bounds(2) [OF z] t lo by linarith
  ultimately have "d \<le> fl (w + probe_eps)" "fl (w + probe_eps) < d + 1" by blast+
  then show ?thesis by (simp add: floor_eq_iff d_def w_def)
qed

text \<open>Without it the floor may fall one short, and only when the quotient is an integer.\<close>

lemma floor_scaled_plain:
  assumes "1 \<le> c" "c \<le> 1024" "0 \<le> s" "s \<le> c" "1 \<le> P" "P \<le> 1024"
  shows "\<lfloor>scaled s c P\<rfloor> = s * P div c \<or> c dvd s * P \<and> \<lfloor>scaled s c P\<rfloor> = s * P div c - 1"
proof -
  let ?x = "of_int (s * P) / of_int c :: rat"
  note e = scaled_error [OF assms] and g = quotient_gap [OF assms(1,2), of "s * P"]
  have up: "scaled s c P < of_int (s * P div c) + 1" and lo: "of_int (s * P div c) - 1 \<le> scaled s c P"
    using e g by linarith+
  show ?thesis
  proof (cases "of_int (s * P div c) \<le> scaled s c P")
    case True
    then show ?thesis using up by (simp add: floor_eq_iff)
  next
    case False
    have "c dvd s * P"
    proof (rule ccontr)
      assume nd: "\<not> c dvd s * P"
      then have "s * P mod c \<noteq> 0" by (simp add: dvd_eq_mod_eq_0)
      moreover have "0 \<le> s * P mod c" using assms(1) by simp
      ultimately have "1 \<le> s * P mod c" by linarith
      moreover have "s * P = c * (s * P div c) + s * P mod c" by simp
      ultimately have "c * (s * P div c) + 1 \<le> s * P" by linarith
      then have "(of_int (c * (s * P div c) + 1) :: rat) \<le> of_int (s * P)" by (simp only: of_int_le_iff)
      then have "(of_int (c * (s * P div c) + 1) :: rat) / of_int c \<le> ?x"
        using assms(1) by (intro divide_right_mono) simp_all
      moreover have "(of_int (c * (s * P div c) + 1) :: rat) / of_int c = of_int (s * P div c) + 1 / of_int c"
        using assms(1) by (simp add: add_divide_distrib)
      ultimately have "of_int (s * P div c) + 1 / of_int c \<le> ?x" by simp
      moreover have "(1 / 1024 :: rat) \<le> 1 / of_int c" using assms by (intro frac_le) simp_all
      ultimately show False using e(2) False by linarith
    qed
    then show ?thesis using False lo by (simp add: floor_eq_iff)
  qed
qed

section \<open>Normalising and combining counters\<close>

definition normalizeProbeCounts :: "jsval \<Rightarrow> jsval \<Rightarrow> bool \<Rightarrow> int \<times> int" where
  "normalizeProbeCounts probeCountValue probeSuccessesValue isTimeout =
     (let probeCount = (case js_integer probeCountValue of
                          Some rawCount \<Rightarrow> if 1 \<le> rawCount \<and> rawCount \<le> 1024 then rawCount else 1
                        | None \<Rightarrow> 1);
          probeSuccesses =
            (if js_nullish probeSuccessesValue then (if isTimeout then 0 else probeCount)
             else (case js_integer probeSuccessesValue of
                     Some rawSuccesses \<Rightarrow> rawSuccesses
                   | None \<Rightarrow> if isTimeout then 0 else probeCount))
      in (probeCount, max 0 (min probeCount probeSuccesses)))"

definition sample_count :: "int \<times> int \<Rightarrow> int" where
  "sample_count cs = max 1 (if fst cs = 0 then 1 else fst cs)"

definition sample_ratio :: "int \<times> int \<Rightarrow> rat" where
  "sample_ratio cs =
     (let count = sample_count cs; successes = max 0 (min count (snd cs))
      in fl (of_int successes / of_int count))"

text \<open>\<open>Math.max(...xs, 1)\<close> and \<open>Math.min(...xs)\<close> of a nonempty array.\<close>

definition max_count :: "(int \<times> int) list \<Rightarrow> int" where
  "max_count results = Max (insert 1 (sample_count ` set results))"

definition min_ratio :: "(int \<times> int) list \<Rightarrow> rat" where
  "min_ratio results = Min (sample_ratio ` set results)"

definition aggregateProbeCounts :: "(int \<times> int) list \<Rightarrow> int \<times> int" where
  "aggregateProbeCounts results =
     (if results = [] then (1, 0)
      else
        (let probeCount = max_count results;
             successRatio = min_ratio results
         in (probeCount,
             max 0 (min probeCount \<lfloor>fl (fl (successRatio * of_int probeCount) + probe_eps)\<rfloor>))))"

definition combineProbeCounts :: "(int \<times> int) list \<Rightarrow> int \<times> int" where
  "combineProbeCounts results =
     (if results = [] then (1, 0)
      else
        (let probeCount = max_count results;
             ratio = min_ratio results
         in (probeCount,
             max 0 (min probeCount \<lfloor>fl (fl (ratio * of_int probeCount) + probe_eps)\<rfloor>))))"

text \<open>The forwarding-group variant multiplies and floors without the correction.\<close>

definition groupProbeCounts :: "(int \<times> int) list \<Rightarrow> int \<times> int" where
  "groupProbeCounts results =
     (let probeCount = max_count results
      in (probeCount, max 0 (min probeCount \<lfloor>fl (min_ratio results * of_int probeCount)\<rfloor>)))"

section \<open>What the counters mean\<close>

definition exact_ratio :: "int \<times> int \<Rightarrow> rat" where
  "exact_ratio cs = of_int (snd cs) / of_int (fst cs)"

definition exact_counts :: "(int \<times> int) list \<Rightarrow> int \<times> int" where
  "exact_counts results =
     (let probeCount = Max (fst ` set results)
      in (probeCount, \<lfloor>Min (exact_ratio ` set results) * of_int probeCount\<rfloor>))"

lemma normalizeProbeCounts_valid: "valid_counts (normalizeProbeCounts c s t)"
  by (auto simp: normalizeProbeCounts_def valid_counts_def Let_def split: option.split)

lemma sample_count_valid: "valid_counts cs \<Longrightarrow> sample_count cs = fst cs"
  by (auto simp: sample_count_def valid_counts_def)

lemma sample_ratio_valid: "valid_counts cs \<Longrightarrow> sample_ratio cs = fl (exact_ratio cs)"
  by (auto simp: sample_ratio_def sample_count_valid exact_ratio_def valid_counts_def Let_def min_def max_def)

lemma fl_ratio_error:
  assumes "valid_counts cs"
  shows "fl (exact_ratio cs) \<le> exact_ratio cs + 1 / 9007199254740992"
    "exact_ratio cs - 1 / 9007199254740992 \<le> fl (exact_ratio cs)"
proof -
  have "fl (exact_ratio cs) \<le> exact_ratio cs + 1 / 9007199254740992
      \<and> exact_ratio cs - 1 / 9007199254740992 \<le> fl (exact_ratio cs)"
  proof (cases "snd cs = 0")
    case True
    then show ?thesis by (simp add: exact_ratio_def)
  next
    case False
    have "(1::rat) \<le> of_int (fst cs)" "of_int (fst cs) \<le> (1024::rat)"
      "(1::rat) \<le> of_int (snd cs)" "of_int (snd cs) \<le> (of_int (fst cs) :: rat)"
      using assms False by (auto simp: valid_counts_def)
    then have r: "1 / 1024 \<le> exact_ratio cs" "exact_ratio cs \<le> 1"
      unfolding exact_ratio_def by (auto simp: divide_simps)
    then show ?thesis using fl_bounds [of "exact_ratio cs"] by linarith
  qed
  then show "fl (exact_ratio cs) \<le> exact_ratio cs + 1 / 9007199254740992"
    "exact_ratio cs - 1 / 9007199254740992 \<le> fl (exact_ratio cs)" by auto
qed

text \<open>Different ratios differ by more than the rounding error, so rounding keeps their order.\<close>

lemma fl_ratio_mono:
  assumes "valid_counts a" "valid_counts b" "exact_ratio a \<le> exact_ratio b"
  shows "fl (exact_ratio a) \<le> fl (exact_ratio b)"
proof (cases "exact_ratio a = exact_ratio b")
  case False
  then have lt: "exact_ratio a < exact_ratio b" using assms(3) by simp
  have pos: "(0::rat) < of_int (fst a)" "(0::rat) < of_int (fst b)"
    using assms by (auto simp: valid_counts_def)
  have "(of_int (snd a * fst b) :: rat) < of_int (snd b * fst a)"
    using lt pos by (simp add: exact_ratio_def divide_simps mult.commute split: if_splits)
  then have "snd a * fst b + 1 \<le> snd b * fst a" by (simp only: of_int_less_iff)
  then have "(of_int (snd a * fst b + 1) :: rat) \<le> of_int (snd b * fst a)" by (simp only: of_int_le_iff)
  then have "exact_ratio a + 1 / (of_int (fst a) * of_int (fst b)) \<le> exact_ratio b"
    using pos by (simp add: exact_ratio_def divide_simps)
  moreover have "(1 / 1048576 :: rat) \<le> 1 / (of_int (fst a) * of_int (fst b))"
  proof -
    have "fst a * fst b \<le> 1024 * 1024" using assms by (intro mult_mono) (auto simp: valid_counts_def)
    then have "(of_int (fst a * fst b) :: rat) \<le> of_int 1048576" by (simp only: of_int_le_iff)
    then show ?thesis using pos by (intro frac_le) simp_all
  qed
  ultimately show ?thesis
    using fl_ratio_error(1) [OF assms(1)] fl_ratio_error(2) [OF assms(2)] by linarith
qed simp

lemma min_ratio_attained:
  assumes "results \<noteq> []" "\<forall>cs \<in> set results. valid_counts cs"
  obtains cs where "cs \<in> set results" "Min (exact_ratio ` set results) = exact_ratio cs"
    "min_ratio results = fl (exact_ratio cs)"
proof -
  have "Min (exact_ratio ` set results) \<in> exact_ratio ` set results"
    using assms(1) by (intro Min_in) simp_all
  then obtain cs where cs: "cs \<in> set results" "Min (exact_ratio ` set results) = exact_ratio cs"
    by (rule imageE)
  have least: "exact_ratio cs \<le> exact_ratio b" if "b \<in> set results" for b
    using that cs(2) [symmetric] by (simp add: Min_le)
  have "min_ratio results = fl (exact_ratio cs)"
    unfolding min_ratio_def
  proof (rule Min_eqI)
    show "fl (exact_ratio cs) \<in> sample_ratio ` set results"
      using cs(1) assms(2) by (intro image_eqI [of _ _ cs]) (simp_all add: sample_ratio_valid)
    show "fl (exact_ratio cs) \<le> y" if "y \<in> sample_ratio ` set results" for y
      using that assms(2) least cs(1) by (auto simp: sample_ratio_valid intro: fl_ratio_mono)
  qed simp
  with that cs show ?thesis by blast
qed

lemma max_count_valid:
  assumes "results \<noteq> []" "\<forall>cs \<in> set results. valid_counts cs"
  shows "max_count results = Max (fst ` set results)"
    "1 \<le> max_count results" "max_count results \<le> 1024" "cs \<in> set results \<Longrightarrow> fst cs \<le> max_count results"
proof -
  have eq: "sample_count ` set results = fst ` set results"
    using assms(2) by (intro image_cong) (simp_all add: sample_count_valid)
  obtain r where r: "r \<in> set results" using assms(1) by (meson hd_in_set)
  then have "fst r \<le> Max (fst ` set results)" by simp
  then have ge: "1 \<le> Max (fst ` set results)" using bspec [OF assms(2) r] by (simp add: valid_counts_def)
  show m: "max_count results = Max (fst ` set results)"
    using assms(1) ge unfolding max_count_def eq by (subst Max_insert) auto
  show "1 \<le> max_count results" using ge m by simp
  show "max_count results \<le> 1024"
    unfolding m using assms by (subst Max_le_iff) (auto simp: valid_counts_def)
  show "cs \<in> set results \<Longrightarrow> fst cs \<le> max_count results" unfolding m by (simp add: Max_ge)
qed

lemma quotient_bounds:
  assumes "valid_counts cs" "1 \<le> P"
  shows "0 \<le> snd cs * P div fst cs" "snd cs * P div fst cs \<le> P"
    "\<lfloor>exact_ratio cs * of_int P\<rfloor> = snd cs * P div fst cs"
proof -
  have c: "1 \<le> fst cs" "0 \<le> snd cs" "snd cs \<le> fst cs" using assms(1) by (auto simp: valid_counts_def)
  show "0 \<le> snd cs * P div fst cs" using c assms(2) by (simp add: pos_imp_zdiv_nonneg_iff)
  have "snd cs * P div fst cs \<le> fst cs * P div fst cs"
    using c assms(2) by (intro zdiv_mono1 mult_right_mono) auto
  then show "snd cs * P div fst cs \<le> P" using c by simp
  have "exact_ratio cs * of_int P = of_int (snd cs * P) / of_int (fst cs)" by (simp add: exact_ratio_def)
  then show "\<lfloor>exact_ratio cs * of_int P\<rfloor> = snd cs * P div fst cs"
    by (simp only: floor_divide_of_int_eq)
qed

lemma exact_counts_at:
  assumes "results \<noteq> []" "\<forall>cs \<in> set results. valid_counts cs"
  obtains cs where "cs \<in> set results" "valid_counts cs" "min_ratio results = fl (exact_ratio cs)"
    "exact_counts results = (max_count results, snd cs * max_count results div fst cs)"
    "\<And>b. b \<in> set results \<Longrightarrow> exact_ratio cs \<le> exact_ratio b"
proof -
  obtain cs where cs: "cs \<in> set results" "Min (exact_ratio ` set results) = exact_ratio cs"
    "min_ratio results = fl (exact_ratio cs)" by (rule min_ratio_attained [OF assms])
  note m = max_count_valid [OF assms]
  have v: "valid_counts cs" using cs(1) assms(2) by blast
  have "exact_counts results = (max_count results, snd cs * max_count results div fst cs)"
    unfolding exact_counts_def Let_def cs(2) m(1) [symmetric] quotient_bounds(3) [OF v m(2)] ..
  moreover have "exact_ratio cs \<le> exact_ratio b" if "b \<in> set results" for b
    unfolding cs(2) [symmetric] using that by simp
  ultimately show ?thesis using that cs v by blast
qed

lemma aggregateProbeCounts_exact:
  assumes "results \<noteq> []" "\<forall>cs \<in> set results. valid_counts cs"
  shows "aggregateProbeCounts results = exact_counts results"
proof -
  obtain cs where cs: "cs \<in> set results" and v: "valid_counts cs"
    and r: "min_ratio results = fl (exact_ratio cs)"
    and e: "exact_counts results = (max_count results, snd cs * max_count results div fst cs)"
    and least: "\<And>b. b \<in> set results \<Longrightarrow> exact_ratio cs \<le> exact_ratio b"
    by (rule exact_counts_at [OF assms]) blast
  note m = max_count_valid [OF assms]
  let ?P = "max_count results"
  have "\<lfloor>fl (fl (fl (exact_ratio cs) * of_int ?P) + probe_eps)\<rfloor> = snd cs * ?P div fst cs"
    using floor_scaled_eps [of "fst cs" "snd cs" ?P] v m(2,3)
    by (simp add: scaled_def exact_ratio_def valid_counts_def)
  then show ?thesis
    using assms(1) quotient_bounds [OF v m(2)]
    by (simp add: aggregateProbeCounts_def e r Let_def)
qed

lemma combineProbeCounts_aggregate: "combineProbeCounts = aggregateProbeCounts"
  by (simp add: fun_eq_iff combineProbeCounts_def aggregateProbeCounts_def)

lemma groupProbeCounts_near:
  assumes "results \<noteq> []" "\<forall>cs \<in> set results. valid_counts cs"
  shows "fst (groupProbeCounts results) = fst (exact_counts results)"
    and "snd (groupProbeCounts results) = snd (exact_counts results)
      \<or> snd (groupProbeCounts results) = snd (exact_counts results) - 1"
    and "snd (groupProbeCounts results) \<ge> 0"
proof -
  obtain cs where cs: "cs \<in> set results" and v: "valid_counts cs"
    and r: "min_ratio results = fl (exact_ratio cs)"
    and e: "exact_counts results = (max_count results, snd cs * max_count results div fst cs)"
    and least: "\<And>b. b \<in> set results \<Longrightarrow> exact_ratio cs \<le> exact_ratio b"
    by (rule exact_counts_at [OF assms]) blast
  note m = max_count_valid [OF assms]
  let ?P = "max_count results"
  have f: "\<lfloor>fl (fl (exact_ratio cs) * of_int ?P)\<rfloor> = snd cs * ?P div fst cs
      \<or> \<lfloor>fl (fl (exact_ratio cs) * of_int ?P)\<rfloor> = snd cs * ?P div fst cs - 1"
    using floor_scaled_plain [of "fst cs" "snd cs" ?P] v m(2,3)
    by (auto simp: scaled_def exact_ratio_def valid_counts_def)
  have nn: "0 \<le> fl (fl (exact_ratio cs) * of_int ?P)"
    using scaled_error(3) [of "fst cs" "snd cs" ?P] v m(2,3)
    by (simp add: scaled_def exact_ratio_def valid_counts_def)
  then have nn': "0 \<le> \<lfloor>fl (fl (exact_ratio cs) * of_int ?P)\<rfloor>" by simp
  have g: "groupProbeCounts results = (?P, \<lfloor>fl (fl (exact_ratio cs) * of_int ?P)\<rfloor>)"
    using f nn' quotient_bounds(1,2) [OF v m(2)] by (auto simp: groupProbeCounts_def r Let_def)
  show "fst (groupProbeCounts results) = fst (exact_counts results)"
    "snd (groupProbeCounts results) = snd (exact_counts results)
      \<or> snd (groupProbeCounts results) = snd (exact_counts results) - 1"
    "snd (groupProbeCounts results) \<ge> 0"
    using f nn' by (simp_all add: e g)
qed

text \<open>Every hop got a packet through exactly when the exact number of complete paths is positive.\<close>

lemma exact_counts_positive:
  assumes "results \<noteq> []" "\<forall>cs \<in> set results. valid_counts cs"
  shows "0 < snd (exact_counts results) \<longleftrightarrow> (\<forall>cs \<in> set results. 0 < snd cs)"
proof -
  obtain cs where cs: "cs \<in> set results" and v: "valid_counts cs"
    and r: "min_ratio results = fl (exact_ratio cs)"
    and e: "exact_counts results = (max_count results, snd cs * max_count results div fst cs)"
    and least: "\<And>b. b \<in> set results \<Longrightarrow> exact_ratio cs \<le> exact_ratio b"
    by (rule exact_counts_at [OF assms]) blast
  note m = max_count_valid [OF assms]
  let ?P = "max_count results"
  have "0 < snd cs * ?P div fst cs \<longleftrightarrow> 0 < snd cs"
  proof
    assume "0 < snd cs"
    then have "1 * fst cs \<le> snd cs * ?P"
      using m(4) [OF cs] v by (intro mult_mono) (auto simp: valid_counts_def)
    then have "1 * fst cs div fst cs \<le> snd cs * ?P div fst cs"
      using v by (intro zdiv_mono1) (auto simp: valid_counts_def)
    then show "0 < snd cs * ?P div fst cs" using v by (simp add: valid_counts_def)
  qed (use v in \<open>auto simp: valid_counts_def intro: ccontr\<close>)
  moreover have "0 < snd cs \<longleftrightarrow> (\<forall>b \<in> set results. 0 < snd b)"
  proof
    assume pos: "0 < snd cs"
    show "\<forall>b \<in> set results. 0 < snd b"
    proof
      fix b assume b: "b \<in> set results"
      have vb: "valid_counts b" using b assms(2) by blast
      have "0 < exact_ratio cs" using pos v by (simp add: exact_ratio_def valid_counts_def)
      also have "\<dots> \<le> exact_ratio b" using b by (rule least)
      finally show "0 < snd b"
        using vb by (auto simp: exact_ratio_def valid_counts_def zero_less_divide_iff)
    qed
  qed (use cs in blast)
  ultimately show ?thesis by (simp add: e)
qed

text \<open>One packet of 49: the double nearest to 1/49, times 49, falls short of 1.\<close>

lemma group_counts_49: "groupProbeCounts [(49, 1)] = (49, 0)"
proof -
  have "\<lfloor>288230376151711744 / 49 :: rat\<rfloor> = 5882252574524729" by (simp add: floor_eq_iff)
  then have "fl (1 / 49) = 5882252574524729 / 288230376151711744"
    using fl_at [of 58 "1 / 49"] by (simp add: round_half_even_def)
  then have ratio: "min_ratio [(49, 1)] = 5882252574524729 / 288230376151711744"
    by (simp add: min_ratio_def sample_ratio_def sample_count_def)
  have "\<lfloor>288230376151711721 / 32 :: rat\<rfloor> = 9007199254740991" by (simp add: floor_eq_iff)
  then have "fl (288230376151711721 / 288230376151711744) = 9007199254740991 / 9007199254740992"
    using fl_at [of 53 "288230376151711721 / 288230376151711744"] by (simp add: round_half_even_def)
  then show ?thesis
    by (simp add: groupProbeCounts_def ratio max_count_def sample_count_def)
qed

section \<open>Properties\<close>

text \<open>
  The tunnel formula is exact in double arithmetic.  For any hops with valid counters,
  \<open>aggregateProbeCounts\<close> and \<open>combineProbeCounts\<close>, evaluated with every intermediate result rounded
  to a double, return the largest packet count and exactly the integer part of the lowest success
  ratio times it, and the result is positive exactly when every hop got a packet through.
\<close>
theorem aggregate_counts_exact:
  assumes "results \<noteq> []" "\<forall>cs \<in> set results. valid_counts cs"
  shows "aggregateProbeCounts results = exact_counts results
    \<and> combineProbeCounts results = exact_counts results
    \<and> (0 < snd (aggregateProbeCounts results) \<longleftrightarrow> (\<forall>cs \<in> set results. 0 < snd cs))"
  using assms by (simp add: aggregateProbeCounts_exact combineProbeCounts_aggregate exact_counts_positive)

theorem aggregate_counts_exact_witness:
  "aggregateProbeCounts [(49, 1), (49, 49)] = exact_counts [(49, 1), (49, 49)]
    \<and> 0 < snd (aggregateProbeCounts [(49, 1), (49, 49)])"
  using aggregate_counts_exact [of "[(49, 1), (49, 49)]"] by (auto simp: valid_counts_def)

text \<open>
  The forwarding-group formula, which leaves the correction term out, is short by one on some
  inputs: it always yields the exact number or one less, never more, and with a single hop where 1 of
  49 packets came back it yields 0 although the path let a packet through.
\<close>
theorem group_counts_short_by_one:
  "(\<forall>results. results \<noteq> [] \<and> (\<forall>cs \<in> set results. valid_counts cs) \<longrightarrow>
      snd (groupProbeCounts results) \<in> {snd (exact_counts results) - 1, snd (exact_counts results)})
    \<and> groupProbeCounts [(49, 1)] = (49, 0) \<and> exact_counts [(49, 1)] = (49, 1)"
proof -
  have "exact_counts [(49, 1)] = (49, 1)" by (simp add: exact_counts_def exact_ratio_def)
  then show ?thesis using groupProbeCounts_near(2) group_counts_49 by blast
qed

theorem group_counts_short_by_one_witness:
  "snd (groupProbeCounts [(4, 3), (2, 1)]) \<in> {snd (exact_counts [(4, 3), (2, 1)]) - 1, snd (exact_counts [(4, 3), (2, 1)])}"
  using group_counts_short_by_one by (auto simp: valid_counts_def)

end
