(* ===== verification/Tunnel_Auto_Latency.thy ===== *)
theory Tunnel_Auto_Latency
imports Probe_Counters
begin

text \<open>
  The automatic latency of a tunnel path (\<open>server/tunnelAutoLatencyState.ts\<close>).  Each hop's agent
  reports its own probe; the module keeps the newest report of every hop of the current topology
  generation for six minutes and aggregates them once every hop has reported.  Identifiers and hop
  indices are the finite numbers the code checks for, hence \<open>rat\<close>; latencies are added exactly.
\<close>

section \<open>State\<close>

record auto_hop =
  ah_hopIndex :: rat
  ah_hopCount :: rat
  ah_generation :: string
  ah_fromHostId :: "int option"
  ah_toHostId :: "int option"
  ah_latencyMs :: "rat option"
  ah_isTimeout :: bool
  ah_counts :: "int \<times> int"
  ah_recordedAt :: int

type_synonym hop_table = "(rat, auto_hop) jmap"
type_synonym tunnel_hop_state = "(string, hop_table) jmap"

record path_aggregate =
  pa_success :: bool
  pa_latencyMs :: "rat option"
  pa_counts :: "(int \<times> int) option"

definition auto_hop_ttl_ms :: int where
  "auto_hop_ttl_ms = 6 * 60 * 1000"

definition or_zero :: "rat option \<Rightarrow> rat" where
  "or_zero latency = (case latency of None \<Rightarrow> 0 | Some l \<Rightarrow> l)"

definition default_path :: "string option \<Rightarrow> string" where
  "default_path pathKey =
     (let raw = (case pathKey of None \<Rightarrow> ''default'' | Some s \<Rightarrow> if s = [] then ''default'' else s);
          path = js_lower (js_trim raw)
      in if path = [] then ''default'' else path)"

definition tunnelPathStateKey :: "rat \<Rightarrow> string option \<Rightarrow> string" where
  "tunnelPathStateKey tunnelId pathKey = js_string (JNum tunnelId) @ CHR '':'' # default_path pathKey"

definition clearTunnelAutoHopLatencyState :: "jsval \<Rightarrow> tunnel_hop_state \<Rightarrow> tunnel_hop_state" where
  "clearTunnelAutoHopLatencyState tunnelId byTunnel =
     (case js_positive_int tunnelId of
        None \<Rightarrow> byTunnel
      | Some tid \<Rightarrow>
          jm_prune (\<lambda>key _. js_starts_with (js_string (JNum (rat_of_int tid)) @ '':'') key) byTunnel)"

section \<open>Aggregation\<close>

definition hop_stale :: "rat \<Rightarrow> string \<Rightarrow> int \<Rightarrow> auto_hop \<Rightarrow> bool" where
  "hop_stale hopCount generation now result =
     (ah_hopCount result \<noteq> hopCount \<or> ah_generation result \<noteq> generation
      \<or> auto_hop_ttl_ms < now - ah_recordedAt result)"

definition attachAggregateProbeCounts :: "bool \<Rightarrow> rat option \<Rightarrow> auto_hop list \<Rightarrow> path_aggregate" where
  "attachAggregateProbeCounts success latencyMs results =
     (let counts = aggregateProbeCounts (map ah_counts results)
      in \<lparr>pa_success = success, pa_latencyMs = latencyMs,
          pa_counts = (if counts = (1, if success then 1 else 0) then None else Some counts)\<rparr>)"

definition cleanupTunnelHopResults ::
  "tunnel_hop_state \<Rightarrow> string \<Rightarrow> rat \<Rightarrow> string \<Rightarrow> int \<Rightarrow> tunnel_hop_state" where
  "cleanupTunnelHopResults byTunnel stateKey hopCount generation now =
     (case jm_get byTunnel stateKey of
        None \<Rightarrow> byTunnel
      | Some hops \<Rightarrow>
          (let hops' = jm_prune (\<lambda>idx result. hopCount \<le> idx \<or> hop_stale hopCount generation now result) hops
           in if length hops' = 0 then jm_del stateKey byTunnel else jm_set stateKey hops' byTunnel))"

definition hop_indices :: "rat \<Rightarrow> rat list" where
  "hop_indices hopCount = map of_nat [0..<nat \<lceil>hopCount\<rceil>]"

fun collect_hops :: "(auto_hop \<Rightarrow> bool) \<Rightarrow> hop_table \<Rightarrow> rat list \<Rightarrow> auto_hop list option" where
  "collect_hops reject hops [] = Some []"
| "collect_hops reject hops (i # is) =
     (case jm_get hops i of
        None \<Rightarrow> None
      | Some result \<Rightarrow> if reject result then None else map_option ((#) result) (collect_hops reject hops is))"

definition hop_failed :: "auto_hop \<Rightarrow> bool" where
  "hop_failed result = (snd (ah_counts result) \<le> 0 \<or> or_zero (ah_latencyMs result) \<le> 0)"

definition aggregateTunnelHopResults ::
  "tunnel_hop_state \<Rightarrow> string \<Rightarrow> rat \<Rightarrow> string \<Rightarrow> int \<Rightarrow> bool \<Rightarrow> path_aggregate option \<times> tunnel_hop_state" where
  "aggregateTunnelHopResults byTunnel stateKey hopCount generation now allowEarlyFailure =
     (let st = cleanupTunnelHopResults byTunnel stateKey hopCount generation now in
      case jm_get st stateKey of
        None \<Rightarrow> (None, st)
      | Some hops \<Rightarrow>
          if allowEarlyFailure
            \<and> list_ex (\<lambda>result. ah_generation result = generation
                 \<and> now - ah_recordedAt result \<le> auto_hop_ttl_ms \<and> hop_failed result) (jm_values hops)
          then (Some (attachAggregateProbeCounts False None (jm_values hops)), st)
          else
            (case collect_hops (hop_stale hopCount generation now) hops (hop_indices hopCount) of
               None \<Rightarrow> (None, st)
             | Some results \<Rightarrow>
                 (let counts = aggregateProbeCounts (map ah_counts results);
                      successful = (0 < snd counts
                        \<and> list_all (\<lambda>r. 0 < snd (ah_counts r) \<and> 0 < or_zero (ah_latencyMs r)) results)
                  in (Some (attachAggregateProbeCounts successful
                        (if successful then Some (sum_list (map (\<lambda>r. or_zero (ah_latencyMs r)) results)) else None)
                        results), st))))"

section \<open>Recording and reading\<close>

record hop_report =
  hp_tunnelId :: jsval
  hp_hopIndex :: jsval
  hp_hopCount :: jsval
  hp_latencyMs :: "rat option"
  hp_isTimeout :: bool
  hp_generation :: "string option"
  hp_pathKey :: "string option"
  hp_allowEarlyFailure :: bool
  hp_fromHostId :: jsval
  hp_toHostId :: jsval
  hp_probeCount :: jsval
  hp_probeSuccesses :: jsval

definition truthy_or :: "string option \<Rightarrow> string \<Rightarrow> string" where
  "truthy_or v fallback = (case v of Some s \<Rightarrow> if s = [] then fallback else s | None \<Rightarrow> fallback)"

definition legacy_generation :: "rat \<Rightarrow> string" where
  "legacy_generation hopCount = ''legacy:'' @ js_string (JNum hopCount)"

definition report_path :: "hop_report \<Rightarrow> (rat \<times> rat \<times> rat) option" where
  "report_path input =
     (case (js_number (hp_tunnelId input), js_number (hp_hopIndex input), js_number (hp_hopCount input)) of
        (Some tunnelId, Some hopIndex, Some hopCount) \<Rightarrow>
          if 0 < tunnelId \<and> 0 \<le> hopIndex \<and> 0 < hopCount \<and> hopIndex < hopCount
          then Some (tunnelId, hopIndex, hopCount) else None
      | _ \<Rightarrow> None)"

definition report_generation :: "hop_report \<Rightarrow> rat \<Rightarrow> string" where
  "report_generation input hopCount =
     take 1024 (truthy_or (hp_generation input) (legacy_generation hopCount))"

definition hop_of_report :: "hop_report \<Rightarrow> rat \<Rightarrow> rat \<Rightarrow> int \<Rightarrow> auto_hop" where
  "hop_of_report input hopIndex hopCount now =
     \<lparr>ah_hopIndex = hopIndex, ah_hopCount = hopCount, ah_generation = report_generation input hopCount,
      ah_fromHostId = js_positive_int (hp_fromHostId input),
      ah_toHostId = js_positive_int (hp_toHostId input),
      ah_latencyMs = hp_latencyMs input, ah_isTimeout = hp_isTimeout input,
      ah_counts = normalizeProbeCounts (hp_probeCount input) (hp_probeSuccesses input) (hp_isTimeout input),
      ah_recordedAt = now\<rparr>"

definition recordTunnelAutoHopLatency ::
  "int \<Rightarrow> hop_report \<Rightarrow> tunnel_hop_state \<Rightarrow> path_aggregate option \<times> tunnel_hop_state" where
  "recordTunnelAutoHopLatency now input byTunnel =
     (case report_path input of
        None \<Rightarrow> (None, byTunnel)
      | Some (tunnelId, hopIndex, hopCount) \<Rightarrow>
          (let generation = report_generation input hopCount;
               stateKey = tunnelPathStateKey tunnelId (hp_pathKey input);
               hops = (case jm_get byTunnel stateKey of Some h \<Rightarrow> h | None \<Rightarrow> []);
               hops1 = jm_prune (\<lambda>_. hop_stale hopCount generation now) hops;
               hops2 = jm_set hopIndex (hop_of_report input hopIndex hopCount now) hops1
           in aggregateTunnelHopResults (jm_set stateKey hops2 byTunnel) stateKey hopCount generation now
                (hp_allowEarlyFailure input)))"

definition getTunnelAutoHopAggregate ::
  "int \<Rightarrow> jsval \<Rightarrow> jsval \<Rightarrow> string option \<Rightarrow> string option \<Rightarrow> bool \<Rightarrow> tunnel_hop_state
     \<Rightarrow> path_aggregate option \<times> tunnel_hop_state" where
  "getTunnelAutoHopAggregate now tunnelId hopCount generation pathKey allowEarlyFailure byTunnel =
     (case (js_number tunnelId, js_number hopCount) of
        (Some tid, Some count) \<Rightarrow>
          if tid \<le> 0 \<or> count \<le> 0 then (None, byTunnel)
          else
            (let stateKey = tunnelPathStateKey tid pathKey;
                 stored = Option.bind (jm_get byTunnel stateKey) (\<lambda>hops. map_option ah_generation (jm_get hops 0));
                 activeGeneration = truthy_or generation (truthy_or stored (legacy_generation count))
             in aggregateTunnelHopResults byTunnel stateKey count activeGeneration now allowEarlyFailure)
      | _ \<Rightarrow> (None, byTunnel))"

record hop_detail =
  hd_hopIndex :: rat
  hd_hopCount :: rat
  hd_fromHostId :: "int option"
  hd_toHostId :: "int option"
  hd_latencyMs :: "rat option"
  hd_isTimeout :: bool
  hd_recordedAt :: int
  hd_counts :: "(int \<times> int) option"

definition detail_of_hop :: "auto_hop \<Rightarrow> hop_detail" where
  "detail_of_hop result =
     \<lparr>hd_hopIndex = ah_hopIndex result, hd_hopCount = ah_hopCount result,
      hd_fromHostId = ah_fromHostId result, hd_toHostId = ah_toHostId result,
      hd_latencyMs = ah_latencyMs result, hd_isTimeout = ah_isTimeout result,
      hd_recordedAt = ah_recordedAt result,
      hd_counts = (if fst (ah_counts result) \<noteq> 1
                     \<or> snd (ah_counts result) \<noteq> (if ah_isTimeout result then 0 else 1)
                   then Some (ah_counts result) else None)\<rparr>"

text \<open>\<open>referenceAt\<close> is the time as a number, 0 when absent; \<open>maxAgeMs\<close> is \<open>None\<close> when absent.\<close>

definition getTunnelAutoHopDetails ::
  "int \<Rightarrow> jsval \<Rightarrow> jsval \<Rightarrow> string option \<Rightarrow> string option \<Rightarrow> int \<Rightarrow> int option \<Rightarrow> tunnel_hop_state
     \<Rightarrow> hop_detail list option \<times> tunnel_hop_state" where
  "getTunnelAutoHopDetails now tunnelIdValue hopCountValue generationOpt pathKey referenceAt maxAge byTunnel =
     (case (js_positive_int tunnelIdValue, js_positive_int hopCountValue) of
        (Some tunnelId, Some hopCount) \<Rightarrow>
          (let stateKey = tunnelPathStateKey (rat_of_int tunnelId) pathKey in
           case jm_get byTunnel stateKey of
             None \<Rightarrow> (None, byTunnel)
           | Some hops \<Rightarrow>
               (let stored = map_option ah_generation (jm_get hops 0);
                    generation = take 1024 (truthy_or generationOpt
                      (truthy_or stored (legacy_generation (rat_of_int hopCount))));
                    st = cleanupTunnelHopResults byTunnel stateKey (rat_of_int hopCount) generation now
                in case jm_get st stateKey of
                     None \<Rightarrow> (None, st)
                   | Some refreshed \<Rightarrow>
                       (let maxAgeMs = max 1000 (case maxAge of None \<Rightarrow> auto_hop_ttl_ms
                              | Some a \<Rightarrow> if a = 0 then auto_hop_ttl_ms else a);
                            reject = (\<lambda>result. ah_hopCount result \<noteq> rat_of_int hopCount
                              \<or> ah_generation result \<noteq> generation
                              \<or> maxAgeMs < now - ah_recordedAt result
                              \<or> 0 < referenceAt \<and> 30000 < \<bar>ah_recordedAt result - referenceAt\<bar>)
                        in (map_option (map detail_of_hop)
                              (collect_hops reject refreshed (hop_indices (rat_of_int hopCount))), st))))
      | _ \<Rightarrow> (None, byTunnel))"

section \<open>The newest fresh sample of every hop\<close>

definition samples ::
  "tunnel_hop_state \<Rightarrow> string \<Rightarrow> rat \<Rightarrow> string \<Rightarrow> int \<Rightarrow> rat \<Rightarrow> auto_hop option" where
  "samples byTunnel key hopCount generation now i =
     (if hopCount \<le> i then None
      else Option.bind (jm_get byTunnel key) (\<lambda>hops. Option.bind (jm_get hops i)
        (\<lambda>r. if hop_stale hopCount generation now r then None else Some r)))"

definition path_spec :: "(rat \<Rightarrow> auto_hop option) \<Rightarrow> rat \<Rightarrow> path_aggregate option" where
  "path_spec smp hopCount =
     (if \<forall>i \<in> set (hop_indices hopCount). smp i \<noteq> None then
        (let rs = map (\<lambda>i. the (smp i)) (hop_indices hopCount);
             ok = list_all (\<lambda>r. \<not> hop_failed r) rs;
             counts = exact_counts (map ah_counts rs)
         in Some \<lparr>pa_success = ok,
              pa_latencyMs = (if ok then Some (sum_list (map (\<lambda>r. or_zero (ah_latencyMs r)) rs)) else None),
              pa_counts = (if counts = (1, if ok then 1 else 0) then None else Some counts)\<rparr>)
      else None)"

definition hops_ok :: "hop_table \<Rightarrow> bool" where
  "hops_ok hops =
     (jm_ok hops \<and> (\<forall>i r. jm_get hops i = Some r \<longrightarrow> valid_counts (ah_counts r)))"

definition tunnel_ok :: "tunnel_hop_state \<Rightarrow> bool" where
  "tunnel_ok byTunnel =
     (jm_ok byTunnel \<and> (\<forall>key hops. jm_get byTunnel key = Some hops \<longrightarrow> hops_ok hops))"

lemma tunnel_ok_Nil [simp]: "tunnel_ok []"
  by (simp add: tunnel_ok_def)

lemma hops_ok_prune: "hops_ok hops \<Longrightarrow> hops_ok (jm_prune P hops)"
  by (auto simp: hops_ok_def jm_get_prune split: option.splits if_splits)

lemma hops_ok_set: "hops_ok hops \<Longrightarrow> valid_counts (ah_counts r) \<Longrightarrow> hops_ok (jm_set i r hops)"
  by (auto simp: hops_ok_def split: if_splits)

lemma hops_ok_get: "hops_ok hops \<Longrightarrow> jm_get hops i = Some r \<Longrightarrow> valid_counts (ah_counts r)"
  by (auto simp: hops_ok_def)

lemma tunnel_ok_set: "tunnel_ok st \<Longrightarrow> hops_ok hops \<Longrightarrow> tunnel_ok (jm_set key hops st)"
  by (auto simp: tunnel_ok_def)

lemma tunnel_ok_del: "tunnel_ok st \<Longrightarrow> tunnel_ok (jm_del key st)"
  by (auto simp: tunnel_ok_def)

lemma cleanup_effect:
  fixes key :: string and hopCount :: rat and generation :: string and now :: int
  assumes "tunnel_ok st"
  defines "st' \<equiv> cleanupTunnelHopResults st key hopCount generation now"
  shows "tunnel_ok st'"
    and "jm_get st' key = Some hops \<Longrightarrow> jm_get hops = samples st key hopCount generation now"
    and "jm_get st' key = None \<Longrightarrow> samples st key hopCount generation now i = None"
    and "k \<noteq> key \<Longrightarrow> jm_get st' k = jm_get st k"
    and "samples st' key hopCount generation now = samples st key hopCount generation now"
proof -
  let ?P = "\<lambda>idx result. hopCount \<le> idx \<or> hop_stale hopCount generation now result"
  have ok: "hops_ok h" if "jm_get st key = Some h" for h using assms that by (auto simp: tunnel_ok_def)
  show "tunnel_ok st'"
    using assms(1) ok by (auto simp: st'_def cleanupTunnelHopResults_def Let_def
        intro: tunnel_ok_set tunnel_ok_del hops_ok_prune split: option.split)
  show "k \<noteq> key \<Longrightarrow> jm_get st' k = jm_get st k"
    by (auto simp: st'_def cleanupTunnelHopResults_def Let_def split: option.split)
  have pruned: "jm_get (jm_prune ?P h) i = samples st key hopCount generation now i"
    if "jm_get st key = Some h" for h i
    using jm_get_prune [of h ?P i] ok [OF that] that
    by (auto simp: hops_ok_def samples_def split: option.splits)
  show get: "jm_get st' key = Some hops \<Longrightarrow> jm_get hops = samples st key hopCount generation now" for hops
    using pruned by (fastforce simp: st'_def cleanupTunnelHopResults_def Let_def split: option.splits if_splits)
  show none: "jm_get st' key = None \<Longrightarrow> samples st key hopCount generation now i = None" for i
    using pruned by (force simp: st'_def cleanupTunnelHopResults_def samples_def Let_def split: option.splits if_splits)
  show "samples st' key hopCount generation now = samples st key hopCount generation now"
  proof
    fix i
    show "samples st' key hopCount generation now i = samples st key hopCount generation now i"
    proof (cases "jm_get st' key")
      case None
      then show ?thesis using none by (simp add: samples_def)
    next
      case (Some h)
      show ?thesis unfolding samples_def [of st'] Some
        by (simp add: get [OF Some]) (auto simp: samples_def split: option.splits bind_splits)
    qed
  qed
qed

lemma collect_hops_all:
  assumes "\<And>i r. jm_get hops i = Some r \<Longrightarrow> \<not> reject r"
  shows "collect_hops reject hops is =
    (if \<forall>i \<in> set is. jm_get hops i \<noteq> None then Some (map (\<lambda>i. the (jm_get hops i)) is) else None)"
  by (induction "is") (auto split: option.split dest: assms)

lemma hop_indices_nonempty: "0 < hopCount \<Longrightarrow> hop_indices hopCount \<noteq> []"
  by (simp add: hop_indices_def)

lemma sample_fresh: "samples st key hopCount generation now i = Some r \<Longrightarrow> \<not> hop_stale hopCount generation now r"
  by (auto simp: samples_def bind_eq_Some_conv split: if_splits)

lemma aggregate_complete:
  fixes rs :: "auto_hop list"
  assumes "rs \<noteq> []" "\<forall>r \<in> set rs. valid_counts (ah_counts r)"
  defines "counts \<equiv> aggregateProbeCounts (map ah_counts rs)"
  shows "(0 < snd counts \<and> list_all (\<lambda>r. 0 < snd (ah_counts r) \<and> 0 < or_zero (ah_latencyMs r)) rs)
      = list_all (\<lambda>r. \<not> hop_failed r) rs"
    and "counts = exact_counts (map ah_counts rs)"
proof -
  have v: "map ah_counts rs \<noteq> []" "\<forall>cs \<in> set (map ah_counts rs). valid_counts cs"
    using assms by auto
  show e: "counts = exact_counts (map ah_counts rs)"
    using aggregateProbeCounts_exact [OF v] by (simp add: counts_def)
  have "0 < snd counts \<longleftrightarrow> (\<forall>r \<in> set rs. 0 < snd (ah_counts r))"
    using exact_counts_positive [OF v] e by simp
  then show "(0 < snd counts \<and> list_all (\<lambda>r. 0 < snd (ah_counts r) \<and> 0 < or_zero (ah_latencyMs r)) rs)
      = list_all (\<lambda>r. \<not> hop_failed r) rs"
    by (auto simp: list_all_iff hop_failed_def not_le)
qed

text \<open>The aggregate is the specification over the fresh samples, or an early failure.\<close>

lemma aggregate_spec:
  fixes key :: string and hopCount :: rat and generation :: string and now :: int
  assumes "tunnel_ok st" "0 < hopCount"
  defines "smp \<equiv> samples st key hopCount generation now"
  shows "if early \<and> (\<exists>i r. smp i = Some r \<and> hop_failed r)
    then \<exists>counts. fst (aggregateTunnelHopResults st key hopCount generation now early)
           = Some \<lparr>pa_success = False, pa_latencyMs = None, pa_counts = counts\<rparr>
    else fst (aggregateTunnelHopResults st key hopCount generation now early) = path_spec smp hopCount"
    and "snd (aggregateTunnelHopResults st key hopCount generation now early)
      = cleanupTunnelHopResults st key hopCount generation now"
proof -
  let ?st = "cleanupTunnelHopResults st key hopCount generation now"
  note c = cleanup_effect [OF assms(1), where key = key and hopCount = hopCount
      and generation = generation and now = now, folded smp_def]
  have all: "(if early \<and> (\<exists>i r. smp i = Some r \<and> hop_failed r)
    then \<exists>counts. fst (aggregateTunnelHopResults st key hopCount generation now early)
           = Some \<lparr>pa_success = False, pa_latencyMs = None, pa_counts = counts\<rparr>
    else fst (aggregateTunnelHopResults st key hopCount generation now early) = path_spec smp hopCount)
    \<and> snd (aggregateTunnelHopResults st key hopCount generation now early) = ?st"
  proof (cases "jm_get ?st key")
    case None
    then have "smp i = None" for i using c(3) by simp
    then show ?thesis
      using None hop_indices_nonempty [OF assms(2)]
      by (simp add: aggregateTunnelHopResults_def path_spec_def ex_in_conv)
  next
    case (Some hops)
    have get: "jm_get hops = smp" using c(2) [OF Some] .
    have hok: "hops_ok hops" using c(1) Some by (auto simp: tunnel_ok_def)
    have fresh: "\<not> hop_stale hopCount generation now r" if "smp i = Some r" for i r
      using that unfolding smp_def by (rule sample_fresh)
    have vals: "r \<in> set (jm_values hops) \<longleftrightarrow> (\<exists>i. smp i = Some r)" for r
      using hok get by (force simp: hops_ok_def dest: jm_in_set_get jm_get_in_set)
    have ef: "list_ex (\<lambda>result. ah_generation result = generation
          \<and> now - ah_recordedAt result \<le> auto_hop_ttl_ms \<and> hop_failed result) (jm_values hops)
        \<longleftrightarrow> (\<exists>i r. smp i = Some r \<and> hop_failed r)"
      unfolding list_ex_iff Bex_def vals using fresh by (auto simp: hop_stale_def not_less)
    have coll: "collect_hops (hop_stale hopCount generation now) hops (hop_indices hopCount) =
        (if \<forall>i \<in> set (hop_indices hopCount). smp i \<noteq> None
         then Some (map (\<lambda>i. the (smp i)) (hop_indices hopCount)) else None)"
      using collect_hops_all [of hops "hop_stale hopCount generation now"] fresh get by simp
    show ?thesis
    proof (cases "early \<and> (\<exists>i r. smp i = Some r \<and> hop_failed r)")
      case True
      then show ?thesis
        using Some ef by (auto simp: aggregateTunnelHopResults_def attachAggregateProbeCounts_def Let_def)
    next
      case False
      then have ne: "\<not> (early \<and> list_ex (\<lambda>result. ah_generation result = generation
          \<and> now - ah_recordedAt result \<le> auto_hop_ttl_ms \<and> hop_failed result) (jm_values hops))"
        using ef by simp
      show ?thesis
      proof (cases "\<forall>i \<in> set (hop_indices hopCount). smp i \<noteq> None")
        case complete: True
        let ?rs = "map (\<lambda>i. the (smp i)) (hop_indices hopCount)"
        have "valid_counts (ah_counts r)" if r: "r \<in> set ?rs" for r
        proof -
          obtain i where "smp i = Some r" using r complete by auto
          then show ?thesis using hops_ok_get [OF hok, of i r] get by simp
        qed
        then have v: "?rs \<noteq> []" "\<forall>r \<in> set ?rs. valid_counts (ah_counts r)"
          using hop_indices_nonempty [OF assms(2)] by auto
        note a = aggregate_complete [OF v]
        have "aggregateTunnelHopResults st key hopCount generation now early =
            (path_spec smp hopCount, ?st)"
          unfolding aggregateTunnelHopResults_def Let_def Some option.case if_not_P [OF ne] coll
            path_spec_def if_P [OF complete] attachAggregateProbeCounts_def a(1)
          unfolding a(2) by simp
        then show ?thesis using False by auto
      next
        case incomplete: False
        have "aggregateTunnelHopResults st key hopCount generation now early = (None, ?st)"
          unfolding aggregateTunnelHopResults_def Let_def Some option.case if_not_P [OF ne] coll
            if_not_P [OF incomplete] ..
        then show ?thesis using False incomplete by (auto simp: path_spec_def)
      qed
    qed
  qed
  then show "if early \<and> (\<exists>i r. smp i = Some r \<and> hop_failed r)
    then \<exists>counts. fst (aggregateTunnelHopResults st key hopCount generation now early)
           = Some \<lparr>pa_success = False, pa_latencyMs = None, pa_counts = counts\<rparr>
    else fst (aggregateTunnelHopResults st key hopCount generation now early) = path_spec smp hopCount"
    "snd (aggregateTunnelHopResults st key hopCount generation now early) = ?st"
    by blast+
qed

section \<open>Properties\<close>

text \<open>
  C30. Recording a hop updates exactly that hop's sample and reports the whole path.  For a valid
  report the fresh samples of the path afterwards are the earlier ones with the reported hop replaced,
  no other path changes, and the result is the path specification over them: nothing until every hop
  has a fresh sample of the same generation, then success exactly when every hop delivered, the sum of
  the latencies and the exact packet counts; with early failure allowed, one failed hop is enough.
\<close>
theorem recordTunnelAutoHopLatency_correct:
  fixes input and st st' :: tunnel_hop_state and tunnelId hopIndex hopCount :: rat and now :: int
  assumes "tunnel_ok st" "report_path input = Some (tunnelId, hopIndex, hopCount)"
    "recordTunnelAutoHopLatency now input st = (result, st')"
  defines "key \<equiv> tunnelPathStateKey tunnelId (hp_pathKey input)"
    and "generation \<equiv> report_generation input hopCount"
  defines "smp \<equiv> (samples st key hopCount generation now)(hopIndex \<mapsto> hop_of_report input hopIndex hopCount now)"
  shows "samples st' key hopCount generation now = smp
    \<and> (\<forall>k. k \<noteq> key \<longrightarrow> jm_get st' k = jm_get st k) \<and> tunnel_ok st'
    \<and> (if hp_allowEarlyFailure input \<and> (\<exists>i r. smp i = Some r \<and> hop_failed r)
       then \<exists>counts. result = Some \<lparr>pa_success = False, pa_latencyMs = None, pa_counts = counts\<rparr>
       else result = path_spec smp hopCount)"
proof -
  define hops where "hops = (case jm_get st key of Some h \<Rightarrow> h | None \<Rightarrow> [])"
  define st1 where "st1 = jm_set key (jm_set hopIndex (hop_of_report input hopIndex hopCount now)
      (jm_prune (\<lambda>_. hop_stale hopCount generation now) hops)) st"
  have pos: "0 < hopCount" "hopIndex < hopCount"
    using assms(2) by (auto simp: report_path_def split: option.splits if_splits)
  have hok: "hops_ok hops" using assms(1) by (auto simp: hops_def tunnel_ok_def hops_ok_def split: option.split)
  have ok1: "tunnel_ok st1"
    unfolding st1_def using assms(1) hok
    by (intro tunnel_ok_set hops_ok_set hops_ok_prune) (simp_all add: hop_of_report_def normalizeProbeCounts_valid)
  have fresh: "\<not> hop_stale hopCount generation now (hop_of_report input hopIndex hopCount now)"
    by (simp add: hop_stale_def hop_of_report_def generation_def auto_hop_ttl_ms_def)
  have smp1: "samples st1 key hopCount generation now = smp"
  proof
    fix i
    have "jm_get (jm_prune (\<lambda>_. hop_stale hopCount generation now) hops) i =
        (case jm_get hops i of None \<Rightarrow> None | Some r \<Rightarrow> if hop_stale hopCount generation now r then None else Some r)"
      using hok by (simp add: jm_get_prune hops_ok_def)
    then show "samples st1 key hopCount generation now i = smp i"
      using fresh pos(2)
      by (auto simp: samples_def smp_def st1_def hops_def split: option.split)
  qed
  have run: "(result, st') = aggregateTunnelHopResults st1 key hopCount generation now (hp_allowEarlyFailure input)"
    using assms(2,3) by (simp add: recordTunnelAutoHopLatency_def key_def generation_def st1_def hops_def Let_def)
  note a = aggregate_spec [OF ok1 pos(1), where key = key and generation = generation and now = now
      and early = "hp_allowEarlyFailure input", unfolded smp1, folded run, simplified fst_conv snd_conv]
  note c = cleanup_effect [OF ok1, where key = key and hopCount = hopCount and generation = generation
      and now = now, folded a(2), unfolded smp1]
  have "jm_get st' k = jm_get st k" if "k \<noteq> key" for k
    using c(4) [OF that] that by (simp add: st1_def)
  then show ?thesis using a(1) c(1,5) by blast
qed

definition sample_report :: hop_report where
  "sample_report =
     \<lparr>hp_tunnelId = JNum 7, hp_hopIndex = JNum 1, hp_hopCount = JNum 2, hp_latencyMs = Some 12,
      hp_isTimeout = False, hp_generation = Some ''g1'', hp_pathKey = None, hp_allowEarlyFailure = False,
      hp_fromHostId = JNum 3, hp_toHostId = JNull, hp_probeCount = JNum 4, hp_probeSuccesses = JNum 3\<rparr>"

theorem recordTunnelAutoHopLatency_correct_witness:
  "fst (recordTunnelAutoHopLatency 1000 sample_report []) = None
    \<and> (\<exists>r. samples (snd (recordTunnelAutoHopLatency 1000 sample_report [])) ''7:default'' 2 ''g1'' 1000 1 = Some r
           \<and> ah_counts r = (4, 3))"
proof -
  have rp: "report_path sample_report = Some (7, 1, 2)"
    by (simp add: report_path_def sample_report_def)
  have seven: "js_string (JNum 7) = ''7''" by code_simp
  have key: "tunnelPathStateKey 7 (hp_pathKey sample_report) = ''7:default''"
    using seven by (simp add: tunnelPathStateKey_def sample_report_def default_path_def js_trim_def js_lower_def
        js_lower_char_def js_space_def)
  have gen: "report_generation sample_report 2 = ''g1''"
    by (simp add: report_generation_def sample_report_def truthy_or_def)
  have counts: "ah_counts (hop_of_report sample_report 1 2 1000) = (4, 3)"
    by (simp add: hop_of_report_def sample_report_def normalizeProbeCounts_def js_nullish_def)
  have idx: "hop_indices 2 = [0, 1]" by (simp add: hop_indices_def upt_rec)
  have early: "\<not> hp_allowEarlyFailure sample_report" by (simp add: sample_report_def)
  show ?thesis
    using recordTunnelAutoHopLatency_correct [OF tunnel_ok_Nil rp, of 1000
        "fst (recordTunnelAutoHopLatency 1000 sample_report [])"
        "snd (recordTunnelAutoHopLatency 1000 sample_report [])"] counts
      early by (auto simp: key gen path_spec_def idx samples_def [of "[]"])
qed

lemma js_string_of_int: "0 \<le> i \<Longrightarrow> js_string (JNum (rat_of_int i)) = nat_to_str (nat i)"
  by (simp add: int_to_str_def)

lemma path_key_owner:
  assumes "0 < a" "0 < b"
  shows "js_starts_with (js_string (JNum (rat_of_int a)) @ '':'') (tunnelPathStateKey (rat_of_int b) path)
    \<longleftrightarrow> a = b"
proof -
  have sa: "js_string (JNum (rat_of_int a)) = nat_to_str (nat a)"
    and sb: "js_string (JNum (rat_of_int b)) = nat_to_str (nat b)"
    using assms by (simp_all only: js_string_of_int less_imp_le)
  have "js_starts_with (nat_to_str (nat a) @ '':'') (nat_to_str (nat b) @ CHR '':'' # default_path path)
      \<longleftrightarrow> nat a = nat b"
  proof
    assume "js_starts_with (nat_to_str (nat a) @ '':'') (nat_to_str (nat b) @ CHR '':'' # default_path path)"
    then obtain z where "nat_to_str (nat b) @ CHR '':'' # default_path path = (nat_to_str (nat a) @ '':'') @ z"
      unfolding js_starts_with_iff ..
    then have "nat_to_str (nat b) @ CHR '':'' # default_path path = nat_to_str (nat a) @ CHR '':'' # z"
      by simp
    then show "nat a = nat b" by (metis key_prefix_inject)
  next
    assume "nat a = nat b"
    then show "js_starts_with (nat_to_str (nat a) @ '':'') (nat_to_str (nat b) @ CHR '':'' # default_path path)"
      unfolding js_starts_with_iff by (intro exI [of _ "default_path path"]) simp
  qed
  then show ?thesis using assms unfolding tunnelPathStateKey_def sa sb by linarith
qed

text \<open>
  Clearing a tunnel removes every path of that tunnel and nothing else: the textual key prefix
  \<open>id:\<close> identifies the tunnel, so tunnel 1 is never confused with tunnel 12.
\<close>
theorem clearTunnelAutoHopLatencyState_exact:
  assumes "tunnel_ok st" "0 < a" "0 < b"
  shows "jm_get (clearTunnelAutoHopLatencyState (JNum (rat_of_int a)) st) (tunnelPathStateKey (rat_of_int b) path)
    = (if a = b then None else jm_get st (tunnelPathStateKey (rat_of_int b) path))
    \<and> tunnel_ok (clearTunnelAutoHopLatencyState (JNum (rat_of_int a)) st)"
proof -
  let ?P = "\<lambda>key (_ :: hop_table). js_starts_with (js_string (JNum (rat_of_int a)) @ '':'') key"
  have st: "clearTunnelAutoHopLatencyState (JNum (rat_of_int a)) st = jm_prune ?P st"
    using assms(2) by (simp add: clearTunnelAutoHopLatencyState_def)
  have ok: "jm_ok st" using assms(1) by (simp add: tunnel_ok_def)
  have "tunnel_ok (jm_prune ?P st)"
    using assms(1) by (auto simp: tunnel_ok_def jm_get_prune split: option.splits if_splits)
  then show ?thesis
    unfolding st jm_get_prune [OF ok] path_key_owner [OF assms(2,3)] by (simp split: option.split)
qed

theorem clearTunnelAutoHopLatencyState_exact_witness:
  "jm_get (clearTunnelAutoHopLatencyState (JNum (rat_of_int 1)) [(tunnelPathStateKey (rat_of_int 12) None, [])])
     (tunnelPathStateKey (rat_of_int 12) None) = Some []"
proof -
  define k where "k = tunnelPathStateKey (rat_of_int 12) None"
  have ok: "tunnel_ok [(k, [])]" by (simp add: tunnel_ok_def hops_ok_def)
  have ab: "(0::int) < 1" "(0::int) < 12" "(1::int) \<noteq> 12" by simp_all
  show ?thesis
    using clearTunnelAutoHopLatencyState_exact [OF ok ab(1,2), of None, folded k_def] ab(3)
    unfolding k_def [symmetric] by (simp only: if_False) simp
qed

end
