(* ===== verification/Group_Auto_Latency.thy ===== *)
theory Group_Auto_Latency
imports Tunnel_Auto_Latency
begin

text \<open>
  The automatic latency of a forwarding chain (\<open>server/forwardGroupAutoLatencyState.ts\<close>): the same
  collection of hop reports per group, with its own counter formula, which leaves out the rounding
  correction of the tunnel code (theory \<open>Probe_Counters\<close>).
\<close>

record group_hop =
  gh_hopCount :: rat
  gh_generation :: string
  gh_latencyMs :: "rat option"
  gh_isTimeout :: bool
  gh_counts :: "int \<times> int"
  gh_recordedAt :: int

type_synonym group_hop_table = "(rat, group_hop) jmap"
type_synonym group_hop_state = "(rat, group_hop_table) jmap"

record group_report =
  gr_groupId :: jsval
  gr_hopIndex :: jsval
  gr_hopCount :: jsval
  gr_latencyMs :: "rat option"
  gr_isTimeout :: bool
  gr_probeCount :: jsval
  gr_probeSuccesses :: jsval
  gr_generation :: "string option"

definition group_hop_stale :: "rat \<Rightarrow> string \<Rightarrow> int \<Rightarrow> group_hop \<Rightarrow> bool" where
  "group_hop_stale hopCount generation now result =
     (gh_hopCount result \<noteq> hopCount \<or> gh_generation result \<noteq> generation
      \<or> auto_hop_ttl_ms < now - gh_recordedAt result)"

text \<open>
  The counters of one report.  \<open>Number(null)\<close> is the integer 0 and \<open>Number(undefined)\<close> no integer, so
  an explicit \<open>null\<close> counts as zero successes where a missing value counts as all.
\<close>

definition group_sample_counts :: "jsval \<Rightarrow> jsval \<Rightarrow> bool \<Rightarrow> int \<times> int" where
  "group_sample_counts probeCountValue probeSuccessesValue isTimeout =
     (let sampleProbeCount = (case js_integer probeCountValue of
             Some rawCount \<Rightarrow> if 1 \<le> rawCount \<and> rawCount \<le> 1024 then rawCount else 1
           | None \<Rightarrow> 1);
          sampleProbeSuccesses = (case js_integer probeSuccessesValue of
             Some rawSuccesses \<Rightarrow> max 0 (min sampleProbeCount rawSuccesses)
           | None \<Rightarrow> if isTimeout then 0 else sampleProbeCount)
      in (sampleProbeCount,
          if \<not> isTimeout \<and> sampleProbeSuccesses = 0 \<and> probeSuccessesValue = JUndef
          then sampleProbeCount else sampleProbeSuccesses))"

definition group_report_path :: "group_report \<Rightarrow> (rat \<times> rat \<times> rat) option" where
  "group_report_path input =
     (case (js_number (gr_groupId input), js_number (gr_hopIndex input), js_number (gr_hopCount input)) of
        (Some groupId, Some hopIndex, Some hopCount) \<Rightarrow>
          if 0 < groupId \<and> 0 \<le> hopIndex \<and> 0 < hopCount \<and> hopIndex < hopCount
          then Some (groupId, hopIndex, hopCount) else None
      | _ \<Rightarrow> None)"

definition group_report_generation :: "group_report \<Rightarrow> rat \<Rightarrow> string" where
  "group_report_generation input hopCount =
     take 1024 (truthy_or (gr_generation input) (legacy_generation hopCount))"

definition group_hop_of_report :: "group_report \<Rightarrow> rat \<Rightarrow> int \<Rightarrow> group_hop" where
  "group_hop_of_report input hopCount now =
     \<lparr>gh_hopCount = hopCount, gh_generation = group_report_generation input hopCount,
      gh_latencyMs = gr_latencyMs input, gh_isTimeout = gr_isTimeout input,
      gh_counts = group_sample_counts (gr_probeCount input) (gr_probeSuccesses input) (gr_isTimeout input),
      gh_recordedAt = now\<rparr>"

fun collect_group_hops :: "(group_hop \<Rightarrow> bool) \<Rightarrow> group_hop_table \<Rightarrow> rat list \<Rightarrow> group_hop list option" where
  "collect_group_hops reject hops [] = Some []"
| "collect_group_hops reject hops (i # is) =
     (case jm_get hops i of
        None \<Rightarrow> None
      | Some result \<Rightarrow>
          if reject result then None else map_option ((#) result) (collect_group_hops reject hops is))"

definition group_aggregate :: "group_hop list \<Rightarrow> path_aggregate" where
  "group_aggregate results =
     (let counts = groupProbeCounts (map gh_counts results);
          successful = (0 < snd counts
            \<and> list_all (\<lambda>r. 0 < snd (gh_counts r) \<and> 0 < or_zero (gh_latencyMs r)) results)
      in \<lparr>pa_success = successful,
          pa_latencyMs = (if successful then Some (sum_list (map (\<lambda>r. or_zero (gh_latencyMs r)) results)) else None),
          pa_counts = (if fst counts \<noteq> 1 \<or> snd counts \<noteq> (if successful then 1 else 0)
                       then Some counts else None)\<rparr>)"

definition recordForwardGroupAutoHopLatency ::
  "int \<Rightarrow> group_report \<Rightarrow> group_hop_state \<Rightarrow> path_aggregate option \<times> group_hop_state" where
  "recordForwardGroupAutoHopLatency now input byGroup =
     (case group_report_path input of
        None \<Rightarrow> (None, byGroup)
      | Some (groupId, hopIndex, hopCount) \<Rightarrow>
          (let generation = group_report_generation input hopCount;
               hops = (case jm_get byGroup groupId of Some h \<Rightarrow> h | None \<Rightarrow> []);
               hops1 = jm_prune (\<lambda>_. group_hop_stale hopCount generation now) hops;
               hops2 = jm_set hopIndex (group_hop_of_report input hopCount now) hops1;
               st = jm_set groupId hops2 byGroup
           in if of_nat (length hops2) < hopCount then (None, st)
              else (map_option group_aggregate
                      (collect_group_hops (group_hop_stale hopCount generation now) hops2 (hop_indices hopCount)),
                    st)))"

section \<open>Invariant and specification\<close>

definition group_state_ok :: "group_hop_state \<Rightarrow> bool" where
  "group_state_ok byGroup =
     (jm_ok byGroup \<and> (\<forall>g hops. jm_get byGroup g = Some hops \<longrightarrow>
        jm_ok hops \<and> (\<forall>i r. jm_get hops i = Some r \<longrightarrow> valid_counts (gh_counts r))))"

definition group_samples ::
  "group_hop_state \<Rightarrow> rat \<Rightarrow> rat \<Rightarrow> string \<Rightarrow> int \<Rightarrow> rat \<Rightarrow> group_hop option" where
  "group_samples byGroup g hopCount generation now i =
     Option.bind (jm_get byGroup g) (\<lambda>hops. Option.bind (jm_get hops i)
        (\<lambda>r. if group_hop_stale hopCount generation now r then None else Some r))"

definition delivered :: "group_hop \<Rightarrow> bool" where
  "delivered r = (0 < snd (gh_counts r) \<and> 0 < or_zero (gh_latencyMs r))"

lemma group_sample_counts_valid: "valid_counts (group_sample_counts c s t)"
  by (auto simp: group_sample_counts_def valid_counts_def Let_def split: option.split)

lemma collect_group_hops_all:
  assumes "\<And>i r. jm_get hops i = Some r \<Longrightarrow> \<not> reject r"
  shows "collect_group_hops reject hops is =
    (if \<forall>i \<in> set is. jm_get hops i \<noteq> None then Some (map (\<lambda>i. the (jm_get hops i)) is) else None)"
  by (induction "is") (auto split: option.split dest: assms)

lemma length_hop_indices: "0 < hopCount \<Longrightarrow> hopCount \<le> of_nat (length (hop_indices hopCount))"
  by (simp add: hop_indices_def)

lemma distinct_hop_indices: "distinct (hop_indices hopCount)"
  by (auto simp: hop_indices_def distinct_map inj_on_def)

text \<open>The size test returns early only when some hop is missing.\<close>

lemma too_few_hops:
  assumes "0 < hopCount" "of_nat (length hops) < hopCount"
  shows "\<not> (\<forall>i \<in> set (hop_indices hopCount). jm_get hops i \<noteq> None)"
proof
  assume "\<forall>i \<in> set (hop_indices hopCount). jm_get hops i \<noteq> None"
  then have "set (hop_indices hopCount) \<subseteq> set (jm_keys hops)"
    by (meson jm_get_None_iff subsetI)
  then have "length (hop_indices hopCount) \<le> length (jm_keys hops)"
    by (metis List.finite_set card_length card_mono distinct_card distinct_hop_indices order_trans)
  then have "(of_nat (length (hop_indices hopCount)) :: rat) \<le> of_nat (length hops)" by simp
  with length_hop_indices [OF assms(1)] assms(2) show False by linarith
qed

lemma record_group_spec:
  fixes st :: group_hop_state and groupId hopIndex hopCount :: rat and now :: int
  assumes "group_state_ok st" "group_report_path input = Some (groupId, hopIndex, hopCount)"
  defines "generation \<equiv> group_report_generation input hopCount"
  defines "smp \<equiv> (group_samples st groupId hopCount generation now)
      (hopIndex \<mapsto> group_hop_of_report input hopCount now)"
  shows "fst (recordForwardGroupAutoHopLatency now input st) =
      (if \<forall>i \<in> set (hop_indices hopCount). smp i \<noteq> None
       then Some (group_aggregate (map (\<lambda>i. the (smp i)) (hop_indices hopCount))) else None)"
    and "group_samples (snd (recordForwardGroupAutoHopLatency now input st)) groupId hopCount generation now = smp"
    and "group_state_ok (snd (recordForwardGroupAutoHopLatency now input st))"
    and "k \<noteq> groupId \<Longrightarrow> jm_get (snd (recordForwardGroupAutoHopLatency now input st)) k = jm_get st k"
    and "smp i = Some r \<Longrightarrow> valid_counts (gh_counts r)"
proof -
  define hops where "hops = (case jm_get st groupId of Some h \<Rightarrow> h | None \<Rightarrow> [])"
  define hops2 where "hops2 = jm_set hopIndex (group_hop_of_report input hopCount now)
      (jm_prune (\<lambda>_. group_hop_stale hopCount generation now) hops)"
  have pos: "0 < hopCount"
    using assms(2) by (auto simp: group_report_path_def split: option.splits if_splits)
  have hok: "jm_ok hops" "\<And>i r. jm_get hops i = Some r \<Longrightarrow> valid_counts (gh_counts r)"
    using assms(1) by (auto simp: hops_def group_state_ok_def split: option.splits)
  have new: "\<not> group_hop_stale hopCount generation now (group_hop_of_report input hopCount now)"
    "valid_counts (gh_counts (group_hop_of_report input hopCount now))"
    by (simp_all add: group_hop_stale_def group_hop_of_report_def generation_def auto_hop_ttl_ms_def
        group_sample_counts_valid)
  have get: "jm_get hops2 i = smp i" for i
    using hok(1) by (auto simp: hops2_def smp_def group_samples_def hops_def jm_get_prune split: option.split)
  have fresh: "\<not> group_hop_stale hopCount generation now r" if "smp i = Some r" for i r
    using that new(1) by (auto simp: smp_def group_samples_def bind_eq_Some_conv split: if_splits)
  show valid: "smp i = Some r \<Longrightarrow> valid_counts (gh_counts r)" for i r
    using hok(2) new(2) by (auto simp: smp_def group_samples_def hops_def bind_eq_Some_conv
        split: if_splits option.splits)
  have run: "recordForwardGroupAutoHopLatency now input st =
      (if of_nat (length hops2) < hopCount then (None, jm_set groupId hops2 st)
       else (map_option group_aggregate
               (collect_group_hops (group_hop_stale hopCount generation now) hops2 (hop_indices hopCount)),
             jm_set groupId hops2 st))"
    using assms(2) by (simp add: recordForwardGroupAutoHopLatency_def generation_def hops2_def hops_def Let_def)
  have coll: "collect_group_hops (group_hop_stale hopCount generation now) hops2 (hop_indices hopCount) =
      (if \<forall>i \<in> set (hop_indices hopCount). smp i \<noteq> None
       then Some (map (\<lambda>i. the (smp i)) (hop_indices hopCount)) else None)"
    using collect_group_hops_all [of hops2 "group_hop_stale hopCount generation now"] fresh get by simp
  show "fst (recordForwardGroupAutoHopLatency now input st) =
      (if \<forall>i \<in> set (hop_indices hopCount). smp i \<noteq> None
       then Some (group_aggregate (map (\<lambda>i. the (smp i)) (hop_indices hopCount))) else None)"
    unfolding run coll using too_few_hops [OF pos, of hops2] get by auto
  have st': "snd (recordForwardGroupAutoHopLatency now input st) = jm_set groupId hops2 st"
    unfolding run by simp
  show "group_samples (snd (recordForwardGroupAutoHopLatency now input st)) groupId hopCount generation now = smp"
  proof
    fix i
    show "group_samples (snd (recordForwardGroupAutoHopLatency now input st)) groupId hopCount generation now i = smp i"
      unfolding st' group_samples_def jm_get_set using get [of i] fresh [of i] by (cases "smp i") simp_all
  qed
  have "jm_ok hops2" unfolding hops2_def using hok(1) by auto
  then show "group_state_ok (snd (recordForwardGroupAutoHopLatency now input st))"
    unfolding st' using assms(1) get valid by (auto simp: group_state_ok_def)
  show "k \<noteq> groupId \<Longrightarrow> jm_get (snd (recordForwardGroupAutoHopLatency now input st)) k = jm_get st k"
    unfolding st' by simp
qed

section \<open>Properties\<close>

text \<open>
  A chain is reported successful only when it is: after a valid report the result is present
  exactly when every hop has a fresh sample of the same generation, it claims success only if every
  hop delivered packets with a positive latency, and then its latency is the sum over the hops; it
  claims success whenever every hop delivered and all hops sent single probes.
\<close>
theorem recordForwardGroup_sound:
  fixes st :: group_hop_state and groupId hopIndex hopCount :: rat and now :: int
  assumes "group_state_ok st" "group_report_path input = Some (groupId, hopIndex, hopCount)"
  defines "smp \<equiv> (group_samples st groupId hopCount (group_report_generation input hopCount) now)
      (hopIndex \<mapsto> group_hop_of_report input hopCount now)"
  shows "case fst (recordForwardGroupAutoHopLatency now input st) of
      None \<Rightarrow> \<exists>i \<in> set (hop_indices hopCount). smp i = None
    | Some agg \<Rightarrow> (\<forall>i \<in> set (hop_indices hopCount). smp i \<noteq> None)
        \<and> (pa_success agg \<longrightarrow> (\<forall>i \<in> set (hop_indices hopCount). delivered (the (smp i)))
             \<and> pa_latencyMs agg = Some (\<Sum>i \<leftarrow> hop_indices hopCount. or_zero (gh_latencyMs (the (smp i)))))
        \<and> ((\<forall>i \<in> set (hop_indices hopCount). delivered (the (smp i)) \<and> gh_counts (the (smp i)) = (1, 1))
             \<longrightarrow> pa_success agg)"
proof -
  note r = record_group_spec [OF assms(1,2), where now = now, folded smp_def]
  let ?rs = "map (\<lambda>i. the (smp i)) (hop_indices hopCount)"
  have pos: "0 < hopCount"
    using assms(2) by (auto simp: group_report_path_def split: option.splits if_splits)
  have one: "groupProbeCounts (map gh_counts ?rs) = (1, 1)"
    if "\<forall>i \<in> set (hop_indices hopCount). gh_counts (the (smp i)) = (1, 1)"
  proof -
    have "hd (hop_indices hopCount) \<in> set (hop_indices hopCount)"
      using hop_indices_nonempty [OF pos] by simp
    then have "gh_counts ` set ?rs = {(1, 1)}" using that by (auto simp: image_iff)
    moreover have "fl 1 = 1" using fl_at [of 52 1] by (simp add: round_half_even_def)
    ultimately show ?thesis
      by (simp add: groupProbeCounts_def max_count_def min_ratio_def sample_count_def sample_ratio_def
          image_comp Let_def)
  qed
  have "pa_success (group_aggregate ?rs) \<longleftrightarrow>
      0 < snd (groupProbeCounts (map gh_counts ?rs)) \<and> (\<forall>i \<in> set (hop_indices hopCount). delivered (the (smp i)))"
    by (auto simp: group_aggregate_def Let_def list_all_iff delivered_def)
  moreover have "pa_latencyMs (group_aggregate ?rs) =
      (if pa_success (group_aggregate ?rs)
       then Some (\<Sum>i \<leftarrow> hop_indices hopCount. or_zero (gh_latencyMs (the (smp i)))) else None)"
    by (simp add: group_aggregate_def Let_def comp_def)
  ultimately show ?thesis unfolding r(1) using one by auto
qed

theorem recordForwardGroup_sound_witness:
  "fst (recordForwardGroupAutoHopLatency 0 \<lparr>gr_groupId = JNum 5, gr_hopIndex = JNum 0, gr_hopCount = JNum 1,
      gr_latencyMs = Some 20, gr_isTimeout = False, gr_probeCount = JUndef, gr_probeSuccesses = JUndef,
      gr_generation = None\<rparr> []) \<noteq> None"
proof -
  let ?in = "\<lparr>gr_groupId = JNum 5, gr_hopIndex = JNum 0, gr_hopCount = JNum 1,
      gr_latencyMs = Some 20, gr_isTimeout = False, gr_probeCount = JUndef, gr_probeSuccesses = JUndef,
      gr_generation = None\<rparr>"
  have ok: "group_state_ok []" by (simp add: group_state_ok_def)
  have rp: "group_report_path ?in = Some (5, 0, 1)" by (simp add: group_report_path_def)
  have "hop_indices 1 = [0]" by (simp add: hop_indices_def)
  then show ?thesis
    using recordForwardGroup_sound [OF ok rp, of 0] by (auto split: option.splits)
qed

text \<open>
  C37. The converse fails for longer probes: a single-hop chain whose agent reports one of 49 packets
  delivered in 20 ms is recorded as failed, without a latency, although every hop has a successful
  packet; the same report with an explicit \<open>null\<close> instead of a missing success counter is
  recorded as a total loss.
\<close>
theorem forward_group_partial_loss_reported_down:
  "fst (recordForwardGroupAutoHopLatency now \<lparr>gr_groupId = JNum 5, gr_hopIndex = JNum 0, gr_hopCount = JNum 1,
      gr_latencyMs = Some 20, gr_isTimeout = False, gr_probeCount = JNum 49, gr_probeSuccesses = JNum 1,
      gr_generation = None\<rparr> [])
    = Some \<lparr>pa_success = False, pa_latencyMs = None, pa_counts = Some (49, 0)\<rparr>
  \<and> group_sample_counts (JNum 3) JUndef False = (3, 3) \<and> group_sample_counts (JNum 3) JNull False = (3, 0)
  \<and> normalizeProbeCounts (JNum 3) JNull False = (3, 3)"
proof -
  have "hop_indices 1 = [0]" by (simp add: hop_indices_def)
  then show ?thesis
    by (simp add: recordForwardGroupAutoHopLatency_def group_report_path_def group_hop_of_report_def
        group_report_generation_def jm_prune_def group_hop_stale_def auto_hop_ttl_ms_def group_aggregate_def
        group_counts_49 group_sample_counts_def normalizeProbeCounts_def js_nullish_def js_integer_def Let_def)
qed

end
