(* ===== verification/Multi_Entry_Latency.thy ===== *)
theory Multi_Entry_Latency
imports Tunnel_Auto_Latency
begin

text \<open>
  The automatic latency of a tunnel with several entry hosts
  (\<open>server/tunnelMultiEntryLatencyState.ts\<close>): every entry host reports its own first hop, the later
  hops are shared, and the tunnel is up when at least one entry works over all shared hops.  A host
  label is \<open>None\<close> where the code substitutes its default text for the host.
\<close>

section \<open>State\<close>

record probe_result =
  pr_latencyMs :: "rat option"
  pr_isTimeout :: bool
  pr_label :: string
  pr_fromHostId :: int
  pr_toHostId :: "int option"
  pr_hopIndex :: int
  pr_counts :: "int \<times> int"
  pr_recordedAt :: int

record multi_path_state =
  mp_generation :: string
  mp_hopCount :: int
  mp_expected :: "int list"
  mp_entryHops :: "(int, probe_result) jmap"
  mp_sharedHops :: "(int, probe_result) jmap"
  mp_createdAt :: int
  mp_updatedAt :: int

type_synonym multi_states = "(string, multi_path_state) jmap"

record entry_detail =
  ed_hostId :: int
  ed_label :: "string option"
  ed_latencyMs :: "rat option"
  ed_isTimeout :: bool
  ed_counts :: "(int \<times> int) option"

record multi_aggregate =
  ma_success :: bool
  ma_partial :: bool
  ma_latencyMs :: "rat option"
  ma_details :: "entry_detail list"
  ma_counts :: "(int \<times> int) option"

definition multi_ttl_ms :: int where
  "multi_ttl_ms = 6 * 60 * 1000"

definition multi_warmup_ms :: int where
  "multi_warmup_ms = 2 * 60 * 1000"

definition normalizeHostIds :: "jsval list \<Rightarrow> int list" where
  "normalizeHostIds vals = sort (js_uniq (List.map_filter js_positive_int vals))"

definition pathStateKey :: "rat \<Rightarrow> string option \<Rightarrow> string" where
  "pathStateKey tunnelId pathKey = js_string (JNum tunnelId) @ CHR '':'' # default_path pathKey"

definition clearTunnelMultiEntryLatencyState :: "jsval \<Rightarrow> multi_states \<Rightarrow> multi_states" where
  "clearTunnelMultiEntryLatencyState tunnelId states =
     (case js_positive_int tunnelId of
        None \<Rightarrow> states
      | Some tid \<Rightarrow>
          jm_prune (\<lambda>key _. js_starts_with (js_string (JNum (rat_of_int tid)) @ '':'') key) states)"

definition expectedSignature :: "int list \<Rightarrow> string" where
  "expectedSignature hostIds = js_join CHR '','' (map int_to_str hostIds)"

definition cleanExpiredResults :: "int \<Rightarrow> multi_path_state \<Rightarrow> multi_path_state" where
  "cleanExpiredResults now state =
     state\<lparr>mp_entryHops := jm_prune (\<lambda>_ r. multi_ttl_ms < now - pr_recordedAt r) (mp_entryHops state),
           mp_sharedHops := jm_prune (\<lambda>_ r. multi_ttl_ms < now - pr_recordedAt r) (mp_sharedHops state)\<rparr>"

definition cleanExpiredStates :: "int \<Rightarrow> multi_states \<Rightarrow> multi_states" where
  "cleanExpiredStates now states = jm_prune (\<lambda>_ state. multi_ttl_ms < now - mp_updatedAt state) states"

definition resultSucceeded :: "probe_result option \<Rightarrow> bool" where
  "resultSucceeded result =
     (case result of None \<Rightarrow> False | Some r \<Rightarrow> 0 < snd (pr_counts r) \<and> 0 < or_zero (pr_latencyMs r))"

section \<open>Aggregation\<close>

definition candidate_counts :: "entry_detail \<Rightarrow> int \<times> int" where
  "candidate_counts detail =
     (let count = (case ed_counts detail of Some (c, _) \<Rightarrow> if 1 \<le> c then min 1024 c else 1 | None \<Rightarrow> 1);
          successes = (case ed_counts detail of
              Some (_, s) \<Rightarrow> max 0 (min count s)
            | None \<Rightarrow> if ed_isTimeout detail then 0 else count)
      in (count, successes))"

definition representativeProbeCounts :: "entry_detail list \<Rightarrow> probe_result list \<Rightarrow> int \<times> int" where
  "representativeProbeCounts details fallback =
     (let candidates = map candidate_counts details;
          successful = sort_key (\<lambda>c. - fl (of_int (snd c) / of_int (fst c)))
            (filter (\<lambda>candidate. 0 < snd candidate) candidates)
      in if 0 < length successful then hd successful else combineProbeCounts (map pr_counts fallback))"

definition maybeAttachCounts :: "entry_detail \<Rightarrow> int \<times> int \<Rightarrow> entry_detail" where
  "maybeAttachCounts detail counts =
     (if fst counts = 1 \<and> snd counts = (if ed_isTimeout detail then 0 else 1) then detail
      else detail\<lparr>ed_counts := Some counts\<rparr>)"

definition shared_failed :: "probe_result list \<Rightarrow> bool" where
  "shared_failed sharedResults = list_ex (\<lambda>shared. \<not> resultSucceeded (Some shared)) sharedResults"

definition shared_latency :: "probe_result list \<Rightarrow> rat" where
  "shared_latency sharedResults = sum_list (map (\<lambda>shared. or_zero (pr_latencyMs shared)) sharedResults)"

definition entry_detail_of :: "probe_result list \<Rightarrow> int \<Rightarrow> probe_result option \<Rightarrow> entry_detail" where
  "entry_detail_of sharedResults hostId entry =
     (let success = (\<not> shared_failed sharedResults \<and> resultSucceeded entry);
          sharedCounts = combineProbeCounts (map pr_counts sharedResults);
          entryCounts = (case entry of
              Some e \<Rightarrow> combineProbeCounts (pr_counts e # map pr_counts sharedResults)
            | None \<Rightarrow> (fst sharedCounts, 0))
      in maybeAttachCounts
           \<lparr>ed_hostId = hostId,
            ed_label = (case entry of Some e \<Rightarrow> if pr_label e = [] then None else Some (pr_label e)
                        | None \<Rightarrow> None),
            ed_latencyMs = (if success
               then Some ((case entry of Some e \<Rightarrow> or_zero (pr_latencyMs e) | None \<Rightarrow> 0)
                     + shared_latency sharedResults)
               else None),
            ed_isTimeout = (\<not> success),
            ed_counts = None\<rparr> entryCounts)"

definition entry_details :: "multi_path_state \<Rightarrow> probe_result list \<Rightarrow> entry_detail list" where
  "entry_details state sharedResults =
     concat (map (\<lambda>hostId.
         if jm_get (mp_entryHops state) hostId = None \<and> \<not> shared_failed sharedResults then []
         else [entry_detail_of sharedResults hostId (jm_get (mp_entryHops state) hostId)])
       (mp_expected state))"

fun collect_shared :: "(int, probe_result) jmap \<Rightarrow> int list \<Rightarrow> probe_result list option" where
  "collect_shared hops [] = Some []"
| "collect_shared hops (i # is) =
     (case jm_get hops i of
        None \<Rightarrow> None
      | Some shared \<Rightarrow> map_option ((#) shared) (collect_shared hops is))"

definition aggregateMultiEntryState ::
  "multi_path_state \<Rightarrow> int \<Rightarrow> multi_aggregate option \<times> multi_path_state" where
  "aggregateMultiEntryState state0 now =
     (let state = cleanExpiredResults now state0 in
      case collect_shared (mp_sharedHops state) [1..mp_hopCount state - 1] of
        None \<Rightarrow> (None, state)
      | Some sharedResults \<Rightarrow>
          (let sharedFailed = shared_failed sharedResults;
               details = entry_details state sharedResults;
               successful = filter (\<lambda>d. \<not> ed_isTimeout d \<and> 0 < or_zero (ed_latencyMs d)) details
           in if 0 < length successful then
                (let representative = representativeProbeCounts successful [] in
                 (Some \<lparr>ma_success = True,
                    ma_partial = (length successful < length (mp_expected state)),
                    ma_latencyMs = Some (Max (set (map (\<lambda>d. or_zero (ed_latencyMs d)) successful))),
                    ma_details = details,
                    ma_counts = (if fst representative \<noteq> 1 \<or> snd representative \<noteq> 1
                                 then Some representative else None)\<rparr>, state))
              else if sharedFailed \<or> length details = length (mp_expected state) then
                (let availableResults = jm_values (mp_entryHops state) @ sharedResults;
                     failureCounts = representativeProbeCounts [] availableResults
                 in (Some \<lparr>ma_success = False, ma_partial = False, ma_latencyMs = None,
                      ma_details = details,
                      ma_counts = (if fst failureCounts \<noteq> 1 \<or> snd failureCounts \<noteq> 0
                                   then Some failureCounts else None)\<rparr>, state))
              else (None, state)))"

section \<open>Recording and reading\<close>

record multi_report =
  mr_tunnelId :: jsval
  mr_sourceHostId :: jsval
  mr_sourceLabel :: "string option"
  mr_expected :: "jsval list"
  mr_hopIndex :: jsval
  mr_hopCount :: jsval
  mr_latencyMs :: "rat option"
  mr_isTimeout :: bool
  mr_generation :: "string option"
  mr_pathKey :: "string option"
  mr_toHostId :: jsval
  mr_probeCount :: jsval
  mr_probeSuccesses :: jsval

record multi_path =
  mq_tunnelId :: int
  mq_sourceHostId :: int
  mq_hopIndex :: int
  mq_hopCount :: int
  mq_expected :: "int list"

definition multi_report_path :: "multi_report \<Rightarrow> multi_path option" where
  "multi_report_path input =
     (let expected = normalizeHostIds (mr_expected input) in
      case (js_positive_int (mr_tunnelId input), js_positive_int (mr_sourceHostId input),
            js_integer (mr_hopIndex input), js_positive_int (mr_hopCount input)) of
        (Some tunnelId, Some sourceHostId, Some hopIndex, Some hopCount) \<Rightarrow>
          if hopIndex < 0 \<or> hopCount \<le> hopIndex then None
          else if length expected < 2 then None
          else if hopIndex = 0 \<and> sourceHostId \<notin> set expected then None
          else Some \<lparr>mq_tunnelId = tunnelId, mq_sourceHostId = sourceHostId, mq_hopIndex = hopIndex,
                     mq_hopCount = hopCount, mq_expected = expected\<rparr>
      | _ \<Rightarrow> None)"

definition multi_generation :: "string option \<Rightarrow> int \<Rightarrow> string" where
  "multi_generation generation hopCount =
     take 1024 (truthy_or generation (legacy_generation (rat_of_int hopCount)))"

definition fresh_multi_state :: "string \<Rightarrow> int \<Rightarrow> int list \<Rightarrow> int \<Rightarrow> multi_path_state" where
  "fresh_multi_state generation hopCount expected now =
     \<lparr>mp_generation = generation, mp_hopCount = hopCount, mp_expected = expected,
      mp_entryHops = [], mp_sharedHops = [], mp_createdAt = now, mp_updatedAt = now\<rparr>"

definition same_topology :: "string \<Rightarrow> int \<Rightarrow> int list \<Rightarrow> multi_path_state \<Rightarrow> bool" where
  "same_topology generation hopCount expected state =
     (mp_generation state = generation \<and> mp_hopCount state = hopCount
      \<and> expectedSignature (mp_expected state) = expectedSignature expected)"

definition positive_latency :: "rat option \<Rightarrow> bool" where
  "positive_latency latency = (0 < or_zero latency)"

definition probe_of_report :: "multi_report \<Rightarrow> multi_path \<Rightarrow> int \<Rightarrow> probe_result" where
  "probe_of_report input path now =
     \<lparr>pr_latencyMs = (if positive_latency (mr_latencyMs input) then mr_latencyMs input else None),
      pr_isTimeout = (mr_isTimeout input \<or> \<not> positive_latency (mr_latencyMs input)),
      pr_label = take 96 (js_trim (truthy_or (mr_sourceLabel input) [])),
      pr_fromHostId = mq_sourceHostId path,
      pr_toHostId = js_positive_int (mr_toHostId input),
      pr_hopIndex = mq_hopIndex path,
      pr_counts = normalizeProbeCounts (mr_probeCount input) (mr_probeSuccesses input) (mr_isTimeout input),
      pr_recordedAt = now\<rparr>"

definition store_probe :: "multi_path \<Rightarrow> probe_result \<Rightarrow> int \<Rightarrow> multi_path_state \<Rightarrow> multi_path_state" where
  "store_probe path result now state =
     (if mq_hopIndex path = 0
      then state\<lparr>mp_entryHops := jm_set (mq_sourceHostId path) result (mp_entryHops state), mp_updatedAt := now\<rparr>
      else state\<lparr>mp_sharedHops := jm_set (mq_hopIndex path) result (mp_sharedHops state), mp_updatedAt := now\<rparr>)"

definition recordTunnelMultiEntryLatency ::
  "int \<Rightarrow> multi_report \<Rightarrow> multi_states \<Rightarrow> multi_aggregate option \<times> multi_states" where
  "recordTunnelMultiEntryLatency now input states0 =
     (case multi_report_path input of
        None \<Rightarrow> (None, states0)
      | Some path \<Rightarrow>
          (let generation = multi_generation (mr_generation input) (mq_hopCount path);
               key = pathStateKey (rat_of_int (mq_tunnelId path)) (mr_pathKey input);
               states = cleanExpiredStates now states0;
               state = (case jm_get states key of
                   Some s \<Rightarrow> if same_topology generation (mq_hopCount path) (mq_expected path) s then s
                     else fresh_multi_state generation (mq_hopCount path) (mq_expected path) now
                 | None \<Rightarrow> fresh_multi_state generation (mq_hopCount path) (mq_expected path) now);
               state1 = store_probe path (probe_of_report input path now) now (cleanExpiredResults now state);
               (result, state2) = aggregateMultiEntryState state1 now
           in (result, jm_set key state2 states)))"

definition getTunnelMultiEntryLatency ::
  "int \<Rightarrow> jsval \<Rightarrow> jsval list \<Rightarrow> jsval \<Rightarrow> string option \<Rightarrow> string option \<Rightarrow> multi_states
     \<Rightarrow> multi_aggregate option \<times> multi_states" where
  "getTunnelMultiEntryLatency now tunnelIdValue expectedValues hopCountValue generationOpt pathKey states =
     (let expected = normalizeHostIds expectedValues in
      case (js_positive_int tunnelIdValue, js_positive_int hopCountValue) of
        (Some tunnelId, Some hopCount) \<Rightarrow>
          if length expected < 2 then (None, states)
          else
            (let key = pathStateKey (rat_of_int tunnelId) pathKey in
             case jm_get states key of
               None \<Rightarrow> (None, states)
             | Some state \<Rightarrow>
                 if \<not> same_topology (multi_generation generationOpt hopCount) hopCount expected state
                 then (None, states)
                 else if multi_ttl_ms < now - mp_updatedAt state then (None, jm_del key states)
                 else (let (result, state') = aggregateMultiEntryState state now
                       in (result, jm_set key state' states)))
      | _ \<Rightarrow> (None, states))"

definition tunnelMultiEntryProbeWarmingUp :: "int \<Rightarrow> rat \<Rightarrow> string option \<Rightarrow> multi_states \<Rightarrow> bool" where
  "tunnelMultiEntryProbeWarmingUp now tunnelId pathKey states =
     (case jm_get states (pathStateKey tunnelId pathKey) of
        None \<Rightarrow> False
      | Some state \<Rightarrow> now - mp_createdAt state < multi_warmup_ms)"

definition multi_hop_detail ::
  "int \<Rightarrow> int \<Rightarrow> int option \<Rightarrow> int option \<Rightarrow> probe_result \<Rightarrow> hop_detail" where
  "multi_hop_detail hopIndex hopCount fromHost toHost r =
     \<lparr>hd_hopIndex = rat_of_int hopIndex, hd_hopCount = rat_of_int hopCount, hd_fromHostId = fromHost,
      hd_toHostId = toHost, hd_latencyMs = pr_latencyMs r, hd_isTimeout = pr_isTimeout r,
      hd_recordedAt = pr_recordedAt r,
      hd_counts = (if fst (pr_counts r) \<noteq> 1 \<or> snd (pr_counts r) \<noteq> (if pr_isTimeout r then 0 else 1)
                   then Some (pr_counts r) else None)\<rparr>"

definition getTunnelMultiEntryHopDetails ::
  "int \<Rightarrow> jsval \<Rightarrow> jsval list \<Rightarrow> jsval \<Rightarrow> string option \<Rightarrow> string option \<Rightarrow> int \<Rightarrow> int option \<Rightarrow> multi_states
     \<Rightarrow> hop_detail list option \<times> multi_states" where
  "getTunnelMultiEntryHopDetails now tunnelIdValue expectedValues hopCountValue generationOpt pathKey
       referenceAt maxAge states0 =
     (let expected = normalizeHostIds expectedValues in
      case (js_positive_int tunnelIdValue, js_positive_int hopCountValue) of
        (Some tunnelId, Some hopCount) \<Rightarrow>
          if length expected < 2 then (None, states0)
          else
            (let key = pathStateKey (rat_of_int tunnelId) pathKey;
                 states = cleanExpiredStates now states0
             in case jm_get states key of
                  None \<Rightarrow> (None, states)
                | Some state0 \<Rightarrow>
                    (let generation = take 1024 (truthy_or generationOpt (mp_generation state0)) in
                     if \<not> same_topology generation hopCount expected state0 then (None, states)
                     else
                       (let state = cleanExpiredResults now state0;
                            maxAgeMs = max 1000 (case maxAge of None \<Rightarrow> multi_ttl_ms
                              | Some a \<Rightarrow> if a = 0 then multi_ttl_ms else a);
                            isFresh = (\<lambda>recordedAt. now - recordedAt \<le> maxAgeMs
                              \<and> (referenceAt \<le> 0 \<or> \<bar>recordedAt - referenceAt\<bar> \<le> maxAgeMs));
                            sharedFirstSource = map_option pr_fromHostId (jm_get (mp_sharedHops state) 1);
                            entries = List.map_filter (\<lambda>hostId.
                                Option.bind (jm_get (mp_entryHops state) hostId)
                                  (\<lambda>e. if isFresh (pr_recordedAt e)
                                       then Some (multi_hop_detail 0 hopCount (Some hostId)
                                         (if pr_toHostId e \<noteq> None then pr_toHostId e else sharedFirstSource) e)
                                       else None)) expected;
                            shared = List.map_filter (\<lambda>hopIndex.
                                Option.bind (jm_get (mp_sharedHops state) hopIndex)
                                  (\<lambda>r. if isFresh (pr_recordedAt r)
                                       then Some (multi_hop_detail hopIndex hopCount (Some (pr_fromHostId r))
                                         (pr_toHostId r) r)
                                       else None)) [1..hopCount - 1];
                            details = entries @ shared
                        in (if 0 < length details then Some details else None, jm_set key state states))))
      | _ \<Rightarrow> (None, states0))"

section \<open>What the aggregate means\<close>

definition multi_state_ok :: "multi_path_state \<Rightarrow> bool" where
  "multi_state_ok state =
     (jm_ok (mp_entryHops state) \<and> jm_ok (mp_sharedHops state)
      \<and> distinct (mp_expected state) \<and> mp_expected state \<noteq> [])"

definition fresh_entry :: "multi_path_state \<Rightarrow> int \<Rightarrow> int \<Rightarrow> probe_result option" where
  "fresh_entry state now h =
     Option.bind (jm_get (mp_entryHops state) h)
       (\<lambda>r. if multi_ttl_ms < now - pr_recordedAt r then None else Some r)"

definition fresh_shared :: "multi_path_state \<Rightarrow> int \<Rightarrow> int \<Rightarrow> probe_result option" where
  "fresh_shared state now i =
     Option.bind (jm_get (mp_sharedHops state) i)
       (\<lambda>r. if multi_ttl_ms < now - pr_recordedAt r then None else Some r)"

lemma cleaned_gets:
  assumes "multi_state_ok state"
  shows "jm_get (mp_entryHops (cleanExpiredResults now state)) = fresh_entry state now"
    and "jm_get (mp_sharedHops (cleanExpiredResults now state)) = fresh_shared state now"
    and "mp_expected (cleanExpiredResults now state) = mp_expected state"
    and "mp_hopCount (cleanExpiredResults now state) = mp_hopCount state"
    and "multi_state_ok (cleanExpiredResults now state)"
  using assms
  by (auto simp: cleanExpiredResults_def multi_state_ok_def jm_get_prune fresh_entry_def fresh_shared_def
      fun_eq_iff split: option.split)

lemma collect_shared_eq:
  "collect_shared hops is =
     (if \<forall>i \<in> set is. jm_get hops i \<noteq> None then Some (map (\<lambda>i. the (jm_get hops i)) is) else None)"
  by (induction "is") (auto split: option.split)

lemma concat_map_single:
  "concat (map (\<lambda>x. if P x then [] else [f x]) xs) = map f (filter (\<lambda>x. \<not> P x) xs)"
  by (induction xs) auto

lemma maybeAttachCounts_simps [simp]:
  "ed_isTimeout (maybeAttachCounts d c) = ed_isTimeout d"
  "ed_latencyMs (maybeAttachCounts d c) = ed_latencyMs d"
  "ed_hostId (maybeAttachCounts d c) = ed_hostId d"
  by (simp_all add: maybeAttachCounts_def)

lemma entry_detail_of_simps:
  "ed_isTimeout (entry_detail_of sh h e) = (shared_failed sh \<or> \<not> resultSucceeded e)"
  "\<not> shared_failed sh \<Longrightarrow> resultSucceeded (Some r) \<Longrightarrow>
     ed_latencyMs (entry_detail_of sh h (Some r)) = Some (or_zero (pr_latencyMs r) + shared_latency sh)"
  by (auto simp: entry_detail_of_def Let_def)

lemma shared_latency_nonneg: "\<not> shared_failed sh \<Longrightarrow> 0 \<le> shared_latency sh"
  unfolding shared_latency_def shared_failed_def
  by (intro sum_list_nonneg) (auto simp: list_ex_iff resultSucceeded_def)

text \<open>The working entries are those that answered, over shared hops that all answered.\<close>

lemma successful_entries:
  "filter (\<lambda>d. \<not> ed_isTimeout d \<and> 0 < or_zero (ed_latencyMs d)) (entry_details state sh) =
   (if shared_failed sh then []
    else map (\<lambda>h. entry_detail_of sh h (jm_get (mp_entryHops state) h))
           (filter (\<lambda>h. resultSucceeded (jm_get (mp_entryHops state) h)) (mp_expected state)))"
proof -
  let ?get = "jm_get (mp_entryHops state)"
  have pos: "0 < or_zero (ed_latencyMs (entry_detail_of sh h e))"
    if ok: "\<not> shared_failed sh" "resultSucceeded e" for h e
  proof -
    obtain r where r: "e = Some r" using ok(2) by (auto simp: resultSucceeded_def split: option.splits)
    then have "0 < or_zero (pr_latencyMs r)" using ok(2) by (simp add: resultSucceeded_def)
    then show ?thesis using ok r shared_latency_nonneg [OF ok(1)]
      by (simp add: entry_detail_of_simps or_zero_def [of "Some _"])
  qed
  have none: "resultSucceeded e \<Longrightarrow> \<exists>y. e = Some y" for e
    by (auto simp: resultSucceeded_def split: option.splits)
  show ?thesis
    unfolding entry_details_def concat_map_single filter_map comp_def filter_filter
    using pos by (auto simp: entry_detail_of_simps dest: none cong: filter_cong intro!: arg_cong [where f = "map _"] filter_cong)
qed

lemma entry_details_length:
  "length (entry_details state sh) =
     length (filter (\<lambda>h. jm_get (mp_entryHops state) h \<noteq> None \<or> shared_failed sh) (mp_expected state))"
  unfolding entry_details_def concat_map_single by (simp cong: filter_cong)

section \<open>Properties\<close>

text \<open>
  C32. A tunnel with several entries is up exactly when it can carry traffic.  The aggregate exists
  unless a shared hop has no fresh sample, or no entry works and some expected entry is still silent;
  it is a success exactly when all shared hops succeeded and at least one expected entry did, whatever
  the other entries do; then its latency is the worst of the working entries and it is marked partial
  exactly when some expected entry does not work.
\<close>
theorem aggregateMultiEntryState_correct:
  fixes state :: multi_path_state and now :: int
  assumes "multi_state_ok state"
  defines "shared_up \<equiv> \<forall>i \<in> {1..mp_hopCount state - 1}. resultSucceeded (fresh_shared state now i)"
    and "up \<equiv> {h \<in> set (mp_expected state). resultSucceeded (fresh_entry state now h)}"
  shows "case fst (aggregateMultiEntryState state now) of
      None \<Rightarrow> (\<exists>i \<in> {1..mp_hopCount state - 1}. fresh_shared state now i = None)
        \<or> up = {} \<and> (\<exists>h \<in> set (mp_expected state). fresh_entry state now h = None)
    | Some agg \<Rightarrow> (ma_success agg \<longleftrightarrow> shared_up \<and> up \<noteq> {})
        \<and> (ma_success agg \<longrightarrow>
            ma_latencyMs agg = Some (Max ((\<lambda>h. or_zero (pr_latencyMs (the (fresh_entry state now h)))
              + (\<Sum>i \<leftarrow> [1..mp_hopCount state - 1]. or_zero (pr_latencyMs (the (fresh_shared state now i))))) ` up))
            \<and> (ma_partial agg \<longleftrightarrow> up \<noteq> set (mp_expected state)))"
proof -
  define st where "st = cleanExpiredResults now state"
  note c = cleaned_gets [OF assms(1), of now, folded st_def]
  let ?is = "[1..mp_hopCount state - 1]"
  let ?sh = "map (\<lambda>i. the (fresh_shared state now i)) ?is"
  show ?thesis
  proof (cases "\<forall>i \<in> set ?is. fresh_shared state now i \<noteq> None")
    case False
    then have coll: "collect_shared (mp_sharedHops st) [1..mp_hopCount st - 1] = None"
      unfolding collect_shared_eq c by (simp only: if_False)
    have "fst (aggregateMultiEntryState state now) = None"
      unfolding aggregateMultiEntryState_def st_def [symmetric] Let_def coll by simp
    then show ?thesis using False by auto
  next
    case True
    then have coll: "collect_shared (mp_sharedHops st) [1..mp_hopCount st - 1] = Some ?sh"
      by (simp add: collect_shared_eq c)
    have sf: "\<not> shared_failed ?sh \<longleftrightarrow> shared_up"
      using True unfolding shared_failed_def list_ex_iff shared_up_def by fastforce
    let ?ups = "filter (\<lambda>h. resultSucceeded (fresh_entry state now h)) (mp_expected state)"
    have succ: "filter (\<lambda>d. \<not> ed_isTimeout d \<and> 0 < or_zero (ed_latencyMs d)) (entry_details st ?sh) =
        (if shared_up then map (\<lambda>h. entry_detail_of ?sh h (fresh_entry state now h)) ?ups else [])"
      unfolding successful_entries c sf [symmetric] by simp
    have ups: "set ?ups = up" by (auto simp: up_def)
    show ?thesis
    proof (cases "shared_up \<and> up \<noteq> {}")
      case good: True
      then have ne: "?ups \<noteq> []" using ups by (metis set_empty)
      have lat: "or_zero (ed_latencyMs (entry_detail_of ?sh h (fresh_entry state now h))) =
          or_zero (pr_latencyMs (the (fresh_entry state now h))) + shared_latency ?sh" if "h \<in> up" for h
      proof -
        have "resultSucceeded (fresh_entry state now h)" using that by (simp add: up_def)
        then obtain r where r: "fresh_entry state now h = Some r" "resultSucceeded (Some r)"
          by (cases "fresh_entry state now h") (simp_all add: resultSucceeded_def)
        then show ?thesis using entry_detail_of_simps(2) [of ?sh r h] sf good
          by (simp add: or_zero_def [of "Some _"])
      qed
      have "set (map (\<lambda>d. or_zero (ed_latencyMs d)) (map (\<lambda>h. entry_detail_of ?sh h (fresh_entry state now h)) ?ups))
          = (\<lambda>h. or_zero (pr_latencyMs (the (fresh_entry state now h))) + shared_latency ?sh) ` up"
        unfolding ups [symmetric] set_map image_image using lat ups by (intro image_cong) auto
      moreover have "length ?ups < length (mp_expected state) \<longleftrightarrow> up \<noteq> set (mp_expected state)"
        unfolding length_filter_less_iff by (auto simp: up_def)
      ultimately show ?thesis
        using good ne unfolding aggregateMultiEntryState_def st_def [symmetric] Let_def coll option.case succ
        by (simp add: c shared_latency_def comp_def)
    next
      case bad: False
      then have nil: "filter (\<lambda>d. \<not> ed_isTimeout d \<and> 0 < or_zero (ed_latencyMs d)) (entry_details st ?sh) = []"
        unfolding succ using ups by (metis (no_types, lifting) list.map_disc_iff set_empty)
      have len: "length (entry_details st ?sh) = length (mp_expected state)
          \<longleftrightarrow> (\<forall>h \<in> set (mp_expected state). fresh_entry state now h \<noteq> None \<or> shared_failed ?sh)"
        unfolding entry_details_length c length_filter_eq_iff ..
      show ?thesis
        using bad sf len unfolding aggregateMultiEntryState_def st_def [symmetric] Let_def coll option.case nil
        by (auto simp: c)
    qed
  qed
qed

theorem aggregateMultiEntryState_correct_witness:
  "case fst (aggregateMultiEntryState (fresh_multi_state ''g'' 1 [3, 8] 0) 5) of
      None \<Rightarrow> True | Some agg \<Rightarrow> \<not> ma_success agg"
proof -
  have ok: "multi_state_ok (fresh_multi_state ''g'' 1 [3, 8] 0)"
    by (simp add: multi_state_ok_def fresh_multi_state_def)
  show ?thesis
    using aggregateMultiEntryState_correct [OF ok, of 5]
    by (auto simp: fresh_multi_state_def fresh_entry_def resultSucceeded_def split: option.splits)
qed

lemma multi_state_ok_steps:
  "multi_state_ok (fresh_multi_state g n hs now) \<longleftrightarrow> distinct hs \<and> hs \<noteq> []"
  "multi_state_ok st \<Longrightarrow> multi_state_ok (store_probe path r now st)"
  by (auto simp: multi_state_ok_def fresh_multi_state_def store_probe_def)

lemma aggregate_state:
  "snd (aggregateMultiEntryState st now) = cleanExpiredResults now st"
  by (simp add: aggregateMultiEntryState_def Let_def split: option.split)

lemma multi_report_path_bounds:
  assumes "multi_report_path input = Some path"
  shows "distinct (mq_expected path)" "2 \<le> length (mq_expected path)"
    "mq_expected path = normalizeHostIds (mr_expected input)"
    "0 \<le> mq_hopIndex path" "mq_hopIndex path < mq_hopCount path"
    "mq_hopIndex path = 0 \<Longrightarrow> mq_sourceHostId path \<in> set (mq_expected path)"
  using assms by (auto simp: multi_report_path_def normalizeHostIds_def Let_def split: option.splits if_splits)

text \<open>The signature compares the host lists themselves.\<close>

lemma expectedSignature_inject:
  assumes "\<forall>h \<in> set xs. 0 < h" "\<forall>h \<in> set ys. 0 < h" "xs \<noteq> []" "ys \<noteq> []"
  shows "expectedSignature xs = expectedSignature ys \<longleftrightarrow> xs = ys"
proof
  have split: "js_split CHR '','' (expectedSignature zs) = map int_to_str zs"
    if "\<forall>h \<in> set zs. 0 < h" "zs \<noteq> []" for zs
    unfolding expectedSignature_def
  proof (rule js_join_split)
    show "\<forall>s \<in> set (map int_to_str zs). CHR '','' \<notin> set s"
      using that(1) by (force simp: int_to_str_def nat_to_str_no_sep js_digit_bounds)
  qed (use that in simp)
  assume "expectedSignature xs = expectedSignature ys"
  then have "map int_to_str xs = map int_to_str ys"
    using split [OF assms(1,3)] split [OF assms(2,4)] by simp
  moreover have "inj_on int_to_str (set xs \<union> set ys)"
  proof (rule inj_onI)
    fix a b assume "a \<in> set xs \<union> set ys" "b \<in> set xs \<union> set ys" "int_to_str a = int_to_str b"
    then show "a = b" using assms(1,2) int_to_str_nonneg_inject [of a b] by (meson UnE less_imp_le)
  qed
  ultimately show "xs = ys" by (simp add: inj_on_map_eq_map)
qed simp

definition multi_states_ok :: "multi_states \<Rightarrow> bool" where
  "multi_states_ok states =
     (jm_ok states \<and> (\<forall>key st. jm_get states key = Some st \<longrightarrow>
        multi_state_ok st \<and> (\<forall>h \<in> set (mp_expected st). 0 < h)))"

lemma normalizeHostIds_positive: "\<forall>h \<in> set (normalizeHostIds vs). 0 < h"
  by (auto simp: normalizeHostIds_def set_map_filter dest: js_positive_intD)

text \<open>
  Samples of different topologies are never mixed.  After a valid report the path's state has
  the generation, hop count and entry hosts of the report, holds the reported sample and otherwise
  only samples that were already stored under exactly that topology and are at most six minutes old;
  every other path is kept as it was, unless nothing was reported on it for six minutes.
\<close>
theorem recordTunnelMultiEntryLatency_no_mixing:
  fixes states0 states :: multi_states and now :: int
  assumes "multi_states_ok states0" "multi_report_path input = Some path"
    "recordTunnelMultiEntryLatency now input states0 = (result, states)"
  defines "key \<equiv> pathStateKey (rat_of_int (mq_tunnelId path)) (mr_pathKey input)"
  defines "generation \<equiv> multi_generation (mr_generation input) (mq_hopCount path)"
  shows "multi_states_ok states
    \<and> (\<exists>st. jm_get states key = Some st \<and> mp_generation st = generation
        \<and> mp_hopCount st = mq_hopCount path \<and> mp_expected st = mq_expected path
        \<and> (if mq_hopIndex path = 0
           then jm_get (mp_entryHops st) (mq_sourceHostId path)
           else jm_get (mp_sharedHops st) (mq_hopIndex path)) = Some (probe_of_report input path now)
        \<and> (\<forall>h r. jm_get (mp_entryHops st) h = Some r \<longrightarrow> now - pr_recordedAt r \<le> multi_ttl_ms
             \<and> (r = probe_of_report input path now \<or>
                (\<exists>old. jm_get states0 key = Some old \<and> jm_get (mp_entryHops old) h = Some r
                   \<and> mp_generation old = generation \<and> mp_hopCount old = mq_hopCount path
                   \<and> mp_expected old = mq_expected path))))
    \<and> (\<forall>k. k \<noteq> key \<longrightarrow> jm_get states k =
         (case jm_get states0 k of None \<Rightarrow> None
          | Some st \<Rightarrow> if multi_ttl_ms < now - mp_updatedAt st then None else Some st))"
proof -
  define base where "base = (case jm_get (cleanExpiredStates now states0) key of
       Some s \<Rightarrow> if same_topology generation (mq_hopCount path) (mq_expected path) s then s
         else fresh_multi_state generation (mq_hopCount path) (mq_expected path) now
     | None \<Rightarrow> fresh_multi_state generation (mq_hopCount path) (mq_expected path) now)"
  define mid where "mid = store_probe path (probe_of_report input path now) now (cleanExpiredResults now base)"
  define final where "final = cleanExpiredResults now mid"
  note b = multi_report_path_bounds [OF assms(2)]
  have pos: "\<forall>h \<in> set (mq_expected path). 0 < h" unfolding b(3) by (rule normalizeHostIds_positive)
  have ne: "mq_expected path \<noteq> []" using b(2) by auto
  have get0: "jm_get (cleanExpiredStates now states0) k =
      (case jm_get states0 k of None \<Rightarrow> None
       | Some st \<Rightarrow> if multi_ttl_ms < now - mp_updatedAt st then None else Some st)" for k
    using assms(1) by (simp add: cleanExpiredStates_def jm_get_prune multi_states_ok_def)
  have old_ok: "multi_state_ok s \<and> (\<forall>h \<in> set (mp_expected s). 0 < h)"
    if "jm_get (cleanExpiredStates now states0) k = Some s" for k s
    using assms(1) that by (auto simp: get0 multi_states_ok_def split: option.splits if_splits)
  have base: "multi_state_ok base \<and> mp_generation base = generation \<and> mp_hopCount base = mq_hopCount path
      \<and> mp_expected base = mq_expected path"
  proof (cases "\<exists>s. jm_get (cleanExpiredStates now states0) key = Some s
      \<and> same_topology generation (mq_hopCount path) (mq_expected path) s")
    case True
    then obtain s where s: "jm_get (cleanExpiredStates now states0) key = Some s"
      "same_topology generation (mq_hopCount path) (mq_expected path) s" by blast
    have sok: "multi_state_ok s" "\<forall>h \<in> set (mp_expected s). 0 < h" using old_ok [OF s(1)] by auto
    have "mp_expected s = mq_expected path"
      using s(2) expectedSignature_inject [OF sok(2) pos _ ne] sok(1)
      by (simp add: same_topology_def multi_state_ok_def)
    then show ?thesis using s sok by (simp add: base_def same_topology_def)
  next
    case False
    then have "base = fresh_multi_state generation (mq_hopCount path) (mq_expected path) now"
      by (auto simp: base_def split: option.split)
    then show ?thesis using b(1) ne by (simp add: multi_state_ok_steps) (simp add: fresh_multi_state_def)
  qed
  have base_entries: "\<exists>old. jm_get states0 key = Some old \<and> jm_get (mp_entryHops old) h = Some r
      \<and> mp_generation old = generation \<and> mp_hopCount old = mq_hopCount path
      \<and> mp_expected old = mq_expected path" if "jm_get (mp_entryHops base) h = Some r" for h r
    using that base by (auto simp: base_def fresh_multi_state_def get0 split: option.splits if_splits)
  note c1 = cleaned_gets [of base now] and c2 = cleaned_gets [of mid now]
  have mid_ok: "multi_state_ok mid"
    unfolding mid_def using base c1(5) by (intro multi_state_ok_steps(2)) blast
  have fields: "mp_generation final = generation" "mp_hopCount final = mq_hopCount path"
    "mp_expected final = mq_expected path"
    using base by (simp_all add: final_def mid_def store_probe_def cleanExpiredResults_def)
  have fresh: "fresh_entry mid now h = jm_get (mp_entryHops mid) h
      \<and> fresh_shared mid now h = jm_get (mp_sharedHops mid) h" for h
    using base c1(1,2) by (auto simp: mid_def store_probe_def fresh_entry_def fresh_shared_def
        probe_of_report_def multi_ttl_ms_def split: option.split bind_splits if_splits)
  have new: "(if mq_hopIndex path = 0 then jm_get (mp_entryHops final) (mq_sourceHostId path)
      else jm_get (mp_sharedHops final) (mq_hopIndex path)) = Some (probe_of_report input path now)"
    using c2(1,2) mid_ok fresh by (simp add: final_def) (simp add: mid_def store_probe_def)
  have ents: "now - pr_recordedAt r \<le> multi_ttl_ms \<and> (r = probe_of_report input path now \<or>
      jm_get (mp_entryHops base) h = Some r)" if "jm_get (mp_entryHops final) h = Some r" for h r
  proof -
    have m: "fresh_entry mid now h = Some r" using that c2(1) mid_ok by (simp add: final_def)
    then have age: "now - pr_recordedAt r \<le> multi_ttl_ms"
      by (auto simp: fresh_entry_def bind_eq_Some_conv split: if_splits)
    have "jm_get (mp_entryHops mid) h = Some r" using m fresh by simp
    then have "r = probe_of_report input path now \<or> fresh_entry base now h = Some r"
      using base c1(1) by (auto simp: mid_def store_probe_def split: if_splits)
    with age show ?thesis by (auto simp: fresh_entry_def bind_eq_Some_conv split: if_splits)
  qed
  have run: "states = jm_set key final (cleanExpiredStates now states0)"
    using assms(2,3) aggregate_state [of mid now]
    by (auto simp: recordTunnelMultiEntryLatency_def key_def [symmetric] generation_def [symmetric]
        base_def [symmetric] mid_def [symmetric] final_def Let_def split: prod.splits)
  have "multi_states_ok states"
    unfolding run using c2(5) [OF mid_ok] old_ok assms(1) pos fields(3)
    by (auto simp: multi_states_ok_def final_def [symmetric] cleanExpiredStates_def)
  then show ?thesis
    using fields new ents base_entries get0 unfolding run by (auto simp del: jm_get_prune) 
qed

theorem recordTunnelMultiEntryLatency_no_mixing_witness:
  "\<exists>st. jm_get (snd (recordTunnelMultiEntryLatency 1000
        \<lparr>mr_tunnelId = JNum 7, mr_sourceHostId = JNum 3, mr_sourceLabel = None, mr_expected = [JNum 8, JNum 3],
         mr_hopIndex = JNum 0, mr_hopCount = JNum 2, mr_latencyMs = Some 5, mr_isTimeout = False,
         mr_generation = None, mr_pathKey = None, mr_toHostId = JNull, mr_probeCount = JUndef,
         mr_probeSuccesses = JUndef\<rparr> [])) (pathStateKey (rat_of_int 7) None) = Some st
      \<and> mp_expected st = [3, 8]"
proof -
  let ?in = "\<lparr>mr_tunnelId = JNum 7, mr_sourceHostId = JNum 3, mr_sourceLabel = None, mr_expected = [JNum 8, JNum 3],
         mr_hopIndex = JNum 0, mr_hopCount = JNum 2, mr_latencyMs = Some 5, mr_isTimeout = False,
         mr_generation = None, mr_pathKey = None, mr_toHostId = JNull, mr_probeCount = JUndef,
         mr_probeSuccesses = JUndef\<rparr>"
  have ok: "multi_states_ok []" by (simp add: multi_states_ok_def)
  have path: "multi_report_path ?in = Some \<lparr>mq_tunnelId = 7, mq_sourceHostId = 3, mq_hopIndex = 0,
      mq_hopCount = 2, mq_expected = [3, 8]\<rparr>"
    by (simp add: multi_report_path_def normalizeHostIds_def js_uniq_def)
  show ?thesis
    using recordTunnelMultiEntryLatency_no_mixing [OF ok path surjective_pairing, of 1000]
    by auto
qed

end
