(* ===== verification/Heartbeat_Gate.thy ===== *)
theory Heartbeat_Gate
imports FX_Prelude
begin

text \<open>
  The admission gate of agent heartbeats and the cache of stable heartbeat plans
  (\<open>server/agentHeartbeatGate.ts\<close>).  A heartbeat may reconcile a host only after acquiring the gate:
  one reconciliation per host, at most \<open>maxConcurrent\<close> at once, waiting hosts served in order.  The
  release closure returned by \<open>tryAcquire\<close> is a grant with a token; its \<open>released\<close> variable is
  membership of the token in \<open>hg_released\<close>.
\<close>

section \<open>The gate\<close>

record gate_config =
  gc_coalesceMs :: int
  gc_maxConcurrent :: int
  gc_waitingTimeoutMs :: int

definition default_gate_config :: gate_config where
  "default_gate_config = \<lparr>gc_coalesceMs = 5000, gc_maxConcurrent = 8, gc_waitingTimeoutMs = 30000\<rparr>"

record gate =
  hg_active :: "int list"
  hg_completedAt :: "(int, int) jmap"
  hg_waiting :: "int list"
  hg_waitingSince :: "(int, int) jmap"
  hg_next :: nat
  hg_released :: "nat list"

record grant =
  gr_host :: int
  gr_token :: nat

definition empty_gate :: gate where
  "empty_gate = \<lparr>hg_active = [], hg_completedAt = [], hg_waiting = [], hg_waitingSince = [],
     hg_next = 0, hg_released = []\<rparr>"

fun prune_queue :: "int \<Rightarrow> int \<Rightarrow> int list \<Rightarrow> (int, int) jmap \<Rightarrow> int list \<times> (int, int) jmap" where
  "prune_queue timeout t [] since = ([], since)"
| "prune_queue timeout t (hostId # rest) since =
     (case jm_get since hostId of
        Some queuedAt \<Rightarrow>
          if t - queuedAt \<le> timeout then (hostId # rest, since)
          else prune_queue timeout t rest (jm_del hostId since)
      | None \<Rightarrow> prune_queue timeout t rest (jm_del hostId since))"

definition pruneWaiting :: "gate_config \<Rightarrow> int \<Rightarrow> gate \<Rightarrow> gate" where
  "pruneWaiting cfg currentTime g =
     (let (w, s) = prune_queue (gc_waitingTimeoutMs cfg) currentTime (hg_waiting g) (hg_waitingSince g)
      in g\<lparr>hg_waiting := w, hg_waitingSince := s\<rparr>)"

definition gate_enqueue :: "int \<Rightarrow> int \<Rightarrow> gate \<Rightarrow> gate" where
  "gate_enqueue hostId currentTime g =
     (if jm_has (hg_waitingSince g) hostId
      then g\<lparr>hg_waitingSince := jm_set hostId currentTime (hg_waitingSince g)\<rparr>
      else g\<lparr>hg_waiting := hg_waiting g @ [hostId],
             hg_waitingSince := jm_set hostId currentTime (hg_waitingSince g)\<rparr>)"

definition removeWaiting :: "int \<Rightarrow> gate \<Rightarrow> gate" where
  "removeWaiting hostId g =
     (if jm_has (hg_waitingSince g) hostId
      then g\<lparr>hg_waitingSince := jm_del hostId (hg_waitingSince g),
             hg_waiting := remove1 hostId (hg_waiting g)\<rparr>
      else g)"

definition gate_grant :: "int \<Rightarrow> gate \<Rightarrow> grant option \<times> gate" where
  "gate_grant hostId g =
     (Some \<lparr>gr_host = hostId, gr_token = hg_next g\<rparr>,
      g\<lparr>hg_active := (if hostId \<in> set (hg_active g) then hg_active g else hg_active g @ [hostId]),
        hg_next := Suc (hg_next g)\<rparr>)"

definition recently_completed :: "gate_config \<Rightarrow> int \<Rightarrow> int \<Rightarrow> gate \<Rightarrow> bool" where
  "recently_completed cfg t hostId g =
     (t - (case jm_get (hg_completedAt g) hostId of Some c \<Rightarrow> c | None \<Rightarrow> 0) < gc_coalesceMs cfg)"

definition tryAcquire :: "gate_config \<Rightarrow> int \<Rightarrow> jsval \<Rightarrow> bool \<Rightarrow> gate \<Rightarrow> grant option \<times> gate" where
  "tryAcquire cfg currentTime hostIdValue force g0 =
     (case js_positive_int hostIdValue of
        None \<Rightarrow> (None, g0)
      | Some hostId \<Rightarrow>
          (let g = pruneWaiting cfg currentTime g0 in
           if hostId \<in> set (hg_active g) \<or> \<not> force \<and> recently_completed cfg currentTime hostId g then (None, g)
           else if max 1 (gc_maxConcurrent cfg) \<le> int (length (hg_active g))
           then (None, gate_enqueue hostId currentTime g)
           else if 0 < length (hg_waiting g) then
             (if \<not> jm_has (hg_waitingSince g) hostId then (None, gate_enqueue hostId currentTime g)
              else if hd (hg_waiting g) \<noteq> hostId
              then (None, g\<lparr>hg_waitingSince := jm_set hostId currentTime (hg_waitingSince g)\<rparr>)
              else gate_grant hostId
                     (g\<lparr>hg_waiting := tl (hg_waiting g), hg_waitingSince := jm_del hostId (hg_waitingSince g)\<rparr>))
           else gate_grant hostId g))"

definition gate_release :: "int \<Rightarrow> grant \<Rightarrow> gate \<Rightarrow> gate" where
  "gate_release currentTime r g =
     (if gr_token r \<in> set (hg_released g) then g
      else g\<lparr>hg_released := gr_token r # hg_released g,
             hg_active := removeAll (gr_host r) (hg_active g),
             hg_completedAt := jm_set (gr_host r) currentTime (hg_completedAt g)\<rparr>)"

definition gate_clear :: "jsval \<Rightarrow> gate \<Rightarrow> gate" where
  "gate_clear hostIdValue g =
     (if hostIdValue = JUndef
      then g\<lparr>hg_active := [], hg_completedAt := [], hg_waiting := [], hg_waitingSince := []\<rparr>
      else (case js_integer hostIdValue of
              None \<Rightarrow> g
            | Some hostId \<Rightarrow>
                removeWaiting hostId
                  (g\<lparr>hg_active := removeAll hostId (hg_active g),
                     hg_completedAt := jm_del hostId (hg_completedAt g)\<rparr>)))"

section \<open>Other heartbeat decisions\<close>

definition selectAgentTrafficReportInterval :: "bool \<Rightarrow> bool \<Rightarrow> int" where
  "selectAgentTrafficReportInterval metricsWatching strictAccounting =
     (if metricsWatching \<or> strictAccounting then 10 else 30)"

definition shouldDeferAgentWorkForLocalState :: "bool \<Rightarrow> bool \<Rightarrow> bool" where
  "shouldDeferAgentWorkForLocalState supportsDesiredState requestLocalState =
     (supportsDesiredState \<and> requestLocalState)"

definition presence_persist_interval_ms :: int where
  "presence_persist_interval_ms = 90 * 1000"

text \<open>\<open>lastHeartbeat\<close> is the time the date parses to, \<open>None\<close> when it does not parse.\<close>

definition shouldPersistAgentPresence :: "bool \<Rightarrow> int option \<Rightarrow> int \<Rightarrow> bool" where
  "shouldPersistAgentPresence wasOnline lastHeartbeat nowMs =
     (if \<not> wasOnline then True
      else (case lastHeartbeat of
              None \<Rightarrow> True
            | Some lastHeartbeatMs \<Rightarrow> presence_persist_interval_ms \<le> nowMs - lastHeartbeatMs))"

definition idle_heartbeat_interval :: int where
  "idle_heartbeat_interval = 60"

definition normalized_probe_seconds :: "jsval \<Rightarrow> int" where
  "normalized_probe_seconds v =
     (case js_number (js_or v (JNum 30)) of Some seconds \<Rightarrow> max 5 \<lfloor>seconds\<rfloor> | None \<Rightarrow> 30)"

definition selectAgentHeartbeatInterval :: "bool \<Rightarrow> bool \<Rightarrow> bool \<Rightarrow> jsval list \<Rightarrow> int" where
  "selectAgentHeartbeatInterval requestLocalState hasInteractiveTasks metricsWatching serviceProbeIntervals =
     (if requestLocalState \<or> hasInteractiveTasks then 2
      else
        (let serviceProbeInterval =
               foldl (\<lambda>minimum v. min minimum (normalized_probe_seconds v)) idle_heartbeat_interval
                 serviceProbeIntervals
         in min (if metricsWatching then 3 else idle_heartbeat_interval) serviceProbeInterval))"

record busy_response =
  br_actions :: "unit list"
  br_panelUrl :: string
  br_nextInterval :: int
  br_requestLocalState :: bool
  br_metricsOnly :: bool
  br_trafficReportInterval :: "int option"

definition buildBusyAgentHeartbeatResponse ::
  "string \<Rightarrow> bool \<Rightarrow> bool option \<Rightarrow> int option \<Rightarrow> busy_response" where
  "buildBusyAgentHeartbeatResponse panelUrl requestLocalState metricsWatching trafficReportInterval =
     (let metricsOnly = (metricsWatching = Some True \<and> \<not> requestLocalState)
      in \<lparr>br_actions = [], br_panelUrl = panelUrl, br_nextInterval = (if metricsOnly then 3 else 5),
          br_requestLocalState = requestLocalState, br_metricsOnly = metricsOnly,
          br_trafficReportInterval = trafficReportInterval\<rparr>)"

section \<open>Stable plans\<close>

record stable_plan =
  sp_plannedAt :: int
  sp_configRevision :: int
  sp_desiredStateHash :: string
  sp_localStateSignature :: string
  sp_stateSignatures :: "(string, string) jmap"
  sp_agentVersion :: string
  sp_agentBootId :: string
  sp_agentProcessStartedAt :: int
  sp_defaultNetworkInterface :: string
  sp_pluginInventorySignature :: string
  sp_mimicEnvironmentSignature :: string
  sp_idleNextInterval :: int
  sp_panelUrl :: string

record stable_match =
  sm_forceReconcile :: bool
  sm_hasBlockingWork :: bool
  sm_recoveryTriggered :: bool
  sm_addressChanged :: bool
  sm_hasDnsChanges :: bool
  sm_hasLocalStateUpload :: bool
  sm_hasEndpointEvents :: bool
  sm_localStateSignature :: string
  sm_stateSignatures :: "(string, string) jmap"
  sm_agentVersion :: string
  sm_agentBootId :: string
  sm_agentProcessStartedAt :: int
  sm_defaultNetworkInterface :: string
  sm_pluginInventorySignature :: string
  sm_mimicEnvironmentSignature :: string
  sm_agentLastReceivedRevision :: int
  sm_agentLastAppliedRevision :: int
  sm_agentLastReceivedHash :: string
  sm_agentLastAppliedHash :: string

definition normalizedHash :: "string option \<Rightarrow> string" where
  "normalizedHash v = js_lower (js_trim (case v of Some s \<Rightarrow> s | None \<Rightarrow> []))"

definition signaturesMatch :: "(string, string) jmap \<Rightarrow> (string, string) jmap \<Rightarrow> bool" where
  "signaturesMatch expected actual =
     (0 < length (jm_keys expected)
      \<and> list_all (\<lambda>name. normalizedHash (jm_get actual name) = normalizedHash (jm_get expected name))
          (jm_keys expected))"

type_synonym plan_cache = "(int, stable_plan) jmap"

definition plan_remember :: "jsval \<Rightarrow> stable_plan \<Rightarrow> plan_cache \<Rightarrow> bool \<times> plan_cache" where
  "plan_remember hostIdValue plan plans =
     (case js_positive_int hostIdValue of
        None \<Rightarrow> (False, plans)
      | Some hostId \<Rightarrow>
          if sp_localStateSignature plan = [] \<or> sp_desiredStateHash plan = []
             \<or> length (jm_keys (sp_stateSignatures plan)) = 0
          then (False, plans)
          else (True, jm_set hostId
                  (plan\<lparr>sp_desiredStateHash := normalizedHash (Some (sp_desiredStateHash plan)),
                        sp_localStateSignature := normalizedHash (Some (sp_localStateSignature plan))\<rparr>) plans))"

definition plan_blocked :: "stable_match \<Rightarrow> bool" where
  "plan_blocked m =
     (sm_forceReconcile m \<or> sm_hasBlockingWork m \<or> sm_recoveryTriggered m \<or> sm_addressChanged m
      \<or> sm_hasDnsChanges m \<or> sm_hasLocalStateUpload m \<or> sm_hasEndpointEvents m)"

definition plan_environment_differs :: "stable_match \<Rightarrow> stable_plan \<Rightarrow> bool" where
  "plan_environment_differs m plan =
     (normalizedHash (Some (sm_localStateSignature m)) \<noteq> sp_localStateSignature plan
      \<or> \<not> signaturesMatch (sp_stateSignatures plan) (sm_stateSignatures m)
      \<or> sm_agentVersion m \<noteq> sp_agentVersion plan
      \<or> sm_agentBootId m \<noteq> sp_agentBootId plan
      \<or> sm_agentProcessStartedAt m \<noteq> sp_agentProcessStartedAt plan
      \<or> sm_defaultNetworkInterface m \<noteq> sp_defaultNetworkInterface plan
      \<or> sm_pluginInventorySignature m \<noteq> sp_pluginInventorySignature plan
      \<or> sm_mimicEnvironmentSignature m \<noteq> sp_mimicEnvironmentSignature plan)"

definition plan_acknowledgement_differs :: "stable_match \<Rightarrow> stable_plan \<Rightarrow> bool" where
  "plan_acknowledgement_differs m plan =
     (sm_agentLastReceivedRevision m \<noteq> sp_configRevision plan
      \<or> sm_agentLastAppliedRevision m \<noteq> sp_configRevision plan
      \<or> normalizedHash (Some (sm_agentLastReceivedHash m)) \<noteq> sp_desiredStateHash plan
      \<or> normalizedHash (Some (sm_agentLastAppliedHash m)) \<noteq> sp_desiredStateHash plan)"

definition plan_match :: "int \<Rightarrow> int \<Rightarrow> jsval \<Rightarrow> stable_match \<Rightarrow> plan_cache \<Rightarrow> stable_plan option" where
  "plan_match auditIntervalMs currentTime hostIdValue m plans =
     (case js_positive_int hostIdValue of
        None \<Rightarrow> None
      | Some hostId \<Rightarrow>
          (case jm_get plans hostId of
             None \<Rightarrow> None
           | Some plan \<Rightarrow>
               if auditIntervalMs \<le> currentTime - sp_plannedAt plan then None
               else if plan_blocked m then None
               else if plan_environment_differs m plan then None
               else if plan_acknowledgement_differs m plan then None
               else Some plan))"

definition plan_invalidate :: "jsval \<Rightarrow> plan_cache \<Rightarrow> plan_cache" where
  "plan_invalidate hostIdValue plans =
     (if hostIdValue = JUndef then []
      else (case js_integer hostIdValue of Some hostId \<Rightarrow> jm_del hostId plans | None \<Rightarrow> plans))"

section \<open>The gate's invariant\<close>

definition gate_ok :: "gate_config \<Rightarrow> gate \<Rightarrow> bool" where
  "gate_ok cfg g =
     (distinct (hg_active g) \<and> int (length (hg_active g)) \<le> max 1 (gc_maxConcurrent cfg)
      \<and> distinct (hg_waiting g) \<and> set (hg_waiting g) = set (jm_keys (hg_waitingSince g)))"

datatype gate_event = GateAcquire jsval bool int | GateRelease nat int | GateClear jsval

fun gate_step :: "gate_config \<Rightarrow> gate_event \<Rightarrow> gate \<times> grant list \<Rightarrow> gate \<times> grant list" where
  "gate_step cfg (GateAcquire h force t) (g, grants) =
     (case tryAcquire cfg t h force g of (Some r, g') \<Rightarrow> (g', r # grants) | (None, g') \<Rightarrow> (g', grants))"
| "gate_step cfg (GateRelease k t) (g, grants) =
     (if k < length grants then (gate_release t (grants ! k) g, grants) else (g, grants))"
| "gate_step cfg (GateClear h) (g, grants) = (gate_clear h g, grants)"

definition gate_run :: "gate_config \<Rightarrow> gate_event list \<Rightarrow> gate \<times> grant list" where
  "gate_run cfg es = foldl (\<lambda>s e. gate_step cfg e s) (empty_gate, []) es"

definition live_grants :: "gate \<Rightarrow> grant list \<Rightarrow> grant list" where
  "live_grants g grants = filter (\<lambda>r. gr_token r \<notin> set (hg_released g)) grants"

text \<open>Does the clearing of \<open>v\<close> take in host \<open>h\<close>?  Nothing given means all hosts.\<close>

definition clears :: "jsval \<Rightarrow> int \<Rightarrow> bool" where
  "clears v h \<longleftrightarrow> v = JUndef \<or> js_number v = Some (rat_of_int h)"

definition never_cleared :: "gate_event list \<Rightarrow> int set" where
  "never_cleared es = {h. \<forall>v. GateClear v \<in> set es \<longrightarrow> \<not> clears v h}"

text \<open>The grants still held for hosts of \<open>S\<close>.\<close>

definition held :: "int set \<Rightarrow> gate \<Rightarrow> grant list \<Rightarrow> grant list" where
  "held S g grants = filter (\<lambda>r. gr_host r \<in> S) (live_grants g grants)"

definition gate_system_ok :: "int set \<Rightarrow> gate \<Rightarrow> grant list \<Rightarrow> bool" where
  "gate_system_ok S g grants =
     (distinct (map gr_token grants)
      \<and> (\<forall>r \<in> set grants. gr_token r < hg_next g)
      \<and> (\<forall>t \<in> set (hg_released g). t < hg_next g)
      \<and> distinct (map gr_host (held S g grants))
      \<and> set (hg_active g) \<inter> S = gr_host ` set (held S g grants))"

lemma prune_queue_ok:
  assumes "distinct w" "set w = set (jm_keys s)"
  shows "distinct (fst (prune_queue timeout t w s))
    \<and> set (fst (prune_queue timeout t w s)) = set (jm_keys (snd (prune_queue timeout t w s)))"
  using assms
proof (induction timeout t w s rule: prune_queue.induct)
  case (2 timeout t h rest since)
  have "set rest = set (jm_keys (jm_del h since))"
    using "2.prems" unfolding jm_keys_del by auto
  then show ?case using 2 by (auto split: option.split)
qed simp

lemma pruneWaiting_ok: "gate_ok cfg g \<Longrightarrow> gate_ok cfg (pruneWaiting cfg t g)"
  using prune_queue_ok [of "hg_waiting g" "hg_waitingSince g" "gc_waitingTimeoutMs cfg" t]
  by (cases "prune_queue (gc_waitingTimeoutMs cfg) t (hg_waiting g) (hg_waitingSince g)")
    (simp add: gate_ok_def pruneWaiting_def)

lemma pruneWaiting_simps [simp]:
  "hg_active (pruneWaiting cfg t g) = hg_active g" "hg_completedAt (pruneWaiting cfg t g) = hg_completedAt g"
  "hg_next (pruneWaiting cfg t g) = hg_next g" "hg_released (pruneWaiting cfg t g) = hg_released g"
  by (simp_all add: pruneWaiting_def split: prod.split)

lemma jm_has_iff: "jm_has m k \<longleftrightarrow> k \<in> set (jm_keys m)"
  by (metis jm_get_None_iff jm_has_def)

lemma gate_enqueue_ok: "gate_ok cfg g \<Longrightarrow> gate_ok cfg (gate_enqueue h t g)"
  by (auto simp: gate_ok_def gate_enqueue_def jm_has_iff jm_keys_set simp del: set_map)

lemma gate_touch_ok:
  "gate_ok cfg g \<Longrightarrow> jm_has (hg_waitingSince g) h \<Longrightarrow>
   gate_ok cfg (g\<lparr>hg_waitingSince := jm_set h t (hg_waitingSince g)\<rparr>)"
  by (auto simp: gate_ok_def jm_has_iff jm_keys_set simp del: set_map)

lemma removeWaiting_ok: "gate_ok cfg g \<Longrightarrow> gate_ok cfg (removeWaiting h g)"
  by (auto simp: gate_ok_def removeWaiting_def jm_has_iff jm_keys_del simp del: set_map)

lemma gate_grant_ok:
  "gate_ok cfg g \<Longrightarrow> int (length (hg_active g)) < max 1 (gc_maxConcurrent cfg) \<Longrightarrow>
   gate_ok cfg (snd (gate_grant h g))"
  by (auto simp: gate_ok_def gate_grant_def)

lemma tryAcquire_ok:
  assumes "gate_ok cfg g0"
  shows "gate_ok cfg (snd (tryAcquire cfg t hv force g0))"
proof (cases "js_positive_int hv")
  case (Some h)
  define g where "g = pruneWaiting cfg t g0"
  have ok: "gate_ok cfg g" unfolding g_def by (rule pruneWaiting_ok [OF assms])
  have pop: "gate_ok cfg (g\<lparr>hg_waiting := tl (hg_waiting g), hg_waitingSince := jm_del h (hg_waitingSince g)\<rparr>)"
    if "hg_waiting g \<noteq> []" "hd (hg_waiting g) = h"
  proof -
    from that have w: "hg_waiting g = h # tl (hg_waiting g)" by (metis list.collapse)
    have "h \<notin> set (tl (hg_waiting g))" "set (hg_waiting g) = insert h (set (tl (hg_waiting g)))"
      using ok arg_cong [OF w, of distinct] arg_cong [OF w, of set] by (auto simp: gate_ok_def)
    then have "set (tl (hg_waiting g)) = set (jm_keys (jm_del h (hg_waitingSince g)))"
      using ok unfolding jm_keys_del by (auto simp: gate_ok_def)
    then show ?thesis using ok by (simp add: gate_ok_def distinct_tl)
  qed
  show ?thesis
    using ok pop unfolding tryAcquire_def Some Let_def g_def [symmetric]
    by (auto simp: gate_enqueue_ok gate_touch_ok intro!: gate_grant_ok)
qed (use assms in \<open>simp add: tryAcquire_def\<close>)

lemma gate_release_ok: "gate_ok cfg g \<Longrightarrow> gate_ok cfg (gate_release t r g)"
proof -
  assume ok: "gate_ok cfg g"
  have "int (length (removeAll (gr_host r) (hg_active g))) \<le> max 1 (gc_maxConcurrent cfg)"
    using ok length_removeAll_less_eq [of "gr_host r" "hg_active g"] unfolding gate_ok_def by linarith
  then show ?thesis using ok by (auto simp: gate_ok_def gate_release_def distinct_removeAll)
qed

lemma gate_clear_ok: "gate_ok cfg g \<Longrightarrow> gate_ok cfg (gate_clear h g)"
proof -
  assume ok: "gate_ok cfg g"
  have "int (length (removeAll x (hg_active g))) \<le> max 1 (gc_maxConcurrent cfg)" for x
    using ok length_removeAll_less_eq [of x "hg_active g"] unfolding gate_ok_def by linarith
  then show ?thesis using ok
    by (auto simp: gate_clear_def split: option.split intro!: removeWaiting_ok)
      (auto simp: gate_ok_def distinct_removeAll)
qed

lemma gate_step_ok: "gate_ok cfg g \<Longrightarrow> gate_ok cfg (fst (gate_step cfg e (g, grants)))"
proof (cases e)
  case (GateAcquire h force t)
  assume "gate_ok cfg g"
  from tryAcquire_ok [OF this, of t h force] show ?thesis
    using GateAcquire by (cases "tryAcquire cfg t h force g") (auto split: option.split)
qed (auto simp: gate_release_ok gate_clear_ok)

text \<open>The active hosts that were never cleared are those of the grants still held for them.\<close>

lemma tryAcquire_Some:
  assumes "tryAcquire cfg t hv force g0 = (Some r, g')"
  shows "js_positive_int hv = Some (gr_host r)" "gr_token r = hg_next g0" "gr_host r \<notin> set (hg_active g0)"
    "set (hg_active g') = insert (gr_host r) (set (hg_active g0))" "hg_next g' = Suc (hg_next g0)"
    "hg_released g' = hg_released g0"
    "int (length (hg_active g0)) < max 1 (gc_maxConcurrent cfg)"
    "force \<or> \<not> recently_completed cfg t (gr_host r) g0"
  using assms
  by (auto simp: tryAcquire_def gate_grant_def recently_completed_def Let_def not_le split: option.splits if_splits)

lemma tryAcquire_None:
  assumes "tryAcquire cfg t hv force g0 = (None, g')"
  shows "hg_active g' = hg_active g0" "hg_next g' = hg_next g0" "hg_released g' = hg_released g0"
  using assms
  by (auto simp: tryAcquire_def gate_grant_def gate_enqueue_def Let_def split: option.splits if_splits)

lemma gate_system_acquire:
  assumes "gate_system_ok S g grants" "tryAcquire cfg t hv force g = (Some r, g')"
  shows "gate_system_ok S g' (r # grants)"
proof -
  note s = tryAcquire_Some [OF assms(2)]
  have fresh: "gr_token r \<notin> set (hg_released g')" "gr_token r \<notin> gr_token ` set grants"
    using assms(1) s(2,6) by (auto simp: gate_system_ok_def)
  then have live: "held S g' (r # grants) = (if gr_host r \<in> S then [r] else []) @ held S g grants"
    by (simp add: held_def live_grants_def s(6))
  show ?thesis
    using assms(1) s(2-6) fresh unfolding gate_system_ok_def live by auto
qed

lemma gate_system_release:
  assumes "gate_system_ok S g grants" "r \<in> set grants"
  shows "gate_system_ok S (gate_release t r g) grants"
proof (cases "gr_token r \<in> set (hg_released g)")
  case True
  then show ?thesis using assms(1) by (simp add: gate_release_def)
next
  case False
  let ?g = "gate_release t r g"
  have inj: "inj_on gr_token (set grants)" and dist: "distinct (map gr_host (held S g grants))"
    using assms(1) by (auto simp: gate_system_ok_def distinct_map)
  have live: "held S ?g grants = filter (\<lambda>q. q \<noteq> r) (held S g grants)"
    using False inj assms(2)
    by (auto simp: held_def live_grants_def gate_release_def filter_filter inj_on_def intro!: filter_cong)
  have rlive: "gr_host r \<in> S \<Longrightarrow> r \<in> set (held S g grants)" using False assms(2) by (simp add: held_def live_grants_def)
  have S: "gr_host ` set (held S g grants) \<subseteq> S" by (auto simp: held_def)
  have "gr_host ` set (held S ?g grants) = gr_host ` set (held S g grants) - {gr_host r}"
  proof (cases "gr_host r \<in> S")
    case True
    then show ?thesis using dist rlive unfolding live by (auto simp: distinct_map inj_on_def)
  next
    case False
    then show ?thesis using S unfolding live by (auto simp: held_def)
  qed
  then have act: "set (hg_active ?g) \<inter> S = gr_host ` set (held S ?g grants)"
    using assms(1) False by (auto simp: gate_system_ok_def gate_release_def)
  have "distinct (map gr_host (held S ?g grants))"
    unfolding live using dist by (rule distinct_map_filter)
  then show ?thesis
    using assms act False unfolding gate_system_ok_def by (auto simp: gate_release_def)
qed

lemma gate_clear_fields:
  "hg_next (gate_clear v g) = hg_next g" "hg_released (gate_clear v g) = hg_released g"
  "(\<And>h. h \<in> S \<Longrightarrow> \<not> clears v h) \<Longrightarrow> set (hg_active (gate_clear v g)) \<inter> S = set (hg_active g) \<inter> S"
proof -
  show "hg_next (gate_clear v g) = hg_next g" "hg_released (gate_clear v g) = hg_released g"
    by (simp_all add: gate_clear_def removeWaiting_def split: option.split)
  assume keep: "\<And>h. h \<in> S \<Longrightarrow> \<not> clears v h"
  have "set (hg_active (gate_clear v g)) = {h \<in> set (hg_active g). \<not> clears v h}"
  proof (cases "v = JUndef")
    case False
    have i: "clears v h \<longleftrightarrow> js_integer v = Some h" for h
      using False by (auto simp: clears_def js_integer_def js_is_integer_def split: option.split)
    show ?thesis unfolding i using False
      by (cases "js_integer v") (auto simp: gate_clear_def removeWaiting_def)
  qed (simp add: gate_clear_def clears_def)
  then show "set (hg_active (gate_clear v g)) \<inter> S = set (hg_active g) \<inter> S" using keep by auto
qed

lemma gate_system_clear:
  assumes "gate_system_ok S g grants" "\<And>h. h \<in> S \<Longrightarrow> \<not> clears v h"
  shows "gate_system_ok S (gate_clear v g) grants"
  using assms gate_clear_fields(3) [OF assms(2), of S g]
  by (simp add: gate_system_ok_def gate_clear_fields(1,2) held_def live_grants_def)

lemma gate_step_system:
  assumes "gate_system_ok S g grants" "S \<subseteq> never_cleared [e]"
  shows "gate_system_ok S (fst (gate_step cfg e (g, grants))) (snd (gate_step cfg e (g, grants)))"
proof (cases e)
  case (GateAcquire h force t)
  show ?thesis
  proof (cases "tryAcquire cfg t h force g")
    case (Pair ro g')
    show ?thesis
    proof (cases ro)
      case None
      then show ?thesis using assms(1) GateAcquire Pair tryAcquire_None [of cfg t h force g g']
        by (simp add: gate_system_ok_def held_def live_grants_def)
    next
      case (Some r)
      then show ?thesis using gate_system_acquire [OF assms(1), of cfg t h force r g'] GateAcquire Pair by simp
    qed
  qed
next
  case (GateRelease k t)
  then show ?thesis using gate_system_release [OF assms(1), of "grants ! k" t] assms(1) by auto
next
  case (GateClear v)
  then show ?thesis using gate_system_clear [OF assms(1), of v] assms(2) by (auto simp: never_cleared_def)
qed

lemma gate_foldl:
  assumes "gate_ok cfg (fst s)"
  shows "gate_ok cfg (fst (foldl (\<lambda>s e. gate_step cfg e s) s es))
    \<and> (gate_system_ok S (fst s) (snd s) \<longrightarrow> S \<subseteq> never_cleared es \<longrightarrow>
        gate_system_ok S (fst (foldl (\<lambda>s e. gate_step cfg e s) s es)) (snd (foldl (\<lambda>s e. gate_step cfg e s) s es)))"
  using assms
proof (induction es arbitrary: s)
  case (Cons e es)
  have ok: "gate_ok cfg (fst (gate_step cfg e s))"
    using gate_step_ok [of cfg "fst s" e "snd s"] Cons.prems by simp
  have "gate_system_ok S (fst (gate_step cfg e s)) (snd (gate_step cfg e s))"
    if "gate_system_ok S (fst s) (snd s)" "S \<subseteq> never_cleared (e # es)"
    using gate_step_system [of S "fst s" "snd s" e cfg] that by (auto simp: never_cleared_def)
  then show ?case using Cons.IH [OF ok] by (auto simp: never_cleared_def)
qed simp

lemma gate_run_ok:
  "gate_ok cfg (fst (gate_run cfg es))"
  "gate_system_ok (never_cleared es) (fst (gate_run cfg es)) (snd (gate_run cfg es))"
proof -
  have "gate_ok cfg empty_gate" "gate_system_ok S empty_gate []" for S
    by (simp_all add: gate_ok_def gate_system_ok_def empty_gate_def held_def live_grants_def)
  then show "gate_ok cfg (fst (gate_run cfg es))"
    "gate_system_ok (never_cleared es) (fst (gate_run cfg es)) (snd (gate_run cfg es))"
    using gate_foldl [where cfg = cfg and s = "(empty_gate, [])" and es = es] by (auto simp: gate_run_def)
qed

section \<open>Properties\<close>

text \<open>
  C13. One reconciliation per host, and never more than the limit.  After any sequence of acquire,
  release and clear calls the gate runs at most \<open>maxConcurrent\<close> hosts (at least one) and its queue
  and time stamps agree.  A host that was never cleared holds at most one grant and runs exactly while it holds one, even when
  release closures are called twice and whatever happens to other hosts; so no more than the limit of such hosts hold a grant.  (Of a
  cleared host the second part says nothing: it can be admitted again while the grant it had is still held.)
\<close>
theorem heartbeat_gate_exclusive:
  assumes "gate_run cfg es = (g, grants)"
  defines "hold \<equiv> filter (\<lambda>r. gr_host r \<in> never_cleared es \<and> gr_token r \<notin> set (hg_released g)) grants"
  shows "int (length (hg_active g)) \<le> max 1 (gc_maxConcurrent cfg) \<and> distinct (hg_active g)
    \<and> distinct (hg_waiting g) \<and> set (hg_waiting g) = set (jm_keys (hg_waitingSince g))
    \<and> (\<forall>h \<in> never_cleared es. h \<in> set (hg_active g) \<longleftrightarrow> (\<exists>r \<in> set hold. gr_host r = h))
    \<and> distinct (map gr_host hold) \<and> int (length hold) \<le> max 1 (gc_maxConcurrent cfg)"
proof -
  have h: "hold = held (never_cleared es) g grants"
    by (simp add: hold_def held_def live_grants_def conj_commute)
  have ok: "gate_ok cfg g" and sys: "gate_system_ok (never_cleared es) g grants"
    using gate_run_ok [where cfg = cfg and es = es] assms by auto
  have "length hold = card (set (hg_active g) \<inter> never_cleared es)"
    using sys unfolding h by (metis distinct_card gate_system_ok_def length_map list.set_map)
  also have "\<dots> \<le> card (set (hg_active g))" by (rule card_mono) auto
  also have "\<dots> \<le> length (hg_active g)" by (rule card_length)
  finally have "length hold \<le> length (hg_active g)" .
  moreover have "\<forall>h \<in> never_cleared es. h \<in> set (hg_active g) \<longleftrightarrow> (\<exists>r \<in> set hold. gr_host r = h)"
  proof
    fix i assume "i \<in> never_cleared es"
    then have "i \<in> set (hg_active g) \<longleftrightarrow> i \<in> gr_host ` set hold" using sys unfolding h gate_system_ok_def by blast
    then show "i \<in> set (hg_active g) \<longleftrightarrow> (\<exists>r \<in> set hold. gr_host r = i)" by auto
  qed
  ultimately show ?thesis using ok sys unfolding h by (simp add: gate_ok_def gate_system_ok_def)
qed

theorem heartbeat_gate_exclusive_witness:
  "case gate_run default_gate_config
      [GateAcquire (JNum 4) False 100000, GateClear (JNum 5), GateAcquire (JNum 4) True 100001, GateRelease 0 100002, GateRelease 0 100003]
      of (g, grants) \<Rightarrow> int (length (hg_active g)) \<le> 8 \<and> distinct (hg_waiting g)"
proof -
  let ?es = "[GateAcquire (JNum 4) False 100000, GateClear (JNum 5), GateAcquire (JNum 4) True 100001, GateRelease 0 100002,
      GateRelease 0 100003]"
  obtain g grants where run: "gate_run default_gate_config ?es = (g, grants)" by fastforce
  with heartbeat_gate_exclusive [OF run] show ?thesis
    unfolding run by (simp add: default_gate_config_def)
qed

text \<open>
  Who is admitted.  A call is granted exactly when the host is a valid identifier that is not
  being reconciled, is outside its quiet period unless forced, a slot is free, and, once hosts that
  waited too long are dropped, either nobody waits or the host is first in the queue; a host that is
  turned away for lack of a slot or turn keeps or gets a place in the queue.
\<close>
theorem tryAcquire_decision:
  assumes "gate_ok cfg g0" "js_positive_int hv = Some h" "tryAcquire cfg t hv force g0 = (answer, g')"
  defines "g \<equiv> pruneWaiting cfg t g0"
  defines "refused \<equiv> h \<in> set (hg_active g0) \<or> \<not> force \<and> recently_completed cfg t h g0"
  shows "(answer \<noteq> None \<longleftrightarrow> \<not> refused \<and> int (length (hg_active g0)) < max 1 (gc_maxConcurrent cfg)
        \<and> (hg_waiting g = [] \<or> hd (hg_waiting g) = h))
    \<and> (answer = None \<and> \<not> refused \<longrightarrow> h \<in> set (hg_waiting g')
        \<and> (hg_waiting g' = hg_waiting g \<or> hg_waiting g' = hg_waiting g @ [h]) \<and> jm_get (hg_waitingSince g') h = Some t)"
proof -
  have ok: "gate_ok cfg g" unfolding g_def by (rule pruneWaiting_ok [OF assms(1)])
  have q: "jm_has (hg_waitingSince g) x \<longleftrightarrow> x \<in> set (hg_waiting g)" for x
    using ok by (simp add: gate_ok_def jm_has_iff)
  have hd: "hg_waiting g \<noteq> [] \<Longrightarrow> hd (hg_waiting g) \<in> set (hg_waiting g)" by simp
  have r: "(h \<in> set (hg_active g) \<or> \<not> force \<and> recently_completed cfg t h g) = refused"
    by (simp add: g_def refused_def recently_completed_def)
  have len: "length (hg_active g) = length (hg_active g0)" by (simp add: g_def)
  show ?thesis
    using assms(3) hd unfolding tryAcquire_def assms(2) option.case Let_def g_def [symmetric] r len q
    by (auto simp: gate_grant_def gate_enqueue_def q not_le split: if_splits)
qed

theorem tryAcquire_decision_witness:
  "tryAcquire default_gate_config 100000 (JNum 4) False empty_gate = (Some \<lparr>gr_host = 4, gr_token = 0\<rparr>,
      empty_gate\<lparr>hg_active := [4], hg_next := 1\<rparr>)
    \<and> fst (tryAcquire default_gate_config 100000 (JNum 4) False empty_gate) \<noteq> None"
proof -
  have ok: "gate_ok default_gate_config empty_gate"
    by (simp add: gate_ok_def empty_gate_def default_gate_config_def)
  have h: "js_positive_int (JNum 4) = Some 4" by simp
  show ?thesis
    using tryAcquire_decision [OF ok h surjective_pairing, of 100000 False]
    by (simp add: empty_gate_def default_gate_config_def tryAcquire_def pruneWaiting_def gate_grant_def
        recently_completed_def)
qed

lemma normalizedHash_idem: "normalizedHash (Some (normalizedHash v)) = normalizedHash v"
proof -
  have space: "js_space (js_lower_char c) = js_space c" for c
    by (auto simp: js_space_def js_lower_char_def Let_def of_char_of)
  have low: "js_lower_char (js_lower_char c) = js_lower_char c" for c
    by (auto simp: js_lower_char_def Let_def of_char_of)
  have dw: "dropWhile js_space (map js_lower_char s) = map js_lower_char (dropWhile js_space s)" for s
    by (induction s) (simp_all add: space)
  have trim: "js_trim (js_lower s) = js_lower (js_trim s)" for s
    unfolding js_trim_def js_lower_def by (simp add: dw rev_map)
  have tt: "js_trim (js_trim s) = js_trim s" for s
  proof -
    have d: "dropWhile js_space (dropWhile js_space s) = dropWhile js_space s" for s by (induction s) auto
    have front: "dropWhile js_space (rev (dropWhile js_space (rev (dropWhile js_space s))))
        = rev (dropWhile js_space (rev (dropWhile js_space s)))"
    proof (cases "dropWhile js_space s")
      case (Cons c r)
      then have "\<not> js_space c" by (metis dropWhile_eq_Cons_conv)
      then show ?thesis unfolding Cons by (auto simp: dropWhile_append dropWhile_eq_Nil_conv)
    next
      case Nil
      show ?thesis unfolding Nil by simp
    qed
    show ?thesis unfolding js_trim_def front by (simp add: d)
  qed
  have ll: "js_lower (js_lower s) = js_lower s" for s by (simp add: js_lower_def low)
  show ?thesis by (simp add: normalizedHash_def trim tt ll)
qed

text \<open>
  A stable plan is reused only for an unchanged agent.  \<open>match\<close> returns a plan exactly when one was
  remembered for the host, its audit interval has not passed, nothing urgent is pending, every
  signature and agent identity is the one the plan was made for, and the agent has received and
  applied the plan's revision and hash; what it returns is the remembered plan.
\<close>
theorem stable_plan_match:
  assumes "js_positive_int hv = Some h" "fst (plan_remember hv plan plans)"
  shows "plan_match audit t hv m (snd (plan_remember hv plan plans)) =
    (if t - sp_plannedAt plan < audit \<and> \<not> plan_blocked m
        \<and> normalizedHash (Some (sm_localStateSignature m)) = normalizedHash (Some (sp_localStateSignature plan))
        \<and> (\<forall>name \<in> set (jm_keys (sp_stateSignatures plan)).
              normalizedHash (jm_get (sm_stateSignatures m) name) = normalizedHash (jm_get (sp_stateSignatures plan) name))
        \<and> sm_agentVersion m = sp_agentVersion plan \<and> sm_agentBootId m = sp_agentBootId plan
        \<and> sm_agentProcessStartedAt m = sp_agentProcessStartedAt plan
        \<and> sm_defaultNetworkInterface m = sp_defaultNetworkInterface plan
        \<and> sm_pluginInventorySignature m = sp_pluginInventorySignature plan
        \<and> sm_mimicEnvironmentSignature m = sp_mimicEnvironmentSignature plan
        \<and> sm_agentLastReceivedRevision m = sp_configRevision plan
        \<and> sm_agentLastAppliedRevision m = sp_configRevision plan
        \<and> normalizedHash (Some (sm_agentLastReceivedHash m)) = normalizedHash (Some (sp_desiredStateHash plan))
        \<and> normalizedHash (Some (sm_agentLastAppliedHash m)) = normalizedHash (Some (sp_desiredStateHash plan))
     then Some (plan\<lparr>sp_desiredStateHash := normalizedHash (Some (sp_desiredStateHash plan)),
                     sp_localStateSignature := normalizedHash (Some (sp_localStateSignature plan))\<rparr>)
     else None)"
proof -
  have ne: "sp_stateSignatures plan \<noteq> []"
    and st: "snd (plan_remember hv plan plans) = jm_set h
      (plan\<lparr>sp_desiredStateHash := normalizedHash (Some (sp_desiredStateHash plan)),
            sp_localStateSignature := normalizedHash (Some (sp_localStateSignature plan))\<rparr>) plans"
    using assms by (auto simp: plan_remember_def split: if_splits)
  show ?thesis
    unfolding st plan_match_def assms(1) option.case jm_get_set
    by (auto simp: plan_environment_differs_def plan_acknowledgement_differs_def signaturesMatch_def ne
        list_all_iff not_le)
qed

definition sample_plan :: stable_plan where
  "sample_plan =
     \<lparr>sp_plannedAt = 1000, sp_configRevision = 4, sp_desiredStateHash = ''AB'', sp_localStateSignature = ''C'',
      sp_stateSignatures = [(''rules'', ''x'')], sp_agentVersion = ''1'', sp_agentBootId = ''b'',
      sp_agentProcessStartedAt = 5, sp_defaultNetworkInterface = ''eth0'', sp_pluginInventorySignature = [],
      sp_mimicEnvironmentSignature = [], sp_idleNextInterval = 60, sp_panelUrl = []\<rparr>"

definition sample_match :: stable_match where
  "sample_match =
     \<lparr>sm_forceReconcile = False, sm_hasBlockingWork = False, sm_recoveryTriggered = False,
      sm_addressChanged = False, sm_hasDnsChanges = False, sm_hasLocalStateUpload = False,
      sm_hasEndpointEvents = False, sm_localStateSignature = ''C'', sm_stateSignatures = [(''rules'', ''x'')],
      sm_agentVersion = ''1'', sm_agentBootId = ''b'', sm_agentProcessStartedAt = 5,
      sm_defaultNetworkInterface = ''eth0'', sm_pluginInventorySignature = [], sm_mimicEnvironmentSignature = [],
      sm_agentLastReceivedRevision = 4, sm_agentLastAppliedRevision = 4, sm_agentLastReceivedHash = ''AB'',
      sm_agentLastAppliedHash = ''AB''\<rparr>"

theorem stable_plan_match_witness:
  "plan_match 300000 2000 (JNum 7) sample_match (snd (plan_remember (JNum 7) sample_plan [])) \<noteq> None
    \<and> plan_match 300000 2000 (JNum 7) (sample_match\<lparr>sm_agentLastAppliedRevision := 3\<rparr>)
        (snd (plan_remember (JNum 7) sample_plan [])) = None"
proof -
  have h: "js_positive_int (JNum 7) = Some 7" by simp
  have ok: "fst (plan_remember (JNum 7) sample_plan [])" by (simp add: plan_remember_def sample_plan_def)
  show ?thesis unfolding stable_plan_match [OF h ok]
    by (simp add: sample_match_def sample_plan_def plan_blocked_def)
qed

text \<open>
  The heartbeat interval stays within bounds: 2 seconds while there is interactive work, otherwise
  between 3 and 60 seconds, at most 3 while metrics are watched, and never longer than any requested
  service probe interval (at least 5 seconds).
\<close>
theorem selectAgentHeartbeatInterval_bounds:
  "2 \<le> selectAgentHeartbeatInterval req tasks watch probes
    \<and> selectAgentHeartbeatInterval req tasks watch probes \<le> 60
    \<and> (req \<or> tasks \<longleftrightarrow> selectAgentHeartbeatInterval req tasks watch probes = 2)
    \<and> (watch \<longrightarrow> selectAgentHeartbeatInterval req tasks watch probes \<le> 3)
    \<and> (\<forall>v \<in> set probes. selectAgentHeartbeatInterval req tasks watch probes \<le> normalized_probe_seconds v)
    \<and> (\<not> req \<and> \<not> tasks \<and> \<not> watch \<and> (\<forall>v \<in> set probes. 60 \<le> normalized_probe_seconds v)
        \<longrightarrow> selectAgentHeartbeatInterval req tasks watch probes = 60)"
proof -
  have ge: "5 \<le> normalized_probe_seconds v" for v
    by (simp add: normalized_probe_seconds_def split: option.split)
  have f: "5 \<le> foldl (\<lambda>m v. min m (normalized_probe_seconds v)) a vs
      \<and> foldl (\<lambda>m v. min m (normalized_probe_seconds v)) a vs \<le> a
      \<and> (\<forall>v \<in> set vs. foldl (\<lambda>m v. min m (normalized_probe_seconds v)) a vs \<le> normalized_probe_seconds v)
      \<and> ((\<forall>v \<in> set vs. a \<le> normalized_probe_seconds v) \<longrightarrow>
           foldl (\<lambda>m v. min m (normalized_probe_seconds v)) a vs = a)" if "5 \<le> a" for a vs
    using that
  proof (induction vs arbitrary: a)
    case (Cons v vs)
    define b where "b = min a (normalized_probe_seconds v)"
    have b: "5 \<le> b" "b \<le> a" "b \<le> normalized_probe_seconds v" "a \<le> normalized_probe_seconds v \<Longrightarrow> b = a"
      using Cons.prems ge [of v] by (auto simp: b_def)
    have step: "foldl (\<lambda>m v. min m (normalized_probe_seconds v)) a (v # vs)
        = foldl (\<lambda>m v. min m (normalized_probe_seconds v)) b vs" by (simp add: b_def)
    show ?case unfolding step using Cons.IH [OF b(1)] b(2-4) by (auto intro: order_trans)
  qed simp
  note f60 = f [of idle_heartbeat_interval probes, unfolded idle_heartbeat_interval_def, simplified]
  show ?thesis
    using f60 by (auto simp: selectAgentHeartbeatInterval_def idle_heartbeat_interval_def Let_def min_def split: if_splits)
qed

theorem selectAgentHeartbeatInterval_bounds_witness:
  "selectAgentHeartbeatInterval False False False [JNum 20, JNull] = 20"
proof -
  have "normalized_probe_seconds (JNum 20) = 20" "normalized_probe_seconds JNull = 30"
    by (simp_all add: normalized_probe_seconds_def js_or_def)
  then show ?thesis
    using selectAgentHeartbeatInterval_bounds [of False False False "[JNum 20, JNull]"]
    by (simp add: selectAgentHeartbeatInterval_def idle_heartbeat_interval_def)
qed

end
