(* ===== verification/Tcping_Report_Gate.thy ===== *)
theory Tcping_Report_Gate
imports FX_Prelude "HOL-Library.List_Lexorder" "HOL-Library.Char_ord"
begin

text \<open>
  The steady-state gate for probe reports (\<open>server/agentTcpingReportGate.ts\<close>).  Agents repeat the same
  probe results every minute; the gate lets a unit (a rule, a tunnel topology, a forwarding group)
  through when its state changed or its steady interval has passed, and remembers what was accepted
  only when the caller commits the plan.  \<open>commit\<close> is a closure with a \<open>committed\<close> flag: the plan
  carries a number and \<open>tg_committed\<close> holds the numbers already committed.
\<close>

section \<open>Reports and keys\<close>

datatype report_kind = RuleKind | TunnelKind | GroupKind

record probe_report =
  rp_probeKey :: jsval
  rp_ruleId :: jsval
  rp_tunnelId :: jsval
  rp_groupId :: jsval
  rp_memberId :: jsval
  rp_targetIp :: jsval
  rp_targetPort :: jsval
  rp_method :: jsval
  rp_hopIndex :: jsval
  rp_hopCount :: jsval
  rp_seriesKey :: jsval
  rp_topologyKey :: jsval
  rp_probeCount :: jsval
  rp_probeSuccesses :: jsval
  rp_isTimeout :: bool
  rp_healthStatus :: jsval

record gate_state =
  gs_signature :: string
  gs_acceptedAt :: int
  gs_lastSeenAt :: int
  gs_sequence :: int

record gate_input =
  gi_hostId :: jsval
  gi_force :: bool
  gi_gateRules :: bool
  gi_results :: "probe_report list"
  gi_tunnels :: "probe_report list"
  gi_forwardGroups :: "probe_report list"
  gi_services :: "jsval list"

record gate_plan =
  gp_results :: "probe_report list"
  gp_tunnels :: "probe_report list"
  gp_forwardGroups :: "probe_report list"
  gp_services :: "jsval list"
  gp_transitionRuleIds :: "int list"
  gp_updates :: "(string \<times> gate_state) list"
  gp_number :: nat

record tcping_gate =
  tg_states :: "(string, gate_state) jmap"
  tg_sequence :: int
  tg_plans :: nat
  tg_committed :: "nat list"

definition empty_tcping_gate :: tcping_gate where
  "empty_tcping_gate = \<lparr>tg_states = [], tg_sequence = 0, tg_plans = 0, tg_committed = []\<rparr>"

definition tcping_steady_report_ms :: int where "tcping_steady_report_ms = 5 * 60 * 1000"
definition health_steady_report_ms :: int where "health_steady_report_ms = 60 * 1000"
definition tunnel_steady_report_ms :: int where "tunnel_steady_report_ms = 30 * 1000"
definition gate_state_ttl_ms :: int where "gate_state_ttl_ms = 30 * 60 * 1000"

definition report_text :: "jsval \<Rightarrow> string" where
  "report_text v = js_trim (if js_nullish v then [] else js_string v)"

definition report_integer :: "jsval \<Rightarrow> int" where
  "report_integer v = (case js_integer v of Some n \<Rightarrow> n | None \<Rightarrow> 0)"

fun kind_name :: "report_kind \<Rightarrow> string" where
  "kind_name RuleKind = ''rule''"
| "kind_name TunnelKind = ''tunnel''"
| "kind_name GroupKind = ''forwardGroup''"

definition probeStateKey :: "report_kind \<Rightarrow> probe_report \<Rightarrow> string" where
  "probeStateKey kind report =
     (let probeKey = report_text (rp_probeKey report) in
      if probeKey \<noteq> [] then probeKey
      else js_join CHR '':''
        [kind_name kind,
         int_to_str (report_integer (rp_ruleId report)),
         int_to_str (report_integer (rp_tunnelId report)),
         int_to_str (report_integer (rp_groupId report)),
         int_to_str (report_integer (rp_memberId report)),
         js_lower (report_text (rp_targetIp report)),
         int_to_str (report_integer (rp_targetPort report)),
         js_lower (report_text (rp_method report)),
         int_to_str (report_integer (rp_hopIndex report)),
         int_to_str (report_integer (rp_hopCount report)),
         js_lower (report_text (rp_seriesKey report))])"

fun reportUnitKey :: "int \<Rightarrow> report_kind \<Rightarrow> probe_report \<Rightarrow> string" where
  "reportUnitKey hostId RuleKind report =
     int_to_str hostId @ '':rule:'' @ int_to_str (report_integer (rp_ruleId report))"
| "reportUnitKey hostId TunnelKind report =
     int_to_str hostId @ '':tunnel:'' @ int_to_str (report_integer (rp_tunnelId report)) @ '':''
       @ report_text (rp_topologyKey report)"
| "reportUnitKey hostId GroupKind report =
     int_to_str hostId @ '':forward-group:'' @ int_to_str (report_integer (rp_groupId report)) @ '':''
       @ report_text (rp_topologyKey report)"

definition report_state_text :: "report_kind \<Rightarrow> probe_report \<Rightarrow> string" where
  "report_state_text kind report =
     (let probeCount = (case js_integer (rp_probeCount report) of Some n \<Rightarrow> n | None \<Rightarrow> 1);
          probeSuccesses = (case js_integer (rp_probeSuccesses report) of
              Some n \<Rightarrow> n | None \<Rightarrow> if rp_isTimeout report then 0 else probeCount)
      in probeStateKey kind report @ ''='' @ (if rp_isTimeout report then ''true'' else ''false'') @ '':''
           @ report_text (rp_healthStatus report) @ '':'' @ int_to_str probeCount @ ''/''
           @ int_to_str probeSuccesses)"

definition addUnits ::
  "int \<Rightarrow> report_kind \<Rightarrow> probe_report list \<Rightarrow> (string, string list) jmap \<Rightarrow> (string, string list) jmap" where
  "addUnits hostId kind reports units =
     foldl (\<lambda>u report.
        let key = reportUnitKey hostId kind report;
            vals = (case jm_get u key of Some vs \<Rightarrow> vs | None \<Rightarrow> [])
        in jm_set key (vals @ [report_state_text kind report]) u) units reports"

definition signaturesFor :: "(string, string list) jmap \<Rightarrow> (string, string) jmap" where
  "signaturesFor units = map (\<lambda>(key, vals). (key, js_join CHR ''|'' (sort vals))) units"

definition filterSelected :: "probe_report list \<Rightarrow> int \<Rightarrow> report_kind \<Rightarrow> string list \<Rightarrow> probe_report list" where
  "filterSelected reports hostId kind selected =
     filter (\<lambda>report. reportUnitKey hostId kind report \<in> set selected) reports"

section \<open>Planning\<close>

record plan_acc =
  ac_states :: "(string, gate_state) jmap"
  ac_sequence :: int
  ac_selected :: "string list"
  ac_transitions :: "string list"
  ac_updates :: "(string \<times> gate_state) list"

definition unit_interval :: "int \<Rightarrow> string list \<Rightarrow> string list \<Rightarrow> string \<Rightarrow> int" where
  "unit_interval steadyReportMs tunnelUnits healthUnits key =
     (if key \<in> set tunnelUnits then min steadyReportMs tunnel_steady_report_ms
      else if key \<in> set healthUnits then min steadyReportMs health_steady_report_ms
      else steadyReportMs)"

definition plan_unit ::
  "(string \<Rightarrow> int) \<Rightarrow> bool \<Rightarrow> int \<Rightarrow> plan_acc \<Rightarrow> string \<times> string \<Rightarrow> plan_acc" where
  "plan_unit interval force now acc entry =
     (let key = fst entry;
          signature = snd entry;
          previous = jm_get (ac_states acc) key;
          acc1 = (case previous of
              None \<Rightarrow> acc
            | Some p \<Rightarrow> acc\<lparr>ac_states := jm_set key (p\<lparr>gs_lastSeenAt := now\<rparr>) (ac_states acc)\<rparr>);
          transition = (case previous of None \<Rightarrow> True | Some p \<Rightarrow> gs_signature p \<noteq> signature);
          waits = (case previous of None \<Rightarrow> False | Some p \<Rightarrow> now - gs_acceptedAt p < interval key)
      in if \<not> force \<and> \<not> transition \<and> waits then acc1
         else
           (let sequence = ac_sequence acc1 + 1
            in acc1\<lparr>ac_sequence := sequence,
                    ac_selected := ac_selected acc1 @ [key],
                    ac_transitions := ac_transitions acc1 @ (if transition \<or> force then [key] else []),
                    ac_updates := ac_updates acc1 @
                      [(key, \<lparr>gs_signature = signature, gs_acceptedAt = now, gs_lastSeenAt = now,
                              gs_sequence = sequence\<rparr>)]\<rparr>))"

definition gate_units :: "gate_input \<Rightarrow> (string, string list) jmap" where
  "gate_units input =
     (let hostId = report_integer (gi_hostId input)
      in addUnits hostId GroupKind (gi_forwardGroups input)
           (addUnits hostId TunnelKind (gi_tunnels input)
             (if gi_gateRules input then addUnits hostId RuleKind (gi_results input) [] else [])))"

definition tunnel_units :: "gate_input \<Rightarrow> string list" where
  "tunnel_units input = map (reportUnitKey (report_integer (gi_hostId input)) TunnelKind) (gi_tunnels input)"

definition health_units :: "gate_input \<Rightarrow> string list" where
  "health_units input =
     (let hostId = report_integer (gi_hostId input);
          healthy = (\<lambda>report. report_text (rp_healthStatus report) \<noteq> [])
      in map (reportUnitKey hostId RuleKind) (filter healthy (gi_results input))
         @ map (reportUnitKey hostId GroupKind) (filter healthy (gi_forwardGroups input)))"

definition gate_plan_of :: "int \<Rightarrow> int \<Rightarrow> int \<Rightarrow> gate_input \<Rightarrow> tcping_gate \<Rightarrow> gate_plan \<times> tcping_gate" where
  "gate_plan_of steadyReportMs stateTtlMs now input g =
     (let hostId = report_integer (gi_hostId input);
          signatures = signaturesFor (gate_units input);
          interval = unit_interval steadyReportMs (tunnel_units input) (health_units input);
          alive = jm_prune (\<lambda>_ state. stateTtlMs < now - gs_lastSeenAt state) (tg_states g);
          acc = foldl (plan_unit interval (gi_force input) now)
            \<lparr>ac_states = alive, ac_sequence = tg_sequence g, ac_selected = [], ac_transitions = [],
             ac_updates = []\<rparr> signatures;
          selected = ac_selected acc;
          results = (if gi_gateRules input then filterSelected (gi_results input) hostId RuleKind selected
                     else gi_results input);
          transitionRuleIds = js_uniq (filter (\<lambda>ruleId. 0 < ruleId)
            (map (\<lambda>report. report_integer (rp_ruleId report))
              (filter (\<lambda>report. reportUnitKey hostId RuleKind report \<in> set (ac_transitions acc)) results)))
      in (\<lparr>gp_results = results,
           gp_tunnels = filterSelected (gi_tunnels input) hostId TunnelKind selected,
           gp_forwardGroups = filterSelected (gi_forwardGroups input) hostId GroupKind selected,
           gp_services = gi_services input,
           gp_transitionRuleIds = transitionRuleIds,
           gp_updates = ac_updates acc,
           gp_number = tg_plans g\<rparr>,
          g\<lparr>tg_states := ac_states acc, tg_sequence := ac_sequence acc, tg_plans := Suc (tg_plans g)\<rparr>))"

definition commit_update ::
  "(string, gate_state) jmap \<Rightarrow> string \<times> gate_state \<Rightarrow> (string, gate_state) jmap" where
  "commit_update states update =
     (case jm_get states (fst update) of
        Some current \<Rightarrow>
          if gs_sequence current < gs_sequence (snd update)
          then jm_set (fst update) (snd update) states else states
      | None \<Rightarrow> jm_set (fst update) (snd update) states)"

definition gate_commit :: "gate_plan \<Rightarrow> tcping_gate \<Rightarrow> tcping_gate" where
  "gate_commit plan g =
     (if gp_number plan \<in> set (tg_committed g) then g
      else g\<lparr>tg_committed := gp_number plan # tg_committed g,
             tg_states := foldl commit_update (tg_states g) (gp_updates plan)\<rparr>)"

section \<open>What a plan selects\<close>

definition unit_due :: "(string \<Rightarrow> int) \<Rightarrow> bool \<Rightarrow> int \<Rightarrow> gate_state option \<Rightarrow> string \<Rightarrow> string \<Rightarrow> bool" where
  "unit_due interval force now previous key signature =
     (force \<or> (case previous of
        None \<Rightarrow> True
      | Some p \<Rightarrow> gs_signature p \<noteq> signature \<or> interval key \<le> now - gs_acceptedAt p))"

lemma plan_unit_due:
  "plan_unit interval force now acc (key, signature) =
     (let acc1 = (case jm_get (ac_states acc) key of
              None \<Rightarrow> acc
            | Some p \<Rightarrow> acc\<lparr>ac_states := jm_set key (p\<lparr>gs_lastSeenAt := now\<rparr>) (ac_states acc)\<rparr>)
      in if unit_due interval force now (jm_get (ac_states acc) key) key signature
         then acc1\<lparr>ac_sequence := ac_sequence acc + 1,
                   ac_selected := ac_selected acc @ [key],
                   ac_transitions := ac_transitions acc @
                     (if force \<or> (case jm_get (ac_states acc) key of None \<Rightarrow> True | Some p \<Rightarrow> gs_signature p \<noteq> signature)
                      then [key] else []),
                   ac_updates := ac_updates acc @
                     [(key, \<lparr>gs_signature = signature, gs_acceptedAt = now, gs_lastSeenAt = now,
                             gs_sequence = ac_sequence acc + 1\<rparr>)]\<rparr>
         else acc1)"
  by (auto simp: plan_unit_def unit_due_def Let_def not_less split: option.split)

text \<open>Planning touches only the last-seen times of the remembered states.\<close>

definition seen_only :: "gate_state option \<Rightarrow> gate_state option \<Rightarrow> bool" where
  "seen_only a b =
     (case (a, b) of
        (None, None) \<Rightarrow> True
      | (Some x, Some y) \<Rightarrow> gs_signature x = gs_signature y \<and> gs_acceptedAt x = gs_acceptedAt y
          \<and> gs_sequence x = gs_sequence y
      | _ \<Rightarrow> False)"

lemma seen_only_refl [simp]: "seen_only a a"
  by (simp add: seen_only_def split: option.split)

lemma seen_only_trans: "seen_only a b \<Longrightarrow> seen_only b c \<Longrightarrow> seen_only a c"
  by (auto simp: seen_only_def split: option.splits)

lemma seen_only_due: "seen_only a b \<Longrightarrow> unit_due interval force now a key s = unit_due interval force now b key s"
  by (auto simp: seen_only_def unit_due_def split: option.splits)

lemma plan_unit_states:
  "seen_only (jm_get (ac_states acc) k) (jm_get (ac_states (plan_unit interval force now acc e)) k)"
  by (cases e) (auto simp: plan_unit_due Let_def seen_only_def split: option.splits)

lemma plan_fold:
  assumes "distinct (map fst sigs)" "acc' = foldl (plan_unit interval force now) acc sigs"
  shows "seen_only (jm_get (ac_states acc) k) (jm_get (ac_states acc') k)
    \<and> ac_selected acc' = ac_selected acc @ map fst (filter (\<lambda>(key, s).
        unit_due interval force now (jm_get (ac_states acc) key) key s) sigs)
    \<and> map (\<lambda>(key, u). (key, gs_signature u)) (ac_updates acc')
        = map (\<lambda>(key, u). (key, gs_signature u)) (ac_updates acc) @ filter (\<lambda>(key, s).
        unit_due interval force now (jm_get (ac_states acc) key) key s) sigs
    \<and> ac_sequence acc \<le> ac_sequence acc'
    \<and> (\<forall>u \<in> set (ac_updates acc'). u \<in> set (ac_updates acc) \<or>
        ac_sequence acc < gs_sequence (snd u) \<and> gs_sequence (snd u) \<le> ac_sequence acc' \<and> gs_acceptedAt (snd u) = now)"
  using assms
proof (induction sigs arbitrary: acc acc' k)
  case Nil
  then show ?case by simp
next
  case (Cons e sigs)
  obtain key s where e: "e = (key, s)" by (cases e)
  define acc1 where "acc1 = plan_unit interval force now acc e"
  have so: "seen_only (jm_get (ac_states acc) k) (jm_get (ac_states acc1) k)" for k
    unfolding acc1_def by (rule plan_unit_states)
  have d1: "unit_due interval force now (jm_get (ac_states acc1) x) x y
      = unit_due interval force now (jm_get (ac_states acc) x) x y" for x y
    using seen_only_due [OF so] by simp
  have IH: "\<And>k. seen_only (jm_get (ac_states acc1) k) (jm_get (ac_states (foldl (plan_unit interval force now) acc1 sigs)) k)"
    "ac_selected (foldl (plan_unit interval force now) acc1 sigs) = ac_selected acc1 @ map fst (filter (\<lambda>(key, s).
        unit_due interval force now (jm_get (ac_states acc) key) key s) sigs)"
    "map (\<lambda>(key, u). (key, gs_signature u)) (ac_updates (foldl (plan_unit interval force now) acc1 sigs))
        = map (\<lambda>(key, u). (key, gs_signature u)) (ac_updates acc1) @ filter (\<lambda>(key, s).
        unit_due interval force now (jm_get (ac_states acc) key) key s) sigs"
    "ac_sequence acc1 \<le> ac_sequence (foldl (plan_unit interval force now) acc1 sigs)"
    "\<forall>u \<in> set (ac_updates (foldl (plan_unit interval force now) acc1 sigs)). u \<in> set (ac_updates acc1) \<or>
        ac_sequence acc1 < gs_sequence (snd u)
        \<and> gs_sequence (snd u) \<le> ac_sequence (foldl (plan_unit interval force now) acc1 sigs) \<and> gs_acceptedAt (snd u) = now"
    using Cons.IH [OF _ refl, of acc1] Cons.prems(1) by (simp_all add: d1)
  have step: "ac_selected acc1 = ac_selected acc @
        (if unit_due interval force now (jm_get (ac_states acc) key) key s then [key] else [])"
    "map (\<lambda>(key, u). (key, gs_signature u)) (ac_updates acc1) = map (\<lambda>(key, u). (key, gs_signature u)) (ac_updates acc) @
        (if unit_due interval force now (jm_get (ac_states acc) key) key s then [(key, s)] else [])"
    "ac_sequence acc \<le> ac_sequence acc1"
    "\<forall>u \<in> set (ac_updates acc1). u \<in> set (ac_updates acc) \<or>
        ac_sequence acc < gs_sequence (snd u) \<and> gs_sequence (snd u) \<le> ac_sequence acc1 \<and> gs_acceptedAt (snd u) = now"
    by (auto simp: acc1_def e plan_unit_due Let_def split: option.split)
  have F: "acc' = foldl (plan_unit interval force now) acc1 sigs"
    by (simp add: Cons.prems(2) acc1_def)
  note IH = IH [folded F]
  show ?case
  proof (intro conjI ballI)
    show "seen_only (jm_get (ac_states acc) k) (jm_get (ac_states acc') k)"
      by (rule seen_only_trans [OF so IH(1)])
    show "ac_selected acc' = ac_selected acc @ map fst (filter (\<lambda>(key, s).
        unit_due interval force now (jm_get (ac_states acc) key) key s) (e # sigs))"
      using IH(2) step(1) by (simp add: e)
    show "map (\<lambda>(key, u). (key, gs_signature u)) (ac_updates acc')
        = map (\<lambda>(key, u). (key, gs_signature u)) (ac_updates acc) @ filter (\<lambda>(key, s).
        unit_due interval force now (jm_get (ac_states acc) key) key s) (e # sigs)"
      using IH(3) step(2) by (simp add: e)
    show "ac_sequence acc \<le> ac_sequence acc'" using IH(4) step(3) by linarith
    fix u assume u: "u \<in> set (ac_updates acc')"
    show "u \<in> set (ac_updates acc) \<or>
        ac_sequence acc < gs_sequence (snd u) \<and> gs_sequence (snd u) \<le> ac_sequence acc' \<and> gs_acceptedAt (snd u) = now"
    proof (cases "u \<in> set (ac_updates acc1)")
      case True
      with step(4) IH(4) show ?thesis by fastforce
    next
      case False
      with IH(5) u have "ac_sequence acc1 < gs_sequence (snd u)" "gs_sequence (snd u) \<le> ac_sequence acc'"
        "gs_acceptedAt (snd u) = now" by auto
      with step(3) show ?thesis by linarith
    qed
  qed
qed

lemma distinct_addUnits: "jm_ok units \<Longrightarrow> jm_ok (addUnits hostId kind reports units)"
  unfolding addUnits_def Let_def by (induction reports arbitrary: units) simp_all

lemma distinct_signatures: "distinct (map fst (signaturesFor (gate_units input)))"
proof -
  have "jm_ok (gate_units input)" by (simp add: gate_units_def Let_def distinct_addUnits)
  then show ?thesis by (simp add: signaturesFor_def jm_ok_def comp_def case_prod_unfold)
qed

definition gate_alive :: "int \<Rightarrow> int \<Rightarrow> tcping_gate \<Rightarrow> (string, gate_state) jmap" where
  "gate_alive stateTtlMs now g = jm_prune (\<lambda>_ state. stateTtlMs < now - gs_lastSeenAt state) (tg_states g)"

definition input_interval :: "int \<Rightarrow> gate_input \<Rightarrow> string \<Rightarrow> int" where
  "input_interval steadyReportMs input = unit_interval steadyReportMs (tunnel_units input) (health_units input)"

text \<open>The units of a plan's updates, with the signatures they record.\<close>

definition due_units :: "int \<Rightarrow> int \<Rightarrow> int \<Rightarrow> gate_input \<Rightarrow> tcping_gate \<Rightarrow> (string \<times> string) list" where
  "due_units steadyReportMs stateTtlMs now input g =
     filter (\<lambda>(key, s). unit_due (input_interval steadyReportMs input) (gi_force input) now
         (jm_get (gate_alive stateTtlMs now g) key) key s) (signaturesFor (gate_units input))"

lemma gate_plan_facts:
  assumes "gate_plan_of steady ttl now input g = (plan, g')"
  shows "gp_tunnels plan = filterSelected (gi_tunnels input) (report_integer (gi_hostId input)) TunnelKind
        (map fst (due_units steady ttl now input g))"
    "gp_forwardGroups plan = filterSelected (gi_forwardGroups input) (report_integer (gi_hostId input)) GroupKind
        (map fst (due_units steady ttl now input g))"
    "gp_results plan = (if gi_gateRules input
        then filterSelected (gi_results input) (report_integer (gi_hostId input)) RuleKind
          (map fst (due_units steady ttl now input g)) else gi_results input)"
    "map (\<lambda>(key, u). (key, gs_signature u)) (gp_updates plan) = due_units steady ttl now input g"
    "seen_only (jm_get (gate_alive ttl now g) k) (jm_get (tg_states g') k)"
    "tg_sequence g \<le> tg_sequence g'"
    "u \<in> set (gp_updates plan) \<Longrightarrow> tg_sequence g < gs_sequence (snd u) \<and> gs_sequence (snd u) \<le> tg_sequence g'
       \<and> gs_acceptedAt (snd u) = now"
    "gp_services plan = gi_services input" "gp_number plan = tg_plans g" "tg_plans g' = Suc (tg_plans g)"
    "tg_committed g' = tg_committed g"
proof -
  define acc where "acc = foldl (plan_unit (input_interval steady input) (gi_force input) now)
      \<lparr>ac_states = gate_alive ttl now g, ac_sequence = tg_sequence g, ac_selected = [], ac_transitions = [],
       ac_updates = []\<rparr> (signaturesFor (gate_units input))"
  note f = plan_fold [OF distinct_signatures acc_def]
  have sel: "ac_selected acc = map fst (due_units steady ttl now input g)"
    and upd: "map (\<lambda>(key, u). (key, gs_signature u)) (ac_updates acc) = due_units steady ttl now input g"
    using f by (simp_all add: due_units_def)
  have g': "g' = g\<lparr>tg_states := ac_states acc, tg_sequence := ac_sequence acc, tg_plans := Suc (tg_plans g)\<rparr>"
    and pl: "gp_updates plan = ac_updates acc" "gp_services plan = gi_services input" "gp_number plan = tg_plans g"
      "gp_tunnels plan = filterSelected (gi_tunnels input) (report_integer (gi_hostId input)) TunnelKind (ac_selected acc)"
      "gp_forwardGroups plan = filterSelected (gi_forwardGroups input) (report_integer (gi_hostId input)) GroupKind (ac_selected acc)"
      "gp_results plan = (if gi_gateRules input
        then filterSelected (gi_results input) (report_integer (gi_hostId input)) RuleKind (ac_selected acc)
        else gi_results input)"
    using assms unfolding gate_plan_of_def Let_def gate_alive_def [symmetric] input_interval_def [symmetric]
      acc_def [symmetric] by auto
  show "gp_tunnels plan = filterSelected (gi_tunnels input) (report_integer (gi_hostId input)) TunnelKind
        (map fst (due_units steady ttl now input g))"
    "gp_forwardGroups plan = filterSelected (gi_forwardGroups input) (report_integer (gi_hostId input)) GroupKind
        (map fst (due_units steady ttl now input g))"
    "gp_results plan = (if gi_gateRules input
        then filterSelected (gi_results input) (report_integer (gi_hostId input)) RuleKind
          (map fst (due_units steady ttl now input g)) else gi_results input)"
    "map (\<lambda>(key, u). (key, gs_signature u)) (gp_updates plan) = due_units steady ttl now input g"
    "gp_services plan = gi_services input" "gp_number plan = tg_plans g" "tg_plans g' = Suc (tg_plans g)"
    "tg_committed g' = tg_committed g"
    using pl sel upd by (simp_all add: g')
  show "seen_only (jm_get (gate_alive ttl now g) k) (jm_get (tg_states g') k)"
    using f [where k = k] by (simp add: g')
  show "tg_sequence g \<le> tg_sequence g'" using f by (simp add: g')
  show "u \<in> set (gp_updates plan) \<Longrightarrow> tg_sequence g < gs_sequence (snd u) \<and> gs_sequence (snd u) \<le> tg_sequence g'
       \<and> gs_acceptedAt (snd u) = now"
    using f by (simp add: g' pl(1))
qed

lemma keys_addUnits:
  "set (jm_keys (addUnits hostId kind reports units)) =
     set (jm_keys units) \<union> reportUnitKey hostId kind ` set reports"
proof (induction reports arbitrary: units)
  case (Cons r reports)
  have "addUnits hostId kind (r # reports) units = addUnits hostId kind reports
      (jm_set (reportUnitKey hostId kind r)
        ((case jm_get units (reportUnitKey hostId kind r) of Some vs \<Rightarrow> vs | None \<Rightarrow> [])
          @ [report_state_text kind r]) units)"
    by (simp add: addUnits_def Let_def)
  then show ?case using Cons.IH by (simp only: jm_keys_set) auto
qed (simp add: addUnits_def)

lemma signature_exists:
  "k \<in> set (jm_keys (gate_units input)) \<Longrightarrow> \<exists>sig. jm_get (signaturesFor (gate_units input)) k = Some sig"
  by (cases "jm_get (gate_units input) k") (simp_all add: signaturesFor_def map_of_map jm_get_None_iff)

lemma due_units_member:
  assumes "jm_get (signaturesFor (gate_units input)) key = Some sig"
  shows "key \<in> set (map fst (due_units steady ttl now input g)) \<longleftrightarrow>
    unit_due (input_interval steady input) (gi_force input) now (jm_get (gate_alive ttl now g) key) key sig"
proof -
  have "(key, s) \<in> set (signaturesFor (gate_units input)) \<longleftrightarrow> s = sig" for s
  proof -
    have ok: "jm_ok (signaturesFor (gate_units input))" using distinct_signatures by (simp add: jm_ok_def)
    show ?thesis using jm_in_set_get [OF ok, of key s] jm_get_in_set [OF assms] assms by auto
  qed
  then have "key \<in> set (map fst (filter P (signaturesFor (gate_units input)))) \<longleftrightarrow> P (key, sig)" for P
    by (auto simp: image_iff intro: bexI [of _ "(key, sig)"])
  then show ?thesis unfolding due_units_def by simp
qed

lemma commit_fold:
  assumes "distinct (map fst us)"
  shows "jm_get (foldl commit_update states us) k =
    (case jm_get us k of
       None \<Rightarrow> jm_get states k
     | Some u \<Rightarrow> (case jm_get states k of
           Some c \<Rightarrow> if gs_sequence c < gs_sequence u then Some u else Some c
         | None \<Rightarrow> Some u))"
  using assms
proof (induction us arbitrary: states)
  case (Cons e us)
  have "jm_get us (fst e) = None" using Cons.prems by (simp add: jm_get_None_iff)
  with Cons show ?case
    by (cases e) (auto simp: commit_update_def split: option.splits)
qed simp

definition sequence_ok :: "tcping_gate \<Rightarrow> bool" where
  "sequence_ok g =
     (jm_ok (tg_states g) \<and> (\<forall>k s. jm_get (tg_states g) k = Some s \<longrightarrow> gs_sequence s \<le> tg_sequence g))"

lemma updates_of_due:
  assumes "gate_plan_of steady ttl now input g = (plan, g')" "(key, sig) \<in> set (due_units steady ttl now input g)"
  shows "\<exists>u. jm_get (gp_updates plan) key = Some u \<and> gs_signature u = sig" "distinct (map fst (gp_updates plan))"
proof -
  note f = gate_plan_facts [OF assms(1)]
  have keys: "map fst (gp_updates plan) = map fst (due_units steady ttl now input g)"
    unfolding f(4) [symmetric] by (simp add: comp_def case_prod_unfold)
  have "distinct (map fst (due_units steady ttl now input g))"
    unfolding due_units_def by (rule distinct_map_filter [OF distinct_signatures])
  then show d: "distinct (map fst (gp_updates plan))" using keys by simp
  obtain u where "(key, u) \<in> set (gp_updates plan)" "gs_signature u = sig"
    using assms(2) unfolding f(4) [symmetric] by auto
  then show "\<exists>u. jm_get (gp_updates plan) key = Some u \<and> gs_signature u = sig"
    using d jm_in_set_get [of "gp_updates plan" key u] by (auto simp: jm_ok_def)
qed

lemma alive_get:
  "jm_ok (tg_states g) \<Longrightarrow> jm_get (gate_alive ttl now g) k =
     (case jm_get (tg_states g) k of None \<Rightarrow> None
      | Some s \<Rightarrow> if ttl < now - gs_lastSeenAt s then None else Some s)"
  by (simp add: gate_alive_def jm_get_prune)

lemma jm_ok_commit: "jm_ok states \<Longrightarrow> jm_ok (foldl commit_update states us)"
  by (induction us arbitrary: states) (auto simp: commit_update_def split: option.split)

lemma plan_fold_extra:
  "jm_ok (ac_states acc) \<Longrightarrow> \<forall>u \<in> set (ac_updates acc). gs_lastSeenAt (snd u) = now \<Longrightarrow>
   jm_ok (ac_states (foldl (plan_unit interval force now) acc sigs))
     \<and> (\<forall>u \<in> set (ac_updates (foldl (plan_unit interval force now) acc sigs)). gs_lastSeenAt (snd u) = now)"
proof (induction sigs arbitrary: acc)
  case (Cons e sigs)
  obtain key s where e: "e = (key, s)" by (cases e)
  have "jm_ok (ac_states (plan_unit interval force now acc e))"
    "\<forall>u \<in> set (ac_updates (plan_unit interval force now acc e)). gs_lastSeenAt (snd u) = now"
    using Cons.prems by (auto simp: e plan_unit_due Let_def split: option.split)
  with Cons.IH show ?case by simp
qed simp

lemma gate_plan_extra:
  assumes "gate_plan_of steady ttl now input g = (plan, g1)" "jm_ok (tg_states g)"
  shows gate_plan_jm_ok: "jm_ok (tg_states g1)"
    and "\<forall>u \<in> set (gp_updates plan). gs_lastSeenAt (snd u) = now"
  using plan_fold_extra [of "\<lparr>ac_states = gate_alive ttl now g, ac_sequence = tg_sequence g, ac_selected = [],
       ac_transitions = [], ac_updates = []\<rparr>" now "input_interval steady input" "gi_force input"
       "signaturesFor (gate_units input)"] assms
  unfolding gate_plan_of_def Let_def gate_alive_def [symmetric] input_interval_def [symmetric]
  by (auto simp: gate_alive_def jm_ok_prune)

section \<open>Properties\<close>

text \<open>
  The gate never hides a change.  A tunnel report is forwarded exactly when its unit is due: the
  input is forced, nothing is remembered for the unit, its signature differs from the accepted one, or
  30 seconds (or the steady interval, if shorter) have passed; a rule or group report likewise with its
  interval, rules ungated when the caller says so; host service results always pass; and planning alone
  changes nothing that is remembered except last-seen times, so a lost report is offered again.
\<close>
theorem gate_plan_selects:
  assumes "gate_plan_of steady ttl now input g = (plan, g')" "report \<in> set (gi_tunnels input)"
    "rule \<in> set (gi_results input)"
  defines "hostId \<equiv> report_integer (gi_hostId input)"
  defines "due \<equiv> (\<lambda>key sig. unit_due (input_interval steady input) (gi_force input) now
      (jm_get (gate_alive ttl now g) key) key sig)"
  shows "(\<exists>sig. jm_get (signaturesFor (gate_units input)) (reportUnitKey hostId TunnelKind report) = Some sig
        \<and> (report \<in> set (gp_tunnels plan) \<longleftrightarrow> due (reportUnitKey hostId TunnelKind report) sig))
    \<and> input_interval steady input (reportUnitKey hostId TunnelKind report) = min steady 30000
    \<and> (if gi_gateRules input
       then \<exists>sig. jm_get (signaturesFor (gate_units input)) (reportUnitKey hostId RuleKind rule) = Some sig
         \<and> (rule \<in> set (gp_results plan) \<longleftrightarrow> due (reportUnitKey hostId RuleKind rule) sig)
       else gp_results plan = gi_results input)
    \<and> gp_services plan = gi_services input
    \<and> (\<forall>k. seen_only (jm_get (gate_alive ttl now g) k) (jm_get (tg_states g') k))"
proof -
  note f = gate_plan_facts [OF assms(1)]
  let ?tk = "reportUnitKey hostId TunnelKind report" and ?rk = "reportUnitKey hostId RuleKind rule"
  have tk: "?tk \<in> set (jm_keys (gate_units input))"
    using assms(2) by (simp add: gate_units_def keys_addUnits hostId_def Let_def del: set_map)
  have rk: "?rk \<in> set (jm_keys (gate_units input))" if "gi_gateRules input"
    using assms(3) that by (simp add: gate_units_def keys_addUnits hostId_def Let_def del: set_map)
  obtain ts where ts: "jm_get (signaturesFor (gate_units input)) ?tk = Some ts"
    using signature_exists [OF tk] by blast
  have "report \<in> set (gp_tunnels plan) \<longleftrightarrow> due ?tk ts"
    unfolding f(1) filterSelected_def due_def due_units_member [OF ts, symmetric] using assms(2)
    by (simp add: hostId_def)
  moreover have "input_interval steady input ?tk = min steady 30000"
    using assms(2) by (simp add: input_interval_def unit_interval_def tunnel_units_def hostId_def
        tunnel_steady_report_ms_def)
  moreover have "if gi_gateRules input
       then \<exists>sig. jm_get (signaturesFor (gate_units input)) ?rk = Some sig \<and> (rule \<in> set (gp_results plan) \<longleftrightarrow> due ?rk sig)
       else gp_results plan = gi_results input"
  proof (cases "gi_gateRules input")
    case True
    obtain rs where rs: "jm_get (signaturesFor (gate_units input)) ?rk = Some rs"
      using signature_exists [OF rk [OF True]] by blast
    have "rule \<in> set (gp_results plan) \<longleftrightarrow> due ?rk rs"
      unfolding f(3) filterSelected_def due_def due_units_member [OF rs, symmetric] using assms(3) True
      by (simp add: hostId_def)
    with rs True show ?thesis by auto
  next
    case False
    then show ?thesis using f(3) by simp
  qed
  ultimately show ?thesis using ts f(5,8) by blast
qed

definition sample_probe :: probe_report where
  "sample_probe = \<lparr>rp_probeKey = JUndef, rp_ruleId = JNum 1, rp_tunnelId = JNum 2, rp_groupId = JUndef,
     rp_memberId = JUndef, rp_targetIp = JUndef, rp_targetPort = JUndef, rp_method = JUndef, rp_hopIndex = JUndef,
     rp_hopCount = JUndef, rp_seriesKey = JUndef, rp_topologyKey = JUndef, rp_probeCount = JUndef,
     rp_probeSuccesses = JUndef, rp_isTimeout = False, rp_healthStatus = JUndef\<rparr>"

definition sample_gate_input :: gate_input where
  "sample_gate_input = \<lparr>gi_hostId = JNum 9, gi_force = False, gi_gateRules = True, gi_results = [sample_probe],
     gi_tunnels = [sample_probe], gi_forwardGroups = [], gi_services = []\<rparr>"

theorem gate_plan_selects_witness:
  "sample_probe \<in> set (gp_tunnels (fst (gate_plan_of 300000 1800000 1000 sample_gate_input empty_tcping_gate)))"
proof -
  have m: "sample_probe \<in> set (gi_tunnels sample_gate_input)" "sample_probe \<in> set (gi_results sample_gate_input)"
    by (simp_all add: sample_gate_input_def)
  show ?thesis
    using gate_plan_selects [OF surjective_pairing m, of 300000 1800000 1000 empty_tcping_gate]
    by (auto simp: unit_due_def gate_alive_def empty_tcping_gate_def jm_prune_def)
qed

text \<open>
  An accepted unit stays quiet for its interval and no longer.  Once a plan that accepted a unit
  is committed, a later input about the unit is due exactly when it is forced, its signature changed, or
  the interval since the acceptance has passed, as long as the state has not expired; committing the
  same plan twice is committing it once.
\<close>
theorem gate_next_report:
  assumes "gate_plan_of steady ttl now input g = (plan, g1)" "sequence_ok g"
    "tg_plans g \<notin> set (tg_committed g)" "(key, sig) \<in> set (due_units steady ttl now input g)"
    "jm_get (signaturesFor (gate_units later)) key = Some sig'" "now' - now \<le> ttl"
  shows "(key \<in> set (map fst (due_units steady ttl now' later (gate_commit plan g1)))
      \<longleftrightarrow> gi_force later \<or> sig' \<noteq> sig \<or> input_interval steady later key \<le> now' - now)
    \<and> gate_commit plan (gate_commit plan g1) = gate_commit plan g1"
proof -
  note f = gate_plan_facts [OF assms(1)]
  obtain u where u: "jm_get (gp_updates plan) key = Some u" "gs_signature u = sig"
    and d: "distinct (map fst (gp_updates plan))"
    using updates_of_due [OF assms(1,4)] by blast
  have uu: "tg_sequence g < gs_sequence u" "gs_acceptedAt u = now"
    using f(7) [OF jm_get_in_set [OF u(1)]] by auto
  have seen: "gs_lastSeenAt u = now"
    using gate_plan_extra(2) [OF assms(1)] assms(2) jm_get_in_set [OF u(1)] by (auto simp: sequence_ok_def)
  have new: "gp_number plan \<notin> set (tg_committed g1)" using f(9,11) assms(3) by simp
  let ?g2 = "gate_commit plan g1"
  have jm1: "jm_ok (tg_states g1)" by (rule gate_plan_jm_ok [OF assms(1)]) (use assms(2) in \<open>simp add: sequence_ok_def\<close>)
  have older: "gs_sequence c \<le> tg_sequence g" if "jm_get (tg_states g1) key = Some c" for c
    using f(5) [of key] that assms(2)
    by (auto simp: seen_only_def alive_get sequence_ok_def split: option.splits if_splits dest!: spec [of _ key])
  have get2: "jm_get (tg_states ?g2) key = Some u"
    using new older uu(1) u(1) by (fastforce simp: gate_commit_def commit_fold [OF d] split: option.split)
  have jm2: "jm_ok (tg_states ?g2)" by (simp add: gate_commit_def jm_ok_commit jm1)
  have "jm_get (gate_alive ttl now' ?g2) key = Some u"
    unfolding alive_get [OF jm2] get2 using assms(6) seen by simp
  then have "key \<in> set (map fst (due_units steady ttl now' later ?g2))
      \<longleftrightarrow> gi_force later \<or> sig' \<noteq> sig \<or> input_interval steady later key \<le> now' - now"
    unfolding due_units_member [OF assms(5)] using u(2) uu(2) by (auto simp: unit_due_def)
  then show ?thesis by (simp add: gate_commit_def)
qed

theorem gate_next_report_witness:
  "\<exists>key. key \<in> set (map fst (due_units 300000 1800000 1000 sample_gate_input empty_tcping_gate))
    \<and> key \<notin> set (map fst (due_units 300000 1800000 2000 sample_gate_input
        (gate_commit (fst (gate_plan_of 300000 1800000 1000 sample_gate_input empty_tcping_gate))
           (snd (gate_plan_of 300000 1800000 1000 sample_gate_input empty_tcping_gate)))))"
proof -
  define key where "key = reportUnitKey 9 TunnelKind sample_probe"
  have host: "report_integer (gi_hostId sample_gate_input) = 9"
    by (simp add: sample_gate_input_def report_integer_def)
  have "key \<in> set (jm_keys (gate_units sample_gate_input))"
    by (simp add: key_def gate_units_def keys_addUnits host Let_def del: set_map) (simp add: sample_gate_input_def)
  then obtain sig where sig: "jm_get (signaturesFor (gate_units sample_gate_input)) key = Some sig"
    using signature_exists by blast
  have due: "unit_due i f t (jm_get (gate_alive ttl t empty_tcping_gate) k) k s" for i f t ttl k s
    by (simp add: unit_due_def gate_alive_def empty_tcping_gate_def jm_prune_def)
  have first: "(key, sig) \<in> set (due_units 300000 1800000 1000 sample_gate_input empty_tcping_gate)"
    using jm_get_in_set [OF sig] due by (simp add: due_units_def)
  have interval: "input_interval 300000 sample_gate_input key = 30000"
    by (simp add: input_interval_def unit_interval_def tunnel_units_def key_def host tunnel_steady_report_ms_def)
      (simp add: sample_gate_input_def)
  have ok: "sequence_ok empty_tcping_gate" "tg_plans empty_tcping_gate \<notin> set (tg_committed empty_tcping_gate)"
    by (simp_all add: sequence_ok_def empty_tcping_gate_def)
  have "key \<in> set (map fst (due_units 300000 1800000 1000 sample_gate_input empty_tcping_gate))"
    using first by (force simp: image_iff)
  moreover have "\<not> gi_force sample_gate_input" by (simp add: sample_gate_input_def)
  ultimately show ?thesis
    using gate_next_report [OF surjective_pairing ok first sig, of 2000] interval
    by (intro exI [of _ key]) simp
qed

end
