(* ===== verification/Auth_Limits.thy ===== *)
theory Auth_Limits
imports FX_Prelude
begin

text \<open>
  Attempt limits: the bounded maps of \<open>server/boundedCache.ts\<close>, the sliding-window limiter of
  \<open>server/ai/rateLimiter.ts\<close>, the failure counters of \<open>server/authRateLimit.ts\<close> and the two-factor
  challenges of \<open>server/twoFactorChallenges.ts\<close>.  The argument that no window of time admits more than
  the limit is made once, in the locale \<open>sliding_log\<close>, and interpreted for the limiter and for the
  challenge issue log.
\<close>

section \<open>Bounded maps\<close>

fun evict_oldest :: "nat \<Rightarrow> ('k, 'v) jmap \<Rightarrow> ('k, 'v) jmap" where
  "evict_oldest cap [] = []"
| "evict_oldest cap (e # m) = (if cap \<le> length (e # m) then evict_oldest cap m else e # m)"

definition setBoundedMapValue :: "('k, 'v) jmap \<Rightarrow> 'k \<Rightarrow> 'v \<Rightarrow> int \<Rightarrow> ('k, 'v) jmap" where
  "setBoundedMapValue m key v maxSize =
     (let m1 = (if jm_has m key then jm_del key m else m)
      in jm_set key v (evict_oldest (nat (max 1 maxSize)) m1))"

definition pruneMapEntries :: "('v \<Rightarrow> 'k \<Rightarrow> bool) \<Rightarrow> ('k, 'v) jmap \<Rightarrow> nat \<times> ('k, 'v) jmap" where
  "pruneMapEntries shouldDelete m =
     (length (filter (\<lambda>(k, v). shouldDelete v k) m), jm_prune (\<lambda>k v. shouldDelete v k) m)"

section \<open>The sliding-window limiter\<close>

record limiter =
  sl_limit :: nat
  sl_windowMs :: int
  sl_maxKeys :: nat
  sl_events :: "(string, int list) jmap"

record rate_result =
  rr_allowed :: bool
  rr_remaining :: nat
  rr_retryAfterMs :: int

definition new_limiter :: "rat \<Rightarrow> rat \<Rightarrow> rat option \<Rightarrow> limiter" where
  "new_limiter limit windowMs maxKeys =
     \<lparr>sl_limit = nat (max 1 \<lfloor>limit\<rfloor>),
      sl_windowMs = max 1000 \<lfloor>windowMs\<rfloor>,
      sl_maxKeys = nat (max 100 (case maxKeys of None \<Rightarrow> 10000 | Some k \<Rightarrow> if k = 0 then 10000 else \<lfloor>k\<rfloor>)),
      sl_events = []\<rparr>"

definition limiter_key :: "jsval \<Rightarrow> string" where
  "limiter_key keyValue =
     (let key = js_trim (js_string (js_or keyValue (JStr ''''))) in if key = [] then ''anonymous'' else key)"

definition active_times :: "int \<Rightarrow> int list \<Rightarrow> int list" where
  "active_times cutoff ts = filter (\<lambda>timestamp. cutoff < timestamp) ts"

text \<open>
  The pruning loop, with the entries already visited first; it stops as soon as the map is small
  enough, and otherwise the oldest keys are dropped.
\<close>

fun prune_scan ::
  "int \<Rightarrow> nat \<Rightarrow> (string, int list) jmap \<Rightarrow> (string, int list) jmap \<Rightarrow> (string, int list) jmap" where
  "prune_scan cutoff maxKeys visited [] = visited"
| "prune_scan cutoff maxKeys visited ((key, timestamps) # rest) =
     (let active = active_times cutoff timestamps;
          visited' = (if active = [] then visited else visited @ [(key, active)])
      in if length visited' + length rest \<le> maxKeys then visited' @ rest
         else prune_scan cutoff maxKeys visited' rest)"

definition pruneIfNeeded :: "int \<Rightarrow> nat \<Rightarrow> (string, int list) jmap \<Rightarrow> (string, int list) jmap" where
  "pruneIfNeeded cutoff maxKeys events =
     (if length events \<le> maxKeys then events
      else evict_oldest (Suc maxKeys) (prune_scan cutoff maxKeys [] events))"

definition consume_key :: "int \<Rightarrow> string \<Rightarrow> limiter \<Rightarrow> rate_result \<times> limiter" where
  "consume_key now key l =
     (let cutoff = now - sl_windowMs l;
          current = active_times cutoff (case jm_get (sl_events l) key of Some ts \<Rightarrow> ts | None \<Rightarrow> [])
      in if sl_limit l \<le> length current
         then (\<lparr>rr_allowed = False, rr_remaining = 0, rr_retryAfterMs = max 1 (hd current + sl_windowMs l - now)\<rparr>,
               l\<lparr>sl_events := jm_set key current (sl_events l)\<rparr>)
         else
           (let current' = current @ [now]
            in (\<lparr>rr_allowed = True, rr_remaining = sl_limit l - length current', rr_retryAfterMs = 0\<rparr>,
                l\<lparr>sl_events := pruneIfNeeded cutoff (sl_maxKeys l)
                    (jm_set key current' (jm_del key (sl_events l)))\<rparr>)))"

definition consume :: "int \<Rightarrow> jsval \<Rightarrow> limiter \<Rightarrow> rate_result \<times> limiter" where
  "consume now keyValue l = consume_key now (limiter_key keyValue) l"

section \<open>Authentication failures\<close>

record failure_entry =
  fe_count :: int
  fe_lastFailAt :: int

type_synonym failure_store = "(string, failure_entry) jmap"
type_synonym issue_store = "(string, int list) jmap"

record auth_limits =
  al_login :: failure_store
  al_account :: failure_store
  al_ip :: failure_store
  al_issue :: issue_store
  al_issueAccount :: issue_store
  al_issueIp :: issue_store

record rate_limit_state =
  rl_limited :: bool
  rl_retryAfterSeconds :: int

definition no_auth_limits :: auth_limits where
  "no_auth_limits = \<lparr>al_login = [], al_account = [], al_ip = [], al_issue = [], al_issueAccount = [], al_issueIp = []\<rparr>"

definition login_fail_window_ms :: int where "login_fail_window_ms = 30 * 60 * 1000"
definition login_block_ms :: int where "login_block_ms = 15 * 60 * 1000"
definition block_threshold_account :: int where "block_threshold_account = 8"
definition block_threshold_ip :: int where "block_threshold_ip = 40"
definition issue_window_ms :: int where "issue_window_ms = 60 * 1000"
definition issue_max :: nat where "issue_max = 5"
definition auth_max_keys :: int where "auth_max_keys = 50000"

definition normalizeIp :: "string \<Rightarrow> string" where
  "normalizeIp ip =
     (let v = js_lower (js_trim (if ip = [] then ''unknown'' else ip)) in if v = [] then ''unknown'' else v)"

definition normalizeUsername :: "string \<Rightarrow> string" where
  "normalizeUsername username = js_lower (js_trim username)"

definition getAuthAttemptKey :: "string \<Rightarrow> string \<Rightarrow> string" where
  "getAuthAttemptKey ip username = normalizeIp ip @ '':'' @ normalizeUsername username"

definition activeFailureEntry ::
  "failure_store \<Rightarrow> string \<Rightarrow> int \<Rightarrow> failure_entry option \<times> failure_store" where
  "activeFailureEntry store key now =
     (case jm_get store key of
        None \<Rightarrow> (None, store)
      | Some entry \<Rightarrow>
          if now - fe_lastFailAt entry < login_fail_window_ms then (Some entry, store)
          else (None, jm_del key store))"

definition recordFailure :: "failure_store \<Rightarrow> string \<Rightarrow> int \<Rightarrow> failure_store" where
  "recordFailure store key now =
     (case activeFailureEntry store key now of
        (Some entry, st) \<Rightarrow>
          setBoundedMapValue st key \<lparr>fe_count = fe_count entry + 1, fe_lastFailAt = now\<rparr> auth_max_keys
      | (None, st) \<Rightarrow> setBoundedMapValue st key \<lparr>fe_count = 1, fe_lastFailAt = now\<rparr> auth_max_keys)"

definition recordAuthFailure :: "string \<Rightarrow> string \<Rightarrow> int \<Rightarrow> auth_limits \<Rightarrow> auth_limits" where
  "recordAuthFailure ip username now s =
     s\<lparr>al_login := recordFailure (al_login s) (getAuthAttemptKey ip username) now,
       al_account := recordFailure (al_account s) (normalizeUsername username) now,
       al_ip := recordFailure (al_ip s) (normalizeIp ip) now\<rparr>"

definition recordPasswordFailure :: "string \<Rightarrow> string \<Rightarrow> int \<Rightarrow> auth_limits \<Rightarrow> auth_limits" where
  "recordPasswordFailure ip username now s =
     s\<lparr>al_login := recordFailure (al_login s) (getAuthAttemptKey ip username) now,
       al_ip := recordFailure (al_ip s) (normalizeIp ip) now\<rparr>"

fun first_block :: "int \<Rightarrow> (failure_entry option \<times> int) list \<Rightarrow> rate_limit_state" where
  "first_block now [] = \<lparr>rl_limited = False, rl_retryAfterSeconds = 0\<rparr>"
| "first_block now ((entry, threshold) # checks) =
     (case entry of
        None \<Rightarrow> first_block now checks
      | Some e \<Rightarrow>
          if fe_count e < threshold then first_block now checks
          else
            (let retryAt = fe_lastFailAt e + login_block_ms in
             if now < retryAt
             then \<lparr>rl_limited = True, rl_retryAfterSeconds = max 1 \<lceil>rat_of_int (retryAt - now) / 1000\<rceil>\<rparr>
             else first_block now checks))"

definition authRateLimitState :: "string \<Rightarrow> string \<Rightarrow> int \<Rightarrow> auth_limits \<Rightarrow> rate_limit_state \<times> auth_limits" where
  "authRateLimitState ip username now s =
     (let (pair, login) = activeFailureEntry (al_login s) (getAuthAttemptKey ip username) now;
          (account, accounts) = activeFailureEntry (al_account s) (normalizeUsername username) now;
          (address, ips) = activeFailureEntry (al_ip s) (normalizeIp ip) now
      in (first_block now [(pair, block_threshold_account), (account, block_threshold_account),
                           (address, block_threshold_ip)],
          s\<lparr>al_login := login, al_account := accounts, al_ip := ips\<rparr>))"

definition clearAuthAccountFailures :: "string \<Rightarrow> string \<Rightarrow> auth_limits \<Rightarrow> auth_limits" where
  "clearAuthAccountFailures ip username s =
     s\<lparr>al_login := jm_del (getAuthAttemptKey ip username) (al_login s),
       al_account := jm_del (normalizeUsername username) (al_account s)\<rparr>"

section \<open>Challenge issue limits\<close>

definition issue_scope :: "int \<Rightarrow> issue_store \<Rightarrow> string \<Rightarrow> int \<Rightarrow> int \<times> issue_store" where
  "issue_scope now store key retryAfterSeconds =
     (case jm_get store key of
        None \<Rightarrow> (retryAfterSeconds, store)
      | Some timestamps \<Rightarrow>
          (let active = active_times (now - issue_window_ms) timestamps
           in (if issue_max \<le> length active
               then max retryAfterSeconds \<lceil>rat_of_int (hd active + issue_window_ms - now) / 1000\<rceil>
               else retryAfterSeconds,
               if 0 < length active then setBoundedMapValue store key active auth_max_keys
               else jm_del key store)))"

definition twoFactorChallengeIssueState ::
  "string \<Rightarrow> string \<Rightarrow> int \<Rightarrow> auth_limits \<Rightarrow> rate_limit_state \<times> auth_limits" where
  "twoFactorChallengeIssueState ip username now s =
     (let (r1, issue) = issue_scope now (al_issue s) (getAuthAttemptKey ip username) 0;
          (r2, accounts) = issue_scope now (al_issueAccount s) (normalizeUsername username) r1;
          (r3, ips) = issue_scope now (al_issueIp s) (normalizeIp ip) r2
      in (if 0 < r3 then \<lparr>rl_limited = True, rl_retryAfterSeconds = r3\<rparr>
          else \<lparr>rl_limited = False, rl_retryAfterSeconds = 0\<rparr>,
          s\<lparr>al_issue := issue, al_issueAccount := accounts, al_issueIp := ips\<rparr>))"

definition record_issue :: "int \<Rightarrow> issue_store \<Rightarrow> string \<Rightarrow> issue_store" where
  "record_issue now store key =
     (let active = active_times (now - issue_window_ms)
            (case jm_get store key of Some ts \<Rightarrow> ts | None \<Rightarrow> [])
      in setBoundedMapValue store key (active @ [now]) auth_max_keys)"

definition recordTwoFactorChallengeIssue :: "string \<Rightarrow> string \<Rightarrow> int \<Rightarrow> auth_limits \<Rightarrow> auth_limits" where
  "recordTwoFactorChallengeIssue ip username now s =
     s\<lparr>al_issue := record_issue now (al_issue s) (getAuthAttemptKey ip username),
       al_issueAccount := record_issue now (al_issueAccount s) (normalizeUsername username),
       al_issueIp := record_issue now (al_issueIp s) (normalizeIp ip)\<rparr>"

definition prune_issues :: "int \<Rightarrow> issue_store \<Rightarrow> issue_store" where
  "prune_issues cutoff store =
     concat (map (\<lambda>(key, timestamps).
        let active = active_times cutoff timestamps in if 0 < length active then [(key, active)] else []) store)"

definition pruneAuthRateLimitState :: "int \<Rightarrow> auth_limits \<Rightarrow> auth_limits" where
  "pruneAuthRateLimitState now s =
     (let failureExpired = (\<lambda>entry (_ :: string). login_fail_window_ms \<le> now - fe_lastFailAt entry);
          cutoff = now - issue_window_ms
      in s\<lparr>al_login := snd (pruneMapEntries failureExpired (al_login s)),
           al_account := snd (pruneMapEntries failureExpired (al_account s)),
           al_ip := snd (pruneMapEntries failureExpired (al_ip s)),
           al_issue := prune_issues cutoff (al_issue s),
           al_issueAccount := prune_issues cutoff (al_issueAccount s),
           al_issueIp := prune_issues cutoff (al_issueIp s)\<rparr>)"

definition clearTwoFactorChallengeIssueHistory :: "string \<Rightarrow> string \<Rightarrow> auth_limits \<Rightarrow> auth_limits" where
  "clearTwoFactorChallengeIssueHistory ip username s =
     s\<lparr>al_issue := jm_del (getAuthAttemptKey ip username) (al_issue s),
       al_issueAccount := jm_del (normalizeUsername username) (al_issueAccount s)\<rparr>"

section \<open>Two-factor challenges\<close>

record two_factor_challenge =
  tf_userId :: int
  tf_username :: string
  tf_mobile :: bool
  tf_issueIp :: string
  tf_expiresAt :: int
  tf_attempts :: int

type_synonym challenges = "(string, two_factor_challenge) jmap"

definition challenge_ttl_ms :: int where "challenge_ttl_ms = 5 * 60 * 1000"
definition challenge_max_attempts :: int where "challenge_max_attempts = 5"

definition challengeIpMatches :: "string \<Rightarrow> string \<Rightarrow> bool" where
  "challengeIpMatches issueIp requestIp =
     (let issued = normalizeIp issueIp; requested = normalizeIp requestIp
      in if issued = ''unknown'' \<or> requested = ''unknown'' then True else issued = requested)"

definition pruneExpired :: "int \<Rightarrow> challenges \<Rightarrow> challenges" where
  "pruneExpired now cs = jm_prune (\<lambda>_ challenge. tf_expiresAt challenge \<le> now) cs"

text \<open>\<open>challengeId\<close> is the hexadecimal text of 24 random bytes.\<close>

definition createTwoFactorChallenge ::
  "int \<Rightarrow> string \<Rightarrow> int \<Rightarrow> string \<Rightarrow> bool \<Rightarrow> string \<Rightarrow> challenges \<Rightarrow> challenges" where
  "createTwoFactorChallenge now challengeId userId username mobile ip cs =
     jm_set challengeId
       \<lparr>tf_userId = userId, tf_username = username, tf_mobile = mobile, tf_issueIp = normalizeIp ip,
        tf_expiresAt = now + challenge_ttl_ms, tf_attempts = 0\<rparr> (pruneExpired now cs)"

definition getTwoFactorChallenge ::
  "int \<Rightarrow> string \<Rightarrow> string option \<Rightarrow> challenges \<Rightarrow> two_factor_challenge option \<times> challenges" where
  "getTwoFactorChallenge now challengeId requestIp cs =
     (case jm_get cs challengeId of
        None \<Rightarrow> (None, cs)
      | Some challenge \<Rightarrow>
          if tf_expiresAt challenge \<le> now then (None, jm_del challengeId cs)
          else (case requestIp of
                  Some ip \<Rightarrow> if \<not> challengeIpMatches (tf_issueIp challenge) ip then (None, cs)
                             else (Some challenge, cs)
                | None \<Rightarrow> (Some challenge, cs)))"

definition recordTwoFactorChallengeFailure :: "int \<Rightarrow> string \<Rightarrow> challenges \<Rightarrow> bool \<times> challenges" where
  "recordTwoFactorChallengeFailure now challengeId cs =
     (case getTwoFactorChallenge now challengeId None cs of
        (None, cs1) \<Rightarrow> (False, cs1)
      | (Some challenge, cs1) \<Rightarrow>
          (let challenge' = challenge\<lparr>tf_attempts := tf_attempts challenge + 1\<rparr>;
               cs2 = jm_set challengeId challenge' cs1
           in if challenge_max_attempts \<le> tf_attempts challenge' then (False, jm_del challengeId cs2)
              else (True, cs2)))"

definition clearTwoFactorChallenge :: "string \<Rightarrow> challenges \<Rightarrow> challenges" where
  "clearTwoFactorChallenge challengeId cs = jm_del challengeId cs"


section \<open>Laws of the bounded maps\<close>

lemma evict_oldest_eq: "evict_oldest cap m = drop (Suc (length m) - cap) m"
proof (induction m)
  case (Cons e m)
  show ?case
  proof (cases "cap \<le> length (e # m)")
    case True
    then have "Suc (length (e # m)) - cap = Suc (Suc (length m) - cap)" by simp
    then show ?thesis using True Cons by simp
  qed simp
qed simp

lemma jm_set_new: "k \<notin> set (jm_keys m) \<Longrightarrow> jm_set k v m = m @ [(k, v)]"
  by (induction m) auto

lemma drop_del_keys: "key \<notin> set (jm_keys (drop n (jm_del key m)))"
proof
  assume "key \<in> set (jm_keys (drop n (jm_del key m)))"
  then have "key \<in> set (jm_keys (jm_del key m))"
    by (simp only: drop_map [symmetric]) (rule in_set_dropD)
  then show False by (simp add: jm_keys_del del: set_map)
qed

lemma setBoundedMapValue_eq:
  "setBoundedMapValue m key v maxSize =
     (let others = jm_del key m in drop (Suc (length others) - nat (max 1 maxSize)) others @ [(key, v)])"
proof -
  have "(if jm_has m key then jm_del key m else m) = jm_del key m" by (simp add: jm_has_def jm_del_absent)
  then show ?thesis
    by (simp only: setBoundedMapValue_def Let_def evict_oldest_eq jm_set_new [OF drop_del_keys])
qed

lemma setBoundedMapValue_room:
  assumes "length (jm_del key m) < nat (max 1 maxSize)"
  shows "jm_get (setBoundedMapValue m key v maxSize) = (jm_get m)(key \<mapsto> v)"
proof -
  have "setBoundedMapValue m key v maxSize = jm_del key m @ [(key, v)]"
    using assms by (simp add: setBoundedMapValue_eq Let_def)
  then show ?thesis by (auto simp: fun_eq_iff map_add_def split: option.splits)
qed

lemma setBoundedMapValue_get: "jm_get (setBoundedMapValue m key v maxSize) key = Some v"
proof -
  have "jm_get (drop n (jm_del key m)) key = None" for n
    using drop_del_keys [of key n m] by (simp only: jm_get_None_iff not_False_eq_True)
  then show ?thesis by (simp add: setBoundedMapValue_eq Let_def map_add_def)
qed

lemma setBoundedMapValue_ok: "jm_ok m \<Longrightarrow> jm_ok (setBoundedMapValue m key v maxSize)"
proof -
  assume "jm_ok m"
  then have d: "distinct (jm_keys (jm_del key m))" by (simp add: distinct_delete jm_ok_def)
  have "distinct (jm_keys (drop n (jm_del key m) @ [(key, v)]))" for n
    using drop_del_keys [of key n m] d by (simp add: distinct_drop drop_map [symmetric] del: set_map)
  then show ?thesis by (simp only: setBoundedMapValue_eq Let_def jm_ok_def)
qed

lemma setBoundedMapValue_length: "length (setBoundedMapValue m key v maxSize) \<le> nat (max 1 maxSize)"
  by (simp add: setBoundedMapValue_eq Let_def)

lemma setBoundedMapValue_keys:
  "set (jm_keys (setBoundedMapValue m key v maxSize)) \<subseteq> insert key (set (jm_keys m))"
proof -
  have "set (jm_keys (drop n (jm_del key m))) \<subseteq> set (jm_keys m)" for n
    using set_drop_subset [of n "jm_keys (jm_del key m)"] by (simp add: drop_map jm_keys_del del: set_map) blast
  then show ?thesis by (simp add: setBoundedMapValue_eq Let_def subset_insertI2)
qed

section \<open>Sliding windows\<close>

lemma active_times_Nil [simp]: "active_times c [] = []"
  by (simp add: active_times_def)

lemma active_times_append [simp]: "active_times c (xs @ ys) = active_times c xs @ active_times c ys"
  by (simp add: active_times_def)

lemma active_times_idem [simp]: "c0 \<le> c \<Longrightarrow> active_times c (active_times c0 xs) = active_times c xs"
  by (auto simp: active_times_def intro: filter_cong)

lemma active_times_mono_empty: "active_times c0 xs = [] \<Longrightarrow> c0 \<le> c \<Longrightarrow> active_times c xs = []"
  by (metis active_times_Nil active_times_idem)

abbreviation stored_times :: "('k, int list) jmap \<Rightarrow> 'k \<Rightarrow> int list" where
  "stored_times m k \<equiv> (case jm_get m k of Some ts \<Rightarrow> ts | None \<Rightarrow> [])"

text \<open>
  The abstract specification: the list of admitted calls so far, and a call is admitted exactly when its
  key has fewer than \<open>quota\<close> of them in the window that ends now.  A call may also be vetoed by its
  caller (another scope refused it).
\<close>

definition times_of :: "'k \<Rightarrow> (int \<times> 'k) list \<Rightarrow> int list" where
  "times_of k hist = map fst (filter (\<lambda>(_, k'). k' = k) hist)"

fun window_spec ::
  "nat \<Rightarrow> int \<Rightarrow> (int \<times> 'k) list \<Rightarrow> (int \<times> 'k \<times> bool) list \<Rightarrow> bool list" where
  "window_spec quota window hist [] = []"
| "window_spec quota window hist ((now, k, veto) # calls) =
     (let ok = (length (active_times (now - window) (times_of k hist)) < quota \<and> \<not> veto)
      in ok # window_spec quota window (if ok then hist @ [(now, k)] else hist) calls)"

definition admitted :: "(int \<times> 'k \<times> bool) list \<Rightarrow> bool list \<Rightarrow> (int \<times> 'k) list" where
  "admitted calls oks = map (\<lambda>((now, k, _), _). (now, k)) (filter snd (zip calls oks))"

definition in_window :: "int \<Rightarrow> int \<Rightarrow> 'k \<Rightarrow> (int \<times> 'k) list \<Rightarrow> nat" where
  "in_window window x k hist = length (filter (\<lambda>t. x - window < t \<and> t \<le> x) (times_of k hist))"

lemma times_of_append [simp]: "times_of k (xs @ ys) = times_of k xs @ times_of k ys"
  by (simp add: times_of_def)

lemma times_of_single [simp]: "times_of k [(t, k')] = (if k' = k then [t] else [])"
  by (simp add: times_of_def)

lemma times_of_Nil [simp]: "times_of k [] = []"
  by (simp add: times_of_def)

lemma in_window_le_active: "x \<ge> now \<Longrightarrow> in_window window x k hist \<le> length (active_times (now - window) (times_of k hist))"
  unfolding in_window_def active_times_def length_filter_conv_card
  by (rule card_mono) auto

lemma window_step:
  assumes bound: "\<And>x k. in_window window x k hist \<le> quota"
    and few: "length (active_times (now - window) (times_of k0 hist)) < quota"
  shows "in_window window x k (hist @ [(now, k0)]) \<le> quota"
proof (cases "k = k0 \<and> now \<le> x")
  case True
  then have "in_window window x k hist < quota" using in_window_le_active [of now x window k hist] few by auto
  then show ?thesis by (auto simp: in_window_def)
next
  case False
  then show ?thesis using bound [of x k] by (auto simp: in_window_def)
qed

lemma window_spec_bound_aux:
  assumes "\<And>x k. in_window window x k hist \<le> quota"
  shows "in_window window x k (hist @ admitted calls (window_spec quota window hist calls)) \<le> quota"
  using assms
proof (induction calls arbitrary: hist)
  case Nil
  then show ?case by (simp add: admitted_def)
next
  case (Cons call calls)
  obtain now k0 veto where call: "call = (now, k0, veto)" by (cases call)
  show ?case
  proof (cases "length (active_times (now - window) (times_of k0 hist)) < quota \<and> \<not> veto")
    case True
    then have "in_window window x k ((hist @ [(now, k0)]) @ admitted calls (window_spec quota window (hist @ [(now, k0)]) calls)) \<le> quota"
      by (intro Cons.IH window_step Cons.prems) auto
    then show ?thesis using True by (simp add: call admitted_def)
  next
    case False
    then have "window_spec quota window hist (call # calls) = False # window_spec quota window hist calls"
      by (auto simp: call)
    then show ?thesis using Cons.IH [of hist] Cons.prems by (simp add: admitted_def)
  qed
qed

lemma window_spec_bound: "in_window window x k (admitted calls (window_spec quota window [] calls)) \<le> quota"
  using window_spec_bound_aux [of window "[]" quota x k calls] by (simp add: in_window_def)

text \<open>The run of an implementation that decides, and then updates its store in one of two ways.\<close>

fun sliding_run ::
  "(int \<Rightarrow> 'k \<Rightarrow> 's \<Rightarrow> bool) \<Rightarrow> (int \<Rightarrow> 'k \<Rightarrow> 's \<Rightarrow> 's) \<Rightarrow> (int \<Rightarrow> 'k \<Rightarrow> 's \<Rightarrow> 's) \<Rightarrow> 's \<Rightarrow>
   (int \<times> 'k \<times> bool) list \<Rightarrow> bool list" where
  "sliding_run admit look record_at s [] = []"
| "sliding_run admit look record_at s ((now, k, veto) # calls) =
     (let ok = (admit now k s \<and> \<not> veto)
      in ok # sliding_run admit look record_at (if ok then record_at now k s else look now k s) calls)"

locale sliding_log =
  fixes quota :: nat and window :: int and cap :: nat
    and log :: "'s \<Rightarrow> 'k \<Rightarrow> int list"
    and keys :: "'s \<Rightarrow> 'k set"
    and valid :: "'s \<Rightarrow> bool"
    and admit :: "int \<Rightarrow> 'k \<Rightarrow> 's \<Rightarrow> bool"
    and look :: "int \<Rightarrow> 'k \<Rightarrow> 's \<Rightarrow> 's"
    and record_at :: "int \<Rightarrow> 'k \<Rightarrow> 's \<Rightarrow> 's"
  assumes finite_keys: "finite (keys s)"
    and admit_iff: "admit now k s \<longleftrightarrow> length (active_times (now - window) (log s k)) < quota"
    and look_log: "valid s \<Longrightarrow> card (insert k (keys s)) \<le> cap \<Longrightarrow> now - window \<le> c \<Longrightarrow>
      active_times c (log (look now k s) k') = active_times c (log s k')"
    and take_log: "valid s \<Longrightarrow> card (insert k (keys s)) \<le> cap \<Longrightarrow> now - window \<le> c \<Longrightarrow> admit now k s \<Longrightarrow>
      active_times c (log (record_at now k s) k') =
        active_times c (log s k') @ active_times c (if k' = k then [now] else [])"
    and look_valid: "valid s \<Longrightarrow> valid (look now k s) \<and> keys (look now k s) \<subseteq> insert k (keys s)"
    and take_valid: "valid s \<Longrightarrow> valid (record_at now k s) \<and> keys (record_at now k s) \<subseteq> insert k (keys s)"
begin

definition tracks :: "int \<Rightarrow> 's \<Rightarrow> (int \<times> 'k) list \<Rightarrow> bool" where
  "tracks since s hist \<longleftrightarrow>
     valid s \<and> (\<forall>k c. since - window \<le> c \<longrightarrow> active_times c (log s k) = active_times c (times_of k hist))"

lemma tracks_look:
  assumes "tracks since s hist" "since \<le> now" "card (insert k (keys s)) \<le> cap"
  shows "tracks now (look now k s) hist"
  using assms look_valid [of s now k] look_log [of s k now] by (auto simp: tracks_def)

lemma tracks_take:
  assumes "tracks since s hist" "since \<le> now" "card (insert k (keys s)) \<le> cap" "admit now k s"
  shows "tracks now (record_at now k s) (hist @ [(now, k)])"
  using assms take_valid [of s now k] take_log [of s k now] by (auto simp: tracks_def)

lemma run_eq_spec:
  assumes "tracks since s hist" "sorted (since # map fst calls)"
    "card (keys s \<union> (fst \<circ> snd) ` set calls) \<le> cap"
  shows "sliding_run admit look record_at s calls = window_spec quota window hist calls"
  using assms
proof (induction calls arbitrary: s hist since)
  case (Cons call calls)
  obtain now k veto where call: "call = (now, k, veto)" by (cases call)
  let ?K = "keys s \<union> (fst \<circ> snd) ` set (call # calls)"
  have fin: "finite ?K" using finite_keys by simp
  have "card (insert k (keys s)) \<le> card ?K" by (rule card_mono [OF fin]) (auto simp: call)
  with Cons.prems have room: "card (insert k (keys s)) \<le> cap" by simp
  have le: "since \<le> now" using Cons.prems by (simp add: call)
  have adm: "admit now k s \<longleftrightarrow> length (active_times (now - window) (times_of k hist)) < quota"
    using Cons.prems(1) le by (simp add: admit_iff tracks_def)
  have smaller: "card (keys s' \<union> (fst \<circ> snd) ` set calls) \<le> cap" if "keys s' \<subseteq> insert k (keys s)" for s'
  proof -
    have "card (keys s' \<union> (fst \<circ> snd) ` set calls) \<le> card ?K"
      using that by (intro card_mono [OF fin]) (auto simp: call)
    then show ?thesis using Cons.prems by simp
  qed
  have val: "valid s" using Cons.prems(1) by (simp add: tracks_def)
  have srt: "sorted (now # map fst calls)" using Cons.prems(2) by (simp add: call)
  show ?case
  proof (cases "admit now k s \<and> \<not> veto")
    case True
    have "sliding_run admit look record_at (record_at now k s) calls = window_spec quota window (hist @ [(now, k)]) calls"
      using Cons.IH [OF tracks_take srt smaller] Cons.prems(1) le room True take_valid [OF val] by blast
    then show ?thesis using True adm by (simp add: call)
  next
    case False
    have "sliding_run admit look record_at (look now k s) calls = window_spec quota window hist calls"
      using Cons.IH [OF tracks_look srt smaller] Cons.prems(1) le room look_valid [OF val] by blast
    then show ?thesis using False adm by (auto simp: call)
  qed
qed simp

end


section \<open>The limiter against the window specification\<close>

lemma jm_ok_length: "jm_ok m \<Longrightarrow> length m = card (set (jm_keys m))"
  by (metis distinct_card jm_ok_def length_map)

lemma prune_scan_spec:
  assumes "jm_ok (visited @ rest)"
  shows "jm_ok (prune_scan cutoff n visited rest)
    \<and> set (jm_keys (prune_scan cutoff n visited rest)) \<subseteq> set (jm_keys (visited @ rest))
    \<and> (cutoff \<le> c \<longrightarrow>
        active_times c (stored_times (prune_scan cutoff n visited rest) k) = active_times c (stored_times (visited @ rest) k))"
  using assms
proof (induction cutoff n visited rest rule: prune_scan.induct)
  case (2 cutoff n visited key timestamps rest)
  define active where "active = active_times cutoff timestamps"
  define visited' where "visited' = (if active = [] then visited else visited @ [(key, active)])"
  have ok': "jm_ok (visited' @ rest)"
    using 2(2) by (auto simp: visited'_def jm_ok_def)
  have sub: "set (jm_keys (visited' @ rest)) \<subseteq> set (jm_keys (visited @ (key, timestamps) # rest))"
    by (auto simp: visited'_def)
  have fresh: "jm_get visited key = None" "jm_get rest key = None"
    using 2(2) by (auto simp: jm_ok_def map_of_eq_None_iff)
  have same: "cutoff \<le> c \<Longrightarrow> active_times c (stored_times (visited' @ rest) k) =
      active_times c (stored_times (visited @ (key, timestamps) # rest) k)"
    using fresh active_times_mono_empty [of cutoff timestamps c]
    by (auto simp: visited'_def active_def map_add_def split: option.splits)
  show ?case
  proof (cases "length visited' + length rest \<le> n")
    case True
    then have "prune_scan cutoff n visited ((key, timestamps) # rest) = visited' @ rest"
      unfolding visited'_def active_def by (auto simp: Let_def)
    then show ?thesis using ok' sub same by simp
  next
    case False
    then have eq: "prune_scan cutoff n visited ((key, timestamps) # rest) = prune_scan cutoff n visited' rest"
      unfolding visited'_def active_def by (auto simp: Let_def)
    have "jm_ok (prune_scan cutoff n visited' rest)
      \<and> set (jm_keys (prune_scan cutoff n visited' rest)) \<subseteq> set (jm_keys (visited' @ rest))
      \<and> (cutoff \<le> c \<longrightarrow>
        active_times c (stored_times (prune_scan cutoff n visited' rest) k) = active_times c (stored_times (visited' @ rest) k))"
      using 2(1) [OF active_def visited'_def False ok'] .
    then show ?thesis unfolding eq using same sub by (elim conjE, intro conjI impI) (assumption, erule (1) subset_trans, simp only: simp_thms)
  qed
qed simp

lemma prune_scan_short_or_active:
  assumes "\<forall>(k, ts) \<in> set visited. active_times cutoff ts \<noteq> []"
  shows "length (prune_scan cutoff n visited rest) \<le> n
    \<or> (\<forall>(k, ts) \<in> set (prune_scan cutoff n visited rest). active_times cutoff ts \<noteq> [])"
  using assms
proof (induction cutoff n visited rest rule: prune_scan.induct)
  case (2 cutoff n visited key timestamps rest)
  define active where "active = active_times cutoff timestamps"
  define visited' where "visited' = (if active = [] then visited else visited @ [(key, active)])"
  have act': "\<forall>(k, ts) \<in> set visited'. active_times cutoff ts \<noteq> []"
    using 2(2) by (auto simp: visited'_def active_def)
  show ?case
  proof (cases "length visited' + length rest \<le> n")
    case True
    then show ?thesis by (auto simp: visited'_def active_def Let_def)
  next
    case False
    then have eq: "prune_scan cutoff n visited ((key, timestamps) # rest) = prune_scan cutoff n visited' rest"
      unfolding visited'_def active_def by (auto simp: Let_def)
    show ?thesis unfolding eq by (rule 2(1) [OF active_def visited'_def False act'])
  qed
qed simp

text \<open>
  Pruning bounds the number of keys and forgets no recent call unless more keys than the maximum
  have one: after \<open>pruneIfNeeded\<close> at most \<open>maxKeys\<close> keys are stored, and when at most \<open>maxKeys\<close> keys have
  a call inside the window, every key keeps all its calls inside the window, whatever idle keys were
  stored.
\<close>

theorem pruneIfNeeded_keeps_recent:
  assumes "jm_ok events"
  shows "length (pruneIfNeeded cutoff maxKeys events) \<le> maxKeys
    \<and> (card {k. active_times cutoff (stored_times events k) \<noteq> []} \<le> maxKeys \<longrightarrow>
        (\<forall>k. active_times cutoff (stored_times (pruneIfNeeded cutoff maxKeys events) k) =
             active_times cutoff (stored_times events k)))"
proof (cases "length events \<le> maxKeys")
  case True
  then show ?thesis by (simp add: pruneIfNeeded_def)
next
  case False
  define scanned where "scanned = prune_scan cutoff maxKeys [] events"
  have eq: "pruneIfNeeded cutoff maxKeys events = drop (Suc (length scanned) - Suc maxKeys) scanned"
    using False by (simp add: pruneIfNeeded_def scanned_def evict_oldest_eq)
  have ok: "jm_ok scanned"
    and same: "\<And>k. active_times cutoff (stored_times scanned k) = active_times cutoff (stored_times events k)"
    using prune_scan_spec [of "[]" events cutoff maxKeys cutoff] assms by (auto simp: scanned_def)
  have "length scanned \<le> maxKeys" if few: "card {k. active_times cutoff (stored_times events k) \<noteq> []} \<le> maxKeys"
  proof (rule ccontr)
    assume "\<not> length scanned \<le> maxKeys"
    then have all: "\<forall>(k, ts) \<in> set scanned. active_times cutoff ts \<noteq> []"
      using prune_scan_short_or_active [of "[]" cutoff maxKeys events] by (simp add: scanned_def)
    have "set (jm_keys scanned) \<subseteq> {k. active_times cutoff (stored_times scanned k) \<noteq> []}"
      using all by (force simp: jm_in_set_get [OF ok])
    moreover have "{k. active_times cutoff (stored_times scanned k) \<noteq> []} \<subseteq> set (jm_keys scanned)"
      by (force split: option.splits dest: jm_get_in_set)
    ultimately have "set (jm_keys scanned) = {k. active_times cutoff (stored_times scanned k) \<noteq> []}"
      by (rule subset_antisym)
    then have "card (set (jm_keys scanned)) = card {k. active_times cutoff (stored_times events k) \<noteq> []}"
      by (simp only: same)
    then show False using few jm_ok_length [OF ok] \<open>\<not> length scanned \<le> maxKeys\<close> by simp
  qed
  then show ?thesis using same unfolding eq by auto
qed

theorem pruneIfNeeded_keeps_recent_witness:
  "let events = [(''a'', [1]), (''b'', [50]), (''c'', [60])]
   in length (pruneIfNeeded 40 2 events) \<le> 2
    \<and> active_times 40 (stored_times (pruneIfNeeded 40 2 events) ''b'') = [50]"
proof -
  let ?e = "[(''a'', [1 :: int]), (''b'', [50]), (''c'', [60])]"
  have "{k. active_times 40 (stored_times ?e k) \<noteq> []} \<subseteq> {''b'', ''c''}"
    by (auto simp: active_times_def split: if_splits)
  then have "card {k. active_times 40 (stored_times ?e k) \<noteq> []} \<le> card {''b'', ''c''}"
    by (rule card_mono [rotated]) simp
  moreover have "card {''b'', ''c''} = (2 :: nat)" by simp
  ultimately have few: "card {k. active_times 40 (stored_times ?e k) \<noteq> []} \<le> 2" by linarith
  have ok: "jm_ok ?e" by simp
  show ?thesis
    using pruneIfNeeded_keeps_recent [OF ok, of 40 2] few by (simp add: Let_def active_times_def)
qed

definition limiter_state :: "nat \<Rightarrow> int \<Rightarrow> nat \<Rightarrow> (string, int list) jmap \<Rightarrow> limiter" where
  "limiter_state n w mk events = \<lparr>sl_limit = n, sl_windowMs = w, sl_maxKeys = mk, sl_events = events\<rparr>"

definition limiter_admits :: "nat \<Rightarrow> int \<Rightarrow> nat \<Rightarrow> int \<Rightarrow> string \<Rightarrow> (string, int list) jmap \<Rightarrow> bool" where
  "limiter_admits n w mk now key events = rr_allowed (fst (consume_key now key (limiter_state n w mk events)))"

definition limiter_after :: "nat \<Rightarrow> int \<Rightarrow> nat \<Rightarrow> int \<Rightarrow> string \<Rightarrow> (string, int list) jmap \<Rightarrow> (string, int list) jmap" where
  "limiter_after n w mk now key events = sl_events (snd (consume_key now key (limiter_state n w mk events)))"

definition limiter_refused :: "nat \<Rightarrow> int \<Rightarrow> nat \<Rightarrow> int \<Rightarrow> string \<Rightarrow> (string, int list) jmap \<Rightarrow> (string, int list) jmap" where
  "limiter_refused n w mk now key events =
     (if limiter_admits n w mk now key events then events else limiter_after n w mk now key events)"

lemmas limiter_defs = limiter_state_def limiter_admits_def limiter_after_def limiter_refused_def consume_key_def Let_def

lemma pruneIfNeeded_ok:
  assumes "jm_ok events"
  shows "jm_ok (pruneIfNeeded cutoff n events) \<and> set (jm_keys (pruneIfNeeded cutoff n events)) \<subseteq> set (jm_keys events)"
proof -
  have ok: "jm_ok (prune_scan cutoff n [] events)"
    and sub: "set (jm_keys (prune_scan cutoff n [] events)) \<subseteq> set (jm_keys events)"
    using prune_scan_spec [of "[]" events cutoff n] assms by auto
  have "jm_ok (drop i (prune_scan cutoff n [] events))" for i
    using ok by (simp add: jm_ok_def drop_map [symmetric])
  moreover have "set (jm_keys (drop i (prune_scan cutoff n [] events))) \<subseteq> set (jm_keys events)" for i
    using sub by (auto dest: in_set_dropD)
  ultimately show ?thesis using assms by (simp add: pruneIfNeeded_def evict_oldest_eq)
qed

interpretation limiter_log: sliding_log n w mk stored_times "\<lambda>m. set (jm_keys m)" jm_ok
  "limiter_admits n w mk" "limiter_refused n w mk" "limiter_after n w mk" for n w mk
proof unfold_locales
  fix s :: "(string, int list) jmap" and now c :: int and k k' :: string
  show "finite (set (jm_keys s))" by simp
  show "limiter_admits n w mk now k s \<longleftrightarrow> length (active_times (now - w) (stored_times s k)) < n"
    by (simp add: limiter_defs)
  assume ok: "jm_ok s"
  show "jm_ok (limiter_refused n w mk now k s) \<and> set (jm_keys (limiter_refused n w mk now k s)) \<subseteq> insert k (set (jm_keys s))"
    using ok by (simp add: limiter_defs jm_keys_set del: set_map) blast
  show "jm_ok (limiter_after n w mk now k s) \<and> set (jm_keys (limiter_after n w mk now k s)) \<subseteq> insert k (set (jm_keys s))"
    using ok pruneIfNeeded_ok [of "jm_set k ts (jm_del k s)" "now - w" mk for ts]
    by (auto simp add: limiter_defs jm_keys_set jm_keys_del simp del: set_map)
  assume room: "card (insert k (set (jm_keys s))) \<le> mk" and c: "now - w \<le> c"
  show "active_times c (stored_times (limiter_refused n w mk now k s) k') = active_times c (stored_times s k')"
    using c by (simp add: limiter_defs split: option.splits)
  have "length (jm_set k ts (jm_del k s)) \<le> mk" for ts
    using room ok jm_ok_length [of "jm_set k ts (jm_del k s)"] by (simp add: jm_keys_set jm_keys_del del: set_map)
  then have noprune: "pruneIfNeeded cutoff mk (jm_set k ts (jm_del k s)) = jm_set k ts (jm_del k s)" for cutoff ts
    by (simp add: pruneIfNeeded_def)
  assume "limiter_admits n w mk now k s"
  then show "active_times c (stored_times (limiter_after n w mk now k s) k') =
      active_times c (stored_times s k') @ active_times c (if k' = k then [now] else [])"
    using c by (auto simp: limiter_defs noprune split: option.splits if_splits)
qed


fun consume_run :: "limiter \<Rightarrow> (int \<times> jsval) list \<Rightarrow> bool list" where
  "consume_run l [] = []"
| "consume_run l ((now, keyValue) # calls) =
     (let (r, l') = consume now keyValue l in rr_allowed r # consume_run l' calls)"

abbreviation keyed_calls :: "(int \<times> jsval) list \<Rightarrow> (int \<times> string \<times> bool) list" where
  "keyed_calls calls \<equiv> map (\<lambda>(now, keyValue). (now, limiter_key keyValue, False)) calls"

lemma consume_key_state:
  "snd (consume_key now key (limiter_state n w mk events)) = limiter_state n w mk (limiter_after n w mk now key events)"
  by (simp add: limiter_defs)

lemma consume_run_sliding:
  "consume_run (limiter_state n w mk events) calls =
     sliding_run (limiter_admits n w mk) (limiter_refused n w mk) (limiter_after n w mk) events (keyed_calls calls)"
proof (induction calls arbitrary: events)
  case (Cons call calls)
  obtain now v where call: "call = (now, v)" by (cases call)
  have "consume now v (limiter_state n w mk events) =
      (fst (consume_key now (limiter_key v) (limiter_state n w mk events)),
       limiter_state n w mk (limiter_after n w mk now (limiter_key v) events))"
    by (simp add: consume_def consume_key_state [symmetric])
  then show ?case
    using Cons.IH [of "limiter_after n w mk now (limiter_key v) events"]
    by (cases "limiter_admits n w mk now (limiter_key v) events")
      (simp_all add: call limiter_refused_def limiter_admits_def [symmetric] Let_def)
qed simp

text \<open>
  With more keys than the table holds, keys can be forgotten.  A key that is forgotten starts anew, so the stored calls of a key are
  never more than those that were allowed, and a refusal has its reason whatever the number of keys.
\<close>

lemma drop_get:
  assumes "jm_ok m" "jm_get (drop n m) k = Some v"
  shows "jm_get m k = Some v"
  using assms by (meson in_set_dropD jm_get_in_set jm_in_set_get)

lemma prune_fewer:
  assumes "jm_ok events" "cutoff \<le> c"
  shows "length (active_times c (stored_times (pruneIfNeeded cutoff mk events) k)) \<le> length (active_times c (stored_times events k))"
proof (cases "length events \<le> mk")
  case False
  define m where "m = prune_scan cutoff mk [] events"
  have ok: "jm_ok m" and same: "active_times c (stored_times m k) = active_times c (stored_times events k)"
    using prune_scan_spec [of "[]" events cutoff mk c k] assms by (simp_all add: m_def)
  have "stored_times (drop n m) k = [] \<or> stored_times (drop n m) k = stored_times m k" for n
    using drop_get [OF ok, of n k] by (cases "jm_get (drop n m) k") auto
  then have "length (active_times c (stored_times (drop n m) k)) \<le> length (active_times c (stored_times m k))" for n
    by (metis active_times_Nil le0 length_0_conv order_refl)
  then show ?thesis using False same by (simp add: pruneIfNeeded_def evict_oldest_eq m_def)
qed (simp add: pruneIfNeeded_def)

definition no_more_than :: "int \<Rightarrow> int \<Rightarrow> (string, int list) jmap \<Rightarrow> (int \<times> string) list \<Rightarrow> bool" where
  "no_more_than w since events hist \<longleftrightarrow> jm_ok events \<and>
     (\<forall>k c. since - w \<le> c \<longrightarrow> length (active_times c (stored_times events k)) \<le> length (active_times c (times_of k hist)))"

lemma no_more_after:
  assumes "no_more_than w since events hist" "since \<le> now"
  shows "no_more_than w now (limiter_after n w mk now key events)
    (if limiter_admits n w mk now key events then hist @ [(now, key)] else hist)"
proof -
  have ok: "jm_ok events" and le: "now - w \<le> c \<Longrightarrow> length (active_times c (stored_times events k)) \<le> length (active_times c (times_of k hist))" for k c
    using assms by (auto simp: no_more_than_def)
  show ?thesis
  proof (cases "limiter_admits n w mk now key events")
    case True
    define ts where "ts = active_times (now - w) (stored_times events key) @ [now]"
    define m where "m = jm_set key ts (jm_del key events)"
    have okm: "jm_ok m" using ok by (simp add: m_def)
    have a: "limiter_after n w mk now key events = pruneIfNeeded (now - w) mk m"
      using True by (auto simp: limiter_defs m_def ts_def)
    have "length (active_times c (stored_times (pruneIfNeeded (now - w) mk m) k)) \<le> length (active_times c (times_of k (hist @ [(now, key)])))"
      if "now - w \<le> c" for k c
      using prune_fewer [OF okm that, of mk k] le [OF that, of k] that by (cases "k = key") (auto simp: m_def ts_def)
    then show ?thesis using True pruneIfNeeded_ok [OF okm] by (simp add: no_more_than_def a)
  next
    case False
    then have a: "limiter_after n w mk now key events = jm_set key (active_times (now - w) (stored_times events key)) events"
      by (auto simp: limiter_defs)
    have "length (active_times c (stored_times (limiter_after n w mk now key events) k)) \<le> length (active_times c (times_of k hist))"
      if "now - w \<le> c" for k c
      using le [OF that, of k] that unfolding a by (cases "k = key") auto
    then show ?thesis using False ok by (simp add: no_more_than_def) (simp add: a)
  qed
qed

lemma refused_for_reason:
  fixes n mk :: nat
  assumes "no_more_than w since events hist" "sorted (since # map fst calls)" "i < length calls"
    and "\<forall>(t, k) \<in> set hist. t \<le> since"
  defines "oks \<equiv> consume_run (limiter_state n w mk events) calls"
  assumes "\<not> oks ! i"
  shows "n \<le> in_window w (fst (calls ! i)) (limiter_key (snd (calls ! i))) (hist @ admitted (take i (keyed_calls calls)) (take i oks))"
  using assms(1-4,6) unfolding oks_def
proof (induction calls arbitrary: since events hist i)
  case (Cons call calls)
  obtain now v where call: "call = (now, v)" by (cases call)
  let ?k = "limiter_key v" and ?ok = "limiter_admits n w mk now (limiter_key v) events"
  have run: "consume_run (limiter_state n w mk events) (call # calls) =
      ?ok # consume_run (limiter_state n w mk (limiter_after n w mk now ?k events)) calls"
    by (simp add: call consume_def consume_key_state [symmetric] limiter_admits_def case_prod_unfold Let_def)
  have now: "since \<le> now" using Cons.prems(2) by (simp add: call)
  show ?case
  proof (cases i)
    case 0
    then have "\<not> ?ok" using Cons.prems(5) unfolding run by simp
    then have "n \<le> length (active_times (now - w) (stored_times events ?k))" by (simp add: limiter_defs not_le split: if_splits)
    also have "\<dots> \<le> length (active_times (now - w) (times_of ?k hist))"
      using Cons.prems(1) now by (simp add: no_more_than_def)
    also have "\<dots> = in_window w now ?k hist"
    proof -
      have "t \<le> now" if "t \<in> set (times_of ?k hist)" for t
        using that Cons.prems(4) now by (force simp: times_of_def)
      then show ?thesis unfolding in_window_def active_times_def by (metis (mono_tags, lifting) filter_cong)
    qed
    finally show ?thesis using 0 by (simp add: call admitted_def)
  next
    case (Suc i')
    let ?hist = "if ?ok then hist @ [(now, ?k)] else hist"
    have "n \<le> in_window w (fst (calls ! i')) (limiter_key (snd (calls ! i')))
        (?hist @ admitted (take i' (keyed_calls calls))
          (take i' (consume_run (limiter_state n w mk (limiter_after n w mk now ?k events)) calls)))"
    proof (rule Cons.IH [OF no_more_after [OF Cons.prems(1) now]])
      show "sorted (now # map fst calls)" "i' < length calls" using Cons.prems(2,3) Suc by (simp_all add: call)
      show "\<forall>(t, k) \<in> set ?hist. t \<le> now" using Cons.prems(4) now by auto
      show "\<not> consume_run (limiter_state n w mk (limiter_after n w mk now ?k events)) calls ! i'" using Cons.prems(5) Suc unfolding run by simp
    qed
    moreover have "?hist @ admitted (take i' (keyed_calls calls)) xs = hist @ admitted (take i (keyed_calls (call # calls))) (?ok # xs)"
      if "xs = take i' ys" for xs ys using Suc by (simp add: call admitted_def)
    ultimately show ?thesis using Suc unfolding run by (simp add: call)
  qed
qed simp

text \<open>
  C16. The limiter enforces its window.  For every interleaving of calls in time order, a call is refused only when its key has
  \<open>limit\<close> allowed calls in the window that ends now, by however many keys the limiter is used.  As long as no more than
  \<open>maxKeys\<close> different keys call, it is exact: a call is allowed exactly when its key has fewer than \<open>limit\<close> allowed calls in
  that window, so no window of \<open>windowMs\<close> milliseconds ever holds more than \<open>limit\<close> allowed calls of one key, and
  refused calls cost nothing.  (With more keys the oldest are forgotten and may call again.)
\<close>

theorem limiter_admits_exactly:
  assumes "sorted (map fst calls)" and "sl_events l = []"
  shows "(\<forall>i < length calls. \<not> consume_run l calls ! i \<longrightarrow>
      sl_limit l \<le> in_window (sl_windowMs l) (fst (calls ! i)) (limiter_key (snd (calls ! i)))
        (admitted (take i (keyed_calls calls)) (take i (consume_run l calls)))) \<and>
    (card ((limiter_key \<circ> snd) ` set calls) \<le> sl_maxKeys l \<longrightarrow>
      consume_run l calls = window_spec (sl_limit l) (sl_windowMs l) [] (keyed_calls calls)
      \<and> in_window (sl_windowMs l) x key (admitted (keyed_calls calls) (consume_run l calls)) \<le> sl_limit l)"
proof -
  have l: "l = limiter_state (sl_limit l) (sl_windowMs l) (sl_maxKeys l) []"
    using assms(2) by (simp add: limiter_state_def)
  define since where "since = (if calls = [] then 0 else fst (hd calls))"
  have srt: "sorted (since # map fst calls)" using assms(1) by (cases calls) (auto simp: since_def)
  have "no_more_than w since [] []" for w by (simp add: no_more_than_def)
  note reason = refused_for_reason [OF this srt, where n = "sl_limit l" and mk = "sl_maxKeys l" and w = "sl_windowMs l", folded l, simplified]
  have "consume_run l calls = window_spec (sl_limit l) (sl_windowMs l) [] (keyed_calls calls)"
    if few: "card ((limiter_key \<circ> snd) ` set calls) \<le> sl_maxKeys l"
  proof -
    have keys: "(fst \<circ> snd) ` set (keyed_calls calls) = (limiter_key \<circ> snd) ` set calls" by force
    have times: "map fst (keyed_calls calls) = map fst calls" by (simp add: case_prod_unfold)
    have "limiter_log.tracks (sl_windowMs l) since [] []" by (simp add: limiter_log.tracks_def)
    moreover have "card (set (jm_keys []) \<union> (fst \<circ> snd) ` set (keyed_calls calls)) \<le> sl_maxKeys l"
      unfolding keys using few by simp
    ultimately show ?thesis
      using limiter_log.run_eq_spec [where n = "sl_limit l" and mk = "sl_maxKeys l"] srt unfolding times [symmetric]
      by (subst l) (simp only: consume_run_sliding)
  qed
  then show ?thesis using reason by (simp add: window_spec_bound)
qed

theorem limiter_admits_exactly_witness:
  "consume_run (new_limiter 2 1000 None) [(0, JStr ''ip''), (10, JStr '' ip''), (20, JStr ''ip''), (20, JStr ''b''), (1000, JStr ''ip'')]
     = [True, True, False, True, True]"
proof -
  let ?calls = "[(0 :: int, JStr ''ip''), (10, JStr '' ip''), (20, JStr ''ip''), (20, JStr ''b''), (1000, JStr ''ip'')]"
  let ?l = "new_limiter 2 1000 None"
  have l: "sl_limit ?l = 2" "sl_windowMs ?l = 1000" "sl_maxKeys ?l = 10000" "sl_events ?l = []"
    by (simp_all add: new_limiter_def)
  have k: "limiter_key (JStr ''ip'') = ''ip''" "limiter_key (JStr '' ip'') = ''ip''" "limiter_key (JStr ''b'') = ''b''"
    by (simp_all add: limiter_key_def js_or_def js_trim_def js_space_def)
  have "card ((limiter_key \<circ> snd) ` set ?calls) \<le> sl_maxKeys ?l"
    using card_image_le [of "set ?calls" "limiter_key \<circ> snd"] card_length [of ?calls]
    by (auto simp: l k card_insert_if)
  then have "consume_run ?l ?calls = window_spec (sl_limit ?l) (sl_windowMs ?l) [] (keyed_calls ?calls)"
    using limiter_admits_exactly [of ?calls ?l] l(4) by simp
  also have "\<dots> = [True, True, False, True, True]"
    by (simp add: l k Let_def active_times_def times_of_def)
  finally show ?thesis .
qed

text \<open>
  The retry time of a refusal is exact: a refused call is told to wait \<open>retryAfterMs\<close>, between 1
  and \<open>windowMs\<close>; every later call of the key is refused until that time has passed and is allowed then.
\<close>

theorem limiter_retry_exact:
  assumes "consume_key now key l = (r, l')" and "\<not> rr_allowed r"
    and "0 < sl_limit l" and "sorted (stored_times (sl_events l) key)"
    and "length (active_times (now - sl_windowMs l) (stored_times (sl_events l) key)) \<le> sl_limit l"
    and "\<forall>t \<in> set (stored_times (sl_events l) key). t \<le> now"
    and "now \<le> later"
  shows "1 \<le> rr_retryAfterMs r \<and> rr_retryAfterMs r \<le> max 1 (sl_windowMs l)
    \<and> (rr_allowed (fst (consume_key later key l')) \<longleftrightarrow> now + rr_retryAfterMs r \<le> later)"
proof -
  define current where "current = active_times (now - sl_windowMs l) (stored_times (sl_events l) key)"
  have full: "length current = sl_limit l"
    and r: "rr_retryAfterMs r = max 1 (hd current + sl_windowMs l - now)"
    and l': "stored_times (sl_events l') key = current" "sl_limit l' = sl_limit l" "sl_windowMs l' = sl_windowMs l"
    using assms(1,2,5) by (auto simp: consume_key_def Let_def current_def split: if_splits)
  obtain t0 rest where cur: "current = t0 # rest" using full assms(3) by (cases current) auto
  have sorted: "sorted current" using assms(4) by (simp add: current_def active_times_def sorted_wrt_filter)
  have "t0 \<in> set current" by (simp add: cur)
  then have t0: "now - sl_windowMs l < t0" "t0 \<le> now"
    using assms(6) by (auto simp only: current_def active_times_def set_filter)
  have "rr_allowed (fst (consume_key later key l')) \<longleftrightarrow> length (active_times (later - sl_windowMs l) current) < sl_limit l"
    using l' by (simp add: consume_key_def Let_def)
  also have "\<dots> \<longleftrightarrow> (\<exists>t \<in> set current. t \<le> later - sl_windowMs l)"
    unfolding active_times_def full [symmetric] length_filter_less_iff by (auto simp: not_less)
  also have "\<dots> \<longleftrightarrow> t0 \<le> later - sl_windowMs l"
    using sorted by (auto simp: cur)
  also have "\<dots> \<longleftrightarrow> now + rr_retryAfterMs r \<le> later"
    using t0 by (auto simp: r cur)
  finally show ?thesis using t0 by (simp add: r cur)
qed

theorem limiter_retry_exact_witness:
  "let l = new_limiter 1 1000 None; l1 = snd (consume_key 5 ''k'' l); l2 = snd (consume_key 7 ''k'' l1)
   in rr_retryAfterMs (fst (consume_key 7 ''k'' l1)) = 998
     \<and> (\<forall>later \<in> {7..2000}. rr_allowed (fst (consume_key later ''k'' l2)) \<longleftrightarrow> 1005 \<le> later)"
proof -
  define l1 where "l1 = snd (consume_key 5 ''k'' (new_limiter 1 1000 None))"
  have l1: "sl_limit l1 = 1" "sl_windowMs l1 = 1000" "sl_events l1 = [(''k'', [5])]"
    by (simp_all add: l1_def consume_key_def new_limiter_def active_times_def pruneIfNeeded_def)
  obtain r l2 where c: "consume_key 7 ''k'' l1 = (r, l2)" by (cases "consume_key 7 ''k'' l1")
  then have r: "\<not> rr_allowed r" "rr_retryAfterMs r = 998"
    by (auto simp: consume_key_def l1 active_times_def)
  have "rr_allowed (fst (consume_key later ''k'' l2)) \<longleftrightarrow> 1005 \<le> later" if "7 \<le> later" for later
    using limiter_retry_exact [OF c r(1), of later] that by (simp add: l1 r active_times_def)
  then show ?thesis by (simp add: l1_def [symmetric] c r Let_def)
qed


section \<open>Challenge issue against the window specification\<close>

definition issue_admits :: "int \<Rightarrow> string \<Rightarrow> issue_store \<Rightarrow> bool" where
  "issue_admits now key store = (fst (issue_scope now store key 0) = 0)"

definition issue_look :: "int \<Rightarrow> string \<Rightarrow> issue_store \<Rightarrow> issue_store" where
  "issue_look now key store = snd (issue_scope now store key 0)"

definition issue_record :: "int \<Rightarrow> string \<Rightarrow> issue_store \<Rightarrow> issue_store" where
  "issue_record now key store = record_issue now (issue_look now key store) key"

lemma seconds_pos: "0 < d \<Longrightarrow> 0 < \<lceil>rat_of_int d / 1000\<rceil>"
  by simp

lemma issue_wait_pos:
  assumes "active_times (now - issue_window_ms) ts = t # r"
  shows "0 < \<lceil>rat_of_int (t + issue_window_ms - now) / 1000\<rceil>"
proof -
  have "t \<in> set (active_times (now - issue_window_ms) ts)" using assms by simp
  then show ?thesis by (intro seconds_pos) (auto simp: active_times_def)
qed

lemma issue_scope_fst:
  "fst (issue_scope now store key r0) =
     (if issue_max \<le> length (active_times (now - issue_window_ms) (stored_times store key))
      then max r0 \<lceil>rat_of_int (hd (active_times (now - issue_window_ms) (stored_times store key)) + issue_window_ms - now) / 1000\<rceil>
      else r0)"
  by (simp add: issue_scope_def Let_def issue_max_def split: option.splits)

lemma issue_scope_snd: "snd (issue_scope now store key r0) = issue_look now key store"
  by (simp add: issue_look_def issue_scope_def Let_def split: option.splits)

lemma issue_scope_positive:
  assumes "0 \<le> r0"
  shows "0 \<le> fst (issue_scope now store key r0) \<and>
    (fst (issue_scope now store key r0) = 0 \<longleftrightarrow>
      r0 = 0 \<and> length (active_times (now - issue_window_ms) (stored_times store key)) < issue_max)"
proof (cases "active_times (now - issue_window_ms) (stored_times store key)")
  case Nil
  then show ?thesis using assms by (simp add: issue_scope_fst issue_max_def)
next
  case (Cons t r)
  obtain w where w: "\<lceil>rat_of_int (t + issue_window_ms - now) / 1000\<rceil> = w" "0 < w"
    using issue_wait_pos [OF Cons] by blast
  show ?thesis unfolding issue_scope_fst Cons list.sel w(1) using assms w(2) by auto
qed

lemma room_length:
  assumes "jm_ok s" "card (insert k (set (jm_keys s))) \<le> nat auth_max_keys"
  shows "length (jm_del k s) < nat (max 1 auth_max_keys)"
proof -
  have "length (jm_del k s) = card (set (jm_keys s) - {k})"
    using assms(1) by (simp add: jm_ok_length jm_keys_del del: set_map)
  also have "\<dots> < card (insert k (set (jm_keys s)))"
    by (rule psubset_card_mono) auto
  finally show ?thesis using assms(2) by simp
qed

interpretation issue_log: sliding_log issue_max issue_window_ms "nat auth_max_keys" stored_times
  "\<lambda>m. set (jm_keys m)" jm_ok issue_admits issue_look issue_record
proof unfold_locales
  fix s :: issue_store and now c :: int and k k' :: string
  show "finite (set (jm_keys s))" by simp
  show "issue_admits now k s \<longleftrightarrow> length (active_times (now - issue_window_ms) (stored_times s k)) < issue_max"
    using issue_scope_positive [of 0 now s k] by (simp add: issue_admits_def)
  assume ok: "jm_ok s"
  let ?a = "active_times (now - issue_window_ms) (stored_times s k)"
  have look_cases: "issue_look now k s = s \<and> jm_get s k = None
      \<or> jm_get s k \<noteq> None \<and> ?a = [] \<and> issue_look now k s = jm_del k s
      \<or> jm_get s k \<noteq> None \<and> issue_look now k s = setBoundedMapValue s k ?a auth_max_keys"
    by (auto simp: issue_look_def issue_scope_def Let_def split: option.splits)
  show look_ok: "jm_ok (issue_look now k s) \<and> set (jm_keys (issue_look now k s)) \<subseteq> insert k (set (jm_keys s))"
    using look_cases
    by (elim disjE conjE)
      (simp_all add: ok setBoundedMapValue_ok setBoundedMapValue_keys jm_keys_del subset_insertI subset_insertI2 del: set_map)
  show "jm_ok (issue_record now k s) \<and> set (jm_keys (issue_record now k s)) \<subseteq> insert k (set (jm_keys s))"
  proof -
    have "set (jm_keys (setBoundedMapValue (issue_look now k s) k v auth_max_keys)) \<subseteq> insert k (set (jm_keys s))" for v
      using setBoundedMapValue_keys [of "issue_look now k s" k v auth_max_keys] look_ok by blast
    then show ?thesis
      using look_ok by (simp add: setBoundedMapValue_ok issue_record_def record_issue_def Let_def del: set_map)
  qed
  assume room: "card (insert k (set (jm_keys s))) \<le> nat auth_max_keys" and c: "now - issue_window_ms \<le> c"
  have get_bounded: "jm_get (setBoundedMapValue m k v auth_max_keys) = (jm_get m)(k \<mapsto> v)"
    if "jm_ok m" "set (jm_keys m) \<subseteq> insert k (set (jm_keys s))" for m v
  proof -
    have "card (insert k (set (jm_keys m))) \<le> card (insert k (set (jm_keys s)))"
      using that(2) by (intro card_mono) auto
    with room have "card (insert k (set (jm_keys m))) \<le> nat auth_max_keys" by linarith
    then show ?thesis by (rule setBoundedMapValue_room [OF room_length [OF that(1)]])
  qed
  show look: "active_times c (stored_times (issue_look now k s) k') = active_times c (stored_times s k')" for k'
    using look_cases get_bounded [OF ok subset_insertI] c active_times_mono_empty [OF _ c]
    by (elim disjE conjE) (auto split: option.splits)
  have "jm_get (issue_record now k s) =
      (jm_get (issue_look now k s))(k \<mapsto> active_times (now - issue_window_ms) (stored_times (issue_look now k s) k) @ [now])"
    unfolding issue_record_def record_issue_def Let_def using look_ok by (intro get_bounded) auto
  then show "active_times c (stored_times (issue_record now k s) k') =
      active_times c (stored_times s k') @ active_times c (if k' = k then [now] else [])"
    using look [of k'] c by (cases "k' = k") simp_all
qed

type_synonym issue_call = "int \<times> string \<times> string"

definition pair_scope :: "issue_call \<Rightarrow> int \<times> string" where
  "pair_scope = (\<lambda>(now, ip, username). (now, getAuthAttemptKey ip username))"

definition account_scope :: "issue_call \<Rightarrow> int \<times> string" where
  "account_scope = (\<lambda>(now, ip, username). (now, normalizeUsername username))"

definition ip_scope :: "issue_call \<Rightarrow> int \<times> string" where
  "ip_scope = (\<lambda>(now, ip, username). (now, normalizeIp ip))"

definition scope_open :: "issue_call list \<Rightarrow> (issue_call \<Rightarrow> int \<times> string) \<Rightarrow> issue_call \<Rightarrow> bool" where
  "scope_open hist scope call =
     (length (active_times (fst call - issue_window_ms) (times_of (snd (scope call)) (map scope hist))) < issue_max)"

fun issue_spec :: "issue_call list \<Rightarrow> issue_call list \<Rightarrow> bool list" where
  "issue_spec hist [] = []"
| "issue_spec hist (call # calls) =
     (let ok = (scope_open hist pair_scope call \<and> scope_open hist account_scope call \<and> scope_open hist ip_scope call)
      in ok # issue_spec (if ok then hist @ [call] else hist) calls)"

text \<open>The password step of a login with two-factor authentication (\<open>server/routers/auth.ts\<close>): ask, and
  issue when not limited.\<close>

fun issue_run :: "auth_limits \<Rightarrow> issue_call list \<Rightarrow> bool list" where
  "issue_run s [] = []"
| "issue_run s ((now, ip, username) # calls) =
     (let (state, s1) = twoFactorChallengeIssueState ip username now s
      in if rl_limited state then False # issue_run s1 calls
         else True # issue_run (recordTwoFactorChallengeIssue ip username now s1) calls)"

lemma twoFactorChallengeIssueState_eq:
  "rl_limited (fst (twoFactorChallengeIssueState ip username now s)) \<longleftrightarrow>
     \<not> (issue_admits now (getAuthAttemptKey ip username) (al_issue s)
        \<and> issue_admits now (normalizeUsername username) (al_issueAccount s)
        \<and> issue_admits now (normalizeIp ip) (al_issueIp s))"
  "snd (twoFactorChallengeIssueState ip username now s) =
     s\<lparr>al_issue := issue_look now (getAuthAttemptKey ip username) (al_issue s),
       al_issueAccount := issue_look now (normalizeUsername username) (al_issueAccount s),
       al_issueIp := issue_look now (normalizeIp ip) (al_issueIp s)\<rparr>"
proof -
  define r1 where "r1 = fst (issue_scope now (al_issue s) (getAuthAttemptKey ip username) 0)"
  define r2 where "r2 = fst (issue_scope now (al_issueAccount s) (normalizeUsername username) r1)"
  define r3 where "r3 = fst (issue_scope now (al_issueIp s) (normalizeIp ip) r2)"
  have e1: "issue_scope now (al_issue s) (getAuthAttemptKey ip username) 0 =
      (r1, issue_look now (getAuthAttemptKey ip username) (al_issue s))"
    by (simp add: r1_def issue_scope_snd [of now _ _ 0, symmetric])
  have e2: "issue_scope now (al_issueAccount s) (normalizeUsername username) r1 =
      (r2, issue_look now (normalizeUsername username) (al_issueAccount s))"
    by (simp add: r2_def issue_scope_snd [of now _ _ r1, symmetric])
  have e3: "issue_scope now (al_issueIp s) (normalizeIp ip) r2 = (r3, issue_look now (normalizeIp ip) (al_issueIp s))"
    by (simp add: r3_def issue_scope_snd [of now _ _ r2, symmetric])
  note r = issue_scope_positive [of 0 now "al_issue s" "getAuthAttemptKey ip username", folded r1_def]
    issue_scope_positive [of r1 now "al_issueAccount s" "normalizeUsername username", folded r2_def]
    issue_scope_positive [of r2 now "al_issueIp s" "normalizeIp ip", folded r3_def]
  show "snd (twoFactorChallengeIssueState ip username now s) =
     s\<lparr>al_issue := issue_look now (getAuthAttemptKey ip username) (al_issue s),
       al_issueAccount := issue_look now (normalizeUsername username) (al_issueAccount s),
       al_issueIp := issue_look now (normalizeIp ip) (al_issueIp s)\<rparr>"
    by (simp add: twoFactorChallengeIssueState_def e1 e2 e3)
  show "rl_limited (fst (twoFactorChallengeIssueState ip username now s)) \<longleftrightarrow>
     \<not> (issue_admits now (getAuthAttemptKey ip username) (al_issue s)
        \<and> issue_admits now (normalizeUsername username) (al_issueAccount s)
        \<and> issue_admits now (normalizeIp ip) (al_issueIp s))"
    using r by (auto simp: twoFactorChallengeIssueState_def e1 e2 e3 issue_log.admit_iff)
qed


lemma recordTwoFactorChallengeIssue_eq:
  "recordTwoFactorChallengeIssue ip username now (snd (twoFactorChallengeIssueState ip username now s)) =
     s\<lparr>al_issue := issue_record now (getAuthAttemptKey ip username) (al_issue s),
       al_issueAccount := issue_record now (normalizeUsername username) (al_issueAccount s),
       al_issueIp := issue_record now (normalizeIp ip) (al_issueIp s)\<rparr>"
  by (simp add: recordTwoFactorChallengeIssue_def twoFactorChallengeIssueState_eq issue_record_def)

definition issue_tracks :: "int \<Rightarrow> auth_limits \<Rightarrow> issue_call list \<Rightarrow> bool" where
  "issue_tracks since s hist =
     (issue_log.tracks since (al_issue s) (map pair_scope hist)
      \<and> issue_log.tracks since (al_issueAccount s) (map account_scope hist)
      \<and> issue_log.tracks since (al_issueIp s) (map ip_scope hist))"

lemma tracks_admit:
  assumes "issue_log.tracks since st hist" "since \<le> now"
  shows "issue_admits now k st \<longleftrightarrow> length (active_times (now - issue_window_ms) (times_of k hist)) < issue_max"
  using assms by (simp add: issue_log.admit_iff issue_log.tracks_def)

text \<open>Few keys: the keys stored and still to come fit in a store.\<close>

definition issue_room :: "auth_limits \<Rightarrow> issue_call list \<Rightarrow> bool" where
  "issue_room s calls =
     (card (set (jm_keys (al_issue s)) \<union> (snd \<circ> pair_scope) ` set calls) \<le> nat auth_max_keys
      \<and> card (set (jm_keys (al_issueAccount s)) \<union> (snd \<circ> account_scope) ` set calls) \<le> nat auth_max_keys
      \<and> card (set (jm_keys (al_issueIp s)) \<union> (snd \<circ> ip_scope) ` set calls) \<le> nat auth_max_keys)"

lemma room_step:
  fixes scope :: "issue_call \<Rightarrow> int \<times> string"
  assumes "card (set (jm_keys st) \<union> (snd \<circ> scope) ` set (call # calls)) \<le> n"
  shows "card (insert (snd (scope call)) (set (jm_keys st))) \<le> n"
    and "set (jm_keys st') \<subseteq> insert (snd (scope call)) (set (jm_keys st)) \<Longrightarrow>
      card (set (jm_keys st') \<union> (snd \<circ> scope) ` set calls) \<le> n"
proof -
  have fin: "finite (set (jm_keys st) \<union> (snd \<circ> scope) ` set (call # calls))" by simp
  have "card (insert (snd (scope call)) (set (jm_keys st))) \<le> card (set (jm_keys st) \<union> (snd \<circ> scope) ` set (call # calls))"
    by (rule card_mono [OF fin]) auto
  with assms show "card (insert (snd (scope call)) (set (jm_keys st))) \<le> n" by simp
  assume "set (jm_keys st') \<subseteq> insert (snd (scope call)) (set (jm_keys st))"
  then have "card (set (jm_keys st') \<union> (snd \<circ> scope) ` set calls) \<le> card (set (jm_keys st) \<union> (snd \<circ> scope) ` set (call # calls))"
    by (intro card_mono [OF fin]) (auto simp del: set_map)
  with assms show "card (set (jm_keys st') \<union> (snd \<circ> scope) ` set calls) \<le> n" by simp
qed

lemma issue_run_spec:
  assumes "issue_tracks since s hist" "sorted (since # map fst calls)" "issue_room s calls"
  shows "issue_run s calls = issue_spec hist calls"
  using assms
proof (induction calls arbitrary: s hist since)
  case (Cons call calls)
  obtain now ip u where call: "call = (now, ip, u)" by (cases call)
  note tr = Cons.prems(1) [unfolded issue_tracks_def] and room = Cons.prems(3) [unfolded issue_room_def]
  have le: "since \<le> now" and srt: "sorted (now # map fst calls)" using Cons.prems(2) by (simp_all add: call)
  let ?kp = "getAuthAttemptKey ip u" and ?ka = "normalizeUsername u" and ?ki = "normalizeIp ip"
  have sc: "snd (pair_scope call) = ?kp" "snd (account_scope call) = ?ka" "snd (ip_scope call) = ?ki"
    "pair_scope call = (now, ?kp)" "account_scope call = (now, ?ka)" "ip_scope call = (now, ?ki)"
    by (simp_all add: call pair_scope_def account_scope_def ip_scope_def)
  have fc: "fst call = now" by (simp add: call)
  note rp = room_step(1) [OF conjunct1 [OF room], unfolded sc]
    room_step(1) [OF conjunct1 [OF conjunct2 [OF room]], unfolded sc]
    room_step(1) [OF conjunct2 [OF conjunct2 [OF room]], unfolded sc]
  note rs = room_step(2) [OF conjunct1 [OF room], unfolded sc]
    room_step(2) [OF conjunct1 [OF conjunct2 [OF room]], unfolded sc]
    room_step(2) [OF conjunct2 [OF conjunct2 [OF room]], unfolded sc]
  have val: "jm_ok (al_issue s)" "jm_ok (al_issueAccount s)" "jm_ok (al_issueIp s)"
    using tr by (simp_all add: issue_log.tracks_def)
  let ?s1 = "snd (twoFactorChallengeIssueState ip u now s)"
  let ?open = "scope_open hist pair_scope call \<and> scope_open hist account_scope call \<and> scope_open hist ip_scope call"
  have adm: "issue_admits now ?kp (al_issue s) \<longleftrightarrow> scope_open hist pair_scope call"
    "issue_admits now ?ka (al_issueAccount s) \<longleftrightarrow> scope_open hist account_scope call"
    "issue_admits now ?ki (al_issueIp s) \<longleftrightarrow> scope_open hist ip_scope call"
    unfolding scope_open_def sc fc
    by (simp_all only: snd_conv)
      (rule tracks_admit [OF conjunct1 [OF tr] le],
        rule tracks_admit [OF conjunct1 [OF conjunct2 [OF tr]] le],
        rule tracks_admit [OF conjunct2 [OF conjunct2 [OF tr]] le])
  have lim: "rl_limited (fst (twoFactorChallengeIssueState ip u now s)) \<longleftrightarrow> \<not> ?open"
    by (simp only: twoFactorChallengeIssueState_eq adm)
  have run: "issue_run s (call # calls) =
      (if ?open then True # issue_run (recordTwoFactorChallengeIssue ip u now ?s1) calls
       else False # issue_run ?s1 calls)"
    using lim by (simp add: call case_prod_unfold Let_def)
  show ?case
  proof (cases ?open)
    case True
    have "issue_tracks now (recordTwoFactorChallengeIssue ip u now ?s1) (hist @ [call])"
      unfolding recordTwoFactorChallengeIssue_eq issue_tracks_def
      using issue_log.tracks_take [OF conjunct1 [OF tr] le rp(1)] True adm
        issue_log.tracks_take [OF conjunct1 [OF conjunct2 [OF tr]] le rp(2)]
        issue_log.tracks_take [OF conjunct2 [OF conjunct2 [OF tr]] le rp(3)] by (simp add: sc)
    moreover have "issue_room (recordTwoFactorChallengeIssue ip u now ?s1) calls"
      unfolding recordTwoFactorChallengeIssue_eq issue_room_def
      using rs(1) [OF conjunct2 [OF issue_log.take_valid [OF val(1)]]]
        rs(2) [OF conjunct2 [OF issue_log.take_valid [OF val(2)]]]
        rs(3) [OF conjunct2 [OF issue_log.take_valid [OF val(3)]]] by simp
    ultimately show ?thesis using run True Cons.IH srt by simp
  next
    case False
    have "issue_tracks now ?s1 hist"
      unfolding twoFactorChallengeIssueState_eq issue_tracks_def
      using issue_log.tracks_look [OF conjunct1 [OF tr] le rp(1)]
        issue_log.tracks_look [OF conjunct1 [OF conjunct2 [OF tr]] le rp(2)]
        issue_log.tracks_look [OF conjunct2 [OF conjunct2 [OF tr]] le rp(3)] by simp
    moreover have "issue_room ?s1 calls"
      unfolding twoFactorChallengeIssueState_eq issue_room_def
      using rs(1) [OF conjunct2 [OF issue_log.look_valid [OF val(1)]]]
        rs(2) [OF conjunct2 [OF issue_log.look_valid [OF val(2)]]]
        rs(3) [OF conjunct2 [OF issue_log.look_valid [OF val(3)]]] by simp
    ultimately show ?thesis using run False Cons.IH srt by (auto simp: Let_def)
  qed
qed simp

lemma issue_spec_bound:
  assumes "\<And>x k. in_window issue_window_ms x k (map scope hist) \<le> issue_max"
    and "scope \<in> {pair_scope, account_scope, ip_scope}"
  shows "in_window issue_window_ms x k (map scope (hist @ map fst (filter snd (zip calls (issue_spec hist calls))))) \<le> issue_max"
  using assms(1)
proof (induction calls arbitrary: hist)
  case (Cons call calls)
  have time: "fst (scope call) = fst call"
    using assms(2) by (auto simp: pair_scope_def account_scope_def ip_scope_def split: prod.splits)
  show ?case
  proof (cases "scope_open hist pair_scope call \<and> scope_open hist account_scope call \<and> scope_open hist ip_scope call")
    case True
    then have "scope_open hist scope call" using assms(2) by auto
    then have "in_window issue_window_ms x k (map scope (hist @ [call])) \<le> issue_max" for x k
      using window_step [OF Cons.prems, of "fst call" "snd (scope call)"] time
      by (simp add: scope_open_def) (metis prod.collapse)
    then show ?thesis using Cons.IH [of "hist @ [call]"] True by simp
  next
    case False
    then have "issue_spec hist (call # calls) = False # issue_spec hist calls" by auto
    then show ?thesis using Cons.IH [of hist] Cons.prems by simp
  qed
qed simp

text \<open>
  At most five two-factor challenges per minute.  For login attempts in time order, by at most
  50,000 different accounts and addresses, a challenge is issued exactly when fewer than five were issued in
  the last minute for the same account and address, for the account from anywhere, and from the address
  for anyone; so no minute holds more than five for any of the three.
\<close>

theorem challenge_issue_limited:
  assumes "sorted (map fst calls)" and "card (snd ` set calls) \<le> nat auth_max_keys"
    and "scope \<in> {pair_scope, account_scope, ip_scope}"
  shows "issue_run no_auth_limits calls = issue_spec [] calls
    \<and> in_window issue_window_ms x key
        (map scope (map fst (filter snd (zip calls (issue_run no_auth_limits calls))))) \<le> issue_max"
proof -
  have tr: "issue_tracks (if calls = [] then 0 else fst (hd calls)) no_auth_limits []"
    by (simp add: issue_tracks_def issue_log.tracks_def no_auth_limits_def)
  have image: "card ((snd \<circ> sc) ` set calls) \<le> nat auth_max_keys" if "snd \<circ> sc = f \<circ> snd" for sc f
    using card_image_le [of "snd ` set calls" f] assms(2) unfolding that by (simp add: image_comp)
  have "snd \<circ> pair_scope = (\<lambda>(ip, u). getAuthAttemptKey ip u) \<circ> snd"
    "snd \<circ> account_scope = (\<lambda>(ip, u). normalizeUsername u) \<circ> snd"
    "snd \<circ> ip_scope = (\<lambda>(ip, u). normalizeIp ip) \<circ> snd"
    by (auto simp: fun_eq_iff pair_scope_def account_scope_def ip_scope_def)
  note image [OF this(1)] image [OF this(2)] image [OF this(3)]
  then have "issue_room no_auth_limits calls" by (simp add: issue_room_def no_auth_limits_def)
  moreover have "sorted ((if calls = [] then 0 else fst (hd calls)) # map fst calls)"
    using assms(1) by (cases calls) auto
  ultimately have eq: "issue_run no_auth_limits calls = issue_spec [] calls"
    by (intro issue_run_spec [OF tr])
  show ?thesis
    using issue_spec_bound [of scope "[]" x key calls] assms(3) by (simp add: eq in_window_def)
qed

definition same_calls :: "string \<Rightarrow> string \<Rightarrow> int list \<Rightarrow> issue_call list" where
  "same_calls ip username ts = map (\<lambda>t. (t, ip, username)) ts"

lemma issue_spec_same:
  "issue_spec (same_calls ip u ts) (same_calls ip u (t # us)) =
     (if length (active_times (t - issue_window_ms) ts) < issue_max
      then True # issue_spec (same_calls ip u (ts @ [t])) (same_calls ip u us)
      else False # issue_spec (same_calls ip u ts) (same_calls ip u us))"
proof -
  have times: "times_of k (map (\<lambda>t. (t, k)) ts) = ts" for k :: string
    by (induction ts) (simp_all add: times_of_def)
  have "scope_open (same_calls ip u ts) sc (t, ip, u) \<longleftrightarrow> length (active_times (t - issue_window_ms) ts) < issue_max"
    if "sc \<in> {pair_scope, account_scope, ip_scope}" for sc
    using that times by (auto simp: scope_open_def same_calls_def pair_scope_def account_scope_def ip_scope_def comp_def)
  then have "scope_open (same_calls ip u ts) pair_scope (t, ip, u) \<longleftrightarrow> length (active_times (t - issue_window_ms) ts) < issue_max"
    "scope_open (same_calls ip u ts) account_scope (t, ip, u) \<longleftrightarrow> length (active_times (t - issue_window_ms) ts) < issue_max"
    "scope_open (same_calls ip u ts) ip_scope (t, ip, u) \<longleftrightarrow> length (active_times (t - issue_window_ms) ts) < issue_max"
    by blast+
  moreover have "same_calls ip u (ts @ [t]) = same_calls ip u ts @ [(t, ip, u)]"
    "same_calls ip u (t # us) = (t, ip, u) # same_calls ip u us"
    by (simp_all add: same_calls_def)
  ultimately show ?thesis by (simp only: issue_spec.simps Let_def conj_absorb if_True if_False split: if_split) simp
qed

theorem challenge_issue_limited_witness:
  "let calls = same_calls ''198.51.100.7'' ''bob'' [0, 1, 2, 3, 4, 5, 60000]
   in issue_run no_auth_limits calls = issue_spec [] calls
     \<and> issue_spec [] calls = [True, True, True, True, True, False, True]"
proof -
  let ?calls = "same_calls ''198.51.100.7'' ''bob'' [0, 1, 2, 3, 4, 5, 60000]"
  have "card (snd ` set ?calls) \<le> nat auth_max_keys" "sorted (map fst ?calls)"
    by (simp_all add: auth_max_keys_def same_calls_def)
  then have "issue_run no_auth_limits ?calls = issue_spec [] ?calls"
    using challenge_issue_limited [of ?calls pair_scope] by blast
  moreover have nil: "[] = same_calls ip u []" for ip u by (simp add: same_calls_def)
  have "issue_spec (same_calls ip u []) (same_calls ip u [0, 1, 2, 3, 4, 5, 60000]) =
      [True, True, True, True, True, False, True]" for ip u
    by (simp add: issue_spec_same issue_window_ms_def issue_max_def active_times_def) (simp add: same_calls_def)
  then have "issue_spec [] ?calls = [True, True, True, True, True, False, True]" using nil by metis
  ultimately show ?thesis by (simp add: Let_def)
qed


section \<open>Failure counters against their history\<close>

text \<open>
  Each of the three scopes sees an operation as a failure of one key, as a reset of one key, or not at
  all; its history is the times of the failures of each key since the last reset.
\<close>

datatype auth_op =
    ProofFailed string string
  | PasswordFailed string string
  | Succeeded string string
  | Asked string string
  | Swept

datatype effect = Hit string | Reset string | NoEffect

fun pair_effect :: "auth_op \<Rightarrow> effect" where
  "pair_effect (ProofFailed ip u) = Hit (getAuthAttemptKey ip u)"
| "pair_effect (PasswordFailed ip u) = Hit (getAuthAttemptKey ip u)"
| "pair_effect (Succeeded ip u) = Reset (getAuthAttemptKey ip u)"
| "pair_effect _ = NoEffect"

fun account_effect :: "auth_op \<Rightarrow> effect" where
  "account_effect (ProofFailed ip u) = Hit (normalizeUsername u)"
| "account_effect (Succeeded ip u) = Reset (normalizeUsername u)"
| "account_effect _ = NoEffect"

fun ip_effect :: "auth_op \<Rightarrow> effect" where
  "ip_effect (ProofFailed ip u) = Hit (normalizeIp ip)"
| "ip_effect (PasswordFailed ip u) = Hit (normalizeIp ip)"
| "ip_effect _ = NoEffect"

fun after_effect :: "int \<Rightarrow> effect \<Rightarrow> (string \<Rightarrow> int list) \<Rightarrow> string \<Rightarrow> int list" where
  "after_effect now (Hit k) hist = hist(k := hist k @ [now])"
| "after_effect now (Reset k) hist = hist(k := [])"
| "after_effect now NoEffect hist = hist"

definition failures_of :: "(auth_op \<Rightarrow> effect) \<Rightarrow> (int \<times> auth_op) list \<Rightarrow> string \<Rightarrow> int list" where
  "failures_of eff ops = foldl (\<lambda>hist (now, op). after_effect now (eff op) hist) (\<lambda>_. []) ops"

text \<open>The failures that count: the last ones, with less than half an hour between neighbours.\<close>

fun streak_back :: "int list \<Rightarrow> int" where
  "streak_back [] = 0"
| "streak_back [t] = 1"
| "streak_back (t # u # ts) = (if t - u < login_fail_window_ms then streak_back (u # ts) + 1 else 1)"

definition spec_entry :: "int list \<Rightarrow> int \<Rightarrow> failure_entry option" where
  "spec_entry ts now =
     (if ts \<noteq> [] \<and> now - last ts < login_fail_window_ms
      then Some \<lparr>fe_count = streak_back (rev ts), fe_lastFailAt = last ts\<rparr> else None)"

fun auth_step :: "int \<Rightarrow> auth_op \<Rightarrow> auth_limits \<Rightarrow> auth_limits" where
  "auth_step now (ProofFailed ip u) s = recordAuthFailure ip u now s"
| "auth_step now (PasswordFailed ip u) s = recordPasswordFailure ip u now s"
| "auth_step now (Succeeded ip u) s = clearAuthAccountFailures ip u s"
| "auth_step now (Asked ip u) s = snd (authRateLimitState ip u now s)"
| "auth_step now Swept s = pruneAuthRateLimitState now s"

definition auth_run :: "(int \<times> auth_op) list \<Rightarrow> auth_limits" where
  "auth_run ops = foldl (\<lambda>s (now, op). auth_step now op s) no_auth_limits ops"

definition live_entry :: "failure_store \<Rightarrow> string \<Rightarrow> int \<Rightarrow> failure_entry option" where
  "live_entry store k now =
     (case jm_get store k of None \<Rightarrow> None
      | Some e \<Rightarrow> if now - fe_lastFailAt e < login_fail_window_ms then Some e else None)"

definition failures_track :: "int \<Rightarrow> failure_store \<Rightarrow> (string \<Rightarrow> int list) \<Rightarrow> bool" where
  "failures_track since store hist \<longleftrightarrow>
     jm_ok store \<and> (\<forall>k t. since \<le> t \<longrightarrow> live_entry store k t = spec_entry (hist k) t)"

lemma streak_back_snoc:
  "streak_back (rev (ts @ [now])) =
     (if ts \<noteq> [] \<and> now - last ts < login_fail_window_ms then streak_back (rev ts) + 1 else 1)"
  by (cases ts rule: rev_cases) auto

lemma activeFailureEntry_eq:
  "activeFailureEntry store key now =
     (live_entry store key now, if live_entry store key now = None then jm_del key store else store)"
  by (auto simp: activeFailureEntry_def live_entry_def jm_del_absent split: option.splits)

lemma live_entry_later: "live_entry store k now = None \<Longrightarrow> now \<le> t \<Longrightarrow> live_entry store k t = None"
  by (auto simp: live_entry_def split: option.splits if_splits)

lemma track_later: "failures_track since store hist \<Longrightarrow> since \<le> now \<Longrightarrow> failures_track now store hist"
  by (simp add: failures_track_def)

lemma track_forget:
  assumes "failures_track now store hist" "live_entry store key now = None"
  shows "failures_track now (jm_del key store) hist"
  using assms live_entry_later [OF assms(2)] by (auto simp: failures_track_def live_entry_def)

lemma track_asked:
  assumes "failures_track now store hist"
  shows "failures_track now (snd (activeFailureEntry store key now)) hist"
  using assms track_forget [OF assms] by (simp add: activeFailureEntry_eq)

lemma track_swept:
  assumes "failures_track now store hist"
  shows "failures_track now (snd (pruneMapEntries (\<lambda>e _. login_fail_window_ms \<le> now - fe_lastFailAt e) store)) hist"
proof -
  have ok: "jm_ok store" using assms by (simp add: failures_track_def)
  have "live_entry (jm_prune (\<lambda>_ e. login_fail_window_ms \<le> now - fe_lastFailAt e) store) k t = live_entry store k t"
    if "now \<le> t" for k t
    using that by (auto simp: live_entry_def jm_get_prune [OF ok] split: option.splits)
  then show ?thesis using assms by (simp add: failures_track_def pruneMapEntries_def)
qed

lemma track_reset:
  assumes "failures_track now store hist"
  shows "failures_track now (jm_del key store) (hist(key := []))"
  using assms by (auto simp: failures_track_def live_entry_def spec_entry_def)

lemma track_hit:
  assumes tr: "failures_track now store hist"
    and room: "card (insert key (set (jm_keys store))) \<le> nat auth_max_keys"
  shows "failures_track now (recordFailure store key now) (hist(key := hist key @ [now]))"
    and "set (jm_keys (recordFailure store key now)) \<subseteq> insert key (set (jm_keys store))"
proof -
  define st where "st = snd (activeFailureEntry store key now)"
  define e where "e = (case live_entry store key now of
      Some x \<Rightarrow> \<lparr>fe_count = fe_count x + 1, fe_lastFailAt = now\<rparr> | None \<Rightarrow> \<lparr>fe_count = 1, fe_lastFailAt = now\<rparr>)"
  have rec: "recordFailure store key now = setBoundedMapValue st key e auth_max_keys"
    by (simp add: recordFailure_def activeFailureEntry_eq st_def e_def split: option.splits)
  have ok: "jm_ok st" and sub: "set (jm_keys st) \<subseteq> set (jm_keys store)"
    using tr by (auto simp: st_def activeFailureEntry_eq failures_track_def jm_keys_del simp del: set_map)
  have "card (insert key (set (jm_keys st))) \<le> card (insert key (set (jm_keys store)))"
    using sub by (intro card_mono) auto
  with room have get: "jm_get (recordFailure store key now) = (jm_get st)(key \<mapsto> e)"
    unfolding rec by (intro setBoundedMapValue_room room_length [OF ok]) linarith
  have "live_entry store key now = spec_entry (hist key) now"
    using tr by (simp add: failures_track_def)
  then have e: "e = \<lparr>fe_count = streak_back (rev (hist key @ [now])), fe_lastFailAt = now\<rparr>"
    unfolding e_def streak_back_snoc by (simp add: spec_entry_def)
  have others: "live_entry st k t = live_entry store k t" if "k \<noteq> key" for k t
    using that by (simp add: st_def activeFailureEntry_eq live_entry_def)
  have "live_entry (recordFailure store key now) k t =
      (if k = key then (if t - now < login_fail_window_ms then Some e else None) else live_entry store k t)" for k t
    using others [of k t] by (simp add: live_entry_def get e)
  then show "failures_track now (recordFailure store key now) (hist(key := hist key @ [now]))"
    using tr setBoundedMapValue_ok [OF ok] e unfolding failures_track_def rec
    by (auto simp: spec_entry_def)
  show "set (jm_keys (recordFailure store key now)) \<subseteq> insert key (set (jm_keys store))"
    unfolding rec using setBoundedMapValue_keys [of st key e auth_max_keys] sub by blast
qed


definition store_inv :: "string set \<Rightarrow> int \<Rightarrow> failure_store \<Rightarrow> (string \<Rightarrow> int list) \<Rightarrow> bool" where
  "store_inv K since store hist \<longleftrightarrow>
     failures_track since store hist \<and> set (jm_keys store) \<subseteq> K \<and> finite K \<and> card K \<le> nat auth_max_keys"

lemma store_inv_steps:
  assumes "store_inv K since store hist" "since \<le> now"
  shows "store_inv K now store hist"
    and "store_inv K now (snd (activeFailureEntry store key now)) hist"
    and "store_inv K now (snd (pruneMapEntries (\<lambda>e _. login_fail_window_ms \<le> now - fe_lastFailAt e) store)) hist"
    and "store_inv K now (jm_del key store) (hist(key := []))"
    and "key \<in> K \<Longrightarrow> store_inv K now (recordFailure store key now) (hist(key := hist key @ [now]))"
proof -
  have K: "set (jm_keys store) \<subseteq> K" "finite K" "card K \<le> nat auth_max_keys" and tr: "failures_track now store hist"
    using assms track_later by (auto simp: store_inv_def)
  show "store_inv K now store hist" using K tr by (simp add: store_inv_def)
  show "store_inv K now (snd (activeFailureEntry store key now)) hist"
    using K track_asked [OF tr] by (auto simp: store_inv_def activeFailureEntry_eq jm_keys_del simp del: set_map)
  show "store_inv K now (snd (pruneMapEntries (\<lambda>e _. login_fail_window_ms \<le> now - fe_lastFailAt e) store)) hist"
    using K track_swept [OF tr] by (auto simp: store_inv_def pruneMapEntries_def)
  show "store_inv K now (jm_del key store) (hist(key := []))"
    using K track_reset [OF tr] by (auto simp: store_inv_def jm_keys_del simp del: set_map)
  assume "key \<in> K"
  then have sub: "insert key (set (jm_keys store)) \<subseteq> K" using K(1) by blast
  then have "card (insert key (set (jm_keys store))) \<le> nat auth_max_keys"
    using card_mono [OF K(2) sub] K(3) by linarith
  from track_hit [OF tr this] sub K(2,3)
  show "store_inv K now (recordFailure store key now) (hist(key := hist key @ [now]))"
    unfolding store_inv_def by blast
qed

lemma authRateLimitState_eq:
  "authRateLimitState ip u now s =
     (first_block now
        [(live_entry (al_login s) (getAuthAttemptKey ip u) now, block_threshold_account),
         (live_entry (al_account s) (normalizeUsername u) now, block_threshold_account),
         (live_entry (al_ip s) (normalizeIp ip) now, block_threshold_ip)],
      s\<lparr>al_login := snd (activeFailureEntry (al_login s) (getAuthAttemptKey ip u) now),
        al_account := snd (activeFailureEntry (al_account s) (normalizeUsername u) now),
        al_ip := snd (activeFailureEntry (al_ip s) (normalizeIp ip) now)\<rparr>)"
  unfolding authRateLimitState_def activeFailureEntry_eq Let_def prod.case snd_conv ..

lemma auth_step_inv:
  assumes "store_inv Kp since (al_login s) hp" "store_inv Ka since (al_account s) ha" "store_inv Ki since (al_ip s) hi"
    and "since \<le> now"
    and "\<And>k. pair_effect op = Hit k \<Longrightarrow> k \<in> Kp" "\<And>k. account_effect op = Hit k \<Longrightarrow> k \<in> Ka"
      "\<And>k. ip_effect op = Hit k \<Longrightarrow> k \<in> Ki"
  shows "store_inv Kp now (al_login (auth_step now op s)) (after_effect now (pair_effect op) hp)
    \<and> store_inv Ka now (al_account (auth_step now op s)) (after_effect now (account_effect op) ha)
    \<and> store_inv Ki now (al_ip (auth_step now op s)) (after_effect now (ip_effect op) hi)"
proof -
  note p = store_inv_steps [OF assms(1) assms(4)] and a = store_inv_steps [OF assms(2) assms(4)]
    and i = store_inv_steps [OF assms(3) assms(4)]
  show ?thesis
  proof (cases op)
    case (Asked ip u)
    then show ?thesis using p(2) a(2) i(2) by (simp add: authRateLimitState_eq)
  qed (use p a i assms(5-7) in \<open>simp_all add: recordAuthFailure_def recordPasswordFailure_def
      clearAuthAccountFailures_def pruneAuthRateLimitState_def Let_def\<close>)
qed

fun hit_keys :: "(auth_op \<Rightarrow> effect) \<Rightarrow> (int \<times> auth_op) list \<Rightarrow> string set" where
  "hit_keys eff [] = {}"
| "hit_keys eff ((now, op) # ops) =
     (case eff op of Hit k \<Rightarrow> insert k (hit_keys eff ops) | _ \<Rightarrow> hit_keys eff ops)"

lemma finite_hit_keys: "finite (hit_keys eff ops)"
  by (induction eff ops rule: hit_keys.induct) (auto split: effect.splits)

lemma hit_keys_in: "(now, op) \<in> set ops \<Longrightarrow> eff op = Hit k \<Longrightarrow> k \<in> hit_keys eff ops"
  by (induction eff ops rule: hit_keys.induct) (auto split: effect.splits)

lemma auth_run_inv:
  assumes "sorted (since # map fst ops)" "\<forall>t \<in> set (map fst ops). t \<le> now" "since \<le> now"
    and "store_inv Kp since (al_login s) hp" "store_inv Ka since (al_account s) ha" "store_inv Ki since (al_ip s) hi"
    and "hit_keys pair_effect ops \<subseteq> Kp" "hit_keys account_effect ops \<subseteq> Ka" "hit_keys ip_effect ops \<subseteq> Ki"
  shows "store_inv Kp now (al_login (foldl (\<lambda>s (now, op). auth_step now op s) s ops))
      (foldl (\<lambda>hist (now, op). after_effect now (pair_effect op) hist) hp ops)
    \<and> store_inv Ka now (al_account (foldl (\<lambda>s (now, op). auth_step now op s) s ops))
      (foldl (\<lambda>hist (now, op). after_effect now (account_effect op) hist) ha ops)
    \<and> store_inv Ki now (al_ip (foldl (\<lambda>s (now, op). auth_step now op s) s ops))
      (foldl (\<lambda>hist (now, op). after_effect now (ip_effect op) hist) hi ops)"
  using assms
proof (induction ops arbitrary: since s hp ha hi)
  case Nil
  then show ?case using store_inv_steps(1) by simp
next
  case (Cons x ops)
  obtain t op where x: "x = (t, op)" by (cases x)
  have "pair_effect op = Hit k \<Longrightarrow> k \<in> Kp" "account_effect op = Hit k \<Longrightarrow> k \<in> Ka" "ip_effect op = Hit k \<Longrightarrow> k \<in> Ki" for k
    using Cons.prems(7-9) by (auto simp: x)
  note step = auth_step_inv [OF Cons.prems(4-6) _ this]
  have sub: "hit_keys eff ops \<subseteq> hit_keys eff (x # ops)" for eff
    by (auto simp: x split: effect.splits)
  have "since \<le> t" "sorted (t # map fst ops)" "t \<le> now" using Cons.prems(1,2) by (simp_all add: x)
  with step [of t] show ?case
    using Cons.IH [of t "auth_step t op s" "after_effect t (pair_effect op) hp" "after_effect t (account_effect op) ha"
        "after_effect t (ip_effect op) hi"] Cons.prems(2) subset_trans [OF sub Cons.prems(7)]
      subset_trans [OF sub Cons.prems(8)] subset_trans [OF sub Cons.prems(9)]
    by (simp add: x)
qed

lemma first_block_limited:
  "rl_limited (first_block now checks) \<longleftrightarrow>
     (\<exists>(e, threshold) \<in> set checks. \<exists>x. e = Some x \<and> threshold \<le> fe_count x \<and> now < fe_lastFailAt x + login_block_ms)"
  by (induction now checks rule: first_block.induct) (auto simp: Let_def not_le split: option.splits)

lemma first_block_retry:
  assumes "\<forall>(e, _) \<in> set checks. \<forall>x. e = Some x \<longrightarrow> fe_lastFailAt x \<le> now"
  shows "(if rl_limited (first_block now checks) then 1 \<le> rl_retryAfterSeconds (first_block now checks)
      \<and> rl_retryAfterSeconds (first_block now checks) \<le> 900 else rl_retryAfterSeconds (first_block now checks) = 0)"
  using assms
proof (induction now checks rule: first_block.induct)
  case (2 now entry threshold checks)
  have "\<lceil>rat_of_int (fe_lastFailAt x + login_block_ms - now) / 1000\<rceil> \<le> 900" if "fe_lastFailAt x \<le> now" for x :: failure_entry
    using that by (simp add: ceiling_le_iff login_block_ms_def)
  then show ?case using 2 by (auto simp: Let_def split: option.splits)
qed simp

lemma after_effect_past:
  "\<forall>k. \<forall>t \<in> set (h k). t \<le> now \<Longrightarrow> t' \<le> now \<Longrightarrow> \<forall>k. \<forall>t \<in> set (after_effect t' e h k). t \<le> now"
  by (cases e) auto

lemma failures_past:
  assumes "\<forall>t \<in> fst ` set ops. t \<le> now" "\<forall>k. \<forall>t \<in> set (h k). t \<le> now"
  shows "\<forall>t \<in> set (foldl (\<lambda>hist (now, op). after_effect now (eff op) hist) h ops k). t \<le> now"
  using assms
proof (induction ops arbitrary: h)
  case (Cons x ops)
  obtain t op where x: "x = (t, op)" by (cases x)
  then have "t \<le> now" using Cons.prems(1) by simp
  from Cons.IH [OF _ after_effect_past [OF Cons.prems(2) this]] Cons.prems(1) show ?case by (simp add: x)
qed simp

definition blocked_by :: "int list \<Rightarrow> int \<Rightarrow> int \<Rightarrow> bool" where
  "blocked_by ts threshold now = (threshold \<le> streak_back (rev ts) \<and> now < last ts + login_block_ms)"

lemma spec_entry_blocked:
  assumes "0 < threshold"
  shows "(\<exists>x. spec_entry ts now = Some x \<and> threshold \<le> fe_count x \<and> now < fe_lastFailAt x + login_block_ms)
    \<longleftrightarrow> blocked_by ts threshold now"
  using assms by (cases "ts = []") (auto simp: spec_entry_def blocked_by_def login_fail_window_ms_def login_block_ms_def)

text \<open>
  With more keys than a table holds, streaks can be forgotten.  What is stored is never longer than the streak of the history.
\<close>

definition no_longer :: "int \<Rightarrow> failure_store \<Rightarrow> (string \<Rightarrow> int list) \<Rightarrow> bool" where
  "no_longer since store hist \<longleftrightarrow> jm_ok store \<and>
     (\<forall>k t e. since \<le> t \<longrightarrow> live_entry store k t = Some e \<longrightarrow>
        (\<exists>x. spec_entry (hist k) t = Some x \<and> fe_count e \<le> fe_count x \<and> fe_lastFailAt e = fe_lastFailAt x))"

lemma no_longerD:
  "no_longer since store hist \<Longrightarrow> since \<le> t \<Longrightarrow> live_entry store k t = Some e \<Longrightarrow>
     \<exists>x. spec_entry (hist k) t = Some x \<and> fe_count e \<le> fe_count x \<and> fe_lastFailAt e = fe_lastFailAt x"
  by (simp add: no_longer_def)

lemma no_longer_del:
  assumes "no_longer now store hist"
  shows "no_longer now (jm_del key store) hist" "no_longer now (jm_del key store) (hist(key := []))"
  using assms by (auto simp: no_longer_def live_entry_def)

lemma no_longer_prune:
  assumes "no_longer now store hist"
  shows "no_longer now (jm_prune P store) hist"
proof -
  have ok: "jm_ok store" using assms by (simp add: no_longer_def)
  have "live_entry (jm_prune P store) k t = Some e \<Longrightarrow> live_entry store k t = Some e" for k t e
    by (auto simp: live_entry_def jm_get_prune [OF ok] split: option.splits if_splits)
  then show ?thesis using assms by (simp add: no_longer_def)
qed

lemma setBoundedMapValue_others:
  assumes "jm_ok m" "jm_get (setBoundedMapValue m key v maxSize) k = Some w" "k \<noteq> key"
  shows "jm_get m k = Some w"
proof -
  define n where "n = Suc (length (jm_del key m)) - nat (max 1 maxSize)"
  have "jm_get (drop n (jm_del key m)) k = Some w"
    using assms(2,3) by (simp add: setBoundedMapValue_eq Let_def n_def map_add_def split: option.splits)
  then have "jm_get (jm_del key m) k = Some w" using assms(1) by (intro drop_get [of "jm_del key m"]) simp_all
  then show ?thesis using assms(3) by simp
qed

lemma streak_back_pos: "ts \<noteq> [] \<Longrightarrow> 1 \<le> streak_back ts"
  by (induction ts rule: streak_back.induct) auto

lemma no_longer_hit:
  assumes nl: "no_longer now store hist"
  shows "no_longer now (recordFailure store key now) (hist(key := hist key @ [now]))"
proof -
  define st where "st = snd (activeFailureEntry store key now)"
  define e where "e = (case live_entry store key now of
      Some x \<Rightarrow> \<lparr>fe_count = fe_count x + 1, fe_lastFailAt = now\<rparr> | None \<Rightarrow> \<lparr>fe_count = 1, fe_lastFailAt = now\<rparr>)"
  have rec: "recordFailure store key now = setBoundedMapValue st key e auth_max_keys"
    by (simp add: recordFailure_def activeFailureEntry_eq st_def e_def split: option.splits)
  have st: "no_longer now st hist" using nl no_longer_del(1) [OF nl] by (simp add: st_def activeFailureEntry_eq)
  then have ok: "jm_ok st" by (simp add: no_longer_def)
  have count: "fe_count e \<le> streak_back (rev (hist key @ [now]))" "fe_lastFailAt e = now"
  proof -
    show "fe_lastFailAt e = now" by (simp add: e_def split: option.split)
    show "fe_count e \<le> streak_back (rev (hist key @ [now]))"
    proof (cases "live_entry store key now")
      case None
      then show ?thesis using streak_back_pos [of "rev (hist key @ [now])"] by (simp add: e_def)
    next
      case (Some x)
      from no_longerD [OF nl order_refl Some] show ?thesis
        unfolding streak_back_snoc e_def Some by (auto simp: spec_entry_def split: if_splits)
    qed
  qed
  have "\<exists>x. spec_entry ((hist(key := hist key @ [now])) k) t = Some x \<and> fe_count d \<le> fe_count x \<and> fe_lastFailAt d = fe_lastFailAt x"
    if d: "now \<le> t" "live_entry (recordFailure store key now) k t = Some d" for k t d
  proof (cases "k = key")
    case True
    then have "d = e" "t - now < login_fail_window_ms"
      using d(2) count(2) setBoundedMapValue_get [of st key e auth_max_keys] by (auto simp: live_entry_def rec split: if_splits)
    then show ?thesis using True count by (simp add: spec_entry_def)
  next
    case False
    have "live_entry st k t = Some d"
      using d(2) setBoundedMapValue_others [OF ok _ False] by (auto simp: live_entry_def rec split: option.splits)
    then show ?thesis using no_longerD [OF st d(1)] False by simp
  qed
  then show ?thesis using setBoundedMapValue_ok [OF ok] by (simp add: no_longer_def rec)
qed

lemma no_longer_later: "no_longer since store hist \<Longrightarrow> since \<le> now \<Longrightarrow> no_longer now store hist"
  by (simp add: no_longer_def)

lemma no_longer_step:
  assumes "no_longer since (al_login s) hp" "no_longer since (al_account s) ha" "no_longer since (al_ip s) hi" "since \<le> now"
  shows "no_longer now (al_login (auth_step now op s)) (after_effect now (pair_effect op) hp)
    \<and> no_longer now (al_account (auth_step now op s)) (after_effect now (account_effect op) ha)
    \<and> no_longer now (al_ip (auth_step now op s)) (after_effect now (ip_effect op) hi)"
proof -
  note p = no_longer_later [OF assms(1,4)] and a = no_longer_later [OF assms(2,4)] and i = no_longer_later [OF assms(3,4)]
  have asked: "no_longer now (snd (activeFailureEntry store k now)) h" if "no_longer now store h" for store k h
    using that no_longer_del(1) [OF that] by (simp add: activeFailureEntry_eq)
  show ?thesis
    by (cases op) (use p a i in \<open>simp_all add: recordAuthFailure_def recordPasswordFailure_def no_longer_hit no_longer_del asked
        authRateLimitState_eq clearAuthAccountFailures_def pruneAuthRateLimitState_def pruneMapEntries_def no_longer_prune Let_def\<close>)
qed

lemma no_longer_run:
  assumes "sorted (since # map fst ops)" "\<forall>t \<in> set (map fst ops). t \<le> now" "since \<le> now"
    and "no_longer since (al_login s) hp" "no_longer since (al_account s) ha" "no_longer since (al_ip s) hi"
  shows "no_longer now (al_login (foldl (\<lambda>s (now, op). auth_step now op s) s ops))
      (foldl (\<lambda>hist (now, op). after_effect now (pair_effect op) hist) hp ops)
    \<and> no_longer now (al_account (foldl (\<lambda>s (now, op). auth_step now op s) s ops))
      (foldl (\<lambda>hist (now, op). after_effect now (account_effect op) hist) ha ops)
    \<and> no_longer now (al_ip (foldl (\<lambda>s (now, op). auth_step now op s) s ops))
      (foldl (\<lambda>hist (now, op). after_effect now (ip_effect op) hist) hi ops)"
  using assms
proof (induction ops arbitrary: since s hp ha hi)
  case Nil
  then show ?case using no_longer_later by simp
next
  case (Cons x ops)
  obtain t op where x: "x = (t, op)" by (cases x)
  have "since \<le> t" "sorted (t # map fst ops)" "t \<le> now" using Cons.prems(1,2) by (simp_all add: x)
  with no_longer_step [OF Cons.prems(4-6), of t op] show ?case
    using Cons.IH [of t "auth_step t op s" "after_effect t (pair_effect op) hp" "after_effect t (account_effect op) ha"
        "after_effect t (ip_effect op) hi"] Cons.prems(2) by (simp add: x)
qed

lemma no_longer_blocked:
  assumes "no_longer now store hist" "live_entry store k now = Some e" "threshold \<le> fe_count e" "now < fe_lastFailAt e + login_block_ms"
  shows "blocked_by (hist k) threshold now"
  using no_longerD [OF assms(1) order_refl assms(2)] assms(3,4) by (auto simp: blocked_by_def spec_entry_def split: if_splits)

text \<open>
  C8. The lock-out follows the failure history.  After any sequence of failures, successes, queries and sweeps in time order, a
  user is refused only for one of three streaks of failures (each less than half an hour after the one before) that is long enough
  and whose last failure is less than 15 minutes ago: 8 for the address and account together, 8 two-factor failures for
  the account from anywhere, or 40 for the address; a success ends the first two but not the third.  As long as no scope has seen
  failures of more than 50,000 different keys, a user is refused exactly then.  (Beyond that the panel forgets the oldest
  keys, and a refusal may be missed.)  The wait announced is between 1 second and 15 minutes.
\<close>

theorem lockout_follows_history:
  fixes ip u :: string
  assumes "sorted (map fst ops)" and "\<forall>t \<in> fst ` set ops. t \<le> now"
  defines "result \<equiv> fst (authRateLimitState ip u now (auth_run ops))"
    and "blocked \<equiv> blocked_by (failures_of pair_effect ops (getAuthAttemptKey ip u)) 8 now
      \<or> blocked_by (failures_of account_effect ops (normalizeUsername u)) 8 now
      \<or> blocked_by (failures_of ip_effect ops (normalizeIp ip)) 40 now"
  shows "(rl_limited result \<longrightarrow> blocked) \<and>
    ((\<forall>eff \<in> {pair_effect, account_effect, ip_effect}. card (hit_keys eff ops) \<le> nat auth_max_keys) \<longrightarrow>
      rl_limited result = blocked) \<and>
    (rl_limited result = (1 \<le> rl_retryAfterSeconds result)) \<and> rl_retryAfterSeconds result \<in> {0..900}"
proof -
  define since where "since = (if ops = [] then now else fst (hd ops))"
  define s where "s = auth_run ops"
  have pre: "sorted (since # map fst ops)" "\<forall>t \<in> set (map fst ops). t \<le> now" "since \<le> now"
    using assms(1,2) by (cases ops; auto simp: since_def)+
  have s0: "al_login no_auth_limits = []" "al_account no_auth_limits = []" "al_ip no_auth_limits = []"
    by (simp_all add: no_auth_limits_def)
  let ?checks = "[(live_entry (al_login s) (getAuthAttemptKey ip u) now, 8),
     (live_entry (al_account s) (normalizeUsername u) now, 8), (live_entry (al_ip s) (normalizeIp ip) now, 40 :: int)]"
  have result: "result = first_block now ?checks"
    by (simp add: result_def s_def authRateLimitState_eq block_threshold_account_def block_threshold_ip_def del: first_block.simps)
  have "no_longer since [] (\<lambda>_. [])" by (simp add: no_longer_def live_entry_def)
  then have nl: "no_longer now (al_login s) (failures_of pair_effect ops)" "no_longer now (al_account s) (failures_of account_effect ops)"
    "no_longer now (al_ip s) (failures_of ip_effect ops)"
    using no_longer_run [OF pre, where s = no_auth_limits, unfolded s0] by (auto simp: s_def auth_run_def failures_of_def)
  have limited: "rl_limited result \<longleftrightarrow>
      (\<exists>x. live_entry (al_login s) (getAuthAttemptKey ip u) now = Some x \<and> 8 \<le> fe_count x \<and> now < fe_lastFailAt x + login_block_ms)
    \<or> (\<exists>x. live_entry (al_account s) (normalizeUsername u) now = Some x \<and> 8 \<le> fe_count x \<and> now < fe_lastFailAt x + login_block_ms)
    \<or> (\<exists>x. live_entry (al_ip s) (normalizeIp ip) now = Some x \<and> 40 \<le> fe_count x \<and> now < fe_lastFailAt x + login_block_ms)"
    unfolding result first_block_limited by (simp only: list.set bex_simps prod.case simp_thms)
  have only: "rl_limited result \<longrightarrow> blocked"
    unfolding limited blocked_def using no_longer_blocked [OF nl(1)] no_longer_blocked [OF nl(2)] no_longer_blocked [OF nl(3)] by metis
  have exact: "rl_limited result = blocked"
    if few: "\<forall>eff \<in> {pair_effect, account_effect, ip_effect}. card (hit_keys eff ops) \<le> nat auth_max_keys"
  proof -
    have init: "store_inv (hit_keys eff ops) since [] (\<lambda>_. [])" if "eff \<in> {pair_effect, account_effect, ip_effect}" for eff
      using that few by (auto simp: store_inv_def failures_track_def live_entry_def spec_entry_def finite_hit_keys)
    have tr: "failures_track now (al_login s) (failures_of pair_effect ops)" "failures_track now (al_account s) (failures_of account_effect ops)"
      "failures_track now (al_ip s) (failures_of ip_effect ops)"
      using auth_run_inv [OF pre, where s = no_auth_limits, unfolded s0, OF init init init]
      by (auto simp: store_inv_def auth_run_def s_def failures_of_def)
    have e: "0 < (8 :: int)" "0 < (40 :: int)" by simp_all
    have l: "live_entry (al_login s) k now = spec_entry (failures_of pair_effect ops k) now"
      "live_entry (al_account s) k now = spec_entry (failures_of account_effect ops k) now"
      "live_entry (al_ip s) k now = spec_entry (failures_of ip_effect ops k) now" for k
      using tr by (simp_all add: failures_track_def)
    show ?thesis unfolding limited blocked_def l spec_entry_blocked [OF e(1)] spec_entry_blocked [OF e(2)] ..
  qed
  have upto: "t \<le> now" if "t \<in> set (failures_of eff ops k)" for t eff k
    using failures_past [of ops now "\<lambda>_. []" eff k] assms(2) that by (auto simp: failures_of_def)
  have past: "fe_lastFailAt x \<le> now" if "no_longer now store (failures_of eff ops)" "live_entry store k now = Some x" for store eff k x
    using no_longerD [OF that(1) order_refl that(2)] upto [OF last_in_set, of eff k] by (auto simp: spec_entry_def split: if_splits)
  have "\<forall>(e, _) \<in> set ?checks. \<forall>x. e = Some x \<longrightarrow> fe_lastFailAt x \<le> now"
    using past [OF nl(1)] past [OF nl(2)] past [OF nl(3)] by simp
  note retry = first_block_retry [OF this, folded result]
  show ?thesis using only exact retry by (cases "rl_limited result") simp_all
qed

theorem lockout_follows_history_witness:
  "let ops = map (\<lambda>t. (t, PasswordFailed ''198.51.100.7'' ''bob'')) [0, 1, 2, 3, 4, 5, 6, 7]
   in rl_limited (fst (authRateLimitState ''198.51.100.7'' ''bob'' 8 (auth_run ops)))"
proof -
  let ?ops = "map (\<lambda>t. (t, PasswordFailed ''198.51.100.7'' ''bob'')) [0, 1, 2, 3, 4, 5, 6, 7]"
  have cards: "\<forall>eff \<in> {pair_effect, account_effect, ip_effect}. card (hit_keys eff ?ops) \<le> nat auth_max_keys"
    by (simp add: auth_max_keys_def)
  have "failures_of pair_effect ?ops (getAuthAttemptKey ''198.51.100.7'' ''bob'') = [0, 1, 2, 3, 4, 5, 6, 7]"
    by (simp add: failures_of_def)
  then have "blocked_by (failures_of pair_effect ?ops (getAuthAttemptKey ''198.51.100.7'' ''bob'')) 8 8"
    by (simp add: blocked_by_def login_fail_window_ms_def login_block_ms_def)
  then show ?thesis
    using lockout_follows_history [of ?ops 8 "''198.51.100.7''" "''bob''"] cards by (simp add: Let_def)
qed

section \<open>The life of a two-factor challenge\<close>

datatype challenge_op =
    Created string int string bool string
  | Looked string "string option"
  | FailedCode string
  | Dropped string

fun challenge_step :: "int \<Rightarrow> challenge_op \<Rightarrow> challenges \<Rightarrow> challenges" where
  "challenge_step now (Created cid userId username mobile ip) cs =
     createTwoFactorChallenge now cid userId username mobile ip cs"
| "challenge_step now (Looked cid ip) cs = snd (getTwoFactorChallenge now cid ip cs)"
| "challenge_step now (FailedCode cid) cs = snd (recordTwoFactorChallengeFailure now cid cs)"
| "challenge_step now (Dropped cid) cs = clearTwoFactorChallenge cid cs"

definition challenge_run :: "(int \<times> challenge_op) list \<Rightarrow> challenges \<Rightarrow> challenges" where
  "challenge_run ops cs = foldl (\<lambda>cs (now, op). challenge_step now op cs) cs ops"

definition failed_codes :: "string \<Rightarrow> (int \<times> challenge_op) list \<Rightarrow> nat" where
  "failed_codes cid ops = length (filter (\<lambda>(_, op). op = FailedCode cid) ops)"

definition creates :: "string \<Rightarrow> challenge_op \<Rightarrow> bool" where
  "creates cid op = (case op of Created c _ _ _ _ \<Rightarrow> c = cid | _ \<Rightarrow> False)"

text \<open>What the store holds for a challenge after \<open>n\<close> failures, until it expires.\<close>

definition expires_with :: "two_factor_challenge \<Rightarrow> two_factor_challenge \<Rightarrow> bool" where
  "expires_with c x = (tf_expiresAt x = tf_expiresAt c)"

lemma expires_with_failure [simp]: "expires_with c (x\<lparr>tf_attempts := n\<rparr>) = expires_with c x"
  by (simp add: expires_with_def)

lemma expires_with_self [simp]: "expires_with c c"
  by (simp add: expires_with_def)

definition challenge_state ::
  "string \<Rightarrow> two_factor_challenge \<Rightarrow> nat \<Rightarrow> bool \<Rightarrow> int \<Rightarrow> challenges \<Rightarrow> bool" where
  "challenge_state cid c n dropped since cs \<longleftrightarrow>
     jm_ok cs \<and> (if dropped \<or> 5 \<le> n then jm_get cs cid = None
      else since < tf_expiresAt c \<longrightarrow> jm_get cs cid = Some (c\<lparr>tf_attempts := int n\<rparr>))
     \<and> (\<forall>x. jm_get cs cid = Some x \<longrightarrow> expires_with c x)"

lemma challenge_step_get:
  assumes "jm_ok cs"
  shows "jm_get (challenge_step now (Looked c ip) cs) cid =
      (if c = cid \<and> (\<exists>x. jm_get cs cid = Some x \<and> tf_expiresAt x \<le> now) then None else jm_get cs cid)"
    and "jm_get (challenge_step now (FailedCode c) cs) cid =
      (if c = cid then
         (case jm_get cs cid of None \<Rightarrow> None
          | Some x \<Rightarrow> if tf_expiresAt x \<le> now \<or> 5 \<le> tf_attempts x + 1 then None
                      else Some (x\<lparr>tf_attempts := tf_attempts x + 1\<rparr>))
       else jm_get cs cid)"
    and "jm_get (challenge_step now (Dropped c) cs) cid = (if c = cid then None else jm_get cs cid)"
    and "c \<noteq> cid \<Longrightarrow> jm_get (challenge_step now (Created c userId username mobile ip') cs) cid =
      (case jm_get cs cid of None \<Rightarrow> None | Some x \<Rightarrow> if tf_expiresAt x \<le> now then None else Some x)"
    and "jm_ok (challenge_step now op cs)"
proof -
  show "jm_get (challenge_step now (Looked c ip) cs) cid =
      (if c = cid \<and> (\<exists>x. jm_get cs cid = Some x \<and> tf_expiresAt x \<le> now) then None else jm_get cs cid)"
    by (simp add: getTwoFactorChallenge_def split: option.split)
  show "jm_get (challenge_step now (FailedCode c) cs) cid =
      (if c = cid then
         (case jm_get cs cid of None \<Rightarrow> None
          | Some x \<Rightarrow> if tf_expiresAt x \<le> now \<or> 5 \<le> tf_attempts x + 1 then None
                      else Some (x\<lparr>tf_attempts := tf_attempts x + 1\<rparr>))
       else jm_get cs cid)"
    by (simp add: recordTwoFactorChallengeFailure_def getTwoFactorChallenge_def challenge_max_attempts_def Let_def
        split: option.split)
  show "jm_get (challenge_step now (Dropped c) cs) cid = (if c = cid then None else jm_get cs cid)"
    by (simp add: clearTwoFactorChallenge_def)
  show "c \<noteq> cid \<Longrightarrow> jm_get (challenge_step now (Created c userId username mobile ip') cs) cid =
      (case jm_get cs cid of None \<Rightarrow> None | Some x \<Rightarrow> if tf_expiresAt x \<le> now then None else Some x)"
    using assms by (simp add: createTwoFactorChallenge_def pruneExpired_def jm_get_prune)
  show "jm_ok (challenge_step now op cs)"
    using assms by (cases op) (simp_all add: createTwoFactorChallenge_def pruneExpired_def getTwoFactorChallenge_def
        recordTwoFactorChallengeFailure_def clearTwoFactorChallenge_def Let_def split: option.split)
qed

declare challenge_step.simps [simp del]

lemma challenge_state_dead:
  "dropped \<or> 5 \<le> n \<Longrightarrow> challenge_state cid c n dropped since cs \<longleftrightarrow> jm_ok cs \<and> jm_get cs cid = None"
  by (auto simp: challenge_state_def)

lemma challenge_state_alive:
  "\<not> dropped \<Longrightarrow> n < 5 \<Longrightarrow> challenge_state cid c n dropped since cs \<longleftrightarrow>
     jm_ok cs \<and> (since < tf_expiresAt c \<longrightarrow> jm_get cs cid = Some (c\<lparr>tf_attempts := int n\<rparr>))
     \<and> (\<forall>x. jm_get cs cid = Some x \<longrightarrow> expires_with c x)"
  by (simp add: challenge_state_def)

lemma challenge_state_step:
  assumes "challenge_state cid c n dropped since cs" "since \<le> now" "\<not> creates cid op"
  shows "challenge_state cid c (n + (if op = FailedCode cid then 1 else 0)) (dropped \<or> op = Dropped cid) now
    (challenge_step now op cs)"
proof -
  have ok: "jm_ok cs" using assms(1) by (simp add: challenge_state_def)
  note get = challenge_step_get [OF ok]
  have fresh: "c' \<noteq> cid" if "op = Created c' userId username mobile ip" for c' userId username mobile ip
    using assms(3) that by (auto simp: creates_def)
  show ?thesis
  proof (cases "dropped \<or> 5 \<le> n")
    case True
    then have none: "jm_get cs cid = None" using assms(1) by (simp add: challenge_state_dead)
    have "jm_get (challenge_step now op cs) cid = None"
      by (cases op) (simp_all add: get none fresh)
    moreover have "(dropped \<or> op = Dropped cid) \<or> 5 \<le> n + (if op = FailedCode cid then 1 else 0)" using True by auto
    ultimately show ?thesis using get(5) by (simp add: challenge_state_dead)
  next
    case False
    then have st: "now < tf_expiresAt c \<Longrightarrow> jm_get cs cid = Some (c\<lparr>tf_attempts := int n\<rparr>)"
      "\<And>x. jm_get cs cid = Some x \<Longrightarrow> expires_with c x"
      using assms(1,2) by (simp_all add: challenge_state_alive)
    have le: "expires_with c x"
      if "jm_get (challenge_step now op cs) cid = Some x" for x
      using that st(2) by (cases op) (auto simp: get fresh split: if_splits option.splits)
    consider (failed) "op = FailedCode cid" | (dropped) "op = Dropped cid" | (other) "op \<noteq> FailedCode cid" "op \<noteq> Dropped cid"
      by blast
    then show ?thesis
    proof cases
      case failed
      show ?thesis
      proof (cases "n = 4")
        case True
        then have "jm_get (challenge_step now op cs) cid = None"
          using st by (cases "now < tf_expiresAt c") (auto simp: failed get expires_with_def split: option.splits)
        then show ?thesis using get(5) failed True by (simp add: challenge_state_dead)
      next
        case nf: False
        then have "now < tf_expiresAt c \<Longrightarrow>
            jm_get (challenge_step now op cs) cid = Some (c\<lparr>tf_attempts := int (n + 1)\<rparr>)"
          using st False by (simp add: failed get add.commute)
        then show ?thesis using get(5) le nf False failed by (simp add: challenge_state_alive)
      qed
    next
      case dropped
      then show ?thesis using get(5) by (simp add: challenge_state_dead get(3))
    next
      case other
      have "now < tf_expiresAt c \<Longrightarrow> jm_get (challenge_step now op cs) cid = Some (c\<lparr>tf_attempts := int n\<rparr>)"
        using st(1) other by (cases op) (auto simp: get fresh)
      then show ?thesis using get(5) le False other by (simp add: challenge_state_alive)
    qed
  qed
qed

lemma challenge_state_run:
  assumes "challenge_state cid c n dropped since cs" "sorted (since # map fst ops)"
    "\<forall>op \<in> snd ` set ops. \<not> creates cid op" "\<forall>t \<in> fst ` set ops. t \<le> now" "since \<le> now"
  shows "challenge_state cid c (n + failed_codes cid ops) (dropped \<or> Dropped cid \<in> snd ` set ops) now (challenge_run ops cs)"
  using assms
proof (induction ops arbitrary: n dropped since cs)
  case Nil
  then show ?case by (auto simp: challenge_state_def challenge_run_def failed_codes_def split: if_splits)
next
  case (Cons x ops)
  obtain t op where x: "x = (t, op)" by (cases x)
  have le: "since \<le> t" "sorted (t # map fst ops)" "t \<le> now" and nc: "\<not> creates cid op"
    using Cons.prems by (simp_all add: x)
  show ?case
    using Cons.IH [OF challenge_state_step [OF Cons.prems(1) le(1) nc] le(2) _ _ le(3)] Cons.prems(3,4)
    by (cases "op = FailedCode cid"; cases "op = Dropped cid") (auto simp: x challenge_run_def failed_codes_def)
qed

text \<open>
  A challenge lives for five minutes and five wrong codes.  After a challenge is created, whatever
  happens to it and to other challenges in time order (its identifier being fresh), looking it up from
  an address succeeds exactly when fewer than five minutes have passed, fewer than five wrong codes were
  recorded for it, it was not dropped, and the address matches the one that created it (an unknown address
  on either side matches); it is then the challenge of that user with the number of failures so far.
\<close>

theorem two_factor_challenge_lifecycle:
  assumes "jm_ok cs" and "sorted (t0 # map fst ops)" and "\<forall>t \<in> fst ` set ops. t \<le> now" and "t0 \<le> now"
    and "\<forall>op \<in> snd ` set ops. \<not> creates cid op"
  shows "fst (getTwoFactorChallenge now cid (Some ip')
          (challenge_run ops (createTwoFactorChallenge t0 cid userId username mobile ip cs))) =
    (if now < t0 + challenge_ttl_ms \<and> failed_codes cid ops < 5 \<and> Dropped cid \<notin> snd ` set ops
        \<and> challengeIpMatches (normalizeIp ip) ip'
     then Some \<lparr>tf_userId = userId, tf_username = username, tf_mobile = mobile, tf_issueIp = normalizeIp ip,
            tf_expiresAt = t0 + challenge_ttl_ms, tf_attempts = int (failed_codes cid ops)\<rparr>
     else None)"
proof -
  let ?c = "\<lparr>tf_userId = userId, tf_username = username, tf_mobile = mobile, tf_issueIp = normalizeIp ip,
      tf_expiresAt = t0 + challenge_ttl_ms, tf_attempts = 0\<rparr>"
  let ?cs = "challenge_run ops (createTwoFactorChallenge t0 cid userId username mobile ip cs)"
  have "challenge_state cid ?c 0 False t0 (createTwoFactorChallenge t0 cid userId username mobile ip cs)"
    using assms(1) by (simp add: challenge_state_def createTwoFactorChallenge_def pruneExpired_def)
  then have "challenge_state cid ?c (failed_codes cid ops) (Dropped cid \<in> snd ` set ops) now ?cs"
    using challenge_state_run [of cid ?c 0 False t0 _ ops now] assms by simp
  then show ?thesis
    unfolding challenge_state_def getTwoFactorChallenge_def
    by (cases "jm_get ?cs cid") (auto simp: expires_with_def split: if_splits)
qed

theorem two_factor_challenge_lifecycle_witness:
  "let ops = [(1, FailedCode ''a''), (2, Created ''b'' 9 ''eve'' False ''x''), (3, FailedCode ''a'')]
   in map_option tf_attempts (fst (getTwoFactorChallenge 4 ''a'' (Some ''1.2.3.4'')
        (challenge_run ops (createTwoFactorChallenge 0 ''a'' 7 ''bob'' True '' 1.2.3.4'' [])))) = Some 2"
proof -
  let ?ops = "[(1, FailedCode ''a''), (2, Created ''b'' 9 ''eve'' False ''x''), (3, FailedCode ''a'')]"
  have m: "challengeIpMatches (normalizeIp '' 1.2.3.4'') ''1.2.3.4''"
    by (simp add: challengeIpMatches_def normalizeIp_def js_trim_def js_lower_def js_lower_char_def js_space_def Let_def)
  have "\<forall>op \<in> snd ` set ?ops. \<not> creates ''a'' op" by (simp add: creates_def)
  then show ?thesis
    using two_factor_challenge_lifecycle [of "[]" 0 ?ops 4 "''a''" "''1.2.3.4''" 7 "''bob''" True "'' 1.2.3.4''"] m
    by (simp add: challenge_ttl_ms_def failed_codes_def)
qed

end
