(* ===== verification/Timers.thy ===== *)
theory Timers
imports FX_Prelude
begin

text \<open>
  The timers of the JavaScript run time, which several components keep one of per host or group.
  \<open>setTimeout\<close> gives a handle that is never given again, \<open>clearTimeout\<close> makes it silent, and a
  timer that is still set may fire.  The table records when a timer is due, but the components are
  proved for a run time that may fire it at any moment, early ticks included.  The contract is the
  locale \<open>timer_service\<close>; what a component with one timer per key needs from it, that every running
  timer belongs to the key that waits for it, is proved there once.
\<close>

record 'c timer_table =
  tt_next :: nat
  tt_live :: "(nat, int \<times> 'c) jmap"

definition no_timers :: "'c timer_table" where
  "no_timers = \<lparr>tt_next = 0, tt_live = []\<rparr>"

definition set_timer :: "int \<Rightarrow> 'c \<Rightarrow> 'c timer_table \<Rightarrow> nat \<times> 'c timer_table" where
  "set_timer due callback tt =
     (tt_next tt, tt\<lparr>tt_next := Suc (tt_next tt), tt_live := jm_set (tt_next tt) (due, callback) (tt_live tt)\<rparr>)"

definition clear_timer :: "nat \<Rightarrow> 'c timer_table \<Rightarrow> 'c timer_table" where
  "clear_timer i tt = tt\<lparr>tt_live := jm_del i (tt_live tt)\<rparr>"

text \<open>\<open>if (timer) clearTimeout(timer)\<close>.\<close>

definition clear_timer_opt :: "nat option \<Rightarrow> 'c timer_table \<Rightarrow> 'c timer_table" where
  "clear_timer_opt t tt = (case t of None \<Rightarrow> tt | Some i \<Rightarrow> clear_timer i tt)"

definition timer_ok :: "'c timer_table \<Rightarrow> bool" where
  "timer_ok tt = (\<forall>i \<in> set (jm_keys (tt_live tt)). i < tt_next tt)"

definition live_timer :: "'c timer_table \<Rightarrow> nat \<Rightarrow> (int \<times> 'c) option" where
  "live_timer tt i = jm_get (tt_live tt) i"

locale timer_service =
  fixes ok :: "'s \<Rightarrow> bool"
    and live :: "'s \<Rightarrow> nat \<Rightarrow> (int \<times> 'c) option"
    and set_t :: "int \<Rightarrow> 'c \<Rightarrow> 's \<Rightarrow> nat \<times> 's"
    and clear_t :: "nat \<Rightarrow> 's \<Rightarrow> 's"
  assumes set_ok: "ok s \<Longrightarrow> ok (snd (set_t due c s))"
    and set_fresh: "ok s \<Longrightarrow> live s (fst (set_t due c s)) = None"
    and set_live: "ok s \<Longrightarrow> live (snd (set_t due c s)) = (live s)(fst (set_t due c s) \<mapsto> (due, c))"
    and clear_ok: "ok s \<Longrightarrow> ok (clear_t i s)"
    and clear_live: "ok s \<Longrightarrow> live (clear_t i s) = (live s)(i := None)"
begin

text \<open>Every key that waits has its own running timer, and there is no other timer.\<close>

definition matches :: "('c \<Rightarrow> 'k) \<Rightarrow> ('k \<Rightarrow> nat option) \<Rightarrow> 's \<Rightarrow> bool" where
  "matches key owner s \<longleftrightarrow> ok s
     \<and> (\<forall>k i. owner k = Some i \<longrightarrow> (\<exists>due c. live s i = Some (due, c) \<and> key c = k))
     \<and> (\<forall>i due c. live s i = Some (due, c) \<longrightarrow> owner (key c) = Some i)"

lemma matches_none: "ok s \<Longrightarrow> (\<And>i. live s i = None) \<Longrightarrow> matches key (\<lambda>_. None) s"
  by (simp add: matches_def)

lemma matches_owner:
  "matches key owner s \<Longrightarrow> live s i = Some (due, c) \<Longrightarrow> owner (key c) = Some i"
  by (simp add: matches_def)

lemma matches_live:
  "matches key owner s \<Longrightarrow> owner k = Some i \<Longrightarrow> \<exists>due c. live s i = Some (due, c) \<and> key c = k"
  by (simp add: matches_def)

lemma matches_disarm:
  assumes "matches key owner s" "owner k = Some i"
  shows "matches key (owner(k := None)) (clear_t i s)"
proof -
  have ok: "ok s" and own: "\<And>k i. owner k = Some i \<Longrightarrow> \<exists>due c. live s i = Some (due, c) \<and> key c = k"
    and bwd: "\<And>i due c. live s i = Some (due, c) \<Longrightarrow> owner (key c) = Some i"
    using assms(1) by (auto simp: matches_def)
  obtain due c where c: "live s i = Some (due, c)" "key c = k" using own [OF assms(2)] by blast
  have "j \<noteq> i" if "owner k' = Some j" "k' \<noteq> k" for k' j
    using own [OF that(1)] c that(2) by auto
  moreover have "key c' \<noteq> k" if "live s j = Some (d, c')" "j \<noteq> i" for j d c'
    using bwd [OF that(1)] assms(2) that(2) by auto
  ultimately show ?thesis
    using own bwd ok clear_ok [OF ok] unfolding matches_def clear_live [OF ok] by auto
qed

lemma matches_arm:
  assumes "matches key owner s" "owner k = None" "key c = k"
  shows "matches key (owner(k \<mapsto> fst (set_t due c s))) (snd (set_t due c s))"
proof -
  have ok: "ok s" and own: "\<And>k i. owner k = Some i \<Longrightarrow> \<exists>due c. live s i = Some (due, c) \<and> key c = k"
    and bwd: "\<And>i due c. live s i = Some (due, c) \<Longrightarrow> owner (key c) = Some i"
    using assms(1) by (auto simp: matches_def)
  let ?i = "fst (set_t due c s)"
  have fresh: "live s ?i = None" by (rule set_fresh [OF ok])
  have "j \<noteq> ?i" if "owner k' = Some j" for k' j
    using own [OF that] fresh by auto
  moreover have "key c' \<noteq> k" if "live s j = Some (d, c')" for j d c'
    using bwd [OF that] assms(2) by auto
  ultimately show ?thesis
    using own bwd set_ok [OF ok] assms(3) unfolding matches_def set_live [OF ok] by auto
qed

end

lemma live_timer_bound: "timer_ok tt \<Longrightarrow> live_timer tt i = Some x \<Longrightarrow> i < tt_next tt"
  by (force simp: timer_ok_def live_timer_def dest: jm_get_in_set)

lemma live_set_timer: "live_timer (snd (set_timer due c tt)) = (live_timer tt)(tt_next tt \<mapsto> (due, c))"
  by (auto simp: fun_eq_iff live_timer_def set_timer_def)

lemma live_clear_timer: "live_timer (clear_timer i tt) = (live_timer tt)(i := None)"
  by (auto simp: fun_eq_iff live_timer_def clear_timer_def)

lemma timer_ok_set: "timer_ok tt \<Longrightarrow> timer_ok (snd (set_timer due c tt))"
  by (auto simp: timer_ok_def set_timer_def jm_keys_set simp del: set_map intro: less_SucI)

lemma timer_ok_clear: "timer_ok tt \<Longrightarrow> timer_ok (clear_timer i tt)"
  by (auto simp: timer_ok_def clear_timer_def jm_keys_del simp del: set_map)

interpretation js_timers: timer_service timer_ok live_timer set_timer clear_timer
proof unfold_locales
  fix s :: "'c timer_table" and due c i
  assume ok: "timer_ok s"
  show "timer_ok (snd (set_timer due c s))" using ok by (rule timer_ok_set)
  show "live_timer s (fst (set_timer due c s)) = None"
    using live_timer_bound [OF ok] by (cases "live_timer s (tt_next s)") (auto simp: set_timer_def)
  show "live_timer (snd (set_timer due c s)) = (live_timer s)(fst (set_timer due c s) \<mapsto> (due, c))"
    unfolding live_set_timer by (simp add: set_timer_def)
  show "timer_ok (clear_timer i s)" using ok by (rule timer_ok_clear)
  show "live_timer (clear_timer i s) = (live_timer s)(i := None)" by (rule live_clear_timer)
qed

lemma matches_clear_opt:
  assumes "js_timers.matches key owner tt" "t = owner k"
  shows "js_timers.matches key (owner(k := None)) (clear_timer_opt t tt)"
proof (cases t)
  case None
  then have "owner(k := None) = owner" using assms(2) by (auto simp: fun_eq_iff)
  then show ?thesis using assms None by (simp add: clear_timer_opt_def)
next
  case (Some i)
  then show ?thesis
    using js_timers.matches_disarm [OF assms(1), of k i] assms(2) by (simp add: clear_timer_opt_def)
qed

lemma timers_match_init: "js_timers.matches key (\<lambda>_. None) no_timers"
  by (rule js_timers.matches_none) (simp_all add: timer_ok_def live_timer_def no_timers_def)

lemma live_clear_opt: "live_timer (clear_timer_opt t tt) i = (if t = Some i then None else live_timer tt i)"
  by (auto simp: clear_timer_opt_def live_clear_timer split: option.split)

lemma fst_set_timer: "fst (set_timer due c tt) = tt_next tt"
  by (simp add: set_timer_def)

end
