(* ===== verification/Agent_Versions.thy ===== *)
theory Agent_Versions
imports FX_Prelude "HOL-Library.List_Lexorder"
begin

text \<open>
  Agent versions (\<open>server/agentRouteUtils.ts\<close>): how two version texts are compared, and the questions
  the panel asks with it: whether an agent is new enough for a feature, whether an upgrade has reached
  its target and whether the reported version changed.  A version component of more than 15 digits,
  which a double would round, is taken exactly.
\<close>

definition normalizeVersion :: "string option \<Rightarrow> string" where
  "normalizeVersion version =
     (let v = js_trim (case version of Some s \<Rightarrow> s | None \<Rightarrow> [])
      in case v of c # r \<Rightarrow> if js_lower_char c = CHR ''v'' then r else v | [] \<Rightarrow> [])"

text \<open>\<open>split(/[.-]/)\<close> and \<open>Number.parseInt(x, 10) || 0\<close>.\<close>

fun version_parts :: "string \<Rightarrow> string list" where
  "version_parts [] = [[]]"
| "version_parts (x # xs) =
     (if x = CHR ''.'' \<or> x = CHR ''-'' then [] # version_parts xs
      else (case version_parts xs of [] \<Rightarrow> [[x]] | s # ss \<Rightarrow> (x # s) # ss))"

definition parse_int :: "string \<Rightarrow> int option" where
  "parse_int text =
     (let s = dropWhile js_space text;
          (neg, r) = (case s of c # t \<Rightarrow> if c = CHR ''-'' then (True, t) else if c = CHR ''+'' then (False, t) else (False, s)
                     | [] \<Rightarrow> (False, []));
          ds = takeWhile js_digit r
      in if ds = [] then None else Some (if neg then - int (digits_value ds) else int (digits_value ds)))"

definition version_numbers :: "string option \<Rightarrow> int list" where
  "version_numbers version =
     map (\<lambda>x. case parse_int x of Some n \<Rightarrow> n | None \<Rightarrow> 0) (version_parts (normalizeVersion version))"

definition version_field :: "int list \<Rightarrow> nat \<Rightarrow> int" where
  "version_field ns i = (if i < length ns then ns ! i else 0)"

fun compare_loop :: "int list \<Rightarrow> int list \<Rightarrow> nat list \<Rightarrow> int" where
  "compare_loop pa pb [] = 0"
| "compare_loop pa pb (i # rest) =
     (let diff = version_field pa i - version_field pb i
      in if diff \<noteq> 0 then (if 0 < diff then 1 else - 1) else compare_loop pa pb rest)"

definition compareVersions :: "string option \<Rightarrow> string option \<Rightarrow> int" where
  "compareVersions a b =
     (let pa = version_numbers a; pb = version_numbers b; len = max (length pa) (length pb)
      in compare_loop pa pb [0..<len])"

definition version_missing :: "string option \<Rightarrow> bool" where
  "version_missing v = (v = None \<or> v = Some [])"

definition isAgentVersionAtLeast :: "string option \<Rightarrow> string option \<Rightarrow> bool" where
  "isAgentVersionAtLeast version target =
     (if version_missing version \<or> version_missing target then False else 0 \<le> compareVersions version target)"

definition isAgentVersionBehind :: "string option \<Rightarrow> string option \<Rightarrow> bool" where
  "isAgentVersionBehind version target =
     (if version_missing version \<or> version_missing target then False else compareVersions version target < 0)"

definition isAgentUpgradeTargetSatisfied :: "string option \<Rightarrow> string option \<Rightarrow> string option \<Rightarrow> bool" where
  "isAgentUpgradeTargetSatisfied version target currentSupportedVersion =
     (if version_missing version \<or> version_missing target then False
      else
        (let normalizedVersion = normalizeVersion version; normalizedTarget = normalizeVersion target
         in if normalizedVersion = [] \<or> normalizedTarget = [] then False
            else if \<not> version_missing currentSupportedVersion
                \<and> compareVersions (Some normalizedTarget) currentSupportedVersion < 0
            then normalizedVersion = normalizedTarget
            else 0 \<le> compareVersions (Some normalizedVersion) (Some normalizedTarget)))"

definition hasAgentVersionChanged :: "string option \<Rightarrow> string option \<Rightarrow> bool" where
  "hasAgentVersionChanged previousVersion reportedVersion =
     (let reported = normalizeVersion reportedVersion
      in if reported = [] then False else reported \<noteq> normalizeVersion previousVersion)"

section \<open>The order\<close>

text \<open>The reference order: the numbers padded with zeros, compared lexicographically.\<close>

definition padded :: "nat \<Rightarrow> string option \<Rightarrow> int list" where
  "padded n v = map (version_field (version_numbers v)) [0..<n]"

lemma compare_loop_lex:
  "compare_loop pa pb idx =
     (if map (version_field pa) idx = map (version_field pb) idx then 0
      else if map (version_field pa) idx < map (version_field pb) idx then - 1 else 1)"
  by (induction pa pb idx rule: compare_loop.induct) (auto simp: Let_def)

lemma compare_loop_zero:
  "\<forall>i \<in> set idx. version_field pa i = version_field pb i \<Longrightarrow> compare_loop pa pb idx = 0"
  by (induction pa pb idx rule: compare_loop.induct) auto

lemma compare_loop_append:
  "compare_loop pa pb (xs @ ys) =
     (if compare_loop pa pb xs \<noteq> 0 then compare_loop pa pb xs else compare_loop pa pb ys)"
  by (induction pa pb xs rule: compare_loop.induct) (auto simp: Let_def)

lemma compareVersions_padded:
  assumes "length (version_numbers a) \<le> n" "length (version_numbers b) \<le> n"
  shows "compareVersions a b = (if padded n a = padded n b then 0 else if padded n a < padded n b then - 1 else 1)"
proof -
  let ?m = "max (length (version_numbers a)) (length (version_numbers b))"
  have "[0..<n] = [0..<?m] @ [?m..<n]" using assms by (metis upt_add_eq_append le_add_diff_inverse max.bounded_iff zero_le)
  moreover have "compare_loop (version_numbers a) (version_numbers b) [?m..<n] = 0"
    by (rule compare_loop_zero) (auto simp: version_field_def)
  ultimately have "compareVersions a b = compare_loop (version_numbers a) (version_numbers b) [0..<n]"
    by (simp add: compareVersions_def compare_loop_append Let_def)
  then show ?thesis by (simp only: compare_loop_lex padded_def)
qed

lemma compareVersions_nonneg_iff:
  assumes "length (version_numbers a) \<le> n" "length (version_numbers b) \<le> n"
  shows "0 \<le> compareVersions a b \<longleftrightarrow> padded n b \<le> padded n a"
  unfolding compareVersions_padded [OF assms] by (auto simp: not_le)

lemma common_length:
  "length (version_numbers a) \<le> length (version_numbers a) + length (version_numbers b) + length (version_numbers c)"
  "length (version_numbers b) \<le> length (version_numbers a) + length (version_numbers b) + length (version_numbers c)"
  "length (version_numbers c) \<le> length (version_numbers a) + length (version_numbers b) + length (version_numbers c)"
  by simp_all

text \<open>
  Versions are totally ordered by their numbers.  Comparing two versions is comparing their
  dot- or dash-separated numbers lexicographically with missing ones as zero, whatever length they are padded to; so the
  comparison is antisymmetric and transitive, of two given versions one is at least the other, "behind" is the
  opposite of "at least", and an agent that satisfies an upgrade target the panel supports still
  satisfies it after any further upgrade.
\<close>

theorem agent_versions_ordered:
  "(max (length (version_numbers a)) (length (version_numbers b)) \<le> n \<longrightarrow>
      compareVersions a b = (if padded n a = padded n b then 0 else if padded n a < padded n b then - 1 else 1))
    \<and> compareVersions b a = - compareVersions a b
    \<and> (0 \<le> compareVersions a b \<and> 0 \<le> compareVersions b c \<longrightarrow> 0 \<le> compareVersions a c)
    \<and> (\<not> version_missing a \<and> \<not> version_missing b \<longrightarrow>
        isAgentVersionBehind a b = (\<not> isAgentVersionAtLeast a b)
        \<and> (isAgentVersionAtLeast a b \<or> isAgentVersionAtLeast b a))
    \<and> (isAgentUpgradeTargetSatisfied a b None \<and> 0 \<le> compareVersions (Some (normalizeVersion c)) (Some (normalizeVersion a))
        \<and> normalizeVersion c \<noteq> [] \<and> \<not> version_missing c
        \<longrightarrow> isAgentUpgradeTargetSatisfied c b None)"
proof -
  have anti: "compareVersions b a = - compareVersions a b" for a b
    unfolding compareVersions_padded [OF common_length(1,2) [where a = a and b = b and c = None]]
      compareVersions_padded [OF common_length(2,1) [where a = a and b = b and c = None]]
    by (auto dest: order_antisym)
  have trans: "0 \<le> compareVersions a c" if "0 \<le> compareVersions a b" "0 \<le> compareVersions b c" for a b c
    using that
    unfolding compareVersions_nonneg_iff [OF common_length(1,2) [where a = a and b = b and c = c]]
      compareVersions_nonneg_iff [OF common_length(2,3) [where a = a and b = b and c = c]]
      compareVersions_nonneg_iff [OF common_length(1,3) [where a = a and b = b and c = c]] by (rule order_trans [rotated])
  show ?thesis
  proof (intro conjI impI)
    show "compareVersions a b = (if padded n a = padded n b then 0 else if padded n a < padded n b then - 1 else 1)"
      if "max (length (version_numbers a)) (length (version_numbers b)) \<le> n"
      using that by (intro compareVersions_padded) simp_all
    show "compareVersions b a = - compareVersions a b" by (rule anti)
    show "0 \<le> compareVersions a c" if "0 \<le> compareVersions a b \<and> 0 \<le> compareVersions b c"
      using that trans by blast
    show "isAgentVersionBehind a b = (\<not> isAgentVersionAtLeast a b)"
      and "isAgentVersionAtLeast a b \<or> isAgentVersionAtLeast b a"
      if "\<not> version_missing a \<and> \<not> version_missing b"
      using that anti [of a b] by (auto simp: isAgentVersionBehind_def isAgentVersionAtLeast_def)
    assume up: "isAgentUpgradeTargetSatisfied a b None \<and> 0 \<le> compareVersions (Some (normalizeVersion c)) (Some (normalizeVersion a))
        \<and> normalizeVersion c \<noteq> [] \<and> \<not> version_missing c"
    have none: "version_missing None" by (simp add: version_missing_def)
    from up have "0 \<le> compareVersions (Some (normalizeVersion a)) (Some (normalizeVersion b))"
      "normalizeVersion b \<noteq> []" "\<not> version_missing b"
      unfolding isAgentUpgradeTargetSatisfied_def Let_def by (simp_all add: none split: if_splits)
    moreover from this up have "0 \<le> compareVersions (Some (normalizeVersion c)) (Some (normalizeVersion b))"
      using trans by blast
    ultimately show "isAgentUpgradeTargetSatisfied c b None"
      using up none unfolding isAgentUpgradeTargetSatisfied_def Let_def by simp
  qed
qed

theorem agent_versions_ordered_witness:
  "compareVersions (Some ''v2.2.171'') (Some ''2.2.9'') = 1 \<and> compareVersions (Some ''2.2.9'') (Some ''v2.2.171'') = - 1
    \<and> isAgentVersionAtLeast (Some ''v2.2.171'') (Some ''2.2.9'')"
proof -
  have "compareVersions (Some ''v2.2.171'') (Some ''2.2.9'') = 1" by code_simp
  then show ?thesis
    using agent_versions_ordered [of "Some ''v2.2.171''" "Some ''2.2.9''" 3 None]
    by (simp add: isAgentVersionAtLeast_def version_missing_def)
qed

end
