(* ===== verification/Fast_Liveness.thy ===== *)
theory Fast_Liveness
imports Timers Agent_Versions
begin

text \<open>
  Fast liveness of agents (\<open>server/agentFastLiveness.ts\<close>): a host is declared offline once its agent has
  been silent for the configured time, at once when the timer fires, and back online at its next
  request.  Every transition carries an epoch, so that a consumer that awaited something can tell whether it is
  still the current one.

  The listeners of the tracker are the log \<open>lt_events\<close> of emitted transitions.  \<open>now\<close> is the clock during the
  handling of one call or timer.  \<open>parse\<close> stands for the run time's parsing of date texts.
\<close>

section \<open>State\<close>

record liveness_snapshot =
  lv_hostId :: int
  lv_agentVersion :: string
  lv_transitionEpoch :: int
  lv_lastSeenAt :: "rat option"
  lv_deadlineAt :: int
  lv_offlineAt :: "int option"
  lv_lastOfflineAt :: "int option"
  lv_confirmedOffline :: bool

record liveness_state = liveness_snapshot +
  lv_timerGeneration :: int
  lv_timer :: "nat option"

datatype transition_kind = ConfirmedOffline | ActivityRestored

record liveness_event =
  le_kind :: transition_kind
  le_state :: liveness_snapshot

record liveness_host =
  lh_hostId :: jsval
  lh_id :: jsval
  lh_agentVersion :: jsval
  lh_version :: jsval
  lh_isOnline :: jsval
  lh_lastHeartbeat :: time_value

record tracker =
  lt_silenceMs :: int
  lt_startupGraceMs :: int
  lt_hosts :: "(int, liveness_state) jmap"
  lt_epochCounter :: int
  lt_timers :: "(int \<times> int) timer_table"
  lt_events :: "liveness_event list"

definition fast_liveness_min_version :: string where "fast_liveness_min_version = ''2.2.171''"
definition fast_liveness_silence_ms :: int where "fast_liveness_silence_ms = 90000"
definition fast_liveness_startup_grace_ms :: int where "fast_liveness_startup_grace_ms = 90000"

definition new_tracker :: "int \<Rightarrow> int \<Rightarrow> tracker" where
  "new_tracker silenceMs graceMs =
     \<lparr>lt_silenceMs = max 1 silenceMs, lt_startupGraceMs = max 0 graceMs, lt_hosts = [],
      lt_epochCounter = 0, lt_timers = no_timers, lt_events = []\<rparr>"

section \<open>Operations\<close>

definition normalizedTimestamp :: "(string \<Rightarrow> rat option) \<Rightarrow> time_value \<Rightarrow> int \<Rightarrow> rat option" where
  "normalizedTimestamp parse v now =
     (let positive = (\<lambda>t. case t of Some x \<Rightarrow> if 0 < x then Some (min x (rat_of_int now)) else None | None \<Rightarrow> None)
      in case v of
           TDate t \<Rightarrow> positive t
         | TVal x \<Rightarrow>
             (case positive (js_number x) of
                Some t \<Rightarrow> Some t
              | None \<Rightarrow> positive (parse (js_string (js_or x (JStr [])))) ))"

definition snapshot_of :: "liveness_state \<Rightarrow> liveness_snapshot" where
  "snapshot_of state = liveness_snapshot.truncate state"

definition supportsAgentFastLiveness :: "jsval \<Rightarrow> bool" where
  "supportsAgentFastLiveness agentVersion =
     isAgentVersionAtLeast (Some (js_string (js_or agentVersion (JStr [])))) (Some fast_liveness_min_version)"

definition arm_liveness :: "int \<Rightarrow> int \<Rightarrow> tracker \<Rightarrow> tracker" where
  "arm_liveness now hostId s =
     (case jm_get (lt_hosts s) hostId of
        None \<Rightarrow> s
      | Some state \<Rightarrow>
          (let (timer, timers) = set_timer (now + max 0 (lv_deadlineAt state - now))
                 (hostId, lv_timerGeneration state) (lt_timers s)
           in s\<lparr>lt_hosts := jm_set hostId (state\<lparr>lv_timer := Some timer\<rparr>) (lt_hosts s), lt_timers := timers\<rparr>))"

definition emit_transition :: "transition_kind \<Rightarrow> liveness_state \<Rightarrow> tracker \<Rightarrow> tracker" where
  "emit_transition kind state s =
     s\<lparr>lt_events := lt_events s @ [\<lparr>le_kind = kind, le_state = snapshot_of state\<rparr>]\<rparr>"

definition observed_state ::
  "(string \<Rightarrow> rat option) \<Rightarrow> int \<Rightarrow> time_value \<Rightarrow> int \<Rightarrow> int \<Rightarrow> liveness_state \<Rightarrow> liveness_state" where
  "observed_state parse now seenAtValue silenceMs epoch state =
     (let seenAt = (case normalizedTimestamp parse seenAtValue now of Some t \<Rightarrow> t | None \<Rightarrow> rat_of_int now)
      in state\<lparr>lv_timer := None,
           lv_timerGeneration := next_generation (lv_timerGeneration state),
           lv_lastSeenAt := Some (max (case lv_lastSeenAt state of Some t \<Rightarrow> t | None \<Rightarrow> 0) seenAt),
           lv_deadlineAt := now + silenceMs,
           lv_confirmedOffline := False,
           lv_offlineAt := None,
           lv_transitionEpoch := (if lv_confirmedOffline state then epoch else lv_transitionEpoch state)\<rparr>)"

definition observeActivity :: "(string \<Rightarrow> rat option) \<Rightarrow> int \<Rightarrow> jsval \<Rightarrow> time_value \<Rightarrow> tracker \<Rightarrow> bool \<times> tracker" where
  "observeActivity parse now hostIdValue seenAtValue s =
     (case js_positive_int hostIdValue of
        None \<Rightarrow> (False, s)
      | Some hostId \<Rightarrow>
          (case jm_get (lt_hosts s) hostId of
             None \<Rightarrow> (False, s)
           | Some state \<Rightarrow>
               (let wasOffline = lv_confirmedOffline state;
                    epoch = (if wasOffline then next_generation (lt_epochCounter s) else lt_epochCounter s);
                    state' = observed_state parse now seenAtValue (lt_silenceMs s) epoch state;
                    s1 = arm_liveness now hostId
                       (s\<lparr>lt_hosts := jm_set hostId state' (lt_hosts s),
                          lt_timers := clear_timer_opt (lv_timer state) (lt_timers s), lt_epochCounter := epoch\<rparr>)
                in (True, if wasOffline then emit_transition ActivityRestored state' s1 else s1))))"

definition removeHost :: "jsval \<Rightarrow> tracker \<Rightarrow> bool \<times> tracker" where
  "removeHost hostIdValue s =
     (case js_positive_int hostIdValue of
        None \<Rightarrow> (False, s)
      | Some hostId \<Rightarrow>
          (case jm_get (lt_hosts s) hostId of
             None \<Rightarrow> (False, s)
           | Some state \<Rightarrow>
               (True, s\<lparr>lt_hosts := jm_del hostId (lt_hosts s),
                        lt_timers := clear_timer_opt (lv_timer state) (lt_timers s)\<rparr>)))"

definition host_identity :: "liveness_host \<Rightarrow> int option" where
  "host_identity host = js_positive_int (if js_nullish (lh_hostId host) then lh_id host else lh_hostId host)"

definition host_version :: "liveness_host \<Rightarrow> string" where
  "host_version host =
     (let v = (if js_nullish (lh_agentVersion host) then lh_version host else lh_agentVersion host)
      in js_trim (if js_nullish v then [] else js_string v))"

definition persisted_offline :: "liveness_host \<Rightarrow> bool" where
  "persisted_offline host \<longleftrightarrow> lh_isOnline host = JBool False \<or> lh_isOnline host = JNum 0 \<or> lh_isOnline host = JStr ''0''"

definition new_host_state ::
  "(string \<Rightarrow> rat option) \<Rightarrow> int \<Rightarrow> liveness_host \<Rightarrow> int \<Rightarrow> bool \<Rightarrow> time_value option \<Rightarrow> tracker \<Rightarrow> liveness_state" where
  "new_host_state parse now host hostId startupGrace activityAt s =
     (let activity = (case activityAt of None \<Rightarrow> None
            | Some t \<Rightarrow> (case normalizedTimestamp parse t now of Some x \<Rightarrow> Some x | None \<Rightarrow> Some (rat_of_int now)));
          persistedSeenAt = normalizedTimestamp parse (lh_lastHeartbeat host) now;
          persistedOffline = (startupGrace \<and> persisted_offline host);
          deadlineDelay = (if startupGrace \<and> activity = None then lt_startupGraceMs s else lt_silenceMs s)
      in \<lparr>lv_hostId = hostId, lv_agentVersion = host_version host, lv_transitionEpoch = 0,
          lv_lastSeenAt = (case activity of Some t \<Rightarrow> Some t | None \<Rightarrow> persistedSeenAt),
          lv_deadlineAt = now + deadlineDelay, lv_offlineAt = None,
          lv_lastOfflineAt = (if persistedOffline then Some now else None),
          lv_confirmedOffline = False, lv_timerGeneration = 1, lv_timer = None\<rparr>)"

definition registerHost ::
  "(string \<Rightarrow> rat option) \<Rightarrow> int \<Rightarrow> liveness_host \<Rightarrow> bool \<Rightarrow> time_value option \<Rightarrow> tracker \<Rightarrow> bool \<times> tracker" where
  "registerHost parse now host startupGrace activityAt s =
     (case host_identity host of
        None \<Rightarrow> (False, s)
      | Some hostId \<Rightarrow>
          (let agentVersion = host_version host in
           if \<not> supportsAgentFastLiveness (JStr agentVersion)
           then (False, snd (removeHost (JNum (rat_of_int hostId)) s))
           else
             (case jm_get (lt_hosts s) hostId of
                Some existing \<Rightarrow>
                  (let s1 = s\<lparr>lt_hosts := jm_set hostId (existing\<lparr>lv_agentVersion := agentVersion\<rparr>) (lt_hosts s)\<rparr>
                   in (True, case activityAt of None \<Rightarrow> s1
                             | Some t \<Rightarrow> snd (observeActivity parse now (JNum (rat_of_int hostId)) t s1)))
              | None \<Rightarrow>
                  (True, arm_liveness now hostId
                     (s\<lparr>lt_hosts := jm_set hostId (new_host_state parse now host hostId startupGrace activityAt s)
                        (lt_hosts s)\<rparr>)))))"

fun primeHosts :: "(string \<Rightarrow> rat option) \<Rightarrow> int \<Rightarrow> liveness_host list \<Rightarrow> tracker \<Rightarrow> nat \<times> tracker" where
  "primeHosts parse now [] s = (0, s)"
| "primeHosts parse now (host # hosts) s =
     (let (registered, s1) = registerHost parse now host True None s;
          (n, s2) = primeHosts parse now hosts s1
      in (if registered then Suc n else n, s2))"

definition registerPresenceCapableHost ::
  "(string \<Rightarrow> rat option) \<Rightarrow> int \<Rightarrow> jsval \<Rightarrow> time_value \<Rightarrow> tracker \<Rightarrow> bool \<times> tracker" where
  "registerPresenceCapableHost parse now hostIdValue seenAtValue s =
     (case js_positive_int hostIdValue of
        None \<Rightarrow> (False, s)
      | Some hostId \<Rightarrow>
          if jm_has (lt_hosts s) hostId then observeActivity parse now (JNum (rat_of_int hostId)) seenAtValue s
          else registerHost parse now
            \<lparr>lh_hostId = JNum (rat_of_int hostId), lh_id = JUndef, lh_agentVersion = JStr fast_liveness_min_version,
             lh_version = JUndef, lh_isOnline = JUndef, lh_lastHeartbeat = TVal JUndef\<rparr> False (Some seenAtValue) s)"

definition clear_tracker :: "tracker \<Rightarrow> tracker" where
  "clear_tracker s =
     s\<lparr>lt_hosts := [], lt_timers := foldl (\<lambda>tt state. clear_timer_opt (lv_timer state) tt) (lt_timers s) (jm_values (lt_hosts s))\<rparr>"

definition isConfirmedOffline :: "jsval \<Rightarrow> tracker \<Rightarrow> bool" where
  "isConfirmedOffline hostIdValue s =
     (case js_positive_int hostIdValue of None \<Rightarrow> False
      | Some hostId \<Rightarrow> (case jm_get (lt_hosts s) hostId of None \<Rightarrow> False | Some state \<Rightarrow> lv_confirmedOffline state))"

definition isCurrentTransition :: "jsval \<Rightarrow> jsval \<Rightarrow> bool option \<Rightarrow> tracker \<Rightarrow> bool" where
  "isCurrentTransition hostIdValue transitionEpochValue confirmedOffline s =
     (case (js_positive_int hostIdValue, js_positive_int transitionEpochValue) of
        (Some hostId, Some epoch) \<Rightarrow>
          if js_max_safe_integer < epoch then False
          else (case jm_get (lt_hosts s) hostId of
                  None \<Rightarrow> False
                | Some state \<Rightarrow> lv_transitionEpoch state = epoch
                    \<and> (case confirmedOffline of None \<Rightarrow> True | Some b \<Rightarrow> lv_confirmedOffline state = b))
      | _ \<Rightarrow> False)"

definition liveness_state_of :: "jsval \<Rightarrow> tracker \<Rightarrow> liveness_snapshot option" where
  "liveness_state_of hostIdValue s =
     (case js_positive_int hostIdValue of None \<Rightarrow> None
      | Some hostId \<Rightarrow> map_option snapshot_of (jm_get (lt_hosts s) hostId))"

text \<open>The callback \<open>isCurrent\<close> of an event.\<close>

definition event_is_current :: "liveness_event \<Rightarrow> tracker \<Rightarrow> bool" where
  "event_is_current e s =
     isCurrentTransition (JNum (rat_of_int (lv_hostId (le_state e)))) (JNum (rat_of_int (lv_transitionEpoch (le_state e))))
       (Some (le_kind e = ConfirmedOffline)) s"

text \<open>The timer callback.\<close>

definition liveness_timeout :: "int \<Rightarrow> nat \<Rightarrow> tracker \<Rightarrow> tracker" where
  "liveness_timeout now timer s =
     (case live_timer (lt_timers s) timer of
        None \<Rightarrow> s
      | Some (_, hostId, generation) \<Rightarrow>
          (let s1 = s\<lparr>lt_timers := clear_timer timer (lt_timers s)\<rparr> in
           case jm_get (lt_hosts s1) hostId of
             None \<Rightarrow> s1
           | Some current \<Rightarrow>
               if lv_timerGeneration current \<noteq> generation \<or> lv_timer current \<noteq> Some timer then s1
               else
                 (let current1 = current\<lparr>lv_timer := None\<rparr>;
                      s2 = s1\<lparr>lt_hosts := jm_set hostId current1 (lt_hosts s1)\<rparr>
                  in if now < lv_deadlineAt current1 then arm_liveness now hostId s2
                     else if lv_confirmedOffline current1 then s2
                     else
                       (let epoch = next_generation (lt_epochCounter s2);
                            current2 = current1\<lparr>lv_confirmedOffline := True, lv_offlineAt := Some now,
                              lv_lastOfflineAt := Some now, lv_transitionEpoch := epoch\<rparr>
                        in emit_transition ConfirmedOffline current2
                             (s2\<lparr>lt_hosts := jm_set hostId current2 (lt_hosts s2), lt_epochCounter := epoch\<rparr>)))))"


section \<open>Invariant\<close>

definition liveness_owner :: "tracker \<Rightarrow> int \<Rightarrow> nat option" where
  "liveness_owner s h = (case jm_get (lt_hosts s) h of None \<Rightarrow> None | Some st \<Rightarrow> lv_timer st)"

text \<open>
  A host that is not offline waits for exactly one timer, due at its deadline; a host that is offline
  went offline at or after its deadline and waits for none; no timer runs for anybody else.
\<close>

definition host_waits :: "tracker \<Rightarrow> int \<Rightarrow> liveness_state \<Rightarrow> bool" where
  "host_waits s h st \<longleftrightarrow> lv_hostId st = h \<and> 0 < h
     \<and> (if lv_confirmedOffline st
        then lv_timer st = None \<and> (\<exists>t. lv_offlineAt st = Some t \<and> lv_deadlineAt st \<le> t)
        else lv_offlineAt st = None
          \<and> (\<exists>i. lv_timer st = Some i
               \<and> live_timer (lt_timers s) i = Some (lv_deadlineAt st, h, lv_timerGeneration st)))"

definition liveness_ok :: "tracker \<Rightarrow> bool" where
  "liveness_ok s \<longleftrightarrow> jm_ok (lt_hosts s) \<and> js_timers.matches fst (liveness_owner s) (lt_timers s)
     \<and> (\<forall>h st. jm_get (lt_hosts s) h = Some st \<longrightarrow> host_waits s h st)"

lemma liveness_okD:
  assumes "liveness_ok s"
  shows "jm_ok (lt_hosts s)" "js_timers.matches fst (liveness_owner s) (lt_timers s)"
    "jm_get (lt_hosts s) h = Some st \<Longrightarrow> host_waits s h st"
  using assms by (auto simp: liveness_ok_def)

lemma liveness_ok_new: "liveness_ok (new_tracker a b)"
proof -
  have "liveness_owner (new_tracker a b) = (\<lambda>_. None)" by (simp add: fun_eq_iff liveness_owner_def new_tracker_def)
  then show ?thesis by (simp add: liveness_ok_def timers_match_init) (simp add: new_tracker_def timers_match_init)
qed

lemma owner_live:
  assumes "liveness_ok s" "jm_get (lt_hosts s) h = Some st" "lv_timer st = Some i"
  shows "\<exists>due g. live_timer (lt_timers s) i = Some (due, h, g)"
proof -
  have "liveness_owner s h = Some i" using assms(2,3) by (simp add: liveness_owner_def)
  from js_timers.matches_live [OF liveness_okD(2) [OF assms(1)] this] show ?thesis by auto
qed

lemma timer_has_owner:
  assumes "liveness_ok s" "live_timer (lt_timers s) j = Some (due, h, g)"
  shows "liveness_owner s h = Some j"
  using liveness_okD(2) [OF assms(1)] assms(2) unfolding js_timers.matches_def by fastforce

lemma other_timer:
  assumes "liveness_ok s" "jm_get (lt_hosts s) h = Some st" "lv_timer st = Some i" "liveness_owner s h' = Some j" "h \<noteq> h'"
  shows "i \<noteq> j"
  using js_timers.matches_live [OF liveness_okD(2) [OF assms(1)] assms(4)] owner_live [OF assms(1-3)] assms(5) by auto

text \<open>Replacing the state of one host by one that is not waiting.\<close>

definition put_host :: "int \<Rightarrow> liveness_state \<Rightarrow> tracker \<Rightarrow> tracker" where
  "put_host h st s =
     s\<lparr>lt_hosts := jm_set h st (lt_hosts s), lt_timers := clear_timer_opt (liveness_owner s h) (lt_timers s)\<rparr>"

lemma put_host_matches:
  assumes "liveness_ok s" "lv_timer st = None"
  shows "js_timers.matches fst (liveness_owner (put_host h st s)) (lt_timers (put_host h st s))"
proof -
  have "liveness_owner (put_host h st s) = (liveness_owner s)(h := None)"
    using assms(2) by (auto simp: fun_eq_iff liveness_owner_def put_host_def)
  then show ?thesis
    using matches_clear_opt [OF liveness_okD(2) [OF assms(1)], of "liveness_owner s h" h] by (simp add: put_host_def)
qed

lemma put_host_others:
  assumes "liveness_ok s" "h' \<noteq> h" "jm_get (lt_hosts s) h' = Some st'"
  shows "host_waits (put_host h st s) h' st'"
proof -
  have w: "host_waits s h' st'" using assms(1,3) by (rule liveness_okD(3))
  have "live_timer (lt_timers (put_host h st s)) i = live_timer (lt_timers s) i" if "lv_timer st' = Some i" for i
    using other_timer [OF assms(1,3) that, of h] assms(2) by (auto simp: put_host_def live_clear_opt)
  then show ?thesis using w by (auto simp: host_waits_def split: if_splits)
qed

lemma arm_liveness_get:
  "jm_get (lt_hosts (arm_liveness now h s)) h' =
     (if h' = h then map_option (\<lambda>st. st\<lparr>lv_timer := Some (tt_next (lt_timers s))\<rparr>) (jm_get (lt_hosts s) h)
      else jm_get (lt_hosts s) h')"
  by (auto simp: arm_liveness_def set_timer_def split: option.splits)

lemma touch_ok:
  assumes ok: "liveness_ok s" and pos: "0 < h"
    and st: "lv_hostId st = h" "lv_timer st = None" "\<not> lv_confirmedOffline st" "lv_offlineAt st = None"
    and due: "now \<le> lv_deadlineAt st"
  shows "liveness_ok (arm_liveness now h (put_host h st s))"
proof -
  let ?p = "put_host h st s" and ?s = "arm_liveness now h (put_host h st s)"
  have get: "jm_get (lt_hosts ?p) h = Some st" by (simp add: put_host_def)
  have arm: "?s = ?p\<lparr>lt_hosts := jm_set h (st\<lparr>lv_timer := Some (tt_next (lt_timers ?p))\<rparr>) (lt_hosts ?p),
      lt_timers := snd (set_timer (lv_deadlineAt st) (h, lv_timerGeneration st) (lt_timers ?p))\<rparr>"
    using get due by (simp add: arm_liveness_def set_timer_def Let_def)
  note m = put_host_matches [OF ok st(2), of h]
  have none: "liveness_owner ?p h = None" using st(2) by (simp add: liveness_owner_def get)
  have owner: "liveness_owner ?s = (liveness_owner ?p)(h \<mapsto> tt_next (lt_timers ?p))"
    by (auto simp: fun_eq_iff arm liveness_owner_def)
  have m': "js_timers.matches fst (liveness_owner ?s) (lt_timers ?s)"
    using js_timers.matches_arm [OF m none, of "(h, lv_timerGeneration st)" "lv_deadlineAt st"]
    unfolding owner by (simp add: arm fst_set_timer)
  have tok: "timer_ok (lt_timers ?p)" using m by (simp add: js_timers.matches_def)
  have live: "live_timer (lt_timers ?s) =
      (live_timer (lt_timers ?p))(tt_next (lt_timers ?p) \<mapsto> (lv_deadlineAt st, h, lv_timerGeneration st))"
    by (simp add: arm live_set_timer)
  have "host_waits ?s h' st'" if g: "jm_get (lt_hosts ?s) h' = Some st'" for h' st'
  proof (cases "h' = h")
    case True
    then have "st' = st\<lparr>lv_timer := Some (tt_next (lt_timers ?p))\<rparr>" using g by (simp add: arm)
    then show ?thesis using st True pos by (simp add: host_waits_def live)
  next
    case False
    then have "jm_get (lt_hosts s) h' = Some st'" using g by (simp add: arm_liveness_get put_host_def)
    from put_host_others [OF ok False this, of st] have w: "host_waits ?p h' st'" .
    have "live_timer (lt_timers ?p) (tt_next (lt_timers ?p)) = None"
      using live_timer_bound [OF tok] by (cases "live_timer (lt_timers ?p) (tt_next (lt_timers ?p))") auto
    then show ?thesis using w by (auto simp: host_waits_def live split: if_splits)
  qed
  moreover have "jm_ok (lt_hosts ?s)" using liveness_okD(1) [OF ok] unfolding arm by (simp add: put_host_def)
  ultimately show ?thesis using m' by (simp add: liveness_ok_def)
qed

lemma liveness_ok_fields:
  assumes "liveness_ok s" "lt_hosts s' = lt_hosts s" "lt_timers s' = lt_timers s"
  shows "liveness_ok s'"
  using assms by (simp add: liveness_ok_def host_waits_def liveness_owner_def [abs_def])

lemma version_ok:
  assumes "liveness_ok s" "jm_get (lt_hosts s) h = Some st"
  shows "liveness_ok (s\<lparr>lt_hosts := jm_set h (st\<lparr>lv_agentVersion := v\<rparr>) (lt_hosts s)\<rparr>)"
proof -
  let ?s = "s\<lparr>lt_hosts := jm_set h (st\<lparr>lv_agentVersion := v\<rparr>) (lt_hosts s)\<rparr>"
  have "liveness_owner ?s = liveness_owner s" using assms(2) by (auto simp: fun_eq_iff liveness_owner_def)
  moreover have "host_waits ?s h st" using liveness_okD(3) [OF assms] by (simp add: host_waits_def)
  ultimately show ?thesis using assms by (auto simp: liveness_ok_def host_waits_def)
qed

lemma remove_ok:
  assumes ok: "liveness_ok s"
  shows "liveness_ok (s\<lparr>lt_hosts := jm_del h (lt_hosts s), lt_timers := clear_timer_opt (liveness_owner s h) (lt_timers s)\<rparr>)"
    (is "liveness_ok ?s")
proof -
  have "liveness_owner ?s = (liveness_owner s)(h := None)" by (auto simp: fun_eq_iff liveness_owner_def)
  then have "js_timers.matches fst (liveness_owner ?s) (lt_timers ?s)"
    using matches_clear_opt [OF liveness_okD(2) [OF ok], of "liveness_owner s h" h] by simp
  moreover have "host_waits ?s h' st'" if "jm_get (lt_hosts ?s) h' = Some st'" for h' st'
    using put_host_others [OF ok, of h' h st' undefined] that
    by (auto simp: host_waits_def put_host_def split: if_splits)
  ultimately show ?thesis using liveness_okD(1) [OF ok] by (simp add: liveness_ok_def)
qed


section \<open>The tracker over time\<close>

datatype liveness_op =
    Register liveness_host bool "time_value option"
  | Prime "liveness_host list"
  | Presence jsval time_value
  | Observe jsval time_value
  | Remove jsval
  | ClearAll
  | Timeout nat

fun liveness_step :: "(string \<Rightarrow> rat option) \<Rightarrow> int \<Rightarrow> liveness_op \<Rightarrow> tracker \<Rightarrow> tracker" where
  "liveness_step parse now (Register host grace act) s = snd (registerHost parse now host grace act s)"
| "liveness_step parse now (Prime hosts) s = snd (primeHosts parse now hosts s)"
| "liveness_step parse now (Presence h t) s = snd (registerPresenceCapableHost parse now h t s)"
| "liveness_step parse now (Observe h t) s = snd (observeActivity parse now h t s)"
| "liveness_step parse now (Remove h) s = snd (removeHost h s)"
| "liveness_step parse now ClearAll s = clear_tracker s"
| "liveness_step parse now (Timeout i) s = liveness_timeout now i s"

text \<open>The specification: until when each registered host may be silent.  Time-outs do not change it.\<close>

definition spec_register :: "int \<Rightarrow> int \<Rightarrow> int \<Rightarrow> liveness_host \<Rightarrow> bool \<Rightarrow> bool \<Rightarrow> (int \<Rightarrow> int option) \<Rightarrow> int \<Rightarrow> int option" where
  "spec_register silence grace now host startup active d =
     (case host_identity host of
        None \<Rightarrow> d
      | Some h \<Rightarrow>
          if \<not> supportsAgentFastLiveness (JStr (host_version host)) then d(h := None)
          else if d h \<noteq> None then (if active then d(h \<mapsto> now + silence) else d)
          else d(h \<mapsto> now + (if startup \<and> \<not> active then grace else silence)))"

fun spec_deadlines :: "int \<Rightarrow> int \<Rightarrow> int \<Rightarrow> liveness_op \<Rightarrow> (int \<Rightarrow> int option) \<Rightarrow> int \<Rightarrow> int option" where
  "spec_deadlines silence grace now (Register host startup act) d =
     spec_register silence grace now host startup (act \<noteq> None) d"
| "spec_deadlines silence grace now (Prime hosts) d =
     foldl (\<lambda>d host. spec_register silence grace now host True False d) d hosts"
| "spec_deadlines silence grace now (Presence v t) d =
     (case js_positive_int v of None \<Rightarrow> d | Some h \<Rightarrow> d(h \<mapsto> now + silence))"
| "spec_deadlines silence grace now (Observe v t) d =
     (case js_positive_int v of None \<Rightarrow> d | Some h \<Rightarrow> if d h = None then d else d(h \<mapsto> now + silence))"
| "spec_deadlines silence grace now (Remove v) d =
     (case js_positive_int v of None \<Rightarrow> d | Some h \<Rightarrow> d(h := None))"
| "spec_deadlines silence grace now ClearAll d = (\<lambda>_. None)"
| "spec_deadlines silence grace now (Timeout i) d = d"

definition deadlines :: "tracker \<Rightarrow> int \<Rightarrow> int option" where
  "deadlines s h = map_option lv_deadlineAt (jm_get (lt_hosts s) h)"

text \<open>What every step keeps: the invariant, the two periods, and no transition in the future.\<close>

definition tracker_inv :: "int \<Rightarrow> int \<Rightarrow> int \<Rightarrow> tracker \<Rightarrow> bool" where
  "tracker_inv silence grace now s \<longleftrightarrow> liveness_ok s \<and> lt_silenceMs s = silence \<and> lt_startupGraceMs s = grace
     \<and> (\<forall>h st t. jm_get (lt_hosts s) h = Some st \<longrightarrow> lv_offlineAt st = Some t \<longrightarrow> t \<le> now)"

lemma arm_liveness_fields:
  "lt_silenceMs (arm_liveness now h s) = lt_silenceMs s" "lt_startupGraceMs (arm_liveness now h s) = lt_startupGraceMs s"
  "lt_epochCounter (arm_liveness now h s) = lt_epochCounter s" "lt_events (arm_liveness now h s) = lt_events s"
  by (auto simp: arm_liveness_def set_timer_def split: option.splits)

lemma tracker_inv_touch:
  assumes inv: "tracker_inv silence grace now s" and pos: "0 < h"
    and st: "lv_hostId st = h" "lv_timer st = None" "\<not> lv_confirmedOffline st" "lv_offlineAt st = None" "now \<le> lv_deadlineAt st"
    and same: "lt_hosts s' = lt_hosts (arm_liveness now h (put_host h st s))" "lt_timers s' = lt_timers (arm_liveness now h (put_host h st s))"
      "lt_silenceMs s' = lt_silenceMs s" "lt_startupGraceMs s' = lt_startupGraceMs s"
  shows "tracker_inv silence grace now s' \<and> deadlines s' = (deadlines s)(h \<mapsto> lv_deadlineAt st)"
proof -
  have "liveness_ok s" using inv by (simp add: tracker_inv_def)
  from liveness_ok_fields [OF touch_ok [OF this pos st] same(1,2)] have "liveness_ok s'" .
  moreover have "jm_get (lt_hosts s') h' = (if h' = h then Some (st\<lparr>lv_timer := Some (tt_next (lt_timers (put_host h st s)))\<rparr>)
      else jm_get (lt_hosts s) h')" for h'
    unfolding same by (simp add: arm_liveness_get put_host_def)
  ultimately show ?thesis using inv st(4) same(3,4) by (auto simp: tracker_inv_def deadlines_def fun_eq_iff)
qed

lemma clear_opt_owner: "jm_get (lt_hosts s) h = Some st \<Longrightarrow> lv_timer st = liveness_owner s h"
  by (simp add: liveness_owner_def)

lemma arm_liveness_cong:
  "lt_hosts s = lt_hosts s' \<Longrightarrow> lt_timers s = lt_timers s' \<Longrightarrow>
   lt_hosts (arm_liveness now h s) = lt_hosts (arm_liveness now h s')
   \<and> lt_timers (arm_liveness now h s) = lt_timers (arm_liveness now h s')"
  by (auto simp: arm_liveness_def set_timer_def split: option.splits)

lemma emit_transition_fields:
  "lt_hosts (emit_transition k st s) = lt_hosts s" "lt_timers (emit_transition k st s) = lt_timers s"
  "lt_silenceMs (emit_transition k st s) = lt_silenceMs s" "lt_startupGraceMs (emit_transition k st s) = lt_startupGraceMs s"
  "lt_epochCounter (emit_transition k st s) = lt_epochCounter s"
  "lt_events (emit_transition k st s) = lt_events s @ [\<lparr>le_kind = k, le_state = snapshot_of st\<rparr>]"
  by (simp_all add: emit_transition_def)

lemma observed_state_fields:
  "lv_hostId (observed_state parse now t sil e st) = lv_hostId st" "lv_timer (observed_state parse now t sil e st) = None"
  "\<not> lv_confirmedOffline (observed_state parse now t sil e st)" "lv_offlineAt (observed_state parse now t sil e st) = None"
  "lv_deadlineAt (observed_state parse now t sil e st) = now + sil"
  "lv_transitionEpoch (observed_state parse now t sil e st) = (if lv_confirmedOffline st then e else lv_transitionEpoch st)"
  by (simp_all add: observed_state_def Let_def)

lemma observe_inv:
  assumes "tracker_inv silence grace now s" "0 \<le> silence"
  shows "tracker_inv silence grace now (snd (observeActivity parse now v t s))
    \<and> deadlines (snd (observeActivity parse now v t s)) = spec_deadlines silence grace now (Observe v t) (deadlines s)"
proof (cases "js_positive_int v")
  case None
  then show ?thesis using assms by (simp add: observeActivity_def)
next
  case (Some h)
  show ?thesis
  proof (cases "jm_get (lt_hosts s) h")
    case none: None
    then show ?thesis using assms Some by (simp add: observeActivity_def deadlines_def)
  next
    case (Some st)
    have "liveness_ok s" using assms(1) by (simp add: tracker_inv_def)
    then have id: "lv_hostId st = h" using liveness_okD(3) Some by (simp add: host_waits_def)
    define e where "e = (if lv_confirmedOffline st then next_generation (lt_epochCounter s) else lt_epochCounter s)"
    define st1 where "st1 = observed_state parse now t (lt_silenceMs s) e st"
    define s1 where "s1 = s\<lparr>lt_hosts := jm_set h st1 (lt_hosts s), lt_timers := clear_timer_opt (lv_timer st) (lt_timers s),
        lt_epochCounter := e\<rparr>"
    define s' where "s' = snd (observeActivity parse now v t s)"
    have eq: "s' = (if lv_confirmedOffline st then emit_transition ActivityRestored st1 (arm_liveness now h s1)
        else arm_liveness now h s1)"
      unfolding s'_def s1_def st1_def e_def using \<open>js_positive_int v = Some h\<close> Some by (simp add: observeActivity_def Let_def)
    have put: "lt_hosts s1 = lt_hosts (put_host h st1 s)" "lt_timers s1 = lt_timers (put_host h st1 s)"
      by (simp_all add: s1_def put_host_def clear_opt_owner [OF Some])
    have same: "lt_hosts s' = lt_hosts (arm_liveness now h (put_host h st1 s))"
      "lt_timers s' = lt_timers (arm_liveness now h (put_host h st1 s))"
      "lt_silenceMs s' = lt_silenceMs s" "lt_startupGraceMs s' = lt_startupGraceMs s"
      using arm_liveness_cong [OF put] by (cases "lv_confirmedOffline st";
          simp add: eq emit_transition_fields arm_liveness_fields; simp add: s1_def)+
    note st' = observed_state_fields [of parse now t "lt_silenceMs s" e st, unfolded id, folded st1_def]
    have sil: "lt_silenceMs s = silence" using assms(1) by (simp add: tracker_inv_def)
    have "deadlines s h \<noteq> None" using Some by (simp add: deadlines_def)
    with tracker_inv_touch [OF assms(1) js_positive_intD [OF \<open>js_positive_int v = Some h\<close>] st'(1-4) _ same] st'(5) sil assms(2) \<open>js_positive_int v = Some h\<close>
    show ?thesis unfolding s'_def by auto
  qed
qed


lemma remove_inv:
  assumes "tracker_inv silence grace now s"
  shows "tracker_inv silence grace now (snd (removeHost v s))
    \<and> deadlines (snd (removeHost v s)) = spec_deadlines silence grace now (Remove v) (deadlines s)"
proof (cases "js_positive_int v")
  case None
  then show ?thesis using assms by (simp add: removeHost_def)
next
  case (Some h)
  show ?thesis
  proof (cases "jm_get (lt_hosts s) h")
    case none: None
    then show ?thesis using assms Some by (auto simp: removeHost_def deadlines_def fun_eq_iff)
  next
    case st: (Some st)
    have "liveness_ok s" using assms by (simp add: tracker_inv_def)
    from remove_ok [OF this, of h]
    show ?thesis using assms Some st
      by (auto simp: removeHost_def clear_opt_owner [OF st] tracker_inv_def deadlines_def fun_eq_iff split: if_splits)
  qed
qed

lemma register_inv:
  assumes inv: "tracker_inv silence grace now s" and pos: "0 \<le> silence" "0 \<le> grace"
  shows "tracker_inv silence grace now (snd (registerHost parse now host startup act s))
    \<and> deadlines (snd (registerHost parse now host startup act s)) =
        spec_register silence grace now host startup (act \<noteq> None) (deadlines s)"
proof (cases "host_identity host")
  case None
  then show ?thesis using inv by (simp add: registerHost_def spec_register_def)
next
  case (Some h)
  then have h0: "0 < h" by (auto simp: host_identity_def dest!: js_positive_intD)
  then have hpos: "js_positive_int (JNum (rat_of_int h)) = Some h" by simp
  show ?thesis
  proof (cases "supportsAgentFastLiveness (JStr (host_version host))")
    case False
    then show ?thesis using remove_inv [OF inv, of "JNum (rat_of_int h)"] Some hpos
      by (simp add: registerHost_def spec_register_def Let_def)
  next
    case sup: True
    show ?thesis
    proof (cases "jm_get (lt_hosts s) h")
      case st: (Some st)
      define s1 where "s1 = s\<lparr>lt_hosts := jm_set h (st\<lparr>lv_agentVersion := host_version host\<rparr>) (lt_hosts s)\<rparr>"
      have ok: "liveness_ok s" using inv by (simp add: tracker_inv_def)
      have inv1: "tracker_inv silence grace now s1" and d1: "deadlines s1 = deadlines s"
        using version_ok [OF ok st, of "host_version host"] inv st
        by (auto simp: tracker_inv_def s1_def deadlines_def fun_eq_iff)
      have reg: "snd (registerHost parse now host startup act s) =
          (case act of None \<Rightarrow> s1 | Some t \<Rightarrow> snd (observeActivity parse now (JNum (rat_of_int h)) t s1))"
        using Some sup st by (simp add: registerHost_def Let_def s1_def split: option.split)
      have "deadlines s h \<noteq> None" using st by (simp add: deadlines_def)
      then show ?thesis
        using inv1 d1 observe_inv [OF inv1 pos(1), of parse "JNum (rat_of_int h)"] hpos Some sup
        unfolding reg by (cases act) (auto simp: spec_register_def)
    next
      case none: None
      define delay where "delay = (if startup \<and> act = None then lt_startupGraceMs s else lt_silenceMs s)"
      define st where "st = new_host_state parse now host h startup act s"
      have st: "lv_hostId st = h" "lv_timer st = None" "\<not> lv_confirmedOffline st" "lv_offlineAt st = None"
          "lv_deadlineAt st = now + delay"
        by (cases act) (simp_all add: st_def new_host_state_def Let_def delay_def split: option.split)
      have reg: "snd (registerHost parse now host startup act s) =
            arm_liveness now h (s\<lparr>lt_hosts := jm_set h st (lt_hosts s)\<rparr>)"
        using Some sup none by (simp add: registerHost_def Let_def st_def)
      have "put_host h st s = s\<lparr>lt_hosts := jm_set h st (lt_hosts s)\<rparr>"
        using none by (simp add: put_host_def liveness_owner_def clear_timer_opt_def)
      then have reg: "snd (registerHost parse now host startup act s) = arm_liveness now h (put_host h st s)"
        using reg by simp
      have sil: "lt_silenceMs s = silence" "lt_startupGraceMs s = grace" using inv by (simp_all add: tracker_inv_def)
      have "now \<le> lv_deadlineAt st" using pos sil by (simp add: st(5) delay_def)
      from tracker_inv_touch [OF inv h0 st(1-4) this, of "snd (registerHost parse now host startup act s)"]
      show ?thesis unfolding reg
        using none Some sup sil
        by (simp add: arm_liveness_fields spec_register_def st(5) delay_def deadlines_def [of s h] put_host_def)
    qed
  qed
qed

lemma prime_inv:
  assumes "tracker_inv silence grace now s" "0 \<le> silence" "0 \<le> grace"
  shows "tracker_inv silence grace now (snd (primeHosts parse now hosts s))
    \<and> deadlines (snd (primeHosts parse now hosts s)) = spec_deadlines silence grace now (Prime hosts) (deadlines s)"
  using assms(1)
proof (induction hosts arbitrary: s)
  case (Cons host hosts)
  note r = register_inv [OF Cons.prems assms(2,3), of parse host True None]
  show ?case using Cons.IH [OF conjunct1 [OF r]] r by (simp add: case_prod_unfold Let_def)
qed simp

lemma presence_inv:
  assumes inv: "tracker_inv silence grace now s" and pos: "0 \<le> silence" "0 \<le> grace"
  shows "tracker_inv silence grace now (snd (registerPresenceCapableHost parse now v t s))
    \<and> deadlines (snd (registerPresenceCapableHost parse now v t s)) =
        spec_deadlines silence grace now (Presence v t) (deadlines s)"
proof (cases "js_positive_int v")
  case None
  then show ?thesis using inv by (simp add: registerPresenceCapableHost_def)
next
  case (Some h)
  then have hpos: "js_positive_int (JNum (rat_of_int h)) = Some h" by (auto dest!: js_positive_intD)
  have v: "supportsAgentFastLiveness (JStr (js_trim fast_liveness_min_version))"
    by code_simp
  show ?thesis
  proof (cases "jm_has (lt_hosts s) h")
    case True
    then have "deadlines s h \<noteq> None" by (simp add: jm_has_def deadlines_def)
    then show ?thesis
      using True Some observe_inv [OF inv pos(1), of parse "JNum (rat_of_int h)" t] hpos
      by (auto simp: registerPresenceCapableHost_def)
  next
    case False
    let ?host = "\<lparr>lh_hostId = JNum (rat_of_int h), lh_id = JUndef, lh_agentVersion = JStr fast_liveness_min_version,
             lh_version = JUndef, lh_isOnline = JUndef, lh_lastHeartbeat = TVal JUndef\<rparr>"
    have "deadlines s h = None" using False by (simp add: jm_has_def deadlines_def)
    moreover have "host_identity ?host = Some h" using hpos by (simp add: host_identity_def js_nullish_def)
    moreover have "host_version ?host = js_trim fast_liveness_min_version" by (simp add: host_version_def js_nullish_def)
    ultimately have "spec_register silence grace now ?host False True (deadlines s) = (deadlines s)(h \<mapsto> now + silence)"
      using v by (simp add: spec_register_def)
    then show ?thesis
      using register_inv [OF inv pos, of parse ?host False "Some t"] False Some
      by (simp add: registerPresenceCapableHost_def)
  qed
qed

lemma live_clear_all:
  "live_timer (foldl (\<lambda>tt st. clear_timer_opt (lv_timer st) tt) tt sts) i =
     (if Some i \<in> lv_timer ` set sts then None else live_timer tt i)"
  by (induction sts arbitrary: tt) (auto simp: live_clear_opt)

lemma timer_ok_clear_opt: "timer_ok tt \<Longrightarrow> timer_ok (clear_timer_opt t tt)"
  by (simp add: clear_timer_opt_def timer_ok_clear split: option.split)

lemma timer_ok_clear_all: "timer_ok tt \<Longrightarrow> timer_ok (foldl (\<lambda>tt st. clear_timer_opt (lv_timer st) tt) tt sts)"
  by (induction sts arbitrary: tt) (simp_all add: timer_ok_clear_opt)

lemma clear_inv:
  assumes "tracker_inv silence grace now s"
  shows "tracker_inv silence grace now (clear_tracker s) \<and> deadlines (clear_tracker s) = (\<lambda>_. None)"
proof -
  have ok: "liveness_ok s" using assms by (simp add: tracker_inv_def)
  note m = liveness_okD(2) [OF ok]
  have tok: "timer_ok (lt_timers s)" using m by (simp add: js_timers.matches_def)
  have "live_timer (lt_timers (clear_tracker s)) i = None" for i
  proof (cases "live_timer (lt_timers s) i")
    case (Some x)
    obtain due h g where x: "x = (due, h, g)" by (cases x)
    have "liveness_owner s h = Some i" using js_timers.matches_owner [OF m, of i due "(h, g)"] Some x by simp
    then obtain st where "jm_get (lt_hosts s) h = Some st" "lv_timer st = Some i"
      by (auto simp: liveness_owner_def split: option.splits)
    then have "Some i \<in> lv_timer ` set (jm_values (lt_hosts s))" by (force dest: jm_get_in_set)
    then show ?thesis by (simp add: clear_tracker_def live_clear_all)
  qed (simp add: clear_tracker_def live_clear_all)
  moreover have "timer_ok (lt_timers (clear_tracker s))" using tok by (simp add: clear_tracker_def timer_ok_clear_all)
  moreover have "liveness_owner (clear_tracker s) = (\<lambda>_. None)"
    by (simp add: fun_eq_iff liveness_owner_def clear_tracker_def)
  ultimately have "liveness_ok (clear_tracker s)"
    by (simp add: liveness_ok_def js_timers.matches_none) (simp add: clear_tracker_def)
  then show ?thesis using assms by (simp add: tracker_inv_def deadlines_def fun_eq_iff clear_tracker_def)
qed


lemma offline_ok:
  assumes ok: "liveness_ok s" and pos: "0 < h"
    and st: "lv_hostId st = h" "lv_timer st = None" "lv_confirmedOffline st" "lv_offlineAt st = Some t" "lv_deadlineAt st \<le> t"
  shows "liveness_ok (put_host h st s)"
proof -
  have "host_waits (put_host h st s) h' st'" if "jm_get (lt_hosts (put_host h st s)) h' = Some st'" for h' st'
  proof (cases "h' = h")
    case True
    then have "st' = st" using that by (simp add: put_host_def)
    then show ?thesis using st True pos by (simp add: host_waits_def)
  next
    case False
    then show ?thesis using put_host_others [OF ok False, of st' st] that by (simp add: put_host_def)
  qed
  then show ?thesis
    using put_host_matches [OF ok st(2)] liveness_okD(1) [OF ok] by (simp add: liveness_ok_def put_host_def)
qed

text \<open>What a running timer does when it fires: it always is the one its host waits for.\<close>

lemma timeout_cases:
  assumes ok: "liveness_ok s" and live: "live_timer (lt_timers s) i = Some (due, h, g)"
  obtains st where "0 < h" "jm_get (lt_hosts s) h = Some st" "\<not> lv_confirmedOffline st" "lv_hostId st = h" "lv_offlineAt st = None"
    "lv_deadlineAt st = due" "lv_timer st = Some i"
    "now < due \<Longrightarrow> liveness_timeout now i s = arm_liveness now h (put_host h (st\<lparr>lv_timer := None\<rparr>) s)"
    "due \<le> now \<Longrightarrow> liveness_timeout now i s =
       (let e = next_generation (lt_epochCounter s);
            st2 = st\<lparr>lv_timer := None, lv_confirmedOffline := True, lv_offlineAt := Some now, lv_lastOfflineAt := Some now,
                     lv_transitionEpoch := e\<rparr>
        in emit_transition ConfirmedOffline st2 (put_host h st2 s\<lparr>lt_epochCounter := e\<rparr>))"
proof -
  have own: "liveness_owner s h = Some i"
    using js_timers.matches_owner [OF liveness_okD(2) [OF ok], of i due "(h, g)"] live by simp
  then obtain st where st: "jm_get (lt_hosts s) h = Some st" "lv_timer st = Some i"
    by (auto simp: liveness_owner_def split: option.splits)
  have w: "host_waits s h st" using ok st(1) by (rule liveness_okD(3))
  have nc: "\<not> lv_confirmedOffline st" using w st(2) by (auto simp: host_waits_def split: if_splits)
  then have f: "lv_hostId st = h" "lv_offlineAt st = None" "lv_deadlineAt st = due" "lv_timerGeneration st = g"
    using w st(2) live by (auto simp: host_waits_def)
  have h0: "0 < h" using w by (simp add: host_waits_def)
  have set_set: "jm_set h x (jm_set h y (lt_hosts s)) = jm_set h x (lt_hosts s)" for x y
    by (rule update_last)
  have put: "put_host h x s = s\<lparr>lt_timers := clear_timer i (lt_timers s), lt_hosts := jm_set h x (lt_hosts s)\<rparr>" for x
    unfolding put_host_def own clear_timer_opt_def option.case by (cases s) simp
  show ?thesis
  proof (rule that [OF h0 st(1) nc f(1-3) st(2)])
    show "liveness_timeout now i s = arm_liveness now h (put_host h (st\<lparr>lv_timer := None\<rparr>) s)" if "now < due"
      using that live st f by (simp add: liveness_timeout_def Let_def put)
    show "liveness_timeout now i s =
       (let e = next_generation (lt_epochCounter s);
            st2 = st\<lparr>lv_timer := None, lv_confirmedOffline := True, lv_offlineAt := Some now, lv_lastOfflineAt := Some now,
                     lv_transitionEpoch := e\<rparr>
        in emit_transition ConfirmedOffline st2 (put_host h st2 s\<lparr>lt_epochCounter := e\<rparr>))" if "due \<le> now"
      using that live st f nc by (simp add: liveness_timeout_def Let_def put set_set)
  qed
qed

lemma timeout_inv:
  assumes inv: "tracker_inv silence grace now s"
  shows "tracker_inv silence grace now (liveness_timeout now i s) \<and> deadlines (liveness_timeout now i s) = deadlines s"
proof (cases "live_timer (lt_timers s) i")
  case None
  then show ?thesis using inv by (simp add: liveness_timeout_def)
next
  case (Some x)
  obtain due h g where x: "live_timer (lt_timers s) i = Some (due, h, g)" using Some by (cases x) auto
  have ok: "liveness_ok s" using inv by (simp add: tracker_inv_def)
  obtain st where h0: "0 < h"
    and st: "jm_get (lt_hosts s) h = Some st" "\<not> lv_confirmedOffline st" "lv_hostId st = h" "lv_offlineAt st = None"
      "lv_deadlineAt st = due"
    and early: "now < due \<Longrightarrow> liveness_timeout now i s = arm_liveness now h (put_host h (st\<lparr>lv_timer := None\<rparr>) s)"
    and late: "due \<le> now \<Longrightarrow> liveness_timeout now i s =
       (let e = next_generation (lt_epochCounter s);
            st2 = st\<lparr>lv_timer := None, lv_confirmedOffline := True, lv_offlineAt := Some now, lv_lastOfflineAt := Some now,
                     lv_transitionEpoch := e\<rparr>
        in emit_transition ConfirmedOffline st2 (put_host h st2 s\<lparr>lt_epochCounter := e\<rparr>))"
    using timeout_cases [where now = now, OF ok x] by blast
  have dl: "deadlines s h = Some due" using st by (simp add: deadlines_def)
  show ?thesis
  proof (cases "now < due")
    case True
    have "deadlines s = (deadlines s)(h \<mapsto> due)" using dl by (auto simp: fun_eq_iff)
    then show ?thesis
      using tracker_inv_touch [OF inv h0, of "st\<lparr>lv_timer := None\<rparr>" "liveness_timeout now i s"] st True
      by (simp add: early arm_liveness_fields put_host_def)
  next
    case False
    define e where "e = next_generation (lt_epochCounter s)"
    define st2 where "st2 = st\<lparr>lv_timer := None, lv_confirmedOffline := True, lv_offlineAt := Some now,
        lv_lastOfflineAt := Some now, lv_transitionEpoch := e\<rparr>"
    define s' where "s' = liveness_timeout now i s"
    have eq: "s' = emit_transition ConfirmedOffline st2 (put_host h st2 s\<lparr>lt_epochCounter := e\<rparr>)"
      using late False by (simp add: s'_def st2_def e_def Let_def)
    have "liveness_ok (put_host h st2 s)"
      using False st by (intro offline_ok [OF ok h0, of st2 now]) (simp_all add: st2_def)
    then have "liveness_ok s'" by (rule liveness_ok_fields) (simp_all add: eq emit_transition_fields)
    then have "tracker_inv silence grace now s'" "deadlines s' = deadlines s"
      using inv dl st(5) by (auto simp: tracker_inv_def eq emit_transition_fields put_host_def st2_def deadlines_def fun_eq_iff)
    then show ?thesis by (simp add: s'_def)
  qed
qed

lemma liveness_step_inv:
  assumes "tracker_inv silence grace t0 s" "t0 \<le> now" "0 \<le> silence" "0 \<le> grace"
  shows "tracker_inv silence grace now (liveness_step parse now op s)
    \<and> deadlines (liveness_step parse now op s) = spec_deadlines silence grace now op (deadlines s)"
proof -
  have inv: "tracker_inv silence grace now s" using assms(1,2) by (force simp: tracker_inv_def)
  show ?thesis
    by (cases op) (simp_all only: liveness_step.simps spec_deadlines.simps register_inv [OF inv assms(3,4)]
        timeout_inv [OF inv] clear_inv [OF inv] remove_inv [OF inv, unfolded spec_deadlines.simps]
        prime_inv [OF inv assms(3,4), unfolded spec_deadlines.simps] presence_inv [OF inv assms(3,4), unfolded spec_deadlines.simps]
        observe_inv [OF inv assms(3), unfolded spec_deadlines.simps] simp_thms)
qed

definition liveness_run :: "(string \<Rightarrow> rat option) \<Rightarrow> (int \<times> liveness_op) list \<Rightarrow> tracker \<Rightarrow> tracker" where
  "liveness_run parse ops s = foldl (\<lambda>s (now, op). liveness_step parse now op s) s ops"

definition silent_until :: "int \<Rightarrow> int \<Rightarrow> (int \<times> liveness_op) list \<Rightarrow> (int \<Rightarrow> int option)" where
  "silent_until silence grace ops = foldl (\<lambda>d (now, op). spec_deadlines silence grace now op d) (\<lambda>_. None) ops"

lemma liveness_run_inv:
  assumes "tracker_inv silence grace t0 s" "sorted (t0 # map fst ops)" "\<forall>t \<in> fst ` set ops. t \<le> now" "t0 \<le> now"
    "0 \<le> silence" "0 \<le> grace"
  shows "tracker_inv silence grace now (liveness_run parse ops s)
    \<and> deadlines (liveness_run parse ops s) = foldl (\<lambda>d (now, op). spec_deadlines silence grace now op d) (deadlines s) ops"
  using assms(1-4)
proof (induction ops arbitrary: s t0)
  case Nil
  then show ?case by (force simp: liveness_run_def tracker_inv_def)
next
  case (Cons x ops)
  obtain t op where x: "x = (t, op)" by (cases x)
  have le: "t0 \<le> t" "sorted (t # map fst ops)" "t \<le> now" "\<forall>t \<in> fst ` set ops. t \<le> now" using Cons.prems by (simp_all add: x)
  note step = liveness_step_inv [OF Cons.prems(1) le(1) assms(5,6), of parse op]
  show ?case using Cons.IH [OF conjunct1 [OF step] le(2,4,3)] step by (simp add: x liveness_run_def)
qed

text \<open>
  C5. A host is offline exactly when its silence has lasted long enough for its timer to have fired.
  After any requests, registrations, removals and timer ticks in time order (ticks may come early,
  late or not at all), the tracker knows exactly the registered hosts, with the deadline that the last sign of life
  and the two periods give; a host it calls offline has reached that deadline without a newer sign of life; and for every
  other host exactly one timer is running, which is due at the deadline and declares the host offline when it
  fires then or later.  No timer runs for a host that is offline or not registered.
\<close>

theorem liveness_matches_silence:
  fixes parse :: "string \<Rightarrow> rat option" and ops :: "(int \<times> liveness_op) list" and now silence grace :: int
  assumes "sorted (map fst ops)" and "\<forall>t \<in> fst ` set ops. t \<le> now" and "1 \<le> silence" and "0 \<le> grace"
  defines "s \<equiv> liveness_run parse ops (new_tracker silence grace)"
  shows "case jm_get (lt_hosts s) h of
      None \<Rightarrow> silent_until silence grace ops h = None \<and> (\<forall>j due g. live_timer (lt_timers s) j \<noteq> Some (due, h, g))
    | Some st \<Rightarrow> silent_until silence grace ops h = Some (lv_deadlineAt st)
        \<and> (if lv_confirmedOffline st
           then (\<exists>t. lv_offlineAt st = Some t \<and> lv_deadlineAt st \<le> t \<and> t \<le> now)
             \<and> (\<forall>j due g. live_timer (lt_timers s) j \<noteq> Some (due, h, g))
           else (\<exists>i. (\<forall>j due g. live_timer (lt_timers s) j = Some (due, h, g) \<longleftrightarrow>
                 j = i \<and> due = lv_deadlineAt st \<and> g = lv_timerGeneration st)
             \<and> (\<forall>later \<ge> lv_deadlineAt st.
                  isConfirmedOffline (JNum (rat_of_int h)) (liveness_timeout later i s))))"
proof -
  define since where "since = (if ops = [] then now else fst (hd ops))"
  have "tracker_inv silence grace since (new_tracker silence grace)"
    using liveness_ok_new [of silence grace] assms(3,4) by (simp add: tracker_inv_def new_tracker_def)
  moreover have "sorted (since # map fst ops)" "since \<le> now" using assms(1,2) by (cases ops; auto simp: since_def)+
  ultimately have inv: "tracker_inv silence grace now s"
    and dl: "deadlines s = silent_until silence grace ops"
    using liveness_run_inv [of silence grace since "new_tracker silence grace" ops now parse] assms(2-4)
    by (auto simp: s_def silent_until_def deadlines_def [abs_def] new_tracker_def)
  have ok: "liveness_ok s" using inv by (simp add: tracker_inv_def)
  note own = timer_has_owner [OF ok]
  show ?thesis
  proof (cases "jm_get (lt_hosts s) h")
    case None
    then have "liveness_owner s h = None" by (simp add: liveness_owner_def)
    then show ?thesis using None fun_cong [OF dl, of h] own by (fastforce simp: deadlines_def)
  next
    case (Some st)
    then have d: "silent_until silence grace ops h = Some (lv_deadlineAt st)" using fun_cong [OF dl, of h] by (simp add: deadlines_def)
    have w: "host_waits s h st" using ok Some by (rule liveness_okD(3))
    then have hpos: "js_positive_int (JNum (rat_of_int h)) = Some h" by (simp add: host_waits_def)
    show ?thesis
    proof (cases "lv_confirmedOffline st")
      case True
      have "liveness_owner s h = None" using True w Some by (simp add: host_waits_def liveness_owner_def)
      then show ?thesis using True Some d w inv own by (fastforce simp: host_waits_def tracker_inv_def)
    next
      case False
      then obtain i where i: "live_timer (lt_timers s) i = Some (lv_deadlineAt st, h, lv_timerGeneration st)" "lv_timer st = Some i"
        using w by (auto simp: host_waits_def)
      have only: "live_timer (lt_timers s) j = Some (due, h, g) \<longleftrightarrow> j = i \<and> due = lv_deadlineAt st \<and> g = lv_timerGeneration st" for j due g
        using own [of j due h g] i Some by (auto simp: liveness_owner_def)
      have "isConfirmedOffline (JNum (rat_of_int h)) (liveness_timeout later i s)" if "lv_deadlineAt st \<le> later" for later
        using that by (rule_tac timeout_cases [where now = later, OF ok i(1)])
          (simp add: Let_def isConfirmedOffline_def emit_transition_fields put_host_def hpos)
      then show ?thesis using Some d False only by auto
    qed
  qed
qed


theorem liveness_matches_silence_witness:
  "let s = liveness_run (\<lambda>_. None) [(0, Presence (JNum 7) (TVal JUndef)), (5, Timeout 0), (90000, Timeout 1)] (new_tracker 90000 90000)
   in case jm_get (lt_hosts s) 7 of None \<Rightarrow> False | Some st \<Rightarrow> lv_deadlineAt st = 90000"
proof -
  let ?ops = "[(0, Presence (JNum 7) (TVal JUndef)), (5, Timeout 0), (90000, Timeout 1)]"
  have "silent_until 90000 90000 ?ops 7 = Some 90000" by (simp add: silent_until_def)
  then show ?thesis
    using liveness_matches_silence [where ops = ?ops and now = 90000 and silence = 90000 and grace = 90000 and h = 7 and parse = "\<lambda>_. None"] by (auto simp: Let_def split: option.splits)
qed

section \<open>Transitions\<close>

definition events_of :: "int \<Rightarrow> liveness_event list \<Rightarrow> liveness_event list" where
  "events_of h es = filter (\<lambda>e. lv_hostId (le_state e) = h) es"

text \<open>
  Epochs number the transitions of all hosts in order, and the epoch of a host is the one of its last
  transition since it was registered.
\<close>

definition epoch_matches :: "liveness_event list \<Rightarrow> liveness_state \<Rightarrow> bool" where
  "epoch_matches es st =
     (if lv_transitionEpoch st = 0 then \<not> lv_confirmedOffline st
      else es \<noteq> [] \<and> lv_transitionEpoch (le_state (last es)) = lv_transitionEpoch st
        \<and> (le_kind (last es) = ConfirmedOffline) = lv_confirmedOffline st)"

definition epochs_ok :: "tracker \<Rightarrow> bool" where
  "epochs_ok s \<longleftrightarrow>
     (\<forall>i < length (lt_events s). lv_transitionEpoch (le_state (lt_events s ! i)) = int i + 1)
     \<and> lt_epochCounter s = int (length (lt_events s))
     \<and> (\<forall>h st. jm_get (lt_hosts s) h = Some st \<longrightarrow> epoch_matches (events_of h (lt_events s)) st)"

lemma epochs_ok_new: "epochs_ok (new_tracker a b)"
  by (simp add: epochs_ok_def new_tracker_def)

text \<open>Steps that emit nothing.\<close>

lemma epochs_ok_quiet:
  assumes "epochs_ok s" "lt_events s' = lt_events s" "lt_epochCounter s' = lt_epochCounter s"
    and "\<And>h st. jm_get (lt_hosts s') h = Some st \<Longrightarrow>
      (\<exists>st0. jm_get (lt_hosts s) h = Some st0 \<and> lv_transitionEpoch st = lv_transitionEpoch st0
         \<and> lv_confirmedOffline st = lv_confirmedOffline st0)
      \<or> lv_transitionEpoch st = 0 \<and> \<not> lv_confirmedOffline st"
  shows "epochs_ok s'"
  unfolding epochs_ok_def assms(2,3)
proof (intro conjI)
  show "(\<forall>i < length (lt_events s). lv_transitionEpoch (le_state (lt_events s ! i)) = int i + 1)"
    "lt_epochCounter s = int (length (lt_events s))"
    using assms(1) by (simp_all add: epochs_ok_def)
  have "epoch_matches (events_of h (lt_events s)) st" if "jm_get (lt_hosts s') h = Some st" for h st
    using assms(4) [OF that] assms(1) by (elim disjE) (auto simp: epochs_ok_def epoch_matches_def)
  then show "\<forall>h st. jm_get (lt_hosts s') h = Some st \<longrightarrow> epoch_matches (events_of h (lt_events s)) st"
    by blast
qed

text \<open>Steps that emit one transition.\<close>

lemma epochs_ok_emit:
  assumes ok: "epochs_ok s" and few: "int (length (lt_events s)) < js_max_safe_integer"
    and st: "lv_hostId st = h" "lv_transitionEpoch st = next_generation (lt_epochCounter s)"
      "lv_confirmedOffline st = (kind = ConfirmedOffline)"
    and s': "lt_events s' = lt_events s @ [\<lparr>le_kind = kind, le_state = snapshot_of st\<rparr>]"
      "lt_epochCounter s' = next_generation (lt_epochCounter s)"
      "\<And>h' x. jm_get (lt_hosts s') h' = Some x \<Longrightarrow>
         if h' = h then lv_transitionEpoch x = lv_transitionEpoch st \<and> lv_confirmedOffline x = lv_confirmedOffline st
         else jm_get (lt_hosts s) h' = Some x"
  shows "epochs_ok s'"
proof -
  have next_e: "next_generation (lt_epochCounter s) = int (Suc (length (lt_events s)))"
    using ok few by (simp add: epochs_ok_def next_generation_def)
  have snap: "lv_hostId (snapshot_of st) = h" "lv_transitionEpoch (snapshot_of st) = lv_transitionEpoch st"
    using st(1) by (simp_all add: snapshot_of_def liveness_snapshot.truncate_def)
  have ev: "events_of h' (lt_events s') = (if h' = h then events_of h (lt_events s) @ [\<lparr>le_kind = kind, le_state = snapshot_of st\<rparr>]
      else events_of h' (lt_events s))" for h'
    using snap by (simp add: events_of_def s')
  have "epoch_matches (events_of h' (lt_events s')) x"
    if g: "jm_get (lt_hosts s') h' = Some x" for h' x
  proof (cases "h' = h")
    case True
    then show ?thesis using s'(3) [OF g] st snap next_e by (simp add: ev epoch_matches_def)
  next
    case False
    then have "jm_get (lt_hosts s) h' = Some x" using s'(3) [OF g] by simp
    then show ?thesis using ok False by (simp add: ev epochs_ok_def)
  qed
  moreover have "\<forall>i < length (lt_events s'). lv_transitionEpoch (le_state (lt_events s' ! i)) = int i + 1"
    using ok snap(2) st(2) next_e by (auto simp: s'(1) nth_append less_Suc_eq epochs_ok_def)
  ultimately show ?thesis unfolding epochs_ok_def using s'(1,2) next_e by simp
qed


definition epochs_step :: "tracker \<Rightarrow> tracker \<Rightarrow> bool" where
  "epochs_step s s' \<longleftrightarrow> length (lt_events s) \<le> length (lt_events s')
     \<and> (epochs_ok s \<and> int (length (lt_events s')) \<le> js_max_safe_integer \<longrightarrow> epochs_ok s')"

lemma epochs_step_refl: "epochs_step s s"
  by (simp add: epochs_step_def)

lemma epochs_step_trans: "epochs_step s s' \<Longrightarrow> epochs_step s' s'' \<Longrightarrow> epochs_step s s''"
  by (auto simp: epochs_step_def)

lemma epochs_step_quiet:
  assumes "lt_events s' = lt_events s" "lt_epochCounter s' = lt_epochCounter s"
    and "\<And>h st. jm_get (lt_hosts s') h = Some st \<Longrightarrow>
      (\<exists>st0. jm_get (lt_hosts s) h = Some st0 \<and> lv_transitionEpoch st = lv_transitionEpoch st0
         \<and> lv_confirmedOffline st = lv_confirmedOffline st0)
      \<or> lv_transitionEpoch st = 0 \<and> \<not> lv_confirmedOffline st"
  shows "epochs_step s s'"
  using epochs_ok_quiet [OF _ assms] assms(1) by (simp add: epochs_step_def)

lemma observe_epochs:
  assumes "liveness_ok s"
  shows "epochs_step s (snd (observeActivity parse now v t s))"
proof (cases "js_positive_int v")
  case None
  then show ?thesis by (simp add: observeActivity_def epochs_step_refl)
next
  case h: (Some h)
  show ?thesis
  proof (cases "jm_get (lt_hosts s) h")
    case None
    then show ?thesis using h by (simp add: observeActivity_def epochs_step_refl)
  next
    case st: (Some st)
    have id: "lv_hostId st = h" using liveness_okD(3) [OF assms st] by (simp add: host_waits_def)
    define e where "e = (if lv_confirmedOffline st then next_generation (lt_epochCounter s) else lt_epochCounter s)"
    define st1 where "st1 = observed_state parse now t (lt_silenceMs s) e st"
    define s1 where "s1 = s\<lparr>lt_hosts := jm_set h st1 (lt_hosts s), lt_timers := clear_timer_opt (lv_timer st) (lt_timers s),
        lt_epochCounter := e\<rparr>"
    define s' where "s' = snd (observeActivity parse now v t s)"
    have eq: "s' = (if lv_confirmedOffline st then emit_transition ActivityRestored st1 (arm_liveness now h s1)
        else arm_liveness now h s1)"
      unfolding s'_def s1_def st1_def e_def using h st by (simp add: observeActivity_def Let_def)
    note f = observed_state_fields [of parse now t "lt_silenceMs s" e st, unfolded id, folded st1_def]
    have get: "\<exists>i. jm_get (lt_hosts s') h' = (if h' = h then Some (st1\<lparr>lv_timer := i\<rparr>) else jm_get (lt_hosts s) h')" for h'
      by (auto simp: eq emit_transition_fields arm_liveness_get s1_def)
    show ?thesis
    proof (cases "lv_confirmedOffline st")
      case False
      have "epochs_step s s'"
        by (rule epochs_step_quiet)
          (use False f(3,6) in \<open>auto simp: eq arm_liveness_fields s1_def e_def st arm_liveness_get
            split: if_splits\<close>)
      then show ?thesis by (simp add: s'_def)
    next
      case True
      have ev: "lt_events s' = lt_events s @ [\<lparr>le_kind = ActivityRestored, le_state = snapshot_of st1\<rparr>]"
        using True by (simp add: eq emit_transition_fields arm_liveness_fields s1_def)
      have "epochs_ok s'" if "epochs_ok s" "int (length (lt_events s')) \<le> js_max_safe_integer"
      proof (rule epochs_ok_emit [OF that(1) _ f(1), where kind = ActivityRestored])
        show "int (length (lt_events s)) < js_max_safe_integer" using that(2) by (simp add: ev)
        show "lv_transitionEpoch st1 = next_generation (lt_epochCounter s)" using f(6) True by (simp add: e_def)
        show "lv_confirmedOffline st1 = (ActivityRestored = ConfirmedOffline)" using f(3) by simp
        show "lt_events s' = lt_events s @ [\<lparr>le_kind = ActivityRestored, le_state = snapshot_of st1\<rparr>]" by (rule ev)
        show "lt_epochCounter s' = next_generation (lt_epochCounter s)"
          using True by (simp add: eq emit_transition_fields arm_liveness_fields s1_def e_def)
        fix h' x
        assume "jm_get (lt_hosts s') h' = Some x"
        then show "if h' = h then lv_transitionEpoch x = lv_transitionEpoch st1 \<and> lv_confirmedOffline x = lv_confirmedOffline st1
         else jm_get (lt_hosts s) h' = Some x"
          using get [of h'] by auto
      qed
      then show ?thesis by (simp add: epochs_step_def s'_def [symmetric] ev)
    qed
  qed
qed

lemma remove_epochs: "epochs_step s (snd (removeHost v s))"
  by (rule epochs_step_quiet) (auto simp: removeHost_def split: option.splits if_splits)

lemma register_epochs:
  assumes "liveness_ok s"
  shows "epochs_step s (snd (registerHost parse now host startup act s))"
proof (cases "host_identity host")
  case None
  then show ?thesis by (simp add: registerHost_def epochs_step_refl)
next
  case h: (Some h)
  show ?thesis
  proof (cases "supportsAgentFastLiveness (JStr (host_version host))")
    case False
    then show ?thesis using h remove_epochs by (simp add: registerHost_def Let_def)
  next
    case sup: True
    show ?thesis
    proof (cases "jm_get (lt_hosts s) h")
      case st: (Some st)
      define s1 where "s1 = s\<lparr>lt_hosts := jm_set h (st\<lparr>lv_agentVersion := host_version host\<rparr>) (lt_hosts s)\<rparr>"
      have ok1: "liveness_ok s1" unfolding s1_def by (rule version_ok [OF assms st])
      have "epochs_step s s1"
        by (rule epochs_step_quiet) (auto simp: s1_def st split: if_splits)
      moreover have "epochs_step s1 (snd (observeActivity parse now (JNum (rat_of_int h)) t s1))" for t
        by (rule observe_epochs [OF ok1])
      ultimately show ?thesis
        using h sup st by (auto simp: registerHost_def Let_def s1_def [symmetric] intro: epochs_step_trans split: option.split)
    next
      case none: None
      have "lv_transitionEpoch (new_host_state parse now host h startup act s) = 0"
        "\<not> lv_confirmedOffline (new_host_state parse now host h startup act s)"
        by (simp_all add: new_host_state_def Let_def)
      then show ?thesis
        by (intro epochs_step_quiet)
          (use h sup none in \<open>auto simp: registerHost_def Let_def arm_liveness_fields arm_liveness_get split: if_splits\<close>)
    qed
  qed
qed

lemma timeout_epochs:
  assumes ok: "liveness_ok s"
  shows "epochs_step s (liveness_timeout now i s)"
proof (cases "live_timer (lt_timers s) i")
  case None
  then show ?thesis by (simp add: liveness_timeout_def epochs_step_refl)
next
  case (Some x)
  obtain due h g where x: "live_timer (lt_timers s) i = Some (due, h, g)" using Some by (cases x) auto
  obtain st where st: "jm_get (lt_hosts s) h = Some st" "\<not> lv_confirmedOffline st" "lv_hostId st = h"
    and early: "now < due \<Longrightarrow> liveness_timeout now i s = arm_liveness now h (put_host h (st\<lparr>lv_timer := None\<rparr>) s)"
    and late: "due \<le> now \<Longrightarrow> liveness_timeout now i s =
       (let e = next_generation (lt_epochCounter s);
            st2 = st\<lparr>lv_timer := None, lv_confirmedOffline := True, lv_offlineAt := Some now, lv_lastOfflineAt := Some now,
                     lv_transitionEpoch := e\<rparr>
        in emit_transition ConfirmedOffline st2 (put_host h st2 s\<lparr>lt_epochCounter := e\<rparr>))"
    using timeout_cases [where now = now, OF ok x] by blast
  show ?thesis
  proof (cases "now < due")
    case True
    then show ?thesis
      by (intro epochs_step_quiet) (use st in \<open>auto simp: early arm_liveness_fields arm_liveness_get put_host_def split: if_splits\<close>)
  next
    case False
    define e where "e = next_generation (lt_epochCounter s)"
    define st2 where "st2 = st\<lparr>lv_timer := None, lv_confirmedOffline := True, lv_offlineAt := Some now,
        lv_lastOfflineAt := Some now, lv_transitionEpoch := e\<rparr>"
    define s' where "s' = liveness_timeout now i s"
    have eq: "s' = emit_transition ConfirmedOffline st2 (put_host h st2 s\<lparr>lt_epochCounter := e\<rparr>)"
      using late False by (simp add: s'_def st2_def e_def Let_def)
    have ev: "lt_events s' = lt_events s @ [\<lparr>le_kind = ConfirmedOffline, le_state = snapshot_of st2\<rparr>]"
      by (simp add: eq emit_transition_fields put_host_def)
    have "epochs_ok s'" if "epochs_ok s" "int (length (lt_events s')) \<le> js_max_safe_integer"
    proof (rule epochs_ok_emit [OF that(1), where kind = ConfirmedOffline and st = st2 and h = h])
      show "int (length (lt_events s)) < js_max_safe_integer" using that(2) by (simp add: ev)
      show "lt_events s' = lt_events s @ [\<lparr>le_kind = ConfirmedOffline, le_state = snapshot_of st2\<rparr>]" by (rule ev)
      show "lt_epochCounter s' = next_generation (lt_epochCounter s)"
        by (simp add: eq emit_transition_fields e_def)
      fix h' x
      assume "jm_get (lt_hosts s') h' = Some x"
      then show "if h' = h then lv_transitionEpoch x = lv_transitionEpoch st2 \<and> lv_confirmedOffline x = lv_confirmedOffline st2
         else jm_get (lt_hosts s) h' = Some x"
        by (auto simp: eq emit_transition_fields put_host_def split: if_splits)
    qed (simp_all add: st2_def e_def st)
    then show ?thesis by (simp add: epochs_step_def s'_def [symmetric] ev)
  qed
qed

lemma prime_epochs:
  assumes "tracker_inv silence grace now s" "0 \<le> silence" "0 \<le> grace"
  shows "epochs_step s (snd (primeHosts parse now hosts s))"
  using assms(1)
proof (induction hosts arbitrary: s)
  case (Cons host hosts)
  have ok: "liveness_ok s" using Cons.prems by (simp add: tracker_inv_def)
  note r = register_inv [OF Cons.prems assms(2,3), of parse host True None]
  show ?case
    using epochs_step_trans [OF register_epochs [OF ok] Cons.IH [OF conjunct1 [OF r]]] by (simp add: case_prod_unfold Let_def)
qed (simp add: epochs_step_refl)

lemma liveness_step_epochs:
  assumes "tracker_inv silence grace t0 s" "t0 \<le> now" "0 \<le> silence" "0 \<le> grace"
  shows "epochs_step s (liveness_step parse now op s)"
proof -
  have inv: "tracker_inv silence grace now s" using assms(1,2) by (force simp: tracker_inv_def)
  then have ok: "liveness_ok s" by (simp add: tracker_inv_def)
  have "epochs_step s (clear_tracker s)" by (rule epochs_step_quiet) (simp_all add: clear_tracker_def)
  then show ?thesis
    by (cases op) (simp_all add: register_epochs [OF ok] prime_epochs [OF inv assms(3,4)] observe_epochs [OF ok] remove_epochs
        timeout_epochs [OF ok] registerPresenceCapableHost_def epochs_step_refl split: option.split)
qed

lemma liveness_run_epochs:
  assumes "tracker_inv silence grace t0 s" "sorted (t0 # map fst ops)" "0 \<le> silence" "0 \<le> grace"
  shows "epochs_step s (liveness_run parse ops s)"
  using assms(1,2)
proof (induction ops arbitrary: s t0)
  case Nil
  then show ?case by (simp add: liveness_run_def epochs_step_refl)
next
  case (Cons x ops)
  obtain t op where x: "x = (t, op)" by (cases x)
  have le: "t0 \<le> t" "sorted (t # map fst ops)" using Cons.prems by (simp_all add: x)
  note step = liveness_step_inv [OF Cons.prems(1) le(1) assms(3,4), of parse op]
  show ?case
    using epochs_step_trans [OF liveness_step_epochs [OF Cons.prems(1) le(1) assms(3,4)] Cons.IH [OF conjunct1 [OF step] le(2)]]
    by (simp add: x liveness_run_def)
qed

text \<open>
  A consumer that still finds its transition current acts on the latest one.  After any history with fewer
  than 2^53 transitions, the epochs of the emitted transitions are 1, 2, 3, ... in order, and when
  \<open>isCurrent\<close> of a transition answers true, it is the last transition of its host and tells the state the host is
  in now; conversely, the last transition of a host that is still registered with its epoch is current, and an offline host
  always has such a transition.
\<close>

theorem current_transition_is_latest:
  fixes parse :: "string \<Rightarrow> rat option" and ops :: "(int \<times> liveness_op) list" and silence grace :: int
  assumes "sorted (map fst ops)" and "1 \<le> silence" and "0 \<le> grace"
  defines "s \<equiv> liveness_run parse ops (new_tracker silence grace)"
  assumes "int (length (lt_events s)) \<le> js_max_safe_integer"
  shows "(\<forall>i < length (lt_events s). lv_transitionEpoch (le_state (lt_events s ! i)) = int i + 1)
    \<and> (\<forall>e \<in> set (lt_events s). event_is_current e s \<longrightarrow>
         e = last (events_of (lv_hostId (le_state e)) (lt_events s))
         \<and> (\<exists>st. jm_get (lt_hosts s) (lv_hostId (le_state e)) = Some st
             \<and> lv_confirmedOffline st = (le_kind e = ConfirmedOffline)))
    \<and> (\<forall>h st. jm_get (lt_hosts s) h = Some st \<and> (lv_confirmedOffline st \<or> lv_transitionEpoch st \<noteq> 0) \<longrightarrow>
         events_of h (lt_events s) \<noteq> [] \<and> event_is_current (last (events_of h (lt_events s))) s)"
proof -
  define since where "since = (if ops = [] then 0 else fst (hd ops))"
  define now where "now = (if ops = [] then 0 else Max (fst ` set ops))"
  have start: "tracker_inv silence grace since (new_tracker silence grace)"
    using liveness_ok_new [of silence grace] assms(2,3) by (simp add: tracker_inv_def new_tracker_def)
  have srt: "sorted (since # map fst ops)" using assms(1) by (cases ops; auto simp: since_def)
  have upto: "\<forall>t \<in> fst ` set ops. t \<le> now" "since \<le> now" by (cases ops; auto simp: now_def since_def)+
  have pos: "0 \<le> silence" using assms(2) by simp
  have ok: "epochs_ok s"
    using liveness_run_epochs [OF start srt pos assms(3)] epochs_ok_new assms(5) by (auto simp: epochs_step_def s_def)
  have lok: "liveness_ok s"
    using liveness_run_inv [OF start srt upto pos assms(3)] by (simp add: tracker_inv_def s_def)
  have num: "\<forall>i < length (lt_events s). lv_transitionEpoch (le_state (lt_events s ! i)) = int i + 1"
    using ok by (simp add: epochs_ok_def)
  have inj: "e = e'" if "e \<in> set (lt_events s)" "e' \<in> set (lt_events s)"
    "lv_transitionEpoch (le_state e) = lv_transitionEpoch (le_state e')" for e e'
    using that num by (metis add_right_cancel in_set_conv_nth of_nat_eq_iff)
  have range: "0 < lv_transitionEpoch (le_state e)" "lv_transitionEpoch (le_state e) \<le> js_max_safe_integer"
    if "e \<in> set (lt_events s)" for e
    using that num assms(5) by (auto simp: in_set_conv_nth)
  have last_in: "last (events_of h (lt_events s)) \<in> set (lt_events s)
      \<and> lv_hostId (le_state (last (events_of h (lt_events s)))) = h" if "events_of h (lt_events s) \<noteq> []" for h
    using last_in_set [OF that] by (simp add: events_of_def)
  show ?thesis
  proof (intro conjI ballI impI allI)
    show "lv_transitionEpoch (le_state (lt_events s ! i)) = int i + 1" if "i < length (lt_events s)" for i
      using num that by blast
  next
    fix e
    assume e: "e \<in> set (lt_events s)" "event_is_current e s"
    let ?h = "lv_hostId (le_state e)"
    obtain st where st: "jm_get (lt_hosts s) ?h = Some st" "lv_transitionEpoch st = lv_transitionEpoch (le_state e)"
        "lv_confirmedOffline st = (le_kind e = ConfirmedOffline)"
      using e(2) range [OF e(1)] by (auto simp: event_is_current_def isCurrentTransition_def js_positive_int_def
          split: option.splits if_splits)
    have "epoch_matches (events_of ?h (lt_events s)) st" using ok st(1) by (simp add: epochs_ok_def)
    then have "events_of ?h (lt_events s) \<noteq> []"
      "lv_transitionEpoch (le_state (last (events_of ?h (lt_events s)))) = lv_transitionEpoch (le_state e)"
      using range(1) [OF e(1)] st(2) by (auto simp: epoch_matches_def)
    then show "e = last (events_of ?h (lt_events s))" using inj [OF e(1)] last_in by metis
    show "\<exists>st. jm_get (lt_hosts s) ?h = Some st \<and> lv_confirmedOffline st = (le_kind e = ConfirmedOffline)"
      using st by blast
  next
    fix h st
    assume h: "jm_get (lt_hosts s) h = Some st \<and> (lv_confirmedOffline st \<or> lv_transitionEpoch st \<noteq> 0)"
    have m: "epoch_matches (events_of h (lt_events s)) st" using ok h by (simp add: epochs_ok_def)
    have h0: "0 < h" using liveness_okD(3) [OF lok conjunct1 [OF h]] by (simp add: host_waits_def)
    show ne: "events_of h (lt_events s) \<noteq> []" using m h by (auto simp: epoch_matches_def split: if_splits)
    show "event_is_current (last (events_of h (lt_events s))) s"
      using m h h0 last_in [OF ne] range [OF conjunct1 [OF last_in [OF ne]]]
      by (auto simp: event_is_current_def isCurrentTransition_def epoch_matches_def split: if_splits)
  qed
qed


theorem current_transition_is_latest_witness:
  "let s = liveness_run (\<lambda>_. None) [(0, Presence (JNum 7) (TVal JUndef)), (90000, Timeout 0), (90001, Observe (JNum 7) (TVal JUndef))]
         (new_tracker 90000 90000)
   in map le_kind (lt_events s) = [ConfirmedOffline, ActivityRestored] \<and> lv_transitionEpoch (le_state (lt_events s ! 1)) = 2"
proof -
  let ?ops = "[(0, Presence (JNum 7) (TVal JUndef)), (90000, Timeout 0), (90001, Observe (JNum 7) (TVal JUndef))]"
  define s where "s = liveness_run (\<lambda>_. None) ?ops (new_tracker 90000 90000)"
  have kinds: "map le_kind (lt_events s) = [ConfirmedOffline, ActivityRestored]" unfolding s_def by code_simp
  then have "length (lt_events s) = 2" by (metis length_map length_Cons list.size(3) numeral_2_eq_2)
  then show ?thesis
    using current_transition_is_latest [of ?ops 90000 90000 "\<lambda>_. None"] kinds
    by (simp add: s_def [symmetric] js_max_safe_integer_def)
qed

end
