(* ===== verification/Offline_Debounce.thy ===== *)
theory Offline_Debounce
imports Timers
begin

text \<open>
  The delay before an offline notification (\<open>server/hostOfflineNotificationDebouncer.ts\<close>).  The callbacks of a
  call of \<open>schedule\<close> are a token; what \<open>isCurrent\<close> answers when the timer fires is part of the event,
  and the notifications that were started are the log \<open>db_notified\<close>.
\<close>

record pending_notification =
  pn_generation :: int
  pn_timer :: nat

record 'a debouncer =
  db_delayMs :: int
  db_pending :: "(int, pending_notification) jmap"
  db_generation :: int
  db_timers :: "(int \<times> int \<times> 'a) timer_table"
  db_notified :: "'a list"

datatype currency = Current | Outdated | CurrencyThrows

definition host_offline_notification_debounce_ms :: int where
  "host_offline_notification_debounce_ms = 30000"

definition new_debouncer :: "int \<Rightarrow> 'a debouncer" where
  "new_debouncer delayMs =
     \<lparr>db_delayMs = max 0 delayMs, db_pending = [], db_generation = 0, db_timers = no_timers, db_notified = []\<rparr>"

definition cancel_notification :: "jsval \<Rightarrow> 'a debouncer \<Rightarrow> bool \<times> 'a debouncer" where
  "cancel_notification hostIdValue s =
     (case js_positive_int hostIdValue of
        None \<Rightarrow> (False, s)
      | Some hostId \<Rightarrow>
          (case jm_get (db_pending s) hostId of
             None \<Rightarrow> (False, s)
           | Some current \<Rightarrow>
               (True, s\<lparr>db_timers := clear_timer (pn_timer current) (db_timers s),
                        db_pending := jm_del hostId (db_pending s)\<rparr>)))"

definition schedule_notification :: "int \<Rightarrow> jsval \<Rightarrow> 'a \<Rightarrow> 'a debouncer \<Rightarrow> bool \<times> 'a debouncer" where
  "schedule_notification now hostIdValue token s =
     (case js_positive_int hostIdValue of
        None \<Rightarrow> (False, s)
      | Some hostId \<Rightarrow>
          (let s1 = snd (cancel_notification (JNum (rat_of_int hostId)) s);
               generation = next_generation (db_generation s1);
               (timer, timers) = set_timer (now + db_delayMs s1) (hostId, generation, token) (db_timers s1)
           in (True, s1\<lparr>db_generation := generation, db_timers := timers,
                 db_pending := jm_set hostId \<lparr>pn_generation = generation, pn_timer = timer\<rparr> (db_pending s1)\<rparr>)))"

definition notification_timeout :: "nat \<Rightarrow> currency \<Rightarrow> 'a debouncer \<Rightarrow> 'a debouncer" where
  "notification_timeout timer isCurrent s =
     (case live_timer (db_timers s) timer of
        None \<Rightarrow> s
      | Some (_, hostId, generation, token) \<Rightarrow>
          (let s1 = s\<lparr>db_timers := clear_timer timer (db_timers s)\<rparr> in
           case jm_get (db_pending s1) hostId of
             None \<Rightarrow> s1
           | Some current \<Rightarrow>
               if pn_generation current \<noteq> generation \<or> pn_timer current \<noteq> timer then s1
               else
                 (let s2 = s1\<lparr>db_pending := jm_del hostId (db_pending s1)\<rparr>
                  in if isCurrent = Current then s2\<lparr>db_notified := db_notified s2 @ [token]\<rparr> else s2)))"

definition clear_notifications :: "'a debouncer \<Rightarrow> 'a debouncer" where
  "clear_notifications s =
     s\<lparr>db_timers := foldl (\<lambda>tt current. clear_timer (pn_timer current) tt) (db_timers s) (jm_values (db_pending s)),
       db_pending := []\<rparr>"

definition has_pending_notification :: "jsval \<Rightarrow> 'a debouncer \<Rightarrow> bool" where
  "has_pending_notification hostIdValue s =
     (case js_positive_int hostIdValue of None \<Rightarrow> False | Some hostId \<Rightarrow> jm_has (db_pending s) hostId)"

section \<open>The specification: one slot per host\<close>

datatype 'a notification_op =
    Schedule jsval 'a
  | Cancel jsval
  | CancelAll
  | Expired nat currency

fun notification_step :: "int \<Rightarrow> 'a notification_op \<Rightarrow> 'a debouncer \<Rightarrow> 'a debouncer" where
  "notification_step now (Schedule h token) s = snd (schedule_notification now h token s)"
| "notification_step now (Cancel h) s = snd (cancel_notification h s)"
| "notification_step now CancelAll s = clear_notifications s"
| "notification_step now (Expired i cur) s = notification_timeout i cur s"

definition notification_run :: "int \<Rightarrow> (int \<times> 'a notification_op) list \<Rightarrow> 'a debouncer" where
  "notification_run delayMs ops = foldl (\<lambda>s (now, op). notification_step now op s) (new_debouncer delayMs) ops"

text \<open>The slot of a host: when its notification is due and which one it is.\<close>

definition slot :: "'a debouncer \<Rightarrow> int \<Rightarrow> (nat \<times> int \<times> 'a) option" where
  "slot s h =
     (case jm_get (db_pending s) h of
        None \<Rightarrow> None
      | Some p \<Rightarrow> (case live_timer (db_timers s) (pn_timer p) of
                     None \<Rightarrow> None | Some (due, _, _, token) \<Rightarrow> Some (pn_timer p, due, token)))"

definition pending_owner :: "'a debouncer \<Rightarrow> int \<Rightarrow> nat option" where
  "pending_owner s h = map_option pn_timer (jm_get (db_pending s) h)"

definition debouncer_ok :: "'a debouncer \<Rightarrow> bool" where
  "debouncer_ok s \<longleftrightarrow> js_timers.matches fst (pending_owner s) (db_timers s)
     \<and> (\<forall>h p due g token. jm_get (db_pending s) h = Some p \<longrightarrow>
          live_timer (db_timers s) (pn_timer p) = Some (due, h, g, token) \<longrightarrow> g = pn_generation p)"

lemma pending_owner_new: "pending_owner (new_debouncer d) = (\<lambda>_. None)"
  by (simp add: fun_eq_iff pending_owner_def new_debouncer_def)

lemma debouncer_ok_new: "debouncer_ok (new_debouncer d)"
  unfolding debouncer_ok_def pending_owner_new by (simp add: new_debouncer_def timers_match_init)

lemma pending_live:
  assumes "debouncer_ok s" "jm_get (db_pending s) h = Some p"
  obtains due token where "live_timer (db_timers s) (pn_timer p) = Some (due, h, pn_generation p, token)"
proof -
  have own: "pending_owner s h = Some (pn_timer p)" using assms(2) by (simp add: pending_owner_def)
  have "js_timers.matches fst (pending_owner s) (db_timers s)" using assms(1) by (simp add: debouncer_ok_def)
  from js_timers.matches_live [OF this own] obtain due g token
    where l: "live_timer (db_timers s) (pn_timer p) = Some (due, h, g, token)" by auto
  then have "g = pn_generation p" using assms by (auto simp: debouncer_ok_def)
  with l that show ?thesis by blast
qed

lemma pending_distinct:
  assumes "debouncer_ok s" "jm_get (db_pending s) h = Some p" "jm_get (db_pending s) h' = Some p'" "h \<noteq> h'"
  shows "pn_timer p \<noteq> pn_timer p'"
  using pending_live [OF assms(1,2)] pending_live [OF assms(1,3)] assms(4) by (metis Pair_inject option.inject)

lemma slot_None: "debouncer_ok s \<Longrightarrow> slot s h = None \<longleftrightarrow> jm_get (db_pending s) h = None"
  by (cases "jm_get (db_pending s) h") (auto simp: slot_def elim: pending_live)

lemma slot_timer_inj:
  assumes "debouncer_ok s" "slot s h = Some (i, x)" "slot s h' = Some (i, y)"
  shows "h = h'"
  using assms pending_distinct [OF assms(1), of h _ h'] by (force simp: slot_def split: option.splits)

text \<open>Emptying the slot of a host, whoever does it.\<close>

lemma empty_slot:
  assumes ok: "debouncer_ok s" and p: "jm_get (db_pending s) h = Some p"
    and s': "db_timers s' = clear_timer (pn_timer p) (db_timers s)" "db_pending s' = jm_del h (db_pending s)"
  shows "debouncer_ok s' \<and> slot s' = (slot s)(h := None)"
proof -
  have "pending_owner s' = (pending_owner s)(h := None)" by (auto simp: fun_eq_iff pending_owner_def s')
  moreover have "js_timers.matches fst ((pending_owner s)(h := None)) (clear_timer (pn_timer p) (db_timers s))"
    using ok p by (intro js_timers.matches_disarm) (auto simp: debouncer_ok_def pending_owner_def)
  moreover have other: "live_timer (db_timers s') (pn_timer q) = live_timer (db_timers s) (pn_timer q)"
    if "jm_get (db_pending s) h' = Some q" "h' \<noteq> h" for h' q
    using pending_distinct [OF ok p that(1)] that(2) by (auto simp: s' live_clear_timer)
  ultimately have "debouncer_ok s'"
    using ok by (auto simp: debouncer_ok_def s' split: if_splits)
  moreover have "slot s' h' = ((slot s)(h := None)) h'" for h'
    using other by (auto simp: slot_def s'(2) split: option.split)
  ultimately show ?thesis by (simp add: fun_eq_iff)
qed

lemma cancel_slot:
  assumes "debouncer_ok s"
  shows "debouncer_ok (snd (cancel_notification v s))
    \<and> slot (snd (cancel_notification v s)) = (case js_positive_int v of None \<Rightarrow> slot s | Some h \<Rightarrow> (slot s)(h := None))
    \<and> db_notified (snd (cancel_notification v s)) = db_notified s \<and> db_delayMs (snd (cancel_notification v s)) = db_delayMs s"
proof (cases "js_positive_int v")
  case None
  then show ?thesis using assms by (simp add: cancel_notification_def)
next
  case (Some h)
  show ?thesis
  proof (cases "jm_get (db_pending s) h")
    case None
    then have "slot s h = None" by (simp add: slot_def)
    then have "(slot s)(h := None) = slot s" by (auto simp: fun_eq_iff)
    then show ?thesis using assms Some None by (simp add: cancel_notification_def)
  next
    case p: (Some p)
    then show ?thesis using empty_slot [OF assms p, of "snd (cancel_notification v s)"] Some
      by (simp add: cancel_notification_def)
  qed
qed

lemma schedule_slot:
  assumes "debouncer_ok s"
  shows "debouncer_ok (snd (schedule_notification now v token s))
    \<and> (case js_positive_int v of None \<Rightarrow> slot (snd (schedule_notification now v token s)) = slot s
       | Some h \<Rightarrow> \<exists>i. slot (snd (schedule_notification now v token s)) = (slot s)(h \<mapsto> (i, now + db_delayMs s, token))
           \<and> (\<forall>h'. \<forall>x \<in> set_option (slot s h'). h' \<noteq> h \<longrightarrow> fst x \<noteq> i))
    \<and> db_notified (snd (schedule_notification now v token s)) = db_notified s
    \<and> db_delayMs (snd (schedule_notification now v token s)) = db_delayMs s"
proof (cases "js_positive_int v")
  case None
  then show ?thesis using assms by (simp add: schedule_notification_def)
next
  case (Some h)
  then have hpos: "js_positive_int (JNum (rat_of_int h)) = Some h" by (auto dest!: js_positive_intD)
  define s1 where "s1 = snd (cancel_notification (JNum (rat_of_int h)) s)"
  have c: "debouncer_ok s1" "slot s1 = (slot s)(h := None)" "db_notified s1 = db_notified s" "db_delayMs s1 = db_delayMs s"
    using cancel_slot [OF assms, of "JNum (rat_of_int h)"] hpos by (simp_all add: s1_def)
  define g where "g = next_generation (db_generation s1)"
  let ?due = "now + db_delayMs s1" and ?i = "tt_next (db_timers s1)"
  define s2 where "s2 = snd (schedule_notification now v token s)"
  have s2: "s2 = s1\<lparr>db_generation := g, db_timers := snd (set_timer ?due (h, g, token) (db_timers s1)),
       db_pending := jm_set h \<lparr>pn_generation = g, pn_timer = ?i\<rparr> (db_pending s1)\<rparr>"
    using Some by (simp add: s2_def schedule_notification_def Let_def s1_def [symmetric] g_def case_prod_unfold fst_set_timer)
  have m: "js_timers.matches fst (pending_owner s1) (db_timers s1)" using c(1) by (simp add: debouncer_ok_def)
  have none: "jm_get (db_pending s1) h = None" using slot_None [OF c(1), of h] c(2) by simp
  have owner: "pending_owner s2 = (pending_owner s1)(h \<mapsto> ?i)" by (auto simp: fun_eq_iff pending_owner_def s2)
  have m2: "js_timers.matches fst (pending_owner s2) (db_timers s2)"
    using js_timers.matches_arm [OF m, of h "(h, g, token)" ?due] none unfolding owner
    by (simp add: s2 fst_set_timer pending_owner_def)
  have live: "live_timer (db_timers s2) = (live_timer (db_timers s1))(?i \<mapsto> (?due, h, g, token))"
    by (simp add: s2 live_set_timer)
  have "timer_ok (db_timers s1)" using m by (simp add: js_timers.matches_def)
  then have fresh: "pn_timer p \<noteq> ?i" if "jm_get (db_pending s1) h' = Some p" for h' p
    using pending_live [OF c(1) that] live_timer_bound by (metis less_irrefl)
  have get: "jm_get (db_pending s2) h' = (if h' = h then Some \<lparr>pn_generation = g, pn_timer = ?i\<rparr> else jm_get (db_pending s1) h')" for h'
    by (simp add: s2)
  have old: "g' = pn_generation p" if "jm_get (db_pending s1) h' = Some p" "live_timer (db_timers s1) (pn_timer p) = Some (d, h', g', tk)"
    for h' p d g' tk
    using c(1) that by (auto simp: debouncer_ok_def)
  have ok2: "debouncer_ok s2"
    unfolding debouncer_ok_def using m2 old fresh by (auto simp: live get split: if_splits)
  have "slot s2 h' = ((slot s)(h \<mapsto> (?i, now + db_delayMs s, token))) h'" for h'
  proof (cases "h' = h")
    case True
    then show ?thesis by (simp add: slot_def live get c(4))
  next
    case False
    then have "slot s2 h' = slot s1 h'"
      using fresh by (auto simp: slot_def live get split: option.split)
    then show ?thesis using False c(2) by simp
  qed
  then have "slot s2 = (slot s)(h \<mapsto> (?i, now + db_delayMs s, token))" by (simp add: fun_eq_iff)
  moreover have "fst x \<noteq> ?i" if "x \<in> set_option (slot s h')" "h' \<noteq> h" for h' x
  proof -
    have "slot s1 h' = Some x" using that c(2) by simp
    then show ?thesis using fresh by (auto simp: slot_def split: option.splits)
  qed
  moreover have "db_notified s2 = db_notified s" "db_delayMs s2 = db_delayMs s" by (simp_all add: s2 c)
  ultimately show ?thesis using ok2 Some unfolding s2_def [symmetric] by auto
qed


lemma timeout_slot:
  assumes "debouncer_ok s"
  shows "debouncer_ok (notification_timeout i cur s)
    \<and> db_delayMs (notification_timeout i cur s) = db_delayMs s
    \<and> (if \<exists>h due token. slot s h = Some (i, due, token)
       then \<exists>h due token. slot s h = Some (i, due, token) \<and> slot (notification_timeout i cur s) = (slot s)(h := None)
          \<and> db_notified (notification_timeout i cur s) = db_notified s @ (if cur = Current then [token] else [])
       else notification_timeout i cur s = s)"
proof (cases "live_timer (db_timers s) i")
  case None
  then have "slot s h \<noteq> Some (i, x)" for h x by (auto simp: slot_def split: option.splits)
  then show ?thesis using assms None by (simp add: notification_timeout_def)
next
  case (Some x)
  obtain due h g token where x: "live_timer (db_timers s) i = Some (due, h, g, token)" using Some by (cases x) auto
  have "js_timers.matches fst (pending_owner s) (db_timers s)" using assms by (simp add: debouncer_ok_def)
  from js_timers.matches_owner [OF this x] obtain p where p: "jm_get (db_pending s) h = Some p" "pn_timer p = i"
    by (auto simp: pending_owner_def)
  have g: "pn_generation p = g" using assms p x by (auto simp: debouncer_ok_def)
  have sl: "slot s h = Some (i, due, token)" using p x by (simp add: slot_def)
  define s' where "s' = notification_timeout i cur s"
  have s': "db_timers s' = clear_timer (pn_timer p) (db_timers s)" "db_pending s' = jm_del h (db_pending s)"
    "db_notified s' = db_notified s @ (if cur = Current then [token] else [])" "db_delayMs s' = db_delayMs s"
    using x p g by (auto simp: s'_def notification_timeout_def Let_def)
  show ?thesis using empty_slot [OF assms p(1) s'(1,2)] s'(3,4) sl unfolding s'_def by auto
qed

lemma clear_slots:
  assumes "debouncer_ok s"
  shows "debouncer_ok (clear_notifications s) \<and> slot (clear_notifications s) = Map.empty"
proof -
  have all: "live_timer (foldl (\<lambda>tt q. clear_timer (pn_timer q) tt) tt ps) i =
      (if i \<in> pn_timer ` set ps then None else live_timer tt i)" for tt :: "(int \<times> int \<times> 'a) timer_table" and ps i
    by (induction ps arbitrary: tt) (auto simp: live_clear_timer)
  have okk: "timer_ok (foldl (\<lambda>tt q. clear_timer (pn_timer q) tt) tt ps)" if "timer_ok tt"
    for tt :: "(int \<times> int \<times> 'a) timer_table" and ps
    using that by (induction ps arbitrary: tt) (auto simp: timer_ok_clear)
  have m: "js_timers.matches fst (pending_owner s) (db_timers s)" using assms by (simp add: debouncer_ok_def)
  then have tok: "timer_ok (db_timers s)" by (simp add: js_timers.matches_def)
  let ?s = "clear_notifications s"
  have "live_timer (db_timers ?s) i = None" for i
  proof (cases "live_timer (db_timers s) i")
    case None
    then show ?thesis by (simp add: clear_notifications_def all)
  next
    case (Some x)
    obtain due c where "live_timer (db_timers s) i = Some (due, c)" using Some by (cases x) auto
    from js_timers.matches_owner [OF m this] have "i \<in> pn_timer ` set (jm_values (db_pending s))"
      by (force simp: pending_owner_def dest: jm_get_in_set)
    then show ?thesis by (simp add: clear_notifications_def all)
  qed
  moreover have "timer_ok (db_timers ?s)" by (simp add: clear_notifications_def okk tok)
  moreover have "pending_owner ?s = (\<lambda>_. None)" "db_pending ?s = []"
    by (simp_all add: fun_eq_iff pending_owner_def clear_notifications_def)
  ultimately have "debouncer_ok ?s"
    unfolding debouncer_ok_def by (simp add: js_timers.matches_none)
  then show ?thesis by (simp add: fun_eq_iff slot_def clear_notifications_def)
qed

section \<open>Histories\<close>

text \<open>The hosts that wait to notify with a token, and how often a token was scheduled.\<close>

definition waiting :: "'a debouncer \<Rightarrow> 'a \<Rightarrow> int set" where
  "waiting s token = {h. \<exists>i due. slot s h = Some (i, due, token)}"

fun schedules_of :: "'a \<Rightarrow> (int \<times> 'a notification_op) list \<Rightarrow> nat" where
  "schedules_of token [] = 0"
| "schedules_of token ((now, op) # ops) =
     (case op of Schedule h t \<Rightarrow> if js_positive_int h \<noteq> None \<and> t = token then 1 else 0 | _ \<Rightarrow> 0) + schedules_of token ops"

definition credit :: "'a \<Rightarrow> 'a debouncer \<Rightarrow> nat" where
  "credit token s = count_list (db_notified s) token + card (waiting s token)"

lemma finite_waiting: "finite (waiting s token)"
proof (rule finite_subset)
  show "waiting s token \<subseteq> set (jm_keys (db_pending s))"
    by (force simp: waiting_def slot_def split: option.splits dest: jm_get_in_set)
qed simp

lemma credit_le:
  assumes "db_notified s' = db_notified s" "waiting s' token \<subseteq> waiting s token"
  shows "credit token s' \<le> credit token s"
  using card_mono [OF finite_waiting assms(2)] assms(1) by (simp add: credit_def)

lemma notification_step_credit:
  assumes "debouncer_ok s"
  shows "debouncer_ok (notification_step now op s)
    \<and> credit token (notification_step now op s) \<le> credit token s + schedules_of token [(now, op)]"
proof (cases op)
  case (Schedule v t)
  note f = schedule_slot [OF assms, of now v t]
  let ?s = "snd (schedule_notification now v t s)"
  show ?thesis
  proof (cases "js_positive_int v")
    case None
    then show ?thesis using f Schedule by (auto simp: waiting_def intro!: credit_le)
  next
    case (Some h)
    then obtain i where sl: "slot ?s = (slot s)(h \<mapsto> (i, now + db_delayMs s, t))" using f by auto
    show ?thesis
    proof (cases "t = token")
      case True
      have "waiting ?s token \<subseteq> insert h (waiting s token)" by (auto simp: waiting_def sl)
      then have "card (waiting ?s token) \<le> Suc (card (waiting s token))"
        using card_mono [of "insert h (waiting s token)" "waiting ?s token"]
        by (simp add: finite_waiting card_insert_if split: if_splits)
      then show ?thesis using f Schedule Some True by (simp add: credit_def)
    next
      case False
      then have "waiting ?s token \<subseteq> waiting s token" by (auto simp: waiting_def sl split: if_splits)
      then show ?thesis using f Schedule credit_le [of ?s s token] by simp
    qed
  qed
next
  case (Cancel v)
  note f = cancel_slot [OF assms, of v]
  have "waiting (snd (cancel_notification v s)) token \<subseteq> waiting s token"
    using f by (auto simp: waiting_def split: option.splits if_splits)
  then show ?thesis using f Cancel credit_le [of "snd (cancel_notification v s)" s token] by simp
next
  case CancelAll
  have "waiting (clear_notifications s) token \<subseteq> waiting s token"
    using clear_slots [OF assms] by (simp add: waiting_def)
  then show ?thesis using clear_slots [OF assms] CancelAll credit_le [of "clear_notifications s" s token]
    by (simp add: clear_notifications_def)
next
  case (Expired i cur)
  note f = timeout_slot [OF assms, of i cur]
  show ?thesis
  proof (cases "\<exists>h due t. slot s h = Some (i, due, t)")
    case False
    then have "notification_timeout i cur s = s" using f by simp
    then show ?thesis using Expired assms by simp
  next
    case True
    then obtain h due t where h: "slot s h = Some (i, due, t)"
        "slot (notification_timeout i cur s) = (slot s)(h := None)"
        "db_notified (notification_timeout i cur s) = db_notified s @ (if cur = Current then [t] else [])"
      using f by auto
    have w: "waiting (notification_timeout i cur s) token = waiting s token - {h}" by (auto simp: waiting_def h)
    have "card (waiting s token - {h}) + (if t = token then 1 else 0) \<le> card (waiting s token)"
    proof (cases "t = token")
      case True
      then have "h \<in> waiting s token" using h(1) by (auto simp: waiting_def)
      then show ?thesis using card_Suc_Diff1 [OF finite_waiting] True by (metis Suc_eq_plus1 order_refl)
    next
      case False
      then show ?thesis by (simp add: card_mono finite_waiting)
    qed
    then show ?thesis using f Expired by (auto simp: credit_def w h(3))
  qed
qed

lemma notification_run_credit:
  "debouncer_ok s \<Longrightarrow>
   debouncer_ok (foldl (\<lambda>s (now, op). notification_step now op s) s ops)
   \<and> credit token (foldl (\<lambda>s (now, op). notification_step now op s) s ops) \<le> credit token s + schedules_of token ops"
proof (induction ops arbitrary: s)
  case (Cons x ops)
  obtain now op where x: "x = (now, op)" by (cases x)
  note st = notification_step_credit [OF Cons.prems, of now op token]
  show ?case using Cons.IH [OF conjunct1 [OF st]] conjunct2 [OF st] by (auto simp: x)
qed simp

lemma debouncer_ok_run: "debouncer_ok (notification_run delayMs ops)"
  unfolding notification_run_def by (rule conjunct1 [OF notification_run_credit [OF debouncer_ok_new]])

text \<open>
  A host has at most one offline notification waiting, and it is the one scheduled last.  After any history of
  calls and timers, scheduling puts the notification in the host's slot with its own timer, whatever was
  there; cancelling empties the slot and tells whether there was one; a timer that fires delivers exactly the notification whose
  slot it belongs to, only if it is still current, and empties the slot, and any other timer changes nothing.  So every
  call of \<open>schedule\<close> is delivered at most once.
\<close>

theorem offline_notification_slots:
  fixes delayMs :: int and ops :: "(int \<times> 'a notification_op) list"
  defines "s \<equiv> notification_run delayMs ops"
  shows "(\<forall>now v token h. js_positive_int v = Some h \<longrightarrow>
            fst (schedule_notification now v token s)
            \<and> (\<exists>i. slot (snd (schedule_notification now v token s)) = (slot s)(h \<mapsto> (i, now + db_delayMs s, token))
                \<and> (\<forall>h' x. slot s h' = Some x \<and> h' \<noteq> h \<longrightarrow> fst x \<noteq> i)))
    \<and> (\<forall>v h. js_positive_int v = Some h \<longrightarrow>
            fst (cancel_notification v s) = (slot s h \<noteq> None) \<and> has_pending_notification v s = (slot s h \<noteq> None)
            \<and> slot (snd (cancel_notification v s)) = (slot s)(h := None))
    \<and> slot (clear_notifications s) = Map.empty
    \<and> (\<forall>i cur h due token. slot s h = Some (i, due, token) \<longrightarrow>
            slot (notification_timeout i cur s) = (slot s)(h := None)
            \<and> db_notified (notification_timeout i cur s) = db_notified s @ (if cur = Current then [token] else []))
    \<and> (\<forall>i cur. (\<forall>h due token. slot s h \<noteq> Some (i, due, token)) \<longrightarrow> notification_timeout i cur s = s)
    \<and> (\<forall>token. count_list (db_notified s) token \<le> schedules_of token ops)"
proof -
  have ok: "debouncer_ok s" by (simp add: s_def debouncer_ok_run)
  show ?thesis
  proof (intro conjI allI impI)
    fix now v token h
    assume v: "js_positive_int v = Some h"
    show "fst (schedule_notification now v token s)" by (simp add: schedule_notification_def v Let_def case_prod_unfold)
    show "\<exists>i. slot (snd (schedule_notification now v token s)) = (slot s)(h \<mapsto> (i, now + db_delayMs s, token))
                \<and> (\<forall>h' x. slot s h' = Some x \<and> h' \<noteq> h \<longrightarrow> fst x \<noteq> i)"
    proof -
      obtain i where i: "slot (snd (schedule_notification now v token s)) = (slot s)(h \<mapsto> (i, now + db_delayMs s, token))"
          "\<forall>h'. \<forall>x \<in> set_option (slot s h'). h' \<noteq> h \<longrightarrow> fst x \<noteq> i"
        using schedule_slot [OF ok, of now v token] v by auto
      then show ?thesis by (metis elem_set fst_conv)
    qed
  next
    fix v h
    assume v: "js_positive_int v = Some h"
    show "fst (cancel_notification v s) = (slot s h \<noteq> None)"
      unfolding slot_None [OF ok] by (simp add: cancel_notification_def v split: option.split)
    show "has_pending_notification v s = (slot s h \<noteq> None)"
      unfolding slot_None [OF ok] by (simp add: has_pending_notification_def v jm_has_def)
    show "slot (snd (cancel_notification v s)) = (slot s)(h := None)" using cancel_slot [OF ok, of v] v by simp
  next
    show "slot (clear_notifications s) = Map.empty" using clear_slots [OF ok] by simp
  next
    fix i cur h due token
    assume sl: "slot s h = Some (i, due, token)"
    have "\<exists>h due token. slot s h = Some (i, due, token)" using sl by blast
    then obtain h' due' token' where h': "slot s h' = Some (i, due', token')"
        "slot (notification_timeout i cur s) = (slot s)(h' := None)"
        "db_notified (notification_timeout i cur s) = db_notified s @ (if cur = Current then [token'] else [])"
      using timeout_slot [OF ok, of i cur] by (simp only: if_True) blast
    have "h' = h" by (rule slot_timer_inj [OF ok h'(1) sl])
    with h' sl show "slot (notification_timeout i cur s) = (slot s)(h := None)"
      and "db_notified (notification_timeout i cur s) = db_notified s @ (if cur = Current then [token] else [])" by simp_all
  next
    fix i cur
    assume "\<forall>h due token. slot s h \<noteq> Some (i, due, token)"
    then show "notification_timeout i cur s = s" using timeout_slot [OF ok, of i cur] by simp
  next
    fix token
    have "credit token (new_debouncer delayMs :: 'a debouncer) = 0"
      by (simp add: credit_def waiting_def slot_def new_debouncer_def)
    then have "credit token s \<le> schedules_of token ops"
      using notification_run_credit [where token = token and ops = ops, OF debouncer_ok_new [of delayMs]] by (simp add: s_def notification_run_def)
    then show "count_list (db_notified s) token \<le> schedules_of token ops" by (simp add: credit_def)
  qed
qed

theorem offline_notification_slots_witness:
  "let s = notification_run 30000 [(0, Schedule (JNum 7) ''a''), (10, Schedule (JNum 7) ''b'')]
   in slot s 7 = Some (1, 30010, ''b'') \<and> notification_timeout 0 Current s = s
      \<and> db_notified (notification_timeout 1 Current s) = [''b'']"
proof -
  let ?ops = "[(0, Schedule (JNum 7) ''a''), (10, Schedule (JNum 7) ''b'')]"
  define s where "s = notification_run 30000 ?ops"
  have 1: "slot s 7 = Some (1, 30010, ''b'')" unfolding s_def by code_simp
  have 2: "notification_timeout 0 Current s = s" unfolding s_def by code_simp
  have "db_notified s = []" unfolding s_def by code_simp
  then have "db_notified (notification_timeout 1 Current s) = [''b'']"
    using offline_notification_slots [of 30000 ?ops] 1 unfolding s_def [symmetric] by simp
  with 1 2 show ?thesis by (simp add: s_def Let_def)
qed

end
