(* ===== verification/Group_Health.thy ===== *)
theory Group_Health
imports FX_Prelude
begin

text \<open>
  How long a health verdict of a forwarding group counts and when the group has to be looked at again
  (the functions of \<open>server/forwardGroupHealthRecheck.ts\<close>).  \<open>clock\<close> is \<open>Date.now()\<close> where the caller gave no
  time; \<open>parse\<close> stands for the run time's parsing of date texts.
\<close>

datatype health_state = Healthy | Unhealthy | Pending | Stale

record group_member =
  gm_isEnabled :: jsval
  gm_healthStatus :: jsval
  gm_lastCheckedAt :: time_value
  gm_chinaHealthStatus :: jsval
  gm_chinaHealthCheckedAt :: time_value

record window_member =
  wm_healthy :: bool
  wm_failureSince :: time_value
  wm_healthySince :: time_value
  wm_failedLongEnough :: bool
  wm_recoveredLongEnough :: bool

definition agent_health_ttl_ms :: rat where "agent_health_ttl_ms = 300000"
definition china_health_ttl_ms :: rat where "china_health_ttl_ms = agent_health_ttl_ms"

text \<open>\<open>None\<close> is the time of an invalid \<open>Date\<close>, which is not a number and passes no comparison.\<close>

definition timestamp :: "(string \<Rightarrow> rat option) \<Rightarrow> time_value \<Rightarrow> rat option" where
  "timestamp parse v =
     (case v of
        TDate t \<Rightarrow> t
      | TVal x \<Rightarrow>
          (let parsed = Some (case parse (js_string (js_or x (JStr []))) of Some t \<Rightarrow> t | None \<Rightarrow> 0)
           in case js_number x of
                None \<Rightarrow> parsed
              | Some numeric \<Rightarrow>
                  if 0 < numeric then Some (if numeric < 10000000000 then numeric * 1000 else numeric) else parsed))"

definition health_text :: "jsval \<Rightarrow> string" where
  "health_text v = js_lower (js_trim (js_string (js_or v (JStr ''unknown''))))"

definition health_at :: "(string \<Rightarrow> rat option) \<Rightarrow> rat \<Rightarrow> jsval \<Rightarrow> time_value \<Rightarrow> jsval \<Rightarrow> health_state" where
  "health_at parse ttl statusValue checkedAtValue nowValue =
     (let status = health_text statusValue in
      if status = ''unknown'' then Pending
      else if status \<noteq> ''healthy'' \<and> status \<noteq> ''unhealthy'' then Stale
      else
        (case (js_number nowValue, timestamp parse checkedAtValue) of
           (Some now, Some checkedAt) \<Rightarrow>
             if checkedAt \<le> 0 \<or> now + 60000 < checkedAt then Stale
             else if now - checkedAt < ttl then (if status = ''healthy'' then Healthy else Unhealthy)
             else Stale
         | _ \<Rightarrow> Stale))"

definition forwardGroupChinaHealthStateAt :: "(string \<Rightarrow> rat option) \<Rightarrow> group_member \<Rightarrow> jsval \<Rightarrow> health_state" where
  "forwardGroupChinaHealthStateAt parse member nowValue =
     health_at parse china_health_ttl_ms (gm_chinaHealthStatus member) (gm_chinaHealthCheckedAt member) nowValue"

definition forwardGroupAgentHealthStateAt :: "(string \<Rightarrow> rat option) \<Rightarrow> group_member \<Rightarrow> jsval \<Rightarrow> health_state" where
  "forwardGroupAgentHealthStateAt parse member nowValue =
     health_at parse agent_health_ttl_ms (gm_healthStatus member) (gm_lastCheckedAt member) nowValue"

text \<open>\<open>Number.isFinite(x) ? Number(x) : Date.now()\<close> and \<open>Math.min(...xs)\<close> of a list that is not empty.\<close>

definition now_or :: "rat option \<Rightarrow> rat \<Rightarrow> rat" where
  "now_or now clock = (case now of Some t \<Rightarrow> t | None \<Rightarrow> clock)"

definition least_of :: "rat list \<Rightarrow> rat option" where
  "least_of xs = (case xs of [] \<Rightarrow> None | x # r \<Rightarrow> Some (foldl min x r))"

definition member_disabled :: "jsval \<Rightarrow> bool" where
  "member_disabled enabled \<longleftrightarrow>
     enabled = JBool False \<or> enabled = JNum 0 \<or> enabled = JStr ''0'' \<or> js_lower (js_string enabled) = ''false''"

definition china_deadline :: "(string \<Rightarrow> rat option) \<Rightarrow> rat \<Rightarrow> group_member \<Rightarrow> rat list" where
  "china_deadline parse now member =
     (if member_disabled (gm_isEnabled member) then []
      else if forwardGroupChinaHealthStateAt parse member (JNum now) \<noteq> Healthy then []
      else (case timestamp parse (gm_chinaHealthCheckedAt member) of
              Some checkedAt \<Rightarrow> [checkedAt + china_health_ttl_ms] | None \<Rightarrow> []))"

definition nextForwardGroupChinaHealthExpiryAt ::
  "(string \<Rightarrow> rat option) \<Rightarrow> bool \<Rightarrow> group_member list \<Rightarrow> rat option \<Rightarrow> rat \<Rightarrow> rat option" where
  "nextForwardGroupChinaHealthExpiryAt parse enabled members nowInput clock =
     (if \<not> enabled then None
      else least_of (concat (map (china_deadline parse (now_or nowInput clock)) members)))"

definition max_timer_delay_ms :: int where "max_timer_delay_ms = 2147483647"

definition timerDelay :: "int \<Rightarrow> int \<Rightarrow> int" where
  "timerDelay dueAt now = min max_timer_delay_ms (max 0 (dueAt - now))"

definition isActivityFreshAt :: "jsval \<Rightarrow> jsval \<Rightarrow> jsval \<Rightarrow> bool" where
  "isActivityFreshAt lastSeenAtValue timeoutMsValue nowValue =
     (case js_number lastSeenAtValue of
        None \<Rightarrow> False
      | Some lastSeenAt \<Rightarrow>
          if lastSeenAt \<le> 0 then False
          else (case (js_number timeoutMsValue, js_number nowValue) of
                  (Some timeoutMs, Some now) \<Rightarrow> if timeoutMs < 0 then False else now - lastSeenAt < timeoutMs
                | _ \<Rightarrow> False))"

definition latestKnownActivityAt :: "jsval list \<Rightarrow> jsval \<Rightarrow> rat" where
  "latestKnownActivityAt activities nowValue =
     (case js_number nowValue of
        None \<Rightarrow> 0
      | Some now \<Rightarrow>
          (let latest = foldl (\<lambda>latest v. case js_number v of
                Some candidate \<Rightarrow> if latest < candidate then candidate else latest | None \<Rightarrow> latest) 0 activities
           in if 0 < latest then min now latest else 0))"

definition window_deadlines :: "(string \<Rightarrow> rat option) \<Rightarrow> rat \<Rightarrow> rat \<Rightarrow> window_member \<Rightarrow> rat list" where
  "window_deadlines parse failoverMs recoverMs member =
     (let after = (\<lambda>since ms. case timestamp parse since of
            Some t \<Rightarrow> if 0 < t then [t + max 0 ms] else [] | None \<Rightarrow> [])
      in (if \<not> wm_healthy member \<and> \<not> wm_failedLongEnough member then after (wm_failureSince member) failoverMs else [])
       @ (if wm_healthy member \<and> \<not> wm_recoveredLongEnough member then after (wm_healthySince member) recoverMs else []))"

definition nextForwardGroupHealthRecheckAt ::
  "(string \<Rightarrow> rat option) \<Rightarrow> window_member list \<Rightarrow> rat \<Rightarrow> rat \<Rightarrow> rat option \<Rightarrow> rat \<Rightarrow> rat option" where
  "nextForwardGroupHealthRecheckAt parse members failoverMs recoverMs nowInput clock =
     map_option (max (now_or nowInput clock))
       (least_of (concat (map (window_deadlines parse failoverMs recoverMs) members)))"

section \<open>Properties\<close>

lemma least_of_None: "least_of xs = None \<longleftrightarrow> xs = []"
  by (simp add: least_of_def split: list.split)

lemma least_of_Some: "least_of xs = Some d \<Longrightarrow> d \<in> set xs \<and> (\<forall>x \<in> set xs. d \<le> x)"
proof -
  have "foldl min x r \<in> insert x (set r) \<and> (\<forall>y \<in> insert x (set r). foldl min x r \<le> y)" for x :: rat and r
    by (induction r arbitrary: x) (auto simp: min_def, (metis order_trans linear)+)
  then show "least_of xs = Some d \<Longrightarrow> ?thesis"
    by (cases xs) (auto simp: least_of_def)
qed

text \<open>The next look at a group is never in the past and never after a window that is still open.\<close>

lemma recheck_not_late:
  assumes "nextForwardGroupHealthRecheckAt parse members failoverMs recoverMs (Some now) clock = Some d"
  shows "now \<le> d" "m \<in> set members \<Longrightarrow> x \<in> set (window_deadlines parse failoverMs recoverMs m) \<Longrightarrow> d \<le> max now x"
proof -
  obtain e where e: "least_of (concat (map (window_deadlines parse failoverMs recoverMs) members)) = Some e" "d = max now e"
    using assms by (auto simp: nextForwardGroupHealthRecheckAt_def now_or_def)
  show "now \<le> d" by (simp add: e(2))
  show "d \<le> max now x" if "m \<in> set members" "x \<in> set (window_deadlines parse failoverMs recoverMs m)"
  proof -
    have "e \<le> x" using least_of_Some [OF e(1)] that by auto
    then show ?thesis unfolding e(2) by (rule max.mono [OF order_refl])
  qed
qed

text \<open>A later request keeps activity fresh, a longer silence does not.\<close>

lemma fresh_later: "isActivityFreshAt (JNum a) t (JNum now) \<Longrightarrow> a \<le> b \<Longrightarrow> isActivityFreshAt (JNum b) t (JNum now)"
  by (auto simp: isActivityFreshAt_def split: option.splits if_splits)

text \<open>When a healthy verdict lasts: from a minute before it was given until its life time is over.\<close>

lemma health_at_Healthy:
  "health_at parse ttl v c (JNum t) = Healthy \<longleftrightarrow>
     health_text v = ''healthy''
     \<and> (\<exists>checked. timestamp parse c = Some checked \<and> 0 < checked \<and> checked - 60000 \<le> t \<and> t < checked + ttl)"
  by (auto simp: health_at_def Let_def split: option.splits)

text \<open>A member whose healthy verdict the group relies on at a time.\<close>

definition relied_on :: "(string \<Rightarrow> rat option) \<Rightarrow> rat \<Rightarrow> group_member \<Rightarrow> bool" where
  "relied_on parse t member \<longleftrightarrow>
     \<not> member_disabled (gm_isEnabled member) \<and> forwardGroupChinaHealthStateAt parse member (JNum t) = Healthy"

lemma china_deadline_iff:
  "d \<in> set (china_deadline parse now member) \<longleftrightarrow>
     relied_on parse now member \<and> timestamp parse (gm_chinaHealthCheckedAt member) = Some (d - china_health_ttl_ms)"
  by (auto simp: china_deadline_def relied_on_def split: option.splits)

lemma relied_on_deadline:
  assumes "relied_on parse now member"
  obtains d where "d \<in> set (china_deadline parse now member)" "now < d"
    "\<And>t. now \<le> t \<Longrightarrow> relied_on parse t member \<longleftrightarrow> t < d"
proof -
  obtain c where c: "timestamp parse (gm_chinaHealthCheckedAt member) = Some c" "0 < c" "c - 60000 \<le> now" "now < c + china_health_ttl_ms"
      "health_text (gm_chinaHealthStatus member) = ''healthy''"
    using assms by (auto simp: relied_on_def forwardGroupChinaHealthStateAt_def health_at_Healthy)
  have "relied_on parse t member \<longleftrightarrow> t < c + china_health_ttl_ms" if "now \<le> t" for t
    using assms c that by (auto simp: relied_on_def forwardGroupChinaHealthStateAt_def health_at_Healthy)
  moreover have "c + china_health_ttl_ms \<in> set (china_deadline parse now member)"
    using assms c(1) by (simp add: china_deadline_iff)
  ultimately show ?thesis using that c(4) by blast
qed

text \<open>
  The group wakes up exactly when the first verdict it relies on expires.  With mainland checks on, there is no deadline
  exactly when no enabled member is healthy at the time; otherwise the deadline lies ahead, until then every
  member that was healthy still is, and at that moment at least one of them no longer is.
\<close>

theorem china_expiry_exact:
  fixes parse :: "string \<Rightarrow> rat option" and members :: "group_member list"
  defines "next \<equiv> \<lambda>now. nextForwardGroupChinaHealthExpiryAt parse True members (Some now) 0"
  shows "(next now = None \<longleftrightarrow> (\<forall>m \<in> set members. \<not> relied_on parse now m))
    \<and> (next now = Some d \<longrightarrow>
         now < d
         \<and> (\<forall>m \<in> set members. relied_on parse now m \<longrightarrow> (\<forall>t. now \<le> t \<and> t < d \<longrightarrow> relied_on parse t m))
         \<and> (\<exists>m \<in> set members. relied_on parse now m \<and> (\<forall>t \<ge> d. \<not> relied_on parse t m)))"
proof -
  let ?ds = "concat (map (china_deadline parse now) members)"
  have nx: "next now = least_of ?ds" by (simp add: next_def nextForwardGroupChinaHealthExpiryAt_def now_or_def)
  have ds: "d \<in> set ?ds \<longleftrightarrow> (\<exists>m \<in> set members. d \<in> set (china_deadline parse now m))" for d by auto
  have uniq: "d = d'" if "d \<in> set (china_deadline parse now m)" "d' \<in> set (china_deadline parse now m)" for d d' m
    using that by (simp add: china_deadline_iff)
  show ?thesis
  proof (intro conjI impI)
    show "next now = None \<longleftrightarrow> (\<forall>m \<in> set members. \<not> relied_on parse now m)"
    proof -
      have "?ds = [] \<longleftrightarrow> (\<forall>m \<in> set members. \<not> relied_on parse now m)"
      proof
        assume "?ds = []"
        then have none: "d \<notin> set (china_deadline parse now m)" if "m \<in> set members" for d m using that ds by auto
        show "\<forall>m \<in> set members. \<not> relied_on parse now m" using none by (meson relied_on_deadline)
      next
        assume "\<forall>m \<in> set members. \<not> relied_on parse now m"
        then show "?ds = []" by (auto simp: concat_eq_Nil_conv china_deadline_def relied_on_def)
      qed
      then show ?thesis by (simp add: nx least_of_None)
    qed
  next
    assume nd: "next now = Some d"
    then have least: "d \<in> set ?ds" "\<And>x. x \<in> set ?ds \<Longrightarrow> d \<le> x" using least_of_Some [of ?ds d] nx by auto
    then obtain m where m: "m \<in> set members" "d \<in> set (china_deadline parse now m)" using ds by auto
    then have rm: "relied_on parse now m" by (simp add: china_deadline_iff)
    from relied_on_deadline [OF rm] obtain d' where d': "d' \<in> set (china_deadline parse now m)" "now < d'"
      "\<And>t. now \<le> t \<Longrightarrow> relied_on parse t m \<longleftrightarrow> t < d'" by blast
    have dd: "d' = d" by (rule uniq [OF d'(1) m(2)])
    show "now < d" using d'(2) dd by simp
    show "\<exists>m \<in> set members. relied_on parse now m \<and> (\<forall>t \<ge> d. \<not> relied_on parse t m)"
      using m(1) rm d' dd by (intro bexI [of _ m]) auto
    show "\<forall>m \<in> set members. relied_on parse now m \<longrightarrow> (\<forall>t. now \<le> t \<and> t < d \<longrightarrow> relied_on parse t m)"
    proof (intro ballI impI allI)
      fix m' t
      assume m': "m' \<in> set members" "relied_on parse now m'" and t: "now \<le> t \<and> t < d"
      from relied_on_deadline [OF m'(2)] obtain e where e: "e \<in> set (china_deadline parse now m')"
        "\<And>t. now \<le> t \<Longrightarrow> relied_on parse t m' \<longleftrightarrow> t < e" by blast
      have "d \<le> e" using least(2) m'(1) e(1) ds by blast
      then show "relied_on parse t m'" using e(2) t by simp
    qed
  qed
qed

theorem china_expiry_exact_witness:
  "nextForwardGroupChinaHealthExpiryAt (\<lambda>_. None) True
     [\<lparr>gm_isEnabled = JBool True, gm_healthStatus = JUndef, gm_lastCheckedAt = TVal JUndef,
       gm_chinaHealthStatus = JStr '' Healthy '', gm_chinaHealthCheckedAt = TDate (Some 1000000)\<rparr>] (Some 1100000) 0 = Some 1300000
   \<and> (1100000 :: rat) < 1300000"
proof -
  let ?m = "\<lparr>gm_isEnabled = JBool True, gm_healthStatus = JUndef, gm_lastCheckedAt = TVal JUndef,
       gm_chinaHealthStatus = JStr '' Healthy '', gm_chinaHealthCheckedAt = TDate (Some 1000000)\<rparr>"
  have "nextForwardGroupChinaHealthExpiryAt (\<lambda>_. None) True [?m] (Some 1100000) 0 = Some 1300000" by code_simp
  then show ?thesis using china_expiry_exact [of "\<lambda>_. None" "[?m]" 1100000 1300000] by simp
qed

end
