(* ===== verification/Evaluation_Queue.thy ===== *)
theory Evaluation_Queue
imports Timers
begin

text \<open>
  The queue of forwarding groups to evaluate (\<open>ForwardGroupEvaluationQueue\<close> of
  \<open>server/forwardGroupHealthRecheck.ts\<close>): enqueued groups are evaluated in one batch at a time after a short
  delay, and groups whose evaluation failed come back after an exponential delay.  The evaluation is
  asynchronous, so its end is an event of its own (\<open>evaluation_settled\<close>); \<open>eq_running\<close> holds the batch it was
  given.  \<open>eq_reported\<close> is the log of the delays given to \<open>onError\<close>.
\<close>

datatype queue_callback = Flush | Retry int

record evaluation_queue =
  eq_debounceMs :: int
  eq_retryBaseMs :: int
  eq_retryMaxMs :: int
  eq_pending :: "int list"
  eq_retryTimers :: "(int, nat) jmap"
  eq_failures :: "(int, nat) jmap"
  eq_timer :: "nat option"
  eq_running :: "int list option"
  eq_timers :: "queue_callback timer_table"
  eq_reported :: "int list"

definition new_evaluation_queue :: "int \<Rightarrow> int \<Rightarrow> int \<Rightarrow> evaluation_queue" where
  "new_evaluation_queue debounceMs retryBaseMs retryMaxMs =
     \<lparr>eq_debounceMs = max 0 debounceMs, eq_retryBaseMs = max 1 retryBaseMs,
      eq_retryMaxMs = max (max 1 retryBaseMs) retryMaxMs, eq_pending = [], eq_retryTimers = [], eq_failures = [],
      eq_timer = None, eq_running = None, eq_timers = no_timers, eq_reported = []\<rparr>"

definition arm_queue :: "int \<Rightarrow> int \<Rightarrow> evaluation_queue \<Rightarrow> evaluation_queue" where
  "arm_queue now delayMs s =
     (if eq_timer s \<noteq> None \<or> eq_running s \<noteq> None \<or> eq_pending s = [] then s
      else (let (timer, timers) = set_timer (now + delayMs) Flush (eq_timers s)
            in s\<lparr>eq_timer := Some timer, eq_timers := timers\<rparr>))"

definition enqueue_group :: "jsval \<Rightarrow> evaluation_queue \<Rightarrow> evaluation_queue" where
  "enqueue_group v s =
     (case js_positive_int (js_or v (JNum 0)) of
        None \<Rightarrow> s | Some groupId \<Rightarrow> s\<lparr>eq_pending := set_add groupId (eq_pending s)\<rparr>)"

definition enqueue_groups :: "int \<Rightarrow> jsval list \<Rightarrow> evaluation_queue \<Rightarrow> nat \<times> evaluation_queue" where
  "enqueue_groups now groupIds s =
     (let s1 = arm_queue now (eq_debounceMs s) (foldl (\<lambda>s v. enqueue_group v s) s groupIds)
      in (length (eq_pending s1), s1))"

definition failures_of :: "evaluation_queue \<Rightarrow> int \<Rightarrow> nat" where
  "failures_of s groupId = (case jm_get (eq_failures s) groupId of Some n \<Rightarrow> n | None \<Rightarrow> 0)"

definition backoff_ms :: "int \<Rightarrow> int \<Rightarrow> nat \<Rightarrow> int" where
  "backoff_ms base most failures = min most (base * 2 ^ min (failures - 1) 30)"

definition retryDelayMs :: "int \<Rightarrow> evaluation_queue \<Rightarrow> int \<times> evaluation_queue" where
  "retryDelayMs groupId s =
     (let failures = failures_of s groupId + 1
      in (backoff_ms (eq_retryBaseMs s) (eq_retryMaxMs s) failures,
          s\<lparr>eq_failures := jm_set groupId failures (eq_failures s)\<rparr>))"

definition clearRetry :: "int \<Rightarrow> evaluation_queue \<Rightarrow> evaluation_queue" where
  "clearRetry groupId s =
     s\<lparr>eq_failures := jm_del groupId (eq_failures s),
       eq_timers := clear_timer_opt (jm_get (eq_retryTimers s) groupId) (eq_timers s),
       eq_retryTimers := jm_del groupId (eq_retryTimers s)\<rparr>"

definition scheduleRetry :: "int \<Rightarrow> int \<Rightarrow> evaluation_queue \<Rightarrow> int \<times> evaluation_queue" where
  "scheduleRetry now groupId s =
     (let s1 = s\<lparr>eq_timers := clear_timer_opt (jm_get (eq_retryTimers s) groupId) (eq_timers s)\<rparr>;
          (delayMs, s2) = retryDelayMs groupId s1;
          (timer, timers) = set_timer (now + delayMs) (Retry groupId) (eq_timers s2)
      in (delayMs, s2\<lparr>eq_timers := timers, eq_retryTimers := jm_set groupId timer (eq_retryTimers s2)\<rparr>))"

text \<open>The part of \<open>flush\<close> before its \<open>await\<close>.\<close>

definition flush_queue :: "evaluation_queue \<Rightarrow> evaluation_queue" where
  "flush_queue s =
     (if eq_running s \<noteq> None \<or> eq_pending s = [] then s
      else s\<lparr>eq_running := Some (eq_pending s), eq_pending := []\<rparr>)"

text \<open>The timer callbacks.\<close>

definition queue_timeout :: "int \<Rightarrow> nat \<Rightarrow> evaluation_queue \<Rightarrow> evaluation_queue" where
  "queue_timeout now timer s =
     (case live_timer (eq_timers s) timer of
        None \<Rightarrow> s
      | Some (_, callback) \<Rightarrow>
          (let s1 = s\<lparr>eq_timers := clear_timer timer (eq_timers s)\<rparr> in
           case callback of
             Flush \<Rightarrow> flush_queue (s1\<lparr>eq_timer := None\<rparr>)
           | Retry groupId \<Rightarrow>
               if jm_get (eq_retryTimers s1) groupId \<noteq> Some timer then s1
               else arm_queue now 0 (s1\<lparr>eq_retryTimers := jm_del groupId (eq_retryTimers s1),
                                        eq_pending := set_add groupId (eq_pending s1)\<rparr>)))"

text \<open>How an evaluation ends; a batch error names the groups that failed.\<close>

datatype evaluation_outcome = Evaluated | BatchFailed "jsval list" | EvaluationFailed

definition batch_retry_ids :: "jsval list \<Rightarrow> int list" where
  "batch_retry_ids failures = js_uniq (List.map_filter js_positive_int failures)"

definition groups_to_retry :: "evaluation_outcome \<Rightarrow> int list \<Rightarrow> int list" where
  "groups_to_retry outcome groupIds =
     (let requested = (case outcome of
            BatchFailed failures \<Rightarrow> filter (\<lambda>g. g \<in> set groupIds) (batch_retry_ids failures)
          | _ \<Rightarrow> groupIds)
      in if requested \<noteq> [] then requested else groupIds)"

fun schedule_retries :: "int \<Rightarrow> int list \<Rightarrow> evaluation_queue \<Rightarrow> int list \<times> evaluation_queue" where
  "schedule_retries now [] s = ([], s)"
| "schedule_retries now (g # gs) s =
     (let (delayMs, s1) = scheduleRetry now g s; (delays, s2) = schedule_retries now gs s1 in (delayMs # delays, s2))"

text \<open>The part of \<open>flush\<close> after its \<open>await\<close>, the \<open>finally\<close> block included.\<close>

definition evaluation_settled :: "int \<Rightarrow> evaluation_outcome \<Rightarrow> evaluation_queue \<Rightarrow> evaluation_queue" where
  "evaluation_settled now outcome s =
     (case eq_running s of
        None \<Rightarrow> s
      | Some groupIds \<Rightarrow>
          (let s1 = (if outcome = Evaluated then foldl (\<lambda>s g. clearRetry g s) s groupIds
                     else
                       (let retryIds = groups_to_retry outcome groupIds;
                            s0 = foldl (\<lambda>s g. if g \<notin> set retryIds then clearRetry g s else s) s groupIds;
                            (delays, s2) = schedule_retries now retryIds s0
                        in s2\<lparr>eq_reported := eq_reported s2 @ [foldl min (hd delays) (tl delays)]\<rparr>))
           in arm_queue now (eq_debounceMs s1) (s1\<lparr>eq_running := None\<rparr>)))"

section \<open>Histories\<close>

datatype queue_op =
    Enqueue "jsval list"
  | TimerFired nat
  | Settled evaluation_outcome

fun queue_step :: "int \<Rightarrow> queue_op \<Rightarrow> evaluation_queue \<Rightarrow> evaluation_queue" where
  "queue_step now (Enqueue groupIds) s = snd (enqueue_groups now groupIds s)"
| "queue_step now (TimerFired timer) s = queue_timeout now timer s"
| "queue_step now (Settled outcome) s = evaluation_settled now outcome s"

definition queue_run :: "(int \<times> queue_op) list \<Rightarrow> evaluation_queue \<Rightarrow> evaluation_queue" where
  "queue_run ops s = foldl (\<lambda>s (now, op). queue_step now op s) s ops"

text \<open>The groups that somebody still waits for: enqueued, being evaluated, or failed and waiting for another try.\<close>

definition batch_of :: "evaluation_queue \<Rightarrow> int set" where
  "batch_of s = (case eq_running s of None \<Rightarrow> {} | Some groupIds \<Rightarrow> set groupIds)"

definition retrying :: "evaluation_queue \<Rightarrow> int set" where
  "retrying s = {g. jm_get (eq_retryTimers s) g \<noteq> None}"

definition owed :: "evaluation_queue \<Rightarrow> int set" where
  "owed s = set (eq_pending s) \<union> batch_of s \<union> retrying s"

fun queue_owner :: "evaluation_queue \<Rightarrow> queue_callback \<Rightarrow> nat option" where
  "queue_owner s Flush = eq_timer s"
| "queue_owner s (Retry g) = jm_get (eq_retryTimers s) g"

text \<open>The invariant without and with its last clause: the flush timer runs exactly when groups wait and no batch does.\<close>

definition queue_sane :: "evaluation_queue \<Rightarrow> bool" where
  "queue_sane s \<longleftrightarrow> js_timers.matches id (queue_owner s) (eq_timers s)
     \<and> 0 \<le> eq_debounceMs s \<and> 1 \<le> eq_retryBaseMs s \<and> eq_retryBaseMs s \<le> eq_retryMaxMs s
     \<and> distinct (eq_pending s)
     \<and> (\<forall>b. eq_running s = Some b \<longrightarrow> b \<noteq> [] \<and> distinct b)
     \<and> (eq_timer s \<noteq> None \<longrightarrow> eq_pending s \<noteq> [] \<and> eq_running s = None)"

definition queue_ok :: "evaluation_queue \<Rightarrow> bool" where
  "queue_ok s \<longleftrightarrow> queue_sane s \<and> (eq_pending s \<noteq> [] \<and> eq_running s = None \<longrightarrow> eq_timer s \<noteq> None)"

lemma queue_owner_new: "queue_owner (new_evaluation_queue d b m) = (\<lambda>_. None)"
proof
  show "queue_owner (new_evaluation_queue d b m) c = None" for c
    by (cases c) (simp_all add: new_evaluation_queue_def)
qed

lemma queue_ok_new: "queue_ok (new_evaluation_queue d b m)"
  unfolding queue_ok_def queue_sane_def queue_owner_new by (simp add: new_evaluation_queue_def timers_match_init)

lemma queue_owner_cong:
  "eq_timer s = eq_timer s' \<Longrightarrow> eq_retryTimers s = eq_retryTimers s' \<Longrightarrow> queue_owner s = queue_owner s'"
proof
  show "queue_owner s c = queue_owner s' c" if "eq_timer s = eq_timer s'" "eq_retryTimers s = eq_retryTimers s'" for c
    using that by (cases c) simp_all
qed

text \<open>The states two steps apart that differ in nothing a batch, a timer or a group waits for.\<close>

lemma arm_queue_fields [simp]:
  "eq_pending (arm_queue now d s) = eq_pending s" "eq_running (arm_queue now d s) = eq_running s"
  "eq_retryTimers (arm_queue now d s) = eq_retryTimers s" "eq_failures (arm_queue now d s) = eq_failures s"
  "eq_debounceMs (arm_queue now d s) = eq_debounceMs s" "eq_retryBaseMs (arm_queue now d s) = eq_retryBaseMs s"
  "eq_retryMaxMs (arm_queue now d s) = eq_retryMaxMs s" "eq_reported (arm_queue now d s) = eq_reported s"
  by (simp_all add: arm_queue_def Let_def case_prod_unfold)

lemma owed_arm [simp]: "owed (arm_queue now d s) = owed s" "batch_of (arm_queue now d s) = batch_of s"
  "retrying (arm_queue now d s) = retrying s"
  by (simp_all add: owed_def batch_of_def retrying_def)

lemma arm_queue_ok:
  assumes "queue_sane s"
  shows "queue_ok (arm_queue now d s)"
proof (cases "eq_timer s \<noteq> None \<or> eq_running s \<noteq> None \<or> eq_pending s = []")
  case True
  then show ?thesis using assms by (auto simp: arm_queue_def queue_ok_def)
next
  case False
  let ?s = "arm_queue now d s"
  let ?set = "set_timer (now + d) Flush (eq_timers s)"
  have eq: "?s = s\<lparr>eq_timer := Some (fst ?set), eq_timers := snd ?set\<rparr>"
    using False by (simp add: arm_queue_def case_prod_unfold Let_def)
  have own: "queue_owner ?s = (queue_owner s)(Flush \<mapsto> fst ?set)"
  proof
    show "queue_owner ?s c = ((queue_owner s)(Flush \<mapsto> fst ?set)) c" for c by (cases c) (simp_all add: eq)
  qed
  have m: "js_timers.matches id (queue_owner s) (eq_timers s)" using assms by (simp add: queue_sane_def)
  have "js_timers.matches id (queue_owner ?s) (snd ?set)"
    unfolding own using False by (intro js_timers.matches_arm [OF m]) simp_all
  then show ?thesis using assms False unfolding queue_ok_def queue_sane_def by (simp add: eq)
qed

lemma enqueue_fold:
  assumes "queue_sane s"
  shows "queue_sane (foldl (\<lambda>s v. enqueue_group v s) s vs)
    \<and> owed (foldl (\<lambda>s v. enqueue_group v s) s vs) = owed s \<union> {g. \<exists>v \<in> set vs. js_positive_int (js_or v (JNum 0)) = Some g}
    \<and> eq_debounceMs (foldl (\<lambda>s v. enqueue_group v s) s vs) = eq_debounceMs s"
  using assms
proof (induction vs arbitrary: s)
  case Nil
  then show ?case by simp
next
  case (Cons v vs)
  have 1: "queue_sane (enqueue_group v s)"
  proof (cases "js_positive_int (js_or v (JNum 0))")
    case (Some g)
    have "queue_owner (s\<lparr>eq_pending := set_add g (eq_pending s)\<rparr>) = queue_owner s" by (rule queue_owner_cong) simp_all
    then show ?thesis using Cons.prems Some unfolding queue_sane_def by (simp add: enqueue_group_def)
  qed (use Cons.prems in \<open>simp add: enqueue_group_def\<close>)
  have 2: "owed (enqueue_group v s) = owed s \<union> set_option (js_positive_int (js_or v (JNum 0)))"
    "eq_debounceMs (enqueue_group v s) = eq_debounceMs s"
    by (auto simp: enqueue_group_def owed_def batch_of_def retrying_def split: option.split)
  show ?case using Cons.IH [OF 1] 2 by auto
qed

lemma enqueue_groups_ok:
  assumes "queue_ok s"
  shows "queue_ok (snd (enqueue_groups now vs s))
    \<and> owed (snd (enqueue_groups now vs s)) = owed s \<union> {g. \<exists>v \<in> set vs. js_positive_int (js_or v (JNum 0)) = Some g}"
  using enqueue_fold [of s vs] arm_queue_ok assms by (simp add: enqueue_groups_def Let_def queue_ok_def)

lemma clearRetry_fields [simp]:
  "eq_pending (clearRetry g s) = eq_pending s" "eq_running (clearRetry g s) = eq_running s" "eq_timer (clearRetry g s) = eq_timer s"
  "eq_debounceMs (clearRetry g s) = eq_debounceMs s" "eq_retryBaseMs (clearRetry g s) = eq_retryBaseMs s"
  "eq_retryMaxMs (clearRetry g s) = eq_retryMaxMs s" "eq_reported (clearRetry g s) = eq_reported s"
  "jm_get (eq_retryTimers (clearRetry g s)) = (jm_get (eq_retryTimers s))(g := None)"
  "failures_of (clearRetry g s) h = (if h = g then 0 else failures_of s h)"
  by (simp_all add: clearRetry_def failures_of_def fun_eq_iff)

lemma clearRetry_sane:
  assumes "queue_sane s"
  shows "queue_sane (clearRetry g s)"
proof -
  have own: "queue_owner (clearRetry g s) = (queue_owner s)(Retry g := None)"
  proof
    show "queue_owner (clearRetry g s) c = ((queue_owner s)(Retry g := None)) c" for c by (cases c) simp_all
  qed
  have m: "js_timers.matches id (queue_owner s) (eq_timers s)" using assms by (simp add: queue_sane_def)
  have "js_timers.matches id (queue_owner (clearRetry g s)) (eq_timers (clearRetry g s))"
    unfolding own using matches_clear_opt [OF m, of "jm_get (eq_retryTimers s) g" "Retry g"] by (simp add: clearRetry_def)
  then show ?thesis using assms by (simp add: queue_sane_def)
qed

text \<open>Forgetting the failures of some groups of a batch.\<close>

lemma clear_fold:
  assumes "queue_sane s"
  shows "queue_sane (foldl (\<lambda>s g. if P g then clearRetry g s else s) s gs)
    \<and> eq_pending (foldl (\<lambda>s g. if P g then clearRetry g s else s) s gs) = eq_pending s
    \<and> eq_running (foldl (\<lambda>s g. if P g then clearRetry g s else s) s gs) = eq_running s
    \<and> eq_timer (foldl (\<lambda>s g. if P g then clearRetry g s else s) s gs) = eq_timer s
    \<and> eq_debounceMs (foldl (\<lambda>s g. if P g then clearRetry g s else s) s gs) = eq_debounceMs s
    \<and> eq_retryBaseMs (foldl (\<lambda>s g. if P g then clearRetry g s else s) s gs) = eq_retryBaseMs s
    \<and> eq_retryMaxMs (foldl (\<lambda>s g. if P g then clearRetry g s else s) s gs) = eq_retryMaxMs s
    \<and> (\<forall>h. jm_get (eq_retryTimers (foldl (\<lambda>s g. if P g then clearRetry g s else s) s gs)) h =
        (if h \<in> set gs \<and> P h then None else jm_get (eq_retryTimers s) h))
    \<and> (\<forall>h. failures_of (foldl (\<lambda>s g. if P g then clearRetry g s else s) s gs) h =
        (if h \<in> set gs \<and> P h then 0 else failures_of s h))"
  using assms
proof (induction gs arbitrary: s)
  case Nil
  then show ?case by simp
next
  case (Cons g gs)
  have "queue_sane (if P g then clearRetry g s else s)" using Cons.prems clearRetry_sane by simp
  from Cons.IH [OF this] show ?case by auto
qed

text \<open>Scheduling another try of a group.\<close>

lemma scheduleRetry_ok:
  fixes s :: evaluation_queue and now g h :: int
  assumes "queue_sane s"
  defines "s' \<equiv> snd (scheduleRetry now g s)" and "delay \<equiv> backoff_ms (eq_retryBaseMs s) (eq_retryMaxMs s) (failures_of s g + 1)"
  shows "queue_sane s'" "fst (scheduleRetry now g s) = delay"
    "eq_pending s' = eq_pending s" "eq_running s' = eq_running s" "eq_timer s' = eq_timer s"
    "eq_debounceMs s' = eq_debounceMs s" "eq_retryBaseMs s' = eq_retryBaseMs s" "eq_retryMaxMs s' = eq_retryMaxMs s"
    "eq_reported s' = eq_reported s"
    "failures_of s' h = (if h = g then failures_of s g + 1 else failures_of s h)"
    "\<exists>i. jm_get (eq_retryTimers s') = (jm_get (eq_retryTimers s))(g \<mapsto> i) \<and> live_timer (eq_timers s') i = Some (now + delay, Retry g)
       \<and> (\<forall>h \<noteq> g. \<forall>j. jm_get (eq_retryTimers s) h = Some j \<longrightarrow> live_timer (eq_timers s') j = live_timer (eq_timers s) j)"
proof -
  let ?tt = "clear_timer_opt (jm_get (eq_retryTimers s) g) (eq_timers s)"
  let ?set = "set_timer (now + delay) (Retry g) ?tt"
  have eq: "scheduleRetry now g s = (delay, s\<lparr>eq_failures := jm_set g (failures_of s g + 1) (eq_failures s),
       eq_timers := snd ?set, eq_retryTimers := jm_set g (fst ?set) (eq_retryTimers s)\<rparr>)"
    by (simp add: scheduleRetry_def retryDelayMs_def Let_def case_prod_unfold delay_def failures_of_def)
  have m: "js_timers.matches id (queue_owner s) (eq_timers s)" using assms(1) by (simp add: queue_sane_def)
  have m1: "js_timers.matches id ((queue_owner s)(Retry g := None)) ?tt"
    using matches_clear_opt [OF m, of "jm_get (eq_retryTimers s) g" "Retry g"] by simp
  have own: "queue_owner s' = ((queue_owner s)(Retry g := None))(Retry g \<mapsto> fst ?set)"
  proof
    show "queue_owner s' c = (((queue_owner s)(Retry g := None))(Retry g \<mapsto> fst ?set)) c" for c
      by (cases c) (simp_all add: s'_def eq)
  qed
  have m2: "js_timers.matches id (queue_owner s') (snd ?set)"
    unfolding own by (rule js_timers.matches_arm [OF m1]) simp_all
  then show "queue_sane s'" using assms(1) unfolding queue_sane_def by (simp add: s'_def eq)
  show "fst (scheduleRetry now g s) = delay"
    "eq_pending s' = eq_pending s" "eq_running s' = eq_running s" "eq_timer s' = eq_timer s"
    "eq_debounceMs s' = eq_debounceMs s" "eq_retryBaseMs s' = eq_retryBaseMs s" "eq_retryMaxMs s' = eq_retryMaxMs s"
    "eq_reported s' = eq_reported s"
    "failures_of s' h = (if h = g then failures_of s g + 1 else failures_of s h)"
    by (simp_all add: s'_def eq failures_of_def)
  have keep: "live_timer (eq_timers s') j = live_timer (eq_timers s) j"
    if h: "h \<noteq> g" "jm_get (eq_retryTimers s) h = Some j" for h j
  proof -
    obtain due where j: "live_timer (eq_timers s) j = Some (due, Retry h)"
      using js_timers.matches_live [OF m, of "Retry h" j] h(2) by auto
    have "j < tt_next (eq_timers s)" using m j by (auto simp: js_timers.matches_def intro: live_timer_bound)
    moreover have "jm_get (eq_retryTimers s) g \<noteq> Some j"
      using js_timers.matches_live [OF m, of "Retry g" j] j h(1) by auto
    moreover have "tt_next ?tt = tt_next (eq_timers s)" by (simp add: clear_timer_opt_def clear_timer_def split: option.split)
    ultimately show ?thesis by (simp add: s'_def eq live_set_timer live_clear_opt)
  qed
  show "\<exists>i. jm_get (eq_retryTimers s') = (jm_get (eq_retryTimers s))(g \<mapsto> i) \<and> live_timer (eq_timers s') i = Some (now + delay, Retry g)
       \<and> (\<forall>h \<noteq> g. \<forall>j. jm_get (eq_retryTimers s) h = Some j \<longrightarrow> live_timer (eq_timers s') j = live_timer (eq_timers s) j)"
    by (rule exI [of _ "fst ?set"]) (use keep in \<open>simp add: s'_def eq fun_eq_iff live_set_timer fst_set_timer\<close>)
qed

text \<open>When the retry timer of a group is due.\<close>

definition retry_due :: "evaluation_queue \<Rightarrow> int \<Rightarrow> int option" where
  "retry_due s g = (case jm_get (eq_retryTimers s) g of None \<Rightarrow> None | Some i \<Rightarrow> map_option fst (live_timer (eq_timers s) i))"

lemma schedule_retries_ok:
  assumes "queue_sane s" "distinct gs"
  shows "queue_sane (snd (schedule_retries now gs s))
    \<and> eq_pending (snd (schedule_retries now gs s)) = eq_pending s
    \<and> eq_running (snd (schedule_retries now gs s)) = eq_running s
    \<and> eq_timer (snd (schedule_retries now gs s)) = eq_timer s
    \<and> eq_debounceMs (snd (schedule_retries now gs s)) = eq_debounceMs s
    \<and> retrying (snd (schedule_retries now gs s)) = retrying s \<union> set gs
    \<and> (\<forall>h. failures_of (snd (schedule_retries now gs s)) h = failures_of s h + (if h \<in> set gs then 1 else 0))
    \<and> (\<forall>h. retry_due (snd (schedule_retries now gs s)) h =
         (if h \<in> set gs then Some (now + backoff_ms (eq_retryBaseMs s) (eq_retryMaxMs s) (failures_of s h + 1)) else retry_due s h))"
  using assms
proof (induction gs arbitrary: s)
  case Nil
  then show ?case by simp
next
  case (Cons g gs)
  define s1 where "s1 = snd (scheduleRetry now g s)"
  note f = scheduleRetry_ok [where now = now and g = g, OF Cons.prems(1), folded s1_def]
  from f(11) obtain i where i: "jm_get (eq_retryTimers s1) = (jm_get (eq_retryTimers s))(g \<mapsto> i)"
      "live_timer (eq_timers s1) i = Some (now + backoff_ms (eq_retryBaseMs s) (eq_retryMaxMs s) (failures_of s g + 1), Retry g)"
      "\<forall>h \<noteq> g. \<forall>j. jm_get (eq_retryTimers s) h = Some j \<longrightarrow> live_timer (eq_timers s1) j = live_timer (eq_timers s) j"
    by blast
  have r: "retrying s1 = insert g (retrying s)" by (auto simp: retrying_def i(1))
  have due: "retry_due s1 h = (if h = g then Some (now + backoff_ms (eq_retryBaseMs s) (eq_retryMaxMs s) (failures_of s g + 1))
       else retry_due s h)" for h
    using i(2,3) by (simp add: retry_due_def i(1) split: option.split)
  have eq: "snd (schedule_retries now (g # gs) s) = snd (schedule_retries now gs s1)"
    by (simp add: s1_def case_prod_unfold Let_def)
  have "distinct gs" "g \<notin> set gs" using Cons.prems(2) by simp_all
  then show ?case
    unfolding eq using Cons.IH [OF f(1)] f(3-8,10) by (auto simp: r due)
qed


section \<open>The steps\<close>

lemma flush_timeout:
  assumes "queue_ok s" "eq_timer s = Some i"
  shows "queue_ok (queue_timeout now i s)
    \<and> eq_running (queue_timeout now i s) = Some (eq_pending s) \<and> eq_pending (queue_timeout now i s) = []
    \<and> owed (queue_timeout now i s) = owed s"
proof -
  have m: "js_timers.matches id (queue_owner s) (eq_timers s)" using assms(1) by (simp add: queue_ok_def queue_sane_def)
  obtain due where live: "live_timer (eq_timers s) i = Some (due, Flush)"
    using js_timers.matches_live [OF m, of Flush i] assms(2) by auto
  have idle: "eq_pending s \<noteq> []" "eq_running s = None" using assms by (auto simp: queue_ok_def queue_sane_def)
  let ?s = "queue_timeout now i s"
  have eq: "?s = s\<lparr>eq_timers := clear_timer i (eq_timers s), eq_timer := None, eq_running := Some (eq_pending s), eq_pending := []\<rparr>"
    using idle live by (simp add: queue_timeout_def Let_def flush_queue_def)
  have own: "queue_owner ?s = (queue_owner s)(Flush := None)"
  proof
    show "queue_owner ?s c = ((queue_owner s)(Flush := None)) c" for c by (cases c) (simp_all add: eq)
  qed
  have "js_timers.matches id (queue_owner ?s) (clear_timer i (eq_timers s))"
    unfolding own by (rule js_timers.matches_disarm [OF m]) (simp add: assms(2))
  then have "queue_ok ?s" using assms(1) idle unfolding queue_ok_def queue_sane_def by (simp add: eq)
  moreover have "owed ?s = owed s" using idle by (auto simp: eq owed_def batch_of_def retrying_def)
  ultimately show ?thesis by (simp add: eq)
qed

lemma retry_timeout:
  assumes "queue_ok s" "jm_get (eq_retryTimers s) g = Some i"
  shows "queue_ok (queue_timeout now i s)
    \<and> eq_running (queue_timeout now i s) = eq_running s \<and> g \<in> set (eq_pending (queue_timeout now i s))
    \<and> owed (queue_timeout now i s) = owed s"
proof -
  have m: "js_timers.matches id (queue_owner s) (eq_timers s)" using assms(1) by (simp add: queue_ok_def queue_sane_def)
  obtain due where live: "live_timer (eq_timers s) i = Some (due, Retry g)"
    using js_timers.matches_live [OF m, of "Retry g" i] assms(2) by auto
  define s1 where "s1 = s\<lparr>eq_timers := clear_timer i (eq_timers s), eq_retryTimers := jm_del g (eq_retryTimers s),
      eq_pending := set_add g (eq_pending s)\<rparr>"
  have eq: "queue_timeout now i s = arm_queue now 0 s1"
    using live assms(2) by (simp add: queue_timeout_def Let_def s1_def)
  have own: "queue_owner s1 = (queue_owner s)(Retry g := None)"
  proof
    show "queue_owner s1 c = ((queue_owner s)(Retry g := None)) c" for c by (cases c) (simp_all add: s1_def)
  qed
  have fields: "eq_timers s1 = clear_timer i (eq_timers s)" "eq_pending s1 = set_add g (eq_pending s)"
    "eq_running s1 = eq_running s" "eq_timer s1 = eq_timer s" "eq_debounceMs s1 = eq_debounceMs s"
    "eq_retryBaseMs s1 = eq_retryBaseMs s" "eq_retryMaxMs s1 = eq_retryMaxMs s"
    by (simp_all add: s1_def)
  have "js_timers.matches id (queue_owner s1) (clear_timer i (eq_timers s))"
    unfolding own by (rule js_timers.matches_disarm [OF m]) (simp add: assms(2))
  moreover have "0 \<le> eq_debounceMs s" "1 \<le> eq_retryBaseMs s" "eq_retryBaseMs s \<le> eq_retryMaxMs s" "distinct (eq_pending s)"
    "\<forall>b. eq_running s = Some b \<longrightarrow> b \<noteq> [] \<and> distinct b" "eq_timer s \<noteq> None \<longrightarrow> eq_running s = None"
    using assms(1) unfolding queue_ok_def queue_sane_def by blast+
  ultimately have "queue_sane s1"
    unfolding queue_sane_def fields by (simp only: distinct_set_add set_add_nonempty simp_thms)
  moreover have "owed s1 = owed s"
  proof -
    have "retrying s1 = retrying s - {g}" by (auto simp: retrying_def s1_def)
    moreover have "g \<in> retrying s" using assms(2) by (simp add: retrying_def)
    moreover have "set (eq_pending s1) = insert g (set (eq_pending s))" "batch_of s1 = batch_of s"
      by (simp_all add: s1_def batch_of_def)
    ultimately show ?thesis by (auto simp: owed_def)
  qed
  ultimately show ?thesis by (simp add: eq arm_queue_ok) (simp add: s1_def)
qed

lemma timeout_ok:
  assumes "queue_ok s"
  shows "queue_ok (queue_timeout now i s) \<and> owed (queue_timeout now i s) = owed s"
proof (cases "live_timer (eq_timers s) i")
  case None
  then show ?thesis using assms by (simp add: queue_timeout_def)
next
  case (Some x)
  obtain due c where x: "live_timer (eq_timers s) i = Some (due, c)" using Some by (cases x) auto
  have m: "js_timers.matches id (queue_owner s) (eq_timers s)" using assms by (simp add: queue_ok_def queue_sane_def)
  note own = js_timers.matches_owner [OF m x]
  show ?thesis
  proof (cases c)
    case Flush
    then have "eq_timer s = Some i" using own by simp
    from flush_timeout [OF assms this, of now] show ?thesis by blast
  next
    case (Retry g)
    then have "jm_get (eq_retryTimers s) g = Some i" using own by simp
    from retry_timeout [OF assms this, of now] show ?thesis by blast
  qed
qed

lemma groups_to_retry_facts:
  "b \<noteq> [] \<Longrightarrow> distinct b \<Longrightarrow> groups_to_retry out b \<noteq> [] \<and> distinct (groups_to_retry out b) \<and> set (groups_to_retry out b) \<subseteq> set b"
  by (cases out) (auto simp: groups_to_retry_def batch_retry_ids_def Let_def)

lemma settled_ok:
  fixes s :: evaluation_queue and now :: int and out :: evaluation_outcome
  assumes ok: "queue_ok s" and run: "eq_running s = Some b"
  defines "s' \<equiv> evaluation_settled now out s" and "failed \<equiv> (if out = Evaluated then [] else groups_to_retry out b)"
  shows "queue_ok s'" "eq_running s' = None" "eq_pending s' = eq_pending s"
    "owed s' = set (eq_pending s) \<union> (retrying s - set b) \<union> set failed"
    "\<And>h. failures_of s' h = (if h \<in> set failed then failures_of s h + 1 else if h \<in> set b then 0 else failures_of s h)"
    "\<And>h. h \<in> set failed \<Longrightarrow> retry_due s' h = Some (now + backoff_ms (eq_retryBaseMs s) (eq_retryMaxMs s) (failures_of s h + 1))"
proof -
  have sane: "queue_sane s" using ok by (simp add: queue_ok_def)
  have b: "b \<noteq> []" "distinct b" using sane run by (auto simp: queue_sane_def)
  define s0 where "s0 = foldl (\<lambda>s g. if g \<notin> set failed then clearRetry g s else s) s b"
  note c = clear_fold [OF sane, of "\<lambda>g. g \<notin> set failed" b, folded s0_def]
  define s1 where "s1 = snd (schedule_retries now failed s0)"
  have fd: "distinct failed" "set failed \<subseteq> set b" "out \<noteq> Evaluated \<Longrightarrow> failed \<noteq> []"
    using groups_to_retry_facts [OF b, of out] by (simp_all add: failed_def)
  have s0sane: "queue_sane s0" using c by blast
  note r = schedule_retries_ok [OF s0sane fd(1), of now, folded s1_def]
  define s2 where "s2 = (if out = Evaluated then s1
     else s1\<lparr>eq_reported := eq_reported s1 @ [foldl min (hd (fst (schedule_retries now failed s0))) (tl (fst (schedule_retries now failed s0)))]\<rparr>)"
  have same: "eq_pending s2 = eq_pending s1" "eq_running s2 = eq_running s1" "eq_timer s2 = eq_timer s1" "eq_retryTimers s2 = eq_retryTimers s1"
     "eq_failures s2 = eq_failures s1" "eq_timers s2 = eq_timers s1" "eq_debounceMs s2 = eq_debounceMs s1"
     "eq_retryBaseMs s2 = eq_retryBaseMs s1" "eq_retryMaxMs s2 = eq_retryMaxMs s1"
    by (simp_all add: s2_def)
  have eq: "s' = arm_queue now (eq_debounceMs s2) (s2\<lparr>eq_running := None\<rparr>)"
  proof (cases "out = Evaluated")
    case True
    then have "foldl (\<lambda>s g. clearRetry g s) s b = s0" by (simp add: s0_def failed_def)
    then show ?thesis using True run by (simp add: s'_def evaluation_settled_def s2_def s1_def failed_def)
  next
    case False
    then show ?thesis using run
      by (simp add: s'_def evaluation_settled_def s2_def s1_def s0_def failed_def Let_def case_prod_unfold)
  qed
  have ow: "queue_owner (s2\<lparr>eq_running := None\<rparr>) = queue_owner s1" by (rule queue_owner_cong) (simp_all add: same)
  have "queue_sane s1" using r by blast
  then have sane2: "queue_sane (s2\<lparr>eq_running := None\<rparr>)" unfolding queue_sane_def ow by (simp add: same)
  show "queue_ok s'" unfolding eq by (rule arm_queue_ok [OF sane2])
  show "eq_running s' = None" by (simp add: eq)
  show pend: "eq_pending s' = eq_pending s" using r c by (simp add: eq same)
  have ret0: "retrying s0 = retrying s - (set b - set failed)" using c by (auto simp: retrying_def)
  have "retrying s' = retrying s1" by (simp add: eq retrying_def same)
  also have "\<dots> = (retrying s - set b) \<union> set failed" using r ret0 fd(2) by auto
  finally have "retrying s' = (retrying s - set b) \<union> set failed" .
  then show "owed s' = set (eq_pending s) \<union> (retrying s - set b) \<union> set failed"
    unfolding owed_def pend by (auto simp: batch_of_def eq)
  have f0: "failures_of s0 h = (if h \<in> set b \<and> h \<notin> set failed then 0 else failures_of s h)" for h using c by simp
  show "failures_of s' h = (if h \<in> set failed then failures_of s h + 1 else if h \<in> set b then 0 else failures_of s h)" for h
    using r f0 [of h] by (simp add: eq failures_of_def same)
  show "retry_due s' h = Some (now + backoff_ms (eq_retryBaseMs s) (eq_retryMaxMs s) (failures_of s h + 1))" if h: "h \<in> set failed" for h
  proof -
    have base: "eq_retryBaseMs s0 = eq_retryBaseMs s" "eq_retryMaxMs s0 = eq_retryMaxMs s" using c by simp_all
    have due: "retry_due s1 h = Some (now + backoff_ms (eq_retryBaseMs s) (eq_retryMaxMs s) (failures_of s h + 1))"
      using r h f0 [of h] base by simp
    have m: "js_timers.matches id (queue_owner s1) (eq_timers s1)" using \<open>queue_sane s1\<close> by (simp add: queue_sane_def)
    have "tok": "timer_ok (eq_timers s1)" using m by (simp add: js_timers.matches_def)
    have "live_timer (eq_timers s') i = live_timer (eq_timers s1) i" if "live_timer (eq_timers s1) i \<noteq> None" for i
    proof -
      have "i \<noteq> tt_next (eq_timers s1)" using live_timer_bound [OF tok, of i] that by auto
      then show ?thesis by (simp add: eq arm_queue_def same live_set_timer case_prod_unfold Let_def)
    qed
    then show ?thesis using due by (auto simp: retry_due_def eq same split: option.splits)
  qed
qed

lemma queue_step_ok: "queue_ok s \<Longrightarrow> queue_ok (queue_step now op s)"
proof (cases op)
  case (Settled out)
  show "queue_ok s \<Longrightarrow> ?thesis"
    using settled_ok(1) [of s] Settled by (cases "eq_running s") (simp_all add: evaluation_settled_def)
qed (simp_all add: enqueue_groups_ok timeout_ok)

lemma queue_run_ok: "queue_ok s \<Longrightarrow> queue_ok (queue_run ops s)"
  unfolding queue_run_def by (induction ops arbitrary: s) (auto simp: queue_step_ok)




text \<open>The run of a given length continues: what is in a batch after it.\<close>

lemma run_step: "queue_run (ops @ [(now, op)]) s = queue_step now op (queue_run ops s)"
  by (simp add: queue_run_def)

lemma pending_reaches_batch:
  assumes "queue_ok s" "g \<in> set (eq_pending s)"
  obtains ops where "length ops \<le> 2" "\<forall>(t, op) \<in> set ops. t = now \<and> (op = Settled Evaluated \<or> (\<exists>i. op = TimerFired i))"
    "g \<in> batch_of (queue_run ops s)"
proof -
  have idle: "\<exists>i. g \<in> batch_of (queue_step now (TimerFired i) s)"
    if s: "queue_ok s" "g \<in> set (eq_pending s)" "eq_running s = None" for s
  proof -
    have "eq_pending s \<noteq> []" using s(2) by auto
    then obtain i where "eq_timer s = Some i" using s(1,3) by (auto simp: queue_ok_def)
    from flush_timeout [OF s(1) this, of now] s(2) show ?thesis by (intro exI [of _ i]) (simp add: batch_of_def)
  qed
  show ?thesis
  proof (cases "eq_running s")
    case None
    then obtain i where "g \<in> batch_of (queue_step now (TimerFired i) s)" using idle assms by blast
    then show ?thesis by (intro that [of "[(now, TimerFired i)]"]) (auto simp: queue_run_def)
  next
    case (Some b)
    let ?s = "evaluation_settled now Evaluated s"
    note f = settled_ok(1-3) [OF assms(1) Some, of now Evaluated]
    obtain i where "g \<in> batch_of (queue_step now (TimerFired i) ?s)" using idle [OF f(1)] f(2,3) assms(2) by auto
    then show ?thesis
      by (intro that [of "[(now, Settled Evaluated), (now, TimerFired i)]"]) (auto simp: queue_run_def)
  qed
qed

text \<open>
  Every owed group can still be evaluated.  Whatever happened before, a group that is owed an evaluation is in the
  running batch, or at most three more events (the end of a running evaluation and timers that fire) bring it into one.
\<close>

theorem owed_group_reaches_evaluation:
  fixes debounce base most :: int and ops :: "(int \<times> queue_op) list"
  assumes "g \<in> owed (queue_run ops (new_evaluation_queue debounce base most))"
  shows "\<exists>more. length more \<le> 3 \<and> (\<forall>(t, op) \<in> set more. t = now \<and> (op = Settled Evaluated \<or> (\<exists>i. op = TimerFired i)))
    \<and> g \<in> batch_of (queue_run (ops @ more) (new_evaluation_queue debounce base most))"
proof -
  define s where "s = queue_run ops (new_evaluation_queue debounce base most)"
  have ok: "queue_ok s" by (simp add: s_def queue_run_ok queue_ok_new)
  have app: "queue_run (ops @ more) (new_evaluation_queue debounce base most) = queue_run more s" for more
    by (simp add: s_def queue_run_def)
  consider "g \<in> batch_of s" | "g \<in> set (eq_pending s)" | i where "jm_get (eq_retryTimers s) g = Some i"
    using assms by (auto simp: owed_def retrying_def s_def [symmetric])
  then show ?thesis
  proof cases
    case 1
    then show ?thesis unfolding app by (intro exI [of _ "[]"]) (simp add: queue_run_def)
  next
    case 2
    obtain more where "length more \<le> 2" "\<forall>(t, op) \<in> set more. t = now \<and> (op = Settled Evaluated \<or> (\<exists>i. op = TimerFired i))"
      "g \<in> batch_of (queue_run more s)" using pending_reaches_batch [OF ok 2] by blast
    then show ?thesis unfolding app by (intro exI [of _ more]) simp
  next
    case 3
    note f = retry_timeout [OF ok 3, of now]
    have ok1: "queue_ok (queue_timeout now i s)" and in1: "g \<in> set (eq_pending (queue_timeout now i s))" using f by simp_all
    obtain more where "length more \<le> 2" "\<forall>(t, op) \<in> set more. t = now \<and> (op = Settled Evaluated \<or> (\<exists>i. op = TimerFired i))"
      "g \<in> batch_of (queue_run more (queue_timeout now i s))" using pending_reaches_batch [OF ok1 in1] by blast
    then show ?thesis unfolding app by (intro exI [of _ "(now, TimerFired i) # more"]) (simp add: queue_run_def)
  qed
qed

theorem owed_group_reaches_evaluation_witness:
  "\<exists>more. length more \<le> 3 \<and> 8 \<in> batch_of (queue_run ([(0, Enqueue [JNum 8]), (250, TimerFired 0), (300, Settled EvaluationFailed)] @ more)
     (new_evaluation_queue 250 1000 30000))"
proof -
  let ?ops = "[(0, Enqueue [JNum 8]), (250, TimerFired 0), (300, Settled EvaluationFailed)]"
  have "eq_retryTimers (queue_run ?ops (new_evaluation_queue 250 1000 30000)) = [(8, 1)]" by code_simp
  then have "8 \<in> owed (queue_run ?ops (new_evaluation_queue 250 1000 30000))" by (simp add: owed_def retrying_def)
  from owed_group_reaches_evaluation [OF this] show ?thesis by blast
qed

end
