(* ===== verification/Recheck_Scheduler.thy ===== *)
theory Recheck_Scheduler
imports Timers
begin

text \<open>
  The wake-up of a forwarding group at the end of a health window (\<open>ForwardGroupHealthRecheckScheduler\<close> of
  \<open>server/forwardGroupHealthRecheck.ts\<close>): one timer per group, replaced when its window moves.  The evaluations that were
  started are the log \<open>rs_evaluated\<close>.
\<close>

record recheck =
  rc_dueAt :: rat
  rc_timer :: nat

record recheck_scheduler =
  rs_pending :: "(int, recheck) jmap"
  rs_timers :: "int timer_table"
  rs_evaluated :: "int list"

definition new_recheck_scheduler :: recheck_scheduler where
  "new_recheck_scheduler = \<lparr>rs_pending = [], rs_timers = no_timers, rs_evaluated = []\<rparr>"

definition recheck_timer :: "recheck_scheduler \<Rightarrow> int \<Rightarrow> nat option" where
  "recheck_timer s groupId = map_option rc_timer (jm_get (rs_pending s) groupId)"

text \<open>The run time truncates the fraction of a delay.\<close>

definition recheck_replace :: "int \<Rightarrow> jsval \<Rightarrow> jsval \<Rightarrow> recheck_scheduler \<Rightarrow> bool \<times> recheck_scheduler" where
  "recheck_replace now groupIdValue dueAtValue s =
     (case js_positive_int groupIdValue of
        None \<Rightarrow> (False, s)
      | Some groupId \<Rightarrow>
          (let existing = jm_get (rs_pending s) groupId;
               cleared = clear_timer_opt (recheck_timer s groupId) (rs_timers s)
           in case js_number dueAtValue of
                None \<Rightarrow> (False, s\<lparr>rs_timers := cleared, rs_pending := jm_del groupId (rs_pending s)\<rparr>)
              | Some dueAt \<Rightarrow>
                  if dueAt \<le> 0 then (False, s\<lparr>rs_timers := cleared, rs_pending := jm_del groupId (rs_pending s)\<rparr>)
                  else if map_option rc_dueAt existing = Some dueAt then (True, s)
                  else
                    (let delayMs = max 0 (dueAt - of_int now) + 25;
                         (timer, timers) = set_timer (now + \<lfloor>delayMs\<rfloor>) groupId cleared
                     in (True, s\<lparr>rs_timers := timers,
                                 rs_pending := jm_set groupId \<lparr>rc_dueAt = dueAt, rc_timer = timer\<rparr> (rs_pending s)\<rparr>))))"

definition recheck_timeout :: "nat \<Rightarrow> recheck_scheduler \<Rightarrow> recheck_scheduler" where
  "recheck_timeout timer s =
     (case live_timer (rs_timers s) timer of
        None \<Rightarrow> s
      | Some (_, groupId) \<Rightarrow>
          (let s1 = s\<lparr>rs_timers := clear_timer timer (rs_timers s)\<rparr> in
           if recheck_timer s1 groupId \<noteq> Some timer then s1
           else s1\<lparr>rs_pending := jm_del groupId (rs_pending s1), rs_evaluated := rs_evaluated s1 @ [groupId]\<rparr>))"

definition recheck_due_at :: "jsval \<Rightarrow> recheck_scheduler \<Rightarrow> rat option" where
  "recheck_due_at groupIdValue s =
     (case js_integer groupIdValue of None \<Rightarrow> None | Some g \<Rightarrow> map_option rc_dueAt (jm_get (rs_pending s) g))"

section \<open>One timer per group, never before the group is due\<close>

definition recheck_ok :: "recheck_scheduler \<Rightarrow> bool" where
  "recheck_ok s \<longleftrightarrow> js_timers.matches id (recheck_timer s) (rs_timers s)
     \<and> (\<forall>g p due. jm_get (rs_pending s) g = Some p \<longrightarrow> live_timer (rs_timers s) (rc_timer p) = Some (due, g) \<longrightarrow>
          rc_dueAt p \<le> of_int due)"

lemma recheck_ok_new: "recheck_ok new_recheck_scheduler"
proof -
  have "recheck_timer new_recheck_scheduler = (\<lambda>_. None)"
    by (simp add: fun_eq_iff recheck_timer_def new_recheck_scheduler_def)
  then show ?thesis unfolding recheck_ok_def by (simp add: new_recheck_scheduler_def timers_match_init)
qed

lemma recheck_timer_unique:
  assumes "recheck_ok s" "recheck_timer s g = Some i" "recheck_timer s h = Some i"
  shows "g = h"
proof -
  have m: "js_timers.matches id (recheck_timer s) (rs_timers s)" using assms(1) by (simp add: recheck_ok_def)
  show ?thesis using js_timers.matches_live [OF m assms(2)] js_timers.matches_live [OF m assms(3)] by auto
qed

lemma recheck_drop_ok:
  assumes "recheck_ok s" "rs_timers s' = clear_timer_opt (recheck_timer s g) (rs_timers s)"
    "rs_pending s' = jm_del g (rs_pending s)"
  shows "recheck_ok s'"
proof -
  have m: "js_timers.matches id (recheck_timer s) (rs_timers s)" using assms(1) by (simp add: recheck_ok_def)
  have own: "recheck_timer s' = (recheck_timer s)(g := None)" by (auto simp: fun_eq_iff recheck_timer_def assms(3))
  have "js_timers.matches id (recheck_timer s') (rs_timers s')"
    unfolding own assms(2) by (rule matches_clear_opt [OF m refl])
  moreover have "rc_dueAt p \<le> of_int due"
    if "jm_get (rs_pending s') h = Some p" "live_timer (rs_timers s') (rc_timer p) = Some (due, h)" for h p due
    using assms(1) that by (auto simp: recheck_ok_def assms(2,3) live_clear_opt split: if_splits)
  ultimately show ?thesis unfolding recheck_ok_def by blast
qed

lemma recheck_replace_ok:
  assumes "recheck_ok s"
  shows "recheck_ok (snd (recheck_replace now v d s))"
proof (cases "js_positive_int v")
  case None
  then show ?thesis using assms by (simp add: recheck_replace_def)
next
  case (Some g)
  define s0 where "s0 = s\<lparr>rs_timers := clear_timer_opt (recheck_timer s g) (rs_timers s), rs_pending := jm_del g (rs_pending s)\<rparr>"
  have ok0: "recheck_ok s0" by (rule recheck_drop_ok [OF assms]) (simp_all add: s0_def)
  show ?thesis
  proof (cases "\<exists>due. js_number d = Some due \<and> 0 < due \<and> map_option rc_dueAt (jm_get (rs_pending s) g) \<noteq> Some due")
    case False
    then show ?thesis using Some assms ok0
      by (auto simp: recheck_replace_def Let_def s0_def [symmetric] split: option.split)
  next
    case True
    then obtain due where due: "js_number d = Some due" "0 < due" "map_option rc_dueAt (jm_get (rs_pending s) g) \<noteq> Some due" by blast
    let ?set = "set_timer (now + \<lfloor>max 0 (due - of_int now) + 25\<rfloor>) g (rs_timers s0)"
    define s' where "s' = snd (recheck_replace now v d s)"
    have eq: "rs_timers s' = snd ?set" "rs_pending s' = jm_set g \<lparr>rc_dueAt = due, rc_timer = fst ?set\<rparr> (rs_pending s)"
      using Some due by (auto simp: s'_def recheck_replace_def Let_def s0_def case_prod_unfold)
    have own: "recheck_timer s' = (recheck_timer s0)(g \<mapsto> fst ?set)"
      by (auto simp: fun_eq_iff recheck_timer_def eq s0_def)
    have m0: "js_timers.matches id (recheck_timer s0) (rs_timers s0)" using ok0 by (simp add: recheck_ok_def)
    have none: "recheck_timer s0 g = None" by (simp add: recheck_timer_def s0_def)
    have m: "js_timers.matches id (recheck_timer s') (rs_timers s')"
      unfolding own eq(1) by (rule js_timers.matches_arm [OF m0 none]) simp
    have bound: "due \<le> of_int (now + \<lfloor>max 0 (due - of_int now) + 25\<rfloor>)" by linarith
    have ok: "timer_ok (rs_timers s0)" using m0 by (simp add: js_timers.matches_def)
    have "rc_dueAt p \<le> of_int due'"
      if p: "jm_get (rs_pending s') h = Some p" and l: "live_timer (rs_timers s') (rc_timer p) = Some (due', h)" for h p due'
    proof (cases "h = g")
      case True
      then show ?thesis using p l bound by (auto simp: eq live_set_timer fst_set_timer)
    next
      case False
      then have p0: "jm_get (rs_pending s0) h = Some p" using p by (simp add: eq s0_def)
      then have "recheck_timer s0 h = Some (rc_timer p)" by (simp add: recheck_timer_def)
      then obtain x where "live_timer (rs_timers s0) (rc_timer p) = Some x"
        using js_timers.matches_live [OF m0] by blast
      then have "rc_timer p \<noteq> tt_next (rs_timers s0)" using live_timer_bound [OF ok] by fastforce
      then have "live_timer (rs_timers s0) (rc_timer p) = Some (due', h)" using l by (simp add: eq live_set_timer)
      then show ?thesis using ok0 p0 by (auto simp: recheck_ok_def)
    qed
    then show ?thesis unfolding recheck_ok_def s'_def [symmetric] using m by blast
  qed
qed

text \<open>A timer that fires belongs to the group that waits for it, is not early, and has the group evaluated once.\<close>

lemma recheck_timeout_ok:
  assumes "recheck_ok s"
  shows "recheck_ok (recheck_timeout i s)"
    "live_timer (rs_timers s) i = Some (due, g) \<Longrightarrow>
       rs_evaluated (recheck_timeout i s) = rs_evaluated s @ [g] \<and> recheck_timer (recheck_timeout i s) = (recheck_timer s)(g := None)
       \<and> (\<exists>p. jm_get (rs_pending s) g = Some p \<and> rc_dueAt p \<le> of_int due)"
proof -
  have m: "js_timers.matches id (recheck_timer s) (rs_timers s)" using assms by (simp add: recheck_ok_def)
  have eq: "recheck_timeout i s = s\<lparr>rs_timers := clear_timer i (rs_timers s), rs_pending := jm_del g (rs_pending s),
      rs_evaluated := rs_evaluated s @ [g]\<rparr>" "recheck_timer s g = Some i" if "live_timer (rs_timers s) i = Some (due, g)" for due g
    using js_timers.matches_owner [OF m that] that unfolding recheck_timeout_def
    by (auto simp: Let_def recheck_timer_def)
  show "recheck_ok (recheck_timeout i s)"
  proof (cases "live_timer (rs_timers s) i")
    case None
    then show ?thesis using assms by (simp add: recheck_timeout_def)
  next
    case (Some x)
    obtain due g where x: "live_timer (rs_timers s) i = Some (due, g)" using Some by (cases x) auto
    show ?thesis using eq [OF x] by (intro recheck_drop_ok [OF assms, of _ g]) (simp_all add: clear_timer_opt_def)
  qed
  assume l: "live_timer (rs_timers s) i = Some (due, g)"
  obtain p where p: "jm_get (rs_pending s) g = Some p" "rc_timer p = i"
    using eq(2) [OF l] by (auto simp: recheck_timer_def)
  have "rc_dueAt p \<le> of_int due" using assms p l by (auto simp: recheck_ok_def)
  then show "rs_evaluated (recheck_timeout i s) = rs_evaluated s @ [g] \<and> recheck_timer (recheck_timeout i s) = (recheck_timer s)(g := None)
       \<and> (\<exists>p. jm_get (rs_pending s) g = Some p \<and> rc_dueAt p \<le> of_int due)"
    using p by (simp add: eq(1) [OF l] recheck_timer_def fun_eq_iff)
qed

end
