(* ===== verification/Plugin_Tasks.thy ===== *)
theory Plugin_Tasks
imports Timers "HOL-Library.Multiset"
begin

text \<open>
  Plugin actions on agents (\<open>server/pluginAgentTasks.ts\<close>): an action is a group with one task per host; agents
  pull their tasks, report results, and a group that is not answered in time is closed by its timer.  The random
  identifiers are arguments of the call that creates a group.  The run time's date and JSON parsing and
  \<open>JSON.stringify\<close> are the fields of \<open>js_runtime\<close>; the panel's own messages, which are not in
  8-bit characters, are constructors of \<open>message\<close>.  Logging is not modelled.
\<close>

section \<open>Data\<close>

datatype json =
    JsNull
  | JsBool bool
  | JsNumber rat
  | JsString string
  | JsArray "json list"
  | JsObject "(string \<times> json) list"

record js_runtime =
  parse_date :: "string \<Rightarrow> rat option"
  parse_json :: "string \<Rightarrow> json option"
  stringify :: "json \<Rightarrow> string"

datatype task_status = TQueued | TRunning | TSuccess | TError | TTimeout
datatype group_status = GQueued | GRunning | GSuccess | GPartial | GError | GTimeout
datatype task_intent = ReadIntent | WriteIntent | ExecuteIntent
datatype interpreter = Bash | Sh | Python3
datatype output_type = JsonOutput | TextOutput

datatype message = MText string | MQueued | MRunning | MNotReported

datatype stamp = At int | Reported string

record agent_task =
  at_taskId :: string
  at_groupId :: string
  at_pluginId :: string
  at_pluginVersion :: string
  at_actionId :: string
  at_intent :: task_intent
  at_contextId :: string
  at_interpreter :: interpreter
  at_workingDirectory :: string
  at_entry :: string
  at_arguments :: "string list"
  at_timeoutMs :: int
  at_outputType :: output_type
  at_createdAt :: int

text \<open>The result of one host; an optional field that is absent is \<open>None\<close>.\<close>

record host_result =
  hr_taskId :: string
  hr_hostId :: int
  hr_hostName :: "string option"
  hr_status :: task_status
  hr_success :: bool
  hr_queuedAt :: int
  hr_output :: message
  hr_stderr :: "string option"
  hr_data :: "json option"
  hr_exitCode :: "rat option option"
  hr_timedOut :: "bool option"
  hr_durationMs :: "int option"
  hr_dispatchedAt :: "int option"
  hr_startedAt :: "stamp option"
  hr_finishedAt :: "stamp option"
  hr_completedAt :: "int option"
  hr_queueDurationMs :: "rat option"
  hr_endToEndDurationMs :: "rat option"
  hr_error :: "message option"
  hr_advice :: "string option"
  hr_errorDetail :: "string option"
  hr_processError :: "string option"

record task_group =
  tg_groupId :: string
  tg_pluginId :: string
  tg_pluginVersion :: string
  tg_actionId :: string
  tg_contextId :: string
  tg_createdAt :: int
  tg_updatedAt :: int
  tg_total :: nat
  tg_completed :: nat
  tg_done :: bool
  tg_status :: group_status
  tg_results :: "host_result list"
  tg_timeoutTimer :: "nat option"
  tg_expiresAt :: int
  tg_failureLogged :: bool

record plugin_tasks =
  pt_queues :: "(int, agent_task list) jmap"
  pt_groups :: "(string, task_group) jmap"
  pt_timers :: "string timer_table"

record group_input =
  gi_pluginId :: jsval
  gi_pluginVersion :: jsval
  gi_actionId :: jsval
  gi_intent :: jsval
  gi_contextId :: jsval
  gi_executor :: jsval
  gi_interpreter :: jsval
  gi_workingDirectory :: jsval
  gi_entry :: jsval
  gi_arguments :: "jsval list"
  gi_timeoutMs :: jsval
  gi_outputType :: jsval
  gi_hosts :: "(jsval \<times> jsval) list"

record task_report =
  rp_taskId :: jsval
  rp_groupId :: jsval
  rp_pluginId :: jsval
  rp_actionId :: jsval
  rp_success :: jsval
  rp_output :: jsval
  rp_stderr :: jsval
  rp_data :: "json option"
  rp_exitCode :: jsval
  rp_timedOut :: jsval
  rp_durationMs :: jsval
  rp_agentDurationMs :: jsval
  rp_startedAt :: jsval
  rp_finishedAt :: jsval
  rp_error :: jsval
  rp_errorDetail :: jsval
  rp_advice :: jsval
  rp_processError :: jsval

definition task_retention_ms :: int where "task_retention_ms = 900000"
definition min_task_timeout_ms :: int where "min_task_timeout_ms = 1000"
definition max_task_timeout_ms :: int where "max_task_timeout_ms = 60000"
definition group_timeout_grace_ms :: int where "group_timeout_grace_ms = 10000"
definition task_dispatch_grace_ms :: int where "task_dispatch_grace_ms = 35000"
definition max_tasks_per_host :: nat where "max_tasks_per_host = 20"

definition no_plugin_tasks :: plugin_tasks where
  "no_plugin_tasks = \<lparr>pt_queues = [], pt_groups = [], pt_timers = no_timers\<rparr>"

section \<open>Helpers\<close>

definition normalizeText :: "jsval \<Rightarrow> nat \<Rightarrow> string" where
  "normalizeText v limit = List.take limit (js_trim (js_string (js_or v (JStr []))))"

definition host_number :: "jsval \<Rightarrow> int option" where
  "host_number v = (case js_number v of None \<Rightarrow> None | Some q \<Rightarrow> if 0 < \<lfloor>q\<rfloor> then Some \<lfloor>q\<rfloor> else None)"

fun stamp_time :: "js_runtime \<Rightarrow> stamp \<Rightarrow> rat option" where
  "stamp_time rt (At t) = Some (rat_of_int t)"
| "stamp_time rt (Reported s) = parse_date rt s"

definition elapsedMilliseconds :: "js_runtime \<Rightarrow> stamp \<Rightarrow> stamp \<Rightarrow> rat option" where
  "elapsedMilliseconds rt start end_at =
     (case (stamp_time rt start, stamp_time rt end_at) of
        (Some a, Some b) \<Rightarrow> Some (max 0 (b - a)) | _ \<Rightarrow> None)"

fun structuredText :: "js_runtime \<Rightarrow> json \<Rightarrow> string" where
  "structuredText rt (JsString s) = js_trim s"
| "structuredText rt (JsNumber q) = js_string (JNum q)"
| "structuredText rt (JsBool b) = js_string (JBool b)"
| "structuredText rt JsNull = []"
| "structuredText rt v = stringify rt v"

text \<open>\<open>Object.entries(object).find(([actual]) => actual.trim().toLowerCase() === name)\<close>.\<close>

fun find_entry :: "string \<Rightarrow> (string \<times> json) list \<Rightarrow> json option" where
  "find_entry name [] = None"
| "find_entry name ((actual, v) # r) = (if js_lower (js_trim actual) = name then Some v else find_entry name r)"

fun first_text :: "string list \<Rightarrow> string" where
  "first_text [] = []"
| "first_text (t # ts) = (if t \<noteq> [] then t else first_text ts)"

definition own_field :: "js_runtime \<Rightarrow> string list \<Rightarrow> (string \<times> json) list \<Rightarrow> string" where
  "own_field rt keys entries =
     first_text (map (\<lambda>key. case find_entry (js_lower key) entries of Some v \<Rightarrow> structuredText rt v | None \<Rightarrow> []) keys)"

definition containers :: "string list" where
  "containers = [''data'', ''result'', ''details'']"

lemma find_entry_size: "find_entry name entries = Some v \<Longrightarrow> size v < Suc (size_list (size_prod (\<lambda>_. 0) size) entries)"
  by (induction entries) (auto split: if_splits)

function structuredField :: "js_runtime \<Rightarrow> string list \<Rightarrow> json \<Rightarrow> string" where
  "structuredField rt keys v =
     (case v of
        JsObject entries \<Rightarrow>
          (let text = own_field rt keys entries
           in if text \<noteq> [] then text
              else first_text (map (\<lambda>container.
                     case find_entry container entries of Some x \<Rightarrow> structuredField rt keys x | None \<Rightarrow> []) containers))
      | _ \<Rightarrow> [])"
  by pat_completeness auto
termination
  by (relation "measure (\<lambda>(_, _, v). size v)") (auto dest: find_entry_size)

declare structuredField.simps [simp del]

definition parseStructuredOutput :: "js_runtime \<Rightarrow> string \<Rightarrow> json option" where
  "parseStructuredOutput rt output =
     (let s = js_trim output in
      if s = [] \<or> (hd s \<noteq> CHR ''{'' \<and> hd s \<noteq> CHR ''['') then None else parse_json rt s)"

text \<open>The keys that are looked for; the Chinese ones cannot occur in 8-bit text.\<close>

definition message_keys :: "string list" where
  "message_keys = [''error'', ''errorMessage'', ''message'', ''detail'', ''reason'']"

definition advice_keys :: "string list" where
  "advice_keys = [''suggestion'', ''advice'', ''resolution'', ''hint'']"

definition structuredFailureDetails :: "js_runtime \<Rightarrow> json option \<Rightarrow> string \<times> string \<times> string" where
  "structuredFailureDetails rt data =
     (case data of
        None \<Rightarrow> ([], [], [])
      | Some v \<Rightarrow> (structuredField rt message_keys v, structuredField rt advice_keys v, List.take 4000 (stringify rt v)))"

definition clampTaskTimeout :: "jsval \<Rightarrow> int" where
  "clampTaskTimeout v =
     (case js_number v of None \<Rightarrow> 15000 | Some q \<Rightarrow> max min_task_timeout_ms (min max_task_timeout_ms \<lfloor>q\<rfloor>))"

definition isTerminalTaskStatus :: "task_status \<Rightarrow> bool" where
  "isTerminalTaskStatus st \<longleftrightarrow> st = TSuccess \<or> st = TError \<or> st = TTimeout"

fun update_first :: "('a \<Rightarrow> bool) \<Rightarrow> ('a \<Rightarrow> 'a) \<Rightarrow> 'a list \<Rightarrow> 'a list" where
  "update_first P f [] = []"
| "update_first P f (x # xs) = (if P x then f x # xs else x # update_first P f xs)"

section \<open>Operations\<close>

definition removeQueuedTasks :: "string \<Rightarrow> (int, agent_task list) jmap \<Rightarrow> (int, agent_task list) jmap" where
  "removeQueuedTasks groupId queues =
     filter (\<lambda>(h, q). q \<noteq> []) (map (\<lambda>(h, q). (h, filter (\<lambda>t. at_groupId t \<noteq> groupId) q)) queues)"

definition count_status :: "(task_status \<Rightarrow> bool) \<Rightarrow> host_result list \<Rightarrow> nat" where
  "count_status P results = length (filter (\<lambda>r. P (hr_status r)) results)"

definition refreshGroup :: "int \<Rightarrow> task_group \<Rightarrow> task_group" where
  "refreshGroup now grp =
     (let completed = count_status isTerminalTaskStatus (tg_results grp);
          successful = count_status (\<lambda>st. st = TSuccess) (tg_results grp);
          timedOut = count_status (\<lambda>st. st = TTimeout) (tg_results grp);
          g = grp\<lparr>tg_completed := completed, tg_done := tg_total grp \<le> completed\<rparr>
      in if \<not> tg_done g then
           g\<lparr>tg_status := (if list_ex (\<lambda>r. hr_status r = TRunning) (tg_results grp) then GRunning else GQueued)\<rparr>
         else g\<lparr>tg_status := (if successful = tg_total grp then GSuccess else if 0 < successful then GPartial
                             else if timedOut = tg_total grp then GTimeout else GError),
               tg_expiresAt := now + task_retention_ms, tg_timeoutTimer := None\<rparr>)"

text \<open>A changed group is stored after its refresh, which stops its timer when the group is done.\<close>

definition put_group :: "int \<Rightarrow> string \<Rightarrow> task_group \<Rightarrow> plugin_tasks \<Rightarrow> plugin_tasks" where
  "put_group now groupId grp s =
     (let g = refreshGroup now grp
      in s\<lparr>pt_groups := jm_set groupId g (pt_groups s),
           pt_timers := (if tg_done g then clear_timer_opt (tg_timeoutTimer grp) (pt_timers s) else pt_timers s)\<rparr>)"

definition expireOverdueGroups :: "int \<Rightarrow> plugin_tasks \<Rightarrow> plugin_tasks" where
  "expireOverdueGroups now s =
     (let overdue = (\<lambda>g. tg_done g \<and> tg_expiresAt g \<le> now)
      in s\<lparr>pt_timers := foldl (\<lambda>tt (gid, g). if overdue g then clear_timer_opt (tg_timeoutTimer g) tt else tt)
             (pt_timers s) (pt_groups s),
           pt_groups := jm_prune (\<lambda>_ g. overdue g) (pt_groups s)\<rparr>)"

definition message_empty :: "message \<Rightarrow> bool" where
  "message_empty m \<longleftrightarrow> m = MText []"

definition timed_out_result :: "js_runtime \<Rightarrow> int \<Rightarrow> host_result \<Rightarrow> host_result" where
  "timed_out_result rt finishedAt result =
     (if isTerminalTaskStatus (hr_status result) then result
      else result\<lparr>hr_status := TTimeout, hr_success := False, hr_timedOut := Some True,
             hr_finishedAt := Some (At finishedAt), hr_completedAt := Some finishedAt,
             hr_queueDurationMs := (case hr_queueDurationMs result of Some d \<Rightarrow> Some d
                | None \<Rightarrow> elapsedMilliseconds rt (At (hr_queuedAt result))
                            (At (case hr_dispatchedAt result of Some t \<Rightarrow> t | None \<Rightarrow> finishedAt))),
             hr_endToEndDurationMs := elapsedMilliseconds rt (At (hr_queuedAt result)) (At finishedAt),
             hr_error := Some MNotReported,
             hr_output := (if message_empty (hr_output result) then MNotReported else hr_output result)\<rparr>)"

definition markGroupTimedOut :: "js_runtime \<Rightarrow> int \<Rightarrow> string \<Rightarrow> plugin_tasks \<Rightarrow> plugin_tasks" where
  "markGroupTimedOut rt now groupId s =
     (case jm_get (pt_groups s) groupId of
        None \<Rightarrow> s
      | Some grp \<Rightarrow>
          if tg_done grp then s
          else put_group now groupId
                 (grp\<lparr>tg_results := map (timed_out_result rt now) (tg_results grp), tg_updatedAt := now\<rparr>)
                 (s\<lparr>pt_queues := removeQueuedTasks groupId (pt_queues s)\<rparr>))"

definition group_timeout :: "js_runtime \<Rightarrow> int \<Rightarrow> nat \<Rightarrow> plugin_tasks \<Rightarrow> plugin_tasks" where
  "group_timeout rt now timer s =
     (case live_timer (pt_timers s) timer of
        None \<Rightarrow> s
      | Some (_, groupId) \<Rightarrow> markGroupTimedOut rt now groupId (s\<lparr>pt_timers := clear_timer timer (pt_timers s)\<rparr>))"

text \<open>The hosts of a request: valid identifiers, one entry each, the last name wins.\<close>

definition unique_hosts :: "(jsval \<times> jsval) list \<Rightarrow> (int \<times> string) list" where
  "unique_hosts hosts =
     foldl (\<lambda>m (i, name). case host_number i of None \<Rightarrow> m | Some h \<Rightarrow> jm_set h (normalizeText name 160) m) [] hosts"

definition queued_result :: "int \<Rightarrow> int \<Rightarrow> string \<Rightarrow> string \<Rightarrow> host_result" where
  "queued_result createdAt hostId hostName taskId =
     \<lparr>hr_taskId = taskId, hr_hostId = hostId, hr_hostName = (if hostName = [] then None else Some hostName),
      hr_status = TQueued, hr_success = False, hr_queuedAt = createdAt, hr_output = MQueued, hr_stderr = None,
      hr_data = None, hr_exitCode = None, hr_timedOut = None, hr_durationMs = None, hr_dispatchedAt = None,
      hr_startedAt = None, hr_finishedAt = None, hr_completedAt = None, hr_queueDurationMs = None,
      hr_endToEndDurationMs = None, hr_error = None, hr_advice = None, hr_errorDetail = None, hr_processError = None\<rparr>"

definition push_task :: "int \<Rightarrow> agent_task \<Rightarrow> (int, agent_task list) jmap \<Rightarrow> (int, agent_task list) jmap" where
  "push_task hostId task queues =
     (let queue = (case jm_get queues hostId of Some q \<Rightarrow> q | None \<Rightarrow> []) @ [task]
      in jm_set hostId (drop (length queue - max_tasks_per_host) queue) queues)"

definition input_task :: "int \<Rightarrow> string \<Rightarrow> group_input \<Rightarrow> string \<Rightarrow> agent_task" where
  "input_task createdAt groupId input taskId =
     \<lparr>at_taskId = taskId, at_groupId = groupId, at_pluginId = normalizeText (gi_pluginId input) 128,
      at_pluginVersion = normalizeText (gi_pluginVersion input) 64, at_actionId = normalizeText (gi_actionId input) 128,
      at_intent = (if gi_intent input = JStr ''read'' then ReadIntent
                   else if gi_intent input = JStr ''write'' then WriteIntent else ExecuteIntent),
      at_contextId = normalizeText (gi_contextId input) 128,
      at_interpreter = (if gi_interpreter input = JStr ''sh'' then Sh
                        else if gi_interpreter input = JStr ''python3'' then Python3 else Bash),
      at_workingDirectory = normalizeText (gi_workingDirectory input) 512, at_entry = normalizeText (gi_entry input) 256,
      at_arguments = List.take 16 (map (\<lambda>a. normalizeText a 24576) (gi_arguments input)),
      at_timeoutMs = clampTaskTimeout (gi_timeoutMs input),
      at_outputType = (if gi_outputType input = JStr ''text'' then TextOutput else JsonOutput), at_createdAt = createdAt\<rparr>"

datatype enqueue_error = MissingParameters | UnsupportedExecutor | NoHosts

definition check_input :: "group_input \<Rightarrow> enqueue_error option" where
  "check_input input =
     (if normalizeText (gi_pluginId input) 128 = [] \<or> normalizeText (gi_actionId input) 128 = []
         \<or> normalizeText (gi_workingDirectory input) 512 = [] \<or> normalizeText (gi_entry input) 256 = []
      then Some MissingParameters
      else if gi_executor input \<noteq> JStr ''script'' then Some UnsupportedExecutor
      else if unique_hosts (gi_hosts input) = [] then Some NoHosts
      else None)"

definition enqueuePluginAgentTaskGroup ::
  "int \<Rightarrow> string \<Rightarrow> (int \<Rightarrow> string) \<Rightarrow> group_input \<Rightarrow> plugin_tasks \<Rightarrow> (enqueue_error + task_group) \<times> plugin_tasks" where
  "enqueuePluginAgentTaskGroup now groupId taskIdOf input s0 =
     (let s = expireOverdueGroups now s0 in
      case check_input input of
        Some e \<Rightarrow> (Inl e, s)
      | None \<Rightarrow>
          (let hosts = unique_hosts (gi_hosts input);
               timeoutMs = clampTaskTimeout (gi_timeoutMs input);
               results = map (\<lambda>(h, name). queued_result now h name (taskIdOf h)) hosts;
               queues = foldl (\<lambda>qs (h, name). push_task h (input_task now groupId input (taskIdOf h)) qs) (pt_queues s) hosts;
               (timer, timers) = set_timer (now + timeoutMs + task_dispatch_grace_ms + group_timeout_grace_ms) groupId (pt_timers s);
               grp = \<lparr>tg_groupId = groupId, tg_pluginId = normalizeText (gi_pluginId input) 128,
                  tg_pluginVersion = normalizeText (gi_pluginVersion input) 64,
                  tg_actionId = normalizeText (gi_actionId input) 128,
                  tg_contextId = normalizeText (gi_contextId input) 128, tg_createdAt = now, tg_updatedAt = now,
                  tg_total = length hosts, tg_completed = 0, tg_done = False, tg_status = GQueued, tg_results = results,
                  tg_timeoutTimer = Some timer,
                  tg_expiresAt = now + timeoutMs + group_timeout_grace_ms + task_retention_ms, tg_failureLogged = False\<rparr>
           in (Inr grp, s\<lparr>pt_queues := queues, pt_timers := timers, pt_groups := jm_set groupId grp (pt_groups s)\<rparr>)))"

fun split_tasks :: "nat \<Rightarrow> (agent_task \<Rightarrow> bool) \<Rightarrow> agent_task list \<Rightarrow> agent_task list \<times> agent_task list" where
  "split_tasks room canTake [] = ([], [])"
| "split_tasks room canTake (t # ts) =
     (if 0 < room \<and> canTake t then (let (took, remaining) = split_tasks (room - 1) canTake ts in (t # took, remaining))
      else (let (took, remaining) = split_tasks room canTake ts in (took, t # remaining)))"

definition is_result_of :: "string \<Rightarrow> int \<Rightarrow> host_result \<Rightarrow> bool" where
  "is_result_of taskId hostId r \<longleftrightarrow> hr_taskId r = taskId \<and> hr_hostId r = hostId"

definition dispatched_result :: "js_runtime \<Rightarrow> int \<Rightarrow> host_result \<Rightarrow> host_result" where
  "dispatched_result rt now result =
     result\<lparr>hr_status := TRunning, hr_dispatchedAt := Some now, hr_startedAt := Some (At now),
       hr_queueDurationMs := elapsedMilliseconds rt (At (hr_queuedAt result)) (At now), hr_output := MRunning\<rparr>"

definition mark_dispatched :: "js_runtime \<Rightarrow> int \<Rightarrow> int \<Rightarrow> plugin_tasks \<Rightarrow> agent_task \<Rightarrow> plugin_tasks" where
  "mark_dispatched rt now hostId s task =
     (case jm_get (pt_groups s) (at_groupId task) of
        None \<Rightarrow> s
      | Some grp \<Rightarrow>
          (case find (is_result_of (at_taskId task) hostId) (tg_results grp) of
             None \<Rightarrow> s
           | Some result \<Rightarrow>
               if tg_done grp \<or> isTerminalTaskStatus (hr_status result) then s
               else put_group now (at_groupId task)
                      (grp\<lparr>tg_results := update_first (is_result_of (at_taskId task) hostId) (dispatched_result rt now)
                               (tg_results grp), tg_updatedAt := now\<rparr>) s))"

definition takePluginAgentTasks ::
  "js_runtime \<Rightarrow> int \<Rightarrow> jsval \<Rightarrow> int \<Rightarrow> (agent_task \<Rightarrow> bool) \<Rightarrow> plugin_tasks \<Rightarrow> agent_task list \<times> plugin_tasks" where
  "takePluginAgentTasks rt now hostId limit canTake s0 =
     (let s = expireOverdueGroups now s0 in
      case host_number hostId of
        None \<Rightarrow> ([], s)
      | Some h \<Rightarrow>
          (let queue = (case jm_get (pt_queues s) h of Some q \<Rightarrow> q | None \<Rightarrow> []);
               takeLimit = max 1 (min 8 (if limit = 0 then 2 else limit));
               (tasks, remaining) = split_tasks (nat takeLimit) canTake queue;
               s1 = s\<lparr>pt_queues := (if remaining \<noteq> [] then jm_set h remaining (pt_queues s) else jm_del h (pt_queues s))\<rparr>
           in (tasks, foldl (mark_dispatched rt now h) s1 tasks)))"

definition hasQueuedPluginAgentTasks :: "int \<Rightarrow> jsval \<Rightarrow> plugin_tasks \<Rightarrow> bool \<times> plugin_tasks" where
  "hasQueuedPluginAgentTasks now hostId s0 =
     (let s = expireOverdueGroups now s0
      in (case host_number hostId of None \<Rightarrow> False
          | Some h \<Rightarrow> (case jm_get (pt_queues s) h of Some q \<Rightarrow> q \<noteq> [] | None \<Rightarrow> False), s))"

text \<open>\<open>text || undefined\<close>.\<close>

definition some_text :: "string \<Rightarrow> string option" where
  "some_text s = (if s = [] then None else Some s)"

definition reported_duration :: "task_report \<Rightarrow> int" where
  "reported_duration input =
     max 0 (case js_number (if js_nullish (rp_agentDurationMs input) then rp_durationMs input else rp_agentDurationMs input) of
              None \<Rightarrow> 0 | Some q \<Rightarrow> \<lfloor>q\<rfloor>)"

definition completed_result :: "js_runtime \<Rightarrow> int \<Rightarrow> task_report \<Rightarrow> host_result \<Rightarrow> host_result" where
  "completed_result rt completedAt input result =
     (let finishedText = normalizeText (rp_finishedAt input) 80;
          timedOut = (rp_timedOut input = JBool True);
          success = (rp_success input = JBool True \<and> \<not> timedOut);
          output = List.take 262144 (js_string (js_or (rp_output input) (JStr [])));
          data = (if rp_data input = None \<and> \<not> success then parseStructuredOutput rt output else rp_data input);
          (failMessage, failAdvice, failDetail) = (if success then ([], [], []) else structuredFailureDetails rt data);
          reportedError = normalizeText (rp_error input) 4000;
          reportedProcessError = normalizeText (rp_processError input) 4000;
          startedText = normalizeText (rp_startedAt input) 80;
          startedAt = (if startedText \<noteq> [] then Some (Reported startedText) else hr_startedAt result);
          error = (if failMessage \<noteq> [] then failMessage else reportedError)
      in result\<lparr>hr_status := (if timedOut then TTimeout else if success then TSuccess else TError),
           hr_success := success,
           hr_output := MText (if output = [] then error else output),
           hr_stderr := Some (List.take 262144 (js_string (js_or (rp_stderr input) (JStr [])))),
           hr_data := data,
           hr_exitCode := (if js_nullish (rp_exitCode input) then None else Some (js_number (rp_exitCode input))),
           hr_timedOut := Some timedOut,
           hr_durationMs := Some (reported_duration input),
           hr_startedAt := startedAt,
           hr_finishedAt := Some (if finishedText \<noteq> [] then Reported finishedText else At completedAt),
           hr_completedAt := Some completedAt,
           hr_queueDurationMs := (case hr_queueDurationMs result of Some d \<Rightarrow> Some d
              | None \<Rightarrow> elapsedMilliseconds rt (At (hr_queuedAt result))
                  (case hr_dispatchedAt result of Some t \<Rightarrow> At t
                   | None \<Rightarrow> (case startedAt of Some t \<Rightarrow> t | None \<Rightarrow> At completedAt))),
           hr_endToEndDurationMs := elapsedMilliseconds rt (At (hr_queuedAt result)) (At completedAt),
           hr_error := map_option MText (some_text error),
           hr_advice := some_text (if normalizeText (rp_advice input) 4000 \<noteq> [] then normalizeText (rp_advice input) 4000 else failAdvice),
           hr_errorDetail := some_text (if normalizeText (rp_errorDetail input) 4000 \<noteq> []
              then normalizeText (rp_errorDetail input) 4000 else failDetail),
           hr_processError := (if reportedProcessError \<noteq> [] then Some reportedProcessError
              else if failMessage \<noteq> [] \<and> reportedError \<noteq> [] \<and> reportedError \<noteq> failMessage then Some reportedError
              else None)\<rparr>)"

definition completePluginAgentTask :: "js_runtime \<Rightarrow> int \<Rightarrow> jsval \<Rightarrow> task_report \<Rightarrow> plugin_tasks \<Rightarrow> bool \<times> plugin_tasks" where
  "completePluginAgentTask rt now hostId input s0 =
     (let s = expireOverdueGroups now s0;
          groupId = normalizeText (rp_groupId input) 64;
          taskId = normalizeText (rp_taskId input) 64
      in case (jm_get (pt_groups s) groupId, host_number hostId) of
           (Some grp, Some h) \<Rightarrow>
             if taskId = [] then (False, s)
             else if tg_pluginId grp \<noteq> normalizeText (rp_pluginId input) 128
                \<or> tg_actionId grp \<noteq> normalizeText (rp_actionId input) 128 then (False, s)
             else
               (case find (is_result_of taskId h) (tg_results grp) of
                  None \<Rightarrow> (False, s)
                | Some result \<Rightarrow>
                    if isTerminalTaskStatus (hr_status result) then (True, s)
                    else
                      (let changed = completed_result rt now input result;
                           g = grp\<lparr>tg_results := update_first (is_result_of taskId h) (\<lambda>_. changed) (tg_results grp),
                                     tg_updatedAt := now, tg_failureLogged := tg_failureLogged grp \<or> \<not> hr_success changed\<rparr>
                       in (True, put_group now groupId g s)))
         | _ \<Rightarrow> (False, s))"

definition getPluginAgentTaskGroup :: "int \<Rightarrow> jsval \<Rightarrow> plugin_tasks \<Rightarrow> task_group option \<times> plugin_tasks" where
  "getPluginAgentTaskGroup now groupId s0 =
     (let s = expireOverdueGroups now s0 in (jm_get (pt_groups s) (normalizeText groupId 64), s))"


section \<open>Groups stay consistent\<close>

text \<open>The status of a group, told from its results alone.\<close>

definition status_of_results :: "host_result list \<Rightarrow> group_status" where
  "status_of_results rs =
     (if \<forall>r \<in> set rs. isTerminalTaskStatus (hr_status r) then
        (if \<forall>r \<in> set rs. hr_status r = TSuccess then GSuccess
         else if \<exists>r \<in> set rs. hr_status r = TSuccess then GPartial
         else if \<forall>r \<in> set rs. hr_status r = TTimeout then GTimeout else GError)
      else if \<exists>r \<in> set rs. hr_status r = TRunning then GRunning else GQueued)"

definition group_ok :: "task_group \<Rightarrow> bool" where
  "group_ok g \<longleftrightarrow> tg_total g = length (tg_results g) \<and> tg_results g \<noteq> []
     \<and> tg_completed g = count_status isTerminalTaskStatus (tg_results g)
     \<and> tg_done g = (\<forall>r \<in> set (tg_results g). isTerminalTaskStatus (hr_status r))
     \<and> tg_status g = status_of_results (tg_results g)
     \<and> (tg_timeoutTimer g = None \<longleftrightarrow> tg_done g)"

definition group_timer :: "plugin_tasks \<Rightarrow> string \<Rightarrow> nat option" where
  "group_timer s gid = (case jm_get (pt_groups s) gid of None \<Rightarrow> None | Some g \<Rightarrow> tg_timeoutTimer g)"

definition queues_ok :: "(int, agent_task list) jmap \<Rightarrow> bool" where
  "queues_ok queues \<longleftrightarrow> jm_ok queues \<and> (\<forall>h q. jm_get queues h = Some q \<longrightarrow> q \<noteq> [] \<and> length q \<le> max_tasks_per_host)"

definition groups_ok :: "(string, task_group) jmap \<Rightarrow> bool" where
  "groups_ok groups \<longleftrightarrow> jm_ok groups \<and> (\<forall>gid g. jm_get groups gid = Some g \<longrightarrow> group_ok g)"

definition tasks_ok :: "plugin_tasks \<Rightarrow> bool" where
  "tasks_ok s \<longleftrightarrow> queues_ok (pt_queues s) \<and> groups_ok (pt_groups s) \<and> js_timers.matches id (group_timer s) (pt_timers s)"

lemma count_status_all: "length rs \<le> count_status P rs \<longleftrightarrow> (\<forall>r \<in> set rs. P (hr_status r))"
  using length_filter_less_iff [of "\<lambda>r. P (hr_status r)" rs] by (auto simp: count_status_def not_less [symmetric])

lemma count_status_eq: "count_status P rs = length rs \<longleftrightarrow> (\<forall>r \<in> set rs. P (hr_status r))"
  by (simp add: count_status_def length_filter_eq_iff)

lemma count_status_pos: "0 < count_status P rs \<longleftrightarrow> (\<exists>r \<in> set rs. P (hr_status r))"
  by (auto simp: count_status_def filter_empty_conv)

lemma refreshGroup_fields [simp]:
  "tg_results (refreshGroup now g) = tg_results g" "tg_total (refreshGroup now g) = tg_total g"
  "tg_pluginId (refreshGroup now g) = tg_pluginId g" "tg_actionId (refreshGroup now g) = tg_actionId g"
  by (simp_all add: refreshGroup_def Let_def)

lemma groups_okD: "groups_ok gs \<Longrightarrow> jm_get gs gid = Some g \<Longrightarrow> group_ok g"
  unfolding groups_ok_def by blast

lemma groups_ok_set: "groups_ok gs \<Longrightarrow> group_ok g \<Longrightarrow> groups_ok (jm_set gid g gs)"
  unfolding groups_ok_def by (auto split: if_splits)

lemma groups_ok_prune: "groups_ok gs \<Longrightarrow> groups_ok (jm_prune P gs)"
  unfolding groups_ok_def by (auto simp: jm_get_prune split: option.splits if_splits)

lemma tasks_okD:
  assumes "tasks_ok s"
  shows "queues_ok (pt_queues s)" "groups_ok (pt_groups s)" "js_timers.matches id (group_timer s) (pt_timers s)"
    "jm_get (pt_groups s) gid = Some g \<Longrightarrow> group_ok g"
  using assms groups_okD unfolding tasks_ok_def by blast+

lemma all_success: "\<forall>r \<in> set rs. hr_status r = TSuccess \<Longrightarrow> \<forall>r \<in> set rs. isTerminalTaskStatus (hr_status r)"
  by (simp add: isTerminalTaskStatus_def)

lemma refreshGroup_done: "tg_done (refreshGroup now g) = (tg_total g \<le> count_status isTerminalTaskStatus (tg_results g))"
  by (simp add: refreshGroup_def Let_def)

lemma refreshGroup_ok:
  assumes "tg_total g = length (tg_results g)" "tg_results g \<noteq> []" "tg_timeoutTimer g \<noteq> None"
  shows "group_ok (refreshGroup now g)"
    "tg_timeoutTimer (refreshGroup now g) = (if tg_done (refreshGroup now g) then None else tg_timeoutTimer g)"
proof -
  let ?g = "refreshGroup now g" and ?rs = "tg_results g"
  have dn: "tg_done ?g = (\<forall>r \<in> set ?rs. isTerminalTaskStatus (hr_status r))"
    using assms(1) by (simp add: refreshGroup_done count_status_all)
  have st: "tg_status ?g = status_of_results ?rs"
  proof (cases "tg_done ?g")
    case True
    then have all: "\<forall>r \<in> set ?rs. isTerminalTaskStatus (hr_status r)" using dn by simp
    have c: "length ?rs \<le> count_status isTerminalTaskStatus ?rs" using True assms(1) by (simp add: refreshGroup_done)
    show ?thesis using all c assms(1,2)
      by (simp add: refreshGroup_def Let_def status_of_results_def count_status_eq count_status_pos)
  next
    case False
    have some: "\<not> (\<forall>r \<in> set ?rs. isTerminalTaskStatus (hr_status r))" using False dn by simp
    have c: "\<not> tg_total g \<le> count_status isTerminalTaskStatus ?rs" using False by (simp only: refreshGroup_done) simp
    have "tg_status ?g = (if list_ex (\<lambda>r. hr_status r = TRunning) ?rs then GRunning else GQueued)"
      using c by (simp add: refreshGroup_def Let_def)
    then show ?thesis unfolding status_of_results_def if_not_P [OF some] by (simp add: list_ex_iff)
  qed
  show timer: "tg_timeoutTimer ?g = (if tg_done ?g then None else tg_timeoutTimer g)"
    by (simp add: refreshGroup_def Let_def)
  have "tg_completed ?g = count_status isTerminalTaskStatus ?rs" by (simp add: refreshGroup_def Let_def)
  moreover have "(tg_timeoutTimer ?g = None) = tg_done ?g" unfolding timer using assms(3) by simp
  ultimately show "group_ok ?g" unfolding group_ok_def refreshGroup_fields using assms(1,2) dn st by blast
qed

lemma put_group_ok:
  assumes ok: "tasks_ok s" and g0: "jm_get (pt_groups s) gid = Some g0" "\<not> tg_done g0"
    and g: "tg_timeoutTimer g = tg_timeoutTimer g0" "tg_total g = tg_total g0" "length (tg_results g) = length (tg_results g0)"
  shows "tasks_ok (put_group now gid g s)"
proof -
  let ?g = "refreshGroup now g" and ?s = "put_group now gid g s"
  have g0ok: "group_ok g0" using tasks_okD(4) [OF ok g0(1)] .
  then obtain i where i: "tg_timeoutTimer g0 = Some i" using g0(2) by (auto simp: group_ok_def)
  have "tg_results g \<noteq> []" "tg_total g = length (tg_results g)" using g0ok g(2,3) by (auto simp: group_ok_def)
  then have gok: "group_ok ?g" "tg_timeoutTimer ?g = (if tg_done ?g then None else tg_timeoutTimer g)"
    using refreshGroup_ok [of g now] g(1) i by simp_all
  note m = tasks_okD(3) [OF ok]
  have own: "group_timer ?s = (if tg_done ?g then (group_timer s)(gid := None) else group_timer s)"
    using g0 g gok(2) by (auto simp: fun_eq_iff group_timer_def put_group_def Let_def)
  have "js_timers.matches id (group_timer ?s) (pt_timers ?s)"
    unfolding own using m matches_clear_opt [OF m, of "tg_timeoutTimer g" gid] g0(1) g(1)
    by (simp add: put_group_def Let_def group_timer_def)
  moreover have "pt_groups ?s = jm_set gid ?g (pt_groups s)" "pt_queues ?s = pt_queues s" by (simp_all add: put_group_def Let_def)
  ultimately show ?thesis using tasks_okD(1,2) [OF ok] gok(1) groups_ok_set unfolding tasks_ok_def by metis
qed

text \<open>The overdue groups have no timer left, so dropping them touches no timer.\<close>

lemma expire_eq:
  assumes "tasks_ok s"
  shows "expireOverdueGroups now s = s\<lparr>pt_groups := jm_prune (\<lambda>_ g. tg_done g \<and> tg_expiresAt g \<le> now) (pt_groups s)\<rparr>"
proof -
  have gs: "(\<And>gid g. (gid, g) \<in> set gs \<Longrightarrow> tg_done g \<Longrightarrow> tg_timeoutTimer g = None) \<Longrightarrow>
     foldl (\<lambda>tt (gid, g). if tg_done g \<and> tg_expiresAt g \<le> now then clear_timer_opt (tg_timeoutTimer g) tt else tt) tt gs = tt"
    for gs :: "(string \<times> task_group) list" and tt :: "string timer_table"
  proof (induction gs)
    case (Cons x gs)
    obtain gid g where x: "x = (gid, g)" by (cases x)
    have "tg_done g \<Longrightarrow> tg_timeoutTimer g = None" using Cons.prems x by auto
    then show ?case using Cons x by (auto simp: clear_timer_opt_def)
  qed simp
  have "tg_timeoutTimer g = None" if "(gid, g) \<in> set (pt_groups s)" "tg_done g" for gid g
    using assms that jm_in_set_get [of "pt_groups s" gid g] tasks_okD(4) [OF assms, of gid g] tasks_okD(2) [OF assms]
    by (auto simp: group_ok_def groups_ok_def)
  from gs [OF this] show ?thesis by (simp add: expireOverdueGroups_def Let_def)
qed

lemma expire_get:
  assumes "tasks_ok s"
  shows "jm_get (pt_groups (expireOverdueGroups now s)) gid =
    (case jm_get (pt_groups s) gid of None \<Rightarrow> None | Some g \<Rightarrow> if tg_done g \<and> tg_expiresAt g \<le> now then None else Some g)"
  using tasks_okD(2) [OF assms] unfolding expire_eq [OF assms] by (simp add: jm_get_prune groups_ok_def)

lemma expire_ok:
  assumes "tasks_ok s"
  shows "tasks_ok (expireOverdueGroups now s)"
proof -
  have "tg_timeoutTimer g = None" if "jm_get (pt_groups s) gid = Some g" "tg_done g" for gid g
    using tasks_okD(4) [OF assms that(1)] that(2) by (simp add: group_ok_def)
  then have own: "group_timer (expireOverdueGroups now s) = group_timer s"
    by (auto simp: fun_eq_iff group_timer_def expire_get [OF assms] split: option.split)
  have eqs: "pt_timers (expireOverdueGroups now s) = pt_timers s" "pt_queues (expireOverdueGroups now s) = pt_queues s"
    by (simp_all add: expire_eq [OF assms])
  have "groups_ok (pt_groups (expireOverdueGroups now s))"
    using groups_ok_prune [OF tasks_okD(2) [OF assms]] by (simp add: expire_eq [OF assms])
  then show ?thesis using tasks_okD(1,3) [OF assms] unfolding tasks_ok_def own eqs by blast
qed

lemma expire_queues: "pt_queues (expireOverdueGroups now s) = pt_queues s"
  by (simp add: expireOverdueGroups_def Let_def)

lemma queues_ok_set: "queues_ok qs \<Longrightarrow> q \<noteq> [] \<Longrightarrow> length q \<le> max_tasks_per_host \<Longrightarrow> queues_ok (jm_set h q qs)"
  unfolding queues_ok_def by (auto split: if_splits)

lemma queues_ok_del: "queues_ok qs \<Longrightarrow> queues_ok (jm_del h qs)"
  unfolding queues_ok_def by (auto split: if_splits)

lemma queues_ok_push: "queues_ok qs \<Longrightarrow> queues_ok (push_task h task qs)"
  unfolding push_task_def Let_def by (intro queues_ok_set) (auto simp: max_tasks_per_host_def)

lemma removeQueuedTasks_get:
  "jm_ok qs \<Longrightarrow> jm_get (removeQueuedTasks gid qs) h =
     (case jm_get qs h of None \<Rightarrow> None
      | Some q \<Rightarrow> if filter (\<lambda>t. at_groupId t \<noteq> gid) q = [] then None else Some (filter (\<lambda>t. at_groupId t \<noteq> gid) q))"
proof (induction qs)
  case Nil
  then show ?case by (simp add: removeQueuedTasks_def)
next
  case (Cons e qs)
  obtain a q where e: "e = (a, q)" by (cases e)
  have "jm_get qs a = None" using Cons.prems e by (simp add: map_of_eq_None_iff)
  then show ?case using Cons e by (auto simp: removeQueuedTasks_def split: option.splits)
qed

lemma queues_ok_remove:
  assumes "queues_ok qs"
  shows "queues_ok (removeQueuedTasks gid qs)"
proof -
  have "jm_ok qs" using assms by (simp add: queues_ok_def)
  then have "jm_ok (removeQueuedTasks gid qs)"
    unfolding removeQueuedTasks_def jm_ok_def
    by (intro distinct_map_filter) (simp add: case_prod_unfold comp_def)
  moreover have "q \<noteq> [] \<and> length q \<le> max_tasks_per_host" if q: "jm_get (removeQueuedTasks gid qs) h = Some q" for h q
  proof -
    obtain q0 where q0: "jm_get qs h = Some q0" "q = filter (\<lambda>t. at_groupId t \<noteq> gid) q0" "q \<noteq> []"
      using q removeQueuedTasks_get [OF \<open>jm_ok qs\<close>, of gid h] by (auto split: option.splits if_splits)
    then have "length q0 \<le> max_tasks_per_host" using assms unfolding queues_ok_def by blast
    then show ?thesis using q0(2,3) length_filter_le le_trans by blast
  qed
  ultimately show ?thesis unfolding queues_ok_def by blast
qed

lemma with_queues_ok:
  assumes "tasks_ok s" "queues_ok qs"
  shows "tasks_ok (s\<lparr>pt_queues := qs\<rparr>)"
proof -
  have own: "group_timer (s\<lparr>pt_queues := qs\<rparr>) = group_timer s" by (simp add: fun_eq_iff group_timer_def)
  have eqs: "pt_groups (s\<lparr>pt_queues := qs\<rparr>) = pt_groups s" "pt_timers (s\<lparr>pt_queues := qs\<rparr>) = pt_timers s"
    "pt_queues (s\<lparr>pt_queues := qs\<rparr>) = qs" by simp_all
  show ?thesis using assms(2) tasks_okD(2,3) [OF assms(1)] unfolding tasks_ok_def own eqs by blast
qed


section \<open>Tasks only go forward\<close>

text \<open>What may happen to a result: nothing once it is terminal, and otherwise it may be replaced by the result of
  the same task on the same host with a status that is not earlier.\<close>

fun status_rank :: "task_status \<Rightarrow> nat" where
  "status_rank TQueued = 0"
| "status_rank TRunning = 1"
| "status_rank _ = 2"

definition forward :: "host_result \<Rightarrow> host_result \<Rightarrow> bool" where
  "forward r r' \<longleftrightarrow> hr_taskId r' = hr_taskId r \<and> hr_hostId r' = hr_hostId r \<and> hr_queuedAt r' = hr_queuedAt r
     \<and> (if isTerminalTaskStatus (hr_status r) then r' = r else status_rank (hr_status r) \<le> status_rank (hr_status r'))"

definition group_forward :: "task_group \<Rightarrow> task_group \<Rightarrow> bool" where
  "group_forward g g' \<longleftrightarrow> list_all2 forward (tg_results g) (tg_results g') \<and> tg_total g' = tg_total g
     \<and> tg_pluginId g' = tg_pluginId g \<and> tg_actionId g' = tg_actionId g"

definition groups_keep :: "plugin_tasks \<Rightarrow> plugin_tasks \<Rightarrow> bool" where
  "groups_keep s s' \<longleftrightarrow> (\<forall>gid g. jm_get (pt_groups s) gid = Some g \<longrightarrow>
     (\<exists>g'. jm_get (pt_groups s') gid = Some g' \<and> group_forward g g'))"

lemma status_rank_le [simp]: "status_rank st \<le> 2"
  by (cases st) simp_all

lemma forward_refl [simp]: "forward r r"
  by (simp add: forward_def)

lemma forward_trans: "forward r r' \<Longrightarrow> forward r' r'' \<Longrightarrow> forward r r''"
  by (auto simp: forward_def split: if_splits)

lemma list_forward_refl [simp]: "list_all2 forward rs rs"
  by (rule list_all2_refl) simp

lemma list_forward_trans: "list_all2 forward a b \<Longrightarrow> list_all2 forward b c \<Longrightarrow> list_all2 forward a c"
  by (rule list_all2_trans [OF forward_trans])

lemma done_forward:
  assumes "list_all2 forward rs rs'" "\<forall>r \<in> set rs. isTerminalTaskStatus (hr_status r)"
  shows "rs' = rs"
  using assms by (induction rule: list_all2_induct) (auto simp: forward_def)

lemma group_forward_refl [simp]: "group_forward g g"
  by (simp add: group_forward_def)

lemma group_forward_trans: "group_forward a b \<Longrightarrow> group_forward b c \<Longrightarrow> group_forward a c"
  by (auto simp: group_forward_def intro: list_forward_trans)

lemma groups_keep_same: "pt_groups s' = pt_groups s \<Longrightarrow> groups_keep s s'"
  by (auto simp: groups_keep_def)

lemma groups_keep_trans: "groups_keep a b \<Longrightarrow> groups_keep b c \<Longrightarrow> groups_keep a c"
  unfolding groups_keep_def using group_forward_trans by blast

lemma groups_keep_put:
  assumes "jm_get (pt_groups s) gid = Some g0" "group_forward g0 g"
  shows "groups_keep s (put_group now gid g s)"
  using assms unfolding groups_keep_def by (auto simp: put_group_def Let_def group_forward_def)

lemma expire_then_keep:
  assumes "tasks_ok s" "groups_keep (expireOverdueGroups now s) s'"
    and "jm_get (pt_groups s) gid = Some g" "\<not> (tg_done g \<and> tg_expiresAt g \<le> now)"
  shows "\<exists>g'. jm_get (pt_groups s') gid = Some g' \<and> group_forward g g'"
proof -
  have "jm_get (pt_groups (expireOverdueGroups now s)) gid = Some g" using expire_get [OF assms(1), of now gid] assms(3,4) by auto
  then show ?thesis using assms(2) unfolding groups_keep_def by blast
qed

lemma update_first_forward:
  assumes "find P rs = Some r" "forward r (f r)"
  shows "list_all2 forward rs (update_first P f rs)"
  using assms by (induction rs) (auto split: if_splits)

lemma length_update_first [simp]: "length (update_first P f rs) = length rs"
  by (induction rs) auto

lemma find_P: "find P rs = Some r \<Longrightarrow> P r \<and> r \<in> set rs"
  by (induction rs) (auto split: if_splits)

lemma timed_out_forward: "forward r (timed_out_result rt now r)"
  by (auto simp: forward_def timed_out_result_def isTerminalTaskStatus_def)

lemma timed_out_terminal: "isTerminalTaskStatus (hr_status (timed_out_result rt now r))"
  by (simp add: timed_out_result_def isTerminalTaskStatus_def)

lemma completed_fields:
  "hr_taskId (completed_result rt now input r) = hr_taskId r" "hr_hostId (completed_result rt now input r) = hr_hostId r"
  "hr_queuedAt (completed_result rt now input r) = hr_queuedAt r"
  "hr_status (completed_result rt now input r) =
     (if rp_timedOut input = JBool True then TTimeout else if rp_success input = JBool True then TSuccess else TError)"
  by (simp_all add: completed_result_def Let_def case_prod_unfold)

lemma completed_forward: "\<not> isTerminalTaskStatus (hr_status r) \<Longrightarrow> forward r (completed_result rt now input r)"
  by (cases "hr_status r") (auto simp: forward_def completed_fields isTerminalTaskStatus_def)

lemma dispatched_forward: "\<not> isTerminalTaskStatus (hr_status r) \<Longrightarrow> forward r (dispatched_result rt now r)"
  by (cases "hr_status r") (auto simp: forward_def dispatched_result_def isTerminalTaskStatus_def)


section \<open>The operations\<close>

lemma put_group_simps [simp]:
  "pt_queues (put_group now gid g s) = pt_queues s"
  "jm_get (pt_groups (put_group now gid g s)) gid' = (if gid' = gid then Some (refreshGroup now g) else jm_get (pt_groups s) gid')"
  by (simp_all add: put_group_def Let_def)

lemma mark_dispatched_ok:
  assumes "tasks_ok s"
  shows "tasks_ok (mark_dispatched rt now h s task) \<and> groups_keep s (mark_dispatched rt now h s task)
    \<and> pt_queues (mark_dispatched rt now h s task) = pt_queues s"
proof (cases "jm_get (pt_groups s) (at_groupId task)")
  case None
  then show ?thesis using assms by (simp add: mark_dispatched_def groups_keep_same)
next
  case g: (Some g)
  let ?P = "is_result_of (at_taskId task) h"
  show ?thesis
  proof (cases "find ?P (tg_results g)")
    case None
    then show ?thesis using assms g by (simp add: mark_dispatched_def groups_keep_same)
  next
    case r: (Some r)
    show ?thesis
    proof (cases "tg_done g \<or> isTerminalTaskStatus (hr_status r)")
      case True
      then show ?thesis using assms g r by (simp add: mark_dispatched_def groups_keep_same)
    next
      case False
      define g' where "g' = g\<lparr>tg_results := update_first ?P (dispatched_result rt now) (tg_results g), tg_updatedAt := now\<rparr>"
      have eq: "mark_dispatched rt now h s task = put_group now (at_groupId task) g' s"
        using g r False by (simp add: mark_dispatched_def g'_def)
      have "list_all2 forward (tg_results g) (tg_results g')"
        using update_first_forward [OF r, of "dispatched_result rt now"] dispatched_forward False by (simp add: g'_def)
      then have fw: "group_forward g g'" by (simp add: group_forward_def g'_def)
      have "tasks_ok (put_group now (at_groupId task) g' s)"
        by (rule put_group_ok [OF assms g]) (use False in \<open>simp_all add: g'_def\<close>)
      then show ?thesis unfolding eq using groups_keep_put [OF g fw] by simp
    qed
  qed
qed

lemma mark_dispatched_fold:
  "tasks_ok s \<Longrightarrow>
   tasks_ok (foldl (mark_dispatched rt now h) s ts) \<and> groups_keep s (foldl (mark_dispatched rt now h) s ts)
   \<and> pt_queues (foldl (mark_dispatched rt now h) s ts) = pt_queues s"
proof (induction ts arbitrary: s)
  case Nil
  then show ?case by (simp add: groups_keep_same)
next
  case (Cons t ts)
  note m = mark_dispatched_ok [OF Cons.prems, of rt now h t]
  show ?case using Cons.IH [OF conjunct1 [OF m]] m groups_keep_trans by auto
qed

lemma split_tasks_mset: "split_tasks n P q = (took, rest) \<Longrightarrow> mset took + mset rest = mset q"
  by (induction n P q arbitrary: took rest rule: split_tasks.induct) (auto split: if_splits prod.splits)

lemma split_tasks_length: "split_tasks n P q = (took, rest) \<Longrightarrow> length rest \<le> length q"
  using split_tasks_mset [of n P q took rest] by (metis le_add2 size_mset size_union)

text \<open>What \<open>takePluginAgentTasks\<close> does to the queues.\<close>

definition queue_of :: "plugin_tasks \<Rightarrow> int \<Rightarrow> agent_task list" where
  "queue_of s h = (case jm_get (pt_queues s) h of Some q \<Rightarrow> q | None \<Rightarrow> [])"

definition put_queue :: "int \<Rightarrow> agent_task list \<Rightarrow> plugin_tasks \<Rightarrow> plugin_tasks" where
  "put_queue h q s = s\<lparr>pt_queues := (if q \<noteq> [] then jm_set h q (pt_queues s) else jm_del h (pt_queues s))\<rparr>"

lemma take_eq:
  assumes "host_number v = Some h"
  shows "takePluginAgentTasks rt now v limit canTake s =
    (let s1 = expireOverdueGroups now s;
         (tasks, rest) = split_tasks (nat (max 1 (min 8 (if limit = 0 then 2 else limit)))) canTake (queue_of s h)
     in (tasks, foldl (mark_dispatched rt now h) (put_queue h rest s1) tasks))"
  by (simp add: takePluginAgentTasks_def assms Let_def queue_of_def put_queue_def expire_queues case_prod_unfold)

lemma take_ok:
  assumes "tasks_ok s"
  shows "tasks_ok (snd (takePluginAgentTasks rt now v limit canTake s))
    \<and> groups_keep (expireOverdueGroups now s) (snd (takePluginAgentTasks rt now v limit canTake s))"
proof (cases "host_number v")
  case None
  then show ?thesis using expire_ok [OF assms] by (simp add: takePluginAgentTasks_def groups_keep_same)
next
  case (Some h)
  define n where "n = nat (max 1 (min 8 (if limit = 0 then 2 else limit)))"
  obtain tasks rest where sp: "split_tasks n canTake (queue_of s h) = (tasks, rest)" by (cases "split_tasks n canTake (queue_of s h)")
  let ?s = "expireOverdueGroups now s"
  have eq: "snd (takePluginAgentTasks rt now v limit canTake s) = foldl (mark_dispatched rt now h) (put_queue h rest ?s) tasks"
    using sp by (simp add: take_eq [OF Some] Let_def n_def [symmetric])
  have q: "queues_ok (pt_queues s)" by (rule tasks_okD(1) [OF assms])
  have "length (queue_of s h) \<le> max_tasks_per_host"
    using q unfolding queue_of_def queues_ok_def by (cases "jm_get (pt_queues s) h") auto
  then have "length rest \<le> max_tasks_per_host" using split_tasks_length [OF sp] by simp
  then have "queues_ok (if rest \<noteq> [] then jm_set h rest (pt_queues ?s) else jm_del h (pt_queues ?s))"
    using q by (simp add: expire_queues queues_ok_set queues_ok_del)
  then have "tasks_ok (put_queue h rest ?s)" unfolding put_queue_def by (rule with_queues_ok [OF expire_ok [OF assms]])
  moreover have "groups_keep ?s (put_queue h rest ?s)" by (rule groups_keep_same) (simp add: put_queue_def)
  ultimately show ?thesis unfolding eq using mark_dispatched_fold groups_keep_trans by blast
qed

lemma timeout_put:
  assumes "tasks_ok s" "live_timer (pt_timers s) i = Some (due, gid)"
  obtains g where "jm_get (pt_groups s) gid = Some g" "\<not> tg_done g" "tg_timeoutTimer g = Some i"
    "group_timeout rt now i s = put_group now gid
       (g\<lparr>tg_results := map (timed_out_result rt now) (tg_results g), tg_updatedAt := now\<rparr>)
       (s\<lparr>pt_queues := removeQueuedTasks gid (pt_queues s)\<rparr>)"
proof -
  have "group_timer s gid = Some i" using js_timers.matches_owner [OF tasks_okD(3) [OF assms(1)] assms(2)] by simp
  then obtain g where g: "jm_get (pt_groups s) gid = Some g" "tg_timeoutTimer g = Some i"
    by (auto simp: group_timer_def split: option.splits)
  have gok: "group_ok g" by (rule tasks_okD(4) [OF assms(1) g(1)])
  then have nd: "\<not> tg_done g" using g(2) by (auto simp: group_ok_def)
  have "tg_total g = length (tg_results g)" using gok by (simp add: group_ok_def)
  then have dn: "tg_done (refreshGroup now (g\<lparr>tg_results := map (timed_out_result rt now) (tg_results g), tg_updatedAt := now\<rparr>))"
    using count_status_all [of "map (timed_out_result rt now) (tg_results g)"] by (simp add: refreshGroup_done timed_out_terminal)
  have "group_timeout rt now i s = put_group now gid
       (g\<lparr>tg_results := map (timed_out_result rt now) (tg_results g), tg_updatedAt := now\<rparr>)
       (s\<lparr>pt_queues := removeQueuedTasks gid (pt_queues s)\<rparr>)"
    using dn g nd assms(2) unfolding group_timeout_def markGroupTimedOut_def put_group_def Let_def
    by (simp add: clear_timer_opt_def clear_timer_def delete_idem)
  then show ?thesis using that g nd by blast
qed

lemma group_timeout_ok:
  assumes "tasks_ok s"
  shows "tasks_ok (group_timeout rt now i s) \<and> groups_keep s (group_timeout rt now i s)"
proof (cases "live_timer (pt_timers s) i")
  case None
  then show ?thesis using assms by (simp add: group_timeout_def groups_keep_same)
next
  case (Some x)
  obtain due gid where x: "live_timer (pt_timers s) i = Some (due, gid)" using Some by (cases x) auto
  obtain g where g: "jm_get (pt_groups s) gid = Some g" "\<not> tg_done g" "tg_timeoutTimer g = Some i"
    and eq: "group_timeout rt now i s = put_group now gid
       (g\<lparr>tg_results := map (timed_out_result rt now) (tg_results g), tg_updatedAt := now\<rparr>)
       (s\<lparr>pt_queues := removeQueuedTasks gid (pt_queues s)\<rparr>)"
    using timeout_put [where rt = rt and now = now, OF assms x] by blast
  let ?s = "s\<lparr>pt_queues := removeQueuedTasks gid (pt_queues s)\<rparr>"
  have "tasks_ok ?s" by (rule with_queues_ok [OF assms queues_ok_remove [OF tasks_okD(1) [OF assms]]])
  moreover have g1: "jm_get (pt_groups ?s) gid = Some g" using g(1) by simp
  ultimately have "tasks_ok (group_timeout rt now i s)" unfolding eq
    by (rule put_group_ok [OF _ _ g(2)]) simp_all
  moreover have "group_forward g (g\<lparr>tg_results := map (timed_out_result rt now) (tg_results g), tg_updatedAt := now\<rparr>)"
    by (simp add: group_forward_def list_all2_map2 timed_out_forward list_all2_refl)
  then have "groups_keep ?s (group_timeout rt now i s)" unfolding eq by (rule groups_keep_put [OF g1])
  moreover have "groups_keep s ?s" by (rule groups_keep_same) simp
  ultimately show ?thesis using groups_keep_trans by blast
qed

lemma complete_ok:
  assumes "tasks_ok s"
  shows "tasks_ok (snd (completePluginAgentTask rt now v input s))
    \<and> groups_keep (expireOverdueGroups now s) (snd (completePluginAgentTask rt now v input s))"
proof -
  let ?s = "expireOverdueGroups now s" and ?gid = "normalizeText (rp_groupId input) 64" and ?tid = "normalizeText (rp_taskId input) 64"
  define s' where "s' = snd (completePluginAgentTask rt now v input s)"
  have cases: "s' = ?s \<or> (\<exists>g h r. jm_get (pt_groups ?s) ?gid = Some g \<and> find (is_result_of ?tid h) (tg_results g) = Some r
      \<and> \<not> isTerminalTaskStatus (hr_status r)
      \<and> s' = put_group now ?gid (g\<lparr>tg_results := update_first (is_result_of ?tid h) (\<lambda>_. completed_result rt now input r) (tg_results g),
            tg_updatedAt := now, tg_failureLogged := tg_failureLogged g \<or> \<not> hr_success (completed_result rt now input r)\<rparr>) ?s)"
    by (auto simp: s'_def completePluginAgentTask_def Let_def split: option.split)
  show ?thesis unfolding s'_def [symmetric]
  proof (rule disjE [OF cases])
    assume "s' = ?s"
    then show "tasks_ok s' \<and> groups_keep ?s s'" using expire_ok [OF assms] by (simp add: groups_keep_same)
  next
    assume "\<exists>g h r. jm_get (pt_groups ?s) ?gid = Some g \<and> find (is_result_of ?tid h) (tg_results g) = Some r
      \<and> \<not> isTerminalTaskStatus (hr_status r)
      \<and> s' = put_group now ?gid (g\<lparr>tg_results := update_first (is_result_of ?tid h) (\<lambda>_. completed_result rt now input r) (tg_results g),
            tg_updatedAt := now, tg_failureLogged := tg_failureLogged g \<or> \<not> hr_success (completed_result rt now input r)\<rparr>) ?s"
    then obtain g h r where g: "jm_get (pt_groups ?s) ?gid = Some g" and r: "find (is_result_of ?tid h) (tg_results g) = Some r"
      and nt: "\<not> isTerminalTaskStatus (hr_status r)"
      and eq: "s' = put_group now ?gid (g\<lparr>tg_results := update_first (is_result_of ?tid h) (\<lambda>_. completed_result rt now input r) (tg_results g),
            tg_updatedAt := now, tg_failureLogged := tg_failureLogged g \<or> \<not> hr_success (completed_result rt now input r)\<rparr>) ?s" by blast
    note ok = expire_ok [OF assms, of now]
    have "\<not> tg_done g" using tasks_okD(4) [OF ok g] find_P [OF r] nt by (auto simp: group_ok_def)
    then have "tasks_ok s'" unfolding eq by (rule put_group_ok [OF ok g]) simp_all
    moreover have "list_all2 forward (tg_results g)
        (update_first (is_result_of ?tid h) (\<lambda>_. completed_result rt now input r) (tg_results g))"
      by (rule update_first_forward [OF r]) (rule completed_forward [OF nt])
    then have "groups_keep ?s s'" unfolding eq by (intro groups_keep_put [OF g]) (simp add: group_forward_def)
    ultimately show "tasks_ok s' \<and> groups_keep ?s s'" ..
  qed
qed


lemma enqueue_queues:
  "queues_ok qs \<Longrightarrow> queues_ok (foldl (\<lambda>qs (h, name). push_task h (task h) qs) qs hosts)"
  by (induction hosts arbitrary: qs) (auto simp: queues_ok_push)

lemma enqueue_group_ok:
  assumes ok: "tasks_ok s" and fresh: "jm_get (pt_groups s) gid = None"
  shows "tasks_ok (snd (enqueuePluginAgentTaskGroup now gid f input s))
    \<and> groups_keep (expireOverdueGroups now s) (snd (enqueuePluginAgentTaskGroup now gid f input s))"
proof (cases "check_input input")
  case (Some e)
  then show ?thesis using expire_ok [OF ok] by (simp add: enqueuePluginAgentTaskGroup_def Let_def groups_keep_same)
next
  case None
  let ?s = "expireOverdueGroups now s" and ?hosts = "unique_hosts (gi_hosts input)"
  define timers where "timers = set_timer (now + clampTaskTimeout (gi_timeoutMs input) + task_dispatch_grace_ms + group_timeout_grace_ms) gid (pt_timers ?s)"
  define s' where "s' = snd (enqueuePluginAgentTaskGroup now gid f input s)"
  obtain g where g: "pt_groups s' = jm_set gid g (pt_groups ?s)" "tg_total g = length ?hosts"
      "tg_results g = map (\<lambda>(h, name). queued_result now h name (f h)) ?hosts" "tg_timeoutTimer g = Some (fst timers)"
      "\<not> tg_done g" "tg_completed g = 0" "tg_status g = GQueued"
    and s': "pt_timers s' = snd timers"
      "pt_queues s' = foldl (\<lambda>qs (h, name). push_task h (input_task now gid input (f h)) qs) (pt_queues ?s) ?hosts"
    using None by (simp add: s'_def timers_def enqueuePluginAgentTaskGroup_def Let_def case_prod_unfold)
  have ne: "?hosts \<noteq> []" using None by (simp add: check_input_def split: if_splits)
  have st: "hr_status r = TQueued" if "r \<in> set (tg_results g)" for r
    using that by (auto simp: g(3) queued_result_def)
  have "group_ok g"
    unfolding group_ok_def
  proof (intro conjI)
    show "tg_total g = length (tg_results g)" "tg_results g \<noteq> []" using ne by (simp_all add: g(2,3))
    have "hd (tg_results g) \<in> set (tg_results g)" using ne by (intro hd_in_set) (simp add: g(3))
    then have some: "\<exists>r \<in> set (tg_results g). \<not> isTerminalTaskStatus (hr_status r)"
      using st by (auto simp: isTerminalTaskStatus_def intro!: bexI [of _ "hd (tg_results g)"])
    then show "tg_done g = (\<forall>r \<in> set (tg_results g). isTerminalTaskStatus (hr_status r))" using g(5) by blast
    show "tg_status g = status_of_results (tg_results g)"
      using some st by (auto simp: status_of_results_def g(7))
    show "tg_completed g = count_status isTerminalTaskStatus (tg_results g)"
      using st by (auto simp: count_status_def g(6) filter_empty_conv isTerminalTaskStatus_def)
    show "(tg_timeoutTimer g = None) = tg_done g" using g(4,5) by simp
  qed
  note ok1 = expire_ok [OF ok, of now]
  have none: "jm_get (pt_groups ?s) gid = None" using fresh by (simp add: expire_get [OF ok])
  have own: "group_timer s' = (group_timer ?s)(gid \<mapsto> fst timers)"
    by (auto simp: fun_eq_iff group_timer_def g(1,4))
  have "js_timers.matches id (group_timer s') (pt_timers s')"
    unfolding own s'(1) timers_def using none
    by (intro js_timers.matches_arm [OF tasks_okD(3) [OF ok1]]) (simp_all add: group_timer_def)
  moreover have "groups_ok (pt_groups s')" unfolding g(1) by (rule groups_ok_set [OF tasks_okD(2) [OF ok1] \<open>group_ok g\<close>])
  moreover have "queues_ok (pt_queues s')" unfolding s'(2) by (rule enqueue_queues [OF tasks_okD(1) [OF ok1]])
  ultimately have "tasks_ok s'" unfolding tasks_ok_def by blast
  moreover have "groups_keep ?s s'" unfolding groups_keep_def g(1) using none by auto
  ultimately show ?thesis unfolding s'_def ..
qed

section \<open>Histories\<close>

datatype plugin_op =
    EnqueueGroup string "int \<Rightarrow> string" group_input
  | TakeTasks jsval int "agent_task \<Rightarrow> bool"
  | HasQueued jsval
  | CompleteTask jsval task_report
  | QueryGroup jsval
  | GroupTimer nat

fun plugin_step :: "js_runtime \<Rightarrow> int \<Rightarrow> plugin_op \<Rightarrow> plugin_tasks \<Rightarrow> plugin_tasks" where
  "plugin_step rt now (EnqueueGroup gid f input) s = snd (enqueuePluginAgentTaskGroup now gid f input s)"
| "plugin_step rt now (TakeTasks v limit canTake) s = snd (takePluginAgentTasks rt now v limit canTake s)"
| "plugin_step rt now (HasQueued v) s = snd (hasQueuedPluginAgentTasks now v s)"
| "plugin_step rt now (CompleteTask v input) s = snd (completePluginAgentTask rt now v input s)"
| "plugin_step rt now (QueryGroup v) s = snd (getPluginAgentTaskGroup now v s)"
| "plugin_step rt now (GroupTimer i) s = group_timeout rt now i s"

definition plugin_run :: "js_runtime \<Rightarrow> (int \<times> plugin_op) list \<Rightarrow> plugin_tasks" where
  "plugin_run rt ops = foldl (\<lambda>s (now, op). plugin_step rt now op s) no_plugin_tasks ops"

fun created_groups :: "plugin_op \<Rightarrow> string list" where
  "created_groups (EnqueueGroup gid f input) = [gid]"
| "created_groups _ = []"

definition fresh_groups :: "(int \<times> plugin_op) list \<Rightarrow> bool" where
  "fresh_groups ops \<longleftrightarrow> distinct (concat (map (\<lambda>(now, op). created_groups op) ops))"

lemma plugin_run_snoc: "plugin_run rt (ops @ [(now, op)]) = plugin_step rt now op (plugin_run rt ops)"
  by (simp add: plugin_run_def)

lemma expire_known: "gid \<in> set (jm_keys (pt_groups (expireOverdueGroups now s))) \<Longrightarrow> gid \<in> set (jm_keys (pt_groups s))"
  by (auto simp: expireOverdueGroups_def Let_def jm_prune_def)

lemma put_group_known:
  assumes "jm_get (pt_groups s) gid = Some g0"
  shows "set (jm_keys (pt_groups (put_group now gid g s))) = set (jm_keys (pt_groups s))"
proof -
  have "gid \<in> set (jm_keys (pt_groups s))" using assms jm_get_None_iff [of "pt_groups s" gid] by (metis option.distinct(1))
  then show ?thesis unfolding put_group_def Let_def by (simp add: jm_keys_set insert_absorb del: set_map)
qed

lemma mark_dispatched_known: "set (jm_keys (pt_groups (mark_dispatched rt now h s t))) = set (jm_keys (pt_groups s))"
  unfolding mark_dispatched_def
  by (auto split: option.split simp: put_group_known simp del: set_map)

lemma mark_dispatched_fold_known:
  "set (jm_keys (pt_groups (foldl (mark_dispatched rt now h) s ts))) = set (jm_keys (pt_groups s))"
  by (induction ts arbitrary: s) (simp_all add: mark_dispatched_known del: set_map)

lemma plugin_step_known:
  "set (jm_keys (pt_groups (plugin_step rt now op s))) \<subseteq> set (jm_keys (pt_groups s)) \<union> set (created_groups op)"
proof (cases op)
  case (EnqueueGroup gid f input)
  then show ?thesis
    using expire_known [of _ now s]
    by (auto simp: enqueuePluginAgentTaskGroup_def Let_def case_prod_unfold jm_keys_set simp del: set_map split: option.split)
next
  case (TakeTasks v limit canTake)
  then show ?thesis
    using expire_known [of _ now s]
    by (auto simp: takePluginAgentTasks_def Let_def case_prod_unfold mark_dispatched_fold_known simp del: set_map split: option.split)
next
  case (HasQueued v)
  then show ?thesis using expire_known [of _ now s] by (auto simp: hasQueuedPluginAgentTasks_def Let_def simp del: set_map)
next
  case (CompleteTask v input)
  then show ?thesis
    using expire_known [of _ now s]
    by (auto simp: completePluginAgentTask_def Let_def put_group_known simp del: set_map split: option.split)
next
  case (QueryGroup v)
  then show ?thesis using expire_known [of _ now s] by (auto simp: getPluginAgentTaskGroup_def Let_def simp del: set_map)
next
  case (GroupTimer i)
  then show ?thesis
    by (auto simp: group_timeout_def markGroupTimedOut_def Let_def put_group_known
        simp del: set_map split: option.split)
qed

lemma plugin_step_ok:
  assumes "tasks_ok s" "\<forall>gid \<in> set (created_groups op). jm_get (pt_groups s) gid = None"
  shows "tasks_ok (plugin_step rt now op s)"
  using assms expire_ok
  by (cases op) (simp_all add: enqueue_group_ok take_ok complete_ok group_timeout_ok hasQueuedPluginAgentTasks_def
      getPluginAgentTaskGroup_def Let_def)

lemma plugin_run_ok:
  assumes "fresh_groups ops"
  shows "tasks_ok (plugin_run rt ops)
    \<and> set (jm_keys (pt_groups (plugin_run rt ops))) \<subseteq> set (concat (map (\<lambda>(now, op). created_groups op) ops))"
  using assms
proof (induction ops rule: rev_induct)
  case Nil
  have "group_timer no_plugin_tasks = (\<lambda>_. None)" by (simp add: fun_eq_iff group_timer_def no_plugin_tasks_def)
  then have "tasks_ok no_plugin_tasks" unfolding tasks_ok_def
    by (simp add: no_plugin_tasks_def queues_ok_def groups_ok_def timers_match_init)
  then show ?case by (simp add: plugin_run_def no_plugin_tasks_def)
next
  case (snoc x ops)
  obtain now op where x: "x = (now, op)" by (cases x)
  have "fresh_groups ops" using snoc.prems by (simp add: fresh_groups_def)
  note IH = snoc.IH [OF this]
  have "gid \<notin> set (jm_keys (pt_groups (plugin_run rt ops)))" if "gid \<in> set (created_groups op)" for gid
    using snoc.prems IH that by (auto simp: fresh_groups_def x simp del: set_map)
  then have "\<forall>gid \<in> set (created_groups op). jm_get (pt_groups (plugin_run rt ops)) gid = None"
    by (simp add: jm_get_None_iff del: set_map)
  then have "tasks_ok (plugin_step rt now op (plugin_run rt ops))" using plugin_step_ok IH by blast
  then show ?case using plugin_step_known [of rt now op "plugin_run rt ops"] IH
    by (auto simp: x plugin_run_snoc simp del: set_map)
qed


text \<open>
  C19. A group always shows what its tasks show, and it always ends.  After any history in which no group identifier is
  used twice, a known group counts its terminal results, is done exactly when all are terminal, and its status is the one its
  results spell out; while it is not done its timer runs, and when that timer fires the group is done, its results that were
  terminal are unchanged, the others are timed out, and none of its tasks is queued any more.
\<close>

theorem plugin_group_consistent:
  fixes rt :: js_runtime and ops :: "(int \<times> plugin_op) list"
  defines "s \<equiv> plugin_run rt ops"
  assumes "fresh_groups ops" and "jm_get (pt_groups s) gid = Some g"
  shows "tg_total g = length (tg_results g) \<and> tg_completed g = count_status isTerminalTaskStatus (tg_results g)
    \<and> tg_done g = (\<forall>r \<in> set (tg_results g). isTerminalTaskStatus (hr_status r))
    \<and> tg_status g = status_of_results (tg_results g)
    \<and> (\<not> tg_done g \<longrightarrow> (\<exists>i due. live_timer (pt_timers s) i = Some (due, gid)
         \<and> (\<exists>g'. jm_get (pt_groups (group_timeout rt now i s)) gid = Some g' \<and> tg_done g'
               \<and> tg_results g' = map (timed_out_result rt now) (tg_results g)
               \<and> (\<forall>r \<in> set (tg_results g). isTerminalTaskStatus (hr_status r) \<longrightarrow> timed_out_result rt now r = r)
               \<and> (\<forall>r \<in> set (tg_results g). \<not> isTerminalTaskStatus (hr_status r) \<longrightarrow>
                    hr_status (timed_out_result rt now r) = TTimeout))
         \<and> (\<forall>h. \<forall>t \<in> set (queue_of (group_timeout rt now i s) h). at_groupId t \<noteq> gid)))"
proof -
  have ok: "tasks_ok s" using plugin_run_ok [OF assms(2)] by (simp add: s_def)
  have gok: "group_ok g" by (rule tasks_okD(4) [OF ok assms(3)])
  have "\<exists>i due. live_timer (pt_timers s) i = Some (due, gid)
         \<and> (\<exists>g'. jm_get (pt_groups (group_timeout rt now i s)) gid = Some g' \<and> tg_done g'
               \<and> tg_results g' = map (timed_out_result rt now) (tg_results g))
         \<and> (\<forall>h. \<forall>t \<in> set (queue_of (group_timeout rt now i s) h). at_groupId t \<noteq> gid)" if nd: "\<not> tg_done g"
  proof -
    obtain i where i: "group_timer s gid = Some i"
      using gok nd assms(3) by (auto simp: group_ok_def group_timer_def)
    obtain due where due: "live_timer (pt_timers s) i = Some (due, gid)"
      using js_timers.matches_live [OF tasks_okD(3) [OF ok] i] by auto
    let ?g = "g\<lparr>tg_results := map (timed_out_result rt now) (tg_results g), tg_updatedAt := now\<rparr>"
    obtain g0 where "jm_get (pt_groups s) gid = Some g0"
      and eq: "group_timeout rt now i s = put_group now gid
       (g0\<lparr>tg_results := map (timed_out_result rt now) (tg_results g0), tg_updatedAt := now\<rparr>)
       (s\<lparr>pt_queues := removeQueuedTasks gid (pt_queues s)\<rparr>)"
      using timeout_put [where rt = rt and now = now, OF ok due] by blast
    then have eq: "group_timeout rt now i s = put_group now gid ?g (s\<lparr>pt_queues := removeQueuedTasks gid (pt_queues s)\<rparr>)"
      using assms(3) by simp
    have "tg_done (refreshGroup now ?g)"
      using gok count_status_all [of "map (timed_out_result rt now) (tg_results g)"]
      by (simp add: refreshGroup_done timed_out_terminal group_ok_def)
    moreover have "at_groupId t \<noteq> gid" if "t \<in> set (queue_of (group_timeout rt now i s) h)" for h t
    proof -
      have "jm_ok (pt_queues s)" using tasks_okD(1) [OF ok] by (simp add: queues_ok_def)
      then show ?thesis using that unfolding eq
        by (auto simp: queue_of_def removeQueuedTasks_get split: option.splits if_splits)
    qed
    ultimately show ?thesis using due by (intro exI [of _ i] exI [of _ due]) (auto simp: eq)
  qed
  moreover have "isTerminalTaskStatus (hr_status r) \<Longrightarrow> timed_out_result rt now r = r"
    "\<not> isTerminalTaskStatus (hr_status r) \<Longrightarrow> hr_status (timed_out_result rt now r) = TTimeout" for r
    by (simp_all add: timed_out_result_def)
  ultimately show ?thesis using gok unfolding group_ok_def by blast
qed

text \<open>A request of one host, for the witnesses.\<close>

definition sample_input :: group_input where
  "sample_input = \<lparr>gi_pluginId = JStr ''p'', gi_pluginVersion = JUndef, gi_actionId = JStr ''a'', gi_intent = JStr ''read'',
     gi_contextId = JUndef, gi_executor = JStr ''script'', gi_interpreter = JUndef, gi_workingDirectory = JStr ''/w'',
     gi_entry = JStr ''e'', gi_arguments = [], gi_timeoutMs = JUndef, gi_outputType = JUndef, gi_hosts = [(JNum 7, JUndef), (JNum 8, JUndef)]\<rparr>"

definition sample_runtime :: js_runtime where
  "sample_runtime = \<lparr>parse_date = (\<lambda>_. None), parse_json = (\<lambda>_. None), stringify = (\<lambda>_. [])\<rparr>"

theorem plugin_group_consistent_witness:
  "let s = plugin_run sample_runtime [(0, EnqueueGroup ''g'' int_to_str sample_input), (5, TakeTasks (JNum 7) 2 (\<lambda>_. True))]
   in (\<exists>g. jm_get (pt_groups s) ''g'' = Some g \<and> tg_status g = GRunning \<and> status_of_results (tg_results g) = GRunning)"
proof -
  let ?ops = "[(0, EnqueueGroup ''g'' int_to_str sample_input), (5, TakeTasks (JNum 7) 2 (\<lambda>_. True))]"
  define s where "s = plugin_run sample_runtime ?ops"
  have "map_option tg_status (jm_get (pt_groups s) ''g'') = Some GRunning" unfolding s_def by code_simp
  then obtain g where g: "jm_get (pt_groups s) ''g'' = Some g" "tg_status g = GRunning" by auto
  have "fresh_groups ?ops" by (simp add: fresh_groups_def)
  from plugin_group_consistent [OF this g(1) [unfolded s_def]] g show ?thesis by (auto simp: s_def [symmetric] Let_def)
qed


text \<open>Every step keeps the groups that are known, apart from the finished ones it drops when their time is over.\<close>

lemma plugin_step_keep:
  assumes ok: "tasks_ok s" and fresh: "\<forall>gid \<in> set (created_groups op). jm_get (pt_groups s) gid = None"
    and g: "jm_get (pt_groups s) gid = Some g" "\<not> (tg_done g \<and> tg_expiresAt g \<le> now)"
  shows "\<exists>g'. jm_get (pt_groups (plugin_step rt now op s)) gid = Some g' \<and> group_forward g g'"
proof -
  note keep = expire_then_keep [OF ok _ g]
  show ?thesis
  proof (cases op)
    case (EnqueueGroup gid' f input)
    then show ?thesis using keep [OF conjunct2 [OF enqueue_group_ok [OF ok]]] fresh by simp
  next
    case (TakeTasks v limit canTake)
    then show ?thesis using keep [OF conjunct2 [OF take_ok [OF ok]]] by simp
  next
    case (HasQueued v)
    then show ?thesis using keep [OF groups_keep_same] by (simp add: hasQueuedPluginAgentTasks_def Let_def)
  next
    case (CompleteTask v input)
    then show ?thesis using keep [OF conjunct2 [OF complete_ok [OF ok]]] by simp
  next
    case (QueryGroup v)
    then show ?thesis using keep [OF groups_keep_same] by (simp add: getPluginAgentTaskGroup_def Let_def)
  next
    case (GroupTimer i)
    then show ?thesis using conjunct2 [OF group_timeout_ok [OF ok], of rt now i] g(1) unfolding groups_keep_def by simp
  qed
qed

lemma find_update_first: "find P rs = Some r \<Longrightarrow> P (f r) \<Longrightarrow> find P (update_first P f rs) = Some (f r)"
  by (induction rs) (auto split: if_splits)

lemma complete_terminal:
  assumes "fst (completePluginAgentTask rt now v input s)" "host_number v = Some h"
  defines "gid \<equiv> normalizeText (rp_groupId input) 64" and "tid \<equiv> normalizeText (rp_taskId input) 64"
  shows "\<exists>g r. jm_get (pt_groups (snd (completePluginAgentTask rt now v input s))) gid = Some g
     \<and> find (is_result_of tid h) (tg_results g) = Some r \<and> isTerminalTaskStatus (hr_status r)"
proof -
  let ?s = "expireOverdueGroups now s"
  obtain g r where g: "jm_get (pt_groups ?s) gid = Some g" "find (is_result_of tid h) (tg_results g) = Some r"
    and c: "completePluginAgentTask rt now v input s = (if isTerminalTaskStatus (hr_status r) then (True, ?s)
       else (True, put_group now gid (g\<lparr>tg_results := update_first (is_result_of tid h) (\<lambda>_. completed_result rt now input r) (tg_results g),
              tg_updatedAt := now, tg_failureLogged := tg_failureLogged g \<or> \<not> hr_success (completed_result rt now input r)\<rparr>) ?s))"
    using assms(1,2) by (auto simp: completePluginAgentTask_def Let_def gid_def tid_def split: option.splits if_splits)
  show ?thesis
  proof (cases "isTerminalTaskStatus (hr_status r)")
    case True
    then show ?thesis using g c by auto
  next
    case False
    have "is_result_of tid h (completed_result rt now input r)" using find_P [OF g(2)] by (simp add: is_result_of_def completed_fields)
    then have "find (is_result_of tid h) (update_first (is_result_of tid h) (\<lambda>_. completed_result rt now input r) (tg_results g))
        = Some (completed_result rt now input r)" using find_update_first [OF g(2), of "\<lambda>_. completed_result rt now input r"] by simp
    then show ?thesis using False by (simp add: c isTerminalTaskStatus_def completed_fields)
  qed
qed

text \<open>
  A task only goes forward, and an accepted answer is final.  In any history in which no group identifier is used twice,
  a step leaves every known group in place, unless it is done and its fifteen minutes are over; its results stay those of the same tasks and hosts in
  the same order, no status goes back from terminal or from running, and a terminal result never changes again.  A
  report that is accepted leaves its task terminal.
\<close>

theorem plugin_tasks_forward:
  fixes rt :: js_runtime and ops :: "(int \<times> plugin_op) list"
  assumes "fresh_groups (ops @ [(now, op)])"
    and "jm_get (pt_groups (plugin_run rt ops)) gid = Some g"
  shows "((tg_done g \<and> tg_expiresAt g \<le> now)
       \<or> (\<exists>g'. jm_get (pt_groups (plugin_run rt (ops @ [(now, op)]))) gid = Some g'
            \<and> list_all2 (\<lambda>r r'. hr_taskId r' = hr_taskId r \<and> hr_hostId r' = hr_hostId r
                 \<and> status_rank (hr_status r) \<le> status_rank (hr_status r')
                 \<and> (isTerminalTaskStatus (hr_status r) \<longrightarrow> r' = r)) (tg_results g) (tg_results g')))
    \<and> (\<forall>v input h. op = CompleteTask v input \<and> host_number v = Some h
         \<and> fst (completePluginAgentTask rt now v input (plugin_run rt ops)) \<longrightarrow>
         (\<exists>g' r. jm_get (pt_groups (plugin_run rt (ops @ [(now, op)]))) (normalizeText (rp_groupId input) 64) = Some g'
            \<and> find (is_result_of (normalizeText (rp_taskId input) 64) h) (tg_results g') = Some r
            \<and> isTerminalTaskStatus (hr_status r)))"
proof (intro conjI allI impI)
  let ?s = "plugin_run rt ops"
  have fr: "fresh_groups ops" using assms(1) by (simp add: fresh_groups_def)
  note run = plugin_run_ok [OF fr, of rt]
  have fresh: "\<forall>gid \<in> set (created_groups op). jm_get (pt_groups ?s) gid = None"
    using assms(1) run by (auto simp: fresh_groups_def jm_get_None_iff simp del: set_map)
  have weaken: "list_all2 forward rs rs' \<Longrightarrow>
      list_all2 (\<lambda>r r'. hr_taskId r' = hr_taskId r \<and> hr_hostId r' = hr_hostId r
                 \<and> status_rank (hr_status r) \<le> status_rank (hr_status r')
                 \<and> (isTerminalTaskStatus (hr_status r) \<longrightarrow> r' = r)) rs rs'" for rs rs'
    by (erule list_all2_mono) (auto simp: forward_def split: if_splits)
  show "(tg_done g \<and> tg_expiresAt g \<le> now)
       \<or> (\<exists>g'. jm_get (pt_groups (plugin_run rt (ops @ [(now, op)]))) gid = Some g'
            \<and> list_all2 (\<lambda>r r'. hr_taskId r' = hr_taskId r \<and> hr_hostId r' = hr_hostId r
                 \<and> status_rank (hr_status r) \<le> status_rank (hr_status r')
                 \<and> (isTerminalTaskStatus (hr_status r) \<longrightarrow> r' = r)) (tg_results g) (tg_results g'))"
    using plugin_step_keep [OF conjunct1 [OF run] fresh assms(2)] weaken
    unfolding plugin_run_snoc group_forward_def by blast
next
  fix v input h
  assume c: "op = CompleteTask v input \<and> host_number v = Some h
         \<and> fst (completePluginAgentTask rt now v input (plugin_run rt ops))"
  then show "\<exists>g' r. jm_get (pt_groups (plugin_run rt (ops @ [(now, op)]))) (normalizeText (rp_groupId input) 64) = Some g'
            \<and> find (is_result_of (normalizeText (rp_taskId input) 64) h) (tg_results g') = Some r
            \<and> isTerminalTaskStatus (hr_status r)"
    using complete_terminal [of rt now v input "plugin_run rt ops" h] by (simp add: plugin_run_snoc)
qed

theorem plugin_tasks_forward_witness:
  "\<exists>g'. jm_get (pt_groups (plugin_run sample_runtime [(0, EnqueueGroup ''g'' int_to_str sample_input), (5, GroupTimer 0)])) ''g'' = Some g'
     \<and> length (tg_results g') = 2"
proof -
  let ?ops = "[(0, EnqueueGroup ''g'' int_to_str sample_input)]"
  have "map_option (\<lambda>g. (tg_done g, length (tg_results g))) (jm_get (pt_groups (plugin_run sample_runtime ?ops)) ''g'') = Some (False, 2)"
    by code_simp
  then obtain g where g: "jm_get (pt_groups (plugin_run sample_runtime ?ops)) ''g'' = Some g" "\<not> tg_done g" "length (tg_results g) = 2"
    by auto
  have "fresh_groups (?ops @ [(5, GroupTimer 0)])" by (simp add: fresh_groups_def)
  from plugin_tasks_forward [OF this g(1)] g(2,3) show ?thesis by (auto dest: list_all2_lengthD)
qed

section \<open>Every task is handed out at most once\<close>

text \<open>The queued tasks with their hosts, the ones a history created, and the ones it handed out.\<close>

definition queued_tasks :: "(int, agent_task list) jmap \<Rightarrow> (int \<times> string) multiset" where
  "queued_tasks queues = mset (concat (map (\<lambda>(h, q). map (\<lambda>t. (h, at_taskId t)) q) queues))"

fun created_tasks :: "plugin_op \<Rightarrow> (int \<times> string) list" where
  "created_tasks (EnqueueGroup gid f input) =
     (if check_input input = None then map (\<lambda>(h, name). (h, f h)) (unique_hosts (gi_hosts input)) else [])"
| "created_tasks _ = []"

fun handed_out :: "js_runtime \<Rightarrow> int \<Rightarrow> plugin_op \<Rightarrow> plugin_tasks \<Rightarrow> (int \<times> string) list" where
  "handed_out rt now (TakeTasks v limit canTake) s =
     (case host_number v of None \<Rightarrow> []
      | Some h \<Rightarrow> map (\<lambda>t. (h, at_taskId t)) (fst (takePluginAgentTasks rt now v limit canTake s)))"
| "handed_out rt now _ s = []"

fun dispatch_log :: "js_runtime \<Rightarrow> (int \<times> plugin_op) list \<Rightarrow> plugin_tasks \<Rightarrow> (int \<times> string) list" where
  "dispatch_log rt [] s = []"
| "dispatch_log rt ((now, op) # ops) s = handed_out rt now op s @ dispatch_log rt ops (plugin_step rt now op s)"

definition tagged :: "int \<Rightarrow> agent_task list \<Rightarrow> (int \<times> string) multiset" where
  "tagged h q = mset (map (\<lambda>t. (h, at_taskId t)) q)"

lemma queued_tasks_Cons: "queued_tasks ((h, q) # qs) = tagged h q + queued_tasks qs"
  by (simp add: queued_tasks_def tagged_def)

lemma queued_tasks_set:
  "queued_tasks (jm_set h q qs) + tagged h (case jm_get qs h of Some old \<Rightarrow> old | None \<Rightarrow> []) = queued_tasks qs + tagged h q"
proof (induction qs)
  case Nil
  then show ?case by (simp add: queued_tasks_def tagged_def)
next
  case (Cons e qs)
  then show ?case by (cases e) (auto simp: queued_tasks_Cons)
qed

lemma queued_tasks_del:
  "jm_ok qs \<Longrightarrow> queued_tasks (jm_del h qs) + tagged h (case jm_get qs h of Some old \<Rightarrow> old | None \<Rightarrow> []) = queued_tasks qs"
proof (induction qs)
  case Nil
  then show ?case by (simp add: queued_tasks_def tagged_def)
next
  case (Cons e qs)
  obtain a q where e: "e = (a, q)" by (cases e)
  have "jm_get qs a = None" "jm_del a qs = qs" using Cons.prems e by (auto simp: map_of_eq_None_iff delete_conv' intro: delete_id)
  then show ?case using Cons e by (auto simp: queued_tasks_Cons)
qed


lemma tagged_append: "tagged h (a @ b) = tagged h a + tagged h b"
  by (simp add: tagged_def)

lemma tagged_mono: "mset a \<subseteq># mset b \<Longrightarrow> tagged h a \<subseteq># tagged h b"
  by (simp add: tagged_def image_mset_subseteq_mono)

lemma push_task_queued: "queued_tasks (push_task h t qs) \<subseteq># queued_tasks qs + {#(h, at_taskId t)#}"
proof -
  define old where "old = (case jm_get qs h of Some q \<Rightarrow> q | None \<Rightarrow> [])"
  define q where "q = drop (length (old @ [t]) - max_tasks_per_host) (old @ [t])"
  have eq: "queued_tasks (push_task h t qs) + tagged h old = queued_tasks qs + tagged h q"
    using queued_tasks_set [of h q qs] by (simp add: push_task_def old_def q_def Let_def)
  have "mset q \<subseteq># mset (old @ [t])" unfolding q_def by (metis append_take_drop_id mset_append mset_subset_eq_add_right)
  then have "tagged h q \<subseteq># tagged h old + {#(h, at_taskId t)#}"
    using tagged_mono [of q "old @ [t]" h] by (simp add: tagged_def)
  then have "queued_tasks (push_task h t qs) + tagged h old \<subseteq># (queued_tasks qs + {#(h, at_taskId t)#}) + tagged h old"
    unfolding eq by (simp add: subset_mset.add_mono ac_simps)
  then show ?thesis by (simp only: mset_subset_eq_mono_add_right_cancel)
qed

lemma enqueue_queued:
  "queued_tasks (foldl (\<lambda>qs (h, name). push_task h (input_task now gid input (f h)) qs) qs hosts)
     \<subseteq># queued_tasks qs + mset (map (\<lambda>(h, name). (h, f h)) hosts)"
proof (induction hosts arbitrary: qs)
  case Nil
  then show ?case by simp
next
  case (Cons e hosts)
  obtain h name where e: "e = (h, name)" by (cases e)
  let ?qs = "push_task h (input_task now gid input (f h)) qs"
  have "queued_tasks ?qs \<subseteq># queued_tasks qs + {#(h, f h)#}"
    using push_task_queued [of h "input_task now gid input (f h)" qs] by (simp add: input_task_def)
  then have "queued_tasks ?qs + mset (map (\<lambda>(h, name). (h, f h)) hosts)
     \<subseteq># queued_tasks qs + {#(h, f h)#} + mset (map (\<lambda>(h, name). (h, f h)) hosts)"
    by (rule subset_mset.add_right_mono)
  from subset_mset.order_trans [OF Cons.IH [of ?qs] this] show ?case by (simp add: e)
qed

lemma remove_queued: "queued_tasks (removeQueuedTasks gid qs) \<subseteq># queued_tasks qs"
proof (induction qs)
  case Nil
  then show ?case by (simp add: removeQueuedTasks_def)
next
  case (Cons e qs)
  obtain h q where e: "e = (h, q)" by (cases e)
  let ?q = "filter (\<lambda>t. at_groupId t \<noteq> gid) q"
  have le: "tagged h ?q \<subseteq># tagged h q" by (rule tagged_mono) simp
  have "queued_tasks (removeQueuedTasks gid (e # qs)) = tagged h ?q + queued_tasks (removeQueuedTasks gid qs)"
    by (cases "?q = []") (simp_all add: e removeQueuedTasks_def queued_tasks_Cons tagged_def)
  then show ?case using subset_mset.add_mono [OF le Cons.IH] by (simp add: e queued_tasks_Cons)
qed

lemma take_queued:
  assumes "jm_ok (pt_queues s)" "host_number v = Some h"
  shows "queued_tasks (pt_queues (snd (takePluginAgentTasks rt now v limit canTake s)))
      + tagged h (fst (takePluginAgentTasks rt now v limit canTake s)) = queued_tasks (pt_queues s)"
proof -
  define n where "n = nat (max 1 (min 8 (if limit = 0 then 2 else limit)))"
  obtain tasks rest where sp: "split_tasks n canTake (queue_of s h) = (tasks, rest)" by (cases "split_tasks n canTake (queue_of s h)")
  have same: "pt_queues (mark_dispatched rt now h u t) = pt_queues u" for u t
    by (auto simp: mark_dispatched_def split: option.split)
  have fold: "pt_queues (foldl (mark_dispatched rt now h) u ts) = pt_queues u" for u ts
    by (induction ts arbitrary: u) (simp_all add: same)
  have eq: "takePluginAgentTasks rt now v limit canTake s
      = (tasks, foldl (mark_dispatched rt now h) (put_queue h rest (expireOverdueGroups now s)) tasks)"
    using sp by (simp add: take_eq [OF assms(2)] Let_def n_def [symmetric])
  have "tagged h tasks + tagged h rest = tagged h (queue_of s h)"
    using split_tasks_mset [OF sp] by (simp add: tagged_def flip: image_mset_union)
  moreover have "queued_tasks (pt_queues (put_queue h rest (expireOverdueGroups now s))) + tagged h (queue_of s h)
      = queued_tasks (pt_queues s) + tagged h rest"
    using queued_tasks_set [of h rest "pt_queues s"] queued_tasks_del [OF assms(1), of h]
    by (cases "rest = []") (simp_all add: put_queue_def queue_of_def expire_queues tagged_def)
  ultimately have "queued_tasks (pt_queues (put_queue h rest (expireOverdueGroups now s))) + tagged h tasks + tagged h rest
      = queued_tasks (pt_queues s) + tagged h rest"
    by (metis union_assoc)
  then show ?thesis by (simp add: eq fold)
qed

lemma jm_ok_remove: "jm_ok qs \<Longrightarrow> jm_ok (removeQueuedTasks gid qs)"
  unfolding removeQueuedTasks_def jm_ok_def
  by (rule distinct_map_filter) (simp add: case_prod_unfold comp_def)

lemma jm_ok_enqueue: "jm_ok qs \<Longrightarrow> jm_ok (foldl (\<lambda>qs (h, name). push_task h (task h) qs) qs hosts)"
  by (induction hosts arbitrary: qs) (auto simp: push_task_def Let_def)

lemma take_queues_ok: "jm_ok (pt_queues s) \<Longrightarrow> jm_ok (pt_queues (snd (takePluginAgentTasks rt now v limit canTake s)))"
proof (cases "host_number v")
  case (Some h)
  have same: "pt_queues (mark_dispatched rt now h u t) = pt_queues u" for u t
    by (auto simp: mark_dispatched_def split: option.split)
  have fold: "pt_queues (foldl (mark_dispatched rt now h) u ts) = pt_queues u" for u ts
    by (induction ts arbitrary: u) (simp_all add: same)
  show "jm_ok (pt_queues s) \<Longrightarrow> ?thesis"
    by (simp add: take_eq [OF Some] Let_def case_prod_unfold fold put_queue_def expire_queues)
qed (simp add: takePluginAgentTasks_def Let_def expire_queues)

lemma plugin_step_queued:
  assumes "jm_ok (pt_queues s)"
  shows "jm_ok (pt_queues (plugin_step rt now op s))
    \<and> queued_tasks (pt_queues (plugin_step rt now op s)) + mset (handed_out rt now op s)
       \<subseteq># queued_tasks (pt_queues s) + mset (created_tasks op)"
proof (cases op)
  case (EnqueueGroup gid f input)
  show ?thesis
  proof (cases "check_input input")
    case None
    have eq: "pt_queues (plugin_step rt now op s) = foldl (\<lambda>qs (h, name). push_task h (input_task now gid input (f h)) qs)
        (pt_queues s) (unique_hosts (gi_hosts input))"
      using None EnqueueGroup by (simp add: enqueuePluginAgentTaskGroup_def Let_def case_prod_unfold expire_queues)
    show ?thesis unfolding eq using EnqueueGroup None assms enqueue_queued by (simp add: jm_ok_enqueue)
  next
    case (Some e)
    then show ?thesis using EnqueueGroup assms by (simp add: enqueuePluginAgentTaskGroup_def Let_def expire_queues)
  qed
next
  case (TakeTasks v limit canTake)
  show ?thesis
  proof (cases "host_number v")
    case None
    then show ?thesis using TakeTasks assms by (simp add: takePluginAgentTasks_def Let_def expire_queues)
  next
    case (Some h)
    then show ?thesis using TakeTasks take_queued [OF assms Some, of rt now limit canTake] take_queues_ok [OF assms]
      by (simp add: tagged_def)
  qed
next
  case (HasQueued v)
  then show ?thesis using assms by (simp add: hasQueuedPluginAgentTasks_def Let_def expire_queues)
next
  case (CompleteTask v input)
  then have "pt_queues (plugin_step rt now op s) = pt_queues s"
    by (auto simp: completePluginAgentTask_def Let_def expire_queues split: option.split)
  then show ?thesis using assms CompleteTask by simp
next
  case (QueryGroup v)
  then show ?thesis using assms by (simp add: getPluginAgentTaskGroup_def Let_def expire_queues)
next
  case (GroupTimer i)
  then have "pt_queues (plugin_step rt now op s) = pt_queues s
      \<or> (\<exists>gid. pt_queues (plugin_step rt now op s) = removeQueuedTasks gid (pt_queues s))"
    by (auto simp: group_timeout_def markGroupTimedOut_def Let_def split: option.split)
  then show ?thesis using assms jm_ok_remove remove_queued GroupTimer by auto
qed

lemma dispatch_log_bound:
  "jm_ok (pt_queues s) \<Longrightarrow>
   mset (dispatch_log rt ops s) \<subseteq># queued_tasks (pt_queues s) + mset (concat (map (\<lambda>(now, op). created_tasks op) ops))"
proof (induction ops arbitrary: s)
  case Nil
  then show ?case by simp
next
  case (Cons x ops)
  obtain now op where x: "x = (now, op)" by (cases x)
  let ?s = "plugin_step rt now op s" and ?c = "mset (concat (map (\<lambda>(now, op). created_tasks op) ops))"
  note st = plugin_step_queued [OF Cons.prems, of rt now op]
  have "mset (dispatch_log rt ops ?s) + mset (handed_out rt now op s) \<subseteq># (queued_tasks (pt_queues ?s) + ?c) + mset (handed_out rt now op s)"
    using Cons.IH [OF conjunct1 [OF st]] by (rule subset_mset.add_right_mono)
  also have "\<dots> = (queued_tasks (pt_queues ?s) + mset (handed_out rt now op s)) + ?c" by (simp add: ac_simps)
  also have "\<dots> \<subseteq># (queued_tasks (pt_queues s) + mset (created_tasks op)) + ?c"
    using conjunct2 [OF st] by (rule subset_mset.add_right_mono)
  finally show ?case by (simp add: x ac_simps)
qed

lemma distinct_mset_le:
  assumes "mset xs \<subseteq># mset ys" "distinct ys"
  shows "distinct xs"
  unfolding distinct_count_atmost_1
proof
  fix a
  have "count (mset xs) a \<le> count (mset ys) a" by (rule mset_subset_eq_count [OF assms(1)])
  moreover have "count (mset ys) a \<le> 1" using assms(2) by (simp add: distinct_count_atmost_1)
  ultimately have "count (mset xs) a = 0 \<or> count (mset xs) a = 1" by linarith
  then show "count (mset xs) a = (if a \<in> set xs then 1 else 0)" by (metis count_mset_0_iff zero_neq_one)
qed

text \<open>
  C21. A task is handed out at most once, and only to its own host.  In any history whose tasks have different
  identifiers, the pairs of host and task that polling agents were given are pairs some enqueued group created, and no
  task occurs among them twice, whatever the order of polls, completions, timeouts and discarded queues.
\<close>

theorem plugin_tasks_dispatched_once:
  fixes rt :: js_runtime and ops :: "(int \<times> plugin_op) list"
  assumes "distinct (map snd (concat (map (\<lambda>(now, op). created_tasks op) ops)))"
  shows "distinct (map snd (dispatch_log rt ops no_plugin_tasks))
    \<and> set (dispatch_log rt ops no_plugin_tasks) \<subseteq> set (concat (map (\<lambda>(now, op). created_tasks op) ops))"
proof -
  let ?c = "concat (map (\<lambda>(now, op). created_tasks op) ops)" and ?log = "dispatch_log rt ops no_plugin_tasks"
  have le: "mset ?log \<subseteq># mset ?c"
    using dispatch_log_bound [of no_plugin_tasks rt ops] by (simp add: no_plugin_tasks_def queued_tasks_def)
  then have "mset (map snd ?log) \<subseteq># mset (map snd ?c)" unfolding mset_map by (rule image_mset_subseteq_mono)
  then have "distinct (map snd ?log)" using assms by (rule distinct_mset_le)
  moreover have "set ?log \<subseteq> set ?c" using set_mset_mono [OF le] by simp
  ultimately show ?thesis ..
qed

theorem plugin_tasks_dispatched_once_witness:
  "let ops = [(0, EnqueueGroup ''g'' int_to_str sample_input), (5, TakeTasks (JNum 7) 2 (\<lambda>_. True)), (6, TakeTasks (JNum 7) 2 (\<lambda>_. True))]
   in dispatch_log sample_runtime ops no_plugin_tasks = [(7, ''7'')] \<and> distinct (map snd (dispatch_log sample_runtime ops no_plugin_tasks))"
proof -
  let ?ops = "[(0, EnqueueGroup ''g'' int_to_str sample_input), (5, TakeTasks (JNum 7) 2 (\<lambda>_. True)), (6, TakeTasks (JNum 7) 2 (\<lambda>_. True))]"
  have "distinct (map snd (concat (map (\<lambda>(now, op). created_tasks op) ?ops)))" by code_simp
  from plugin_tasks_dispatched_once [OF this, of sample_runtime] have "distinct (map snd (dispatch_log sample_runtime ?ops no_plugin_tasks))" ..
  moreover have "dispatch_log sample_runtime ?ops no_plugin_tasks = [(7, ''7'')]" by code_simp
  ultimately show ?thesis by (simp add: Let_def)
qed

end
