(* ===== verification/Tunnel_Plan.thy ===== *)
theory Tunnel_Plan
imports FX_Prelude
begin

text \<open>
  What a tunnel runs where: the exit strategies (\<open>shared/exitStrategy.ts\<close>, \<open>server/tunnelExitStrategy.ts\<close>) and the
  plans for listeners, refreshes and capabilities (\<open>server/tunnelRuntimePlan.ts\<close>).
\<close>

section \<open>Exit strategies\<close>

datatype exit_strategy = NoExits | Fallback | RoundRobin | RandomExit | IpHash

fun strategy_name :: "exit_strategy \<Rightarrow> string" where
  "strategy_name NoExits = ''none''"
| "strategy_name Fallback = ''fallback''"
| "strategy_name RoundRobin = ''round_robin''"
| "strategy_name RandomExit = ''random''"
| "strategy_name IpHash = ''ip_hash''"

definition lower_text :: "jsval \<Rightarrow> string" where
  "lower_text v = js_lower (js_trim (js_string (js_or v (JStr []))))"

definition normalizeExitGroupStrategy :: "jsval \<Rightarrow> exit_strategy" where
  "normalizeExitGroupStrategy v =
     (case find (\<lambda>st. strategy_name st = lower_text v) [NoExits, Fallback, RoundRobin, RandomExit, IpHash] of
        Some st \<Rightarrow> st | None \<Rightarrow> RoundRobin)"

definition exitGroupUsesMultipleExits :: "jsval \<Rightarrow> bool" where
  "exitGroupUsesMultipleExits v \<longleftrightarrow> normalizeExitGroupStrategy v \<noteq> NoExits"

definition forwardXExitStrategy :: "jsval \<Rightarrow> exit_strategy" where
  "forwardXExitStrategy v =
     (let strategy = normalizeExitGroupStrategy v in if strategy = NoExits then RoundRobin else strategy)"

definition shouldUseFastTunnelFailover :: "int \<Rightarrow> bool \<Rightarrow> bool" where
  "shouldUseFastTunnelFailover exitCandidateCount relayFailover \<longleftrightarrow> relayFailover \<or> 1 < exitCandidateCount"

record gost_selector =
  gs_strategy :: string
  gs_maxFails :: int
  gs_failTimeout :: string

definition gostExitSelector :: "jsval \<Rightarrow> gost_selector" where
  "gostExitSelector v =
     (let strategy = normalizeExitGroupStrategy v
      in \<lparr>gs_strategy = (if strategy = Fallback then ''fifo'' else if strategy = RandomExit then ''random''
            else if strategy = IpHash then ''hash'' else ''round''),
          gs_maxFails = 1, gs_failTimeout = (if strategy = Fallback then ''5s'' else ''15s'')\<rparr>)"

section \<open>Exit endpoints\<close>

record exit_member =
  em_hostId :: "int option"
  em_connectHost :: "string option"
  em_priority :: "rat option"
  em_isEnabled :: jsval

record exit_endpoint =
  ee_hostId :: "int option"
  ee_listenPort :: "int option"
  ee_mimicPort :: "int option"

record planned_endpoint =
  pe_hostId :: int
  pe_listenPort :: int
  pe_mimicPort :: int
  pe_connectHost :: "string option"

definition memberEnabled :: "jsval \<Rightarrow> bool" where
  "memberEnabled v =
     (case v of
        JUndef \<Rightarrow> True
      | JNull \<Rightarrow> True
      | JBool b \<Rightarrow> b
      | JNum q \<Rightarrow> q \<noteq> 0
      | JStr s \<Rightarrow> s = [] \<or> (let normalized = js_lower (js_trim s) in normalized \<noteq> ''0'' \<and> normalized \<noteq> ''false'')
      | _ \<Rightarrow> True)"

definition number_or_0 :: "'a::zero option \<Rightarrow> 'a" where
  "number_or_0 v = (case v of Some x \<Rightarrow> x | None \<Rightarrow> 0)"

definition remember_endpoint :: "(int, exit_endpoint) jmap \<Rightarrow> exit_endpoint \<Rightarrow> (int, exit_endpoint) jmap" where
  "remember_endpoint m e =
     (let hostId = number_or_0 (ee_hostId e) in if 0 < hostId \<and> \<not> jm_has m hostId then jm_set hostId e m else m)"

definition exit_order :: "exit_member list \<Rightarrow> exit_member list" where
  "exit_order members = filter (\<lambda>m. memberEnabled (em_isEnabled m)) (sort_key (\<lambda>m. number_or_0 (em_priority m)) members)"

fun first_per_host :: "int list \<Rightarrow> exit_member list \<Rightarrow> exit_member list" where
  "first_per_host seen [] = []"
| "first_per_host seen (m # ms) =
     (let hostId = number_or_0 (em_hostId m)
      in if hostId \<le> 0 \<or> hostId \<in> set seen then first_per_host seen ms else m # first_per_host (hostId # seen) ms)"

definition plan_endpoint :: "(int, exit_endpoint) jmap \<Rightarrow> exit_member \<Rightarrow> planned_endpoint" where
  "plan_endpoint known m =
     (let hostId = number_or_0 (em_hostId m);
          existing = jm_get known hostId;
          connectHost = js_trim (case em_connectHost m of Some s \<Rightarrow> s | None \<Rightarrow> [])
      in \<lparr>pe_hostId = hostId,
          pe_listenPort = (case existing of Some e \<Rightarrow> number_or_0 (ee_listenPort e) | None \<Rightarrow> 0),
          pe_mimicPort = (case existing of Some e \<Rightarrow> number_or_0 (ee_mimicPort e) | None \<Rightarrow> 0),
          pe_connectHost = (if connectHost = [] then None else Some connectHost)\<rparr>)"

definition planExitGroupTunnelEndpoints :: "exit_member list \<Rightarrow> exit_endpoint list \<Rightarrow> planned_endpoint list" where
  "planExitGroupTunnelEndpoints members existingEndpoints =
     (let existingByHostId = foldl remember_endpoint [] existingEndpoints
      in map (plan_endpoint existingByHostId) (first_per_host [] (exit_order members)))"

section \<open>Runtime families\<close>

datatype runtime_family = ForwardX | Gost | Nginx

definition gost_modes :: "string list" where
  "gost_modes = [''tls'', ''wss'', ''tcp'', ''mtls'', ''mwss'', ''mtcp'']"

definition gostTunnelTransportType :: "jsval \<Rightarrow> string" where
  "gostTunnelTransportType mode = (let normalized = lower_text mode in if normalized \<in> set gost_modes then normalized else ''tls'')"

definition tunnelRuntimeFamily :: "jsval \<Rightarrow> runtime_family option" where
  "tunnelRuntimeFamily modeValue =
     (let mode = lower_text modeValue in
      if mode = ''forwardx'' then Some ForwardX
      else if mode = ''nginx_stream'' then Some Nginx
      else if mode \<in> set gost_modes then Some Gost
      else None)"

definition tunnelExitRuntimeForwardType :: "jsval \<Rightarrow> string option" where
  "tunnelExitRuntimeForwardType mode =
     (case tunnelRuntimeFamily mode of
        Some ForwardX \<Rightarrow> Some ''forwardx-tunnel'' | Some Nginx \<Rightarrow> Some ''nginx-tunnel-exit''
      | Some Gost \<Rightarrow> Some ''gost-tunnel'' | None \<Rightarrow> None)"

definition tunnelHopRuntimeForwardType :: "jsval \<Rightarrow> string option" where
  "tunnelHopRuntimeForwardType mode =
     (case tunnelRuntimeFamily mode of
        Some Nginx \<Rightarrow> None | Some ForwardX \<Rightarrow> Some ''forwardx-tunnel'' | Some Gost \<Rightarrow> Some ''gost-tunnel'' | None \<Rightarrow> None)"

definition tunnelRuleRuntimeForwardType :: "jsval \<Rightarrow> string option" where
  "tunnelRuleRuntimeForwardType mode =
     (case tunnelRuntimeFamily mode of
        Some ForwardX \<Rightarrow> Some ''forwardx'' | Some Nginx \<Rightarrow> Some ''nginx-tunnel'' | Some Gost \<Rightarrow> Some ''gost'' | None \<Rightarrow> None)"

record local_runtime =
  lr_tunnelId :: jsval
  lr_port :: jsval
  lr_forwardType :: jsval
  lr_transportVersion :: jsval
  lr_ready :: jsval

definition isPassiveForwardXFirstHopMarker :: "jsval \<Rightarrow> jsval \<Rightarrow> jsval \<Rightarrow> local_runtime option \<Rightarrow> bool" where
  "isPassiveForwardXFirstHopMarker isFirstHop tunnelIdValue portValue localValue =
     (case localValue of
        None \<Rightarrow> False
      | Some l \<Rightarrow>
          (case (js_number (js_or tunnelIdValue (JNum 0)), js_number (js_or portValue (JNum 0)),
                 js_number (js_or (lr_tunnelId l) (JNum 0)), js_number (js_or (lr_port l) (JNum 0))) of
             (Some tunnelId, Some port, Some localTunnelId, Some localPort) \<Rightarrow>
               js_truthy isFirstHop \<and> 0 < tunnelId \<and> 0 < port \<and> localTunnelId = tunnelId \<and> localPort = port
               \<and> lower_text (lr_forwardType l) = ''forwardx-tunnel'' \<and> lr_ready l = JBool False
               \<and> lower_text (lr_transportVersion l) = []
           | _ \<Rightarrow> False))"

section \<open>Probe listeners\<close>

record probe_tunnel =
  gt_id :: jsval
  gt_mode :: jsval
  gt_isEnabled :: jsval
  gt_protocolEnabled :: jsval
  gt_exitHostId :: jsval
  gt_listenPort :: jsval
  gt_loadBalanceEnabled :: jsval
  gt_loadBalanceStrategy :: jsval

record probe_exit =
  px_id :: jsval
  px_seq :: jsval
  px_hostId :: jsval
  px_listenPort :: jsval
  px_isEnabled :: jsval

record probe_listener =
  pl_tunnelId :: rat
  pl_mode :: string
  pl_listenPort :: int
  pl_name :: string

definition is_one :: "jsval \<Rightarrow> bool" where
  "is_one v \<longleftrightarrow> v = JBool True \<or> js_number v = Some 1"

definition listen_key :: "rat \<Rightarrow> int \<Rightarrow> string" where
  "listen_key hostId port = js_string (JNum hostId) @ CHR '':'' # int_to_str port"

definition valid_listen_port :: "jsval \<Rightarrow> int option" where
  "valid_listen_port v = (case js_integer v of Some p \<Rightarrow> if p \<le> 0 \<or> 65535 < p then None else Some p | None \<Rightarrow> None)"

definition positive_number :: "jsval \<Rightarrow> rat option" where
  "positive_number v = (case js_number v of Some q \<Rightarrow> if 0 < q then Some q else None | None \<Rightarrow> None)"

text \<open>\<open>plannedKeys\<close> holds the keys of the listeners already planned.\<close>

definition addListener :: "rat \<Rightarrow> string list \<Rightarrow> probe_tunnel \<Rightarrow> jsval \<Rightarrow> string \<Rightarrow> probe_listener list \<Rightarrow> probe_listener list" where
  "addListener hostId businessListenKeys tunnel listenPortValue name listeners =
     (case (positive_number (gt_id tunnel), valid_listen_port listenPortValue) of
        (Some tunnelId, Some listenPort) \<Rightarrow>
          (let listenKey = listen_key hostId listenPort;
               plannedKeys = map (\<lambda>l. listen_key hostId (pl_listenPort l)) listeners;
               mode = lower_text (js_or (gt_mode tunnel) (JStr ''tls''))
           in if listenKey \<in> set businessListenKeys \<or> listenKey \<in> set plannedKeys then listeners
              else listeners @ [\<lparr>pl_tunnelId = tunnelId, pl_mode = (if mode = [] then ''tls'' else mode),
                                pl_listenPort = listenPort, pl_name = name\<rparr>])
      | _ \<Rightarrow> listeners)"

definition probe_name :: "rat \<Rightarrow> string" where
  "probe_name tunnelId = ''fwx-tunnel-probe-'' @ js_string (JNum tunnelId)"

definition exit_applies :: "rat \<Rightarrow> probe_exit \<Rightarrow> bool" where
  "exit_applies hostId e \<longleftrightarrow> \<not> (px_isEnabled e = JBool False \<or> js_number (px_isEnabled e) = Some 0 \<or> js_number (px_hostId e) \<noteq> Some hostId)"

text \<open>\<open>Number(id) || Number(seq) || listenPort\<close>.\<close>

definition number_or :: "jsval \<Rightarrow> jsval \<Rightarrow> jsval" where
  "number_or v w = (case js_number v of Some q \<Rightarrow> if q \<noteq> 0 then JNum q else w | None \<Rightarrow> w)"

definition exit_key :: "probe_exit \<Rightarrow> jsval" where
  "exit_key e = number_or (px_id e) (number_or (px_seq e)
     (case js_number (px_listenPort e) of Some q \<Rightarrow> JNum q | None \<Rightarrow> JNaN))"

definition tunnel_probes ::
  "rat \<Rightarrow> (rat, probe_exit list) jmap \<Rightarrow> string list \<Rightarrow> probe_listener list \<Rightarrow> probe_tunnel \<Rightarrow> probe_listener list" where
  "tunnel_probes hostId exitNodesByTunnelId businessListenKeys listeners tunnel =
     (if \<not> is_one (gt_isEnabled tunnel) \<or> \<not> is_one (gt_protocolEnabled tunnel)
         \<or> tunnelRuntimeFamily (gt_mode tunnel) \<noteq> Some Gost then listeners
      else
        (case positive_number (gt_id tunnel) of
           None \<Rightarrow> listeners
         | Some tunnelId \<Rightarrow>
             (let l1 = (if js_number (gt_exitHostId tunnel) = Some hostId
                        then addListener hostId businessListenKeys tunnel (gt_listenPort tunnel) (probe_name tunnelId) listeners
                        else listeners)
              in if \<not> is_one (gt_loadBalanceEnabled tunnel) \<or> \<not> exitGroupUsesMultipleExits (gt_loadBalanceStrategy tunnel) then l1
                 else foldl (\<lambda>ls e.
                        if exit_applies hostId e
                        then addListener hostId businessListenKeys tunnel
                               (case js_number (px_listenPort e) of Some q \<Rightarrow> JNum q | None \<Rightarrow> JNaN)
                               (probe_name tunnelId @ ''-exit-'' @ js_string (exit_key e)) ls
                        else ls)
                      l1 (case jm_get exitNodesByTunnelId tunnelId of Some es \<Rightarrow> es | None \<Rightarrow> []))))"

definition planGostTunnelProbeListeners ::
  "jsval \<Rightarrow> probe_tunnel list \<Rightarrow> (rat, probe_exit list) jmap \<Rightarrow> string list \<Rightarrow> probe_listener list" where
  "planGostTunnelProbeListeners hostIdValue tunnels exitNodesByTunnelId businessListenKeys =
     (case positive_number hostIdValue of
        None \<Rightarrow> []
      | Some hostId \<Rightarrow> foldl (tunnel_probes hostId exitNodesByTunnelId businessListenKeys) [] tunnels)"

section \<open>Refreshes and capabilities\<close>

datatype refresh_mode = NoRefresh | Coordinated | Endpoint

definition count_value :: "jsval \<Rightarrow> int" where
  "count_value v = max 0 (case js_number v of Some q \<Rightarrow> \<lfloor>q\<rfloor> | None \<Rightarrow> 0)"

definition planManualTunnelTestRefresh :: "jsval \<Rightarrow> jsval \<Rightarrow> jsval \<Rightarrow> jsval \<Rightarrow> refresh_mode" where
  "planManualTunnelTestRefresh isRunning hopHostCount loadBalanceEnabled extraExitCount =
     (if is_one isRunning then NoRefresh
      else if 3 \<le> count_value hopHostCount \<or> (is_one loadBalanceEnabled \<and> 0 < count_value extraExitCount)
      then Coordinated else Endpoint)"

record reconcile_input =
  ri_configChanged :: bool
  ri_serviceUnhealthy :: bool
  ri_bootstrap :: bool
  ri_desiredRelevant :: bool
  ri_reportedHasWork :: bool

definition shouldReconcileSharedRuntime :: "reconcile_input \<Rightarrow> bool" where
  "shouldReconcileSharedRuntime i \<longleftrightarrow> ri_configChanged i \<or> ri_serviceUnhealthy i \<or> ri_bootstrap i \<or> ri_desiredRelevant i
     \<or> ri_reportedHasWork i"

definition forwardx_v3_runtime_capability :: string where "forwardx_v3_runtime_capability = ''forwardx.v3''"

definition hostSupportsForwardXV3Runtime :: "jsval list option \<Rightarrow> bool" where
  "hostSupportsForwardXV3Runtime capabilities =
     list_ex (\<lambda>c. lower_text c = forwardx_v3_runtime_capability) (case capabilities of Some cs \<Rightarrow> cs | None \<Rightarrow> [])"

record v3_plan =
  v3_supported :: bool
  v3_requiredHostIds :: "int list"
  v3_unsupportedHostIds :: "int list"

definition planForwardXV3Capability :: "jsval list \<Rightarrow> (int, jsval list) jmap \<Rightarrow> v3_plan" where
  "planForwardXV3Capability hostIds hostCapabilitiesById =
     (let requiredHostIds = sort (js_uniq (filter (\<lambda>h. 0 < h)
            (List.map_filter (\<lambda>v. map_option floor (js_number v)) hostIds)));
          unsupportedHostIds = filter (\<lambda>h. \<not> hostSupportsForwardXV3Runtime (jm_get hostCapabilitiesById h)) requiredHostIds
      in \<lparr>v3_supported = (requiredHostIds \<noteq> [] \<and> unsupportedHostIds = []),
          v3_requiredHostIds = requiredHostIds, v3_unsupportedHostIds = unsupportedHostIds\<rparr>)"

section \<open>Exit endpoints: one per host, best priority first\<close>

lemma first_per_host_hosts:
  "set (map (\<lambda>m. number_or_0 (em_hostId m)) (first_per_host seen ms))
     = {h \<in> (\<lambda>m. number_or_0 (em_hostId m)) ` set ms. 0 < h \<and> h \<notin> set seen}"
  by (induction seen ms rule: first_per_host.induct) (auto simp: Let_def)

lemma first_per_host_distinct: "distinct (map (\<lambda>m. number_or_0 (em_hostId m)) (first_per_host seen ms))"
  by (induction seen ms rule: first_per_host.induct) (auto simp: Let_def first_per_host_hosts [simplified])

text \<open>The first member of a host in the order is the one that is kept.\<close>

lemma first_per_host_find:
  "m \<in> set (first_per_host seen ms) \<Longrightarrow>
   find (\<lambda>x. number_or_0 (em_hostId x) = number_or_0 (em_hostId m)) ms = Some m"
proof (induction seen ms rule: first_per_host.induct)
  case (1 seen)
  then show ?case by simp
next
  case (2 seen x ms)
  let ?h = "\<lambda>x. number_or_0 (em_hostId x)"
  have in_h: "?h m \<in> {h \<in> ?h ` set ms. 0 < h \<and> h \<notin> set s}" if "m \<in> set (first_per_host s ms)" for s
    using that first_per_host_hosts [of s ms] by (metis (no_types, lifting) image_eqI set_map)
  show ?case
  proof (cases "?h x \<le> 0 \<or> ?h x \<in> set seen")
    case True
    then have m: "m \<in> set (first_per_host seen ms)" using "2.prems" by (simp add: Let_def)
    then have "?h x \<noteq> ?h m" using in_h [OF m] True by auto
    then show ?thesis using "2.IH"(1) True m by (auto simp: Let_def)
  next
    case False
    show ?thesis
    proof (cases "m = x")
      case False2: False
      then have m: "m \<in> set (first_per_host (?h x # seen) ms)" using "2.prems" False by (simp add: Let_def)
      then have "?h x \<noteq> ?h m" using in_h [OF m] by auto
      then show ?thesis using "2.IH"(2) False m by (auto simp: Let_def)
    qed simp
  qed
qed

lemma find_sorted_least:
  assumes "sorted (map f ms)" "find P ms = Some m" "x \<in> set ms" "P x"
  shows "f m \<le> f x"
  using assms by (induction ms) (auto split: if_splits)

lemma sorted_first_per_host: "sorted (map f ms) \<Longrightarrow> sorted (map f (first_per_host seen ms))"
proof (induction seen ms rule: first_per_host.induct)
  case (2 seen x ms)
  have sub: "set (first_per_host s ms) \<subseteq> set ms" for s
    by (induction s ms rule: first_per_host.induct) (auto simp: Let_def)
  show ?case using 2 sub by (auto simp: Let_def)
qed simp

lemma sorted_exit_order: "sorted (map (\<lambda>m. number_or_0 (em_priority m)) (exit_order members))"
  unfolding exit_order_def by (metis filter_sort sorted_sort_key)

lemma set_exit_order: "set (exit_order members) = {m \<in> set members. memberEnabled (em_isEnabled m)}"
  by (auto simp: exit_order_def)

lemma remember_get:
  "jm_get (foldl remember_endpoint m es) h =
     (case jm_get m h of Some e \<Rightarrow> Some e
      | None \<Rightarrow> if 0 < h then find (\<lambda>e. number_or_0 (ee_hostId e) = h) es else None)"
  by (induction es arbitrary: m) (auto simp: remember_endpoint_def Let_def jm_has_def split: option.split)


definition host_members :: "exit_member list \<Rightarrow> int \<Rightarrow> exit_member set" where
  "host_members members h = {m \<in> set members. memberEnabled (em_isEnabled m) \<and> number_or_0 (em_hostId m) = h}"

definition best_priority :: "exit_member list \<Rightarrow> int \<Rightarrow> rat" where
  "best_priority members h = Min ((\<lambda>m. number_or_0 (em_priority m)) ` host_members members h)"

lemma kept_member:
  assumes "m \<in> set (first_per_host [] (exit_order members))"
  shows "m \<in> host_members members (number_or_0 (em_hostId m))"
    "number_or_0 (em_priority m) = best_priority members (number_or_0 (em_hostId m))"
proof -
  let ?h = "number_or_0 (em_hostId m)"
  have f: "find (\<lambda>x. number_or_0 (em_hostId x) = ?h) (exit_order members) = Some m"
    by (rule first_per_host_find [OF assms])
  then have m: "m \<in> set (exit_order members)" by (auto simp: find_Some_iff)
  then show inm: "m \<in> host_members members ?h" by (simp add: host_members_def set_exit_order)
  have "number_or_0 (em_priority m) \<le> number_or_0 (em_priority x)" if "x \<in> host_members members ?h" for x
    using that by (intro find_sorted_least [OF sorted_exit_order f]) (auto simp: host_members_def set_exit_order)
  moreover have "finite (host_members members ?h)" by (simp add: host_members_def)
  ultimately show "number_or_0 (em_priority m) = best_priority members ?h"
    unfolding best_priority_def using inm by (intro Min_eqI [symmetric]) auto
qed

text \<open>
  A tunnel's exits are planned once each, best priority first, and keep their ports.  The planned hosts are
  exactly the hosts with an enabled member, each once; they come in the order of their best enabled member, whose
  connect address they get; and each takes over the ports of the first existing endpoint of its host, or 0 for
  ports that have to be allocated.
\<close>

theorem exit_endpoints_planned:
  fixes members :: "exit_member list" and existing :: "exit_endpoint list"
  defines "plan \<equiv> planExitGroupTunnelEndpoints members existing"
  shows "distinct (map pe_hostId plan)
    \<and> set (map pe_hostId plan) = {h. 0 < h \<and> host_members members h \<noteq> {}}
    \<and> sorted (map (\<lambda>e. best_priority members (pe_hostId e)) plan)
    \<and> (\<forall>e \<in> set plan.
         (case find (\<lambda>x. number_or_0 (ee_hostId x) = pe_hostId e) existing of
            Some x \<Rightarrow> pe_listenPort e = number_or_0 (ee_listenPort x) \<and> pe_mimicPort e = number_or_0 (ee_mimicPort x)
          | None \<Rightarrow> pe_listenPort e = 0 \<and> pe_mimicPort e = 0)
         \<and> (\<exists>m \<in> host_members members (pe_hostId e).
              number_or_0 (em_priority m) = best_priority members (pe_hostId e)
              \<and> pe_connectHost e = (let c = js_trim (case em_connectHost m of Some s \<Rightarrow> s | None \<Rightarrow> []) in if c = [] then None else Some c)))"
proof -
  let ?ms = "first_per_host [] (exit_order members)" and ?known = "foldl remember_endpoint [] existing"
  let ?h = "\<lambda>m. number_or_0 (em_hostId m)"
  have plan: "plan = map (plan_endpoint ?known) ?ms" by (simp add: plan_def planExitGroupTunnelEndpoints_def)
  have host: "pe_hostId (plan_endpoint k m) = ?h m" for k m by (simp add: plan_endpoint_def Let_def)
  have hosts: "map pe_hostId plan = map ?h ?ms" by (simp add: plan host)
  show ?thesis
  proof (intro conjI ballI)
    show "distinct (map pe_hostId plan)" unfolding hosts by (rule first_per_host_distinct)
    show "set (map pe_hostId plan) = {h. 0 < h \<and> host_members members h \<noteq> {}}"
      unfolding hosts first_per_host_hosts by (auto simp: set_exit_order host_members_def)
    have "map (\<lambda>e. best_priority members (pe_hostId e)) plan = map (\<lambda>m. number_or_0 (em_priority m)) ?ms"
      using kept_member(2) by (simp add: plan host)
    then show "sorted (map (\<lambda>e. best_priority members (pe_hostId e)) plan)"
      using sorted_first_per_host [OF sorted_exit_order] by simp
  next
    fix e
    assume "e \<in> set plan"
    then obtain m where m: "m \<in> set ?ms" "e = plan_endpoint ?known m" by (auto simp: plan)
    have "?h m \<in> set (map ?h ?ms)" using m(1) by simp
    then have pos: "0 < ?h m" unfolding first_per_host_hosts by simp
    show "case find (\<lambda>x. number_or_0 (ee_hostId x) = pe_hostId e) existing of
            Some x \<Rightarrow> pe_listenPort e = number_or_0 (ee_listenPort x) \<and> pe_mimicPort e = number_or_0 (ee_mimicPort x)
          | None \<Rightarrow> pe_listenPort e = 0 \<and> pe_mimicPort e = 0"
      using pos remember_get [of "[]" existing "?h m"] by (auto simp: m(2) host plan_endpoint_def Let_def split: option.split)
    show "\<exists>m \<in> host_members members (pe_hostId e).
              number_or_0 (em_priority m) = best_priority members (pe_hostId e)
              \<and> pe_connectHost e = (let c = js_trim (case em_connectHost m of Some s \<Rightarrow> s | None \<Rightarrow> []) in if c = [] then None else Some c)"
      using kept_member [OF m(1)] by (intro bexI [of _ m]) (simp_all add: m(2) host plan_endpoint_def Let_def)
  qed
qed

theorem exit_endpoints_planned_witness:
  "planExitGroupTunnelEndpoints
     [\<lparr>em_hostId = Some 4, em_connectHost = None, em_priority = Some 2, em_isEnabled = JBool True\<rparr>,
      \<lparr>em_hostId = Some 5, em_connectHost = Some '' a '', em_priority = Some 1, em_isEnabled = JUndef\<rparr>,
      \<lparr>em_hostId = Some 6, em_connectHost = None, em_priority = None, em_isEnabled = JStr ''0''\<rparr>]
     [\<lparr>ee_hostId = Some 4, ee_listenPort = Some 443, ee_mimicPort = None\<rparr>]
   = [\<lparr>pe_hostId = 5, pe_listenPort = 0, pe_mimicPort = 0, pe_connectHost = Some ''a''\<rparr>,
      \<lparr>pe_hostId = 4, pe_listenPort = 443, pe_mimicPort = 0, pe_connectHost = None\<rparr>]
   \<and> distinct [5, 4 :: int]"
proof -
  let ?ms = "[\<lparr>em_hostId = Some 4, em_connectHost = None, em_priority = Some 2, em_isEnabled = JBool True\<rparr>,
      \<lparr>em_hostId = Some 5, em_connectHost = Some '' a '', em_priority = Some 1, em_isEnabled = JUndef\<rparr>,
      \<lparr>em_hostId = Some 6, em_connectHost = None, em_priority = None, em_isEnabled = JStr ''0''\<rparr>]"
  let ?es = "[\<lparr>ee_hostId = Some 4, ee_listenPort = Some 443, ee_mimicPort = None\<rparr>]"
  have "planExitGroupTunnelEndpoints ?ms ?es = [\<lparr>pe_hostId = 5, pe_listenPort = 0, pe_mimicPort = 0, pe_connectHost = Some ''a''\<rparr>,
      \<lparr>pe_hostId = 4, pe_listenPort = 443, pe_mimicPort = 0, pe_connectHost = None\<rparr>]" by code_simp
  then show ?thesis using exit_endpoints_planned [of ?ms ?es] by simp
qed

section \<open>Probe listeners\<close>

lemma listen_key_inject: "0 < p \<Longrightarrow> 0 < q \<Longrightarrow> listen_key h p = listen_key h q \<longleftrightarrow> p = q"
  by (simp add: listen_key_def int_to_str_nonneg_inject)

text \<open>A listener that may run on the host, and a listener that a tunnel asks for.\<close>

definition listener_ok :: "rat \<Rightarrow> string list \<Rightarrow> probe_listener \<Rightarrow> bool" where
  "listener_ok hostId businessListenKeys l \<longleftrightarrow> 1 \<le> pl_listenPort l \<and> pl_listenPort l \<le> 65535 \<and> 0 < pl_tunnelId l
     \<and> listen_key hostId (pl_listenPort l) \<notin> set businessListenKeys"

definition active_gost :: "probe_tunnel \<Rightarrow> bool" where
  "active_gost t \<longleftrightarrow> is_one (gt_isEnabled t) \<and> is_one (gt_protocolEnabled t) \<and> tunnelRuntimeFamily (gt_mode t) = Some Gost"

definition asks_for :: "rat \<Rightarrow> (rat, probe_exit list) jmap \<Rightarrow> probe_tunnel \<Rightarrow> rat \<Rightarrow> int \<Rightarrow> bool" where
  "asks_for hostId exitNodes t tunnelId port \<longleftrightarrow> active_gost t \<and> positive_number (gt_id t) = Some tunnelId
     \<and> ((js_number (gt_exitHostId t) = Some hostId \<and> valid_listen_port (gt_listenPort t) = Some port)
        \<or> (is_one (gt_loadBalanceEnabled t) \<and> exitGroupUsesMultipleExits (gt_loadBalanceStrategy t)
           \<and> (\<exists>es. jm_get exitNodes tunnelId = Some es \<and> (\<exists>e \<in> set es. exit_applies hostId e \<and> valid_listen_port (px_listenPort e) = Some port))))"

definition listeners_ok :: "rat \<Rightarrow> (rat, probe_exit list) jmap \<Rightarrow> string list \<Rightarrow> probe_tunnel set \<Rightarrow> probe_listener list \<Rightarrow> bool" where
  "listeners_ok hostId exitNodes keys ts ls \<longleftrightarrow> distinct (map pl_listenPort ls)
     \<and> (\<forall>l \<in> set ls. listener_ok hostId keys l \<and> (\<exists>t \<in> ts. asks_for hostId exitNodes t (pl_tunnelId l) (pl_listenPort l)))"

text \<open>A port is settled when a listener has it or the business of the host does.\<close>

definition settled_port :: "rat \<Rightarrow> string list \<Rightarrow> probe_listener list \<Rightarrow> int \<Rightarrow> bool" where
  "settled_port hostId keys ls p \<longleftrightarrow> listen_key hostId p \<in> set keys \<or> p \<in> pl_listenPort ` set ls"

lemma valid_listen_port_range: "valid_listen_port v = Some p \<Longrightarrow> 1 \<le> p \<and> p \<le> 65535"
  by (auto simp: valid_listen_port_def split: option.splits if_splits)

lemma valid_listen_port_number:
  "valid_listen_port (case js_number v of Some q \<Rightarrow> JNum q | None \<Rightarrow> JNaN) = valid_listen_port v"
  by (cases "js_number v") (simp_all add: valid_listen_port_def js_integer_def)

lemma add_listener_ok:
  assumes ok: "listeners_ok hostId exitNodes keys ts ls" and t: "t \<in> ts"
    and asks: "\<forall>i p. positive_number (gt_id t) = Some i \<and> valid_listen_port v = Some p \<longrightarrow> asks_for hostId exitNodes t i p"
  shows "listeners_ok hostId exitNodes keys ts (addListener hostId keys t v name ls)"
    and "set ls \<subseteq> set (addListener hostId keys t v name ls)"
    and "positive_number (gt_id t) \<noteq> None \<Longrightarrow> valid_listen_port v = Some p \<Longrightarrow> settled_port hostId keys (addListener hostId keys t v name ls) p"
proof -
  let ?r = "addListener hostId keys t v name ls"
  have "listeners_ok hostId exitNodes keys ts ?r \<and> set ls \<subseteq> set ?r
    \<and> (positive_number (gt_id t) \<noteq> None \<longrightarrow> valid_listen_port v = Some p \<longrightarrow> settled_port hostId keys ?r p)"
  proof (cases "positive_number (gt_id t)")
    case None
    then show ?thesis using ok by (simp add: addListener_def)
  next
    case i: (Some i)
    show ?thesis
    proof (cases "valid_listen_port v")
      case None
      then show ?thesis using ok i by (simp add: addListener_def)
    next
      case q: (Some q)
      note rq = valid_listen_port_range [OF q]
      have inj: "listen_key hostId q = listen_key hostId (pl_listenPort l) \<longleftrightarrow> q = pl_listenPort l" if "l \<in> set ls" for l
        using ok that rq by (intro listen_key_inject) (auto simp: listeners_ok_def listener_ok_def)
      then have planned: "listen_key hostId q \<in> set (map (\<lambda>l. listen_key hostId (pl_listenPort l)) ls) \<longleftrightarrow> q \<in> pl_listenPort ` set ls"
        by auto
      show ?thesis
      proof (cases "listen_key hostId q \<in> set keys \<or> q \<in> pl_listenPort ` set ls")
        case True
        then show ?thesis using ok i q planned by (auto simp: addListener_def Let_def settled_port_def)
      next
        case False
        define m where "m = (if lower_text (js_or (gt_mode t) (JStr ''tls'')) = [] then ''tls'' else lower_text (js_or (gt_mode t) (JStr ''tls'')))"
        have eq: "?r = ls @ [\<lparr>pl_tunnelId = i, pl_mode = m, pl_listenPort = q, pl_name = name\<rparr>]"
          using False planned by (simp add: addListener_def i q Let_def m_def)
        have "0 < i" using i by (auto simp: positive_number_def split: option.splits if_splits)
        moreover have "asks_for hostId exitNodes t i q" using asks i q by blast
        ultimately have "listeners_ok hostId exitNodes keys ts ?r"
          using ok False rq t unfolding eq by (auto simp: listeners_ok_def listener_ok_def)
        then show ?thesis using q by (auto simp: eq settled_port_def)
      qed
    qed
  qed
  then show "listeners_ok hostId exitNodes keys ts ?r" "set ls \<subseteq> set ?r"
    "positive_number (gt_id t) \<noteq> None \<Longrightarrow> valid_listen_port v = Some p \<Longrightarrow> settled_port hostId keys ?r p" by blast+
qed


lemma settled_mono: "settled_port hostId keys ls p \<Longrightarrow> set ls \<subseteq> set ls' \<Longrightarrow> settled_port hostId keys ls' p"
  by (auto simp: settled_port_def)

definition exit_step :: "rat \<Rightarrow> string list \<Rightarrow> probe_tunnel \<Rightarrow> rat \<Rightarrow> probe_listener list \<Rightarrow> probe_exit \<Rightarrow> probe_listener list" where
  "exit_step hostId keys t i ls e =
     (if exit_applies hostId e
      then addListener hostId keys t (case js_number (px_listenPort e) of Some q \<Rightarrow> JNum q | None \<Rightarrow> JNaN)
             (probe_name i @ ''-exit-'' @ js_string (exit_key e)) ls
      else ls)"

lemma exit_fold:
  assumes "listeners_ok hostId nodes keys ts ls" "t \<in> ts" "positive_number (gt_id t) = Some i"
    and "\<forall>e \<in> set es. \<forall>p. exit_applies hostId e \<and> valid_listen_port (px_listenPort e) = Some p \<longrightarrow> asks_for hostId nodes t i p"
  shows "listeners_ok hostId nodes keys ts (foldl (exit_step hostId keys t i) ls es) \<and> set ls \<subseteq> set (foldl (exit_step hostId keys t i) ls es)
    \<and> (\<forall>e \<in> set es. \<forall>p. exit_applies hostId e \<and> valid_listen_port (px_listenPort e) = Some p \<longrightarrow>
         settled_port hostId keys (foldl (exit_step hostId keys t i) ls es) p)"
  using assms(1,4)
proof (induction es arbitrary: ls)
  case Nil
  then show ?case by simp
next
  case (Cons e es)
  let ?v = "case js_number (px_listenPort e) of Some q \<Rightarrow> JNum q | None \<Rightarrow> JNaN"
  let ?l1 = "exit_step hostId keys t i ls e"
  have step: "listeners_ok hostId nodes keys ts ?l1 \<and> set ls \<subseteq> set ?l1
    \<and> (\<forall>p. exit_applies hostId e \<and> valid_listen_port (px_listenPort e) = Some p \<longrightarrow> settled_port hostId keys ?l1 p)"
  proof (cases "exit_applies hostId e")
    case False
    then show ?thesis using Cons.prems(1) by (simp add: exit_step_def)
  next
    case True
    have ask: "\<forall>i' p. positive_number (gt_id t) = Some i' \<and> valid_listen_port ?v = Some p \<longrightarrow> asks_for hostId nodes t i' p"
      using assms(3) Cons.prems(2) True by (simp add: valid_listen_port_number)
    note a = add_listener_ok [OF Cons.prems(1) assms(2) ask]
    show ?thesis using a(1,2) a(3) assms(3) True by (simp add: exit_step_def valid_listen_port_number)
  qed
  have "listeners_ok hostId nodes keys ts ?l1" using step by blast
  moreover have "\<forall>e \<in> set es. \<forall>p. exit_applies hostId e \<and> valid_listen_port (px_listenPort e) = Some p \<longrightarrow> asks_for hostId nodes t i p"
    using Cons.prems(2) by simp
  ultimately have ih: "listeners_ok hostId nodes keys ts (foldl (exit_step hostId keys t i) ?l1 es)
      \<and> set ?l1 \<subseteq> set (foldl (exit_step hostId keys t i) ?l1 es)
      \<and> (\<forall>e \<in> set es. \<forall>p. exit_applies hostId e \<and> valid_listen_port (px_listenPort e) = Some p \<longrightarrow>
           settled_port hostId keys (foldl (exit_step hostId keys t i) ?l1 es) p)" by (rule Cons.IH)
  have "settled_port hostId keys (foldl (exit_step hostId keys t i) ?l1 es) p"
    if "exit_applies hostId e \<and> valid_listen_port (px_listenPort e) = Some p" for p
    using ih step that settled_mono [of hostId keys ?l1 p] by blast
  moreover have "set ls \<subseteq> set (foldl (exit_step hostId keys t i) ?l1 es)" using ih step by blast
  ultimately show ?case using ih by (simp only: foldl.simps set_simps ball_simps insert_iff) auto
qed

lemma tunnel_probes_ok:
  assumes ok: "listeners_ok hostId nodes keys ts ls" and t: "t \<in> ts"
  shows "listeners_ok hostId nodes keys ts (tunnel_probes hostId nodes keys ls t) \<and> set ls \<subseteq> set (tunnel_probes hostId nodes keys ls t)
    \<and> (\<forall>i p. asks_for hostId nodes t i p \<longrightarrow> settled_port hostId keys (tunnel_probes hostId nodes keys ls t) p)"
proof (cases "active_gost t \<and> positive_number (gt_id t) \<noteq> None")
  case False
  then have "tunnel_probes hostId nodes keys ls t = ls" by (auto simp: tunnel_probes_def active_gost_def split: option.split)
  then show ?thesis using False ok by (auto simp: asks_for_def)
next
  case True
  then obtain i where i: "positive_number (gt_id t) = Some i" by auto
  define l1 where "l1 = (if js_number (gt_exitHostId t) = Some hostId
      then addListener hostId keys t (gt_listenPort t) (probe_name i) ls else ls)"
  have s1: "listeners_ok hostId nodes keys ts l1 \<and> set ls \<subseteq> set l1
    \<and> (\<forall>p. js_number (gt_exitHostId t) = Some hostId \<and> valid_listen_port (gt_listenPort t) = Some p \<longrightarrow> settled_port hostId keys l1 p)"
  proof (cases "js_number (gt_exitHostId t) = Some hostId")
    case False
    then show ?thesis using ok by (simp add: l1_def)
  next
    case exit: True
    have ask: "\<forall>i' p. positive_number (gt_id t) = Some i' \<and> valid_listen_port (gt_listenPort t) = Some p \<longrightarrow> asks_for hostId nodes t i' p"
      using True exit by (simp add: asks_for_def)
    note a = add_listener_ok [OF ok t ask]
    show ?thesis using a(1,2) a(3) i exit by (simp add: l1_def)
  qed
  show ?thesis
  proof (cases "is_one (gt_loadBalanceEnabled t) \<and> exitGroupUsesMultipleExits (gt_loadBalanceStrategy t)")
    case False
    then have "tunnel_probes hostId nodes keys ls t = l1"
      using True i by (auto simp: tunnel_probes_def active_gost_def l1_def)
    then show ?thesis using s1 False by (auto simp: asks_for_def)
  next
    case lb: True
    define es where "es = (case jm_get nodes i of Some es \<Rightarrow> es | None \<Rightarrow> [])"
    have eq: "tunnel_probes hostId nodes keys ls t = foldl (exit_step hostId keys t i) l1 es"
      using True i lb by (auto simp: tunnel_probes_def active_gost_def l1_def es_def exit_step_def [abs_def])
    have ok1: "listeners_ok hostId nodes keys ts l1" using s1 by blast
    have ask: "\<forall>e \<in> set es. \<forall>p. exit_applies hostId e \<and> valid_listen_port (px_listenPort e) = Some p \<longrightarrow> asks_for hostId nodes t i p"
    proof (intro ballI allI impI)
      fix e p
      assume e: "e \<in> set es" "exit_applies hostId e \<and> valid_listen_port (px_listenPort e) = Some p"
      have "jm_get nodes i = Some es" using e(1) by (cases "jm_get nodes i") (simp_all add: es_def)
      then show "asks_for hostId nodes t i p" using e True lb i by (auto simp: asks_for_def)
    qed
    note f = exit_fold [OF ok1 t i ask]
    have "settled_port hostId keys (foldl (exit_step hostId keys t i) l1 es) p" if "asks_for hostId nodes t i' p" for i' p
    proof -
      have "settled_port hostId keys l1 p \<or> (\<exists>e \<in> set es. exit_applies hostId e \<and> valid_listen_port (px_listenPort e) = Some p)"
        using that s1 i by (auto simp: asks_for_def es_def)
      then show ?thesis using f settled_mono by blast
    qed
    then show ?thesis using f s1 unfolding eq by blast
  qed
qed

lemma probes_fold:
  assumes "listeners_ok hostId nodes keys ts ls" "set tunnels \<subseteq> ts"
  shows "listeners_ok hostId nodes keys ts (foldl (tunnel_probes hostId nodes keys) ls tunnels)
    \<and> set ls \<subseteq> set (foldl (tunnel_probes hostId nodes keys) ls tunnels)
    \<and> (\<forall>t \<in> set tunnels. \<forall>i p. asks_for hostId nodes t i p \<longrightarrow> settled_port hostId keys (foldl (tunnel_probes hostId nodes keys) ls tunnels) p)"
  using assms
proof (induction tunnels arbitrary: ls)
  case Nil
  then show ?case by simp
next
  case (Cons t tunnels)
  have "t \<in> ts" using Cons.prems(2) by simp
  note st = tunnel_probes_ok [OF Cons.prems(1) this]
  let ?l1 = "tunnel_probes hostId nodes keys ls t"
  have "listeners_ok hostId nodes keys ts ?l1" "set tunnels \<subseteq> ts" using st Cons.prems(2) by auto
  then have ih: "listeners_ok hostId nodes keys ts (foldl (tunnel_probes hostId nodes keys) ?l1 tunnels)
    \<and> set ?l1 \<subseteq> set (foldl (tunnel_probes hostId nodes keys) ?l1 tunnels)
    \<and> (\<forall>t \<in> set tunnels. \<forall>i p. asks_for hostId nodes t i p \<longrightarrow>
         settled_port hostId keys (foldl (tunnel_probes hostId nodes keys) ?l1 tunnels) p)" by (rule Cons.IH)
  have "settled_port hostId keys (foldl (tunnel_probes hostId nodes keys) ?l1 tunnels) p" if "asks_for hostId nodes t i p" for i p
    using ih st that settled_mono [of hostId keys ?l1 p] by blast
  moreover have "set ls \<subseteq> set (foldl (tunnel_probes hostId nodes keys) ?l1 tunnels)" using ih st by blast
  ultimately show ?case using ih by (simp only: foldl.simps set_simps ball_simps insert_iff) auto
qed



end
