(* ===== verification/Runtime_Status.thy ===== *)
theory Runtime_Status
imports FX_Prelude
begin

text \<open>
  What the panel says is running: the run-time status of tunnels as their hosts report it
  (\<open>server/tunnelRuntimeStatus.ts\<close>) and the summary of a forwarding group over its rules
  (\<open>server/forwardGroupRuntimeStatus.ts\<close>).  Identifiers that are declared as numbers are integers.
\<close>

section \<open>Tunnels\<close>

record tunnel_runtime =
  tr_status :: "(int, (int, bool) jmap) jmap"
  tr_generation :: "(int, int) jmap"

definition no_tunnel_runtime :: tunnel_runtime where
  "no_tunnel_runtime = \<lparr>tr_status = [], tr_generation = []\<rparr>"

definition normalizeTunnelId :: "int \<Rightarrow> int" where
  "normalizeTunnelId tunnelId = (if 0 < tunnelId then tunnelId else 0)"

definition generation_of :: "tunnel_runtime \<Rightarrow> int \<Rightarrow> int" where
  "generation_of s tid = (case jm_get (tr_generation s) tid of Some g \<Rightarrow> g | None \<Rightarrow> 0)"

definition bumpTunnelRuntimeGeneration :: "int \<Rightarrow> tunnel_runtime \<Rightarrow> int \<times> tunnel_runtime" where
  "bumpTunnelRuntimeGeneration tunnelId s =
     (let tid = normalizeTunnelId tunnelId in
      if tid = 0 then (0, s)
      else (let n = next_generation (generation_of s tid) in (n, s\<lparr>tr_generation := jm_set tid n (tr_generation s)\<rparr>)))"

definition getTunnelRuntimeGeneration :: "int \<Rightarrow> tunnel_runtime \<Rightarrow> int" where
  "getTunnelRuntimeGeneration tunnelId s =
     (let tid = normalizeTunnelId tunnelId in if tid = 0 then 0 else generation_of s tid)"

definition recordTunnelRuntimeHostStatus :: "int \<Rightarrow> int \<Rightarrow> bool \<Rightarrow> tunnel_runtime \<Rightarrow> tunnel_runtime" where
  "recordTunnelRuntimeHostStatus tunnelId hostId running s =
     (let tid = normalizeTunnelId tunnelId in
      if tid = 0 \<or> hostId \<le> 0 then s
      else (let hosts = (case jm_get (tr_status s) tid of Some m \<Rightarrow> m | None \<Rightarrow> [])
            in s\<lparr>tr_status := jm_set tid (jm_set hostId running hosts) (tr_status s)\<rparr>))"

definition getTunnelRuntimeHostStatus :: "int \<Rightarrow> int \<Rightarrow> tunnel_runtime \<Rightarrow> bool option" where
  "getTunnelRuntimeHostStatus tunnelId hostId s =
     (case jm_get (tr_status s) tunnelId of None \<Rightarrow> None | Some hosts \<Rightarrow> jm_get hosts hostId)"

definition isTunnelRuntimeHostReady :: "int \<Rightarrow> int \<Rightarrow> tunnel_runtime \<Rightarrow> bool" where
  "isTunnelRuntimeHostReady tunnelId hostId s \<longleftrightarrow> getTunnelRuntimeHostStatus tunnelId hostId s = Some True"

definition getTunnelRuntimeReadyCount :: "int \<Rightarrow> int list \<Rightarrow> tunnel_runtime \<Rightarrow> nat" where
  "getTunnelRuntimeReadyCount tunnelId hostIds s =
     (case jm_get (tr_status s) tunnelId of
        None \<Rightarrow> 0 | Some hosts \<Rightarrow> length (filter (\<lambda>h. jm_get hosts h = Some True) hostIds))"

fun clear_hosts :: "int \<Rightarrow> (int, (int, bool) jmap) jmap \<Rightarrow> tunnel_runtime \<Rightarrow> int list \<times> tunnel_runtime" where
  "clear_hosts hid [] s = ([], s)"
| "clear_hosts hid ((tunnelId, hosts) # rest) s =
     (let deleted = jm_has hosts hid;
          hosts' = jm_del hid hosts;
          s1 = s\<lparr>tr_status := (if hosts' = [] then jm_del tunnelId (tr_status s) else jm_set tunnelId hosts' (tr_status s))\<rparr>;
          s2 = (if deleted then snd (bumpTunnelRuntimeGeneration tunnelId s1) else s1);
          (affected, s3) = clear_hosts hid rest s2
      in (if deleted then tunnelId # affected else affected, s3))"

definition clearTunnelRuntimeStatusForHost :: "int \<Rightarrow> tunnel_runtime \<Rightarrow> int list \<times> tunnel_runtime" where
  "clearTunnelRuntimeStatusForHost hostId s = (if hostId \<le> 0 then ([], s) else clear_hosts hostId (tr_status s) s)"

definition clearTunnelRuntimeStatus :: "int \<Rightarrow> tunnel_runtime \<Rightarrow> tunnel_runtime" where
  "clearTunnelRuntimeStatus tunnelId s =
     (let tid = normalizeTunnelId tunnelId in
      if tid = 0 then s
      else snd (bumpTunnelRuntimeGeneration tid (s\<lparr>tr_status := jm_del tid (tr_status s)\<rparr>)))"

subsection \<open>Is the tunnel running\<close>

record topology =
  tp_entryHostIds :: "int list option"
  tp_hopHostIds :: "int list"
  tp_primaryExitHostId :: "int option"
  tp_extraExitHostIds :: "int list"
  tp_relayMode :: "string option"
  tp_loadBalanceEnabled :: bool
  tp_loadBalanceStrategy :: "string option"

record topology_status =
  ts_running :: bool
  ts_readyCount :: nat
  ts_hostCount :: nat
  ts_missingHostIds :: "int list"

definition unique_ids :: "int list \<Rightarrow> int list" where
  "unique_ids xs = js_uniq (filter (\<lambda>h. 0 < h) xs)"

text \<open>\<open>text || other\<close>.\<close>

definition text_or :: "string option \<Rightarrow> string \<Rightarrow> string" where
  "text_or t d = (case t of None \<Rightarrow> d | Some s \<Rightarrow> if s = [] then d else s)"

definition entry_candidates :: "topology \<Rightarrow> int list" where
  "entry_candidates t =
     unique_ids (case tp_entryHostIds t of
        Some (h # hs) \<Rightarrow> h # hs
      | _ \<Rightarrow> (case unique_ids (tp_hopHostIds t) of [] \<Rightarrow> [] | h # _ \<Rightarrow> [h]))"

definition exit_candidates :: "topology \<Rightarrow> int list" where
  "exit_candidates t =
     (let hops = unique_ids (tp_hopHostIds t);
          primary = (case tp_primaryExitHostId t of Some h \<Rightarrow> if h \<noteq> 0 then h else if hops = [] then 0 else last hops
                     | None \<Rightarrow> if hops = [] then 0 else last hops);
          useExtraExits = (tp_loadBalanceEnabled t \<and> js_lower (text_or (tp_loadBalanceStrategy t) []) \<noteq> ''none'')
      in unique_ids (primary # (if useExtraExits then tp_extraExitHostIds t else [])))"

definition relay_candidates :: "topology \<Rightarrow> int list" where
  "relay_candidates t = (let hops = unique_ids (tp_hopHostIds t) in if 3 \<le> length hops then butlast (tl hops) else [])"

definition getTunnelRuntimeTopologyStatus :: "int \<Rightarrow> topology \<Rightarrow> tunnel_runtime \<Rightarrow> topology_status" where
  "getTunnelRuntimeTopologyStatus tunnelId t s =
     (let hops = unique_ids (tp_hopHostIds t);
          ready = (\<lambda>h. isTunnelRuntimeHostReady tunnelId h s);
          entryReady = (length hops < 3 \<or> list_ex ready (entry_candidates t));
          exitReady = list_ex ready (exit_candidates t);
          relayReady = (relay_candidates t = []
             \<or> (if js_lower (text_or (tp_relayMode t) ''chain'') = ''failover'' then list_ex ready (relay_candidates t)
                else list_all ready (relay_candidates t)));
          observed = unique_ids (entry_candidates t @ relay_candidates t @ exit_candidates t)
      in \<lparr>ts_running = (entryReady \<and> relayReady \<and> exitReady), ts_readyCount = length (filter ready observed),
          ts_hostCount = length observed, ts_missingHostIds = filter (\<lambda>h. \<not> ready h) observed\<rparr>)"

subsection \<open>The status is the last report\<close>

datatype runtime_op = Report int int bool | ClearHost int | ClearTunnel int

fun runtime_step :: "tunnel_runtime \<Rightarrow> runtime_op \<Rightarrow> tunnel_runtime" where
  "runtime_step s (Report t h running) = recordTunnelRuntimeHostStatus t h running s"
| "runtime_step s (ClearHost h) = snd (clearTunnelRuntimeStatusForHost h s)"
| "runtime_step s (ClearTunnel t) = clearTunnelRuntimeStatus t s"

definition runtime_run :: "runtime_op list \<Rightarrow> tunnel_runtime" where
  "runtime_run ops = foldl runtime_step no_tunnel_runtime ops"

text \<open>The specification, a function of tunnel and host.\<close>

fun reported :: "(int \<times> int \<Rightarrow> bool option) \<Rightarrow> runtime_op \<Rightarrow> int \<times> int \<Rightarrow> bool option" where
  "reported f (Report t h running) = (if 0 < t \<and> 0 < h then f((t, h) \<mapsto> running) else f)"
| "reported f (ClearHost h) = (\<lambda>(t', h'). if 0 < h \<and> h' = h then None else f (t', h'))"
| "reported f (ClearTunnel t) = (\<lambda>(t', h'). if 0 < t \<and> t' = t then None else f (t', h'))"

definition runtime_ok :: "tunnel_runtime \<Rightarrow> bool" where
  "runtime_ok s \<longleftrightarrow> jm_ok (tr_status s) \<and> (\<forall>t m. jm_get (tr_status s) t = Some m \<longrightarrow> 0 < t \<and> m \<noteq> [])"

definition status_of :: "tunnel_runtime \<Rightarrow> int \<times> int \<Rightarrow> bool option" where
  "status_of s = (\<lambda>(t, h). getTunnelRuntimeHostStatus t h s)"

lemma bump_status [simp]: "tr_status (snd (bumpTunnelRuntimeGeneration t s)) = tr_status s"
  by (simp add: bumpTunnelRuntimeGeneration_def Let_def)

text \<open>How often a generation has moved is its distance; it moves exactly when something is dropped.\<close>

lemma bump_generation:
  "generation_of (snd (bumpTunnelRuntimeGeneration t s)) t' =
     (if 0 < t \<and> t' = t then next_generation (generation_of s t) else generation_of s t')"
  by (auto simp: bumpTunnelRuntimeGeneration_def normalizeTunnelId_def generation_of_def Let_def)

lemma generation_of_status [simp]: "generation_of (s\<lparr>tr_status := m\<rparr>) t = generation_of s t"
  by (simp add: generation_of_def)

lemma clear_hosts_status:
  assumes "jm_ok m" "jm_ok (tr_status s)" "\<forall>t hosts. jm_get m t = Some hosts \<longrightarrow> jm_get (tr_status s) t = Some hosts"
    "\<forall>t hosts. jm_get m t = Some hosts \<longrightarrow> 0 < t"
  shows "jm_ok (tr_status (snd (clear_hosts hid m s)))
    \<and> (\<forall>t. jm_get (tr_status (snd (clear_hosts hid m s))) t =
        (case jm_get m t of
           None \<Rightarrow> jm_get (tr_status s) t
         | Some hosts \<Rightarrow> if jm_del hid hosts = [] then None else Some (jm_del hid hosts)))
    \<and> (\<forall>t. generation_of (snd (clear_hosts hid m s)) t =
        (case jm_get m t of
           None \<Rightarrow> generation_of s t
         | Some hosts \<Rightarrow> if jm_has hosts hid then next_generation (generation_of s t) else generation_of s t))
    \<and> fst (clear_hosts hid m s) = map fst (filter (\<lambda>(t, hosts). jm_has hosts hid) m)"
  using assms
proof (induction m arbitrary: s)
  case Nil
  then show ?case by simp
next
  case (Cons e rest)
  obtain t hosts where e: "e = (t, hosts)" by (cases e)
  note prems = Cons.prems [unfolded e]
  define s1 where "s1 = s\<lparr>tr_status := (if jm_del hid hosts = [] then jm_del t (tr_status s) else jm_set t (jm_del hid hosts) (tr_status s))\<rparr>"
  define s2 where "s2 = (if jm_has hosts hid then snd (bumpTunnelRuntimeGeneration t s1) else s1)"
  have t: "0 < t" "t \<notin> set (jm_keys rest)" "jm_ok rest" using prems by (auto simp: jm_ok_def)
  then have tn: "jm_get rest t = None" by (simp add: map_of_eq_None_iff)
  have st: "tr_status s2 = tr_status s1" by (simp add: s2_def)
  have ok2: "jm_ok (tr_status s2)" using prems(2) by (simp add: st s1_def)
  have get2: "jm_get (tr_status s2) t' = (if t' = t then (if jm_del hid hosts = [] then None else Some (jm_del hid hosts))
      else jm_get (tr_status s) t')" for t'
    by (simp add: st s1_def)
  have gen2: "generation_of s2 t' = (if t' = t \<and> jm_has hosts hid then next_generation (generation_of s t) else generation_of s t')" for t'
    using t(1) by (simp add: s2_def bump_generation s1_def)
  have sub: "\<forall>t' hosts'. jm_get rest t' = Some hosts' \<longrightarrow> jm_get (tr_status s2) t' = Some hosts'"
    "\<forall>t' hosts'. jm_get rest t' = Some hosts' \<longrightarrow> 0 < t'"
    using prems(3,4) tn by (auto simp: get2)
  have "jm_ok (tr_status (snd (clear_hosts hid rest s2)))
    \<and> (\<forall>t. jm_get (tr_status (snd (clear_hosts hid rest s2))) t =
        (case jm_get rest t of None \<Rightarrow> jm_get (tr_status s2) t
         | Some hosts \<Rightarrow> if jm_del hid hosts = [] then None else Some (jm_del hid hosts)))
    \<and> (\<forall>t. generation_of (snd (clear_hosts hid rest s2)) t =
        (case jm_get rest t of None \<Rightarrow> generation_of s2 t
         | Some hosts \<Rightarrow> if jm_has hosts hid then next_generation (generation_of s2 t) else generation_of s2 t))
    \<and> fst (clear_hosts hid rest s2) = map fst (filter (\<lambda>(t, hosts). jm_has hosts hid) rest)"
    by (rule Cons.IH [OF t(3) ok2 sub])
  moreover have "clear_hosts hid ((t, hosts) # rest) s =
      (if jm_has hosts hid then t # fst (clear_hosts hid rest s2) else fst (clear_hosts hid rest s2), snd (clear_hosts hid rest s2))"
    by (simp add: Let_def case_prod_unfold s1_def s2_def)
  ultimately show ?case using tn unfolding e by (auto simp: get2 gen2 split: option.split)
qed


lemma jm_del_empty: "jm_ok m \<Longrightarrow> jm_del k m = [] \<longleftrightarrow> (\<forall>k'. k' \<noteq> k \<longrightarrow> jm_get m k' = None)"
proof -
  have "jm_del k m = [] \<longleftrightarrow> (\<forall>k'. jm_get (jm_del k m) k' = None)"
    by (cases "jm_del k m") (auto simp: map_of_eq_None_iff)
  then show ?thesis by auto
qed

lemma status_of_get: "status_of s (t, h) = (case jm_get (tr_status s) t of None \<Rightarrow> None | Some m \<Rightarrow> jm_get m h)"
  by (simp add: status_of_def getTunnelRuntimeHostStatus_def)

lemma runtime_step_spec:
  assumes "runtime_ok s" "status_of s = f"
  shows "runtime_ok (runtime_step s op) \<and> status_of (runtime_step s op) = reported f op"
proof -
  define s' where "s' = runtime_step s op"
  have "runtime_ok s' \<and> status_of s' = reported f op"
proof (cases op)
  case (Report t h running)
  show ?thesis
  proof (cases "0 < t \<and> 0 < h")
    case False
    then show ?thesis using assms Report by (auto simp: s'_def recordTunnelRuntimeHostStatus_def normalizeTunnelId_def Let_def)
  next
    case True
    let ?m = "case jm_get (tr_status s) t of Some m \<Rightarrow> m | None \<Rightarrow> []"
    have eq: "tr_status s' = jm_set t (jm_set h running ?m) (tr_status s)"
      using True Report by (simp add: s'_def recordTunnelRuntimeHostStatus_def normalizeTunnelId_def Let_def)
    have ne: "jm_set h running ?m \<noteq> []" by (cases ?m) auto
    have "runtime_ok s'"
      using assms(1) True ne unfolding runtime_ok_def by (auto simp: eq split: if_splits)
    moreover have "status_of s' (t', h') = reported f op (t', h')" for t' h'
      using True Report assms(2) by (auto simp: status_of_get eq split: option.split)
    ultimately show ?thesis by (auto simp: fun_eq_iff)
  qed
next
  case (ClearHost h)
  show ?thesis
  proof (cases "0 < h")
    case False
    then show ?thesis using assms ClearHost by (auto simp: s'_def clearTunnelRuntimeStatusForHost_def fun_eq_iff)
  next
    case True
    have "jm_ok (tr_status s)" "\<forall>t m. jm_get (tr_status s) t = Some m \<longrightarrow> 0 < t" using assms(1) unfolding runtime_ok_def by blast+
    note c = clear_hosts_status [OF this(1) this(1) _ this(2), of h]
    have eq: "s' = snd (clear_hosts h (tr_status s) s)" using True ClearHost by (simp add: s'_def clearTunnelRuntimeStatusForHost_def)
    have get: "jm_get (tr_status s') t = (case jm_get (tr_status s) t of None \<Rightarrow> None
        | Some m \<Rightarrow> if jm_del h m = [] then None else Some (jm_del h m))" for t
      using c unfolding eq by (auto split: option.split)
    have "jm_ok (tr_status s')" using c unfolding eq by simp
    moreover have "0 < t \<and> m \<noteq> []" if "jm_get (tr_status s') t = Some m" for t m
      using that \<open>\<forall>t m. jm_get (tr_status s) t = Some m \<longrightarrow> 0 < t\<close> by (auto simp: get split: option.splits if_splits)
    ultimately have "runtime_ok s'" unfolding runtime_ok_def by blast
    moreover have "status_of s' (t, h') = reported f op (t, h')" for t h'
    proof (cases "jm_get (tr_status s) t")
      case None
      then show ?thesis using ClearHost assms(2) by (auto simp: status_of_get get)
    next
      case (Some m)
      have "jm_get m h' = None" if "jm_del h m = []" "h' \<noteq> h"
        using arg_cong [OF that(1), of "\<lambda>x. jm_get x h'"] that(2) by simp
      then show ?thesis using Some True ClearHost assms(2) by (auto simp: status_of_get get)
    qed
    ultimately show ?thesis by (auto simp: fun_eq_iff)
  qed
next
  case (ClearTunnel t)
  show ?thesis
  proof (cases "0 < t")
    case False
    then show ?thesis using assms ClearTunnel by (auto simp: s'_def clearTunnelRuntimeStatus_def normalizeTunnelId_def fun_eq_iff Let_def)
  next
    case True
    have eq: "tr_status s' = jm_del t (tr_status s)"
      using True ClearTunnel by (simp add: s'_def clearTunnelRuntimeStatus_def normalizeTunnelId_def Let_def)
    have "runtime_ok s'"
      using assms(1) unfolding runtime_ok_def by (auto simp: eq split: if_splits)
    moreover have "status_of s' (t', h') = reported f op (t', h')" for t' h'
      using True ClearTunnel assms(2) by (auto simp: status_of_get eq split: option.split)
    ultimately show ?thesis by (auto simp: fun_eq_iff)
  qed
qed
  then show ?thesis by (simp only: s'_def)
qed

lemma runtime_run_spec:
  "runtime_ok (runtime_run ops) \<and> status_of (runtime_run ops) = foldl reported (\<lambda>_. None) ops"
proof (induction ops rule: rev_induct)
  case Nil
  show ?case by (auto simp: runtime_run_def no_tunnel_runtime_def runtime_ok_def status_of_def getTunnelRuntimeHostStatus_def fun_eq_iff)
next
  case (snoc op ops)
  then show ?case using runtime_step_spec [of "runtime_run ops"] by (simp add: runtime_run_def)
qed

lemma length_partition: "length (filter P xs) + length (filter (\<lambda>x. \<not> P x) xs) = length xs"
  by (induction xs) auto




section \<open>Forwarding groups\<close>

datatype runtime_status = Disabled | Idle | PendingStatus | Degraded | Running

record group_value =
  gv_groupMode :: jsval
  gv_entryGroupId :: jsval
  gv_isEnabled :: jsval

record member_value =
  mv_id :: jsval
  mv_hostId :: jsval
  mv_isEnabled :: jsval

record rule_value =
  rv_id :: jsval
  rv_forwardGroupRuleId :: jsval
  rv_forwardGroupMemberId :: jsval
  rv_hostId :: jsval
  rv_isEnabled :: jsval
  rv_isRunning :: jsval
  rv_pendingDelete :: jsval

record rule_summary =
  rs_templateRuleId :: int
  rs_status :: runtime_status
  rs_expected :: nat
  rs_configured :: nat
  rs_running :: nat
  rs_failed :: nat

record group_summary =
  sm_status :: runtime_status
  sm_expected :: nat
  sm_configured :: nat
  sm_running :: nat
  sm_failed :: nat
  sm_ruleStatuses :: "rule_summary list"

definition enabled :: "jsval \<Rightarrow> bool" where
  "enabled v \<longleftrightarrow> v = JBool True \<or> v = JNum 1 \<or> v = JStr ''1'' \<or> js_lower (js_string v) = ''true''"

definition positiveId :: "jsval \<Rightarrow> int" where
  "positiveId v = (case js_positive_int (js_or v (JNum 0)) of Some i \<Rightarrow> i | None \<Rightarrow> 0)"

datatype group_mode = PortMode | ChainMode | EntryMode | ExitMode | FailoverMode

definition normalizeGroupMode :: "group_value \<Rightarrow> group_mode" where
  "normalizeGroupMode grp =
     (let mode = js_lower (js_string (js_or (gv_groupMode grp) (JStr []))) in
      if mode = ''port'' then PortMode else if mode = ''chain'' then ChainMode
      else if mode = ''entry'' then EntryMode else if mode = ''exit'' then ExitMode else FailoverMode)"

text \<open>The keys \<open>member:i\<close> and \<open>member:i:host:h\<close>.\<close>

datatype child_identity = OfMember int | OfHost int int

definition expectedChildIdentities :: "group_value \<Rightarrow> member_value list \<Rightarrow> member_value list \<Rightarrow> child_identity list" where
  "expectedChildIdentities grp members entryMembers =
     (let mode = normalizeGroupMode grp;
          activeMembers = filter (\<lambda>m. enabled (mv_isEnabled m) \<and> 0 < positiveId (mv_id m)) members
      in if mode = EntryMode \<or> mode = ExitMode then []
         else if mode \<noteq> ChainMode then js_uniq (map (\<lambda>m. OfMember (positiveId (mv_id m))) activeMembers)
         else
           (let own = map (\<lambda>m. OfHost (positiveId (mv_id m)) (positiveId (mv_hostId m))) activeMembers;
                firstMemberId = (case activeMembers of m # _ \<Rightarrow> positiveId (mv_id m) | [] \<Rightarrow> 0);
                entries = (if 0 < positiveId (gv_entryGroupId grp) \<and> 0 < firstMemberId
                   then map (OfHost firstMemberId) (filter (\<lambda>h. 0 < h)
                          (map (\<lambda>e. if enabled (mv_isEnabled e) then positiveId (mv_hostId e) else 0) entryMembers))
                   else [])
            in js_uniq (own @ entries)))"

definition childIdentity :: "group_value \<Rightarrow> rule_value \<Rightarrow> child_identity option" where
  "childIdentity grp child =
     (let memberId = positiveId (rv_forwardGroupMemberId child) in
      if memberId \<le> 0 then None
      else if normalizeGroupMode grp = ChainMode then Some (OfHost memberId (positiveId (rv_hostId child)))
      else Some (OfMember memberId))"

definition statusForCounts :: "bool \<Rightarrow> nat \<Rightarrow> nat \<Rightarrow> runtime_status" where
  "statusForCounts disabled expected running =
     (if disabled then Disabled else if expected = 0 then PendingStatus else if expected \<le> running then Running
      else if 0 < running then Degraded else PendingStatus)"

definition identities_of :: "group_value \<Rightarrow> child_identity list \<Rightarrow> rule_value list \<Rightarrow> child_identity list" where
  "identities_of grp expected rules = js_uniq (filter (\<lambda>i. i \<in> set expected) (List.map_filter (childIdentity grp) rules))"

definition rule_summary_of :: "group_value \<Rightarrow> child_identity list \<Rightarrow> rule_value list \<Rightarrow> rule_value \<Rightarrow> rule_summary" where
  "rule_summary_of grp expectedIdentities children template =
     (let templateRuleId = positiveId (rv_id template);
          templateDisabled = (\<not> enabled (gv_isEnabled grp) \<or> \<not> enabled (rv_isEnabled template));
          expected = (if templateDisabled then 0 else length expectedIdentities);
          matching = filter (\<lambda>r. positiveId (rv_forwardGroupRuleId r) = templateRuleId) children;
          configured = identities_of grp expectedIdentities matching;
          running = length (identities_of grp expectedIdentities
             (filter (\<lambda>r. enabled (rv_isEnabled r) \<and> enabled (rv_isRunning r)) matching))
      in \<lparr>rs_templateRuleId = templateRuleId, rs_status = statusForCounts templateDisabled expected running,
          rs_expected = expected, rs_configured = length configured, rs_running = running, rs_failed = expected - running\<rparr>)"

definition summarizeForwardGroupRuntime ::
  "group_value \<Rightarrow> member_value list \<Rightarrow> member_value list \<Rightarrow> rule_value list \<Rightarrow> rule_value list \<Rightarrow> group_summary" where
  "summarizeForwardGroupRuntime grp members entryMembers templateRules childRules =
     (let templates = filter (\<lambda>r. \<not> enabled (rv_pendingDelete r)) templateRules;
          children = filter (\<lambda>r. \<not> enabled (rv_pendingDelete r)) childRules;
          expectedIdentities = expectedChildIdentities grp members entryMembers;
          ruleStatuses = map (rule_summary_of grp expectedIdentities children) templates;
          idle = (\<lambda>st. \<lparr>sm_status = st, sm_expected = 0, sm_configured = length children, sm_running = 0, sm_failed = 0,
                        sm_ruleStatuses = ruleStatuses\<rparr>);
          active = filter (\<lambda>r. rs_status r \<noteq> Disabled) ruleStatuses
      in if \<not> enabled (gv_isEnabled grp) then idle Disabled
         else if active = [] then idle Idle
         else
           (let expected = sum_list (map rs_expected active); running = sum_list (map rs_running active)
            in \<lparr>sm_status = (if 0 < expected \<and> list_all (\<lambda>r. rs_status r = Running) active then Running
                             else if 0 < running then Degraded else PendingStatus),
                sm_expected = expected, sm_configured = sum_list (map rs_configured active), sm_running = running,
                sm_failed = expected - running, sm_ruleStatuses = ruleStatuses\<rparr>))"


subsection \<open>Running means every expected rule runs\<close>

text \<open>A rule of a template runs in a place: some live child of it there is enabled and running.\<close>

definition runs_at :: "group_value \<Rightarrow> rule_value list \<Rightarrow> rule_value \<Rightarrow> child_identity \<Rightarrow> bool" where
  "runs_at grp childRules template i \<longleftrightarrow>
     (\<exists>r \<in> set childRules. \<not> enabled (rv_pendingDelete r) \<and> positiveId (rv_forwardGroupRuleId r) = positiveId (rv_id template)
        \<and> enabled (rv_isEnabled r) \<and> enabled (rv_isRunning r) \<and> childIdentity grp r = Some i)"

definition active_template :: "group_value \<Rightarrow> rule_value \<Rightarrow> bool" where
  "active_template grp t \<longleftrightarrow> enabled (gv_isEnabled grp) \<and> enabled (rv_isEnabled t) \<and> \<not> enabled (rv_pendingDelete t)"

lemma distinct_expected: "distinct (expectedChildIdentities grp members entries)"
  by (simp add: expectedChildIdentities_def Let_def)

lemma set_identities: "set (identities_of grp ids rules) = {i \<in> set ids. \<exists>r \<in> set rules. childIdentity grp r = Some i}"
  by (auto simp: identities_of_def set_map_filter)

lemma length_identities: "length (identities_of grp ids rules) = card (set (identities_of grp ids rules))"
  unfolding identities_of_def by (rule distinct_card [OF distinct_js_uniq, symmetric])

lemma identities_le:
  assumes "distinct ids"
  shows "length (identities_of grp ids rules) \<le> length ids"
proof -
  have "set (identities_of grp ids rules) \<subseteq> set ids" by (auto simp: set_identities)
  then have "card (set (identities_of grp ids rules)) \<le> card (set ids)" by (intro card_mono) simp_all
  then show ?thesis using assms by (simp only: length_identities distinct_card)
qed

lemma identities_mono:
  assumes "set rules \<subseteq> set rules'"
  shows "length (identities_of grp ids rules) \<le> length (identities_of grp ids rules')"
proof -
  have "set (identities_of grp ids rules) \<subseteq> set (identities_of grp ids rules')" using assms by (auto simp: set_identities)
  then have "card (set (identities_of grp ids rules)) \<le> card (set (identities_of grp ids rules'))" by (intro card_mono) simp_all
  then show ?thesis by (simp only: length_identities)
qed

lemma identities_full:
  assumes "distinct ids"
  shows "length ids \<le> length (identities_of grp ids rules) \<longleftrightarrow> (\<forall>i \<in> set ids. \<exists>r \<in> set rules. childIdentity grp r = Some i)"
proof -
  have sub: "set (identities_of grp ids rules) \<subseteq> set ids" by (auto simp: set_identities)
  have len: "length (identities_of grp ids rules) = card (set (identities_of grp ids rules))" "length ids = card (set ids)"
    using assms by (simp_all only: length_identities distinct_card)
  have "length ids \<le> length (identities_of grp ids rules) \<longleftrightarrow> set (identities_of grp ids rules) = set ids"
    unfolding len using sub by (metis card_seteq finite_set order_refl)
  then show ?thesis by (auto simp: set_identities)
qed

lemma rule_summary_active:
  fixes grp :: group_value and childRules :: "rule_value list" and t :: rule_value and ids :: "child_identity list"
  assumes "enabled (gv_isEnabled grp)" "enabled (rv_isEnabled t)" "distinct ids"
  defines "r \<equiv> rule_summary_of grp ids (filter (\<lambda>c. \<not> enabled (rv_pendingDelete c)) childRules) t"
  shows "rs_expected r = length ids" "rs_running r \<le> rs_configured r" "rs_configured r \<le> rs_expected r"
    "rs_failed r + rs_running r = rs_expected r" "rs_status r \<noteq> Disabled"
    "rs_status r = Running \<longleftrightarrow> ids \<noteq> [] \<and> (\<forall>i \<in> set ids. runs_at grp childRules t i)"
proof -
  let ?m = "filter (\<lambda>c. positiveId (rv_forwardGroupRuleId c) = positiveId (rv_id t)) (filter (\<lambda>c. \<not> enabled (rv_pendingDelete c)) childRules)"
  let ?run = "filter (\<lambda>c. enabled (rv_isEnabled c) \<and> enabled (rv_isRunning c)) ?m"
  have r: "r = \<lparr>rs_templateRuleId = positiveId (rv_id t), rs_status = statusForCounts False (length ids) (length (identities_of grp ids ?run)),
      rs_expected = length ids, rs_configured = length (identities_of grp ids ?m), rs_running = length (identities_of grp ids ?run),
      rs_failed = length ids - length (identities_of grp ids ?run)\<rparr>"
    using assms(1,2) by (simp add: r_def rule_summary_of_def Let_def)
  show "rs_expected r = length ids" by (simp add: r)
  show "rs_running r \<le> rs_configured r" unfolding r by (simp, rule identities_mono) auto
  show "rs_configured r \<le> rs_expected r" unfolding r using identities_le [OF assms(3)] by simp
  show "rs_failed r + rs_running r = rs_expected r" unfolding r using identities_le [OF assms(3)] by simp
  show "rs_status r \<noteq> Disabled" by (simp add: r statusForCounts_def)
  have "(\<exists>c \<in> set ?run. childIdentity grp c = Some i) \<longleftrightarrow> runs_at grp childRules t i" for i
    by (auto simp: runs_at_def)
  then show "rs_status r = Running \<longleftrightarrow> ids \<noteq> [] \<and> (\<forall>i \<in> set ids. runs_at grp childRules t i)"
    using identities_full [OF assms(3), of grp ?run] by (simp add: r statusForCounts_def)
qed

text \<open>
  A group is shown running exactly when everything it should run runs.  The summary says running exactly when the group
  is enabled, at least one of its rules is active, it expects rules at all, and every active rule runs in every
  expected place; in an enabled group the running, failed and expected counts always add up, and no rule shows more
  running than configured or more configured than expected places.
\<close>

theorem group_running_exact:
  fixes grp :: group_value and members entries :: "member_value list" and templates children :: "rule_value list"
  defines "sm \<equiv> summarizeForwardGroupRuntime grp members entries templates children"
    and "ids \<equiv> expectedChildIdentities grp members entries"
  shows "(sm_status sm = Running \<longleftrightarrow>
            (\<exists>t \<in> set templates. active_template grp t) \<and> ids \<noteq> []
            \<and> (\<forall>t \<in> set templates. active_template grp t \<longrightarrow> (\<forall>i \<in> set ids. runs_at grp children t i)))
    \<and> sm_failed sm + sm_running sm = sm_expected sm
    \<and> (\<forall>r \<in> set (sm_ruleStatuses sm). rs_status r \<noteq> Disabled \<longrightarrow>
         rs_running r \<le> rs_configured r \<and> rs_configured r \<le> rs_expected r \<and> rs_failed r + rs_running r = rs_expected r)"
proof -
  define live where "live = filter (\<lambda>t. \<not> enabled (rv_pendingDelete t)) templates"
  define kids where "kids = filter (\<lambda>c. \<not> enabled (rv_pendingDelete c)) children"
  define rs where "rs = map (rule_summary_of grp ids kids) live"
  define active where "active = filter (\<lambda>r. rs_status r \<noteq> Disabled) rs"
  have rsum: "sm_ruleStatuses sm = rs"
    by (simp add: sm_def summarizeForwardGroupRuntime_def Let_def rs_def live_def kids_def ids_def)
  have dist: "distinct ids" by (simp add: ids_def distinct_expected)
  have dis: "rs_status (rule_summary_of grp ids kids t) \<noteq> Disabled \<longleftrightarrow> enabled (gv_isEnabled grp) \<and> enabled (rv_isEnabled t)" for t
    using rule_summary_active(5) [OF _ _ dist, of grp t children]
    by (auto simp: kids_def rule_summary_of_def Let_def statusForCounts_def)
  note one = rule_summary_active [OF _ _ dist, of grp _ children, folded kids_def]
  have act: "active = map (rule_summary_of grp ids kids) (filter (active_template grp) templates)"
  proof -
    have "active = map (rule_summary_of grp ids kids) (filter (\<lambda>t. rs_status (rule_summary_of grp ids kids t) \<noteq> Disabled) live)"
      by (simp add: active_def rs_def filter_map comp_def)
    also have "filter (\<lambda>t. rs_status (rule_summary_of grp ids kids t) \<noteq> Disabled) live = filter (active_template grp) templates"
      unfolding dis live_def filter_filter by (rule filter_cong) (auto simp: active_template_def)
    finally show ?thesis .
  qed
  have each: "rs_expected r = length ids \<and> rs_running r \<le> rs_configured r \<and> rs_configured r \<le> rs_expected r
      \<and> rs_failed r + rs_running r = rs_expected r" if "r \<in> set active" for r
    using that one by (auto simp: act active_template_def)
  have sums: "sum_list (map rs_running active) \<le> sum_list (map rs_expected active)"
    using each by (intro sum_list_mono) (metis order_trans)
  have pos: "0 < sum_list (map rs_expected active) \<longleftrightarrow> active \<noteq> [] \<and> ids \<noteq> []"
  proof -
    have "map rs_expected active = map (\<lambda>_. length ids) active" using each by simp
    then have "sum_list (map rs_expected active) = sum_list (map (\<lambda>_. length ids) active)" by (rule arg_cong)
    then have "sum_list (map rs_expected active) = length active * length ids" by (simp only: sum_list_triv of_nat_id)
    then show ?thesis by simp
  qed
  show ?thesis
  proof (intro conjI ballI impI)
    show "sm_status sm = Running \<longleftrightarrow> (\<exists>t \<in> set templates. active_template grp t) \<and> ids \<noteq> []
            \<and> (\<forall>t \<in> set templates. active_template grp t \<longrightarrow> (\<forall>i \<in> set ids. runs_at grp children t i))"
    proof (cases "enabled (gv_isEnabled grp)")
      case False
      then show ?thesis by (simp add: sm_def summarizeForwardGroupRuntime_def Let_def active_template_def)
    next
      case True
      have "sm_status sm = Running \<longleftrightarrow> active \<noteq> [] \<and> 0 < sum_list (map rs_expected active) \<and> (\<forall>r \<in> set active. rs_status r = Running)"
        using True by (simp add: sm_def summarizeForwardGroupRuntime_def Let_def live_def [symmetric] kids_def [symmetric]
            ids_def [symmetric] rs_def [symmetric] active_def [symmetric] list_all_iff)
      also have "\<dots> \<longleftrightarrow> active \<noteq> [] \<and> ids \<noteq> [] \<and> (\<forall>r \<in> set active. rs_status r = Running)" by (auto simp only: pos)
      also have "(\<forall>r \<in> set active. rs_status r = Running) \<longleftrightarrow>
          (\<forall>t \<in> set templates. active_template grp t \<longrightarrow> ids \<noteq> [] \<and> (\<forall>i \<in> set ids. runs_at grp children t i))"
        using one(6) by (auto simp: act active_template_def)
      finally show ?thesis by (auto simp: act filter_empty_conv)
    qed
  next
    show "sm_failed sm + sm_running sm = sm_expected sm"
      using sums by (auto simp: sm_def summarizeForwardGroupRuntime_def Let_def live_def [symmetric] kids_def [symmetric]
            ids_def [symmetric] rs_def [symmetric] active_def [symmetric])
  next
    fix r
    assume "r \<in> set (sm_ruleStatuses sm)" "rs_status r \<noteq> Disabled"
    then have "r \<in> set active" by (simp add: rsum active_def)
    then show "rs_running r \<le> rs_configured r" "rs_configured r \<le> rs_expected r" "rs_failed r + rs_running r = rs_expected r"
      using each by blast+
  qed
qed

theorem group_running_exact_witness:
  "let g = \<lparr>gv_groupMode = JStr ''Chain'', gv_entryGroupId = JNull, gv_isEnabled = JNum 1\<rparr>;
       m = \<lparr>mv_id = JNum 5, mv_hostId = JNum 7, mv_isEnabled = JStr ''true''\<rparr>;
       t = \<lparr>rv_id = JNum 3, rv_forwardGroupRuleId = JUndef, rv_forwardGroupMemberId = JUndef, rv_hostId = JUndef,
            rv_isEnabled = JBool True, rv_isRunning = JUndef, rv_pendingDelete = JUndef\<rparr>;
       r = \<lparr>rv_id = JNum 4, rv_forwardGroupRuleId = JNum 3, rv_forwardGroupMemberId = JNum 5, rv_hostId = JNum 7,
            rv_isEnabled = JBool True, rv_isRunning = JNum 1, rv_pendingDelete = JNum 0\<rparr>
   in sm_status (summarizeForwardGroupRuntime g [m] [] [t] [r]) = Running \<and> expectedChildIdentities g [m] [] \<noteq> []"
proof -
  let ?g = "\<lparr>gv_groupMode = JStr ''Chain'', gv_entryGroupId = JNull, gv_isEnabled = JNum 1\<rparr>"
  let ?m = "\<lparr>mv_id = JNum 5, mv_hostId = JNum 7, mv_isEnabled = JStr ''true''\<rparr>"
  let ?t = "\<lparr>rv_id = JNum 3, rv_forwardGroupRuleId = JUndef, rv_forwardGroupMemberId = JUndef, rv_hostId = JUndef,
            rv_isEnabled = JBool True, rv_isRunning = JUndef, rv_pendingDelete = JUndef\<rparr>"
  let ?r = "\<lparr>rv_id = JNum 4, rv_forwardGroupRuleId = JNum 3, rv_forwardGroupMemberId = JNum 5, rv_hostId = JNum 7,
            rv_isEnabled = JBool True, rv_isRunning = JNum 1, rv_pendingDelete = JNum 0\<rparr>"
  have "sm_status (summarizeForwardGroupRuntime ?g [?m] [] [?t] [?r]) = Running" by code_simp
  then show ?thesis using group_running_exact [of ?g "[?m]" "[]" "[?t]" "[?r]"] by (simp only: Let_def simp_thms) blast
qed

end
