(* ===== verification/Billing_Calendar.thy ===== *)
theory Billing_Calendar
imports FX_Prelude
begin

text \<open>
  The billing calendar, \<open>shared/billingTime.ts\<close>: every subscription, traffic and host period of the
  panel is computed in the calendar of one zone, \<open>Asia/Shanghai\<close>, whatever the zone of the process.

  The first section states what the code uses of the run time: \<open>Date.UTC\<close>, the time clip and the
  proleptic Gregorian calendar, in the form of the ECMAScript specification.  The zone's offset from
  UTC is the parameter \<open>off\<close>, as the data comes from the run time's zone database; \<open>shanghai_zone\<close> says
  what the development relies on: eight hours since the beginning of 1992 (the zone had daylight
  saving time until 1991).

  A \<open>Date\<close> is its time in milliseconds, \<^const>\<open>None\<close> for an invalid one; a thrown \<open>RangeError\<close> is the left
  side of a sum.
\<close>

section \<open>The run time's calendar\<close>

type_synonym jsdate = "int option"

definition max_time :: int where
  "max_time = 8640000000000000"

definition time_clip :: "int \<Rightarrow> jsdate" where
  "time_clip t = (if \<bar>t\<bar> \<le> max_time then Some t else None)"

abbreviation ms_per_day :: int where
  "ms_per_day \<equiv> 86400000"

definition day_from_year :: "int \<Rightarrow> int" where
  "day_from_year y = 365 * (y - 1970) + (y - 1969) div 4 - (y - 1901) div 100 + (y - 1601) div 400"

definition leap_year :: "int \<Rightarrow> bool" where
  "leap_year y = (y mod 4 = 0 \<and> (y mod 100 \<noteq> 0 \<or> y mod 400 = 0))"

text \<open>The year a day belongs to: an estimate from the mean length of a year, off by at most one.\<close>

definition year_from_day :: "int \<Rightarrow> int" where
  "year_from_day d =
     (let y = 1970 + (400 * d) div 146097 in
      if d < day_from_year y then y - 1 else if day_from_year (y + 1) \<le> d then y + 1 else y)"

text \<open>The day of the year a month (0 to 11) starts on, and the month of a day of the year.\<close>

definition days_before :: "bool \<Rightarrow> int \<Rightarrow> int" where
  "days_before leap m =
     (if m \<le> 0 then 0 else if m = 1 then 31
      else (if leap then 1 else 0) +
        (if m = 2 then 59 else if m = 3 then 90 else if m = 4 then 120 else if m = 5 then 151
         else if m = 6 then 181 else if m = 7 then 212 else if m = 8 then 243 else if m = 9 then 273
         else if m = 10 then 304 else if m = 11 then 334 else 365))"

definition month_from_day :: "bool \<Rightarrow> int \<Rightarrow> int" where
  "month_from_day leap k =
     (if k < days_before leap 1 then 0 else if k < days_before leap 2 then 1
      else if k < days_before leap 3 then 2 else if k < days_before leap 4 then 3
      else if k < days_before leap 5 then 4 else if k < days_before leap 6 then 5
      else if k < days_before leap 7 then 6 else if k < days_before leap 8 then 7
      else if k < days_before leap 9 then 8 else if k < days_before leap 10 then 9
      else if k < days_before leap 11 then 10 else 11)"

text \<open>The first day of the month with index \<open>12 * year + month\<close>, month 0 being January.\<close>

definition first_of_month :: "int \<Rightarrow> int" where
  "first_of_month k = day_from_year (k div 12) + days_before (leap_year (k div 12)) (k mod 12)"

text \<open>Year, month (0 to 11) and day of the month of a day.\<close>

definition civil_from_day :: "int \<Rightarrow> int \<times> int \<times> int" where
  "civil_from_day d =
     (let y = year_from_day d; k = d - day_from_year y; m = month_from_day (leap_year y) k
      in (y, m, k - days_before (leap_year y) m + 1))"

text \<open>\<open>Date.UTC(...)\<close>: two-digit years are of the twentieth century.\<close>

definition utc_year :: "int \<Rightarrow> int" where
  "utc_year y = (if 0 \<le> y \<and> y \<le> 99 then 1900 + y else y)"

definition clock_ms :: "int \<Rightarrow> int \<Rightarrow> int \<Rightarrow> int \<Rightarrow> int" where
  "clock_ms hour minute second millisecond = ((hour * 60 + minute) * 60 + second) * 1000 + millisecond"

definition date_UTC :: "int \<Rightarrow> int \<Rightarrow> int \<Rightarrow> int \<Rightarrow> int \<Rightarrow> int \<Rightarrow> int \<Rightarrow> jsdate" where
  "date_UTC year month day hour minute second millisecond =
     time_clip ((first_of_month (12 * utc_year year + month) + day - 1) * ms_per_day
                + clock_ms hour minute second millisecond)"

section \<open>The code\<close>

datatype billing_error =
    Invalid_Billing_Date
  | Invalid_Calendar_Date
  | Calendar_Date_Out_Of_Range
  | Calendar_Time_Out_Of_Range

text \<open>The rest of a computation after a step that may throw.\<close>

fun and_then :: "'e + 'a \<Rightarrow> ('a \<Rightarrow> 'e + 'b) \<Rightarrow> 'e + 'b" where
  "and_then (Inl e) f = Inl e"
| "and_then (Inr x) f = f x"

record calendar_parts =
  cp_year :: int
  cp_month :: int
  cp_day :: int
  cp_hour :: int
  cp_minute :: int
  cp_second :: int

definition valid_billing_date :: "jsdate \<Rightarrow> billing_error + int" where
  "valid_billing_date value = (case value of None \<Rightarrow> Inl Invalid_Billing_Date | Some t \<Rightarrow> Inr t)"

text \<open>
  The formatter of the billing zone.  It prints the year of the era, so a year before 1 counts
  backwards; it always prints all six parts, so the code's test for a missing one never fires.
\<close>

definition format_parts :: "(int \<Rightarrow> int) \<Rightarrow> int \<Rightarrow> calendar_parts" where
  "format_parts off t =
     (let l = t + off t; (y, m, d) = civil_from_day (l div ms_per_day); r = l mod ms_per_day
      in \<lparr>cp_year = (if y \<le> 0 then 1 - y else y), cp_month = m + 1, cp_day = d,
          cp_hour = r div 3600000, cp_minute = r div 60000 mod 60, cp_second = r div 1000 mod 60\<rparr>)"

definition billingCalendarParts :: "(int \<Rightarrow> int) \<Rightarrow> jsdate \<Rightarrow> billing_error + calendar_parts" where
  "billingCalendarParts off value =
     and_then (valid_billing_date value) (\<lambda>date. Inr (format_parts off date))"

definition billingDaysInMonth :: "int \<Rightarrow> int \<Rightarrow> int option" where
  "billingDaysInMonth year month =
     map_option (\<lambda>t. snd (snd (civil_from_day (t div ms_per_day)))) (date_UTC year month 0 0 0 0 0)"

text \<open>
  One attempt of the loop that looks for the time whose calendar parts are the wanted ones; a number
  that has become \<open>NaN\<close> is \<^const>\<open>None\<close>.
\<close>

fun adjust_candidate :: "(int \<Rightarrow> int) \<Rightarrow> int option \<Rightarrow> int \<Rightarrow> nat \<Rightarrow> int option \<Rightarrow> billing_error + int option" where
  "adjust_candidate off target millisecond 0 candidate = Inr candidate"
| "adjust_candidate off target millisecond (Suc attempts) candidate =
     and_then (billingCalendarParts off (Option.bind candidate time_clip)) (\<lambda>rendered.
       let renderedWallClock = date_UTC (cp_year rendered) (cp_month rendered - 1) (cp_day rendered)
             (cp_hour rendered) (cp_minute rendered) (cp_second rendered) millisecond
       in case (target, renderedWallClock, candidate) of
            (Some t, Some w, Some c) \<Rightarrow>
              (let adjustment = t - w; c' = c + adjustment
               in if adjustment = 0 then Inr (Some c')
                  else adjust_candidate off target millisecond attempts (Some c'))
          | _ \<Rightarrow> adjust_candidate off target millisecond attempts None)"

definition billingDateTime ::
    "(int \<Rightarrow> int) \<Rightarrow> int \<Rightarrow> int \<Rightarrow> int \<Rightarrow> int \<Rightarrow> int \<Rightarrow> int \<Rightarrow> int \<Rightarrow> billing_error + jsdate" where
  "billingDateTime off year month day hour minute second millisecond =
     (if month < 1 \<or> month > 12 \<or> day < 1
         \<or> (case billingDaysInMonth year month of None \<Rightarrow> False | Some n \<Rightarrow> day > n)
      then Inl Calendar_Date_Out_Of_Range
      else if hour < 0 \<or> hour > 23 \<or> minute < 0 \<or> minute > 59 \<or> second < 0 \<or> second > 59
         \<or> millisecond < 0 \<or> millisecond > 999
      then Inl Calendar_Time_Out_Of_Range
      else (let targetWallClock = date_UTC year (month - 1) day hour minute second millisecond
            in and_then (adjust_candidate off targetWallClock millisecond 4 targetWallClock)
                 (\<lambda>candidate. Inr (Option.bind candidate time_clip))))"

definition billingStartOfDay :: "(int \<Rightarrow> int) \<Rightarrow> int \<Rightarrow> int \<Rightarrow> int \<Rightarrow> billing_error + jsdate" where
  "billingStartOfDay off year month day = billingDateTime off year month day 0 0 0 0"

definition billingStartOfCalendarDay :: "(int \<Rightarrow> int) \<Rightarrow> jsdate \<Rightarrow> billing_error + jsdate" where
  "billingStartOfCalendarDay off value =
     and_then (billingCalendarParts off value) (\<lambda>p. billingStartOfDay off (cp_year p) (cp_month p) (cp_day p))"

text \<open>A day computed with the length of a month that is not a number is refused by \<open>billingDateTime\<close>.\<close>

definition billingAddMonthsClamped :: "(int \<Rightarrow> int) \<Rightarrow> jsdate \<Rightarrow> int \<Rightarrow> billing_error + jsdate" where
  "billingAddMonthsClamped off value months =
     and_then (valid_billing_date value) (\<lambda>date.
     and_then (billingCalendarParts off (Some date)) (\<lambda>current.
       let monthIndex = cp_year current * 12 + cp_month current - 1 + months;
           year = monthIndex div 12;
           month = monthIndex - year * 12 + 1
       in case billingDaysInMonth year month of
            None \<Rightarrow> Inl Invalid_Calendar_Date
          | Some n \<Rightarrow> billingDateTime off year month (min (cp_day current) n) (cp_hour current)
              (cp_minute current) (cp_second current) (date mod 1000)))"

definition billingMonthStart :: "(int \<Rightarrow> int) \<Rightarrow> jsdate \<Rightarrow> billing_error + jsdate" where
  "billingMonthStart off reference =
     and_then (billingCalendarParts off reference) (\<lambda>p. billingStartOfDay off (cp_year p) (cp_month p) 1)"

text \<open>\<open>Math.max(1, Math.floor(Number(v) || 1))\<close>; \<^const>\<open>None\<close> is infinity.\<close>

definition js_infinite :: "jsval \<Rightarrow> bool" where
  "js_infinite v =
     (case v of JPosInf \<Rightarrow> True | JStr s \<Rightarrow> js_trim s = ''Infinity'' \<or> js_trim s = ''+Infinity'' | _ \<Rightarrow> False)"

definition day_floor :: "jsval \<Rightarrow> int option" where
  "day_floor v =
     (if js_infinite v then None
      else Some (max 1 (case js_number v of None \<Rightarrow> 1 | Some q \<Rightarrow> if q = 0 then 1 else \<lfloor>q\<rfloor>)))"

definition at_most :: "int option \<Rightarrow> int \<Rightarrow> int" where
  "at_most a n = (case a of None \<Rightarrow> n | Some i \<Rightarrow> min i n)"

definition billingMonthlyBoundary ::
    "(int \<Rightarrow> int) \<Rightarrow> jsdate \<Rightarrow> jsval \<Rightarrow> int \<Rightarrow> jsval \<Rightarrow> billing_error + jsdate" where
  "billingMonthlyBoundary off reference resetDay monthOffset maximumResetDay =
     and_then (billingCalendarParts off reference) (\<lambda>current.
       let monthIndex = cp_year current * 12 + cp_month current - 1 + monthOffset;
           year = monthIndex div 12;
           month = monthIndex - year * 12 + 1;
           maximum = day_floor maximumResetDay;
           requested = day_floor resetDay
       in case billingDaysInMonth year month of
            None \<Rightarrow> Inl Invalid_Calendar_Date
          | Some n \<Rightarrow> billingStartOfDay off year month (at_most requested (at_most maximum n)))"

section \<open>The calendar is sound\<close>

lemma div_bounds:
  fixes a n :: int
  assumes "0 < n"
  shows "n * (a div n) \<le> a" "a < n * (a div n) + n"
  using pos_mod_bound [OF assms, of a] pos_mod_sign [OF assms, of a] minus_mod_eq_mult_div [of a n] by linarith+

lemma div_unique_bounds:
  fixes a n q :: int
  assumes "n * q \<le> a" "a < n * q + n"
  shows "a div n = q"
  using assms by (intro int_div_pos_eq [of a n q "a - n * q"]) auto

lemma div_step:
  fixes a n :: int
  assumes n: "0 < n"
  shows "(a + 1) div n = a div n + (if n dvd a + 1 then 1 else 0)"
proof (cases "n dvd a + 1")
  case True
  then obtain k where k: "a + 1 = n * k" ..
  have "a div n = k - 1" by (rule div_unique_bounds) (use k n in \<open>simp_all add: algebra_simps\<close>)
  with k True n show ?thesis by simp
next
  case False
  have "a + 1 \<noteq> n * (a div n + 1)" using False by (metis dvd_triv_left)
  then have "(a + 1) div n = a div n"
    using div_bounds [OF n, of a] by (intro div_unique_bounds) (simp_all add: algebra_simps)
  with False show ?thesis by simp
qed

lemma dvd_shift:
  fixes n c y :: int
  assumes "n dvd c"
  shows "n dvd y - c \<longleftrightarrow> n dvd y"
  using assms by (metis dvd_add_right_iff diff_add_cancel dvd_diff)

lemma leap_year_dvd: "leap_year y \<longleftrightarrow> 4 dvd y \<and> (\<not> 100 dvd y \<or> 400 dvd y)"
  by (simp add: leap_year_def dvd_eq_mod_eq_0)

lemma day_from_year_step:
  "day_from_year (y + 1) = day_from_year y + (if leap_year y then 366 else 365)"
proof -
  define a b c where "a = (y - 1969) div 4" and "b = (y - 1901) div 100" and "c = (y - 1601) div 400"
  have "(y + 1 - 1969) div 4 = a + (if 4 dvd y then 1 else 0)"
       "(y + 1 - 1901) div 100 = b + (if 100 dvd y then 1 else 0)"
       "(y + 1 - 1601) div 400 = c + (if 400 dvd y then 1 else 0)"
    using div_step [of 4 "y - 1969"] div_step [of 100 "y - 1901"] div_step [of 400 "y - 1601"]
      dvd_shift [of 4 1968 y] dvd_shift [of 100 1900 y] dvd_shift [of 400 1600 y]
    by (simp_all add: a_def b_def c_def add.commute diff_add_eq)
  moreover have "400 dvd y \<Longrightarrow> 100 dvd y" "100 dvd y \<Longrightarrow> 4 dvd y"
    using dvd_trans [of 100 400 y] dvd_trans [of 4 100 y] by simp_all
  ultimately show ?thesis
    unfolding day_from_year_def leap_year_dvd a_def [symmetric] b_def [symmetric] c_def [symmetric]
    by (cases "4 dvd y"; cases "100 dvd y"; cases "400 dvd y") simp_all
qed

lemma day_from_year_mono: "y < y' \<Longrightarrow> day_from_year y < day_from_year y'"
proof (induction "nat (y' - y - 1)" arbitrary: y')
  case 0
  then have "y' = y + 1" by linarith
  then show ?case using day_from_year_step [of y] by simp
next
  case (Suc n)
  then have "day_from_year y < day_from_year (y' - 1)" by simp
  then show ?case using day_from_year_step [of "y' - 1"] by (simp split: if_splits)
qed

text \<open>The estimate: a day is at most a year away from the mean length of the years before it.\<close>

lemma year_from_day_bounds:
  "day_from_year (year_from_day d) \<le> d \<and> d < day_from_year (year_from_day d + 1)"
proof -
  define y where "y = 1970 + (400 * d) div 146097"
  have e: "146097 * (y - 1970) \<le> 400 * d" "400 * d < 146097 * (y - 1970) + 146097"
    using div_bounds [of 146097 "400 * d"] by (simp_all add: y_def)
  have mean: "146097 * (x - 1970) - 400 * 2 \<le> 400 * day_from_year x \<and> 400 * day_from_year x \<le> 146097 * (x - 1970) + 400 * 2"
    for x :: int
  proof -
    define a b c where "a = (x - 1969) div 4" and "b = (x - 1901) div 100" and "c = (x - 1601) div 400"
    have "4 * a \<le> x - 1969" "x - 1969 < 4 * a + 4" "100 * b \<le> x - 1901" "x - 1901 < 100 * b + 100"
         "400 * c \<le> x - 1601" "x - 1601 < 400 * c + 400"
      unfolding a_def b_def c_def using div_bounds [of _ "_ :: int"] by (simp_all add: div_bounds)
    then show ?thesis unfolding day_from_year_def a_def [symmetric] b_def [symmetric] c_def [symmetric] by simp
  qed
  have low: "day_from_year (y - 1) \<le> d" using e mean [of "y - 1"] by simp
  have high: "d < day_from_year (y + 2)" using e mean [of "y + 2"] by simp
  show ?thesis
    using low high by (auto simp: year_from_day_def Let_def y_def [symmetric] add.assoc)
qed

lemma year_from_day_unique:
  assumes "day_from_year y \<le> d" "d < day_from_year (y + 1)"
  shows "year_from_day d = y"
  using assms year_from_day_bounds [of d] day_from_year_mono [of "year_from_day d + 1" y]
    day_from_year_mono [of "y + 1" "year_from_day d"]
  by (cases "year_from_day d + 1 = y"; cases "year_from_day d = y + 1") fastforce+

text \<open>Months.  The index \<open>12 * year + month\<close> makes the first days of the months one increasing sequence.\<close>

lemmas days_before_eval = days_before_def [where m = 0] days_before_def [where m = 1]
  days_before_def [where m = "numeral n" for n] days_before_def [where m = "- numeral n" for n]

definition month_length :: "int \<Rightarrow> int" where
  "month_length k = first_of_month (k + 1) - first_of_month k"

lemma month_cases:
  assumes "0 \<le> m" "m < (12::int)"
  obtains "m = 0" | "m = 1" | "m = 2" | "m = 3" | "m = 4" | "m = 5" | "m = 6" | "m = 7" | "m = 8"
    | "m = 9" | "m = 10" | "m = 11"
proof -
  have "m = 0 \<or> m = 1 \<or> m = 2 \<or> m = 3 \<or> m = 4 \<or> m = 5 \<or> m = 6 \<or> m = 7 \<or> m = 8 \<or> m = 9 \<or> m = 10 \<or> m = 11"
    using assms by arith
  then show ?thesis using that by blast
qed

lemma first_of_month_next:
  assumes "0 \<le> m" "m < 12"
  shows "first_of_month (12 * y + m + 1) = day_from_year y + days_before (leap_year y) (m + 1)"
proof (cases "m = 11")
  case True
  have "12 * y + m + 1 = 12 * (y + 1)" using True by simp
  then have "(12 * y + m + 1) div 12 = y + 1" "(12 * y + m + 1) mod 12 = 0" by (metis nonzero_mult_div_cancel_left zero_neq_numeral, simp)
  then show ?thesis using True day_from_year_step [of y] by (simp add: first_of_month_def days_before_eval add.commute)
next
  case False
  have "(12 * y + (m + 1)) div 12 = y" by (rule div_unique_bounds) (use False assms in simp_all)
  moreover have "(12 * y + (m + 1)) mod 12 = m + 1" using False assms by (simp add: mod_pos_pos_trivial)
  ultimately show ?thesis by (simp add: first_of_month_def add.assoc)
qed

lemma first_of_month_year:
  assumes "0 \<le> m" "m < 12"
  shows "first_of_month (12 * y + m) = day_from_year y + days_before (leap_year y) m"
proof -
  have "(12 * y + m) div 12 = y" by (rule div_unique_bounds) (use assms in simp_all)
  moreover have "(12 * y + m) mod 12 = m" using assms by (simp add: mod_pos_pos_trivial)
  ultimately show ?thesis by (simp add: first_of_month_def)
qed

lemma month_split:
  obtains y m where "k = 12 * y + m" "0 \<le> m" "m < (12::int)"
proof
  show "k = 12 * (k div 12) + k mod 12" by simp
qed simp_all

lemma month_length_bounds: "28 \<le> month_length k" "month_length k \<le> 31"
proof -
  obtain y m where k: "k = 12 * y + m" "0 \<le> m" "m < 12" by (rule month_split)
  have "month_length k = days_before (leap_year y) (m + 1) - days_before (leap_year y) m"
    using first_of_month_next [of m y] first_of_month_year [of m y] k by (simp add: month_length_def)
  then have "28 \<le> month_length k \<and> month_length k \<le> 31"
    by (cases rule: month_cases [OF k(2,3)]; cases "leap_year y"; simp add: days_before_eval)
  then show "28 \<le> month_length k" "month_length k \<le> 31" by simp_all
qed

lemma first_of_month_mono: "k \<le> k' \<Longrightarrow> first_of_month k + 28 * (k' - k) \<le> first_of_month k'"
proof (induction "nat (k' - k)" arbitrary: k')
  case 0
  then show ?case by simp
next
  case (Suc n)
  have "n = nat (k' - 1 - k)" "k \<le> k' - 1" using Suc.hyps(2) by linarith+
  then have "first_of_month k + 28 * (k' - 1 - k) \<le> first_of_month (k' - 1)" by (rule Suc.hyps(1))
  then show ?case using month_length_bounds(1) [of "k' - 1"] by (simp add: month_length_def)
qed

text \<open>Every day has one month and one day of the month.\<close>

lemma month_from_day_bounds:
  assumes "0 \<le> k" "k < (if leap then 366 else 365)"
  shows "0 \<le> month_from_day leap k" "month_from_day leap k < 12"
    "days_before leap (month_from_day leap k) \<le> k" "k < days_before leap (month_from_day leap k + 1)"
  using assms by (auto simp: month_from_day_def days_before_eval split: if_splits)

lemma month_from_day_unique:
  assumes "0 \<le> m" "m < 12" "days_before leap m \<le> k" "k < days_before leap (m + 1)"
  shows "month_from_day leap k = m"
  using assms(3,4)
  by (cases rule: month_cases [OF assms(1,2)]; cases leap; simp add: month_from_day_def days_before_eval)

lemma days_before_year: "0 \<le> m \<Longrightarrow> m < 12 \<Longrightarrow> days_before leap (m + 1) \<le> (if leap then 366 else 365)"
  by (erule (1) month_cases; cases leap; simp add: days_before_eval)

lemma days_before_nonneg: "0 \<le> days_before leap m"
  by (simp add: days_before_def)

lemma civil_from_first:
  assumes m: "0 \<le> m" "m < 12" and d: "1 \<le> d" "d \<le> month_length (12 * y + m)"
  shows "civil_from_day (first_of_month (12 * y + m) + d - 1) = (y, m, d)"
proof -
  define k where "k = days_before (leap_year y) m + d - 1"
  have k: "days_before (leap_year y) m \<le> k" "k < days_before (leap_year y) (m + 1)"
    using d first_of_month_next [OF m, of y] first_of_month_year [OF m, of y]
    by (simp_all add: k_def month_length_def)
  then have "0 \<le> k" "k < (if leap_year y then 366 else 365)"
    using days_before_nonneg [of "leap_year y" m] days_before_year [OF m, of "leap_year y"] by linarith+
  then have "year_from_day (day_from_year y + k) = y"
    by (intro year_from_day_unique) (simp_all add: day_from_year_step)
  moreover have "first_of_month (12 * y + m) + d - 1 = day_from_year y + k"
    by (simp add: first_of_month_year [OF m] k_def)
  moreover have "k - days_before (leap_year y) m + 1 = d" by (simp add: k_def)
  ultimately show ?thesis
    unfolding civil_from_day_def Let_def by (simp add: month_from_day_unique [OF m k])
qed

lemma civil_from_day_sound:
  assumes "civil_from_day D = (y, m, d)"
  shows "0 \<le> m" "m < 12" "1 \<le> d" "d \<le> month_length (12 * y + m)" "first_of_month (12 * y + m) + d - 1 = D"
    "day_from_year y \<le> D" "D < day_from_year (y + 1)"
proof -
  define k where "k = D - day_from_year (year_from_day D)"
  have y: "y = year_from_day D" and m: "m = month_from_day (leap_year y) k" and d: "d = k - days_before (leap_year y) m + 1"
    using assms by (auto simp: civil_from_day_def Let_def k_def)
  have "0 \<le> k" "k < (if leap_year y then 366 else 365)"
    using year_from_day_bounds [of D] by (auto simp: k_def y day_from_year_step)
  note b = month_from_day_bounds [OF this, folded m]
  show "0 \<le> m" "m < 12" "day_from_year y \<le> D" "D < day_from_year (y + 1)"
    using b year_from_day_bounds [of D] by (simp_all add: y)
  show "1 \<le> d" "d \<le> month_length (12 * y + m)" "first_of_month (12 * y + m) + d - 1 = D"
    using b first_of_month_next [OF b(1,2), of y] first_of_month_year [OF b(1,2), of y]
    by (simp_all add: d month_length_def k_def y)
qed

section \<open>The billing zone\<close>

definition billing_epoch :: int where
  "billing_epoch = 694195200000"

definition billing_limit :: int where
  "billing_limit = 253402272000000"

text \<open>From the beginning of 1992 to the end of 9999, in the billing zone.\<close>

definition in_billing_range :: "int \<Rightarrow> bool" where
  "in_billing_range t \<longleftrightarrow> billing_epoch \<le> t \<and> t < billing_limit"

abbreviation zone_ms :: int where
  "zone_ms \<equiv> 28800000"

definition shanghai_zone :: "(int \<Rightarrow> int) \<Rightarrow> bool" where
  "shanghai_zone off = (\<forall>t. billing_epoch \<le> t \<longrightarrow> off t = zone_ms)"

text \<open>The parts of a date and time that exists, and its time as if the zone were UTC.\<close>

definition valid_parts :: "calendar_parts \<Rightarrow> bool" where
  "valid_parts p \<longleftrightarrow> 1992 \<le> cp_year p \<and> cp_year p \<le> 9999 \<and> 1 \<le> cp_month p \<and> cp_month p \<le> 12
     \<and> 1 \<le> cp_day p \<and> cp_day p \<le> month_length (12 * cp_year p + (cp_month p - 1))
     \<and> 0 \<le> cp_hour p \<and> cp_hour p \<le> 23 \<and> 0 \<le> cp_minute p \<and> cp_minute p \<le> 59 \<and> 0 \<le> cp_second p \<and> cp_second p \<le> 59"

definition wall_clock :: "calendar_parts \<Rightarrow> int \<Rightarrow> int" where
  "wall_clock p millisecond =
     (first_of_month (12 * cp_year p + (cp_month p - 1)) + cp_day p - 1) * ms_per_day
     + clock_ms (cp_hour p) (cp_minute p) (cp_second p) millisecond"

lemma shanghai_zoneD: "shanghai_zone off \<Longrightarrow> billing_epoch \<le> t \<Longrightarrow> off t = zone_ms"
  by (simp add: shanghai_zone_def)

lemma clock_ms_bounds:
  assumes "0 \<le> h" "h \<le> 23" "0 \<le> mi" "mi \<le> 59" "0 \<le> s" "s \<le> 59" "0 \<le> ms" "ms \<le> 999"
  shows "0 \<le> clock_ms h mi s ms" "clock_ms h mi s ms < ms_per_day"
  using assms by (simp_all add: clock_ms_def)

lemma clock_ms_parts:
  assumes "0 \<le> h" "h \<le> 23" "0 \<le> mi" "mi \<le> 59" "0 \<le> s" "s \<le> 59" "0 \<le> ms" "ms \<le> 999"
  shows "clock_ms h mi s ms div 3600000 = h" "clock_ms h mi s ms div 60000 mod 60 = mi"
    "clock_ms h mi s ms div 1000 mod 60 = s" "clock_ms h mi s ms mod 1000 = ms"
proof -
  let ?c = "clock_ms h mi s ms"
  have a: "?c div 3600000 = h" "?c div 60000 = 60 * h + mi" "?c div 1000 = 60 * (60 * h + mi) + s"
    by (rule div_unique_bounds; use assms in \<open>simp add: clock_ms_def\<close>)+
  show "?c div 3600000 = h" by (rule a)
  show "?c div 60000 mod 60 = mi" "?c div 1000 mod 60 = s"
    using assms mod_mult_self4 [of 60 h mi] mod_mult_self4 [of 60 "60 * h + mi" s]
    by (simp_all only: a) (simp_all add: mod_pos_pos_trivial)
  show "?c mod 1000 = ms"
    using assms mod_mult_self4 [of 1000 "60 * (60 * h + mi) + s" ms]
    by (simp only: clock_ms_def) (simp add: mod_pos_pos_trivial algebra_simps)
qed

lemma clock_ms_of_parts:
  assumes "0 \<le> r" "r < ms_per_day"
  shows "clock_ms (r div 3600000) (r div 60000 mod 60) (r div 1000 mod 60) (r mod 1000) = r"
proof -
  have "r div 60000 div 60 = r div 3600000" "r div 1000 div 60 = r div 60000"
    using zdiv_zmult2_eq [of 60 r 60000] zdiv_zmult2_eq [of 60 r 1000] by simp_all
  then show ?thesis
    using div_mult_mod_eq [of "r div 60000" 60] div_mult_mod_eq [of "r div 1000" 60] div_mult_mod_eq [of r 1000]
    by (simp add: clock_ms_def)
qed

text \<open>Days of the supported years.\<close>

lemma year_days: "day_from_year 1992 = 8035" "day_from_year 10000 = 2932897"
  by (simp_all add: day_from_year_def)

lemma first_of_month_range:
  assumes "12 * 1992 \<le> k" "k \<le> 12 * 10000"
  shows "8035 \<le> first_of_month k" "first_of_month k \<le> 2932897"
proof -
  have "first_of_month (12 * 1992) = 8035" "first_of_month (12 * 10000) = 2932897"
    using first_of_month_year [of 0 1992] first_of_month_year [of 0 10000] by (simp_all add: year_days days_before_eval)
  then show "8035 \<le> first_of_month k" "first_of_month k \<le> 2932897"
    using first_of_month_mono [OF assms(1)] first_of_month_mono [OF assms(2)] assms by simp_all
qed

lemma wall_clock_bounds:
  assumes p: "valid_parts p" and ms: "0 \<le> ms" "ms \<le> 999"
  shows "in_billing_range (wall_clock p ms - zone_ms)"
    and "wall_clock p ms div ms_per_day = first_of_month (12 * cp_year p + (cp_month p - 1)) + cp_day p - 1"
    and "wall_clock p ms mod ms_per_day = clock_ms (cp_hour p) (cp_minute p) (cp_second p) ms"
proof -
  let ?k = "12 * cp_year p + (cp_month p - 1)" and ?c = "clock_ms (cp_hour p) (cp_minute p) (cp_second p) ms"
  define D where "D = first_of_month ?k + cp_day p - 1"
  have c: "0 \<le> ?c" "?c < ms_per_day"
    by (rule clock_ms_bounds; use p ms in \<open>simp add: valid_parts_def\<close>)+
  have w: "wall_clock p ms = ms_per_day * D + ?c" by (simp add: wall_clock_def D_def)
  show "wall_clock p ms div ms_per_day = first_of_month ?k + cp_day p - 1"
    unfolding D_def [symmetric] by (rule div_unique_bounds) (use c w in simp_all)
  show "wall_clock p ms mod ms_per_day = ?c" using c by (simp add: w mod_pos_pos_trivial)
  have k: "12 * 1992 \<le> ?k" "?k + 1 \<le> 12 * 10000" using p by (simp_all add: valid_parts_def)
  have "8035 \<le> D" "D < 2932897"
    using first_of_month_range(1) [of ?k] first_of_month_range(2) [of "?k + 1"] k p
    by (simp_all add: D_def valid_parts_def month_length_def)
  then show "in_billing_range (wall_clock p ms - zone_ms)"
    using c w by (simp add: in_billing_range_def billing_epoch_def billing_limit_def)
qed

lemma format_of_wall:
  assumes p: "valid_parts p" and ms: "0 \<le> ms" "ms \<le> 999" and off: "off t = zone_ms" and t: "t + zone_ms = wall_clock p ms"
  shows "format_parts off t = p"
proof -
  note w = wall_clock_bounds [OF p ms]
  have civil: "civil_from_day (wall_clock p ms div ms_per_day) = (cp_year p, cp_month p - 1, cp_day p)"
    unfolding w(2) by (rule civil_from_first) (use p in \<open>simp_all add: valid_parts_def\<close>)
  have clock: "clock_ms (cp_hour p) (cp_minute p) (cp_second p) ms div 3600000 = cp_hour p"
     "clock_ms (cp_hour p) (cp_minute p) (cp_second p) ms div 60000 mod 60 = cp_minute p"
     "clock_ms (cp_hour p) (cp_minute p) (cp_second p) ms div 1000 mod 60 = cp_second p"
    by (rule clock_ms_parts; use p ms in \<open>simp add: valid_parts_def\<close>)+
  have y: "1992 \<le> cp_year p" using p by (simp add: valid_parts_def)
  then have "\<not> cp_year p \<le> 0" by linarith
  then show ?thesis
    unfolding format_parts_def Let_def off t civil w(3) prod.case clock by simp
qed

lemma wall_of_format:
  assumes off: "off t = zone_ms" and year: "day_from_year 100 \<le> (t + zone_ms) div ms_per_day"
  shows "wall_clock (format_parts off t) (t mod 1000) = t + zone_ms"
    and "100 \<le> cp_year (format_parts off t)"
proof -
  obtain y m d where c: "civil_from_day ((t + zone_ms) div ms_per_day) = (y, m, d)" by (metis prod_cases3)
  note s = civil_from_day_sound [OF c]
  have y: "100 \<le> y" using day_from_year_mono [of "y + 1" 100] s(7) year by (cases "y + 1 = 100"; cases "y < 99") auto
  define r where "r = (t + zone_ms) mod ms_per_day"
  have r: "0 \<le> r" "r < ms_per_day" by (simp_all add: r_def)
  have p: "format_parts off t = \<lparr>cp_year = y, cp_month = m + 1, cp_day = d, cp_hour = r div 3600000,
      cp_minute = r div 60000 mod 60, cp_second = r div 1000 mod 60\<rparr>"
    using y by (simp add: format_parts_def Let_def off c r_def)
  have "r mod 1000 = (t + zone_ms) mod 1000" unfolding r_def by (simp add: mod_mod_cancel)
  also have "\<dots> = t mod 1000" using mod_mult_self2 [of t 1000 28800] by simp
  finally have "t mod 1000 = r mod 1000" ..
  then have "wall_clock (format_parts off t) (t mod 1000) = ((t + zone_ms) div ms_per_day) * ms_per_day + r"
    unfolding wall_clock_def p calendar_parts.simps by (simp only: clock_ms_of_parts [OF r] add_diff_cancel_right' s(5))
  then show "wall_clock (format_parts off t) (t mod 1000) = t + zone_ms"
    unfolding r_def by (simp only: div_mult_mod_eq)
  show "100 \<le> cp_year (format_parts off t)" using y by (simp add: p)
qed

lemma format_valid:
  assumes off: "shanghai_zone off" and t: "in_billing_range t"
  shows "valid_parts (format_parts off t)"
proof -
  have o8: "off t = zone_ms" using shanghai_zoneD [OF off] t by (simp add: in_billing_range_def)
  define D where "D = (t + zone_ms) div ms_per_day"
  define r where "r = (t + zone_ms) mod ms_per_day"
  obtain y m d where c: "civil_from_day D = (y, m, d)" by (metis prod_cases3)
  note s = civil_from_day_sound [OF c]
  have D: "8035 \<le> D" "D < 2932897"
    using t div_bounds [of ms_per_day "t + zone_ms"]
    by (simp_all add: D_def [symmetric] in_billing_range_def billing_epoch_def billing_limit_def)
  have y: "1992 \<le> y" "y \<le> 9999"
    using day_from_year_mono [of "y + 1" 1992] day_from_year_mono [of 10000 y] s(6,7) D year_days
    by (cases "y + 1 = 1992"; cases "y = 10000"; force)+
  have r: "0 \<le> r" "r < ms_per_day" by (simp_all add: r_def)
  have m60: "x mod 60 \<le> 59" for x :: int using pos_mod_bound [of 60 x] by simp
  have h: "0 \<le> r div 3600000" "r div 3600000 \<le> 23" using r div_bounds [of 3600000 r] by simp_all
  show ?thesis
    using y s(1-4) h m60 by (simp add: valid_parts_def format_parts_def Let_def o8 D_def [symmetric] r_def [symmetric] c)
qed

lemma time_clip_range: "0 \<le> t \<Longrightarrow> t \<le> billing_limit + ms_per_day \<Longrightarrow> time_clip t = Some t"
  by (simp add: time_clip_def max_time_def billing_limit_def)

lemma date_UTC_parts:
  assumes "100 \<le> cp_year p" "0 \<le> wall_clock p ms" "wall_clock p ms \<le> billing_limit + ms_per_day"
  shows "date_UTC (cp_year p) (cp_month p - 1) (cp_day p) (cp_hour p) (cp_minute p) (cp_second p) ms
    = Some (wall_clock p ms)"
  using assms time_clip_range [OF assms(2,3)] by (simp add: date_UTC_def utc_year_def wall_clock_def)

lemma billingCalendarParts_Some [simp]: "billingCalendarParts off (Some t) = Inr (format_parts off t)"
  by (simp add: billingCalendarParts_def valid_billing_date_def)

lemma billingDaysInMonth_eq:
  assumes "12 * 1992 \<le> k" "k < 12 * 10000"
  shows "billingDaysInMonth (k div 12) (k - (k div 12) * 12 + 1) = Some (month_length k)"
proof -
  define y m where "y = k div 12" and "m = k mod 12"
  have k: "k = 12 * y + m" "0 \<le> m" "m < 12" by (simp_all add: y_def m_def)
  have y: "1992 \<le> y" using assms k by linarith
  let ?D = "first_of_month (k + 1) - 1"
  have "8035 \<le> first_of_month (k + 1)" "first_of_month (k + 1) \<le> 2932897"
    using first_of_month_range [of "k + 1"] assms by simp_all
  then have clip: "time_clip (?D * ms_per_day) = Some (?D * ms_per_day)"
    by (intro time_clip_range) (simp_all add: billing_limit_def)
  have "first_of_month (12 * y + m) + month_length k - 1 = ?D" by (simp add: month_length_def k(1) [symmetric])
  then have "civil_from_day ?D = (y, m, month_length k)"
    using civil_from_first [of m "month_length k" y] k month_length_bounds [of k] by simp
  moreover have "k - (k div 12) * 12 + 1 = m + 1" "k div 12 = y" using k by (simp_all add: y_def)
  moreover have "12 * y + (m + 1) = k + 1" using k by simp
  ultimately show ?thesis
    using y clip by (simp add: billingDaysInMonth_def date_UTC_def utc_year_def clock_ms_def)
qed

text \<open>
  The loop needs two attempts: the first candidate is the wanted time as if the zone were UTC, its
  calendar parts are eight hours ahead, and the second candidate is right.
\<close>

lemma billingDateTime_wall:
  assumes off: "shanghai_zone off" and p: "valid_parts p" and ms: "0 \<le> ms" "ms \<le> 999"
  shows "billingDateTime off (cp_year p) (cp_month p) (cp_day p) (cp_hour p) (cp_minute p) (cp_second p) ms
    = Inr (Some (wall_clock p ms - zone_ms))"
proof -
  define w where "w = wall_clock p ms"
  have range: "billing_epoch \<le> w - zone_ms" "w - zone_ms < billing_limit"
    using wall_clock_bounds(1) [OF p ms] by (simp_all add: in_billing_range_def w_def)
  have nn: "0 \<le> w - zone_ms" using range by (simp add: billing_epoch_def)
  have o: "off w = zone_ms" "off (w - zone_ms) = zone_ms"
    using shanghai_zoneD [OF off] range by simp_all
  have pv: "100 \<le> cp_year p" using p by (simp add: valid_parts_def)
  have target: "date_UTC (cp_year p) (cp_month p - 1) (cp_day p) (cp_hour p) (cp_minute p) (cp_second p) ms = Some w"
    unfolding w_def by (rule date_UTC_parts [OF pv]) (use range nn in \<open>simp_all add: w_def\<close>)
  have wms: "w mod 1000 = ms"
  proof -
    have "w mod 1000 = w mod ms_per_day mod 1000" by (simp add: mod_mod_cancel)
    also have "\<dots> = ms"
      unfolding w_def wall_clock_bounds(3) [OF p ms] by (rule clock_ms_parts(4)) (use p ms in \<open>simp_all add: valid_parts_def\<close>)
    finally show ?thesis .
  qed
  define q where "q = format_parts off w"
  have yd: "day_from_year 100 \<le> (w + zone_ms) div ms_per_day"
  proof -
    have "0 \<le> (w + zone_ms) div ms_per_day" using nn by simp
    then show ?thesis by (simp add: day_from_year_def)
  qed
  have q: "wall_clock q ms = w + zone_ms" "100 \<le> cp_year q"
    using wall_of_format [of off w, OF o(1) yd] by (simp_all add: q_def wms)
  have first: "date_UTC (cp_year q) (cp_month q - 1) (cp_day q) (cp_hour q) (cp_minute q) (cp_second q) ms = Some (w + zone_ms)"
    using date_UTC_parts [OF q(2), of ms] range nn by (simp add: q(1))
  have second: "format_parts off (w - zone_ms) = p"
    by (rule format_of_wall [of p ms off, OF p ms o(2)]) (simp add: w_def)
  have clips: "time_clip w = Some w" "time_clip (w - zone_ms) = Some (w - zone_ms)"
    using range nn by (intro time_clip_range; simp)+
  have loop: "adjust_candidate off (Some w) ms 4 (Some w) = Inr (Some (w - zone_ms))"
    unfolding numeral_eq_Suc pred_numeral_simps BitM.simps
    by (simp add: clips q_def [symmetric] first second target Let_def)
  let ?k = "12 * cp_year p + (cp_month p - 1)"
  have "?k div 12 = cp_year p" by (rule div_unique_bounds) (use p in \<open>simp_all add: valid_parts_def\<close>)
  then have dim: "billingDaysInMonth (cp_year p) (cp_month p) = Some (month_length ?k)"
    using billingDaysInMonth_eq [of ?k] p by (simp add: valid_parts_def)
  show ?thesis
    unfolding billingDateTime_def dim target Let_def loop and_then.simps w_def [symmetric]
    using p ms clips by (auto simp: valid_parts_def)
qed

section \<open>What the functions of the calendar return\<close>

text \<open>The month of an instant as an index, and the beginning of a day of a month.\<close>

definition month_index :: "calendar_parts \<Rightarrow> int" where
  "month_index p = 12 * cp_year p + (cp_month p - 1)"

definition day_start :: "int \<Rightarrow> int \<Rightarrow> int" where
  "day_start k day = (first_of_month k + day - 1) * ms_per_day - zone_ms"

lemma wall_of_range:
  assumes "shanghai_zone off" "in_billing_range t"
  shows "wall_clock (format_parts off t) (t mod 1000) = t + zone_ms"
proof (rule wall_of_format)
  show "off t = zone_ms" using shanghai_zoneD assms by (simp add: in_billing_range_def)
  have "0 \<le> t" using assms(2) by (simp add: in_billing_range_def billing_epoch_def)
  then have "0 \<le> (t + zone_ms) div ms_per_day" by simp
  then show "day_from_year 100 \<le> (t + zone_ms) div ms_per_day" by (simp add: day_from_year_def)
qed

lemma month_index_range:
  "valid_parts p \<Longrightarrow> 12 * 1992 \<le> month_index p \<and> month_index p < 12 * 10000"
  by (simp add: valid_parts_def month_index_def)

text \<open>The parts at month \<open>k\<close>, as the functions pass them to \<open>billingDateTime\<close>.\<close>

definition parts_at :: "int \<Rightarrow> int \<Rightarrow> calendar_parts \<Rightarrow> calendar_parts" where
  "parts_at k day p = p\<lparr>cp_year := k div 12, cp_month := k - (k div 12) * 12 + 1, cp_day := day\<rparr>"

lemma parts_at_valid:
  assumes "12 * 1992 \<le> k" "k < 12 * 10000" "1 \<le> day" "day \<le> month_length k" "valid_parts p"
  shows "valid_parts (parts_at k day p)" "month_index (parts_at k day p) = k"
proof -
  have m: "k - (k div 12) * 12 = k mod 12" "12 * (k div 12) + k mod 12 = k" "0 \<le> k mod 12" "k mod 12 < 12"
    by (simp_all add: minus_div_mult_eq_mod)
  then show "month_index (parts_at k day p) = k" by (simp add: month_index_def parts_at_def)
  define y r where "y = k div 12" and "r = k - y * 12"
  have r: "0 \<le> r" "r < 12" "12 * y + r = k" using m by (simp_all add: y_def r_def)
  then have "1992 \<le> y" "y \<le> 9999" using assms(1,2) by linarith+
  then show "valid_parts (parts_at k day p)"
    using assms(3-5) r by (simp add: valid_parts_def parts_at_def y_def [symmetric] r_def [symmetric])
qed

lemma billingStartOfDay_eq:
  assumes off: "shanghai_zone off" and k: "12 * 1992 \<le> k" "k < 12 * 10000" and d: "1 \<le> d" "d \<le> month_length k"
  shows "billingStartOfDay off (k div 12) (k - (k div 12) * 12 + 1) d = Inr (Some (day_start k d))"
proof -
  let ?z = "\<lparr>cp_year = 1992, cp_month = 1, cp_day = 1, cp_hour = 0, cp_minute = 0, cp_second = 0\<rparr>"
  have "valid_parts ?z" using month_length_bounds [of "12 * 1992"] by (simp add: valid_parts_def)
  note p = parts_at_valid [OF k d this]
  have "wall_clock (parts_at k d ?z) 0 = day_start k d + zone_ms"
    using p(2) by (simp add: wall_clock_def month_index_def day_start_def clock_ms_def parts_at_def)
  then show ?thesis
    using billingDateTime_wall [OF off p(1), of 0] by (simp add: billingStartOfDay_def parts_at_def)
qed

lemma month_index_back:
  assumes "valid_parts p"
  shows "month_index p div 12 = cp_year p" "month_index p - (month_index p div 12) * 12 + 1 = cp_month p"
proof -
  show "month_index p div 12 = cp_year p"
    by (rule div_unique_bounds) (use assms in \<open>simp_all add: valid_parts_def month_index_def\<close>)
  then show "month_index p - (month_index p div 12) * 12 + 1 = cp_month p" by (simp add: month_index_def)
qed

lemma billingStartOfCalendarDay_eq:
  assumes off: "shanghai_zone off" and t: "in_billing_range t"
  shows "billingStartOfCalendarDay off (Some t)
    = Inr (Some (day_start (month_index (format_parts off t)) (cp_day (format_parts off t))))"
proof -
  define p where "p = format_parts off t"
  have p: "valid_parts p" unfolding p_def by (rule format_valid [OF off t])
  have "1 \<le> cp_day p" "cp_day p \<le> month_length (month_index p)"
    using p by (simp_all add: valid_parts_def month_index_def)
  then show ?thesis
    using billingStartOfDay_eq [OF off, of "month_index p" "cp_day p"] month_index_range [OF p] month_index_back [OF p]
    by (simp add: billingStartOfCalendarDay_def p_def [symmetric])
qed

text \<open>The date with the time of the day of \<open>t\<close> on day \<open>d\<close> of month \<open>k\<close>.\<close>

lemma billingDateTime_moved:
  assumes off: "shanghai_zone off" and t: "in_billing_range t"
    and k: "12 * 1992 \<le> k" "k < 12 * 10000" and d: "1 \<le> d" "d \<le> month_length k"
  obtains t' where
    "billingDateTime off (k div 12) (k - (k div 12) * 12 + 1) d (cp_hour (format_parts off t))
       (cp_minute (format_parts off t)) (cp_second (format_parts off t)) (t mod 1000) = Inr (Some t')"
    "in_billing_range t'" "month_index (format_parts off t') = k" "cp_day (format_parts off t') = d"
    "(t' + zone_ms) mod ms_per_day = (t + zone_ms) mod ms_per_day"
proof -
  define p where "p = format_parts off t"
  have p: "valid_parts p" unfolding p_def by (rule format_valid [OF off t])
  define q where "q = parts_at k d p"
  note q = parts_at_valid [OF k d p, folded q_def]
  define ms where "ms = t mod 1000"
  have ms: "0 \<le> ms" "ms \<le> 999" using pos_mod_bound [of 1000 t] by (simp_all add: ms_def)
  define t' where "t' = wall_clock q ms - zone_ms"
  have t': "in_billing_range t'" unfolding t'_def by (rule wall_clock_bounds(1) [OF q(1) ms])
  have "off t' = zone_ms" using shanghai_zoneD [OF off] t' by (simp add: in_billing_range_def)
  then have f: "format_parts off t' = q" by (rule format_of_wall [OF q(1) ms]) (simp add: t'_def)
  have r: "billingDateTime off (k div 12) (k - (k div 12) * 12 + 1) d (cp_hour p) (cp_minute p) (cp_second p) ms
      = Inr (Some t')"
    using billingDateTime_wall [OF off q(1) ms] by (simp add: q_def parts_at_def t'_def)
  have w: "wall_clock p ms = t + zone_ms" unfolding p_def ms_def by (rule wall_of_range [OF off t])
  have "(t' + zone_ms) mod ms_per_day = clock_ms (cp_hour p) (cp_minute p) (cp_second p) ms"
    using wall_clock_bounds(3) [OF q(1) ms] by (simp add: t'_def) (simp add: q_def parts_at_def)
  also have "\<dots> = (t + zone_ms) mod ms_per_day" using wall_clock_bounds(3) [OF p ms] w by simp
  finally have time: "(t' + zone_ms) mod ms_per_day = (t + zone_ms) mod ms_per_day" .
  have "cp_day (format_parts off t') = d" by (simp add: f q_def parts_at_def)
  then show ?thesis using that [OF r [unfolded p_def ms_def] t' _ _ time] q(2) f by simp
qed

text \<open>
  Adding months keeps the time of the day and takes the last day of a shorter month; the result is in
  the month asked for.
\<close>

lemma billingAddMonthsClamped_eq:
  assumes off: "shanghai_zone off" and t: "in_billing_range t"
    and k: "k = month_index (format_parts off t) + months" "12 * 1992 \<le> k" "k < 12 * 10000"
  obtains t' where "billingAddMonthsClamped off (Some t) months = Inr (Some t')"
    "in_billing_range t'" "month_index (format_parts off t') = k"
    "cp_day (format_parts off t') = min (cp_day (format_parts off t)) (month_length k)"
    "(t' + zone_ms) mod ms_per_day = (t + zone_ms) mod ms_per_day"
proof -
  define p where "p = format_parts off t"
  define d where "d = min (cp_day p) (month_length k)"
  have d: "1 \<le> d" "d \<le> month_length k"
    using format_valid [OF off t] month_length_bounds [of k] by (simp_all add: d_def p_def valid_parts_def)
  obtain t' where t': "billingDateTime off (k div 12) (k - (k div 12) * 12 + 1) d (cp_hour p) (cp_minute p) (cp_second p)
      (t mod 1000) = Inr (Some t')"
    "in_billing_range t'" "month_index (format_parts off t') = k" "cp_day (format_parts off t') = d"
    "(t' + zone_ms) mod ms_per_day = (t + zone_ms) mod ms_per_day"
    using billingDateTime_moved [OF off t k(2,3) d] unfolding p_def by blast
  have idx: "cp_year p * 12 + cp_month p - 1 + months = k" using k(1) by (simp add: month_index_def p_def [symmetric])
  have "billingAddMonthsClamped off (Some t) months = Inr (Some t')"
    using t'(1) unfolding billingAddMonthsClamped_def valid_billing_date_def option.case and_then.simps billingCalendarParts_Some
      Let_def p_def [symmetric] idx billingDaysInMonth_eq [OF k(2,3)] d_def [symmetric] .
  then show ?thesis using that t' unfolding d_def p_def by blast
qed

lemma billingMonthlyBoundary_eq:
  assumes off: "shanghai_zone off" and t: "in_billing_range t"
    and k: "k = month_index (format_parts off t) + months" "12 * 1992 \<le> k" "k < 12 * 10000"
  shows "billingMonthlyBoundary off (Some t) resetDay months maximum
    = Inr (Some (day_start k (at_most (day_floor resetDay) (at_most (day_floor maximum) (month_length k)))))"
proof -
  have idx: "cp_year (format_parts off t) * 12 + cp_month (format_parts off t) - 1 + months = k"
    using k(1) by (simp add: month_index_def)
  define d where "d = at_most (day_floor resetDay) (at_most (day_floor maximum) (month_length k))"
  have "1 \<le> d" "d \<le> month_length k"
    using month_length_bounds [of k] by (auto simp: d_def at_most_def day_floor_def)
  then have "billingStartOfDay off (k div 12) (k - (k div 12) * 12 + 1) d = Inr (Some (day_start k d))"
    by (rule billingStartOfDay_eq [OF off k(2,3)])
  then show ?thesis
    unfolding billingMonthlyBoundary_def and_then.simps billingCalendarParts_Some Let_def idx
      billingDaysInMonth_eq [OF k(2,3)] option.case d_def .
qed

text \<open>The beginnings of days are ordered as the days are.\<close>

lemma day_start_less:
  assumes "k < k'" "d \<le> month_length k" "1 \<le> d'"
  shows "day_start k d < day_start k' d'"
proof -
  have "first_of_month k + month_length k \<le> first_of_month k'"
    using first_of_month_mono [of "k + 1" k'] assms(1) by (simp add: month_length_def)
  then show ?thesis using assms by (simp add: day_start_def)
qed

lemma day_start_of:
  assumes off: "shanghai_zone off" and t: "in_billing_range t"
  shows "day_start (month_index (format_parts off t)) (cp_day (format_parts off t)) \<le> t"
    "t < day_start (month_index (format_parts off t)) (cp_day (format_parts off t)) + ms_per_day"
proof -
  define p where "p = format_parts off t"
  have p: "valid_parts p" unfolding p_def by (rule format_valid [OF off t])
  have ms: "0 \<le> t mod 1000" "t mod 1000 \<le> 999" using pos_mod_bound [of 1000 t] by simp_all
  have w: "wall_clock p (t mod 1000) = t + zone_ms" unfolding p_def by (rule wall_of_range [OF off t])
  have "first_of_month (month_index p) + cp_day p - 1 = (t + zone_ms) div ms_per_day"
    using wall_clock_bounds(2) [OF p ms] w by (simp add: month_index_def)
  then show "day_start (month_index (format_parts off t)) (cp_day (format_parts off t)) \<le> t"
    "t < day_start (month_index (format_parts off t)) (cp_day (format_parts off t)) + ms_per_day"
    using div_bounds [of ms_per_day "t + zone_ms"] by (simp_all add: day_start_def p_def)
qed

text \<open>
  C17. Calendar parts and instants correspond one to one in the billing zone.  From 1992 to 9999 the parts
  of every instant name a date that exists, and \<open>billingDateTime\<close> on them (with the milliseconds) finds the
  instant again; conversely every existing date and time has an instant whose parts are the given ones,
  found by the at most four attempts of the loop.
\<close>

theorem billing_calendar_roundtrip:
  assumes off: "shanghai_zone off"
  shows "(\<forall>t. in_billing_range t \<longrightarrow>
      (\<exists>p. billingCalendarParts off (Some t) = Inr p \<and> valid_parts p
        \<and> billingDateTime off (cp_year p) (cp_month p) (cp_day p) (cp_hour p) (cp_minute p) (cp_second p) (t mod 1000)
          = Inr (Some t)))
    \<and> (\<forall>p ms. valid_parts p \<and> 0 \<le> ms \<and> ms \<le> 999 \<longrightarrow>
      (\<exists>t. billingDateTime off (cp_year p) (cp_month p) (cp_day p) (cp_hour p) (cp_minute p) (cp_second p) ms = Inr (Some t)
        \<and> in_billing_range t \<and> billingCalendarParts off (Some t) = Inr p \<and> t mod 1000 = ms))"
proof (intro conjI allI impI)
  fix t assume t: "in_billing_range t"
  have p: "valid_parts (format_parts off t)" by (rule format_valid [OF off t])
  have ms: "0 \<le> t mod 1000" "t mod 1000 \<le> 999" using pos_mod_bound [of 1000 t] by simp_all
  show "\<exists>p. billingCalendarParts off (Some t) = Inr p \<and> valid_parts p
        \<and> billingDateTime off (cp_year p) (cp_month p) (cp_day p) (cp_hour p) (cp_minute p) (cp_second p) (t mod 1000)
          = Inr (Some t)"
    using p billingDateTime_wall [OF off p ms] wall_of_range [OF off t] by simp
next
  fix p and ms :: int assume "valid_parts p \<and> 0 \<le> ms \<and> ms \<le> 999"
  then have p: "valid_parts p" and ms: "0 \<le> ms" "ms \<le> 999" by simp_all
  define t where "t = wall_clock p ms - zone_ms"
  have t: "in_billing_range t" unfolding t_def by (rule wall_clock_bounds(1) [OF p ms])
  have o8: "off t = zone_ms" using shanghai_zoneD [OF off] t by (simp add: in_billing_range_def)
  have f: "format_parts off t = p" by (rule format_of_wall [of p ms off, OF p ms o8]) (simp add: t_def)
  have "wall_clock p (t mod 1000) = wall_clock p ms" using wall_of_range [OF off t] f by (simp add: t_def)
  then have "t mod 1000 = ms" by (simp add: wall_clock_def clock_ms_def)
  then show "\<exists>t. billingDateTime off (cp_year p) (cp_month p) (cp_day p) (cp_hour p) (cp_minute p) (cp_second p) ms = Inr (Some t)
        \<and> in_billing_range t \<and> billingCalendarParts off (Some t) = Inr p \<and> t mod 1000 = ms"
    using billingDateTime_wall [OF off p ms] t f by (auto simp: t_def)
qed

text \<open>The 29th of February 2028, five past eight in the morning and seven milliseconds.\<close>

theorem billing_calendar_roundtrip_witness:
  "let off = (\<lambda>t. zone_ms); p = \<lparr>cp_year = 2028, cp_month = 2, cp_day = 29, cp_hour = 8, cp_minute = 5, cp_second = 0\<rparr>
   in \<exists>t. billingDateTime off 2028 2 29 8 5 0 7 = Inr (Some t) \<and> billingCalendarParts off (Some t) = Inr p"
proof -
  define p where "p = \<lparr>cp_year = 2028, cp_month = 2, cp_day = 29, cp_hour = 8, cp_minute = 5, cp_second = (0::int)\<rparr>"
  have z: "shanghai_zone (\<lambda>t. zone_ms)" by (simp add: shanghai_zone_def)
  have "month_length (12 * 2028 + 1) = 29" by code_simp
  then have "valid_parts p" by (simp add: valid_parts_def p_def)
  then show ?thesis
    using billing_calendar_roundtrip [OF z, THEN conjunct2, rule_format, of p 7] by (auto simp: p_def Let_def)
qed

end
