(* ===== verification/Billing_Cycles.thy ===== *)
theory Billing_Cycles
imports Billing_Calendar
begin

text \<open>
  The periods computed with the billing calendar: when a subscription's traffic is reset
  (\<open>server/repositories/billingRepository.ts\<close>), and when a host's paid period ends and its traffic is
  reset (\<open>server/repositories/hostRepository.ts\<close>).

  A value that may hold a date is a \<open>date_value\<close>; \<open>parse\<close> stands for the run time's parsing of date
  texts.  The two \<open>while\<close> loops of the traffic resets have no bound in the code and are partial
  functions in the option monad: \<^const>\<open>None\<close> would be a loop that does not end.
\<close>

datatype date_value = DateObj jsdate | OtherValue jsval

definition truthy_date :: "date_value \<Rightarrow> bool" where
  "truthy_date v = (case v of DateObj d \<Rightarrow> True | OtherValue x \<Rightarrow> js_truthy x)"

text \<open>\<open>new Date(v)\<close> for a value that is not a date: the fraction of a number is dropped.\<close>

definition js_trunc :: "rat \<Rightarrow> int" where
  "js_trunc q = (if 0 \<le> q then \<lfloor>q\<rfloor> else \<lceil>q\<rceil>)"

definition new_date :: "(string \<Rightarrow> jsdate) \<Rightarrow> jsval \<Rightarrow> jsdate" where
  "new_date parse v =
     (case v of
        JStr s \<Rightarrow> parse s
      | _ \<Rightarrow> (case js_number v of None \<Rightarrow> None | Some q \<Rightarrow> time_clip (js_trunc q)))"

section \<open>Traffic resets of a subscription\<close>

text \<open>\<open>validDate\<close>: a date or null.\<close>

definition validDate :: "(string \<Rightarrow> jsdate) \<Rightarrow> date_value \<Rightarrow> int option" where
  "validDate parse v =
     (if \<not> truthy_date v then None
      else (case v of DateObj d \<Rightarrow> d | OtherValue x \<Rightarrow> new_date parse x))"

text \<open>\<open>a <= b\<close> and \<open>a < b\<close> on the times of two dates; an invalid one compares false.\<close>

definition date_le :: "jsdate \<Rightarrow> jsdate \<Rightarrow> bool" where
  "date_le a b = (case (a, b) of (Some x, Some y) \<Rightarrow> x \<le> y | _ \<Rightarrow> False)"

definition date_less :: "jsdate \<Rightarrow> jsdate \<Rightarrow> bool" where
  "date_less a b = (case (a, b) of (Some x, Some y) \<Rightarrow> x < y | _ \<Rightarrow> False)"

text \<open>A \<open>Date | null\<close> is a \<^typ>\<open>jsdate option\<close>.\<close>

definition boundTrafficResetAt :: "jsdate option \<Rightarrow> jsdate option \<Rightarrow> jsdate option" where
  "boundTrafficResetAt resetAt expiresAt =
     (case resetAt of
        None \<Rightarrow> None
      | Some r \<Rightarrow>
          (case expiresAt of
             None \<Rightarrow> Some r
           | Some e \<Rightarrow> if date_less r e then Some r else None))"

definition nextBillingMonthlyTrafficReset ::
    "(int \<Rightarrow> int) \<Rightarrow> jsdate \<Rightarrow> jsdate option \<Rightarrow> billing_error + jsdate option" where
  "nextBillingMonthlyTrafficReset off start expiresAt =
     and_then (and_then (billingAddMonthsClamped off start 1) (billingStartOfCalendarDay off))
       (\<lambda>next. Inr (case expiresAt of None \<Rightarrow> Some next | Some e \<Rightarrow> if date_less next e then Some next else None))"

text \<open>The day the \<open>months\<close>-th month after the anchor begins on.\<close>

definition anchored_boundary :: "(int \<Rightarrow> int) \<Rightarrow> jsdate \<Rightarrow> int \<Rightarrow> billing_error + jsdate" where
  "anchored_boundary off anchor months =
     and_then (billingAddMonthsClamped off anchor months) (billingStartOfCalendarDay off)"

partial_function (option) anchored_loop ::
    "(int \<Rightarrow> int) \<Rightarrow> jsdate \<Rightarrow> jsdate \<Rightarrow> int \<Rightarrow> jsdate \<Rightarrow> (billing_error + jsdate) option" where
  "anchored_loop off anchor reference months next =
     (if date_le next reference
      then (case anchored_boundary off anchor (months + 1) of
              Inl e \<Rightarrow> Some (Inl e)
            | Inr next' \<Rightarrow> anchored_loop off anchor reference (months + 1) next')
      else Some (Inr next))"

definition month_delta :: "calendar_parts \<Rightarrow> calendar_parts \<Rightarrow> int" where
  "month_delta referenceCalendar anchorCalendar =
     max 1 ((cp_year referenceCalendar - cp_year anchorCalendar) * 12
            + cp_month referenceCalendar - cp_month anchorCalendar)"

definition nextAnchoredSubscriptionTrafficReset ::
    "(int \<Rightarrow> int) \<Rightarrow> (string \<Rightarrow> jsdate) \<Rightarrow> date_value \<Rightarrow> jsdate \<Rightarrow> jsdate option
     \<Rightarrow> (billing_error + jsdate option) option" where
  "nextAnchoredSubscriptionTrafficReset off parse startedAt reference expiresAt =
     (let anchor = (case validDate parse startedAt of Some t \<Rightarrow> Some t | None \<Rightarrow> reference) in
      case and_then (billingCalendarParts off reference) (\<lambda>referenceCalendar.
           and_then (billingCalendarParts off anchor) (\<lambda>anchorCalendar.
           let monthDelta = month_delta referenceCalendar anchorCalendar
           in and_then (anchored_boundary off anchor monthDelta) (\<lambda>next. Inr (monthDelta, next)))) of
        Inl e \<Rightarrow> Some (Inl e)
      | Inr (monthDelta, next) \<Rightarrow>
          map_option (\<lambda>r. and_then r (\<lambda>d. Inr (boundTrafficResetAt (Some d) expiresAt)))
            (anchored_loop off anchor reference monthDelta next))"

text \<open>\<open>Math.min(28, Math.max(1, Math.floor(Number(v) || 1)))\<close>.\<close>

definition reset_day :: "jsval \<Rightarrow> int" where
  "reset_day v = at_most (day_floor v) 28"

definition configured_boundary :: "(int \<Rightarrow> int) \<Rightarrow> jsdate \<Rightarrow> int \<Rightarrow> int \<Rightarrow> billing_error + jsdate" where
  "configured_boundary off reference resetDay monthOffset =
     billingMonthlyBoundary off reference (JNum (of_int resetDay)) monthOffset (JNum 28)"

partial_function (option) configured_loop ::
    "(int \<Rightarrow> int) \<Rightarrow> jsdate \<Rightarrow> int \<Rightarrow> jsdate \<Rightarrow> int \<Rightarrow> jsdate \<Rightarrow> (billing_error + jsdate) option" where
  "configured_loop off reference resetDay handledThrough monthOffset next =
     (if date_le next handledThrough
      then (case configured_boundary off reference resetDay (monthOffset + 1) of
              Inl e \<Rightarrow> Some (Inl e)
            | Inr next' \<Rightarrow> configured_loop off reference resetDay handledThrough (monthOffset + 1) next')
      else Some (Inr next))"

text \<open>\<open>Math.max(startedAt, lastTrafficResetAt)\<close>, with minus infinity (\<^const>\<open>None\<close>, which no time is below) for
  a missing one.\<close>

definition handled_through :: "int option \<Rightarrow> int option \<Rightarrow> jsdate" where
  "handled_through startedAt lastTrafficResetAt =
     (case (startedAt, lastTrafficResetAt) of
        (Some a, Some b) \<Rightarrow> Some (max a b)
      | (Some a, None) \<Rightarrow> Some a
      | (None, b) \<Rightarrow> b)"

definition nextConfiguredSubscriptionTrafficReset ::
    "(int \<Rightarrow> int) \<Rightarrow> (string \<Rightarrow> jsdate) \<Rightarrow> jsval \<Rightarrow> date_value \<Rightarrow> date_value \<Rightarrow> jsdate \<Rightarrow> jsdate option
     \<Rightarrow> (billing_error + jsdate option) option" where
  "nextConfiguredSubscriptionTrafficReset off parse trafficResetDay startedAt lastTrafficResetAt reference expiresAt =
     (let resetDay = reset_day trafficResetDay in
      case configured_boundary off reference resetDay 0 of
        Inl e \<Rightarrow> Some (Inl e)
      | Inr next \<Rightarrow>
          map_option (\<lambda>r. and_then r (\<lambda>d. Inr (boundTrafficResetAt (Some d) expiresAt)))
            (configured_loop off reference resetDay
               (handled_through (validDate parse startedAt) (validDate parse lastTrafficResetAt)) 0 next))"

definition sameEpochSecond :: "(string \<Rightarrow> jsdate) \<Rightarrow> date_value \<Rightarrow> date_value \<Rightarrow> bool" where
  "sameEpochSecond parse left right =
     (case (validDate parse left, validDate parse right) of
        (Some a, Some b) \<Rightarrow> a div 1000 = b div 1000
      | (None, None) \<Rightarrow> True
      | _ \<Rightarrow> False)"

section \<open>Paid periods of a host\<close>

definition hostBillingCycleMonths :: "jsval \<Rightarrow> int" where
  "hostBillingCycleMonths v =
     (case js_number v of
        None \<Rightarrow> 1
      | Some q \<Rightarrow> if \<lfloor>q\<rfloor> \<in> {1, 3, 6, 12, 24, 36} then \<lfloor>q\<rfloor> else 1)"

definition hostBillingMonth :: "jsval \<Rightarrow> int" where
  "hostBillingMonth v = at_most (day_floor v) 12"

definition hostBillingDay :: "jsval \<Rightarrow> int" where
  "hostBillingDay v = at_most (day_floor v) 31"

text \<open>The text is a decimal number: \<open>/^\d+(\.\d+)?$/\<close>.\<close>

definition decimal_text :: "string \<Rightarrow> bool" where
  "decimal_text s =
     (let r = dropWhile js_digit s in
      s \<noteq> [] \<and> js_digit (hd s)
      \<and> (r = [] \<or> hd r = CHR ''.'' \<and> tl r \<noteq> [] \<and> list_all js_digit (tl r)))"

text \<open>A number of seconds below 100,000,000,000 is taken as such, a larger one as milliseconds.\<close>

definition seconds_or_ms :: "rat \<Rightarrow> rat" where
  "seconds_or_ms q = (if q < 100000000000 then q * 1000 else q)"

definition nullish_text :: "jsval \<Rightarrow> string" where
  "nullish_text v = (if js_nullish v then [] else js_string v)"

text \<open>The test on the text of a value; a number is written without an exponent from a millionth up to \<open>10\<^sup>2\<^sup>1\<close>.\<close>

definition host_decimal :: "jsval \<Rightarrow> bool" where
  "host_decimal v =
     (case v of
        JNum q \<Rightarrow> q = 0 \<or> 1 / 1000000 \<le> q \<and> q < 10 ^ 21
      | _ \<Rightarrow> decimal_text (js_trim (nullish_text v)))"

definition hostDate :: "(string \<Rightarrow> jsdate) \<Rightarrow> date_value \<Rightarrow> int option" where
  "hostDate parse v =
     (case v of
        DateObj d \<Rightarrow> d
      | OtherValue x \<Rightarrow>
          (case js_number x of
             Some q \<Rightarrow>
               if host_decimal x then time_clip (js_trunc (seconds_or_ms q))
               else new_date parse x
           | None \<Rightarrow> new_date parse x))"

text \<open>\<open>dateTimeMs\<close>: a positive time or null.\<close>

definition dateTimeMs :: "(string \<Rightarrow> jsdate) \<Rightarrow> date_value \<Rightarrow> rat option" where
  "dateTimeMs parse v =
     (if \<not> truthy_date v then None
      else (case v of
         DateObj d \<Rightarrow> (case d of Some t \<Rightarrow> if 0 < t then Some (of_int t) else None | None \<Rightarrow> None)
       | OtherValue x \<Rightarrow>
           (let text = js_trim (js_string x);
                numericText = ((case x of JNum q \<Rightarrow> True | JNaN \<Rightarrow> True | JPosInf \<Rightarrow> True | JNegInf \<Rightarrow> True | _ \<Rightarrow> False)
                               \<or> decimal_text text)
            in if numericText
               then (case js_number x of Some q \<Rightarrow> if 0 < q then Some (seconds_or_ms q) else None | None \<Rightarrow> None)
               else (case parse text of Some t \<Rightarrow> if 0 < t then Some (of_int t) else None | None \<Rightarrow> None))))"

text \<open>
  \<open>hostResetDueToday\<close>: the reset day is clamped to the month; a day that is not a number
  (\<^const>\<open>None\<close>) compares false, so it does not hold the reset back.
\<close>

definition js_neg_infinite :: "jsval \<Rightarrow> bool" where
  "js_neg_infinite v = (case v of JNegInf \<Rightarrow> True | JStr s \<Rightarrow> js_trim s = ''-Infinity'' | _ \<Rightarrow> False)"

definition host_due_day :: "jsval \<Rightarrow> int option \<Rightarrow> int option" where
  "host_due_day v days =
     (let x = js_or v (JNum 1) in
      case days of
        None \<Rightarrow> None
      | Some n \<Rightarrow>
          if js_infinite x then Some (min 31 n)
          else if js_neg_infinite x then Some (min 1 n)
          else map_option (\<lambda>q. min (min 31 (max 1 \<lfloor>q\<rfloor>)) n) (js_number x))"

record reset_host =
  rh_trafficResetDay :: jsval
  rh_purchasedAt :: date_value
  rh_stoppedAt :: date_value
  rh_lastTrafficReset :: date_value

text \<open>The comparison with the start of the month: an invalid date would compare false.\<close>

definition hostResetDueToday ::
    "(int \<Rightarrow> int) \<Rightarrow> (string \<Rightarrow> jsdate) \<Rightarrow> reset_host \<Rightarrow> int \<Rightarrow> billing_error + bool" where
  "hostResetDueToday off parse host now =
     and_then (billingCalendarParts off (Some now)) (\<lambda>calendar.
       let dueDay = host_due_day (rh_trafficResetDay host) (billingDaysInMonth (cp_year calendar) (cp_month calendar));
           purchasedAt = dateTimeMs parse (rh_purchasedAt host);
           stoppedAt = dateTimeMs parse (rh_stoppedAt host);
           lastResetAt = dateTimeMs parse (rh_lastTrafficReset host)
       in if (case dueDay of None \<Rightarrow> False | Some d \<Rightarrow> cp_day calendar < d) then Inr False
          else if (case purchasedAt of None \<Rightarrow> False | Some p \<Rightarrow> of_int now < p) then Inr False
          else if (case stoppedAt of None \<Rightarrow> False | Some s \<Rightarrow> s \<le> of_int now) then Inr False
          else and_then (billingMonthStart off (Some now)) (\<lambda>monthStart.
            Inr (case lastResetAt of
                   None \<Rightarrow> True
                 | Some l \<Rightarrow> (case monthStart of None \<Rightarrow> False | Some m \<Rightarrow> l < of_int m))))"

text \<open>
  \<open>nextHostBillingExpiry\<close>.  \<open>host_period\<close> is the step the function takes from \<open>stoppedAt\<close> and repeats in its
  guarded loop from the previous result: a year or more ahead in the configured month, or \<open>cycleMonths\<close>
  months ahead, on the billing day or the last day of a shorter month, at the time of day of \<open>stoppedAt\<close>.
\<close>

definition expiry_on ::
    "(int \<Rightarrow> int) \<Rightarrow> int \<Rightarrow> calendar_parts \<Rightarrow> int \<Rightarrow> int \<Rightarrow> int \<Rightarrow> billing_error + jsdate" where
  "expiry_on off billingDay current milliseconds year month =
     (case billingDaysInMonth year month of
        None \<Rightarrow> Inl Invalid_Calendar_Date
      | Some n \<Rightarrow> billingDateTime off year month (min billingDay n) (cp_hour current) (cp_minute current)
          (cp_second current) milliseconds)"

definition host_period ::
    "(int \<Rightarrow> int) \<Rightarrow> int \<Rightarrow> int \<Rightarrow> int \<Rightarrow> calendar_parts \<Rightarrow> int \<Rightarrow> jsdate \<Rightarrow> billing_error + jsdate" where
  "host_period off cycleMonths billingMonth billingDay current milliseconds start =
     (if 12 \<le> cycleMonths
      then and_then (billingCalendarParts off start) (\<lambda>p.
        expiry_on off billingDay current milliseconds (cp_year p + max 1 (cycleMonths div 12)) billingMonth)
      else and_then (billingAddMonthsClamped off start cycleMonths) (\<lambda>advanced.
        and_then (billingCalendarParts off advanced) (\<lambda>target.
        expiry_on off billingDay current milliseconds (cp_year target) (cp_month target))))"

fun host_expiry_loop ::
    "(jsdate \<Rightarrow> billing_error + jsdate) \<Rightarrow> int \<Rightarrow> nat \<Rightarrow> jsdate \<Rightarrow> billing_error + jsdate" where
  "host_expiry_loop step stoppedAt 0 next = Inr next"
| "host_expiry_loop step stoppedAt (Suc guard) next =
     (if date_le next (Some stoppedAt) then and_then (step next) (host_expiry_loop step stoppedAt guard)
      else Inr next)"

definition nextHostBillingExpiry ::
    "(int \<Rightarrow> int) \<Rightarrow> jsdate \<Rightarrow> jsval \<Rightarrow> jsval \<Rightarrow> jsval \<Rightarrow> billing_error + jsdate" where
  "nextHostBillingExpiry off stoppedAt cycleMonthsValue billingMonthValue billingDayValue =
     and_then (valid_billing_date stoppedAt) (\<lambda>stopped.
     let cycleMonths = hostBillingCycleMonths cycleMonthsValue;
         billingMonth = hostBillingMonth billingMonthValue;
         billingDay = hostBillingDay billingDayValue;
         step = host_period off cycleMonths billingMonth billingDay (format_parts off stopped) (stopped mod 1000)
     in and_then (step stoppedAt) (host_expiry_loop step stopped 1200))"

text \<open>
  \<open>extendDueHostBillingPeriods\<close> for one host: nothing to do for a host without a due end, otherwise
  period after period until the end is in the future, at most 1,200 more.
\<close>

record billed_host =
  bh_stoppedAt :: date_value
  bh_billingCycleMonths :: jsval
  bh_billingMonth :: jsval
  bh_billingDay :: jsval

fun catch_up :: "(jsdate \<Rightarrow> billing_error + jsdate) \<Rightarrow> int \<Rightarrow> nat \<Rightarrow> jsdate \<Rightarrow> billing_error + jsdate" where
  "catch_up step now 0 future = Inr future"
| "catch_up step now (Suc guard) future =
     (if date_le future (Some now) then and_then (step future) (catch_up step now guard) else Inr future)"

definition extended_expiry ::
    "(int \<Rightarrow> int) \<Rightarrow> (string \<Rightarrow> jsdate) \<Rightarrow> int \<Rightarrow> billed_host \<Rightarrow> billing_error + jsdate option" where
  "extended_expiry off parse now host =
     (case hostDate parse (bh_stoppedAt host) of
        None \<Rightarrow> Inr None
      | Some stoppedAt \<Rightarrow>
          if now < stoppedAt then Inr None
          else (let step = (\<lambda>d. nextHostBillingExpiry off d (bh_billingCycleMonths host) (bh_billingMonth host)
                                 (bh_billingDay host))
                in and_then (and_then (step (Some stoppedAt)) (catch_up step now 1200))
                     (\<lambda>future. Inr (Some future))))"

section \<open>Loops over the boundaries of a schedule\<close>

text \<open>
  Both traffic resets walk through a schedule of boundaries from a first one until they are past a
  limit.  A loop with this equation returns, and returns the first boundary past the limit.
\<close>

locale reset_loop =
  fixes loop :: "int \<Rightarrow> jsdate \<Rightarrow> (billing_error + jsdate) option"
    and boundary :: "int \<Rightarrow> billing_error + jsdate"
    and limit :: jsdate
  assumes loop_step: "loop m next =
    (if date_le next limit
     then (case boundary (m + 1) of Inl e \<Rightarrow> Some (Inl e) | Inr next' \<Rightarrow> loop (m + 1) next')
     else Some (Inr next))"
begin

lemma loop_returns:
  assumes "m \<le> k" "limit = Some l"
    and before: "\<forall>j. m \<le> j \<and> j < k \<longrightarrow> b j \<le> l" and past: "l < b k"
    and boundaries: "\<forall>j. m \<le> j \<and> j \<le> k \<longrightarrow> boundary j = Inr (Some (b j))"
  shows "loop m (Some (b m)) = Some (Inr (Some (b k)))"
  using assms(1) before boundaries
proof (induction "nat (k - m)" arbitrary: m)
  case 0
  then have "m = k" by simp
  then show ?case using past assms(2) by (simp add: loop_step [of k] date_le_def)
next
  case (Suc n)
  then have m: "m < k" "m + 1 \<le> k" by simp_all
  have "loop (m + 1) (Some (b (m + 1))) = Some (Inr (Some (b k)))"
  proof (rule Suc.hyps(1))
    show "n = nat (k - (m + 1))" "m + 1 \<le> k" using Suc.hyps(2) by simp_all
  qed (use Suc.prems in auto)
  then show ?case using Suc.prems(2,3) m assms(2) by (subst loop_step) (simp add: date_le_def)
qed

lemma loop_unlimited: "limit = None \<Longrightarrow> loop m next = Some (Inr next)"
  by (simp add: loop_step [of m] date_le_def split: option.split)

end

interpretation anchored: reset_loop "anchored_loop off anchor reference" "anchored_boundary off anchor" reference
  for off anchor reference
  by unfold_locales (rule anchored_loop.simps)

interpretation configured: reset_loop "configured_loop off reference resetDay handledThrough"
    "configured_boundary off reference resetDay" handledThrough
  for off reference resetDay handledThrough
  by unfold_locales (rule configured_loop.simps)

section \<open>Subscription resets\<close>

text \<open>From 1992 to 9998, so that the month after is still a year of four digits.\<close>

definition reset_horizon :: int where
  "reset_horizon = 253370736000000"

definition in_reset_range :: "int \<Rightarrow> bool" where
  "in_reset_range t \<longleftrightarrow> billing_epoch \<le> t \<and> t < reset_horizon"

abbreviation month_of :: "(int \<Rightarrow> int) \<Rightarrow> int \<Rightarrow> int" where
  "month_of off t \<equiv> month_index (format_parts off t)"

abbreviation day_of :: "(int \<Rightarrow> int) \<Rightarrow> int \<Rightarrow> int" where
  "day_of off t \<equiv> cp_day (format_parts off t)"

lemma day_of_bounds:
  assumes "shanghai_zone off" "in_billing_range t"
  shows "1 \<le> day_of off t" "day_of off t \<le> month_length (month_of off t)"
  using format_valid [OF assms] by (simp_all add: valid_parts_def month_index_def)

lemma later_month:
  assumes off: "shanghai_zone off" and t: "in_billing_range t" and k: "month_of off t < k" "1 \<le> d"
  shows "t < day_start k d"
proof -
  have "first_of_month (month_of off t) + month_length (month_of off t) \<le> first_of_month k"
    using first_of_month_mono [of "month_of off t + 1" k] k(1) by (simp add: month_length_def)
  then show ?thesis
    using day_start_of(2) [OF off t] day_of_bounds [OF off t] k(2) by (simp add: day_start_def)
qed

lemma earlier_month:
  assumes off: "shanghai_zone off" and t: "in_billing_range t" and k: "k < month_of off t" "d \<le> month_length k"
  shows "day_start k d \<le> t"
  using day_start_less [OF k day_of_bounds(1) [OF off t]] day_start_of(1) [OF off t] by linarith

lemma month_before:
  assumes off: "shanghai_zone off" and t: "in_billing_range t" "t < day_start k 1"
  shows "month_of off t < k"
proof (rule ccontr)
  assume "\<not> ?thesis"
  then have "first_of_month k \<le> first_of_month (month_of off t)"
    using first_of_month_mono [of k "month_of off t"] by simp
  then show False
    using day_start_of(1) [OF off t(1)] day_of_bounds(1) [OF off t(1)] t(2) by (simp add: day_start_def)
qed

lemma in_reset_rangeD:
  assumes off: "shanghai_zone off" and t: "in_reset_range t"
  shows "in_billing_range t" "12 * 1992 \<le> month_of off t" "month_of off t < 12 * 9999"
proof -
  show r: "in_billing_range t" using t by (simp add: in_reset_range_def in_billing_range_def reset_horizon_def billing_limit_def)
  show "12 * 1992 \<le> month_of off t" using month_index_range [OF format_valid [OF off r]] by simp
  have "first_of_month (12 * 9999) = 2932532"
    using first_of_month_year [of 0 9999] by (simp add: day_from_year_def days_before_eval)
  then show "month_of off t < 12 * 9999"
    using month_before [OF off r] t by (simp add: day_start_def in_reset_range_def reset_horizon_def)
qed

lemma anchored_boundary_eq:
  assumes off: "shanghai_zone off" and a: "in_billing_range a"
    and k: "12 * 1992 \<le> month_of off a + m" "month_of off a + m < 12 * 10000"
  shows "anchored_boundary off (Some a) m =
    Inr (Some (day_start (month_of off a + m) (min (day_of off a) (month_length (month_of off a + m)))))"
proof -
  obtain t where t: "billingAddMonthsClamped off (Some a) m = Inr (Some t)" "in_billing_range t"
    "month_of off t = month_of off a + m" "day_of off t = min (day_of off a) (month_length (month_of off a + m))"
    using billingAddMonthsClamped_eq [OF off a refl k] by metis
  then show ?thesis using billingStartOfCalendarDay_eq [OF off t(2)] by (simp add: anchored_boundary_def)
qed

lemma month_delta_index: "month_delta p q = max 1 (month_index p - month_index q)"
  by (simp add: month_delta_def month_index_def)

text \<open>
  C22. The anchored reset loop ends with the next monthly anniversary.  For a reference and (if it is a
  date) an anchor between 1992 and 9998 the search returns, and its result is the first beginning of the
  day one or more whole months after the anchor that is later than the reference (or nothing, when the
  subscription has expired by then): every earlier anniversary is not later than the reference.
\<close>

theorem anchored_reset_terminates:
  assumes off: "shanghai_zone off" and ref: "in_reset_range ref"
    and anchor: "anchor = (case validDate parse startedAt of Some t \<Rightarrow> t | None \<Rightarrow> ref)" "in_reset_range anchor"
  shows "\<exists>next months.
    nextAnchoredSubscriptionTrafficReset off parse startedAt (Some ref) expiresAt
      = Some (Inr (boundTrafficResetAt (Some (Some next)) expiresAt))
    \<and> 1 \<le> months \<and> anchored_boundary off (Some anchor) months = Inr (Some next) \<and> ref < next
    \<and> (\<forall>m. 1 \<le> m \<and> m < months \<longrightarrow>
          (\<exists>b. anchored_boundary off (Some anchor) m = Inr (Some b) \<and> b \<le> ref))"
proof -
  note r = in_reset_rangeD [OF off ref]
  note a = in_reset_rangeD [OF off anchor(2)]
  define ia ir \<delta> where "ia = month_of off anchor" and "ir = month_of off ref" and "\<delta> = max 1 (ir - ia)"
  define B where "B m = day_start (ia + m) (min (day_of off anchor) (month_length (ia + m)))" for m
  have \<delta>: "1 \<le> \<delta>" "ia + \<delta> + 1 < 12 * 10000" "ir \<le> ia + \<delta>" using r a by (auto simp: \<delta>_def ia_def ir_def)
  have B: "anchored_boundary off (Some anchor) m = Inr (Some (B m))" if "0 \<le> m" "m \<le> \<delta> + 1" for m
    using anchored_boundary_eq [OF off a(1), of m] that a(2) \<delta> by (simp add: B_def ia_def)
  have d: "1 \<le> min (day_of off anchor) (month_length k)" for k
    using day_of_bounds(1) [OF off a(1)] month_length_bounds [of k] by simp
  define k where "k = (if ref < B \<delta> then \<delta> else \<delta> + 1)"
  have past: "ref < B k"
    using later_month [OF off r(1), of "ia + (\<delta> + 1)", OF _ d] \<delta>(3) by (auto simp: k_def B_def ir_def)
  have before: "B m \<le> ref" if "1 \<le> m" "m < k" for m
  proof (cases "m = \<delta>")
    case True
    then show ?thesis using that by (simp add: k_def split: if_splits)
  next
    case False
    then have "1 < \<delta>" "m < \<delta>" using that by (simp_all add: k_def split: if_splits)
    then have "ia + m < ir" by (simp add: \<delta>_def)
    then show ?thesis unfolding B_def by (intro earlier_month [OF off r(1)]) (simp_all add: ir_def)
  qed
  have "anchored_loop off (Some anchor) (Some ref) \<delta> (Some (B \<delta>)) = Some (Inr (Some (B k)))"
    by (rule anchored.loop_returns [where b = B and k = k and l = ref, OF _ refl _ past]) (use before B \<delta>(1) in \<open>auto simp: k_def split: if_splits\<close>)
  moreover have "(case validDate parse startedAt of Some t \<Rightarrow> Some t | None \<Rightarrow> Some ref) = Some anchor"
    using anchor(1) by (simp split: option.split)
  moreover have "month_delta (format_parts off ref) (format_parts off anchor) = \<delta>"
    by (simp add: month_delta_index \<delta>_def ia_def ir_def)
  moreover have "anchored_boundary off (Some anchor) \<delta> = Inr (Some (B \<delta>))" using B \<delta>(1) by simp
  ultimately have "nextAnchoredSubscriptionTrafficReset off parse startedAt (Some ref) expiresAt
      = Some (Inr (boundTrafficResetAt (Some (Some (B k))) expiresAt))"
    by (simp add: nextAnchoredSubscriptionTrafficReset_def Let_def)
  moreover have "1 \<le> k" "k \<le> \<delta> + 1" using \<delta>(1) by (auto simp: k_def)
  ultimately show ?thesis using B before past by (intro exI [of _ "B k"] exI [of _ k]) auto
qed

text \<open>Started on 31 January 2026, in the afternoon of 28 February: the next reset follows.\<close>

theorem anchored_reset_terminates_witness:
  "\<exists>next. nextAnchoredSubscriptionTrafficReset (\<lambda>t. zone_ms) (\<lambda>s. None) (DateObj (Some 1769822100000)) (Some 1772258400000) None
     = Some (Inr (Some (Some next))) \<and> 1772258400000 < next"
proof -
  have z: "shanghai_zone (\<lambda>t. zone_ms)" by (simp add: shanghai_zone_def)
  have r: "in_reset_range 1772258400000" "in_reset_range 1769822100000"
    by (simp_all add: in_reset_range_def billing_epoch_def reset_horizon_def)
  have a: "1769822100000 = (case validDate (\<lambda>s. None) (DateObj (Some 1769822100000)) of Some t \<Rightarrow> t | None \<Rightarrow> 1772258400000)"
    by (simp add: validDate_def truthy_date_def)
  show ?thesis
    using anchored_reset_terminates [OF z r(1) a r(2), of None] by (auto simp: boundTrafficResetAt_def)
qed

lemma reset_day_bounds: "1 \<le> reset_day v" "reset_day v \<le> 28"
  by (auto simp: reset_day_def at_most_def day_floor_def split: option.splits)

lemma configured_boundary_eq:
  assumes off: "shanghai_zone off" and r: "in_billing_range ref" and d: "1 \<le> d" "d \<le> 28"
    and k: "12 * 1992 \<le> month_of off ref + j" "month_of off ref + j < 12 * 10000"
  shows "configured_boundary off (Some ref) d j = Inr (Some (day_start (month_of off ref + j) d))"
proof -
  have "day_floor (JNum (of_int d)) = Some d" "day_floor (JNum 28) = Some 28"
    using d by (simp_all add: day_floor_def js_infinite_def)
  then have "at_most (day_floor (JNum (of_int d))) (at_most (day_floor (JNum 28)) (month_length (month_of off ref + j))) = d"
    using d month_length_bounds [of "month_of off ref + j"] by (simp add: at_most_def)
  then show ?thesis
    using billingMonthlyBoundary_eq [OF off r refl k, of "JNum (of_int d)" "JNum 28"] by (simp add: configured_boundary_def)
qed

text \<open>
  The configured reset loop ends with the first unsettled reset day.  For a reference between 1992
  and 9998, and a start and a last reset that are missing or before 9999, the search returns, and its
  result is the first reset day, from the reference's month on, that is later than both the start and the
  last reset of the subscription (or nothing, when it has expired by then).
\<close>

theorem configured_reset_terminates:
  assumes off: "shanghai_zone off" and ref: "in_reset_range ref"
    and handled: "h = handled_through (validDate parse startedAt) (validDate parse lastTrafficResetAt)"
      "h = None \<or> in_reset_range (the h)"
  shows "\<exists>next k.
    nextConfiguredSubscriptionTrafficReset off parse trafficResetDay startedAt lastTrafficResetAt (Some ref) expiresAt
      = Some (Inr (boundTrafficResetAt (Some (Some next)) expiresAt))
    \<and> 0 \<le> k \<and> configured_boundary off (Some ref) (reset_day trafficResetDay) k = Inr (Some next)
    \<and> \<not> date_le (Some next) h
    \<and> (\<forall>j. 0 \<le> j \<and> j < k \<longrightarrow>
          (\<exists>b. configured_boundary off (Some ref) (reset_day trafficResetDay) j = Inr (Some b) \<and> date_le (Some b) h))"
proof -
  define d where "d = reset_day trafficResetDay"
  have d: "1 \<le> d" "d \<le> 28" by (simp_all add: d_def reset_day_bounds)
  note r = in_reset_rangeD [OF off ref]
  define ir where "ir = month_of off ref"
  define B where "B j = day_start (ir + j) d" for j
  have B: "configured_boundary off (Some ref) d j = Inr (Some (B j))" if "0 \<le> j" "ir + j < 12 * 10000" for j
    using configured_boundary_eq [OF off r(1) d, of j] that r by (simp add: B_def ir_def)
  have "\<exists>k. 0 \<le> k \<and> ir + k < 12 * 10000 \<and> \<not> date_le (Some (B k)) h \<and> (\<forall>j. 0 \<le> j \<and> j < k \<longrightarrow> date_le (Some (B j)) h)
      \<and> configured_loop off (Some ref) d h 0 (Some (B 0)) = Some (Inr (Some (B k)))"
  proof (cases h)
    case None
    then show ?thesis
      using r configured.loop_unlimited by (intro exI [of _ 0]) (simp add: date_le_def ir_def)
  next
    case (Some t)
    then have tr: "in_reset_range t" using handled(2) by simp
    note ht = in_reset_rangeD [OF off tr]
    define it e where "it = month_of off t" and "e = max 0 (it - ir)"
    define k where "k = (if t < B e then e else e + 1)"
    have k: "0 \<le> k" "ir + k < 12 * 10000" using r ht by (auto simp: k_def e_def it_def ir_def)
    have past: "t < B k"
      using later_month [OF off ht(1), of "ir + (e + 1)" d] d by (auto simp: k_def B_def e_def it_def)
    have before: "B j \<le> t" if "0 \<le> j" "j < k" for j
    proof (cases "j = e")
      case True
      then show ?thesis using that by (simp add: k_def split: if_splits)
    next
      case False
      then have "ir + j < it" using that by (auto simp: k_def e_def split: if_splits)
      then show ?thesis
        unfolding B_def using d month_length_bounds [of "ir + j"] by (intro earlier_month [OF off ht(1)]) (simp_all add: it_def)
    qed
    have "configured_loop off (Some ref) d (Some t) 0 (Some (B 0)) = Some (Inr (Some (B k)))"
      by (rule configured.loop_returns [where b = B and k = k and l = t, OF k(1) refl _ past])
        (use before B k in auto)
    then show ?thesis using k past before Some by (intro exI [of _ k]) (auto simp: date_le_def)
  qed
  then obtain k where k: "0 \<le> k" "ir + k < 12 * 10000" "\<not> date_le (Some (B k)) h"
      "\<And>j. 0 \<le> j \<Longrightarrow> j < k \<Longrightarrow> date_le (Some (B j)) h"
      "configured_loop off (Some ref) d h 0 (Some (B 0)) = Some (Inr (Some (B k)))" by blast
  have "nextConfiguredSubscriptionTrafficReset off parse trafficResetDay startedAt lastTrafficResetAt (Some ref) expiresAt
      = Some (Inr (boundTrafficResetAt (Some (Some (B k))) expiresAt))"
    using B [of 0] r k(5) handled(1)
    by (simp add: nextConfiguredSubscriptionTrafficReset_def Let_def d_def [symmetric] ir_def)
  then show ?thesis
    using B k unfolding d_def [symmetric] by (intro exI [of _ "B k"] exI [of _ k]) auto
qed

text \<open>Reset day 15, asked on 20 February 2026, last reset on the 15th: the next one is later than that.\<close>

theorem configured_reset_terminates_witness:
  "\<exists>next. nextConfiguredSubscriptionTrafficReset (\<lambda>t. zone_ms) (\<lambda>s. None) (JNum 15) (OtherValue JNull)
     (DateObj (Some 1771084800000)) (Some 1771552800000) None
     = Some (Inr (Some (Some next))) \<and> 1771084800000 < next"
proof -
  have z: "shanghai_zone (\<lambda>t. zone_ms)" by (simp add: shanghai_zone_def)
  have r: "in_reset_range 1771552800000" "in_reset_range 1771084800000"
    by (simp_all add: in_reset_range_def billing_epoch_def reset_horizon_def)
  have h: "Some 1771084800000 = handled_through (validDate (\<lambda>s. None) (OtherValue JNull)) (validDate (\<lambda>s. None) (DateObj (Some 1771084800000)))"
    by (simp add: validDate_def truthy_date_def handled_through_def)
  have "Some 1771084800000 = None \<or> in_reset_range (the (Some 1771084800000))" using r(2) by simp
  then show ?thesis
    using configured_reset_terminates [OF z r(1) h, of "JNum 15" None]
    by (auto simp: boundTrafficResetAt_def date_le_def)
qed

section \<open>Host periods\<close>

definition in_host_range :: "int \<Rightarrow> bool" where
  "in_host_range t \<longleftrightarrow> billing_epoch \<le> t \<and> t < 253276041600000"

lemma hostBillingCycleMonths_cases:
  "hostBillingCycleMonths v \<in> {1, 3, 6, 12, 24, 36}"
  by (auto simp: hostBillingCycleMonths_def split: option.splits)

lemma hostBillingMonth_bounds: "1 \<le> hostBillingMonth v" "hostBillingMonth v \<le> 12"
  by (auto simp: hostBillingMonth_def at_most_def day_floor_def split: option.splits)

lemma hostBillingDay_bounds: "1 \<le> hostBillingDay v" "hostBillingDay v \<le> 31"
  by (auto simp: hostBillingDay_def at_most_def day_floor_def split: option.splits)

lemma host_expiry_loop_done: "t < n \<Longrightarrow> host_expiry_loop step t guard (Some n) = Inr (Some n)"
  by (cases guard) (simp_all add: date_le_def)

lemma in_host_rangeD:
  assumes off: "shanghai_zone off" and t: "in_host_range t"
  shows "in_billing_range t" "12 * 1992 \<le> month_of off t" "month_of off t < 12 * 9996"
proof -
  show r: "in_billing_range t" using t by (simp add: in_host_range_def in_billing_range_def billing_limit_def)
  show "12 * 1992 \<le> month_of off t" using month_index_range [OF format_valid [OF off r]] by simp
  have "first_of_month (12 * 9996) = 2931436"
    using first_of_month_year [of 0 9996] by (simp add: day_from_year_def days_before_eval)
  then show "month_of off t < 12 * 9996"
    using month_before [OF off r] t by (simp add: day_start_def in_host_range_def)
qed

text \<open>The month the next period ends in.\<close>

definition next_period_month :: "int \<Rightarrow> int \<Rightarrow> int \<Rightarrow> int" where
  "next_period_month cycleMonths billingMonth k =
     (if 12 \<le> cycleMonths then 12 * (k div 12 + cycleMonths div 12) + (billingMonth - 1) else k + cycleMonths)"

lemma next_period_month_bounds:
  assumes "cycleMonths \<in> {1, 3, 6, 12, 24, 36}" "1 \<le> billingMonth" "billingMonth \<le> 12"
  shows "k < next_period_month cycleMonths billingMonth k" "next_period_month cycleMonths billingMonth k \<le> k + 47"
proof -
  have "12 * (k div 12) \<le> k" "k < 12 * (k div 12) + 12" by (rule div_bounds, simp)+
  then show "k < next_period_month cycleMonths billingMonth k" "next_period_month cycleMonths billingMonth k \<le> k + 47"
    using assms by (auto simp: next_period_month_def)
qed

lemma expiry_on_eq:
  assumes off: "shanghai_zone off" and t: "in_billing_range t"
    and k: "12 * 1992 \<le> k" "k < 12 * 10000" "year = k div 12" "month = k - (k div 12) * 12 + 1" and bd: "1 \<le> bd"
  obtains n where "expiry_on off bd (format_parts off t) (t mod 1000) year month = Inr (Some n)"
    "in_billing_range n" "month_of off n = k" "day_of off n = min bd (month_length k)"
    "(n + zone_ms) mod ms_per_day = (t + zone_ms) mod ms_per_day"
proof -
  have d: "1 \<le> min bd (month_length k)" "min bd (month_length k) \<le> month_length k"
    using bd month_length_bounds [of k] by simp_all
  obtain n where n: "billingDateTime off (k div 12) (k - (k div 12) * 12 + 1) (min bd (month_length k))
       (cp_hour (format_parts off t)) (cp_minute (format_parts off t)) (cp_second (format_parts off t)) (t mod 1000)
       = Inr (Some n)"
    "in_billing_range n" "month_of off n = k" "day_of off n = min bd (month_length k)"
    "(n + zone_ms) mod ms_per_day = (t + zone_ms) mod ms_per_day"
    by (rule billingDateTime_moved [OF off t k(1,2) d])
  then have "expiry_on off bd (format_parts off t) (t mod 1000) year month = Inr (Some n)"
    unfolding expiry_on_def k(3,4) billingDaysInMonth_eq [OF k(1,2)] by simp
  then show ?thesis using that n by blast
qed

lemma host_period_eq:
  assumes off: "shanghai_zone off" and t: "in_host_range t"
    and c: "c \<in> {1, 3, 6, 12, 24, 36}" "1 \<le> bm" "bm \<le> 12" "1 \<le> bd"
    and k: "k = next_period_month c bm (month_of off t)"
  obtains n where "host_period off c bm bd (format_parts off t) (t mod 1000) (Some t) = Inr (Some n)"
    "in_billing_range n" "month_of off n = k" "day_of off n = min bd (month_length k)"
    "(n + zone_ms) mod ms_per_day = (t + zone_ms) mod ms_per_day"
proof -
  note r = in_host_rangeD [OF off t]
  note b = next_period_month_bounds [OF c(1-3), of "month_of off t", folded k]
  have kr: "12 * 1992 \<le> k" "k < 12 * 10000" using r b by simp_all
  define p where "p = format_parts off t"
  have idx: "month_of off t div 12 = cp_year p"
    using month_index_back(1) [OF format_valid [OF off r(1)]] by (simp add: p_def)
  show ?thesis
  proof (cases "12 \<le> c")
    case True
    then have ky: "k = 12 * (cp_year p + c div 12) + (bm - 1)" by (simp add: k next_period_month_def idx)
    then have "k div 12 = cp_year p + c div 12" by (intro div_unique_bounds) (use c in simp_all)
    then have "cp_year p + max 1 (c div 12) = k div 12" "bm = k - (k div 12) * 12 + 1" using True ky by simp_all
    then obtain n where "expiry_on off bd p (t mod 1000) (cp_year p + max 1 (c div 12)) bm = Inr (Some n)"
      "in_billing_range n" "month_of off n = k" "day_of off n = min bd (month_length k)"
      "(n + zone_ms) mod ms_per_day = (t + zone_ms) mod ms_per_day"
      using expiry_on_eq [OF off r(1) kr _ _ c(4)] unfolding p_def by metis
    then show ?thesis using that True by (simp add: host_period_def p_def)
  next
    case False
    then have kc: "k = month_of off t + c" by (simp add: k next_period_month_def)
    obtain a where a: "billingAddMonthsClamped off (Some t) c = Inr (Some a)" "in_billing_range a" "month_of off a = k"
      using billingAddMonthsClamped_eq [OF off r(1) kc kr] by metis
    note orig = month_index_back [OF format_valid [OF off a(2)], unfolded a(3)]
    obtain n where "expiry_on off bd p (t mod 1000) (cp_year (format_parts off a)) (cp_month (format_parts off a)) = Inr (Some n)"
      "in_billing_range n" "month_of off n = k" "day_of off n = min bd (month_length k)"
      "(n + zone_ms) mod ms_per_day = (t + zone_ms) mod ms_per_day"
      using expiry_on_eq [OF off r(1) kr orig [symmetric] c(4)] unfolding p_def by metis
    then show ?thesis using that False a(1) by (simp add: host_period_def p_def)
  qed
qed

lemma month_less_time:
  assumes "shanghai_zone off" "in_billing_range t" "in_billing_range n" "month_of off t < month_of off n"
  shows "t < n"
  using later_month [OF assms(1,2,4) day_of_bounds(1) [OF assms(1,3)]] day_start_of(1) [OF assms(1,3)] by linarith

lemma nextHostBillingExpiry_eq:
  assumes off: "shanghai_zone off" and t: "in_host_range t"
    and k: "k = next_period_month (hostBillingCycleMonths c) (hostBillingMonth bm) (month_of off t)"
  obtains n where "nextHostBillingExpiry off (Some t) c bm bd = Inr (Some n)" "t < n"
    "in_billing_range n" "month_of off n = k" "day_of off n = min (hostBillingDay bd) (month_length k)"
    "(n + zone_ms) mod ms_per_day = (t + zone_ms) mod ms_per_day"
proof -
  note r = in_host_rangeD [OF off t]
  obtain n where n: "host_period off (hostBillingCycleMonths c) (hostBillingMonth bm) (hostBillingDay bd)
      (format_parts off t) (t mod 1000) (Some t) = Inr (Some n)"
    "in_billing_range n" "month_of off n = k" "day_of off n = min (hostBillingDay bd) (month_length k)"
    "(n + zone_ms) mod ms_per_day = (t + zone_ms) mod ms_per_day"
    using host_period_eq [OF off t hostBillingCycleMonths_cases hostBillingMonth_bounds hostBillingDay_bounds(1) k] by metis
  have "month_of off t < month_of off n"
    using next_period_month_bounds(1) [OF hostBillingCycleMonths_cases hostBillingMonth_bounds, of "month_of off t" c bm]
    unfolding n(3) k .
  then have "t < n" by (rule month_less_time [OF off r(1) n(2)])
  then show ?thesis
    using that n by (simp add: nextHostBillingExpiry_def Let_def valid_billing_date_def host_expiry_loop_done)
qed

text \<open>
  The catch-up loop: every turn moves the end by at least a month, so the end is past \<open>now\<close> before the
  guard of 1,200 turns when the host is at most a hundred years behind.
\<close>

lemma catch_up_returns:
  assumes off: "shanghai_zone off" and now: "in_host_range now"
    and step: "step = (\<lambda>d. nextHostBillingExpiry off d c bm bd)"
  shows "in_host_range prev \<Longrightarrow> prev \<le> now \<Longrightarrow> step (Some prev) = Inr (Some f) \<Longrightarrow> in_billing_range f \<Longrightarrow>
    prev < f \<Longrightarrow> month_of off now < month_of off f + int guard \<Longrightarrow>
    \<exists>prev' f'. catch_up step now guard (Some f) = Inr (Some f') \<and> prev \<le> prev' \<and> prev' \<le> now \<and> now < f'
      \<and> step (Some prev') = Inr (Some f')"
proof (induction guard arbitrary: prev f)
  case 0
  have "now < f"
    using month_less_time [OF off in_host_rangeD(1) [OF off now] 0(4)] 0(6) by simp
  then show ?case using 0 by (intro exI [of _ prev] exI [of _ f]) simp
next
  case (Suc guard)
  show ?case
  proof (cases "f \<le> now")
    case True
    have fr: "in_host_range f"
      using True now Suc.prems(4) by (simp add: in_host_range_def in_billing_range_def)
    obtain g where g: "nextHostBillingExpiry off (Some f) c bm bd = Inr (Some g)" "f < g" "in_billing_range g"
      "month_of off g = next_period_month (hostBillingCycleMonths c) (hostBillingMonth bm) (month_of off f)"
      by (rule nextHostBillingExpiry_eq [OF off fr refl])
    have "month_of off f < month_of off g"
      unfolding g(4) by (rule next_period_month_bounds(1) [OF hostBillingCycleMonths_cases hostBillingMonth_bounds])
    then have "month_of off now < month_of off g + int guard" using Suc.prems(6) by simp
    then obtain prev' f' where r: "catch_up step now guard (Some g) = Inr (Some f')" "f \<le> prev'" "prev' \<le> now" "now < f'"
      "step (Some prev') = Inr (Some f')"
      using Suc.IH [OF fr True _ g(3,2)] g(1) step by blast
    have "step (Some f) = Inr (Some g)" using g(1) by (simp add: step)
    then have "catch_up step now (Suc guard) (Some f) = Inr (Some f')"
      using True r(1) by (simp add: date_le_def)
    then show ?thesis using r Suc.prems(5) by (intro exI [of _ prev'] exI [of _ f']) simp
  next
    case False
    then show ?thesis using Suc.prems by (intro exI [of _ prev] exI [of _ f]) (simp add: date_le_def)
  qed
qed

text \<open>
  The end of a host's period moves forward by exactly one period.  For an end between 1992 and 9995
  the function returns a later end: \<open>cycleMonths\<close> months ahead for a cycle of less than a year, otherwise in
  the configured month of the year \<open>cycleMonths / 12\<close> ahead, on the billing day or the last day of a shorter
  month, at the same time of the day.  The guarded loop after it never runs.
\<close>

theorem host_expiry_advances:
  assumes off: "shanghai_zone off" and t: "in_host_range t"
  shows "\<exists>n. nextHostBillingExpiry off (Some t) cycle month day = Inr (Some n) \<and> t < n
    \<and> month_of off n = (let c = hostBillingCycleMonths cycle; k = month_of off t in
         if c < 12 then k + c else 12 * (k div 12 + c div 12) + (hostBillingMonth month - 1))
    \<and> day_of off n = min (hostBillingDay day) (month_length (month_of off n))
    \<and> (n + zone_ms) mod ms_per_day = (t + zone_ms) mod ms_per_day"
proof -
  obtain n where "nextHostBillingExpiry off (Some t) cycle month day = Inr (Some n)" "t < n"
    "in_billing_range n"
    "month_of off n = next_period_month (hostBillingCycleMonths cycle) (hostBillingMonth month) (month_of off t)"
    "day_of off n = min (hostBillingDay day)
       (month_length (next_period_month (hostBillingCycleMonths cycle) (hostBillingMonth month) (month_of off t)))"
    "(n + zone_ms) mod ms_per_day = (t + zone_ms) mod ms_per_day"
    by (rule nextHostBillingExpiry_eq [OF off t refl])
  then show ?thesis by (intro exI [of _ n]) (simp add: next_period_month_def Let_def)
qed

text \<open>A monthly host paid until 31 January 2026, with billing day 31.\<close>

theorem host_expiry_advances_witness:
  "\<exists>n. nextHostBillingExpiry (\<lambda>t. zone_ms) (Some 1769822100000) (JNum 1) (JNum 1) (JNum 31) = Inr (Some n) \<and> 1769822100000 < n
    \<and> day_of (\<lambda>t. zone_ms) n = 28"
proof -
  have z: "shanghai_zone (\<lambda>t. zone_ms)" by (simp add: shanghai_zone_def)
  have r: "in_host_range 1769822100000" by (simp add: in_host_range_def billing_epoch_def)
  have v: "hostBillingCycleMonths (JNum 1) = 1" "hostBillingDay (JNum 31) = 31"
    by (simp_all add: hostBillingCycleMonths_def hostBillingDay_def at_most_def day_floor_def js_infinite_def)
  have m: "month_of (\<lambda>t. zone_ms) 1769822100000 = 24312" "month_length 24313 = 28" by code_simp+
  show ?thesis
    using host_expiry_advances [OF z r, of "JNum 1" "JNum 1" "JNum 31"] by (auto simp: v m Let_def)
qed

text \<open>
  An expired host is extended to the first period end in the future.  For a host whose end lies at
  most a hundred years back, the sweep computes an end later than now, one period after an end that is
  not later than now; the guard of 1,200 turns is enough.  A host that has not expired, or has no end,
  is left alone.
\<close>

theorem host_extension_catches_up:
  assumes off: "shanghai_zone off" and now: "in_host_range now"
    and host: "hostDate parse (bh_stoppedAt host) = Some s" "in_host_range s"
    and hundred: "month_of off now \<le> month_of off s + 1200"
  shows "if now < s then extended_expiry off parse now host = Inr None
    else \<exists>prev f. extended_expiry off parse now host = Inr (Some (Some f)) \<and> s \<le> prev \<and> prev \<le> now \<and> now < f
      \<and> nextHostBillingExpiry off (Some prev) (bh_billingCycleMonths host) (bh_billingMonth host) (bh_billingDay host)
        = Inr (Some f)"
proof (cases "now < s")
  case True
  then show ?thesis by (simp add: extended_expiry_def host)
next
  case False
  define step where "step = (\<lambda>d. nextHostBillingExpiry off d (bh_billingCycleMonths host) (bh_billingMonth host)
      (bh_billingDay host))"
  obtain f where f: "step (Some s) = Inr (Some f)" "s < f" "in_billing_range f"
    "month_of off f = next_period_month (hostBillingCycleMonths (bh_billingCycleMonths host))
       (hostBillingMonth (bh_billingMonth host)) (month_of off s)"
    using nextHostBillingExpiry_eq [OF off host(2) refl] unfolding step_def by metis
  have "month_of off s < month_of off f"
    unfolding f(4) by (rule next_period_month_bounds(1) [OF hostBillingCycleMonths_cases hostBillingMonth_bounds])
  then have "month_of off now < month_of off f + int 1200" using hundred by simp
  then obtain prev f' where "catch_up step now 1200 (Some f) = Inr (Some f')" "s \<le> prev" "prev \<le> now" "now < f'"
      "step (Some prev) = Inr (Some f')"
    using catch_up_returns [OF off now step_def host(2) _ f(1,3,2)] False by force
  then have "extended_expiry off parse now host = Inr (Some (Some f'))"
    using False f(1) by (simp add: extended_expiry_def host Let_def step_def [symmetric])
  then show ?thesis
    using False \<open>s \<le> prev\<close> \<open>prev \<le> now\<close> \<open>now < f'\<close> \<open>step (Some prev) = Inr (Some f')\<close> unfolding step_def by auto
qed

text \<open>A quarterly host that ended in January 2026, swept in December of the same year.\<close>

theorem host_extension_catches_up_witness:
  "\<exists>f. extended_expiry (\<lambda>t. zone_ms) (\<lambda>s. None) 1797552000000
     \<lparr>bh_stoppedAt = DateObj (Some 1769822100000), bh_billingCycleMonths = JNum 3, bh_billingMonth = JNum 1,
       bh_billingDay = JNum 31\<rparr> = Inr (Some (Some f)) \<and> 1797552000000 < f"
proof -
  define host where "host = \<lparr>bh_stoppedAt = DateObj (Some 1769822100000), bh_billingCycleMonths = JNum 3,
    bh_billingMonth = JNum 1, bh_billingDay = JNum 31\<rparr>"
  have z: "shanghai_zone (\<lambda>t. zone_ms)" by (simp add: shanghai_zone_def)
  have r: "in_host_range 1797552000000" "in_host_range 1769822100000" by (simp_all add: in_host_range_def billing_epoch_def)
  have h: "hostDate (\<lambda>s. None) (bh_stoppedAt host) = Some 1769822100000" by (simp add: hostDate_def host_def)
  have m: "month_of (\<lambda>t. zone_ms) 1797552000000 \<le> month_of (\<lambda>t. zone_ms) 1769822100000 + 1200" by code_simp
  show ?thesis
    using host_extension_catches_up [OF z r(1) h r(2) m] unfolding host_def by auto
qed

text \<open>
  Once its traffic has been reset, a host is not due again before the next month begins.
\<close>

lemma host_reset_once_a_month:
  assumes off: "shanghai_zone off" and t: "in_billing_range t" "in_billing_range now"
    and same: "month_of off now = month_of off t" and last: "rh_lastTrafficReset host = DateObj (Some t)"
  shows "hostResetDueToday off parse host now = Inr False"
proof -
  define p where "p = format_parts off now"
  have p: "valid_parts p" unfolding p_def by (rule format_valid [OF off t(2)])
  have "1 \<le> month_length (month_index p)" using month_length_bounds [of "month_index p"] by simp
  then have "billingMonthStart off (Some now) = Inr (Some (day_start (month_index p) 1))"
    using billingStartOfDay_eq [OF off, of "month_index p" 1] month_index_range [OF p] month_index_back [OF p]
    by (simp add: billingMonthStart_def p_def [symmetric])
  moreover have "day_start (month_index p) 1 \<le> t"
    using day_start_of(1) [OF off t(1)] day_of_bounds(1) [OF off t(1)] same by (simp add: day_start_def p_def)
  moreover have "0 < t" using t(1) by (simp add: in_billing_range_def billing_epoch_def)
  ultimately show ?thesis
    by (simp add: hostResetDueToday_def Let_def last dateTimeMs_def truthy_date_def)
qed

end
