(* ===== verification/Link_Access.thy ===== *)
theory Link_Access
imports FX_Prelude
begin

text \<open>
  Which hosts, tunnels and forwarding groups a user may see and use (\<open>server/linkAccessView.ts\<close>).  The
  explicit grants of a user are expanded along the topology: a group shows its members, the group it enters
  through, and the groups its tunnels belong to.  What the expansion adds is visible only; a rule may be rooted
  only at a resource that was granted itself.

  A JavaScript \<open>Set\<close> is the list of its elements in insertion order.  The two work lists of the search, arrays with
  an index, are the lists of entries not yet taken.  A row of a table that is null stands for a row whose fields are all
  undefined, which the code treats alike.
\<close>

section \<open>Sets and identifiers\<close>

text \<open>\<open>Number(value || 0)\<close> when it is a positive integer, otherwise 0.\<close>

definition positive_id :: "jsval \<Rightarrow> int" where
  "positive_id v = (case js_positive_int v of Some i \<Rightarrow> i | None \<Rightarrow> 0)"

definition db_bool :: "jsval \<Rightarrow> bool \<Rightarrow> bool" where
  "db_bool v fallback =
     (if v = JUndef \<or> v = JNull \<or> v = JStr [] then fallback
      else v = JBool True \<or> v = JNum 1 \<or> v = JStr ''1'' \<or> js_lower (js_trim (js_string v)) = ''true'')"

section \<open>The topology\<close>

record group_row =
  gw_id :: jsval
  gw_entryGroupId :: jsval

record member_row =
  mw_groupId :: jsval
  mw_memberType :: jsval
  mw_hostId :: jsval
  mw_tunnelId :: jsval
  mw_isEnabled :: jsval

record tunnel_row =
  tw_id :: jsval
  tw_entryHostId :: jsval
  tw_exitHostId :: jsval
  tw_entryGroupId :: jsval
  tw_exitGroupId :: jsval

record hop_row =
  hw_tunnelId :: jsval
  hw_hostId :: jsval

record exit_row =
  ew_tunnelId :: jsval
  ew_hostId :: jsval
  ew_isEnabled :: jsval

record closure_input =
  ci_hostIds :: "jsval list"
  ci_tunnelIds :: "jsval list"
  ci_groupIds :: "jsval list"
  ci_groups :: "group_row list"
  ci_members :: "member_row list"
  ci_tunnels :: "tunnel_row list"
  ci_tunnelHops :: "hop_row list"
  ci_tunnelExitNodes :: "exit_row list"

text \<open>The maps the rows are read into.\<close>

record topology_maps =
  tm_groups :: "(int, group_row) jmap"
  tm_members :: "(int, member_row list) jmap"
  tm_tunnels :: "(int, tunnel_row) jmap"
  tm_tunnelHosts :: "(int, int list) jmap"

definition positive_ids :: "jsval list \<Rightarrow> int list" where
  "positive_ids vs = foldl (\<lambda>ids v. let i = positive_id v in if 0 < i then set_add i ids else ids) [] vs"

definition groups_by_id :: "group_row list \<Rightarrow> (int, group_row) jmap" where
  "groups_by_id rows = foldl (\<lambda>m g. let i = positive_id (gw_id g) in if 0 < i then jm_set i g m else m) [] rows"

definition members_by_group :: "member_row list \<Rightarrow> (int, member_row list) jmap" where
  "members_by_group rows =
     foldl (\<lambda>m r. let i = positive_id (mw_groupId r) in
        if i \<le> 0 then m
        else jm_set i ((case jm_get m i of Some rs \<Rightarrow> rs | None \<Rightarrow> []) @ [r]) m) [] rows"

definition tunnels_by_id :: "tunnel_row list \<Rightarrow> (int, tunnel_row) jmap" where
  "tunnels_by_id rows = foldl (\<lambda>m r. let i = positive_id (tw_id r) in if 0 < i then jm_set i r m else m) [] rows"

definition add_tunnel_host :: "jsval \<Rightarrow> jsval \<Rightarrow> (int, int list) jmap \<Rightarrow> (int, int list) jmap" where
  "add_tunnel_host tunnelId hostId m =
     (let tunnel = positive_id tunnelId; host = positive_id hostId in
      if tunnel \<le> 0 \<or> host \<le> 0 then m
      else jm_set tunnel (set_add host (case jm_get m tunnel of Some hs \<Rightarrow> hs | None \<Rightarrow> [])) m)"

definition row_enabled :: "jsval \<Rightarrow> bool" where
  "row_enabled v = (\<not> (v \<noteq> JUndef \<and> \<not> db_bool v True))"

definition tunnel_hosts :: "(int, tunnel_row) jmap \<Rightarrow> hop_row list \<Rightarrow> exit_row list \<Rightarrow> (int, int list) jmap" where
  "tunnel_hosts tunnelsById hops exits =
     (let ends = foldl (\<lambda>m r. add_tunnel_host (tw_id r) (tw_exitHostId r) (add_tunnel_host (tw_id r) (tw_entryHostId r) m))
                   [] (jm_values tunnelsById);
          withHops = foldl (\<lambda>m r. add_tunnel_host (hw_tunnelId r) (hw_hostId r) m) ends hops
      in foldl (\<lambda>m r. if \<not> row_enabled (ew_isEnabled r) then m else add_tunnel_host (ew_tunnelId r) (ew_hostId r) m)
           withHops exits)"

definition topology_of :: "closure_input \<Rightarrow> topology_maps" where
  "topology_of input =
     (let tunnels = tunnels_by_id (ci_tunnels input) in
      \<lparr>tm_groups = groups_by_id (ci_groups input),
       tm_members = members_by_group (ci_members input),
       tm_tunnels = tunnels,
       tm_tunnelHosts = tunnel_hosts tunnels (ci_tunnelHops input) (ci_tunnelExitNodes input)\<rparr>)"

definition hosts_of_tunnel :: "topology_maps \<Rightarrow> int \<Rightarrow> int list" where
  "hosts_of_tunnel t tunnelId = (case jm_get (tm_tunnelHosts t) tunnelId of Some hs \<Rightarrow> hs | None \<Rightarrow> [])"

definition members_of :: "topology_maps \<Rightarrow> int \<Rightarrow> member_row list" where
  "members_of t groupId = (case jm_get (tm_members t) groupId of Some ms \<Rightarrow> ms | None \<Rightarrow> [])"

section \<open>The search\<close>

record search =
  se_hostIds :: "int list"
  se_groupIds :: "int list"
  se_pendingGroups :: "int list"
  se_pendingTunnels :: "int list"
  se_visitedGroups :: "int list"
  se_visitedTunnels :: "int list"
  se_groupHostIds :: "(int, int list) jmap"
  se_groupTunnelIds :: "(int, int list) jmap"

text \<open>A group found through a reference is added and queued once.\<close>

definition discover_group :: "int \<Rightarrow> search \<Rightarrow> search" where
  "discover_group groupId s =
     (if groupId \<le> 0 \<or> groupId \<in> set (se_groupIds s) then s
      else s\<lparr>se_groupIds := set_add groupId (se_groupIds s), se_pendingGroups := se_pendingGroups s @ [groupId]\<rparr>)"

definition entry_group :: "topology_maps \<Rightarrow> int \<Rightarrow> int" where
  "entry_group t groupId = (case jm_get (tm_groups t) groupId of Some g \<Rightarrow> positive_id (gw_entryGroupId g) | None \<Rightarrow> 0)"

text \<open>One member of a visited group: its tunnel or its host goes into the scope of the group.\<close>

definition visit_member ::
    "topology_maps \<Rightarrow> int list \<Rightarrow> int list \<times> int list \<times> int list \<Rightarrow> member_row \<Rightarrow> int list \<times> int list \<times> int list" where
  "visit_member t visitedTunnels acc member =
     (case acc of (hostScope, tunnelScope, pendingTunnels) \<Rightarrow>
        if \<not> row_enabled (mw_isEnabled member) then acc
        else if mw_memberType member = JStr ''tunnel''
        then (let tunnelId = positive_id (mw_tunnelId member) in
              if tunnelId \<le> 0 \<or> \<not> jm_has (tm_tunnels t) tunnelId then acc
              else (foldl (\<lambda>hs h. set_add h hs) hostScope (hosts_of_tunnel t tunnelId),
                    set_add tunnelId tunnelScope,
                    if tunnelId \<notin> set visitedTunnels then pendingTunnels @ [tunnelId] else pendingTunnels))
        else (let hostId = positive_id (mw_hostId member) in
              if 0 < hostId then (set_add hostId hostScope, tunnelScope, pendingTunnels) else acc))"

definition visit_group :: "topology_maps \<Rightarrow> int \<Rightarrow> search \<Rightarrow> search" where
  "visit_group t groupId s0 =
     (if groupId \<le> 0 \<or> groupId \<in> set (se_visitedGroups s0) then s0
      else
        (let s1 = s0\<lparr>se_visitedGroups := set_add groupId (se_visitedGroups s0)\<rparr>;
             s2 = discover_group (entry_group t groupId) s1;
             (hostScope, tunnelScope, pendingTunnels) =
               foldl (visit_member t (se_visitedTunnels s2))
                 (case jm_get (se_groupHostIds s2) groupId of Some hs \<Rightarrow> hs | None \<Rightarrow> [],
                  case jm_get (se_groupTunnelIds s2) groupId of Some ts \<Rightarrow> ts | None \<Rightarrow> [],
                  se_pendingTunnels s2) (members_of t groupId)
         in s2\<lparr>se_groupHostIds := jm_set groupId hostScope (se_groupHostIds s2),
               se_groupTunnelIds := jm_set groupId tunnelScope (se_groupTunnelIds s2),
               se_pendingTunnels := pendingTunnels\<rparr>))"

definition related_groups :: "topology_maps \<Rightarrow> int \<Rightarrow> int list" where
  "related_groups t tunnelId =
     (case jm_get (tm_tunnels t) tunnelId of
        None \<Rightarrow> []
      | Some r \<Rightarrow> [positive_id (tw_entryGroupId r), positive_id (tw_exitGroupId r)])"

definition visit_tunnel :: "topology_maps \<Rightarrow> int list \<Rightarrow> int \<Rightarrow> search \<Rightarrow> search" where
  "visit_tunnel t directTunnelIds tunnelId s0 =
     (if tunnelId \<le> 0 \<or> tunnelId \<in> set (se_visitedTunnels s0) then s0
      else
        (let s1 = s0\<lparr>se_visitedTunnels := set_add tunnelId (se_visitedTunnels s0)\<rparr>;
             s2 = (if tunnelId \<in> set directTunnelIds
                   then s1\<lparr>se_hostIds := foldl (\<lambda>hs h. set_add h hs) (se_hostIds s1) (hosts_of_tunnel t tunnelId)\<rparr>
                   else s1)
         in foldl (\<lambda>s g. discover_group g s) s2 (related_groups t tunnelId)))"

text \<open>
  What can still be discovered: every entry of a queue is one of the initial ones or named by a row, so each
  loop visits finitely many.
\<close>

definition group_universe :: "topology_maps \<Rightarrow> int set" where
  "group_universe t =
     (\<lambda>g. positive_id (gw_entryGroupId g)) ` set (jm_values (tm_groups t))
     \<union> (\<lambda>r. positive_id (tw_entryGroupId r)) ` set (jm_values (tm_tunnels t))
     \<union> (\<lambda>r. positive_id (tw_exitGroupId r)) ` set (jm_values (tm_tunnels t))"

definition tunnel_universe :: "topology_maps \<Rightarrow> int set" where
  "tunnel_universe t = (\<lambda>m. positive_id (mw_tunnelId m)) ` (\<Union>ms \<in> set (jm_values (tm_members t)). set ms)"

definition unvisited_groups :: "topology_maps \<Rightarrow> search \<Rightarrow> int set" where
  "unvisited_groups t s = {g. 0 < g} \<inter> (group_universe t \<union> set (se_pendingGroups s)) - set (se_visitedGroups s)"

definition unvisited_tunnels :: "topology_maps \<Rightarrow> search \<Rightarrow> int set" where
  "unvisited_tunnels t s = {n. 0 < n} \<inter> (tunnel_universe t \<union> set (se_pendingTunnels s)) - set (se_visitedTunnels s)"

lemma finite_unvisited [simp]: "finite (unvisited_groups t s)" "finite (unvisited_tunnels t s)"
  by (simp_all add: unvisited_groups_def unvisited_tunnels_def group_universe_def tunnel_universe_def)

lemma set_fold_add [simp]: "set (foldl (\<lambda>hs h. set_add h hs) xs ys) = set xs \<union> set ys"
  by (induction ys arbitrary: xs) auto

lemma discover_group_fields [simp]:
  "se_hostIds (discover_group g s) = se_hostIds s" "se_pendingTunnels (discover_group g s) = se_pendingTunnels s"
  "se_visitedGroups (discover_group g s) = se_visitedGroups s" "se_visitedTunnels (discover_group g s) = se_visitedTunnels s"
  "se_groupHostIds (discover_group g s) = se_groupHostIds s" "se_groupTunnelIds (discover_group g s) = se_groupTunnelIds s"
  "set (se_groupIds (discover_group g s)) = set (se_groupIds s) \<union> ({g} \<inter> {g. 0 < g})"
  by (auto simp: discover_group_def)

lemma discover_group_pending:
  "set (se_pendingGroups (discover_group g s)) = set (se_pendingGroups s) \<union> ({g} \<inter> {g. 0 < g} - set (se_groupIds s))"
  by (auto simp: discover_group_def)

lemma entry_group_universe: "0 < entry_group t g \<Longrightarrow> entry_group t g \<in> group_universe t"
  by (cases "jm_get (tm_groups t) g") (auto simp del: set_map simp: entry_group_def group_universe_def split: option.splits dest!: jm_get_value)

lemma related_groups_universe: "g \<in> set (related_groups t n) \<Longrightarrow> g \<in> group_universe t"
  by (cases "jm_get (tm_tunnels t) n") (auto simp del: set_map simp: related_groups_def group_universe_def split: option.splits dest!: jm_get_value)

lemma members_universe: "m \<in> set (members_of t g) \<Longrightarrow> positive_id (mw_tunnelId m) \<in> tunnel_universe t"
  by (cases "jm_get (tm_members t) g") (auto simp del: set_map simp: members_of_def tunnel_universe_def intro!: image_eqI dest!: jm_get_value)

text \<open>What a member adds to the scope of its group, and which tunnels it names.\<close>

definition member_tunnel :: "topology_maps \<Rightarrow> member_row \<Rightarrow> int set" where
  "member_tunnel t m =
     (if row_enabled (mw_isEnabled m) \<and> mw_memberType m = JStr ''tunnel''
         \<and> 0 < positive_id (mw_tunnelId m) \<and> jm_has (tm_tunnels t) (positive_id (mw_tunnelId m))
      then {positive_id (mw_tunnelId m)} else {})"

definition member_hosts :: "topology_maps \<Rightarrow> member_row \<Rightarrow> int set" where
  "member_hosts t m =
     (if row_enabled (mw_isEnabled m) \<and> mw_memberType m \<noteq> JStr ''tunnel'' \<and> 0 < positive_id (mw_hostId m)
      then {positive_id (mw_hostId m)}
      else \<Union>n \<in> member_tunnel t m. set (hosts_of_tunnel t n))"

lemma visit_member_sets:
  "visit_member t vs (hs, ts, pt) m = (hs', ts', pt') \<Longrightarrow>
   set hs' = set hs \<union> member_hosts t m \<and> set ts' = set ts \<union> member_tunnel t m
   \<and> set pt' = set pt \<union> (member_tunnel t m - set vs)"
  by (auto simp: visit_member_def member_hosts_def member_tunnel_def Let_def split: if_splits)

lemma visit_members_sets:
  "foldl (visit_member t vs) (hs, ts, pt) ms = (hs', ts', pt') \<Longrightarrow>
   set hs' = set hs \<union> (\<Union>m \<in> set ms. member_hosts t m) \<and> set ts' = set ts \<union> (\<Union>m \<in> set ms. member_tunnel t m)
   \<and> set pt' = set pt \<union> ((\<Union>m \<in> set ms. member_tunnel t m) - set vs)"
proof (induction ms arbitrary: hs ts pt)
  case (Cons m ms)
  obtain a b c where v: "visit_member t vs (hs, ts, pt) m = (a, b, c)" by (metis prod_cases3)
  then have "foldl (visit_member t vs) (a, b, c) ms = (hs', ts', pt')" using Cons.prems by simp
  from Cons.IH [OF this] visit_member_sets [OF v] show ?case by auto
qed simp

definition group_tunnels :: "topology_maps \<Rightarrow> int \<Rightarrow> int set" where
  "group_tunnels t g = (\<Union>m \<in> set (members_of t g). member_tunnel t m)"

definition group_hosts :: "topology_maps \<Rightarrow> int \<Rightarrow> int set" where
  "group_hosts t g = (\<Union>m \<in> set (members_of t g). member_hosts t m)"

lemma group_tunnels_universe: "group_tunnels t g \<subseteq> {n. 0 < n} \<inter> tunnel_universe t"
  using members_universe by (fastforce simp: group_tunnels_def member_tunnel_def split: if_splits)

text \<open>The effect of visiting a group and a tunnel, in sets.\<close>

definition scope_of :: "(int, int list) jmap \<Rightarrow> int \<Rightarrow> int set" where
  "scope_of m g = (case jm_get m g of Some xs \<Rightarrow> set xs | None \<Rightarrow> {})"

lemma visit_group_new:
  assumes g: "0 < g" "g \<notin> set (se_visitedGroups s)"
  shows "se_hostIds (visit_group t g s) = se_hostIds s"
    "set (se_visitedGroups (visit_group t g s)) = insert g (set (se_visitedGroups s))"
    "se_visitedTunnels (visit_group t g s) = se_visitedTunnels s"
    "set (se_groupIds (visit_group t g s)) = set (se_groupIds s) \<union> ({entry_group t g} \<inter> {g. 0 < g})"
    "set (se_pendingGroups (visit_group t g s)) =
       set (se_pendingGroups s) \<union> ({entry_group t g} \<inter> {g. 0 < g} - set (se_groupIds s))"
    "set (se_pendingTunnels (visit_group t g s)) =
       set (se_pendingTunnels s) \<union> (group_tunnels t g - set (se_visitedTunnels s))"
    "jm_has (se_groupHostIds (visit_group t g s)) h \<longleftrightarrow> h = g \<or> jm_has (se_groupHostIds s) h"
    "jm_has (se_groupTunnelIds (visit_group t g s)) h \<longleftrightarrow> h = g \<or> jm_has (se_groupTunnelIds s) h"
    "scope_of (se_groupHostIds (visit_group t g s)) h =
       scope_of (se_groupHostIds s) h \<union> (if h = g then group_hosts t g else {})"
    "scope_of (se_groupTunnelIds (visit_group t g s)) h =
       scope_of (se_groupTunnelIds s) h \<union> (if h = g then group_tunnels t g else {})"
proof -
  define s1 where "s1 = discover_group (entry_group t g) (s\<lparr>se_visitedGroups := set_add g (se_visitedGroups s)\<rparr>)"
  define h0 where "h0 = (case jm_get (se_groupHostIds s) g of Some hs \<Rightarrow> hs | None \<Rightarrow> [])"
  define t0 where "t0 = (case jm_get (se_groupTunnelIds s) g of Some ts \<Rightarrow> ts | None \<Rightarrow> [])"
  obtain hs ts pt where f: "foldl (visit_member t (se_visitedTunnels s)) (h0, t0, se_pendingTunnels s) (members_of t g) = (hs, ts, pt)"
    by (metis prod_cases3)
  note sets = visit_members_sets [OF f, folded group_hosts_def group_tunnels_def]
  have v: "visit_group t g s = s1\<lparr>se_groupHostIds := jm_set g hs (se_groupHostIds s),
      se_groupTunnelIds := jm_set g ts (se_groupTunnelIds s), se_pendingTunnels := pt\<rparr>"
    using g f by (simp add: visit_group_def Let_def s1_def h0_def t0_def)
  show "se_hostIds (visit_group t g s) = se_hostIds s"
    "set (se_visitedGroups (visit_group t g s)) = insert g (set (se_visitedGroups s))"
    "se_visitedTunnels (visit_group t g s) = se_visitedTunnels s"
    "set (se_groupIds (visit_group t g s)) = set (se_groupIds s) \<union> ({entry_group t g} \<inter> {g. 0 < g})"
    "set (se_pendingGroups (visit_group t g s)) =
       set (se_pendingGroups s) \<union> ({entry_group t g} \<inter> {g. 0 < g} - set (se_groupIds s))"
    by (simp_all add: v) (simp_all add: s1_def discover_group_pending)
  show "set (se_pendingTunnels (visit_group t g s)) =
       set (se_pendingTunnels s) \<union> (group_tunnels t g - set (se_visitedTunnels s))"
    using sets by (simp add: v)
  show "jm_has (se_groupHostIds (visit_group t g s)) h \<longleftrightarrow> h = g \<or> jm_has (se_groupHostIds s) h"
    "jm_has (se_groupTunnelIds (visit_group t g s)) h \<longleftrightarrow> h = g \<or> jm_has (se_groupTunnelIds s) h"
    by (auto simp: v jm_has_def)
  show "scope_of (se_groupHostIds (visit_group t g s)) h =
       scope_of (se_groupHostIds s) h \<union> (if h = g then group_hosts t g else {})"
    "scope_of (se_groupTunnelIds (visit_group t g s)) h =
       scope_of (se_groupTunnelIds s) h \<union> (if h = g then group_tunnels t g else {})"
    using sets by (auto simp: v scope_of_def h0_def t0_def split: option.splits)
qed

lemma visit_group_old: "\<not> 0 < g \<or> g \<in> set (se_visitedGroups s) \<Longrightarrow> visit_group t g s = s"
  by (auto simp: visit_group_def)

lemma discover_fold:
  "se_pendingTunnels (foldl (\<lambda>s g. discover_group g s) s gs) = se_pendingTunnels s"
  "se_visitedGroups (foldl (\<lambda>s g. discover_group g s) s gs) = se_visitedGroups s"
  "se_visitedTunnels (foldl (\<lambda>s g. discover_group g s) s gs) = se_visitedTunnels s"
  "se_hostIds (foldl (\<lambda>s g. discover_group g s) s gs) = se_hostIds s"
  "se_groupHostIds (foldl (\<lambda>s g. discover_group g s) s gs) = se_groupHostIds s"
  "se_groupTunnelIds (foldl (\<lambda>s g. discover_group g s) s gs) = se_groupTunnelIds s"
  "set (se_groupIds (foldl (\<lambda>s g. discover_group g s) s gs)) = set (se_groupIds s) \<union> {g \<in> set gs. 0 < g}"
  "set (se_pendingGroups (foldl (\<lambda>s g. discover_group g s) s gs)) =
     set (se_pendingGroups s) \<union> ({g \<in> set gs. 0 < g} - set (se_groupIds s))"
proof (induction gs arbitrary: s)
  case (Cons g gs)
  { case 8 show ?case by (simp only: foldl.simps Cons.IH(8)) (auto simp: discover_group_pending) }
qed (auto simp: Cons)

lemma visit_tunnel_new:
  assumes n: "0 < n" "n \<notin> set (se_visitedTunnels s)"
  shows "set (se_hostIds (visit_tunnel t direct n s)) =
      set (se_hostIds s) \<union> (if n \<in> set direct then set (hosts_of_tunnel t n) else {})"
    "se_visitedGroups (visit_tunnel t direct n s) = se_visitedGroups s"
    "set (se_visitedTunnels (visit_tunnel t direct n s)) = insert n (set (se_visitedTunnels s))"
    "set (se_groupIds (visit_tunnel t direct n s)) = set (se_groupIds s) \<union> {g \<in> set (related_groups t n). 0 < g}"
    "set (se_pendingGroups (visit_tunnel t direct n s)) =
      set (se_pendingGroups s) \<union> ({g \<in> set (related_groups t n). 0 < g} - set (se_groupIds s))"
    "se_pendingTunnels (visit_tunnel t direct n s) = se_pendingTunnels s"
    "se_groupHostIds (visit_tunnel t direct n s) = se_groupHostIds s"
    "se_groupTunnelIds (visit_tunnel t direct n s) = se_groupTunnelIds s"
  using n by (simp_all add: visit_tunnel_def Let_def discover_fold)

lemma visit_tunnel_old: "\<not> 0 < n \<or> n \<in> set (se_visitedTunnels s) \<Longrightarrow> visit_tunnel t direct n s = s"
  by (auto simp: visit_tunnel_def)

text \<open>The two inner loops, each until its queue is empty.\<close>

lemma visit_group_less:
  assumes "0 < g" "g \<notin> set (se_visitedGroups s)"
  shows "unvisited_groups t (visit_group t g (s\<lparr>se_pendingGroups := gs\<rparr>)) \<subset>
    unvisited_groups t (s\<lparr>se_pendingGroups := g # gs\<rparr>)"
proof -
  have "unvisited_groups t (visit_group t g (s\<lparr>se_pendingGroups := gs\<rparr>)) \<subseteq>
      unvisited_groups t (s\<lparr>se_pendingGroups := g # gs\<rparr>) - {g}"
    using assms entry_group_universe [of t g] by (auto simp: unvisited_groups_def visit_group_new)
  moreover have "g \<in> unvisited_groups t (s\<lparr>se_pendingGroups := g # gs\<rparr>)"
    using assms by (simp add: unvisited_groups_def)
  ultimately show ?thesis by blast
qed

lemma visit_tunnel_less:
  assumes "0 < n" "n \<notin> set (se_visitedTunnels s)"
  shows "unvisited_tunnels t (visit_tunnel t direct n (s\<lparr>se_pendingTunnels := ns\<rparr>)) \<subset>
    unvisited_tunnels t (s\<lparr>se_pendingTunnels := n # ns\<rparr>)"
  using assms by (auto simp: unvisited_tunnels_def visit_tunnel_new)

function group_loop :: "topology_maps \<Rightarrow> search \<Rightarrow> search" where
  "group_loop t s =
     (case se_pendingGroups s of
        [] \<Rightarrow> s
      | g # gs \<Rightarrow> group_loop t (visit_group t g (s\<lparr>se_pendingGroups := gs\<rparr>)))"
  by pat_completeness auto

termination
proof (relation "measures [\<lambda>(t, s). card (unvisited_groups t s), \<lambda>(t, s). length (se_pendingGroups s)]")
  fix t and s :: search and g gs assume p: "se_pendingGroups s = g # gs"
  let ?s' = "visit_group t g (s\<lparr>se_pendingGroups := gs\<rparr>)"
  show "((t, ?s'), (t, s)) \<in> measures [\<lambda>(t, s). card (unvisited_groups t s), \<lambda>(t, s). length (se_pendingGroups s)]"
  proof (cases "0 < g \<and> g \<notin> set (se_visitedGroups s)")
    case True
    have s: "s\<lparr>se_pendingGroups := g # gs\<rparr> = s" using p by simp
    have "unvisited_groups t ?s' \<subset> unvisited_groups t s"
      using visit_group_less [of g s t gs] True unfolding s by simp
    then have "card (unvisited_groups t ?s') < card (unvisited_groups t s)" by (rule psubset_card_mono [OF finite_unvisited(1)])
    then show ?thesis by simp
  next
    case False
    then have s': "?s' = s\<lparr>se_pendingGroups := gs\<rparr>" by (intro visit_group_old) auto
    have "card (unvisited_groups t ?s') \<le> card (unvisited_groups t s)"
      unfolding s' by (rule card_mono [OF finite_unvisited(1)]) (auto simp: unvisited_groups_def p)
    then show ?thesis unfolding s' using p by (auto simp: le_less)
  qed
qed simp

function tunnel_loop :: "topology_maps \<Rightarrow> int list \<Rightarrow> search \<Rightarrow> search" where
  "tunnel_loop t direct s =
     (case se_pendingTunnels s of
        [] \<Rightarrow> s
      | n # ns \<Rightarrow> tunnel_loop t direct (visit_tunnel t direct n (s\<lparr>se_pendingTunnels := ns\<rparr>)))"
  by pat_completeness auto

termination
proof (relation "measures [\<lambda>(t, d, s). card (unvisited_tunnels t s), \<lambda>(t, d, s). length (se_pendingTunnels s)]")
  fix t direct and s :: search and n ns assume p: "se_pendingTunnels s = n # ns"
  let ?s' = "visit_tunnel t direct n (s\<lparr>se_pendingTunnels := ns\<rparr>)"
  show "((t, direct, ?s'), (t, direct, s))
    \<in> measures [\<lambda>(t, d, s). card (unvisited_tunnels t s), \<lambda>(t, d, s). length (se_pendingTunnels s)]"
  proof (cases "0 < n \<and> n \<notin> set (se_visitedTunnels s)")
    case True
    have s: "s\<lparr>se_pendingTunnels := n # ns\<rparr> = s" using p by simp
    have "unvisited_tunnels t ?s' \<subset> unvisited_tunnels t s"
      using visit_tunnel_less [of n s t direct ns] True unfolding s by simp
    then have "card (unvisited_tunnels t ?s') < card (unvisited_tunnels t s)" by (rule psubset_card_mono [OF finite_unvisited(2)])
    then show ?thesis by simp
  next
    case False
    then have s': "?s' = s\<lparr>se_pendingTunnels := ns\<rparr>" by (intro visit_tunnel_old) auto
    have "card (unvisited_tunnels t ?s') \<le> card (unvisited_tunnels t s)"
      unfolding s' by (rule card_mono [OF finite_unvisited(2)]) (auto simp: unvisited_tunnels_def p)
    then show ?thesis unfolding s' using p by (auto simp: le_less)
  qed
qed simp

declare group_loop.simps [simp del] tunnel_loop.simps [simp del]

text \<open>What the inner loops do to the sets of the search.\<close>

lemma group_loop_effect:
  "se_pendingGroups (group_loop t s) = [] \<and> se_visitedTunnels (group_loop t s) = se_visitedTunnels s
   \<and> set (se_visitedGroups s) \<union> {g \<in> set (se_pendingGroups s). 0 < g} \<subseteq> set (se_visitedGroups (group_loop t s))
   \<and> unvisited_groups t (group_loop t s) \<subseteq> unvisited_groups t s
   \<and> ({g \<in> set (se_pendingGroups s). 0 < g} \<subseteq> set (se_visitedGroups s) \<longrightarrow> group_loop t s = s\<lparr>se_pendingGroups := []\<rparr>)"
proof (induction t s rule: group_loop.induct)
  case (1 t s)
  show ?case
  proof (cases "se_pendingGroups s")
    case Nil
    then show ?thesis by (simp add: group_loop.simps [of t s])
  next
    case (Cons g gs)
    define s' where "s' = visit_group t g (s\<lparr>se_pendingGroups := gs\<rparr>)"
    have step: "group_loop t s = group_loop t s'" using Cons by (simp add: group_loop.simps [of t s] s'_def)
    note IH = "1.IH" [OF Cons, folded s'_def]
    have s: "s\<lparr>se_pendingGroups := g # gs\<rparr> = s" using Cons by simp
    show ?thesis
    proof (cases "0 < g \<and> g \<notin> set (se_visitedGroups s)")
      case True
      note v = visit_group_new [of g "s\<lparr>se_pendingGroups := gs\<rparr>" t, folded s'_def, simplified]
      have "unvisited_groups t s' \<subseteq> unvisited_groups t s"
        using visit_group_less [of g s t gs] True s by (simp add: s'_def)
      then show ?thesis using IH True v(2,3,5) Cons unfolding step by (simp add: subset_iff) blast
    next
      case False
      then have s': "s' = s\<lparr>se_pendingGroups := gs\<rparr>" unfolding s'_def by (intro visit_group_old) auto
      have "unvisited_groups t s' \<subseteq> unvisited_groups t s" unfolding s' by (auto simp: unvisited_groups_def Cons)
      then show ?thesis using IH False Cons unfolding step s' by (simp add: subset_iff) blast
    qed
  qed
qed

lemma tunnel_loop_effect:
  "se_pendingTunnels (tunnel_loop t direct s) = [] \<and> se_visitedGroups (tunnel_loop t direct s) = se_visitedGroups s
   \<and> set (se_visitedTunnels s) \<union> {n \<in> set (se_pendingTunnels s). 0 < n} \<subseteq> set (se_visitedTunnels (tunnel_loop t direct s))
   \<and> unvisited_tunnels t (tunnel_loop t direct s) \<subseteq> unvisited_tunnels t s
   \<and> unvisited_groups t (tunnel_loop t direct s) \<subseteq> unvisited_groups t s
   \<and> ({n \<in> set (se_pendingTunnels s). 0 < n} \<subseteq> set (se_visitedTunnels s)
       \<longrightarrow> tunnel_loop t direct s = s\<lparr>se_pendingTunnels := []\<rparr>)"
proof (induction t direct s rule: tunnel_loop.induct)
  case (1 t direct s)
  show ?case
  proof (cases "se_pendingTunnels s")
    case Nil
    then show ?thesis by (simp add: tunnel_loop.simps [of t direct s])
  next
    case (Cons n ns)
    define s' where "s' = visit_tunnel t direct n (s\<lparr>se_pendingTunnels := ns\<rparr>)"
    have step: "tunnel_loop t direct s = tunnel_loop t direct s'" using Cons by (simp add: tunnel_loop.simps [of t direct s] s'_def)
    note IH = "1.IH" [OF Cons, folded s'_def]
    have s: "s\<lparr>se_pendingTunnels := n # ns\<rparr> = s" using Cons by simp
    show ?thesis
    proof (cases "0 < n \<and> n \<notin> set (se_visitedTunnels s)")
      case True
      note v = visit_tunnel_new [of n "s\<lparr>se_pendingTunnels := ns\<rparr>" t direct, folded s'_def, simplified]
      have "unvisited_tunnels t s' \<subseteq> unvisited_tunnels t s"
        using visit_tunnel_less [of n s t direct ns] True s by (simp add: s'_def)
      moreover have "unvisited_groups t s' \<subseteq> unvisited_groups t s"
        using v(2,5) True related_groups_universe by (auto simp: unvisited_groups_def)
      ultimately show ?thesis using IH True v(2,3,6) Cons unfolding step by (simp add: subset_iff) blast
    next
      case False
      then have s': "s' = s\<lparr>se_pendingTunnels := ns\<rparr>" unfolding s'_def by (intro visit_tunnel_old) auto
      have "unvisited_tunnels t s' \<subseteq> unvisited_tunnels t s" "unvisited_groups t s' = unvisited_groups t s"
        unfolding s' by (auto simp: unvisited_tunnels_def unvisited_groups_def Cons)
      then show ?thesis using IH False Cons unfolding step s' by (simp add: subset_iff) blast
    qed
  qed
qed

text \<open>The outer loop.\<close>

function expand_loop :: "topology_maps \<Rightarrow> int list \<Rightarrow> search \<Rightarrow> search" where
  "expand_loop t direct s =
     (if se_pendingGroups s = [] \<and> se_pendingTunnels s = [] then s
      else expand_loop t direct (tunnel_loop t direct (group_loop t s)))"
  by pat_completeness auto

termination
proof (relation "measures [\<lambda>(t, d, s). card (unvisited_groups t s), \<lambda>(t, d, s). card (unvisited_tunnels t s),
    \<lambda>(t, d, s). length (se_pendingGroups s) + length (se_pendingTunnels s)]")
  fix t direct and s :: search
  assume p: "\<not> (se_pendingGroups s = [] \<and> se_pendingTunnels s = [])"
  define g where "g = group_loop t s"
  define n where "n = tunnel_loop t direct g"
  note G = group_loop_effect [of t s, folded g_def]
  note N = tunnel_loop_effect [of t direct g, folded n_def]
  let ?R = "measures [\<lambda>(t, d, s). card (unvisited_groups t s), \<lambda>(t, d, s). card (unvisited_tunnels t s),
    \<lambda>(t, d, s). length (se_pendingGroups s) + length (se_pendingTunnels s)]"
  have ug: "unvisited_groups t n \<subseteq> unvisited_groups t s" using G N by blast
  show "((t, direct, tunnel_loop t direct (group_loop t s)), (t, direct, s)) \<in> ?R"
    unfolding g_def [symmetric] n_def [symmetric]
  proof (cases "{g \<in> set (se_pendingGroups s). 0 < g} \<subseteq> set (se_visitedGroups s)")
    case False
    then obtain x where x: "x \<in> set (se_pendingGroups s)" "0 < x" "x \<notin> set (se_visitedGroups s)" by blast
    have "x \<in> set (se_visitedGroups n)" using G N x by auto
    then have "x \<notin> unvisited_groups t n" "x \<in> unvisited_groups t s" using x by (simp_all add: unvisited_groups_def)
    then have "card (unvisited_groups t n) < card (unvisited_groups t s)"
      using ug by (intro psubset_card_mono) auto
    then show "((t, direct, n), (t, direct, s)) \<in> ?R" by simp
  next
    case True
    have g: "g = s\<lparr>se_pendingGroups := []\<rparr>" using G True by simp
    have ut: "unvisited_tunnels t g = unvisited_tunnels t s" by (simp add: g unvisited_tunnels_def)
    have le: "card (unvisited_groups t n) \<le> card (unvisited_groups t s)" using ug by (intro card_mono) auto
    show "((t, direct, n), (t, direct, s)) \<in> ?R"
    proof (cases "{n \<in> set (se_pendingTunnels s). 0 < n} \<subseteq> set (se_visitedTunnels s)")
      case False
      then obtain x where x: "x \<in> set (se_pendingTunnels s)" "0 < x" "x \<notin> set (se_visitedTunnels s)" by blast
      have "x \<in> set (se_visitedTunnels n)" using N x g by auto
      then have "x \<notin> unvisited_tunnels t n" "x \<in> unvisited_tunnels t s" using x by (simp_all add: unvisited_tunnels_def)
      then have "card (unvisited_tunnels t n) < card (unvisited_tunnels t s)"
        using N ut by (intro psubset_card_mono) auto
      then show ?thesis using le by (auto simp: le_less)
    next
      case True
      then have n: "n = g\<lparr>se_pendingTunnels := []\<rparr>" using N g by simp
      have "unvisited_tunnels t n \<subseteq> unvisited_tunnels t s" using N ut by simp
      then have "card (unvisited_tunnels t n) \<le> card (unvisited_tunnels t s)" by (intro card_mono) auto
      then show ?thesis using le p by (auto simp: le_less n g)
    qed
  qed
qed simp

declare expand_loop.simps [simp del]

section \<open>The scope\<close>

record access_scope =
  as_hostIds :: "int list"
  as_tunnelIds :: "int list"
  as_groupIds :: "int list"
  as_useHostIds :: "int list"
  as_useTunnelIds :: "int list"
  as_useGroupIds :: "int list"
  as_groupHostIds :: "(int, int list) jmap"
  as_groupTunnelIds :: "(int, int list) jmap"

definition expandLinkAccessScope :: "closure_input \<Rightarrow> access_scope" where
  "expandLinkAccessScope input =
     (let t = topology_of input;
          hostIds = positive_ids (ci_hostIds input);
          tunnelIds = positive_ids (ci_tunnelIds input);
          groupIds = positive_ids (ci_groupIds input);
          s = expand_loop t tunnelIds
                \<lparr>se_hostIds = hostIds, se_groupIds = groupIds, se_pendingGroups = groupIds, se_pendingTunnels = tunnelIds,
                 se_visitedGroups = [], se_visitedTunnels = [], se_groupHostIds = [], se_groupTunnelIds = []\<rparr>
      in \<lparr>as_hostIds = se_hostIds s, as_tunnelIds = tunnelIds, as_groupIds = se_groupIds s,
          as_useHostIds = hostIds, as_useTunnelIds = tunnelIds, as_useGroupIds = groupIds,
          as_groupHostIds = se_groupHostIds s, as_groupTunnelIds = se_groupTunnelIds s\<rparr>)"

section \<open>What can be reached\<close>

text \<open>
  The specification: a group is reached when it was granted, is the entry group of a reached group or belongs to a
  reached tunnel; a tunnel is reached when it was granted or is an enabled member of a reached group.
\<close>

datatype resource = GroupNode int | TunnelNode int

inductive reaches :: "topology_maps \<Rightarrow> int set \<Rightarrow> int set \<Rightarrow> resource \<Rightarrow> bool"
  for t :: topology_maps and G0 T0 :: "int set" where
  granted_group: "g \<in> G0 \<Longrightarrow> reaches t G0 T0 (GroupNode g)"
| granted_tunnel: "n \<in> T0 \<Longrightarrow> reaches t G0 T0 (TunnelNode n)"
| entry: "reaches t G0 T0 (GroupNode g) \<Longrightarrow> 0 < entry_group t g \<Longrightarrow> reaches t G0 T0 (GroupNode (entry_group t g))"
| member: "reaches t G0 T0 (GroupNode g) \<Longrightarrow> n \<in> group_tunnels t g \<Longrightarrow> reaches t G0 T0 (TunnelNode n)"
| related: "reaches t G0 T0 (TunnelNode n) \<Longrightarrow> g \<in> set (related_groups t n) \<Longrightarrow> 0 < g \<Longrightarrow> reaches t G0 T0 (GroupNode g)"

definition frontier_ok :: "topology_maps \<Rightarrow> int set \<Rightarrow> int set \<Rightarrow> search \<Rightarrow> bool" where
  "frontier_ok t G0 T0 s \<longleftrightarrow>
     G0 \<subseteq> set (se_groupIds s)
     \<and> set (se_groupIds s) = set (se_visitedGroups s) \<union> set (se_pendingGroups s)
     \<and> T0 \<subseteq> set (se_visitedTunnels s) \<union> set (se_pendingTunnels s)
     \<and> (\<forall>g \<in> set (se_groupIds s). 0 < g \<and> reaches t G0 T0 (GroupNode g))
     \<and> (\<forall>n \<in> set (se_visitedTunnels s) \<union> set (se_pendingTunnels s). 0 < n \<and> reaches t G0 T0 (TunnelNode n))
     \<and> (\<forall>g \<in> set (se_visitedGroups s). (0 < entry_group t g \<longrightarrow> entry_group t g \<in> set (se_groupIds s))
          \<and> group_tunnels t g \<subseteq> set (se_visitedTunnels s) \<union> set (se_pendingTunnels s))
     \<and> (\<forall>n \<in> set (se_visitedTunnels s). {g \<in> set (related_groups t n). 0 < g} \<subseteq> set (se_groupIds s))"

definition scopes_ok :: "topology_maps \<Rightarrow> int set \<Rightarrow> int set \<Rightarrow> search \<Rightarrow> bool" where
  "scopes_ok t H0 T0 s \<longleftrightarrow>
     set (se_hostIds s) = H0 \<union> (\<Union>n \<in> set (se_visitedTunnels s) \<inter> T0. set (hosts_of_tunnel t n))
     \<and> (\<forall>g. (jm_has (se_groupHostIds s) g \<longleftrightarrow> g \<in> set (se_visitedGroups s))
          \<and> (jm_has (se_groupTunnelIds s) g \<longleftrightarrow> g \<in> set (se_visitedGroups s))
          \<and> scope_of (se_groupHostIds s) g = (if g \<in> set (se_visitedGroups s) then group_hosts t g else {})
          \<and> scope_of (se_groupTunnelIds s) g = (if g \<in> set (se_visitedGroups s) then group_tunnels t g else {}))"

lemma frontier_cong:
  assumes "se_groupIds s' = se_groupIds s" "se_visitedGroups s' = se_visitedGroups s"
    "se_visitedTunnels s' = se_visitedTunnels s"
    "set (se_visitedGroups s) \<union> set (se_pendingGroups s') = set (se_visitedGroups s) \<union> set (se_pendingGroups s)"
    "set (se_visitedTunnels s) \<union> set (se_pendingTunnels s') = set (se_visitedTunnels s) \<union> set (se_pendingTunnels s)"
  shows "frontier_ok t G0 T0 s' = frontier_ok t G0 T0 s"
  unfolding frontier_ok_def assms ..

lemma visit_group_frontier:
  assumes "frontier_ok t G0 T0 s" "se_pendingGroups s = g # gs"
  shows "frontier_ok t G0 T0 (visit_group t g (s\<lparr>se_pendingGroups := gs\<rparr>))"
proof (cases "g \<in> set (se_visitedGroups s)")
  case True
  then have v: "visit_group t g (s\<lparr>se_pendingGroups := gs\<rparr>) = s\<lparr>se_pendingGroups := gs\<rparr>" by (intro visit_group_old) simp
  have "set (se_visitedGroups s) \<union> set gs = set (se_visitedGroups s) \<union> set (se_pendingGroups s)"
    using assms(2) True by auto
  then have "frontier_ok t G0 T0 (s\<lparr>se_pendingGroups := gs\<rparr>) = frontier_ok t G0 T0 s"
    by (intro frontier_cong) simp_all
  then show ?thesis unfolding v using assms(1) by simp
next
  case False
  have g: "0 < g" "reaches t G0 T0 (GroupNode g)" using assms by (simp_all add: frontier_ok_def)
  have e: "0 < entry_group t g \<Longrightarrow> reaches t G0 T0 (GroupNode (entry_group t g))" using g(2) by (rule reaches.entry)
  have n: "n \<in> group_tunnels t g \<Longrightarrow> 0 < n \<and> reaches t G0 T0 (TunnelNode n)" for n
    using g(2) group_tunnels_universe [of t g] by (auto intro: reaches.member)
  note v = visit_group_new [of g "s\<lparr>se_pendingGroups := gs\<rparr>" t, OF g(1), simplified, OF False]
  show ?thesis
    unfolding frontier_ok_def v
    using assms e n unfolding frontier_ok_def by (intro conjI) (simp, blast)+
qed

lemma visit_tunnel_frontier:
  assumes "frontier_ok t G0 T0 s" "se_pendingTunnels s = n # ns"
  shows "frontier_ok t G0 T0 (visit_tunnel t direct n (s\<lparr>se_pendingTunnels := ns\<rparr>))"
proof (cases "n \<in> set (se_visitedTunnels s)")
  case True
  then have v: "visit_tunnel t direct n (s\<lparr>se_pendingTunnels := ns\<rparr>) = s\<lparr>se_pendingTunnels := ns\<rparr>"
    by (intro visit_tunnel_old) simp
  have "set (se_visitedTunnels s) \<union> set ns = set (se_visitedTunnels s) \<union> set (se_pendingTunnels s)"
    using assms True by auto
  then have "frontier_ok t G0 T0 (s\<lparr>se_pendingTunnels := ns\<rparr>) = frontier_ok t G0 T0 s"
    by (intro frontier_cong) simp_all
  then show ?thesis unfolding v using assms(1) by simp
next
  case False
  have n: "0 < n" "reaches t G0 T0 (TunnelNode n)" using assms by (simp_all add: frontier_ok_def)
  have r: "0 < g \<Longrightarrow> g \<in> set (related_groups t n) \<Longrightarrow> reaches t G0 T0 (GroupNode g)" for g
    using n(2) by (auto intro: reaches.related)
  note v = visit_tunnel_new [of n "s\<lparr>se_pendingTunnels := ns\<rparr>" t direct, OF n(1), simplified, OF False]
  have f: "G0 \<subseteq> set (se_groupIds s)" "set (se_groupIds s) = set (se_visitedGroups s) \<union> set (se_pendingGroups s)"
    "T0 \<subseteq> set (se_visitedTunnels s) \<union> insert n (set ns)"
    "\<forall>g \<in> set (se_groupIds s). 0 < g \<and> reaches t G0 T0 (GroupNode g)"
    "\<forall>n \<in> set (se_visitedTunnels s) \<union> insert n (set ns). 0 < n \<and> reaches t G0 T0 (TunnelNode n)"
    "\<forall>g \<in> set (se_visitedGroups s). (0 < entry_group t g \<longrightarrow> entry_group t g \<in> set (se_groupIds s))
       \<and> group_tunnels t g \<subseteq> set (se_visitedTunnels s) \<union> insert n (set ns)"
    "\<forall>n \<in> set (se_visitedTunnels s). {g \<in> set (related_groups t n). 0 < g} \<subseteq> set (se_groupIds s)"
    using assms(1) unfolding frontier_ok_def assms(2) list.set by blast+
  show ?thesis
    unfolding frontier_ok_def v search.simps
  proof (intro conjI)
    show "\<forall>g\<in>set (se_groupIds s) \<union> {g \<in> set (related_groups t n). 0 < g}. 0 < g \<and> reaches t G0 T0 (GroupNode g)"
      using f(4) r by blast
    show "\<forall>na\<in>insert n (set (se_visitedTunnels s)). {g \<in> set (related_groups t na). 0 < g}
        \<subseteq> set (se_groupIds s) \<union> {g \<in> set (related_groups t n). 0 < g}"
      using f(7) by blast
  qed (use f in blast)+
qed

lemma scopes_cong:
  assumes "se_hostIds s' = se_hostIds s" "se_visitedTunnels s' = se_visitedTunnels s" "se_visitedGroups s' = se_visitedGroups s"
    "se_groupHostIds s' = se_groupHostIds s" "se_groupTunnelIds s' = se_groupTunnelIds s"
  shows "scopes_ok t H0 T0 s' = scopes_ok t H0 T0 s"
  unfolding scopes_ok_def assms ..

lemma visit_group_scopes:
  assumes "scopes_ok t H0 T0 s"
  shows "scopes_ok t H0 T0 (visit_group t g (s\<lparr>se_pendingGroups := gs\<rparr>))"
proof (cases "0 < g \<and> g \<notin> set (se_visitedGroups s)")
  case True
  note v = visit_group_new [of g "s\<lparr>se_pendingGroups := gs\<rparr>" t, simplified, OF conjunct1 [OF True] conjunct2 [OF True]]
  show ?thesis using assms True unfolding scopes_ok_def v by auto
next
  case False
  then have "visit_group t g (s\<lparr>se_pendingGroups := gs\<rparr>) = s\<lparr>se_pendingGroups := gs\<rparr>" by (intro visit_group_old) auto
  then show ?thesis using assms scopes_cong [of "s\<lparr>se_pendingGroups := gs\<rparr>" s] by simp
qed

lemma visit_tunnel_scopes:
  assumes "scopes_ok t H0 (set direct) s"
  shows "scopes_ok t H0 (set direct) (visit_tunnel t direct n (s\<lparr>se_pendingTunnels := ns\<rparr>))"
proof (cases "0 < n \<and> n \<notin> set (se_visitedTunnels s)")
  case True
  note v = visit_tunnel_new [of n "s\<lparr>se_pendingTunnels := ns\<rparr>" t direct, simplified, OF conjunct1 [OF True] conjunct2 [OF True]]
  show ?thesis using assms unfolding scopes_ok_def v by auto
next
  case False
  then have "visit_tunnel t direct n (s\<lparr>se_pendingTunnels := ns\<rparr>) = s\<lparr>se_pendingTunnels := ns\<rparr>"
    by (intro visit_tunnel_old) auto
  then show ?thesis using assms scopes_cong [of "s\<lparr>se_pendingTunnels := ns\<rparr>" s] by simp
qed

lemma group_loop_ok:
  "frontier_ok t G0 T0 s \<Longrightarrow> scopes_ok t H0 T0 s \<Longrightarrow>
   frontier_ok t G0 T0 (group_loop t s) \<and> scopes_ok t H0 T0 (group_loop t s)"
proof (induction t s rule: group_loop.induct)
  case (1 t s)
  show ?case
    using "1.IH" visit_group_frontier [OF "1.prems"(1)] visit_group_scopes [OF "1.prems"(2)] "1.prems"
    by (cases "se_pendingGroups s") (simp_all add: group_loop.simps [of t s])
qed

lemma tunnel_loop_ok:
  "frontier_ok t G0 (set direct) s \<Longrightarrow> scopes_ok t H0 (set direct) s \<Longrightarrow>
   frontier_ok t G0 (set direct) (tunnel_loop t direct s) \<and> scopes_ok t H0 (set direct) (tunnel_loop t direct s)"
proof (induction t direct s rule: tunnel_loop.induct)
  case (1 t direct s)
  show ?case
    using "1.IH" visit_tunnel_frontier [OF "1.prems"(1)] visit_tunnel_scopes [OF "1.prems"(2)] "1.prems"
    by (cases "se_pendingTunnels s") (simp_all add: tunnel_loop.simps [of t direct s])
qed

lemma expand_loop_ok:
  "frontier_ok t G0 (set direct) s \<Longrightarrow> scopes_ok t H0 (set direct) s \<Longrightarrow>
   frontier_ok t G0 (set direct) (expand_loop t direct s) \<and> scopes_ok t H0 (set direct) (expand_loop t direct s)
   \<and> se_pendingGroups (expand_loop t direct s) = [] \<and> se_pendingTunnels (expand_loop t direct s) = []"
proof (induction t direct s rule: expand_loop.induct)
  case (1 t direct s)
  show ?case
  proof (cases "se_pendingGroups s = [] \<and> se_pendingTunnels s = []")
    case True
    then show ?thesis using "1.prems" by (simp add: expand_loop.simps [of t direct s])
  next
    case False
    note g = group_loop_ok [OF "1.prems"]
    note n = tunnel_loop_ok [OF conjunct1 [OF g] conjunct2 [OF g]]
    have "expand_loop t direct s = expand_loop t direct (tunnel_loop t direct (group_loop t s))"
      using False by (subst expand_loop.simps) auto
    then show ?thesis using "1.IH" [OF False conjunct1 [OF n] conjunct2 [OF n]] by simp
  qed
qed

lemma set_positive_ids: "set (positive_ids vs) = {i \<in> positive_id ` set vs. 0 < i}"
proof -
  have "set (foldl (\<lambda>ids v. let i = positive_id v in if 0 < i then set_add i ids else ids) xs vs)
      = set xs \<union> {i \<in> positive_id ` set vs. 0 < i}" for xs
    by (induction vs arbitrary: xs) (auto simp: Let_def)
  then show ?thesis by (simp add: positive_ids_def)
qed

text \<open>At the end the visited groups are exactly the reachable ones.\<close>

lemma closed_reaches:
  assumes ok: "frontier_ok t G0 T0 s" and empty: "se_pendingGroups s = []" "se_pendingTunnels s = []"
  shows "set (se_groupIds s) = {g. reaches t G0 T0 (GroupNode g)}"
proof -
  have "reaches t G0 T0 x \<Longrightarrow> (case x of GroupNode g \<Rightarrow> g \<in> set (se_visitedGroups s) | TunnelNode n \<Rightarrow> n \<in> set (se_visitedTunnels s))" for x
  proof (induction x rule: reaches.induct)
    case (related n g)
    then show ?case using ok empty by (simp add: frontier_ok_def) blast
  qed (use ok empty in \<open>auto simp: frontier_ok_def\<close>)
  then have "reaches t G0 T0 (GroupNode g) \<Longrightarrow> g \<in> set (se_visitedGroups s)" for g by force
  then show ?thesis using ok empty by (auto simp: frontier_ok_def)
qed

text \<open>
  C6. The expansion of the grants is exactly what the topology reaches.  The visible groups are the granted
  ones and all that follow through entry groups, member tunnels and the groups of tunnels; each has the hosts and
  tunnels of its enabled members in its own scope; the hosts visible on their own are the granted ones and those of
  granted tunnels; and what a rule may be rooted at is exactly what was granted.
\<close>

theorem expandLinkAccessScope_exact:
  fixes input :: closure_input and t :: topology_maps and r :: access_scope and H0 T0 G0 :: "int set"
  defines "t \<equiv> topology_of input"
    and "r \<equiv> expandLinkAccessScope input"
    and "H0 \<equiv> {i \<in> positive_id ` set (ci_hostIds input). 0 < i}"
    and "T0 \<equiv> {i \<in> positive_id ` set (ci_tunnelIds input). 0 < i}"
    and "G0 \<equiv> {i \<in> positive_id ` set (ci_groupIds input). 0 < i}"
  shows "set (as_groupIds r) = {g. reaches t G0 T0 (GroupNode g)}
    \<and> set (as_tunnelIds r) = T0
    \<and> set (as_hostIds r) = H0 \<union> (\<Union>n \<in> T0. set (hosts_of_tunnel t n))
    \<and> set (as_useHostIds r) = H0 \<and> set (as_useTunnelIds r) = T0 \<and> set (as_useGroupIds r) = G0
    \<and> (\<forall>g. jm_has (as_groupHostIds r) g = reaches t G0 T0 (GroupNode g)
        \<and> jm_has (as_groupTunnelIds r) g = reaches t G0 T0 (GroupNode g)
        \<and> scope_of (as_groupHostIds r) g = (if reaches t G0 T0 (GroupNode g) then group_hosts t g else {})
        \<and> scope_of (as_groupTunnelIds r) g = (if reaches t G0 T0 (GroupNode g) then group_tunnels t g else {}))"
proof -
  define hs ts gs where "hs = positive_ids (ci_hostIds input)" and "ts = positive_ids (ci_tunnelIds input)"
    and "gs = positive_ids (ci_groupIds input)"
  have sets: "set hs = H0" "set ts = T0" "set gs = G0"
    by (simp_all add: hs_def ts_def gs_def set_positive_ids H0_def T0_def G0_def)
  define s0 where "s0 = \<lparr>se_hostIds = hs, se_groupIds = gs, se_pendingGroups = gs, se_pendingTunnels = ts,
     se_visitedGroups = [], se_visitedTunnels = [], se_groupHostIds = [], se_groupTunnelIds = []\<rparr>"
  define s where "s = expand_loop t ts s0"
  have "frontier_ok t G0 T0 s0"
    using sets by (auto simp: frontier_ok_def s0_def G0_def T0_def intro: reaches.intros)
  moreover have "scopes_ok t H0 T0 s0"
    by (simp add: scopes_ok_def s0_def sets jm_has_def scope_of_def)
  ultimately have ok: "frontier_ok t G0 T0 s" "scopes_ok t H0 T0 s" "se_pendingGroups s = []" "se_pendingTunnels s = []"
    using expand_loop_ok [of t G0 ts s0 H0] by (simp_all add: s_def sets)
  have groups: "set (se_groupIds s) = {g. reaches t G0 T0 (GroupNode g)}" by (rule closed_reaches [OF ok(1,3,4)])
  have visited: "set (se_visitedGroups s) = {g. reaches t G0 T0 (GroupNode g)}"
    using ok(1,3) unfolding groups [symmetric] by (simp add: frontier_ok_def)
  have "T0 \<subseteq> set (se_visitedTunnels s)" using ok(1,4) by (simp add: frontier_ok_def)
  then have hosts: "set (se_hostIds s) = H0 \<union> (\<Union>n \<in> T0. set (hosts_of_tunnel t n))"
    using ok(2) by (simp add: scopes_ok_def Int_absorb1)
  have r: "r = \<lparr>as_hostIds = se_hostIds s, as_tunnelIds = ts, as_groupIds = se_groupIds s,
      as_useHostIds = hs, as_useTunnelIds = ts, as_useGroupIds = gs,
      as_groupHostIds = se_groupHostIds s, as_groupTunnelIds = se_groupTunnelIds s\<rparr>"
    by (simp add: r_def expandLinkAccessScope_def Let_def s_def s0_def t_def hs_def ts_def gs_def)
  show ?thesis
    using ok(2) visited unfolding r access_scope.simps scopes_ok_def by (simp add: groups hosts sets)
qed

end
