(* ===== verification/Link_Access_View.thy ===== *)
theory Link_Access_View
imports Link_Access
begin

text \<open>
  How the scope of a user (theory \<open>Link_Access\<close>) is applied (\<open>server/linkAccessView.ts\<close>): traffic billing takes
  away what the user cannot pay for, rules rooted at anything else are sent to agents as disabled, and a shared
  tunnel is shown without the hosts and groups outside the scope.

  The rows of the database are arguments; \<open>getTrafficBillingAccessSnapshot\<close> of another component gives the
  snapshot.  Where the code sends a tunnel on with the spread of its other fields, they are one field \<open>rest\<close>.
\<close>

section \<open>Billing\<close>

record resource_ids =
  ri_hosts :: "int list"
  ri_tunnels :: "int list"
  ri_groups :: "int list"

datatype billing_status = Billing_Failed | Billing_Read

record billing_snapshot =
  bs_status :: billing_status
  bs_enabled :: bool
  bs_usable :: resource_ids
  bs_active :: resource_ids

text \<open>One kind of resource: what is billed is usable exactly when it is paid for.\<close>

definition apply_billing_ids :: "int list \<Rightarrow> int list \<Rightarrow> int list \<Rightarrow> int list" where
  "apply_billing_ids active usable useIds =
     foldl (\<lambda>ids i. if i \<le> 0 then ids else if i \<in> set usable then set_add i ids else removeAll i ids) useIds active"

definition billing_groups :: "group_row list \<Rightarrow> (int, group_row) jmap" where
  "billing_groups rows = foldl (\<lambda>m g. jm_set (positive_id (gw_id g)) g m) [] rows"

definition billing_members :: "member_row list \<Rightarrow> (int, member_row list) jmap" where
  "billing_members rows =
     foldl (\<lambda>m r. if \<not> db_bool (mw_isEnabled r) True then m
        else (let g = positive_id (mw_groupId r) in
              if g = 0 then m
              else jm_set g ((case jm_get m g of Some rs \<Rightarrow> rs | None \<Rightarrow> []) @ [r]) m)) [] rows"

definition denied_member :: "billing_snapshot \<Rightarrow> member_row \<Rightarrow> bool" where
  "denied_member b m =
     (let hostId = (if mw_memberType m = JStr ''host'' then positive_id (mw_hostId m) else 0);
          tunnelId = (if mw_memberType m = JStr ''tunnel'' then positive_id (mw_tunnelId m) else 0)
      in hostId \<noteq> 0 \<and> hostId \<in> set (ri_hosts (bs_active b)) \<and> hostId \<notin> set (ri_hosts (bs_usable b))
       \<or> tunnelId \<noteq> 0 \<and> tunnelId \<in> set (ri_tunnels (bs_active b)) \<and> tunnelId \<notin> set (ri_tunnels (bs_usable b)))"

definition billing_entry :: "(int, group_row) jmap \<Rightarrow> int \<Rightarrow> int" where
  "billing_entry groups g = (case jm_get groups g of Some r \<Rightarrow> positive_id (gw_entryGroupId r) | None \<Rightarrow> 0)"

definition rows_of :: "(int, member_row list) jmap \<Rightarrow> int \<Rightarrow> member_row list" where
  "rows_of members g = (case jm_get members g of Some ms \<Rightarrow> ms | None \<Rightarrow> [])"

text \<open>The search of \<open>groupHasDeniedBillingMember\<close> through the entry groups, with its queue and its visited set.\<close>

definition unseen_groups :: "(int, group_row) jmap \<Rightarrow> int list \<Rightarrow> int list \<Rightarrow> int set" where
  "unseen_groups groups pending visited =
     ((\<lambda>g. positive_id (gw_entryGroupId g)) ` set (jm_values groups) \<union> set pending) - set visited"

lemma finite_unseen [simp]: "finite (unseen_groups groups pending visited)"
  by (simp add: unseen_groups_def)

lemma billing_entry_value:
  "billing_entry groups g \<noteq> 0 \<Longrightarrow> billing_entry groups g \<in> (\<lambda>g. positive_id (gw_entryGroupId g)) ` set (jm_values groups)"
  by (cases "jm_get groups g") (auto simp del: set_map simp: billing_entry_def dest!: jm_get_value)

function denied_loop ::
    "billing_snapshot \<Rightarrow> (int, group_row) jmap \<Rightarrow> (int, member_row list) jmap \<Rightarrow> int list \<Rightarrow> int list \<Rightarrow> bool" where
  "denied_loop b groups members visited [] = False"
| "denied_loop b groups members visited (g # pending) =
     (if g \<le> 0 \<or> g \<in> set visited then denied_loop b groups members visited pending
      else if list_ex (denied_member b) (rows_of members g) then True
      else denied_loop b groups members (set_add g visited)
             (if billing_entry groups g \<noteq> 0 then pending @ [billing_entry groups g] else pending))"
  by pat_completeness auto

termination
proof (relation "measures [\<lambda>(b, groups, members, visited, pending). card (unseen_groups groups pending visited),
    \<lambda>(b, groups, members, visited, pending). length pending]")
  fix b groups members visited and g :: int and pending :: "int list"
  let ?R = "measures [\<lambda>(b :: billing_snapshot, groups, members :: (int, member_row list) jmap, visited, pending).
      card (unseen_groups groups pending visited), \<lambda>(b, groups, members, visited, pending). length pending]"
  show "g \<le> 0 \<or> g \<in> set visited \<Longrightarrow> ((b, groups, members, visited, pending), (b, groups, members, visited, g # pending)) \<in> ?R"
  proof -
    have "card (unseen_groups groups pending visited) \<le> card (unseen_groups groups (g # pending) visited)"
      by (rule card_mono [OF finite_unseen]) (auto simp: unseen_groups_def)
    then show ?thesis by (auto simp: le_less)
  qed
  assume new: "\<not> (g \<le> 0 \<or> g \<in> set visited)"
  let ?next = "if billing_entry groups g \<noteq> 0 then pending @ [billing_entry groups g] else pending"
  have "unseen_groups groups ?next (set_add g visited) \<subset> unseen_groups groups (g # pending) visited"
  proof -
    have "unseen_groups groups ?next (set_add g visited) \<subseteq> unseen_groups groups (g # pending) visited - {g}"
      using billing_entry_value [of groups g] by (auto simp: unseen_groups_def)
    moreover have "g \<in> unseen_groups groups (g # pending) visited" using new by (simp add: unseen_groups_def)
    ultimately show ?thesis by blast
  qed
  then have "card (unseen_groups groups ?next (set_add g visited)) < card (unseen_groups groups (g # pending) visited)"
    by (rule psubset_card_mono [OF finite_unseen])
  then show "((b, groups, members, set_add g visited, ?next), (b, groups, members, visited, g # pending)) \<in> ?R" by simp
qed simp

definition groupHasDeniedBillingMember ::
    "billing_snapshot \<Rightarrow> (int, group_row) jmap \<Rightarrow> (int, member_row list) jmap \<Rightarrow> int \<Rightarrow> bool" where
  "groupHasDeniedBillingMember b groups members rootGroupId = denied_loop b groups members [] [rootGroupId]"

text \<open>The end of \<open>loadLinkAccessScope\<close>, after the scope has been expanded.\<close>

definition apply_billing ::
    "billing_snapshot \<Rightarrow> bool \<Rightarrow> group_row list \<Rightarrow> member_row list \<Rightarrow> access_scope \<Rightarrow> access_scope" where
  "apply_billing b topologyRead groupRows memberRows scope =
     (if bs_status b = Billing_Failed
      then scope\<lparr>as_useHostIds := [], as_useTunnelIds := [], as_useGroupIds := []\<rparr>
      else if bs_enabled b
      then (let s = scope\<lparr>as_useHostIds := apply_billing_ids (ri_hosts (bs_active b)) (ri_hosts (bs_usable b)) (as_useHostIds scope),
                    as_useTunnelIds := apply_billing_ids (ri_tunnels (bs_active b)) (ri_tunnels (bs_usable b)) (as_useTunnelIds scope),
                    as_useGroupIds := apply_billing_ids (ri_groups (bs_active b)) (ri_groups (bs_usable b)) (as_useGroupIds scope)\<rparr>
            in if \<not> topologyRead then s\<lparr>as_useGroupIds := []\<rparr>
               else s\<lparr>as_useGroupIds := filter (\<lambda>g. \<not> groupHasDeniedBillingMember b (billing_groups groupRows)
                         (billing_members memberRows) g) (as_useGroupIds s)\<rparr>)
      else scope)"

section \<open>Rules\<close>

record rule_row =
  rr_userId :: jsval
  rr_forwardGroupId :: jsval
  rr_tunnelId :: jsval
  rr_hostId :: jsval
  rr_isEnabled :: bool
  rr_resourceAccessDenied :: bool

text \<open>\<^const>\<open>None\<close> is the scope of an administrator.\<close>

definition canUseForwardRuleResource :: "rule_row \<Rightarrow> access_scope option \<Rightarrow> bool" where
  "canUseForwardRuleResource rule scope =
     (case scope of
        None \<Rightarrow> True
      | Some s \<Rightarrow>
          (let groupId = positive_id (rr_forwardGroupId rule); tunnelId = positive_id (rr_tunnelId rule);
               hostId = positive_id (rr_hostId rule)
           in if 0 < groupId then groupId \<in> set (as_useGroupIds s)
              else if 0 < tunnelId then tunnelId \<in> set (as_useTunnelIds s)
              else 0 < hostId \<and> hostId \<in> set (as_useHostIds s)))"

definition deny_rule :: "rule_row \<Rightarrow> rule_row" where
  "deny_rule rule = rule\<lparr>rr_isEnabled := False, rr_resourceAccessDenied := True\<rparr>"

text \<open>
  The scope of a user: none for an unknown user (the outer \<^const>\<open>None\<close>), everything for an administrator.  The roles
  read from the database are rows of identifier and role; \<open>scopes\<close> loads the scope of a user.
\<close>

definition role_of :: "(jsval \<times> jsval) list \<Rightarrow> (int, string) jmap" where
  "role_of rows = foldl (\<lambda>m (i, role). jm_set (positive_id i) (js_string (js_or role (JStr ''user''))) m) [] rows"

definition scope_for :: "(jsval \<times> jsval) list \<Rightarrow> (int \<Rightarrow> access_scope) \<Rightarrow> int \<Rightarrow> access_scope option option" where
  "scope_for users scopes userId =
     (case jm_get (role_of users) userId of
        None \<Rightarrow> None
      | Some role \<Rightarrow> if role = [] then None else if role = ''admin'' then Some None else Some (Some (scopes userId)))"

text \<open>
  \<open>gateForwardRulesForRuntime\<close> on the rules left by the rule limits; \<open>users\<close> is \<^const>\<open>None\<close> without a database.
\<close>

definition gateForwardRulesForRuntime ::
    "(jsval \<times> jsval) list option \<Rightarrow> (int \<Rightarrow> access_scope) \<Rightarrow> rule_row list \<Rightarrow> rule_row list" where
  "gateForwardRulesForRuntime users scopes rules =
     (let userIds = js_uniq (filter (\<lambda>i. 0 < i) (map (\<lambda>r. positive_id (rr_userId r)) rules)) in
      if userIds = [] then rules
      else (case users of
        None \<Rightarrow> map deny_rule rules
      | Some rows \<Rightarrow>
          map (\<lambda>r. let userId = positive_id (rr_userId r);
                       scope = (if userId \<in> set userIds then scope_for rows scopes userId else None)
                   in if (case scope of None \<Rightarrow> False | Some s \<Rightarrow> canUseForwardRuleResource r s) then r
                      else deny_rule r) rules))"

section \<open>Billing is exact\<close>

lemma set_apply_billing_ids:
  "set (apply_billing_ids active usable useIds) =
     {i. if i \<in> set active \<and> 0 < i then i \<in> set usable else i \<in> set useIds}"
proof -
  have "set (foldl (\<lambda>ids i. if i \<le> 0 then ids else if i \<in> set usable then set_add i ids else removeAll i ids) ids active)
      = {i. if i \<in> set active \<and> 0 < i then i \<in> set usable else i \<in> set ids}" for ids
    by (induction active arbitrary: ids) auto
  then show ?thesis by (simp add: apply_billing_ids_def)
qed

text \<open>The groups a rule enters through, one after the other.\<close>

inductive entered :: "(int, group_row) jmap \<Rightarrow> int \<Rightarrow> int \<Rightarrow> bool" for groups where
  entered_self: "0 < g \<Longrightarrow> entered groups g g"
| entered_next: "0 < g \<Longrightarrow> entered groups (billing_entry groups g) h \<Longrightarrow> entered groups g h"

lemma entered_pos: "entered groups g h \<Longrightarrow> 0 < g"
  by (induction rule: entered.induct) auto

lemma billing_entry_pos: "billing_entry groups g \<noteq> 0 \<longleftrightarrow> 0 < billing_entry groups g"
  by (auto simp: billing_entry_def positive_id_def split: option.splits dest: js_positive_intD)

definition has_denied :: "billing_snapshot \<Rightarrow> (int, member_row list) jmap \<Rightarrow> int \<Rightarrow> bool" where
  "has_denied b members g = list_ex (denied_member b) (rows_of members g)"

definition searched :: "billing_snapshot \<Rightarrow> (int, group_row) jmap \<Rightarrow> (int, member_row list) jmap \<Rightarrow> int list \<Rightarrow> int list \<Rightarrow> bool" where
  "searched b groups members visited pending \<longleftrightarrow>
     (\<forall>v \<in> set visited. \<not> has_denied b members v
        \<and> (billing_entry groups v \<noteq> 0 \<longrightarrow> billing_entry groups v \<in> set visited \<union> set pending))"

lemma leaves_visited:
  assumes "entered groups v h" "searched b groups members visited pending" "v \<in> set visited" "has_denied b members h"
  shows "\<exists>p \<in> set pending. entered groups p h"
  using assms
proof (induction rule: entered.induct)
  case (entered_next g h)
  have "billing_entry groups g \<noteq> 0" using entered_pos [OF entered_next.hyps(2)] by simp
  then consider "billing_entry groups g \<in> set visited" | "billing_entry groups g \<in> set pending"
    using entered_next.prems by (auto simp: searched_def)
  then show ?case
  proof cases
    case 1
    then show ?thesis using entered_next by simp
  next
    case 2
    then show ?thesis using entered_next.hyps by blast
  qed
qed (simp add: searched_def)

lemma denied_loop_exact:
  "searched b groups members visited pending \<Longrightarrow>
   denied_loop b groups members visited pending \<longleftrightarrow> (\<exists>p \<in> set pending. \<exists>h. entered groups p h \<and> has_denied b members h)"
proof (induction b groups members visited pending rule: denied_loop.induct)
  case (2 b groups members visited g pending)
  let ?e = "billing_entry groups g"
  show ?case
  proof (cases "g \<le> 0 \<or> g \<in> set visited")
    case True
    have inv: "searched b groups members visited pending"
      using "2.prems" True billing_entry_pos [of groups] by (force simp: searched_def)
    have "entered groups g h \<Longrightarrow> has_denied b members h \<Longrightarrow> \<exists>p \<in> set pending. entered groups p h" for h
      using True leaves_visited [OF _ inv] entered_pos by force
    then show ?thesis using "2.IH"(1) [OF True inv] True by auto
  next
    case False
    show ?thesis
    proof (cases "list_ex (denied_member b) (rows_of members g)")
      case True
      then have "entered groups g g \<and> has_denied b members g" using False by (simp add: has_denied_def entered_self)
      then show ?thesis using True False by auto
    next
      case clean: False
      let ?next = "if ?e \<noteq> 0 then pending @ [?e] else pending"
      have inv: "searched b groups members (set_add g visited) ?next"
        using "2.prems" clean by (auto simp: searched_def has_denied_def)
      have "entered groups g h \<and> has_denied b members h \<longleftrightarrow> ?e \<noteq> 0 \<and> entered groups ?e h \<and> has_denied b members h" for h
        using clean False entered_pos [of groups ?e h] by (auto simp: has_denied_def elim: entered.cases intro: entered.intros)
      then show ?thesis using "2.IH"(2) [OF False clean inv] False clean by auto
    qed
  qed
qed simp

lemma groupHasDeniedBillingMember_exact:
  "groupHasDeniedBillingMember b groups members g \<longleftrightarrow> (\<exists>h. entered groups g h \<and> has_denied b members h)"
  using denied_loop_exact [of b groups members "[]" "[g]"]
  by (simp add: groupHasDeniedBillingMember_def searched_def)

text \<open>What a user may root a rule at, in terms of grants and bills.\<close>

definition may_root ::
    "billing_snapshot \<Rightarrow> bool \<Rightarrow> group_row list \<Rightarrow> member_row list \<Rightarrow> closure_input \<Rightarrow> rule_row \<Rightarrow> bool" where
  "may_root b topologyRead groupRows memberRows input rule =
     (let g = positive_id (rr_forwardGroupId rule); n = positive_id (rr_tunnelId rule); h = positive_id (rr_hostId rule);
          billed = bs_status b = Billing_Read \<and> bs_enabled b
      in bs_status b \<noteq> Billing_Failed
       \<and> (if 0 < g
          then (if billed \<and> g \<in> set (ri_groups (bs_active b)) then g \<in> set (ri_groups (bs_usable b))
                else g \<in> positive_id ` set (ci_groupIds input))
             \<and> (\<not> billed \<or> topologyRead
                  \<and> \<not> (\<exists>e. entered (billing_groups groupRows) g e \<and> has_denied b (billing_members memberRows) e))
          else if 0 < n
          then (if billed \<and> n \<in> set (ri_tunnels (bs_active b)) then n \<in> set (ri_tunnels (bs_usable b))
                else n \<in> positive_id ` set (ci_tunnelIds input))
          else 0 < h \<and>
            (if billed \<and> h \<in> set (ri_hosts (bs_active b)) then h \<in> set (ri_hosts (bs_usable b))
             else h \<in> positive_id ` set (ci_hostIds input))))"

lemma canUse_may_root:
  "canUseForwardRuleResource rule (Some (apply_billing b topologyRead groupRows memberRows (expandLinkAccessScope input)))
   \<longleftrightarrow> may_root b topologyRead groupRows memberRows input rule"
proof -
  have u: "set (as_useHostIds (expandLinkAccessScope input)) = {i \<in> positive_id ` set (ci_hostIds input). 0 < i}"
    "set (as_useTunnelIds (expandLinkAccessScope input)) = {i \<in> positive_id ` set (ci_tunnelIds input). 0 < i}"
    "set (as_useGroupIds (expandLinkAccessScope input)) = {i \<in> positive_id ` set (ci_groupIds input). 0 < i}"
    by (simp_all add: expandLinkAccessScope_def Let_def set_positive_ids)
  have s: "bs_status b = Billing_Failed \<or> bs_status b = Billing_Read" by (cases "bs_status b") simp_all
  show ?thesis
    using s unfolding canUseForwardRuleResource_def may_root_def apply_billing_def Let_def
    by (auto simp: u set_apply_billing_ids groupHasDeniedBillingMember_exact)
qed

text \<open>
  C2. Agents get a rule enabled only when its owner may use its root.  Each rule of a known ordinary user is
  passed on unchanged when its forwarding group, tunnel or host was granted to the user itself (membership in a
  granted group is not enough) and, with traffic billing on, is not billed without being usable and enters
  through no group with such a member; when the bills could not be read nothing is passed on.  Otherwise
  the rule is sent as disabled.  Rules of unknown users are disabled, those of administrators pass.
\<close>

theorem runtime_rules_authorized:
  assumes i: "i < length rules" and u: "u = positive_id (rr_userId (rules ! i))" "0 < u"
    and scope: "scopes u = apply_billing b topologyRead groupRows memberRows (expandLinkAccessScope input)"
  shows "gateForwardRulesForRuntime (Some users) scopes rules ! i =
    (case jm_get (role_of users) u of
       None \<Rightarrow> deny_rule (rules ! i)
     | Some role \<Rightarrow>
         if role = ''admin'' \<or> role \<noteq> [] \<and> may_root b topologyRead groupRows memberRows input (rules ! i)
         then rules ! i else deny_rule (rules ! i))"
proof -
  define userIds where "userIds = js_uniq (filter (\<lambda>i. 0 < i) (map (\<lambda>r. positive_id (rr_userId r)) rules))"
  have in_ids: "u \<in> set userIds" using i u by (auto simp: userIds_def)
  then have ne: "userIds \<noteq> []" by auto
  have "gateForwardRulesForRuntime (Some users) scopes rules ! i =
    (if (case scope_for users scopes u of None \<Rightarrow> False | Some s \<Rightarrow> canUseForwardRuleResource (rules ! i) s) then rules ! i
     else deny_rule (rules ! i))"
    unfolding gateForwardRulesForRuntime_def Let_def userIds_def [symmetric]
    using ne i in_ids by (simp add: u(1) [symmetric])
  then show ?thesis
    using canUse_may_root [of "rules ! i" b topologyRead groupRows memberRows input]
    by (auto simp: scope_for_def scope canUseForwardRuleResource_def [of _ None] split: option.split)
qed

theorem runtime_rules_authorized_witness:
  "let rule = \<lparr>rr_userId = JNum 7, rr_forwardGroupId = JNull, rr_tunnelId = JNull, rr_hostId = JNum 2, rr_isEnabled = True,
         rr_resourceAccessDenied = False\<rparr>;
       member = \<lparr>mw_groupId = JNum 100, mw_memberType = JStr ''host'', mw_hostId = JNum 2, mw_tunnelId = JNull, mw_isEnabled = JBool True\<rparr>;
       input = \<lparr>ci_hostIds = [], ci_tunnelIds = [], ci_groupIds = [JNum 100], ci_groups = [\<lparr>gw_id = JNum 100, gw_entryGroupId = JNull\<rparr>],
         ci_members = [member], ci_tunnels = [], ci_tunnelHops = [], ci_tunnelExitNodes = []\<rparr>;
       none = \<lparr>ri_hosts = [], ri_tunnels = [], ri_groups = []\<rparr>;
       b = \<lparr>bs_status = Billing_Read, bs_enabled = False, bs_usable = none, bs_active = none\<rparr>
   in gateForwardRulesForRuntime (Some [(JNum 7, JStr ''user'')]) (\<lambda>u. apply_billing b True [] [] (expandLinkAccessScope input)) [rule]
      = [deny_rule rule]"
proof -
  define rule where "rule = \<lparr>rr_userId = JNum 7, rr_forwardGroupId = JNull, rr_tunnelId = JNull, rr_hostId = JNum 2,
    rr_isEnabled = True, rr_resourceAccessDenied = False\<rparr>"
  define member where "member = \<lparr>mw_groupId = JNum 100, mw_memberType = JStr ''host'', mw_hostId = JNum 2, mw_tunnelId = JNull,
    mw_isEnabled = JBool True\<rparr>"
  define input where "input = \<lparr>ci_hostIds = [], ci_tunnelIds = [], ci_groupIds = [JNum 100],
    ci_groups = [\<lparr>gw_id = JNum 100, gw_entryGroupId = JNull\<rparr>], ci_members = [member], ci_tunnels = [], ci_tunnelHops = [],
    ci_tunnelExitNodes = []\<rparr>"
  define b where "b = \<lparr>bs_status = Billing_Read, bs_enabled = False, bs_usable = \<lparr>ri_hosts = [], ri_tunnels = [], ri_groups = []\<rparr>,
    bs_active = \<lparr>ri_hosts = [], ri_tunnels = [], ri_groups = []\<rparr>\<rparr>"
  have p: "positive_id (JNum 7) = 7" "positive_id JNull = 0" "positive_id (JNum 2) = 2"
    by (simp_all add: positive_id_def) (simp add: js_positive_int_def js_integer_def js_is_integer_def)
  have r: "jm_get (role_of [(JNum 7, JStr ''user'')]) 7 = Some ''user''" by (simp add: role_of_def p js_or_def)
  have "\<not> may_root b True [] [] input rule"
    by (simp add: may_root_def rule_def input_def b_def p Let_def)
  then have "gateForwardRulesForRuntime (Some [(JNum 7, JStr ''user'')]) (\<lambda>u. apply_billing b True [] [] (expandLinkAccessScope input)) [rule] ! 0
      = deny_rule rule"
    using runtime_rules_authorized [of 0 "[rule]" 7 "\<lambda>u. apply_billing b True [] [] (expandLinkAccessScope input)" b True "[]" "[]" input
        "[(JNum 7, JStr ''user'')]"] r
    by (simp add: p rule_def)
  moreover have "length (gateForwardRulesForRuntime (Some [(JNum 7, JStr ''user'')])
      (\<lambda>u. apply_billing b True [] [] (expandLinkAccessScope input)) [rule]) = 1"
    by (simp add: gateForwardRulesForRuntime_def Let_def)
  ultimately show ?thesis
    unfolding Let_def rule_def [symmetric] member_def [symmetric] input_def [symmetric] b_def [symmetric]
    by (metis One_nat_def length_0_conv length_Suc_conv nth_Cons_0)
qed

end
