(* ===== verification/Shared_Tunnel_View.thy ===== *)
theory Shared_Tunnel_View
imports Link_Access
begin

text \<open>
  What a user sees of a tunnel that is shared with it (\<open>filterTunnelFieldsForUser\<close> and its helpers in
  \<open>server/linkAccessView.ts\<close>): the parts outside the scope are left out.

  A tunnel is a map of its fields by name, as the code spreads and overwrites them: a field holds a plain value or a structured
  one (\<open>'x\<close>) that the filters do not look into.  The fields whose structure matters (groups, hosts, hops and exits) are
  apart; an array field that is not an array counts as empty, as in the code.  Hosts, members and groups are records of
  the fields the filters read or copy by name, and \<open>'s\<close> stands for the other fields of a host.
\<close>

section \<open>Objects\<close>

record 's host_object =
  ho_id :: jsval
  ho_name :: jsval
  ho_ip :: jsval
  ho_ipv4 :: jsval
  ho_ipv6 :: jsval
  ho_entryIp :: jsval
  ho_tunnelEntryIp :: jsval
  ho_ddnsEnabled :: jsval
  ho_ddnsDomain :: jsval
  ho_ddnsIpVersion :: jsval
  ho_ddnsRecordType :: jsval
  ho_geoCountryCode :: jsval
  ho_geoCountryName :: jsval
  ho_geoRegion :: jsval
  ho_geoEmoji :: jsval
  ho_isOnline :: jsval
  ho_lastHeartbeat :: jsval
  ho_private :: 's

record endpoint_host =
  eh_id :: jsval
  eh_name :: jsval
  eh_ip :: jsval
  eh_ipv4 :: jsval
  eh_ipv6 :: jsval
  eh_entryIp :: jsval
  eh_tunnelEntryIp :: jsval
  eh_ddnsEnabled :: bool
  eh_ddnsDomain :: jsval
  eh_ddnsIpVersion :: jsval
  eh_ddnsRecordType :: jsval
  eh_geoCountryCode :: jsval
  eh_geoCountryName :: jsval
  eh_geoRegion :: jsval
  eh_geoEmoji :: jsval
  eh_isOnline :: bool
  eh_lastHeartbeat :: jsval

record 's member_object =
  mo_id :: jsval
  mo_groupId :: jsval
  mo_memberType :: jsval
  mo_hostId :: jsval
  mo_tunnelId :: jsval
  mo_priority :: jsval
  mo_isEnabled :: jsval
  mo_chinaHealthStatus :: jsval
  mo_host :: "'s host_object option"

record endpoint_member =
  em_id :: jsval
  em_groupId :: jsval
  em_memberType :: jsval
  em_hostId :: jsval
  em_tunnelId :: jsval
  em_priority :: "rat option"
  em_isEnabled :: bool
  em_chinaHealthStatus :: jsval
  em_host :: "endpoint_host option"

record 's group_object =
  go_id :: jsval
  go_name :: jsval
  go_groupMode :: jsval
  go_exitStrategy :: jsval
  go_domain :: jsval
  go_recordType :: jsval
  go_isEnabled :: jsval
  go_lastStatus :: jsval
  go_chinaHealthCheckEnabled :: jsval
  go_members :: "'s member_object list"

record endpoint_group =
  eg_id :: jsval
  eg_name :: jsval
  eg_groupMode :: jsval
  eg_exitStrategy :: jsval
  eg_domain :: jsval
  eg_recordType :: jsval
  eg_isEnabled :: bool
  eg_lastStatus :: jsval
  eg_chinaHealthCheckEnabled :: bool
  eg_members :: "endpoint_member list"

record ('x, 's) exit_object =
  eo_hostId :: jsval
  eo_host :: "'s host_object option"
  eo_rest :: 'x

datatype 'x field_value = Plain jsval | Structured 'x

record ('x, 's) tunnel_object =
  to_fields :: "string \<rightharpoonup> 'x field_value"
  to_entryGroup :: "'s group_object option"
  to_exitGroup :: "'s group_object option"
  to_entryHost :: "'s host_object option"
  to_exitHost :: "'s host_object option"
  to_hopHostIds :: "jsval list"
  to_hopConnectHosts :: "jsval list"
  to_hopHosts :: "'s host_object list"
  to_loadBalanceExits :: "('x, 's) exit_object list"

record ('x, 's) tunnel_view =
  tv_fields :: "string \<rightharpoonup> 'x field_value"
  tv_entryGroup :: "endpoint_group option"
  tv_exitGroup :: "'s group_object option"
  tv_entryHost :: "'s host_object option"
  tv_exitHost :: "'s host_object option"
  tv_hopHostIds :: "rat list"
  tv_hopConnectHosts :: "jsval list"
  tv_hopHosts :: "'s host_object list"
  tv_loadBalanceExits :: "('x, 's) exit_object list"

section \<open>Filters\<close>

text \<open>\<open>Number(v || 0)\<close>, and membership of a number in a set of identifiers.\<close>

definition number_or_zero :: "jsval \<Rightarrow> rat option" where
  "number_or_zero v = js_number (js_or v (JNum 0))"

definition has_number :: "int list \<Rightarrow> jsval \<Rightarrow> bool" where
  "has_number ids v = (case number_or_zero v of None \<Rightarrow> False | Some q \<Rightarrow> list_ex (\<lambda>i. rat_of_int i = q) ids)"

definition allowedHost :: "access_scope \<Rightarrow> jsval \<Rightarrow> bool" where
  "allowedHost scope hostId =
     (case number_or_zero hostId of None \<Rightarrow> False | Some q \<Rightarrow> 0 < q \<and> has_number (as_hostIds scope) hostId)"

definition or_null :: "jsval \<Rightarrow> jsval \<Rightarrow> jsval" where
  "or_null v d = (if js_nullish v then d else v)"

definition filterTunnelEndpointHost :: "'s host_object \<Rightarrow> endpoint_host" where
  "filterTunnelEndpointHost host =
     \<lparr>eh_id = ho_id host, eh_name = ho_name host, eh_ip = ho_ip host, eh_ipv4 = ho_ipv4 host, eh_ipv6 = ho_ipv6 host,
      eh_entryIp = ho_entryIp host, eh_tunnelEntryIp = ho_tunnelEntryIp host,
      eh_ddnsEnabled = js_truthy (ho_ddnsEnabled host), eh_ddnsDomain = or_null (ho_ddnsDomain host) JNull,
      eh_ddnsIpVersion = or_null (ho_ddnsIpVersion host) (JStr ''ipv4''),
      eh_ddnsRecordType = or_null (ho_ddnsRecordType host) (JStr ''A''),
      eh_geoCountryCode = or_null (ho_geoCountryCode host) JNull, eh_geoCountryName = or_null (ho_geoCountryName host) JNull,
      eh_geoRegion = or_null (ho_geoRegion host) JNull, eh_geoEmoji = or_null (ho_geoEmoji host) JNull,
      eh_isOnline = js_truthy (ho_isOnline host), eh_lastHeartbeat = or_null (ho_lastHeartbeat host) JNull\<rparr>"

text \<open>The members of a group a user sees: those in the scope of the group when it has one.\<close>

definition scope_has :: "int list option \<Rightarrow> jsval \<Rightarrow> bool" where
  "scope_has ids v = (case ids of None \<Rightarrow> False | Some xs \<Rightarrow> has_number xs v)"

definition visible_member :: "access_scope \<Rightarrow> int \<Rightarrow> 's member_object \<Rightarrow> bool" where
  "visible_member scope groupId m =
     (let hosts = jm_get (as_groupHostIds scope) groupId; tunnels = jm_get (as_groupTunnelIds scope) groupId in
      if hosts \<noteq> None \<or> tunnels \<noteq> None
      then (if mo_memberType m = JStr ''tunnel'' then scope_has tunnels (mo_tunnelId m) else scope_has hosts (mo_hostId m))
      else (if mo_memberType m = JStr ''tunnel'' then has_number (as_tunnelIds scope) (mo_tunnelId m)
            else has_number (as_hostIds scope) (mo_hostId m)))"

definition visibleForwardGroupMemberIds :: "'s group_object \<Rightarrow> access_scope option \<Rightarrow> rat option list" where
  "visibleForwardGroupMemberIds grp scope =
     (case scope of
        None \<Rightarrow> map (\<lambda>m. js_number (mo_id m)) (go_members grp)
      | Some s \<Rightarrow> map (\<lambda>m. js_number (mo_id m)) (filter (visible_member s (positive_id (go_id grp))) (go_members grp)))"

text \<open>\<open>Number(a || b || 0)\<close> for the host of a member; its own object first.\<close>

definition member_host_id :: "'s member_object \<Rightarrow> jsval" where
  "member_host_id m = js_or (case mo_host m of Some h \<Rightarrow> ho_id h | None \<Rightarrow> JUndef) (mo_hostId m)"

definition filter_member :: "access_scope \<Rightarrow> int \<Rightarrow> 's member_object \<Rightarrow> endpoint_member" where
  "filter_member scope groupId m =
     (let hostId = member_host_id m;
          hostVisible = ((case number_or_zero hostId of None \<Rightarrow> False | Some q \<Rightarrow> 0 < q)
            \<and> (allowedHost scope hostId \<or> scope_has (jm_get (as_groupHostIds scope) groupId) hostId))
      in \<lparr>em_id = mo_id m, em_groupId = mo_groupId m, em_memberType = mo_memberType m,
          em_hostId = or_null (mo_hostId m) JNull, em_tunnelId = or_null (mo_tunnelId m) JNull,
          em_priority = number_or_zero (mo_priority m), em_isEnabled = (mo_isEnabled m \<noteq> JBool False),
          em_chinaHealthStatus = or_null (mo_chinaHealthStatus m) JNull,
          em_host = (if hostVisible then map_option filterTunnelEndpointHost (mo_host m) else None)\<rparr>)"

definition filterTunnelEndpointGroup :: "'s group_object option \<Rightarrow> access_scope \<Rightarrow> endpoint_group option" where
  "filterTunnelEndpointGroup grp scope =
     (case grp of
        None \<Rightarrow> None
      | Some g \<Rightarrow>
          (let groupId = positive_id (go_id g) in
           if groupId = 0 \<or> groupId \<notin> set (as_groupIds scope) then None
           else (let visibleMemberIds = visibleForwardGroupMemberIds g (Some scope) in
             Some \<lparr>eg_id = go_id g, eg_name = go_name g, eg_groupMode = go_groupMode g, eg_exitStrategy = go_exitStrategy g,
                   eg_domain = or_null (go_domain g) JNull, eg_recordType = or_null (go_recordType g) (JStr ''A''),
                   eg_isEnabled = (go_isEnabled g \<noteq> JBool False), eg_lastStatus = or_null (go_lastStatus g) JNull,
                   eg_chinaHealthCheckEnabled = js_truthy (go_chinaHealthCheckEnabled g),
                   eg_members = map (filter_member scope groupId)
                     (filter (\<lambda>m. number_or_zero (mo_id m) \<in> set visibleMemberIds) (go_members g))\<rparr>)))"

definition hop_indexes :: "access_scope \<Rightarrow> jsval list \<Rightarrow> nat list" where
  "hop_indexes scope rawHopIds = filter (\<lambda>i. allowedHost scope (rawHopIds ! i)) [0..<length rawHopIds]"

definition group_id_visible :: "access_scope \<Rightarrow> jsval \<Rightarrow> bool" where
  "group_id_visible scope v = has_number (as_groupIds scope) v"

text \<open>The value of a field where the code compares it or takes its number, and \<open>rest.connectHost ?? null\<close>.\<close>

definition field_of :: "(string \<rightharpoonup> 'x field_value) \<Rightarrow> string \<Rightarrow> 'x field_value" where
  "field_of fs k = (case fs k of Some v \<Rightarrow> v | None \<Rightarrow> Plain JUndef)"

definition plain_of :: "'x field_value \<Rightarrow> jsval" where
  "plain_of v = (case v of Plain x \<Rightarrow> x | Structured _ \<Rightarrow> JNaN)"

definition or_null_field :: "'x field_value \<Rightarrow> 'x field_value" where
  "or_null_field v = (case v of Plain x \<Rightarrow> Plain (or_null x JNull) | Structured y \<Rightarrow> Structured y)"

definition hidden_fields :: "string list" where
  "hidden_fields = [''certPem'', ''certKeyPem'', ''secret'', ''lastTestMessage'', ''latestLatencySeries'']"

definition rest_fields :: "(string \<rightharpoonup> 'x field_value) \<Rightarrow> (string \<rightharpoonup> 'x field_value)" where
  "rest_fields fs = foldl (\<lambda>m k. m(k := None)) fs hidden_fields"

definition filterTunnelFieldsForUser ::
    "('x, 's) tunnel_object \<Rightarrow> access_scope \<Rightarrow> ('x, 's) tunnel_view" where
  "filterTunnelFieldsForUser tunnel scope =
     (let rest = rest_fields (to_fields tunnel);
          rawHopIds = to_hopHostIds tunnel;
          rawHopConnectHosts = to_hopConnectHosts tunnel;
          visibleHopIndexes = hop_indexes scope rawHopIds;
          visibleExits = filter (\<lambda>e. allowedHost scope (eo_hostId e)) (to_loadBalanceExits tunnel);
          entryHostVisible = allowedHost scope (plain_of (field_of rest ''entryHostId''));
          exitHostVisible = allowedHost scope (plain_of (field_of rest ''exitHostId''));
          shown = (\<lambda>visible k m. m(k \<mapsto> (if visible then field_of rest k else Plain JNull)))
      in \<lparr>tv_fields =
            (shown (group_id_visible scope (plain_of (field_of rest ''exitGroupId''))) ''exitGroupId''
            (shown (group_id_visible scope (plain_of (field_of rest ''entryGroupId''))) ''entryGroupId''
            (shown exitHostVisible ''exitHostId'' (shown entryHostVisible ''entryHostId'' rest))))
            (''connectHost'' \<mapsto> (if exitHostVisible then or_null_field (field_of rest ''connectHost'') else Plain JNull)),
          tv_entryGroup = filterTunnelEndpointGroup (to_entryGroup tunnel) scope,
          tv_exitGroup = None,
          tv_entryHost = (if entryHostVisible then to_entryHost tunnel else None),
          tv_exitHost = (if exitHostVisible then to_exitHost tunnel else None),
          tv_hopHostIds = map (\<lambda>i. the (js_number (rawHopIds ! i))) visibleHopIndexes,
          tv_hopConnectHosts = map (\<lambda>i. if i < length rawHopConnectHosts then or_null (rawHopConnectHosts ! i) JNull else JNull)
             visibleHopIndexes,
          tv_hopHosts = filter (\<lambda>h. allowedHost scope (ho_id h)) (to_hopHosts tunnel),
          tv_loadBalanceExits = map (\<lambda>e. e\<lparr>eo_host := (if allowedHost scope (eo_hostId e) then eo_host e else None)\<rparr>) visibleExits\<rparr>)"

section \<open>What is inside the scope\<close>

text \<open>
  The meaning of a scope, apart from the filters.  A value names an identifier when its number is the identifier, where a falsy
  value counts as 0.  A host is inside when its identifier is one of the hosts of the scope, a group when its identifier is one of
  the groups.  A member of a group is inside when the tunnel or host it stands for is: among those the scope gives for this group,
  if it gives any, and otherwise among all tunnels or hosts of the scope.
\<close>

definition named :: "jsval \<Rightarrow> int \<Rightarrow> bool" where
  "named v i \<longleftrightarrow> js_number (if js_truthy v then v else JNum 0) = Some (rat_of_int i)"

definition host_inside :: "access_scope \<Rightarrow> jsval \<Rightarrow> bool" where
  "host_inside scope v \<longleftrightarrow> (\<exists>i \<in> set (as_hostIds scope). 0 < i \<and> named v i)"

definition group_inside :: "access_scope \<Rightarrow> jsval \<Rightarrow> bool" where
  "group_inside scope v \<longleftrightarrow> (\<exists>i \<in> set (as_groupIds scope). named v i)"

definition group_hosts :: "access_scope \<Rightarrow> int \<Rightarrow> int set" where
  "group_hosts scope g = (case jm_get (as_groupHostIds scope) g of Some ids \<Rightarrow> set ids | None \<Rightarrow> {})"

definition group_tunnels :: "access_scope \<Rightarrow> int \<Rightarrow> int set" where
  "group_tunnels scope g = (case jm_get (as_groupTunnelIds scope) g of Some ids \<Rightarrow> set ids | None \<Rightarrow> {})"

definition limited_group :: "access_scope \<Rightarrow> int \<Rightarrow> bool" where
  "limited_group scope g \<longleftrightarrow> jm_get (as_groupHostIds scope) g \<noteq> None \<or> jm_get (as_groupTunnelIds scope) g \<noteq> None"

definition member_inside :: "access_scope \<Rightarrow> int \<Rightarrow> 's member_object \<Rightarrow> bool" where
  "member_inside scope g m \<longleftrightarrow>
     (if mo_memberType m = JStr ''tunnel''
      then \<exists>i \<in> (if limited_group scope g then group_tunnels scope g else set (as_tunnelIds scope)). named (mo_tunnelId m) i
      else \<exists>i \<in> (if limited_group scope g then group_hosts scope g else set (as_hostIds scope)). named (mo_hostId m) i)"

definition member_host_inside :: "access_scope \<Rightarrow> int \<Rightarrow> 's member_object \<Rightarrow> bool" where
  "member_host_inside scope g m \<longleftrightarrow>
     (\<exists>i \<in> set (as_hostIds scope) \<union> group_hosts scope g. 0 < i \<and>
        named (case mo_host m of Some h \<Rightarrow> if js_truthy (ho_id h) then ho_id h else mo_hostId m | None \<Rightarrow> mo_hostId m) i)"

lemma has_number_iff: "has_number ids v \<longleftrightarrow> (\<exists>i \<in> set ids. named v i)"
  by (auto simp: has_number_def number_or_zero_def named_def js_or_def list_ex_iff split: option.split)

lemma allowedHost_iff: "allowedHost scope = host_inside scope"
  by (auto simp: fun_eq_iff allowedHost_def has_number_iff host_inside_def number_or_zero_def named_def js_or_def split: option.split)

lemma group_id_visible_iff: "group_id_visible scope = group_inside scope"
  by (simp add: fun_eq_iff group_id_visible_def has_number_iff group_inside_def)

lemma visible_member_iff: "visible_member scope g = member_inside scope g"
  by (auto simp: fun_eq_iff visible_member_def member_inside_def Let_def scope_has_def has_number_iff limited_group_def group_hosts_def
      group_tunnels_def split: option.splits)

lemma member_host_iff: "em_host (filter_member scope g m) =
    (if member_host_inside scope g m then map_option filterTunnelEndpointHost (mo_host m) else None)"
proof -
  let ?v = "member_host_id m"
  have v: "?v = (case mo_host m of Some h \<Rightarrow> if js_truthy (ho_id h) then ho_id h else mo_hostId m | None \<Rightarrow> mo_hostId m)"
    by (simp add: member_host_id_def js_or_def split: option.split)
  have "(case number_or_zero ?v of None \<Rightarrow> False | Some q \<Rightarrow> 0 < q) \<and>
      (allowedHost scope ?v \<or> scope_has (jm_get (as_groupHostIds scope) g) ?v) \<longleftrightarrow>
      (\<exists>i \<in> set (as_hostIds scope) \<union> group_hosts scope g. 0 < i \<and> named ?v i)"
    by (auto simp: allowedHost_iff host_inside_def scope_has_def has_number_iff group_hosts_def number_or_zero_def named_def js_or_def
        split: option.splits)
  then show ?thesis by (simp add: filter_member_def member_host_inside_def Let_def v)
qed

section \<open>What is hidden has no influence\<close>

text \<open>
  The tunnel without what is outside the scope: the secrets and probe diagnostics, the hosts that are not in the
  scope with their addresses, the hops and exits through them, the groups and members that are not in the scope, and the
  private fields of hosts that are summarised.
\<close>

definition redact_member :: "access_scope \<Rightarrow> int \<Rightarrow> 's \<Rightarrow> 's member_object \<Rightarrow> 's member_object" where
  "redact_member scope g blank m =
     (if member_host_inside scope g m then m\<lparr>mo_host := map_option (\<lambda>h. h\<lparr>ho_private := blank\<rparr>) (mo_host m)\<rparr>
      else m\<lparr>mo_host := None\<rparr>)"

definition redact_group :: "access_scope \<Rightarrow> 's \<Rightarrow> 's group_object \<Rightarrow> 's group_object option" where
  "redact_group scope blank g =
     (if positive_id (go_id g) \<in> set (as_groupIds scope)
      then Some (g\<lparr>go_members := map (redact_member scope (positive_id (go_id g)) blank)
        (filter (member_inside scope (positive_id (go_id g))) (go_members g))\<rparr>)
      else None)"

text \<open>The fields that say something about what is outside.\<close>

definition outside :: "access_scope \<Rightarrow> (string \<rightharpoonup> 'x field_value) \<Rightarrow> string \<Rightarrow> bool" where
  "outside scope fs k \<longleftrightarrow>
     k \<in> {''entryHostId'', ''exitHostId''} \<and> \<not> host_inside scope (plain_of (field_of fs k)) \<or>
     k \<in> {''entryGroupId'', ''exitGroupId''} \<and> \<not> group_inside scope (plain_of (field_of fs k)) \<or>
     k = ''connectHost'' \<and> \<not> host_inside scope (plain_of (field_of fs ''exitHostId''))"

definition redact_fields :: "access_scope \<Rightarrow> (string \<rightharpoonup> 'x field_value) \<Rightarrow> (string \<rightharpoonup> 'x field_value)" where
  "redact_fields scope fs = (\<lambda>k.
     if k \<in> {''certPem'', ''certKeyPem'', ''secret'', ''lastTestMessage'', ''latestLatencySeries''} then None
     else if outside scope fs k then Some (Plain JNull) else fs k)"

definition redact :: "access_scope \<Rightarrow> 's \<Rightarrow> ('x, 's) tunnel_object \<Rightarrow> ('x, 's) tunnel_object" where
  "redact scope blank t =
     (let val = (\<lambda>k. plain_of (field_of (to_fields t) k))
      in \<lparr>to_fields = redact_fields scope (to_fields t),
          to_entryGroup = Option.bind (to_entryGroup t) (redact_group scope blank), to_exitGroup = None,
          to_entryHost = (if host_inside scope (val ''entryHostId'') then to_entryHost t else None),
          to_exitHost = (if host_inside scope (val ''exitHostId'') then to_exitHost t else None),
          to_hopHostIds = filter (host_inside scope) (to_hopHostIds t),
          to_hopConnectHosts = map (\<lambda>i. if i < length (to_hopConnectHosts t) then to_hopConnectHosts t ! i else JUndef)
            (filter (\<lambda>i. host_inside scope (to_hopHostIds t ! i)) [0..<length (to_hopHostIds t)]),
          to_hopHosts = filter (\<lambda>h. host_inside scope (ho_id h)) (to_hopHosts t),
          to_loadBalanceExits = filter (\<lambda>e. host_inside scope (eo_hostId e)) (to_loadBalanceExits t)\<rparr>)"

text \<open>A group with the identifiers of the database.\<close>

definition identified :: "'s group_object \<Rightarrow> bool" where
  "identified g \<longleftrightarrow> positive_id (go_id g) \<noteq> 0
     \<and> (\<forall>m \<in> set (go_members g). positive_id (mo_id m) \<noteq> 0) \<and> distinct (map (\<lambda>m. positive_id (mo_id m)) (go_members g))"

lemma number_of_positive_id:
  assumes "positive_id v \<noteq> 0"
  shows "js_number v = Some (rat_of_int (positive_id v))" "number_or_zero v = js_number v"
proof -
  from assms obtain i where p: "js_positive_int v = Some i" and i: "positive_id v = i"
    by (auto simp: positive_id_def split: option.splits)
  obtain q where "js_number v = Some q" "js_is_integer q" "\<lfloor>q\<rfloor> = i"
    using p by (auto simp: js_positive_int_def js_integer_def split: option.splits if_splits)
  then show n: "js_number v = Some (rat_of_int (positive_id v))" using i by (simp add: js_is_integer_def)
  have "js_truthy v" using n assms by (cases v) (auto simp: str_to_number_def js_trim_def split: if_splits)
  then show "number_or_zero v = js_number v" by (simp add: number_or_zero_def js_or_def)
qed

text \<open>The test by identifier picks the visible members.\<close>

lemma visible_by_id:
  assumes "identified g"
  shows "filter (\<lambda>m. number_or_zero (mo_id m) \<in> set (visibleForwardGroupMemberIds g (Some scope))) (go_members g)
       = filter (visible_member scope (positive_id (go_id g))) (go_members g)"
proof (rule filter_cong [OF refl])
  fix m
  assume m: "m \<in> set (go_members g)"
  have id: "js_number (mo_id n) = Some (rat_of_int (positive_id (mo_id n)))" if "n \<in> set (go_members g)" for n
    using assms that number_of_positive_id by (auto simp: identified_def)
  have nz: "number_or_zero (mo_id m) = js_number (mo_id m)"
    using assms m number_of_positive_id by (auto simp: identified_def)
  have inj: "inj_on (\<lambda>n. positive_id (mo_id n)) (set (go_members g))"
    using assms by (simp add: identified_def distinct_map)
  show "(number_or_zero (mo_id m) \<in> set (visibleForwardGroupMemberIds g (Some scope)))
      = visible_member scope (positive_id (go_id g)) m"
  proof
    assume "number_or_zero (mo_id m) \<in> set (visibleForwardGroupMemberIds g (Some scope))"
    then obtain n where n: "n \<in> set (go_members g)" "visible_member scope (positive_id (go_id g)) n"
      and "js_number (mo_id n) = js_number (mo_id m)"
      using nz by (auto simp: visibleForwardGroupMemberIds_def)
    then have "n = m" using id [OF m] id [OF n(1)] inj m by (auto simp: inj_on_def)
    then show "visible_member scope (positive_id (go_id g)) m" using n(2) by simp
  next
    assume "visible_member scope (positive_id (go_id g)) m"
    then show "number_or_zero (mo_id m) \<in> set (visibleForwardGroupMemberIds g (Some scope))"
      using m nz by (auto simp: visibleForwardGroupMemberIds_def)
  qed
qed

lemma redacted_member [simp]:
  "member_inside scope g (redact_member scope g blank m) = member_inside scope g m" "mo_id (redact_member scope g blank m) = mo_id m"
  by (simp_all add: member_inside_def redact_member_def)

lemma summary_private [simp]: "filterTunnelEndpointHost (h\<lparr>ho_private := blank\<rparr>) = filterTunnelEndpointHost h"
  by (simp add: filterTunnelEndpointHost_def)

lemma filter_redact_member [simp]: "filter_member scope g (redact_member scope g blank m) = filter_member scope g m"
proof -
  have "em_host (filter_member scope g (redact_member scope g blank m)) = em_host (filter_member scope g m)"
  proof (cases "member_host_inside scope g m")
    case True
    then have "member_host_inside scope g (redact_member scope g blank m)"
      by (cases "mo_host m") (auto simp: member_host_inside_def redact_member_def)
    then show ?thesis using True by (simp add: member_host_iff redact_member_def option.map_comp comp_def)
  next
    case False
    then show ?thesis by (simp add: member_host_iff redact_member_def)
  qed
  then show ?thesis by (simp add: filter_member_def redact_member_def Let_def)
qed

lemma filterTunnelEndpointGroup_redact:
  assumes "\<And>g. grp = Some g \<Longrightarrow> identified g"
  shows "filterTunnelEndpointGroup (Option.bind grp (redact_group scope blank)) scope = filterTunnelEndpointGroup grp scope"
proof (cases grp)
  case (Some g)
  let ?i = "positive_id (go_id g)"
  show ?thesis
  proof (cases "?i \<in> set (as_groupIds scope)")
    case True
    define g' where "g' = g\<lparr>go_members := map (redact_member scope ?i blank) (filter (member_inside scope ?i) (go_members g))\<rparr>"
    have g: "identified g" using assms Some by simp
    have id: "go_id g' = go_id g" by (simp add: g'_def)
    have ids: "map (\<lambda>m. positive_id (mo_id m)) (go_members g') = map (\<lambda>m. positive_id (mo_id m)) (filter (member_inside scope ?i) (go_members g))"
      by (simp add: g'_def redact_member_def comp_def)
    have "identified g'"
    proof -
      have "\<forall>i \<in> set (map (\<lambda>m. positive_id (mo_id m)) (go_members g')). i \<noteq> 0" "distinct (map (\<lambda>m. positive_id (mo_id m)) (go_members g'))"
        unfolding ids using g by (auto simp: identified_def intro: distinct_map_filter)
      then show ?thesis using g id by (simp add: identified_def)
    qed
    then have "map (filter_member scope ?i) (filter (\<lambda>m. number_or_zero (mo_id m) \<in> set (visibleForwardGroupMemberIds g' (Some scope))) (go_members g'))
      = map (filter_member scope ?i) (filter (\<lambda>m. number_or_zero (mo_id m) \<in> set (visibleForwardGroupMemberIds g (Some scope))) (go_members g))"
      unfolding visible_by_id [OF g] visible_by_id [OF \<open>identified g'\<close>] visible_member_iff id
      by (simp add: g'_def filter_map comp_def)
    moreover have "redact_group scope blank g = Some g'" using True by (simp add: redact_group_def g'_def)
    ultimately show ?thesis
      using Some True id by (simp add: filterTunnelEndpointGroup_def Let_def g'_def)
  qed (simp add: Some redact_group_def filterTunnelEndpointGroup_def)
qed (simp add: filterTunnelEndpointGroup_def)

lemma hop_values: "map (\<lambda>i. f (xs ! i)) (hop_indexes scope xs) = map f (filter (allowedHost scope) xs)"
proof -
  have "map (\<lambda>i. xs ! i) (filter (\<lambda>i. allowedHost scope (xs ! i)) [0..<length xs]) = filter (allowedHost scope) (map (\<lambda>i. xs ! i) [0..<length xs])"
    by (simp add: filter_map comp_def)
  then have "map ((!) xs) (hop_indexes scope xs) = filter (allowedHost scope) xs" by (simp add: hop_indexes_def map_nth)
  then show ?thesis by (metis (no_types, lifting) comp_apply map_eq_conv map_map)
qed

lemma hop_indexes_allowed:
  "hop_indexes scope (filter (allowedHost scope) xs) = [0..<length (filter (allowedHost scope) xs)]"
proof -
  have "\<forall>i \<in> set [0..<length (filter (allowedHost scope) xs)]. allowedHost scope (filter (allowedHost scope) xs ! i)"
    using nth_mem by fastforce
  then show ?thesis by (simp add: hop_indexes_def filter_True)
qed

lemma length_hop_indexes: "length (hop_indexes scope xs) = length (filter (allowedHost scope) xs)"
  using hop_values [of "\<lambda>x. x" xs scope] by (metis length_map)

lemma redacted_hops:
  fixes xs cs :: "jsval list" and scope :: access_scope
  defines "ids \<equiv> filter (allowedHost scope) xs"
    and "cs' \<equiv> map (\<lambda>i. if i < length cs then cs ! i else JUndef) (hop_indexes scope xs)"
  shows "map (\<lambda>i. the (js_number (ids ! i))) (hop_indexes scope ids) = map (\<lambda>i. the (js_number (xs ! i))) (hop_indexes scope xs)"
    "map (\<lambda>i. if i < length cs' then or_null (cs' ! i) JNull else JNull) (hop_indexes scope ids)
   = map (\<lambda>i. if i < length cs then or_null (cs ! i) JNull else JNull) (hop_indexes scope xs)"
proof -
  show "map (\<lambda>i. the (js_number (ids ! i))) (hop_indexes scope ids) = map (\<lambda>i. the (js_number (xs ! i))) (hop_indexes scope xs)"
    by (simp only: ids_def hop_values [of "\<lambda>v. the (js_number v)"] filter_filter conj_absorb)
  have n: "length cs' = length ids" by (simp add: cs'_def ids_def length_hop_indexes)
  show "map (\<lambda>i. if i < length cs' then or_null (cs' ! i) JNull else JNull) (hop_indexes scope ids)
   = map (\<lambda>i. if i < length cs then or_null (cs ! i) JNull else JNull) (hop_indexes scope xs)"
    by (rule nth_equalityI)
      (auto simp: ids_def hop_indexes_allowed n [unfolded ids_def] length_hop_indexes cs'_def or_null_def js_nullish_def)
qed

lemma not_inside_null: "\<not> host_inside scope JNull"
  by (auto simp: host_inside_def named_def)

text \<open>What a field of the tunnel becomes.\<close>

definition field_shown :: "access_scope \<Rightarrow> (string \<rightharpoonup> 'x field_value) \<Rightarrow> string \<Rightarrow> 'x field_value option" where
  "field_shown scope fs k =
     (let v = field_of fs k in
      if k \<in> {''certPem'', ''certKeyPem'', ''secret'', ''lastTestMessage'', ''latestLatencySeries''} then None
      else if k = ''entryHostId'' \<or> k = ''exitHostId'' then Some (if host_inside scope (plain_of v) then v else Plain JNull)
      else if k = ''entryGroupId'' \<or> k = ''exitGroupId'' then Some (if group_inside scope (plain_of v) then v else Plain JNull)
      else if k = ''connectHost''
      then Some (if host_inside scope (plain_of (field_of fs ''exitHostId'')) then or_null_field v else Plain JNull)
      else fs k)"

lemma rest_fields_get: "rest_fields fs k =
    (if k \<in> {''certPem'', ''certKeyPem'', ''secret'', ''lastTestMessage'', ''latestLatencySeries''} then None else fs k)"
  by (simp add: rest_fields_def hidden_fields_def)

lemma rest_fields_of: "k \<in> {''entryHostId'', ''exitHostId'', ''entryGroupId'', ''exitGroupId'', ''connectHost''} \<Longrightarrow>
    field_of (rest_fields fs) k = field_of fs k"
  unfolding insert_iff empty_iff by (elim disjE) (simp_all add: field_of_def rest_fields_get)

lemma view_fields: "tv_fields (filterTunnelFieldsForUser t scope) k = field_shown scope (to_fields t) k"
  by (simp add: filterTunnelFieldsForUser_def Let_def field_shown_def rest_fields_of rest_fields_get allowedHost_iff group_id_visible_iff)

lemma redact_fields_of:
  "k \<in> {''entryHostId'', ''exitHostId'', ''entryGroupId'', ''exitGroupId'', ''connectHost''} \<Longrightarrow>
     field_of (redact_fields scope fs) k = (if outside scope fs k then Plain JNull else field_of fs k)"
  unfolding insert_iff empty_iff by (elim disjE) (simp_all add: field_of_def redact_fields_def)

lemma plain_of_Plain [simp]: "plain_of (Plain v) = v"
  by (simp add: plain_of_def)

lemma redacted_host:
  assumes "k \<in> {''entryHostId'', ''exitHostId''}"
  shows "host_inside scope (plain_of (field_of (redact_fields scope fs) k)) = host_inside scope (plain_of (field_of fs k))"
proof -
  have "field_of (redact_fields scope fs) k = (if outside scope fs k then Plain JNull else field_of fs k)"
    using assms by (intro redact_fields_of) (simp only: insert_iff empty_iff, elim disjE, simp_all)
  moreover have "outside scope fs k \<longleftrightarrow> \<not> host_inside scope (plain_of (field_of fs k))"
    using assms unfolding insert_iff empty_iff by (elim disjE) (simp_all add: outside_def)
  ultimately show ?thesis by (simp add: not_inside_null)
qed

lemma field_shown_cases:
  "k \<in> {''certPem'', ''certKeyPem'', ''secret'', ''lastTestMessage'', ''latestLatencySeries''} \<Longrightarrow> field_shown scope fs k = None"
  "k \<in> {''entryHostId'', ''exitHostId'', ''entryGroupId'', ''exitGroupId''} \<Longrightarrow>
     field_shown scope fs k = Some (if outside scope fs k then Plain JNull else field_of fs k)"
  "k = ''connectHost'' \<Longrightarrow> field_shown scope fs k = Some (if outside scope fs k then Plain JNull else or_null_field (field_of fs k))"
  "k \<notin> {''certPem'', ''certKeyPem'', ''secret'', ''lastTestMessage'', ''latestLatencySeries''} \<Longrightarrow>
     k \<notin> {''entryHostId'', ''exitHostId'', ''entryGroupId'', ''exitGroupId''} \<Longrightarrow> k \<noteq> ''connectHost'' \<Longrightarrow>
     field_shown scope fs k = fs k \<and> redact_fields scope fs k = fs k"
proof -
  show "field_shown scope fs k = None" if "k \<in> {''certPem'', ''certKeyPem'', ''secret'', ''lastTestMessage'', ''latestLatencySeries''}"
    using that unfolding field_shown_def Let_def by (rule if_P)
  show "field_shown scope fs k = Some (if outside scope fs k then Plain JNull else field_of fs k)"
    if "k \<in> {''entryHostId'', ''exitHostId'', ''entryGroupId'', ''exitGroupId''}"
    using that unfolding insert_iff empty_iff by (elim disjE) (simp_all add: field_shown_def Let_def outside_def)
  show "field_shown scope fs k = Some (if outside scope fs k then Plain JNull else or_null_field (field_of fs k))" if "k = ''connectHost''"
    unfolding that by (simp add: field_shown_def Let_def outside_def)
  show "field_shown scope fs k = fs k \<and> redact_fields scope fs k = fs k"
    if h: "k \<notin> {''certPem'', ''certKeyPem'', ''secret'', ''lastTestMessage'', ''latestLatencySeries''}"
      and i: "k \<notin> {''entryHostId'', ''exitHostId'', ''entryGroupId'', ''exitGroupId''}" and c: "k \<noteq> ''connectHost''"
  proof -
    from i c have ne: "k \<noteq> ''entryHostId''" "k \<noteq> ''exitHostId''" "k \<noteq> ''entryGroupId''" "k \<noteq> ''exitGroupId''"
      "k \<noteq> ''connectHost''" by (simp_all only: insert_iff empty_iff de_Morgan_disj not_False_eq_True simp_thms)
    have "\<not> outside scope fs k" unfolding outside_def using ne by (simp only: insert_iff empty_iff simp_thms)
    then show ?thesis unfolding field_shown_def Let_def redact_fields_def if_not_P [OF h] by (simp only: ne if_False simp_thms)
  qed
qed

lemma outside_redacted:
  assumes "k \<in> {''entryHostId'', ''exitHostId'', ''entryGroupId'', ''exitGroupId'', ''connectHost''}"
  shows "(if outside scope (redact_fields scope fs) k then Plain JNull else field_of (redact_fields scope fs) k) =
      (if outside scope fs k then Plain JNull else field_of fs k)"
proof -
  have f: "field_of (redact_fields scope fs) k = (if outside scope fs k then Plain JNull else field_of fs k)"
    by (rule redact_fields_of [OF assms])
  have x: "host_inside scope (plain_of (field_of (redact_fields scope fs) ''exitHostId''))
      = host_inside scope (plain_of (field_of fs ''exitHostId''))"
    by (rule redacted_host) simp
  have "outside scope fs k" if "outside scope (redact_fields scope fs) k" "field_of (redact_fields scope fs) k = field_of fs k"
    using that(1) unfolding outside_def that(2) x .
  then show ?thesis using f by (cases "outside scope fs k") auto
qed

lemma redacted_fields: "field_shown scope (redact_fields scope fs) k = field_shown scope fs k"
proof -
  consider (hidden) "k \<in> {''certPem'', ''certKeyPem'', ''secret'', ''lastTestMessage'', ''latestLatencySeries''}"
    | (ids) "k \<in> {''entryHostId'', ''exitHostId'', ''entryGroupId'', ''exitGroupId''}" | (connect) "k = ''connectHost''"
    | (unread) "k \<notin> {''certPem'', ''certKeyPem'', ''secret'', ''lastTestMessage'', ''latestLatencySeries''}"
      "k \<notin> {''entryHostId'', ''exitHostId'', ''entryGroupId'', ''exitGroupId''}" "k \<noteq> ''connectHost''" by argo
  then show ?thesis
  proof cases
    case hidden
    then show ?thesis by (simp only: field_shown_cases(1))
  next
    case ids
    then have "k \<in> {''entryHostId'', ''exitHostId'', ''entryGroupId'', ''exitGroupId'', ''connectHost''}"
      by (simp only: insert_iff empty_iff simp_thms) argo
    then show ?thesis unfolding field_shown_cases(2) [OF ids] by (simp only: outside_redacted)
  next
    case connect
    have o: "outside scope (redact_fields scope fs) ''connectHost'' = outside scope fs ''connectHost''"
      using redacted_host [of "''exitHostId''" scope fs] by (simp add: outside_def)
    show ?thesis unfolding connect field_shown_cases(3) [OF refl] o using redact_fields_of [of "''connectHost''" scope fs] by simp
  next
    case unread
    note shown = field_shown_cases(4) [OF unread, where scope = scope]
    have "field_shown scope (redact_fields scope fs) k = redact_fields scope fs k" "redact_fields scope fs k = fs k"
      by (rule shown [THEN conjunct1], rule shown [THEN conjunct2])
    then show ?thesis using shown [where fs = fs, THEN conjunct1] by (simp only:)
  qed
qed

lemma exits_shown:
  "map (\<lambda>e. e\<lparr>eo_host := (if host_inside scope (eo_hostId e) then eo_host e else None)\<rparr>) (filter (\<lambda>e. host_inside scope (eo_hostId e)) es)
   = filter (\<lambda>e. host_inside scope (eo_hostId e)) es"
  by (induction es) simp_all

text \<open>
  C9. What a user is shown of a shared tunnel depends only on the parts inside the user's scope: taking away the
  secrets, the probe diagnostics, the addresses and objects of hosts outside the scope, the hops and exits through
  them, the groups and members outside the scope and the private fields of summarised hosts does not change the view.
  And the view holds exactly what is inside: no secret, no diagnostics and no exit group; the identifiers of the entry, the exit and
  the groups, the address to connect to and the objects of the entry and exit host only for hosts and groups inside; the hops,
  hop hosts and exits through hosts inside and no others; and of an entry group inside the members inside, with the host of a member
  only where it is inside too.
\<close>

theorem shared_tunnel_view_hides:
  fixes scope :: access_scope
  assumes "\<And>g. to_entryGroup tunnel = Some g \<Longrightarrow> identified g"
  defines "w \<equiv> filterTunnelFieldsForUser tunnel scope" and "val \<equiv> (\<lambda>k. plain_of (field_of (to_fields tunnel) k))"
  shows "filterTunnelFieldsForUser (redact scope blank tunnel) scope = w \<and>
    (\<forall>k. tv_fields w k = field_shown scope (to_fields tunnel) k) \<and> tv_exitGroup w = None \<and>
    tv_entryHost w = (if host_inside scope (val ''entryHostId'') then to_entryHost tunnel else None) \<and>
    tv_exitHost w = (if host_inside scope (val ''exitHostId'') then to_exitHost tunnel else None) \<and>
    tv_hopHostIds w = map (\<lambda>v. the (js_number v)) (filter (host_inside scope) (to_hopHostIds tunnel)) \<and>
    tv_hopHosts w = filter (\<lambda>h. host_inside scope (ho_id h)) (to_hopHosts tunnel) \<and>
    tv_loadBalanceExits w = filter (\<lambda>e. host_inside scope (eo_hostId e)) (to_loadBalanceExits tunnel) \<and>
    (case tv_entryGroup w of
       None \<Rightarrow> \<not> (\<exists>g. to_entryGroup tunnel = Some g \<and> positive_id (go_id g) \<in> set (as_groupIds scope))
     | Some v \<Rightarrow> \<exists>g. to_entryGroup tunnel = Some g \<and> positive_id (go_id g) \<in> set (as_groupIds scope) \<and> eg_id v = go_id g \<and>
         (let inside = filter (member_inside scope (positive_id (go_id g))) (go_members g) in
          map em_id (eg_members v) = map mo_id inside \<and>
          map em_host (eg_members v) = map (\<lambda>m. if member_host_inside scope (positive_id (go_id g)) m
            then map_option filterTunnelEndpointHost (mo_host m) else None) inside))"
proof -
  let ?r = "redact scope blank tunnel"
  have g: "filterTunnelEndpointGroup (Option.bind (to_entryGroup tunnel) (redact_group scope blank)) scope
      = filterTunnelEndpointGroup (to_entryGroup tunnel) scope"
    by (rule filterTunnelEndpointGroup_redact [OF assms(1)])
  have f: "tv_fields (filterTunnelFieldsForUser ?r scope) = tv_fields w"
    unfolding w_def fun_eq_iff view_fields by (simp add: redact_def Let_def redacted_fields)
  have same: "filterTunnelFieldsForUser ?r scope = w"
  proof (rule tunnel_view.equality)
    show "tv_fields (filterTunnelFieldsForUser ?r scope) = tv_fields w" by (rule f)
    note hops = redacted_hops(1) [where scope = scope and xs = "to_hopHostIds tunnel"]
      redacted_hops(2) [where scope = scope and xs = "to_hopHostIds tunnel" and cs = "to_hopConnectHosts tunnel"]
    note hops = hops [unfolded hop_indexes_def allowedHost_iff]
    show "tv_hopHostIds (filterTunnelFieldsForUser ?r scope) = tv_hopHostIds w"
      "tv_hopConnectHosts (filterTunnelFieldsForUser ?r scope) = tv_hopConnectHosts w"
      using hops by (simp_all add: filterTunnelFieldsForUser_def w_def redact_def Let_def allowedHost_iff hop_indexes_def)
    show "tv_entryGroup (filterTunnelFieldsForUser ?r scope) = tv_entryGroup w"
      using g by (simp add: filterTunnelFieldsForUser_def w_def redact_def Let_def)
    show "tv_entryHost (filterTunnelFieldsForUser ?r scope) = tv_entryHost w" "tv_exitHost (filterTunnelFieldsForUser ?r scope) = tv_exitHost w"
      by (simp_all add: filterTunnelFieldsForUser_def w_def Let_def rest_fields_of redact_def redacted_host allowedHost_iff)
  qed (simp_all add: filterTunnelFieldsForUser_def w_def redact_def Let_def allowedHost_iff)
  have grp: "case tv_entryGroup w of
       None \<Rightarrow> \<not> (\<exists>g. to_entryGroup tunnel = Some g \<and> positive_id (go_id g) \<in> set (as_groupIds scope))
     | Some v \<Rightarrow> \<exists>g. to_entryGroup tunnel = Some g \<and> positive_id (go_id g) \<in> set (as_groupIds scope) \<and> eg_id v = go_id g \<and>
         (let inside = filter (member_inside scope (positive_id (go_id g))) (go_members g) in
          map em_id (eg_members v) = map mo_id inside \<and>
          map em_host (eg_members v) = map (\<lambda>m. if member_host_inside scope (positive_id (go_id g)) m
            then map_option filterTunnelEndpointHost (mo_host m) else None) inside)"
  proof (cases "to_entryGroup tunnel")
    case (Some g)
    then have i: "identified g" by (rule assms(1))
    then have "positive_id (go_id g) \<noteq> 0" by (simp add: identified_def)
    then show ?thesis
      using Some visible_by_id [OF i, of scope] unfolding visible_member_iff
      by (simp add: w_def filterTunnelFieldsForUser_def filterTunnelEndpointGroup_def Let_def comp_def member_host_iff)
        (simp add: filter_member_def Let_def)
  qed (simp add: w_def filterTunnelFieldsForUser_def filterTunnelEndpointGroup_def Let_def)
  have parts: "tv_exitGroup w = None" "tv_entryHost w = (if host_inside scope (val ''entryHostId'') then to_entryHost tunnel else None)"
    "tv_exitHost w = (if host_inside scope (val ''exitHostId'') then to_exitHost tunnel else None)"
    "tv_hopHosts w = filter (\<lambda>h. host_inside scope (ho_id h)) (to_hopHosts tunnel)"
    "tv_loadBalanceExits w = filter (\<lambda>e. host_inside scope (eo_hostId e)) (to_loadBalanceExits tunnel)"
    by (simp_all add: w_def val_def filterTunnelFieldsForUser_def Let_def rest_fields_of allowedHost_iff exits_shown)
  have hops: "tv_hopHostIds w = map (\<lambda>v. the (js_number v)) (filter (host_inside scope) (to_hopHostIds tunnel))"
    using hop_values [of "\<lambda>v. the (js_number v)" "to_hopHostIds tunnel" scope]
    by (simp add: w_def filterTunnelFieldsForUser_def Let_def allowedHost_iff)
  show ?thesis using same grp parts hops view_fields [of tunnel scope] unfolding w_def by blast
qed

theorem shared_tunnel_view_hides_witness:
  "let scope = \<lparr>as_hostIds = [2], as_tunnelIds = [9], as_groupIds = [5], as_useHostIds = [], as_useTunnelIds = [9], as_useGroupIds = [],
         as_groupHostIds = [(5, [2])], as_groupTunnelIds = []\<rparr>;
       host = \<lambda>i. \<lparr>ho_id = JNum i, ho_name = JStr ''h'', ho_ip = JStr ''10.0.0.1'', ho_ipv4 = JNull, ho_ipv6 = JNull, ho_entryIp = JNull,
         ho_tunnelEntryIp = JNull, ho_ddnsEnabled = JNull, ho_ddnsDomain = JNull, ho_ddnsIpVersion = JNull, ho_ddnsRecordType = JNull,
         ho_geoCountryCode = JNull, ho_geoCountryName = JNull, ho_geoRegion = JNull, ho_geoEmoji = JNull, ho_isOnline = JBool True,
         ho_lastHeartbeat = JNull, ho_private = ''token''\<rparr>;
       member = \<lambda>i h. \<lparr>mo_id = JNum i, mo_groupId = JNum 5, mo_memberType = JStr ''host'', mo_hostId = JNum h, mo_tunnelId = JNull,
         mo_priority = JNum 1, mo_isEnabled = JBool True, mo_chinaHealthStatus = JNull, mo_host = Some (host h)\<rparr>;
       grp = \<lparr>go_id = JNum 5, go_name = JStr ''g'', go_groupMode = JStr ''failover'', go_exitStrategy = JNull, go_domain = JNull,
         go_recordType = JNull, go_isEnabled = JBool True, go_lastStatus = JNull, go_chinaHealthCheckEnabled = JNull,
         go_members = [member 1 2, member 2 3]\<rparr>;
       tunnel = \<lparr>to_fields = [''secret'' \<mapsto> Plain (JStr ''secret''), ''entryHostId'' \<mapsto> Plain (JNum 2), ''exitHostId'' \<mapsto> Plain (JNum 3),
           ''entryGroupId'' \<mapsto> Plain (JNum 5), ''connectHost'' \<mapsto> Plain (JStr ''10.0.0.9''), ''tags'' \<mapsto> Structured ()],
         to_entryGroup = Some grp, to_exitGroup = None, to_entryHost = None, to_exitHost = None,
         to_hopHostIds = [JNum 3, JNum 2], to_hopConnectHosts = [JStr ''a'', JStr ''b''], to_hopHosts = [], to_loadBalanceExits = []\<rparr>
   in filterTunnelFieldsForUser (redact scope [] tunnel) scope = filterTunnelFieldsForUser tunnel scope"
  unfolding Let_def
  by (rule conjunct1 [OF shared_tunnel_view_hides]) (auto simp: identified_def positive_id_def)

end
