(* ===== verification/Promise_Chain.thy ===== *)
theory Promise_Chain
imports FX_Prelude
begin

text \<open>
  Chains of promises: several components make the tasks of one key wait for each other by keeping, per key, the promise
  of the last task and letting the next one await it.  Tasks are kept in the order of their calls and named by their
  position.  A task has a key, it is over or not, and it may await the end of another task.

  The invariant is the same for all of them: the tasks of a key that are not over form a line, each awaits the one
  before it, the first is free to go on, and the kept promise is the one of the last.
\<close>

definition chain_line :: "('j \<Rightarrow> 'k) \<Rightarrow> ('j \<Rightarrow> bool) \<Rightarrow> 'j list \<Rightarrow> 'k \<Rightarrow> nat list" where
  "chain_line key over jobs k = filter (\<lambda>n. key (jobs ! n) = k \<and> \<not> over (jobs ! n)) [0..<length jobs]"

definition chain_free :: "('j \<Rightarrow> bool) \<Rightarrow> ('j \<Rightarrow> nat option) \<Rightarrow> 'j list \<Rightarrow> nat \<Rightarrow> bool" where
  "chain_free over awaits jobs n =
     (case awaits (jobs ! n) of None \<Rightarrow> True | Some g \<Rightarrow> g < length jobs \<and> over (jobs ! g))"

fun chain_linked :: "('j \<Rightarrow> nat option) \<Rightarrow> 'j list \<Rightarrow> nat list \<Rightarrow> bool" where
  "chain_linked awaits jobs [] = True"
| "chain_linked awaits jobs [n] = True"
| "chain_linked awaits jobs (m # n # ns) = (awaits (jobs ! n) = Some m \<and> chain_linked awaits jobs (n # ns))"

definition chain_ok ::
    "('j \<Rightarrow> 'k) \<Rightarrow> ('j \<Rightarrow> bool) \<Rightarrow> ('j \<Rightarrow> nat option) \<Rightarrow> 'j list \<Rightarrow> ('k \<Rightarrow> nat option) \<Rightarrow> bool" where
  "chain_ok key over awaits jobs tail =
     (\<forall>k. chain_linked awaits jobs (chain_line key over jobs k)
        \<and> (chain_line key over jobs k \<noteq> [] \<longrightarrow> chain_free over awaits jobs (hd (chain_line key over jobs k)))
        \<and> tail k = (if chain_line key over jobs k = [] then None else Some (last (chain_line key over jobs k))))"

lemma chain_okD:
  assumes "chain_ok key over awaits jobs tail"
  shows "chain_linked awaits jobs (chain_line key over jobs k)"
    "chain_line key over jobs k \<noteq> [] \<Longrightarrow> chain_free over awaits jobs (hd (chain_line key over jobs k))"
    "tail k = (if chain_line key over jobs k = [] then None else Some (last (chain_line key over jobs k)))"
  using assms by (simp_all add: chain_ok_def)

lemma chain_ok_Nil: "chain_ok key over awaits [] (\<lambda>k. None)"
  by (simp add: chain_ok_def chain_line_def)

lemma in_chain_line: "n \<in> set (chain_line key over jobs k) \<longleftrightarrow> n < length jobs \<and> key (jobs ! n) = k \<and> \<not> over (jobs ! n)"
  by (auto simp: chain_line_def)

lemma distinct_chain_line [simp]: "distinct (chain_line key over jobs k)"
  by (simp add: chain_line_def)

lemma sorted_chain_line [simp]: "sorted (chain_line key over jobs k)"
  by (simp add: chain_line_def sorted_wrt_filter)

lemma chain_linked_awaits:
  "chain_linked awaits jobs (n # ns) \<Longrightarrow> m \<in> set ns \<Longrightarrow> \<exists>p \<in> set (n # ns). awaits (jobs ! m) = Some p"
  by (induction awaits jobs "n # ns" arbitrary: n ns rule: chain_linked.induct) auto

lemma chain_linked_cong:
  "(\<And>n. n \<in> set (tl ns) \<Longrightarrow> awaits (jobs' ! n) = awaits (jobs ! n)) \<Longrightarrow> chain_linked awaits jobs' ns = chain_linked awaits jobs ns"
  by (induction awaits jobs ns rule: chain_linked.induct) auto

lemma chain_linked_snoc:
  "chain_linked awaits jobs (ns @ [n]) \<longleftrightarrow> chain_linked awaits jobs ns \<and> (ns \<noteq> [] \<longrightarrow> awaits (jobs ! n) = Some (last ns))"
  by (induction awaits jobs ns rule: chain_linked.induct) auto

text \<open>A task that is free to go on is the first of its line.\<close>

lemma chain_free_first:
  assumes ok: "chain_ok key over awaits jobs tail" and n: "n \<in> set (chain_line key over jobs k)"
    and free: "chain_free over awaits jobs n"
  shows "\<exists>ns. chain_line key over jobs k = n # ns"
proof (rule ccontr)
  assume no: "\<nexists>ns. chain_line key over jobs k = n # ns"
  then obtain m ns where l: "chain_line key over jobs k = m # ns" "n \<in> set ns" using n by (cases "chain_line key over jobs k") auto
  then obtain p where p: "p \<in> set (chain_line key over jobs k)" "awaits (jobs ! n) = Some p"
    using chain_okD(1) [OF ok, of k] chain_linked_awaits by metis
  then show False using free by (simp add: chain_free_def in_chain_line)
qed

text \<open>A new task joins the end of the line of its key.\<close>

lemma chain_line_append:
  assumes "\<not> over j"
  shows "chain_line key over (jobs @ [j]) k
    = (if k = key j then chain_line key over jobs k @ [length jobs] else chain_line key over jobs k)"
proof -
  have "filter (\<lambda>n. key ((jobs @ [j]) ! n) = k \<and> \<not> over ((jobs @ [j]) ! n)) [0..<length jobs] = chain_line key over jobs k"
    unfolding chain_line_def by (rule filter_cong) (auto simp: nth_append)
  then show ?thesis using assms by (simp add: chain_line_def)
qed

lemma chain_ok_append:
  assumes ok: "chain_ok key over awaits jobs tail" and j: "\<not> over j" "awaits j = tail (key j)"
  shows "chain_ok key over awaits (jobs @ [j]) (tail(key j := Some (length jobs)))"
  unfolding chain_ok_def
proof
  fix k
  let ?l = "chain_line key over jobs k"
  have lt: "m < length jobs" if "m \<in> set ?l" for m using that by (simp add: in_chain_line)
  have "chain_linked awaits (jobs @ [j]) ?l"
    using chain_okD(1) [OF ok, of k] chain_linked_cong [of ?l awaits "jobs @ [j]" jobs] lt
    by (metis list.set_sel(2) nth_append tl_Nil)
  moreover have "chain_free over awaits (jobs @ [j]) (hd ?l)" if "?l \<noteq> []"
    using chain_okD(2) [OF ok that] lt [of "hd ?l"] that by (auto simp: chain_free_def nth_append split: option.splits)
  moreover have "awaits j = (if ?l = [] then None else Some (last ?l))" if "k = key j"
    using j(2) chain_okD(3) [OF ok, of k] that by simp
  ultimately show "chain_linked awaits (jobs @ [j]) (chain_line key over (jobs @ [j]) k)
      \<and> (chain_line key over (jobs @ [j]) k \<noteq> [] \<longrightarrow> chain_free over awaits (jobs @ [j]) (hd (chain_line key over (jobs @ [j]) k)))
      \<and> (tail(key j := Some (length jobs))) k
        = (if chain_line key over (jobs @ [j]) k = [] then None else Some (last (chain_line key over (jobs @ [j]) k)))"
    using chain_okD(3) [OF ok, of k]
    by (auto simp: chain_line_append [where over = over and j = j, OF j(1)] chain_linked_snoc hd_append chain_free_def nth_append)
qed

text \<open>A task that goes on keeps its place.\<close>

lemma chain_line_update:
  assumes "n < length jobs" "key j = key (jobs ! n)" "over j = over (jobs ! n)"
  shows "chain_line key over (jobs[n := j]) k = chain_line key over jobs k"
  unfolding chain_line_def using assms by (auto simp: nth_list_update intro: filter_cong)

lemma chain_ok_update:
  assumes ok: "chain_ok key over awaits jobs tail" and n: "n < length jobs"
    and j: "key j = key (jobs ! n)" "over j = over (jobs ! n)"
      "awaits j = awaits (jobs ! n) \<or> awaits j = None \<and> chain_free over awaits jobs n"
  shows "chain_ok key over awaits (jobs[n := j]) tail"
  unfolding chain_ok_def chain_line_update [of n jobs key j over, OF n j(1,2)]
proof (intro allI conjI impI)
  fix k
  let ?l = "chain_line key over jobs k"
  show "tail k = (if ?l = [] then None else Some (last ?l))" by (rule chain_okD(3) [OF ok])
  have "awaits (jobs[n := j] ! m) = awaits (jobs ! m)" if "m \<in> set (tl ?l)" for m
  proof (cases "m = n \<and> awaits j \<noteq> awaits (jobs ! n)")
    case True
    then have "chain_free over awaits jobs n" using j by blast
    moreover have "n \<in> set ?l" using that True by (cases ?l) auto
    ultimately obtain ns where "?l = n # ns" using chain_free_first [OF ok] by blast
    then have "n \<notin> set (tl ?l)" using distinct_chain_line [of key over jobs k] by simp
    then show ?thesis using True that by simp
  qed (use n in \<open>auto simp: nth_list_update\<close>)
  then show "chain_linked awaits (jobs[n := j]) ?l"
    using chain_okD(1) [OF ok, of k] chain_linked_cong [of ?l awaits "jobs[n := j]" jobs] by blast
  show "chain_free over awaits (jobs[n := j]) (hd ?l)" if "?l \<noteq> []"
  proof -
    have "over (jobs[n := j] ! g) = over (jobs ! g)" if "g < length jobs" for g using j(2) n by (auto simp: nth_list_update)
    then show ?thesis
      using chain_okD(2) [OF ok that] j n by (cases "hd ?l = n") (auto simp: chain_free_def split: option.splits)
  qed
qed

text \<open>A task that is over leaves the line.\<close>

lemma chain_line_over:
  assumes "n < length jobs" "key j = key (jobs ! n)" "over j"
  shows "chain_line key over (jobs[n := j]) k = removeAll n (chain_line key over jobs k)"
proof -
  have "chain_line key over (jobs[n := j]) k
      = filter (\<lambda>m. (key (jobs ! m) = k \<and> \<not> over (jobs ! m)) \<and> m \<noteq> n) [0..<length jobs]"
    unfolding chain_line_def using assms by (auto simp: nth_list_update intro: filter_cong)
  moreover have "removeAll n (chain_line key over jobs k)
      = filter (\<lambda>m. (key (jobs ! m) = k \<and> \<not> over (jobs ! m)) \<and> m \<noteq> n) [0..<length jobs]"
    unfolding chain_line_def removeAll_filter_not_eq filter_filter by (rule filter_cong) auto
  ultimately show ?thesis by simp
qed

lemma chain_ok_over:
  assumes ok: "chain_ok key over awaits jobs tail" and n: "n < length jobs" "\<not> over (jobs ! n)" and free: "chain_free over awaits jobs n"
    and j: "key j = key (jobs ! n)" "over j"
  shows "chain_ok key over awaits (jobs[n := j]) (if tail (key j) = Some n then tail(key j := None) else tail)"
  unfolding chain_ok_def
proof
  fix k
  let ?l = "chain_line key over jobs k" and ?jobs = "jobs[n := j]"
  let ?tail = "if tail (key j) = Some n then tail(key j := None) else tail"
  obtain ns where first: "chain_line key over jobs (key j) = n # ns"
    using chain_free_first [OF ok, of n "key j"] n free j by (auto simp: in_chain_line)
  have notin: "n \<notin> set ns" using distinct_chain_line [of key over jobs "key j"] first by simp
  have other: "n \<notin> set ?l" if "k \<noteq> key j" using that j by (simp add: in_chain_line)
  have line: "chain_line key over ?jobs k = (if k = key j then ns else ?l)"
    using first notin other by (simp add: chain_line_over [of n jobs key j over, OF n(1) j])
  have linked: "chain_linked awaits ?jobs ms" if "chain_linked awaits jobs ms" "n \<notin> set ms" for ms
    using that chain_linked_cong [of ms awaits ?jobs jobs] by (metis list.set_sel(2) nth_list_update_neq tl_Nil)
  have fr: "chain_free over awaits ?jobs m" if "chain_free over awaits jobs m" "m \<noteq> n" for m
    using that j n by (auto simp: chain_free_def nth_list_update split: option.splits)
  show "chain_linked awaits ?jobs (chain_line key over ?jobs k)
      \<and> (chain_line key over ?jobs k \<noteq> [] \<longrightarrow> chain_free over awaits ?jobs (hd (chain_line key over ?jobs k)))
      \<and> ?tail k = (if chain_line key over ?jobs k = [] then None else Some (last (chain_line key over ?jobs k)))"
  proof (cases "k = key j")
    case False
    have "hd ?l \<noteq> n" if "?l \<noteq> []" using other [OF False] hd_in_set [OF that] by metis
    then show ?thesis
      using linked [OF chain_okD(1) [OF ok]] fr [OF chain_okD(2) [OF ok, of k]] other chain_okD(3) [OF ok, of k] False
      by (auto simp: line)
  next
    case True
    have lk: "chain_linked awaits jobs (n # ns)" using chain_okD(1) [OF ok, of "key j"] first by simp
    then have "chain_linked awaits ?jobs ns" using linked notin by (cases ns) auto
    moreover have "chain_free over awaits ?jobs (hd ns)" if "ns \<noteq> []"
      using lk that notin j n by (cases ns) (auto simp: chain_free_def)
    moreover have "?tail k = (if ns = [] then None else Some (last ns))"
    proof (cases "ns = []")
      case False
      then have "last ns \<noteq> n" using notin last_in_set by metis
      then show ?thesis using chain_okD(3) [OF ok, of "key j"] first True False by simp
    qed (use chain_okD(3) [OF ok, of "key j"] first True in simp)
    moreover have l: "chain_line key over ?jobs k = ns" using line True by simp
    ultimately show ?thesis unfolding l by blast
  qed
qed

end
