(* ===== verification/Task_Locks.thy ===== *)
theory Task_Locks
imports Promise_Chain
begin

text \<open>
  The keyed task lock of the control plane (\<open>server/keyedTaskLock.ts\<close>): tasks of one key run one after the other in
  the order of their calls, and the re-entrant lock of traffic billing on top of it.

  A call of \<open>withKeyedTaskLock\<close> is a task, named by its position in the list of all calls; the position also names
  the promise (\<open>gate\<close>) the call creates, so \<open>pendingTasks.get(key) === current\<close> compares positions.  The code between
  two awaits is one step: entering, going on after the awaited gate has opened, and the end of the task.  What the
  task does in between is up to the caller.  The contract is the locale \<open>fifo_lock\<close>.
\<close>

section \<open>The lock\<close>

record pending_task =
  pt_gate :: nat
  pt_depth :: nat

datatype lock_phase = Lock_Waiting nat | Lock_Running | Lock_Finished

record lock_task =
  lt_key :: string
  lt_phase :: lock_phase

record lock_state =
  lk_pending :: "(string, pending_task) jmap"
  lk_tasks :: "lock_task list"
  lk_open :: "nat list"

definition no_locks :: lock_state where
  "no_locks = \<lparr>lk_pending = [], lk_tasks = [], lk_open = []\<rparr>"

definition lock_key :: "jsval \<Rightarrow> string" where
  "lock_key v = js_trim (js_string (js_or v (JStr [])))"

text \<open>The part of \<open>withKeyedTaskLock\<close> up to its await; without an earlier task it is up to the start of the task.\<close>

definition enter_lock :: "string \<Rightarrow> lock_state \<Rightarrow> lock_state" where
  "enter_lock key s =
     (let previous = jm_get (lk_pending s) key;
          current = \<lparr>pt_gate = length (lk_tasks s), pt_depth = (case previous of None \<Rightarrow> 0 | Some p \<Rightarrow> pt_depth p) + 1\<rparr>
      in s\<lparr>lk_pending := jm_set key current (lk_pending s),
           lk_tasks := lk_tasks s @ [\<lparr>lt_key = key,
             lt_phase = (case previous of None \<Rightarrow> Lock_Running | Some p \<Rightarrow> Lock_Waiting (pt_gate p))\<rparr>]\<rparr>)"

text \<open>Without a key the task runs at once and the lock does not know of it.\<close>

definition withKeyedTaskLock :: "jsval \<Rightarrow> lock_state \<Rightarrow> lock_state" where
  "withKeyedTaskLock keyValue s = (let key = lock_key keyValue in if key = [] then s else enter_lock key s)"

definition set_phase :: "nat \<Rightarrow> lock_phase \<Rightarrow> lock_state \<Rightarrow> lock_state" where
  "set_phase n p s = s\<lparr>lk_tasks := (lk_tasks s)[n := (lk_tasks s ! n)\<lparr>lt_phase := p\<rparr>]\<rparr>"

definition can_resume :: "lock_state \<Rightarrow> nat \<Rightarrow> bool" where
  "can_resume s n = (n < length (lk_tasks s)
     \<and> (case lt_phase (lk_tasks s ! n) of Lock_Waiting g \<Rightarrow> g \<in> set (lk_open s) | _ \<Rightarrow> False))"

definition resume_lock :: "nat \<Rightarrow> lock_state \<Rightarrow> lock_state" where
  "resume_lock n s = set_phase n Lock_Running s"

definition runs_lock :: "lock_state \<Rightarrow> nat \<Rightarrow> bool" where
  "runs_lock s n = (n < length (lk_tasks s) \<and> lt_phase (lk_tasks s ! n) = Lock_Running)"

text \<open>The \<open>finally\<close> block, whether the task returned or threw.\<close>

definition finish_lock :: "nat \<Rightarrow> lock_state \<Rightarrow> lock_state" where
  "finish_lock n s =
     (let key = lt_key (lk_tasks s ! n);
          s' = set_phase n Lock_Finished (s\<lparr>lk_open := n # lk_open s\<rparr>)
      in if map_option pt_gate (jm_get (lk_pending s') key) = Some n
         then s'\<lparr>lk_pending := jm_del key (lk_pending s')\<rparr> else s')"

definition keyedTaskDepth :: "jsval \<Rightarrow> lock_state \<Rightarrow> nat" where
  "keyedTaskDepth keyValue s = (case jm_get (lk_pending s) (lock_key keyValue) of Some p \<Rightarrow> pt_depth p | None \<Rightarrow> 0)"

inductive lock_step :: "lock_state \<Rightarrow> lock_state \<Rightarrow> bool" where
  step_enter: "lock_step s (withKeyedTaskLock keyValue s)"
| step_resume: "can_resume s n \<Longrightarrow> lock_step s (resume_lock n s)"
| step_finish: "runs_lock s n \<Longrightarrow> lock_step s (finish_lock n s)"

section \<open>The line of a key\<close>

text \<open>The tasks of a key that have not finished, in the order of their calls, form a promise chain.\<close>

definition lock_over :: "lock_task \<Rightarrow> bool" where
  "lock_over t = (lt_phase t = Lock_Finished)"

definition lock_awaits :: "lock_task \<Rightarrow> nat option" where
  "lock_awaits t = (case lt_phase t of Lock_Waiting g \<Rightarrow> Some g | _ \<Rightarrow> None)"

definition line :: "lock_state \<Rightarrow> string \<Rightarrow> nat list" where
  "line s = chain_line lt_key lock_over (lk_tasks s)"

definition tail_of :: "lock_state \<Rightarrow> string \<Rightarrow> nat option" where
  "tail_of s k = map_option pt_gate (jm_get (lk_pending s) k)"

definition lock_ok :: "lock_state \<Rightarrow> bool" where
  "lock_ok s = (chain_ok lt_key lock_over lock_awaits (lk_tasks s) (tail_of s)
     \<and> (\<forall>g. g \<in> set (lk_open s) \<longleftrightarrow> g < length (lk_tasks s) \<and> lock_over (lk_tasks s ! g)))"

lemma in_line: "n \<in> set (line s k) \<longleftrightarrow> n < length (lk_tasks s) \<and> lt_key (lk_tasks s ! n) = k \<and> lt_phase (lk_tasks s ! n) \<noteq> Lock_Finished"
  by (simp add: line_def in_chain_line lock_over_def)

lemma lock_okD:
  assumes "lock_ok s"
  shows "chain_ok lt_key lock_over lock_awaits (lk_tasks s) (tail_of s)"
    "tail_of s k = (if line s k = [] then None else Some (last (line s k)))"
    "g \<in> set (lk_open s) \<longleftrightarrow> g < length (lk_tasks s) \<and> lock_over (lk_tasks s ! g)"
  using assms chain_okD(3) [of lt_key lock_over lock_awaits "lk_tasks s" "tail_of s" k] by (simp_all add: lock_ok_def line_def)

lemma free_task:
  "lock_ok s \<Longrightarrow> runs_lock s n \<or> can_resume s n \<Longrightarrow> chain_free lock_over lock_awaits (lk_tasks s) n"
  by (auto simp: chain_free_def runs_lock_def can_resume_def lock_awaits_def lock_okD(3) split: lock_phase.splits)

lemma running_first:
  assumes "lock_ok s" "runs_lock s n \<or> can_resume s n"
  shows "\<exists>ns. line s (lt_key (lk_tasks s ! n)) = n # ns"
proof -
  have "n \<in> set (chain_line lt_key lock_over (lk_tasks s) (lt_key (lk_tasks s ! n)))"
    using assms(2) by (auto simp: in_chain_line runs_lock_def can_resume_def lock_over_def)
  then show ?thesis using chain_free_first [OF lock_okD(1) [OF assms(1)] _ free_task [OF assms]] by (simp add: line_def)
qed

lemma lock_ok_none: "lock_ok no_locks"
proof -
  have "tail_of no_locks = (\<lambda>k. None)" by (simp add: tail_of_def no_locks_def fun_eq_iff)
  then show ?thesis by (simp add: lock_ok_def chain_ok_Nil) (simp add: no_locks_def chain_ok_Nil)
qed

lemma enter_parts:
  "lk_tasks (enter_lock key s) = lk_tasks s @ [\<lparr>lt_key = key,
      lt_phase = (case tail_of s key of None \<Rightarrow> Lock_Running | Some g \<Rightarrow> Lock_Waiting g)\<rparr>]"
  "lk_open (enter_lock key s) = lk_open s"
  "tail_of (enter_lock key s) = (tail_of s)(key := Some (length (lk_tasks s)))"
  by (auto simp: enter_lock_def Let_def tail_of_def fun_eq_iff split: option.split)

lemma line_enter:
  "line (enter_lock key s) k = (if k = key then line s k @ [length (lk_tasks s)] else line s k)"
  unfolding line_def enter_parts by (subst chain_line_append) (simp_all add: lock_over_def split: option.split)

lemma lock_ok_enter:
  assumes ok: "lock_ok s"
  shows "lock_ok (enter_lock key s)"
proof -
  let ?t = "\<lparr>lt_key = key, lt_phase = (case tail_of s key of None \<Rightarrow> Lock_Running | Some g \<Rightarrow> Lock_Waiting g)\<rparr>"
  have t: "\<not> lock_over ?t" "lock_awaits ?t = tail_of s (lt_key ?t)"
    by (simp_all add: lock_over_def lock_awaits_def split: option.split)
  have "chain_ok lt_key lock_over lock_awaits (lk_tasks (enter_lock key s)) (tail_of (enter_lock key s))"
    using chain_ok_append [where j = ?t, OF lock_okD(1) [OF ok] t] unfolding enter_parts by simp
  then show ?thesis
    using lock_okD(3) [OF ok] t(1) unfolding lock_ok_def enter_parts by (auto simp: nth_append)
qed

text \<open>A task that goes on stays in the line.\<close>

lemma phase_resume:
  "n < length (lk_tasks s) \<Longrightarrow> lt_key (lk_tasks (set_phase n p s) ! m) = lt_key (lk_tasks s ! m)"
  "n < length (lk_tasks s) \<Longrightarrow> lt_phase (lk_tasks (set_phase n p s) ! m) = (if m = n then p else lt_phase (lk_tasks s ! m))"
  "length (lk_tasks (set_phase n p s)) = length (lk_tasks s)"
  by (auto simp: set_phase_def nth_list_update)

lemma resume_parts:
  "lk_tasks (resume_lock n s) = (lk_tasks s)[n := (lk_tasks s ! n)\<lparr>lt_phase := Lock_Running\<rparr>]"
  "lk_open (resume_lock n s) = lk_open s" "tail_of (resume_lock n s) = tail_of s"
  by (simp_all add: resume_lock_def set_phase_def tail_of_def fun_eq_iff)

lemma resumable:
  "can_resume s n \<Longrightarrow> n < length (lk_tasks s) \<and> \<not> lock_over (lk_tasks s ! n)"
  by (auto simp: can_resume_def lock_over_def)

lemma line_resume:
  assumes "can_resume s n"
  shows "line (resume_lock n s) k = line s k"
  unfolding line_def resume_parts using resumable [OF assms] by (intro chain_line_update) (auto simp: lock_over_def)

lemma lock_ok_resume:
  assumes ok: "lock_ok s" and r: "can_resume s n"
  shows "lock_ok (resume_lock n s)"
proof -
  have "chain_ok lt_key lock_over lock_awaits (lk_tasks (resume_lock n s)) (tail_of (resume_lock n s))"
    unfolding resume_parts
    by (rule chain_ok_update [OF lock_okD(1) [OF ok]])
      (use resumable [OF r] free_task [OF ok disjI2 [OF r]] in \<open>auto simp: lock_over_def lock_awaits_def\<close>)
  then show ?thesis
    using lock_okD(3) [OF ok] resumable [OF r] unfolding lock_ok_def
    by (auto simp: resume_parts nth_list_update lock_over_def)
qed

text \<open>The end of the running task takes it off the line.\<close>

lemma finish_parts:
  "lk_tasks (finish_lock n s) = lk_tasks (set_phase n Lock_Finished s)" "lk_open (finish_lock n s) = n # lk_open s"
  "lk_pending (finish_lock n s) =
    (let key = lt_key (lk_tasks s ! n) in
     if map_option pt_gate (jm_get (lk_pending s) key) = Some n then jm_del key (lk_pending s) else lk_pending s)"
  by (simp_all add: finish_lock_def Let_def set_phase_def) auto

lemma finish_tail:
  "tail_of (finish_lock n s) =
    (if tail_of s (lt_key (lk_tasks s ! n)) = Some n then (tail_of s)(lt_key (lk_tasks s ! n) := None) else tail_of s)"
  by (auto simp: tail_of_def finish_parts Let_def fun_eq_iff)

lemma line_finish:
  assumes "runs_lock s n"
  shows "line (finish_lock n s) k = removeAll n (line s k)"
  using assms unfolding line_def finish_parts set_phase_def
  by (simp add: runs_lock_def chain_line_over lock_over_def)

lemma lock_ok_finish:
  assumes ok: "lock_ok s" and r: "runs_lock s n"
  shows "lock_ok (finish_lock n s)"
proof -
  let ?j = "(lk_tasks s ! n)\<lparr>lt_phase := Lock_Finished\<rparr>"
  have n: "n < length (lk_tasks s)" "\<not> lock_over (lk_tasks s ! n)" using r by (auto simp: runs_lock_def lock_over_def)
  have j: "lt_key ?j = lt_key (lk_tasks s ! n)" "lock_over ?j" by (simp_all add: lock_over_def)
  have "chain_ok lt_key lock_over lock_awaits (lk_tasks (finish_lock n s)) (tail_of (finish_lock n s))"
    using chain_ok_over [OF lock_okD(1) [OF ok] n free_task [OF ok disjI1 [OF r]] j, unfolded j(1)]
    unfolding finish_tail by (simp add: finish_parts set_phase_def)
  then show ?thesis
    using lock_okD(3) [OF ok] n j unfolding lock_ok_def by (auto simp: finish_parts set_phase_def nth_list_update)
qed

text \<open>The depth counts at least the line.\<close>

definition depth_ok :: "lock_state \<Rightarrow> bool" where
  "depth_ok s = (\<forall>k p. jm_get (lk_pending s) k = Some p \<longrightarrow> length (line s k) \<le> pt_depth p)"

lemma depth_ok_enter:
  assumes ok: "lock_ok s" and d: "depth_ok s"
  shows "depth_ok (enter_lock key s)"
proof -
  have "length (line (enter_lock key s) k) \<le> pt_depth p" if "jm_get (lk_pending (enter_lock key s)) k = Some p" for k p
    using that d lock_okD(2) [OF ok, of key]
    by (auto simp: depth_ok_def line_enter tail_of_def) (auto simp: enter_lock_def Let_def split: option.splits if_splits)
  then show ?thesis by (simp add: depth_ok_def)
qed

lemma depth_ok_resume: "can_resume s n \<Longrightarrow> depth_ok s \<Longrightarrow> depth_ok (resume_lock n s)"
  by (simp add: depth_ok_def line_resume) (simp add: resume_lock_def set_phase_def)

lemma depth_ok_finish:
  assumes r: "runs_lock s n" and d: "depth_ok s"
  shows "depth_ok (finish_lock n s)"
proof -
  have "length (line (finish_lock n s) k) \<le> pt_depth p" if "jm_get (lk_pending (finish_lock n s)) k = Some p" for k p
  proof -
    have "jm_get (lk_pending s) k = Some p" using that by (auto simp: finish_parts Let_def split: if_splits)
    then have "length (line s k) \<le> pt_depth p" using d by (simp add: depth_ok_def)
    moreover have "length (line (finish_lock n s) k) \<le> length (line s k)"
      by (simp add: line_finish [OF r] removeAll_filter_not_eq)
    ultimately show ?thesis by simp
  qed
  then show ?thesis by (simp add: depth_ok_def)
qed

section \<open>The contract\<close>

text \<open>
  A lock that serves the callers of each key in order: \<open>ident\<close> is the name the next caller gets, \<open>line\<close> the callers of a
  key that have not finished.  A caller is \<open>ready\<close> to go on, \<open>runs\<close> after that, and may leave when it \<open>ends\<close>.
\<close>

locale fifo_lock =
  fixes ok :: "'s \<Rightarrow> bool"
    and line :: "'s \<Rightarrow> 'k \<Rightarrow> nat list"
    and ident :: "'s \<Rightarrow> nat"
    and runs :: "'s \<Rightarrow> nat \<Rightarrow> bool"
    and ready :: "'s \<Rightarrow> nat \<Rightarrow> bool"
    and ends :: "'s \<Rightarrow> nat \<Rightarrow> bool"
    and enter :: "'k \<Rightarrow> 's \<Rightarrow> 's"
    and resume :: "nat \<Rightarrow> 's \<Rightarrow> 's"
    and finish :: "nat \<Rightarrow> 's \<Rightarrow> 's"
  assumes enter_ok: "ok s \<Longrightarrow> ok (enter k s)"
    and resume_ok: "ok s \<Longrightarrow> ready s n \<Longrightarrow> ok (resume n s)"
    and ends_runs: "ends s n \<Longrightarrow> runs s n"
    and finish_ok: "ok s \<Longrightarrow> ends s n \<Longrightarrow> ok (finish n s)"
    and distinct_line: "ok s \<Longrightarrow> distinct (line s k)"
    and ident_fresh: "ok s \<Longrightarrow> ident s \<notin> set (line s k)"
    and enter_line: "ok s \<Longrightarrow> line (enter k s) j = (if j = k then line s k @ [ident s] else line s j)"
    and resume_line: "ok s \<Longrightarrow> ready s n \<Longrightarrow> line (resume n s) = line s"
    and finish_line: "ok s \<Longrightarrow> ends s n \<Longrightarrow> line (finish n s) j = removeAll n (line s j)"
    and runs_first: "ok s \<Longrightarrow> runs s n \<Longrightarrow> n \<in> set (line s k) \<Longrightarrow> hd (line s k) = n"
    and ready_first: "ok s \<Longrightarrow> ready s n \<Longrightarrow> n \<in> set (line s k) \<Longrightarrow> hd (line s k) = n"
    and first_served: "ok s \<Longrightarrow> line s k \<noteq> [] \<Longrightarrow> runs s (hd (line s k)) \<or> ready s (hd (line s k))"
begin

text \<open>One at a time: of two callers in line only one runs, and none is about to while another runs.\<close>

lemma exclusive: "ok s \<Longrightarrow> runs s m \<or> ready s m \<Longrightarrow> runs s n \<or> ready s n \<Longrightarrow> m \<in> set (line s k) \<Longrightarrow> n \<in> set (line s k) \<Longrightarrow> m = n"
  using runs_first ready_first by metis

text \<open>In order: the end of the running caller serves the next one.\<close>

lemma finish_serves:
  assumes "ok s" "ends s n" "line s k = n # m # ns"
  shows "runs (finish n s) m \<or> ready (finish n s) m"
proof -
  have "line (finish n s) k = m # ns"
    using assms finish_line [of s n k] distinct_line [of s k] by simp
  then show ?thesis using first_served [OF finish_ok [OF assms(1,2)], of k] by simp
qed

text \<open>Nobody overtakes: a caller in line keeps the callers before it, less those that finish.\<close>

lemma enter_keeps_order: "ok s \<Longrightarrow> n \<in> set (line s k) \<Longrightarrow> takeWhile (\<lambda>m. m \<noteq> n) (line (enter j s) k) = takeWhile (\<lambda>m. m \<noteq> n) (line s k)"
  using takeWhile_append1 [of n "line s k" "\<lambda>m. m \<noteq> n" "[ident s]"] by (auto simp: enter_line)

end

lemma in_own_line: "n \<in> set (line s k) \<Longrightarrow> lt_key (lk_tasks s ! n) = k"
  by (simp add: in_line)

lemma first_goes_on:
  assumes ok: "lock_ok s" and ne: "line s k \<noteq> []"
  shows "runs_lock s (hd (line s k)) \<or> can_resume s (hd (line s k))"
proof -
  have "chain_free lock_over lock_awaits (lk_tasks s) (hd (line s k))"
    using chain_okD(2) [OF lock_okD(1) [OF ok], of k] ne by (simp add: line_def)
  then show ?thesis
    using hd_in_set [OF ne] lock_okD(3) [OF ok]
    by (auto simp: in_line runs_lock_def can_resume_def chain_free_def lock_awaits_def split: lock_phase.splits)
qed

interpretation keyed: fifo_lock lock_ok line "\<lambda>s. length (lk_tasks s)" runs_lock can_resume runs_lock enter_lock resume_lock finish_lock
proof
  fix s k n
  assume ok: "lock_ok s"
  show "runs_lock s n \<Longrightarrow> n \<in> set (line s k) \<Longrightarrow> hd (line s k) = n"
    using running_first [OF ok] in_own_line by fastforce
  show "can_resume s n \<Longrightarrow> n \<in> set (line s k) \<Longrightarrow> hd (line s k) = n"
    using running_first [OF ok] in_own_line by fastforce
  show "distinct (line s k)" by (simp add: line_def)
qed (auto simp: lock_ok_enter lock_ok_resume lock_ok_finish first_goes_on in_line line_enter line_resume line_finish)

section \<open>Reachable states\<close>

lemma reachable_lock_ok: "lock_step\<^sup>*\<^sup>* no_locks s \<Longrightarrow> lock_ok s \<and> depth_ok s"
proof (induction rule: rtranclp_induct)
  case base
  show ?case by (simp add: lock_ok_none) (simp add: depth_ok_def no_locks_def)
next
  case (step s s')
  from step.hyps(2) show ?case
    using step.IH
    by cases (auto simp: withKeyedTaskLock_def Let_def lock_ok_enter lock_ok_resume lock_ok_finish
        depth_ok_enter depth_ok_resume depth_ok_finish)
qed

text \<open>
  C11. The keyed lock is a first-in first-out queue per key.  In every reachable state at most the task that has waited
  longest runs and it runs or can go on (no wake-up is lost); a call queues behind the unfinished calls of its trimmed
  key and starts at once when there are none, an empty key is not locked at all; going on and ending change no other
  line, the end of a task takes exactly it off the line; the depth is 0 exactly when the line is empty and
  never less than its length.
\<close>

theorem keyed_lock_fifo:
  assumes "lock_step\<^sup>*\<^sup>* no_locks s"
  shows "(\<forall>k n. n \<in> set (line s k) \<and> runs_lock s n \<longrightarrow> n = hd (line s k))
    \<and> (\<forall>k. line s k \<noteq> [] \<longrightarrow> runs_lock s (hd (line s k)) \<noteq> can_resume s (hd (line s k)))
    \<and> (\<forall>v. if lock_key v = [] then withKeyedTaskLock v s = s
           else line (withKeyedTaskLock v s) = (line s)(lock_key v := line s (lock_key v) @ [length (lk_tasks s)])
             \<and> (runs_lock (withKeyedTaskLock v s) (length (lk_tasks s)) \<longleftrightarrow> line s (lock_key v) = []))
    \<and> (\<forall>n. can_resume s n \<longrightarrow> runs_lock (resume_lock n s) n \<and> line (resume_lock n s) = line s)
    \<and> (\<forall>n. runs_lock s n \<longrightarrow>
         line (finish_lock n s) = (line s)(lt_key (lk_tasks s ! n) := tl (line s (lt_key (lk_tasks s ! n)))))
    \<and> (\<forall>v. (keyedTaskDepth v s = 0 \<longleftrightarrow> line s (lock_key v) = []) \<and> length (line s (lock_key v)) \<le> keyedTaskDepth v s)"
proof (intro conjI allI impI)
  have ok: "lock_ok s" and d: "depth_ok s" using reachable_lock_ok [OF assms] by simp_all
  show "n = hd (line s k)" if "n \<in> set (line s k) \<and> runs_lock s n" for k n
    using keyed.runs_first [OF ok] that by metis
  show "runs_lock s (hd (line s k)) \<noteq> can_resume s (hd (line s k))" if "line s k \<noteq> []" for k
    using keyed.first_served [OF ok that] by (auto simp: runs_lock_def can_resume_def)
  show "if lock_key v = [] then withKeyedTaskLock v s = s
      else line (withKeyedTaskLock v s) = (line s)(lock_key v := line s (lock_key v) @ [length (lk_tasks s)])
        \<and> (runs_lock (withKeyedTaskLock v s) (length (lk_tasks s)) \<longleftrightarrow> line s (lock_key v) = [])" for v
  proof (cases "lock_key v = []")
    case False
    have "runs_lock (enter_lock (lock_key v) s) (length (lk_tasks s)) \<longleftrightarrow> line s (lock_key v) = []"
      using lock_okD(2) [OF ok, of "lock_key v"]
      by (auto simp: runs_lock_def enter_parts split: option.splits if_splits)
    then show ?thesis using False by (auto simp: withKeyedTaskLock_def Let_def line_enter)
  qed (simp add: withKeyedTaskLock_def)
  show "runs_lock (resume_lock n s) n" "line (resume_lock n s) = line s" if "can_resume s n" for n
    using that line_resume [OF that] by (auto simp: runs_lock_def resume_lock_def phase_resume can_resume_def)
  show "line (finish_lock n s) = (line s)(lt_key (lk_tasks s ! n) := tl (line s (lt_key (lk_tasks s ! n))))"
    if r: "runs_lock s n" for n
  proof
    fix k
    obtain ns where l: "line s (lt_key (lk_tasks s ! n)) = n # ns" using running_first [OF ok disjI1 [OF r]] by blast
    then have "n \<notin> set ns" using keyed.distinct_line [OF ok] by (metis distinct.simps(2))
    moreover have "n \<notin> set (line s k)" if "k \<noteq> lt_key (lk_tasks s ! n)" using that by (auto simp: in_line)
    ultimately show "line (finish_lock n s) k
        = ((line s)(lt_key (lk_tasks s ! n) := tl (line s (lt_key (lk_tasks s ! n))))) k"
      using l by (simp add: line_finish [OF r])
  qed
  show "keyedTaskDepth v s = 0 \<longleftrightarrow> line s (lock_key v) = []" "length (line s (lock_key v)) \<le> keyedTaskDepth v s" for v
    using d lock_okD(2) [OF ok, of "lock_key v"]
    by (fastforce simp: depth_ok_def keyedTaskDepth_def tail_of_def split: option.splits if_splits)+
qed

theorem keyed_lock_fifo_witness:
  "runs_lock (withKeyedTaskLock (JStr ''k'') no_locks) 0
   \<and> keyedTaskDepth (JStr ''k'') (withKeyedTaskLock (JStr ''k'') no_locks) \<noteq> 0
   \<and> line (withKeyedTaskLock (JStr ''k'') (withKeyedTaskLock (JStr ''k'') no_locks)) ''k'' = [0, 1]"
proof -
  have k: "lock_key (JStr ''k'') = ''k''" by code_simp
  have r0: "lock_step\<^sup>*\<^sup>* no_locks no_locks" by simp
  have r1: "lock_step\<^sup>*\<^sup>* no_locks (withKeyedTaskLock (JStr ''k'') no_locks)" by (rule r_into_rtranclp) (rule step_enter)
  have e: "line no_locks k = []" for k by (simp add: line_def chain_line_def no_locks_def)
  have n: "length (lk_tasks no_locks) = 0" by (simp add: no_locks_def)
  have "line (withKeyedTaskLock (JStr ''k'') no_locks) = (line no_locks)(''k'' := [0])"
    "runs_lock (withKeyedTaskLock (JStr ''k'') no_locks) 0"
    using keyed_lock_fifo [OF r0] e n k by (metis append_Nil list.distinct(1))+
  moreover have "length (lk_tasks (withKeyedTaskLock (JStr ''k'') no_locks)) = 1"
    by (simp add: withKeyedTaskLock_def k enter_lock_def no_locks_def Let_def)
  ultimately show ?thesis
    using keyed_lock_fifo [OF r1] k by (metis append_Cons append_Nil fun_upd_same list.distinct(1))
qed

section \<open>The re-entrant lock of traffic billing\<close>

text \<open>
  \<open>withTrafficBillingUserLock\<close> keeps the locks held by the running code in an asynchronous context: a map from lock keys
  to tokens.  A token is named by the task that creates it.  \<open>bl_context\<close> holds for a task the context its code runs in
  (\<open>heldLocks\<close>), made when it starts from the context of its caller.
\<close>

type_synonym held_locks = "(string, nat) jmap"

record billing_lock =
  bl_lock :: lock_state
  bl_active :: "nat list"
  bl_context :: "(nat, held_locks) jmap"

definition no_billing_locks :: billing_lock where
  "no_billing_locks = \<lparr>bl_lock = no_locks, bl_active = [], bl_context = []\<rparr>"

definition trafficBillingUserLockKey :: "jsval \<Rightarrow> string" where
  "trafficBillingUserLockKey userId =
     ''traffic-billing-user:'' @
     (case js_number (js_or userId (JNum 0)) of
        None \<Rightarrow> ''0''
      | Some i \<Rightarrow> if 0 < i then int_to_str \<lfloor>i\<rfloor> else ''0'')"

definition inherits :: "billing_lock \<Rightarrow> held_locks \<Rightarrow> string \<Rightarrow> bool" where
  "inherits b inherited key = (case jm_get inherited key of Some t \<Rightarrow> t \<in> set (bl_active b) | None \<Rightarrow> False)"

text \<open>The start of the locked task: a fresh token, held in the context of the task.\<close>

definition start_billing :: "nat \<Rightarrow> billing_lock \<Rightarrow> billing_lock" where
  "start_billing n b = b\<lparr>bl_active := n # bl_active b\<rparr>"

definition enter_billing :: "jsval \<Rightarrow> held_locks \<Rightarrow> billing_lock \<Rightarrow> billing_lock" where
  "enter_billing userId inherited b =
     (let key = trafficBillingUserLockKey userId in
      if inherits b inherited key then b
      else (let n = length (lk_tasks (bl_lock b));
                b' = b\<lparr>bl_lock := withKeyedTaskLock (JStr key) (bl_lock b),
                       bl_context := jm_set n (jm_set key n inherited) (bl_context b)\<rparr>
            in if runs_lock (bl_lock b') n then start_billing n b' else b'))"

text \<open>The code runs without a context, or in the context of a task that has started.\<close>

inductive billing_step :: "billing_lock \<Rightarrow> billing_lock \<Rightarrow> bool" where
  bill_enter: "inherited = [] \<or> (\<exists>n. jm_get (bl_context b) n = Some inherited) \<Longrightarrow> billing_step b (enter_billing userId inherited b)"
| bill_resume: "can_resume (bl_lock b) n \<Longrightarrow>
    billing_step b (start_billing n (b\<lparr>bl_lock := resume_lock n (bl_lock b)\<rparr>))"
| bill_returned: "n \<in> set (bl_active b) \<Longrightarrow> billing_step b (b\<lparr>bl_active := removeAll n (bl_active b)\<rparr>)"
| bill_finish: "runs_lock (bl_lock b) n \<Longrightarrow> n \<notin> set (bl_active b) \<Longrightarrow>
    billing_step b (b\<lparr>bl_lock := finish_lock n (bl_lock b)\<rparr>)"

text \<open>Every token in a context belongs to a call with that key; an active one to a task that runs.\<close>

definition billing_ok :: "billing_lock \<Rightarrow> bool" where
  "billing_ok b = (lock_ok (bl_lock b)
     \<and> (\<forall>n \<in> set (bl_active b). runs_lock (bl_lock b) n)
     \<and> (\<forall>n held k t. jm_get (bl_context b) n = Some held \<and> jm_get held k = Some t \<longrightarrow>
          t < length (lk_tasks (bl_lock b)) \<and> lt_key (lk_tasks (bl_lock b) ! t) = k)
     \<and> (\<forall>n < length (lk_tasks (bl_lock b)). \<exists>held. jm_get (bl_context b) n = Some held
          \<and> jm_get held (lt_key (lk_tasks (bl_lock b) ! n)) = Some n))"

lemma billing_key:
  "lock_key (JStr (trafficBillingUserLockKey u)) = trafficBillingUserLockKey u" "trafficBillingUserLockKey u \<noteq> []"
proof -
  have "list_all js_digit ''0''" by code_simp
  moreover have "list_all js_digit (int_to_str \<lfloor>i\<rfloor>)" if "0 < i" for i :: rat
    using that nat_to_str_digits by (simp add: int_to_str_def)
  ultimately obtain ds where ds: "trafficBillingUserLockKey u = ''traffic-billing-user:'' @ ds" "list_all js_digit ds"
    unfolding trafficBillingUserLockKey_def by (auto split: option.splits)
  have "\<forall>c \<in> set (''traffic-billing-user:'' @ ds). \<not> js_space c"
  proof -
    have "\<forall>c \<in> set ''traffic-billing-user:''. \<not> js_space c" by code_simp
    then show ?thesis using ds(2) by (auto simp: list_all_iff js_digit_not_space)
  qed
  then show "lock_key (JStr (trafficBillingUserLockKey u)) = trafficBillingUserLockKey u"
    unfolding ds(1) lock_key_def by (simp add: js_or_def js_trim_no_space)
  show "trafficBillingUserLockKey u \<noteq> []" by (simp add: ds(1))
qed

lemma enter_lock_tasks:
  "length (lk_tasks (enter_lock key s)) = Suc (length (lk_tasks s))"
  "m < length (lk_tasks s) \<Longrightarrow> lk_tasks (enter_lock key s) ! m = lk_tasks s ! m"
  "lt_key (lk_tasks (enter_lock key s) ! length (lk_tasks s)) = key"
  by (simp_all add: enter_lock_def Let_def nth_append)

lemma billing_ok_enter:
  assumes ok: "billing_ok b" and c: "inherited = [] \<or> (\<exists>n. jm_get (bl_context b) n = Some inherited)"
  shows "billing_ok (enter_billing userId inherited b)"
proof (cases "inherits b inherited (trafficBillingUserLockKey userId)")
  case False
  let ?key = "trafficBillingUserLockKey userId" and ?n = "length (lk_tasks (bl_lock b))"
  define l where "l = enter_lock ?key (bl_lock b)"
  have e: "withKeyedTaskLock (JStr ?key) (bl_lock b) = l" using billing_key [of userId] by (simp add: withKeyedTaskLock_def l_def)
  note tasks = enter_lock_tasks [where key = ?key and s = "bl_lock b", folded l_def]
  have tok: "t < ?n \<and> lt_key (lk_tasks (bl_lock b) ! t) = k" if "jm_get inherited k = Some t" for k t
    using c ok that by (auto simp: billing_ok_def)
  have act: "runs_lock l m" if "m \<in> set (bl_active b)" for m
    using ok that by (auto simp: billing_ok_def runs_lock_def tasks)
  define b' where "b' = b\<lparr>bl_lock := l, bl_context := jm_set ?n (jm_set ?key ?n inherited) (bl_context b)\<rparr>"
  have ctx: "jm_get (bl_context b') m = (if m = ?n then Some (jm_set ?key ?n inherited) else jm_get (bl_context b) m)" for m
    by (simp add: b'_def)
  have "billing_ok b'"
    unfolding billing_ok_def
  proof (intro conjI ballI allI impI)
    show "lock_ok (bl_lock b')" using ok by (simp add: b'_def l_def billing_ok_def lock_ok_enter)
    show "runs_lock (bl_lock b') m" if "m \<in> set (bl_active b')" for m using act that by (simp add: b'_def)
    fix m held k t
    assume h: "jm_get (bl_context b') m = Some held \<and> jm_get held k = Some t"
    have "t < ?n \<and> lt_key (lk_tasks (bl_lock b) ! t) = k \<or> t = ?n \<and> k = ?key"
    proof (cases "m = ?n")
      case True
      then show ?thesis using h tok ctx [of m] by (auto split: if_splits)
    next
      case False
      then show ?thesis using h ok ctx [of m] by (auto simp: billing_ok_def)
    qed
    then show "t < length (lk_tasks (bl_lock b'))" "lt_key (lk_tasks (bl_lock b') ! t) = k"
      using tasks by (auto simp: b'_def)
  next
    fix m
    assume m: "m < length (lk_tasks (bl_lock b'))"
    show "\<exists>held. jm_get (bl_context b') m = Some held \<and> jm_get held (lt_key (lk_tasks (bl_lock b') ! m)) = Some m"
    proof (cases "m = ?n")
      case True
      then show ?thesis using ctx [of m] tasks by (simp add: b'_def)
    next
      case False
      then have "m < ?n" using m tasks by (simp add: b'_def)
      then show ?thesis using ok ctx [of m] False tasks by (simp add: billing_ok_def b'_def)
    qed
  qed
  moreover have "billing_ok (start_billing ?n b')" if "runs_lock (bl_lock b') ?n"
    using \<open>billing_ok b'\<close> that by (simp add: billing_ok_def start_billing_def)
  ultimately show ?thesis
    using False by (simp add: enter_billing_def Let_def e b'_def)
qed (use ok in \<open>simp add: enter_billing_def\<close>)

lemma billing_ok_step: "billing_step b b' \<Longrightarrow> billing_ok b \<Longrightarrow> billing_ok b'"
proof (induction rule: billing_step.induct)
  case (bill_enter inherited b userId)
  then show ?case by (simp add: billing_ok_enter)
next
  case (bill_resume b n)
  have n: "n < length (lk_tasks (bl_lock b))" using bill_resume.hyps by (simp add: can_resume_def)
  have "runs_lock (resume_lock n (bl_lock b)) m \<longleftrightarrow> m = n \<or> runs_lock (bl_lock b) m" for m
    using n by (auto simp: runs_lock_def resume_lock_def phase_resume)
  moreover have "lock_ok (resume_lock n (bl_lock b))"
    using bill_resume by (simp add: billing_ok_def lock_ok_resume)
  ultimately show ?case
    using bill_resume.prems n by (simp add: billing_ok_def start_billing_def) (simp add: resume_lock_def phase_resume)
next
  case (bill_returned n b)
  then show ?case by (auto simp: billing_ok_def)
next
  case (bill_finish b n)
  have n: "n < length (lk_tasks (bl_lock b))" using bill_finish.hyps by (simp add: runs_lock_def)
  have "runs_lock (finish_lock n (bl_lock b)) m \<longleftrightarrow> m \<noteq> n \<and> runs_lock (bl_lock b) m" for m
    using n by (auto simp: runs_lock_def finish_parts phase_resume)
  moreover have "lock_ok (finish_lock n (bl_lock b))"
    using bill_finish by (simp add: billing_ok_def lock_ok_finish)
  moreover have "\<forall>m \<in> set (bl_active b). m \<noteq> n" using bill_finish.hyps by auto
  ultimately show ?case
    using bill_finish.prems n by (simp add: billing_ok_def) (simp add: finish_parts phase_resume)
qed

lemma billing_reachable_ok: "billing_step\<^sup>*\<^sup>* no_billing_locks b \<Longrightarrow> billing_ok b"
proof (induction rule: rtranclp_induct)
  case base
  show ?case by (simp add: billing_ok_def no_billing_locks_def lock_ok_none) (simp add: no_locks_def)
qed (rule billing_ok_step)

text \<open>
  The billing lock is re-entrant and no wider.  In every reachable state, code in the context of a task that is
  still in its locked section enters the lock of that task's user again without waiting; a call goes through
  without waiting for its turn only when the section of that user it inherits is the one that holds the lock, so of
  the calls that enter the line of the user it is inside the first; every other call joins the end of the line.
\<close>

theorem billing_lock_reentrant:
  assumes "billing_step\<^sup>*\<^sup>* no_billing_locks b"
    and "inherited = [] \<or> (\<exists>n. jm_get (bl_context b) n = Some inherited)"
  shows "(\<forall>n \<in> set (bl_active b). runs_lock (bl_lock b) n \<and> (\<exists>held. jm_get (bl_context b) n = Some held
        \<and> (\<forall>u. trafficBillingUserLockKey u = lt_key (lk_tasks (bl_lock b) ! n) \<longrightarrow> enter_billing u held b = b)))
    \<and> (\<forall>u. let key = trafficBillingUserLockKey u in
        if inherits b inherited key
        then enter_billing u inherited b = b
          \<and> (\<exists>n \<in> set (bl_active b). jm_get inherited key = Some n \<and> runs_lock (bl_lock b) n \<and> hd (line (bl_lock b) key) = n)
        else line (bl_lock (enter_billing u inherited b)) key
          = line (bl_lock b) key @ [length (lk_tasks (bl_lock b))])"
proof (intro conjI ballI allI)
  have ok: "billing_ok b" using billing_reachable_ok [OF assms(1)] .
  then have lk: "lock_ok (bl_lock b)" by (simp add: billing_ok_def)
  show "runs_lock (bl_lock b) n" if "n \<in> set (bl_active b)" for n using ok that by (simp add: billing_ok_def)
  show "\<exists>held. jm_get (bl_context b) n = Some held
        \<and> (\<forall>u. trafficBillingUserLockKey u = lt_key (lk_tasks (bl_lock b) ! n) \<longrightarrow> enter_billing u held b = b)"
    if n: "n \<in> set (bl_active b)" for n
  proof -
    have "n < length (lk_tasks (bl_lock b))" using ok n by (auto simp: billing_ok_def runs_lock_def)
    then show ?thesis using ok n by (fastforce simp: billing_ok_def enter_billing_def inherits_def Let_def)
  qed
  show "let key = trafficBillingUserLockKey u in
        if inherits b inherited key
        then enter_billing u inherited b = b
          \<and> (\<exists>n \<in> set (bl_active b). jm_get inherited key = Some n \<and> runs_lock (bl_lock b) n \<and> hd (line (bl_lock b) key) = n)
        else line (bl_lock (enter_billing u inherited b)) key
          = line (bl_lock b) key @ [length (lk_tasks (bl_lock b))]" for u
  proof (cases "inherits b inherited (trafficBillingUserLockKey u)")
    case True
    then obtain n where n: "jm_get inherited (trafficBillingUserLockKey u) = Some n" "n \<in> set (bl_active b)"
      by (auto simp: inherits_def split: option.splits)
    then have "runs_lock (bl_lock b) n" "lt_key (lk_tasks (bl_lock b) ! n) = trafficBillingUserLockKey u"
      using ok assms(2) by (auto simp: billing_ok_def)
    moreover from this have "hd (line (bl_lock b) (trafficBillingUserLockKey u)) = n"
      using running_first [OF lk] by fastforce
    ultimately show ?thesis using True n by (auto simp: enter_billing_def Let_def)
  next
    case False
    have "bl_lock (enter_billing u inherited b) = enter_lock (trafficBillingUserLockKey u) (bl_lock b)"
      using False billing_key [of u] by (simp add: enter_billing_def Let_def withKeyedTaskLock_def start_billing_def)
    then show ?thesis using False by (simp add: line_enter)
  qed
qed

theorem billing_lock_reentrant_witness:
  "let b = enter_billing (JNum 7) [] no_billing_locks in
   bl_active b = [0] \<and> runs_lock (bl_lock b) 0
   \<and> line (bl_lock (enter_billing (JNum 7) [] b)) (trafficBillingUserLockKey (JNum 7)) = [0, 1]"
proof -
  define b where "b = enter_billing (JNum 7) [] no_billing_locks"
  have r: "billing_step\<^sup>*\<^sup>* no_billing_locks b" unfolding b_def by (intro r_into_rtranclp bill_enter) simp
  have l: "bl_lock b = enter_lock (trafficBillingUserLockKey (JNum 7)) no_locks" and a: "bl_active b = [0]"
    using billing_key [of "JNum 7"]
    by (simp_all add: b_def enter_billing_def inherits_def no_billing_locks_def Let_def withKeyedTaskLock_def start_billing_def)
      (simp_all add: runs_lock_def enter_lock_def no_locks_def)
  have "line (bl_lock b) (trafficBillingUserLockKey (JNum 7)) = [0]" "length (lk_tasks (bl_lock b)) = 1"
    by (simp_all add: l line_enter enter_lock_tasks) (simp_all add: line_def chain_line_def no_locks_def)
  moreover have "\<not> inherits b [] (trafficBillingUserLockKey (JNum 7))" by (simp add: inherits_def)
  ultimately show ?thesis
    using billing_lock_reentrant [OF r, of "[]"] a unfolding b_def [symmetric] Let_def by (auto dest!: spec [of _ "JNum 7"])
qed

end
