(* ===== verification/Rule_Quota.thy ===== *)
theory Rule_Quota
imports Task_Locks
begin

text \<open>
  The reservations of rule quotas (\<open>server/ruleQuotaReservations.ts\<close>).  A request that creates a rule reserves its place
  before it writes the rule and gives the reservation back afterwards; the counts of the database are read under the
  keyed lock of the user.

  The calls run on the lock of theory \<open>Task_Locks\<close>, next to any other use of it.  A reservation is named by its lock
  task.  The code under the lock is split at its awaits: the start, which notes the pending reservations, the two
  counts, each read at its own time, and the decision.  Between its reservation and its release the request writes one rule.
  The counts of the database are a function; they may also drop at any time.
\<close>

section \<open>State\<close>

datatype quota_dim = Rules | Ports

record quota_pending =
  qp_rules :: nat
  qp_ports :: nat

definition quota_field :: "quota_dim \<Rightarrow> quota_pending \<Rightarrow> nat" where
  "quota_field d p = (case d of Rules \<Rightarrow> qp_rules p | Ports \<Rightarrow> qp_ports p)"

text \<open>The flag of a held reservation tells whether the rule has been written.\<close>

datatype quota_phase =
    QWaiting
  | QCounting quota_pending "rat option" "rat option"
  | QThrown quota_dim
  | QHeld bool
  | QReleasing bool
  | QReleased

record quota_reservation =
  rv_user :: int
  rv_maxRules :: rat
  rv_maxPorts :: rat
  rv_phase :: quota_phase

definition rv_limit :: "quota_dim \<Rightarrow> quota_reservation \<Rightarrow> rat" where
  "rv_limit d r = (case d of Rules \<Rightarrow> rv_maxRules r | Ports \<Rightarrow> rv_maxPorts r)"

record quota_state =
  qs_lock :: lock_state
  qs_pending :: "(int, quota_pending) jmap"
  qs_reservations :: "(nat, quota_reservation) jmap"
  qs_releases :: "(nat, nat) jmap"
  qs_db :: "int \<Rightarrow> quota_dim \<Rightarrow> int"

definition no_quotas :: "(int \<Rightarrow> quota_dim \<Rightarrow> int) \<Rightarrow> quota_state" where
  "no_quotas db = \<lparr>qs_lock = no_locks, qs_pending = [], qs_reservations = [], qs_releases = [], qs_db = db\<rparr>"

section \<open>Operations\<close>

definition quota_key :: "int \<Rightarrow> string" where
  "quota_key userId = ''rule-create-quota:'' @ int_to_str userId"

definition quota_limit :: "rat \<Rightarrow> rat" where
  "quota_limit v = max 0 v"

definition pending_of :: "(int, quota_pending) jmap \<Rightarrow> int \<Rightarrow> quota_pending" where
  "pending_of m userId = (case jm_get m userId of Some p \<Rightarrow> p | None \<Rightarrow> \<lparr>qp_rules = 0, qp_ports = 0\<rparr>)"

definition set_reservation :: "nat \<Rightarrow> quota_phase \<Rightarrow> quota_state \<Rightarrow> quota_state" where
  "set_reservation n p s = (case jm_get (qs_reservations s) n of
     None \<Rightarrow> s | Some r \<Rightarrow> s\<lparr>qs_reservations := jm_set n (r\<lparr>rv_phase := p\<rparr>) (qs_reservations s)\<rparr>)"

text \<open>The locked part of \<open>release\<close>.\<close>

definition give_back :: "quota_reservation \<Rightarrow> (int, quota_pending) jmap \<Rightarrow> (int, quota_pending) jmap" where
  "give_back r m =
     (case jm_get m (rv_user r) of
        None \<Rightarrow> m
      | Some current \<Rightarrow>
          (let nxt = \<lparr>qp_rules = qp_rules current - (if 0 < rv_maxRules r then 1 else 0),
                       qp_ports = qp_ports current - (if 0 < rv_maxPorts r then 1 else 0)\<rparr>
           in if qp_rules nxt = 0 \<and> qp_ports nxt = 0 then jm_del (rv_user r) m else jm_set (rv_user r) nxt m))"

text \<open>What a lock task does when its turn comes.\<close>

definition start_quota :: "nat \<Rightarrow> quota_state \<Rightarrow> quota_state" where
  "start_quota n s =
     (case jm_get (qs_releases s) n of
        Some m \<Rightarrow>
          (case jm_get (qs_reservations s) m of
             None \<Rightarrow> s
           | Some r \<Rightarrow> set_reservation m QReleased
               (s\<lparr>qs_releases := jm_del n (qs_releases s), qs_pending := give_back r (qs_pending s)\<rparr>))
      | None \<Rightarrow>
          (case jm_get (qs_reservations s) n of
             None \<Rightarrow> s
           | Some r \<Rightarrow> if rv_phase r = QWaiting
               then set_reservation n (QCounting (pending_of (qs_pending s) (rv_user r)) None None) s else s))"

definition enter_quota :: "int \<Rightarrow> quota_state \<Rightarrow> quota_state" where
  "enter_quota userId s =
     (let n = length (lk_tasks (qs_lock s)); s' = s\<lparr>qs_lock := enter_lock (quota_key userId) (qs_lock s)\<rparr>
      in if runs_lock (qs_lock s') n then start_quota n s' else s')"

definition reserveRuleCreateQuota :: "int \<Rightarrow> rat \<Rightarrow> rat \<Rightarrow> quota_state \<Rightarrow> quota_state" where
  "reserveRuleCreateQuota userId maxRulesInput maxPortsInput s =
     (let maxRules = quota_limit maxRulesInput; maxPorts = quota_limit maxPortsInput in
      if maxRules = 0 \<and> maxPorts = 0 then s
      else enter_quota userId
        (s\<lparr>qs_reservations := jm_set (length (lk_tasks (qs_lock s)))
             \<lparr>rv_user = userId, rv_maxRules = maxRules, rv_maxPorts = maxPorts, rv_phase = QWaiting\<rparr> (qs_reservations s)\<rparr>))"

text \<open>The count of a quota that has no limit is not read.\<close>

definition counted :: "quota_state \<Rightarrow> quota_reservation \<Rightarrow> quota_dim \<Rightarrow> rat" where
  "counted s r d = (if 0 < rv_limit d r then of_int (qs_db s (rv_user r) d) else 0)"

definition note_count :: "quota_dim \<Rightarrow> nat \<Rightarrow> quota_state \<Rightarrow> quota_state" where
  "note_count d n s =
     (case jm_get (qs_reservations s) n of
        None \<Rightarrow> s
      | Some r \<Rightarrow>
          (case (d, rv_phase r) of
             (Rules, QCounting p None ports) \<Rightarrow> set_reservation n (QCounting p (Some (counted s r Rules)) ports) s
           | (Ports, QCounting p rules None) \<Rightarrow> set_reservation n (QCounting p rules (Some (counted s r Ports))) s
           | _ \<Rightarrow> s))"

definition exceeded :: "quota_reservation \<Rightarrow> quota_dim \<Rightarrow> rat \<Rightarrow> quota_pending \<Rightarrow> bool" where
  "exceeded r d c pending = (0 < rv_limit d r \<and> rv_limit d r \<le> c + of_nat (quota_field d pending))"

definition decide_quota :: "nat \<Rightarrow> quota_state \<Rightarrow> quota_state" where
  "decide_quota n s =
     (case jm_get (qs_reservations s) n of
        None \<Rightarrow> s
      | Some r \<Rightarrow>
          (case rv_phase r of
             QCounting pending (Some ruleCount) (Some portCount) \<Rightarrow>
               (if exceeded r Rules ruleCount pending then set_reservation n (QThrown Rules) s
                else if exceeded r Ports portCount pending then set_reservation n (QThrown Ports) s
                else set_reservation n (QHeld False)
                  (s\<lparr>qs_pending := jm_set (rv_user r)
                      \<lparr>qp_rules = qp_rules pending + (if 0 < rv_maxRules r then 1 else 0),
                       qp_ports = qp_ports pending + (if 0 < rv_maxPorts r then 1 else 0)\<rparr> (qs_pending s)\<rparr>))
           | _ \<Rightarrow> s))"

definition release_quota :: "nat \<Rightarrow> quota_state \<Rightarrow> quota_state" where
  "release_quota n s =
     (case jm_get (qs_reservations s) n of
        None \<Rightarrow> s
      | Some r \<Rightarrow>
          (case rv_phase r of
             QHeld written \<Rightarrow> enter_quota (rv_user r)
               (set_reservation n (QReleasing written) (s\<lparr>qs_releases := jm_set (length (lk_tasks (qs_lock s))) n (qs_releases s)\<rparr>))
           | _ \<Rightarrow> s))"

text \<open>The request writes its rule, which takes at most one port.\<close>

definition write_rule :: "nat \<Rightarrow> bool \<Rightarrow> quota_state \<Rightarrow> quota_state" where
  "write_rule n port s =
     (case jm_get (qs_reservations s) n of
        None \<Rightarrow> s
      | Some r \<Rightarrow>
          (if rv_phase r = QHeld False
           then set_reservation n (QHeld True)
             (s\<lparr>qs_db := (qs_db s)(rv_user r := (\<lambda>d. qs_db s (rv_user r) d + (if d = Rules \<or> port then 1 else 0)))\<rparr>)
           else s))"

text \<open>A task that has nothing left to do under the lock.\<close>

definition quota_idle :: "quota_state \<Rightarrow> nat \<Rightarrow> bool" where
  "quota_idle s n = (jm_get (qs_releases s) n = None
     \<and> (case jm_get (qs_reservations s) n of None \<Rightarrow> True
        | Some r \<Rightarrow> (case rv_phase r of QWaiting \<Rightarrow> False | QCounting p a b \<Rightarrow> False | _ \<Rightarrow> True)))"

inductive quota_step :: "quota_state \<Rightarrow> quota_state \<Rightarrow> bool" where
  q_reserve: "quota_step s (reserveRuleCreateQuota u mr mp s)"
| q_count: "quota_step s (note_count d n s)"
| q_decide: "quota_step s (decide_quota n s)"
| q_write: "quota_step s (write_rule n port s)"
| q_release: "quota_step s (release_quota n s)"
| q_resume: "can_resume (qs_lock s) n \<Longrightarrow> quota_step s (start_quota n (s\<lparr>qs_lock := resume_lock n (qs_lock s)\<rparr>))"
| q_finish: "runs_lock (qs_lock s) n \<Longrightarrow> quota_idle s n \<Longrightarrow> quota_step s (s\<lparr>qs_lock := finish_lock n (qs_lock s)\<rparr>)"
| q_other: "quota_step s (s\<lparr>qs_lock := enter_lock key (qs_lock s)\<rparr>)"
| q_deleted: "(\<And>u d. db u d \<le> qs_db s u d) \<Longrightarrow> quota_step s (s\<lparr>qs_db := db\<rparr>)"

section \<open>The state between two steps\<close>

definition live :: "int \<Rightarrow> quota_dim \<Rightarrow> quota_reservation \<Rightarrow> bool" where
  "live u d r = (rv_user r = u \<and> 0 < rv_limit d r
     \<and> (case rv_phase r of QHeld w \<Rightarrow> True | QReleasing w \<Rightarrow> True | _ \<Rightarrow> False))"

definition unwritten :: "int \<Rightarrow> quota_dim \<Rightarrow> quota_reservation \<Rightarrow> bool" where
  "unwritten u d r = (rv_user r = u \<and> 0 < rv_limit d r \<and> rv_phase r = QHeld False)"

fun noted :: "quota_dim \<Rightarrow> quota_phase \<Rightarrow> rat option" where
  "noted Rules (QCounting p a b) = a"
| "noted Ports (QCounting p a b) = b"
| "noted d _ = None"

definition waits :: "lock_state \<Rightarrow> nat \<Rightarrow> bool" where
  "waits l n = (\<exists>g. lt_phase (lk_tasks l ! n) = Lock_Waiting g)"

definition phase_ok :: "nat set \<Rightarrow> lock_state \<Rightarrow> quota_pending \<Rightarrow> nat \<Rightarrow> quota_phase \<Rightarrow> bool" where
  "phase_ok X l pending n ph =
     (case ph of QWaiting \<Rightarrow> waits l n \<or> n \<in> X | QCounting p a b \<Rightarrow> runs_lock l n \<and> p = pending | _ \<Rightarrow> True)"

lemma rv_limit_phase [simp]: "rv_limit d (r\<lparr>rv_phase := p\<rparr>) = rv_limit d r"
  by (simp add: rv_limit_def split: quota_dim.split)

text \<open>A reservation and its lock task; \<open>X\<close> are the tasks whose turn has come but that have not started.\<close>

definition task_ok :: "nat set \<Rightarrow> quota_state \<Rightarrow> nat \<Rightarrow> quota_reservation \<Rightarrow> bool" where
  "task_ok X s n r = (n < length (lk_tasks (qs_lock s)) \<and> lt_key (lk_tasks (qs_lock s) ! n) = quota_key (rv_user r)
     \<and> (0 < rv_maxRules r \<or> 0 < rv_maxPorts r) \<and> jm_get (qs_releases s) n = None
     \<and> phase_ok X (qs_lock s) (pending_of (qs_pending s) (rv_user r)) n (rv_phase r))"

definition release_ok :: "nat set \<Rightarrow> quota_state \<Rightarrow> nat \<Rightarrow> nat \<Rightarrow> bool" where
  "release_ok X s m n = (m < length (lk_tasks (qs_lock s)) \<and> (waits (qs_lock s) m \<or> m \<in> X)
     \<and> (\<exists>r w. jm_get (qs_reservations s) n = Some r \<and> rv_phase r = QReleasing w
          \<and> lt_key (lk_tasks (qs_lock s) ! m) = quota_key (rv_user r)))"

definition quota_ok :: "nat set \<Rightarrow> quota_state \<Rightarrow> bool" where
  "quota_ok X s = (lock_ok (qs_lock s)
     \<and> (\<forall>n r. jm_get (qs_reservations s) n = Some r \<longrightarrow> task_ok X s n r)
     \<and> (\<forall>m n. jm_get (qs_releases s) m = Some n \<longrightarrow> release_ok X s m n)
     \<and> (\<forall>m m' n. jm_get (qs_releases s) m = Some n \<and> jm_get (qs_releases s) m' = Some n \<longrightarrow> m = m')
     \<and> (\<forall>u d. int (quota_field d (pending_of (qs_pending s) u)) = jm_count (live u d) (qs_reservations s))
     \<and> (\<forall>u p. jm_get (qs_pending s) u = Some p \<longrightarrow> 0 < qp_rules p \<or> 0 < qp_ports p))"

lemma quota_okD:
  assumes "quota_ok X s"
  shows "lock_ok (qs_lock s)"
    "jm_get (qs_reservations s) n = Some r \<Longrightarrow> task_ok X s n r"
    "jm_get (qs_releases s) m = Some n \<Longrightarrow> release_ok X s m n"
    "jm_get (qs_releases s) m = Some n \<Longrightarrow> jm_get (qs_releases s) m' = Some n \<Longrightarrow> m = m'"
    "int (quota_field d (pending_of (qs_pending s) u)) = jm_count (live u d) (qs_reservations s)"
    "jm_get (qs_pending s) u = Some p \<Longrightarrow> 0 < qp_rules p \<or> 0 < qp_ports p"
  using assms by (simp_all add: quota_ok_def)

lemma quota_ok_none: "quota_ok {} (no_quotas db)"
  by (simp add: quota_ok_def no_quotas_def lock_ok_none pending_of_def quota_field_def split: quota_dim.split)

lemma int_to_str_inject: "int_to_str a = int_to_str b \<longleftrightarrow> a = b"
proof -
  have hd: "hd (nat_to_str n) \<noteq> CHR ''-''" for n
  proof -
    have "js_digit (hd (nat_to_str n))"
      using nat_to_str_digits [of n] nat_to_str_nonempty [of n] by (cases "nat_to_str n") auto
    then show ?thesis by simp
  qed
  have "nat_to_str m \<noteq> CHR ''-'' # nat_to_str n" "CHR ''-'' # nat_to_str n \<noteq> nat_to_str m" for m n
    using hd [of m] by (metis list.sel(1))+
  then show ?thesis by (auto simp: int_to_str_def nat_to_str_inject)
qed

lemma quota_key_inject: "quota_key u = quota_key v \<longleftrightarrow> u = v"
  by (simp add: quota_key_def int_to_str_inject)

text \<open>Of one user only one task is under the lock.\<close>

lemma one_counting:
  assumes ok: "quota_ok X s" and n: "runs_lock (qs_lock s) n" "lt_key (lk_tasks (qs_lock s) ! n) = quota_key u"
    and m: "jm_get (qs_reservations s) m = Some r" "rv_user r = u" "rv_phase r = QCounting p a b"
  shows "m = n"
proof -
  have "runs_lock (qs_lock s) m" "lt_key (lk_tasks (qs_lock s) ! m) = quota_key u"
    using quota_okD(2) [OF ok m(1)] m by (auto simp: task_ok_def phase_ok_def)
  then show ?thesis
    using n by (intro keyed.exclusive [OF quota_okD(1) [OF ok], of m n "quota_key u"])
      (auto simp: in_line runs_lock_def)
qed

section \<open>Every step keeps it\<close>

text \<open>Steps of the lock that enter a task without a role, or end one.\<close>

lemma task_ok_cong:
  assumes "qs_releases s' = qs_releases s" "qs_pending s' = qs_pending s" "task_ok X s n r"
    and "\<And>m. m < length (lk_tasks (qs_lock s)) \<Longrightarrow> m < length (lk_tasks (qs_lock s'))
       \<and> lt_key (lk_tasks (qs_lock s') ! m) = lt_key (lk_tasks (qs_lock s) ! m)"
    and "rv_phase r = QWaiting \<Longrightarrow> waits (qs_lock s) n \<Longrightarrow> waits (qs_lock s') n \<or> n \<in> Y" "rv_phase r = QWaiting \<Longrightarrow> n \<in> X \<Longrightarrow> n \<in> Y"
    and "\<And>p a b. rv_phase r = QCounting p a b \<Longrightarrow> runs_lock (qs_lock s) n \<Longrightarrow> runs_lock (qs_lock s') n"
  shows "task_ok Y s' n r"
  using assms unfolding task_ok_def phase_ok_def by (auto split: quota_phase.splits)

lemma release_ok_cong:
  assumes "qs_reservations s' = qs_reservations s" "release_ok X s m n"
    and "\<And>m. m < length (lk_tasks (qs_lock s)) \<Longrightarrow> m < length (lk_tasks (qs_lock s'))
       \<and> lt_key (lk_tasks (qs_lock s') ! m) = lt_key (lk_tasks (qs_lock s) ! m)"
    and "waits (qs_lock s) m \<Longrightarrow> waits (qs_lock s') m \<or> m \<in> Y" "m \<in> X \<Longrightarrow> m \<in> Y"
  shows "release_ok Y s' m n"
  using assms unfolding release_ok_def by auto

lemma quota_ok_enter:
  assumes ok: "quota_ok {} s"
  shows "quota_ok {} (s\<lparr>qs_lock := enter_lock key (qs_lock s)\<rparr>)"
proof -
  let ?s = "s\<lparr>qs_lock := enter_lock key (qs_lock s)\<rparr>"
  have t: "m < length (lk_tasks (qs_lock s)) \<Longrightarrow> m < length (lk_tasks (qs_lock ?s)) \<and> lk_tasks (qs_lock ?s) ! m = lk_tasks (qs_lock s) ! m" for m
    by (simp add: enter_lock_tasks)
  have w: "m < length (lk_tasks (qs_lock s)) \<Longrightarrow> waits (qs_lock s) m \<Longrightarrow> waits (qs_lock ?s) m" for m using t by (simp add: waits_def)
  have r: "runs_lock (qs_lock s) m \<Longrightarrow> runs_lock (qs_lock ?s) m" for m using t by (simp add: runs_lock_def)
  have "task_ok {} ?s n q" if "jm_get (qs_reservations s) n = Some q" for n q
    by (rule task_ok_cong [OF _ _ quota_okD(2) [OF ok that]]) (use quota_okD(2) [OF ok that] t w r in \<open>auto simp: task_ok_def phase_ok_def\<close>)
  moreover have "release_ok {} ?s m n" if "jm_get (qs_releases s) m = Some n" for m n
    by (rule release_ok_cong [OF _ quota_okD(3) [OF ok that]]) (use quota_okD(3) [OF ok that] t w in \<open>auto simp: release_ok_def\<close>)
  ultimately show ?thesis
    using quota_okD(1,4,5,6) [OF ok] by (simp add: quota_ok_def lock_ok_enter)
qed

lemma quota_ok_resume:
  assumes ok: "quota_ok {} s" and n: "can_resume (qs_lock s) n"
  shows "quota_ok {n} (s\<lparr>qs_lock := resume_lock n (qs_lock s)\<rparr>)"
proof -
  let ?s = "s\<lparr>qs_lock := resume_lock n (qs_lock s)\<rparr>"
  have len: "n < length (lk_tasks (qs_lock s))" using n by (simp add: can_resume_def)
  note ph = phase_resume(1,2) [OF len] phase_resume(3) [of n]
  have t: "m < length (lk_tasks (qs_lock s)) \<Longrightarrow> m < length (lk_tasks (qs_lock ?s))
      \<and> lt_key (lk_tasks (qs_lock ?s) ! m) = lt_key (lk_tasks (qs_lock s) ! m)" for m
    by (simp add: resume_lock_def ph)
  have w: "waits (qs_lock s) m \<Longrightarrow> waits (qs_lock ?s) m \<or> m \<in> {n}" for m by (simp add: waits_def resume_lock_def ph)
  have r: "runs_lock (qs_lock s) m \<Longrightarrow> runs_lock (qs_lock ?s) m" for m by (simp add: runs_lock_def resume_lock_def ph)
  have "task_ok {n} ?s m q" if "jm_get (qs_reservations s) m = Some q" for m q
    by (rule task_ok_cong [OF _ _ quota_okD(2) [OF ok that]]) (use t w r in auto)
  moreover have "release_ok {n} ?s m i" if "jm_get (qs_releases s) m = Some i" for m i
    by (rule release_ok_cong [OF _ quota_okD(3) [OF ok that]]) (use t w in auto)
  ultimately show ?thesis
    using quota_okD(1,4,5,6) [OF ok] n by (simp add: quota_ok_def lock_ok_resume)
qed

lemma quota_ok_finish:
  assumes ok: "quota_ok {} s" and n: "runs_lock (qs_lock s) n" and idle: "quota_idle s n"
  shows "quota_ok {} (s\<lparr>qs_lock := finish_lock n (qs_lock s)\<rparr>)"
proof -
  let ?s = "s\<lparr>qs_lock := finish_lock n (qs_lock s)\<rparr>"
  have len: "n < length (lk_tasks (qs_lock s))" using n by (simp add: runs_lock_def)
  note ph = phase_resume(1,2) [OF len] phase_resume(3) [of n] finish_parts
  have t: "m < length (lk_tasks (qs_lock s)) \<Longrightarrow> m < length (lk_tasks (qs_lock ?s))
      \<and> lt_key (lk_tasks (qs_lock ?s) ! m) = lt_key (lk_tasks (qs_lock s) ! m)" for m
    by (simp add: ph)
  have w: "waits (qs_lock s) m \<Longrightarrow> waits (qs_lock ?s) m" for m using n by (auto simp: waits_def runs_lock_def ph)
  have r: "m \<noteq> n \<Longrightarrow> runs_lock (qs_lock s) m \<Longrightarrow> runs_lock (qs_lock ?s) m" for m by (simp add: runs_lock_def ph)
  have "task_ok {} ?s m q" if q: "jm_get (qs_reservations s) m = Some q" for m q
  proof (rule task_ok_cong [OF _ _ quota_okD(2) [OF ok q]])
    show "runs_lock (qs_lock ?s) m" if "rv_phase q = QCounting p a b" "runs_lock (qs_lock s) m" for p a b
    proof (cases "m = n")
      case True
      then show ?thesis using idle q that by (simp add: quota_idle_def)
    qed (use r that in simp)
  qed (use t w in auto)
  moreover have "release_ok {} ?s m i" if "jm_get (qs_releases s) m = Some i" for m i
    by (rule release_ok_cong [OF _ quota_okD(3) [OF ok that]]) (use t w in auto)
  ultimately show ?thesis
    using quota_okD(1,4,5,6) [OF ok] n by (simp add: quota_ok_def lock_ok_finish)
qed

text \<open>The start of a task whose turn has come.\<close>

lemma set_reservation_get:
  "jm_get (qs_reservations s) n = Some r \<Longrightarrow> set_reservation n p s = s\<lparr>qs_reservations := jm_set n (r\<lparr>rv_phase := p\<rparr>) (qs_reservations s)\<rparr>"
  by (simp add: set_reservation_def)

lemma live_count_set:
  "jm_get (qs_reservations s) n = Some r \<Longrightarrow>
   jm_count (live u d) (jm_set n (r\<lparr>rv_phase := p\<rparr>) (qs_reservations s))
   = jm_count (live u d) (qs_reservations s) - of_bool (live u d r) + of_bool (live u d (r\<lparr>rv_phase := p\<rparr>))"
  by (rule jm_count_set)

lemma quota_ok_start:
  assumes ok: "quota_ok {n} s" and n: "runs_lock (qs_lock s) n"
  shows "quota_ok {} (start_quota n s)"
proof (cases "jm_get (qs_releases s) n")
  case (Some m)
  then obtain r w where r: "jm_get (qs_reservations s) m = Some r" "rv_phase r = QReleasing w"
    and key: "lt_key (lk_tasks (qs_lock s) ! n) = quota_key (rv_user r)"
    using quota_okD(3) [OF ok Some] by (auto simp: release_ok_def)
  let ?u = "rv_user r"
  let ?s = "s\<lparr>qs_reservations := jm_set m (r\<lparr>rv_phase := QReleased\<rparr>) (qs_reservations s),
      qs_releases := jm_del n (qs_releases s), qs_pending := give_back r (qs_pending s)\<rparr>"
  have start: "start_quota n s = ?s" using Some r by (simp add: start_quota_def set_reservation_def)
  have lim: "0 < rv_maxRules r \<or> 0 < rv_maxPorts r" and tm: "task_ok {n} s m r"
    using quota_okD(2) [OF ok r(1)] by (auto simp: task_ok_def phase_ok_def)
  have pos: "0 < quota_field d (pending_of (qs_pending s) ?u)" if "0 < rv_limit d r" for d
  proof -
    have "live ?u d r" using that r by (simp add: live_def)
    then show ?thesis using jm_count_pos [OF r(1), of "live ?u d"] quota_okD(5) [OF ok, of d ?u] by simp
  qed
  have some: "jm_get (qs_pending s) ?u = Some (pending_of (qs_pending s) ?u)"
    using pos [of Rules] pos [of Ports] lim
    by (auto simp: pending_of_def rv_limit_def quota_field_def split: option.splits)
  have field: "quota_field d (pending_of (give_back r (qs_pending s)) u)
      = quota_field d (pending_of (qs_pending s) u) - (if u = ?u \<and> 0 < rv_limit d r then 1 else 0)" for u d
  proof -
    obtain c where c: "jm_get (qs_pending s) ?u = Some c" using some by blast
    show ?thesis using c by (cases d) (auto simp: give_back_def Let_def pending_of_def quota_field_def rv_limit_def)
  qed
  have gb: "jm_get (give_back r (qs_pending s)) v = jm_get (qs_pending s) v" if "v \<noteq> ?u" for v
    using that some by (simp add: give_back_def Let_def)
  have not: "n \<noteq> m" using tm Some by (auto simp: task_ok_def phase_ok_def)
  show ?thesis
    unfolding start quota_ok_def
  proof (intro conjI allI impI)
    show "lock_ok (qs_lock ?s)" using quota_okD(1) [OF ok] by simp
    show "task_ok {} ?s i q" if q: "jm_get (qs_reservations ?s) i = Some q" for i q
    proof (cases "i = m")
      case True
      then show ?thesis using q tm by (auto simp: task_ok_def phase_ok_def)
    next
      case False
      then have q': "jm_get (qs_reservations s) i = Some q" using q by simp
      have ti: "task_ok {n} s i q" using quota_okD(2) [OF ok q'] .
      then have ni: "i \<noteq> n" using Some by (auto simp: task_ok_def phase_ok_def)
      have "rv_user q \<noteq> ?u" if "rv_phase q = QCounting p a b" for p a b
        using one_counting [OF ok n key q' _ that] ni by auto
      then show ?thesis using ti ni gb by (auto simp: task_ok_def phase_ok_def pending_of_def split: quota_phase.splits)
    qed
    show "release_ok {} ?s i j" if j: "jm_get (qs_releases ?s) i = Some j" for i j
    proof -
      have i: "i \<noteq> n" "jm_get (qs_releases s) i = Some j" using j by (auto split: if_splits)
      then have "j \<noteq> m" using quota_okD(4) [OF ok, of n m i] Some by auto
      then show ?thesis using quota_okD(3) [OF ok i(2)] i(1) by (auto simp: release_ok_def)
    qed
    show "i = i'" if "jm_get (qs_releases ?s) i = Some j \<and> jm_get (qs_releases ?s) i' = Some j" for i i' j
      using that quota_okD(4) [OF ok, of i j i'] by (auto split: if_splits)
    show "int (quota_field d (pending_of (qs_pending ?s) u)) = jm_count (live u d) (qs_reservations ?s)" for u d
      using quota_okD(5) [OF ok, of d u] live_count_set [OF r(1), of u d QReleased] pos [of d] r
      by (auto simp: field live_def)
    show "0 < qp_rules p \<or> 0 < qp_ports p" if "jm_get (qs_pending ?s) u = Some p" for u p
    proof (cases "u = ?u")
      case True
      then show ?thesis using that some by (auto simp: give_back_def Let_def split: if_splits)
    qed (use that gb quota_okD(6) [OF ok] in simp)
  qed
next
  case None
  show ?thesis
  proof (cases "\<exists>r. jm_get (qs_reservations s) n = Some r \<and> rv_phase r = QWaiting")
    case False
    then have "start_quota n s = s" using None by (auto simp: start_quota_def split: option.splits)
    moreover have "quota_ok {} s"
    proof -
      have "task_ok {} s i q" if q: "jm_get (qs_reservations s) i = Some q" for i q
        using quota_okD(2) [OF ok q] False q by (auto simp: task_ok_def phase_ok_def split: quota_phase.splits)
      moreover have "release_ok {} s i j" if "jm_get (qs_releases s) i = Some j" for i j
        using quota_okD(3) [OF ok that] that None by (auto simp: release_ok_def)
      ultimately show ?thesis using quota_okD(1,4,5,6) [OF ok] by (simp add: quota_ok_def)
    qed
    ultimately show ?thesis by simp
  next
    case True
    then obtain r where r: "jm_get (qs_reservations s) n = Some r" "rv_phase r = QWaiting" by blast
    let ?p = "QCounting (pending_of (qs_pending s) (rv_user r)) None None"
    let ?s = "s\<lparr>qs_reservations := jm_set n (r\<lparr>rv_phase := ?p\<rparr>) (qs_reservations s)\<rparr>"
    have start: "start_quota n s = ?s" using None r by (simp add: start_quota_def set_reservation_def)
    have "task_ok {} ?s i q" if q: "jm_get (qs_reservations ?s) i = Some q" for i q
    proof (cases "i = n")
      case True
      then show ?thesis using q quota_okD(2) [OF ok r(1)] n by (auto simp: task_ok_def phase_ok_def)
    next
      case False
      then show ?thesis using quota_okD(2) [OF ok, of i q] q by (auto simp: task_ok_def phase_ok_def split: quota_phase.splits)
    qed
    moreover have "release_ok {} ?s i j" if j: "jm_get (qs_releases s) i = Some j" for i j
      using quota_okD(3) [OF ok j] j None r by (fastforce simp: release_ok_def)
    moreover have "int (quota_field d (pending_of (qs_pending s) u)) = jm_count (live u d) (qs_reservations ?s)" for u d
      using quota_okD(5) [OF ok, of d u] live_count_set [OF r(1), of u d ?p] r by (simp add: live_def)
    ultimately show ?thesis
      unfolding start using quota_okD(1,4,6) [OF ok] by (simp add: quota_ok_def)
  qed
qed

text \<open>Steps that change one reservation and nothing it counts in.\<close>

lemma quota_ok_set:
  assumes ok: "quota_ok {} s" and r: "jm_get (qs_reservations s) n = Some r"
    and new: "task_ok {} s n (r\<lparr>rv_phase := p\<rparr>)" and live: "\<And>u d. live u d (r\<lparr>rv_phase := p\<rparr>) = live u d r"
    and rel: "\<And>w. rv_phase r \<noteq> QReleasing w"
  shows "quota_ok {} (set_reservation n p s)"
proof -
  let ?s = "s\<lparr>qs_reservations := jm_set n (r\<lparr>rv_phase := p\<rparr>) (qs_reservations s)\<rparr>"
  have "task_ok {} ?s i q" if q: "jm_get (qs_reservations ?s) i = Some q" for i q
  proof (cases "i = n")
    case True
    then show ?thesis using q new by (simp add: task_ok_def phase_ok_def)
  next
    case False
    then show ?thesis using quota_okD(2) [OF ok, of i q] q by (simp add: task_ok_def phase_ok_def)
  qed
  moreover have "release_ok {} ?s i j" if j: "jm_get (qs_releases s) i = Some j" for i j
    using quota_okD(3) [OF ok j] r rel by (auto simp: release_ok_def)
  moreover have "int (quota_field d (pending_of (qs_pending s) u)) = jm_count (live u d) (qs_reservations ?s)" for u d
    using quota_okD(5) [OF ok, of d u] live_count_set [OF r, of u d p] live by simp
  ultimately show ?thesis
    using quota_okD(1,4,6) [OF ok] by (simp add: set_reservation_get [OF r] quota_ok_def)
qed

lemma quota_ok_db [simp]: "quota_ok X (s\<lparr>qs_db := db\<rparr>) = quota_ok X s"
  by (simp add: quota_ok_def task_ok_def phase_ok_def release_ok_def)

lemma quota_ok_note: "quota_ok {} s \<Longrightarrow> quota_ok {} (note_count d n s)"
proof (cases "jm_get (qs_reservations s) n")
  case (Some r)
  assume ok: "quota_ok {} s"
  have set: "quota_ok {} (set_reservation n (QCounting p a' b') s)" if "rv_phase r = QCounting p a b" for p a b a' b'
    by (rule quota_ok_set [OF ok Some]) (use that quota_okD(2) [OF ok Some] in \<open>auto simp: task_ok_def phase_ok_def live_def\<close>)
  show ?thesis
    using Some ok set by (auto simp: note_count_def split: quota_dim.split quota_phase.split option.split)
qed (simp add: note_count_def)

lemma quota_ok_write: "quota_ok {} s \<Longrightarrow> quota_ok {} (write_rule n port s)"
proof (cases "jm_get (qs_reservations s) n")
  case (Some r)
  assume ok: "quota_ok {} s"
  have "quota_ok {} (set_reservation n (QHeld True) (s\<lparr>qs_db := db\<rparr>))" if "rv_phase r = QHeld False" for db
    by (rule quota_ok_set [of _ _ r]) (use that Some ok quota_okD(2) [OF ok Some] in \<open>auto simp: task_ok_def phase_ok_def live_def\<close>)
  then show ?thesis using Some ok by (simp add: write_rule_def)
qed (simp add: write_rule_def)

lemma quota_ok_decide:
  assumes ok: "quota_ok {} s"
  shows "quota_ok {} (decide_quota n s)"
proof (cases "\<exists>r p a b. jm_get (qs_reservations s) n = Some r \<and> rv_phase r = QCounting p (Some a) (Some b)")
  case False
  then have "decide_quota n s = s" by (auto simp: decide_quota_def split: option.splits quota_phase.splits)
  then show ?thesis using ok by simp
next
  case True
  then obtain r p a b where r: "jm_get (qs_reservations s) n = Some r" and ph: "rv_phase r = QCounting p (Some a) (Some b)"
    by blast
  let ?u = "rv_user r"
  have task: "task_ok {} s n r" using quota_okD(2) [OF ok r] .
  then have run: "runs_lock (qs_lock s) n" "lt_key (lk_tasks (qs_lock s) ! n) = quota_key ?u"
    and p: "p = pending_of (qs_pending s) ?u" using ph by (auto simp: task_ok_def phase_ok_def)
  have thrown: "quota_ok {} (set_reservation n (QThrown d) s)" for d
    by (rule quota_ok_set [OF ok r]) (use task ph in \<open>auto simp: task_ok_def phase_ok_def live_def\<close>)
  let ?new = "\<lparr>qp_rules = qp_rules p + (if 0 < rv_maxRules r then 1 else 0), qp_ports = qp_ports p + (if 0 < rv_maxPorts r then 1 else 0)\<rparr>"
  let ?s = "s\<lparr>qs_pending := jm_set ?u ?new (qs_pending s), qs_reservations := jm_set n (r\<lparr>rv_phase := QHeld False\<rparr>) (qs_reservations s)\<rparr>"
  have field: "int (quota_field d (pending_of (qs_pending ?s) u))
      = int (quota_field d (pending_of (qs_pending s) u)) + of_bool (u = ?u \<and> 0 < rv_limit d r)" for u d
    using p by (cases d) (auto simp: pending_of_def quota_field_def rv_limit_def)
  have "quota_ok {} ?s"
    unfolding quota_ok_def
  proof (intro conjI allI impI)
    show "lock_ok (qs_lock ?s)" using quota_okD(1) [OF ok] by simp
    show "task_ok {} ?s i q" if q: "jm_get (qs_reservations ?s) i = Some q" for i q
    proof (cases "i = n")
      case True
      then show ?thesis using q task by (auto simp: task_ok_def phase_ok_def)
    next
      case False
      then have q': "jm_get (qs_reservations s) i = Some q" using q by simp
      have "rv_user q \<noteq> ?u" if "rv_phase q = QCounting p' a' b'" for p' a' b'
        using one_counting [OF ok run q' _ that] False by auto
      then show ?thesis
        using quota_okD(2) [OF ok q'] by (auto simp: task_ok_def phase_ok_def pending_of_def split: quota_phase.splits)
    qed
    show "release_ok {} ?s i j" if j: "jm_get (qs_releases ?s) i = Some j" for i j
      using quota_okD(3) [OF ok, of i j] j r ph by (auto simp: release_ok_def)
    show "i = i'" if "jm_get (qs_releases ?s) i = Some j \<and> jm_get (qs_releases ?s) i' = Some j" for i i' j
      using that quota_okD(4) [OF ok, of i j i'] by simp
    show "int (quota_field d (pending_of (qs_pending ?s) u)) = jm_count (live u d) (qs_reservations ?s)" for u d
      unfolding field using quota_okD(5) [OF ok, of d u] live_count_set [OF r, of u d "QHeld False"] ph
      by (auto simp: live_def)
    show "0 < qp_rules q \<or> 0 < qp_ports q" if "jm_get (qs_pending ?s) u = Some q" for u q
      using that quota_okD(6) [OF ok, of u q] task by (auto simp: task_ok_def phase_ok_def split: if_splits)
  qed
  then show ?thesis
    using r ph thrown by (simp add: decide_quota_def set_reservation_def)
qed

text \<open>A new task enters the lock.\<close>

lemma enter_lock_new:
  "waits (enter_lock key (qs_lock s)) (length (lk_tasks (qs_lock s)))
   \<or> runs_lock (enter_lock key (qs_lock s)) (length (lk_tasks (qs_lock s)))"
  by (auto simp: waits_def runs_lock_def enter_lock_def Let_def split: option.splits)

lemma fresh_task:
  assumes "quota_ok X s"
  shows "jm_get (qs_reservations s) (length (lk_tasks (qs_lock s))) = None"
    "jm_get (qs_releases s) (length (lk_tasks (qs_lock s))) = None"
  using quota_okD(2,3) [OF assms, of "length (lk_tasks (qs_lock s))"]
  by (force simp: task_ok_def phase_ok_def release_ok_def intro: ccontr)+

lemma quota_ok_enter_quota:
  assumes "quota_ok X t" "t = s\<lparr>qs_lock := l\<rparr>" "l = enter_lock (quota_key u) (qs_lock s)" "m = length (lk_tasks (qs_lock s))"
    and "X = (if runs_lock l m then {m} else {})"
  shows "quota_ok {} (enter_quota u s)"
  using assms quota_ok_start [of m t] by (auto simp: enter_quota_def Let_def split: if_splits)

lemma release_entered:
  assumes ok: "quota_ok {} s" and r: "jm_get (qs_reservations s) n = Some r" "rv_phase r = QHeld w"
    and t: "t = set_reservation n (QReleasing w) (s\<lparr>qs_releases := jm_set (length (lk_tasks (qs_lock s))) n (qs_releases s)\<rparr>)"
    and l: "l = enter_lock (quota_key (rv_user r)) (qs_lock s)" and mi: "m = length (lk_tasks (qs_lock s))"
  shows "quota_ok (if runs_lock l m then {m} else {}) (t\<lparr>qs_lock := l\<rparr>)"
proof -
  let ?u = "rv_user r" and ?m = "length (lk_tasks (qs_lock s))"
  define s1 where "s1 = s\<lparr>qs_lock := enter_lock (quota_key ?u) (qs_lock s)\<rparr>"
  have ok1: "quota_ok {} s1" unfolding s1_def by (rule quota_ok_enter [OF ok])
  have m: "?m < length (lk_tasks (qs_lock s1))" "lt_key (lk_tasks (qs_lock s1) ! ?m) = quota_key ?u"
    by (simp_all add: s1_def enter_lock_tasks)
  have wr: "waits (qs_lock s1) ?m \<or> runs_lock (qs_lock s1) ?m" using enter_lock_new [where s = s and key = "quota_key ?u"] by (simp add: s1_def)
  define X where "X = (if runs_lock (qs_lock s1) ?m then {?m} else {})"
  have r1: "jm_get (qs_reservations s1) n = Some r" and fresh: "jm_get (qs_reservations s1) ?m = None" "jm_get (qs_releases s1) ?m = None"
    using r fresh_task [OF ok] by (simp_all add: s1_def)
  let ?s = "s1\<lparr>qs_releases := jm_set ?m n (qs_releases s1), qs_reservations := jm_set n (r\<lparr>rv_phase := QReleasing w\<rparr>) (qs_reservations s1)\<rparr>"
  have norel: "jm_get (qs_releases s1) i \<noteq> Some n" for i
    using quota_okD(3) [OF ok1, of i n] r1 r by (auto simp: release_ok_def)
  have "quota_ok X ?s"
    unfolding quota_ok_def
  proof (intro conjI allI impI)
    show "lock_ok (qs_lock ?s)" using quota_okD(1) [OF ok1] by simp
    show "task_ok X ?s i q" if q: "jm_get (qs_reservations ?s) i = Some q" for i q
    proof (cases "i = n")
      case True
      then show ?thesis using q quota_okD(2) [OF ok1 r1] r fresh r1 by (auto simp: task_ok_def phase_ok_def)
    next
      case False
      then have q': "jm_get (qs_reservations s1) i = Some q" using q by simp
      then have "i \<noteq> ?m" using fresh by auto
      then show ?thesis using quota_okD(2) [OF ok1 q'] by (auto simp: task_ok_def phase_ok_def split: quota_phase.splits)
    qed
    show "release_ok X ?s i j" if j: "jm_get (qs_releases ?s) i = Some j" for i j
    proof (cases "i = ?m")
      case True
      then show ?thesis using j m wr by (auto simp: release_ok_def X_def)
    next
      case False
      then show ?thesis using j quota_okD(3) [OF ok1, of i j] norel by (auto simp: release_ok_def)
    qed
    show "i = i'" if "jm_get (qs_releases ?s) i = Some j \<and> jm_get (qs_releases ?s) i' = Some j" for i i' j
      using that quota_okD(4) [OF ok1, of i j i'] norel by (auto split: if_splits)
    show "int (quota_field d (pending_of (qs_pending ?s) u)) = jm_count (live u d) (qs_reservations ?s)" for u d
      using quota_okD(5) [OF ok1, of d u] live_count_set [OF r1, of u d "QReleasing w"] r by (simp add: live_def)
    show "0 < qp_rules q \<or> 0 < qp_ports q" if "jm_get (qs_pending ?s) u = Some q" for u q
      using that quota_okD(6) [OF ok1, of u q] by simp
  qed
  moreover have "t\<lparr>qs_lock := l\<rparr> = ?s"
    unfolding t l s1_def using r(1) by (cases s) (simp add: set_reservation_def)
  ultimately show ?thesis by (auto simp: X_def s1_def l mi)
qed

lemma release_held:
  "jm_get (qs_reservations s) n = Some r \<Longrightarrow> rv_phase r = QHeld w \<Longrightarrow> release_quota n s = enter_quota (rv_user r)
     (set_reservation n (QReleasing w) (s\<lparr>qs_releases := jm_set (length (lk_tasks (qs_lock s))) n (qs_releases s)\<rparr>))"
  by (simp add: release_quota_def)

lemma release_other:
  "\<not> (\<exists>r w. jm_get (qs_reservations s) n = Some r \<and> rv_phase r = QHeld w) \<Longrightarrow> release_quota n s = s"
  by (auto simp: release_quota_def split: option.splits quota_phase.splits)

lemma qs_lock_set_reservation [simp]: "qs_lock (set_reservation n p s) = qs_lock s"
  by (simp add: set_reservation_def split: option.split)

lemma quota_ok_release:
  assumes ok: "quota_ok {} s"
  shows "quota_ok {} (release_quota n s)"
proof (cases "\<exists>r w. jm_get (qs_reservations s) n = Some r \<and> rv_phase r = QHeld w")
  case True
  then obtain r w where r: "jm_get (qs_reservations s) n = Some r" "rv_phase r = QHeld w" by blast
  show ?thesis
    unfolding release_held [OF r] by (rule quota_ok_enter_quota [OF release_entered [OF ok r refl refl refl] refl]) simp_all
qed (use ok release_other [of s n] in simp)

lemma reserve_entered:
  assumes ok: "quota_ok {} s" and r: "rv_user r = u" "rv_phase r = QWaiting" and lim: "0 < rv_maxRules r \<or> 0 < rv_maxPorts r"
    and t: "t = s\<lparr>qs_reservations := jm_set (length (lk_tasks (qs_lock s))) r (qs_reservations s)\<rparr>"
    and l: "l = enter_lock (quota_key u) (qs_lock s)" and mi: "m = length (lk_tasks (qs_lock s))"
  shows "quota_ok (if runs_lock l m then {m} else {}) (t\<lparr>qs_lock := l\<rparr>)"
proof -
  let ?m = "length (lk_tasks (qs_lock s))"
  define s1 where "s1 = s\<lparr>qs_lock := enter_lock (quota_key u) (qs_lock s)\<rparr>"
  have ok1: "quota_ok {} s1" unfolding s1_def by (rule quota_ok_enter [OF ok])
  have m: "?m < length (lk_tasks (qs_lock s1))" "lt_key (lk_tasks (qs_lock s1) ! ?m) = quota_key u"
    by (simp_all add: s1_def enter_lock_tasks)
  have wr: "waits (qs_lock s1) ?m \<or> runs_lock (qs_lock s1) ?m" using enter_lock_new [where s = s and key = "quota_key u"] by (simp add: s1_def)
  define X where "X = (if runs_lock (qs_lock s1) ?m then {?m} else {})"
  have fresh: "jm_get (qs_reservations s1) ?m = None" "jm_get (qs_releases s1) ?m = None"
    using fresh_task [OF ok] by (simp_all add: s1_def)
  let ?s = "s1\<lparr>qs_reservations := jm_set ?m r (qs_reservations s1)\<rparr>"
  have "quota_ok X ?s"
    unfolding quota_ok_def
  proof (intro conjI allI impI)
    show "lock_ok (qs_lock ?s)" using quota_okD(1) [OF ok1] by simp
    show "task_ok X ?s i q" if q: "jm_get (qs_reservations ?s) i = Some q" for i q
    proof (cases "i = ?m")
      case True
      then show ?thesis using q m wr lim fresh r by (auto simp: task_ok_def phase_ok_def X_def)
    next
      case False
      then show ?thesis using q quota_okD(2) [OF ok1, of i q] by (auto simp: task_ok_def phase_ok_def split: quota_phase.splits)
    qed
    show "release_ok X ?s i j" if j: "jm_get (qs_releases ?s) i = Some j" for i j
      using j quota_okD(3) [OF ok1, of i j] fresh by (auto simp: release_ok_def)
    show "i = i'" if "jm_get (qs_releases ?s) i = Some j \<and> jm_get (qs_releases ?s) i' = Some j" for i i' j
      using that quota_okD(4) [OF ok1, of i j i'] by simp
    show "int (quota_field d (pending_of (qs_pending ?s) v)) = jm_count (live v d) (qs_reservations ?s)" for v d
      using quota_okD(5) [OF ok1, of d v] jm_count_new [OF fresh(1), of "live v d" r] by (simp add: live_def r)
    show "0 < qp_rules q \<or> 0 < qp_ports q" if "jm_get (qs_pending ?s) v = Some q" for v q
      using that quota_okD(6) [OF ok1, of v q] by simp
  qed
  moreover have "t\<lparr>qs_lock := l\<rparr> = ?s" unfolding t l s1_def by (cases s) simp
  ultimately show ?thesis by (auto simp: X_def s1_def l mi)
qed

definition new_reservation :: "int \<Rightarrow> rat \<Rightarrow> rat \<Rightarrow> quota_reservation" where
  "new_reservation u mr mp = \<lparr>rv_user = u, rv_maxRules = quota_limit mr, rv_maxPorts = quota_limit mp, rv_phase = QWaiting\<rparr>"

lemma reserve_limited:
  "\<not> (quota_limit mr = 0 \<and> quota_limit mp = 0) \<Longrightarrow> reserveRuleCreateQuota u mr mp s = enter_quota u
     (s\<lparr>qs_reservations := jm_set (length (lk_tasks (qs_lock s))) (new_reservation u mr mp) (qs_reservations s)\<rparr>)"
  by (simp add: reserveRuleCreateQuota_def Let_def new_reservation_def) auto

lemma new_reservation_entered:
  assumes "quota_ok {} s" "\<not> (quota_limit mr = 0 \<and> quota_limit mp = 0)"
    and "l = enter_lock (quota_key u) (qs_lock s)" and "m = length (lk_tasks (qs_lock s))"
  shows "quota_ok (if runs_lock l m then {m} else {})
    (s\<lparr>qs_reservations := jm_set (length (lk_tasks (qs_lock s))) (new_reservation u mr mp) (qs_reservations s)\<rparr>\<lparr>qs_lock := l\<rparr>)"
  by (rule reserve_entered [OF assms(1) _ _ _ refl assms(3,4)])
    (use assms(2) in \<open>auto simp: new_reservation_def quota_limit_def max_def split: if_splits\<close>)

lemma quota_ok_reserve:
  assumes ok: "quota_ok {} s"
  shows "quota_ok {} (reserveRuleCreateQuota u mr mp s)"
proof (cases "quota_limit mr = 0 \<and> quota_limit mp = 0")
  case False
  show ?thesis
    unfolding reserve_limited [OF False]
    by (rule quota_ok_enter_quota [OF new_reservation_entered [OF ok False refl refl] refl]) simp_all
qed (use ok in \<open>simp add: reserveRuleCreateQuota_def\<close>)

lemma quota_ok_step: "quota_step s s' \<Longrightarrow> quota_ok {} s \<Longrightarrow> quota_ok {} s'"
proof (induction rule: quota_step.induct)
  case (q_resume s n)
  have "runs_lock (resume_lock n (qs_lock s)) n"
    using q_resume.hyps by (simp add: runs_lock_def resume_lock_def phase_resume can_resume_def)
  then show ?case using quota_ok_start [OF quota_ok_resume [OF q_resume.prems q_resume.hyps]] by simp
qed (simp_all add: quota_ok_reserve quota_ok_note quota_ok_decide quota_ok_write quota_ok_release quota_ok_finish quota_ok_enter)

section \<open>The quota is kept\<close>

text \<open>Every reservation of the user was made with a whole limit up to \<open>L\<close>.\<close>

definition limited :: "int \<Rightarrow> quota_dim \<Rightarrow> int \<Rightarrow> quota_state \<Rightarrow> bool" where
  "limited u d L s = (\<forall>n r. jm_get (qs_reservations s) n = Some r \<and> rv_user r = u \<longrightarrow>
     (\<exists>i. rv_limit d r = of_int i \<and> 0 < i \<and> i \<le> L))"

text \<open>What the database holds and what has been promised but not written.\<close>

definition promised :: "int \<Rightarrow> quota_dim \<Rightarrow> quota_state \<Rightarrow> int" where
  "promised u d s = qs_db s u d + jm_count (unwritten u d) (qs_reservations s)"

definition budget :: "int \<Rightarrow> quota_dim \<Rightarrow> int \<Rightarrow> quota_state \<Rightarrow> bool" where
  "budget u d L s = (promised u d s \<le> L
     \<and> (\<forall>n r c. jm_get (qs_reservations s) n = Some r \<and> rv_user r = u \<and> noted d (rv_phase r) = Some c \<longrightarrow>
          of_int (promised u d s) \<le> c + of_nat (quota_field d (pending_of (qs_pending s) u))))"

lemma limitedD: "limited u d L s \<Longrightarrow> jm_get (qs_reservations s) n = Some r \<Longrightarrow> rv_user r = u \<Longrightarrow> 0 < rv_limit d r"
  by (force simp: limited_def)

lemma budgetD: "budget u d L s \<Longrightarrow> jm_get (qs_reservations s) n = Some r \<Longrightarrow> rv_user r = u \<Longrightarrow> noted d (rv_phase r) = Some c \<Longrightarrow>
    of_int (promised u d s) \<le> c + of_nat (quota_field d (pending_of (qs_pending s) u))"
  by (simp add: budget_def)

text \<open>A change of one reservation that promises nothing new and leaves the pending count and the others alone.\<close>

lemma budget_set:
  assumes b: "budget u d L s" and r: "jm_get (qs_reservations s) n = Some r"
    and new: "unwritten u d (r\<lparr>rv_phase := p\<rparr>) \<Longrightarrow> unwritten u d r"
    and count: "\<And>c. rv_user r = u \<Longrightarrow> noted d p = Some c \<Longrightarrow> noted d (rv_phase r) = Some c
      \<or> of_int (promised u d s) \<le> c + of_nat (quota_field d (pending_of (qs_pending s) u))"
  shows "budget u d L (set_reservation n p s)"
proof -
  let ?s = "s\<lparr>qs_reservations := jm_set n (r\<lparr>rv_phase := p\<rparr>) (qs_reservations s)\<rparr>"
  have le: "promised u d ?s \<le> promised u d s"
    using new jm_count_set [OF r, of "unwritten u d" "r\<lparr>rv_phase := p\<rparr>"] by (auto simp: promised_def)
  have "of_int (promised u d ?s) \<le> c + of_nat (quota_field d (pending_of (qs_pending ?s) u))"
    if q: "jm_get (qs_reservations ?s) i = Some q \<and> rv_user q = u \<and> noted d (rv_phase q) = Some c" for i q c
  proof -
    have "of_int (promised u d s) \<le> c + of_nat (quota_field d (pending_of (qs_pending s) u))"
    proof (cases "i = n")
      case True
      then have "q = r\<lparr>rv_phase := p\<rparr>" using q by simp
      then show ?thesis using count [of c] q b r by (auto simp: budget_def)
    next
      case False
      then show ?thesis using q b by (auto simp: budget_def)
    qed
    moreover have "of_int (promised u d ?s) \<le> (of_int (promised u d s) :: rat)" using le by simp
    ultimately show ?thesis by simp
  qed
  then show ?thesis using b le by (simp add: set_reservation_get [OF r] budget_def)
qed

lemma budget_lock: "budget u d L (s\<lparr>qs_lock := l\<rparr>) = budget u d L s" "budget u d L (s\<lparr>qs_releases := m\<rparr>) = budget u d L s"
  by (simp_all add: budget_def promised_def)

lemma budget_start:
  assumes ok: "quota_ok X s" and run: "runs_lock (qs_lock s) n" and b: "budget u d L s"
  shows "budget u d L (start_quota n s)"
proof (cases "jm_get (qs_releases s) n")
  case (Some m)
  then obtain r w where r: "jm_get (qs_reservations s) m = Some r" "rv_phase r = QReleasing w"
    and key: "lt_key (lk_tasks (qs_lock s) ! n) = quota_key (rv_user r)"
    using quota_okD(3) [OF ok Some] by (auto simp: release_ok_def)
  let ?t = "s\<lparr>qs_releases := jm_del n (qs_releases s), qs_pending := give_back r (qs_pending s)\<rparr>"
  have "budget u d L ?t"
  proof (cases "u = rv_user r")
    case True
    have "\<not> (jm_get (qs_reservations s) i = Some q \<and> rv_user q = u \<and> noted d (rv_phase q) = Some c)" for i q c
    proof
      assume q: "jm_get (qs_reservations s) i = Some q \<and> rv_user q = u \<and> noted d (rv_phase q) = Some c"
      then obtain p a b where ph: "rv_phase q = QCounting p a b" by (cases "rv_phase q") (cases d, auto)+
      have "i = n" using one_counting [OF ok run key] q ph True by blast
      then show False using q quota_okD(2) [OF ok, of n q] Some by (auto simp: task_ok_def)
    qed
    then show ?thesis using b unfolding budget_def promised_def by auto
  next
    case False
    then have "pending_of (give_back r (qs_pending s)) u = pending_of (qs_pending s) u"
      by (auto simp: give_back_def Let_def pending_of_def split: option.split)
    then show ?thesis using b by (simp add: budget_def promised_def)
  qed
  then have "budget u d L (set_reservation m QReleased ?t)"
    by (rule budget_set) (use r in \<open>auto simp: unwritten_def\<close>)
  then show ?thesis using Some r by (simp add: start_quota_def)
next
  case None
  show ?thesis
  proof (cases "\<exists>r. jm_get (qs_reservations s) n = Some r \<and> rv_phase r = QWaiting")
    case False
    then show ?thesis using None b by (auto simp: start_quota_def split: option.splits)
  next
    case True
    then obtain r where r: "jm_get (qs_reservations s) n = Some r" "rv_phase r = QWaiting" by blast
    have "budget u d L (set_reservation n (QCounting (pending_of (qs_pending s) (rv_user r)) None None) s)"
      by (rule budget_set [OF b r(1)]) (use r in \<open>cases d; auto simp: unwritten_def\<close>)+
    then show ?thesis using None r by (simp add: start_quota_def)
  qed
qed

lemma budget_enter_quota:
  assumes ok: "quota_ok X (s\<lparr>qs_lock := enter_lock (quota_key v) (qs_lock s)\<rparr>)" and b: "budget u d L s"
  shows "budget u d L (enter_quota v s)"
  using budget_start [OF ok, of "length (lk_tasks (qs_lock s))" u d L] b
  by (simp add: enter_quota_def Let_def budget_lock)

lemma promised_le: "limited u d L s \<Longrightarrow> quota_ok X s \<Longrightarrow> promised u d s \<le> qs_db s u d + int (quota_field d (pending_of (qs_pending s) u))"
  using jm_count_mono [of "unwritten u d" "live u d" "qs_reservations s"] quota_okD(5) [of X s d u]
  by (auto simp: promised_def unwritten_def live_def)

lemma budget_note:
  assumes ok: "quota_ok {} s" and b: "budget u d L s" and l: "limited u d L s"
  shows "budget u d L (note_count e n s)"
proof (cases "jm_get (qs_reservations s) n")
  case (Some r)
  have c: "of_int (promised u d s) \<le> counted s r d + of_nat (quota_field d (pending_of (qs_pending s) u))" if "rv_user r = u"
  proof -
    have "of_int (promised u d s) \<le> (of_int (qs_db s u d + int (quota_field d (pending_of (qs_pending s) u))) :: rat)"
      using promised_le [OF l ok] by (simp only: of_int_le_iff)
    then show ?thesis using that limitedD [OF l Some that] by (simp add: counted_def)
  qed
  have "budget u d L (set_reservation n (QCounting p (Some (counted s r Rules)) b') s)" if "rv_phase r = QCounting p None b'" for p b'
    by (rule budget_set [OF b Some]) (use that c in \<open>cases d; auto simp: unwritten_def\<close>)+
  moreover have "budget u d L (set_reservation n (QCounting p a' (Some (counted s r Ports))) s)" if "rv_phase r = QCounting p a' None" for p a'
    by (rule budget_set [OF b Some]) (use that c in \<open>cases d; auto simp: unwritten_def\<close>)+
  ultimately show ?thesis
    using Some b by (auto simp: note_count_def split: quota_dim.split quota_phase.split option.split)
qed (use b in \<open>simp add: note_count_def\<close>)

lemma budget_write:
  assumes b: "budget u d L s" and l: "limited u d L s"
  shows "budget u d L (write_rule n port s)"
proof (cases "\<exists>r. jm_get (qs_reservations s) n = Some r \<and> rv_phase r = QHeld False")
  case False
  then show ?thesis using b by (auto simp: write_rule_def split: option.split)
next
  case True
  then obtain r where r: "jm_get (qs_reservations s) n = Some r" "rv_phase r = QHeld False" by blast
  let ?s = "write_rule n port s"
  have parts: "qs_pending ?s = qs_pending s" "qs_reservations ?s = jm_set n (r\<lparr>rv_phase := QHeld True\<rparr>) (qs_reservations s)"
    "qs_db ?s u d = qs_db s u d + (if u = rv_user r \<and> (d = Rules \<or> port) then 1 else 0)"
    using r by (simp_all add: write_rule_def set_reservation_def)
  have un: "unwritten u d r = (rv_user r = u)" using r limitedD [OF l r(1)] by (auto simp: unwritten_def)
  have "\<not> unwritten u d (r\<lparr>rv_phase := QHeld True\<rparr>)" by (simp add: unwritten_def)
  then have le: "promised u d ?s \<le> promised u d s"
    using jm_count_set [OF r(1), of "unwritten u d" "r\<lparr>rv_phase := QHeld True\<rparr>"] un by (auto simp: promised_def parts)
  have "of_int (promised u d ?s) \<le> c + of_nat (quota_field d (pending_of (qs_pending ?s) u))"
    if q: "jm_get (qs_reservations ?s) i = Some q \<and> rv_user q = u \<and> noted d (rv_phase q) = Some c" for i q c
  proof -
    have "i \<noteq> n" using q by (cases d) (auto simp: parts)
    then have "of_int (promised u d s) \<le> c + of_nat (quota_field d (pending_of (qs_pending s) u))"
      using q b by (auto simp: budget_def parts)
    moreover have "of_int (promised u d ?s) \<le> (of_int (promised u d s) :: rat)" using le by simp
    ultimately show ?thesis by (simp add: parts)
  qed
  then show ?thesis using b le by (simp add: budget_def)
qed

lemma budget_decide:
  assumes ok: "quota_ok {} s" and b: "budget u d L s" and l: "limited u d L s"
  shows "budget u d L (decide_quota n s)"
proof (cases "\<exists>r p a c. jm_get (qs_reservations s) n = Some r \<and> rv_phase r = QCounting p (Some a) (Some c)")
  case False
  then have "decide_quota n s = s" by (auto simp: decide_quota_def split: option.splits quota_phase.splits)
  then show ?thesis using b by simp
next
  case True
  then obtain r p a c where r: "jm_get (qs_reservations s) n = Some r" and ph: "rv_phase r = QCounting p (Some a) (Some c)"
    by blast
  let ?u = "rv_user r"
  have run: "runs_lock (qs_lock s) n" "lt_key (lk_tasks (qs_lock s) ! n) = quota_key ?u" and p: "p = pending_of (qs_pending s) ?u"
    using quota_okD(2) [OF ok r] ph by (auto simp: task_ok_def phase_ok_def)
  have thrown: "budget u d L (set_reservation n (QThrown e) s)" for e
    by (rule budget_set [OF b r]) (simp_all add: unwritten_def)
  let ?new = "\<lparr>qp_rules = qp_rules p + (if 0 < rv_maxRules r then 1 else 0), qp_ports = qp_ports p + (if 0 < rv_maxPorts r then 1 else 0)\<rparr>"
  let ?s = "s\<lparr>qs_pending := jm_set ?u ?new (qs_pending s), qs_reservations := jm_set n (r\<lparr>rv_phase := QHeld False\<rparr>) (qs_reservations s)\<rparr>"
  have held: "budget u d L ?s" if free: "\<not> exceeded r Rules a p" "\<not> exceeded r Ports c p"
  proof (cases "u = ?u")
    case True
    obtain i where i: "rv_limit d r = of_int i" "0 < i" "i \<le> L" using l r True by (auto simp: limited_def)
    have "of_int (promised u d s) \<le> the (noted d (rv_phase r)) + of_nat (quota_field d p)"
      using budgetD [OF b r True [symmetric], of "the (noted d (rv_phase r))"] True ph p by (cases d) auto
    also have "\<dots> < of_int i" using free i ph by (cases d) (auto simp: exceeded_def)
    finally have "promised u d s + 1 \<le> L" using i by simp
    moreover have "promised u d ?s = promised u d s + 1"
      using jm_count_set [OF r, of "unwritten u d" "r\<lparr>rv_phase := QHeld False\<rparr>"] i True ph
      by (simp add: promised_def unwritten_def)
    moreover have "\<not> (jm_get (qs_reservations ?s) j = Some q \<and> rv_user q = u \<and> noted d (rv_phase q) = Some c)" for j q c
    proof
      assume q: "jm_get (qs_reservations ?s) j = Some q \<and> rv_user q = u \<and> noted d (rv_phase q) = Some c"
      then have j: "j \<noteq> n" by (cases d) auto
      obtain p' a' c' where "rv_phase q = QCounting p' a' c'" using q by (cases "rv_phase q") (cases d, auto)+
      then show False using one_counting [OF ok run] q True j by fastforce
    qed
    ultimately show ?thesis unfolding budget_def by (metis order_refl)
  next
    case False
    have same: "promised u d ?s = promised u d s" "pending_of (qs_pending ?s) u = pending_of (qs_pending s) u"
      using jm_count_set [OF r, of "unwritten u d" "r\<lparr>rv_phase := QHeld False\<rparr>"] False
      by (simp_all add: promised_def unwritten_def pending_of_def)
    show ?thesis
      unfolding budget_def same
    proof (intro conjI allI impI)
      show "promised u d s \<le> L" using b by (simp add: budget_def)
      fix j q e
      assume q: "jm_get (qs_reservations ?s) j = Some q \<and> rv_user q = u \<and> noted d (rv_phase q) = Some e"
      then have "j \<noteq> n" by (cases d) auto
      then show "of_int (promised u d s) \<le> e + of_nat (quota_field d (pending_of (qs_pending s) u))"
        using q b by (auto simp: budget_def)
    qed
  qed
  show ?thesis using r ph thrown held by (simp add: decide_quota_def set_reservation_def)
qed

text \<open>Limits and users of reservations never change.\<close>

definition party :: "quota_state \<Rightarrow> nat \<Rightarrow> (int \<times> rat \<times> rat) option" where
  "party s n = map_option (\<lambda>r. (rv_user r, rv_maxRules r, rv_maxPorts r)) (jm_get (qs_reservations s) n)"

lemma party_cong: "qs_reservations s' = qs_reservations s \<Longrightarrow> party s' = party s"
  by (simp add: party_def fun_eq_iff)

lemma party_set [simp]: "party (set_reservation m p s) = party s"
  by (auto simp: party_def fun_eq_iff set_reservation_def split: option.split)

lemma party_start [simp]: "party (start_quota m s) = party s"
  by (auto simp: start_quota_def split: option.split intro: party_cong)

lemma party_enter [simp]: "party (enter_quota u s) = party s"
  by (auto simp: enter_quota_def Let_def intro: party_cong)

lemma party_note [simp]: "party (note_count d m s) = party s"
  by (auto simp: note_count_def split: option.split quota_dim.split quota_phase.split)

lemma party_decide [simp]: "party (decide_quota m s) = party s"
  by (auto simp: decide_quota_def split: option.split quota_phase.split intro: party_cong)

lemma party_write [simp]: "party (write_rule m port s) = party s"
  by (auto simp: write_rule_def split: option.split intro: party_cong)

lemma party_release [simp]: "party (release_quota m s) = party s"
  by (auto simp: release_quota_def split: option.split quota_phase.split intro: party_cong)

lemma party_step:
  assumes "quota_step s s'" "quota_ok {} s" "party s n \<noteq> None"
  shows "party s' n = party s n"
  using assms
proof (induction rule: quota_step.induct)
  case (q_reserve s u mr mp)
  have "jm_get (qs_reservations s) n \<noteq> None" using q_reserve.prems by (simp add: party_def)
  then have "n \<noteq> length (lk_tasks (qs_lock s))" using fresh_task(1) [OF q_reserve.prems(1)] by auto
  then show ?case by (simp add: reserveRuleCreateQuota_def Let_def) (simp add: party_def)
qed (simp_all add: party_cong [of "_\<lparr>qs_lock := _\<rparr>"] party_cong [of "_\<lparr>qs_db := _\<rparr>"])

lemma limited_party:
  "limited u d L s \<longleftrightarrow> (\<forall>n mr mp. party s n = Some (u, mr, mp) \<longrightarrow>
     (\<exists>i. (case d of Rules \<Rightarrow> mr | Ports \<Rightarrow> mp) = of_int i \<and> 0 < i \<and> i \<le> L))"
  by (cases d) (fastforce simp: limited_def party_def rv_limit_def)+

lemma limited_back: "quota_step s s' \<Longrightarrow> quota_ok {} s \<Longrightarrow> limited u d L s' \<Longrightarrow> limited u d L s"
  unfolding limited_party using party_step by (metis option.distinct(1))

lemma budget_release:
  assumes ok: "quota_ok {} s" and b: "budget u d L s"
  shows "budget u d L (release_quota n s)"
proof (cases "\<exists>r w. jm_get (qs_reservations s) n = Some r \<and> rv_phase r = QHeld w")
  case True
  then obtain r w where r: "jm_get (qs_reservations s) n = Some r" "rv_phase r = QHeld w" by blast
  let ?t = "set_reservation n (QReleasing w) (s\<lparr>qs_releases := jm_set (length (lk_tasks (qs_lock s))) n (qs_releases s)\<rparr>)"
  have "budget u d L ?t"
    by (rule budget_set [where r = r]) (use b r in \<open>cases d; auto simp: budget_lock unwritten_def\<close>)+
  moreover have q: "qs_lock ?t = qs_lock s" by simp
  ultimately show ?thesis
    unfolding release_held [OF r]
    using budget_enter_quota [of _ _ ?t, unfolded q, OF release_entered [OF ok r refl refl refl]] by blast
qed (use b release_other [of s n] in simp)

lemma budget_reserve:
  assumes ok: "quota_ok {} s" and b: "budget u d L s"
  shows "budget u d L (reserveRuleCreateQuota v mr mp s)"
proof (cases "quota_limit mr = 0 \<and> quota_limit mp = 0")
  case False
  let ?m = "length (lk_tasks (qs_lock s))" and ?r = "new_reservation v mr mp"
  let ?t = "s\<lparr>qs_reservations := jm_set ?m ?r (qs_reservations s)\<rparr>"
  have p: "promised u d ?t = promised u d s"
    using jm_count_new [OF fresh_task(1) [OF ok], of "unwritten u d" ?r]
    by (simp add: promised_def unwritten_def new_reservation_def)
  have "budget u d L ?t"
    unfolding budget_def p
  proof (intro conjI allI impI)
    show "promised u d s \<le> L" using b by (simp add: budget_def)
    fix j q e
    assume q: "jm_get (qs_reservations ?t) j = Some q \<and> rv_user q = u \<and> noted d (rv_phase q) = Some e"
    then have "j \<noteq> ?m" by (cases d) (auto simp: new_reservation_def)
    then show "of_int (promised u d s) \<le> e + of_nat (quota_field d (pending_of (qs_pending ?t) u))"
      using q budgetD [OF b, of j q e] by simp
  qed
  moreover have q: "qs_lock ?t = qs_lock s" by simp
  ultimately show ?thesis
    unfolding reserve_limited [OF False]
    using budget_enter_quota [of _ _ ?t, unfolded q, OF new_reservation_entered [OF ok False refl refl]] by blast
qed (use b in \<open>simp add: reserveRuleCreateQuota_def\<close>)

lemma budget_step:
  assumes "quota_step s s'" "quota_ok {} s" "limited u d L s" "budget u d L s"
  shows "budget u d L s'"
  using assms
proof (induction rule: quota_step.induct)
  case (q_resume s n)
  have "runs_lock (resume_lock n (qs_lock s)) n"
    using q_resume.hyps by (simp add: runs_lock_def resume_lock_def phase_resume can_resume_def)
  then show ?case
    using budget_start [OF quota_ok_resume [OF q_resume.prems(1) q_resume.hyps], of n u d L] q_resume.prems(3) by (simp add: budget_lock)
next
  case (q_deleted db s)
  have "promised u d (s\<lparr>qs_db := db\<rparr>) \<le> promised u d s" using q_deleted.hyps by (simp add: promised_def)
  moreover from this have "of_int (promised u d (s\<lparr>qs_db := db\<rparr>)) \<le> (of_int (promised u d s) :: rat)" by simp
  ultimately show ?case using q_deleted.prems(3) unfolding budget_def by (fastforce intro: order_trans)
qed (simp_all add: budget_reserve budget_note budget_decide budget_write budget_release budget_lock)

lemma quota_reachable: "quota_step\<^sup>*\<^sup>* (no_quotas db) s \<Longrightarrow> quota_ok {} s"
  by (induction rule: rtranclp_induct) (simp_all add: quota_ok_none quota_ok_step)

text \<open>
  C1. Concurrent requests never take a user over a quota.  Whatever the order of requests, database reads, decisions,
  writes, deletions and releases, if the database started within the limit and every reservation of the user was
  made with a whole positive limit of at most \<open>L\<close>, then what the database holds, together with what has been granted
  but not written yet, never exceeds \<open>L\<close>; the pending counter is exactly the number of granted reservations that
  have not been given back, and a user with none has no entry.
\<close>

theorem rule_quota_kept:
  assumes run: "quota_step\<^sup>*\<^sup>* (no_quotas db) s" and init: "db u d \<le> L" and lim: "limited u d L s"
  shows "qs_db s u d + jm_count (unwritten u d) (qs_reservations s) \<le> L
    \<and> int (quota_field d (pending_of (qs_pending s) u)) = jm_count (live u d) (qs_reservations s)
    \<and> ((\<forall>e. jm_count (live u e) (qs_reservations s) = 0) \<longrightarrow> jm_get (qs_pending s) u = None)"
proof -
  have ok: "quota_ok {} s" by (rule quota_reachable [OF run])
  have "limited u d L s \<longrightarrow> budget u d L s"
    using run
  proof (induction rule: rtranclp_induct)
    case base
    show ?case using init by (simp add: budget_def promised_def no_quotas_def)
  next
    case (step s s')
    then show ?case
      using limited_back [OF step.hyps(2) quota_reachable [OF step.hyps(1)]]
        budget_step [OF step.hyps(2) quota_reachable [OF step.hyps(1)]] by blast
  qed
  then have "qs_db s u d + jm_count (unwritten u d) (qs_reservations s) \<le> L"
    using lim by (simp add: budget_def promised_def)
  moreover have "jm_get (qs_pending s) u = None" if "\<forall>e. jm_count (live u e) (qs_reservations s) = 0"
  proof (rule ccontr)
    assume "jm_get (qs_pending s) u \<noteq> None"
    then obtain p where p: "jm_get (qs_pending s) u = Some p" by blast
    then show False
      using quota_okD(5) [OF ok, of Rules u] quota_okD(5) [OF ok, of Ports u] quota_okD(6) [OF ok p] that
      by (simp add: pending_of_def quota_field_def)
  qed
  ultimately show ?thesis using quota_okD(5) [OF ok] by blast
qed

theorem rule_quota_kept_witness:
  "let s = write_rule 0 True (decide_quota 0 (note_count Ports 0 (note_count Rules 0
         (reserveRuleCreateQuota 5 2 0 (no_quotas (\<lambda>u d. 1))))))
   in qs_db s 5 Rules = 2 \<and> qs_db s 5 Rules + jm_count (unwritten 5 Rules) (qs_reservations s) \<le> 2"
proof -
  define s0 where "s0 = no_quotas (\<lambda>u d. 1)"
  define s where "s = write_rule 0 True (decide_quota 0 (note_count Ports 0 (note_count Rules 0 (reserveRuleCreateQuota 5 2 0 s0))))"
  have run: "quota_step\<^sup>*\<^sup>* s0 s"
    unfolding s_def
    by (meson q_reserve q_count q_decide q_write rtranclp.rtrancl_refl rtranclp.rtrancl_into_rtrancl)
  have start: "reserveRuleCreateQuota 5 2 0 s0 = \<lparr>qs_lock = enter_lock (quota_key 5) no_locks, qs_pending = [],
      qs_reservations = [(0, \<lparr>rv_user = 5, rv_maxRules = 2, rv_maxPorts = 0,
        rv_phase = QCounting \<lparr>qp_rules = 0, qp_ports = 0\<rparr> None None\<rparr>)], qs_releases = [], qs_db = (\<lambda>u d. 1)\<rparr>"
    by (simp add: reserveRuleCreateQuota_def s0_def no_quotas_def quota_limit_def Let_def enter_quota_def no_locks_def
        runs_lock_def enter_lock_def start_quota_def set_reservation_def pending_of_def)
  have res: "qs_reservations s = [(0, \<lparr>rv_user = 5, rv_maxRules = 2, rv_maxPorts = 0, rv_phase = QHeld True\<rparr>)]"
    and db: "qs_db s 5 Rules = 2"
    unfolding s_def start
    by (simp_all add: note_count_def set_reservation_def counted_def rv_limit_def decide_quota_def exceeded_def quota_field_def
        write_rule_def)
  have "limited 5 Rules 2 s" using res by (auto simp: limited_def rv_limit_def intro!: exI [of _ 2] split: if_splits)
  then have "qs_db s 5 Rules + jm_count (unwritten 5 Rules) (qs_reservations s) \<le> 2"
    using rule_quota_kept [of "\<lambda>u d. 1" s 5 Rules 2] run by (simp add: s0_def)
  then show ?thesis using db unfolding s_def s0_def Let_def by simp
qed

end
