(* ===== verification/Task_Dispatcher.thy ===== *)
theory Task_Dispatcher
imports Task_Locks
begin

text \<open>
  The dispatcher of keyed background tasks (\<open>server/keyedTaskDispatcher.ts\<close>): tasks of one key run one after the other,
  and at most \<open>concurrency\<close> tasks run at once.

  A job goes through the awaits of its promise chain: it waits for the job before it with the same key, then for a slot,
  runs, returns, and is settled when the last callback of its chain has run.  A slot that is given back goes to the
  longest waiting job directly.  The tasks themselves are not modelled: a running job may return at any time.
\<close>

section \<open>State and operations\<close>

datatype dispatch_phase = DQueued "nat option" | DSlotWait | DRunning | DReturned | DSettled

record dispatch_job =
  dj_key :: string
  dj_phase :: dispatch_phase

record dispatcher =
  dp_concurrency :: nat
  dp_keyTails :: "(string, nat) jmap"
  dp_slotWaiters :: "nat list"
  dp_idleWaiters :: "nat list"
  dp_activeSlots :: nat
  dp_pendingTasks :: nat
  dp_jobs :: "dispatch_job list"
  dp_woken :: "nat list"

definition new_dispatcher :: "rat \<Rightarrow> dispatcher" where
  "new_dispatcher concurrencyValue =
     \<lparr>dp_concurrency = nat (max 1 \<lfloor>if concurrencyValue = 0 then 1 else concurrencyValue\<rfloor>), dp_keyTails = [], dp_slotWaiters = [],
      dp_idleWaiters = [], dp_activeSlots = 0, dp_pendingTasks = 0, dp_jobs = [], dp_woken = []\<rparr>"

definition dispatch_key :: "jsval \<Rightarrow> string" where
  "dispatch_key v = (let key = lock_key v in if key = [] then ''default'' else key)"

definition upd_job :: "nat \<Rightarrow> dispatch_phase \<Rightarrow> dispatch_job list \<Rightarrow> dispatch_job list" where
  "upd_job n p js = js[n := (js ! n)\<lparr>dj_phase := p\<rparr>]"

definition set_job :: "nat \<Rightarrow> dispatch_phase \<Rightarrow> dispatcher \<Rightarrow> dispatcher" where
  "set_job n p d = d\<lparr>dp_jobs := upd_job n p (dp_jobs d)\<rparr>"

definition enqueue_job :: "string \<Rightarrow> dispatcher \<Rightarrow> dispatcher" where
  "enqueue_job key d =
     d\<lparr>dp_pendingTasks := dp_pendingTasks d + 1,
       dp_jobs := dp_jobs d @ [\<lparr>dj_key = key, dj_phase = DQueued (jm_get (dp_keyTails d) key)\<rparr>],
       dp_keyTails := jm_set key (length (dp_jobs d)) (dp_keyTails d)\<rparr>"

definition dispatcher_enqueue :: "jsval \<Rightarrow> dispatcher \<Rightarrow> dispatcher" where
  "dispatcher_enqueue keyValue d = enqueue_job (dispatch_key keyValue) d"

definition acquireSlot :: "nat \<Rightarrow> dispatcher \<Rightarrow> dispatcher" where
  "acquireSlot n d =
     (if dp_activeSlots d < dp_concurrency d then set_job n DRunning (d\<lparr>dp_activeSlots := dp_activeSlots d + 1\<rparr>)
      else set_job n DSlotWait (d\<lparr>dp_slotWaiters := dp_slotWaiters d @ [n]\<rparr>))"

definition releaseSlot :: "dispatcher \<Rightarrow> dispatcher" where
  "releaseSlot d =
     (case dp_slotWaiters d of
        w # ws \<Rightarrow> set_job w DRunning (d\<lparr>dp_slotWaiters := ws\<rparr>)
      | [] \<Rightarrow> d\<lparr>dp_activeSlots := dp_activeSlots d - 1\<rparr>)"

text \<open>The job before it is settled.\<close>

definition has_turn :: "dispatcher \<Rightarrow> nat \<Rightarrow> bool" where
  "has_turn d n = (n < length (dp_jobs d)
     \<and> (case dj_phase (dp_jobs d ! n) of
          DQueued None \<Rightarrow> True
        | DQueued (Some m) \<Rightarrow> m < length (dp_jobs d) \<and> dj_phase (dp_jobs d ! m) = DSettled
        | _ \<Rightarrow> False))"

definition in_phase :: "dispatch_phase \<Rightarrow> dispatch_job list \<Rightarrow> nat \<Rightarrow> bool" where
  "in_phase p js n = (n < length js \<and> dj_phase (js ! n) = p)"

definition return_job :: "nat \<Rightarrow> dispatcher \<Rightarrow> dispatcher" where
  "return_job n d = releaseSlot (set_job n DReturned d)"

text \<open>The \<open>finally\<close> callback at the end of the chain.\<close>

definition settle_job :: "nat \<Rightarrow> dispatcher \<Rightarrow> dispatcher" where
  "settle_job n d =
     (let key = dj_key (dp_jobs d ! n);
          d1 = (if jm_get (dp_keyTails d) key = Some n then d\<lparr>dp_keyTails := jm_del key (dp_keyTails d)\<rparr> else d);
          d2 = d1\<lparr>dp_pendingTasks := dp_pendingTasks d1 - 1\<rparr>;
          d3 = (if dp_pendingTasks d2 = 0 then d2\<lparr>dp_woken := dp_woken d2 @ dp_idleWaiters d2, dp_idleWaiters := []\<rparr> else d2)
      in set_job n DSettled d3)"

text \<open>The waiter \<open>i\<close> goes on at once when nothing is pending.\<close>

definition waitForIdle :: "nat \<Rightarrow> dispatcher \<Rightarrow> dispatcher" where
  "waitForIdle i d =
     (if dp_pendingTasks d = 0 then d\<lparr>dp_woken := dp_woken d @ [i]\<rparr>
      else d\<lparr>dp_idleWaiters := dp_idleWaiters d @ [i]\<rparr>)"

inductive job_step :: "dispatcher \<Rightarrow> dispatcher \<Rightarrow> bool" where
  job_turn: "has_turn d n \<Longrightarrow> job_step d (acquireSlot n d)"
| job_return: "in_phase DRunning (dp_jobs d) n \<Longrightarrow> job_step d (return_job n d)"
| job_settle: "in_phase DReturned (dp_jobs d) n \<Longrightarrow> job_step d (settle_job n d)"

inductive dispatcher_step :: "dispatcher \<Rightarrow> dispatcher \<Rightarrow> bool" where
  dispatch_enqueue: "dispatcher_step d (dispatcher_enqueue v d)"
| dispatch_wait: "dispatcher_step d (waitForIdle i d)"
| dispatch_job: "job_step d d' \<Longrightarrow> dispatcher_step d d'"

section \<open>Invariant\<close>

definition dj_over :: "dispatch_job \<Rightarrow> bool" where
  "dj_over j = (dj_phase j = DSettled)"

definition dj_awaits :: "dispatch_job \<Rightarrow> nat option" where
  "dj_awaits j = (case dj_phase j of DQueued p \<Rightarrow> p | _ \<Rightarrow> None)"

definition jobs_in :: "(dispatch_phase \<Rightarrow> bool) \<Rightarrow> dispatch_job list \<Rightarrow> nat" where
  "jobs_in P js = length (filter (\<lambda>j. P (dj_phase j)) js)"

definition job_line :: "dispatcher \<Rightarrow> string \<Rightarrow> nat list" where
  "job_line d = chain_line dj_key dj_over (dp_jobs d)"

definition slots_ok :: "dispatcher \<Rightarrow> bool" where
  "slots_ok d = (1 \<le> dp_concurrency d \<and> dp_activeSlots d = jobs_in ((=) DRunning) (dp_jobs d) \<and> dp_activeSlots d \<le> dp_concurrency d
     \<and> (dp_slotWaiters d \<noteq> [] \<longrightarrow> dp_activeSlots d = dp_concurrency d)
     \<and> distinct (dp_slotWaiters d) \<and> (\<forall>n. n \<in> set (dp_slotWaiters d) \<longleftrightarrow> in_phase DSlotWait (dp_jobs d) n))"

definition idle_ok :: "dispatcher \<Rightarrow> bool" where
  "idle_ok d = (dp_pendingTasks d = jobs_in (\<lambda>p. p \<noteq> DSettled) (dp_jobs d) \<and> (dp_pendingTasks d = 0 \<longrightarrow> dp_idleWaiters d = []))"

definition dispatcher_ok :: "dispatcher \<Rightarrow> bool" where
  "dispatcher_ok d = (chain_ok dj_key dj_over dj_awaits (dp_jobs d) (jm_get (dp_keyTails d)) \<and> slots_ok d \<and> idle_ok d)"

lemma length_upd_job [simp]: "length (upd_job n p js) = length js"
  by (simp add: upd_job_def)

lemma jobs_in_upd:
  "n < length js \<Longrightarrow>
   jobs_in P (upd_job n p js) + (if P (dj_phase (js ! n)) then 1 else 0) = jobs_in P js + (if P p then 1 else 0)"
  using length_filter_list_update [of n js "\<lambda>j. P (dj_phase j)" "(js ! n)\<lparr>dj_phase := p\<rparr>"]
  by (simp add: jobs_in_def upd_job_def of_bool_def)

lemma in_phase_upd: "n < length js \<Longrightarrow> in_phase q (upd_job n p js) m \<longleftrightarrow> (if m = n then q = p else in_phase q js m)"
  by (auto simp: in_phase_def upd_job_def nth_list_update)

lemma chain_go_on:
  assumes ok: "chain_ok dj_key dj_over dj_awaits js tail" and n: "n < length js" "\<not> dj_over (js ! n)"
    and free: "chain_free dj_over dj_awaits js n" and p: "p \<noteq> DSettled" "\<And>q. p \<noteq> DQueued q"
  shows "chain_ok dj_key dj_over dj_awaits (upd_job n p js) tail"
  unfolding upd_job_def
  by (rule chain_ok_update [OF ok n(1)]) (use n free p in \<open>auto simp: dj_over_def dj_awaits_def split: dispatch_phase.split\<close>)

lemma started_free: "in_phase p js n \<Longrightarrow> (\<And>q. p \<noteq> DQueued q) \<Longrightarrow> chain_free dj_over dj_awaits js n"
  by (auto simp: in_phase_def chain_free_def dj_awaits_def split: dispatch_phase.split option.split)

lemma turn_free: "has_turn d n \<Longrightarrow> chain_free dj_over dj_awaits (dp_jobs d) n \<and> (\<exists>q. in_phase (DQueued q) (dp_jobs d) n)"
  by (auto simp: has_turn_def chain_free_def in_phase_def dj_awaits_def dj_over_def split: dispatch_phase.splits option.splits)

section \<open>Every step keeps it\<close>

lemma dispatcher_ok_new: "dispatcher_ok (new_dispatcher c)"
proof -
  have "jm_get (dp_keyTails (new_dispatcher c)) = (\<lambda>k. None)" by (simp add: new_dispatcher_def fun_eq_iff)
  then show ?thesis
    by (simp add: dispatcher_ok_def) (simp add: new_dispatcher_def chain_ok_Nil slots_ok_def idle_ok_def jobs_in_def in_phase_def)
qed

lemma enqueue_ok:
  assumes ok: "dispatcher_ok d"
  shows "dispatcher_ok (enqueue_job key d)"
proof -
  let ?d = "enqueue_job key d" and ?j = "\<lparr>dj_key = key, dj_phase = DQueued (jm_get (dp_keyTails d) key)\<rparr>"
  have j: "\<not> dj_over ?j" "dj_awaits ?j = jm_get (dp_keyTails d) (dj_key ?j)" by (simp_all add: dj_over_def dj_awaits_def)
  have t: "jm_get (dp_keyTails ?d) = (jm_get (dp_keyTails d))(dj_key ?j := Some (length (dp_jobs d)))"
    by (auto simp: enqueue_job_def fun_eq_iff)
  have js: "dp_jobs ?d = dp_jobs d @ [?j]" by (simp add: enqueue_job_def)
  have "chain_ok dj_key dj_over dj_awaits (dp_jobs d) (jm_get (dp_keyTails d))" using ok by (simp add: dispatcher_ok_def)
  then have "chain_ok dj_key dj_over dj_awaits (dp_jobs ?d) (jm_get (dp_keyTails ?d))"
    unfolding t js by (rule chain_ok_append [where j = ?j]) (rule j)+
  moreover have "in_phase DSlotWait (dp_jobs ?d) n \<longleftrightarrow> in_phase DSlotWait (dp_jobs d) n" for n
    by (auto simp: in_phase_def js nth_append)
  moreover have "jobs_in P (dp_jobs ?d) = jobs_in P (dp_jobs d) + (if P (DQueued (jm_get (dp_keyTails d) key)) then 1 else 0)" for P
    by (simp add: jobs_in_def js)
  ultimately show ?thesis
    using ok by (simp add: dispatcher_ok_def slots_ok_def idle_ok_def) (auto simp: enqueue_job_def)
qed

lemma wait_ok: "dispatcher_ok d \<Longrightarrow> dispatcher_ok (waitForIdle i d)"
  by (auto simp: dispatcher_ok_def waitForIdle_def slots_ok_def idle_ok_def)

lemma acquire_ok:
  assumes ok: "dispatcher_ok d" and n: "has_turn d n"
  shows "dispatcher_ok (acquireSlot n d)"
proof -
  obtain q where q: "in_phase (DQueued q) (dp_jobs d) n" using turn_free [OF n] by blast
  then have len: "n < length (dp_jobs d)" and ph: "dj_phase (dp_jobs d ! n) = DQueued q" by (simp_all add: in_phase_def)
  have nw: "\<not> in_phase DSlotWait (dp_jobs d) n" using ph by (simp add: in_phase_def)
  have ch: "chain_ok dj_key dj_over dj_awaits (dp_jobs d) (jm_get (dp_keyTails d))" and sl: "slots_ok d" and id: "idle_ok d"
    using ok by (simp_all add: dispatcher_ok_def)
  have chain: "chain_ok dj_key dj_over dj_awaits (upd_job n p (dp_jobs d)) (jm_get (dp_keyTails d))"
    if "p \<noteq> DSettled" "\<And>q. p \<noteq> DQueued q" for p
    using chain_go_on [OF ch len] turn_free [OF n] ph that by (simp add: dj_over_def)
  have pend: "jobs_in (\<lambda>p. p \<noteq> DSettled) (upd_job n p (dp_jobs d)) = jobs_in (\<lambda>p. p \<noteq> DSettled) (dp_jobs d)" if "p \<noteq> DSettled" for p
    using jobs_in_upd [OF len, of "\<lambda>p. p \<noteq> DSettled" p] ph that by simp
  have run: "jobs_in ((=) DRunning) (upd_job n p (dp_jobs d)) = jobs_in ((=) DRunning) (dp_jobs d) + (if DRunning = p then 1 else 0)" for p
    using jobs_in_upd [OF len, of "(=) DRunning" p] ph by simp
  show ?thesis
    using sl id nw chain [of DRunning] chain [of DSlotWait]
    by (auto simp: acquireSlot_def dispatcher_ok_def slots_ok_def idle_ok_def set_job_def pend run in_phase_upd [OF len])
qed

lemma return_ok:
  assumes ok: "dispatcher_ok d" and n: "in_phase DRunning (dp_jobs d) n"
  shows "dispatcher_ok (return_job n d)"
proof -
  have len: "n < length (dp_jobs d)" and ph: "dj_phase (dp_jobs d ! n) = DRunning" using n by (simp_all add: in_phase_def)
  have ch: "chain_ok dj_key dj_over dj_awaits (dp_jobs d) (jm_get (dp_keyTails d))" and sl: "slots_ok d" and id: "idle_ok d"
    using ok by (simp_all add: dispatcher_ok_def)
  define js where "js = upd_job n DReturned (dp_jobs d)"
  have ch1: "chain_ok dj_key dj_over dj_awaits js (jm_get (dp_keyTails d))"
    unfolding js_def by (rule chain_go_on [OF ch len]) (use started_free [OF n] ph in \<open>auto simp: dj_over_def\<close>)
  have run1: "jobs_in ((=) DRunning) js + 1 = dp_activeSlots d"
    using jobs_in_upd [OF len, of "(=) DRunning" DReturned] ph sl by (simp add: js_def slots_ok_def)
  have pend1: "jobs_in (\<lambda>p. p \<noteq> DSettled) js = jobs_in (\<lambda>p. p \<noteq> DSettled) (dp_jobs d)"
    using jobs_in_upd [OF len, of "\<lambda>p. p \<noteq> DSettled" DReturned] ph by (simp add: js_def)
  have wait1: "in_phase DSlotWait js m = in_phase DSlotWait (dp_jobs d) m" for m
    using ph by (auto simp: js_def in_phase_upd [OF len]) (simp add: in_phase_def)
  have d1: "set_job n DReturned d = d\<lparr>dp_jobs := js\<rparr>" by (simp add: set_job_def js_def)
  show ?thesis
  proof (cases "dp_slotWaiters d")
    case Nil
    then show ?thesis
      using ch1 run1 pend1 wait1 sl id
      by (auto simp: return_job_def releaseSlot_def d1 dispatcher_ok_def slots_ok_def idle_ok_def)
  next
    case (Cons w ws)
    then have "in_phase DSlotWait (dp_jobs d) w" using sl by (auto simp: slots_ok_def)
    then have w: "in_phase DSlotWait js w" using wait1 by simp
    then have wl: "w < length js" and pw: "dj_phase (js ! w) = DSlotWait" by (simp_all add: in_phase_def)
    have e: "return_job n d = d\<lparr>dp_jobs := upd_job w DRunning js, dp_slotWaiters := ws\<rparr>"
      using Cons by (cases d) (simp add: return_job_def releaseSlot_def set_job_def js_def)
    have "chain_ok dj_key dj_over dj_awaits (upd_job w DRunning js) (jm_get (dp_keyTails d))"
      by (rule chain_go_on [OF ch1 wl]) (use pw started_free [OF w] in \<open>auto simp: dj_over_def\<close>)
    moreover have "jobs_in ((=) DRunning) (upd_job w DRunning js) = dp_activeSlots d"
      using jobs_in_upd [OF wl, of "(=) DRunning" DRunning] pw run1 by simp
    moreover have "jobs_in (\<lambda>p. p \<noteq> DSettled) (upd_job w DRunning js) = jobs_in (\<lambda>p. p \<noteq> DSettled) (dp_jobs d)"
      using jobs_in_upd [OF wl, of "\<lambda>p. p \<noteq> DSettled" DRunning] pw pend1 by simp
    ultimately show ?thesis
      using sl id Cons unfolding e
      by (auto simp: dispatcher_ok_def slots_ok_def idle_ok_def in_phase_upd [OF wl] wait1)
  qed
qed

lemma settle_parts:
  "dp_jobs (settle_job n d) = upd_job n DSettled (dp_jobs d)"
  "jm_get (dp_keyTails (settle_job n d)) = (if jm_get (dp_keyTails d) (dj_key (dp_jobs d ! n)) = Some n
      then (jm_get (dp_keyTails d))(dj_key (dp_jobs d ! n) := None) else jm_get (dp_keyTails d))"
  "dp_slotWaiters (settle_job n d) = dp_slotWaiters d" "dp_activeSlots (settle_job n d) = dp_activeSlots d"
  "dp_concurrency (settle_job n d) = dp_concurrency d" "dp_pendingTasks (settle_job n d) = dp_pendingTasks d - 1"
  "dp_idleWaiters (settle_job n d) = (if dp_pendingTasks d - 1 = 0 then [] else dp_idleWaiters d)"
  by (auto simp: settle_job_def Let_def set_job_def fun_eq_iff)

lemma settle_ok:
  assumes ok: "dispatcher_ok d" and n: "in_phase DReturned (dp_jobs d) n"
  shows "dispatcher_ok (settle_job n d)"
proof -
  have len: "n < length (dp_jobs d)" and ph: "dj_phase (dp_jobs d ! n) = DReturned" using n by (simp_all add: in_phase_def)
  have ch: "chain_ok dj_key dj_over dj_awaits (dp_jobs d) (jm_get (dp_keyTails d))" and sl: "slots_ok d" and id: "idle_ok d"
    using ok by (simp_all add: dispatcher_ok_def)
  let ?j = "(dp_jobs d ! n)\<lparr>dj_phase := DSettled\<rparr>"
  have j: "dj_key ?j = dj_key (dp_jobs d ! n)" "dj_over ?j" and nov: "\<not> dj_over (dp_jobs d ! n)" using ph by (simp_all add: dj_over_def)
  have "chain_ok dj_key dj_over dj_awaits (dp_jobs (settle_job n d)) (jm_get (dp_keyTails (settle_job n d)))"
    using chain_ok_over [OF ch len nov started_free [OF n] j, unfolded j(1)] unfolding settle_parts upd_job_def by simp
  moreover have "jobs_in (\<lambda>p. p \<noteq> DSettled) (upd_job n DSettled (dp_jobs d)) = jobs_in (\<lambda>p. p \<noteq> DSettled) (dp_jobs d) - 1"
    using jobs_in_upd [OF len, of "\<lambda>p. p \<noteq> DSettled" DSettled] ph by simp
  moreover have "jobs_in ((=) DRunning) (upd_job n DSettled (dp_jobs d)) = jobs_in ((=) DRunning) (dp_jobs d)"
    using jobs_in_upd [OF len, of "(=) DRunning" DSettled] ph by simp
  moreover have "in_phase DSlotWait (upd_job n DSettled (dp_jobs d)) m = in_phase DSlotWait (dp_jobs d) m" for m
    using ph by (auto simp: in_phase_upd [OF len]) (simp add: in_phase_def)
  ultimately show ?thesis
    using sl id by (auto simp: dispatcher_ok_def slots_ok_def idle_ok_def settle_parts)
qed

lemma job_step_ok: "job_step d d' \<Longrightarrow> dispatcher_ok d \<Longrightarrow> dispatcher_ok d'"
  by (induction rule: job_step.induct) (simp_all add: acquire_ok return_ok settle_ok)

lemma dispatcher_step_ok: "dispatcher_step d d' \<Longrightarrow> dispatcher_ok d \<Longrightarrow> dispatcher_ok d'"
  by (induction rule: dispatcher_step.induct) (simp_all add: dispatcher_enqueue_def enqueue_ok wait_ok job_step_ok)

lemma dispatcher_reachable: "dispatcher_step\<^sup>*\<^sup>* (new_dispatcher c) d \<Longrightarrow> dispatcher_ok d"
  by (induction rule: rtranclp_induct) (simp_all add: dispatcher_ok_new dispatcher_step_ok)

section \<open>The dispatcher is a lock per key\<close>

definition started :: "dispatcher \<Rightarrow> nat \<Rightarrow> bool" where
  "started d n = (n < length (dp_jobs d) \<and> (case dj_phase (dp_jobs d ! n) of DQueued p \<Rightarrow> False | DSettled \<Rightarrow> False | _ \<Rightarrow> True))"

lemma in_job_line: "n \<in> set (job_line d k) \<longleftrightarrow> n < length (dp_jobs d) \<and> dj_key (dp_jobs d ! n) = k \<and> dj_phase (dp_jobs d ! n) \<noteq> DSettled"
  by (simp add: job_line_def in_chain_line dj_over_def)

lemma started_first:
  assumes ok: "dispatcher_ok d" and n: "n \<in> set (job_line d k)" and s: "started d n \<or> has_turn d n"
  shows "hd (job_line d k) = n"
proof -
  have "chain_free dj_over dj_awaits (dp_jobs d) n"
    using s
  proof
    assume "started d n"
    then show ?thesis by (auto simp: started_def chain_free_def dj_awaits_def split: dispatch_phase.splits)
  qed (simp add: turn_free)
  then show ?thesis
    using chain_free_first [of dj_key dj_over dj_awaits "dp_jobs d"] ok n by (fastforce simp: dispatcher_ok_def job_line_def)
qed

lemma line_first_goes_on:
  assumes ok: "dispatcher_ok d" and ne: "job_line d k \<noteq> []"
  shows "started d (hd (job_line d k)) \<or> has_turn d (hd (job_line d k))"
proof -
  have "chain_free dj_over dj_awaits (dp_jobs d) (hd (job_line d k))"
    using chain_okD(2) [of dj_key dj_over dj_awaits "dp_jobs d" "jm_get (dp_keyTails d)" k] ok ne
    by (simp add: dispatcher_ok_def job_line_def)
  then show ?thesis
    using hd_in_set [OF ne]
    by (auto simp: in_job_line started_def has_turn_def chain_free_def dj_awaits_def dj_over_def split: dispatch_phase.splits option.splits)
qed

lemma job_line_upd:
  "n < length (dp_jobs d) \<Longrightarrow> dj_phase (dp_jobs d ! n) \<noteq> DSettled \<Longrightarrow> p \<noteq> DSettled \<Longrightarrow>
   chain_line dj_key dj_over (upd_job n p (dp_jobs d)) k = job_line d k"
  by (simp add: job_line_def upd_job_def chain_line_update dj_over_def)

lemma job_line_acquire: "has_turn d n \<Longrightarrow> job_line (acquireSlot n d) = job_line d"
  using job_line_upd [of n d DRunning] job_line_upd [of n d DSlotWait]
  by (auto simp: fun_eq_iff has_turn_def job_line_def acquireSlot_def set_job_def split: dispatch_phase.splits)

lemma job_line_settle: "in_phase DReturned (dp_jobs d) n \<Longrightarrow> job_line (settle_job n d) k = removeAll n (job_line d k)"
  by (simp add: job_line_def settle_parts upd_job_def in_phase_def chain_line_over dj_over_def)

lemma job_line_enqueue:
  "job_line (enqueue_job key d) k = (if k = key then job_line d k @ [length (dp_jobs d)] else job_line d k)"
  using chain_line_append [of dj_over "\<lparr>dj_key = key, dj_phase = DQueued (jm_get (dp_keyTails d) key)\<rparr>" dj_key "dp_jobs d" k]
  by (simp add: job_line_def enqueue_job_def dj_over_def)

interpretation dispatching: fifo_lock dispatcher_ok job_line "\<lambda>d. length (dp_jobs d)" started has_turn
    "\<lambda>d. in_phase DReturned (dp_jobs d)" enqueue_job acquireSlot settle_job
proof
  show "in_phase DReturned (dp_jobs d) n \<Longrightarrow> started d n" for d n by (simp add: in_phase_def started_def)
  show "distinct (job_line d k)" for d k by (simp add: job_line_def)
qed (auto simp: enqueue_ok acquire_ok settle_ok job_line_enqueue job_line_acquire job_line_settle in_job_line line_first_goes_on
      intro: started_first)

lemma job_line_return:
  assumes ok: "dispatcher_ok d" and n: "in_phase DRunning (dp_jobs d) n"
  shows "job_line (return_job n d) = job_line d"
proof -
  have len: "n < length (dp_jobs d)" and ph: "dj_phase (dp_jobs d ! n) = DRunning" using n by (simp_all add: in_phase_def)
  have l1: "chain_line dj_key dj_over (upd_job n DReturned (dp_jobs d)) k = job_line d k" for k
    by (rule job_line_upd) (simp_all add: len ph)
  show ?thesis
  proof (cases "dp_slotWaiters d")
    case Nil
    then show ?thesis using l1 by (simp add: fun_eq_iff return_job_def releaseSlot_def set_job_def) (simp add: job_line_def)
  next
    case (Cons w ws)
    then have "in_phase DSlotWait (dp_jobs d) w" using ok by (auto simp: dispatcher_ok_def slots_ok_def)
    then have w: "in_phase DSlotWait (upd_job n DReturned (dp_jobs d)) w" using ph by (auto simp: in_phase_upd [OF len]) (simp add: in_phase_def)
    have "chain_line dj_key dj_over (upd_job w DRunning (upd_job n DReturned (dp_jobs d))) k = job_line d k" for k
      unfolding l1 [symmetric] using w by (simp add: upd_job_def [of w] in_phase_def chain_line_update dj_over_def)
    then show ?thesis using Cons by (simp add: fun_eq_iff return_job_def releaseSlot_def set_job_def job_line_def)
  qed
qed

section \<open>Work runs out\<close>

fun dispatch_rank :: "dispatch_phase \<Rightarrow> nat" where
  "dispatch_rank (DQueued p) = 4"
| "dispatch_rank DSlotWait = 3"
| "dispatch_rank DRunning = 2"
| "dispatch_rank DReturned = 1"
| "dispatch_rank DSettled = 0"

definition work_left :: "dispatcher \<Rightarrow> nat" where
  "work_left d = (\<Sum>j \<leftarrow> dp_jobs d. dispatch_rank (dj_phase j))"

lemma sum_list_upd: "n < length js \<Longrightarrow>
   (\<Sum>j \<leftarrow> upd_job n p js. dispatch_rank (dj_phase j)) + dispatch_rank (dj_phase (js ! n))
   = (\<Sum>j \<leftarrow> js. dispatch_rank (dj_phase j)) + dispatch_rank p"
proof (induction js arbitrary: n)
  case (Cons j js)
  then show ?case by (cases n) (auto simp: upd_job_def)
qed simp

lemma work_decreases:
  assumes "job_step d d'" "dispatcher_ok d"
  shows "work_left d' < work_left d"
  using assms
proof (induction rule: job_step.induct)
  case (job_turn d n)
  obtain q where "in_phase (DQueued q) (dp_jobs d) n" using turn_free [OF job_turn.hyps] by blast
  then show ?case
    using sum_list_upd [of n "dp_jobs d" DRunning] sum_list_upd [of n "dp_jobs d" DSlotWait]
    by (auto simp: in_phase_def acquireSlot_def work_left_def set_job_def)
next
  case (job_return d n)
  have len: "n < length (dp_jobs d)" and ph: "dj_phase (dp_jobs d ! n) = DRunning" using job_return.hyps by (simp_all add: in_phase_def)
  have less: "(\<Sum>j \<leftarrow> upd_job n DReturned (dp_jobs d). dispatch_rank (dj_phase j)) < work_left d"
    using sum_list_upd [OF len, of DReturned] ph by (simp add: work_left_def)
  show ?case
  proof (cases "dp_slotWaiters d")
    case Nil
    then show ?thesis using less by (simp add: return_job_def releaseSlot_def set_job_def) (simp add: work_left_def)
  next
    case (Cons w ws)
    then have "in_phase DSlotWait (dp_jobs d) w" using job_return.prems by (auto simp: dispatcher_ok_def slots_ok_def)
    then have "in_phase DSlotWait (upd_job n DReturned (dp_jobs d)) w" using ph by (auto simp: in_phase_upd [OF len]) (simp add: in_phase_def)
    then show ?thesis
      using less Cons sum_list_upd [of w "upd_job n DReturned (dp_jobs d)" DRunning]
      by (simp add: in_phase_def return_job_def releaseSlot_def set_job_def) (simp add: work_left_def)
  qed
next
  case (job_settle d n)
  then show ?case using sum_list_upd [of n "dp_jobs d" DSettled] by (simp add: in_phase_def work_left_def settle_parts)
qed

lemma pending_goes_on:
  assumes ok: "dispatcher_ok d" and p: "0 < dp_pendingTasks d"
  shows "\<exists>d'. job_step d d'"
proof -
  have sl: "slots_ok d" using ok by (simp add: dispatcher_ok_def)
  have "0 < jobs_in (\<lambda>p. p \<noteq> DSettled) (dp_jobs d)" using ok p by (simp add: dispatcher_ok_def idle_ok_def)
  then obtain j where "j \<in> set (dp_jobs d)" "dj_phase j \<noteq> DSettled" by (auto simp: jobs_in_def filter_empty_conv)
  then obtain n where n: "n \<in> set (job_line d (dj_key j))" by (metis in_job_line in_set_conv_nth)
  define m where "m = hd (job_line d (dj_key j))"
  have ne: "job_line d (dj_key j) \<noteq> []" using n by auto
  consider "has_turn d m" | "started d m" using line_first_goes_on [OF ok ne] by (auto simp: m_def)
  then show ?thesis
  proof cases
    case 1
    then show ?thesis by (blast intro: job_step.intros)
  next
    case 2
    show ?thesis
    proof (cases "in_phase DSlotWait (dp_jobs d) m")
      case True
      then have "dp_slotWaiters d \<noteq> []" using sl by (auto simp: slots_ok_def)
      then have "0 < jobs_in ((=) DRunning) (dp_jobs d)" using sl by (auto simp: slots_ok_def)
      then obtain r where "r \<in> set (dp_jobs d)" "dj_phase r = DRunning" by (auto simp: jobs_in_def filter_empty_conv)
      then have "\<exists>i. in_phase DRunning (dp_jobs d) i" by (metis in_phase_def in_set_conv_nth)
      then show ?thesis by (blast intro: job_step.intros)
    next
      case False
      then have "in_phase DRunning (dp_jobs d) m \<or> in_phase DReturned (dp_jobs d) m"
        using 2 by (auto simp: started_def in_phase_def split: dispatch_phase.splits)
      then show ?thesis by (blast intro: job_step.intros)
    qed
  qed
qed

text \<open>
  C29. The dispatcher keeps its bound and its order.  In every reachable state at most \<open>concurrency\<close> jobs run, a job waits for
  a slot only when all slots are taken, of the jobs of a key that are not settled only the oldest has started, and the
  steps of jobs keep the line of every key except that a settled job leaves its line.
\<close>

theorem dispatcher_bounded_fifo:
  assumes "dispatcher_step\<^sup>*\<^sup>* (new_dispatcher c) d"
  shows "dp_activeSlots d = jobs_in ((=) DRunning) (dp_jobs d) \<and> dp_activeSlots d \<le> dp_concurrency d
    \<and> (\<forall>n. in_phase DSlotWait (dp_jobs d) n \<longrightarrow> dp_activeSlots d = dp_concurrency d)
    \<and> (\<forall>k n. n \<in> set (job_line d k) \<and> started d n \<longrightarrow> n = hd (job_line d k))
    \<and> (\<forall>v. job_line (dispatcher_enqueue v d) = (job_line d)(dispatch_key v := job_line d (dispatch_key v) @ [length (dp_jobs d)]))
    \<and> (\<forall>n. has_turn d n \<longrightarrow> job_line (acquireSlot n d) = job_line d)
    \<and> (\<forall>n. in_phase DRunning (dp_jobs d) n \<longrightarrow> job_line (return_job n d) = job_line d)
    \<and> (\<forall>n k. in_phase DReturned (dp_jobs d) n \<longrightarrow> job_line (settle_job n d) k = removeAll n (job_line d k))"
proof (intro conjI allI impI)
  have ok: "dispatcher_ok d" by (rule dispatcher_reachable [OF assms])
  show "dp_activeSlots d = jobs_in ((=) DRunning) (dp_jobs d)" "dp_activeSlots d \<le> dp_concurrency d"
    using ok by (simp_all add: dispatcher_ok_def slots_ok_def)
  show "dp_activeSlots d = dp_concurrency d" if "in_phase DSlotWait (dp_jobs d) n" for n
    using ok that by (force simp: dispatcher_ok_def slots_ok_def)
  show "n = hd (job_line d k)" if "n \<in> set (job_line d k) \<and> started d n" for k n
    using dispatching.runs_first [OF ok] that by metis
  show "job_line (dispatcher_enqueue v d) = (job_line d)(dispatch_key v := job_line d (dispatch_key v) @ [length (dp_jobs d)])" for v
    by (simp add: fun_eq_iff dispatcher_enqueue_def job_line_enqueue)
  show "job_line (acquireSlot n d) = job_line d" if "has_turn d n" for n using job_line_acquire that .
  show "job_line (return_job n d) = job_line d" if "in_phase DRunning (dp_jobs d) n" for n using job_line_return [OF ok that] .
  show "job_line (settle_job n d) k = removeAll n (job_line d k)" if "in_phase DReturned (dp_jobs d) n" for n k
    using job_line_settle that .
qed

lemma dispatch_default: "dispatch_key JUndef = ''default''"
  by (simp add: dispatch_key_def lock_key_def js_or_def js_trim_def)

theorem dispatcher_bounded_fifo_witness:
  "let d = acquireSlot 0 (dispatcher_enqueue JUndef (dispatcher_enqueue JUndef (new_dispatcher 1))) in
   dp_activeSlots d = 1 \<and> dp_activeSlots d = jobs_in ((=) DRunning) (dp_jobs d) \<and> job_line d ''default'' = [0, 1]"
proof -
  define d0 where "d0 = dispatcher_enqueue JUndef (dispatcher_enqueue JUndef (new_dispatcher 1))"
  have d0: "d0 = \<lparr>dp_concurrency = 1, dp_keyTails = [(''default'', 1)], dp_slotWaiters = [], dp_idleWaiters = [], dp_activeSlots = 0,
      dp_pendingTasks = 2, dp_jobs = [\<lparr>dj_key = ''default'', dj_phase = DQueued None\<rparr>, \<lparr>dj_key = ''default'', dj_phase = DQueued (Some 0)\<rparr>],
      dp_woken = []\<rparr>"
    by (simp add: d0_def dispatcher_enqueue_def enqueue_job_def new_dispatcher_def dispatch_default)
  have turn: "has_turn d0 0" by (simp add: has_turn_def d0)
  have "dispatcher_step\<^sup>*\<^sup>* (new_dispatcher 1) d0" unfolding d0_def
    by (meson dispatch_enqueue rtranclp.rtrancl_refl rtranclp.rtrancl_into_rtrancl)
  then have run: "dispatcher_step\<^sup>*\<^sup>* (new_dispatcher 1) (acquireSlot 0 d0)"
    by (rule rtranclp.rtrancl_into_rtrancl) (intro dispatch_job job_turn turn)
  have "job_line d0 ''default'' = [0, 1]" by (simp add: job_line_def chain_line_def dj_over_def d0 upt_rec)
  then have "job_line (acquireSlot 0 d0) ''default'' = [0, 1]" using job_line_acquire [OF turn] by simp
  moreover have "dp_activeSlots (acquireSlot 0 d0) = 1" by (simp add: acquireSlot_def d0 set_job_def)
  ultimately show ?thesis using dispatcher_bounded_fifo [OF run] unfolding d0_def Let_def by blast
qed

text \<open>
  Every enqueued job gets to its end and every idle waiter is woken.  The pending count is the number of jobs that
  are not settled; while it is positive some job can take a step, every step of a job lowers the work that is left, and
  when it is zero nobody waits for idleness any more: without new jobs the dispatcher becomes idle after at most
  \<open>work_left\<close> steps of its jobs, in whatever order they happen.
\<close>

theorem dispatcher_drains:
  assumes "dispatcher_step\<^sup>*\<^sup>* (new_dispatcher c) d"
  shows "dp_pendingTasks d = jobs_in (\<lambda>p. p \<noteq> DSettled) (dp_jobs d)
    \<and> (0 < dp_pendingTasks d \<longrightarrow> (\<exists>d'. job_step d d'))
    \<and> (\<forall>d'. job_step d d' \<longrightarrow> work_left d' < work_left d)
    \<and> (dp_pendingTasks d = 0 \<longrightarrow> dp_idleWaiters d = [])
    \<and> work_left d \<le> 4 * dp_pendingTasks d"
proof (intro conjI allI impI)
  have ok: "dispatcher_ok d" by (rule dispatcher_reachable [OF assms])
  then have id: "idle_ok d" by (simp add: dispatcher_ok_def)
  then show pend: "dp_pendingTasks d = jobs_in (\<lambda>p. p \<noteq> DSettled) (dp_jobs d)" by (simp add: idle_ok_def)
  show "\<exists>d'. job_step d d'" if "0 < dp_pendingTasks d" using pending_goes_on [OF ok that] .
  show "work_left d' < work_left d" if "job_step d d'" for d' using work_decreases [OF that ok] .
  show "dp_idleWaiters d = []" if "dp_pendingTasks d = 0" using id that by (simp add: idle_ok_def)
  have "(\<Sum>j \<leftarrow> js. dispatch_rank (dj_phase j)) \<le> 4 * jobs_in (\<lambda>p. p \<noteq> DSettled) js" for js
  proof (induction js)
    case (Cons j js)
    then show ?case by (cases "dj_phase j") (simp_all add: jobs_in_def)
  qed (simp add: jobs_in_def)
  then show "work_left d \<le> 4 * dp_pendingTasks d" unfolding pend work_left_def .
qed

theorem dispatcher_drains_witness:
  "let d = dispatcher_enqueue JUndef (new_dispatcher 1) in dp_pendingTasks d = 1 \<and> (\<exists>d'. job_step d d' \<and> work_left d' < work_left d)"
proof -
  have run: "dispatcher_step\<^sup>*\<^sup>* (new_dispatcher 1) (dispatcher_enqueue JUndef (new_dispatcher 1))"
    by (rule r_into_rtranclp) (rule dispatch_enqueue)
  have "dp_pendingTasks (dispatcher_enqueue JUndef (new_dispatcher 1)) = 1"
    by (simp add: dispatcher_enqueue_def enqueue_job_def new_dispatcher_def)
  then show ?thesis using dispatcher_drains [OF run] unfolding Let_def by (metis zero_less_one)
qed

end
