(* ===== verification/Work_Pools.thy ===== *)
theory Work_Pools
imports FX_Prelude
begin

text \<open>
  Two bounds on concurrent work: the pool of interactive requests (\<open>server/requestWorkPool.ts\<close>), which also bounds the
  work that waits, and \<open>mapWithConcurrency\<close> (\<open>server/asyncPool.ts\<close>).

  A call of the pool and an item of the map are named by their position.  What a load or a mapper does between its
  call and its end is up to the environment: a call in progress may end at any time, a waiting call may time out at
  any time.
\<close>

section \<open>The request pool\<close>

datatype call_phase = Call_Queued | Call_Loading | Call_Ended | Call_Busy

record request_pool =
  wp_concurrency :: nat
  wp_maxQueued :: nat
  wp_active :: nat
  wp_queue :: "nat list"
  wp_calls :: "call_phase list"

definition createRequestWorkPool :: "nat \<Rightarrow> nat \<Rightarrow> request_pool" where
  "createRequestWorkPool concurrency maxQueued =
     \<lparr>wp_concurrency = concurrency, wp_maxQueued = maxQueued, wp_active = 0, wp_queue = [], wp_calls = []\<rparr>"

text \<open>The call up to its first await.\<close>

definition pool_run :: "request_pool \<Rightarrow> request_pool" where
  "pool_run p =
     (if wp_concurrency p \<le> wp_active p
      then (if wp_maxQueued p \<le> length (wp_queue p) then p\<lparr>wp_calls := wp_calls p @ [Call_Busy]\<rparr>
            else p\<lparr>wp_queue := wp_queue p @ [length (wp_calls p)], wp_calls := wp_calls p @ [Call_Queued]\<rparr>)
      else p\<lparr>wp_active := wp_active p + 1, wp_calls := wp_calls p @ [Call_Loading]\<rparr>)"

text \<open>The timer of a waiting call; \<open>start\<close> clears it.\<close>

definition pool_timeout :: "nat \<Rightarrow> request_pool \<Rightarrow> request_pool" where
  "pool_timeout n p = p\<lparr>wp_queue := removeAll n (wp_queue p), wp_calls := (wp_calls p)[n := Call_Busy]\<rparr>"

definition pool_start :: "nat \<Rightarrow> request_pool \<Rightarrow> request_pool" where
  "pool_start n p = p\<lparr>wp_active := wp_active p + 1, wp_calls := (wp_calls p)[n := Call_Loading]\<rparr>"

text \<open>The \<open>finally\<close> block after a load, whether it succeeded or not.\<close>

definition pool_end :: "nat \<Rightarrow> request_pool \<Rightarrow> request_pool" where
  "pool_end n p =
     (let p1 = p\<lparr>wp_active := wp_active p - 1, wp_calls := (wp_calls p)[n := Call_Ended]\<rparr> in
      case wp_queue p1 of [] \<Rightarrow> p1 | w # ws \<Rightarrow> pool_start w (p1\<lparr>wp_queue := ws\<rparr>))"

definition pool_stats :: "request_pool \<Rightarrow> nat \<times> nat" where
  "pool_stats p = (wp_active p, length (wp_queue p))"

definition call_is :: "call_phase \<Rightarrow> call_phase list \<Rightarrow> nat \<Rightarrow> bool" where
  "call_is ph calls n = (n < length calls \<and> calls ! n = ph)"

inductive pool_step :: "request_pool \<Rightarrow> request_pool \<Rightarrow> bool" where
  pool_call: "pool_step p (pool_run p)"
| pool_late: "n \<in> set (wp_queue p) \<Longrightarrow> pool_step p (pool_timeout n p)"
| pool_done: "call_is Call_Loading (wp_calls p) n \<Longrightarrow> pool_step p (pool_end n p)"

definition pool_ok :: "request_pool \<Rightarrow> bool" where
  "pool_ok p = (wp_active p = length (filter ((=) Call_Loading) (wp_calls p)) \<and> wp_active p \<le> wp_concurrency p
     \<and> length (wp_queue p) \<le> wp_maxQueued p \<and> (wp_queue p \<noteq> [] \<longrightarrow> wp_active p = wp_concurrency p)
     \<and> sorted (wp_queue p) \<and> distinct (wp_queue p) \<and> (\<forall>n. n \<in> set (wp_queue p) \<longleftrightarrow> call_is Call_Queued (wp_calls p) n))"

lemma pool_okD:
  assumes "pool_ok p"
  shows "wp_active p = length (filter ((=) Call_Loading) (wp_calls p))" "wp_active p \<le> wp_concurrency p"
    "length (wp_queue p) \<le> wp_maxQueued p" "wp_queue p \<noteq> [] \<Longrightarrow> wp_active p = wp_concurrency p"
    "sorted (wp_queue p)" "distinct (wp_queue p)" "n \<in> set (wp_queue p) \<longleftrightarrow> call_is Call_Queued (wp_calls p) n"
  using assms unfolding pool_ok_def by blast+

lemma pool_ok_run:
  assumes ok: "pool_ok p"
  shows "pool_ok (pool_run p)"
proof -
  have lt: "m < length (wp_calls p)" if "m \<in> set (wp_queue p)" for m
    using pool_okD(7) [OF ok] that by (simp add: call_is_def)
  have new: "call_is Call_Queued (wp_calls p @ [ph]) m \<longleftrightarrow> call_is Call_Queued (wp_calls p) m \<or> m = length (wp_calls p) \<and> ph = Call_Queued" for ph m
    by (auto simp: call_is_def nth_append)
  consider (run) "wp_active p < wp_concurrency p" | (busy) "wp_active p = wp_concurrency p" "length (wp_queue p) = wp_maxQueued p"
    | (queue) "wp_active p = wp_concurrency p" "length (wp_queue p) < wp_maxQueued p"
    using pool_okD(2,3) [OF ok] by linarith
  then show ?thesis
  proof cases
    case run
    then have q: "wp_queue p = []" using pool_okD(4) [OF ok] by fastforce
    have "pool_run p = p\<lparr>wp_queue := wp_queue p, wp_active := wp_active p + 1, wp_calls := wp_calls p @ [Call_Loading]\<rparr>"
      using run by (simp add: pool_run_def)
    then show ?thesis using ok run q by (simp add: pool_ok_def new)
  next
    case busy
    have "pool_run p = p\<lparr>wp_queue := wp_queue p, wp_active := wp_active p, wp_calls := wp_calls p @ [Call_Busy]\<rparr>"
      using busy by (simp add: pool_run_def)
    then show ?thesis using ok unfolding pool_ok_def by (auto simp: new)
  next
    case queue
    have "pool_run p = p\<lparr>wp_queue := wp_queue p @ [length (wp_calls p)], wp_active := wp_active p, wp_calls := wp_calls p @ [Call_Queued]\<rparr>"
      using queue by (simp add: pool_run_def)
    then show ?thesis using ok queue lt by (auto simp: pool_ok_def new sorted_append less_imp_le)
  qed
qed

lemma pool_ok_timeout:
  assumes ok: "pool_ok p" and n: "n \<in> set (wp_queue p)"
  shows "pool_ok (pool_timeout n p)"
proof -
  have q: "n < length (wp_calls p)" "wp_calls p ! n = Call_Queued" using ok n by (auto simp: pool_ok_def call_is_def)
  have "length (filter ((=) Call_Loading) ((wp_calls p)[n := Call_Busy])) = length (filter ((=) Call_Loading) (wp_calls p))"
    using length_filter_list_update [OF q(1), of "(=) Call_Loading" Call_Busy] q by simp
  moreover have "length (removeAll n (wp_queue p)) \<le> wp_maxQueued p" "sorted (removeAll n (wp_queue p))"
    using ok le_trans [OF length_filter_le] by (auto simp: pool_ok_def removeAll_filter_not_eq sorted_wrt_filter)
  moreover have "call_is Call_Queued (wp_calls (pool_timeout n p)) m \<longleftrightarrow> m \<noteq> n \<and> call_is Call_Queued (wp_calls p) m" for m
    using q by (auto simp: call_is_def pool_timeout_def nth_list_update)
  ultimately show ?thesis
    using ok n unfolding pool_ok_def by (auto simp: pool_timeout_def distinct_removeAll)
qed

lemma pool_ok_end:
  assumes ok: "pool_ok p" and n: "call_is Call_Loading (wp_calls p) n"
  shows "pool_ok (pool_end n p)"
proof -
  have q: "n < length (wp_calls p)" "wp_calls p ! n = Call_Loading" using n by (simp_all add: call_is_def)
  have one: "length (filter ((=) Call_Loading) ((wp_calls p)[n := Call_Ended])) + 1 = wp_active p"
    using length_filter_list_update [OF q(1), of "(=) Call_Loading" Call_Ended] q ok by (simp add: pool_ok_def)
  show ?thesis
  proof (cases "wp_queue p")
    case Nil
    have "call_is Call_Queued (wp_calls (pool_end n p)) m \<longleftrightarrow> call_is Call_Queued (wp_calls p) m" for m
      using q Nil by (auto simp: pool_end_def call_is_def nth_list_update)
    then show ?thesis using ok one Nil unfolding pool_ok_def by (auto simp: pool_end_def)
  next
    case (Cons w ws)
    have "call_is Call_Queued (wp_calls p) w" using pool_okD(7) [OF ok, of w] Cons by simp
    then have w: "w < length (wp_calls p)" "wp_calls p ! w = Call_Queued" "w \<noteq> n" using q by (auto simp: call_is_def)
    have e: "pool_end n p = p\<lparr>wp_active := wp_active p - 1 + 1, wp_queue := ws, wp_calls := (wp_calls p)[n := Call_Ended, w := Call_Loading]\<rparr>"
      using Cons by (cases p) (simp add: pool_end_def pool_start_def)
    have "length (filter ((=) Call_Loading) ((wp_calls p)[n := Call_Ended, w := Call_Loading])) = wp_active p"
      using length_filter_list_update [of w "(wp_calls p)[n := Call_Ended]" "(=) Call_Loading" Call_Loading] w one by simp
    moreover have "call_is Call_Queued (wp_calls (pool_end n p)) m \<longleftrightarrow> m \<noteq> w \<and> call_is Call_Queued (wp_calls p) m" for m
      using q w unfolding e by (auto simp: call_is_def nth_list_update)
    ultimately show ?thesis
      using ok one Cons unfolding pool_ok_def e by auto
  qed
qed

lemma pool_reachable: "pool_step\<^sup>*\<^sup>* (createRequestWorkPool c m) p \<Longrightarrow> pool_ok p"
proof (induction rule: rtranclp_induct)
  case base
  show ?case by (simp add: pool_ok_def createRequestWorkPool_def call_is_def)
next
  case (step p p')
  from step.hyps(2) step.IH show ?case by (cases) (simp_all add: pool_ok_run pool_ok_timeout pool_ok_end)
qed

text \<open>
  The pool bounds what runs and what waits.  In every reachable state the active count is the number of calls that
  are loading and at most the concurrency, at most \<open>maxQueued\<close> calls wait and only while every slot is taken; a new call
  is turned away exactly when both are full; the end of a load starts the oldest waiting call; a time-out turns
  away only the waiting call and never frees the slot of a load.
\<close>

theorem request_pool_bounds:
  assumes "pool_step\<^sup>*\<^sup>* (createRequestWorkPool concurrency maxQueued) p"
  shows "wp_active p = length (filter ((=) Call_Loading) (wp_calls p)) \<and> wp_active p \<le> wp_concurrency p
    \<and> length (wp_queue p) \<le> wp_maxQueued p \<and> (wp_queue p \<noteq> [] \<longrightarrow> wp_active p = wp_concurrency p)
    \<and> (call_is Call_Busy (wp_calls (pool_run p)) (length (wp_calls p)) \<longleftrightarrow>
         wp_active p = wp_concurrency p \<and> length (wp_queue p) = wp_maxQueued p)
    \<and> (\<forall>n w ws. call_is Call_Loading (wp_calls p) n \<and> wp_queue p = w # ws \<longrightarrow>
         call_is Call_Loading (wp_calls (pool_end n p)) w \<and> (\<forall>v \<in> set ws. w < v) \<and> wp_active (pool_end n p) = wp_active p)
    \<and> (\<forall>n \<in> set (wp_queue p). \<forall>m. wp_active (pool_timeout n p) = wp_active p
         \<and> (call_is Call_Loading (wp_calls (pool_timeout n p)) m \<longleftrightarrow> call_is Call_Loading (wp_calls p) m))"
proof (intro conjI allI impI ballI)
  have ok: "pool_ok p" by (rule pool_reachable [OF assms])
  show "wp_active p = length (filter ((=) Call_Loading) (wp_calls p))" "wp_active p \<le> wp_concurrency p"
    "length (wp_queue p) \<le> wp_maxQueued p"
    using ok by (simp_all add: pool_ok_def)
  show "wp_active p = wp_concurrency p" if "wp_queue p \<noteq> []"
    using ok that by (simp_all add: pool_ok_def)
  show "call_is Call_Busy (wp_calls (pool_run p)) (length (wp_calls p)) \<longleftrightarrow> wp_active p = wp_concurrency p \<and> length (wp_queue p) = wp_maxQueued p"
    using pool_okD(2,3) [OF ok] by (auto simp: pool_run_def call_is_def)
  show "w < v" if "call_is Call_Loading (wp_calls p) n \<and> wp_queue p = w # ws" "v \<in> set ws" for n w ws v
    using pool_okD(5,6) [OF ok] that by (auto simp: order.strict_iff_order)
  show "call_is Call_Loading (wp_calls (pool_end n p)) w" "wp_active (pool_end n p) = wp_active p"
    if "call_is Call_Loading (wp_calls p) n \<and> wp_queue p = w # ws" for n w ws
  proof -
    have "w < length (wp_calls p)" using pool_okD(7) [OF ok, of w] that by (simp add: call_is_def)
    then show "call_is Call_Loading (wp_calls (pool_end n p)) w" using that by (simp add: pool_end_def pool_start_def call_is_def)
    have "Call_Loading \<in> set (wp_calls p)" using that by (auto simp: call_is_def in_set_conv_nth)
    then have "0 < wp_active p" using pool_okD(1) [OF ok] by (auto simp: filter_empty_conv)
    then show "wp_active (pool_end n p) = wp_active p" using that by (simp add: pool_end_def pool_start_def)
  qed
  show "wp_active (pool_timeout n p) = wp_active p" for n by (simp add: pool_timeout_def)
  show "call_is Call_Loading (wp_calls (pool_timeout n p)) m \<longleftrightarrow> call_is Call_Loading (wp_calls p) m" if "n \<in> set (wp_queue p)" for n m
    using pool_okD(7) [OF ok, of n] that by (auto simp: pool_timeout_def call_is_def nth_list_update)
qed

theorem request_pool_bounds_witness:
  "let p = pool_run (pool_run (createRequestWorkPool 1 1)) in
   wp_queue p = [1] \<and> call_is Call_Busy (wp_calls (pool_run p)) 2 \<and> call_is Call_Loading (wp_calls (pool_end 0 p)) 1"
proof -
  define p where "p = pool_run (pool_run (createRequestWorkPool 1 1))"
  have p: "p = \<lparr>wp_concurrency = 1, wp_maxQueued = 1, wp_active = 1, wp_queue = [1], wp_calls = [Call_Loading, Call_Queued]\<rparr>"
    by (simp add: p_def pool_run_def createRequestWorkPool_def)
  have run: "pool_step\<^sup>*\<^sup>* (createRequestWorkPool 1 1) p"
    unfolding p_def by (meson pool_call rtranclp.rtrancl_refl rtranclp.rtrancl_into_rtrancl)
  have "call_is Call_Loading (wp_calls p) 0" "wp_queue p = 1 # []" "wp_active p = wp_concurrency p" "length (wp_queue p) = wp_maxQueued p"
    "length (wp_calls p) = 2" by (simp_all add: p call_is_def)
  then show ?thesis using request_pool_bounds [OF run] unfolding p_def [symmetric] Let_def by metis
qed

section \<open>Mapping with a bound\<close>

datatype map_worker = Worker_Busy nat | Worker_Stopped

record ('e, 'r) bounded_map =
  pm_size :: nat
  pm_nextIndex :: nat
  pm_failed :: bool
  pm_firstError :: "'e option"
  pm_results :: "'r option list"
  pm_workers :: "map_worker list"
  pm_called :: "nat list"

definition map_concurrency :: "nat \<Rightarrow> rat \<Rightarrow> nat" where
  "map_concurrency items concurrencyValue =
     nat (max 1 (min (int items) \<lfloor>if concurrencyValue = 0 then 1 else concurrencyValue\<rfloor>))"

text \<open>The head of a worker's loop, up to the call of the mapper.\<close>

definition worker_turn :: "nat \<Rightarrow> ('e, 'r) bounded_map \<Rightarrow> ('e, 'r) bounded_map" where
  "worker_turn w m =
     (if pm_failed m then m\<lparr>pm_workers := (pm_workers m)[w := Worker_Stopped]\<rparr>
      else (let index = pm_nextIndex m; m1 = m\<lparr>pm_nextIndex := pm_nextIndex m + 1\<rparr> in
            if pm_size m1 \<le> index then m1\<lparr>pm_workers := (pm_workers m1)[w := Worker_Stopped]\<rparr>
            else m1\<lparr>pm_workers := (pm_workers m1)[w := Worker_Busy index], pm_called := pm_called m1 @ [index]\<rparr>))"

text \<open>The workers are started one after the other.\<close>

definition map_start :: "nat \<Rightarrow> nat \<Rightarrow> ('e, 'r) bounded_map" where
  "map_start items concurrency =
     foldl (\<lambda>m w. worker_turn w m)
       \<lparr>pm_size = items, pm_nextIndex = 0, pm_failed = False, pm_firstError = None, pm_results = replicate items None,
        pm_workers = replicate concurrency Worker_Stopped, pm_called = []\<rparr> [0..<concurrency]"

text \<open>The mapper of a worker ends; the worker goes on with its loop.\<close>

definition map_settle :: "nat \<Rightarrow> nat \<Rightarrow> 'e + 'r \<Rightarrow> ('e, 'r) bounded_map \<Rightarrow> ('e, 'r) bounded_map" where
  "map_settle w index outcome m =
     worker_turn w
       (case outcome of
          Inr r \<Rightarrow> m\<lparr>pm_results := (pm_results m)[index := Some r]\<rparr>
        | Inl e \<Rightarrow> m\<lparr>pm_failed := True, pm_firstError := Some e\<rparr>)"

definition mapWithConcurrency :: "nat \<Rightarrow> rat \<Rightarrow> ('e, 'r) bounded_map" where
  "mapWithConcurrency items concurrencyValue =
     (if items = 0 then map_start 0 0 else map_start items (map_concurrency items concurrencyValue))"

text \<open>The outcome of \<open>Promise.all\<close> and what follows it: nothing while a worker is busy.\<close>

definition map_outcome :: "('e, 'r) bounded_map \<Rightarrow> ('e option + 'r option list) option" where
  "map_outcome m =
     (if list_all ((=) Worker_Stopped) (pm_workers m)
      then Some (if pm_failed m then Inl (pm_firstError m) else Inr (pm_results m)) else None)"

text \<open>\<open>out\<close> gives what the mapper does with each item.\<close>

inductive map_step :: "(nat \<Rightarrow> 'e + 'r) \<Rightarrow> ('e, 'r) bounded_map \<Rightarrow> ('e, 'r) bounded_map \<Rightarrow> bool" for out where
  "w < length (pm_workers m) \<Longrightarrow> pm_workers m ! w = Worker_Busy index \<Longrightarrow> map_step out m (map_settle w index (out index) m)"

fun busy_worker :: "map_worker \<Rightarrow> bool" where
  "busy_worker (Worker_Busy i) = True"
| "busy_worker Worker_Stopped = False"

text \<open>The items whose mapper has ended.\<close>

definition mapped :: "('e, 'r) bounded_map \<Rightarrow> nat \<Rightarrow> bool" where
  "mapped m i = (i \<in> set (pm_called m) \<and> Worker_Busy i \<notin> set (pm_workers m))"

definition map_ok :: "(nat \<Rightarrow> 'e + 'r) \<Rightarrow> ('e, 'r) bounded_map \<Rightarrow> bool" where
  "map_ok out m = (length (pm_results m) = pm_size m
     \<and> pm_called m = [0..<min (pm_nextIndex m) (pm_size m)]
     \<and> (\<forall>i. Worker_Busy i \<in> set (pm_workers m) \<longrightarrow> i \<in> set (pm_called m))
     \<and> (\<forall>v w i. v < length (pm_workers m) \<and> w < length (pm_workers m)
          \<and> pm_workers m ! v = Worker_Busy i \<and> pm_workers m ! w = Worker_Busy i \<longrightarrow> v = w)
     \<and> (\<forall>i. mapped m i \<longrightarrow> (case out i of Inr r \<Rightarrow> pm_results m ! i = Some r | Inl e \<Rightarrow> pm_failed m))
     \<and> (pm_failed m \<longrightarrow> (\<exists>i e. mapped m i \<and> out i = Inl e \<and> pm_firstError m = Some e))
     \<and> (\<not> pm_failed m \<and> Worker_Stopped \<in> set (pm_workers m) \<longrightarrow> pm_size m \<le> pm_nextIndex m))"

lemma map_okD:
  assumes "map_ok out m"
  shows "length (pm_results m) = pm_size m" "pm_called m = [0..<min (pm_nextIndex m) (pm_size m)]"
    "Worker_Busy i \<in> set (pm_workers m) \<Longrightarrow> i \<in> set (pm_called m)"
    "v < length (pm_workers m) \<Longrightarrow> w < length (pm_workers m) \<Longrightarrow> pm_workers m ! v = Worker_Busy i
      \<Longrightarrow> pm_workers m ! w = Worker_Busy i \<Longrightarrow> v = w"
    "mapped m i \<Longrightarrow> out i = Inr r \<Longrightarrow> pm_results m ! i = Some r" "mapped m i \<Longrightarrow> out i = Inl e \<Longrightarrow> pm_failed m"
    "pm_failed m \<Longrightarrow> \<exists>i e. mapped m i \<and> out i = Inl e \<and> pm_firstError m = Some e"
    "\<not> pm_failed m \<Longrightarrow> Worker_Stopped \<in> set (pm_workers m) \<Longrightarrow> pm_size m \<le> pm_nextIndex m"
  using assms unfolding map_ok_def by (blast, blast, blast, blast, force, force, blast, blast)

lemma map_start_state:
  assumes "c \<le> n"
  shows "(map_start n c :: ('e, 'r) bounded_map) = \<lparr>pm_size = n, pm_nextIndex = c, pm_failed = False, pm_firstError = None,
    pm_results = replicate n None, pm_workers = map Worker_Busy [0..<c], pm_called = [0..<c]\<rparr>"
proof -
  have "foldl (\<lambda>m w. worker_turn w m) (\<lparr>pm_size = n, pm_nextIndex = 0, pm_failed = False, pm_firstError = None,
      pm_results = replicate n None, pm_workers = replicate c Worker_Stopped, pm_called = []\<rparr> :: ('e, 'r) bounded_map) [0..<k]
    = \<lparr>pm_size = n, pm_nextIndex = k, pm_failed = False, pm_firstError = None, pm_results = replicate n None,
       pm_workers = map Worker_Busy [0..<k] @ replicate (c - k) Worker_Stopped, pm_called = [0..<k]\<rparr>" if "k \<le> c" for k
    using that
  proof (induction k)
    case (Suc k)
    have "replicate (c - k) Worker_Stopped = Worker_Stopped # replicate (c - Suc k) Worker_Stopped"
      using Suc.prems by (metis Suc_diff_Suc Suc_le_lessD replicate_Suc)
    then show ?case using Suc assms by (simp add: worker_turn_def Let_def list_update_append)
  qed simp
  from this [of c] show ?thesis by (simp add: map_start_def)
qed

lemma map_concurrency_bounds: "0 < n \<Longrightarrow> 1 \<le> map_concurrency n c \<and> map_concurrency n c \<le> n"
  by (auto simp: map_concurrency_def nat_le_iff le_nat_iff)

lemma map_begin:
  "mapWithConcurrency n c = (let k = (if n = 0 then 0 else map_concurrency n c) in
     \<lparr>pm_size = n, pm_nextIndex = k, pm_failed = False, pm_firstError = None, pm_results = replicate n None,
      pm_workers = map Worker_Busy [0..<k], pm_called = [0..<k]\<rparr>)"
  using map_start_state [of 0 0] map_start_state [of "map_concurrency n c" n] map_concurrency_bounds [of n c]
  by (auto simp: mapWithConcurrency_def Let_def)

lemma map_ok_begin: "map_ok out (mapWithConcurrency n c)"
  using map_concurrency_bounds [of n c] by (auto simp: map_begin map_ok_def Let_def mapped_def)

definition settled_results :: "nat \<Rightarrow> 'e + 'r \<Rightarrow> ('e, 'r) bounded_map \<Rightarrow> ('e, 'r) bounded_map" where
  "settled_results index outcome m =
     (case outcome of
        Inr r \<Rightarrow> m\<lparr>pm_results := (pm_results m)[index := Some r]\<rparr>
      | Inl e \<Rightarrow> m\<lparr>pm_failed := True, pm_firstError := Some e\<rparr>)"

lemma map_settle_parts:
  fixes m :: "('e, 'r) bounded_map" and w index :: nat and out :: "nat \<Rightarrow> 'e + 'r" and outcome :: "'e + 'r"
  assumes o: "outcome = out index"
  defines "m' \<equiv> map_settle w index outcome m"
  shows "pm_size m' = pm_size m"
    "pm_failed m' = (pm_failed m \<or> (\<exists>e. outcome = Inl e))"
    "pm_firstError m' = (case outcome of Inl e \<Rightarrow> Some e | Inr r \<Rightarrow> pm_firstError m)"
    "pm_results m' = (case outcome of Inl e \<Rightarrow> pm_results m | Inr r \<Rightarrow> (pm_results m)[index := Some r])"
    "pm_nextIndex m' = (if pm_failed m' then pm_nextIndex m else pm_nextIndex m + 1)"
    "pm_workers m' = (pm_workers m)[w := if \<not> pm_failed m' \<and> pm_nextIndex m < pm_size m then Worker_Busy (pm_nextIndex m) else Worker_Stopped]"
    "pm_called m' = pm_called m @ (if \<not> pm_failed m' \<and> pm_nextIndex m < pm_size m then [pm_nextIndex m] else [])"
  unfolding m'_def by (cases outcome; auto simp: map_settle_def worker_turn_def Let_def)+

lemma in_set_list_update:
  assumes "w < length xs"
  shows "y \<in> set (xs[w := x]) \<longleftrightarrow> (\<exists>v < length xs. v \<noteq> w \<and> xs ! v = y) \<or> x = y"
proof
  assume "y \<in> set (xs[w := x])"
  then obtain v where "v < length xs" "xs[w := x] ! v = y" by (metis in_set_conv_nth length_list_update)
  then show "(\<exists>v < length xs. v \<noteq> w \<and> xs ! v = y) \<or> x = y" by (cases "v = w") auto
next
  assume "(\<exists>v < length xs. v \<noteq> w \<and> xs ! v = y) \<or> x = y"
  then show "y \<in> set (xs[w := x])"
  proof
    assume "\<exists>v < length xs. v \<noteq> w \<and> xs ! v = y"
    then obtain v where "v < length xs" "v \<noteq> w" "xs ! v = y" by blast
    then show ?thesis by (metis length_list_update nth_list_update_neq nth_mem)
  qed (use assms in \<open>simp add: set_update_memI\<close>)
qed

lemma map_ok_step:
  assumes ok: "map_ok out m" and w: "w < length (pm_workers m)" "pm_workers m ! w = Worker_Busy index"
  shows "map_ok out (map_settle w index (out index) m)"
proof -
  let ?m = "map_settle w index (out index) m"
  note parts = map_settle_parts [OF refl, of w index out m]
  let ?new = "\<not> pm_failed ?m \<and> pm_nextIndex m < pm_size m"
  let ?x = "if ?new then Worker_Busy (pm_nextIndex m) else Worker_Stopped"
  have index: "index \<in> set (pm_called m)" "index < pm_size m" "index < pm_nextIndex m"
    using map_okD(2,3) [OF ok] w by (auto simp: in_set_conv_nth)
  have old: "Worker_Busy i \<in> set (pm_workers ?m) \<longleftrightarrow> (Worker_Busy i \<in> set (pm_workers m) \<and> i \<noteq> index) \<or> ?new \<and> i = pm_nextIndex m" for i
  proof -
    have "Worker_Busy i \<in> set ((pm_workers m)[w := ?x]) \<longleftrightarrow> (\<exists>v < length (pm_workers m). v \<noteq> w \<and> pm_workers m ! v = Worker_Busy i) \<or> ?x = Worker_Busy i"
      by (rule in_set_list_update [OF w(1)])
    moreover have "(\<exists>v < length (pm_workers m). v \<noteq> w \<and> pm_workers m ! v = Worker_Busy i) \<longleftrightarrow> Worker_Busy i \<in> set (pm_workers m) \<and> i \<noteq> index"
    proof
      assume "\<exists>v < length (pm_workers m). v \<noteq> w \<and> pm_workers m ! v = Worker_Busy i"
      then obtain v where v: "v < length (pm_workers m)" "v \<noteq> w" "pm_workers m ! v = Worker_Busy i" by blast
      then have "i \<noteq> index" using map_okD(4) [OF ok, of v w index] w by blast
      then show "Worker_Busy i \<in> set (pm_workers m) \<and> i \<noteq> index" using v nth_mem [OF v(1)] by simp
    next
      assume "Worker_Busy i \<in> set (pm_workers m) \<and> i \<noteq> index"
      then show "\<exists>v < length (pm_workers m). v \<noteq> w \<and> pm_workers m ! v = Worker_Busy i"
        using w(2) by (metis in_set_conv_nth map_worker.inject)
    qed
    ultimately show ?thesis unfolding parts(6) by auto
  qed
  have done': "mapped ?m i \<longleftrightarrow> mapped m i \<or> i = index" for i
    using index map_okD(2) [OF ok] by (auto simp: mapped_def old parts(7))
  show ?thesis
    unfolding map_ok_def
  proof (intro conjI allI impI)
    show "length (pm_results ?m) = pm_size ?m"
      using map_okD(1) [OF ok] by (simp add: parts(1,4) split: sum.split)
    show "pm_called ?m = [0..<min (pm_nextIndex ?m) (pm_size ?m)]"
      using map_okD(2) [OF ok]
      by (cases "pm_nextIndex m < pm_size m") (auto simp: parts(1,5,7) min_def not_less)
    show "i \<in> set (pm_called ?m)" if "Worker_Busy i \<in> set (pm_workers ?m)" for i
      using that map_okD(3) [OF ok] by (auto simp: old parts(7))
    show "v = u" if "v < length (pm_workers ?m) \<and> u < length (pm_workers ?m)
        \<and> pm_workers ?m ! v = Worker_Busy i \<and> pm_workers ?m ! u = Worker_Busy i" for v u i
    proof -
      have fresh: "pm_workers m ! t \<noteq> Worker_Busy (pm_nextIndex m)" if "t < length (pm_workers m)" for t
        using map_okD(2) [OF ok] map_okD(3) [OF ok, of "pm_nextIndex m"] nth_mem [OF that] by auto
      show ?thesis
        using that fresh map_okD(4) [OF ok, of v u i] w unfolding parts(6)
        by (auto simp: nth_list_update split: if_splits)
    qed
    show "case out i of Inr r \<Rightarrow> pm_results ?m ! i = Some r | Inl e \<Rightarrow> pm_failed ?m" if "mapped ?m i" for i
    proof (cases "i = index")
      case True
      show ?thesis
        unfolding True parts(2,4) using index map_okD(1) [OF ok] by (simp split: sum.split)
    next
      case False
      then have "mapped m i" using that done' by simp
      then show ?thesis
        unfolding parts(2,4) using map_okD(5,6) [OF ok] False by (simp split: sum.split)
    qed
    show "\<exists>i e. mapped ?m i \<and> out i = Inl e \<and> pm_firstError ?m = Some e" if "pm_failed ?m"
    proof (cases "out index")
      case (Inl e)
      then show ?thesis unfolding parts(3) done' by (intro exI [of _ index]) simp
    next
      case (Inr r)
      then show ?thesis using that map_okD(7) [OF ok] unfolding parts(2,3) done' by auto
    qed
    show "pm_size ?m \<le> pm_nextIndex ?m" if "\<not> pm_failed ?m \<and> Worker_Stopped \<in> set (pm_workers ?m)"
    proof (cases "?new")
      case True
      have "Worker_Stopped \<in> set (pm_workers m)" using that True unfolding parts(6) by (auto dest: set_update_subset_insert [THEN subsetD])
      then show ?thesis using map_okD(8) [OF ok] that True unfolding parts(2) by auto
    next
      case False
      then show ?thesis using that unfolding parts(1,5) by auto
    qed
  qed
qed

definition map_left :: "('e, 'r) bounded_map \<Rightarrow> nat" where
  "map_left m = (pm_size m - length (pm_called m)) + length (filter busy_worker (pm_workers m))"

lemma map_reachable:
  "(map_step out)\<^sup>*\<^sup>* (mapWithConcurrency n c) m \<Longrightarrow>
   map_ok out m \<and> pm_size m = n \<and> length (pm_workers m) = (if n = 0 then 0 else map_concurrency n c)"
proof (induction rule: rtranclp_induct)
  case base
  show ?case by (simp add: map_ok_begin) (simp add: map_begin Let_def)
next
  case (step m m')
  from step.hyps(2) obtain w index where "w < length (pm_workers m)" "pm_workers m ! w = Worker_Busy index"
    and m': "m' = map_settle w index (out index) m" by (auto elim: map_step.cases)
  then show ?case
    using step.IH map_ok_step [of out m w index] by (simp add: map_settle_parts [OF refl, of w index out m])
qed

text \<open>
  \<open>mapWithConcurrency\<close> calls the mapper once per item, in order, with at most the given number of calls in progress,
  and always comes to an end.  Whatever the order in which the calls end: when it returns, every call succeeded and
  the results are those of the mapper, item by item; when it throws, the error is the one of a call that failed; after a
  failure no further call is made; while it has not ended some call is in progress, and each end of a call lowers what is left.
\<close>

theorem mapWithConcurrency_correct:
  assumes "(map_step out)\<^sup>*\<^sup>* (mapWithConcurrency n c) m"
  shows "pm_called m = [0..<length (pm_called m)] \<and> length (pm_called m) \<le> n
    \<and> length (filter busy_worker (pm_workers m)) \<le> (if n = 0 then 0 else map_concurrency n c)
    \<and> (map_outcome m = None \<longrightarrow> (\<exists>m'. map_step out m m'))
    \<and> (\<forall>m'. map_step out m m' \<longrightarrow> map_left m' < map_left m \<and> (pm_failed m \<longrightarrow> pm_called m' = pm_called m))
    \<and> (\<forall>res. map_outcome m = Some (Inr res) \<longrightarrow> length res = n \<and> (\<forall>i < n. \<exists>r. out i = Inr r \<and> res ! i = Some r))
    \<and> (\<forall>e. map_outcome m = Some (Inl e) \<longrightarrow> (\<exists>i \<in> set (pm_called m). \<exists>x. out i = Inl x \<and> e = Some x))"
proof (intro conjI allI impI)
  have ok: "map_ok out m" and size: "pm_size m = n" and len: "length (pm_workers m) = (if n = 0 then 0 else map_concurrency n c)"
    using map_reachable [OF assms] by simp_all
  show "pm_called m = [0..<length (pm_called m)]" "length (pm_called m) \<le> n"
    using map_okD(2) [OF ok] size by simp_all
  show "length (filter busy_worker (pm_workers m)) \<le> (if n = 0 then 0 else map_concurrency n c)"
    using len length_filter_le [of busy_worker "pm_workers m"] by simp
  show "\<exists>m'. map_step out m m'" if o: "map_outcome m = None"
  proof -
    have "\<exists>x \<in> set (pm_workers m). x \<noteq> Worker_Stopped" using o unfolding map_outcome_def list_all_iff by (metis option.distinct(1))
    then obtain w index where "w < length (pm_workers m)" "pm_workers m ! w = Worker_Busy index"
      by (metis in_set_conv_nth map_worker.exhaust)
    then show ?thesis by (blast intro: map_step.intros)
  qed
  fix m'
  assume "map_step out m m'"
  then obtain w index where w: "w < length (pm_workers m)" "pm_workers m ! w = Worker_Busy index"
    and m': "m' = map_settle w index (out index) m" by (auto elim: map_step.cases)
  note parts = map_settle_parts [OF refl, of w index out m, folded m']
  let ?x = "if \<not> pm_failed m' \<and> pm_nextIndex m < pm_size m then Worker_Busy (pm_nextIndex m) else Worker_Stopped"
  have "length (filter busy_worker (pm_workers m')) + 1 = length (filter busy_worker (pm_workers m)) + of_bool (busy_worker ?x)"
    using length_filter_list_update [OF w(1), of busy_worker ?x] w(2) by (simp add: parts(6))
  then show "map_left m' < map_left m"
    using map_okD(2) [OF ok] by (auto simp: map_left_def parts(1,7))
  show "pm_called m' = pm_called m" if "pm_failed m" using that by (simp add: parts(2,7))
next
  have ok: "map_ok out m" and size: "pm_size m = n" and len: "length (pm_workers m) = (if n = 0 then 0 else map_concurrency n c)"
    using map_reachable [OF assms] by simp_all
  have all: "mapped m i" if "list_all ((=) Worker_Stopped) (pm_workers m)" "i \<in> set (pm_called m)" for i
    using that by (auto simp: mapped_def list_all_iff)
  fix res
  assume "map_outcome m = Some (Inr res)"
  then have o: "list_all ((=) Worker_Stopped) (pm_workers m)" "\<not> pm_failed m" "res = pm_results m"
    by (auto simp: map_outcome_def split: if_splits)
  show "length res = n" using map_okD(1) [OF ok] size o by simp
  show "\<exists>r. out i = Inr r \<and> res ! i = Some r" if i: "i < n" for i
  proof -
    have "pm_workers m \<noteq> []" using len i map_concurrency_bounds [of n c] by auto
    then have "Worker_Stopped \<in> set (pm_workers m)" using o(1) by (cases "pm_workers m") auto
    then have "i \<in> set (pm_called m)" using map_okD(2,8) [OF ok] o(2) size i by simp
    then have "mapped m i" using all o(1) by blast
    then show ?thesis using map_okD(5,6) [OF ok] o(2,3) by (cases "out i") auto
  qed
next
  have ok: "map_ok out m" using map_reachable [OF assms] by simp
  fix e
  assume "map_outcome m = Some (Inl e)"
  then have "pm_failed m" "e = pm_firstError m" by (auto simp: map_outcome_def split: if_splits)
  then show "\<exists>i \<in> set (pm_called m). \<exists>x. out i = Inl x \<and> e = Some x"
    using map_okD(7) [OF ok] by (auto simp: mapped_def)
qed

text \<open>The error thrown is the one of the call that failed last, although the variable is called \<open>firstError\<close>.\<close>

lemma mapWithConcurrency_last_error:
  defines "out \<equiv> (\<lambda>i. if i = 0 then Inl ''first'' else Inl ''second'') :: nat \<Rightarrow> string + nat"
  shows "map_outcome (map_settle 1 1 (out 1) (map_settle 0 0 (out 0) (mapWithConcurrency 2 2))) = Some (Inl (Some ''second''))"
  by (simp add: map_begin map_concurrency_def Let_def map_settle_def worker_turn_def map_outcome_def out_def upt_rec)

theorem mapWithConcurrency_correct_witness:
  "map_outcome (map_settle 0 1 (Inr 7) (map_settle 0 0 (Inr (5 :: nat)) (mapWithConcurrency 2 1))) = Some (Inr [Some 5, Some (7 :: nat)])
   \<and> (\<exists>m'. map_step (\<lambda>i. Inr (5 :: nat) :: unit + nat) (mapWithConcurrency 2 1) m')"
proof
  show "map_outcome (map_settle 0 1 (Inr 7) (map_settle 0 0 (Inr (5 :: nat)) (mapWithConcurrency 2 1))) = Some (Inr [Some 5, Some (7 :: nat)])"
    by (simp add: map_begin map_concurrency_def Let_def map_settle_def worker_turn_def map_outcome_def upt_rec numeral_2_eq_2)
  have "map_outcome (mapWithConcurrency 2 1 :: (unit, nat) bounded_map) = None"
    by (simp add: map_begin map_concurrency_def Let_def map_outcome_def)
  then show "\<exists>m'. map_step (\<lambda>i. Inr (5 :: nat) :: unit + nat) (mapWithConcurrency 2 1) m'"
    using mapWithConcurrency_correct [where out = "\<lambda>i. Inr (5 :: nat) :: unit + nat" and n = 2 and c = 1, OF rtranclp.rtrancl_refl] by blast
qed

end
