(* ===== verification/Query_Cache.thy ===== *)
theory Query_Cache
imports FX_Prelude
begin

text \<open>
  The query cache of the server (\<open>server/queryCache.ts\<close>): values served fresh, then stale while one load renews
  them, bounded in entries and bytes, with loads that are never evicted.

  An entry is an object with an identity, compared by \<open>cache.get(key) === current\<close>: entries live in a heap and the map
  holds their positions.  A load is named by its position in the list of all loads, which is also their
  history.  The value \<open>undefined\<close> is \<^const>\<open>None\<close>.  Times are those of the clock when it is read; a load may end
  at any time, and the clean-up timer may fire at any time.
\<close>

section \<open>State\<close>

record 'v cache_entry =
  en_freshUntil :: int
  en_staleUntil :: int
  en_retryAt :: int
  en_bytes :: nat
  en_value :: "'v option"
  en_promise :: "nat option"

datatype 'v load_state = Load_Running | Loaded "'v option" int | Load_Failed

record 'v cache_load =
  ld_key :: string
  ld_entry :: nat
  ld_ttlMs :: int
  ld_staleMs :: int
  ld_state :: "'v load_state"

record 'v cache_config =
  cc_maxEntries :: nat
  cc_maxBytes :: "nat option"
  cc_sizeOf :: "('v option \<Rightarrow> nat) option"
  cc_retryMs :: int

record 'v query_cache =
  qc_map :: "(string, nat) jmap"
  qc_heap :: "'v cache_entry list"
  qc_bytes :: int
  qc_nextPruneAt :: int
  qc_cleanupTimer :: bool
  qc_loads :: "'v cache_load list"

text \<open>\<open>options\<close> is a number of entries or a record; \<open>Infinity\<close> bytes are \<^const>\<open>None\<close>.\<close>

definition cache_config_of :: "int option \<Rightarrow> nat option \<Rightarrow> ('v option \<Rightarrow> nat) option \<Rightarrow> int option \<Rightarrow> 'v cache_config" where
  "cache_config_of maxEntries maxBytes sizeOf retryMs =
     \<lparr>cc_maxEntries = nat (max 1 (case maxEntries of Some n \<Rightarrow> n | None \<Rightarrow> 300)), cc_maxBytes = maxBytes, cc_sizeOf = sizeOf,
      cc_retryMs = (case retryMs of Some r \<Rightarrow> r | None \<Rightarrow> 1000)\<rparr>"

definition createQueryCache :: "int \<Rightarrow> 'v query_cache" where
  "createQueryCache t = \<lparr>qc_map = [], qc_heap = [], qc_bytes = 0, qc_nextPruneAt = t + 1000, qc_cleanupTimer = False, qc_loads = []\<rparr>"

section \<open>Operations\<close>

definition stopCleanupIfEmpty :: "'v query_cache \<Rightarrow> 'v query_cache" where
  "stopCleanupIfEmpty s = (if qc_map s \<noteq> [] \<or> \<not> qc_cleanupTimer s then s else s\<lparr>qc_cleanupTimer := False\<rparr>)"

definition armCleanup :: "'v query_cache \<Rightarrow> 'v query_cache" where
  "armCleanup s = (if qc_cleanupTimer s \<or> qc_map s = [] then s else s\<lparr>qc_cleanupTimer := True\<rparr>)"

definition entry_at :: "'v query_cache \<Rightarrow> string \<Rightarrow> 'v cache_entry option" where
  "entry_at s key = map_option ((!) (qc_heap s)) (jm_get (qc_map s) key)"

definition cache_remove :: "string \<Rightarrow> 'v query_cache \<Rightarrow> 'v query_cache" where
  "cache_remove key s =
     (let s1 = (case entry_at s key of Some entry \<Rightarrow> s\<lparr>qc_bytes := qc_bytes s - int (en_bytes entry)\<rparr> | None \<Rightarrow> s)
      in stopCleanupIfEmpty (s1\<lparr>qc_map := jm_del key (qc_map s1)\<rparr>))"

definition bytes_within :: "'v cache_config \<Rightarrow> int \<Rightarrow> bool" where
  "bytes_within cfg b = (case cc_maxBytes cfg of None \<Rightarrow> True | Some mx \<Rightarrow> b \<le> int mx)"

definition loading :: "'v query_cache \<Rightarrow> string \<Rightarrow> bool" where
  "loading s key = (case entry_at s key of Some entry \<Rightarrow> en_promise entry \<noteq> None | None \<Rightarrow> False)"

fun trim_keys :: "'v cache_config \<Rightarrow> nat \<Rightarrow> string list \<Rightarrow> 'v query_cache \<Rightarrow> 'v query_cache" where
  "trim_keys cfg reserve [] s = s"
| "trim_keys cfg reserve (key # keys) s =
     (if length (qc_map s) + reserve \<le> cc_maxEntries cfg \<and> bytes_within cfg (qc_bytes s) then s
      else trim_keys cfg reserve keys (if \<not> loading s key then cache_remove key s else s))"

definition cache_trim :: "'v cache_config \<Rightarrow> nat \<Rightarrow> 'v query_cache \<Rightarrow> 'v query_cache" where
  "cache_trim cfg reserve s = trim_keys cfg reserve (jm_keys (qc_map s)) s"

definition prune_entry :: "int \<Rightarrow> string \<Rightarrow> 'v query_cache \<Rightarrow> 'v query_cache" where
  "prune_entry t key s =
     (case entry_at s key of
        Some entry \<Rightarrow> if en_promise entry = None \<and> en_staleUntil entry \<le> t then cache_remove key s else s
      | None \<Rightarrow> s)"

definition cache_prune :: "'v cache_config \<Rightarrow> int \<Rightarrow> 'v query_cache \<Rightarrow> 'v query_cache" where
  "cache_prune cfg t s = cache_trim cfg 0 (foldl (\<lambda>s key. prune_entry t key s) s (jm_keys (qc_map s)))"

text \<open>The start of a load for the entry of a key.\<close>

definition start_load :: "string \<Rightarrow> int \<Rightarrow> int \<Rightarrow> nat \<Rightarrow> 'v query_cache \<Rightarrow> nat \<times> 'v query_cache" where
  "start_load key ttlMs staleMs i s =
     (length (qc_loads s),
      s\<lparr>qc_loads := qc_loads s @ [\<lparr>ld_key = key, ld_entry = i, ld_ttlMs = ttlMs, ld_staleMs = staleMs, ld_state = Load_Running\<rparr>],
        qc_heap := (qc_heap s)[i := (qc_heap s ! i)\<lparr>en_promise := Some (length (qc_loads s))\<rparr>]\<rparr>)"

text \<open>\<^const>\<open>None\<close> is the rejection \<open>QueryCacheBusyError\<close>.\<close>

definition cache_refresh :: "'v cache_config \<Rightarrow> string \<Rightarrow> int \<Rightarrow> int \<Rightarrow> 'v query_cache \<Rightarrow> nat option \<times> 'v query_cache" where
  "cache_refresh cfg key ttlMs staleMs s =
     (case jm_get (qc_map s) key of
        Some i \<Rightarrow> (let (l, s') = start_load key ttlMs staleMs i s in (Some l, s'))
      | None \<Rightarrow>
          (let s1 = cache_trim cfg 1 s in
           if cc_maxEntries cfg \<le> length (qc_map s1) then (None, s1)
           else (let i = length (qc_heap s1);
                     entry = \<lparr>en_freshUntil = 0, en_staleUntil = 0, en_retryAt = 0, en_bytes = 0, en_value = None, en_promise = None\<rparr>;
                     s2 = armCleanup (s1\<lparr>qc_heap := qc_heap s1 @ [entry], qc_map := jm_set key i (qc_map s1)\<rparr>);
                     (l, s') = start_load key ttlMs staleMs i s2
                 in (Some l, s'))))"

text \<open>The callbacks of a load.\<close>

definition set_load :: "nat \<Rightarrow> 'v load_state \<Rightarrow> 'v query_cache \<Rightarrow> 'v query_cache" where
  "set_load l st s = s\<lparr>qc_loads := (qc_loads s)[l := (qc_loads s ! l)\<lparr>ld_state := st\<rparr>]\<rparr>"

definition load_size :: "'v cache_config \<Rightarrow> string \<Rightarrow> 'v option \<Rightarrow> nat" where
  "load_size cfg key v = (case cc_sizeOf cfg of Some f \<Rightarrow> f v + length key * 2 | None \<Rightarrow> 0)"

definition load_succeeded :: "'v cache_config \<Rightarrow> int \<Rightarrow> nat \<Rightarrow> 'v option \<Rightarrow> 'v query_cache \<Rightarrow> 'v query_cache" where
  "load_succeeded cfg t l v s0 =
     (let s = set_load l (Loaded v t) s0; ld = qc_loads s ! l; key = ld_key ld; i = ld_entry ld in
      if jm_get (qc_map s) key \<noteq> Some i then s
      else (let size = load_size cfg key v in
            if \<not> bytes_within cfg (int size) then cache_remove key s
            else (let current = qc_heap s ! i;
                      entry = current\<lparr>en_value := v, en_promise := None, en_bytes := size, en_retryAt := 0,
                        en_freshUntil := t + ld_ttlMs ld, en_staleUntil := t + ld_ttlMs ld + ld_staleMs ld\<rparr>
                  in cache_trim cfg 0 (s\<lparr>qc_heap := (qc_heap s)[i := entry],
                       qc_bytes := qc_bytes s - int (en_bytes current) + int size\<rparr>))))"

definition load_failed :: "'v cache_config \<Rightarrow> int \<Rightarrow> nat \<Rightarrow> 'v query_cache \<Rightarrow> 'v query_cache" where
  "load_failed cfg t l s0 =
     (let s = set_load l Load_Failed s0; ld = qc_loads s ! l; key = ld_key ld; i = ld_entry ld in
      if jm_get (qc_map s) key \<noteq> Some i then s
      else (let s1 = s\<lparr>qc_heap := (qc_heap s)[i := (qc_heap s ! i)\<lparr>en_promise := None, en_retryAt := t + cc_retryMs cfg\<rparr>]\<rparr>
            in if en_value (qc_heap s1 ! i) = None then cache_remove key s1 else s1))"

datatype 'v answer = Answer_Value 'v | Answer_Load nat | Answer_Busy

definition move_to_end :: "string \<Rightarrow> 'v query_cache \<Rightarrow> 'v query_cache" where
  "move_to_end key s =
     (case jm_get (qc_map s) key of Some i \<Rightarrow> s\<lparr>qc_map := jm_set key i (jm_del key (qc_map s))\<rparr> | None \<Rightarrow> s)"

definition answer_of :: "nat option \<times> 'v query_cache \<Rightarrow> 'v answer \<times> 'v query_cache" where
  "answer_of r = (case r of (Some l, s) \<Rightarrow> (Answer_Load l, s) | (None, s) \<Rightarrow> (Answer_Busy, s))"

text \<open>The state in which a call looks its key up: expired entries are looked for at most once a second.\<close>

definition cache_ready :: "'v cache_config \<Rightarrow> int \<Rightarrow> string \<Rightarrow> 'v query_cache \<Rightarrow> 'v query_cache" where
  "cache_ready cfg t key s =
     move_to_end key (if qc_nextPruneAt s \<le> t then (cache_prune cfg t s)\<lparr>qc_nextPruneAt := t + 1000\<rparr> else s)"

definition cache_get :: "'v cache_config \<Rightarrow> int \<Rightarrow> string \<Rightarrow> int \<Rightarrow> int option \<Rightarrow> 'v query_cache \<Rightarrow> 'v answer \<times> 'v query_cache" where
  "cache_get cfg t key ttlMs staleMs s0 =
     (let s = cache_ready cfg t key s0;
          stale = (case staleMs of Some m \<Rightarrow> m | None \<Rightarrow> ttlMs)
      in case entry_at s key of
           None \<Rightarrow> answer_of (cache_refresh cfg key ttlMs stale s)
         | Some cached \<Rightarrow>
             (case en_value cached of
                Some v \<Rightarrow>
                  if t < en_freshUntil cached then (Answer_Value v, s)
                  else if t < en_staleUntil cached
                  then (Answer_Value v,
                        if en_promise cached = None \<and> en_retryAt cached \<le> t then snd (cache_refresh cfg key ttlMs stale s) else s)
                  else (case en_promise cached of
                          Some l \<Rightarrow> (Answer_Load l, s)
                        | None \<Rightarrow> answer_of (cache_refresh cfg key ttlMs stale s))
              | None \<Rightarrow>
                  (case en_promise cached of
                     Some l \<Rightarrow> (Answer_Load l, s)
                   | None \<Rightarrow> answer_of (cache_refresh cfg key ttlMs stale s))))"

text \<open>The keys a clearing matches are a predicate; without an argument everything goes.\<close>

definition cache_clear :: "(string \<Rightarrow> bool) option \<Rightarrow> 'v query_cache \<Rightarrow> 'v query_cache" where
  "cache_clear matches s =
     (case matches of
        None \<Rightarrow> stopCleanupIfEmpty (s\<lparr>qc_map := [], qc_bytes := 0\<rparr>)
      | Some f \<Rightarrow> foldl (\<lambda>s key. if f key then cache_remove key s else s) s (jm_keys (qc_map s)))"

definition cache_cleanup :: "'v cache_config \<Rightarrow> int \<Rightarrow> 'v query_cache \<Rightarrow> 'v query_cache" where
  "cache_cleanup cfg t s = armCleanup (cache_prune cfg t (s\<lparr>qc_cleanupTimer := False\<rparr>))"

definition load_running :: "'v query_cache \<Rightarrow> nat \<Rightarrow> bool" where
  "load_running s l = (l < length (qc_loads s) \<and> ld_state (qc_loads s ! l) = Load_Running)"

text \<open>The steps of a cache.  \<open>clears\<close> says whether the cache may be cleared.\<close>

inductive cache_step :: "'v cache_config \<Rightarrow> bool \<Rightarrow> 'v query_cache \<Rightarrow> 'v query_cache \<Rightarrow> bool" for cfg clears where
  cache_step_get: "cache_step cfg clears s (snd (cache_get cfg t key ttlMs staleMs s))"
| cache_step_loaded: "load_running s l \<Longrightarrow> cache_step cfg clears s (load_succeeded cfg t l v s)"
| cache_step_failed: "load_running s l \<Longrightarrow> cache_step cfg clears s (load_failed cfg t l s)"
| cache_step_prune: "cache_step cfg clears s (cache_prune cfg t s)"
| cache_step_cleanup: "qc_cleanupTimer s \<Longrightarrow> cache_step cfg clears s (cache_cleanup cfg t s)"
| cache_step_clear: "clears \<Longrightarrow> cache_step cfg clears s (cache_clear matches s)"

section \<open>Removing entries\<close>

text \<open>The shape of a cache: the map points into the heap, no entry has two keys, and the counter of the bytes is right.\<close>

definition cache_shape :: "'v query_cache \<Rightarrow> bool" where
  "cache_shape s \<longleftrightarrow>
     jm_ok (qc_map s) \<and>
     (\<forall>k k' i. jm_get (qc_map s) k = Some i \<longrightarrow> jm_get (qc_map s) k' = Some i \<longrightarrow> k = k') \<and>
     (\<forall>k i. jm_get (qc_map s) k = Some i \<longrightarrow> i < length (qc_heap s)) \<and>
     qc_bytes s = int (jm_sum (\<lambda>i. en_bytes (qc_heap s ! i)) (qc_map s)) \<and>
     (qc_cleanupTimer s \<longrightarrow> qc_map s \<noteq> [])"

lemma cache_shapeD:
  assumes "cache_shape s"
  shows "jm_ok (qc_map s)"
    and "jm_get (qc_map s) k = Some i \<Longrightarrow> jm_get (qc_map s) k' = Some i \<Longrightarrow> k = k'"
    and "jm_get (qc_map s) k = Some i \<Longrightarrow> i < length (qc_heap s)"
    and "qc_bytes s = int (jm_sum (\<lambda>i. en_bytes (qc_heap s ! i)) (qc_map s))"
    and "qc_cleanupTimer s \<Longrightarrow> qc_map s \<noteq> []"
  using assms unfolding cache_shape_def by blast+

lemma entry_at_Some: "entry_at s key = Some e \<longleftrightarrow> (\<exists>i. jm_get (qc_map s) key = Some i \<and> e = qc_heap s ! i)"
  by (auto simp: entry_at_def)

lemma entry_at_None: "entry_at s key = None \<longleftrightarrow> jm_get (qc_map s) key = None"
  by (simp add: entry_at_def)

lemma loading_iff: "loading s key \<longleftrightarrow> (\<exists>i. jm_get (qc_map s) key = Some i \<and> en_promise (qc_heap s ! i) \<noteq> None)"
  by (auto simp: loading_def entry_at_def split: option.splits)

lemma stopCleanupIfEmpty_fields [simp]:
  "qc_map (stopCleanupIfEmpty s) = qc_map s" "qc_heap (stopCleanupIfEmpty s) = qc_heap s"
  "qc_bytes (stopCleanupIfEmpty s) = qc_bytes s" "qc_nextPruneAt (stopCleanupIfEmpty s) = qc_nextPruneAt s"
  "qc_loads (stopCleanupIfEmpty s) = qc_loads s"
  "qc_cleanupTimer (stopCleanupIfEmpty s) \<longleftrightarrow> qc_cleanupTimer s \<and> qc_map s \<noteq> []"
  by (auto simp: stopCleanupIfEmpty_def)

lemma armCleanup_fields [simp]:
  "qc_map (armCleanup s) = qc_map s" "qc_heap (armCleanup s) = qc_heap s"
  "qc_bytes (armCleanup s) = qc_bytes s" "qc_nextPruneAt (armCleanup s) = qc_nextPruneAt s"
  "qc_loads (armCleanup s) = qc_loads s"
  "qc_cleanupTimer (armCleanup s) \<longleftrightarrow> qc_cleanupTimer s \<or> qc_map s \<noteq> []"
  by (auto simp: armCleanup_def)

lemma cache_remove_fields [simp]:
  "qc_map (cache_remove key s) = jm_del key (qc_map s)" "qc_heap (cache_remove key s) = qc_heap s"
  "qc_nextPruneAt (cache_remove key s) = qc_nextPruneAt s" "qc_loads (cache_remove key s) = qc_loads s"
  "qc_cleanupTimer (cache_remove key s) \<longleftrightarrow> qc_cleanupTimer s \<and> jm_del key (qc_map s) \<noteq> []"
  "qc_bytes (cache_remove key s) =
     qc_bytes s - (case jm_get (qc_map s) key of Some i \<Rightarrow> int (en_bytes (qc_heap s ! i)) | None \<Rightarrow> 0)"
  by (auto simp: cache_remove_def entry_at_def split: option.splits)

lemma cache_remove_shape:
  assumes "cache_shape s"
  shows "cache_shape (cache_remove key s)"
proof (cases "jm_get (qc_map s) key")
  case None
  then show ?thesis using assms by (auto simp: cache_shape_def jm_del_absent)
next
  case (Some i)
  note D = cache_shapeD [OF assms]
  have "jm_sum (\<lambda>i. en_bytes (qc_heap s ! i)) (jm_del key (qc_map s)) + en_bytes (qc_heap s ! i)
      = jm_sum (\<lambda>i. en_bytes (qc_heap s ! i)) (qc_map s)"
    by (rule jm_sum_del [OF D(1) Some])
  then show ?thesis using D(1,2,3,4) Some by (auto simp: cache_shape_def)
qed

text \<open>A state that lost some entries that had no load under way.\<close>

definition shrinks :: "'v query_cache \<Rightarrow> 'v query_cache \<Rightarrow> bool" where
  "shrinks s s' \<longleftrightarrow>
     qc_heap s' = qc_heap s \<and> qc_loads s' = qc_loads s \<and>
     (\<forall>k i. jm_get (qc_map s') k = Some i \<longrightarrow> jm_get (qc_map s) k = Some i) \<and>
     (\<forall>k i. jm_get (qc_map s) k = Some i \<longrightarrow> en_promise (qc_heap s ! i) \<noteq> None \<longrightarrow> jm_get (qc_map s') k = Some i) \<and>
     (\<forall>f. jm_sum f (qc_map s') \<le> jm_sum f (qc_map s)) \<and>
     (cache_shape s \<longrightarrow> cache_shape s') \<and>
     (qc_map s' \<noteq> [] \<longrightarrow> qc_map s \<noteq> [] \<and> qc_cleanupTimer s' = qc_cleanupTimer s) \<and>
     (jm_ok (qc_map s) \<longrightarrow> length (qc_map s') \<le> length (qc_map s))"

lemma shrinksD:
  assumes "shrinks s s'"
  shows "qc_heap s' = qc_heap s" "qc_loads s' = qc_loads s"
    and "jm_get (qc_map s') k = Some i \<Longrightarrow> jm_get (qc_map s) k = Some i"
    and "jm_get (qc_map s) k = Some i \<Longrightarrow> en_promise (qc_heap s ! i) \<noteq> None \<Longrightarrow> jm_get (qc_map s') k = Some i"
    and "jm_sum f (qc_map s') \<le> jm_sum f (qc_map s)"
    and "cache_shape s \<Longrightarrow> cache_shape s'"
    and "qc_map s' \<noteq> [] \<Longrightarrow> qc_map s \<noteq> [] \<and> qc_cleanupTimer s' = qc_cleanupTimer s"
    and "jm_ok (qc_map s) \<Longrightarrow> length (qc_map s') \<le> length (qc_map s)"
  using assms unfolding shrinks_def by blast+

lemma shrinks_refl [simp, intro]: "shrinks s s"
  by (simp add: shrinks_def)

lemma shrinks_trans:
  assumes ss': "shrinks s s'" and s's'': "shrinks s' s''" and sh: "cache_shape s"
  shows "shrinks s s''"
  unfolding shrinks_def
proof (intro conjI allI impI)
  fix k i assume "jm_get (qc_map s) k = Some i" "en_promise (qc_heap s ! i) \<noteq> None"
  then show "jm_get (qc_map s'') k = Some i"
    using shrinksD(1,4) [OF ss'] shrinksD(4) [OF s's''] by metis
next
  fix f :: "nat \<Rightarrow> nat"
  show "jm_sum f (qc_map s'') \<le> jm_sum f (qc_map s)"
    using shrinksD(5) [OF ss'] shrinksD(5) [OF s's''] le_trans by blast
next
  show "length (qc_map s'') \<le> length (qc_map s)"
    using shrinksD(8) [OF ss'] shrinksD(8) [OF s's''] cache_shapeD(1) [OF sh] cache_shapeD(1) [OF shrinksD(6) [OF ss' sh]]
    by linarith
next
  show "qc_map s \<noteq> []" "qc_cleanupTimer s'' = qc_cleanupTimer s" if "qc_map s'' \<noteq> []"
    using shrinksD(7) [OF ss'] shrinksD(7) [OF s's'' that] by auto
next
  show "qc_heap s'' = qc_heap s" "qc_loads s'' = qc_loads s"
    using shrinksD(1,2) [OF ss'] shrinksD(1,2) [OF s's''] by simp_all
next
  fix k i assume "jm_get (qc_map s'') k = Some i"
  then show "jm_get (qc_map s) k = Some i" using shrinksD(3) [OF ss'] shrinksD(3) [OF s's''] by blast
next
  show "cache_shape s''" by (rule shrinksD(6) [OF s's'' shrinksD(6) [OF ss' sh]])
qed

lemma jm_length_del_le: "length (jm_del k m) \<le> length m"
  by (induction m) auto

lemma cache_remove_shrinks: "\<not> loading s key \<Longrightarrow> shrinks s (cache_remove key s)"
  unfolding shrinks_def by (auto simp: loading_iff cache_remove_shape jm_sum_del_le jm_length_del_le split: if_splits)

lemma trim_keys_shrinks: "cache_shape s \<Longrightarrow> shrinks s (trim_keys cfg reserve keys s)"
proof (induction keys arbitrary: s)
  case (Cons key keys)
  let ?s1 = "if \<not> loading s key then cache_remove key s else s"
  have s1: "shrinks s ?s1" by (auto intro: cache_remove_shrinks)
  show ?case
    using shrinks_trans [OF s1 Cons.IH [OF shrinksD(6) [OF s1 Cons.prems]] Cons.prems] by simp
qed simp

lemma trim_keys_limits:
  assumes "cache_shape s"
  shows "length (qc_map (trim_keys cfg reserve keys s)) + reserve \<le> cc_maxEntries cfg \<and> bytes_within cfg (qc_bytes (trim_keys cfg reserve keys s))
    \<or> (\<forall>k i. k \<in> set keys \<longrightarrow> jm_get (qc_map (trim_keys cfg reserve keys s)) k = Some i \<longrightarrow> en_promise (qc_heap s ! i) \<noteq> None)"
  using assms
proof (induction keys arbitrary: s)
  case (Cons key keys)
  let ?s1 = "if \<not> loading s key then cache_remove key s else s"
  have s1: "shrinks s ?s1" by (auto intro: cache_remove_shrinks)
  have sh1: "cache_shape ?s1" by (rule shrinksD(6) [OF s1 Cons.prems])
  have h1: "qc_heap ?s1 = qc_heap s" by (rule shrinksD(1) [OF s1])
  have first: "en_promise (qc_heap s ! i) \<noteq> None" if "jm_get (qc_map (trim_keys cfg reserve keys ?s1)) key = Some i" for i
  proof -
    have "jm_get (qc_map ?s1) key = Some i" by (rule shrinksD(3) [OF trim_keys_shrinks [OF sh1] that])
    then show ?thesis by (auto simp: loading_iff split: if_splits)
  qed
  show ?case
    using Cons.IH [OF sh1] first unfolding h1 by auto
qed simp

lemma cache_trim_shrinks: "cache_shape s \<Longrightarrow> shrinks s (cache_trim cfg reserve s)"
  by (simp add: cache_trim_def trim_keys_shrinks)

text \<open>A trimming that did not reach the limits left only entries that are loading.\<close>

lemma cache_trim_limits:
  assumes "cache_shape s"
  shows "length (qc_map (cache_trim cfg reserve s)) + reserve \<le> cc_maxEntries cfg \<and> bytes_within cfg (qc_bytes (cache_trim cfg reserve s))
    \<or> (\<forall>k i. jm_get (qc_map (cache_trim cfg reserve s)) k = Some i \<longrightarrow> en_promise (qc_heap s ! i) \<noteq> None)"
proof -
  have "k \<in> set (jm_keys (qc_map s))" if "jm_get (qc_map (cache_trim cfg reserve s)) k = Some i" for k i
    using shrinksD(3) [OF cache_trim_shrinks [OF assms] that] by (metis jm_get_None_iff option.distinct(1))
  then show ?thesis
    using trim_keys_limits [OF assms, of cfg reserve "jm_keys (qc_map s)"] unfolding cache_trim_def by blast
qed

lemma prune_entry_shrinks: "shrinks s (prune_entry t key s)"
  by (auto simp: prune_entry_def entry_at_Some loading_iff intro!: cache_remove_shrinks split: option.splits)

lemma prune_fold_shrinks:
  "cache_shape s \<Longrightarrow> shrinks s (foldl (\<lambda>s key. prune_entry t key s) s keys)"
proof (induction keys arbitrary: s)
  case (Cons key keys)
  then show ?case
    using shrinks_trans [OF prune_entry_shrinks Cons.IH Cons.prems] shrinksD(6) [OF prune_entry_shrinks Cons.prems] by simp
qed simp

lemma cache_prune_shrinks: "cache_shape s \<Longrightarrow> shrinks s (cache_prune cfg t s)"
  unfolding cache_prune_def
  using shrinks_trans [OF prune_fold_shrinks cache_trim_shrinks] shrinksD(6) [OF prune_fold_shrinks] by blast


section \<open>The invariant\<close>

text \<open>A load that an entry waits for runs for it and the reverse.\<close>

definition loads_match :: "'v query_cache \<Rightarrow> bool" where
  "loads_match s \<longleftrightarrow>
     (\<forall>k i l. jm_get (qc_map s) k = Some i \<longrightarrow> en_promise (qc_heap s ! i) = Some l \<longrightarrow>
        load_running s l \<and> ld_key (qc_loads s ! l) = k \<and> ld_entry (qc_loads s ! l) = i) \<and>
     (\<forall>l. load_running s l \<longrightarrow> jm_get (qc_map s) (ld_key (qc_loads s ! l)) = Some (ld_entry (qc_loads s ! l)) \<longrightarrow>
        en_promise (qc_heap s ! ld_entry (qc_loads s ! l)) = Some l) \<and>
     (\<forall>l < length (qc_loads s). ld_entry (qc_loads s ! l) < length (qc_heap s))"

lemma loads_matchD:
  assumes "loads_match s"
  shows "jm_get (qc_map s) k = Some i \<Longrightarrow> en_promise (qc_heap s ! i) = Some l \<Longrightarrow>
           load_running s l \<and> ld_key (qc_loads s ! l) = k \<and> ld_entry (qc_loads s ! l) = i"
    and "load_running s l \<Longrightarrow> jm_get (qc_map s) (ld_key (qc_loads s ! l)) = Some (ld_entry (qc_loads s ! l)) \<Longrightarrow>
           en_promise (qc_heap s ! ld_entry (qc_loads s ! l)) = Some l"
    and "l < length (qc_loads s) \<Longrightarrow> ld_entry (qc_loads s ! l) < length (qc_heap s)"
  using assms unfolding loads_match_def by blast+

text \<open>Where the value of an entry comes from.\<close>

definition loaded_as :: "'v query_cache \<Rightarrow> string \<Rightarrow> nat \<Rightarrow> 'v \<Rightarrow> nat \<Rightarrow> int \<Rightarrow> bool" where
  "loaded_as s k i v l c \<longleftrightarrow>
     l < length (qc_loads s) \<and> ld_key (qc_loads s ! l) = k \<and> ld_entry (qc_loads s ! l) = i \<and>
     ld_state (qc_loads s ! l) = Loaded (Some v) c"

definition values_loaded :: "'v query_cache \<Rightarrow> bool" where
  "values_loaded s \<longleftrightarrow>
     (\<forall>k i v. jm_get (qc_map s) k = Some i \<longrightarrow> en_value (qc_heap s ! i) = Some v \<longrightarrow>
        (\<exists>l c. loaded_as s k i v l c \<and> en_freshUntil (qc_heap s ! i) = c + ld_ttlMs (qc_loads s ! l) \<and>
          en_staleUntil (qc_heap s ! i) = c + ld_ttlMs (qc_loads s ! l) + ld_staleMs (qc_loads s ! l)))"

definition loads_kept :: "'v query_cache \<Rightarrow> bool" where
  "loads_kept s \<longleftrightarrow>
     (\<forall>l. load_running s l \<longrightarrow> jm_get (qc_map s) (ld_key (qc_loads s ! l)) = Some (ld_entry (qc_loads s ! l)))"

definition cache_core :: "bool \<Rightarrow> 'v query_cache \<Rightarrow> bool" where
  "cache_core clears s \<longleftrightarrow> cache_shape s \<and> loads_match s \<and> values_loaded s \<and> (\<not> clears \<longrightarrow> loads_kept s)"

definition cache_ok :: "'v cache_config \<Rightarrow> bool \<Rightarrow> 'v query_cache \<Rightarrow> bool" where
  "cache_ok cfg clears s \<longleftrightarrow>
     cache_core clears s \<and> (qc_map s \<noteq> [] \<longrightarrow> qc_cleanupTimer s) \<and>
     length (qc_map s) \<le> cc_maxEntries cfg \<and> bytes_within cfg (qc_bytes s)"

lemma cache_coreD:
  assumes "cache_core clears s"
  shows "cache_shape s" "loads_match s" "values_loaded s" "\<not> clears \<Longrightarrow> loads_kept s"
  using assms by (auto simp: cache_core_def)

lemma cache_okD:
  assumes "cache_ok cfg clears s"
  shows "cache_core clears s" "qc_map s \<noteq> [] \<Longrightarrow> qc_cleanupTimer s"
    "length (qc_map s) \<le> cc_maxEntries cfg" "bytes_within cfg (qc_bytes s)"
  using assms by (auto simp: cache_ok_def)

lemma load_running_cong: "qc_loads s' = qc_loads s \<Longrightarrow> load_running s' l = load_running s l"
  by (simp add: load_running_def)

lemma loaded_as_cong: "qc_loads s' = qc_loads s \<Longrightarrow> loaded_as s' k i v l c = loaded_as s k i v l c"
  by (simp add: loaded_as_def)

lemma bytes_within_mono: "bytes_within cfg b \<Longrightarrow> a \<le> b \<Longrightarrow> bytes_within cfg a"
  by (auto simp: bytes_within_def split: option.splits)

text \<open>Losing entries that are not loading keeps the invariant.\<close>

lemma shrinks_core:
  assumes sk: "shrinks s s'" and core: "cache_core clears s"
  shows "cache_core clears s'"
proof -
  note K = shrinksD [OF sk] and C = cache_coreD [OF core]
  have "loads_match s'" unfolding loads_match_def
  proof (intro conjI allI impI)
    fix k i l assume "jm_get (qc_map s') k = Some i" "en_promise (qc_heap s' ! i) = Some l"
    then have "load_running s l \<and> ld_key (qc_loads s ! l) = k \<and> ld_entry (qc_loads s ! l) = i"
      using loads_matchD(1) [OF C(2)] K(1,3) by metis
    then show "load_running s' l" "ld_key (qc_loads s' ! l) = k" "ld_entry (qc_loads s' ! l) = i"
      using K(2) by (simp_all add: load_running_def)
  next
    fix l assume "load_running s' l" "jm_get (qc_map s') (ld_key (qc_loads s' ! l)) = Some (ld_entry (qc_loads s' ! l))"
    then show "en_promise (qc_heap s' ! ld_entry (qc_loads s' ! l)) = Some l"
      using loads_matchD(2) [OF C(2), of l] K(1,2,3) by (simp add: load_running_def)
  next
    fix l assume "l < length (qc_loads s')"
    then show "ld_entry (qc_loads s' ! l) < length (qc_heap s')" using loads_matchD(3) [OF C(2)] K(1,2) by simp
  qed
  moreover have "values_loaded s'"
    unfolding values_loaded_def loaded_as_def K(1,2)
    using C(3) [unfolded values_loaded_def loaded_as_def] K(3) by blast
  moreover have "loads_kept s'" if "\<not> clears"
    unfolding loads_kept_def
  proof (intro allI impI)
    fix l assume "load_running s' l"
    then have r: "load_running s l" using K(2) by (simp add: load_running_def)
    then have g: "jm_get (qc_map s) (ld_key (qc_loads s ! l)) = Some (ld_entry (qc_loads s ! l))"
      using C(4) [OF that] by (simp add: loads_kept_def)
    then have "en_promise (qc_heap s ! ld_entry (qc_loads s ! l)) \<noteq> None"
      using loads_matchD(2) [OF C(2) r] by simp
    then show "jm_get (qc_map s') (ld_key (qc_loads s' ! l)) = Some (ld_entry (qc_loads s' ! l))"
      using K(4) [OF g] K(2) by simp
  qed
  ultimately show ?thesis using K(6) [OF C(1)] by (simp add: cache_core_def)
qed

lemma shrinks_bytes:
  assumes "shrinks s s'" "cache_shape s"
  shows "qc_bytes s' \<le> qc_bytes s"
  using cache_shapeD(4) [OF assms(2)] cache_shapeD(4) [OF shrinksD(6) [OF assms]] shrinksD(1,5) [OF assms(1)]
  by simp

lemma shrinks_ok:
  assumes sk: "shrinks s s'" and ok: "cache_ok cfg clears s"
  shows "cache_ok cfg clears s'"
proof -
  note O = cache_okD [OF ok]
  have sh: "cache_shape s" by (rule cache_coreD(1) [OF O(1)])
  have "bytes_within cfg (qc_bytes s')" by (rule bytes_within_mono [OF O(4) shrinks_bytes [OF sk sh]])
  moreover have "length (qc_map s') \<le> cc_maxEntries cfg"
    using shrinksD(8) [OF sk cache_shapeD(1) [OF sh]] O(3) by linarith
  ultimately show ?thesis
    using shrinks_core [OF sk O(1)] shrinksD(7) [OF sk] O(2) by (auto simp: cache_ok_def)
qed

lemma cache_prune_ok: "cache_ok cfg clears s \<Longrightarrow> cache_ok cfg clears (cache_prune cfg t s)"
  by (meson shrinks_ok cache_prune_shrinks cache_coreD(1) cache_okD(1))

text \<open>Fields the invariant does not look at.\<close>

lemma cache_core_cong:
  assumes eq: "qc_map s' = qc_map s" "qc_heap s' = qc_heap s" "qc_loads s' = qc_loads s" "qc_bytes s' = qc_bytes s"
    and timer: "qc_cleanupTimer s' \<Longrightarrow> qc_map s \<noteq> []"
    and core: "cache_core clears s"
  shows "cache_core clears s'"
proof -
  have "cache_shape s'" using cache_shapeD(1-4) [OF cache_coreD(1) [OF core]] timer unfolding cache_shape_def eq by blast
  moreover have "loads_match s' = loads_match s" "values_loaded s' = values_loaded s" "loads_kept s' = loads_kept s"
    unfolding loads_match_def values_loaded_def loads_kept_def load_running_def loaded_as_def eq by (rule refl)+
  ultimately show ?thesis using core by (simp add: cache_core_def)
qed

lemma cache_cleanup_ok:
  assumes ok: "cache_ok cfg clears s"
  shows "cache_ok cfg clears (cache_cleanup cfg t s)"
proof -
  note O = cache_okD [OF ok]
  let ?s0 = "s\<lparr>qc_cleanupTimer := False\<rparr>"
  let ?s1 = "cache_prune cfg t ?s0"
  have c0: "cache_core clears ?s0" by (rule cache_core_cong [OF _ _ _ _ _ O(1)]) simp_all
  have k: "shrinks ?s0 ?s1" by (rule cache_prune_shrinks [OF cache_coreD(1) [OF c0]])
  have c1: "cache_core clears ?s1" by (rule shrinks_core [OF k c0])
  have "cache_core clears (armCleanup ?s1)"
    by (rule cache_core_cong [OF _ _ _ _ _ c1]) (use cache_shapeD(5) [OF cache_coreD(1) [OF c1]] in auto)
  moreover have "length (qc_map ?s1) \<le> cc_maxEntries cfg"
    using shrinksD(8) [OF k] cache_shapeD(1) [OF cache_coreD(1) [OF c0]] O(3) by simp
  moreover have "bytes_within cfg (qc_bytes ?s1)"
    using bytes_within_mono [OF _ shrinks_bytes [OF k cache_coreD(1) [OF c0]]] O(4) by simp
  ultimately show ?thesis by (simp add: cache_ok_def cache_cleanup_def)
qed

text \<open>A key that is asked for becomes the youngest.\<close>

lemma move_to_end_fields [simp]:
  "qc_heap (move_to_end key s) = qc_heap s" "qc_bytes (move_to_end key s) = qc_bytes s"
  "qc_nextPruneAt (move_to_end key s) = qc_nextPruneAt s" "qc_loads (move_to_end key s) = qc_loads s"
  "qc_cleanupTimer (move_to_end key s) = qc_cleanupTimer s"
  "jm_get (qc_map (move_to_end key s)) k = jm_get (qc_map s) k"
  by (auto simp: move_to_end_def split: option.splits)

lemma jm_set_not_Nil [simp]: "jm_set k v m \<noteq> []"
  by (cases m) auto

lemma move_to_end_empty: "qc_map (move_to_end key s) = [] \<longleftrightarrow> qc_map s = []"
  by (auto simp: move_to_end_def split: option.splits)

lemma move_to_end_length: "jm_ok (qc_map s) \<Longrightarrow> length (qc_map (move_to_end key s)) = length (qc_map s)"
proof (cases "jm_get (qc_map s) key")
  case (Some i)
  assume ok: "jm_ok (qc_map s)"
  have k: "key \<in> set (jm_keys (qc_map s))" using Some jm_get_None_iff [of "qc_map s" key] by simp
  then have "0 < length (qc_map s)" by (metis length_map length_pos_if_in_set)
  then show ?thesis using Some k ok by (simp add: move_to_end_def jm_length_set jm_length_del [OF ok] jm_keys_del del: set_map)
qed (simp add: move_to_end_def)

lemma move_to_end_shape:
  assumes "cache_shape s"
  shows "cache_shape (move_to_end key s)"
proof (cases "jm_get (qc_map s) key")
  case None
  then show ?thesis using assms by (simp add: move_to_end_def)
next
  case (Some i)
  note D = cache_shapeD [OF assms]
  have m: "qc_map (move_to_end key s) = jm_set key i (jm_del key (qc_map s))"
    using Some by (simp add: move_to_end_def)
  have "jm_sum (\<lambda>i. en_bytes (qc_heap s ! i)) (jm_set key i (jm_del key (qc_map s))) = jm_sum (\<lambda>i. en_bytes (qc_heap s ! i)) (qc_map s)"
    using jm_sum_del [OF D(1) Some] jm_sum_new [of "jm_del key (qc_map s)" key] by simp
  then have b: "qc_bytes s = int (jm_sum (\<lambda>i. en_bytes (qc_heap s ! i)) (qc_map (move_to_end key s)))"
    using D(4) m by simp
  have "jm_ok (qc_map (move_to_end key s))" using D(1) m by simp
  then show ?thesis
    using D(2,3) b m unfolding cache_shape_def move_to_end_fields by simp
qed

lemma move_to_end_core:
  assumes "cache_core clears s"
  shows "cache_core clears (move_to_end key s)"
  using assms move_to_end_shape
  unfolding cache_core_def loads_match_def values_loaded_def loads_kept_def load_running_def loaded_as_def move_to_end_fields
  by blast

lemma move_to_end_ok:
  assumes "cache_ok cfg clears s"
  shows "cache_ok cfg clears (move_to_end key s)"
  using move_to_end_length [OF cache_shapeD(1) [OF cache_coreD(1) [OF cache_okD(1) [OF assms]]]] assms
  by (simp add: cache_ok_def move_to_end_core move_to_end_empty)


section \<open>Loads\<close>

text \<open>The start of a load for an entry that has none.\<close>

lemma start_load_fields [simp]:
  "fst (start_load key ttlMs staleMs i s) = length (qc_loads s)"
  "qc_map (snd (start_load key ttlMs staleMs i s)) = qc_map s"
  "qc_bytes (snd (start_load key ttlMs staleMs i s)) = qc_bytes s"
  "qc_nextPruneAt (snd (start_load key ttlMs staleMs i s)) = qc_nextPruneAt s"
  "qc_cleanupTimer (snd (start_load key ttlMs staleMs i s)) = qc_cleanupTimer s"
  "qc_heap (snd (start_load key ttlMs staleMs i s)) =
     (qc_heap s)[i := (qc_heap s ! i)\<lparr>en_promise := Some (length (qc_loads s))\<rparr>]"
  "qc_loads (snd (start_load key ttlMs staleMs i s)) =
     qc_loads s @ [\<lparr>ld_key = key, ld_entry = i, ld_ttlMs = ttlMs, ld_staleMs = staleMs, ld_state = Load_Running\<rparr>]"
  by (simp_all add: start_load_def)

lemma start_load_running:
  "load_running (snd (start_load key ttlMs staleMs i s)) l \<longleftrightarrow> l = length (qc_loads s) \<or> load_running s l"
  by (auto simp: load_running_def nth_append)

lemma heap_update_nth:
  "i < length h \<Longrightarrow> (h[i := e]) ! j = (if j = i then e else h ! j)"
  by simp

lemma start_load_core:
  fixes s :: "'v query_cache"
  assumes core: "cache_core clears s" and here: "jm_get (qc_map s) key = Some i" and idle: "en_promise (qc_heap s ! i) = None"
  shows "cache_core clears (snd (start_load key ttlMs staleMs i s))"
proof -
  note C = cache_coreD [OF core] and S = cache_shapeD [OF cache_coreD(1) [OF core]]
  note M = loads_matchD [OF cache_coreD(2) [OF core]]
  let ?n = "length (qc_loads s)" and ?s = "snd (start_load key ttlMs staleMs i s)"
  have ih: "i < length (qc_heap s)" by (rule S(3) [OF here])
  have old: "qc_loads ?s ! l = qc_loads s ! l" if "l < ?n" for l using that by (simp add: nth_append)
  have heap: "qc_heap ?s ! j = (if j = i then (qc_heap s ! i)\<lparr>en_promise := Some ?n\<rparr> else qc_heap s ! j)" for j
    using ih by simp
  have "jm_sum (\<lambda>i. en_bytes (qc_heap ?s ! i)) (qc_map s) = jm_sum (\<lambda>i. en_bytes (qc_heap s ! i)) (qc_map s)"
    by (rule jm_sum_cong) (simp add: heap del: start_load_fields)
  then have "cache_shape ?s"
    using S unfolding cache_shape_def by (simp del: start_load_fields(6))
      (metis length_list_update start_load_fields(6))
  moreover have "loads_match ?s"
    unfolding loads_match_def
  proof (intro conjI allI impI)
    fix k j l assume g: "jm_get (qc_map ?s) k = Some j" and p: "en_promise (qc_heap ?s ! j) = Some l"
    have g': "jm_get (qc_map s) k = Some j" using g by simp
    have "load_running ?s l \<and> ld_key (qc_loads ?s ! l) = k \<and> ld_entry (qc_loads ?s ! l) = j"
    proof (cases "j = i")
      case True
      then have "k = key" "l = ?n" using S(2) [OF g'] here p unfolding heap by auto
      then show ?thesis using True start_load_running [of key ttlMs staleMs i s l] by simp
    next
      case False
      then have "en_promise (qc_heap s ! j) = Some l" using p unfolding heap by simp
      then have "load_running s l \<and> ld_key (qc_loads s ! l) = k \<and> ld_entry (qc_loads s ! l) = j" by (rule M(1) [OF g'])
      then show ?thesis using old [of l] start_load_running [of key ttlMs staleMs i s l] unfolding load_running_def by auto
    qed
    then show "load_running ?s l" "ld_key (qc_loads ?s ! l) = k" "ld_entry (qc_loads ?s ! l) = j" by auto
  next
    fix l assume r: "load_running ?s l" and g: "jm_get (qc_map ?s) (ld_key (qc_loads ?s ! l)) = Some (ld_entry (qc_loads ?s ! l))"
    show "en_promise (qc_heap ?s ! ld_entry (qc_loads ?s ! l)) = Some l"
    proof (cases "l = ?n")
      case True
      then show ?thesis using ih by simp
    next
      case False
      then have r': "load_running s l" and l: "l < ?n" using r start_load_running [of key ttlMs staleMs i s l]
        by (auto simp: load_running_def)
      have p: "en_promise (qc_heap s ! ld_entry (qc_loads s ! l)) = Some l"
        using M(2) [OF r'] g old [OF l] by simp
      then have "ld_entry (qc_loads s ! l) \<noteq> i" using idle by auto
      then show ?thesis using p unfolding old [OF l] heap by simp
    qed
  next
    fix l assume "l < length (qc_loads ?s)"
    then show "ld_entry (qc_loads ?s ! l) < length (qc_heap ?s)"
      using M(3) [of l] old [of l] ih by (cases "l = ?n") auto
  qed
  moreover have "values_loaded ?s"
    unfolding values_loaded_def
  proof (intro allI impI)
    fix k j v assume g: "jm_get (qc_map ?s) k = Some j" and v: "en_value (qc_heap ?s ! j) = Some v"
    have v': "en_value (qc_heap s ! j) = Some v" using v unfolding heap by (auto split: if_splits)
    obtain l c where lc: "loaded_as s k j v l c" "en_freshUntil (qc_heap s ! j) = c + ld_ttlMs (qc_loads s ! l)"
      "en_staleUntil (qc_heap s ! j) = c + ld_ttlMs (qc_loads s ! l) + ld_staleMs (qc_loads s ! l)"
      using C(3) g v' unfolding values_loaded_def by (metis start_load_fields(2))
    then have l: "l < ?n" by (simp add: loaded_as_def)
    have "loaded_as ?s k j v l c" using lc(1) old [OF l] l by (simp add: loaded_as_def)
    moreover have "en_freshUntil (qc_heap ?s ! j) = en_freshUntil (qc_heap s ! j)" "en_staleUntil (qc_heap ?s ! j) = en_staleUntil (qc_heap s ! j)"
      unfolding heap by auto
    ultimately show "\<exists>l c. loaded_as ?s k j v l c \<and> en_freshUntil (qc_heap ?s ! j) = c + ld_ttlMs (qc_loads ?s ! l) \<and>
        en_staleUntil (qc_heap ?s ! j) = c + ld_ttlMs (qc_loads ?s ! l) + ld_staleMs (qc_loads ?s ! l)"
      using lc(2,3) old [OF l] by metis
  qed
  moreover have "loads_kept ?s" if "\<not> clears"
    unfolding loads_kept_def
  proof (intro allI impI)
    fix l assume r: "load_running ?s l"
    show "jm_get (qc_map ?s) (ld_key (qc_loads ?s ! l)) = Some (ld_entry (qc_loads ?s ! l))"
    proof (cases "l = ?n")
      case True
      then show ?thesis using here by simp
    next
      case False
      then have r': "load_running s l" using r start_load_running [of key ttlMs staleMs i s l] by simp
      then have "l < ?n" by (simp add: load_running_def)
      then show ?thesis using C(4) [OF that] r' old [of l] by (simp add: loads_kept_def)
    qed
  qed
  ultimately show ?thesis by (simp add: cache_core_def)
qed

lemma start_load_ok:
  assumes ok: "cache_ok cfg clears s" and "jm_get (qc_map s) key = Some i" "en_promise (qc_heap s ! i) = None"
  shows "cache_ok cfg clears (snd (start_load key ttlMs staleMs i s))"
  using start_load_core [OF cache_okD(1) [OF ok] assms(2,3)] cache_okD(2-4) [OF ok] by (simp add: cache_ok_def)


text \<open>A new entry of the map, before its load starts.\<close>

definition add_entry :: "string \<Rightarrow> 'v query_cache \<Rightarrow> 'v query_cache" where
  "add_entry key s = armCleanup (s\<lparr>qc_heap := qc_heap s @
     [\<lparr>en_freshUntil = 0, en_staleUntil = 0, en_retryAt = 0, en_bytes = 0, en_value = None, en_promise = None\<rparr>],
     qc_map := jm_set key (length (qc_heap s)) (qc_map s)\<rparr>)"

lemma add_entry_fields [simp]:
  "qc_map (add_entry key s) = jm_set key (length (qc_heap s)) (qc_map s)"
  "qc_heap (add_entry key s) = qc_heap s @
     [\<lparr>en_freshUntil = 0, en_staleUntil = 0, en_retryAt = 0, en_bytes = 0, en_value = None, en_promise = None\<rparr>]"
  "qc_bytes (add_entry key s) = qc_bytes s" "qc_loads (add_entry key s) = qc_loads s"
  "qc_cleanupTimer (add_entry key s)"
  by (simp_all add: add_entry_def)

lemma add_entry_core:
  fixes s :: "'v query_cache"
  assumes core: "cache_core clears s" and none: "jm_get (qc_map s) key = None"
  shows "cache_core clears (add_entry key s)"
proof -
  note C = cache_coreD [OF core] and S = cache_shapeD [OF cache_coreD(1) [OF core]]
  note M = loads_matchD [OF cache_coreD(2) [OF core]]
  let ?n = "length (qc_heap s)" and ?s = "add_entry key s"
  have old: "qc_heap ?s ! j = qc_heap s ! j" if "j < ?n" for j using that by (simp add: nth_append)
  have jm: "jm_get (qc_map s) k = Some j" "j < ?n" "k \<noteq> key" if "jm_get (qc_map ?s) k = Some j" "j \<noteq> ?n" for k j
    using that none S(3) by (auto split: if_splits)
  have at_n: "k = key" if "jm_get (qc_map ?s) k = Some ?n" for k
    using that S(3) [of k ?n] by (auto split: if_splits)
  have "jm_sum (\<lambda>i. en_bytes (qc_heap ?s ! i)) (qc_map s) = jm_sum (\<lambda>i. en_bytes (qc_heap s ! i)) (qc_map s)"
  proof (rule jm_sum_cong)
    fix j assume "j \<in> set (jm_values (qc_map s))"
    then have "j < ?n" using jm_value_get [OF S(1)] S(3) by blast
    then show "en_bytes (qc_heap ?s ! j) = en_bytes (qc_heap s ! j)" by (simp only: old)
  qed
  then have "jm_sum (\<lambda>i. en_bytes (qc_heap ?s ! i)) (qc_map ?s) = jm_sum (\<lambda>i. en_bytes (qc_heap s ! i)) (qc_map s)"
    using jm_sum_new [OF none, of "\<lambda>i. en_bytes (qc_heap ?s ! i)" ?n] by simp
  moreover have "j < length (qc_heap ?s)" if "jm_get (qc_map ?s) k = Some j" for k j
    using that S(3) [of k j] by (auto split: if_splits)
  moreover have "k = k'" if "jm_get (qc_map ?s) k = Some j" "jm_get (qc_map ?s) k' = Some j" for k k' j
    using that at_n jm S(2) by (cases "j = ?n") blast+
  moreover have "jm_ok (qc_map ?s)" "qc_map ?s \<noteq> []" using S(1) by simp_all
  moreover have "qc_bytes ?s = qc_bytes s" by simp
  ultimately have "cache_shape ?s" using S(4) unfolding cache_shape_def by presburger
  moreover have "loads_match ?s"
    unfolding loads_match_def
  proof (intro conjI allI impI)
    fix k j l assume g: "jm_get (qc_map ?s) k = Some j" and p: "en_promise (qc_heap ?s ! j) = Some l"
    have j: "j \<noteq> ?n" using p by auto
    then have "load_running s l \<and> ld_key (qc_loads s ! l) = k \<and> ld_entry (qc_loads s ! l) = j"
      using M(1) [OF jm(1) [OF g j]] p unfolding old [OF jm(2) [OF g j]] by blast
    then show "load_running ?s l" "ld_key (qc_loads ?s ! l) = k" "ld_entry (qc_loads ?s ! l) = j"
      by (simp_all add: load_running_def)
  next
    fix l assume r: "load_running ?s l" and g: "jm_get (qc_map ?s) (ld_key (qc_loads ?s ! l)) = Some (ld_entry (qc_loads ?s ! l))"
    have r': "load_running s l" using r by (simp add: load_running_def)
    have lt: "ld_entry (qc_loads s ! l) < ?n" using M(3) r' by (simp add: load_running_def)
    then have "jm_get (qc_map s) (ld_key (qc_loads s ! l)) = Some (ld_entry (qc_loads s ! l))"
      using jm(1) [OF g] by simp
    then show "en_promise (qc_heap ?s ! ld_entry (qc_loads ?s ! l)) = Some l"
      using M(2) [OF r'] old [OF lt] by simp
  next
    fix l assume "l < length (qc_loads ?s)"
    then show "ld_entry (qc_loads ?s ! l) < length (qc_heap ?s)" using M(3) by (simp add: less_SucI)
  qed
  moreover have "values_loaded ?s"
    unfolding values_loaded_def
  proof (intro allI impI)
    fix k j v assume g: "jm_get (qc_map ?s) k = Some j" and v: "en_value (qc_heap ?s ! j) = Some v"
    have j: "j \<noteq> ?n" using v by auto
    show "\<exists>l c. loaded_as ?s k j v l c \<and> en_freshUntil (qc_heap ?s ! j) = c + ld_ttlMs (qc_loads ?s ! l) \<and>
        en_staleUntil (qc_heap ?s ! j) = c + ld_ttlMs (qc_loads ?s ! l) + ld_staleMs (qc_loads ?s ! l)"
      using C(3) jm(1) [OF g j] v unfolding old [OF jm(2) [OF g j]] values_loaded_def loaded_as_def add_entry_fields(4) by blast
  qed
  moreover have "loads_kept ?s" if "\<not> clears"
    unfolding loads_kept_def
  proof (intro allI impI)
    fix l assume "load_running ?s l"
    then have "jm_get (qc_map s) (ld_key (qc_loads s ! l)) = Some (ld_entry (qc_loads s ! l))"
      using C(4) [OF that] by (simp add: loads_kept_def load_running_def)
    then show "jm_get (qc_map ?s) (ld_key (qc_loads ?s ! l)) = Some (ld_entry (qc_loads ?s ! l))" using none by auto
  qed
  ultimately show ?thesis by (simp add: cache_core_def)
qed

lemma add_entry_ok:
  assumes "cache_ok cfg clears s" "jm_get (qc_map s) key = None" "length (qc_map s) < cc_maxEntries cfg"
  shows "cache_ok cfg clears (add_entry key s)"
  using assms add_entry_core [OF cache_okD(1) [OF assms(1)] assms(2)]
  by (simp add: cache_ok_def jm_length_set jm_get_None_iff del: set_map)

lemma cache_refresh_cases:
  "cache_refresh cfg key ttlMs staleMs s =
     (case jm_get (qc_map s) key of
        Some i \<Rightarrow> (Some (length (qc_loads s)), snd (start_load key ttlMs staleMs i s))
      | None \<Rightarrow>
          if cc_maxEntries cfg \<le> length (qc_map (cache_trim cfg 1 s)) then (None, cache_trim cfg 1 s)
          else (Some (length (qc_loads (cache_trim cfg 1 s))),
                snd (start_load key ttlMs staleMs (length (qc_heap (cache_trim cfg 1 s))) (add_entry key (cache_trim cfg 1 s)))))"
  by (auto simp: cache_refresh_def start_load_def add_entry_def Let_def split: option.splits)

text \<open>What asking for a load does: the state stays good, and a load of the key runs or the cache is full of loads.\<close>

lemma cache_refresh_ok:
  fixes s :: "'v query_cache"
  assumes ok: "cache_ok cfg clears s" and idle: "\<And>i. jm_get (qc_map s) key = Some i \<Longrightarrow> en_promise (qc_heap s ! i) = None"
    and r: "cache_refresh cfg key ttlMs staleMs s = (r, s')"
  shows "cache_ok cfg clears s'"
    and "r = Some l \<Longrightarrow> l = length (qc_loads s) \<and> length (qc_loads s') = Suc l \<and> load_running s' l \<and> ld_key (qc_loads s' ! l) = key"
    and "r = Some l \<Longrightarrow> l' < length (qc_loads s) \<Longrightarrow> qc_loads s' ! l' = qc_loads s ! l'"
    and "r = None \<Longrightarrow> qc_loads s' = qc_loads s \<and> length (qc_map s') = cc_maxEntries cfg \<and> jm_get (qc_map s') key = None \<and>
           (\<forall>k i. jm_get (qc_map s') k = Some i \<longrightarrow> en_promise (qc_heap s' ! i) \<noteq> None)"
proof -
  have sh: "cache_shape s" by (rule cache_coreD(1) [OF cache_okD(1) [OF ok]])
  let ?t = "cache_trim cfg 1 s"
  note K = shrinksD [OF cache_trim_shrinks [OF sh]]
  have tok: "cache_ok cfg clears ?t" by (rule shrinks_ok [OF cache_trim_shrinks [OF sh] ok])
  have n: "jm_get (qc_map ?t) key = None" if "jm_get (qc_map s) key = None"
    using K(3) [where k = key] that by (metis not_Some_eq)
  consider (here) i where "jm_get (qc_map s) key = Some i" "r = Some (length (qc_loads s))" "s' = snd (start_load key ttlMs staleMs i s)"
    | (full) "jm_get (qc_map s) key = None" "cc_maxEntries cfg \<le> length (qc_map ?t)" "r = None" "s' = ?t"
    | (new) "jm_get (qc_map s) key = None" "\<not> cc_maxEntries cfg \<le> length (qc_map ?t)" "r = Some (length (qc_loads ?t))"
        "s' = snd (start_load key ttlMs staleMs (length (qc_heap ?t)) (add_entry key ?t))"
    using r unfolding cache_refresh_cases by (auto split: option.splits if_splits)
  note cs = this
  have new_ok: "cache_ok cfg clears s'" if "jm_get (qc_map s) key = None" "\<not> cc_maxEntries cfg \<le> length (qc_map ?t)"
    "s' = snd (start_load key ttlMs staleMs (length (qc_heap ?t)) (add_entry key ?t))"
  proof -
    have "cache_ok cfg clears (add_entry key ?t)" using add_entry_ok [OF tok n [OF that(1)]] that(2) by simp
    then show ?thesis unfolding that(3) by (rule start_load_ok) simp_all
  qed
  show "cache_ok cfg clears s'"
    by (rule cs) (use start_load_ok [OF ok] idle tok new_ok in auto)
  show "l = length (qc_loads s) \<and> length (qc_loads s') = Suc l \<and> load_running s' l \<and> ld_key (qc_loads s' ! l) = key" if "r = Some l"
    by (rule cs) (use that K(2) in \<open>auto simp: load_running_def\<close>)
  show "qc_loads s' ! l' = qc_loads s ! l'" if "r = Some l" "l' < length (qc_loads s)"
    by (rule cs) (use that K(2) in \<open>auto simp: nth_append\<close>)
  show "qc_loads s' = qc_loads s \<and> length (qc_map s') = cc_maxEntries cfg \<and> jm_get (qc_map s') key = None \<and>
           (\<forall>k i. jm_get (qc_map s') k = Some i \<longrightarrow> en_promise (qc_heap s' ! i) \<noteq> None)" if "r = None"
  proof -
    have f: "jm_get (qc_map s) key = None" "cc_maxEntries cfg \<le> length (qc_map ?t)" "s' = ?t"
      using cs that by auto
    have "\<forall>k i. jm_get (qc_map ?t) k = Some i \<longrightarrow> en_promise (qc_heap s ! i) \<noteq> None"
    proof -
      have "\<not> length (qc_map ?t) + 1 \<le> cc_maxEntries cfg" using f(2) by simp
      then show ?thesis using cache_trim_limits [OF sh, of cfg 1] by blast
    qed
    then show ?thesis using f n K(1,2) cache_okD(3) [OF tok] by simp
  qed
qed


text \<open>The end of a load.\<close>

lemma nth_update_field: "f y = f (xs ! l) \<Longrightarrow> f (xs[l := y] ! j) = f (xs ! j)"
  by (cases "l < length xs"; cases "j = l") (auto simp: not_less list_update_beyond)

lemma set_load_fields [simp]:
  "qc_map (set_load l st s) = qc_map s" "qc_heap (set_load l st s) = qc_heap s" "qc_bytes (set_load l st s) = qc_bytes s"
  "qc_cleanupTimer (set_load l st s) = qc_cleanupTimer s" "length (qc_loads (set_load l st s)) = length (qc_loads s)"
  "ld_key (qc_loads (set_load l st s) ! l') = ld_key (qc_loads s ! l')"
  "ld_entry (qc_loads (set_load l st s) ! l') = ld_entry (qc_loads s ! l')"
  "ld_ttlMs (qc_loads (set_load l st s) ! l') = ld_ttlMs (qc_loads s ! l')"
  "ld_staleMs (qc_loads (set_load l st s) ! l') = ld_staleMs (qc_loads s ! l')"
  by (simp_all add: set_load_def nth_update_field [where f = ld_key] nth_update_field [where f = ld_entry]
        nth_update_field [where f = ld_ttlMs] nth_update_field [where f = ld_staleMs])

lemma set_load_running:
  "st \<noteq> Load_Running \<Longrightarrow> load_running s l \<Longrightarrow> load_running (set_load l st s) l' \<longleftrightarrow> load_running s l' \<and> l' \<noteq> l"
  by (auto simp: load_running_def set_load_def nth_list_update)

lemma set_load_loaded: "load_running s l \<Longrightarrow> loaded_as s k i v l' c \<Longrightarrow> loaded_as (set_load l st s) k i v l' c"
  by (auto simp: loaded_as_def load_running_def set_load_def nth_list_update)

text \<open>A load that ended is over for the entry it ran for, if that entry is still in the map.\<close>

definition finish :: "nat \<Rightarrow> 'v load_state \<Rightarrow> 'v cache_entry \<Rightarrow> 'v query_cache \<Rightarrow> 'v query_cache" where
  "finish l st e s =
     (let i = ld_entry (qc_loads s ! l) in
      (set_load l st s)\<lparr>qc_heap := (qc_heap s)[i := e], qc_bytes := qc_bytes s - int (en_bytes (qc_heap s ! i)) + int (en_bytes e)\<rparr>)"

lemma finish_fields [simp]:
  "qc_map (finish l st e s) = qc_map s" "qc_heap (finish l st e s) = (qc_heap s)[ld_entry (qc_loads s ! l) := e]"
  "qc_cleanupTimer (finish l st e s) = qc_cleanupTimer s" "qc_loads (finish l st e s) = qc_loads (set_load l st s)"
  "qc_bytes (finish l st e s) = qc_bytes s - int (en_bytes (qc_heap s ! ld_entry (qc_loads s ! l))) + int (en_bytes e)"
  by (simp_all add: finish_def Let_def)

lemma finish_running: "load_running (finish l st e s) l' = load_running (set_load l st s) l'"
  by (simp add: load_running_def)

lemma finish_core:
  fixes s :: "'v query_cache"
  assumes core: "cache_core clears s" and run: "load_running s l" and st: "st \<noteq> Load_Running"
    and here: "jm_get (qc_map s) (ld_key (qc_loads s ! l)) = Some i" and i: "ld_entry (qc_loads s ! l) = i"
    and idle: "en_promise e = None"
    and val: "\<And>v. en_value e = Some v \<Longrightarrow>
        (\<exists>c. st = Loaded (Some v) c \<and> en_freshUntil e = c + ld_ttlMs (qc_loads s ! l) \<and>
           en_staleUntil e = c + ld_ttlMs (qc_loads s ! l) + ld_staleMs (qc_loads s ! l)) \<or>
        en_value (qc_heap s ! i) = Some v \<and> en_freshUntil e = en_freshUntil (qc_heap s ! i) \<and>
           en_staleUntil e = en_staleUntil (qc_heap s ! i)"
  shows "cache_core clears (finish l st e s)"
proof -
  note C = cache_coreD [OF core] and S = cache_shapeD [OF cache_coreD(1) [OF core]]
  note M = loads_matchD [OF cache_coreD(2) [OF core]]
  let ?s = "finish l st e s"
  have ih: "i < length (qc_heap s)" by (rule S(3) [OF here])
  have heap: "qc_heap ?s ! j = (if j = i then e else qc_heap s ! j)" for j using ih i by simp
  have mine: "en_promise (qc_heap s ! i) = Some l" using M(2) [OF run] here i by simp
  have run': "load_running ?s l' \<longleftrightarrow> load_running s l' \<and> l' \<noteq> l" for l'
    unfolding finish_running by (rule set_load_running [OF st run])
  have "distinct (jm_values (qc_map s))" by (rule jm_distinct_values [OF S(1)]) (rule S(2))
  moreover have "i \<in> set (jm_values (qc_map s))" by (rule jm_get_value [OF here])
  ultimately have "jm_sum (\<lambda>i. en_bytes (qc_heap ?s ! i)) (qc_map s) + en_bytes (qc_heap s ! i)
      = jm_sum (\<lambda>i. en_bytes (qc_heap s ! i)) (qc_map s) + en_bytes (qc_heap ?s ! i)"
    by (rule jm_sum_change [where f = "\<lambda>i. en_bytes (qc_heap s ! i)" and g = "\<lambda>i. en_bytes (qc_heap ?s ! i)"]) (simp only: heap if_False)
  then have "qc_bytes ?s = int (jm_sum (\<lambda>i. en_bytes (qc_heap ?s ! i)) (qc_map s))"
    using S(4) i unfolding finish_fields(5) heap by simp
  then have "cache_shape ?s"
    using S(1,2,3,5) unfolding cache_shape_def by (metis finish_fields(1,2,3) length_list_update)
  moreover have "loads_match ?s"
    unfolding loads_match_def
  proof (intro conjI allI impI)
    fix k j l' assume g: "jm_get (qc_map ?s) k = Some j" and p: "en_promise (qc_heap ?s ! j) = Some l'"
    have j: "j \<noteq> i" using p idle unfolding heap by auto
    then have m: "load_running s l' \<and> ld_key (qc_loads s ! l') = k \<and> ld_entry (qc_loads s ! l') = j"
      using M(1) g p unfolding heap finish_fields(1) by presburger
    then have "l' \<noteq> l" using i j by auto
    then show "load_running ?s l'" "ld_key (qc_loads ?s ! l') = k" "ld_entry (qc_loads ?s ! l') = j"
      using m run' by simp_all
  next
    fix l' assume r: "load_running ?s l'" and g: "jm_get (qc_map ?s) (ld_key (qc_loads ?s ! l')) = Some (ld_entry (qc_loads ?s ! l'))"
    have r': "load_running s l'" "l' \<noteq> l" using r run' by auto
    have p: "en_promise (qc_heap s ! ld_entry (qc_loads s ! l')) = Some l'" using M(2) [OF r'(1)] g by simp
    then have "ld_entry (qc_loads s ! l') \<noteq> i" using mine r'(2) by auto
    then show "en_promise (qc_heap ?s ! ld_entry (qc_loads ?s ! l')) = Some l'" using p unfolding heap by simp
  next
    fix l' assume "l' < length (qc_loads ?s)"
    then show "ld_entry (qc_loads ?s ! l') < length (qc_heap ?s)" using M(3) by simp
  qed
  moreover have "values_loaded ?s"
    unfolding values_loaded_def
  proof (intro allI impI)
    fix k j v assume g: "jm_get (qc_map ?s) k = Some j" and v: "en_value (qc_heap ?s ! j) = Some v"
    have g': "jm_get (qc_map s) k = Some j" using g by simp
    show "\<exists>l' c. loaded_as ?s k j v l' c \<and> en_freshUntil (qc_heap ?s ! j) = c + ld_ttlMs (qc_loads ?s ! l') \<and>
        en_staleUntil (qc_heap ?s ! j) = c + ld_ttlMs (qc_loads ?s ! l') + ld_staleMs (qc_loads ?s ! l')"
    proof (cases "\<exists>c. j = i \<and> st = Loaded (Some v) c \<and> en_freshUntil e = c + ld_ttlMs (qc_loads s ! l) \<and>
           en_staleUntil e = c + ld_ttlMs (qc_loads s ! l) + ld_staleMs (qc_loads s ! l)")
      case True
      then obtain c where c: "j = i" "st = Loaded (Some v) c" "en_freshUntil e = c + ld_ttlMs (qc_loads s ! l)"
           "en_staleUntil e = c + ld_ttlMs (qc_loads s ! l) + ld_staleMs (qc_loads s ! l)" by blast
      have "k = ld_key (qc_loads s ! l)" using S(2) [OF g'] here c(1) by blast
      then have "loaded_as ?s k j v l c" using run i c(1,2) by (simp add: loaded_as_def load_running_def set_load_def)
      then show ?thesis using c unfolding heap by auto
    next
      case False
      have old: "en_value (qc_heap s ! j) = Some v" "en_freshUntil (qc_heap ?s ! j) = en_freshUntil (qc_heap s ! j)"
        "en_staleUntil (qc_heap ?s ! j) = en_staleUntil (qc_heap s ! j)"
        using False v val [of v] unfolding heap by (auto split: if_splits)
      obtain l' c where lc: "loaded_as s k j v l' c" "en_freshUntil (qc_heap s ! j) = c + ld_ttlMs (qc_loads s ! l')"
        "en_staleUntil (qc_heap s ! j) = c + ld_ttlMs (qc_loads s ! l') + ld_staleMs (qc_loads s ! l')"
        using C(3) g' old(1) unfolding values_loaded_def by blast
      have "loaded_as ?s k j v l' c" using set_load_loaded [OF run lc(1), of st] by (simp add: loaded_as_def)
      then show ?thesis using lc(2,3) old(2,3) by auto
    qed
  qed
  moreover have "loads_kept ?s" if "\<not> clears"
    using C(4) [OF that] run' unfolding loads_kept_def by simp
  ultimately show ?thesis by (simp add: cache_core_def)
qed

text \<open>A load that ended for an entry that is no longer in the map, or that leaves the map now.\<close>

lemma drop_load_core:
  fixes s :: "'v query_cache"
  assumes core: "cache_core clears s" and run: "load_running s l" and st: "st \<noteq> Load_Running"
  shows "jm_get (qc_map s) (ld_key (qc_loads s ! l)) \<noteq> Some (ld_entry (qc_loads s ! l)) \<Longrightarrow> cache_core clears (set_load l st s)"
    and "jm_get (qc_map s) (ld_key (qc_loads s ! l)) = Some (ld_entry (qc_loads s ! l)) \<Longrightarrow>
           cache_core clears (cache_remove (ld_key (qc_loads s ! l)) (set_load l st s))"
proof -
  note C = cache_coreD [OF core] and S = cache_shapeD [OF cache_coreD(1) [OF core]]
  note M = loads_matchD [OF cache_coreD(2) [OF core]]
  let ?s = "set_load l st s"
  let ?k = "ld_key (qc_loads s ! l)" and ?i = "ld_entry (qc_loads s ! l)"
  have run': "load_running ?s l' \<longleftrightarrow> load_running s l' \<and> l' \<noteq> l" for l' by (rule set_load_running [OF st run])
  have sh: "cache_shape ?s" using C(1) by (simp add: cache_shape_def)
  have val: "values_loaded ?s"
    using C(3) set_load_loaded [OF run] unfolding values_loaded_def set_load_fields by meson
  show "cache_core clears ?s" if away: "jm_get (qc_map s) ?k \<noteq> Some ?i"
  proof -
    have "loads_match ?s"
      unfolding loads_match_def set_load_fields run' using M away by blast
    moreover have "loads_kept ?s" if "\<not> clears"
      using C(4) [OF that] unfolding loads_kept_def set_load_fields run' by blast
    ultimately show ?thesis using sh val by (simp add: cache_core_def)
  qed
  show "cache_core clears (cache_remove ?k ?s)" if here: "jm_get (qc_map s) ?k = Some ?i"
  proof -
    let ?r = "cache_remove ?k ?s"
    have mine: "en_promise (qc_heap s ! ?i) = Some l" by (rule M(2) [OF run here])
    have rr: "load_running ?r l' \<longleftrightarrow> load_running s l' \<and> l' \<noteq> l" for l'
      using run' by (simp add: load_running_def)
    have sub: "jm_get (qc_map s) k = Some j \<and> k \<noteq> ?k" if "jm_get (qc_map ?r) k = Some j" for k j
      using that by (simp split: if_splits)
    have lf: "ld_key (qc_loads ?r ! l') = ld_key (qc_loads s ! l')" "ld_entry (qc_loads ?r ! l') = ld_entry (qc_loads s ! l')" for l'
      by simp_all
    have "loads_match ?r"
      unfolding loads_match_def
    proof (intro conjI allI impI)
      fix k j l' assume g: "jm_get (qc_map ?r) k = Some j" and p: "en_promise (qc_heap ?r ! j) = Some l'"
      have m: "load_running s l' \<and> ld_key (qc_loads s ! l') = k \<and> ld_entry (qc_loads s ! l') = j"
        using M(1) [OF conjunct1 [OF sub [OF g]]] p by simp
      then have "l' \<noteq> l" using sub [OF g] by auto
      then show "load_running ?r l'" "ld_key (qc_loads ?r ! l') = k" "ld_entry (qc_loads ?r ! l') = j"
        using m rr lf by simp_all
    next
      fix l' assume r: "load_running ?r l'" and g: "jm_get (qc_map ?r) (ld_key (qc_loads ?r ! l')) = Some (ld_entry (qc_loads ?r ! l'))"
      have "load_running s l'" using r rr by simp
      then show "en_promise (qc_heap ?r ! ld_entry (qc_loads ?r ! l')) = Some l'"
        using M(2) sub [OF g] unfolding lf by simp
    next
      fix l' assume "l' < length (qc_loads ?r)"
      then show "ld_entry (qc_loads ?r ! l') < length (qc_heap ?r)" using M(3) by simp
    qed
    moreover have "values_loaded ?r"
      unfolding values_loaded_def
    proof (intro allI impI)
      fix k j v assume g: "jm_get (qc_map ?r) k = Some j" and v: "en_value (qc_heap ?r ! j) = Some v"
      have "jm_get (qc_map ?s) k = Some j" "en_value (qc_heap ?s ! j) = Some v" using sub [OF g] v by simp_all
      then show "\<exists>l c. loaded_as ?r k j v l c \<and> en_freshUntil (qc_heap ?r ! j) = c + ld_ttlMs (qc_loads ?r ! l) \<and>
          en_staleUntil (qc_heap ?r ! j) = c + ld_ttlMs (qc_loads ?r ! l) + ld_staleMs (qc_loads ?r ! l)"
        using val unfolding values_loaded_def loaded_as_def cache_remove_fields(2,4) by blast
    qed
    moreover have "loads_kept ?r" if "\<not> clears"
      unfolding loads_kept_def
    proof (intro allI impI)
      fix l' assume "load_running ?r l'"
      then have r: "load_running s l'" "l' \<noteq> l" using rr by auto
      have g: "jm_get (qc_map s) (ld_key (qc_loads s ! l')) = Some (ld_entry (qc_loads s ! l'))"
        using C(4) [OF that] r(1) by (simp add: loads_kept_def)
      have "ld_key (qc_loads s ! l') \<noteq> ?k"
        using M(2) [OF r(1) g] g here mine r(2) by auto
      then show "jm_get (qc_map ?r) (ld_key (qc_loads ?r ! l')) = Some (ld_entry (qc_loads ?r ! l'))" using g by simp
    qed
    ultimately show ?thesis using cache_remove_shape [OF sh] by (simp add: cache_core_def)
  qed
qed


lemma load_failed_ok:
  fixes s :: "'v query_cache"
  assumes ok: "cache_ok cfg clears s" and run: "load_running s l"
  shows "cache_ok cfg clears (load_failed cfg t l s)"
proof -
  note O = cache_okD [OF ok] and M = loads_matchD [OF cache_coreD(2) [OF cache_okD(1) [OF ok]]]
  let ?k = "ld_key (qc_loads s ! l)" and ?i = "ld_entry (qc_loads s ! l)"
  let ?s1 = "set_load l Load_Failed s"
  let ?e = "(qc_heap s ! ?i)\<lparr>en_promise := None, en_retryAt := t + cc_retryMs cfg\<rparr>"
  show ?thesis
  proof (cases "jm_get (qc_map s) ?k = Some ?i")
    case False
    then have "load_failed cfg t l s = ?s1" by (simp add: load_failed_def Let_def)
    then show ?thesis using drop_load_core(1) [OF O(1) run _ False] O(2-4) by (simp add: cache_ok_def)
  next
    case True
    have core: "cache_core clears (finish l Load_Failed ?e s)"
      by (rule finish_core [OF O(1) run _ True refl]) simp_all
    have ih: "?i < length (qc_heap s)" using M(3) run by (simp add: load_running_def)
    let ?f = "?s1\<lparr>qc_heap := (qc_heap s)[?i := ?e]\<rparr>"
    have "cache_core clears ?f"
      by (rule cache_core_cong [OF _ _ _ _ _ core]) (use cache_shapeD(5) [OF cache_coreD(1) [OF O(1)]] in simp_all)
    then have fok: "cache_ok cfg clears ?f" using O(2-4) by (simp add: cache_ok_def)
    have "load_failed cfg t l s = (if en_value (qc_heap s ! ?i) = None then cache_remove ?k ?f else ?f)"
      using True ih by (simp add: load_failed_def Let_def)
    moreover have "shrinks ?f (cache_remove ?k ?f)" by (rule cache_remove_shrinks) (use True ih in \<open>simp add: loading_iff\<close>)
    ultimately show ?thesis using fok shrinks_ok by (metis (no_types, lifting))
  qed
qed

text \<open>A trimming after a load whose entry is no longer loading brings the bytes back under the limit.\<close>

lemma load_succeeded_ok:
  fixes s :: "'v query_cache"
  assumes ok: "cache_ok cfg clears s" and run: "load_running s l"
  shows "cache_ok cfg clears (load_succeeded cfg t l v s)"
proof -
  note O = cache_okD [OF ok] and S = cache_shapeD [OF cache_coreD(1) [OF cache_okD(1) [OF ok]]]
  let ?ld = "qc_loads s ! l"
  let ?k = "ld_key ?ld" and ?i = "ld_entry ?ld"
  let ?size = "load_size cfg ?k v"
  let ?s1 = "set_load l (Loaded v t) s"
  consider (away) "jm_get (qc_map s) ?k \<noteq> Some ?i"
    | (big) "jm_get (qc_map s) ?k = Some ?i" "\<not> bytes_within cfg (int ?size)"
    | (fits) "jm_get (qc_map s) ?k = Some ?i" "bytes_within cfg (int ?size)" by blast
  then show ?thesis
  proof cases
    case away
    then have "load_succeeded cfg t l v s = ?s1" by (simp add: load_succeeded_def Let_def)
    then show ?thesis using drop_load_core(1) [OF O(1) run _ away] O(2-4) by (simp add: cache_ok_def)
  next
    case big
    have r: "load_succeeded cfg t l v s = cache_remove ?k ?s1" using big by (simp add: load_succeeded_def Let_def)
    have c: "cache_core clears (cache_remove ?k ?s1)" by (rule drop_load_core(2) [OF O(1) run _ big(1)]) simp
    have "length (jm_del ?k (qc_map s)) \<le> cc_maxEntries cfg" using jm_length_del_le [of ?k "qc_map s"] O(3) by linarith
    moreover have "bytes_within cfg (qc_bytes s - int (en_bytes (qc_heap s ! ?i)))" by (rule bytes_within_mono [OF O(4)]) simp
    moreover have "qc_cleanupTimer s" if "jm_del ?k (qc_map s) \<noteq> []" using that O(2) by (cases "qc_map s = []") simp_all
    ultimately show ?thesis using c big(1) unfolding r by (simp add: cache_ok_def)
  next
    case fits
    let ?e = "(qc_heap s ! ?i)\<lparr>en_value := v, en_promise := None, en_bytes := ?size, en_retryAt := 0,
       en_freshUntil := t + ld_ttlMs ?ld, en_staleUntil := t + ld_ttlMs ?ld + ld_staleMs ?ld\<rparr>"
    let ?f = "finish l (Loaded v t) ?e s"
    have r: "load_succeeded cfg t l v s = cache_trim cfg 0 ?f"
      using fits by (simp add: load_succeeded_def finish_def Let_def)
    have fc: "cache_core clears ?f" by (rule finish_core [OF O(1) run _ fits(1) refl]) simp_all
    have fsh: "cache_shape ?f" by (rule cache_coreD(1) [OF fc])
    let ?r = "cache_trim cfg 0 ?f"
    note K = shrinksD [OF cache_trim_shrinks [OF fsh]]
    have rc: "cache_core clears ?r" by (rule shrinks_core [OF cache_trim_shrinks [OF fsh] fc])
    have len: "length (qc_map ?r) \<le> cc_maxEntries cfg" by (rule le_trans [OF K(8) [unfolded finish_fields(1), OF S(1)] O(3)])
    have "bytes_within cfg (qc_bytes ?r)"
    proof (cases "bytes_within cfg (qc_bytes ?r)")
      case False
      then have busy: "\<And>k j. jm_get (qc_map ?r) k = Some j \<Longrightarrow> en_promise (qc_heap ?f ! j) \<noteq> None"
        using cache_trim_limits [OF fsh, of cfg 0] by blast
      let ?b = "\<lambda>j. en_bytes (qc_heap ?f ! j)" and ?g = "\<lambda>j. if en_promise (qc_heap ?f ! j) = None then 0 else en_bytes (qc_heap ?f ! j)"
      have ih: "?i < length (qc_heap s)" by (rule S(3) [OF fits(1)])
      have 1: "qc_bytes ?r = int (jm_sum ?b (qc_map ?r))"
        using cache_shapeD(4) [OF cache_coreD(1) [OF rc]] unfolding K(1) .
      have 2: "jm_sum ?b (qc_map ?r) = jm_sum ?g (qc_map ?r)"
      proof (rule jm_sum_cong)
        fix j assume "j \<in> set (jm_values (qc_map ?r))"
        then obtain k where "jm_get (qc_map ?r) k = Some j"
          using jm_value_get [OF cache_shapeD(1) [OF cache_coreD(1) [OF rc]]] by blast
        then have "en_promise (qc_heap ?f ! j) \<noteq> None" by (rule busy)
        then show "?b j = ?g j" by (simp only: if_False)
      qed
      have 3: "jm_sum ?g (qc_map ?r) \<le> jm_sum ?g (qc_map s)" using K(5) [of ?g] unfolding finish_fields(1) .
      have 4: "jm_sum ?g (qc_map s) \<le> jm_sum (\<lambda>j. en_bytes (qc_heap s ! j)) (qc_map s)"
      proof (rule jm_sum_mono)
        fix j show "?g j \<le> en_bytes (qc_heap s ! j)" using ih by (cases "j = ?i") simp_all
      qed
      have "qc_bytes ?r \<le> qc_bytes s" unfolding 1 2 S(4) using 3 4 by linarith
      then show ?thesis by (rule bytes_within_mono [OF O(4)])
    qed simp
    moreover have "qc_cleanupTimer ?r" if "qc_map ?r \<noteq> []" using K(7) [OF that] O(2) by simp
    ultimately show ?thesis using rc len unfolding r by (simp add: cache_ok_def)
  qed
qed

lemma createQueryCache_ok: "cache_ok cfg clears (createQueryCache t)"
  by (simp add: cache_ok_def cache_core_def cache_shape_def loads_match_def values_loaded_def loads_kept_def
        load_running_def createQueryCache_def bytes_within_def split: option.splits)

lemma sub_core:
  assumes "cache_core True s" "cache_shape s'" "qc_heap s' = qc_heap s" "qc_loads s' = qc_loads s"
    and sub: "\<And>k i. jm_get (qc_map s') k = Some i \<Longrightarrow> jm_get (qc_map s) k = Some i"
  shows "cache_core True s'"
proof -
  have "loads_match s'"
    using loads_matchD [OF cache_coreD(2) [OF assms(1)]] sub
    unfolding loads_match_def load_running_def assms(3,4) by blast
  moreover have "values_loaded s'"
    using cache_coreD(3) [OF assms(1)] sub unfolding values_loaded_def loaded_as_def assms(3,4) by blast
  ultimately show ?thesis using assms(2) by (simp add: cache_core_def)
qed

lemma cache_remove_ok:
  assumes ok: "cache_ok cfg True s"
  shows "cache_ok cfg True (cache_remove key s)"
proof -
  note O = cache_okD [OF ok]
  have "cache_core True (cache_remove key s)"
    by (rule sub_core [OF O(1) cache_remove_shape [OF cache_coreD(1) [OF O(1)]]]) (simp_all split: if_splits)
  moreover have "length (jm_del key (qc_map s)) \<le> cc_maxEntries cfg"
    using jm_length_del_le [of key "qc_map s"] O(3) by linarith
  moreover have "bytes_within cfg (qc_bytes (cache_remove key s))"
    by (rule bytes_within_mono [OF O(4)]) (simp split: option.splits)
  moreover have "qc_cleanupTimer s" if "jm_del key (qc_map s) \<noteq> []" using that O(2) by (cases "qc_map s = []") simp_all
  ultimately show ?thesis by (simp add: cache_ok_def)
qed

lemma cache_clear_fold_ok:
  "cache_ok cfg True s \<Longrightarrow> cache_ok cfg True (foldl (\<lambda>s key. if f key then cache_remove key s else s) s keys)"
  by (induction keys arbitrary: s) (simp_all add: cache_remove_ok)

lemma cache_clear_ok:
  assumes ok: "cache_ok cfg True s"
  shows "cache_ok cfg True (cache_clear matches s)"
proof (cases matches)
  case None
  let ?s = "stopCleanupIfEmpty (s\<lparr>qc_map := [], qc_bytes := 0\<rparr>)"
  have "cache_core True ?s"
    by (rule sub_core [OF cache_okD(1) [OF ok]]) (simp_all add: cache_shape_def)
  then show ?thesis using None by (simp add: cache_clear_def cache_ok_def bytes_within_def split: option.splits)
qed (simp add: cache_clear_def cache_clear_fold_ok [OF ok])


section \<open>Calls\<close>

lemma cache_ready_ok:
  assumes ok: "cache_ok cfg clears s"
  shows "cache_ok cfg clears (cache_ready cfg t key s)"
    and "qc_loads (cache_ready cfg t key s) = qc_loads s" "qc_heap (cache_ready cfg t key s) = qc_heap s"
    and "jm_get (qc_map (cache_ready cfg t key s)) k = Some i \<Longrightarrow> jm_get (qc_map s) k = Some i"
    and "jm_get (qc_map s) k = Some i \<Longrightarrow> en_promise (qc_heap s ! i) \<noteq> None \<Longrightarrow> jm_get (qc_map (cache_ready cfg t key s)) k = Some i"
proof -
  let ?p = "if qc_nextPruneAt s \<le> t then (cache_prune cfg t s)\<lparr>qc_nextPruneAt := t + 1000\<rparr> else s"
  have sh: "cache_shape s" by (rule cache_coreD(1) [OF cache_okD(1) [OF ok]])
  note K = shrinksD [OF cache_prune_shrinks [OF sh, of cfg t]]
  have "cache_ok cfg clears ((cache_prune cfg t s)\<lparr>qc_nextPruneAt := t + 1000\<rparr>)"
  proof -
    note P = cache_okD [OF cache_prune_ok [OF ok, of t]]
    have "cache_core clears ((cache_prune cfg t s)\<lparr>qc_nextPruneAt := t + 1000\<rparr>)"
      by (rule cache_core_cong [OF _ _ _ _ _ P(1)]) (use cache_shapeD(5) [OF cache_coreD(1) [OF P(1)]] in simp_all)
    then show ?thesis using P(2-4) by (simp add: cache_ok_def)
  qed
  then have "cache_ok cfg clears ?p" using ok by simp
  then show "cache_ok cfg clears (cache_ready cfg t key s)" unfolding cache_ready_def by (rule move_to_end_ok)
  show "qc_loads (cache_ready cfg t key s) = qc_loads s" "qc_heap (cache_ready cfg t key s) = qc_heap s"
    using K(1,2) by (simp_all add: cache_ready_def)
  show "jm_get (qc_map s) k = Some i" if "jm_get (qc_map (cache_ready cfg t key s)) k = Some i"
    using that K(3) by (auto simp: cache_ready_def split: if_splits)
  show "jm_get (qc_map (cache_ready cfg t key s)) k = Some i" if "jm_get (qc_map s) k = Some i" "en_promise (qc_heap s ! i) \<noteq> None"
    using that K(4) [OF that] by (simp add: cache_ready_def)
qed

text \<open>What a call finds: a load to wait for, a value it answers with and whether it is renewed, or no usable entry.\<close>

lemma cache_get_cases:
  fixes s0 :: "'v query_cache"
  assumes s: "s = cache_ready cfg t key s0" and g: "cache_get cfg t key ttlMs staleMs s0 = (a, s')"
  obtains (fresh) i v where "jm_get (qc_map s) key = Some i" "en_value (qc_heap s ! i) = Some v" "t < en_staleUntil (qc_heap s ! i) \<or> t < en_freshUntil (qc_heap s ! i)"
      "a = Answer_Value v" "s' = s" "t < en_freshUntil (qc_heap s ! i) \<or> en_promise (qc_heap s ! i) \<noteq> None \<or> t < en_retryAt (qc_heap s ! i)"
    | (renewed) i v r stale where "jm_get (qc_map s) key = Some i" "en_value (qc_heap s ! i) = Some v" "t < en_staleUntil (qc_heap s ! i)"
      "en_promise (qc_heap s ! i) = None" "a = Answer_Value v" "cache_refresh cfg key ttlMs stale s = (r, s')"
    | (joined) i l where "jm_get (qc_map s) key = Some i" "en_promise (qc_heap s ! i) = Some l" "a = Answer_Load l" "s' = s"
    | (loads) r stale where "\<And>i. jm_get (qc_map s) key = Some i \<Longrightarrow> en_promise (qc_heap s ! i) = None"
      "cache_refresh cfg key ttlMs stale s = (r, s')" "a = (case r of Some l \<Rightarrow> Answer_Load l | None \<Rightarrow> Answer_Busy)"
proof -
  define stale where "stale = (case staleMs of Some m \<Rightarrow> m | None \<Rightarrow> ttlMs)"
  have ao: "\<exists>r. cache_refresh cfg key ttlMs stale s = (r, s') \<and> a = (case r of Some l \<Rightarrow> Answer_Load l | None \<Rightarrow> Answer_Busy)"
    if "answer_of (cache_refresh cfg key ttlMs stale s) = (a, s')"
    using that by (cases "cache_refresh cfg key ttlMs stale s") (auto simp: answer_of_def split: option.splits)
  note G = g [unfolded cache_get_def Let_def, folded s stale_def]
  show thesis
  proof (cases "jm_get (qc_map s) key")
    case None
    then have "entry_at s key = None" by (simp add: entry_at_None)
    then have "answer_of (cache_refresh cfg key ttlMs stale s) = (a, s')" using G by simp
    then show thesis using ao loads None by (metis option.distinct(1))
  next
    case (Some i)
    let ?e = "qc_heap s ! i"
    have e: "entry_at s key = Some ?e" using Some by (simp add: entry_at_def)
    show thesis
    proof (cases "en_value ?e")
      case None
      show thesis
      proof (cases "en_promise ?e")
        case None
        then have "answer_of (cache_refresh cfg key ttlMs stale s) = (a, s')" using G e \<open>en_value ?e = None\<close> by simp
        then show thesis using ao loads Some None by (metis option.inject)
      next
        case (Some l)
        then show thesis using joined [OF \<open>jm_get (qc_map s) key = Some i\<close>] G e None by simp
      qed
    next
      case (Some v)
      note v = this and i = \<open>jm_get (qc_map s) key = Some i\<close>
      consider "t < en_freshUntil ?e" | "\<not> t < en_freshUntil ?e" "t < en_staleUntil ?e" "en_promise ?e = None" "en_retryAt ?e \<le> t"
        | "\<not> t < en_freshUntil ?e" "t < en_staleUntil ?e" "\<not> (en_promise ?e = None \<and> en_retryAt ?e \<le> t)"
        | l where "\<not> t < en_freshUntil ?e" "\<not> t < en_staleUntil ?e" "en_promise ?e = Some l"
        | "\<not> t < en_freshUntil ?e" "\<not> t < en_staleUntil ?e" "en_promise ?e = None" by fastforce
      then show thesis
      proof cases
        case 1
        then show thesis using fresh [OF i v] G e v by simp
      next
        case 2
        then have "a = Answer_Value v" "cache_refresh cfg key ttlMs stale s = (fst (cache_refresh cfg key ttlMs stale s), s')"
          using G e v by (auto intro: prod_eqI)
        then show thesis using renewed [OF i v 2(2,3)] by blast
      next
        case 3
        have eq: "a = Answer_Value v" "s' = s" using G e v 3 by auto
        have "t < en_freshUntil ?e \<or> en_promise ?e \<noteq> None \<or> t < en_retryAt ?e" using 3 by auto
        then show thesis using fresh [OF i v disjI1 [OF 3(2)] eq] by blast
      next
        case (4 l)
        then show thesis using joined [OF i 4(3)] G e v by simp
      next
        case 5
        then have "answer_of (cache_refresh cfg key ttlMs stale s) = (a, s')" using G e v by simp
        then show thesis using ao loads i 5(3) by (metis option.inject)
      qed
    qed
  qed
qed


text \<open>A call keeps the invariant and answers with a value of its key, with a load of its key, or with nothing.\<close>

lemma cache_get_result:
  fixes s0 :: "'v query_cache"
  assumes ok: "cache_ok cfg clears s0" and g: "cache_get cfg t key ttlMs staleMs s0 = (a, s')"
  shows "cache_ok cfg clears s'"
    and "a = Answer_Value v \<Longrightarrow> \<exists>i l c. jm_get (qc_map s') key = Some i \<and> loaded_as s' key i v l c \<and>
           (t < c + ld_ttlMs (qc_loads s' ! l) \<or> t < c + ld_ttlMs (qc_loads s' ! l) + ld_staleMs (qc_loads s' ! l)) \<and>
           (t < c + ld_ttlMs (qc_loads s' ! l) \<or> en_promise (qc_heap s' ! i) \<noteq> None \<or> t < en_retryAt (qc_heap s' ! i))"
    and "a = Answer_Load l \<Longrightarrow> load_running s' l \<and> ld_key (qc_loads s' ! l) = key \<and>
           jm_get (qc_map s') key = Some (ld_entry (qc_loads s' ! l))"
    and "a = Answer_Busy \<Longrightarrow> length (qc_map s') = cc_maxEntries cfg \<and> jm_get (qc_map s') key = None \<and>
           (\<forall>k i. jm_get (qc_map s') k = Some i \<longrightarrow> en_promise (qc_heap s' ! i) \<noteq> None)"
    and "jm_get (qc_map s0) key = Some i \<Longrightarrow> en_promise (qc_heap s0 ! i) \<noteq> None \<Longrightarrow> qc_loads s' = qc_loads s0"
proof -
  define s where "s = cache_ready cfg t key s0"
  note R = cache_ready_ok [OF ok, where t = t and key = key, folded s_def]
  note V = cache_coreD(3) [OF cache_okD(1) [OF R(1)], unfolded values_loaded_def]
  note M = loads_matchD [OF cache_coreD(2) [OF cache_okD(1) [OF R(1)]]]
  have here: "qc_map s' = qc_map s \<and> s' = snd (start_load key ttlMs stale i s)"
    if "jm_get (qc_map s) key = Some i" "cache_refresh cfg key ttlMs stale s = (r, s')" for i r stale
    using that by (auto simp: cache_refresh_cases)
  have idle: "\<And>j. jm_get (qc_map s) key = Some j \<Longrightarrow> en_promise (qc_heap s ! j) = None"
    if "jm_get (qc_map s) key = Some i" "en_promise (qc_heap s ! i) = None" for i
    using that by simp
  show "cache_ok cfg clears s'"
    by (rule cache_get_cases [OF s_def g]) (use R(1) cache_refresh_ok(1) [OF R(1)] idle in \<open>blast+\<close>)
  show "\<exists>i l c. jm_get (qc_map s') key = Some i \<and> loaded_as s' key i v l c \<and>
           (t < c + ld_ttlMs (qc_loads s' ! l) \<or> t < c + ld_ttlMs (qc_loads s' ! l) + ld_staleMs (qc_loads s' ! l)) \<and>
           (t < c + ld_ttlMs (qc_loads s' ! l) \<or> en_promise (qc_heap s' ! i) \<noteq> None \<or> t < en_retryAt (qc_heap s' ! i))" if av: "a = Answer_Value v"
  proof (rule cache_get_cases [OF s_def g])
    fix i w
    assume i: "jm_get (qc_map s) key = Some i" and w: "en_value (qc_heap s ! i) = Some w" and a: "a = Answer_Value w" and s': "s' = s"
      and u: "t < en_staleUntil (qc_heap s ! i) \<or> t < en_freshUntil (qc_heap s ! i)"
      "t < en_freshUntil (qc_heap s ! i) \<or> en_promise (qc_heap s ! i) \<noteq> None \<or> t < en_retryAt (qc_heap s ! i)"
    obtain l c where "loaded_as s key i w l c" "en_freshUntil (qc_heap s ! i) = c + ld_ttlMs (qc_loads s ! l)"
      "en_staleUntil (qc_heap s ! i) = c + ld_ttlMs (qc_loads s ! l) + ld_staleMs (qc_loads s ! l)"
      using V i w by blast
    then show ?thesis using i a av u unfolding s' by auto
  next
    fix i w r stale
    assume i: "jm_get (qc_map s) key = Some i" and w: "en_value (qc_heap s ! i) = Some w" and a: "a = Answer_Value w"
      and u: "t < en_staleUntil (qc_heap s ! i)" and p: "en_promise (qc_heap s ! i) = None"
      and r: "cache_refresh cfg key ttlMs stale s = (r, s')"
    obtain l c where lc: "loaded_as s key i w l c"
      "en_staleUntil (qc_heap s ! i) = c + ld_ttlMs (qc_loads s ! l) + ld_staleMs (qc_loads s ! l)"
      using V i w by blast
    have s': "s' = snd (start_load key ttlMs stale i s)" using here [OF i r] by blast
    have "i < length (qc_heap s)" by (rule cache_shapeD(3) [OF cache_coreD(1) [OF cache_okD(1) [OF R(1)]] i])
    then have "en_promise (qc_heap s' ! i) \<noteq> None" unfolding s' by simp
    moreover have "loaded_as s' key i w l c" "qc_loads s' ! l = qc_loads s ! l"
      using lc(1) unfolding s' by (simp_all add: loaded_as_def nth_append)
    moreover have "jm_get (qc_map s') key = Some i" using i unfolding s' by simp
    moreover have "v = w" using a av by simp
    moreover have "t < c + ld_ttlMs (qc_loads s' ! l) + ld_staleMs (qc_loads s' ! l)"
      using lc(2) u \<open>qc_loads s' ! l = qc_loads s ! l\<close> by simp
    ultimately show ?thesis by blast
  qed (use av in \<open>auto split: option.splits\<close>)
  show "load_running s' l \<and> ld_key (qc_loads s' ! l) = key \<and> jm_get (qc_map s') key = Some (ld_entry (qc_loads s' ! l))"
    if al: "a = Answer_Load l"
  proof (rule cache_get_cases [OF s_def g])
    fix i l' assume "jm_get (qc_map s) key = Some i" "en_promise (qc_heap s ! i) = Some l'" "a = Answer_Load l'" "s' = s"
    then show ?thesis using M(1) al by auto
  next
    fix r stale
    assume n: "\<And>i. jm_get (qc_map s) key = Some i \<Longrightarrow> en_promise (qc_heap s ! i) = None"
      and r: "cache_refresh cfg key ttlMs stale s = (r, s')" and a: "a = (case r of Some l \<Rightarrow> Answer_Load l | None \<Rightarrow> Answer_Busy)"
    have rl: "r = Some l" using a al by (simp split: option.splits)
    have "jm_get (qc_map s') key = Some (ld_entry (qc_loads s' ! l))"
      using r rl unfolding cache_refresh_cases by (auto split: option.splits if_splits)
    then show ?thesis using cache_refresh_ok(2) [OF R(1) n r rl] by blast
  qed (use al in auto)
  show "length (qc_map s') = cc_maxEntries cfg \<and> jm_get (qc_map s') key = None \<and>
           (\<forall>k i. jm_get (qc_map s') k = Some i \<longrightarrow> en_promise (qc_heap s' ! i) \<noteq> None)" if ab: "a = Answer_Busy"
  proof (rule cache_get_cases [OF s_def g])
    fix r stale
    assume n: "\<And>i. jm_get (qc_map s) key = Some i \<Longrightarrow> en_promise (qc_heap s ! i) = None"
      and r: "cache_refresh cfg key ttlMs stale s = (r, s')" and a: "a = (case r of Some l \<Rightarrow> Answer_Load l | None \<Rightarrow> Answer_Busy)"
    have "r = None" using a ab by (simp split: option.splits)
    then show ?thesis using cache_refresh_ok(4) [OF R(1) n r] by blast
  qed (use ab in auto)
  show "qc_loads s' = qc_loads s0" if "jm_get (qc_map s0) key = Some i" "en_promise (qc_heap s0 ! i) \<noteq> None"
  proof -
    have i: "jm_get (qc_map s) key = Some i" "en_promise (qc_heap s ! i) \<noteq> None" using R(5) [OF that] R(3) that(2) by simp_all
    show ?thesis by (rule cache_get_cases [OF s_def g]) (use i R(2) in auto)
  qed
qed

section \<open>Histories\<close>

abbreviation cache_reachable :: "'v cache_config \<Rightarrow> bool \<Rightarrow> int \<Rightarrow> 'v query_cache \<Rightarrow> bool" where
  "cache_reachable cfg clears t \<equiv> (cache_step cfg clears)\<^sup>*\<^sup>* (createQueryCache t)"

lemma cache_step_ok:
  assumes "cache_step cfg clears s s'" "cache_ok cfg clears s"
  shows "cache_ok cfg clears s'"
  using assms
proof (cases rule: cache_step.cases)
  case (cache_step_get t key ttlMs staleMs)
  then show ?thesis using cache_get_result(1) [OF assms(2) prod.collapse [symmetric]] by simp
next
  case (cache_step_clear matches)
  then show ?thesis using cache_clear_ok assms(2) by auto
qed (simp_all add: assms(2) load_succeeded_ok load_failed_ok cache_prune_ok cache_cleanup_ok)

lemma cache_steps_ok: "(cache_step cfg clears)\<^sup>*\<^sup>* s s' \<Longrightarrow> cache_ok cfg clears s \<Longrightarrow> cache_ok cfg clears s'"
  by (induction rule: rtranclp_induct) (auto intro: cache_step_ok)

lemma cache_reachable_ok: "cache_reachable cfg clears t s \<Longrightarrow> cache_ok cfg clears s"
  by (rule cache_steps_ok [OF _ createQueryCache_ok])

text \<open>How a step changes the map: an entry is an old one of the key or a new one, and loads stay what they are.\<close>

definition grows :: "'v query_cache \<Rightarrow> 'v query_cache \<Rightarrow> bool" where
  "grows s s' \<longleftrightarrow>
     length (qc_heap s) \<le> length (qc_heap s') \<and> length (qc_loads s) \<le> length (qc_loads s') \<and>
     (\<forall>l < length (qc_loads s). ld_key (qc_loads s' ! l) = ld_key (qc_loads s ! l) \<and> ld_entry (qc_loads s' ! l) = ld_entry (qc_loads s ! l)) \<and>
     (\<forall>k i. jm_get (qc_map s') k = Some i \<longrightarrow> jm_get (qc_map s) k = Some i \<or> length (qc_heap s) \<le> i)"

lemma growsI_same:
  "qc_heap s' = qc_heap s \<Longrightarrow> qc_loads s' = qc_loads s \<Longrightarrow> (\<And>k i. jm_get (qc_map s') k = Some i \<Longrightarrow> jm_get (qc_map s) k = Some i) \<Longrightarrow> grows s s'"
  by (simp add: grows_def)

lemma growsD:
  assumes "grows s s'"
  shows "length (qc_heap s) \<le> length (qc_heap s')" "length (qc_loads s) \<le> length (qc_loads s')"
    and "l < length (qc_loads s) \<Longrightarrow> ld_key (qc_loads s' ! l) = ld_key (qc_loads s ! l) \<and> ld_entry (qc_loads s' ! l) = ld_entry (qc_loads s ! l)"
    and "jm_get (qc_map s') k = Some i \<Longrightarrow> jm_get (qc_map s) k = Some i \<or> length (qc_heap s) \<le> i"
  using assms unfolding grows_def by blast+

lemma grows_trans:
  assumes "grows s s'" "grows s' s''"
  shows "grows s s''"
proof -
  note A = growsD [OF assms(1)] and B = growsD [OF assms(2)]
  have "jm_get (qc_map s) k = Some i \<or> length (qc_heap s) \<le> i" if "jm_get (qc_map s'') k = Some i" for k i
    using B(4) [OF that] A(4) [of k i] A(1) by linarith
  moreover have "ld_key (qc_loads s'' ! l) = ld_key (qc_loads s ! l) \<and> ld_entry (qc_loads s'' ! l) = ld_entry (qc_loads s ! l)"
    if "l < length (qc_loads s)" for l
    using A(3) [OF that] B(3) [OF less_le_trans [OF that A(2)]] by simp
  ultimately show ?thesis using le_trans [OF A(1) B(1)] le_trans [OF A(2) B(2)] unfolding grows_def by blast
qed

lemma shrinks_grows: "shrinks s s' \<Longrightarrow> grows s s'"
  by (rule growsI_same) (rule shrinksD(1,2,3); assumption)+

lemma set_load_grows: "grows s (set_load l st s)"
  by (simp add: grows_def)

lemma start_load_grows: "grows s (snd (start_load key ttlMs staleMs i s))"
  by (simp add: grows_def nth_append)

lemma add_entry_grows: "grows s (add_entry key s)"
  by (simp add: grows_def)

lemma cache_refresh_grows:
  assumes "cache_shape s"
  shows "grows s (snd (cache_refresh cfg key ttlMs staleMs s))"
proof -
  have t: "grows s (cache_trim cfg 1 s)" by (rule shrinks_grows [OF cache_trim_shrinks [OF assms]])
  show ?thesis
    unfolding cache_refresh_cases
    by (cases "jm_get (qc_map s) key")
       (use t grows_trans [OF t grows_trans [OF add_entry_grows start_load_grows]] start_load_grows [of s] in simp_all)
qed

lemma cache_get_grows:
  assumes ok: "cache_ok cfg clears s"
  shows "grows s (snd (cache_get cfg t key ttlMs staleMs s))"
proof -
  let ?r = "cache_ready cfg t key s"
  note R = cache_ready_ok [OF ok, where t = t and key = key]
  have g: "grows s ?r" by (rule growsI_same) (use R(2,3,4) in auto)
  have f: "grows ?r (snd (cache_refresh cfg key ttlMs stale ?r))" for stale
    by (rule cache_refresh_grows [OF cache_coreD(1) [OF cache_okD(1) [OF R(1)]]])
  have "snd (cache_get cfg t key ttlMs staleMs s) = ?r \<or>
      (\<exists>stale. snd (cache_get cfg t key ttlMs staleMs s) = snd (cache_refresh cfg key ttlMs stale ?r))"
    by (rule cache_get_cases [OF refl, of cfg t key ttlMs staleMs s "fst (cache_get cfg t key ttlMs staleMs s)" "snd (cache_get cfg t key ttlMs staleMs s)"])
       (simp_all, (metis snd_conv)+)
  then show ?thesis using g grows_trans [OF g f] by auto
qed


lemma load_succeeded_grows:
  assumes ok: "cache_ok cfg clears s" and run: "load_running s l"
  shows "grows s (load_succeeded cfg t l v s)"
proof -
  note O = cache_okD [OF ok]
  let ?k = "ld_key (qc_loads s ! l)" and ?i = "ld_entry (qc_loads s ! l)"
  let ?size = "load_size cfg ?k v"
  let ?e = "(qc_heap s ! ?i)\<lparr>en_value := v, en_promise := None, en_bytes := ?size, en_retryAt := 0,
     en_freshUntil := t + ld_ttlMs (qc_loads s ! l), en_staleUntil := t + ld_ttlMs (qc_loads s ! l) + ld_staleMs (qc_loads s ! l)\<rparr>"
  let ?f = "finish l (Loaded v t) ?e s"
  consider (away) "jm_get (qc_map s) ?k \<noteq> Some ?i"
    | (big) "jm_get (qc_map s) ?k = Some ?i" "\<not> bytes_within cfg (int ?size)"
    | (fits) "jm_get (qc_map s) ?k = Some ?i" "bytes_within cfg (int ?size)" by blast
  then show ?thesis
  proof cases
    case away
    then have "load_succeeded cfg t l v s = set_load l (Loaded v t) s" by (simp add: load_succeeded_def Let_def)
    then show ?thesis by (simp add: set_load_grows)
  next
    case big
    then have "load_succeeded cfg t l v s = cache_remove ?k (set_load l (Loaded v t) s)" by (simp add: load_succeeded_def Let_def)
    moreover have "grows (set_load l (Loaded v t) s) (cache_remove ?k (set_load l (Loaded v t) s))"
      by (rule growsI_same) (simp_all split: if_splits)
    ultimately show ?thesis using grows_trans [OF set_load_grows] by simp
  next
    case fits
    have r: "load_succeeded cfg t l v s = cache_trim cfg 0 ?f" using fits by (simp add: load_succeeded_def finish_def Let_def)
    have "cache_core clears ?f" by (rule finish_core [OF O(1) run _ fits(1) refl]) simp_all
    then have "grows ?f (cache_trim cfg 0 ?f)" by (intro shrinks_grows cache_trim_shrinks cache_coreD(1))
    moreover have "grows s ?f" by (simp add: grows_def)
    ultimately show ?thesis unfolding r using grows_trans by blast
  qed
qed

lemma load_failed_grows: "grows s (load_failed cfg t l s)"
proof -
  let ?k = "ld_key (qc_loads s ! l)" and ?i = "ld_entry (qc_loads s ! l)"
  let ?f = "(set_load l Load_Failed s)\<lparr>qc_heap := (qc_heap s)[?i := (qc_heap s ! ?i)\<lparr>en_promise := None, en_retryAt := t + cc_retryMs cfg\<rparr>]\<rparr>"
  have c: "load_failed cfg t l s =
      (if jm_get (qc_map s) ?k \<noteq> Some ?i then set_load l Load_Failed s
       else if en_value (qc_heap ?f ! ?i) = None then cache_remove ?k ?f else ?f)"
    by (simp add: load_failed_def Let_def)
  have f: "grows s ?f" by (simp add: grows_def)
  have "grows ?f (cache_remove ?k ?f)" by (rule growsI_same) (simp_all split: if_splits)
  then have "grows s (cache_remove ?k ?f)" by (rule grows_trans [OF f])
  then show ?thesis unfolding c using f set_load_grows [of s l Load_Failed] by (simp only: if_split) blast
qed

lemma cache_cleanup_grows:
  assumes "cache_ok cfg clears s"
  shows "grows s (cache_cleanup cfg t s)"
proof -
  let ?s0 = "s\<lparr>qc_cleanupTimer := False\<rparr>"
  have "cache_core clears ?s0" by (rule cache_core_cong [OF _ _ _ _ _ cache_okD(1) [OF assms]]) simp_all
  then have "grows ?s0 (cache_prune cfg t ?s0)" by (intro shrinks_grows cache_prune_shrinks cache_coreD(1))
  then show ?thesis by (simp add: grows_def cache_cleanup_def)
qed

lemma cache_remove_fold_same:
  "qc_heap (foldl (\<lambda>s key. if f key then cache_remove key s else s) s keys) = qc_heap s"
  "qc_loads (foldl (\<lambda>s key. if f key then cache_remove key s else s) s keys) = qc_loads s"
  "jm_get (qc_map (foldl (\<lambda>s key. if f key then cache_remove key s else s) s keys)) k =
     (if k \<in> set keys \<and> f k then None else jm_get (qc_map s) k)"
  by (induction keys arbitrary: s) auto

text \<open>The keys a clearing is for.\<close>

definition clears_key :: "(string \<Rightarrow> bool) option \<Rightarrow> string \<Rightarrow> bool" where
  "clears_key matches key = (case matches of None \<Rightarrow> True | Some f \<Rightarrow> f key)"

lemma cache_clear_fields:
  "qc_heap (cache_clear matches s) = qc_heap s" "qc_loads (cache_clear matches s) = qc_loads s"
  "jm_get (qc_map (cache_clear matches s)) k = (if clears_key matches k then None else jm_get (qc_map s) k)"
proof -
  show "qc_heap (cache_clear matches s) = qc_heap s" "qc_loads (cache_clear matches s) = qc_loads s"
    by (cases matches; simp add: cache_clear_def cache_remove_fold_same)+
  have "jm_get (qc_map s) k = None" if "k \<notin> set (jm_keys (qc_map s))" using that by (simp only: jm_get_None_iff simp_thms)
  then show "jm_get (qc_map (cache_clear matches s)) k = (if clears_key matches k then None else jm_get (qc_map s) k)"
    by (cases matches; cases "k \<in> set (jm_keys (qc_map s))")
       (simp_all add: cache_clear_def clears_key_def cache_remove_fold_same del: set_map)
qed

lemma cache_step_grows:
  assumes "cache_step cfg clears s s'" "cache_ok cfg clears s"
  shows "grows s s'"
  using assms
proof (cases rule: cache_step.cases)
  case (cache_step_prune t)
  then show ?thesis using assms(2) by (meson cache_coreD(1) cache_okD(1) cache_prune_shrinks shrinks_grows)
next
  case (cache_step_clear matches)
  show ?thesis unfolding cache_step_clear(1)
    by (rule growsI_same) (simp_all add: cache_clear_fields split: if_splits)
qed (use assms(2) in \<open>simp_all add: cache_get_grows load_succeeded_grows load_failed_grows cache_cleanup_grows\<close>)

lemma cache_steps_grow:
  "(cache_step cfg clears)\<^sup>*\<^sup>* s s' \<Longrightarrow> cache_ok cfg clears s \<Longrightarrow> grows s s'"
proof (induction rule: rtranclp_induct)
  case base
  show ?case by (simp add: grows_def)
next
  case (step y z)
  then show ?case using grows_trans cache_step_grows cache_steps_ok by blast
qed

section \<open>Properties\<close>

text \<open>
  Whatever is asked, loaded, expired and cleared, the cache holds at most \<open>maxEntries\<close> entries and \<open>maxBytes\<close>
  bytes, its counter of the bytes is the sum over its entries, and the clean-up timer runs exactly while there is an
  entry, so nothing stays after the last request.
\<close>

theorem query_cache_bounded:
  assumes "cache_reachable cfg clears t0 s"
  shows "length (qc_map s) \<le> cc_maxEntries cfg \<and>
    (case cc_maxBytes cfg of None \<Rightarrow> True | Some mx \<Rightarrow> qc_bytes s \<le> int mx) \<and>
    qc_bytes s = int (\<Sum>i \<leftarrow> jm_values (qc_map s). en_bytes (qc_heap s ! i)) \<and>
    (qc_cleanupTimer s \<longleftrightarrow> qc_map s \<noteq> [])"
proof -
  note O = cache_okD [OF cache_reachable_ok [OF assms]]
  note S = cache_shapeD [OF cache_coreD(1) [OF O(1)]]
  have "case cc_maxBytes cfg of None \<Rightarrow> True | Some mx \<Rightarrow> qc_bytes s \<le> int mx" using O(4) by (simp add: bytes_within_def)
  moreover have "qc_bytes s = int (\<Sum>i \<leftarrow> jm_values (qc_map s). en_bytes (qc_heap s ! i))" using S(4) by (simp only: jm_sum_def)
  ultimately show ?thesis using O(2,3) S(5) by blast
qed


text \<open>
  C23. A call answers with a value only when a load of this key returned it less than its fresh and stale time ago,
  and once the value is no longer fresh a renewal is under way or the last one failed less than the retry time ago;
  it answers with a load only when that load of this key is running; it is turned away only when all places are taken
  by running loads of other keys.  While the cache is not cleared no key is ever loaded twice at the same
  time, and in any case a call whose entry is loading starts no other load.
\<close>

theorem query_cache_answers:
  assumes "cache_reachable cfg clears t0 s" "cache_get cfg t key ttlMs staleMs s = (a, s')"
  shows "(\<forall>v. a = Answer_Value v \<longrightarrow>
      (\<exists>i l c. jm_get (qc_map s') key = Some i \<and> loaded_as s' key i v l c \<and>
        (t < c + ld_ttlMs (qc_loads s' ! l) \<or> t < c + ld_ttlMs (qc_loads s' ! l) + ld_staleMs (qc_loads s' ! l)) \<and>
        (t < c + ld_ttlMs (qc_loads s' ! l) \<or> en_promise (qc_heap s' ! i) \<noteq> None \<or> t < en_retryAt (qc_heap s' ! i)))) \<and>
    (\<forall>l. a = Answer_Load l \<longrightarrow> load_running s' l \<and> ld_key (qc_loads s' ! l) = key) \<and>
    (a = Answer_Busy \<longrightarrow> length (qc_map s') = cc_maxEntries cfg \<and> jm_get (qc_map s') key = None \<and>
      (\<forall>k i. jm_get (qc_map s') k = Some i \<longrightarrow>
        (\<exists>l. load_running s' l \<and> ld_key (qc_loads s' ! l) = k))) \<and>
    (\<not> clears \<longrightarrow> (\<forall>l l'. load_running s' l \<longrightarrow> load_running s' l' \<longrightarrow>
      ld_key (qc_loads s' ! l) = ld_key (qc_loads s' ! l') \<longrightarrow> l = l')) \<and>
    (\<forall>i. jm_get (qc_map s) key = Some i \<longrightarrow> en_promise (qc_heap s ! i) \<noteq> None \<longrightarrow> qc_loads s' = qc_loads s)"
proof (intro conjI)
  note R = cache_get_result [OF cache_reachable_ok [OF assms(1)] assms(2)]
  note C = cache_coreD [OF cache_okD(1) [OF R(1)]]
  note M = loads_matchD [OF C(2)]
  show "\<forall>v. a = Answer_Value v \<longrightarrow>
      (\<exists>i l c. jm_get (qc_map s') key = Some i \<and> loaded_as s' key i v l c \<and>
        (t < c + ld_ttlMs (qc_loads s' ! l) \<or> t < c + ld_ttlMs (qc_loads s' ! l) + ld_staleMs (qc_loads s' ! l)) \<and>
        (t < c + ld_ttlMs (qc_loads s' ! l) \<or> en_promise (qc_heap s' ! i) \<noteq> None \<or> t < en_retryAt (qc_heap s' ! i)))"
    using R(2) by blast
  show "\<forall>l. a = Answer_Load l \<longrightarrow> load_running s' l \<and> ld_key (qc_loads s' ! l) = key" using R(3) by blast
  show "a = Answer_Busy \<longrightarrow> length (qc_map s') = cc_maxEntries cfg \<and> jm_get (qc_map s') key = None \<and>
      (\<forall>k i. jm_get (qc_map s') k = Some i \<longrightarrow> (\<exists>l. load_running s' l \<and> ld_key (qc_loads s' ! l) = k))"
    using R(4) M(1) by blast
  show "\<not> clears \<longrightarrow> (\<forall>l l'. load_running s' l \<longrightarrow> load_running s' l' \<longrightarrow>
      ld_key (qc_loads s' ! l) = ld_key (qc_loads s' ! l') \<longrightarrow> l = l')"
  proof (intro impI allI)
    fix l l' assume n: "\<not> clears" and r: "load_running s' l" "load_running s' l'"
      and k: "ld_key (qc_loads s' ! l) = ld_key (qc_loads s' ! l')"
    have g: "jm_get (qc_map s') (ld_key (qc_loads s' ! m)) = Some (ld_entry (qc_loads s' ! m))" if "load_running s' m" for m
      using C(4) [OF n] that by (simp add: loads_kept_def)
    have e: "ld_entry (qc_loads s' ! l) = ld_entry (qc_loads s' ! l')" using g [OF r(1)] g [OF r(2)] unfolding k by simp
    have "Some l = Some l'" unfolding M(2) [OF r(1) g [OF r(1)], symmetric] M(2) [OF r(2) g [OF r(2)], symmetric] e by (rule refl)
    then show "l = l'" by simp
  qed
  show "\<forall>i. jm_get (qc_map s) key = Some i \<longrightarrow> en_promise (qc_heap s ! i) \<noteq> None \<longrightarrow> qc_loads s' = qc_loads s"
    using R(5) by blast
qed

text \<open>
  C33. After a clearing, nothing of what it was for comes back: a later call for a cleared key answers only with a
  value of a load, or with a load, that began after the clearing, although loads begun before it may still end.
\<close>

theorem query_cache_clear_forgets:
  assumes "cache_reachable cfg True t0 s" "clears_key matches key"
    and "(cache_step cfg True)\<^sup>*\<^sup>* (cache_clear matches s) s1" "cache_get cfg t key ttlMs staleMs s1 = (a, s2)"
  shows "(\<forall>v. a = Answer_Value v \<longrightarrow> (\<exists>i l c. length (qc_loads s) \<le> l \<and> loaded_as s2 key i v l c)) \<and>
    (\<forall>l. a = Answer_Load l \<longrightarrow> length (qc_loads s) \<le> l)"
proof -
  let ?c = "cache_clear matches s"
  have c: "cache_ok cfg True ?c" by (rule cache_clear_ok [OF cache_reachable_ok [OF assms(1)]])
  have ok1: "cache_ok cfg True s1" by (rule cache_steps_ok [OF assms(3) c])
  have "grows s1 s2" using cache_get_grows [OF ok1, of t key ttlMs staleMs] assms(4) by simp
  then have g: "grows ?c s2" using cache_steps_grow [OF assms(3) c] grows_trans by blast
  note G = growsD [OF g, unfolded cache_clear_fields(1,2)]
  note R = cache_get_result [OF ok1 assms(4)]
  have none: "jm_get (qc_map ?c) key = None" using assms(2) by (simp add: cache_clear_fields)
  have late: "length (qc_loads s) \<le> l" if "jm_get (qc_map s2) key = Some (ld_entry (qc_loads s2 ! l))" for l
  proof (rule ccontr)
    assume "\<not> length (qc_loads s) \<le> l"
    then have l: "l < length (qc_loads s)" by simp
    have "length (qc_heap s) \<le> ld_entry (qc_loads s2 ! l)" using G(4) [OF that] none by simp
    moreover have "ld_entry (qc_loads s ! l) < length (qc_heap s)"
      using loads_matchD(3) [OF cache_coreD(2) [OF cache_okD(1) [OF c]]] l by (simp add: cache_clear_fields)
    ultimately show False using G(3) [OF l] by simp
  qed
  show ?thesis
  proof (intro conjI allI impI)
    fix v assume "a = Answer_Value v"
    then obtain i l c where ilc: "jm_get (qc_map s2) key = Some i" "loaded_as s2 key i v l c" using R(2) by blast
    have "ld_entry (qc_loads s2 ! l) = i" using ilc(2) by (simp add: loaded_as_def)
    then show "\<exists>i l c. length (qc_loads s) \<le> l \<and> loaded_as s2 key i v l c" using late ilc by blast
  next
    fix l assume "a = Answer_Load l"
    then show "length (qc_loads s) \<le> l" using R(3) late by blast
  qed
qed

section \<open>Witnesses\<close>

definition demo_cfg :: "nat cache_config" where
  "demo_cfg = cache_config_of (Some 1) (Some 10) (Some (\<lambda>_. 2)) None"

definition demo_loading :: "nat query_cache" where
  "demo_loading = snd (cache_get demo_cfg 0 ''k'' 5 None (createQueryCache 0))"

definition demo_loaded :: "nat query_cache" where
  "demo_loaded = load_succeeded demo_cfg 1 0 (Some 7) demo_loading"

lemma demo_reachable: "cache_reachable demo_cfg clears 0 demo_loading" "cache_reachable demo_cfg clears 0 demo_loaded"
proof -
  show 1: "cache_reachable demo_cfg clears 0 demo_loading"
    unfolding demo_loading_def by (rule r_into_rtranclp) (rule cache_step_get)
  have "load_running demo_loading 0" by code_simp
  then show "cache_reachable demo_cfg clears 0 demo_loaded"
    unfolding demo_loaded_def by (rule rtranclp.rtrancl_into_rtrancl [OF 1 cache_step_loaded])
qed

theorem query_cache_bounded_witness: "length (qc_map demo_loaded) = 1 \<and> qc_bytes demo_loaded = 4 \<and> qc_cleanupTimer demo_loaded"
proof -
  have "qc_map demo_loaded = [(''k'', 0)]" "qc_bytes demo_loaded = 4" by code_simp+
  then show ?thesis using query_cache_bounded [OF demo_reachable(2)] by simp
qed

theorem query_cache_answers_witness:
  "fst (cache_get demo_cfg 3 ''k'' 5 None demo_loaded) = Answer_Value 7 \<and>
   (\<exists>i l c. loaded_as (snd (cache_get demo_cfg 3 ''k'' 5 None demo_loaded)) ''k'' i 7 l c)"
proof -
  let ?r = "cache_get demo_cfg 3 ''k'' 5 None demo_loaded"
  have v: "fst ?r = Answer_Value 7" by code_simp
  have "\<forall>v. fst ?r = Answer_Value v \<longrightarrow> (\<exists>i l c. jm_get (qc_map (snd ?r)) ''k'' = Some i \<and> loaded_as (snd ?r) ''k'' i v l c \<and>
        (3 < c + ld_ttlMs (qc_loads (snd ?r) ! l) \<or> 3 < c + ld_ttlMs (qc_loads (snd ?r) ! l) + ld_staleMs (qc_loads (snd ?r) ! l)) \<and>
        (3 < c + ld_ttlMs (qc_loads (snd ?r) ! l) \<or> en_promise (qc_heap (snd ?r) ! i) \<noteq> None \<or> 3 < en_retryAt (qc_heap (snd ?r) ! i)))"
    by (rule conjunct1 [OF query_cache_answers [OF demo_reachable(2) [of True] prod.collapse [symmetric]]])
  then show ?thesis using v by blast
qed

theorem query_cache_clear_forgets_witness:
  "\<exists>l. fst (cache_get demo_cfg 3 ''k'' 5 None (cache_clear None demo_loaded)) = Answer_Load l \<and> 1 \<le> l"
proof -
  have a: "fst (cache_get demo_cfg 3 ''k'' 5 None (cache_clear None demo_loaded)) = Answer_Load 1" by code_simp
  have n: "length (qc_loads demo_loaded) = 1" by code_simp
  have "clears_key None ''k''" by (simp add: clears_key_def)
  then show ?thesis
    using query_cache_clear_forgets [OF demo_reachable(2) _ rtranclp.rtrancl_refl prod.collapse [symmetric]] a n by auto
qed

end
