(* ===== verification/Host_Traffic.thy ===== *)
theory Host_Traffic
imports FX_Prelude
begin

text \<open>
  Hosts that used up their traffic (\<open>shared/hostTrafficPolicy.ts\<close>) and what tunnels do without them
  (\<open>server/hostTrafficRuntimePlan.ts\<close>, \<open>shared/tunnelRelay.ts\<close>): a tunnel with a group of entries or exits leaves the
  exhausted ones out, a relay with several transit hops drops the exhausted ones, and where nothing is left
  the tunnel is planned as disabled.  Identifiers are numbers already; ports and addresses are only passed on.
\<close>

section \<open>Policy\<close>

record host_policy =
  hp_trafficLimit :: jsval
  hp_trafficMeasureMode :: jsval
  hp_trafficFailoverEnabled :: jsval
  hp_trafficFailoverThresholdPercent :: jsval
  hp_trafficFailoverExcluded :: jsval

definition hostPolicyBool :: "jsval \<Rightarrow> bool" where
  "hostPolicyBool v \<longleftrightarrow> v = JBool True \<or> v = JNum 1 \<or> v = JStr ''1'' \<or> v = JStr ''true''"

text \<open>\<open>Number(x) || 0\<close> for counters and limits, which are finite.\<close>

definition number_or_zero :: "jsval \<Rightarrow> rat" where
  "number_or_zero v = (case js_number v of Some q \<Rightarrow> q | None \<Rightarrow> 0)"

definition hostTrafficUsageBytes :: "jsval \<Rightarrow> jsval \<Rightarrow> jsval \<Rightarrow> rat" where
  "hostTrafficUsageBytes bytesIn bytesOut mode =
     (let i = max 0 (number_or_zero bytesIn); o' = max 0 (number_or_zero bytesOut) in
      if mode = JStr ''outbound'' then o' else if mode = JStr ''max'' then max i o' else i + o')"

definition normalizeHostTrafficFailoverPercent :: "jsval \<Rightarrow> rat" where
  "normalizeHostTrafficFailoverPercent v =
     (case js_number (if js_nullish v then JNum 100 else v) of
        Some percent \<Rightarrow> min 100 (max 1 (of_int \<lfloor>percent\<rfloor>))
      | None \<Rightarrow> 100)"

definition shouldExcludeHostForTraffic :: "host_policy \<Rightarrow> jsval \<Rightarrow> jsval \<Rightarrow> bool" where
  "shouldExcludeHostForTraffic host bytesIn bytesOut =
     (let limit = number_or_zero (hp_trafficLimit host) in
      hostPolicyBool (hp_trafficFailoverEnabled host) \<and> 0 < limit \<and>
      limit * normalizeHostTrafficFailoverPercent (hp_trafficFailoverThresholdPercent host) / 100
        \<le> hostTrafficUsageBytes bytesIn bytesOut (hp_trafficMeasureMode host))"

definition hostTrafficExcluded :: "host_policy option \<Rightarrow> bool" where
  "hostTrafficExcluded host =
     (case host of
        None \<Rightarrow> False
      | Some h \<Rightarrow> hostPolicyBool (hp_trafficFailoverEnabled h) \<and>
          (case js_number (hp_trafficLimit h) of Some limit \<Rightarrow> 0 < limit | None \<Rightarrow> hp_trafficLimit h = JPosInf) \<and>
          hostPolicyBool (hp_trafficFailoverExcluded h))"

section \<open>Relays\<close>

definition normalizeTunnelRelayMode :: "jsval \<Rightarrow> string" where
  "normalizeTunnelRelayMode v =
     (if js_lower (js_trim (js_string (js_or v (JStr [])))) = ''failover'' then ''failover'' else ''chain'')"

definition tunnelRelayFailoverSupported :: "jsval \<Rightarrow> bool" where
  "tunnelRelayFailoverSupported mode =
     (let normalized = js_lower (js_trim (js_string (js_or mode (JStr [])))) in
      normalized = ''forwardx'' \<or> normalized \<in> set [''tls'', ''wss'', ''tcp'', ''mtls'', ''mwss'', ''mtcp''])"

text \<open>\<open>slice(1, -1)\<close>.\<close>

definition transit_of :: "'a list \<Rightarrow> 'a list" where
  "transit_of hops = butlast (drop 1 hops)"

definition tunnelRelayCandidates :: "'a list \<Rightarrow> 'a list" where
  "tunnelRelayCandidates hops = (if 3 \<le> length hops then transit_of hops else [])"

section \<open>Planning\<close>

record endpoint =
  ep_hostId :: int
  ep_listenPort :: jsval
  ep_mimicPort :: jsval
  ep_connectHost :: jsval

record exit_node = endpoint +
  en_id :: int
  en_seq :: rat
  en_isEnabled :: jsval

record traffic_tunnel =
  tt_isEnabled :: jsval
  tt_entryGroupId :: jsval
  tt_exitGroupId :: jsval
  tt_loadBalanceEnabled :: jsval
  tt_relayMode :: jsval
  tt_mode :: jsval
  tt_entryHostId :: int
  tt_exitHostId :: int
  tt_listenPort :: jsval
  tt_mimicPort :: jsval
  tt_connectHost :: jsval

record traffic_plan =
  tp_tunnel :: traffic_tunnel
  tp_hops :: "endpoint list"
  tp_exits :: "exit_node list"
  tp_entryHostIds :: "int list"
  tp_promotedExit :: "exit_node option"

definition isTunnelRelayFailover :: "traffic_tunnel \<Rightarrow> 'a list \<Rightarrow> bool" where
  "isTunnelRelayFailover tunnel hops \<longleftrightarrow>
     normalizeTunnelRelayMode (tt_relayMode tunnel) = ''failover'' \<and> tunnelRelayFailoverSupported (tt_mode tunnel) \<and>
     2 \<le> length (tunnelRelayCandidates hops)"

definition positive :: "jsval \<Rightarrow> bool" where
  "positive v = (case js_number v of Some q \<Rightarrow> 0 < q | None \<Rightarrow> v = JPosInf)"

definition groupedEntries :: "traffic_tunnel \<Rightarrow> bool" where
  "groupedEntries tunnel = positive (tt_entryGroupId tunnel)"

definition groupedExits :: "traffic_tunnel \<Rightarrow> bool" where
  "groupedExits tunnel \<longleftrightarrow> positive (tt_exitGroupId tunnel) \<or> hostPolicyBool (tt_loadBalanceEnabled tunnel)"

definition disable :: "traffic_tunnel \<Rightarrow> traffic_tunnel" where
  "disable tunnel = tunnel\<lparr>tt_isEnabled := JBool False\<rparr>"

definition exit_takes_part :: "traffic_tunnel \<Rightarrow> int set \<Rightarrow> exit_node \<Rightarrow> exit_node" where
  "exit_takes_part tunnel excluded node =
     node\<lparr>en_isEnabled := JBool (hostPolicyBool (if js_nullish (en_isEnabled node) then JBool True else en_isEnabled node) \<and>
       (\<not> groupedExits tunnel \<or> ep_hostId node \<notin> excluded))\<rparr>"

text \<open>The three parts of the plan: entries, exits, transit hops.\<close>

definition plan_entries :: "traffic_tunnel \<Rightarrow> int set \<Rightarrow> int list \<Rightarrow> traffic_tunnel \<times> endpoint list \<Rightarrow> traffic_tunnel \<times> endpoint list" where
  "plan_entries tunnel excluded entryHostIds p =
     (let next = (if groupedEntries tunnel \<and> entryHostIds = [] then disable (fst p) else fst p) in
      if groupedEntries tunnel \<and> tt_entryHostId next \<in> excluded \<and> entryHostIds \<noteq> []
      then (next\<lparr>tt_entryHostId := hd entryHostIds\<rparr>,
            case snd p of [] \<Rightarrow> [] | hop # hops \<Rightarrow> hop\<lparr>ep_hostId := hd entryHostIds\<rparr> # hops)
      else (next, snd p))"

definition first_exit :: "exit_node list \<Rightarrow> exit_node option" where
  "first_exit nodes = (case sort_key en_seq (filter (\<lambda>n. hostPolicyBool (en_isEnabled n)) nodes) of [] \<Rightarrow> None | n # _ \<Rightarrow> Some n)"

definition plan_exits ::
  "traffic_tunnel \<Rightarrow> int set \<Rightarrow> exit_node list \<Rightarrow> traffic_tunnel \<times> endpoint list \<Rightarrow>
     traffic_tunnel \<times> endpoint list \<times> exit_node list \<times> exit_node option" where
  "plan_exits tunnel excluded nodes p =
     (let (next, hops) = p in
      if groupedExits tunnel \<and> tt_exitHostId next \<in> excluded
      then (case first_exit nodes of
              None \<Rightarrow> (disable next, hops, nodes, None)
            | Some n \<Rightarrow>
                (let host = js_or (ep_connectHost n) JNull;
                     next' = next\<lparr>tt_exitHostId := ep_hostId n, tt_listenPort := ep_listenPort n, tt_mimicPort := ep_mimicPort n,
                       tt_connectHost := host\<rparr>
                 in (next',
                     if 2 \<le> length hops
                     then hops[length hops - 1 := (last hops)\<lparr>ep_hostId := ep_hostId n, ep_listenPort := ep_listenPort n,
                            ep_mimicPort := ep_mimicPort n, ep_connectHost := host\<rparr>]
                     else hops,
                     filter (\<lambda>m. en_id m \<noteq> en_id n) nodes, Some n)))
      else (next, hops, nodes, None))"

text \<open>The hops that stay: the first, the last and those of the transit that are not excluded.\<close>

definition drop_excluded :: "int set \<Rightarrow> endpoint list \<Rightarrow> endpoint list" where
  "drop_excluded excluded hops =
     (case hops of
        [] \<Rightarrow> []
      | [h] \<Rightarrow> [h]
      | h # rest \<Rightarrow> h # filter (\<lambda>hop. ep_hostId hop \<notin> excluded) (butlast rest) @ [last rest])"

definition plan_transit :: "traffic_tunnel \<Rightarrow> int set \<Rightarrow> 'a list \<Rightarrow> traffic_tunnel \<times> endpoint list \<Rightarrow> traffic_tunnel \<times> endpoint list" where
  "plan_transit tunnel excluded savedHops p =
     (let (next, hops) = p; transit = transit_of hops in
      if \<not> (groupedEntries tunnel \<or> groupedExits tunnel \<or> isTunnelRelayFailover tunnel savedHops) then (next, hops)
      else if js_string (tt_relayMode tunnel) = ''failover''
      then (let kept = drop_excluded excluded hops in
            (if transit \<noteq> [] \<and> length kept = 2 then disable next else next, kept))
      else (if \<exists>hop \<in> set transit. ep_hostId hop \<in> excluded then disable next else next, hops))"

definition planTunnelTrafficParticipation ::
  "traffic_tunnel \<Rightarrow> endpoint list \<Rightarrow> exit_node list \<Rightarrow> int list \<Rightarrow> int set \<Rightarrow> traffic_plan" where
  "planTunnelTrafficParticipation tunnel hops nodes entryIds excluded =
     (let entryHostIds = (if groupedEntries tunnel then filter (\<lambda>i. i \<notin> excluded) entryIds else entryIds);
          (next1, hops1) = plan_entries tunnel excluded entryHostIds (tunnel, hops);
          (next2, hops2, nodes2, promoted) = plan_exits tunnel excluded (map (exit_takes_part tunnel excluded) nodes) (next1, hops1);
          (next3, hops3) = plan_transit tunnel excluded hops (next2, hops2)
      in \<lparr>tp_tunnel = next3, tp_hops = hops3, tp_exits = nodes2, tp_entryHostIds = entryHostIds, tp_promotedExit = promoted\<rparr>)"

definition groupRuleTrafficBlocked :: "jsval \<Rightarrow> jsval \<Rightarrow> int \<Rightarrow> int set \<Rightarrow> int list \<Rightarrow> bool" where
  "groupRuleTrafficBlocked forwardGroupId isForwardGroupTemplate hostId excluded chainHostIds \<longleftrightarrow>
     positive forwardGroupId \<and> \<not> hostPolicyBool isForwardGroupTemplate \<and>
     (hostId \<in> excluded \<or> (\<exists>i \<in> set chainHostIds. i \<in> excluded))"

section \<open>Lemmas\<close>

lemma hostPolicyBool_JBool [simp]: "hostPolicyBool (JBool b) = b"
  by (simp add: hostPolicyBool_def)

lemma disable_fields [simp]:
  "tt_isEnabled (disable t) = JBool False" "tt_entryHostId (disable t) = tt_entryHostId t" "tt_exitHostId (disable t) = tt_exitHostId t"
  by (simp_all add: disable_def)

lemma transit_of_Cons: "transit_of (h # rest) = butlast rest"
  by (simp add: transit_of_def)

lemma transit_of_update_last: "2 \<le> length hops \<Longrightarrow> transit_of (hops[length hops - 1 := x]) = transit_of hops"
  by (simp add: transit_of_def drop_update_swap butlast_list_update)

lemma drop_excluded_transit: "transit_of (drop_excluded excluded hops) = filter (\<lambda>hop. ep_hostId hop \<notin> excluded) (transit_of hops)"
  by (auto simp: drop_excluded_def transit_of_def butlast_append split: list.split)

lemma first_exit_Some:
  assumes "first_exit nodes = Some n"
  shows "n \<in> set nodes" "hostPolicyBool (en_isEnabled n)"
    and "m \<in> set nodes \<Longrightarrow> hostPolicyBool (en_isEnabled m) \<Longrightarrow> en_seq n \<le> en_seq m"
proof -
  let ?xs = "sort_key en_seq (filter (\<lambda>n. hostPolicyBool (en_isEnabled n)) nodes)"
  obtain r where r: "?xs = n # r" using assms by (auto simp: first_exit_def split: list.splits)
  have s: "set ?xs = {n \<in> set nodes. hostPolicyBool (en_isEnabled n)}" by simp
  show "n \<in> set nodes" "hostPolicyBool (en_isEnabled n)" using s unfolding r by auto
  have "sorted (map en_seq ?xs)" by simp
  then show "en_seq n \<le> en_seq m" if "m \<in> set nodes" "hostPolicyBool (en_isEnabled m)"
    using s that unfolding r by auto
qed

lemma first_exit_None: "first_exit nodes = None \<longleftrightarrow> (\<forall>n \<in> set nodes. \<not> hostPolicyBool (en_isEnabled n))"
proof -
  have "first_exit nodes = None \<longleftrightarrow> sort_key en_seq (filter (\<lambda>n. hostPolicyBool (en_isEnabled n)) nodes) = []"
    by (simp add: first_exit_def split: list.split)
  also have "\<dots> \<longleftrightarrow> filter (\<lambda>n. hostPolicyBool (en_isEnabled n)) nodes = []"
    by (metis length_0_conv length_sort)
  finally show ?thesis by (simp add: filter_empty_conv)
qed

lemma exit_takes_part_enabled:
  "hostPolicyBool (en_isEnabled (exit_takes_part tunnel excluded node)) \<longleftrightarrow>
     hostPolicyBool (if js_nullish (en_isEnabled node) then JBool True else en_isEnabled node) \<and>
     (\<not> groupedExits tunnel \<or> ep_hostId node \<notin> excluded)"
  by (simp add: exit_takes_part_def)

lemma exit_takes_part_host [simp]: "ep_hostId (exit_takes_part tunnel excluded node) = ep_hostId node"
  by (simp add: exit_takes_part_def)


section \<open>What a plan promises\<close>

text \<open>
  The choices of a tunnel, apart from the planning.  A column of the database says yes when it is true, 1 or one of their
  strings; it names a group when its number is positive.  A tunnel has a choice of entries when it has a group of them, of exits
  when it has a group of them or balances its load, and of relays when it fails over between at least two of them in a mode that
  can.
\<close>

definition says_yes :: "jsval \<Rightarrow> bool" where
  "says_yes v \<longleftrightarrow> v \<in> {JBool True, JNum 1, JStr ''1'', JStr ''true''}"

definition names_group :: "jsval \<Rightarrow> bool" where
  "names_group v \<longleftrightarrow> v = JPosInf \<or> (\<exists>q > 0. js_number v = Some q)"

definition entry_choice :: "traffic_tunnel \<Rightarrow> bool" where
  "entry_choice t \<longleftrightarrow> names_group (tt_entryGroupId t)"

definition exit_choice :: "traffic_tunnel \<Rightarrow> bool" where
  "exit_choice t \<longleftrightarrow> names_group (tt_exitGroupId t) \<or> says_yes (tt_loadBalanceEnabled t)"

definition word_of :: "jsval \<Rightarrow> string" where
  "word_of v = js_lower (js_trim (if js_truthy v then js_string v else []))"

definition relay_choice :: "traffic_tunnel \<Rightarrow> endpoint list \<Rightarrow> bool" where
  "relay_choice t hops \<longleftrightarrow>
     word_of (tt_relayMode t) = ''failover'' \<and> 4 \<le> length hops \<and>
     word_of (tt_mode t) \<in> {''forwardx'', ''tls'', ''wss'', ''tcp'', ''mtls'', ''mwss'', ''mtcp''}"

definition any_choice :: "traffic_tunnel \<Rightarrow> endpoint list \<Rightarrow> bool" where
  "any_choice t hops \<longleftrightarrow> entry_choice t \<or> exit_choice t \<or> relay_choice t hops"

text \<open>The hops between the first and the last.\<close>

definition between :: "'a list \<Rightarrow> 'a list" where
  "between hops = map (\<lambda>i. hops ! Suc i) [0..<length hops - 2]"

text \<open>The exits that can be used: not switched off, and not exhausted where there is a choice of exits.\<close>

definition usable_exit :: "traffic_tunnel \<Rightarrow> int set \<Rightarrow> exit_node \<Rightarrow> bool" where
  "usable_exit t excluded n \<longleftrightarrow>
     (en_isEnabled n = JNull \<or> en_isEnabled n = JUndef \<or> says_yes (en_isEnabled n)) \<and> \<not> (exit_choice t \<and> ep_hostId n \<in> excluded)"

text \<open>
  When a tunnel cannot be planned without exhausted hosts: no entry of the group is left, the exit is exhausted and no other can be
  used, or the transit is broken, that is all hops of a failover relay or one hop of a chain.
\<close>

definition cannot_avoid :: "traffic_tunnel \<Rightarrow> endpoint list \<Rightarrow> exit_node list \<Rightarrow> int list \<Rightarrow> int set \<Rightarrow> bool" where
  "cannot_avoid t hops nodes entryIds excluded \<longleftrightarrow>
     entry_choice t \<and> set entryIds \<subseteq> excluded \<or>
     exit_choice t \<and> tt_exitHostId t \<in> excluded \<and> \<not> (\<exists>n \<in> set nodes. usable_exit t excluded n) \<or>
     any_choice t hops \<and> between hops \<noteq> [] \<and>
       (if js_string (tt_relayMode t) = ''failover'' then ep_hostId ` set (between hops) \<subseteq> excluded
        else ep_hostId ` set (between hops) \<inter> excluded \<noteq> {})"

text \<open>The entries of the plan: an exhausted entry host gives way to the first entry left, in the tunnel and in its first hop.\<close>

definition entries_planned :: "traffic_tunnel \<Rightarrow> endpoint list \<Rightarrow> int list \<Rightarrow> int set \<Rightarrow> traffic_plan \<Rightarrow> bool" where
  "entries_planned t hops entryIds excluded p \<longleftrightarrow>
     tp_entryHostIds p = (if entry_choice t then filter (\<lambda>i. i \<notin> excluded) entryIds else entryIds) \<and>
     (if entry_choice t \<and> tt_entryHostId t \<in> excluded
      then tt_entryHostId (tp_tunnel p) = hd (tp_entryHostIds p) \<and>
        (hops \<noteq> [] \<longrightarrow> ep_hostId (hd (tp_hops p)) = tt_entryHostId (tp_tunnel p))
      else tt_entryHostId (tp_tunnel p) = tt_entryHostId t \<and> (hops \<noteq> [] \<longrightarrow> ep_hostId (hd (tp_hops p)) = ep_hostId (hd hops)))"

text \<open>
  The exits of the plan: an exhausted exit host gives way to the usable exit with the smallest place, which the tunnel and its last
  hop then lead to and which is no longer among the exits; the other exits take part when they can be used.
\<close>

definition leads_to :: "endpoint \<Rightarrow> exit_node \<Rightarrow> bool" where
  "leads_to hop n \<longleftrightarrow> ep_hostId hop = ep_hostId n \<and> ep_listenPort hop = ep_listenPort n \<and> ep_mimicPort hop = ep_mimicPort n \<and>
     ep_connectHost hop = (if js_truthy (ep_connectHost n) then ep_connectHost n else JNull)"

definition exits_planned :: "traffic_tunnel \<Rightarrow> endpoint list \<Rightarrow> exit_node list \<Rightarrow> int set \<Rightarrow> traffic_plan \<Rightarrow> bool" where
  "exits_planned t hops nodes excluded p \<longleftrightarrow>
     (let usable = filter (usable_exit t excluded) nodes;
          taking_part = map en_id (filter (\<lambda>n. says_yes (en_isEnabled n)) (tp_exits p)) in
      if exit_choice t \<and> tt_exitHostId t \<in> excluded
      then (\<exists>n \<in> set usable. (\<forall>m \<in> set usable. en_seq n \<le> en_seq m) \<and>
        tp_promotedExit p = Some (n\<lparr>en_isEnabled := JBool True\<rparr>) \<and>
        leads_to \<lparr>ep_hostId = tt_exitHostId (tp_tunnel p), ep_listenPort = tt_listenPort (tp_tunnel p),
          ep_mimicPort = tt_mimicPort (tp_tunnel p), ep_connectHost = tt_connectHost (tp_tunnel p)\<rparr> n \<and>
        (2 \<le> length hops \<longrightarrow> leads_to (last (tp_hops p)) n) \<and>
        taking_part = map en_id (filter (\<lambda>m. en_id m \<noteq> en_id n) usable))
      else tp_promotedExit p = None \<and> tt_exitHostId (tp_tunnel p) = tt_exitHostId t \<and>
        (2 \<le> length hops \<longrightarrow> last (tp_hops p) = last hops) \<and> taking_part = map en_id usable)"

text \<open>The transit of the plan: where there is a choice, the exhausted hops are left out.\<close>

definition transit_planned :: "traffic_tunnel \<Rightarrow> endpoint list \<Rightarrow> int set \<Rightarrow> traffic_plan \<Rightarrow> bool" where
  "transit_planned t hops excluded p \<longleftrightarrow>
     between (tp_hops p) = filter (\<lambda>hop. \<not> (any_choice t hops \<and> ep_hostId hop \<in> excluded)) (between hops)"

lemma says_yes_iff: "hostPolicyBool v = says_yes v"
  by (simp add: hostPolicyBool_def says_yes_def)

lemma entry_choice_iff: "groupedEntries t = entry_choice t"
  by (auto simp: groupedEntries_def entry_choice_def positive_def names_group_def split: option.split)

lemma exit_choice_iff: "groupedExits t = exit_choice t"
  by (auto simp: groupedExits_def exit_choice_def positive_def names_group_def says_yes_iff split: option.split)

lemma relay_choice_iff: "isTunnelRelayFailover t hops = relay_choice t hops"
proof -
  have w: "word_of v = js_lower (js_trim (js_string (js_or v (JStr []))))" for v by (simp add: word_of_def js_or_def)
  have "2 \<le> length (tunnelRelayCandidates hops) \<longleftrightarrow> 4 \<le> length hops" by (auto simp: tunnelRelayCandidates_def transit_of_def)
  then show ?thesis
    unfolding isTunnelRelayFailover_def relay_choice_def normalizeTunnelRelayMode_def tunnelRelayFailoverSupported_def Let_def w [symmetric]
    by (cases "word_of (tt_relayMode t) = ''failover''") (auto simp: Let_def)
qed

lemma between_iff: "transit_of hops = between hops"
  by (rule nth_equalityI) (auto simp: transit_of_def between_def nth_butlast)

lemma hop_place:
  assumes "hop \<in> set hops"
  shows "hop = hd hops \<or> hop \<in> set (between hops) \<or> hop = last hops"
proof (cases hops rule: rev_cases)
  case (snoc rest z)
  then show ?thesis using assms unfolding between_iff [symmetric] by (cases rest) (auto simp: transit_of_def)
qed (use assms in simp)

lemma usable_exit_iff: "hostPolicyBool (en_isEnabled (exit_takes_part t excluded n)) = usable_exit t excluded n"
  by (cases "en_isEnabled n") (auto simp: exit_takes_part_def usable_exit_def exit_choice_iff says_yes_iff js_nullish_def says_yes_def)

section \<open>Planning step by step\<close>

text \<open>What each part of the plan does to the tunnel and to the transit hops.\<close>

lemma plan_entries_facts:
  assumes "plan_entries tunnel excluded entryHostIds (next, hops) = (next', hops')"
  shows "transit_of hops' = transit_of hops" "length hops' = length hops" "tt_exitHostId next' = tt_exitHostId next"
    and "hostPolicyBool (tt_isEnabled next') \<longleftrightarrow> hostPolicyBool (tt_isEnabled next) \<and> \<not> (groupedEntries tunnel \<and> entryHostIds = [])"
    and "groupedEntries tunnel \<Longrightarrow> entryHostIds \<noteq> [] \<Longrightarrow> set entryHostIds \<inter> excluded = {} \<Longrightarrow> tt_entryHostId next' \<notin> excluded"
    and "tl hops' = tl hops"
    and "tt_entryHostId next' =
      (if groupedEntries tunnel \<and> tt_entryHostId next \<in> excluded \<and> entryHostIds \<noteq> [] then hd entryHostIds else tt_entryHostId next)"
    and "hops \<noteq> [] \<Longrightarrow> ep_hostId (hd hops') =
      (if groupedEntries tunnel \<and> tt_entryHostId next \<in> excluded \<and> entryHostIds \<noteq> [] then hd entryHostIds else ep_hostId (hd hops))"
proof -
  consider (none) "groupedEntries tunnel" "entryHostIds = []" "next' = disable next" "hops' = hops"
    | (moved) "groupedEntries tunnel" "entryHostIds \<noteq> []" "tt_entryHostId next \<in> excluded" "next' = next\<lparr>tt_entryHostId := hd entryHostIds\<rparr>"
        "hops' = (case hops of [] \<Rightarrow> [] | hop # rest \<Rightarrow> hop\<lparr>ep_hostId := hd entryHostIds\<rparr> # rest)"
    | (kept) "\<not> groupedEntries tunnel \<or> entryHostIds \<noteq> [] \<and> tt_entryHostId next \<notin> excluded" "next' = next" "hops' = hops"
  proof -
    have eq: "next' = fst (plan_entries tunnel excluded entryHostIds (next, hops))" "hops' = snd (plan_entries tunnel excluded entryHostIds (next, hops))"
      by (simp_all add: assms)
    show thesis
      by (cases "groupedEntries tunnel"; cases "entryHostIds = []"; cases "tt_entryHostId next \<in> excluded")
         (use that in \<open>simp_all add: eq plan_entries_def Let_def\<close>)
  qed
  note cs = this
  show "transit_of hops' = transit_of hops" "length hops' = length hops" "tt_exitHostId next' = tt_exitHostId next"
    by (rule cs; simp add: transit_of_Cons split: list.split)+
  show "hostPolicyBool (tt_isEnabled next') \<longleftrightarrow> hostPolicyBool (tt_isEnabled next) \<and> \<not> (groupedEntries tunnel \<and> entryHostIds = [])"
    by (rule cs) auto
  show "tt_entryHostId next' \<notin> excluded" if "groupedEntries tunnel" "entryHostIds \<noteq> []" "set entryHostIds \<inter> excluded = {}"
  proof -
    have "hd entryHostIds \<notin> excluded" using that(2,3) hd_in_set [OF that(2)] by blast
    then show ?thesis by (rule_tac cs) (use that in simp_all)
  qed
  show "tl hops' = tl hops" by (rule cs) (simp_all split: list.split)
  show "tt_entryHostId next' =
      (if groupedEntries tunnel \<and> tt_entryHostId next \<in> excluded \<and> entryHostIds \<noteq> [] then hd entryHostIds else tt_entryHostId next)"
    by (rule cs) auto
  show "ep_hostId (hd hops') =
      (if groupedEntries tunnel \<and> tt_entryHostId next \<in> excluded \<and> entryHostIds \<noteq> [] then hd entryHostIds else ep_hostId (hd hops))"
    if "hops \<noteq> []"
    by (rule cs) (use that in \<open>auto split: list.split\<close>)
qed

lemma plan_exits_kept:
  assumes "\<not> (groupedExits tunnel \<and> tt_exitHostId next \<in> excluded)"
  shows "plan_exits tunnel excluded nodes (next, hops) = (next, hops, nodes, None)"
  using assms by (auto simp: plan_exits_def)

lemma plan_exits_none:
  assumes "groupedExits tunnel" "tt_exitHostId next \<in> excluded" "first_exit nodes = None"
  shows "plan_exits tunnel excluded nodes (next, hops) = (disable next, hops, nodes, None)"
  using assms by (simp add: plan_exits_def)

text \<open>The last hop, led to another exit.\<close>

definition lead_last :: "exit_node \<Rightarrow> endpoint list \<Rightarrow> endpoint list" where
  "lead_last n hops =
     (if 2 \<le> length hops
      then hops[length hops - 1 := (last hops)\<lparr>ep_hostId := ep_hostId n, ep_listenPort := ep_listenPort n,
        ep_mimicPort := ep_mimicPort n, ep_connectHost := js_or (ep_connectHost n) JNull\<rparr>]
      else hops)"

lemma plan_exits_moved:
  assumes "groupedExits tunnel" "tt_exitHostId next \<in> excluded" "first_exit nodes = Some n"
  shows "plan_exits tunnel excluded nodes (next, hops) =
    (next\<lparr>tt_exitHostId := ep_hostId n, tt_listenPort := ep_listenPort n, tt_mimicPort := ep_mimicPort n,
       tt_connectHost := js_or (ep_connectHost n) JNull\<rparr>, lead_last n hops, filter (\<lambda>m. en_id m \<noteq> en_id n) nodes, Some n)"
  using assms by (simp add: plan_exits_def lead_last_def Let_def)

lemma lead_last_simps [simp]:
  "transit_of (lead_last n hops) = transit_of hops" "length (lead_last n hops) = length hops" "hd (lead_last n hops) = hd hops"
  by (simp_all add: lead_last_def transit_of_update_last del: One_nat_def) (cases hops, auto simp: nth_list_update split: nat.splits)

lemma lead_last_leads: "2 \<le> length hops \<Longrightarrow> leads_to (last (lead_last n hops)) n"
proof -
  assume two: "2 \<le> length hops"
  then have "hops \<noteq> []" by auto
  then show ?thesis using two by (simp add: lead_last_def leads_to_def js_or_def last_list_update)
qed

lemma plan_exits_facts:
  assumes "plan_exits tunnel excluded nodes (next, hops) = (next', hops', nodes', promoted)"
  shows "transit_of hops' = transit_of hops" "length hops' = length hops" "tt_entryHostId next' = tt_entryHostId next" "hd hops' = hd hops"
    and "hostPolicyBool (tt_isEnabled next') \<longleftrightarrow> hostPolicyBool (tt_isEnabled next) \<and>
      \<not> (groupedExits tunnel \<and> tt_exitHostId next \<in> excluded \<and> (\<forall>n \<in> set nodes. \<not> hostPolicyBool (en_isEnabled n)))"
    and "set nodes' \<subseteq> set nodes"
proof -
  consider (kept) "\<not> (groupedExits tunnel \<and> tt_exitHostId next \<in> excluded)" | (none) "groupedExits tunnel" "tt_exitHostId next \<in> excluded" "first_exit nodes = None"
    | (moved) n where "groupedExits tunnel" "tt_exitHostId next \<in> excluded" "first_exit nodes = Some n"
    by (cases "first_exit nodes") blast+
  note cs = this
  show "transit_of hops' = transit_of hops" "length hops' = length hops" "tt_entryHostId next' = tt_entryHostId next" "hd hops' = hd hops"
    "set nodes' \<subseteq> set nodes"
    by (rule cs; insert assms; auto simp: plan_exits_kept plan_exits_none plan_exits_moved)+
  show "hostPolicyBool (tt_isEnabled next') \<longleftrightarrow> hostPolicyBool (tt_isEnabled next) \<and>
      \<not> (groupedExits tunnel \<and> tt_exitHostId next \<in> excluded \<and> (\<forall>n \<in> set nodes. \<not> hostPolicyBool (en_isEnabled n)))"
  proof (cases rule: cs)
    case kept
    then show ?thesis using assms by (auto simp: plan_exits_kept)
  next
    case none
    then show ?thesis using assms first_exit_None [of nodes] by (auto simp: plan_exits_none)
  next
    case (moved n)
    have on: "hostPolicyBool (tt_isEnabled next') = hostPolicyBool (tt_isEnabled next)" using assms by (auto simp: plan_exits_moved [OF moved])
    show ?thesis unfolding on using first_exit_Some(1,2) [OF moved(3)] by blast
  qed
qed

definition plans_transit :: "traffic_tunnel \<Rightarrow> 'a list \<Rightarrow> bool" where
  "plans_transit tunnel hops \<longleftrightarrow> groupedEntries tunnel \<or> groupedExits tunnel \<or> isTunnelRelayFailover tunnel hops"

definition transit_lost :: "traffic_tunnel \<Rightarrow> int set \<Rightarrow> endpoint list \<Rightarrow> bool" where
  "transit_lost tunnel excluded hops \<longleftrightarrow>
     (if js_string (tt_relayMode tunnel) = ''failover''
      then transit_of hops \<noteq> [] \<and> (\<forall>hop \<in> set (transit_of hops). ep_hostId hop \<in> excluded)
      else \<exists>hop \<in> set (transit_of hops). ep_hostId hop \<in> excluded)"

lemma drop_excluded_two:
  "transit_of hops \<noteq> [] \<Longrightarrow> length (drop_excluded excluded hops) = 2 \<longleftrightarrow> (\<forall>hop \<in> set (transit_of hops). ep_hostId hop \<in> excluded)"
  by (auto simp: drop_excluded_def transit_of_def filter_empty_conv split: list.splits)

lemma plan_transit_facts:
  assumes "plan_transit tunnel excluded saved (next, hops) = (next', hops')"
  shows "tt_entryHostId next' = tt_entryHostId next" "tt_exitHostId next' = tt_exitHostId next"
    and "hostPolicyBool (tt_isEnabled next') \<longleftrightarrow> hostPolicyBool (tt_isEnabled next) \<and> \<not> (plans_transit tunnel saved \<and> transit_lost tunnel excluded hops)"
    and "plans_transit tunnel saved \<Longrightarrow> hostPolicyBool (tt_isEnabled next') \<Longrightarrow> hop \<in> set (transit_of hops') \<Longrightarrow> ep_hostId hop \<notin> excluded"
    and "hops \<noteq> [] \<Longrightarrow> hd hops' = hd hops" "2 \<le> length hops \<Longrightarrow> last hops' = last hops"
    and "tt_listenPort next' = tt_listenPort next" "tt_mimicPort next' = tt_mimicPort next" "tt_connectHost next' = tt_connectHost next"
    and "hostPolicyBool (tt_isEnabled next') \<Longrightarrow> transit_of hops' =
      filter (\<lambda>hop. \<not> (plans_transit tunnel saved \<and> ep_hostId hop \<in> excluded)) (transit_of hops)"
proof -
  consider (no) "\<not> plans_transit tunnel saved" "next' = next" "hops' = hops"
    | (failover) "plans_transit tunnel saved" "js_string (tt_relayMode tunnel) = ''failover''" "hops' = drop_excluded excluded hops"
        "next' = (if transit_of hops \<noteq> [] \<and> length (drop_excluded excluded hops) = 2 then disable next else next)"
    | (chain) "plans_transit tunnel saved" "js_string (tt_relayMode tunnel) \<noteq> ''failover''" "hops' = hops"
        "next' = (if \<exists>hop \<in> set (transit_of hops). ep_hostId hop \<in> excluded then disable next else next)"
    using assms by (auto simp: plan_transit_def plans_transit_def Let_def split: if_splits)
  note cs = this
  show "tt_entryHostId next' = tt_entryHostId next" "tt_exitHostId next' = tt_exitHostId next" by (rule cs; simp)+
  show "hostPolicyBool (tt_isEnabled next') \<longleftrightarrow> hostPolicyBool (tt_isEnabled next) \<and> \<not> (plans_transit tunnel saved \<and> transit_lost tunnel excluded hops)"
    by (rule cs) (use drop_excluded_two [of hops excluded] in \<open>auto simp: transit_lost_def\<close>)
  show "ep_hostId hop \<notin> excluded" if "plans_transit tunnel saved" "hostPolicyBool (tt_isEnabled next')" "hop \<in> set (transit_of hops')"
    by (rule cs) (use that in \<open>auto simp: drop_excluded_transit split: if_splits\<close>)
  show "hd hops' = hd hops" if "hops \<noteq> []" by (rule cs) (use that in \<open>auto simp: drop_excluded_def split: list.split\<close>)
  show "last hops' = last hops" if "2 \<le> length hops" by (rule cs) (use that in \<open>auto simp: drop_excluded_def split: list.split\<close>)
  show "tt_listenPort next' = tt_listenPort next" "tt_mimicPort next' = tt_mimicPort next" "tt_connectHost next' = tt_connectHost next"
    by (rule cs; simp add: disable_def)+
  show "transit_of hops' = filter (\<lambda>hop. \<not> (plans_transit tunnel saved \<and> ep_hostId hop \<in> excluded)) (transit_of hops)"
    if "hostPolicyBool (tt_isEnabled next')"
  proof (rule cs)
    assume "plans_transit tunnel saved" "hops' = hops"
      "next' = (if \<exists>hop \<in> set (transit_of hops). ep_hostId hop \<in> excluded then disable next else next)"
    then show ?thesis using that by (auto simp: filter_id_conv split: if_splits)
  qed (simp_all add: drop_excluded_transit)
qed

text \<open>The exits that take part.\<close>

lemma exit_takes_part_fields [simp]:
  "en_id (exit_takes_part t excluded n) = en_id n" "en_seq (exit_takes_part t excluded n) = en_seq n"
  "leads_to hop (exit_takes_part t excluded n) = leads_to hop n"
  by (simp_all add: exit_takes_part_def leads_to_def)

lemma taking_part_ids:
  "map en_id (filter (\<lambda>n. P (en_id n) \<and> says_yes (en_isEnabled n)) (map (exit_takes_part t excluded) nodes))
   = map en_id (filter (\<lambda>n. P (en_id n)) (filter (usable_exit t excluded) nodes))"
  by (induction nodes) (simp_all add: usable_exit_iff [symmetric] says_yes_iff)

lemma exit_switched_on:
  assumes "says_yes (en_isEnabled (exit_takes_part t excluded n))"
  shows "exit_takes_part t excluded n = n\<lparr>en_isEnabled := JBool True\<rparr>"
  using assms by (simp add: exit_takes_part_def says_yes_def)

lemma first_exit_chosen:
  assumes "first_exit (map (exit_takes_part t excluded) nodes) = Some n"
  obtains m where "m \<in> set (filter (usable_exit t excluded) nodes)" "n = m\<lparr>en_isEnabled := JBool True\<rparr>"
    "n = exit_takes_part t excluded m" "\<And>k. k \<in> set (filter (usable_exit t excluded) nodes) \<Longrightarrow> en_seq m \<le> en_seq k"
proof -
  obtain m where m: "m \<in> set nodes" "n = exit_takes_part t excluded m" using first_exit_Some(1) [OF assms] by auto
  have on: "hostPolicyBool (en_isEnabled (exit_takes_part t excluded m))" using first_exit_Some(2) [OF assms] m(2) by simp
  show thesis
  proof (rule that [of m])
    show "m \<in> set (filter (usable_exit t excluded) nodes)" using m(1) on by (simp add: usable_exit_iff)
    show "n = m\<lparr>en_isEnabled := JBool True\<rparr>" using exit_switched_on on m(2) by (simp add: says_yes_iff)
    show "n = exit_takes_part t excluded m" by (rule m(2))
    show "en_seq m \<le> en_seq k" if "k \<in> set (filter (usable_exit t excluded) nodes)" for k
      using first_exit_Some(3) [OF assms, of "exit_takes_part t excluded k"] that m(2) by (simp add: usable_exit_iff)
  qed
qed

lemma plan_exits_planned:
  assumes x: "plan_exits tunnel excluded (map (exit_takes_part tunnel excluded) nodes) (next, hops) = (next', hops', nodes', promoted)"
    and on: "says_yes (tt_isEnabled next')" and exit: "tt_exitHostId next = tt_exitHostId tunnel"
  defines "usable \<equiv> filter (usable_exit tunnel excluded) nodes"
    and "taking_part \<equiv> map en_id (filter (\<lambda>n. says_yes (en_isEnabled n)) nodes')"
  shows "if exit_choice tunnel \<and> tt_exitHostId tunnel \<in> excluded
    then (\<exists>n \<in> set usable. (\<forall>m \<in> set usable. en_seq n \<le> en_seq m) \<and> promoted = Some (n\<lparr>en_isEnabled := JBool True\<rparr>) \<and>
      leads_to \<lparr>ep_hostId = tt_exitHostId next', ep_listenPort = tt_listenPort next', ep_mimicPort = tt_mimicPort next',
        ep_connectHost = tt_connectHost next'\<rparr> n \<and>
      (2 \<le> length hops \<longrightarrow> leads_to (last hops') n) \<and> taking_part = map en_id (filter (\<lambda>m. en_id m \<noteq> en_id n) usable))
    else promoted = None \<and> tt_exitHostId next' = tt_exitHostId tunnel \<and> hops' = hops \<and> taking_part = map en_id usable"
proof (cases "groupedExits tunnel \<and> tt_exitHostId next \<in> excluded")
  case False
  then show ?thesis
    using x exit taking_part_ids [of "\<lambda>_. True"] by (auto simp: plan_exits_kept exit_choice_iff usable_def taking_part_def)
next
  case True
  have some: "first_exit (map (exit_takes_part tunnel excluded) nodes) \<noteq> None"
  proof
    assume "first_exit (map (exit_takes_part tunnel excluded) nodes) = None"
    then have "next' = disable next" using x plan_exits_none True by auto
    then show False using on by (simp add: says_yes_def)
  qed
  then obtain n where n: "first_exit (map (exit_takes_part tunnel excluded) nodes) = Some n" by blast
  obtain m where m: "m \<in> set usable" "n = m\<lparr>en_isEnabled := JBool True\<rparr>" "n = exit_takes_part tunnel excluded m"
    "\<And>k. k \<in> set usable \<Longrightarrow> en_seq m \<le> en_seq k"
    unfolding usable_def by (rule first_exit_chosen [OF n]) blast
  note moved = plan_exits_moved [OF conjunct1 [OF True] conjunct2 [OF True] n]
  have p: "promoted = Some n" "hops' = lead_last n hops" "nodes' = filter (\<lambda>k. en_id k \<noteq> en_id n) (map (exit_takes_part tunnel excluded) nodes)"
    and nx: "next' = next\<lparr>tt_exitHostId := ep_hostId n, tt_listenPort := ep_listenPort n, tt_mimicPort := ep_mimicPort n,
      tt_connectHost := js_or (ep_connectHost n) JNull\<rparr>"
    using x [unfolded moved] by simp_all
  have ids: "taking_part = map en_id (filter (\<lambda>k. en_id k \<noteq> en_id m) usable)"
    using taking_part_ids [of "\<lambda>i. i \<noteq> en_id m" tunnel excluded nodes] m(3) unfolding taking_part_def p(3) usable_def by (simp add: conj_commute)
  have led: "leads_to \<lparr>ep_hostId = tt_exitHostId next', ep_listenPort = tt_listenPort next', ep_mimicPort = tt_mimicPort next',
        ep_connectHost = tt_connectHost next'\<rparr> m" using m(2) by (simp add: nx leads_to_def js_or_def)
  have last: "2 \<le> length hops \<longrightarrow> leads_to (last hops') m" using lead_last_leads [of hops n] m(3) by (simp add: p(2))
  have here: "exit_choice tunnel \<and> tt_exitHostId tunnel \<in> excluded" using True exit by (simp add: exit_choice_iff)
  show ?thesis unfolding if_P [OF here] using m(1,2,4) p(1) ids led last by blast
qed

lemma exits_planned_safe:
  assumes planned: "exits_planned t hops nodes excluded p" and choice: "exit_choice t"
  shows "tt_exitHostId (tp_tunnel p) \<notin> excluded" "\<forall>n. tp_promotedExit p = Some n \<longrightarrow> ep_hostId n \<notin> excluded"
    and "2 \<le> length hops \<Longrightarrow> ep_hostId (last hops) = tt_exitHostId t \<Longrightarrow> ep_hostId (last (tp_hops p)) \<notin> excluded"
proof -
  consider (kept) "tt_exitHostId t \<notin> excluded" "tp_promotedExit p = None" "tt_exitHostId (tp_tunnel p) = tt_exitHostId t"
      "2 \<le> length hops \<longrightarrow> last (tp_hops p) = last hops"
    | (moved) n where "ep_hostId n \<notin> excluded" "tp_promotedExit p = Some (n\<lparr>en_isEnabled := JBool True\<rparr>)"
      "tt_exitHostId (tp_tunnel p) = ep_hostId n" "2 \<le> length hops \<longrightarrow> ep_hostId (last (tp_hops p)) = ep_hostId n"
  proof (cases "exit_choice t \<and> tt_exitHostId t \<in> excluded")
    case False
    then show thesis using planned choice unfolding exits_planned_def Let_def if_not_P [OF False] by (intro kept) simp_all
  next
    case True
    obtain n where n: "n \<in> set (filter (usable_exit t excluded) nodes)" "tp_promotedExit p = Some (n\<lparr>en_isEnabled := JBool True\<rparr>)"
      "leads_to \<lparr>ep_hostId = tt_exitHostId (tp_tunnel p), ep_listenPort = tt_listenPort (tp_tunnel p),
          ep_mimicPort = tt_mimicPort (tp_tunnel p), ep_connectHost = tt_connectHost (tp_tunnel p)\<rparr> n"
      "2 \<le> length hops \<longrightarrow> leads_to (last (tp_hops p)) n"
      using planned unfolding exits_planned_def Let_def if_P [OF True] by blast
    have "ep_hostId n \<notin> excluded" using n(1) choice by (simp add: usable_exit_def)
    then show thesis using n(2-4) unfolding leads_to_def by (intro moved [of n]) simp_all
  qed
  note cs = this
  show "tt_exitHostId (tp_tunnel p) \<notin> excluded" "\<forall>n. tp_promotedExit p = Some n \<longrightarrow> ep_hostId n \<notin> excluded"
    by (rule cs; simp)+
  show "ep_hostId (last (tp_hops p)) \<notin> excluded" if "2 \<le> length hops" "ep_hostId (last hops) = tt_exitHostId t"
    by (rule cs) (use that in simp_all)
qed

section \<open>Properties\<close>

text \<open>
  C10. The plan of a tunnel never lets an exhausted host take part where the tunnel has a choice.  The tunnel is planned as
  disabled exactly when it was disabled or cannot avoid the exhausted hosts.  Otherwise the plan holds the entries, exits and transit
  hops left, with an exhausted entry or exit host replaced in the tunnel and in its first or last hop; with a choice of
  entries neither the entry host nor any entry is exhausted, with a choice of exits neither the exit host, the promoted exit nor
  any exit taking part is, no transit hop is with any choice, and when the tunnel has both choices and its hops lead from its entry
  host to its exit host, then no hop of the plan at all is.
\<close>

theorem traffic_plan_avoids_excluded:
  assumes "planTunnelTrafficParticipation tunnel hops nodes entryIds excluded = p"
  shows "(says_yes (tt_isEnabled (tp_tunnel p)) \<longleftrightarrow>
      says_yes (tt_isEnabled tunnel) \<and> \<not> cannot_avoid tunnel hops nodes entryIds excluded) \<and>
    (says_yes (tt_isEnabled (tp_tunnel p)) \<longrightarrow>
      entries_planned tunnel hops entryIds excluded p \<and> exits_planned tunnel hops nodes excluded p \<and>
      transit_planned tunnel hops excluded p \<and>
      (entry_choice tunnel \<longrightarrow> tp_entryHostIds p \<noteq> [] \<and> set (tp_entryHostIds p) \<inter> excluded = {} \<and>
        tt_entryHostId (tp_tunnel p) \<notin> excluded) \<and>
      (exit_choice tunnel \<longrightarrow> tt_exitHostId (tp_tunnel p) \<notin> excluded \<and>
        (\<forall>n. tp_promotedExit p = Some n \<longrightarrow> ep_hostId n \<notin> excluded) \<and>
        (\<forall>n \<in> set (tp_exits p). says_yes (en_isEnabled n) \<longrightarrow> ep_hostId n \<notin> excluded)) \<and>
      (any_choice tunnel hops \<longrightarrow> (\<forall>hop \<in> set (between (tp_hops p)). ep_hostId hop \<notin> excluded)) \<and>
      (entry_choice tunnel \<and> exit_choice tunnel \<and> 2 \<le> length hops \<and> ep_hostId (hd hops) = tt_entryHostId tunnel \<and>
        ep_hostId (last hops) = tt_exitHostId tunnel \<longrightarrow> (\<forall>hop \<in> set (tp_hops p). ep_hostId hop \<notin> excluded)))"
proof -
  let ?ids = "if groupedEntries tunnel then filter (\<lambda>i. i \<notin> excluded) entryIds else entryIds"
  let ?nodes = "map (exit_takes_part tunnel excluded) nodes"
  obtain n1 h1 where e: "plan_entries tunnel excluded ?ids (tunnel, hops) = (n1, h1)" by fastforce
  obtain n2 h2 x2 pr where x: "plan_exits tunnel excluded ?nodes (n1, h1) = (n2, h2, x2, pr)" by (cases "plan_exits tunnel excluded ?nodes (n1, h1)") auto
  obtain n3 h3 where t: "plan_transit tunnel excluded hops (n2, h2) = (n3, h3)" by fastforce
  have p: "p = \<lparr>tp_tunnel = n3, tp_hops = h3, tp_exits = x2, tp_entryHostIds = ?ids, tp_promotedExit = pr\<rparr>"
    using assms by (simp add: planTunnelTrafficParticipation_def Let_def e x t)
  note E = plan_entries_facts [OF e] and X = plan_exits_facts [OF x] and T = plan_transit_facts [OF t]
  note iff = entry_choice_iff exit_choice_iff relay_choice_iff between_iff says_yes_iff usable_exit_iff
  have any: "plans_transit tunnel hops = any_choice tunnel hops" by (simp add: plans_transit_def any_choice_def iff)
  have lost: "transit_lost tunnel excluded h2 \<longleftrightarrow> between hops \<noteq> [] \<and>
       (if js_string (tt_relayMode tunnel) = ''failover'' then ep_hostId ` set (between hops) \<subseteq> excluded
        else ep_hostId ` set (between hops) \<inter> excluded \<noteq> {})"
    unfolding transit_lost_def X(1) E(1) between_iff [symmetric] by auto
  have none: "(\<forall>n \<in> set ?nodes. \<not> hostPolicyBool (en_isEnabled n)) \<longleftrightarrow> \<not> (\<exists>n \<in> set nodes. usable_exit tunnel excluded n)"
    by (simp add: usable_exit_iff)
  have empty: "(if entry_choice tunnel then filter (\<lambda>i. i \<notin> excluded) entryIds else entryIds) = [] \<and> entry_choice tunnel \<longleftrightarrow>
      entry_choice tunnel \<and> set entryIds \<subseteq> excluded"
    by (auto simp: filter_empty_conv)
  have on: "says_yes (tt_isEnabled n3) \<longleftrightarrow> says_yes (tt_isEnabled tunnel) \<and> \<not> cannot_avoid tunnel hops nodes entryIds excluded"
    using T(3) unfolding X(5) E(4) E(3) lost none any unfolding iff cannot_avoid_def using empty by blast
  have rest: "entries_planned tunnel hops entryIds excluded p \<and> exits_planned tunnel hops nodes excluded p \<and>
      transit_planned tunnel hops excluded p" if en: "says_yes (tt_isEnabled n3)"
  proof (intro conjI)
    have left: "entry_choice tunnel \<Longrightarrow> ?ids \<noteq> []" using on en empty unfolding cannot_avoid_def iff by blast
    have "hops \<noteq> [] \<Longrightarrow> h1 \<noteq> []" "hops \<noteq> [] \<Longrightarrow> h2 \<noteq> []" using E(2) X(2) by auto
    then have h: "hops \<noteq> [] \<Longrightarrow> hd h3 = hd h1" using X(4) T(5) by auto
    show "entries_planned tunnel hops entryIds excluded p"
      using E(7,8) h left T(1) X(3) unfolding p entries_planned_def iff by auto
    show "transit_planned tunnel hops excluded p"
      using T(10) en X(1) E(1) any unfolding p transit_planned_def iff by simp
    have on2: "says_yes (tt_isEnabled n2)" using en T(3) by (simp add: iff)
    have last: "last h3 = last h2" "h2 = h1 \<Longrightarrow> last h3 = last hops" if two: "2 \<le> length hops"
    proof -
      have "2 \<le> length h2" using two X(2) E(2) by simp
      then show l: "last h3 = last h2" by (rule T(6))
      have tl: "last xs = last (tl xs)" if "2 \<le> length xs" for xs :: "endpoint list" using that by (cases xs) auto
      have "last h1 = last (tl h1)" "last hops = last (tl hops)" using tl two E(2) by simp_all
      then show "last h3 = last hops" if "h2 = h1" using l that E(6) by simp
    qed
    show "exits_planned tunnel hops nodes excluded p"
      using plan_exits_planned [OF x on2 E(3)] last E(2) T(2,7,8,9) unfolding exits_planned_def Let_def p
      by (auto split: if_splits)
  qed
  have exits: "ep_hostId n \<notin> excluded" if "exit_choice tunnel" "n \<in> set (tp_exits p)" "says_yes (en_isEnabled n)" for n
  proof -
    note hyps = that
    have "n \<in> set ?nodes" using hyps(2) X(6) unfolding p by auto
    then obtain m where m: "n = exit_takes_part tunnel excluded m" by auto
    then have "usable_exit tunnel excluded m" using hyps(3) by (simp add: usable_exit_iff [symmetric] says_yes_iff)
    then show ?thesis using hyps(1) m by (simp add: usable_exit_def)
  qed
  have entry: "tp_entryHostIds p \<noteq> [] \<and> set (tp_entryHostIds p) \<inter> excluded = {} \<and> tt_entryHostId (tp_tunnel p) \<notin> excluded"
    if "entry_choice tunnel" "says_yes (tt_isEnabled n3)"
  proof -
    have "tp_entryHostIds p \<noteq> []" using on that empty unfolding cannot_avoid_def p by (simp add: iff)
    moreover have "set (tp_entryHostIds p) \<inter> excluded = {}" using that(1) unfolding p by (auto simp: iff)
    ultimately show ?thesis using rest [OF that(2)] that(1) hd_in_set unfolding entries_planned_def by (metis IntI empty_iff)
  qed
  have exit: "tt_exitHostId (tp_tunnel p) \<notin> excluded \<and> (\<forall>n. tp_promotedExit p = Some n \<longrightarrow> ep_hostId n \<notin> excluded)"
    if "exit_choice tunnel" "says_yes (tt_isEnabled n3)"
    using rest [OF that(2)] exits_planned_safe(1,2) that(1) by blast
  have transit: "ep_hostId hop \<notin> excluded" if "any_choice tunnel hops" "says_yes (tt_isEnabled n3)" "hop \<in> set (between (tp_hops p))" for hop
    using rest [OF that(2)] that(1,3) by (simp add: transit_planned_def)
  have all: "ep_hostId hop \<notin> excluded"
    if en: "says_yes (tt_isEnabled n3)" and c: "entry_choice tunnel" "exit_choice tunnel" "2 \<le> length hops"
      "ep_hostId (hd hops) = tt_entryHostId tunnel" "ep_hostId (last hops) = tt_exitHostId tunnel" and hop: "hop \<in> set (tp_hops p)" for hop
  proof -
    have "hops \<noteq> []" using c(3) by auto
    then have first: "ep_hostId (hd (tp_hops p)) \<notin> excluded"
      using rest [OF en] entry [OF c(1) en] c(1,4) unfolding entries_planned_def by (auto split: if_splits)
    have final: "ep_hostId (last (tp_hops p)) \<notin> excluded"
      using rest [OF en] exits_planned_safe(3) c(2,3,5) by blast
    have "any_choice tunnel hops" using c(1) by (simp add: any_choice_def)
    then have mid: "\<forall>hop \<in> set (between (tp_hops p)). ep_hostId hop \<notin> excluded" using transit en by blast
    have "hop = hd (tp_hops p) \<or> hop \<in> set (between (tp_hops p)) \<or> hop = last (tp_hops p)"
      by (rule hop_place [OF hop])
    then show ?thesis using first mid final by blast
  qed
  have e3: "tt_isEnabled (tp_tunnel p) = tt_isEnabled n3" by (simp add: p)
  show ?thesis unfolding e3 using on rest entry exit exits transit all by blast
qed

section \<open>Witnesses\<close>

definition demo_endpoint :: "int \<Rightarrow> endpoint" where
  "demo_endpoint h = \<lparr>ep_hostId = h, ep_listenPort = JNum 9000, ep_mimicPort = JNull, ep_connectHost = JNull\<rparr>"

definition demo_tunnel :: traffic_tunnel where
  "demo_tunnel = \<lparr>tt_isEnabled = JBool True, tt_entryGroupId = JNum 3, tt_exitGroupId = JNull, tt_loadBalanceEnabled = JBool False,
     tt_relayMode = JStr ''failover'', tt_mode = JStr ''forwardx'', tt_entryHostId = 1, tt_exitHostId = 5,
     tt_listenPort = JNum 9000, tt_mimicPort = JNull, tt_connectHost = JNull\<rparr>"

definition demo_plan :: traffic_plan where
  "demo_plan = planTunnelTrafficParticipation demo_tunnel (map demo_endpoint [1, 3, 4, 5]) [] [1, 2] {1, 3}"

theorem traffic_plan_avoids_excluded_witness:
  "tt_entryHostId (tp_tunnel demo_plan) = 2 \<and> map ep_hostId (tp_hops demo_plan) = [2, 4, 5] \<and> tt_entryHostId (tp_tunnel demo_plan) \<notin> {1, 3}"
proof -
  have v: "tt_entryHostId (tp_tunnel demo_plan) = 2" "map ep_hostId (tp_hops demo_plan) = [2, 4, 5]"
    "says_yes (tt_isEnabled (tp_tunnel demo_plan))" by code_simp+
  have e: "entry_choice demo_tunnel" unfolding entry_choice_iff [symmetric] by code_simp
  have "tt_entryHostId (tp_tunnel demo_plan) \<notin> {1, 3}"
    using traffic_plan_avoids_excluded [OF demo_plan_def [symmetric]] v(3) e by blast
  then show ?thesis using v(1,2) by blast
qed

end
