(* ===== verification/Failover_Health.thy ===== *)
theory Failover_Health
imports Host_Traffic Group_Health Fast_Liveness
begin

text \<open>
  The health of the members of a failover group (\<open>server/repositories/forwardGroupRepository.ts\<close>): whether the agent
  of a member is alive, what the probes of its rules say, and since when it has been healthy or failing.

  Rows of the database are records; a \<open>Date\<close> column is a \<^typ>\<open>rat option\<close> in milliseconds, which the database keeps
  in whole seconds (\<open>stored\<close>).  The awaited reads are arguments.  \<open>now\<close> is the time the evaluation begins, \<open>clock\<close> the
  one read at its end.  Messages are constructors; \<open>parse\<close> stands for the run time's parsing of date texts.
\<close>

section \<open>Rows\<close>

record failover_member =
  fm_id :: int
  fm_priority :: rat
  fm_isEnabled :: jsval
  fm_healthStatus :: jsval
  fm_lastLatencyMs :: "rat option"
  fm_failureSince :: "rat option"
  fm_healthySince :: "rat option"
  fm_lastCheckedAt :: "rat option"
  fm_updatedAt :: "rat option"
  fm_createdAt :: "rat option"
  fm_chinaHealthStatus :: jsval
  fm_chinaHealthCheckedAt :: "rat option"
  fm_chinaHealthLatencyMs :: "rat option"

datatype record_type = Rec_A | Rec_AAAA | Rec_BOTH | Rec_CNAME

text \<open>Messages of a group and reasons for holding its addresses; their texts are for people.\<close>

datatype hold_reason = No_Healthy_Member | No_Online_Member record_type | No_Healthy_Entry record_type | No_Entry record_type

datatype group_message =
    Msg_Text string
  | Msg_Suggested string
  | Msg_Current string
  | Msg_Switched string
  | Msg_Error string
  | Msg_Waiting_Agent
  | Msg_Waiting_Health
  | Msg_No_Rules
  | Msg_No_Domain bool
  | Msg_Quota_Kept hold_reason
  | Msg_Quota_None
  | Msg_Held_Disabled hold_reason string
  | Msg_Nothing_To_Hold hold_reason
  | Msg_Held hold_reason string
  | Msg_Holding hold_reason string
  | Msg_Hold_Failed hold_reason string
  | Msg_No_Entry_Domain
  | Msg_Clean_Up hold_reason
  | Msg_Point_Manually string "string list" nat
  | Msg_Entries_Suggested "string list" nat
  | Msg_Entries_Current nat nat
  | Msg_Entries_Synced nat nat
  | Msg_Exits bool

record failover_group =
  fg_id :: int
  fg_failoverSeconds :: jsval
  fg_recoverSeconds :: jsval
  fg_chinaHealthCheckEnabled :: jsval
  fg_autoFailback :: jsval
  fg_activeMemberId :: "int option"
  fg_domain :: string
  fg_recordType :: record_type
  fg_lastDdnsValue :: string
  fg_lastStatus :: string
  fg_lastMessage :: group_message
  fg_ddnsAutoResolveOff :: bool
  fg_switchNotify :: bool
  fg_lastDdnsAt :: "rat option"
  fg_lastFailoverAt :: "rat option"
  fg_updatedAt :: "rat option"
  fg_createdAt :: "rat option"

record failover_host =
  fh_policy :: host_policy
  fh_lastHeartbeat :: "rat option"
  fh_createdAt :: "rat option"
  fh_updatedAt :: "rat option"

record probe_stat =
  ps_recordedAt :: "rat option"
  ps_healthStatus :: jsval
  ps_isTimeout :: jsval
  ps_latencyMs :: "rat option"

record child_rule =
  cr_forwardGroupRuleId :: jsval
  cr_isEnabled :: jsval
  cr_pendingDelete :: jsval
  cr_isRunning :: jsval
  cr_stat :: "probe_stat option"

record template_row =
  tr_id :: int
  tr_isEnabled :: jsval
  tr_pendingDelete :: jsval

section \<open>Conversions\<close>

definition stored :: "rat \<Rightarrow> rat option" where
  "stored t = (let n = \<lfloor>t / 1000\<rfloor> in if n \<le> 0 then None else Some (of_int n * 1000))"

definition dbBool :: "bool \<Rightarrow> jsval \<Rightarrow> bool" where
  "dbBool fallback v =
     (if v = JUndef \<or> v = JNull \<or> v = JStr [] then fallback
      else if v = JBool True \<or> v = JNum 1 then True
      else (case v of
              JStr s \<Rightarrow> (let normalized = js_lower (js_trim s) in normalized = ''1'' \<or> normalized = ''true'')
            | _ \<Rightarrow> False))"

definition time_or_0 :: "rat option \<Rightarrow> rat" where
  "time_or_0 t = (case t of Some x \<Rightarrow> x | None \<Rightarrow> 0)"

definition delay_ms :: "rat \<Rightarrow> jsval \<Rightarrow> rat" where
  "delay_ms dflt seconds =
     max 10 (case js_number (js_or seconds (JNum dflt)) of Some s \<Rightarrow> s | None \<Rightarrow> dflt) * 1000"

definition forwardGroupFailoverDelayMs :: "failover_group \<Rightarrow> rat" where
  "forwardGroupFailoverDelayMs grp = delay_ms 60 (fg_failoverSeconds grp)"

definition forwardGroupRecoverDelayMs :: "failover_group \<Rightarrow> rat" where
  "forwardGroupRecoverDelayMs grp = delay_ms 120 (fg_recoverSeconds grp)"

definition freshForwardGroupRuleProbe :: "probe_stat option \<Rightarrow> rat \<Rightarrow> probe_stat option" where
  "freshForwardGroupRuleProbe stat now =
     (case stat of
        None \<Rightarrow> None
      | Some s \<Rightarrow>
          (case ps_recordedAt s of
             None \<Rightarrow> None
           | Some recordedAt \<Rightarrow>
               (let age = now - recordedAt in if age < - 60000 \<or> agent_health_ttl_ms < age then None else Some s)))"

text \<open>A row as the health functions of theory \<open>Group_Health\<close> see it.\<close>

definition date_value :: "rat option \<Rightarrow> time_value" where
  "date_value t = (case t of Some x \<Rightarrow> TDate (Some x) | None \<Rightarrow> TVal JNull)"

definition health_row :: "failover_member \<Rightarrow> group_member" where
  "health_row m = \<lparr>gm_isEnabled = fm_isEnabled m, gm_healthStatus = fm_healthStatus m, gm_lastCheckedAt = date_value (fm_lastCheckedAt m),
     gm_chinaHealthStatus = fm_chinaHealthStatus m, gm_chinaHealthCheckedAt = date_value (fm_chinaHealthCheckedAt m)\<rparr>"

section \<open>Liveness of the agent of a member\<close>

record liveness_signature =
  sg_hostId :: int
  sg_available :: bool
  sg_trafficExcluded :: bool
  sg_confirmedOffline :: bool
  sg_transitionEpoch :: int
  sg_lastOfflineAt :: rat

record agent_liveness =
  al_available :: bool
  al_trafficExcluded :: bool
  al_failureSince :: "rat option"
  al_lastOfflineAt :: "rat option"
  al_signature :: liveness_signature

definition host_online_ttl_ms :: rat where "host_online_ttl_ms = 150000"

text \<open>A tunnel member does not take part when its plan without the exhausted hosts has nothing left.\<close>

definition tunnel_member_excluded :: "traffic_tunnel \<Rightarrow> endpoint list \<Rightarrow> exit_node list \<Rightarrow> int set \<Rightarrow> bool" where
  "tunnel_member_excluded tunnel hops nodes excluded =
     (let plan = planTunnelTrafficParticipation tunnel hops nodes [tt_entryHostId tunnel] excluded in
      \<not> dbBool False (tt_isEnabled (tp_tunnel plan)) \<and> dbBool False (tt_isEnabled tunnel) \<or>
      number_or_zero (tt_exitGroupId tunnel) = 0 \<and> \<not> dbBool False (tt_loadBalanceEnabled tunnel) \<and> tt_exitHostId tunnel \<in> excluded \<or>
      \<not> isTunnelRelayFailover tunnel hops \<and> (\<exists>hop \<in> set (transit_of hops). ep_hostId hop \<in> excluded))"

text \<open>The tunnel of a member, where it is one: its row, hops and exits, and the exhausted hosts.\<close>

type_synonym member_tunnel = "(traffic_tunnel \<times> endpoint list \<times> exit_node list \<times> int set) option"

definition member_traffic_excluded :: "failover_host option \<Rightarrow> member_tunnel \<Rightarrow> bool" where
  "member_traffic_excluded host tunnel \<longleftrightarrow>
     hostTrafficExcluded (map_option fh_policy host) \<or>
     (case tunnel of None \<Rightarrow> False | Some (t, hops, nodes, excluded) \<Rightarrow> tunnel_member_excluded t hops nodes excluded)"

definition resolveMemberAgentLiveness ::
  "int \<Rightarrow> failover_host option \<Rightarrow> member_tunnel \<Rightarrow> liveness_snapshot option \<Rightarrow> rat option \<Rightarrow> rat \<Rightarrow> agent_liveness" where
  "resolveMemberAgentLiveness hostId host tunnel fastState authenticatedAt nowMs =
     (let trafficExcluded = member_traffic_excluded host tunnel;
          heartbeatAt = time_or_0 (Option.bind host fh_lastHeartbeat);
          lastSeenAt = (case fastState of
              Some f \<Rightarrow> time_or_0 (lv_lastSeenAt f)
            | None \<Rightarrow> max (time_or_0 authenticatedAt) heartbeatAt);
          legacyActivityRecently = (0 < lastSeenAt \<and> nowMs - min lastSeenAt nowMs \<le> host_online_ttl_ms);
          createdAt = time_or_0 (Option.bind host fh_createdAt);
          updatedAt = time_or_0 (Option.bind host fh_updatedAt);
          lifecycleAt = (if createdAt \<noteq> 0 then createdAt else if updatedAt \<noteq> 0 then updatedAt else nowMs);
          confirmedOffline = (case fastState of Some f \<Rightarrow> lv_confirmedOffline f | None \<Rightarrow> False);
          available = (host \<noteq> None \<and> \<not> trafficExcluded \<and>
            (case fastState of Some f \<Rightarrow> \<not> confirmedOffline | None \<Rightarrow> legacyActivityRecently));
          failureAt = (if 0 < lastSeenAt then min lastSeenAt nowMs else min lifecycleAt nowMs);
          lastOffline = (case fastState of Some f \<Rightarrow> map_option rat_of_int (lv_lastOfflineAt f) | None \<Rightarrow> None);
          lastOfflineAt = (if time_or_0 lastOffline = 0 then None else lastOffline)
      in \<lparr>al_available = available, al_trafficExcluded = trafficExcluded,
          al_failureSince = (if available then None else Some failureAt), al_lastOfflineAt = lastOfflineAt,
          al_signature = \<lparr>sg_hostId = hostId, sg_available = available, sg_trafficExcluded = trafficExcluded,
            sg_confirmedOffline = confirmedOffline,
            sg_transitionEpoch = (case fastState of Some f \<Rightarrow> lv_transitionEpoch f | None \<Rightarrow> 0),
            sg_lastOfflineAt = time_or_0 lastOfflineAt\<rparr>\<rparr>)"

definition agentHealthSampleIsCurrent :: "agent_liveness \<Rightarrow> rat option \<Rightarrow> bool" where
  "agentHealthSampleIsCurrent liveness sampleAt =
     (case al_lastOfflineAt liveness of None \<Rightarrow> True | Some off \<Rightarrow> off < time_or_0 sampleAt)"

section \<open>Evaluation of a member\<close>

datatype member_message =
    Traffic_Excluded | Member_Disabled | No_Rule | No_Enabled_Rule | Agent_Offline | Rule_Disabled | Rule_Not_Running
  | Waiting_After_Reconnect | Result_Expired | Result_Missing | Waiting_Result | Waiting_Decision | Check_Failed | Probe_Timeout
  | China_Timeout | China_Stale | China_Waiting | Probe_Normal | Waiting_Probe_Data | No_Message

record rule_check =
  rc_healthy :: bool
  rc_agentHealthPending :: bool
  rc_agentFailureFinal :: bool
  rc_allFinal :: bool
  rc_observedFailureSince :: "rat option"
  rc_nextProbeExpiryAt :: "rat option"
  rc_latencies :: "rat list"
  rc_message :: member_message

definition status_text :: "jsval \<Rightarrow> string" where
  "status_text v = js_lower (js_trim (js_string (js_or v (JStr []))))"

definition min_expiry :: "rat option \<Rightarrow> rat \<Rightarrow> rat" where
  "min_expiry current expiresAt = (case current of None \<Rightarrow> expiresAt | Some x \<Rightarrow> min x expiresAt)"

text \<open>One rule: \<^const>\<open>Inl\<close> is a \<open>break\<close>.\<close>

definition check_rule ::
  "rat \<Rightarrow> agent_liveness \<Rightarrow> failover_member \<Rightarrow> failover_group \<Rightarrow> rule_check \<Rightarrow> child_rule \<Rightarrow> rule_check + rule_check" where
  "check_rule now liveness member grp c rule =
     (if \<not> dbBool False (cr_isEnabled rule) \<or> dbBool False (cr_pendingDelete rule)
      then Inl (c\<lparr>rc_healthy := False, rc_message := Rule_Disabled\<rparr>)
      else if \<not> dbBool False (cr_isRunning rule) then Inl (c\<lparr>rc_healthy := False, rc_message := Rule_Not_Running\<rparr>)
      else
        (let latestStat = cr_stat rule; latestAt = Option.bind latestStat ps_recordedAt in
         if \<not> agentHealthSampleIsCurrent liveness latestAt
         then Inl (c\<lparr>rc_healthy := False, rc_allFinal := False, rc_agentHealthPending := True, rc_message := Waiting_After_Reconnect\<rparr>)
         else
           (case freshForwardGroupRuleProbe latestStat now of
              None \<Rightarrow>
                (let c' = c\<lparr>rc_healthy := False, rc_allFinal := False\<rparr> in
                 case latestAt of
                   Some recordedAt \<Rightarrow>
                     Inl (c'\<lparr>rc_agentFailureFinal := True, rc_observedFailureSince := Some (recordedAt + agent_health_ttl_ms),
                       rc_message := Result_Expired\<rparr>)
                 | None \<Rightarrow>
                     (let waitingSince = (case fm_lastCheckedAt member of Some t \<Rightarrow> t | None \<Rightarrow>
                            (case fg_updatedAt grp of Some t \<Rightarrow> t | None \<Rightarrow> (case fg_createdAt grp of Some t \<Rightarrow> t | None \<Rightarrow> now)));
                          expiresAt = waitingSince + agent_health_ttl_ms
                      in if expiresAt \<le> now
                         then Inl (c'\<lparr>rc_agentFailureFinal := True, rc_observedFailureSince := Some expiresAt, rc_message := Result_Missing\<rparr>)
                         else Inl (c'\<lparr>rc_agentHealthPending := True, rc_nextProbeExpiryAt := Some expiresAt,
                           rc_message := Waiting_Result\<rparr>)))
            | Some stat \<Rightarrow>
                (let c1 = (case ps_recordedAt stat of
                       None \<Rightarrow> c
                     | Some recordedAt \<Rightarrow>
                         c\<lparr>rc_nextProbeExpiryAt := Some (min_expiry (rc_nextProbeExpiryAt c) (recordedAt + agent_health_ttl_ms))\<rparr>);
                     status = status_text (ps_healthStatus stat)
                 in if status = ''unknown''
                    then Inl (c1\<lparr>rc_healthy := False, rc_allFinal := False, rc_agentHealthPending := True, rc_message := Waiting_Decision\<rparr>)
                    else if status = ''unhealthy''
                    then Inl (c1\<lparr>rc_healthy := False, rc_agentFailureFinal := True, rc_message := Check_Failed\<rparr>)
                    else
                      (let c2 = (if status \<noteq> ''healthy'' then c1\<lparr>rc_allFinal := False\<rparr> else c1) in
                       if status \<noteq> ''healthy'' \<and> dbBool False (ps_isTimeout stat)
                       then Inl (c2\<lparr>rc_healthy := False, rc_message := Probe_Timeout\<rparr>)
                       else (case ps_latencyMs stat of
                               None \<Rightarrow> Inr c2
                             | Some l \<Rightarrow> Inr (c2\<lparr>rc_latencies := rc_latencies c2 @ [l]\<rparr>)))))))"

fun check_rules ::
  "rat \<Rightarrow> agent_liveness \<Rightarrow> failover_member \<Rightarrow> failover_group \<Rightarrow> child_rule list \<Rightarrow> rule_check \<Rightarrow> rule_check" where
  "check_rules now liveness member grp [] c = c"
| "check_rules now liveness member grp (rule # rules) c =
     (case check_rule now liveness member grp c rule of Inl c' \<Rightarrow> c' | Inr c' \<Rightarrow> check_rules now liveness member grp rules c')"

text \<open>\<open>Number(rule.forwardGroupRuleId || 0)\<close>, and the child rules whose template is enabled.\<close>

definition template_of :: "child_rule \<Rightarrow> rat option" where
  "template_of rule = js_number (js_or (cr_forwardGroupRuleId rule) (JNum 0))"

definition active_child_rules :: "template_row list \<Rightarrow> child_rule list \<Rightarrow> child_rule list" where
  "active_child_rules templates rules =
     (let ids = List.map_filter (\<lambda>rule. case template_of rule of
             Some q \<Rightarrow> if js_is_integer q \<and> 0 < q then Some \<lfloor>q\<rfloor> else None | None \<Rightarrow> None) rules;
          rows = filter (\<lambda>t. tr_id t \<in> set ids) templates;
          enabled = map tr_id (filter (\<lambda>t. dbBool False (tr_isEnabled t) \<and> \<not> dbBool False (tr_pendingDelete t) \<and> 0 < tr_id t) rows)
      in filter (\<lambda>rule. case template_of rule of Some q \<Rightarrow> q \<in> set (map of_int enabled) | None \<Rightarrow> False) rules)"

text \<open>The health of the service for users in China, where it is checked.\<close>

record china_check =
  cc_healthy :: bool
  cc_pending :: bool
  cc_observed :: "rat option"
  cc_latencies :: "rat list"
  cc_message :: member_message

definition check_china ::
  "(string \<Rightarrow> rat option) \<Rightarrow> rat \<Rightarrow> agent_liveness \<Rightarrow> failover_member \<Rightarrow> rule_check \<Rightarrow> china_check" where
  "check_china parse now liveness member c =
     (let status = (if agentHealthSampleIsCurrent liveness (fm_chinaHealthCheckedAt member)
                    then forwardGroupChinaHealthStateAt parse (health_row member) (JNum now) else Pending);
          same = \<lparr>cc_healthy = True, cc_pending = False, cc_observed = rc_observedFailureSince c, cc_latencies = rc_latencies c,
            cc_message = rc_message c\<rparr>
      in case status of
           Unhealthy \<Rightarrow> same\<lparr>cc_healthy := False, cc_message := China_Timeout\<rparr>
         | Stale \<Rightarrow> same\<lparr>cc_healthy := False, cc_message := China_Stale,
             cc_observed := (case fm_chinaHealthCheckedAt member of
               Some t \<Rightarrow> Some (t + china_health_ttl_ms) | None \<Rightarrow> rc_observedFailureSince c)\<rparr>
         | Pending \<Rightarrow> same\<lparr>cc_healthy := False, cc_pending := True, cc_message := China_Waiting\<rparr>
         | Healthy \<Rightarrow> same\<lparr>cc_latencies := rc_latencies c @ (case fm_chinaHealthLatencyMs member of Some l \<Rightarrow> [l] | None \<Rightarrow> [])\<rparr>)"

text \<open>What was found out about a member, before the windows.\<close>

record finding =
  fi_healthy :: bool
  fi_agentPending :: bool
  fi_chinaPending :: bool
  fi_agentFailureFinal :: bool
  fi_allFinal :: bool
  fi_observed :: "rat option"
  fi_expiry :: "rat option"
  fi_latencyMs :: "rat option"
  fi_message :: member_message

definition failing :: "member_message \<Rightarrow> rat option \<Rightarrow> bool \<Rightarrow> finding" where
  "failing message observed final =
     \<lparr>fi_healthy = False, fi_agentPending = False, fi_chinaPending = False, fi_agentFailureFinal = final, fi_allFinal = False,
      fi_observed = observed, fi_expiry = None, fi_latencyMs = None, fi_message = message\<rparr>"

definition js_round :: "rat \<Rightarrow> rat" where
  "js_round x = of_int \<lfloor>x + 1 / 2\<rfloor>"

definition start_check :: rule_check where
  "start_check = \<lparr>rc_healthy = True, rc_agentHealthPending = False, rc_agentFailureFinal = False, rc_allFinal = True,
     rc_observedFailureSince = None, rc_nextProbeExpiryAt = None, rc_latencies = [], rc_message = No_Message\<rparr>"

definition probe_member ::
  "(string \<Rightarrow> rat option) \<Rightarrow> rat \<Rightarrow> agent_liveness \<Rightarrow> child_rule list \<Rightarrow> failover_member \<Rightarrow> failover_group \<Rightarrow> finding" where
  "probe_member parse now liveness activeRules member grp =
     (let c = check_rules now liveness member grp activeRules start_check;
          h = (if rc_healthy c \<and> dbBool False (fg_chinaHealthCheckEnabled grp) then check_china parse now liveness member c
               else \<lparr>cc_healthy = rc_healthy c, cc_pending = False, cc_observed = rc_observedFailureSince c,
                 cc_latencies = rc_latencies c, cc_message = rc_message c\<rparr>);
          n = length (cc_latencies h)
      in \<lparr>fi_healthy = cc_healthy h, fi_agentPending = rc_agentHealthPending c, fi_chinaPending = cc_pending h,
          fi_agentFailureFinal = rc_agentFailureFinal c, fi_allFinal = rc_allFinal c, fi_observed = cc_observed h,
          fi_expiry = rc_nextProbeExpiryAt c,
          fi_latencyMs = (if cc_healthy h \<and> n \<noteq> 0 then Some (js_round (sum_list (cc_latencies h) / of_nat n)) else None),
          fi_message = (if cc_healthy h then if n \<noteq> 0 then Probe_Normal else Waiting_Probe_Data else cc_message h)\<rparr>)"

definition examine_member ::
  "(string \<Rightarrow> rat option) \<Rightarrow> rat \<Rightarrow> agent_liveness \<Rightarrow> child_rule list \<Rightarrow> template_row list \<Rightarrow> failover_member \<Rightarrow> failover_group \<Rightarrow> finding" where
  "examine_member parse now liveness childRules templates member grp =
     (if al_trafficExcluded liveness then failing Traffic_Excluded (Some now) True
      else if \<not> dbBool False (fm_isEnabled member) then failing Member_Disabled None False
      else if childRules = [] then failing No_Rule None False
      else (let active = active_child_rules templates childRules in
            if active = [] then failing No_Enabled_Rule None False
            else if \<not> al_available liveness
            then failing Agent_Offline (Some (case al_failureSince liveness of Some t \<Rightarrow> t | None \<Rightarrow> now)) False
            else probe_member parse now liveness active member grp))"

section \<open>Windows\<close>

record evaluation =
  ev_member :: failover_member
  ev_healthy :: bool
  ev_healthPending :: bool
  ev_latencyMs :: "rat option"
  ev_message :: member_message
  ev_failureSince :: "rat option"
  ev_healthySince :: "rat option"
  ev_failedLongEnough :: bool
  ev_recoveredLongEnough :: bool
  ev_nextProbeExpiryAt :: "rat option"
  ev_signature :: liveness_signature

record member_patch =
  mp_healthStatus :: string
  mp_lastLatencyMs :: "rat option"
  mp_failureSince :: "rat option"
  mp_healthySince :: "rat option"
  mp_checkedAt :: "rat option"
  mp_updatedAt :: rat

definition finding_pending :: "finding \<Rightarrow> bool" where
  "finding_pending f \<longleftrightarrow> fi_agentPending f \<or> fi_chinaPending f"

definition next_failureSince :: "finding \<Rightarrow> rat \<Rightarrow> rat option \<Rightarrow> rat option" where
  "next_failureSince f now previous =
     (if fi_healthy f \<or> finding_pending f then None
      else (let since = (case previous of Some t \<Rightarrow> t | None \<Rightarrow> (case fi_observed f of Some t \<Rightarrow> t | None \<Rightarrow> now)) in
            Some (case fi_observed f of Some t \<Rightarrow> if t < since then t else since | None \<Rightarrow> since)))"

definition next_healthySince :: "finding \<Rightarrow> rat \<Rightarrow> rat option \<Rightarrow> rat option" where
  "next_healthySince f now previous =
     (if fi_healthy f then Some (case previous of Some t \<Rightarrow> t | None \<Rightarrow> now) else None)"

definition finding_status :: "finding \<Rightarrow> string" where
  "finding_status f = (if fi_healthy f then ''healthy'' else if finding_pending f then ''unknown'' else ''unhealthy'')"

definition passed_delay :: "rat \<Rightarrow> rat option \<Rightarrow> rat \<Rightarrow> bool" where
  "passed_delay clock since delay = (case since of Some t \<Rightarrow> delay \<le> clock - t | None \<Rightarrow> False)"

definition evaluateMemberHealth ::
  "(string \<Rightarrow> rat option) \<Rightarrow> rat \<Rightarrow> rat \<Rightarrow> agent_liveness \<Rightarrow> child_rule list \<Rightarrow> template_row list \<Rightarrow> failover_member \<Rightarrow> failover_group
     \<Rightarrow> evaluation \<times> member_patch option" where
  "evaluateMemberHealth parse now clock liveness childRules templates member grp =
     (let f = examine_member parse now liveness childRules templates member grp;
          failureSince = next_failureSince f now (fm_failureSince member);
          healthySince = next_healthySince f now (fm_healthySince member);
          status = finding_status f;
          healthStateChanged = (js_string (js_or (fm_healthStatus member) (JStr ''unknown'')) \<noteq> status \<or>
            fm_failureSince member \<noteq> failureSince \<or> fm_healthySince member \<noteq> healthySince);
          healthSnapshotDue = (al_available liveness \<and>
            (case fm_lastCheckedAt member of None \<Rightarrow> True | Some t \<Rightarrow> 300000 \<le> now - t))
      in (\<lparr>ev_member = member, ev_healthy = fi_healthy f, ev_healthPending = finding_pending f, ev_latencyMs = fi_latencyMs f,
           ev_message = fi_message f, ev_failureSince = failureSince, ev_healthySince = healthySince,
           ev_failedLongEnough = (fi_agentFailureFinal f \<or> passed_delay clock failureSince (forwardGroupFailoverDelayMs grp)),
           ev_recoveredLongEnough =
             (fi_healthy f \<and> fi_allFinal f \<or> passed_delay clock healthySince (forwardGroupRecoverDelayMs grp)),
           ev_nextProbeExpiryAt = fi_expiry f, ev_signature = al_signature liveness\<rparr>,
          if healthStateChanged \<or> healthSnapshotDue
          then Some \<lparr>mp_healthStatus = status, mp_lastLatencyMs = fi_latencyMs f, mp_failureSince = failureSince,
            mp_healthySince = healthySince, mp_checkedAt = (if al_available liveness then Some now else None), mp_updatedAt = now\<rparr>
          else None))"

text \<open>What the database keeps of a patch.\<close>

definition apply_patch :: "member_patch option \<Rightarrow> failover_member \<Rightarrow> failover_member" where
  "apply_patch patch member =
     (case patch of
        None \<Rightarrow> member
      | Some p \<Rightarrow>
          member\<lparr>fm_healthStatus := JStr (mp_healthStatus p), fm_lastLatencyMs := mp_lastLatencyMs p,
            fm_failureSince := Option.bind (mp_failureSince p) stored, fm_healthySince := Option.bind (mp_healthySince p) stored,
            fm_lastCheckedAt := (case mp_checkedAt p of Some t \<Rightarrow> stored t | None \<Rightarrow> fm_lastCheckedAt member),
            fm_updatedAt := stored (mp_updatedAt p)\<rparr>)"


section \<open>What healthy means\<close>

text \<open>The probe of a rule that lets its member count as healthy: recent, later than the last time the agent was
  found offline, and good.\<close>

definition probe_good :: "rat \<Rightarrow> agent_liveness \<Rightarrow> probe_stat \<Rightarrow> bool" where
  "probe_good now liveness stat \<longleftrightarrow>
     (\<exists>ta. ps_recordedAt stat = Some ta \<and> ta \<le> now + 60000 \<and> now \<le> ta + agent_health_ttl_ms \<and>
        (\<forall>off. al_lastOfflineAt liveness = Some off \<longrightarrow> off < ta)) \<and>
     (status_text (ps_healthStatus stat) = ''healthy'' \<or>
      status_text (ps_healthStatus stat) \<notin> {''unknown'', ''unhealthy''} \<and> \<not> dbBool False (ps_isTimeout stat))"

definition rule_good :: "rat \<Rightarrow> agent_liveness \<Rightarrow> child_rule \<Rightarrow> bool" where
  "rule_good now liveness rule \<longleftrightarrow>
     dbBool False (cr_isEnabled rule) \<and> \<not> dbBool False (cr_pendingDelete rule) \<and> dbBool False (cr_isRunning rule) \<and>
     (\<exists>stat. cr_stat rule = Some stat \<and> probe_good now liveness stat)"

definition china_good :: "(string \<Rightarrow> rat option) \<Rightarrow> rat \<Rightarrow> agent_liveness \<Rightarrow> failover_member \<Rightarrow> bool" where
  "china_good parse now liveness member \<longleftrightarrow>
     agentHealthSampleIsCurrent liveness (fm_chinaHealthCheckedAt member) \<and>
     forwardGroupChinaHealthStateAt parse (health_row member) (JNum now) = Healthy"

text \<open>
  A rule that leaves the verdict open: it is running, and its last probe was taken before the agent was last lost, or none has come
  and the panel has not waited long enough for one, or the agent has not decided.  A rule that settles the failure: it is
  running and known since the agent came back, and its probe has run out, or none has come in time, or the agent says unhealthy.
\<close>

definition rule_running :: "child_rule \<Rightarrow> bool" where
  "rule_running rule \<longleftrightarrow> dbBool False (cr_isEnabled rule) \<and> \<not> dbBool False (cr_pendingDelete rule) \<and> dbBool False (cr_isRunning rule)"

definition sample_at :: "child_rule \<Rightarrow> rat option" where
  "sample_at rule = (case cr_stat rule of None \<Rightarrow> None | Some stat \<Rightarrow> ps_recordedAt stat)"

definition after_loss :: "agent_liveness \<Rightarrow> rat option \<Rightarrow> bool" where
  "after_loss liveness t \<longleftrightarrow> (\<forall>off. al_lastOfflineAt liveness = Some off \<longrightarrow> off < (case t of Some x \<Rightarrow> x | None \<Rightarrow> 0))"

definition waiting_since :: "rat \<Rightarrow> failover_member \<Rightarrow> failover_group \<Rightarrow> rat" where
  "waiting_since now member grp =
     (case (fm_lastCheckedAt member, fg_updatedAt grp, fg_createdAt grp) of
        (Some t, _, _) \<Rightarrow> t | (None, Some t, _) \<Rightarrow> t | (None, None, Some t) \<Rightarrow> t | (None, None, None) \<Rightarrow> now)"

definition probe_says :: "rat \<Rightarrow> child_rule \<Rightarrow> string \<Rightarrow> bool" where
  "probe_says now rule status \<longleftrightarrow>
     (\<exists>stat ta. cr_stat rule = Some stat \<and> ps_recordedAt stat = Some ta \<and> ta \<le> now + 60000 \<and> now \<le> ta + agent_health_ttl_ms \<and>
        status_text (ps_healthStatus stat) = status)"

definition rule_waits :: "rat \<Rightarrow> agent_liveness \<Rightarrow> rat \<Rightarrow> child_rule \<Rightarrow> bool" where
  "rule_waits now liveness since rule \<longleftrightarrow> rule_running rule \<and>
     (\<not> after_loss liveness (sample_at rule) \<or> sample_at rule = None \<and> now < since + agent_health_ttl_ms \<or>
      probe_says now rule ''unknown'')"

definition rule_failed :: "rat \<Rightarrow> agent_liveness \<Rightarrow> rat \<Rightarrow> child_rule \<Rightarrow> bool" where
  "rule_failed now liveness since rule \<longleftrightarrow> rule_running rule \<and> after_loss liveness (sample_at rule) \<and>
     (sample_at rule = None \<and> since + agent_health_ttl_ms \<le> now \<or>
      (\<exists>ta. sample_at rule = Some ta \<and> \<not> (ta \<le> now + 60000 \<and> now \<le> ta + agent_health_ttl_ms)) \<or>
      probe_says now rule ''unhealthy'')"

text \<open>The first rule that is not good decides.\<close>

definition first_bad :: "rat \<Rightarrow> agent_liveness \<Rightarrow> (child_rule \<Rightarrow> bool) \<Rightarrow> child_rule list \<Rightarrow> bool" where
  "first_bad now liveness P rules \<longleftrightarrow>
     (\<exists>xs rule ys. rules = xs @ rule # ys \<and> (\<forall>x \<in> set xs. rule_good now liveness x) \<and> \<not> rule_good now liveness rule \<and> P rule)"

definition china_waits :: "(string \<Rightarrow> rat option) \<Rightarrow> rat \<Rightarrow> agent_liveness \<Rightarrow> failover_member \<Rightarrow> bool" where
  "china_waits parse now liveness member \<longleftrightarrow>
     \<not> after_loss liveness (fm_chinaHealthCheckedAt member) \<or>
     forwardGroupChinaHealthStateAt parse (health_row member) (JNum now) = Pending"

lemma fresh_probe_iff:
  "freshForwardGroupRuleProbe stat now = Some s \<longleftrightarrow>
     stat = Some s \<and> (\<exists>ta. ps_recordedAt s = Some ta \<and> ta \<le> now + 60000 \<and> now \<le> ta + agent_health_ttl_ms)"
  by (auto simp: freshForwardGroupRuleProbe_def Let_def not_less split: option.splits if_splits)

lemma fresh_probe_None:
  assumes "freshForwardGroupRuleProbe stat now = None" "stat = Some s" "ps_recordedAt s = Some ta"
  shows "\<not> (ta \<le> now + 60000 \<and> now \<le> ta + agent_health_ttl_ms)"
  using assms fresh_probe_iff [of stat now s] by auto

lemma sample_current_Some: "0 \<le> off \<Longrightarrow> al_lastOfflineAt liveness = Some off \<Longrightarrow> agentHealthSampleIsCurrent liveness (Some ta) \<longleftrightarrow> off < ta"
  by (simp add: agentHealthSampleIsCurrent_def time_or_0_def)

text \<open>A rule check goes on exactly for a good rule, and otherwise the member is not healthy.\<close>

lemma check_rule_iff:
  "(\<exists>c'. check_rule now liveness member grp c rule = Inr c') \<longleftrightarrow> rule_good now liveness rule"
proof -
  let ?at = "Option.bind (cr_stat rule) ps_recordedAt"
  have current: "agentHealthSampleIsCurrent liveness ?at \<longleftrightarrow>
      (case al_lastOfflineAt liveness of None \<Rightarrow> True | Some off \<Rightarrow> off < time_or_0 ?at)"
    by (simp add: agentHealthSampleIsCurrent_def)
  show ?thesis
  proof (cases "freshForwardGroupRuleProbe (cr_stat rule) now")
    case None
    then have "\<not> rule_good now liveness rule"
      unfolding rule_good_def probe_good_def using fresh_probe_None by blast
    then show ?thesis using None by (auto simp: check_rule_def Let_def split: option.splits)
  next
    case (Some stat)
    then obtain ta where ta: "cr_stat rule = Some stat" "ps_recordedAt stat = Some ta" "ta \<le> now + 60000" "now \<le> ta + agent_health_ttl_ms"
      unfolding fresh_probe_iff by blast
    have cur: "agentHealthSampleIsCurrent liveness ?at \<longleftrightarrow> (\<forall>off. al_lastOfflineAt liveness = Some off \<longrightarrow> off < ta)"
      unfolding current using ta(1,2) by (simp add: time_or_0_def split: option.split)
    have good: "rule_good now liveness rule \<longleftrightarrow>
        dbBool False (cr_isEnabled rule) \<and> \<not> dbBool False (cr_pendingDelete rule) \<and> dbBool False (cr_isRunning rule) \<and>
        agentHealthSampleIsCurrent liveness ?at \<and>
        (status_text (ps_healthStatus stat) = ''healthy'' \<or>
         status_text (ps_healthStatus stat) \<notin> {''unknown'', ''unhealthy''} \<and> \<not> dbBool False (ps_isTimeout stat))"
      unfolding rule_good_def probe_good_def cur using ta by simp
    show ?thesis
      unfolding good using Some by (auto simp: check_rule_def Let_def split: option.splits)
  qed
qed

lemma check_rule_healthy:
  "check_rule now liveness member grp c rule = Inr c' \<Longrightarrow> rc_healthy c' = rc_healthy c"
  "check_rule now liveness member grp c rule = Inl c' \<Longrightarrow> \<not> rc_healthy c'"
  by (auto simp: check_rule_def Let_def split: if_splits option.splits)

lemma check_rules_healthy:
  "rc_healthy (check_rules now liveness member grp rules c) \<longleftrightarrow> rc_healthy c \<and> (\<forall>rule \<in> set rules. rule_good now liveness rule)"
proof (induction rules arbitrary: c)
  case (Cons rule rules)
  show ?case
  proof (cases "check_rule now liveness member grp c rule")
    case (Inl c')
    then show ?thesis
      using check_rule_iff [of now liveness member grp c rule] check_rule_healthy(2) [OF Inl] by auto
  next
    case (Inr c')
    then show ?thesis
      using check_rule_iff [of now liveness member grp c rule] check_rule_healthy(1) [OF Inr] Cons.IH [of c'] by auto
  qed
qed simp

lemma check_rule_pending:
  "check_rule now liveness member grp c rule = Inr c' \<Longrightarrow> rc_agentHealthPending c' = rc_agentHealthPending c"
  by (auto simp: check_rule_def Let_def split: if_splits option.splits)

lemma check_rules_pending:
  "rc_agentHealthPending (check_rules now liveness member grp rules c) \<Longrightarrow> rc_agentHealthPending c \<or>
     \<not> rc_healthy (check_rules now liveness member grp rules c)"
proof (induction rules arbitrary: c)
  case (Cons rule rules)
  show ?case
  proof (cases "check_rule now liveness member grp c rule")
    case (Inl c')
    then show ?thesis using check_rule_healthy(2) [OF Inl] by simp
  next
    case (Inr c')
    then show ?thesis using check_rule_pending [OF Inr] Cons.IH [of c'] Cons.prems by simp
  qed
qed simp

lemma after_loss_iff: "agentHealthSampleIsCurrent liveness t \<longleftrightarrow> after_loss liveness t"
  by (auto simp: agentHealthSampleIsCurrent_def after_loss_def time_or_0_def split: option.split)

lemma sample_at_bind: "sample_at rule = Option.bind (cr_stat rule) ps_recordedAt"
  by (cases "cr_stat rule") (simp_all add: sample_at_def)

lemma waiting_since_cases:
  "waiting_since now member grp = (case fm_lastCheckedAt member of Some t \<Rightarrow> t | None \<Rightarrow>
     (case fg_updatedAt grp of Some t \<Rightarrow> t | None \<Rightarrow> (case fg_createdAt grp of Some t \<Rightarrow> t | None \<Rightarrow> now)))"
  by (simp add: waiting_since_def split: option.split)

lemma check_rule_verdict:
  assumes "check_rule now liveness member grp c rule = Inl c'"
  defines "since \<equiv> waiting_since now member grp"
  shows "rc_agentHealthPending c' \<longleftrightarrow> rc_agentHealthPending c \<or> rule_waits now liveness since rule"
    and "rc_agentFailureFinal c' \<longleftrightarrow> rc_agentFailureFinal c \<or> rule_failed now liveness since rule"
proof -
  have *: "(rc_agentHealthPending c' \<longleftrightarrow> rc_agentHealthPending c \<or> rule_waits now liveness since rule) \<and>
      (rc_agentFailureFinal c' \<longleftrightarrow> rc_agentFailureFinal c \<or> rule_failed now liveness since rule)"
  proof (cases "rule_running rule \<and> after_loss liveness (sample_at rule)")
    case False
    then show ?thesis
      using assms(1) unfolding rule_waits_def rule_failed_def
      by (auto simp: check_rule_def Let_def rule_running_def after_loss_iff sample_at_bind split: if_splits)
  next
    case True
    then have run: "dbBool False (cr_isEnabled rule)" "\<not> dbBool False (cr_pendingDelete rule)" "dbBool False (cr_isRunning rule)"
      and cur: "agentHealthSampleIsCurrent liveness (Option.bind (cr_stat rule) ps_recordedAt)"
      by (simp_all add: rule_running_def after_loss_iff sample_at_bind)
    show ?thesis
    proof (cases "freshForwardGroupRuleProbe (cr_stat rule) now")
      case None
      have old: "\<not> (ta \<le> now + 60000 \<and> now \<le> ta + agent_health_ttl_ms)" if "cr_stat rule = Some stat" "ps_recordedAt stat = Some ta" for stat ta
        using fresh_probe_None [OF None that] .
      then have says: "\<not> probe_says now rule st" for st unfolding probe_says_def by blast
      show ?thesis
      proof (cases "sample_at rule")
        case none: None
        then show ?thesis
          using assms(1) True run cur None says unfolding rule_waits_def rule_failed_def since_def waiting_since_cases
          by (auto simp: check_rule_def Let_def sample_at_bind split: if_splits)
      next
        case (Some ta)
        then obtain stat where "cr_stat rule = Some stat" "ps_recordedAt stat = Some ta" by (auto simp: sample_at_def split: option.splits)
        then show ?thesis
          using assms(1) True run cur None says old Some unfolding rule_waits_def rule_failed_def
          by (auto simp: check_rule_def Let_def sample_at_bind)
      qed
    next
      case (Some stat)
      then obtain ta where ta: "cr_stat rule = Some stat" "ps_recordedAt stat = Some ta" "ta \<le> now + 60000" "now \<le> ta + agent_health_ttl_ms"
        unfolding fresh_probe_iff by blast
      then have says: "probe_says now rule st \<longleftrightarrow> status_text (ps_healthStatus stat) = st" for st unfolding probe_says_def by auto
      have at: "sample_at rule = Some ta" using ta(1,2) by (simp add: sample_at_def)
      show ?thesis
        using assms(1) True run cur Some ta at unfolding rule_waits_def rule_failed_def says
        by (auto simp: check_rule_def Let_def split: if_splits option.splits)
    qed
  qed
  then show "rc_agentHealthPending c' \<longleftrightarrow> rc_agentHealthPending c \<or> rule_waits now liveness since rule"
    and "rc_agentFailureFinal c' \<longleftrightarrow> rc_agentFailureFinal c \<or> rule_failed now liveness since rule" by blast+
qed

lemma check_rule_goes_on:
  "check_rule now liveness member grp c rule = Inr c' \<Longrightarrow>
     rc_agentHealthPending c' = rc_agentHealthPending c \<and> rc_agentFailureFinal c' = rc_agentFailureFinal c"
  by (auto simp: check_rule_def Let_def split: if_splits option.splits)

lemma first_bad_Nil [simp]: "\<not> first_bad now liveness P []"
  by (simp add: first_bad_def)

lemma first_bad_Cons:
  "first_bad now liveness P (rule # rules) \<longleftrightarrow>
     (if rule_good now liveness rule then first_bad now liveness P rules else P rule)"
proof (cases "rule_good now liveness rule")
  case True
  have "(\<exists>xs r ys. rule # rules = xs @ r # ys \<and> (\<forall>x \<in> set xs. rule_good now liveness x) \<and> \<not> rule_good now liveness r \<and> P r) \<longleftrightarrow>
      (\<exists>xs r ys. rules = xs @ r # ys \<and> (\<forall>x \<in> set xs. rule_good now liveness x) \<and> \<not> rule_good now liveness r \<and> P r)" (is "?l \<longleftrightarrow> ?r")
  proof
    assume ?l
    then obtain xs r ys where x: "rule # rules = xs @ r # ys" "\<forall>x \<in> set xs. rule_good now liveness x" "\<not> rule_good now liveness r" "P r" by blast
    then show ?r using True by (cases xs) auto
  next
    assume ?r
    then obtain xs r ys where "rules = xs @ r # ys" "\<forall>x \<in> set xs. rule_good now liveness x" "\<not> rule_good now liveness r" "P r" by blast
    then have "rule # rules = (rule # xs) @ r # ys" "\<forall>x \<in> set (rule # xs). rule_good now liveness x" using True by simp_all
    then show ?l using \<open>\<not> rule_good now liveness r\<close> \<open>P r\<close> by blast
  qed
  then show ?thesis using True by (simp add: first_bad_def)
next
  case False
  have "first_bad now liveness P (rule # rules)" if "P rule"
    using that False unfolding first_bad_def by (intro exI [of _ "[]"] exI [of _ rule] exI [of _ rules]) simp
  moreover have "P rule" if "first_bad now liveness P (rule # rules)"
    using that False unfolding first_bad_def by (auto simp: Cons_eq_append_conv)
  ultimately show ?thesis using False by auto
qed

lemma check_rules_verdict:
  fixes now liveness member grp
  defines "since \<equiv> waiting_since now member grp"
  shows "rc_agentHealthPending (check_rules now liveness member grp rules c) \<longleftrightarrow>
      rc_agentHealthPending c \<or> first_bad now liveness (rule_waits now liveness since) rules"
    and "rc_agentFailureFinal (check_rules now liveness member grp rules c) \<longleftrightarrow>
      rc_agentFailureFinal c \<or> first_bad now liveness (rule_failed now liveness since) rules"
proof (induction rules arbitrary: c)
  case (Cons rule rules)
  { case 1
    show ?case
    proof (cases "check_rule now liveness member grp c rule")
      case (Inl c')
      then show ?thesis
        using check_rule_iff [of now liveness member grp c rule] check_rule_verdict(1) [OF Inl]
        by (auto simp: first_bad_Cons since_def)
    next
      case (Inr c')
      then show ?thesis
        using check_rule_iff [of now liveness member grp c rule] check_rule_goes_on [OF Inr] Cons.IH(1) [of c']
        by (auto simp: first_bad_Cons)
    qed }
  { case 2
    show ?case
    proof (cases "check_rule now liveness member grp c rule")
      case (Inl c')
      then show ?thesis
        using check_rule_iff [of now liveness member grp c rule] check_rule_verdict(2) [OF Inl]
        by (auto simp: first_bad_Cons since_def)
    next
      case (Inr c')
      then show ?thesis
        using check_rule_iff [of now liveness member grp c rule] check_rule_goes_on [OF Inr] Cons.IH(2) [of c']
        by (auto simp: first_bad_Cons)
    qed }
qed simp_all

lemma check_china_healthy: "cc_healthy (check_china parse now liveness member c) \<longleftrightarrow> china_good parse now liveness member"
  by (simp add: check_china_def china_good_def Let_def split: health_state.split)

lemma probe_member_healthy:
  "fi_healthy (probe_member parse now liveness active member grp) \<longleftrightarrow>
     (\<forall>rule \<in> set active. rule_good now liveness rule) \<and>
     (dbBool False (fg_chinaHealthCheckEnabled grp) \<longrightarrow> china_good parse now liveness member)"
  using check_rules_healthy [of now liveness member grp active start_check]
  by (auto simp: probe_member_def Let_def check_china_healthy start_check_def)

lemma examine_member_healthy:
  "fi_healthy (examine_member parse now liveness rules templates member grp) \<longleftrightarrow>
     \<not> al_trafficExcluded liveness \<and> dbBool False (fm_isEnabled member) \<and> al_available liveness \<and>
     active_child_rules templates rules \<noteq> [] \<and>
     (\<forall>rule \<in> set (active_child_rules templates rules). rule_good now liveness rule) \<and>
     (dbBool False (fg_chinaHealthCheckEnabled grp) \<longrightarrow> china_good parse now liveness member)"
proof -
  have "active_child_rules templates [] = []" by (simp add: active_child_rules_def Let_def)
  then show ?thesis
    by (auto simp: examine_member_def Let_def failing_def probe_member_healthy)
qed

text \<open>What keeps the verdict on a member open, and what settles its failure at once.\<close>

definition examined :: "agent_liveness \<Rightarrow> template_row list \<Rightarrow> child_rule list \<Rightarrow> failover_member \<Rightarrow> bool" where
  "examined liveness templates rules member \<longleftrightarrow>
     \<not> al_trafficExcluded liveness \<and> dbBool False (fm_isEnabled member) \<and> al_available liveness \<and>
     active_child_rules templates rules \<noteq> []"

lemma probe_member_verdict:
  fixes parse now liveness active member grp
  defines "f \<equiv> probe_member parse now liveness active member grp" and "since \<equiv> waiting_since now member grp"
  shows "fi_agentPending f \<longleftrightarrow> first_bad now liveness (rule_waits now liveness since) active"
    and "fi_chinaPending f \<longleftrightarrow> (\<forall>rule \<in> set active. rule_good now liveness rule) \<and>
      dbBool False (fg_chinaHealthCheckEnabled grp) \<and> china_waits parse now liveness member"
    and "fi_agentFailureFinal f \<longleftrightarrow> first_bad now liveness (rule_failed now liveness since) active"
  using check_rules_verdict [of now liveness member grp active start_check]
    check_rules_healthy [of now liveness member grp active start_check]
  by (auto simp: f_def since_def probe_member_def Let_def start_check_def check_china_def china_waits_def after_loss_iff
      split: health_state.split)

lemma examine_member_verdict:
  fixes parse now liveness rules templates member grp
  defines "f \<equiv> examine_member parse now liveness rules templates member grp"
    and "since \<equiv> waiting_since now member grp" and "active \<equiv> active_child_rules templates rules"
  shows "fi_agentPending f \<longleftrightarrow>
      examined liveness templates rules member \<and> first_bad now liveness (rule_waits now liveness since) active"
    and "fi_chinaPending f \<longleftrightarrow>
      examined liveness templates rules member \<and> (\<forall>rule \<in> set active. rule_good now liveness rule) \<and>
      dbBool False (fg_chinaHealthCheckEnabled grp) \<and> china_waits parse now liveness member"
    and "fi_agentFailureFinal f \<longleftrightarrow> al_trafficExcluded liveness \<or>
      examined liveness templates rules member \<and> first_bad now liveness (rule_failed now liveness since) active"
proof -
  have "active_child_rules templates [] = []" by (simp add: active_child_rules_def Let_def)
  note E = this probe_member_verdict [of parse now liveness "active_child_rules templates rules" member grp]
  show "fi_agentPending f \<longleftrightarrow>
      examined liveness templates rules member \<and> first_bad now liveness (rule_waits now liveness since) active"
    using E by (auto simp: f_def since_def active_def examine_member_def examined_def Let_def failing_def)
  show "fi_chinaPending f \<longleftrightarrow>
      examined liveness templates rules member \<and> (\<forall>rule \<in> set active. rule_good now liveness rule) \<and>
      dbBool False (fg_chinaHealthCheckEnabled grp) \<and> china_waits parse now liveness member"
    using E by (auto simp: f_def active_def examine_member_def examined_def Let_def failing_def)
  show "fi_agentFailureFinal f \<longleftrightarrow> al_trafficExcluded liveness \<or>
      examined liveness templates rules member \<and> first_bad now liveness (rule_failed now liveness since) active"
    using E by (auto simp: f_def since_def active_def examine_member_def examined_def Let_def failing_def)
qed

text \<open>A rule whose template is one of the enabled templates.\<close>

lemma active_child_rules_iff:
  "rule \<in> set (active_child_rules templates rules) \<longleftrightarrow>
     rule \<in> set rules \<and>
     (\<exists>t \<in> set templates. dbBool False (tr_isEnabled t) \<and> \<not> dbBool False (tr_pendingDelete t) \<and> 0 < tr_id t \<and>
        template_of rule = Some (of_int (tr_id t)))"
proof -
  define ids where "ids = List.map_filter (\<lambda>rule. case template_of rule of
      Some q \<Rightarrow> if js_is_integer q \<and> 0 < q then Some \<lfloor>q\<rfloor> else None | None \<Rightarrow> None) rules"
  have ids: "i \<in> set ids" if "r \<in> set rules" "template_of r = Some (of_int i)" "0 < i" for r i
    unfolding ids_def set_map_filter using that by (auto intro!: bexI [of _ r])
  have "rule \<in> set (active_child_rules templates rules) \<longleftrightarrow>
      rule \<in> set rules \<and>
      (\<exists>t \<in> set templates. tr_id t \<in> set ids \<and> dbBool False (tr_isEnabled t) \<and> \<not> dbBool False (tr_pendingDelete t) \<and> 0 < tr_id t \<and>
         template_of rule = Some (of_int (tr_id t)))"
    unfolding active_child_rules_def Let_def ids_def [symmetric] by (cases "template_of rule") auto
  then show ?thesis using ids by blast
qed


section \<open>Other writers of the windows\<close>

text \<open>
  The agent of a member may decide by itself, on the service in China or on the host; and the settings of a group may be reset.
  A decision that is not one (\<^const>\<open>None\<close>) leaves the windows.
\<close>

definition decision_windows :: "string option \<Rightarrow> rat \<Rightarrow> failover_group \<Rightarrow> failover_member \<Rightarrow> failover_member" where
  "decision_windows decision now grp m =
     (if decision = Some ''unhealthy''
      then m\<lparr>fm_failureSince := stored (now - forwardGroupFailoverDelayMs grp), fm_healthySince := None\<rparr>
      else if decision = Some ''healthy''
      then m\<lparr>fm_failureSince := None, fm_healthySince := stored (now - forwardGroupRecoverDelayMs grp)\<rparr>
      else m)"

definition updateForwardGroupMemberChinaHealth ::
    "string option \<Rightarrow> rat option \<Rightarrow> bool \<Rightarrow> rat \<Rightarrow> failover_group \<Rightarrow> failover_member \<Rightarrow> failover_member" where
  "updateForwardGroupMemberChinaHealth healthStatus latencyMs isTimeout now grp m =
     (let agentDecision = (case healthStatus of
             Some st \<Rightarrow> if st \<in> {''healthy'', ''unhealthy'', ''unknown''} then Some st else None | None \<Rightarrow> None);
          nextStatus = (case agentDecision of Some st \<Rightarrow> st | None \<Rightarrow> if isTimeout then ''unhealthy'' else ''healthy'')
      in (decision_windows agentDecision now grp m)
           \<lparr>fm_chinaHealthStatus := JStr nextStatus,
            fm_chinaHealthLatencyMs := (if nextStatus = ''healthy'' then latencyMs else None),
            fm_chinaHealthCheckedAt := stored now, fm_updatedAt := stored now\<rparr>)"

definition updateForwardGroupMemberAgentHealth :: "string \<Rightarrow> rat \<Rightarrow> failover_group \<Rightarrow> failover_member \<Rightarrow> failover_member" where
  "updateForwardGroupMemberAgentHealth healthStatus now grp m =
     (decision_windows (Some healthStatus) now grp m)
       \<lparr>fm_healthStatus := JStr healthStatus, fm_lastCheckedAt := stored now, fm_updatedAt := stored now\<rparr>"

definition resetForwardGroupChinaHealth :: "rat \<Rightarrow> failover_member \<Rightarrow> failover_member" where
  "resetForwardGroupChinaHealth now m =
     m\<lparr>fm_healthStatus := JStr ''unknown'', fm_chinaHealthStatus := JStr ''unknown'', fm_chinaHealthLatencyMs := None,
       fm_chinaHealthCheckedAt := None, fm_failureSince := None, fm_healthySince := None, fm_lastCheckedAt := None,
       fm_updatedAt := stored now\<rparr>"

section \<open>Windows over a history\<close>

text \<open>
  What was written to the row of a member, newest first: evaluations, verdicts and windows.  Between these writes the row may be
  edited in every other column.  All moments are later than the first second of 1970.
\<close>

datatype member_event = Evaluated rat finding | Verdict_Set string | Windows_Set "rat option" "rat option"

definition failed :: "finding \<Rightarrow> bool" where
  "failed f \<longleftrightarrow> \<not> fi_healthy f \<and> \<not> fi_agentPending f \<and> \<not> fi_chinaPending f"

definition moment :: "rat \<times> finding \<Rightarrow> rat" where
  "moment e = (case fi_observed (snd e) of Some t \<Rightarrow> t | None \<Rightarrow> fst e)"

definition decision_events :: "string option \<Rightarrow> rat \<Rightarrow> failover_group \<Rightarrow> member_event list" where
  "decision_events decision now grp =
     (if decision = Some ''unhealthy'' then [Windows_Set (Some (now - forwardGroupFailoverDelayMs grp)) None]
      else if decision = Some ''healthy'' then [Windows_Set None (Some (now - forwardGroupRecoverDelayMs grp))] else [])"

inductive member_history :: "(string \<Rightarrow> rat option) \<Rightarrow> member_event list \<Rightarrow> failover_member \<Rightarrow> bool" for parse where
  history_new: "fm_failureSince m = None \<Longrightarrow> fm_healthySince m = None \<Longrightarrow> member_history parse [] m"
| history_edit: "member_history parse h m \<Longrightarrow> fm_failureSince m' = fm_failureSince m \<Longrightarrow> fm_healthySince m' = fm_healthySince m \<Longrightarrow>
    fm_healthStatus m' = fm_healthStatus m \<Longrightarrow> member_history parse h m'"
| history_evaluated: "member_history parse h m \<Longrightarrow> f = examine_member parse now liveness rules templates m grp \<Longrightarrow>
    1000 \<le> now \<Longrightarrow> 1000 \<le> moment (now, f) \<Longrightarrow>
    evaluateMemberHealth parse now clock liveness rules templates m grp = (ev, patch) \<Longrightarrow>
    member_history parse (Evaluated now f # h) (apply_patch patch m)"
| history_china: "member_history parse h m \<Longrightarrow> 1000 \<le> now - forwardGroupFailoverDelayMs grp \<Longrightarrow> 1000 \<le> now - forwardGroupRecoverDelayMs grp \<Longrightarrow>
    member_history parse (decision_events healthStatus now grp @ h)
      (updateForwardGroupMemberChinaHealth healthStatus latencyMs isTimeout now grp m)"
| history_agent: "member_history parse h m \<Longrightarrow> 1000 \<le> now - forwardGroupFailoverDelayMs grp \<Longrightarrow> 1000 \<le> now - forwardGroupRecoverDelayMs grp \<Longrightarrow>
    healthStatus \<in> {''healthy'', ''unhealthy'', ''unknown''} \<Longrightarrow>
    member_history parse (Verdict_Set healthStatus # decision_events (Some healthStatus) now grp @ h)
      (updateForwardGroupMemberAgentHealth healthStatus now grp m)"
| history_reset: "member_history parse h m \<Longrightarrow>
    member_history parse (Verdict_Set ''unknown'' # Windows_Set None None # h) (resetForwardGroupChinaHealth now m)"

text \<open>The latest verdict on record.\<close>

fun last_verdict :: "member_event list \<Rightarrow> string option" where
  "last_verdict [] = None"
| "last_verdict (Windows_Set _ _ # h) = last_verdict h"
| "last_verdict (Verdict_Set st # h) = Some st"
| "last_verdict (Evaluated now f # h) =
     Some (if fi_healthy f then ''healthy'' else if fi_agentPending f \<or> fi_chinaPending f then ''unknown'' else ''unhealthy'')"

text \<open>The evaluations of a kind that lasts until now, and the windows that were set just before them, if any.\<close>

fun streak :: "(finding \<Rightarrow> bool) \<Rightarrow> member_event list \<Rightarrow> (rat \<times> finding) list" where
  "streak P [] = []"
| "streak P (Verdict_Set _ # h) = streak P h"
| "streak P (Windows_Set _ _ # h) = []"
| "streak P (Evaluated now f # h) = (if P f then (now, f) # streak P h else [])"

fun set_before :: "(finding \<Rightarrow> bool) \<Rightarrow> member_event list \<Rightarrow> (rat option \<times> rat option) option" where
  "set_before P [] = None"
| "set_before P (Verdict_Set _ # h) = set_before P h"
| "set_before P (Windows_Set a b # h) = Some (a, b)"
| "set_before P (Evaluated now f # h) = (if P f then set_before P h else None)"

definition failure_base :: "member_event list \<Rightarrow> rat option" where
  "failure_base h = (case set_before failed h of Some (a, _) \<Rightarrow> a | None \<Rightarrow> None)"

definition healthy_base :: "member_event list \<Rightarrow> rat option" where
  "healthy_base h = (case set_before fi_healthy h of Some (_, b) \<Rightarrow> b | None \<Rightarrow> None)"

text \<open>The earliest moment of a streak of failures: where the window was set to before it or else its first evaluation, or
  an earlier moment some evaluation of it could tell.\<close>

definition failing_since :: "member_event list \<Rightarrow> rat option" where
  "failing_since h =
     (case streak failed h of
        [] \<Rightarrow> failure_base h
      | e # es \<Rightarrow> Some (Min (insert (case failure_base h of Some t \<Rightarrow> t | None \<Rightarrow> moment (last (e # es)))
                    {t. \<exists>x \<in> set (e # es). fi_observed (snd x) = Some t})))"

definition healthy_since :: "member_event list \<Rightarrow> rat option" where
  "healthy_since h =
     (case (healthy_base h, streak fi_healthy h) of
        (Some t, _) \<Rightarrow> Some t | (None, []) \<Rightarrow> None | (None, e # es) \<Rightarrow> Some (fst (last (e # es))))"

lemma finite_observed: "finite {t. \<exists>x \<in> set xs. fi_observed (snd x) = Some t}"
proof -
  have "{t. \<exists>x \<in> set xs. fi_observed (snd x) = Some t} \<subseteq> (\<lambda>x. the (fi_observed (snd x))) ` set xs" by force
  then show ?thesis by (rule finite_subset) simp
qed

lemma observed_Cons:
  "{t. \<exists>x \<in> set (e # es). fi_observed (snd x) = Some t} =
     (case fi_observed (snd e) of None \<Rightarrow> {} | Some t \<Rightarrow> {t}) \<union> {t. \<exists>x \<in> set es. fi_observed (snd x) = Some t}"
  by (auto split: option.splits)

lemma failed_pending: "failed f \<longleftrightarrow> \<not> fi_healthy f \<and> \<not> finding_pending f"
  by (auto simp: failed_def finding_pending_def)

lemma base_skip [simp]:
  "failure_base (Verdict_Set st # h) = failure_base h" "healthy_base (Verdict_Set st # h) = healthy_base h"
  by (simp_all add: failure_base_def healthy_base_def)

lemma since_skip [simp]:
  "failing_since (Verdict_Set st # h) = failing_since h" "healthy_since (Verdict_Set st # h) = healthy_since h"
  unfolding failing_since_def healthy_since_def base_skip streak.simps by (rule refl)+

lemma since_set [simp]: "failing_since (Windows_Set a b # h) = a" "healthy_since (Windows_Set a b # h) = b"
  by (simp_all add: failing_since_def healthy_since_def failure_base_def healthy_base_def split: option.split)

text \<open>One more failure of a streak.\<close>

lemma failing_since_Cons:
  assumes f: "failed f"
  shows "failing_since (Evaluated now f # h) =
     Some (case failing_since h of
       None \<Rightarrow> moment (now, f)
     | Some s \<Rightarrow> (case fi_observed f of None \<Rightarrow> s | Some t \<Rightarrow> min t s))"
proof (cases "streak failed h")
  case Nil
  have b: "failure_base (Evaluated now f # h) = failure_base h" using f by (simp add: failure_base_def)
  show ?thesis
    unfolding failing_since_def b using f Nil
    by (cases "failure_base h"; cases "fi_observed f") (simp_all add: moment_def min.commute)
next
  case (Cons e es)
  let ?O = "{t. \<exists>x \<in> set (e # es). fi_observed (snd x) = Some t}"
  let ?b = "case failure_base h of Some t \<Rightarrow> t | None \<Rightarrow> moment (last (e # es))"
  let ?A = "insert ?b ?O"
  have b: "failure_base (Evaluated now f # h) = failure_base h" using f by (simp add: failure_base_def)
  have fin: "finite ?A" using finite_observed [of "e # es"] by simp
  have h: "failing_since h = Some (Min ?A)" unfolding failing_since_def Cons by simp
  have "failing_since (Evaluated now f # h) = Some (Min (insert ?b ((case fi_observed f of None \<Rightarrow> {} | Some t \<Rightarrow> {t}) \<union> ?O)))"
    unfolding failing_since_def b streak.simps Cons if_P [OF f]
    by (simp only: snd_conv list.case observed_Cons last.simps list.distinct if_False)
  also have "\<dots> = Some (case fi_observed f of None \<Rightarrow> Min ?A | Some t \<Rightarrow> min t (Min ?A))"
  proof (cases "fi_observed f")
    case (Some t)
    have "insert ?b ({t} \<union> ?O) = insert t ?A" by auto
    then show ?thesis using Some Min_insert [OF fin, of t] by simp
  qed simp
  finally show ?thesis unfolding h option.case .
qed

lemma failing_since_not: "\<not> failed f \<Longrightarrow> failing_since (Evaluated now f # h) = None"
  by (simp add: failing_since_def failure_base_def)

lemma healthy_since_Cons:
  "healthy_since (Evaluated now f # h) = (if fi_healthy f then Some (case healthy_since h of None \<Rightarrow> now | Some t \<Rightarrow> t) else None)"
  by (auto simp: healthy_since_def healthy_base_def split: list.split option.split prod.split)

lemma stored_mono_min: "1000 \<le> a \<Longrightarrow> 1000 \<le> b \<Longrightarrow> stored (min a b) = map_option (min (of_int \<lfloor>a / 1000\<rfloor> * 1000)) (stored b)"
proof -
  assume ab: "1000 \<le> a" "1000 \<le> b"
  have p: "1 \<le> \<lfloor>x / 1000\<rfloor>" if "1000 \<le> x" for x :: rat using that by (simp add: le_floor_iff)
  have "\<lfloor>min a b / 1000\<rfloor> = min \<lfloor>a / 1000\<rfloor> \<lfloor>b / 1000\<rfloor>"
    by (cases "a \<le> b") (auto simp: min_def floor_mono divide_right_mono intro: antisym)
  then show ?thesis using p [OF ab(1)] p [OF ab(2)] by (auto simp: stored_def Let_def min_def)
qed

lemma stored_Some: "1000 \<le> a \<Longrightarrow> stored a = Some (of_int \<lfloor>a / 1000\<rfloor> * 1000)"
proof -
  assume "1000 \<le> a"
  then have "1 \<le> \<lfloor>a / 1000\<rfloor>" by (simp add: le_floor_iff)
  then show ?thesis by (simp add: stored_def Let_def)
qed

lemma stored_stored: "1000 \<le> a \<Longrightarrow> stored (of_int \<lfloor>a / 1000\<rfloor> * 1000) = stored a"
  by (simp add: stored_def)

lemma stored_le: "rat_of_int \<lfloor>a / 1000\<rfloor> * 1000 \<le> a"
  using of_int_floor_le [of "a / 1000"] by simp


lemma evaluate_fields:
  assumes "evaluateMemberHealth parse now clock liveness rules templates m grp = (ev, patch)"
    and f: "f = examine_member parse now liveness rules templates m grp"
  shows "ev_healthy ev = fi_healthy f" "ev_healthPending ev = finding_pending f"
    "ev_failureSince ev = next_failureSince f now (fm_failureSince m)" "ev_healthySince ev = next_healthySince f now (fm_healthySince m)"
    "ev_failedLongEnough ev \<longleftrightarrow> fi_agentFailureFinal f \<or> passed_delay clock (ev_failureSince ev) (forwardGroupFailoverDelayMs grp)"
    "ev_recoveredLongEnough ev \<longleftrightarrow> fi_healthy f \<and> fi_allFinal f \<or> passed_delay clock (ev_healthySince ev) (forwardGroupRecoverDelayMs grp)"
    "ev_member ev = m"
  using assms unfolding evaluateMemberHealth_def Let_def by auto

text \<open>A skipped write leaves the row as the write would.\<close>

lemma evaluate_row:
  assumes e: "evaluateMemberHealth parse now clock liveness rules templates m grp = (ev, patch)"
    and f: "f = examine_member parse now liveness rules templates m grp"
    and steady: "Option.bind (fm_failureSince m) stored = fm_failureSince m" "Option.bind (fm_healthySince m) stored = fm_healthySince m"
  shows "fm_failureSince (apply_patch patch m) = Option.bind (next_failureSince f now (fm_failureSince m)) stored"
    "fm_healthySince (apply_patch patch m) = Option.bind (next_healthySince f now (fm_healthySince m)) stored"
    "js_string (js_or (fm_healthStatus (apply_patch patch m)) (JStr ''unknown'')) = finding_status f"
proof -
  have st: "js_string (js_or (JStr (finding_status f)) (JStr ''unknown'')) = finding_status f"
    by (simp add: js_or_def finding_status_def)
  consider (kept) "patch = None" "js_string (js_or (fm_healthStatus m) (JStr ''unknown'')) = finding_status f"
      "fm_failureSince m = next_failureSince f now (fm_failureSince m)" "fm_healthySince m = next_healthySince f now (fm_healthySince m)"
    | (written) p where "patch = Some p" "mp_healthStatus p = finding_status f"
      "mp_failureSince p = next_failureSince f now (fm_failureSince m)" "mp_healthySince p = next_healthySince f now (fm_healthySince m)"
    using e unfolding evaluateMemberHealth_def Let_def f by (auto split: if_splits)
  note cs = this
  show "fm_failureSince (apply_patch patch m) = Option.bind (next_failureSince f now (fm_failureSince m)) stored"
    by (rule cs) (use steady in \<open>simp_all add: apply_patch_def\<close>)
  show "fm_healthySince (apply_patch patch m) = Option.bind (next_healthySince f now (fm_healthySince m)) stored"
    by (rule cs) (use steady in \<open>simp_all add: apply_patch_def\<close>)
  show "js_string (js_or (fm_healthStatus (apply_patch patch m)) (JStr ''unknown'')) = finding_status f"
    by (rule cs) (simp_all add: apply_patch_def st)
qed

definition late :: "rat option \<Rightarrow> bool" where
  "late t = (case t of None \<Rightarrow> True | Some x \<Rightarrow> 1000 \<le> x)"

lemma late_bind_stored: "late t \<Longrightarrow> Option.bind (Option.bind t stored) stored = Option.bind t stored"
  by (cases t) (simp_all add: late_def stored_Some stored_stored)

lemma decision_follows:
  fixes decision :: "string option"
  assumes "late (failing_since h)" "late (healthy_since h)"
    "fm_failureSince m = Option.bind (failing_since h) stored" "fm_healthySince m = Option.bind (healthy_since h) stored"
    "1000 \<le> now - forwardGroupFailoverDelayMs grp" "1000 \<le> now - forwardGroupRecoverDelayMs grp"
  defines "h' \<equiv> decision_events decision now grp @ h" and "m' \<equiv> decision_windows decision now grp m"
  shows "late (failing_since h') \<and> late (healthy_since h') \<and>
    fm_failureSince m' = Option.bind (failing_since h') stored \<and> fm_healthySince m' = Option.bind (healthy_since h') stored \<and>
    last_verdict h' = last_verdict h \<and> fm_healthStatus m' = fm_healthStatus m"
  using assms(1-6) unfolding h'_def m'_def by (auto simp: decision_events_def decision_windows_def late_def)

lemma member_history_row:
  "member_history parse h m \<Longrightarrow>
     late (failing_since h) \<and> late (healthy_since h) \<and>
     fm_failureSince m = Option.bind (failing_since h) stored \<and> fm_healthySince m = Option.bind (healthy_since h) stored \<and>
     (\<forall>st. last_verdict h = Some st \<longrightarrow> js_string (js_or (fm_healthStatus m) (JStr ''unknown'')) = st)"
proof (induction rule: member_history.induct)
  case (history_new m)
  then show ?case by (simp add: failing_since_def healthy_since_def failure_base_def healthy_base_def late_def)
next
  case (history_edit h m m')
  then show ?case by simp
next
  case (history_evaluated h m f now liveness rules templates grp clock ev patch)
  then have IH: "late (failing_since h)" "late (healthy_since h)" "fm_failureSince m = Option.bind (failing_since h) stored"
    "fm_healthySince m = Option.bind (healthy_since h) stored" by blast+
  note row = evaluate_row [OF history_evaluated.hyps(5,2)]
  have steady: "Option.bind (fm_failureSince m) stored = fm_failureSince m" "Option.bind (fm_healthySince m) stored = fm_healthySince m"
    using late_bind_stored [OF IH(1)] late_bind_stored [OF IH(2)] IH(3,4) by simp_all
  have ob: "1000 \<le> t" if "fi_observed f = Some t" for t using history_evaluated.hyps(4) that by (simp add: moment_def)
  have F: "late (failing_since (Evaluated now f # h)) \<and>
      Option.bind (next_failureSince f now (fm_failureSince m)) stored = Option.bind (failing_since (Evaluated now f # h)) stored"
  proof (cases "failed f")
    case False
    then show ?thesis using failing_since_not [OF False, of now h] by (auto simp: next_failureSince_def failed_pending late_def)
  next
    case True
    then have nf: "next_failureSince f now (fm_failureSince m) =
        (let since = (case fm_failureSince m of Some t \<Rightarrow> t | None \<Rightarrow> (case fi_observed f of Some t \<Rightarrow> t | None \<Rightarrow> now)) in
          Some (case fi_observed f of Some t \<Rightarrow> if t < since then t else since | None \<Rightarrow> since))"
      by (auto simp: next_failureSince_def failed_pending)
    show ?thesis
    proof (cases "failing_since h")
      case None
      then have "fm_failureSince m = None" using IH(3) by simp
      then show ?thesis
        using failing_since_Cons [OF True, of now h] None history_evaluated.hyps(4) unfolding nf
        by (auto simp: late_def moment_def split: option.splits)
    next
      case (Some s)
      let ?s = "rat_of_int \<lfloor>s / 1000\<rfloor> * 1000"
      have s: "1000 \<le> s" using IH(1) Some by (simp add: late_def)
      have m: "fm_failureSince m = Some ?s" using IH(3) Some stored_Some [OF s] by simp
      show ?thesis
      proof (cases "fi_observed f")
        case None
        then show ?thesis using failing_since_Cons [OF True, of now h] Some s m stored_stored [OF s] unfolding nf
          by (simp add: late_def Let_def)
      next
        case (Some t)
        have t: "1000 \<le> t" by (rule ob [OF Some])
        have s1: "1000 \<le> ?s" using s by (simp add: le_floor_iff)
        have "stored (min t ?s) = stored (min t s)"
          using stored_mono_min [OF t s1] stored_mono_min [OF t s] stored_stored [OF s] by simp
        moreover have "next_failureSince f now (fm_failureSince m) = Some (min t ?s)"
          using True m Some by (auto simp: next_failureSince_def failed_pending Let_def min_def)
        moreover have "failing_since (Evaluated now f # h) = Some (min t s)"
          using failing_since_Cons [OF True, of now h] \<open>failing_since h = Some s\<close> Some by simp
        ultimately show ?thesis using s t by (simp add: late_def)
      qed
    qed
  qed
  have H: "late (healthy_since (Evaluated now f # h)) \<and>
      Option.bind (next_healthySince f now (fm_healthySince m)) stored = Option.bind (healthy_since (Evaluated now f # h)) stored"
  proof (cases "healthy_since h")
    case None
    then show ?thesis using IH(4) history_evaluated.hyps(3) by (simp add: healthy_since_Cons next_healthySince_def late_def)
  next
    case (Some s)
    then have s: "1000 \<le> s" using IH(2) by (simp add: late_def)
    show ?thesis using Some IH(4) s stored_Some [OF s] stored_stored [OF s]
      by (simp add: healthy_since_Cons next_healthySince_def late_def)
  qed
  have "finding_status f = (if fi_healthy f then ''healthy'' else if fi_agentPending f \<or> fi_chinaPending f then ''unknown'' else ''unhealthy'')"
    by (simp add: finding_status_def finding_pending_def)
  then show ?case using F H row [OF steady] by simp
next
  case (history_china h m now grp healthStatus latencyMs isTimeout)
  have "decision_windows (case healthStatus of
      Some st \<Rightarrow> if st \<in> {''healthy'', ''unhealthy'', ''unknown''} then Some st else None | None \<Rightarrow> None) now grp m =
      decision_windows healthStatus now grp m"
    by (cases healthStatus) (auto simp: decision_windows_def)
  then have "\<exists>c l. updateForwardGroupMemberChinaHealth healthStatus latencyMs isTimeout now grp m = (decision_windows healthStatus now grp m)
      \<lparr>fm_chinaHealthStatus := c, fm_chinaHealthLatencyMs := l, fm_chinaHealthCheckedAt := stored now, fm_updatedAt := stored now\<rparr>"
    unfolding updateForwardGroupMemberChinaHealth_def Let_def by metis
  then show ?case using decision_follows [of h m now grp healthStatus] history_china by force
next
  case (history_agent h m now grp healthStatus)
  then show ?case
    using decision_follows [of h m now grp "Some healthStatus"]
    by (auto simp: updateForwardGroupMemberAgentHealth_def js_or_def)
next
  case (history_reset h m now)
  then show ?case by (simp add: resetForwardGroupChinaHealth_def late_def js_or_def)
qed

section \<open>Properties\<close>

text \<open>
  C7. The verdict on a member.  It is healthy exactly when its hosts have traffic left, it is enabled, its agent is alive, some rule
  with an enabled template uses it, and every such rule is enabled, running and has a probe that is recent,
  later than the last time the agent was found offline and good; and, where the group asks for it, when the service is
  reported healthy in China.  It is pending exactly when it could be healthy and the first rule that is not good leaves the verdict
  open, or all rules are good and the report from China is still to come.  In every other case it has failed.  The row is
  written with this verdict and the windows that go with it, or says all of it already.  The member has failed long enough exactly
  when the failure is settled, as its traffic is used up or the first bad rule settles it, or its failure window is as
  long as the group waits.
\<close>

theorem member_health_exact:
  assumes "evaluateMemberHealth parse now clock liveness rules templates member grp = (ev, patch)"
  defines "active \<equiv> active_child_rules templates rules" and "since \<equiv> waiting_since now member grp"
    and "china \<equiv> dbBool False (fg_chinaHealthCheckEnabled grp)"
  shows "(ev_healthy ev \<longleftrightarrow> examined liveness templates rules member \<and>
      (\<forall>rule \<in> set active. rule_good now liveness rule) \<and> (china \<longrightarrow> china_good parse now liveness member)) \<and>
    (ev_healthPending ev \<longleftrightarrow> examined liveness templates rules member \<and>
      (first_bad now liveness (rule_waits now liveness since) active \<or>
       (\<forall>rule \<in> set active. rule_good now liveness rule) \<and> china \<and> china_waits parse now liveness member)) \<and>
    \<not> (ev_healthy ev \<and> ev_healthPending ev) \<and>
    (ev_failureSince ev = None \<longleftrightarrow> ev_healthy ev \<or> ev_healthPending ev) \<and> (ev_healthySince ev \<noteq> None \<longleftrightarrow> ev_healthy ev) \<and>
    (let status = (if ev_healthy ev then ''healthy'' else if ev_healthPending ev then ''unknown'' else ''unhealthy'') in
     case patch of
       Some p \<Rightarrow> mp_healthStatus p = status \<and> mp_failureSince p = ev_failureSince ev \<and> mp_healthySince p = ev_healthySince ev
     | None \<Rightarrow> js_string (js_or (fm_healthStatus member) (JStr ''unknown'')) = status \<and>
         fm_failureSince member = ev_failureSince ev \<and> fm_healthySince member = ev_healthySince ev) \<and>
    (ev_failedLongEnough ev \<longleftrightarrow> al_trafficExcluded liveness \<or>
      examined liveness templates rules member \<and> first_bad now liveness (rule_failed now liveness since) active \<or>
      (\<exists>t. ev_failureSince ev = Some t \<and> forwardGroupFailoverDelayMs grp \<le> clock - t))"
proof -
  define f where "f = examine_member parse now liveness rules templates member grp"
  note E = evaluate_fields [OF assms(1) f_def]
  note V = examine_member_verdict [of parse now liveness rules templates member grp, folded f_def active_def since_def china_def]
  have healthy: "fi_healthy f \<longleftrightarrow> examined liveness templates rules member \<and>
      (\<forall>rule \<in> set active. rule_good now liveness rule) \<and> (china \<longrightarrow> china_good parse now liveness member)"
    unfolding f_def active_def china_def examine_member_healthy examined_def by blast
  have "\<not> china_waits parse now liveness member" if "china_good parse now liveness member"
    using that by (simp add: china_waits_def china_good_def after_loss_iff)
  moreover have "\<not> first_bad now liveness P active" if "\<forall>rule \<in> set active. rule_good now liveness rule" for P
    using that by (auto simp: first_bad_def)
  ultimately have not_both: "\<not> (fi_healthy f \<and> finding_pending f)"
    unfolding healthy finding_pending_def V(1,2) by blast
  have patch: "case patch of
       Some p \<Rightarrow> mp_healthStatus p = finding_status f \<and> mp_failureSince p = ev_failureSince ev \<and> mp_healthySince p = ev_healthySince ev
     | None \<Rightarrow> js_string (js_or (fm_healthStatus member) (JStr ''unknown'')) = finding_status f \<and>
         fm_failureSince member = ev_failureSince ev \<and> fm_healthySince member = ev_healthySince ev"
    using assms(1) unfolding evaluateMemberHealth_def Let_def f_def by (auto split: if_splits)
  have windows: "ev_failureSince ev = None \<longleftrightarrow> fi_healthy f \<or> finding_pending f" "ev_healthySince ev \<noteq> None \<longleftrightarrow> fi_healthy f"
    unfolding E(3,4) by (simp_all add: next_failureSince_def next_healthySince_def Let_def)
  have long: "passed_delay clock t d \<longleftrightarrow> (\<exists>x. t = Some x \<and> d \<le> clock - x)" for t d by (simp add: passed_delay_def split: option.split)
  show ?thesis
    using not_both patch windows unfolding E(1,2,5) healthy finding_pending_def V long finding_status_def Let_def by simp blast
qed



section \<open>Composition with the liveness tracker\<close>

text \<open>The member of a host that reports its presence is unavailable exactly when the host is unknown, out of traffic
  or confirmed offline by the tracker.\<close>

lemma presence_decides:
  assumes "liveness_state_of hostId tr = Some snap"
  shows "al_available (resolveMemberAgentLiveness hid (Some host) tunnel (liveness_state_of hostId tr) seen now) \<longleftrightarrow>
    \<not> member_traffic_excluded (Some host) tunnel \<and> \<not> lv_confirmedOffline snap"
  by (simp add: resolveMemberAgentLiveness_def Let_def assms)

text \<open>The failure window of an unavailable member never begins in the future.\<close>

lemma liveness_failure_not_future:
  "al_failureSince (resolveMemberAgentLiveness hid host tunnel fast seen now) = Some t \<Longrightarrow> t \<le> now"
  by (auto simp: resolveMemberAgentLiveness_def Let_def split: if_splits)

section \<open>Witnesses\<close>

definition demo_member :: "int \<Rightarrow> rat \<Rightarrow> failover_member" where
  "demo_member i p = \<lparr>fm_id = i, fm_priority = p, fm_isEnabled = JBool True, fm_healthStatus = JStr ''unknown'', fm_lastLatencyMs = None,
     fm_failureSince = None, fm_healthySince = None, fm_lastCheckedAt = None, fm_updatedAt = None, fm_createdAt = None,
     fm_chinaHealthStatus = JStr ''unknown'', fm_chinaHealthCheckedAt = None, fm_chinaHealthLatencyMs = None\<rparr>"

definition demo_group :: failover_group where
  "demo_group = \<lparr>fg_id = 9, fg_failoverSeconds = JNum 60, fg_recoverSeconds = JNum 120, fg_chinaHealthCheckEnabled = JBool False,
     fg_autoFailback = JBool True, fg_activeMemberId = Some 1, fg_domain = ''edge.test'', fg_recordType = Rec_A,
     fg_lastDdnsValue = ''1.1.1.1'', fg_lastStatus = ''healthy'', fg_lastMessage = Msg_Current ''1.1.1.1'', fg_ddnsAutoResolveOff = False,
     fg_switchNotify = False, fg_lastDdnsAt = None, fg_lastFailoverAt = None, fg_updatedAt = None, fg_createdAt = None\<rparr>"

definition demo_rule :: "rat \<Rightarrow> string \<Rightarrow> child_rule" where
  "demo_rule t status = \<lparr>cr_forwardGroupRuleId = JNum 4, cr_isEnabled = JBool True, cr_pendingDelete = JBool False, cr_isRunning = JBool True,
     cr_stat = Some \<lparr>ps_recordedAt = Some t, ps_healthStatus = JStr status, ps_isTimeout = JBool False, ps_latencyMs = Some 20\<rparr>\<rparr>"

definition demo_template :: template_row where
  "demo_template = \<lparr>tr_id = 4, tr_isEnabled = JBool True, tr_pendingDelete = JBool False\<rparr>"

definition demo_liveness :: "bool \<Rightarrow> agent_liveness" where
  "demo_liveness b = \<lparr>al_available = b, al_trafficExcluded = False, al_failureSince = (if b then None else Some 1900000),
     al_lastOfflineAt = None,
     al_signature = \<lparr>sg_hostId = 1, sg_available = b, sg_trafficExcluded = False, sg_confirmedOffline = \<not> b, sg_transitionEpoch = 0,
       sg_lastOfflineAt = 0\<rparr>\<rparr>"

definition demo_evaluation :: "rat \<Rightarrow> bool \<Rightarrow> failover_member \<Rightarrow> evaluation \<times> member_patch option" where
  "demo_evaluation now alive m =
     evaluateMemberHealth (\<lambda>_. None) now now (demo_liveness alive) [demo_rule 2000000 ''healthy''] [demo_template] m demo_group"

theorem member_health_exact_witness:
  "ev_healthy (fst (demo_evaluation 2000500 True (demo_member 1 1))) \<and>
   ev_failureSince (fst (demo_evaluation 2000500 True (demo_member 1 1))) = None"
proof -
  have h: "ev_healthy (fst (demo_evaluation 2000500 True (demo_member 1 1)))" by code_simp
  then show ?thesis
    using member_health_exact [OF prod.collapse [symmetric], of "\<lambda>_. None" 2000500 2000500 "demo_liveness True" "[demo_rule 2000000 ''healthy'']"
        "[demo_template]" "demo_member 1 1" demo_group]
    unfolding demo_evaluation_def by blast
qed

definition demo_failed :: failover_member where
  "demo_failed = apply_patch (snd (demo_evaluation 2000500 False (demo_member 1 1))) (demo_member 1 1)"


end
