(* ===== verification/Group_Ddns.thy ===== *)
theory Group_Ddns
imports Failover_Health
begin

text \<open>
  The addresses a forwarding group publishes (\<open>shared/forwardGroupDdns.ts\<close>, and the address functions of
  \<open>shared/hostAddresses.ts\<close> it uses).  \<open>ipv6\<close> stands for the run time's URL parser: the canonical text of an IPv6
  literal, or nothing where it refuses the text.
\<close>

section \<open>Addresses\<close>

datatype family = IPv4 | IPv6

definition ipv4_parts :: "string \<Rightarrow> nat list option" where
  "ipv4_parts ip =
     (let parts = js_split (CHR ''.'') ip in
      if length parts = 4 \<and> list_all (\<lambda>p. p \<noteq> [] \<and> length p \<le> 3 \<and> list_all js_digit p) parts
      then Some (map digits_value parts) else None)"

definition normalizeHostIp :: "(string \<Rightarrow> string option) \<Rightarrow> jsval \<Rightarrow> family \<Rightarrow> string" where
  "normalizeHostIp ipv6 v f =
     (case v of
        JStr s \<Rightarrow>
          (let ip = js_trim s in
           case f of
             IPv4 \<Rightarrow>
               (case ipv4_parts ip of
                  Some parts \<Rightarrow> if list_all (\<lambda>n. n \<le> 255) parts then js_join (CHR ''.'') (map nat_to_str parts) else []
                | None \<Rightarrow> [])
           | IPv6 \<Rightarrow>
               if CHR '':'' \<notin> set ip \<or> (\<exists>c \<in> set ip. c \<in> set ''%[]/?#@'' \<or> js_space c) then []
               else (case ipv6 ip of Some h \<Rightarrow> h | None \<Rightarrow> []))
      | _ \<Rightarrow> [])"

section \<open>Values and record sets\<close>

definition js_upper_char :: "char \<Rightarrow> char" where
  "js_upper_char c = (let n = (of_char c :: nat) in if 97 \<le> n \<and> n \<le> 122 then char_of (n - 32) else c)"

definition normalizeForwardGroupRecordType :: "jsval \<Rightarrow> record_type" where
  "normalizeForwardGroupRecordType v =
     (let t = map js_upper_char (js_trim (js_string (js_or v (JStr ''A'')))) in
      if t = ''AAAA'' then Rec_AAAA else if t = ''BOTH'' then Rec_BOTH else if t = ''CNAME'' then Rec_CNAME else Rec_A)"

definition splitForwardGroupDdnsValues :: "string \<Rightarrow> string list" where
  "splitForwardGroupDdnsValues v = js_uniq (filter (\<lambda>s. s \<noteq> []) (map js_trim (js_split (CHR '','') v)))"

record address_host =
  ah_entryIp :: jsval
  ah_ipv4 :: jsval
  ah_ipv6 :: jsval
  ah_ip :: jsval
  ah_ddnsEnabled :: jsval
  ah_ddnsDomain :: jsval

text \<open>\<open>String(value || "").trim().replace(/^\[([^\]]+)\]$/, "$1")\<close>\<close>

definition unbracket :: "jsval \<Rightarrow> string" where
  "unbracket v =
     (let s = js_trim (js_string (js_or v (JStr []))) in
      if 3 \<le> length s \<and> hd s = CHR ''['' \<and> last s = CHR '']'' \<and> CHR '']'' \<notin> set (butlast (tl s)) then butlast (tl s) else s)"

definition families_of :: "record_type \<Rightarrow> family list" where
  "families_of t = (case t of Rec_BOTH \<Rightarrow> [IPv4, IPv6] | Rec_AAAA \<Rightarrow> [IPv6] | _ \<Rightarrow> [IPv4])"

definition or_text :: "string \<Rightarrow> string \<Rightarrow> string" where
  "or_text a b = (if a \<noteq> [] then a else b)"

definition forwardGroupDdnsHostValue :: "(string \<Rightarrow> string option) \<Rightarrow> address_host option \<Rightarrow> record_type \<Rightarrow> string" where
  "forwardGroupDdnsHostValue ipv6 host t =
     (let field = (\<lambda>f. case host of Some h \<Rightarrow> f h | None \<Rightarrow> JUndef);
          manual = unbracket (field ah_entryIp)
      in if t = Rec_CNAME
         then (if manual \<noteq> [] \<and> normalizeHostIp ipv6 (JStr manual) IPv4 = [] \<and> normalizeHostIp ipv6 (JStr manual) IPv6 = [] then manual
               else if js_truthy (field ah_ddnsEnabled) then js_trim (js_string (js_or (field ah_ddnsDomain) (JStr []))) else [])
         else js_join (CHR '','') (filter (\<lambda>s. s \<noteq> []) (map (\<lambda>f.
                or_text (normalizeHostIp ipv6 (JStr manual) f)
                  (or_text (normalizeHostIp ipv6 (JStr (unbracket (field (case f of IPv4 \<Rightarrow> ah_ipv4 | IPv6 \<Rightarrow> ah_ipv6)))) f)
                    (normalizeHostIp ipv6 (JStr (unbracket (field ah_ip))) f))) (families_of t))))"

text \<open>The record sets of a group: the type of the records and their values.\<close>

definition forwardGroupDdnsRecordSets ::
  "(string \<Rightarrow> string option) \<Rightarrow> record_type \<Rightarrow> string list \<Rightarrow> (record_type \<times> string list) list" where
  "forwardGroupDdnsRecordSets ipv6 t vals =
     (let unique = splitForwardGroupDdnsValues (js_join (CHR '','') vals) in
      if t = Rec_CNAME then [(Rec_CNAME, unique)]
      else map (\<lambda>f. (case f of IPv4 \<Rightarrow> Rec_A | IPv6 \<Rightarrow> Rec_AAAA,
             js_uniq (filter (\<lambda>s. s \<noteq> []) (map (\<lambda>v. normalizeHostIp ipv6 (JStr v) f) unique)))) (families_of t))"

text \<open>The provider is asked for every record set; those it accepted and those it refused.\<close>

definition updateForwardGroupDdnsRecordValues ::
  "(string \<Rightarrow> string option) \<Rightarrow> (record_type \<Rightarrow> string list \<Rightarrow> bool) \<Rightarrow> jsval \<Rightarrow> string list \<Rightarrow>
     (record_type \<times> string list) list \<times> record_type list" where
  "updateForwardGroupDdnsRecordValues ipv6 accepts recordType vals =
     (let sets = forwardGroupDdnsRecordSets ipv6 (normalizeForwardGroupRecordType recordType) vals in
      (filter (\<lambda>(t, vs). accepts t vs) sets, map fst (filter (\<lambda>(t, vs). \<not> accepts t vs) sets)))"

section \<open>Lemmas\<close>

lemma split_distinct: "distinct (splitForwardGroupDdnsValues v)"
  by (simp add: splitForwardGroupDdnsValues_def)

lemma split_Nil [simp]: "splitForwardGroupDdnsValues [] = []"
  by (simp add: splitForwardGroupDdnsValues_def js_trim_def)

lemma digits_short: "n \<le> 255 \<Longrightarrow> length (nat_to_str n) \<le> 3"
proof -
  assume "n \<le> 255"
  then have "n < 10 \<or> (10 \<le> n \<and> n div 10 < 10) \<or> (100 \<le> n \<and> n div 100 < 10)" by linarith
  then show ?thesis by (auto simp: nat_to_str.simps [of n] nat_to_str.simps [of "n div 10"] nat_to_str.simps [of "n div 100"] div_mult2_eq [symmetric])
qed

end
