(* ===== verification/Failover_Run.thy ===== *)
theory Failover_Run
imports Group_Ddns
begin

text \<open>
  The failover of a forwarding group (\<open>runForwardGroupFailoverForGroups\<close> and what it calls in
  \<open>server/repositories/forwardGroupRepository.ts\<close>): which member the name of the group shall point to, the update at
  the name provider, and the row of the group that records it.

  A run holds the lock of its group, so the row it read is the row it writes.  The world is that row, the values the
  provider serves for the name, the module's record of what was last reconciled, and a log of what was set off.
  What the awaited calls answer is an argument: the evaluations of the members (theory \<open>Failover_Health\<close>), their
  addresses, whether the selection still stands when it is checked again, and whether the provider accepts an update.
  \<open>now\<close> is the time of the writes.
\<close>

section \<open>World\<close>

type_synonym ddns_signature = "string \<times> record_type \<times> string"

datatype failover_event = Logged "int option" string | Notified | Rescheduled | Recheck "rat option"

record failover_world =
  fw_group :: failover_group
  fw_dns :: "string list"
  fw_reconciled :: "(int, ddns_signature) jmap"
  fw_log :: "failover_event list"

record ddns_settings =
  ds_enabled :: bool
  ds_provider :: string

record failover_options =
  fo_forcePriority :: bool
  fo_forceSync :: bool
  fo_manual :: bool
  fo_suppressSwitchNotify :: bool

text \<open>The provider took the values, or refused and serves these values now.\<close>

datatype dns_answer = Dns_Done | Dns_Refused "string list"

datatype run_result = Run_Done | Run_Retry | Run_Throw

definition log_event :: "failover_event \<Rightarrow> failover_world \<Rightarrow> failover_world" where
  "log_event e w = w\<lparr>fw_log := fw_log w @ [e]\<rparr>"

text \<open>\<open>updateForwardGroupRuntimeIfChanged\<close>: a patch that changes nothing writes nothing.\<close>

definition updateForwardGroupRuntimeIfChanged ::
  "rat \<Rightarrow> (failover_group \<Rightarrow> failover_group) \<Rightarrow> failover_world \<Rightarrow> bool \<times> failover_world" where
  "updateForwardGroupRuntimeIfChanged now patch w =
     (if patch (fw_group w) = fw_group w then (False, w)
      else (True, w\<lparr>fw_group := (patch (fw_group w))\<lparr>fg_updatedAt := stored now\<rparr>\<rparr>))"

definition update_and_log ::
  "rat \<Rightarrow> (failover_group \<Rightarrow> failover_group) \<Rightarrow> failover_event \<Rightarrow> failover_world \<Rightarrow> failover_world" where
  "update_and_log now patch e w =
     (let (changed, w') = updateForwardGroupRuntimeIfChanged now patch w in if changed then log_event e w' else w')"

definition exactDdnsSignature :: "failover_group \<Rightarrow> string \<Rightarrow> ddns_signature" where
  "exactDdnsSignature g v = (js_lower (js_trim (fg_domain g)), fg_recordType g, v)"

definition exactDdnsReconciliationDue :: "failover_world \<Rightarrow> string \<Rightarrow> bool" where
  "exactDdnsReconciliationDue w v \<longleftrightarrow> jm_get (fw_reconciled w) (fg_id (fw_group w)) \<noteq> Some (exactDdnsSignature (fw_group w) v)"

definition rememberExactDdnsReconciliation :: "string \<Rightarrow> failover_world \<Rightarrow> failover_world" where
  "rememberExactDdnsReconciliation v w =
     w\<lparr>fw_reconciled := jm_set (fg_id (fw_group w)) (exactDdnsSignature (fw_group w) v) (fw_reconciled w)\<rparr>"

definition ddns_off :: "ddns_settings \<Rightarrow> bool" where
  "ddns_off settings \<longleftrightarrow> \<not> ds_enabled settings \<or> ds_provider settings = ''disabled''"

section \<open>Committing a member\<close>

record sync_options =
  so_forceSync :: bool
  so_eventType :: string
  so_suppressSwitchNotify :: bool

text \<open>\<open>still1\<close> and \<open>still2\<close> are what \<open>beforeCommit\<close> answers before and after the update.\<close>

definition syncSingleForwardGroupDdns ::
  "ddns_settings \<Rightarrow> sync_options \<Rightarrow> bool \<Rightarrow> bool \<Rightarrow> dns_answer \<Rightarrow> string \<Rightarrow> rat \<Rightarrow> int \<Rightarrow> string \<Rightarrow> failover_world
     \<Rightarrow> run_result \<times> failover_world" where
  "syncSingleForwardGroupDdns settings options still1 still2 dns errorText now memberId v w =
     (let previousMemberId = fg_activeMemberId (fw_group w) in
      if \<not> still1 then (Run_Retry, w)
      else if ddns_off settings
      then (Run_Done, update_and_log now
              (\<lambda>g. g\<lparr>fg_activeMemberId := Some memberId, fg_lastDdnsValue := v, fg_lastStatus := ''healthy'',
                fg_lastMessage := Msg_Suggested v\<rparr>)
              (Logged (Some memberId) ''ddns-skip'') w)
      else if \<not> so_forceSync options \<and> previousMemberId = Some memberId \<and> fg_lastDdnsValue (fw_group w) = v \<and>
              \<not> exactDdnsReconciliationDue w v
      then (Run_Done, update_and_log now (\<lambda>g. g\<lparr>fg_lastStatus := ''healthy'', fg_lastMessage := Msg_Current v\<rparr>)
              (Logged (Some memberId) ''ddns-current'') w)
      else
        (let w1 = log_event (Logged (Some memberId) ''ddns-update'') w in
         case dns of
           Dns_Refused vs \<Rightarrow>
             (Run_Throw, log_event (Logged (Some memberId) ''ddns-error'')
                (w1\<lparr>fw_dns := vs, fw_group := (fw_group w1)\<lparr>fg_lastStatus := ''error'', fg_lastMessage := Msg_Error errorText,
                   fg_updatedAt := stored now\<rparr>\<rparr>))
         | Dns_Done \<Rightarrow>
             (let w2 = w1\<lparr>fw_dns := [v]\<rparr> in
              if \<not> still2 then (Run_Retry, w2)
              else
                (let w3 = rememberExactDdnsReconciliation v w2;
                     w4 = log_event (Logged (Some memberId) (so_eventType options))
                       (w3\<lparr>fw_group := (fw_group w3)\<lparr>fg_activeMemberId := Some memberId, fg_lastDdnsValue := v,
                          fg_lastDdnsAt := stored now, fg_lastFailoverAt := stored now, fg_lastStatus := ''healthy'',
                          fg_lastMessage := Msg_Switched v, fg_updatedAt := stored now\<rparr>\<rparr>)
                 in (Run_Done,
                     if fg_switchNotify (fw_group w) \<and> \<not> so_suppressSwitchNotify options \<and>
                        (case previousMemberId of Some p \<Rightarrow> 0 < p \<and> p \<noteq> memberId | None \<Rightarrow> False)
                     then log_event Notified w4 else w4)))))"

section \<open>Nobody to point to\<close>

text \<open>The addresses of the enabled members in the order of their priorities, and which of them are out of traffic.\<close>

definition forwardGroupDdnsFallbackValue ::
  "(string \<Rightarrow> string option) \<Rightarrow> failover_group \<Rightarrow> (string \<times> bool) list \<Rightarrow> string" where
  "forwardGroupDdnsFallbackValue ipv6 g members =
     (let previous = js_join (CHR '','') (concat (map (\<lambda>(_, vs). take 1 vs)
            (forwardGroupDdnsRecordSets ipv6 (fg_recordType g) (splitForwardGroupDdnsValues (fg_lastDdnsValue g)))))
      in if previous \<noteq> [] then previous
         else (case filter (\<lambda>v. v \<noteq> []) (map fst members) of [] \<Rightarrow> [] | v # _ \<Rightarrow> v))"

definition retained_values :: "string \<Rightarrow> (string \<times> bool) list \<Rightarrow> string list" where
  "retained_values lastValue members =
     (let allowed = concat (map (\<lambda>(v, blocked). if blocked then [] else splitForwardGroupDdnsValues v) members)
      in filter (\<lambda>v. v \<noteq> [] \<and> v \<in> set allowed) (map js_trim (js_split (CHR '','') lastValue)))"

definition preserveForwardGroupDdns ::
  "(string \<Rightarrow> string option) \<Rightarrow> ddns_settings \<Rightarrow> failover_options \<Rightarrow> bool \<Rightarrow> (string \<times> bool) list \<Rightarrow> dns_answer \<Rightarrow> string \<Rightarrow> rat \<Rightarrow>
     hold_reason \<Rightarrow> failover_world \<Rightarrow> run_result \<times> failover_world" where
  "preserveForwardGroupDdns ipv6 settings options quotaExcluded members dns errorText now reason w =
     (let g = fw_group w in
      if quotaExcluded \<and> (\<exists>m \<in> set members. snd m)
      then
        (let retained = retained_values (fg_lastDdnsValue g) members;
             update = (\<not> ddns_off settings \<and> \<not> fg_ddnsAutoResolveOff g);
             write = (\<lambda>w. snd (updateForwardGroupRuntimeIfChanged now
               (\<lambda>g. g\<lparr>fg_activeMemberId := None, fg_lastDdnsValue := js_join (CHR '','') retained, fg_lastStatus := ''down'',
                  fg_lastMessage := if retained \<noteq> [] then Msg_Quota_Kept reason else Msg_Quota_None\<rparr>) w))
         in if \<not> update then (Run_Done, write w)
            else (case dns of
                    Dns_Refused vs \<Rightarrow> (Run_Throw, w\<lparr>fw_dns := vs\<rparr>)
                  | Dns_Done \<Rightarrow> (Run_Done, write (w\<lparr>fw_dns := retained\<rparr>))))
      else
        (let retainedValue = forwardGroupDdnsFallbackValue ipv6 g members;
             shouldReconcile = (fo_forceSync options \<or> retainedValue \<noteq> [] \<and> exactDdnsReconciliationDue w retainedValue);
             down = (\<lambda>patch msg. snd (updateForwardGroupRuntimeIfChanged now
               (\<lambda>g. (patch g)\<lparr>fg_lastStatus := ''down'', fg_lastMessage := msg\<rparr>) w))
         in if ddns_off settings
            then (Run_Done, down (\<lambda>g. g\<lparr>fg_lastDdnsValue := if retainedValue \<noteq> [] then retainedValue else fg_lastDdnsValue g\<rparr>)
                    (if retainedValue \<noteq> [] then Msg_Held_Disabled reason retainedValue else Msg_Nothing_To_Hold reason))
            else if retainedValue = [] then (Run_Done, down (\<lambda>g. g) (Msg_Nothing_To_Hold reason))
            else if \<not> shouldReconcile
            then (Run_Done, down (\<lambda>g. g\<lparr>fg_lastDdnsValue := retainedValue\<rparr>) (Msg_Holding reason retainedValue))
            else
              (case dns of
                 Dns_Done \<Rightarrow>
                   (let w1 = rememberExactDdnsReconciliation retainedValue (w\<lparr>fw_dns := [retainedValue]\<rparr>) in
                    (Run_Done, log_event (Logged (fg_activeMemberId g) ''ddns-hold'')
                       (w1\<lparr>fw_group := g\<lparr>fg_lastDdnsValue := retainedValue, fg_lastDdnsAt := stored now, fg_lastFailoverAt := stored now,
                          fg_lastStatus := ''down'', fg_lastMessage := Msg_Held reason retainedValue, fg_updatedAt := stored now\<rparr>\<rparr>)))
               | Dns_Refused vs \<Rightarrow>
                   (Run_Throw, log_event (Logged None ''ddns-error'')
                      (w\<lparr>fw_dns := vs, fw_group := g\<lparr>fg_activeMemberId := None, fg_lastStatus := ''error'',
                         fg_lastMessage := Msg_Hold_Failed reason errorText, fg_updatedAt := stored now\<rparr>\<rparr>)))))"

section \<open>Choosing a member\<close>

datatype switch_reason = No_Switch | Failed_Back | Failed_Over "member_message option"

datatype selection = Sel_Wait | Sel_None | Sel_Member evaluation switch_reason

definition ev_id :: "evaluation \<Rightarrow> int" where
  "ev_id e = fm_id (ev_member e)"

definition ev_priority :: "evaluation \<Rightarrow> rat" where
  "ev_priority e = fm_priority (ev_member e)"

text \<open>The active member among the evaluated ones, and the healthy ones by priority and then by identifier.\<close>

definition active_of :: "failover_group \<Rightarrow> evaluation list \<Rightarrow> evaluation option" where
  "active_of g evaluated = (case fg_activeMemberId g of None \<Rightarrow> None | Some i \<Rightarrow> find (\<lambda>e. ev_id e = i) evaluated)"

definition healthy_members :: "evaluation list \<Rightarrow> evaluation list" where
  "healthy_members evaluated = sort_key ev_priority (sort_key ev_id (filter ev_healthy evaluated))"

definition first_of :: "'a list \<Rightarrow> 'a option" where
  "first_of xs = (case xs of [] \<Rightarrow> None | x # _ \<Rightarrow> Some x)"

definition select_member :: "failover_options \<Rightarrow> failover_group \<Rightarrow> evaluation list \<Rightarrow> selection" where
  "select_member options g evaluated =
     (let active = active_of g evaluated;
          healthyMembers = healthy_members evaluated;
          firstHealthy = first_of healthyMembers;
          anyPending = (\<exists>e \<in> set evaluated. ev_healthPending e)
      in if (case active of Some a \<Rightarrow> ev_healthPending a | None \<Rightarrow> False) \<and> js_trim (fg_lastDdnsValue g) \<noteq> [] \<or>
            active = None \<and> firstHealthy = None \<and> anyPending
         then Sel_Wait
         else
           (let failbackCandidate = find ev_recoveredLongEnough healthyMembers;
                shouldFailback = (dbBool False (fg_autoFailback g) \<and>
                  (case (active, failbackCandidate) of (Some a, Some c) \<Rightarrow> ev_priority c < ev_priority a | _ \<Rightarrow> False));
                shouldFailover = (case active of None \<Rightarrow> True | Some a \<Rightarrow> \<not> ev_healthy a \<and> ev_failedLongEnough a);
                chosen = (if fo_forcePriority options then (firstHealthy, No_Switch)
                  else if shouldFailback then (failbackCandidate, Failed_Back)
                  else if shouldFailover then (firstHealthy, Failed_Over (map_option ev_message active))
                  else (active, No_Switch))
            in (case fst chosen of None \<Rightarrow> Sel_None | Some e \<Rightarrow> Sel_Member e (snd chosen))))"


section \<open>Runs\<close>

definition switchNotifySuppressed :: "failover_options \<Rightarrow> bool" where
  "switchNotifySuppressed options \<longleftrightarrow>
     fo_manual options \<or> fo_forcePriority options \<or> fo_forceSync options \<or> fo_suppressSwitchNotify options"

definition window_of :: "evaluation \<Rightarrow> window_member" where
  "window_of e = \<lparr>wm_healthy = ev_healthy e, wm_failureSince = date_value (ev_failureSince e),
     wm_healthySince = date_value (ev_healthySince e), wm_failedLongEnough = ev_failedLongEnough e,
     wm_recoveredLongEnough = ev_recoveredLongEnough e\<rparr>"

definition earlier :: "rat option \<Rightarrow> rat option \<Rightarrow> rat option" where
  "earlier a b = (case (a, b) of (Some x, Some y) \<Rightarrow> Some (min x y) | (Some x, None) \<Rightarrow> Some x | (None, y) \<Rightarrow> y)"

text \<open>When the group is looked at again.\<close>

definition recheck_with_rules :: "(string \<Rightarrow> rat option) \<Rightarrow> rat \<Rightarrow> failover_group \<Rightarrow> evaluation list \<Rightarrow> rat option" where
  "recheck_with_rules parse clock g evaluated =
     earlier
       (earlier
         (nextForwardGroupHealthRecheckAt parse (map window_of evaluated) (forwardGroupFailoverDelayMs g) (forwardGroupRecoverDelayMs g) None clock)
         (nextForwardGroupChinaHealthExpiryAt parse (dbBool False (fg_chinaHealthCheckEnabled g))
            (map (\<lambda>e. health_row (ev_member e)) evaluated) None clock))
       (least_of (filter (\<lambda>t. clock < t) (map (\<lambda>e. time_or_0 (ev_nextProbeExpiryAt e)) evaluated)))"

text \<open>
  A run over a group in use: \<open>still\<close> are the answers of the three checks of the selection (with no member, before and
  after the update), \<open>valueOf\<close> the addresses of the members, and \<open>holders\<close> the enabled members as
  \<open>preserveForwardGroupDdns\<close> sees them.
\<close>

definition run_with_rules ::
  "(string \<Rightarrow> string option) \<Rightarrow> (string \<Rightarrow> rat option) \<Rightarrow> ddns_settings \<Rightarrow> failover_options \<Rightarrow> evaluation list \<Rightarrow> (int \<Rightarrow> string) \<Rightarrow>
     bool \<times> bool \<times> bool \<Rightarrow> dns_answer \<Rightarrow> string \<Rightarrow> bool \<Rightarrow> (string \<times> bool) list \<Rightarrow> rat \<Rightarrow> failover_world \<Rightarrow> run_result \<times> failover_world" where
  "run_with_rules ipv6 parse settings options evaluated valueOf still dns errorText quotaExcluded holders now w0 =
     (let (still0, still1, still2) = still;
          g = fw_group w0;
          w = log_event (Recheck (recheck_with_rules parse now g evaluated)) w0
      in if fg_domain g = []
         then (let anyHealthy = (\<exists>e \<in> set evaluated. ev_healthy e); anyPending = (\<exists>e \<in> set evaluated. ev_healthPending e) in
               (Run_Done, snd (updateForwardGroupRuntimeIfChanged now
                  (\<lambda>g. g\<lparr>fg_lastStatus := if anyHealthy then ''healthy'' else if anyPending then ''unknown'' else ''down'',
                     fg_lastMessage := Msg_No_Domain anyPending\<rparr>) w)))
         else
           (case select_member options g evaluated of
              Sel_Wait \<Rightarrow>
                (Run_Done, snd (updateForwardGroupRuntimeIfChanged now
                   (\<lambda>g. g\<lparr>fg_lastStatus := ''unknown'', fg_lastMessage := Msg_Waiting_Health\<rparr>) w))
            | Sel_None \<Rightarrow>
                if \<not> still0 then (Run_Done, log_event Rescheduled w)
                else preserveForwardGroupDdns ipv6 settings options quotaExcluded holders dns errorText now No_Healthy_Member w
            | Sel_Member e _ \<Rightarrow>
                (let v = valueOf (ev_id e) in
                 if v = [] then (Run_Done, log_event (Logged (Some (ev_id e)) ''ddns-error'') w)
                 else
                   (let (r, w') = syncSingleForwardGroupDdns settings
                          \<lparr>so_forceSync = fo_forceSync options, so_eventType = ''failover'',
                            so_suppressSwitchNotify = switchNotifySuppressed options \<or> fg_activeMemberId g = Some (ev_id e)\<rparr>
                          still1 still2 dns errorText now (ev_id e) v w
                    in if r = Run_Retry then (Run_Done, log_event Rescheduled w') else (r, w')))))"

section \<open>A group without rules\<close>

record resolved_member =
  rm_member :: failover_member
  rm_value :: string
  rm_liveness :: agent_liveness

record first_member =
  fm1_member :: "resolved_member option"
  fm1_pendingChinaHealth :: bool
  fm1_agentFailurePending :: bool
  fm1_recheckAt :: "rat option"

fun firstAvailableResolvableMember ::
  "(string \<Rightarrow> rat option) \<Rightarrow> rat \<Rightarrow> failover_group \<Rightarrow> bool \<Rightarrow> resolved_member list \<Rightarrow> first_member" where
  "firstAvailableResolvableMember parse now g pendingChina [] =
     \<lparr>fm1_member = None, fm1_pendingChinaHealth = pendingChina, fm1_agentFailurePending = False, fm1_recheckAt = None\<rparr>"
| "firstAvailableResolvableMember parse now g pendingChina (m # ms) =
     (let liveness = rm_liveness m; member = rm_member m;
          failoverAt = (case al_failureSince liveness of Some t \<Rightarrow> if t = 0 then now else t | None \<Rightarrow> now) + forwardGroupFailoverDelayMs g
      in if \<not> dbBool True (fm_isEnabled member) \<or> rm_value m = [] \<or> al_trafficExcluded liveness
         then firstAvailableResolvableMember parse now g pendingChina ms
         else if \<not> al_available liveness
         then (if fg_activeMemberId g = Some (fm_id member) \<and> now < failoverAt
               then \<lparr>fm1_member = Some m, fm1_pendingChinaHealth = pendingChina, fm1_agentFailurePending = True,
                      fm1_recheckAt = Some failoverAt\<rparr>
               else firstAvailableResolvableMember parse now g pendingChina ms)
         else
           (let state = (if agentHealthSampleIsCurrent liveness (fm_chinaHealthCheckedAt member)
                         then forwardGroupChinaHealthStateAt parse (health_row member) (JNum now) else Pending)
            in if dbBool False (fg_chinaHealthCheckEnabled g) \<and> state = Pending
               then firstAvailableResolvableMember parse now g True ms
               else if dbBool False (fg_chinaHealthCheckEnabled g) \<and> state \<noteq> Healthy
               then firstAvailableResolvableMember parse now g pendingChina ms
               else \<lparr>fm1_member = Some m, fm1_pendingChinaHealth = pendingChina, fm1_agentFailurePending = False,
                      fm1_recheckAt = None\<rparr>))"

definition run_without_rules ::
  "(string \<Rightarrow> string option) \<Rightarrow> (string \<Rightarrow> rat option) \<Rightarrow> ddns_settings \<Rightarrow> failover_options \<Rightarrow> resolved_member list \<Rightarrow>
     bool \<times> bool \<Rightarrow> dns_answer \<Rightarrow> string \<Rightarrow> bool \<Rightarrow> (string \<times> bool) list \<Rightarrow> rat \<Rightarrow> failover_world \<Rightarrow> run_result \<times> failover_world" where
  "run_without_rules ipv6 parse settings options members still dns errorText quotaExcluded holders now w0 =
     (let g = fw_group w0;
          first = firstAvailableResolvableMember parse now g False members;
          expiry = nextForwardGroupChinaHealthExpiryAt parse (dbBool False (fg_chinaHealthCheckEnabled g))
            (map (\<lambda>m. health_row (rm_member m)) members) None now;
          w = log_event (Recheck (least_of (filter (\<lambda>t. now < t)
                (List.map_filter id [expiry, fm1_recheckAt first])))) w0;
          update = (\<lambda>patch. (Run_Done, snd (updateForwardGroupRuntimeIfChanged now patch w)))
      in if fg_domain g \<noteq> []
         then (case fm1_member first of
                 Some m \<Rightarrow>
                   if fm1_agentFailurePending first
                   then update (\<lambda>g. g\<lparr>fg_lastStatus := ''unknown'', fg_lastMessage := Msg_Waiting_Agent\<rparr>)
                   else (let (r, w') = syncSingleForwardGroupDdns settings
                            \<lparr>so_forceSync = fo_forceSync options,
                              so_eventType = if fo_forcePriority options then ''failover'' else ''ddns-update'',
                              so_suppressSwitchNotify = True\<rparr>
                            (fst still) (snd still) dns errorText now (fm_id (rm_member m)) (rm_value m) w
                         in if r = Run_Retry then (Run_Done, log_event Rescheduled w') else (r, w'))
               | None \<Rightarrow>
                   if fm1_pendingChinaHealth first
                   then update (\<lambda>g. g\<lparr>fg_lastStatus := ''unknown'', fg_lastMessage := Msg_Waiting_Health\<rparr>)
                   else preserveForwardGroupDdns ipv6 settings options quotaExcluded holders dns errorText now (No_Online_Member (fg_recordType g)) w)
         else update (\<lambda>g. g\<lparr>
                fg_activeMemberId := map_option (fm_id \<circ> rm_member) (fm1_member first),
                fg_lastDdnsValue := (case fm1_member first of Some m \<Rightarrow> rm_value m | None \<Rightarrow> []),
                fg_lastStatus := (if fm1_agentFailurePending first then ''unknown'' else if fm1_member first \<noteq> None then ''healthy'' else ''unknown''),
                fg_lastMessage := Msg_No_Rules\<rparr>))"


section \<open>The order of the members\<close>

text \<open>The order of the selection: by priority, then by identifier.\<close>

definition preferred :: "evaluation \<Rightarrow> evaluation \<Rightarrow> bool" where
  "preferred e e' \<longleftrightarrow> ev_priority e < ev_priority e' \<or> ev_priority e = ev_priority e' \<and> ev_id e \<le> ev_id e'"

definition best :: "(evaluation \<Rightarrow> bool) \<Rightarrow> evaluation list \<Rightarrow> evaluation \<Rightarrow> bool" where
  "best P evaluated e \<longleftrightarrow> e \<in> set evaluated \<and> P e \<and> (\<forall>e' \<in> set evaluated. P e' \<longrightarrow> preferred e e')"

lemma preferred_refl [simp]: "preferred e e"
  by (simp add: preferred_def)

lemma lexicographic_sorted:
  assumes "sorted (map f ys)" "\<And>k. sorted (map h (filter (\<lambda>y. f y = k) ys))"
  shows "sorted_wrt (\<lambda>x y. f x < f y \<or> f x = f y \<and> h x \<le> h y) ys"
  using assms
proof (induction ys)
  case (Cons y ys)
  have "sorted (map h (filter (\<lambda>y. f y = k) ys))" for k
    using Cons.prems(2) [of k] by (cases "f y = k") simp_all
  then have "sorted_wrt (\<lambda>x y. f x < f y \<or> f x = f y \<and> h x \<le> h y) ys" using Cons by simp
  moreover have "f y < f z \<or> f y = f z \<and> h y \<le> h z" if "z \<in> set ys" for z
  proof (cases "f y = f z")
    case True
    then show ?thesis using Cons.prems(2) [of "f y"] that by simp
  next
    case False
    then show ?thesis using Cons.prems(1) that by (simp add: order_less_le)
  qed
  ultimately show ?case by simp
qed simp

lemma healthy_members_sorted: "sorted_wrt preferred (healthy_members evaluated)"
proof -
  let ?xs = "sort_key ev_id (filter ev_healthy evaluated)"
  have "sorted (map ev_id (filter (\<lambda>e. ev_priority e = k) (sort_key ev_priority ?xs)))" for k
    unfolding sort_key_stable by (rule sorted_filter) simp
  then have "sorted_wrt (\<lambda>x y. ev_priority x < ev_priority y \<or> ev_priority x = ev_priority y \<and> ev_id x \<le> ev_id y) (sort_key ev_priority ?xs)"
    by (intro lexicographic_sorted) simp_all
  moreover have "preferred = (\<lambda>x y. ev_priority x < ev_priority y \<or> ev_priority x = ev_priority y \<and> ev_id x \<le> ev_id y)"
    by (intro ext) (simp add: preferred_def)
  ultimately show ?thesis by (simp only: healthy_members_def)
qed

lemma set_healthy_members [simp]: "set (healthy_members evaluated) = {e \<in> set evaluated. ev_healthy e}"
  by (simp add: healthy_members_def)

lemma find_sorted:
  assumes "sorted_wrt preferred xs" "find P xs = Some e"
  shows "e \<in> set xs" "P e" "e' \<in> set xs \<Longrightarrow> P e' \<Longrightarrow> preferred e e'"
proof -
  obtain i where i: "i < length xs" "P (xs ! i)" "e = xs ! i" "\<And>j. j < i \<Longrightarrow> \<not> P (xs ! j)"
    using assms(2) unfolding find_Some_iff by blast
  show "e \<in> set xs" "P e" using i by simp_all
  assume "e' \<in> set xs" "P e'"
  then obtain j where j: "j < length xs" "xs ! j = e'" unfolding in_set_conv_nth by blast
  have "i \<le> j" using i(4) [of j] j \<open>P e'\<close> by (metis not_le)
  then show "preferred e e'"
    using sorted_wrt_nth_less [OF assms(1), of i j] i(3) j by (cases "i = j") simp_all
qed

lemma first_of_find: "first_of xs = find (\<lambda>_. True) xs"
  by (cases xs) (simp_all add: first_of_def)

lemma find_healthy:
  "find P (healthy_members evaluated) = Some e \<Longrightarrow> best (\<lambda>e. ev_healthy e \<and> P e) evaluated e"
  using find_sorted [OF healthy_members_sorted, of P evaluated e] by (auto simp: best_def)

lemma find_healthy_None:
  "find P (healthy_members evaluated) = None \<longleftrightarrow> \<not> (\<exists>e \<in> set evaluated. ev_healthy e \<and> P e)"
  by (auto simp: find_None_iff)

lemma first_healthy: "first_of (healthy_members evaluated) = Some e \<Longrightarrow> best ev_healthy evaluated e"
  using find_healthy [of "\<lambda>_. True" evaluated e] by (simp add: first_of_find)

lemma first_healthy_None: "first_of (healthy_members evaluated) = None \<longleftrightarrow> \<not> (\<exists>e \<in> set evaluated. ev_healthy e)"
  using find_healthy_None [of "\<lambda>_. True" evaluated] by (simp add: first_of_find)

section \<open>When the selection moves\<close>

definition awaits_health :: "failover_group \<Rightarrow> evaluation list \<Rightarrow> bool" where
  "awaits_health g evaluated \<longleftrightarrow>
     (\<exists>a. active_of g evaluated = Some a \<and> ev_healthPending a \<and> js_trim (fg_lastDdnsValue g) \<noteq> []) \<or>
     active_of g evaluated = None \<and> \<not> (\<exists>e \<in> set evaluated. ev_healthy e) \<and> (\<exists>e \<in> set evaluated. ev_healthPending e)"

text \<open>A healthy member that may take back from the active one, and an active member that is lost.\<close>

definition may_fail_back :: "failover_group \<Rightarrow> evaluation list \<Rightarrow> evaluation \<Rightarrow> bool" where
  "may_fail_back g evaluated c \<longleftrightarrow>
     dbBool False (fg_autoFailback g) \<and> c \<in> set evaluated \<and> ev_healthy c \<and> ev_recoveredLongEnough c \<and>
     (\<exists>a. active_of g evaluated = Some a \<and> ev_priority c < ev_priority a)"

definition active_lost :: "failover_group \<Rightarrow> evaluation list \<Rightarrow> bool" where
  "active_lost g evaluated \<longleftrightarrow>
     (case active_of g evaluated of None \<Rightarrow> True | Some a \<Rightarrow> \<not> ev_healthy a \<and> ev_failedLongEnough a)"

lemma wait_iff: "select_member options g evaluated = Sel_Wait \<longleftrightarrow> awaits_health g evaluated"
proof -
  have "(case active_of g evaluated of Some a \<Rightarrow> ev_healthPending a | None \<Rightarrow> False) \<and> js_trim (fg_lastDdnsValue g) \<noteq> [] \<or>
      active_of g evaluated = None \<and> first_of (healthy_members evaluated) = None \<and> (\<exists>e \<in> set evaluated. ev_healthPending e) \<longleftrightarrow>
      awaits_health g evaluated"
    unfolding awaits_health_def first_healthy_None by (auto split: option.splits)
  then show ?thesis unfolding select_member_def Let_def by (auto split: option.split)
qed

lemma fail_back_iff:
  "(\<exists>c. may_fail_back g evaluated c) \<longleftrightarrow>
     dbBool False (fg_autoFailback g) \<and>
     (case (active_of g evaluated, find ev_recoveredLongEnough (healthy_members evaluated)) of
        (Some a, Some c) \<Rightarrow> ev_priority c < ev_priority a | _ \<Rightarrow> False)"
proof (cases "find ev_recoveredLongEnough (healthy_members evaluated)")
  case None
  then show ?thesis using find_healthy_None [of ev_recoveredLongEnough evaluated] by (auto simp: may_fail_back_def split: option.split)
next
  case (Some c)
  note b = find_healthy [OF Some, unfolded best_def]
  have "ev_priority c \<le> ev_priority c'" if "c' \<in> set evaluated" "ev_healthy c'" "ev_recoveredLongEnough c'" for c'
    using b that by (force simp: preferred_def)
  then show ?thesis using Some b by (auto simp: may_fail_back_def split: option.split) (meson le_less_trans)
qed

lemma chosen_cases:
  assumes "\<not> awaits_health g evaluated"
  shows "select_member options g evaluated =
    (let chosen = (if fo_forcePriority options then (first_of (healthy_members evaluated), No_Switch)
         else if \<exists>c. may_fail_back g evaluated c then (find ev_recoveredLongEnough (healthy_members evaluated), Failed_Back)
         else if active_lost g evaluated
         then (first_of (healthy_members evaluated), Failed_Over (map_option ev_message (active_of g evaluated)))
         else (active_of g evaluated, No_Switch))
     in (case fst chosen of None \<Rightarrow> Sel_None | Some e \<Rightarrow> Sel_Member e (snd chosen)))"
proof -
  have w: "\<not> ((case active_of g evaluated of Some a \<Rightarrow> ev_healthPending a | None \<Rightarrow> False) \<and> js_trim (fg_lastDdnsValue g) \<noteq> [] \<or>
      active_of g evaluated = None \<and> first_of (healthy_members evaluated) = None \<and> (\<exists>e \<in> set evaluated. ev_healthPending e))"
    using assms unfolding awaits_health_def first_healthy_None by (auto split: option.splits)
  show ?thesis
    unfolding select_member_def Let_def if_not_P [OF w] fail_back_iff active_lost_def by (rule refl)
qed


section \<open>Properties\<close>

text \<open>
  C3. The member a group shall point to.  While the verdict on the active member is pending and an address is published,
  or nothing is known of any member, the group waits and nothing else makes it wait.  Otherwise it moves back to the
  best healthy member of those that recovered long enough and come before the active one, if the group asks for it and
  there is one; otherwise it keeps the active member, whatever its verdict, unless that member is missing or has
  failed long enough, and then it moves to the best healthy member, or to none when no member is healthy.  A run that
  forces the priority always takes the best healthy member.
\<close>

theorem failover_selection_exact:
  shows "(select_member options g evaluated = Sel_Wait \<longleftrightarrow> awaits_health g evaluated) \<and>
    (\<not> awaits_health g evaluated \<longrightarrow>
      (fo_forcePriority options \<longrightarrow>
        (if \<exists>e \<in> set evaluated. ev_healthy e
         then \<exists>e. best ev_healthy evaluated e \<and> select_member options g evaluated = Sel_Member e No_Switch
         else select_member options g evaluated = Sel_None)) \<and>
      (\<not> fo_forcePriority options \<longrightarrow>
        (if \<exists>c. may_fail_back g evaluated c
         then \<exists>c. may_fail_back g evaluated c \<and> best (\<lambda>e. ev_healthy e \<and> ev_recoveredLongEnough e) evaluated c \<and>
           select_member options g evaluated = Sel_Member c Failed_Back
         else if \<not> active_lost g evaluated
         then \<exists>a. active_of g evaluated = Some a \<and> select_member options g evaluated = Sel_Member a No_Switch
         else if \<exists>e \<in> set evaluated. ev_healthy e
         then \<exists>e. best ev_healthy evaluated e \<and>
           select_member options g evaluated = Sel_Member e (Failed_Over (map_option ev_message (active_of g evaluated)))
         else select_member options g evaluated = Sel_None)))"
proof (intro conjI impI)
  show "select_member options g evaluated = Sel_Wait \<longleftrightarrow> awaits_health g evaluated" by (rule wait_iff)
next
  assume w: "\<not> awaits_health g evaluated" and f: "fo_forcePriority options"
  show "if \<exists>e \<in> set evaluated. ev_healthy e
     then \<exists>e. best ev_healthy evaluated e \<and> select_member options g evaluated = Sel_Member e No_Switch
     else select_member options g evaluated = Sel_None"
    using f first_healthy [of evaluated] first_healthy_None [of evaluated] unfolding chosen_cases [OF w] Let_def
    by (cases "first_of (healthy_members evaluated)") auto
next
  assume w: "\<not> awaits_health g evaluated" and f: "\<not> fo_forcePriority options"
  note C = chosen_cases [OF w, of options, unfolded Let_def if_not_P [OF f]]
  show "if \<exists>c. may_fail_back g evaluated c
     then \<exists>c. may_fail_back g evaluated c \<and> best (\<lambda>e. ev_healthy e \<and> ev_recoveredLongEnough e) evaluated c \<and>
       select_member options g evaluated = Sel_Member c Failed_Back
     else if \<not> active_lost g evaluated
     then \<exists>a. active_of g evaluated = Some a \<and> select_member options g evaluated = Sel_Member a No_Switch
     else if \<exists>e \<in> set evaluated. ev_healthy e
     then \<exists>e. best ev_healthy evaluated e \<and>
       select_member options g evaluated = Sel_Member e (Failed_Over (map_option ev_message (active_of g evaluated)))
     else select_member options g evaluated = Sel_None"
  proof (cases "\<exists>c. may_fail_back g evaluated c")
    case True
    then obtain c where c: "find ev_recoveredLongEnough (healthy_members evaluated) = Some c" "dbBool False (fg_autoFailback g)"
      "\<exists>a. active_of g evaluated = Some a \<and> ev_priority c < ev_priority a"
      unfolding fail_back_iff by (auto split: option.splits)
    have "may_fail_back g evaluated c" using find_healthy [OF c(1)] c(2,3) by (auto simp: may_fail_back_def best_def)
    moreover have "select_member options g evaluated = Sel_Member c Failed_Back" unfolding C if_P [OF True] by (simp add: c(1))
    ultimately show ?thesis using True find_healthy [OF c(1)] by auto
  next
    case False
    note C' = C [unfolded if_not_P [OF False]]
    show ?thesis
    proof (cases "active_lost g evaluated")
      case True
      then show ?thesis
        using False first_healthy [of evaluated] first_healthy_None [of evaluated] C'
        by (cases "first_of (healthy_members evaluated)") auto
    next
      case lost: False
      then obtain a where "active_of g evaluated = Some a" by (auto simp: active_lost_def split: option.splits)
      then show ?thesis using False lost C' by simp
    qed
  qed
qed

text \<open>The record of what was reconciled is right: what it names is what the provider serves.\<close>

definition dns_known :: "failover_world \<Rightarrow> bool" where
  "dns_known w \<longleftrightarrow>
     (\<forall>v. jm_get (fw_reconciled w) (fg_id (fw_group w)) = Some (exactDdnsSignature (fw_group w) v) \<longrightarrow>
        js_join (CHR '','') (fw_dns w) = v)"

lemma signature_inject: "exactDdnsSignature g v = exactDdnsSignature g v' \<longleftrightarrow> v = v'"
  by (simp add: exactDdnsSignature_def)

lemma log_event_fields [simp]:
  "fw_group (log_event e w) = fw_group w" "fw_dns (log_event e w) = fw_dns w" "fw_reconciled (log_event e w) = fw_reconciled w"
  by (simp_all add: log_event_def)

lemma update_if_changed_fields [simp]:
  "fw_dns (snd (updateForwardGroupRuntimeIfChanged now patch w)) = fw_dns w"
  "fw_reconciled (snd (updateForwardGroupRuntimeIfChanged now patch w)) = fw_reconciled w"
  "fw_log (snd (updateForwardGroupRuntimeIfChanged now patch w)) = fw_log w"
  by (simp_all add: updateForwardGroupRuntimeIfChanged_def)

lemma update_if_changed_group:
  "\<exists>t. fw_group (snd (updateForwardGroupRuntimeIfChanged now patch w)) = (patch (fw_group w))\<lparr>fg_updatedAt := t\<rparr>"
  by (cases "patch (fw_group w) = fw_group w")
     (auto simp: updateForwardGroupRuntimeIfChanged_def intro: exI [of _ "fg_updatedAt (fw_group w)"])

lemma update_and_log_fields [simp]:
  "fw_dns (update_and_log now patch e w) = fw_dns w" "fw_reconciled (update_and_log now patch e w) = fw_reconciled w"
  by (simp_all add: update_and_log_def updateForwardGroupRuntimeIfChanged_def)

lemma update_and_log_group:
  "\<exists>t. fw_group (update_and_log now patch e w) = (patch (fw_group w))\<lparr>fg_updatedAt := t\<rparr>"
  using update_if_changed_group [of now patch w]
  by (auto simp: update_and_log_def split: prod.split)


lemma dns_known_cong:
  assumes "fw_dns w' = fw_dns w" "fw_reconciled w' = fw_reconciled w" "fg_id (fw_group w') = fg_id (fw_group w)"
    "fg_domain (fw_group w') = fg_domain (fw_group w)" "fg_recordType (fw_group w') = fg_recordType (fw_group w)"
  shows "dns_known w' = dns_known w"
  using assms by (simp add: dns_known_def exactDdnsSignature_def)

text \<open>
  A commit has nothing to do when the row already names the member and the address and the address is on record as
  reconciled, unless an update is asked for.
\<close>

definition on_record :: "string \<Rightarrow> failover_world \<Rightarrow> bool" where
  "on_record v w \<longleftrightarrow> jm_get (fw_reconciled w) (fg_id (fw_group w)) =
     Some (js_lower (js_trim (fg_domain (fw_group w))), fg_recordType (fw_group w), v)"

definition nothing_to_do :: "sync_options \<Rightarrow> int \<Rightarrow> string \<Rightarrow> failover_world \<Rightarrow> bool" where
  "nothing_to_do options m v w \<longleftrightarrow>
     \<not> so_forceSync options \<and> fg_activeMemberId (fw_group w) = Some m \<and> fg_lastDdnsValue (fw_group w) = v \<and> on_record v w"

lemma on_record_iff: "on_record v w = (\<not> exactDdnsReconciliationDue w v)"
  by (simp add: on_record_def exactDdnsReconciliationDue_def exactDdnsSignature_def)

text \<open>The six ways a commit goes.\<close>

lemma sync_cases:
  assumes "syncSingleForwardGroupDdns settings options still1 still2 dns err now m v w = (r, w')"
  obtains (stale) "\<not> still1" "r = Run_Retry" "w' = w"
    | (off) "still1" "ddns_off settings" "r = Run_Done" "fw_dns w' = fw_dns w" "fw_reconciled w' = fw_reconciled w"
        "\<exists>t. fw_group w' = (fw_group w)\<lparr>fg_activeMemberId := Some m, fg_lastDdnsValue := v, fg_lastStatus := ''healthy'',
           fg_lastMessage := Msg_Suggested v, fg_updatedAt := t\<rparr>"
    | (current) "still1" "\<not> ddns_off settings" "r = Run_Done" "fg_activeMemberId (fw_group w) = Some m" "fg_lastDdnsValue (fw_group w) = v"
        "\<not> exactDdnsReconciliationDue w v" "fw_dns w' = fw_dns w" "fw_reconciled w' = fw_reconciled w"
        "\<exists>t. fw_group w' = (fw_group w)\<lparr>fg_lastStatus := ''healthy'', fg_lastMessage := Msg_Current v, fg_updatedAt := t\<rparr>"
        "nothing_to_do options m v w"
    | (refused) vs where "still1" "\<not> ddns_off settings" "dns = Dns_Refused vs" "r = Run_Throw" "fw_dns w' = vs" "fw_reconciled w' = fw_reconciled w"
        "fw_group w' = (fw_group w)\<lparr>fg_lastStatus := ''error'', fg_lastMessage := Msg_Error err, fg_updatedAt := stored now\<rparr>"
        "\<not> nothing_to_do options m v w"
    | (abandoned) "still1" "\<not> ddns_off settings" "dns = Dns_Done" "\<not> still2" "r = Run_Retry" "fw_dns w' = [v]"
        "fw_reconciled w' = fw_reconciled w" "fw_group w' = fw_group w" "\<not> nothing_to_do options m v w"
    | (committed) "still1" "\<not> ddns_off settings" "dns = Dns_Done" "still2" "r = Run_Done" "fw_dns w' = [v]"
        "fw_reconciled w' = jm_set (fg_id (fw_group w)) (exactDdnsSignature (fw_group w) v) (fw_reconciled w)"
        "fw_group w' = (fw_group w)\<lparr>fg_activeMemberId := Some m, fg_lastDdnsValue := v, fg_lastDdnsAt := stored now,
           fg_lastFailoverAt := stored now, fg_lastStatus := ''healthy'', fg_lastMessage := Msg_Switched v, fg_updatedAt := stored now\<rparr>"
        "\<not> nothing_to_do options m v w"
proof -
  let ?skip = "\<not> so_forceSync options \<and> fg_activeMemberId (fw_group w) = Some m \<and> fg_lastDdnsValue (fw_group w) = v \<and>
      \<not> exactDdnsReconciliationDue w v"
  note S = assms [unfolded syncSingleForwardGroupDdns_def Let_def]
  have n: "nothing_to_do options m v w = ?skip" by (simp add: nothing_to_do_def on_record_iff)
  consider "\<not> still1" | "still1" "ddns_off settings" | "still1" "\<not> ddns_off settings" "?skip"
    | vs where "still1" "\<not> ddns_off settings" "\<not> ?skip" "dns = Dns_Refused vs"
    | "still1" "\<not> ddns_off settings" "\<not> ?skip" "dns = Dns_Done" "\<not> still2"
    | "still1" "\<not> ddns_off settings" "\<not> ?skip" "dns = Dns_Done" "still2"
    by (cases dns) blast+
  then show thesis
  proof cases
    case 1
    then show thesis using stale S by simp
  next
    case 2
    let ?p = "\<lambda>g. g\<lparr>fg_activeMemberId := Some m, fg_lastDdnsValue := v, fg_lastStatus := ''healthy'', fg_lastMessage := Msg_Suggested v\<rparr>"
    have "r = Run_Done" "w' = update_and_log now ?p (Logged (Some m) ''ddns-skip'') w" using S 2 by auto
    then show thesis using off [OF 2] update_and_log_group [of now ?p "Logged (Some m) ''ddns-skip''" w] by simp
  next
    case 3
    let ?p = "\<lambda>g. g\<lparr>fg_lastStatus := ''healthy'', fg_lastMessage := Msg_Current v\<rparr>"
    have "r = Run_Done" "w' = update_and_log now ?p (Logged (Some m) ''ddns-current'') w" using S 3 by auto
    then show thesis using current [OF 3(1,2)] 3(3) n update_and_log_group [of now ?p "Logged (Some m) ''ddns-current''" w] by simp
  next
    case (4 vs)
    have "r = Run_Throw" "fw_dns w' = vs" "fw_reconciled w' = fw_reconciled w"
      "fw_group w' = (fw_group w)\<lparr>fg_lastStatus := ''error'', fg_lastMessage := Msg_Error err, fg_updatedAt := stored now\<rparr>"
      using S unfolding if_not_P [OF 4(3)] by (auto simp: 4(1,2,4))
    then show thesis using n 4(3) by (intro refused [OF 4(1,2,4)]) simp_all
  next
    case 5
    have "r = Run_Retry" "fw_dns w' = [v]" "fw_reconciled w' = fw_reconciled w" "fw_group w' = fw_group w"
      using S unfolding if_not_P [OF 5(3)] by (auto simp: 5(1,2,4,5))
    then show thesis using n 5(3) by (intro abandoned [OF 5(1,2,4,5)]) simp_all
  next
    case 6
    have "r = Run_Done" "fw_dns w' = [v]"
      "fw_reconciled w' = jm_set (fg_id (fw_group w)) (exactDdnsSignature (fw_group w) v) (fw_reconciled w)"
      "fw_group w' = (fw_group w)\<lparr>fg_activeMemberId := Some m, fg_lastDdnsValue := v, fg_lastDdnsAt := stored now,
           fg_lastFailoverAt := stored now, fg_lastStatus := ''healthy'', fg_lastMessage := Msg_Switched v, fg_updatedAt := stored now\<rparr>"
      using S unfolding if_not_P [OF 6(3)] by (auto simp: 6(1,2,4,5) rememberExactDdnsReconciliation_def split: if_splits)
    then show thesis using n 6(3) by (intro committed [OF 6(1,2,4,5)]) simp_all
  qed
qed

text \<open>Commits one after another, as the process makes them from its start, when nothing is on record.\<close>

record commit_call =
  cc_settings :: ddns_settings
  cc_options :: sync_options
  cc_still1 :: bool
  cc_still2 :: bool
  cc_dns :: dns_answer
  cc_errorText :: string
  cc_now :: rat
  cc_memberId :: int
  cc_value :: string

definition commit_step :: "failover_world \<Rightarrow> commit_call \<Rightarrow> failover_world" where
  "commit_step w c = snd (syncSingleForwardGroupDdns (cc_settings c) (cc_options c) (cc_still1 c) (cc_still2 c) (cc_dns c) (cc_errorText c)
     (cc_now c) (cc_memberId c) (cc_value c) w)"

text \<open>No update was refused, or given up after the provider took it.\<close>

definition kept_updates :: "commit_call list \<Rightarrow> bool" where
  "kept_updates cs \<longleftrightarrow> (\<forall>c \<in> set cs. cc_dns c = Dns_Done \<and> cc_still2 c)"

definition from_start :: "failover_world \<Rightarrow> bool" where
  "from_start w \<longleftrightarrow> (\<exists>w0 cs. jm_get (fw_reconciled w0) (fg_id (fw_group w0)) = None \<and> kept_updates cs \<and> w = foldl commit_step w0 cs)"

lemma commit_known:
  assumes "syncSingleForwardGroupDdns settings options still1 still2 dns err now m v w = (r, w')" "dns = Dns_Done" "still2" "dns_known w"
  shows "dns_known w'"
  using assms(1)
proof (cases rule: sync_cases)
  case off
  then show ?thesis using assms(4) by (auto simp: dns_known_cong [where w = w and w' = w'])
next
  case current
  then show ?thesis using assms(4) by (auto simp: dns_known_cong [where w = w and w' = w'])
next
  case committed
  then show ?thesis by (simp add: dns_known_def exactDdnsSignature_def)
qed (use assms in auto)

lemma from_start_known: "from_start w \<Longrightarrow> dns_known w"
proof -
  assume "from_start w"
  then obtain w0 cs where w0: "jm_get (fw_reconciled w0) (fg_id (fw_group w0)) = None" and cs: "kept_updates cs" "w = foldl commit_step w0 cs"
    by (auto simp: from_start_def)
  have "dns_known (foldl commit_step u cs)" if "dns_known u" for u
    using that cs(1)
  proof (induction cs arbitrary: u)
    case (Cons c cs)
    have "dns_known (commit_step u c)"
      unfolding commit_step_def using Cons.prems by (intro commit_known [OF prod.collapse [symmetric]]) (auto simp: kept_updates_def)
    then show ?case using Cons by (simp add: kept_updates_def)
  qed simp
  moreover have "dns_known w0" using w0 by (simp add: dns_known_def)
  ultimately show ?thesis using cs(2) by simp
qed


text \<open>
  C40. An update that is abandoned after the provider took it is not made good: when the selection returns to the member that
  was active before, the run says that the name is up to date and writes it as healthy while the provider still
  serves the address of the other member.
\<close>

theorem abandoned_update_leaves_stale_name:
  assumes "\<not> ddns_off settings" "\<not> so_forceSync options"
    and "fg_activeMemberId (fw_group w) = Some m" "fg_lastDdnsValue (fw_group w) = v" "\<not> exactDdnsReconciliationDue w v"
    and "m' \<noteq> m" "v' \<noteq> v"
    and "syncSingleForwardGroupDdns settings options True False Dns_Done err now m' v' w = (r1, w1)"
    and "syncSingleForwardGroupDdns settings options True still2 dns err' now' m v w1 = (r2, w2)"
  shows "r1 = Run_Retry \<and> r2 = Run_Done \<and> fg_activeMemberId (fw_group w2) = Some m \<and> fg_lastDdnsValue (fw_group w2) = v \<and>
    fg_lastStatus (fw_group w2) = ''healthy'' \<and> fw_dns w2 = [v']"
proof -
  have 1: "r1 = Run_Retry" "fw_dns w1 = [v']" "fw_reconciled w1 = fw_reconciled w" "fw_group w1 = fw_group w"
  proof -
    have "\<not> (\<not> so_forceSync options \<and> fg_activeMemberId (fw_group w) = Some m' \<and> fg_lastDdnsValue (fw_group w) = v' \<and>
        \<not> exactDdnsReconciliationDue w v')"
      using assms(3,6) by simp
    note S = assms(8) [unfolded syncSingleForwardGroupDdns_def Let_def if_not_P [OF this]]
    show "r1 = Run_Retry" "fw_dns w1 = [v']" "fw_reconciled w1 = fw_reconciled w" "fw_group w1 = fw_group w"
      using S assms(1) by auto
  qed
  have due: "\<not> exactDdnsReconciliationDue w1 v" using assms(5) 1(3,4) by (simp add: exactDdnsReconciliationDue_def)
  let ?p = "\<lambda>g. g\<lparr>fg_lastStatus := ''healthy'', fg_lastMessage := Msg_Current v\<rparr>"
  have "r2 = Run_Done" "w2 = update_and_log now' ?p (Logged (Some m) ''ddns-current'') w1"
    using assms(9) assms(1-4) due 1(4) by (auto simp: syncSingleForwardGroupDdns_def Let_def)
  then show ?thesis
    using 1 assms(3,4) update_and_log_group [of now' ?p "Logged (Some m) ''ddns-current''" w1] by auto
qed


lemma sync_active:
  assumes "syncSingleForwardGroupDdns settings options still1 still2 dns err now m v w = (r, w')"
  shows "fg_activeMemberId (fw_group w') = fg_activeMemberId (fw_group w) \<or>
    fg_activeMemberId (fw_group w') = Some m \<and> fg_lastDdnsValue (fw_group w') = v \<and> still1 \<and>
      (ddns_off settings \<or> dns = Dns_Done \<and> still2 \<and> fw_dns w' = [v])"
  using assms by (cases rule: sync_cases) auto

lemma update_active:
  "fg_activeMemberId (fw_group (snd (updateForwardGroupRuntimeIfChanged now patch w))) = fg_activeMemberId (patch (fw_group w))"
  using update_if_changed_group [of now patch w] by auto

lemma preserve_active:
  assumes "preserveForwardGroupDdns ipv6 settings options quotaExcluded holders dns err now reason w = (r, w')"
  shows "fg_activeMemberId (fw_group w') = fg_activeMemberId (fw_group w) \<or>
    fg_activeMemberId (fw_group w') = None \<and> (quotaExcluded \<and> (\<exists>h \<in> set holders. snd h) \<or> (\<exists>vs. dns = Dns_Refused vs))"
  using assms unfolding preserveForwardGroupDdns_def Let_def
  by (auto simp: update_active rememberExactDdnsReconciliation_def split: if_splits dns_answer.splits)

lemma select_none_unhealthy:
  assumes "select_member options g evaluated = Sel_None"
  shows "\<not> (\<exists>e \<in> set evaluated. ev_healthy e)"
proof -
  have w: "\<not> awaits_health g evaluated" using assms wait_iff [of options g evaluated] by auto
  have "first_of (healthy_members evaluated) = None"
    using assms unfolding chosen_cases [OF w] Let_def fail_back_iff active_lost_def
    by (auto split: if_splits option.splits)
  then show ?thesis by (simp only: first_healthy_None not_False_eq_True)
qed

lemma select_member_due:
  assumes "select_member options g evaluated = Sel_Member e s"
  shows "fg_activeMemberId g = Some (ev_id e) \<or>
    e \<in> set evaluated \<and> ev_healthy e \<and> (fo_forcePriority options \<or> may_fail_back g evaluated e \<or> active_lost g evaluated)"
proof -
  have w: "\<not> awaits_health g evaluated" using assms wait_iff [of options g evaluated] by auto
  have b: "e \<in> set evaluated \<and> ev_healthy e" if "first_of (healthy_members evaluated) = Some e"
    using first_healthy [OF that] by (simp add: best_def)
  have f: "may_fail_back g evaluated e"
    if "\<exists>c. may_fail_back g evaluated c" "find ev_recoveredLongEnough (healthy_members evaluated) = Some e"
    using that(1)[unfolded fail_back_iff] find_healthy [OF that(2)] that(2)
    by (auto simp: may_fail_back_def best_def split: option.splits)
  have a: "fg_activeMemberId g = Some (ev_id e)" if "active_of g evaluated = Some e"
    using that by (auto simp: active_of_def find_Some_iff split: option.splits)
  show ?thesis
    using assms a b f unfolding chosen_cases [OF w] Let_def
    by (auto split: if_splits option.splits simp: may_fail_back_def)
qed

text \<open>
  C4. The active member of a group in use changes only for cause.  Either it becomes a healthy member with an address,
  because the run forces the priority, because the group moves back to it, or because the active one is missing or has
  failed long enough; the selection was still current, and the provider serves the address of the new member unless
  the updates are off.  Or it is cleared, when no member is healthy and either members out of traffic had to be taken from
  the name or the provider refused to hold the old address.
\<close>

theorem failover_moves_only_when_due:
  assumes "run_with_rules ipv6 parse settings options evaluated valueOf (still0, still1, still2) dns err quotaExcluded holders now w = (r, w')"
  shows "fg_activeMemberId (fw_group w') = fg_activeMemberId (fw_group w) \<or>
    (\<exists>e \<in> set evaluated. fg_activeMemberId (fw_group w') = Some (ev_id e) \<and> ev_healthy e \<and>
       (fo_forcePriority options \<or> may_fail_back (fw_group w) evaluated e \<or> active_lost (fw_group w) evaluated) \<and>
       valueOf (ev_id e) \<noteq> [] \<and> fg_lastDdnsValue (fw_group w') = valueOf (ev_id e) \<and> still1 \<and>
       (ddns_off settings \<or> dns = Dns_Done \<and> still2 \<and> fw_dns w' = [valueOf (ev_id e)])) \<or>
    (fg_activeMemberId (fw_group w') = None \<and> \<not> (\<exists>e \<in> set evaluated. ev_healthy e) \<and> still0 \<and>
       (quotaExcluded \<and> (\<exists>h \<in> set holders. snd h) \<or> (\<exists>vs. dns = Dns_Refused vs)))"
proof (cases "fg_domain (fw_group w) = []")
  case True
  then show ?thesis using assms by (auto simp: run_with_rules_def update_active)
next
  case False
  let ?w = "log_event (Recheck (recheck_with_rules parse now (fw_group w) evaluated)) w"
  note R = assms [unfolded run_with_rules_def Let_def prod.case if_not_P [OF False]]
  show ?thesis
  proof (cases "select_member options (fw_group w) evaluated")
    case Sel_Wait
    then show ?thesis using R by (auto simp: update_active)
  next
    case Sel_None
    show ?thesis
    proof (cases still0)
      case True
      then have "preserveForwardGroupDdns ipv6 settings options quotaExcluded holders dns err now No_Healthy_Member ?w = (r, w')"
        using R Sel_None by simp
      from preserve_active [OF this] select_none_unhealthy [OF Sel_None] True show ?thesis by auto
    next
      case False
      then show ?thesis using R Sel_None by auto
    qed
  next
    case (Sel_Member e s)
    show ?thesis
    proof (cases "valueOf (ev_id e) = []")
      case True
      then show ?thesis using R Sel_Member by auto
    next
      case v: False
      obtain r1 w1 where S: "syncSingleForwardGroupDdns settings
          \<lparr>so_forceSync = fo_forceSync options, so_eventType = ''failover'',
            so_suppressSwitchNotify = switchNotifySuppressed options \<or> fg_activeMemberId (fw_group w) = Some (ev_id e)\<rparr>
          still1 still2 dns err now (ev_id e) (valueOf (ev_id e)) ?w = (r1, w1)"
        by (meson surj_pair)
      have "fw_group w' = fw_group w1" "fw_dns w' = fw_dns w1"
        using R Sel_Member v S by (auto split: if_splits)
      then show ?thesis using sync_active [OF S] select_member_due [OF Sel_Member] v by auto
    qed
  qed
qed

section \<open>Witnesses\<close>

definition demo_evaluated :: "evaluation list" where
  "demo_evaluated = [fst (demo_evaluation 2000600 False demo_failed), fst (demo_evaluation 2000600 True (demo_member 2 2))]"

definition demo_options :: failover_options where
  "demo_options = \<lparr>fo_forcePriority = False, fo_forceSync = False, fo_manual = False, fo_suppressSwitchNotify = False\<rparr>"

definition demo_dns :: ddns_settings where
  "demo_dns = \<lparr>ds_enabled = True, ds_provider = ''generic''\<rparr>"

definition demo_sync :: sync_options where
  "demo_sync = \<lparr>so_forceSync = False, so_eventType = ''failover'', so_suppressSwitchNotify = True\<rparr>"

definition demo_world :: failover_world where
  "demo_world = \<lparr>fw_group = demo_group, fw_dns = [''1.1.1.1''],
     fw_reconciled = jm_set 9 (exactDdnsSignature demo_group ''1.1.1.1'') [], fw_log = []\<rparr>"

definition demo_value :: "int \<Rightarrow> string" where
  "demo_value i = (if i = 1 then ''1.1.1.1'' else ''2.2.2.2'')"

lemma demo_dns_on: "\<not> ddns_off demo_dns"
  by code_simp

lemma demo_world_known: "dns_known demo_world" "\<not> exactDdnsReconciliationDue demo_world ''1.1.1.1''"
proof -
  show "\<not> exactDdnsReconciliationDue demo_world ''1.1.1.1''" by code_simp
  have "jm_get (fw_reconciled demo_world) (fg_id (fw_group demo_world)) = Some (exactDdnsSignature (fw_group demo_world) ''1.1.1.1'')"
    "js_join (CHR '','') (fw_dns demo_world) = ''1.1.1.1''"
    by code_simp+
  then show "dns_known demo_world" by (simp add: dns_known_def signature_inject)
qed

theorem failover_selection_exact_witness:
  "\<exists>e. best ev_healthy demo_evaluated e \<and> ev_id e = 2 \<and>
     select_member demo_options demo_group demo_evaluated =
       Sel_Member e (Failed_Over (map_option ev_message (active_of demo_group demo_evaluated)))"
proof -
  have c: "(case select_member demo_options demo_group demo_evaluated of Sel_Member e (Failed_Over _) \<Rightarrow> ev_id e = 2 | _ \<Rightarrow> False)"
    by code_simp
  have "\<not> fo_forcePriority demo_options" "active_lost demo_group demo_evaluated" "\<exists>e \<in> set demo_evaluated. ev_healthy e" by code_simp+
  with failover_selection_exact [of demo_options demo_group demo_evaluated] c show ?thesis
    by (auto split: selection.splits switch_reason.splits if_splits)
qed

definition demo_fresh :: failover_world where
  "demo_fresh = demo_world\<lparr>fw_reconciled := [], fw_dns := [''9.9.9.9'']\<rparr>"

definition demo_first :: commit_call where
  "demo_first = \<lparr>cc_settings = demo_dns, cc_options = demo_sync, cc_still1 = True, cc_still2 = True, cc_dns = Dns_Done, cc_errorText = [],
     cc_now = 2000500, cc_memberId = 1, cc_value = ''1.1.1.1''\<rparr>"

definition demo_commit :: "run_result \<times> failover_world" where
  "demo_commit = syncSingleForwardGroupDdns demo_dns demo_sync True True Dns_Done [] 2000600 1 ''1.1.1.1'' (commit_step demo_fresh demo_first)"


definition demo_abandoned :: "run_result \<times> failover_world" where
  "demo_abandoned = syncSingleForwardGroupDdns demo_dns demo_sync True False Dns_Done [] 2000600 2 ''2.2.2.2'' demo_world"

definition demo_returned :: "run_result \<times> failover_world" where
  "demo_returned = syncSingleForwardGroupDdns demo_dns demo_sync True True Dns_Done [] 2000700 1 ''1.1.1.1'' (snd demo_abandoned)"

theorem abandoned_update_leaves_stale_name_witness:
  "fg_lastDdnsValue (fw_group (snd demo_returned)) = ''1.1.1.1'' \<and> fg_lastStatus (fw_group (snd demo_returned)) = ''healthy'' \<and>
   fw_dns (snd demo_returned) = [''2.2.2.2'']"
proof -
  have d: "\<not> so_forceSync demo_sync" "fg_activeMemberId (fw_group demo_world) = Some 1" "fg_lastDdnsValue (fw_group demo_world) = ''1.1.1.1''"
    "(2 :: int) \<noteq> 1" "''2.2.2.2'' \<noteq> ''1.1.1.1''"
    by code_simp+
  note A = abandoned_update_leaves_stale_name [OF demo_dns_on d(1,2,3) demo_world_known(2) d(4,5) prod.collapse [symmetric] prod.collapse [symmetric],
    of "[]" 2000600 True Dns_Done "[]" 2000700, folded demo_abandoned_def demo_returned_def]
  then show ?thesis by simp
qed

definition demo_run :: "run_result \<times> failover_world" where
  "demo_run = run_with_rules (\<lambda>_. None) (\<lambda>_. None) demo_dns demo_options demo_evaluated demo_value (True, True, True) Dns_Done [] False []
     2000600 demo_world"

theorem failover_moves_only_when_due_witness:
  "fg_activeMemberId (fw_group (snd demo_run)) = Some 2 \<and> fw_dns (snd demo_run) = [''2.2.2.2'']"
proof -
  have a: "fg_activeMemberId (fw_group (snd demo_run)) = Some 2" "fg_activeMemberId (fw_group demo_world) = Some 1"
    "\<not> ddns_off demo_dns" "demo_value 2 = ''2.2.2.2''"
    by code_simp+
  note F = failover_moves_only_when_due [OF prod.collapse [symmetric], of "\<lambda>_. None" "\<lambda>_. None" demo_dns demo_options demo_evaluated demo_value
    True True True Dns_Done "[]" False "[]" 2000600 demo_world, folded demo_run_def]
  show ?thesis
  proof (rule conjI [OF a(1)])
    show "fw_dns (snd demo_run) = [''2.2.2.2'']" using F a by auto
  qed
qed

end
