(* ===== verification/Entry_Run.thy ===== *)
theory Entry_Run
imports Failover_Run
begin

text \<open>
  Groups of entries (\<open>syncEntryGroupDdns\<close> in \<open>server/repositories/forwardGroupRepository.ts\<close>): the name of such a
  group points to all its healthy hosts.  A scan over the members decides which addresses are published, with the
  same windows of failure and recovery a failover group has; then the name is brought up to date as in theory
  \<open>Failover_Run\<close>, whose world it shares.  \<open>now\<close> is the time of the run.  The state of the agents and the rows of the
  members are read again before the addresses are chosen, before the update and after it: the three reads are arguments.
\<close>

section \<open>The scan\<close>

text \<open>A member with the address it has for the record type of the group, empty where it has none.\<close>

record entry_member =
  em_row :: failover_member
  em_isHost :: bool
  em_value :: string
  em_liveness :: agent_liveness

definition em_id :: "entry_member \<Rightarrow> int" where
  "em_id m = fm_id (em_row m)"

definition sortedMembers :: "entry_member list \<Rightarrow> entry_member list" where
  "sortedMembers ms = filter (\<lambda>m. dbBool False (fm_isEnabled (em_row m))) (sort_key (\<lambda>m. fm_priority (em_row m)) ms)"

text \<open>What the scan writes to the row of a member.\<close>

record entry_patch =
  pt_healthStatus :: string
  pt_failureSince :: "rat option"
  pt_healthySince :: "rat option"

record entry_scan =
  es_values :: "string list"
  es_included :: "int list"
  es_excluded :: "string list"
  es_windows :: "window_member list"
  es_healthSnapshot :: "(int, string \<times> rat) jmap"
  es_liveness :: "(int, agent_liveness) jmap"
  es_expiries :: "rat list"
  es_active :: "int option"
  es_pending :: bool
  es_trafficExcluded :: nat
  es_patches :: "(int \<times> entry_patch) list"

definition no_entries :: entry_scan where
  "no_entries = \<lparr>es_values = [], es_included = [], es_excluded = [], es_windows = [], es_healthSnapshot = [], es_liveness = [],
     es_expiries = [], es_active = None, es_pending = False, es_trafficExcluded = 0, es_patches = []\<rparr>"

definition includeMember :: "entry_member \<Rightarrow> entry_scan \<Rightarrow> entry_scan" where
  "includeMember m s =
     s\<lparr>es_values := foldl (\<lambda>vs v. set_add v vs) (es_values s) (splitForwardGroupDdnsValues (em_value m)),
       es_included := set_add (em_id m) (es_included s),
       es_active := (case es_active s of None \<Rightarrow> (if em_id m = 0 then None else Some (em_id m)) | Some a \<Rightarrow> Some a)\<rparr>"

definition exclude_value :: "string \<Rightarrow> entry_scan \<Rightarrow> entry_scan" where
  "exclude_value v s = s\<lparr>es_excluded := set_add v (es_excluded s)\<rparr>"

definition status_or_unknown :: "jsval \<Rightarrow> string" where
  "status_or_unknown v = js_string (js_or v (JStr ''unknown''))"

text \<open>The sample a group relies on: of the national check where it is on, of the agent otherwise.\<close>

definition checked_at :: "bool \<Rightarrow> failover_member \<Rightarrow> rat option" where
  "checked_at china m = (if china then fm_chinaHealthCheckedAt m else fm_lastCheckedAt m)"

definition health_key :: "bool \<Rightarrow> failover_member \<Rightarrow> string \<times> rat" where
  "health_key china m =
     (status_or_unknown (if china then fm_chinaHealthStatus m else fm_healthStatus m), time_or_0 (checked_at china m))"

datatype entry_health = Entry_Offline | Entry_State health_state

definition entry_health_of :: "(string \<Rightarrow> rat option) \<Rightarrow> rat \<Rightarrow> bool \<Rightarrow> entry_member \<Rightarrow> entry_health" where
  "entry_health_of parse now china m =
     (if \<not> al_available (em_liveness m) then Entry_Offline
      else if \<not> agentHealthSampleIsCurrent (em_liveness m) (checked_at china (em_row m)) then Entry_State Pending
      else if china then Entry_State (forwardGroupChinaHealthStateAt parse (health_row (em_row m)) (JNum now))
      else Entry_State (forwardGroupAgentHealthStateAt parse (health_row (em_row m)) (JNum now)))"

text \<open>When a member that is waited for has been waited for long enough.\<close>

definition or_else :: "'a option \<Rightarrow> 'a option \<Rightarrow> 'a option" where
  "or_else a b = (case a of Some x \<Rightarrow> Some x | None \<Rightarrow> b)"

definition waiting_since :: "rat \<Rightarrow> failover_group \<Rightarrow> entry_member \<Rightarrow> rat" where
  "waiting_since now g m =
     (case or_else (al_lastOfflineAt (em_liveness m)) (or_else (fm_updatedAt (em_row m)) (or_else (fm_createdAt (em_row m))
        (or_else (fg_updatedAt g) (fg_createdAt g)))) of Some t \<Rightarrow> t | None \<Rightarrow> now)"

text \<open>The verdict, the moment from which a failure was observed, and the moment until which the scan waits.\<close>

definition entry_verdict ::
  "(string \<Rightarrow> rat option) \<Rightarrow> rat \<Rightarrow> failover_group \<Rightarrow> bool \<Rightarrow> entry_member \<Rightarrow> entry_health \<times> rat option \<times> rat option" where
  "entry_verdict parse now g china m =
     (let health = entry_health_of parse now china m;
          sampleAt = checked_at china (em_row m);
          observed = (if \<not> al_available (em_liveness m)
                      then Some (case al_failureSince (em_liveness m) of Some t \<Rightarrow> t | None \<Rightarrow> now) else None)
      in if health = Entry_State Pending \<and> (sampleAt = None \<or> \<not> agentHealthSampleIsCurrent (em_liveness m) sampleAt)
         then (let expiresAt = waiting_since now g m + agent_health_ttl_ms in
               if expiresAt \<le> now then (Entry_State Stale, Some expiresAt, None) else (health, observed, Some expiresAt))
         else (health, observed, None))"

text \<open>The moment a failure the sample tells of began.\<close>

definition observed_failure :: "rat \<Rightarrow> entry_health \<Rightarrow> rat option \<Rightarrow> rat option \<Rightarrow> rat option" where
  "observed_failure now health sampleAt observed =
     (if health \<noteq> Entry_State Healthy \<and> observed = None
      then map_option (\<lambda>t. min now (if health = Entry_State Stale then t + agent_health_ttl_ms else t)) sampleAt
      else observed)"

record entry_window =
  ew_failureSince :: "rat option"
  ew_healthySince :: "rat option"
  ew_failedLongEnough :: bool
  ew_recoveredLongEnough :: bool
  ew_include :: bool

definition entry_window_of ::
  "rat \<Rightarrow> failover_group \<Rightarrow> bool \<Rightarrow> bool \<Rightarrow> rat option \<Rightarrow> failover_member \<Rightarrow> entry_window" where
  "entry_window_of now g previouslyIncluded healthy observed row =
     (let wasUnhealthy = (status_or_unknown (fm_healthStatus row) = ''unhealthy'' \<or> fm_failureSince row \<noteq> None) in
      if healthy
      then (let since = (case fm_healthySince row of Some t \<Rightarrow> t | None \<Rightarrow> now);
                recovered = (forwardGroupRecoverDelayMs g \<le> now - since)
            in \<lparr>ew_failureSince = None, ew_healthySince = Some since, ew_failedLongEnough = False, ew_recoveredLongEnough = recovered,
                ew_include = (previouslyIncluded \<or> \<not> (\<not> previouslyIncluded \<and> wasUnhealthy) \<or> recovered)\<rparr>)
      else (let since0 = (case fm_failureSince row of Some t \<Rightarrow> t | None \<Rightarrow> (case observed of Some t \<Rightarrow> t | None \<Rightarrow> now));
                since = (case observed of Some t \<Rightarrow> if t < since0 then t else since0 | None \<Rightarrow> since0);
                failedLong = (forwardGroupFailoverDelayMs g \<le> now - since)
            in \<lparr>ew_failureSince = Some since, ew_healthySince = None, ew_failedLongEnough = failedLong, ew_recoveredLongEnough = False,
                ew_include = (previouslyIncluded \<and> \<not> failedLong)\<rparr>))"

definition entry_patch_of :: "failover_member \<Rightarrow> bool \<Rightarrow> entry_window \<Rightarrow> entry_patch option" where
  "entry_patch_of row healthy w =
     (let status = (if healthy then ''healthy'' else ''unhealthy'') in
      if status_or_unknown (fm_healthStatus row) \<noteq> status \<or> fm_failureSince row \<noteq> ew_failureSince w \<or>
         fm_healthySince row \<noteq> ew_healthySince w
      then Some \<lparr>pt_healthStatus = status, pt_failureSince = ew_failureSince w, pt_healthySince = ew_healthySince w\<rparr> else None)"

definition previous_values :: "failover_group \<Rightarrow> string list" where
  "previous_values g = filter (\<lambda>v. v \<noteq> []) (map js_trim (js_split (CHR '','') (js_trim (fg_lastDdnsValue g))))"

definition previously_included :: "failover_group \<Rightarrow> entry_member \<Rightarrow> bool" where
  "previously_included g m \<longleftrightarrow> (\<exists>v \<in> set (splitForwardGroupDdnsValues (em_value m)). v \<in> set (previous_values g))"

text \<open>One turn of the loop: the new state, and whether the loop ends.\<close>

definition entry_turn ::
  "(string \<Rightarrow> rat option) \<Rightarrow> rat \<Rightarrow> failover_group \<Rightarrow> bool \<Rightarrow> entry_member \<Rightarrow> entry_scan \<Rightarrow> entry_scan \<times> bool" where
  "entry_turn parse now g china m s =
     (if \<not> em_isHost m \<or> em_value m = [] then (s, False)
      else
        (let included = previously_included g m;
             cname = (fg_recordType g = Rec_CNAME);
             s1 = s\<lparr>es_liveness := jm_set (em_id m) (em_liveness m) (es_liveness s)\<rparr>
         in if al_trafficExcluded (em_liveness m)
            then (exclude_value (em_value m) (s1\<lparr>es_trafficExcluded := es_trafficExcluded s1 + 1\<rparr>), False)
            else
              (let s2 = s1\<lparr>es_healthSnapshot := jm_set (em_id m) (health_key china (em_row m)) (es_healthSnapshot s1)\<rparr>;
                   (health, observed0, expiry) = entry_verdict parse now g china m;
                   s3 = (case expiry of Some t \<Rightarrow> s2\<lparr>es_expiries := es_expiries s2 @ [t]\<rparr> | None \<Rightarrow> s2)
               in if health = Entry_State Pending
                  then (let s4 = s3\<lparr>es_pending := True\<rparr> in (if included then includeMember m s4 else s4, cname \<and> included))
                  else
                    (let healthy = (health = Entry_State Healthy);
                         observed = observed_failure now health (checked_at china (em_row m)) observed0;
                         w = entry_window_of now g included healthy observed (em_row m);
                         s4 = (case entry_patch_of (em_row m) healthy w of
                                 Some p \<Rightarrow> s3\<lparr>es_patches := es_patches s3 @ [(em_id m, p)]\<rparr> | None \<Rightarrow> s3);
                         s5 = (if ew_include w then includeMember m s4 else exclude_value (em_value m) s4)
                     in (s5\<lparr>es_windows := es_windows s5 @ [\<lparr>wm_healthy = healthy, wm_failureSince = date_value (ew_failureSince w),
                            wm_healthySince = date_value (ew_healthySince w), wm_failedLongEnough = ew_failedLongEnough w,
                            wm_recoveredLongEnough = ew_recoveredLongEnough w\<rparr>]\<rparr>,
                         cname \<and> ew_include w)))))"

fun entry_scan_members ::
  "(string \<Rightarrow> rat option) \<Rightarrow> rat \<Rightarrow> failover_group \<Rightarrow> bool \<Rightarrow> entry_member list \<Rightarrow> entry_scan \<Rightarrow> entry_scan" where
  "entry_scan_members parse now g china [] s = s"
| "entry_scan_members parse now g china (m # ms) s =
     (let (s', stop) = entry_turn parse now g china m s in if stop then s' else entry_scan_members parse now g china ms s')"

text \<open>The rows after the writes of the scan.\<close>

definition write_entry_patch :: "rat \<Rightarrow> entry_patch \<Rightarrow> failover_member \<Rightarrow> failover_member" where
  "write_entry_patch now p row =
     row\<lparr>fm_healthStatus := JStr (pt_healthStatus p), fm_failureSince := Option.bind (pt_failureSince p) stored,
       fm_healthySince := Option.bind (pt_healthySince p) stored, fm_updatedAt := stored now\<rparr>"

definition write_entry_patches :: "rat \<Rightarrow> entry_scan \<Rightarrow> failover_member list \<Rightarrow> failover_member list" where
  "write_entry_patches now s rows =
     map (\<lambda>row. case map_of (es_patches s) (fm_id row) of Some p \<Rightarrow> write_entry_patch now p row | None \<Rightarrow> row) rows"

section \<open>When the group is looked at again\<close>

definition entry_recheck ::
  "(string \<Rightarrow> rat option) \<Rightarrow> rat \<Rightarrow> failover_group \<Rightarrow> bool \<Rightarrow> entry_member list \<Rightarrow> entry_scan \<Rightarrow> rat option" where
  "entry_recheck parse now g china members s =
     (let windowAt = nextForwardGroupHealthRecheckAt parse (es_windows s) (forwardGroupFailoverDelayMs g) (forwardGroupRecoverDelayMs g)
            (Some now) now;
          eligible = filter (\<lambda>m. case jm_get (es_liveness s) (em_id m) of
              Some l \<Rightarrow> al_available l \<and> agentHealthSampleIsCurrent l (checked_at china (em_row m)) | None \<Rightarrow> False) members;
          expiryAt = (if china
            then nextForwardGroupChinaHealthExpiryAt parse True (map (health_row \<circ> em_row) eligible) (Some now) now
            else least_of (filter (\<lambda>t. now < t) (map (\<lambda>m. time_or_0 (fm_lastCheckedAt (em_row m)) + agent_health_ttl_ms)
              (filter (\<lambda>m. forwardGroupAgentHealthStateAt parse (health_row (em_row m)) (JNum now) = Healthy) eligible))));
          pendingAt = least_of (filter (\<lambda>t. now < t) (es_expiries s))
      in least_of (filter (\<lambda>t. now < t) (List.map_filter id [windowAt, expiryAt, pendingAt])))"

section \<open>Whether the selection still stands\<close>

text \<open>A later read: the state of the agents, and the rows of the members of the group.\<close>

type_synonym entry_read = "(int \<Rightarrow> liveness_signature) \<times> failover_member list"

fun same_agents :: "(int, agent_liveness) jmap \<Rightarrow> (int \<Rightarrow> liveness_signature) \<Rightarrow> entry_member list \<Rightarrow> bool" where
  "same_agents initial current [] \<longleftrightarrow> True"
| "same_agents initial current (m # ms) \<longleftrightarrow>
     (case jm_get initial (em_id m) of None \<Rightarrow> same_agents initial current ms
      | Some l \<Rightarrow> current (em_id m) = al_signature l \<and> same_agents initial current ms)"

fun same_rows :: "bool \<Rightarrow> (int, string \<times> rat) jmap \<Rightarrow> failover_member list \<Rightarrow> int list \<Rightarrow> bool" where
  "same_rows china initial [] seen \<longleftrightarrow> length seen = length initial"
| "same_rows china initial (row # rows) seen \<longleftrightarrow>
     (case jm_get initial (fm_id row) of None \<Rightarrow> same_rows china initial rows seen
      | Some k \<Rightarrow> health_key china row = k \<and> same_rows china initial rows (set_add (fm_id row) seen))"

definition agentSelectionStillCurrent :: "bool \<Rightarrow> entry_member list \<Rightarrow> entry_scan \<Rightarrow> entry_read \<Rightarrow> bool" where
  "agentSelectionStillCurrent china members s later \<longleftrightarrow>
     same_agents (es_liveness s) (fst later) members \<and>
     (es_healthSnapshot s = [] \<or> same_rows china (es_healthSnapshot s) (snd later) [])"

section \<open>The run\<close>

definition no_entry_reason :: "failover_group \<Rightarrow> entry_scan \<Rightarrow> hold_reason" where
  "no_entry_reason g s = (if es_excluded s \<noteq> [] then No_Healthy_Entry (fg_recordType g) else No_Entry (fg_recordType g))"

definition syncEntryGroupDdns ::
  "(string \<Rightarrow> string option) \<Rightarrow> (string \<Rightarrow> rat option) \<Rightarrow> ddns_settings \<Rightarrow> failover_options \<Rightarrow> entry_member list \<Rightarrow>
     entry_read \<times> entry_read \<times> entry_read \<Rightarrow> dns_answer \<Rightarrow> string \<Rightarrow> bool \<Rightarrow> (string \<times> bool) list \<Rightarrow> rat \<Rightarrow> failover_world \<Rightarrow>
     run_result \<times> failover_world \<times> entry_scan" where
  "syncEntryGroupDdns ipv6 parse settings options allMembers later dns errorText quotaExcluded holders now w0 =
     (let (later1, later2, later3) = later;
          g = fw_group w0;
          china = dbBool False (fg_chinaHealthCheckEnabled g);
          members = sortedMembers allMembers;
          s = entry_scan_members parse now g china members no_entries;
          w = log_event (Recheck (entry_recheck parse now g china members s)) w0;
          joined = js_join (CHR '','') (es_values s);
          previousValue = js_trim (fg_lastDdnsValue g);
          out = length (es_excluded s);
          update = (\<lambda>patch. snd (updateForwardGroupRuntimeIfChanged now patch w));
          retry = log_event Rescheduled
      in if es_trafficExcluded s = 0 \<and> es_pending s \<and> (es_values s = [] \<or> joined = previousValue)
         then (Run_Done, update (\<lambda>g. g\<lparr>fg_lastStatus := ''unknown'', fg_lastMessage := Msg_Waiting_Agent\<rparr>), s)
         else if js_trim (fg_domain g) = []
         then (Run_Done, update (\<lambda>g. g\<lparr>fg_lastStatus := ''error'', fg_lastMessage := Msg_No_Entry_Domain\<rparr>), s)
         else if \<not> agentSelectionStillCurrent china members s later1 then (Run_Done, retry w, s)
         else if es_values s = []
         then (if fg_ddnsAutoResolveOff g
               then (Run_Done, update (\<lambda>g. g\<lparr>fg_activeMemberId := None, fg_lastStatus := ''down'',
                       fg_lastMessage := Msg_Clean_Up (no_entry_reason g s)\<rparr>), s)
               else (let (r, w') = preserveForwardGroupDdns ipv6 settings options quotaExcluded holders dns errorText now (no_entry_reason g s) w
                     in (r, w', s)))
         else if fg_ddnsAutoResolveOff g
         then (Run_Done, update_and_log now (\<lambda>g. g\<lparr>fg_activeMemberId := es_active s, fg_lastDdnsValue := joined, fg_lastStatus := ''healthy'',
                 fg_lastMessage := Msg_Point_Manually (fg_domain g) (es_values s) out\<rparr>) (Logged None ''ddns-skip'') w, s)
         else if ddns_off settings
         then (Run_Done, update_and_log now (\<lambda>g. g\<lparr>fg_activeMemberId := es_active s, fg_lastDdnsValue := joined, fg_lastStatus := ''healthy'',
                 fg_lastMessage := Msg_Entries_Suggested (es_values s) out\<rparr>) (Logged None ''ddns-skip'') w, s)
         else if \<not> fo_forceSync options \<and> fg_lastDdnsValue g = joined \<and> \<not> exactDdnsReconciliationDue w joined
         then (Run_Done, update (\<lambda>g. g\<lparr>fg_lastStatus := ''healthy'',
                 fg_lastMessage := Msg_Entries_Current (length (es_included s)) out\<rparr>), s)
         else if \<not> agentSelectionStillCurrent china members s later2 then (Run_Done, retry w, s)
         else
           (case dns of
              Dns_Refused vs \<Rightarrow>
                (Run_Throw, log_event (Logged None ''ddns-error'')
                   (w\<lparr>fw_dns := vs, fw_group := g\<lparr>fg_lastStatus := ''error'', fg_lastMessage := Msg_Error errorText,
                      fg_updatedAt := stored now\<rparr>\<rparr>), s)
            | Dns_Done \<Rightarrow>
                (let w1 = w\<lparr>fw_dns := es_values s\<rparr> in
                 if \<not> agentSelectionStillCurrent china members s later3 then (Run_Done, retry w1, s)
                 else
                   (let w2 = rememberExactDdnsReconciliation joined w1;
                        w3 = log_event (Logged None ''ddns-update'')
                          (w2\<lparr>fw_group := g\<lparr>fg_activeMemberId := es_active s, fg_lastDdnsValue := joined, fg_lastDdnsAt := stored now,
                             fg_lastFailoverAt := stored now, fg_lastStatus := ''healthy'',
                             fg_lastMessage := Msg_Entries_Synced (length (es_included s)) out, fg_updatedAt := stored now\<rparr>\<rparr>)
                    in (Run_Done,
                        if fg_switchNotify g \<and> \<not> switchNotifySuppressed options \<and> previousValue \<noteq> [] \<and> previousValue \<noteq> joined
                        then log_event Notified w3 else w3, s)))))"

section \<open>Groups of exits\<close>

text \<open>A member with the host it stands for; an exit group only names its first host that has traffic left.\<close>

definition markExitGroupReady :: "(failover_member \<times> int) list \<Rightarrow> int set \<Rightarrow> rat \<Rightarrow> failover_world \<Rightarrow> failover_world" where
  "markExitGroupReady allMembers excluded now w =
     (let members = filter (\<lambda>(m, h). h \<notin> excluded)
            (filter (\<lambda>(m, h). dbBool False (fm_isEnabled m)) (sort_key (\<lambda>(m, h). fm_priority m) allMembers))
      in snd (updateForwardGroupRuntimeIfChanged now
           (\<lambda>g. g\<lparr>fg_activeMemberId := (case members of [] \<Rightarrow> None | (m, h) # _ \<Rightarrow> if fm_id m = 0 then None else Some (fm_id m)),
              fg_lastStatus := (if members \<noteq> [] then ''healthy'' else ''down''), fg_lastMessage := Msg_Exits (members \<noteq> [])\<rparr>) w))"

lemma exit_group_active:
  assumes "fg_activeMemberId (fw_group (markExitGroupReady allMembers excluded now w)) = Some i"
  shows "\<exists>(m, h) \<in> set allMembers. fm_id m = i \<and> h \<notin> excluded \<and> dbBool False (fm_isEnabled m)"
proof -
  let ?members = "filter (\<lambda>(m, h). h \<notin> excluded)
            (filter (\<lambda>(m, h). dbBool False (fm_isEnabled m)) (sort_key (\<lambda>(m, h). fm_priority m) allMembers))"
  have "(case ?members of [] \<Rightarrow> None | (m, h) # _ \<Rightarrow> if fm_id m = 0 then None else Some (fm_id m)) = Some i"
    using assms by (simp add: markExitGroupReady_def Let_def update_active)
  then obtain m h rest where "?members = (m, h) # rest" "fm_id m = i" by (auto split: list.splits if_splits)
  moreover from this(1) have "(m, h) \<in> set ?members" by (simp only: list.set_intros)
  then have "(m, h) \<in> set allMembers" "h \<notin> excluded" "dbBool False (fm_isEnabled m)" by auto
  ultimately show ?thesis by (intro bexI [of _ "(m, h)"]) auto
qed

section \<open>What is published\<close>

text \<open>The addresses of a member, and the members that join: said without the loop.\<close>

definition addresses :: "entry_member \<Rightarrow> string list" where
  "addresses m = splitForwardGroupDdnsValues (em_value m)"

definition takes_part :: "entry_member \<Rightarrow> bool" where
  "takes_part m \<longleftrightarrow> em_isHost m \<and> em_value m \<noteq> [] \<and> \<not> al_trafficExcluded (em_liveness m)"

definition was_unhealthy :: "failover_member \<Rightarrow> bool" where
  "was_unhealthy row \<longleftrightarrow> status_or_unknown (fm_healthStatus row) = ''unhealthy'' \<or> fm_failureSince row \<noteq> None"

text \<open>The moment a failing member is taken to fail from: the earlier of the recorded one and the observed one.\<close>

definition failing_from :: "rat \<Rightarrow> failover_member \<Rightarrow> rat option \<Rightarrow> rat" where
  "failing_from now row observed =
     (case (fm_failureSince row, observed) of
        (Some t, Some t') \<Rightarrow> min t t' | (Some t, None) \<Rightarrow> t | (None, Some t') \<Rightarrow> t' | (None, None) \<Rightarrow> now)"

definition joins :: "(string \<Rightarrow> rat option) \<Rightarrow> rat \<Rightarrow> failover_group \<Rightarrow> bool \<Rightarrow> entry_member \<Rightarrow> bool" where
  "joins parse now g china m \<longleftrightarrow>
     (let (health, observed, _) = entry_verdict parse now g china m; row = em_row m; published = previously_included g m in
      takes_part m \<and>
      (case health of
         Entry_State Pending \<Rightarrow> published
       | Entry_State Healthy \<Rightarrow>
           published \<or> \<not> was_unhealthy row \<or>
           forwardGroupRecoverDelayMs g \<le> now - (case fm_healthySince row of Some t \<Rightarrow> t | None \<Rightarrow> now)
       | _ \<Rightarrow> published \<and>
           now - failing_from now row (observed_failure now health (checked_at china row) observed) < forwardGroupFailoverDelayMs g))"

definition published :: "(string \<Rightarrow> rat option) \<Rightarrow> rat \<Rightarrow> failover_group \<Rightarrow> bool \<Rightarrow> entry_member list \<Rightarrow> entry_member list" where
  "published parse now g china ms =
     (let js = filter (joins parse now g china) ms in if fg_recordType g = Rec_CNAME then take 1 js else js)"

lemma js_uniq_snoc: "js_uniq (xs @ [x]) = set_add x (js_uniq xs)"
  by (simp add: js_uniq_def set_add_def)

lemma js_uniq_foldl: "foldl (\<lambda>vs v. set_add v vs) (js_uniq xs) ys = js_uniq (xs @ ys)"
  by (induction ys rule: rev_induct) (simp_all add: js_uniq_snoc flip: append_assoc)

lemma includeMember_fields [simp]:
  "es_values (includeMember m s) = foldl (\<lambda>vs v. set_add v vs) (es_values s) (addresses m)"
  "es_active (includeMember m s) = (case es_active s of None \<Rightarrow> (if em_id m = 0 then None else Some (em_id m)) | Some a \<Rightarrow> Some a)"
  by (simp_all add: includeMember_def addresses_def)

lemma exclude_value_fields [simp]:
  "es_values (exclude_value v s) = es_values s" "es_active (exclude_value v s) = es_active s"
  by (simp_all add: exclude_value_def)

lemma entry_window_joins:
  "ew_include (entry_window_of now g p healthy observed row) =
     (if healthy then p \<or> \<not> was_unhealthy row \<or>
        forwardGroupRecoverDelayMs g \<le> now - (case fm_healthySince row of Some t \<Rightarrow> t | None \<Rightarrow> now)
      else p \<and> now - failing_from now row observed < forwardGroupFailoverDelayMs g)"
  by (auto simp: entry_window_of_def was_unhealthy_def failing_from_def Let_def min_def not_le split: option.splits)

lemma entry_turn_joins:
  assumes "entry_turn parse now g china m s = (s', stop)"
  shows "es_values s' = (if joins parse now g china m then foldl (\<lambda>vs v. set_add v vs) (es_values s) (addresses m) else es_values s)"
    and "es_active s' = (if joins parse now g china m
           then (case es_active s of None \<Rightarrow> (if em_id m = 0 then None else Some (em_id m)) | Some a \<Rightarrow> Some a) else es_active s)"
    and "stop \<longleftrightarrow> fg_recordType g = Rec_CNAME \<and> joins parse now g china m"
proof -
  obtain health observed expiry where v: "entry_verdict parse now g china m = (health, observed, expiry)" by (metis surj_pair)
  have "es_values s' = (if joins parse now g china m then foldl (\<lambda>vs v. set_add v vs) (es_values s) (addresses m) else es_values s) \<and>
    es_active s' = (if joins parse now g china m
       then (case es_active s of None \<Rightarrow> (if em_id m = 0 then None else Some (em_id m)) | Some a \<Rightarrow> Some a) else es_active s) \<and>
    (stop \<longleftrightarrow> fg_recordType g = Rec_CNAME \<and> joins parse now g china m)"
  proof (cases "takes_part m")
    case False
    then show ?thesis using assms v
      by (auto simp: entry_turn_def joins_def takes_part_def Let_def split: if_splits)
  next
    case True
    then have t: "\<not> (\<not> em_isHost m \<or> em_value m = [])" "\<not> al_trafficExcluded (em_liveness m)" by (simp_all add: takes_part_def)
    note S = assms [unfolded entry_turn_def Let_def if_not_P [OF t(1)] if_not_P [OF t(2)] v prod.case]
    show ?thesis
    proof (cases "health = Entry_State Pending")
      case P: True
      then show ?thesis using S True v by (auto simp: joins_def split: if_splits option.splits)
    next
      case P: False
      note S' = S [unfolded if_not_P [OF P]]
      have j: "joins parse now g china m \<longleftrightarrow>
          ew_include (entry_window_of now g (previously_included g m) (health = Entry_State Healthy)
            (observed_failure now health (checked_at china (em_row m)) observed) (em_row m))"
        using True P v unfolding joins_def entry_window_joins
        by (cases health) (auto simp: Let_def split: health_state.splits)
      show ?thesis using S' unfolding j by (auto split: option.splits if_splits)
    qed
  qed
  then show "es_values s' = (if joins parse now g china m then foldl (\<lambda>vs v. set_add v vs) (es_values s) (addresses m) else es_values s)"
    "es_active s' = (if joins parse now g china m
       then (case es_active s of None \<Rightarrow> (if em_id m = 0 then None else Some (em_id m)) | Some a \<Rightarrow> Some a) else es_active s)"
    "stop \<longleftrightarrow> fg_recordType g = Rec_CNAME \<and> joins parse now g china m"
    by blast+
qed

lemma entry_scan_published:
  assumes "es_values s = js_uniq acc"
  shows "es_values (entry_scan_members parse now g china ms s) =
    js_uniq (acc @ concat (map addresses (published parse now g china ms)))"
  using assms
proof (induction ms arbitrary: s acc)
  case (Cons m ms)
  obtain s' stop where t: "entry_turn parse now g china m s = (s', stop)" by (metis surj_pair)
  note T = entry_turn_joins [OF t]
  show ?case
  proof (cases "joins parse now g china m")
    case True
    then have v: "es_values s' = js_uniq (acc @ addresses m)" using T(1) Cons.prems by (simp add: js_uniq_foldl)
    show ?thesis
    proof (cases "fg_recordType g = Rec_CNAME")
      case cname: True
      then show ?thesis using T(3) True v t by (simp add: published_def)
    next
      case False
      then have "\<not> stop" using T(3) by simp
      then show ?thesis using t Cons.IH [OF v] True False by (simp add: published_def)
    qed
  next
    case False
    then have "\<not> stop" "es_values s' = js_uniq acc" using T Cons.prems by simp_all
    then show ?thesis using t Cons.IH [of s' acc] False by (simp add: published_def)
  qed
qed (simp add: published_def)

lemma entry_scan_active:
  assumes "\<And>m. m \<in> set ms \<Longrightarrow> em_id m \<noteq> 0"
  shows "es_active (entry_scan_members parse now g china ms s) =
    (case es_active s of Some a \<Rightarrow> Some a | None \<Rightarrow> map_option em_id (first_of (published parse now g china ms)))"
  using assms
proof (induction ms arbitrary: s)
  case (Cons m ms)
  obtain s' stop where t: "entry_turn parse now g china m s = (s', stop)" by (metis surj_pair)
  note T = entry_turn_joins [OF t]
  have m: "em_id m \<noteq> 0" using Cons.prems by simp
  note IH = Cons.IH [of s'] Cons.prems
  show ?case
  proof (cases "joins parse now g china m")
    case True
    then have v: "es_active s' = (case es_active s of None \<Rightarrow> Some (em_id m) | Some a \<Rightarrow> Some a)" using T(2) m by simp
    have p: "first_of (published parse now g china (m # ms)) = Some m" using True by (simp add: published_def first_of_def Let_def)
    show ?thesis using t v IH unfolding p by (cases stop; cases "es_active s") simp_all
  next
    case False
    then have "\<not> stop" "es_active s' = es_active s" "published parse now g china (m # ms) = published parse now g china ms"
      using T by (simp_all add: published_def)
    then show ?thesis using t IH by (cases "es_active s") simp_all
  qed
qed (simp add: published_def first_of_def split: option.split)



section \<open>What the run leaves\<close>

text \<open>A run that came to an end: not put off by a change of the selection or a pending verdict, and not held.\<close>

definition put_off :: "failover_world \<Rightarrow> failover_world \<Rightarrow> bool" where
  "put_off w w' \<longleftrightarrow> (\<exists>es. fw_log w' = fw_log w @ es @ [Rescheduled])"

definition entry_waits :: "failover_group \<Rightarrow> entry_scan \<Rightarrow> bool" where
  "entry_waits g s \<longleftrightarrow> es_trafficExcluded s = 0 \<and> es_pending s \<and>
     (es_values s = [] \<or> js_join (CHR '','') (es_values s) = js_trim (fg_lastDdnsValue g))"

lemma log_event_log [simp]: "fw_log (log_event e w) = fw_log w @ [e]"
  by (simp add: log_event_def)

text \<open>The five ways a run goes on once it has addresses and neither waits nor has its updates turned off.\<close>

lemma entry_run_cases:
  fixes w0 :: failover_world
  assumes "syncEntryGroupDdns ipv6 parse settings options allMembers (l1, l2, l3) dns err quotaExcluded holders now w0 = (r, w', s)"
    and "\<not> ddns_off settings" "\<not> fg_ddnsAutoResolveOff (fw_group w0)" "js_trim (fg_domain (fw_group w0)) \<noteq> []"
    and "es_values s \<noteq> []" "\<not> entry_waits (fw_group w0) s"
  defines "joined \<equiv> js_join (CHR '','') (es_values s)"
  obtains (later) "r = Run_Done" "put_off w0 w'" "fw_group w' = fw_group w0" "fw_dns w' = fw_dns w0" "fw_reconciled w' = fw_reconciled w0"
    | (current) "r = Run_Done" "fg_lastDdnsValue (fw_group w0) = joined" "\<not> exactDdnsReconciliationDue w0 joined"
        "fw_dns w' = fw_dns w0" "fw_reconciled w' = fw_reconciled w0" "fg_lastStatus (fw_group w') = ''healthy''"
        "fg_lastDdnsValue (fw_group w') = joined" "fg_activeMemberId (fw_group w') = fg_activeMemberId (fw_group w0)"
        "exactDdnsSignature (fw_group w') = exactDdnsSignature (fw_group w0)" "fg_id (fw_group w') = fg_id (fw_group w0)"
    | (refused) vs where "r = Run_Throw" "dns = Dns_Refused vs" "fw_dns w' = vs" "fw_reconciled w' = fw_reconciled w0"
        "fg_lastStatus (fw_group w') = ''error''" "fg_lastDdnsValue (fw_group w') = fg_lastDdnsValue (fw_group w0)"
        "fg_activeMemberId (fw_group w') = fg_activeMemberId (fw_group w0)"
    | (abandoned) "r = Run_Done" "dns = Dns_Done" "put_off w0 w'" "fw_group w' = fw_group w0" "fw_dns w' = es_values s"
        "fw_reconciled w' = fw_reconciled w0"
    | (synced) "r = Run_Done" "dns = Dns_Done" "fw_dns w' = es_values s"
        "fw_reconciled w' = jm_set (fg_id (fw_group w0)) (exactDdnsSignature (fw_group w0) joined) (fw_reconciled w0)"
        "fg_lastStatus (fw_group w') = ''healthy''" "fg_lastDdnsValue (fw_group w') = joined" "fg_activeMemberId (fw_group w') = es_active s"
        "exactDdnsSignature (fw_group w') = exactDdnsSignature (fw_group w0)" "fg_id (fw_group w') = fg_id (fw_group w0)"
proof -
  let ?g = "fw_group w0"
  let ?china = "dbBool False (fg_chinaHealthCheckEnabled ?g)"
  let ?members = "sortedMembers allMembers"
  let ?s = "entry_scan_members parse now ?g ?china ?members no_entries"
  note R = assms(1) [unfolded syncEntryGroupDdns_def Let_def prod.case]
  have s: "s = ?s" using R by (auto split: if_splits prod.splits dns_answer.splits)
  have n: "\<not> (es_trafficExcluded ?s = 0 \<and> es_pending ?s \<and>
      (es_values ?s = [] \<or> js_join (CHR '','') (es_values ?s) = js_trim (fg_lastDdnsValue ?g)))"
    "js_trim (fg_domain ?g) \<noteq> []" "es_values ?s \<noteq> []"
    using assms(4,5,6) unfolding entry_waits_def s by simp_all
  note R' = R [unfolded if_not_P [OF n(1)] if_not_P [OF n(2)] if_not_P [OF n(3)] if_not_P [OF assms(3)] if_not_P [OF assms(2)]]
  let ?w = "log_event (Recheck (entry_recheck parse now ?g ?china ?members ?s)) w0"
  have due: "exactDdnsReconciliationDue ?w v = exactDdnsReconciliationDue w0 v" for v by (simp add: exactDdnsReconciliationDue_def)
  consider (one) "\<not> agentSelectionStillCurrent ?china ?members ?s l1"
    | (cur) "agentSelectionStillCurrent ?china ?members ?s l1"
        "\<not> fo_forceSync options \<and> fg_lastDdnsValue ?g = joined \<and> \<not> exactDdnsReconciliationDue w0 joined"
    | (two) "agentSelectionStillCurrent ?china ?members ?s l1"
        "\<not> (\<not> fo_forceSync options \<and> fg_lastDdnsValue ?g = joined \<and> \<not> exactDdnsReconciliationDue w0 joined)"
        "\<not> agentSelectionStillCurrent ?china ?members ?s l2"
    | (go) "agentSelectionStillCurrent ?china ?members ?s l1"
        "\<not> (\<not> fo_forceSync options \<and> fg_lastDdnsValue ?g = joined \<and> \<not> exactDdnsReconciliationDue w0 joined)"
        "agentSelectionStillCurrent ?china ?members ?s l2"
    by blast
  then show thesis
  proof cases
    case one
    have "r = Run_Done" "w' = log_event Rescheduled ?w" using R' unfolding if_P [OF one] by auto
    then show thesis by (intro later) (auto simp: put_off_def)
  next
    case cur
    note R1 = R' [unfolded if_not_P [OF not_not [THEN iffD2, OF cur(1)]]]
    let ?p = "\<lambda>g. g\<lparr>fg_lastStatus := ''healthy'', fg_lastMessage := Msg_Entries_Current (length (es_included ?s)) (length (es_excluded ?s))\<rparr>"
    have r: "r = Run_Done" "w' = snd (updateForwardGroupRuntimeIfChanged now ?p ?w)" using R1 cur(2) due unfolding joined_def s by auto
    obtain t where t: "fw_group w' = (?p (fw_group ?w))\<lparr>fg_updatedAt := t\<rparr>"
      using update_if_changed_group [of now ?p ?w] unfolding r(2) by blast
    show thesis by (rule current) (use r cur(2) t in \<open>simp_all add: exactDdnsSignature_def fun_eq_iff\<close>)
  next
    case two
    note R1 = R' [unfolded if_not_P [OF not_not [THEN iffD2, OF two(1)]]]
    have "r = Run_Done" "w' = log_event Rescheduled ?w" using R1 two(2,3) due unfolding joined_def s by auto
    then show thesis by (intro later) (auto simp: put_off_def)
  next
    case go
    note R1 = R' [unfolded if_not_P [OF not_not [THEN iffD2, OF go(1)]]]
    have n: "\<not> (\<not> fo_forceSync options \<and> fg_lastDdnsValue ?g = js_join (CHR '','') (es_values ?s) \<and>
        \<not> exactDdnsReconciliationDue ?w (js_join (CHR '','') (es_values ?s)))"
      using go(2) due unfolding joined_def s by simp
    note R2 = R1 [unfolded if_not_P [OF n] if_not_P [OF not_not [THEN iffD2, OF go(3)]]]
    show thesis
    proof (cases dns)
      case (Dns_Refused vs)
      then show thesis using R2 by (intro refused [of vs]) auto
    next
      case Dns_Done
      note R3 = R2 [unfolded Dns_Done dns_answer.case]
      show thesis
      proof (cases "agentSelectionStillCurrent ?china ?members ?s l3")
        case False
        then have "r = Run_Done" "w' = log_event Rescheduled (?w\<lparr>fw_dns := es_values ?s\<rparr>)" using R3 by auto
        then show thesis using Dns_Done s by (intro abandoned) (auto simp: put_off_def)
      next
        case True
        have "fw_dns w' = es_values s"
          "fw_reconciled w' = jm_set (fg_id ?g) (exactDdnsSignature ?g joined) (fw_reconciled w0)"
          "fg_lastStatus (fw_group w') = ''healthy''" "fg_lastDdnsValue (fw_group w') = joined" "fg_activeMemberId (fw_group w') = es_active s"
          "exactDdnsSignature (fw_group w') = exactDdnsSignature ?g" "fg_id (fw_group w') = fg_id ?g" "r = Run_Done"
          using R3 True unfolding joined_def s
          by (auto simp: rememberExactDdnsReconciliation_def exactDdnsSignature_def fun_eq_iff split: if_splits)
        then show thesis using Dns_Done by (intro synced)
      qed
    qed
  qed
qed


section \<open>Witnesses\<close>

definition demo_entry :: entry_member where
  "demo_entry = \<lparr>em_row = (demo_member 2 2)\<lparr>fm_healthStatus := JStr ''healthy'', fm_lastCheckedAt := Some 2000000\<rparr>, em_isHost = True,
     em_value = ''2.2.2.2'', em_liveness = demo_liveness True\<rparr>"

definition demo_entries :: entry_scan where
  "demo_entries = entry_scan_members (\<lambda>_. None) 2000500 demo_group False [demo_entry] no_entries"


definition demo_later :: entry_read where
  "demo_later = ((\<lambda>_. al_signature (demo_liveness True)), [em_row demo_entry])"

definition demo_entry_run :: "run_result \<times> failover_world \<times> entry_scan" where
  "demo_entry_run = syncEntryGroupDdns (\<lambda>_. None) (\<lambda>_. None) demo_dns demo_options [demo_entry] (demo_later, demo_later, demo_later)
     Dns_Done [] False [] 2000500 demo_world"


end
