(* ===== verification/Agent_Challenges.thy ===== *)
theory Agent_Challenges
imports FX_Prelude "HOL-Library.Code_Target_Nat"
begin

text \<open>
  Challenges for the authentication of agents (\<open>server/agentAuthChallenge.ts\<close>).  A challenge is a time, 24 random bytes and
  a code over both, in base64url; the panel keeps no list of the challenges it gave out, only of those that were used.

  Bytes are numbers below 256.  The random bytes and the keyed hash, SHA-256 with a secret of the process, are arguments; the
  theorems ask of the hash only that it returns 32 bytes.
\<close>

section \<open>Bytes and base64url\<close>

definition base64url_char :: "nat \<Rightarrow> char" where
  "base64url_char n =
     char_of (if n < 26 then 65 + n else if n < 52 then 71 + n else if n < 62 then n - 4 else if n = 62 then 45 else (95 :: nat))"

definition base64url_value :: "char \<Rightarrow> nat option" where
  "base64url_value c =
     (let n = of_char c :: nat in
      if 65 \<le> n \<and> n \<le> 90 then Some (n - 65) else if 97 \<le> n \<and> n \<le> 122 then Some (n - 71)
      else if 48 \<le> n \<and> n \<le> 57 then Some (n + 4) else if n = 45 then Some 62 else if n = 95 then Some 63 else None)"

fun bytes_to_sextets :: "nat list \<Rightarrow> nat list" where
  "bytes_to_sextets [] = []"
| "bytes_to_sextets [a] = [a div 4, (a mod 4) * 16]"
| "bytes_to_sextets [a, b] = [a div 4, (a mod 4) * 16 + b div 16, (b mod 16) * 4]"
| "bytes_to_sextets (a # b # c # r) = (a div 4) # ((a mod 4) * 16 + b div 16) # ((b mod 16) * 4 + c div 64) # (c mod 64) # bytes_to_sextets r"

fun sextets_to_bytes :: "nat list \<Rightarrow> nat list" where
  "sextets_to_bytes [] = []"
| "sextets_to_bytes [a] = []"
| "sextets_to_bytes [a, b] = [a * 4 + b div 16]"
| "sextets_to_bytes [a, b, c] = [a * 4 + b div 16, (b mod 16) * 16 + c div 4]"
| "sextets_to_bytes (a # b # c # d # r) = (a * 4 + b div 16) # ((b mod 16) * 16 + c div 4) # ((c mod 4) * 64 + d) # sextets_to_bytes r"

definition to_base64url :: "nat list \<Rightarrow> string" where
  "to_base64url bs = map base64url_char (bytes_to_sextets bs)"

definition from_base64url :: "string \<Rightarrow> nat list" where
  "from_base64url s = sextets_to_bytes (List.map_filter base64url_value s)"

section \<open>Challenges\<close>

definition challenge_random_bytes :: nat where "challenge_random_bytes = 24"
definition challenge_mac_bytes :: nat where "challenge_mac_bytes = 32"
definition challenge_payload_bytes :: nat where "challenge_payload_bytes = 8 + challenge_random_bytes"
definition challenge_bytes :: nat where "challenge_bytes = challenge_payload_bytes + challenge_mac_bytes"
definition challenge_validity_ms :: rat where "challenge_validity_ms = 600000"
definition challenge_future_tolerance_ms :: rat where "challenge_future_tolerance_ms = 1000"
definition cleanup_interval_ms :: rat where "cleanup_interval_ms = 10000"

text \<open>\<open>writeBigUInt64BE\<close> and \<open>readBigUInt64BE\<close>\<close>

definition be64 :: "nat \<Rightarrow> nat list" where
  "be64 n = map (\<lambda>k. (n div 256 ^ k) mod 256) [7, 6, 5, 4, 3, 2, 1, 0]"

definition be_value :: "nat list \<Rightarrow> nat" where
  "be_value bs = foldl (\<lambda>v b. v * 256 + b) 0 bs"

definition decodeChallenge :: "string \<Rightarrow> nat list option" where
  "decodeChallenge v =
     (if list_all (\<lambda>c. base64url_value c \<noteq> None) v \<and> 80 \<le> length v \<and> length v \<le> 100
      then (let decoded = from_base64url v in
            if length decoded \<noteq> challenge_bytes \<or> to_base64url decoded \<noteq> v then None else Some decoded)
      else None)"

type_synonym keyed_hash = "nat list \<Rightarrow> nat list"

definition issueAgentAuthChallenge :: "keyed_hash \<Rightarrow> nat list \<Rightarrow> rat \<Rightarrow> string" where
  "issueAgentAuthChallenge mac random nowMs =
     (let payload = be64 (nat (max 0 \<lfloor>nowMs\<rfloor>)) @ random in to_base64url (payload @ mac payload))"

definition issued_at :: "nat list \<Rightarrow> rat" where
  "issued_at decoded = of_nat (be_value (List.take 8 decoded))"

definition validateAgentAuthChallenge :: "keyed_hash \<Rightarrow> string \<Rightarrow> rat \<Rightarrow> bool" where
  "validateAgentAuthChallenge mac challenge nowMs =
     (case decodeChallenge challenge of
        None \<Rightarrow> False
      | Some decoded \<Rightarrow>
          (let payload = List.take challenge_payload_bytes decoded; receivedMac = drop challenge_payload_bytes decoded in
           receivedMac = mac payload \<and>
           (let ageMs = nowMs - issued_at decoded in - challenge_future_tolerance_ms \<le> ageMs \<and> ageMs \<le> challenge_validity_ms)))"

record challenge_cache =
  cc_consumed :: "(string, rat) jmap"
  cc_cleanupAt :: rat

definition no_challenges :: challenge_cache where
  "no_challenges = \<lparr>cc_consumed = [], cc_cleanupAt = 0\<rparr>"

definition cleanupConsumedChallenges :: "rat \<Rightarrow> challenge_cache \<Rightarrow> challenge_cache" where
  "cleanupConsumedChallenges nowMs s =
     (if nowMs < cc_cleanupAt s then s
      else s\<lparr>cc_cleanupAt := nowMs + cleanup_interval_ms, cc_consumed := jm_prune (\<lambda>_ expiresAt. expiresAt \<le> nowMs) (cc_consumed s)\<rparr>)"

definition consumeAgentAuthChallenge :: "keyed_hash \<Rightarrow> string \<Rightarrow> rat \<Rightarrow> challenge_cache \<Rightarrow> bool \<times> challenge_cache" where
  "consumeAgentAuthChallenge mac challenge nowMs s =
     (if \<not> validateAgentAuthChallenge mac challenge nowMs then (False, s)
      else
        (let s1 = cleanupConsumedChallenges nowMs s;
             existingExpiry = (case jm_get (cc_consumed s1) challenge of Some t \<Rightarrow> t | None \<Rightarrow> 0)
         in if nowMs < existingExpiry then (False, s1)
            else (True, s1\<lparr>cc_consumed := jm_set challenge (nowMs + challenge_validity_ms) (cc_consumed s1)\<rparr>)))"

text \<open>\<open>Number.parseInt(text, 10)\<close>: a sign and the longest run of digits.\<close>

definition js_parse_int :: "string \<Rightarrow> int option" where
  "js_parse_int s =
     (let t = js_trim s;
          (neg, body) = (case t of c # r \<Rightarrow> if c = CHR ''-'' then (True, r) else if c = CHR ''+'' then (False, r) else (False, t) | [] \<Rightarrow> (False, t));
          digits = takeWhile js_digit body
      in if digits = [] then None else Some (if neg then - int (digits_value digits) else int (digits_value digits)))"

definition challenge_count :: "jsval \<Rightarrow> nat" where
  "challenge_count countValue =
     (let n = (case js_parse_int (js_string (js_or countValue (JStr ''16''))) of Some n \<Rightarrow> if n = 0 then 16 else n | None \<Rightarrow> 16)
      in nat (min 32 (max 1 n)))"

definition issueAgentAuthChallenges :: "keyed_hash \<Rightarrow> (nat \<Rightarrow> nat list \<times> rat) \<Rightarrow> jsval \<Rightarrow> string list" where
  "issueAgentAuthChallenges mac draws countValue =
     map (\<lambda>i. issueAgentAuthChallenge mac (fst (draws i)) (snd (draws i))) [0..<challenge_count countValue]"

section \<open>Encoding and decoding\<close>

lemma base64url_value_char: "n < 64 \<Longrightarrow> base64url_value (base64url_char n) = Some n"
  by (auto simp: base64url_value_def base64url_char_def of_char_of Let_def)

lemma sextets_bounded: "\<forall>b \<in> set bs. b < 256 \<Longrightarrow> \<forall>s \<in> set (bytes_to_sextets bs). s < 64"
  by (induction bs rule: bytes_to_sextets.induct) auto

lemma sextets_roundtrip: "\<forall>b \<in> set bs. b < 256 \<Longrightarrow> sextets_to_bytes (bytes_to_sextets bs) = bs"
proof (induction bs rule: bytes_to_sextets.induct)
  case (3 a b)
  have "(a div 4) * 4 + ((a mod 4) * 16 + b div 16) div 16 = a" "((a mod 4) * 16 + b div 16) mod 16 * 16 + (b mod 16) * 4 div 4 = b"
    using 3 by (auto simp: div_add1_eq mod_add_eq)
  then show ?case by simp
next
  case (4 a b c r)
  have "(a div 4) * 4 + ((a mod 4) * 16 + b div 16) div 16 = a"
    "((a mod 4) * 16 + b div 16) mod 16 * 16 + ((b mod 16) * 4 + c div 64) div 4 = b"
    "((b mod 16) * 4 + c div 64) mod 4 * 64 + c mod 64 = c"
    using 4 by (auto simp: div_add1_eq mod_add_eq)
  then show ?case using 4 by simp
qed auto

lemma length_sextets: "length (bytes_to_sextets bs) = (4 * length bs + 2) div 3"
  by (induction bs rule: bytes_to_sextets.induct) auto

lemma base64url_roundtrip:
  assumes "\<forall>b \<in> set bs. b < 256"
  shows "from_base64url (to_base64url bs) = bs" "list_all (\<lambda>c. base64url_value c \<noteq> None) (to_base64url bs)"
proof -
  have "List.map_filter base64url_value (map base64url_char ss) = ss" if "\<forall>s \<in> set ss. s < 64" for ss
    using that by (induction ss) (auto simp: List.map_filter_def base64url_value_char)
  then show "from_base64url (to_base64url bs) = bs"
    unfolding from_base64url_def to_base64url_def using sextets_bounded [OF assms] sextets_roundtrip [OF assms] by simp
  show "list_all (\<lambda>c. base64url_value c \<noteq> None) (to_base64url bs)"
    using sextets_bounded [OF assms] by (auto simp: to_base64url_def list_all_iff base64url_value_char)
qed

lemma to_base64url_inject:
  "\<forall>b \<in> set bs. b < 256 \<Longrightarrow> \<forall>b \<in> set cs. b < 256 \<Longrightarrow> to_base64url bs = to_base64url cs \<longleftrightarrow> bs = cs"
  by (metis base64url_roundtrip(1))

lemma be_value_foldl: "foldl (\<lambda>v b. v * 256 + b) v bs = v * 256 ^ length bs + be_value bs"
proof (induction bs arbitrary: v)
  case (Cons b bs)
  have "be_value (b # bs) = b * 256 ^ length bs + be_value bs" using Cons.IH [of b] by (simp add: be_value_def)
  then show ?case using Cons.IH [of "v * 256 + b"] by (simp add: distrib_right)
qed (simp add: be_value_def)

lemma be_value_digits: "be_value (map (\<lambda>k. (n div 256 ^ k) mod 256) (rev [0..<m])) = n mod 256 ^ m"
proof (induction m)
  case (Suc m)
  have "be_value (map (\<lambda>k. (n div 256 ^ k) mod 256) (rev [0..<Suc m])) =
      (n div 256 ^ m) mod 256 * 256 ^ m + be_value (map (\<lambda>k. (n div 256 ^ k) mod 256) (rev [0..<m]))"
    using be_value_foldl [of "(n div 256 ^ m) mod 256" "map (\<lambda>k. (n div 256 ^ k) mod 256) (rev [0..<m])"]
    by (simp add: be_value_def)
  also have "\<dots> = n mod (256 ^ m * 256)" unfolding Suc by (simp add: mod_mult2_eq)
  finally show ?case by (simp add: mult.commute)
qed (simp add: be_value_def)

lemma be64_value: "n < 256 ^ 8 \<Longrightarrow> be_value (be64 n) = n"
proof -
  assume n: "n < 256 ^ 8"
  have "rev [0..<8] = [7, 6, 5, 4, 3, 2, 1, 0]" by code_simp
  then show ?thesis using be_value_digits [of n 8] n unfolding be64_def by (simp only: mod_less)
qed

lemma be64_bytes: "length (be64 n) = 8" "\<forall>b \<in> set (be64 n). b < 256"
  by (simp_all add: be64_def)

section \<open>A challenge is good once\<close>

text \<open>What is asked of the keyed hash: 32 bytes.\<close>

definition hash_ok :: "keyed_hash \<Rightarrow> bool" where
  "hash_ok mac \<longleftrightarrow> (\<forall>p. length (mac p) = 32 \<and> (\<forall>b \<in> set (mac p). b < 256))"

definition random_ok :: "nat list \<Rightarrow> bool" where
  "random_ok random \<longleftrightarrow> length random = 24 \<and> (\<forall>b \<in> set random. b < 256)"

lemma decode_issued:
  fixes nowMs :: rat
  assumes "hash_ok mac" "random_ok random"
  defines "payload \<equiv> be64 (nat (max 0 \<lfloor>nowMs\<rfloor>)) @ random"
  shows "decodeChallenge (issueAgentAuthChallenge mac random nowMs) = Some (payload @ mac payload)"
proof -
  let ?d = "payload @ mac payload"
  have b: "\<forall>b \<in> set ?d. b < 256" using assms(1,2) be64_bytes unfolding hash_ok_def random_ok_def payload_def by auto
  have l: "length ?d = 64" using assms(1,2) be64_bytes unfolding hash_ok_def random_ok_def payload_def by simp
  have "issueAgentAuthChallenge mac random nowMs = to_base64url ?d" by (simp add: issueAgentAuthChallenge_def payload_def Let_def)
  moreover have "length (to_base64url ?d) = 86" using l by (simp add: to_base64url_def length_sextets)
  ultimately show ?thesis
    using base64url_roundtrip [OF b] l
    by (simp add: decodeChallenge_def Let_def challenge_bytes_def challenge_payload_bytes_def challenge_random_bytes_def challenge_mac_bytes_def)
qed

text \<open>
  C36. A challenge that is given out is accepted from the moment of its issue, less the second of tolerance, to ten minutes after
  it, at these times and no others; and challenges with different random bytes are different.
\<close>

theorem challenge_roundtrip:
  assumes "hash_ok mac" "random_ok random" "random_ok random'" "0 \<le> nowMs" "nowMs < 256 ^ 8"
  shows "(validateAgentAuthChallenge mac (issueAgentAuthChallenge mac random nowMs) t \<longleftrightarrow>
      of_int \<lfloor>nowMs\<rfloor> - 1000 \<le> t \<and> t \<le> of_int \<lfloor>nowMs\<rfloor> + 600000) \<and>
    (random \<noteq> random' \<longrightarrow> issueAgentAuthChallenge mac random nowMs \<noteq> issueAgentAuthChallenge mac random' nowMs')"
proof -
  let ?n = "nat (max 0 \<lfloor>nowMs\<rfloor>)"
  let ?p = "be64 ?n @ random" and ?p' = "be64 (nat (max 0 \<lfloor>nowMs'\<rfloor>)) @ random'"
  have "\<lfloor>nowMs\<rfloor> < 256 ^ 8" using assms(5) by (simp add: floor_less_iff)
  then have "?n < 256 ^ 8" by (simp add: nat_less_iff)
  then have v: "issued_at (?p @ mac ?p) = of_int \<lfloor>nowMs\<rfloor>"
    using be64_value [of ?n] be64_bytes(1) assms(4) by (simp add: issued_at_def)
  have t: "List.take challenge_payload_bytes (?p @ mac ?p) = ?p" "drop challenge_payload_bytes (?p @ mac ?p) = mac ?p"
    using be64_bytes(1) assms(2) by (simp_all add: challenge_payload_bytes_def challenge_random_bytes_def random_ok_def)
  have "validateAgentAuthChallenge mac (issueAgentAuthChallenge mac random nowMs) t \<longleftrightarrow>
      of_int \<lfloor>nowMs\<rfloor> - 1000 \<le> t \<and> t \<le> of_int \<lfloor>nowMs\<rfloor> + 600000"
    unfolding validateAgentAuthChallenge_def decode_issued [OF assms(1,2)] option.case Let_def t v
    by (auto simp: challenge_future_tolerance_ms_def challenge_validity_ms_def)
  moreover have "random = random'" if "issueAgentAuthChallenge mac random nowMs = issueAgentAuthChallenge mac random' nowMs'"
  proof -
    have "?p @ mac ?p = ?p' @ mac ?p'"
      using that decode_issued [OF assms(1,2)] decode_issued [OF assms(1,3)] by (metis option.inject)
    then show ?thesis using be64_bytes(1) assms(2,3) by (simp add: random_ok_def)
  qed
  ultimately show ?thesis by blast
qed

text \<open>A history of attempts with their times and answers, by a clock that does not go back.\<close>

inductive challenge_run :: "keyed_hash \<Rightarrow> rat \<Rightarrow> challenge_cache \<Rightarrow> (string \<times> rat \<times> bool) list \<Rightarrow> bool" for mac where
  run_start: "challenge_run mac t no_challenges []"
| run_consume: "challenge_run mac t s tried \<Longrightarrow> t \<le> now \<Longrightarrow> consumeAgentAuthChallenge mac c now s = (r, s') \<Longrightarrow>
    challenge_run mac now s' (tried @ [(c, now, r)])"

lemma cleanup_get:
  assumes "jm_ok (cc_consumed s)"
  shows "jm_ok (cc_consumed (cleanupConsumedChallenges now s))"
    "jm_get (cc_consumed (cleanupConsumedChallenges now s)) c = Some e \<Longrightarrow> jm_get (cc_consumed s) c = Some e"
    "jm_get (cc_consumed s) c = Some e \<Longrightarrow> now < e \<Longrightarrow> jm_get (cc_consumed (cleanupConsumedChallenges now s)) c = Some e"
  using assms by (auto simp: cleanupConsumedChallenges_def jm_get_prune split: option.splits if_splits)

lemma run_inv:
  assumes "challenge_run mac t s tried"
  shows "jm_ok (cc_consumed s) \<and>
    (\<forall>c t1. (c, t1, True) \<in> set tried \<and> t < t1 + challenge_validity_ms \<longrightarrow>
       (\<exists>e. jm_get (cc_consumed s) c = Some e \<and> t1 + challenge_validity_ms \<le> e)) \<and>
    (\<forall>c e. jm_get (cc_consumed s) c = Some e \<longrightarrow> (\<exists>t1. (c, t1, True) \<in> set tried))"
  using assms
proof (induction rule: challenge_run.induct)
  case run_start
  show ?case by (simp add: no_challenges_def)
next
  case (run_consume t s tried now c r s')
  let ?V = challenge_validity_ms
  have ok: "jm_ok (cc_consumed s)"
    and old: "\<And>c t1. (c, t1, True) \<in> set tried \<Longrightarrow> t < t1 + ?V \<Longrightarrow> \<exists>e. jm_get (cc_consumed s) c = Some e \<and> t1 + ?V \<le> e"
    and tried: "\<And>c e. jm_get (cc_consumed s) c = Some e \<Longrightarrow> \<exists>t1. (c, t1, True) \<in> set tried"
    using run_consume.IH by blast+
  let ?s = "cleanupConsumedChallenges now s"
  note C = cleanup_get [OF ok, where now = now]
  have keep: "\<exists>e. jm_get (cc_consumed ?s) k = Some e \<and> t1 + ?V \<le> e" if k: "(k, t1, True) \<in> set tried" "now < t1 + ?V" for k t1
  proof -
    obtain e where "jm_get (cc_consumed s) k = Some e" "t1 + ?V \<le> e" using old [OF k(1)] k(2) run_consume.hyps(2) by auto
    then show ?thesis using C(3) [of k e] k(2) by auto
  qed
  show ?case
  proof (cases "validateAgentAuthChallenge mac c now")
    case False
    then have "r = False" "s' = s" using run_consume.hyps(3) by (simp_all add: consumeAgentAuthChallenge_def)
    then show ?thesis using ok old tried run_consume.hyps(2) by fastforce
  next
    case valid: True
    let ?old = "case jm_get (cc_consumed ?s) c of Some t \<Rightarrow> t | None \<Rightarrow> 0"
    show ?thesis
    proof (cases "now < ?old")
      case True
      then have "r = False" "s' = ?s" using run_consume.hyps(3) valid by (simp_all add: consumeAgentAuthChallenge_def Let_def)
      then show ?thesis using C(1,2) keep tried by fastforce
    next
      case False
      then have r: "r = True" "s' = ?s\<lparr>cc_consumed := jm_set c (now + ?V) (cc_consumed ?s)\<rparr>"
        using run_consume.hyps(3) valid by (simp_all add: consumeAgentAuthChallenge_def Let_def)
      have "\<exists>e. jm_get (cc_consumed s') k = Some e \<and> t1 + ?V \<le> e"
        if k: "(k, t1, True) \<in> set (tried @ [(c, now, r)])" "now < t1 + ?V" for k t1
      proof (cases "k = c")
        case True
        have "t1 \<le> now"
        proof (cases "(k, t1, True) \<in> set tried")
          case True
          then obtain e where "jm_get (cc_consumed ?s) c = Some e" "t1 + ?V \<le> e" using keep [OF True k(2)] \<open>k = c\<close> by blast
          then show ?thesis using False k(2) by simp
        qed (use k(1) in auto)
        then show ?thesis using True r(2) by simp
      next
        case False
        then have "(k, t1, True) \<in> set tried" using k(1) by auto
        then show ?thesis using keep [OF _ k(2)] False r(2) by simp
      qed
      moreover have "\<exists>t1. (k, t1, True) \<in> set (tried @ [(c, now, r)])" if "jm_get (cc_consumed s') k = Some e" for k e
        using that r tried C(2) by (cases "k = c") auto
      ultimately show ?thesis using C(1) r(2) by simp
    qed
  qed
qed

text \<open>
  C20. A challenge is good exactly once.  After any history of attempts, one that presents it is accepted exactly when the challenge
  is valid at that time and no attempt was accepted before, provided the earlier acceptance came after the millisecond of the issue.
\<close>

theorem challenge_single_use:
  assumes "challenge_run mac t s tried" "t \<le> now" "decodeChallenge c = Some decoded"
    and "\<And>t1. (c, t1, True) \<in> set tried \<Longrightarrow> issued_at decoded < t1"
    and "0 \<le> now"
  shows "fst (consumeAgentAuthChallenge mac c now s) \<longleftrightarrow>
    validateAgentAuthChallenge mac c now \<and> \<not> (\<exists>t1. (c, t1, True) \<in> set tried)"
proof (cases "validateAgentAuthChallenge mac c now")
  case True
  note I = run_inv [OF assms(1)]
  then have ok: "jm_ok (cc_consumed s)" by blast
  note C = cleanup_get [OF ok, where now = now]
  have age: "now - issued_at decoded \<le> challenge_validity_ms"
    using True assms(3) by (simp add: validateAgentAuthChallenge_def Let_def)
  show ?thesis
  proof (cases "\<exists>t1. (c, t1, True) \<in> set tried")
    case used: True
    then obtain t1 where t1: "(c, t1, True) \<in> set tried" by blast
    have "now < t1 + challenge_validity_ms" using age assms(4) [OF t1] by linarith
    then obtain e where e: "jm_get (cc_consumed s) c = Some e" "now < e" using I t1 assms(2) by (meson le_less_trans less_le_trans)
    then have "jm_get (cc_consumed (cleanupConsumedChallenges now s)) c = Some e" by (rule C(3))
    then show ?thesis using used e(2) True by (simp add: consumeAgentAuthChallenge_def Let_def)
  next
    case False
    have g: "jm_get (cc_consumed (cleanupConsumedChallenges now s)) c = None"
    proof (cases "jm_get (cc_consumed (cleanupConsumedChallenges now s)) c")
      case (Some e)
      then show ?thesis using C(2) [of c e] I False by blast
    qed
    then show ?thesis using True False assms(5) by (simp add: consumeAgentAuthChallenge_def Let_def)
  qed
qed (simp add: consumeAgentAuthChallenge_def)

section \<open>Witnesses\<close>

definition demo_hash :: keyed_hash where
  "demo_hash p = replicate 32 (foldl (\<lambda>v b. (v + b) mod 256) 7 p)"

definition demo_random :: "nat list" where
  "demo_random = replicate 24 200"

lemma demo_hash_ok: "hash_ok demo_hash" "random_ok demo_random" "random_ok (replicate 24 0)"
proof -
  have "foldl (\<lambda>v b. (v + b) mod 256) v p < (256 :: nat)" if "v < 256" for v p
    using that by (induction p arbitrary: v) simp_all
  then show "hash_ok demo_hash" by (simp add: hash_ok_def demo_hash_def)
qed (simp_all add: random_ok_def demo_random_def)

definition demo_challenge :: string where
  "demo_challenge = issueAgentAuthChallenge demo_hash demo_random 5000"

theorem challenge_roundtrip_witness:
  "validateAgentAuthChallenge demo_hash demo_challenge 6000 \<and> \<not> validateAgentAuthChallenge demo_hash demo_challenge 700000"
  using challenge_roundtrip [OF demo_hash_ok, of 5000 6000 0] challenge_roundtrip [OF demo_hash_ok, of 5000 700000 0]
  by (simp add: demo_challenge_def)

theorem challenge_single_use_witness:
  "\<exists>s. fst (consumeAgentAuthChallenge demo_hash demo_challenge 6000 no_challenges) \<and>
     s = snd (consumeAgentAuthChallenge demo_hash demo_challenge 6000 no_challenges) \<and>
     \<not> fst (consumeAgentAuthChallenge demo_hash demo_challenge 6500 s)"
proof -
  let ?r = "consumeAgentAuthChallenge demo_hash demo_challenge 6000 no_challenges"
  let ?d = "(be64 (nat (max 0 \<lfloor>5000 :: rat\<rfloor>)) @ demo_random) @ demo_hash (be64 (nat (max 0 \<lfloor>5000 :: rat\<rfloor>)) @ demo_random)"
  have d: "decodeChallenge demo_challenge = Some ?d"
    using decode_issued [OF demo_hash_ok(1,2), of 5000] by (simp add: demo_challenge_def)
  have a: "issued_at ?d < 6000" by code_simp
  have v: "validateAgentAuthChallenge demo_hash demo_challenge 6000"
    by code_simp
  have "fst ?r" using challenge_single_use [OF run_start [of demo_hash 0] _ d, of 6000] v by simp
  then have "challenge_run demo_hash 6000 (snd ?r) ([] @ [(demo_challenge, 6000, True)])"
    by (intro run_consume [OF run_start [of _ 0]]) (simp_all add: prod_eq_iff)
  from challenge_single_use [OF this _ d, of 6500] a have "\<not> fst (consumeAgentAuthChallenge demo_hash demo_challenge 6500 (snd ?r))" by simp
  then show ?thesis using \<open>fst ?r\<close> by blast
qed

end
