(* ===== verification/Agent_Reports.thy ===== *)
theory Agent_Reports
imports Auth_Limits
begin

text \<open>
  What the panel remembers of the reports of agents, to tell late or repeated ones from news: the order of status reports
  (\<open>server/agentStatusOrdering.ts\<close>) and the last sign of life (\<open>server/agentActivity.ts\<close>).  Times are arguments; what the
  listeners of signs of life are told is a result.
\<close>

section \<open>The order of status reports\<close>

definition max_future_skew_ms :: rat where "max_future_skew_ms = 300000"
definition status_order_max_size :: nat where "status_order_max_size = 20000"
definition status_order_ttl_ms :: rat where "status_order_ttl_ms = 86400000"

definition normalizeAgentStatusIssuedAt :: "jsval \<Rightarrow> rat \<Rightarrow> int" where
  "normalizeAgentStatusIssuedAt v now =
     (case js_number (js_or v (JNum 0)) of
        None \<Rightarrow> 0
      | Some issuedAt \<Rightarrow> if issuedAt \<le> 0 \<or> now + max_future_skew_ms < issuedAt then 0 else \<lfloor>issuedAt\<rfloor>)"

record status_payload =
  sp_statusType :: jsval
  sp_ruleId :: jsval
  sp_tunnelId :: jsval
  sp_forwardType :: jsval

definition number_text :: "jsval \<Rightarrow> string" where
  "number_text v = (case js_number v of Some q \<Rightarrow> js_string (JNum q) | None \<Rightarrow> ''NaN'')"

record order_entry =
  oe_issuedAt :: int
  oe_seenAt :: rat

type_synonym order_guard = "(string, order_entry) jmap"

definition agentStatusOrderingKey :: "jsval \<Rightarrow> status_payload \<Rightarrow> string" where
  "agentStatusOrderingKey hostIdValue p =
     (let statusType = js_string (js_or (sp_statusType p)
            (JStr (if (case js_number (sp_ruleId p) of Some q \<Rightarrow> 0 < q | None \<Rightarrow> False) then ''rule'' else ''tunnel'')));
          resourceId =
            (if statusType = ''runtime'' then js_string (js_or (sp_forwardType p) (JStr ''runtime''))
             else if statusType = ''tunnel'' then number_text (js_or (sp_tunnelId p) (JNum 0))
             else number_text (js_or (sp_ruleId p) (JNum 0)))
      in ''agent-status:'' @ number_text (js_or hostIdValue (JNum 0)) @ '':'' @ statusType @ '':'' @ resourceId)"

definition order_prune :: "rat \<Rightarrow> order_guard \<Rightarrow> order_guard" where
  "order_prune now m = jm_prune (\<lambda>_ e. status_order_ttl_ms < now - oe_seenAt e) m"

definition order_expect :: "string \<Rightarrow> jsval \<Rightarrow> rat \<Rightarrow> order_guard \<Rightarrow> order_guard" where
  "order_expect key v now m =
     (let issuedAt = normalizeAgentStatusIssuedAt v now in
      if key = [] \<or> issuedAt \<le> 0 then m
      else
        (let current = jm_get m key;
             m' = jm_set key \<lparr>oe_issuedAt = max issuedAt (case current of Some e \<Rightarrow> oe_issuedAt e | None \<Rightarrow> 0), oe_seenAt = now\<rparr> m
         in if status_order_max_size < length m' then order_prune now m' else m'))"

definition order_accept :: "string \<Rightarrow> jsval \<Rightarrow> rat \<Rightarrow> order_guard \<Rightarrow> bool \<times> order_guard" where
  "order_accept key v now m =
     (let issuedAt = normalizeAgentStatusIssuedAt v now in
      if key = [] \<or> issuedAt \<le> 0 then (True, m)
      else if (case jm_get m key of Some e \<Rightarrow> issuedAt < oe_issuedAt e | None \<Rightarrow> False) then (False, m)
      else (True, order_expect key (JNum (of_int issuedAt)) now m))"

lemma normalize_again:
  assumes "0 < normalizeAgentStatusIssuedAt v now"
  shows "normalizeAgentStatusIssuedAt (JNum (of_int (normalizeAgentStatusIssuedAt v now))) now = normalizeAgentStatusIssuedAt v now"
proof -
  obtain q where q: "js_number (js_or v (JNum 0)) = Some q" "0 < q" "q \<le> now + max_future_skew_ms" "normalizeAgentStatusIssuedAt v now = \<lfloor>q\<rfloor>"
    using assms unfolding normalizeAgentStatusIssuedAt_def by (auto split: option.splits if_splits)
  have "0 < \<lfloor>q\<rfloor>" using assms q(4) by simp
  moreover have "(of_int \<lfloor>q\<rfloor> :: rat) \<le> now + max_future_skew_ms" using q(3) of_int_floor_le [of q] by (rule order_trans [rotated])
  ultimately show ?thesis unfolding q(4) by (simp add: normalizeAgentStatusIssuedAt_def js_or_def not_less)
qed

text \<open>A history of calls, with the moments they name; the clock does not go back.\<close>

inductive order_run :: "rat \<Rightarrow> order_guard \<Rightarrow> (string \<times> int \<times> rat) list \<Rightarrow> bool" where
  order_start: "order_run t [] []"
| order_expected: "order_run t m past \<Longrightarrow> t \<le> now \<Longrightarrow> key \<noteq> [] \<Longrightarrow> normalizeAgentStatusIssuedAt v now = n \<Longrightarrow> 0 < n \<Longrightarrow>
    order_run now (order_expect key v now m) ((key, n, now) # past)"
| order_accepted: "order_run t m past \<Longrightarrow> t \<le> now \<Longrightarrow> key \<noteq> [] \<Longrightarrow> normalizeAgentStatusIssuedAt v now = n \<Longrightarrow> 0 < n \<Longrightarrow>
    order_accept key v now m = (True, m') \<Longrightarrow> order_run now m' ((key, n, now) # past)"
| order_ignored: "order_run t m past \<Longrightarrow> t \<le> now \<Longrightarrow>
    key = [] \<or> normalizeAgentStatusIssuedAt v now \<le> 0 \<or> \<not> fst (order_accept key v now m) \<Longrightarrow>
    order_run now (snd (order_accept key v now m)) past"

definition order_inv :: "rat \<Rightarrow> order_guard \<Rightarrow> (string \<times> int \<times> rat) list \<Rightarrow> bool" where
  "order_inv t m past \<longleftrightarrow> jm_ok m \<and>
     (\<forall>key n t1. (key, n, t1) \<in> set past \<longrightarrow> t1 \<le> t) \<and>
     (\<forall>key n t1. (key, n, t1) \<in> set past \<and> t - t1 \<le> status_order_ttl_ms \<longrightarrow>
        (\<exists>e. jm_get m key = Some e \<and> n \<le> oe_issuedAt e \<and> t1 \<le> oe_seenAt e)) \<and>
     (\<forall>key e. jm_get m key = Some e \<longrightarrow> (\<exists>t1. (key, oe_issuedAt e, t1) \<in> set past))"

lemma order_invD:
  assumes "order_inv t m past"
  shows "jm_ok m" "(key, n, t1) \<in> set past \<Longrightarrow> t1 \<le> t"
    "(key, n, t1) \<in> set past \<Longrightarrow> t - t1 \<le> status_order_ttl_ms \<Longrightarrow> \<exists>e. jm_get m key = Some e \<and> n \<le> oe_issuedAt e \<and> t1 \<le> oe_seenAt e"
    "jm_get m key = Some e \<Longrightarrow> \<exists>t1. (key, oe_issuedAt e, t1) \<in> set past"
  using assms unfolding order_inv_def by blast+

lemma order_inv_later: "order_inv t m past \<Longrightarrow> t \<le> now \<Longrightarrow> order_inv now m past"
  unfolding order_inv_def by (meson diff_right_mono order_trans)

lemma order_prune_inv:
  assumes "order_inv now m past"
  shows "order_inv now (order_prune now m) past"
proof -
  note I = order_invD [OF assms]
  have g: "jm_get (order_prune now m) k = (case jm_get m k of None \<Rightarrow> None | Some e \<Rightarrow>
      if status_order_ttl_ms < now - oe_seenAt e then None else Some e)" for k
    using I(1) by (simp add: order_prune_def jm_get_prune)
  have "\<exists>e. jm_get (order_prune now m) k = Some e \<and> n \<le> oe_issuedAt e \<and> t1 \<le> oe_seenAt e"
    if p: "(k, n, t1) \<in> set past" "now - t1 \<le> status_order_ttl_ms" for k n t1
  proof -
    obtain e where e: "jm_get m k = Some e" "n \<le> oe_issuedAt e" "t1 \<le> oe_seenAt e" using I(3) [OF p] by blast
    then have "\<not> status_order_ttl_ms < now - oe_seenAt e" using p(2) by linarith
    then show ?thesis using e by (simp add: g)
  qed
  moreover have "jm_get (order_prune now m) k = Some e \<Longrightarrow> jm_get m k = Some e" for k e
    by (simp add: g split: option.splits if_splits)
  moreover have "jm_ok (order_prune now m)" using I(1) by (simp add: order_prune_def)
  ultimately show ?thesis using I(2,4) unfolding order_inv_def by blast
qed

lemma order_expect_inv:
  assumes inv: "order_inv t m past" and t: "t \<le> now" and key: "key \<noteq> []" and n: "normalizeAgentStatusIssuedAt v now = n" "0 < n"
  shows "order_inv now (order_expect key v now m) ((key, n, now) # past)"
proof -
  let ?n = "max n (case jm_get m key of Some e \<Rightarrow> oe_issuedAt e | None \<Rightarrow> 0)"
  let ?m = "jm_set key \<lparr>oe_issuedAt = ?n, oe_seenAt = now\<rparr> m"
  note I = order_invD [OF order_inv_later [OF inv t]]
  have "order_inv now ?m ((key, n, now) # past)"
    unfolding order_inv_def
  proof (intro conjI allI impI)
    show "jm_ok ?m" using I(1) by simp
    show "t1 \<le> now" if "(k, i, t1) \<in> set ((key, n, now) # past)" for k i t1 using that I(2) by auto
    show "\<exists>e. jm_get ?m k = Some e \<and> i \<le> oe_issuedAt e \<and> t1 \<le> oe_seenAt e"
      if h: "(k, i, t1) \<in> set ((key, n, now) # past) \<and> now - t1 \<le> status_order_ttl_ms" for k i t1
    proof (cases "(k, i, t1) = (key, n, now)")
      case False
      then have p: "(k, i, t1) \<in> set past" using h by auto
      obtain e where "jm_get m k = Some e" "i \<le> oe_issuedAt e" "t1 \<le> oe_seenAt e" using I(3) [OF p conjunct2 [OF h]] by blast
      then show ?thesis using I(2) [OF p] by (cases "k = key") auto
    qed auto
    show "\<exists>t1. (k, oe_issuedAt e, t1) \<in> set ((key, n, now) # past)" if g: "jm_get ?m k = Some e" for k e
    proof (cases "k = key")
      case True
      show ?thesis
      proof (cases "jm_get m key")
        case None
        then show ?thesis using g True n(2) by auto
      next
        case (Some e')
        obtain t1 where "(key, oe_issuedAt e', t1) \<in> set past" using I(4) [OF Some] by blast
        then show ?thesis using g True Some by (cases "n \<le> oe_issuedAt e'") (auto simp: max_def)
      qed
    next
      case False
      then show ?thesis using g I(4) [of k e] by auto
    qed
  qed
  then show ?thesis
    using order_prune_inv key n by (auto simp: order_expect_def Let_def)
qed

lemma order_accept_cases:
  assumes "key \<noteq> []" "0 < normalizeAgentStatusIssuedAt v now"
  shows "order_accept key v now m =
    (if (case jm_get m key of Some e \<Rightarrow> normalizeAgentStatusIssuedAt v now < oe_issuedAt e | None \<Rightarrow> False) then (False, m)
     else (True, order_expect key v now m))"
  using assms normalize_again [OF assms(2)] by (simp add: order_accept_def order_expect_def Let_def)

lemma order_run_inv: "order_run t m past \<Longrightarrow> order_inv t m past"
proof (induction rule: order_run.induct)
  case (order_start t)
  show ?case by (simp add: order_inv_def)
next
  case (order_expected t m past now key v n)
  then show ?case using order_expect_inv by blast
next
  case (order_accepted t m past now key v n m')
  then have "m' = order_expect key v now m" using order_accept_cases [of key v now m] by (auto split: if_splits)
  then show ?case using order_accepted order_expect_inv by blast
next
  case (order_ignored t m past now key v)
  then have "snd (order_accept key v now m) = m"
    by (auto simp: order_accept_def Let_def split: if_splits option.splits)
  then show ?case using order_inv_later [OF order_ignored.IH order_ignored.hyps(2)] by simp
qed

text \<open>
  C39. A status report is taken exactly when nothing later is known of its subject.  A report without a usable moment (none, or one
  more than five minutes in the future) is always taken.  Any other report is refused only when a report taken before or a command
  the panel gave for the same subject carries a later moment; and as long as all that was heard of the subject is at most a day
  old, it is refused exactly then.
\<close>

theorem status_order_exact:
  fixes key :: string and v :: jsval
  assumes "order_run t m past" "t \<le> now"
  defines "accepted \<equiv> fst (order_accept key v now m)" and "n \<equiv> normalizeAgentStatusIssuedAt v now"
  shows "(key = [] \<or> n \<le> 0 \<longrightarrow> accepted) \<and>
    (\<not> accepted \<longrightarrow> (\<exists>i t1. (key, i, t1) \<in> set past \<and> n < i)) \<and>
    (key \<noteq> [] \<and> 0 < n \<and> (\<forall>i t1. (key, i, t1) \<in> set past \<longrightarrow> now - t1 \<le> status_order_ttl_ms) \<longrightarrow>
      (accepted \<longleftrightarrow> (\<forall>i t1. (key, i, t1) \<in> set past \<longrightarrow> i \<le> n)))"
proof -
  note I = order_invD [OF order_inv_later [OF order_run_inv [OF assms(1)] assms(2)]]
  have usable: "accepted \<longleftrightarrow> \<not> (\<exists>e. jm_get m key = Some e \<and> n < oe_issuedAt e)" if "key \<noteq> []" "0 < n"
    using order_accept_cases [of key v now m] that unfolding accepted_def n_def by (cases "jm_get m key") auto
  have other: "key = [] \<or> n \<le> 0 \<longrightarrow> accepted" by (auto simp: accepted_def n_def order_accept_def Let_def)
  have reason: "\<not> accepted \<longrightarrow> (\<exists>i t1. (key, i, t1) \<in> set past \<and> n < i)"
    using usable other I(4) [of key] by (metis not_less)
  have "\<exists>e. jm_get m key = Some e \<and> n < oe_issuedAt e"
    if old: "\<forall>i t1. (key, i, t1) \<in> set past \<longrightarrow> now - t1 \<le> status_order_ttl_ms" and p: "(key, i, t1) \<in> set past" "n < i" for i t1
    using I(3) [OF p(1)] old p by (meson less_le_trans)
  then show ?thesis using usable other reason by (meson not_less)
qed

section \<open>The last sign of life\<close>

type_synonym activity = "(int, rat) jmap"

definition recordAuthenticatedAgentActivity :: "jsval \<Rightarrow> rat \<Rightarrow> activity \<Rightarrow> (int \<times> rat) option \<times> activity" where
  "recordAuthenticatedAgentActivity hostIdValue seenAt m =
     (case js_positive_int hostIdValue of
        None \<Rightarrow> (None, m)
      | Some hostId \<Rightarrow>
          (let acceptedAt = max (case jm_get m hostId of Some s \<Rightarrow> s | None \<Rightarrow> 0) seenAt
           in (Some (hostId, acceptedAt), jm_set hostId acceptedAt m)))"

definition getLastAuthenticatedAgentActivity :: "jsval \<Rightarrow> activity \<Rightarrow> rat option" where
  "getLastAuthenticatedAgentActivity hostIdValue m =
     (case js_positive_int hostIdValue of None \<Rightarrow> None | Some hostId \<Rightarrow> jm_get m hostId)"

definition hasRecentAuthenticatedAgentActivity :: "jsval \<Rightarrow> rat \<Rightarrow> rat \<Rightarrow> activity \<Rightarrow> bool \<times> activity" where
  "hasRecentAuthenticatedAgentActivity hostIdValue now ttlMs m =
     (case js_integer hostIdValue of
        None \<Rightarrow> (False, m)
      | Some hostId \<Rightarrow>
          (case jm_get m hostId of
             None \<Rightarrow> (False, m)
           | Some seenAt \<Rightarrow> if now - seenAt \<le> ttlMs then (True, m) else (False, jm_del hostId m)))"

fun partitionHostsByRecentAgentActivity ::
    "('h \<Rightarrow> jsval) \<Rightarrow> 'h list \<Rightarrow> rat \<Rightarrow> rat \<Rightarrow> activity \<Rightarrow> ('h list \<times> 'h list) \<times> activity" where
  "partitionHostsByRecentAgentActivity host_id [] now ttlMs m = (([], []), m)"
| "partitionHostsByRecentAgentActivity host_id (host # hosts) now ttlMs m =
     (case hasRecentAuthenticatedAgentActivity (host_id host) now ttlMs m of
        (recent, m') \<Rightarrow>
          (case partitionHostsByRecentAgentActivity host_id hosts now ttlMs m' of
             ((active, stale), m'') \<Rightarrow>
               (if recent then (host # active, stale) else (active, host # stale), m'')))"

definition clearAuthenticatedAgentActivity :: "jsval \<Rightarrow> activity \<Rightarrow> activity" where
  "clearAuthenticatedAgentActivity hostIdValue m =
     (if hostIdValue = JUndef then []
      else case js_integer hostIdValue of None \<Rightarrow> m | Some hostId \<Rightarrow> jm_del hostId m)"

text \<open>
  The signs of life since the panel was last told to forget the host.  Asking about a host drops what is too old; with one limit
  for all questions and a clock that does not go back this is never seen.
\<close>

inductive activity_run :: "rat \<Rightarrow> rat \<Rightarrow> activity \<Rightarrow> (int \<times> rat) list \<Rightarrow> bool" for ttlMs where
  activity_start: "activity_run ttlMs t [] []"
| activity_seen: "activity_run ttlMs t m past \<Longrightarrow> js_positive_int v = Some h \<Longrightarrow> 0 \<le> seenAt \<Longrightarrow>
    activity_run ttlMs t (snd (recordAuthenticatedAgentActivity v seenAt m)) ((h, seenAt) # past)"
| activity_asked: "activity_run ttlMs t m past \<Longrightarrow> t \<le> now \<Longrightarrow>
    activity_run ttlMs now (snd (hasRecentAuthenticatedAgentActivity v now ttlMs m)) past"
| activity_cleared: "activity_run ttlMs t m past \<Longrightarrow> js_integer v = Some h \<Longrightarrow>
    activity_run ttlMs t (clearAuthenticatedAgentActivity v m) (filter (\<lambda>(h', _). h' \<noteq> h) past)"
| activity_cleared_all: "activity_run ttlMs t m past \<Longrightarrow> activity_run ttlMs t (clearAuthenticatedAgentActivity JUndef m) []"

lemma activity_run_inv:
  "activity_run ttlMs t m past \<Longrightarrow> jm_ok m \<and>
     (\<forall>h s. jm_get m h = Some s \<longrightarrow> (h, s) \<in> set past) \<and>
     (\<forall>h s. (h, s) \<in> set past \<longrightarrow> 0 \<le> s \<and> (ttlMs < t - s \<or> (\<exists>s'. jm_get m h = Some s' \<and> s \<le> s')))"
proof (induction rule: activity_run.induct)
  case (activity_seen t m past v h seenAt)
  define a where "a = max (case jm_get m h of Some s \<Rightarrow> s | None \<Rightarrow> 0) seenAt"
  have r: "snd (recordAuthenticatedAgentActivity v seenAt m) = jm_set h a m"
    using activity_seen.hyps(2) by (simp add: recordAuthenticatedAgentActivity_def Let_def a_def)
  have "a = seenAt \<or> jm_get m h = Some a"
    using activity_seen.hyps(3) by (cases "jm_get m h") (auto simp: a_def max_def)
  then have "\<forall>h1 s. jm_get (jm_set h a m) h1 = Some s \<longrightarrow> (h1, s) \<in> set ((h, seenAt) # past)"
    using activity_seen.IH by auto
  moreover have "0 \<le> s1 \<and> (ttlMs < t - s1 \<or> (\<exists>s'. jm_get (jm_set h a m) h1 = Some s' \<and> s1 \<le> s'))"
    if p: "(h1, s1) \<in> set ((h, seenAt) # past)" for h1 s1
  proof (cases "(h1, s1) = (h, seenAt)")
    case False
    then have "0 \<le> s1" "ttlMs < t - s1 \<or> (\<exists>s'. jm_get m h1 = Some s' \<and> s1 \<le> s')" using activity_seen.IH p by auto
    then show ?thesis by (cases "h1 = h") (auto simp: a_def)
  qed (use activity_seen.hyps(3) in \<open>simp add: a_def\<close>)
  ultimately show ?case using activity_seen.IH unfolding r by blast
next
  case (activity_asked t m past now v)
  show ?case
  proof (cases "snd (hasRecentAuthenticatedAgentActivity v now ttlMs m) = m")
    case True
    have "ttlMs < t - s \<Longrightarrow> ttlMs < now - s" for s using activity_asked.hyps(2) by linarith
    then show ?thesis using activity_asked.IH unfolding True by blast
  next
    case False
    then obtain h s where hs: "jm_get m h = Some s" "ttlMs < now - s" "snd (hasRecentAuthenticatedAgentActivity v now ttlMs m) = jm_del h m"
      by (auto simp: hasRecentAuthenticatedAgentActivity_def not_le split: option.splits if_splits)
    have "0 \<le> s1 \<and> (ttlMs < now - s1 \<or> (\<exists>s'. jm_get (jm_del h m) h1 = Some s' \<and> s1 \<le> s'))" if p: "(h1, s1) \<in> set past" for h1 s1
    proof -
      have i: "0 \<le> s1" "ttlMs < t - s1 \<or> (\<exists>s'. jm_get m h1 = Some s' \<and> s1 \<le> s')" using activity_asked.IH p by blast+
      then consider "ttlMs < t - s1" | s' where "jm_get m h1 = Some s'" "s1 \<le> s'" by blast
      then show ?thesis
      proof cases
        case 1
        then have "ttlMs < now - s1" using activity_asked.hyps(2) by linarith
        then show ?thesis using i(1) by blast
      next
        case 2
        show ?thesis
        proof (cases "h1 = h")
          case True
          then have "ttlMs < now - s1" using 2 hs(1,2) by simp
          then show ?thesis using i(1) by blast
        next
          case False
          then show ?thesis using i(1) 2 by simp
        qed
      qed
    qed
    moreover have "jm_get (jm_del h m) h1 = Some s1 \<Longrightarrow> (h1, s1) \<in> set past" for h1 s1
      using activity_asked.IH by (auto split: if_splits)
    ultimately show ?thesis using activity_asked.IH unfolding hs(3) by simp
  qed
next
  case (activity_cleared t m past v h)
  then have "v \<noteq> JUndef" by (auto simp: js_integer_def)
  then show ?case using activity_cleared by (auto simp: clearAuthenticatedAgentActivity_def split: if_splits)
qed (simp_all add: clearAuthenticatedAgentActivity_def)

lemma activity_recent_exact:
  assumes "activity_run ttlMs t m past" "t \<le> now" "js_integer v = Some h"
  shows "fst (hasRecentAuthenticatedAgentActivity v now ttlMs m) \<longleftrightarrow> (\<exists>s. (h, s) \<in> set past \<and> now - s \<le> ttlMs)"
proof -
  note I = activity_run_inv [OF assms(1)]
  show ?thesis
  proof (cases "jm_get m h")
    case None
    have "\<not> now - s \<le> ttlMs" if "(h, s) \<in> set past" for s
    proof -
      have "ttlMs < t - s" using I that None by fastforce
      then show ?thesis using assms(2) by linarith
    qed
    then show ?thesis using assms(3) None by (auto simp: hasRecentAuthenticatedAgentActivity_def)
  next
    case (Some s)
    have "now - s \<le> ttlMs" if p: "(h, s1) \<in> set past" "now - s1 \<le> ttlMs" for s1
    proof -
      have "\<not> ttlMs < t - s1 \<longrightarrow> s1 \<le> s" using I p(1) Some by fastforce
      then show ?thesis using p(2) assms(2) by linarith
    qed
    moreover have "(h, s) \<in> set past" using I Some by blast
    ultimately show ?thesis using assms(3) Some by (auto simp: hasRecentAuthenticatedAgentActivity_def)
  qed
qed

section \<open>Witnesses\<close>

theorem status_order_exact_witness:
  "\<exists>m. order_run 1000 m [(''agent-status:1:rule:5'', 500, 1000)] \<and>
     \<not> fst (order_accept ''agent-status:1:rule:5'' (JNum 499) 2000 m) \<and>
     fst (order_accept ''agent-status:1:rule:5'' (JNum 500) 2000 m)"
proof -
  let ?k = "''agent-status:1:rule:5''"
  have n: "normalizeAgentStatusIssuedAt (JNum 500) 1000 = 500" "normalizeAgentStatusIssuedAt (JNum 500) 2000 = 500"
    "normalizeAgentStatusIssuedAt (JNum 499) 2000 = 499"
    by (simp_all add: normalizeAgentStatusIssuedAt_def js_or_def max_future_skew_ms_def)
  let ?m = "order_expect ?k (JNum 500) 1000 []"
  have r: "order_run 1000 ?m [(?k, 500, 1000)]" using order_expected [OF order_start _ _ n(1), of 1000 ?k] by simp
  have "\<not> fst (order_accept ?k (JNum 499) 2000 ?m)"
    using status_order_exact [OF r, of 2000 ?k "JNum 499"] by (simp add: n status_order_ttl_ms_def)
  moreover have "fst (order_accept ?k (JNum 500) 2000 ?m)"
    using status_order_exact [OF r, of 2000 ?k "JNum 500"] by (simp add: n status_order_ttl_ms_def)
  ultimately show ?thesis using r by blast
qed

end
