(* ===== verification/Mimic_Guard.thy ===== *)
theory Mimic_Guard
imports FX_Prelude "HOL-Library.Code_Target_Nat"
begin

text \<open>
  The guard before the panel has an agent remove a disguise from a network interface (\<open>server/mimicRemovalGuard.ts\<close>): the
  interface has to be reported, although no rule wants it, by three full reports in a row over at least a minute.  The digest is
  a parameter, and the clock is part of the call.
\<close>

section \<open>Model\<close>

record empty_observation =
  eo_firstSeenAt :: int
  eo_lastSeenAt :: int
  eo_streak :: nat
  eo_token :: string

type_synonym observations = "(string, empty_observation) jmap"
type_synonym digest = "string \<Rightarrow> string"

definition mimic_removal_min_streak :: nat where "mimic_removal_min_streak = 3"
definition mimic_removal_min_age_ms :: int where "mimic_removal_min_age_ms = 60000"

definition host_prefix :: "int \<Rightarrow> string" where
  "host_prefix hostId = js_string (JNum (of_int hostId)) @ '':''"

definition observationKey :: "int \<Rightarrow> string \<Rightarrow> string" where
  "observationKey hostId networkInterface = host_prefix hostId @ js_trim networkInterface"

definition removalToken :: "digest \<Rightarrow> string \<Rightarrow> int \<Rightarrow> string" where
  "removalToken sha256 key firstSeenAt =
     sha256 (key @ '':'' @ js_string (JNum (of_int firstSeenAt)) @ '':forwardx-mimic-removal-v1'')"

definition resetMimicRemovalGuard :: "int \<Rightarrow> observations \<Rightarrow> observations" where
  "resetMimicRemovalGuard hostId obs = jm_prune (\<lambda>key _. js_starts_with (host_prefix hostId) key) obs"

record removal_input =
  ri_hostId :: int
  ri_desiredInterfaces :: "string list"
  ri_reportedInterfaces :: "string list"
  ri_completeSnapshot :: bool
  ri_rebootDetected :: bool
  ri_now :: int

definition interface_set :: "string list \<Rightarrow> string list" where
  "interface_set names = js_uniq (filter (\<lambda>s. s \<noteq> []) (map js_trim names))"

definition desired_of :: "removal_input \<Rightarrow> string list" where
  "desired_of c = interface_set (ri_desiredInterfaces c)"

definition reported_of :: "removal_input \<Rightarrow> string list" where
  "reported_of c = interface_set (ri_reportedInterfaces c)"

definition drop_unneeded :: "removal_input \<Rightarrow> observations \<Rightarrow> observations" where
  "drop_unneeded c obs =
     jm_prune (\<lambda>key _. js_starts_with (host_prefix (ri_hostId c)) key \<and>
       (let iface = drop (length (host_prefix (ri_hostId c))) key
        in iface \<in> set (desired_of c) \<or> iface \<notin> set (reported_of c))) obs"

definition observed_again :: "digest \<Rightarrow> string \<Rightarrow> int \<Rightarrow> empty_observation option \<Rightarrow> empty_observation" where
  "observed_again sha256 key now previous =
     (case previous of
        Some p \<Rightarrow>
          if eo_lastSeenAt p \<le> now then p\<lparr>eo_streak := eo_streak p + 1, eo_lastSeenAt := now\<rparr>
          else \<lparr>eo_firstSeenAt = now, eo_lastSeenAt = now, eo_streak = 1, eo_token = removalToken sha256 key now\<rparr>
      | None \<Rightarrow> \<lparr>eo_firstSeenAt = now, eo_lastSeenAt = now, eo_streak = 1, eo_token = removalToken sha256 key now\<rparr>)"

definition observe_interface ::
    "digest \<Rightarrow> removal_input \<Rightarrow> string \<Rightarrow> (string, string) jmap \<times> observations \<Rightarrow> (string, string) jmap \<times> observations" where
  "observe_interface sha256 c iface st =
     (case st of (approved, obs) \<Rightarrow>
        if iface \<in> set (desired_of c) then (approved, obs)
        else
          (let key = observationKey (ri_hostId c) iface;
               state = observed_again sha256 key (ri_now c) (jm_get obs key)
           in (if mimic_removal_min_streak \<le> eo_streak state \<and> mimic_removal_min_age_ms \<le> ri_now c - eo_firstSeenAt state
               then jm_set iface (eo_token state) approved else approved,
               jm_set key state obs)))"

definition approveMimicInterfaceRemovals :: "digest \<Rightarrow> removal_input \<Rightarrow> observations \<Rightarrow> (string, string) jmap \<times> observations" where
  "approveMimicInterfaceRemovals sha256 c obs =
     (if ri_hostId c \<le> 0 then ([], obs)
      else
        (let obs1 = (if ri_rebootDetected c then resetMimicRemovalGuard (ri_hostId c) obs else obs);
             obs2 = drop_unneeded c obs1
         in if \<not> ri_completeSnapshot c \<or> ri_rebootDetected c then ([], obs2)
            else foldl (\<lambda>st iface. observe_interface sha256 c iface st) ([], obs2) (reported_of c)))"

section \<open>Keys\<close>

lemma dropWhile_idem_rev: "dropWhile P (rev (dropWhile P (rev (dropWhile P s)))) = rev (dropWhile P (rev (dropWhile P s)))"
proof -
  let ?a = "dropWhile P s"
  let ?b = "rev (dropWhile P (rev ?a))"
  have e: "?a = ?b @ rev (takeWhile P (rev ?a))"
    by (metis rev_append rev_rev_ident takeWhile_dropWhile_id)
  show ?thesis
  proof (cases "?b = []")
    case True
    show ?thesis unfolding True by simp
  next
    case False
    then have "hd ?a = hd ?b" "?a \<noteq> []" using e by (metis hd_append2, metis Nil_is_append_conv)
    moreover have "\<not> P (hd ?a)" using \<open>?a \<noteq> []\<close> by (rule hd_dropWhile)
    ultimately show ?thesis using False by (metis dropWhile.simps(2) list.collapse)
  qed
qed

lemma js_trim_idem [simp]: "js_trim (js_trim s) = js_trim s"
  unfolding js_trim_def dropWhile_idem_rev by (simp add: dropWhile_idem_rev)

lemma interface_set_trimmed: "iface \<in> set (interface_set names) \<Longrightarrow> js_trim iface = iface \<and> iface \<noteq> []"
  by (auto simp: interface_set_def)

lemma host_prefix_nat: "0 < h \<Longrightarrow> host_prefix h = nat_to_str (nat h) @ '':''"
  by (simp add: host_prefix_def int_to_str_def js_is_integer_def)

lemma observation_key_inject:
  assumes "0 < h" "0 < h'" "host_prefix h @ x = host_prefix h' @ y"
  shows "h = h' \<and> x = y"
  using key_prefix_inject [of "nat h" x "nat h'" y] assms by (auto simp: host_prefix_nat eq_nat_nat_iff)

lemma starts_with_host:
  assumes "0 < h" "0 < h'"
  shows "js_starts_with (host_prefix h) (host_prefix h' @ x) \<longleftrightarrow> h = h'"
proof
  assume "js_starts_with (host_prefix h) (host_prefix h' @ x)"
  then obtain r where "host_prefix h' @ x = host_prefix h @ r" unfolding js_starts_with_iff by blast
  then show "h = h'" using observation_key_inject [OF assms(2,1)] by metis
qed (simp add: js_starts_with_def)

section \<open>The guard follows the reports\<close>

text \<open>The full reports of a host that name an interface, since the last report that did not, newest first.\<close>

definition breaks_run :: "removal_input \<Rightarrow> string \<Rightarrow> bool" where
  "breaks_run c iface \<longleftrightarrow> ri_rebootDetected c \<or> iface \<in> set (desired_of c) \<or> iface \<notin> set (reported_of c)"

fun unneeded_reports :: "int \<Rightarrow> string \<Rightarrow> removal_input list \<Rightarrow> int list" where
  "unneeded_reports h iface [] = []"
| "unneeded_reports h iface (c # past) =
     (if ri_hostId c \<noteq> h then unneeded_reports h iface past
      else if breaks_run c iface then []
      else if ri_completeSnapshot c then ri_now c # unneeded_reports h iface past
      else unneeded_reports h iface past)"

inductive mimic_run :: "digest \<Rightarrow> observations \<Rightarrow> removal_input list \<Rightarrow> bool" for sha256 where
  mimic_start: "mimic_run sha256 [] []"
| mimic_call: "mimic_run sha256 obs past \<Longrightarrow> (\<And>c'. c' \<in> set past \<Longrightarrow> ri_now c' \<le> ri_now c) \<Longrightarrow>
    mimic_run sha256 (snd (approveMimicInterfaceRemovals sha256 c obs)) (c # past)"

definition observation_of :: "digest \<Rightarrow> string \<Rightarrow> int list \<Rightarrow> empty_observation option" where
  "observation_of sha256 key ts =
     (if ts = [] then None
      else Some \<lparr>eo_firstSeenAt = last ts, eo_lastSeenAt = hd ts, eo_streak = length ts, eo_token = removalToken sha256 key (last ts)\<rparr>)"

lemma observed_next:
  assumes "\<And>t. t \<in> set ts \<Longrightarrow> t \<le> now"
  shows "Some (observed_again sha256 key now (observation_of sha256 key ts)) = observation_of sha256 key (now # ts)"
  using assms by (cases ts) (simp_all add: observation_of_def observed_again_def)

lemma unneeded_reports_times: "t \<in> set (unneeded_reports h iface past) \<Longrightarrow> \<exists>c \<in> set past. t = ri_now c"
  by (induction past) (auto split: if_splits)

text \<open>One pass over the reported interfaces: each is seen once.\<close>

definition approved_token :: "removal_input \<Rightarrow> empty_observation \<Rightarrow> string option" where
  "approved_token c state =
     (if mimic_removal_min_streak \<le> eo_streak state \<and> mimic_removal_min_age_ms \<le> ri_now c - eo_firstSeenAt state
      then Some (eo_token state) else None)"

lemma observe_all:
  fixes sha256 c obs names
  defines "r \<equiv> foldl (\<lambda>st iface. observe_interface sha256 c iface st) ([], obs) names"
  assumes "distinct names" "\<forall>s \<in> set names. js_trim s = s" "jm_ok obs"
  shows "jm_ok (snd r)"
    and "jm_get (fst r) iface =
      (if iface \<in> set names \<and> iface \<notin> set (desired_of c)
       then approved_token c (observed_again sha256 (host_prefix (ri_hostId c) @ iface) (ri_now c) (jm_get obs (host_prefix (ri_hostId c) @ iface)))
       else None)"
    and "jm_get (snd r) key =
      (if \<exists>s \<in> set names. s \<notin> set (desired_of c) \<and> key = host_prefix (ri_hostId c) @ s
       then Some (observed_again sha256 key (ri_now c) (jm_get obs key)) else jm_get obs key)"
  unfolding r_def
  using assms(2,3)
proof (induction names arbitrary: iface key rule: rev_induct)
  case Nil
  { case 1 show ?case using assms(4) by simp next case 2 show ?case by simp next case 3 show ?case by simp }
next
  case (snoc s names)
  let ?r = "foldl (\<lambda>st iface. observe_interface sha256 c iface st) ([], obs) names"
  let ?r' = "foldl (\<lambda>st iface. observe_interface sha256 c iface st) ([], obs) (names @ [s])"
  let ?k = "host_prefix (ri_hostId c) @ s"
  obtain a m where am: "?r = (a, m)" by (cases ?r)
  have step: "?r' = observe_interface sha256 c s (a, m)" using am by simp
  { case 1 with snoc.IH(1) am step show ?case by (auto simp: observe_interface_def Let_def) }
  { case 2
    then have p: "distinct names" "\<forall>s \<in> set names. js_trim s = s" "s \<notin> set names" "js_trim s = s" by auto
    have k: "jm_get m ?k = jm_get obs ?k" using snoc.IH(3) [OF p(1,2), of ?k] am p(3) by auto
    show ?case
      using snoc.IH(2) [OF p(1,2), of iface] p(3,4) k unfolding step am
      by (auto simp: observe_interface_def Let_def observationKey_def approved_token_def) }
  { case 3
    then have p: "distinct names" "\<forall>s \<in> set names. js_trim s = s" "s \<notin> set names" "js_trim s = s" by auto
    have k: "jm_get m ?k = jm_get obs ?k" using snoc.IH(3) [OF p(1,2), of ?k] am p(3) by auto
    show ?case
      using snoc.IH(3) [OF p(1,2)] p(3,4) k unfolding step am
      by (auto simp: observe_interface_def Let_def observationKey_def) }
qed

lemma drop_unneeded_get:
  assumes "jm_ok obs" "0 < h" "0 < ri_hostId c"
  shows "jm_get (drop_unneeded c obs) (host_prefix h @ iface) =
    (if h = ri_hostId c \<and> (iface \<in> set (desired_of c) \<or> iface \<notin> set (reported_of c)) then None
     else jm_get obs (host_prefix h @ iface))"
  using starts_with_host [OF assms(3,2), of iface]
  by (auto simp: drop_unneeded_def jm_get_prune [OF assms(1)] split: option.split)

lemma reset_get:
  assumes "jm_ok obs" "0 < h" "0 < h'"
  shows "jm_get (resetMimicRemovalGuard h' obs) (host_prefix h @ iface) = (if h = h' then None else jm_get obs (host_prefix h @ iface))"
  using starts_with_host [OF assms(3,2), of iface]
  by (auto simp: resetMimicRemovalGuard_def jm_get_prune [OF assms(1)] split: option.split)

text \<open>What a call makes of an observation, and what it approves.\<close>

lemma approve_call:
  assumes "jm_ok obs" "0 < ri_hostId c"
  shows "jm_ok (snd (approveMimicInterfaceRemovals sha256 c obs))" (is ?ok)
    and "0 < h \<Longrightarrow> jm_get (snd (approveMimicInterfaceRemovals sha256 c obs)) (host_prefix h @ iface) =
      (let key = host_prefix h @ iface in
       if h \<noteq> ri_hostId c then jm_get obs key
       else if breaks_run c iface then None
       else if ri_completeSnapshot c then Some (observed_again sha256 key (ri_now c) (jm_get obs key))
       else jm_get obs key)" (is "_ \<Longrightarrow> ?state")
    and "jm_get (fst (approveMimicInterfaceRemovals sha256 c obs)) iface =
      (let key = host_prefix (ri_hostId c) @ iface in
       if ri_completeSnapshot c \<and> \<not> breaks_run c iface
       then approved_token c (observed_again sha256 key (ri_now c) (jm_get obs key)) else None)" (is ?approved)
proof -
  let ?o1 = "if ri_rebootDetected c then resetMimicRemovalGuard (ri_hostId c) obs else obs"
  define o2 where "o2 = drop_unneeded c ?o1"
  have ok1: "jm_ok ?o1" using assms(1) by (simp add: resetMimicRemovalGuard_def)
  then have ok2: "jm_ok o2" by (simp add: drop_unneeded_def o2_def)
  have g2: "jm_get o2 (host_prefix h @ i) = (if h = ri_hostId c \<and> breaks_run c i then None else jm_get obs (host_prefix h @ i))"
    if "0 < h" for h i
    using drop_unneeded_get [OF ok1 that assms(2), of i] reset_get [OF assms(1) that assms(2), of i] unfolding o2_def
    by (cases "h = ri_hostId c"; cases "ri_rebootDetected c") (auto simp: breaks_run_def)
  have d: "distinct (reported_of c)" "\<forall>s \<in> set (reported_of c). js_trim s = s"
    by (auto simp: reported_of_def interface_set_def)
  define r where "r = foldl (\<lambda>st iface. observe_interface sha256 c iface st) ([], o2) (reported_of c)"
  note O = observe_all [OF d ok2, of sha256 c, folded r_def]
  have a: "approveMimicInterfaceRemovals sha256 c obs = (if \<not> ri_completeSnapshot c \<or> ri_rebootDetected c then ([], o2) else r)"
    using assms(2) by (simp add: approveMimicInterfaceRemovals_def Let_def o2_def r_def)
  have br: "\<not> ri_rebootDetected c \<Longrightarrow> breaks_run c i \<longleftrightarrow> i \<in> set (desired_of c) \<or> i \<notin> set (reported_of c)" for i
    by (simp add: breaks_run_def)
  show ?ok using ok2 O(1) by (simp add: a)
  show ?approved
    using g2 [OF assms(2), of iface] O(2) [of iface] br [of iface]
    by (cases "ri_completeSnapshot c"; cases "ri_rebootDetected c"; cases "breaks_run c iface") (auto simp: a Let_def breaks_run_def)
  show ?state if h: "0 < h"
  proof (cases "h = ri_hostId c")
    case True
    then have "(\<exists>s \<in> set (reported_of c). s \<notin> set (desired_of c) \<and> host_prefix h @ iface = host_prefix (ri_hostId c) @ s) \<longleftrightarrow>
        iface \<in> set (reported_of c) \<and> iface \<notin> set (desired_of c)" by auto
    then show ?thesis
      using True g2 [OF h, of iface] O(3) [of "host_prefix h @ iface"] br [of iface]
      by (cases "ri_completeSnapshot c"; cases "ri_rebootDetected c"; cases "breaks_run c iface") (auto simp: a Let_def breaks_run_def)
  next
    case False
    then have "\<not> (\<exists>s \<in> set (reported_of c). s \<notin> set (desired_of c) \<and> host_prefix h @ iface = host_prefix (ri_hostId c) @ s)"
      using observation_key_inject [OF h assms(2)] by blast
    then have "jm_get (snd r) (host_prefix h @ iface) = jm_get o2 (host_prefix h @ iface)" unfolding O(3) by (rule if_not_P)
    then show ?thesis using False g2 [OF h, of iface] by (simp add: a Let_def)
  qed
qed

lemma mimic_run_follows:
  assumes "mimic_run sha256 obs past"
  shows "jm_ok obs \<and> (\<forall>h iface. 0 < h \<longrightarrow>
    jm_get obs (host_prefix h @ iface) = observation_of sha256 (host_prefix h @ iface) (unneeded_reports h iface past))"
  using assms
proof (induction rule: mimic_run.induct)
  case mimic_start
  show ?case by (simp add: observation_of_def)
next
  case (mimic_call obs past c)
  show ?case
  proof (cases "0 < ri_hostId c")
    case True
    note C = approve_call [OF conjunct1 [OF mimic_call.IH] True]
    have "jm_get (snd (approveMimicInterfaceRemovals sha256 c obs)) (host_prefix h @ iface) =
        observation_of sha256 (host_prefix h @ iface) (unneeded_reports h iface (c # past))" if h: "0 < h" for h iface
    proof -
      have "t \<le> ri_now c" if "t \<in> set (unneeded_reports h iface past)" for t
        using unneeded_reports_times [OF that] mimic_call.hyps(2) by blast
      then have N: "Some (observed_again sha256 (host_prefix h @ iface) (ri_now c)
            (observation_of sha256 (host_prefix h @ iface) (unneeded_reports h iface past))) =
          observation_of sha256 (host_prefix h @ iface) (ri_now c # unneeded_reports h iface past)"
        by (rule observed_next)
      have g: "jm_get obs (host_prefix h @ iface) = observation_of sha256 (host_prefix h @ iface) (unneeded_reports h iface past)"
        using mimic_call.IH h by blast
      show ?thesis
        using C(2) [OF h, of sha256 iface] g N
        by (cases "h = ri_hostId c"; cases "breaks_run c iface"; cases "ri_completeSnapshot c") (simp_all add: Let_def observation_of_def)
    qed
    then show ?thesis using C(1) by blast
  next
    case False
    then show ?thesis using mimic_call.IH by (simp add: approveMimicInterfaceRemovals_def)
  qed
qed

text \<open>
  C34. The panel approves the removal of a disguise exactly when it may: this report is a full one, and of the reports of the host since
  the last one that wanted the interface, did not name it or came after a restart, at least three were full, the first of them at
  least a minute ago.  The token is that of the first of them, so it stays the same while the removal is repeated.
\<close>

theorem mimic_removal_exact:
  fixes iface
  assumes "mimic_run sha256 obs past" "\<And>c'. c' \<in> set past \<Longrightarrow> ri_now c' \<le> ri_now c" "0 < ri_hostId c"
  defines "ts \<equiv> unneeded_reports (ri_hostId c) iface (c # past)"
  shows "jm_get (fst (approveMimicInterfaceRemovals sha256 c obs)) iface =
    (if ri_completeSnapshot c \<and> 3 \<le> length ts \<and> 60000 \<le> ri_now c - last ts
     then Some (removalToken sha256 (host_prefix (ri_hostId c) @ iface) (last ts)) else None)"
proof -
  let ?past = "unneeded_reports (ri_hostId c) iface past"
  let ?key = "host_prefix (ri_hostId c) @ iface"
  note F = mimic_run_follows [OF assms(1)]
  have "t \<le> ri_now c" if "t \<in> set ?past" for t using unneeded_reports_times [OF that] assms(2) by blast
  then have n: "Some (observed_again sha256 ?key (ri_now c) (observation_of sha256 ?key ?past)) = observation_of sha256 ?key (ri_now c # ?past)"
    by (rule observed_next)
  have "jm_get obs ?key = observation_of sha256 ?key ?past" using F assms(3) by blast
  then show ?thesis
    using approve_call(3) [OF conjunct1 [OF F] assms(3), of sha256 iface] n
    by (simp add: ts_def Let_def observation_of_def approved_token_def mimic_removal_min_streak_def mimic_removal_min_age_ms_def)
qed

definition demo_report :: "int \<Rightarrow> removal_input" where
  "demo_report now = \<lparr>ri_hostId = 7, ri_desiredInterfaces = [], ri_reportedInterfaces = ['' eth0 ''], ri_completeSnapshot = True,
     ri_rebootDetected = False, ri_now = now\<rparr>"

theorem mimic_removal_exact_witness:
  "\<exists>obs. mimic_run id obs [demo_report 40000, demo_report 10000] \<and>
     jm_get (fst (approveMimicInterfaceRemovals id (demo_report 70000) obs)) ''eth0'' = Some ''7:eth0:10000:forwardx-mimic-removal-v1'' \<and>
     jm_get (fst (approveMimicInterfaceRemovals id (demo_report 69999) obs)) ''eth0'' = None"
proof -
  let ?o1 = "snd (approveMimicInterfaceRemovals id (demo_report 10000) [])"
  let ?o2 = "snd (approveMimicInterfaceRemovals id (demo_report 40000) ?o1)"
  have r: "mimic_run id ?o2 [demo_report 40000, demo_report 10000]"
    by (intro mimic_run.intros) (auto simp: demo_report_def)
  have b: "\<not> breaks_run (demo_report t) ''eth0''" for t
    by (simp add: breaks_run_def demo_report_def desired_of_def reported_of_def interface_set_def js_trim_def js_space_def)
  have f: "ri_hostId (demo_report t) = 7" "ri_completeSnapshot (demo_report t)" "ri_now (demo_report t) = t" for t
    by (simp_all add: demo_report_def)
  have k: "removalToken id (host_prefix 7 @ ''eth0'') 10000 = ''7:eth0:10000:forwardx-mimic-removal-v1''" by code_simp
  have p: "c' \<in> set [demo_report 40000, demo_report 10000] \<Longrightarrow> ri_now c' \<le> ri_now (demo_report t)" if "40000 \<le> t" for c' t
    using that by (auto simp: f)
  have u: "unneeded_reports 7 ''eth0'' [demo_report t, demo_report 40000, demo_report 10000] = [t, 40000, 10000]" for t
    by (simp add: b f)
  have "jm_get (fst (approveMimicInterfaceRemovals id (demo_report t) ?o2)) ''eth0'' =
      (if 70000 \<le> t then Some ''7:eth0:10000:forwardx-mimic-removal-v1'' else None)" if "40000 \<le> t" for t
    using mimic_removal_exact [OF r p [OF that], where iface = "''eth0''"] by (simp only: f u) (simp add: k)
  then show ?thesis using r by (intro exI [of _ ?o2]) simp
qed

end
