(* ===== verification/Rule_Tasks.thy ===== *)
theory Rule_Tasks
imports FX_Prelude "HOL-Library.Code_Target_Nat"
begin

text \<open>
  The queue of rule tasks (\<open>server/ruleTaskQueue.ts\<close>): batches of rule changes that users submit are carried out by one
  writer, which takes one action of a job and then turns to the next job, so that a large batch does not keep others
  waiting.

  A job is named by its position among the identifiers drawn so far, which stands for the random one it gets.  The
  size and the digest of a request are arguments, as is what \<open>execute\<close> answers.  The writer is suspended while an action is
  carried out and after every turn; \<open>rtq_wakeups\<close> counts the calls of \<open>drain\<close> that are scheduled.  \<open>rtq_log\<close> is not in
  the code: it lists the actions that were started, for the theorems.
\<close>

section \<open>Jobs\<close>

record task_actor =
  ta_userId :: int
  ta_sid :: "string option"
  ta_kind :: string
  ta_dev :: bool
  ta_requestId :: string

record rule_action =
  rta_operation :: string
  rta_input :: jsval
  rta_conflictStrategy :: string

record task_request =
  trq_requestId :: string
  trq_title :: string
  trq_actions :: "rule_action list"

record task_value =
  rtv_id :: "int option"
  rtv_sourcePort :: "int option"
  rtv_skipped :: bool

datatype result_status = Succeeded | Failed | Skipped | Cancelled

record rule_result =
  rtr_index :: nat
  rtr_status :: result_status
  rtr_error :: "string option"
  rtr_value :: "task_value option"

datatype task_state = T_Queued | T_Running | T_Completed | T_Cancelled

record task_snapshot =
  rts_id :: nat
  rts_requestId :: string
  rts_title :: string
  rts_state :: task_state
  rts_total :: nat
  rts_completed :: nat
  rts_succeeded :: nat
  rts_failed :: nat
  rts_skipped :: nat
  rts_cancelled :: nat
  rts_queuePosition :: nat
  rts_createdAt :: rat
  rts_finishedAt :: "rat option"
  rts_results :: "rule_result list option"

record rule_job =
  rtj_actor :: task_actor
  rtj_hash :: string
  rtj_actions :: "rule_action option list"
  rtj_snapshot :: task_snapshot
  rtj_results :: "rule_result list"
  rtj_cancel :: bool
  rtj_payloadBytes :: nat

record task_options =
  rto_maxJobs :: nat
  rto_maxPendingItems :: nat
  rto_maxUserJobs :: nat
  rto_retentionMs :: rat

definition default_task_options :: task_options where
  "default_task_options = \<lparr>rto_maxJobs = 100, rto_maxPendingItems = 20000, rto_maxUserJobs = 3, rto_retentionMs = 15 * 60000\<rparr>"

datatype drain_phase = Drain_Off | Drain_Executing nat | Drain_Yielding

record task_queue =
  rtq_jobs :: "(nat, rule_job) jmap"
  rtq_ready :: "nat list"
  rtq_active :: "nat option"
  rtq_phase :: drain_phase
  rtq_wakeups :: nat
  rtq_next :: nat
  rtq_log :: "(nat \<times> nat) list"

definition RuleTaskQueue :: task_queue where
  "RuleTaskQueue = \<lparr>rtq_jobs = [], rtq_ready = [], rtq_active = None, rtq_phase = Drain_Off, rtq_wakeups = 0, rtq_next = 0, rtq_log = []\<rparr>"

definition finished :: "rule_job \<Rightarrow> bool" where
  "finished j \<longleftrightarrow> rts_finishedAt (rtj_snapshot j) \<noteq> None"

definition job_total :: "rule_job \<Rightarrow> nat" where
  "job_total j = rts_total (rtj_snapshot j)"

definition job_completed :: "rule_job \<Rightarrow> nat" where
  "job_completed j = rts_completed (rtj_snapshot j)"

definition set_rule_job :: "nat \<Rightarrow> rule_job \<Rightarrow> task_queue \<Rightarrow> task_queue" where
  "set_rule_job i j q = q\<lparr>rtq_jobs := jm_set i j (rtq_jobs q)\<rparr>"

section \<open>Operations\<close>

definition task_prune :: "task_options \<Rightarrow> rat \<Rightarrow> task_queue \<Rightarrow> task_queue" where
  "task_prune options now q =
     q\<lparr>rtq_jobs := jm_prune (\<lambda>_ j. case rts_finishedAt (rtj_snapshot j) of Some t \<Rightarrow> t < now - rto_retentionMs options | None \<Rightarrow> False)
       (rtq_jobs q)\<rparr>"

text \<open>\<open>indexOf\<close> plus one, so that an absent element is at zero.\<close>

fun position_of :: "'a \<Rightarrow> 'a list \<Rightarrow> nat" where
  "position_of x [] = 0"
| "position_of x (y # ys) = (if x = y then 1 else (let p = position_of x ys in if p = 0 then 0 else p + 1))"

definition task_snapshot_of :: "task_queue \<Rightarrow> rule_job \<Rightarrow> task_snapshot" where
  "task_snapshot_of q j =
     (rtj_snapshot j)\<lparr>rts_queuePosition :=
        (if finished j \<or> rtq_active q = Some (rts_id (rtj_snapshot j)) then 0 else position_of (rts_id (rtj_snapshot j)) (rtq_ready q)),
        rts_results := (if finished j then Some (rtj_results j) else None)\<rparr>"

definition same_request :: "int \<Rightarrow> string \<Rightarrow> rule_job \<Rightarrow> bool" where
  "same_request userId requestId j \<longleftrightarrow> ta_userId (rtj_actor j) = userId \<and> rts_requestId (rtj_snapshot j) = requestId"

definition pending_items :: "rule_job \<Rightarrow> nat" where
  "pending_items j = (if finished j then 0 else job_total j - job_completed j)"

definition pending_bytes :: "rule_job \<Rightarrow> nat" where
  "pending_bytes j = (if finished j then 0 else rtj_payloadBytes j)"

definition pending_of_user :: "int \<Rightarrow> rule_job \<Rightarrow> nat" where
  "pending_of_user userId j = (if \<not> finished j \<and> ta_userId (rtj_actor j) = userId then 1 else 0)"

text \<open>The finished jobs make room, oldest first.\<close>

fun evict_finished :: "nat \<Rightarrow> nat \<Rightarrow> (nat \<times> rule_job) list \<Rightarrow> (nat, rule_job) jmap \<Rightarrow> nat \<Rightarrow> (nat, rule_job) jmap \<times> nat" where
  "evict_finished maxJobs n [] jobs retained = (jobs, retained)"
| "evict_finished maxJobs n ((i, j) # es) jobs retained =
     (if length jobs < maxJobs \<and> retained + n \<le> 20000 then (jobs, retained)
      else if finished j then evict_finished maxJobs n es (jm_del i jobs) (retained - job_total j)
      else evict_finished maxJobs n es jobs retained)"

definition new_rule_job :: "nat \<Rightarrow> task_actor \<Rightarrow> task_request \<Rightarrow> string \<Rightarrow> nat \<Rightarrow> rat \<Rightarrow> rule_job" where
  "new_rule_job i actor request hash bytes now =
     \<lparr>rtj_actor = actor, rtj_hash = hash, rtj_actions = map Some (trq_actions request),
       rtj_snapshot = \<lparr>rts_id = i, rts_requestId = trq_requestId request, rts_title = trq_title request, rts_state = T_Queued,
         rts_total = length (trq_actions request), rts_completed = 0, rts_succeeded = 0, rts_failed = 0, rts_skipped = 0,
         rts_cancelled = 0, rts_queuePosition = 0, rts_createdAt = now, rts_finishedAt = None, rts_results = None\<rparr>,
       rtj_results = [], rtj_cancel = False, rtj_payloadBytes = bytes\<rparr>"

datatype enqueue_error = Batch_Too_Large | Request_Reused | Queue_Full | Queue_Full_Later

definition task_enqueue ::
  "task_options \<Rightarrow> (task_request \<Rightarrow> nat) \<Rightarrow> (task_request \<Rightarrow> string) \<Rightarrow> task_actor \<Rightarrow> task_request \<Rightarrow> rat \<Rightarrow> task_queue \<Rightarrow>
     (enqueue_error + task_snapshot) \<times> task_queue" where
  "task_enqueue options byteLength digest actor request now q0 =
     (let q = task_prune options now q0;
          bytes = byteLength request;
          n = length (trq_actions request);
          jobs = rtq_jobs q
      in if 2 * 1024 * 1024 < bytes \<or> n = 0 \<or> 5000 < n then (Inl Batch_Too_Large, q)
         else
           (case find (same_request (ta_userId actor) (trq_requestId request)) (jm_values jobs) of
              Some j \<Rightarrow> if rtj_hash j \<noteq> digest request then (Inl Request_Reused, q) else (Inr (task_snapshot_of q j), q)
            | None \<Rightarrow>
                if rto_maxUserJobs options \<le> jm_sum (pending_of_user (ta_userId actor)) jobs \<or>
                   rto_maxPendingItems options < jm_sum pending_items jobs + n \<or>
                   8 * 1024 * 1024 < jm_sum pending_bytes jobs + bytes
                then (Inl Queue_Full, q)
                else
                  (let (jobs', retained) = evict_finished (rto_maxJobs options) n jobs jobs (jm_sum job_total jobs);
                       q1 = q\<lparr>rtq_jobs := jobs'\<rparr>
                   in if rto_maxJobs options \<le> length jobs' \<or> 20000 < retained + n then (Inl Queue_Full_Later, q1)
                      else
                        (let i = rtq_next q1;
                             j = new_rule_job i actor request (digest request) bytes now;
                             q2 = q1\<lparr>rtq_jobs := jm_set i j jobs', rtq_ready := rtq_ready q1 @ [i], rtq_next := i + 1,
                               rtq_wakeups := rtq_wakeups q1 + 1\<rparr>
                         in (Inr (task_snapshot_of q2 j), q2)))))"

definition task_get :: "task_options \<Rightarrow> int \<Rightarrow> nat \<Rightarrow> rat \<Rightarrow> task_queue \<Rightarrow> task_snapshot option \<times> task_queue" where
  "task_get options userId i now q0 =
     (let q = task_prune options now q0 in
      (case jm_get (rtq_jobs q) i of
         Some j \<Rightarrow> if ta_userId (rtj_actor j) = userId then Some (task_snapshot_of q j) else None | None \<Rightarrow> None, q))"

definition task_lookup :: "task_options \<Rightarrow> int \<Rightarrow> string \<Rightarrow> rat \<Rightarrow> task_queue \<Rightarrow> task_snapshot option \<times> task_queue" where
  "task_lookup options userId requestId now q0 =
     (let q = task_prune options now q0 in (map_option (task_snapshot_of q) (find (same_request userId requestId) (jm_values (rtq_jobs q))), q))"

definition task_cancel :: "int \<Rightarrow> nat \<Rightarrow> task_queue \<Rightarrow> task_snapshot option \<times> task_queue" where
  "task_cancel userId i q =
     (case jm_get (rtq_jobs q) i of
        None \<Rightarrow> (None, q)
      | Some j \<Rightarrow>
          if ta_userId (rtj_actor j) \<noteq> userId then (None, q)
          else if finished j then (Some (task_snapshot_of q j), q)
          else (let j' = j\<lparr>rtj_cancel := True\<rparr>; q' = set_rule_job i j' (q\<lparr>rtq_wakeups := rtq_wakeups q + 1\<rparr>)
                in (Some (task_snapshot_of q' j'), q')))"

section \<open>The writer\<close>

definition cancel_rest :: "rule_job \<Rightarrow> rule_job" where
  "cancel_rest j =
     (let from = job_completed j; until = max from (job_total j) in
      j\<lparr>rtj_results := rtj_results j @ map (\<lambda>k. \<lparr>rtr_index = k, rtr_status = Cancelled, rtr_error = None, rtr_value = None\<rparr>) [from..<until],
        rtj_snapshot := (rtj_snapshot j)\<lparr>rts_completed := until, rts_cancelled := rts_cancelled (rtj_snapshot j) + (until - from)\<rparr>\<rparr>)"

definition finish_job :: "rat \<Rightarrow> rule_job \<Rightarrow> rule_job" where
  "finish_job now j =
     j\<lparr>rtj_snapshot := (rtj_snapshot j)\<lparr>rts_state := (if 0 < rts_cancelled (rtj_snapshot j) then T_Cancelled else T_Completed),
         rts_finishedAt := Some now\<rparr>,
       rtj_actions := [], rtj_payloadBytes := 0\<rparr>"

text \<open>The end of a turn: the rest of a cancelled job is dropped, and a job with actions left joins the end.\<close>

definition end_turn :: "rat \<Rightarrow> nat \<Rightarrow> rule_job \<Rightarrow> task_queue \<Rightarrow> task_queue" where
  "end_turn now i j q =
     (let j1 = (if rtj_cancel j then cancel_rest j else j) in
      if job_completed j1 = job_total j1
      then (set_rule_job i (finish_job now j1) q)\<lparr>rtq_active := None, rtq_phase := Drain_Yielding\<rparr>
      else (set_rule_job i j1 q)\<lparr>rtq_ready := rtq_ready q @ [i], rtq_active := None, rtq_phase := Drain_Yielding\<rparr>)"

definition drain_turn :: "rat \<Rightarrow> task_queue \<Rightarrow> task_queue" where
  "drain_turn now q =
     (case rtq_ready q of
        [] \<Rightarrow> q\<lparr>rtq_active := None, rtq_phase := Drain_Off\<rparr>
      | i # rest \<Rightarrow>
          (case jm_get (rtq_jobs q) i of
             None \<Rightarrow> q\<lparr>rtq_ready := rest, rtq_active := None, rtq_phase := Drain_Off\<rparr>
           | Some j \<Rightarrow>
               (let q1 = q\<lparr>rtq_ready := rest, rtq_active := Some i\<rparr> in
                if rtj_cancel j then end_turn now i j q1
                else (set_rule_job i (j\<lparr>rtj_snapshot := (rtj_snapshot j)\<lparr>rts_state := T_Running\<rparr>\<rparr>) q1)\<lparr>rtq_phase := Drain_Executing i,
                  rtq_log := rtq_log q @ [(i, job_completed j)]\<rparr>)))"

text \<open>What \<open>execute\<close> answered: a value, or an error that may end the job.\<close>

datatype exec_outcome = Exec_Value "task_value option" | Exec_Error string bool

definition result_of :: "nat \<Rightarrow> exec_outcome \<Rightarrow> rule_result" where
  "result_of index outcome =
     (case outcome of
        Exec_Value v \<Rightarrow> \<lparr>rtr_index = index,
          rtr_status = (if (case v of Some w \<Rightarrow> rtv_skipped w | None \<Rightarrow> False) then Skipped else Succeeded), rtr_error = None, rtr_value = v\<rparr>
      | Exec_Error e stop \<Rightarrow> \<lparr>rtr_index = index, rtr_status = Failed, rtr_error = Some (List.take 300 e), rtr_value = None\<rparr>)"

definition record_result :: "exec_outcome \<Rightarrow> rule_job \<Rightarrow> rule_job" where
  "record_result outcome j =
     (let index = job_completed j; result = result_of index outcome; s = rtj_snapshot j; status = rtr_status result in
      j\<lparr>rtj_cancel := (rtj_cancel j \<or> (case outcome of Exec_Error _ stop \<Rightarrow> stop | Exec_Value _ \<Rightarrow> False)),
        rtj_results := rtj_results j @ [result],
        rtj_snapshot := s\<lparr>rts_completed := index + 1,
          rts_failed := rts_failed s + (if status = Failed then 1 else 0), rts_skipped := rts_skipped s + (if status = Skipped then 1 else 0),
          rts_succeeded := rts_succeeded s + (if status = Succeeded then 1 else 0)\<rparr>,
        rtj_actions := (rtj_actions j)[index := None]\<rparr>)"

definition execute_returned :: "exec_outcome \<Rightarrow> rat \<Rightarrow> task_queue \<Rightarrow> task_queue" where
  "execute_returned outcome now q =
     (case rtq_phase q of
        Drain_Executing i \<Rightarrow> (case jm_get (rtq_jobs q) i of Some j \<Rightarrow> end_turn now i (record_result outcome j) q | None \<Rightarrow> q)
      | _ \<Rightarrow> q)"

definition task_drain :: "rat \<Rightarrow> task_queue \<Rightarrow> task_queue" where
  "task_drain now q =
     (let q1 = q\<lparr>rtq_wakeups := rtq_wakeups q - 1\<rparr> in if rtq_phase q \<noteq> Drain_Off then q1 else drain_turn now q1)"

text \<open>What the event loop runs: a scheduled call of \<open>drain\<close>, the answer of \<open>execute\<close>, and the turn after a pause.\<close>

inductive writer_step :: "task_queue \<Rightarrow> task_queue \<Rightarrow> bool" where
  step_wake: "0 < rtq_wakeups q \<Longrightarrow> writer_step q (task_drain now q)"
| step_execute: "rtq_phase q = Drain_Executing i \<Longrightarrow> writer_step q (execute_returned outcome now q)"
| step_yield: "rtq_phase q = Drain_Yielding \<Longrightarrow> writer_step q (drain_turn now q)"

inductive task_step :: "task_options \<Rightarrow> (task_request \<Rightarrow> nat) \<Rightarrow> (task_request \<Rightarrow> string) \<Rightarrow> task_queue \<Rightarrow> task_queue \<Rightarrow> bool"
  for options byteLength digest where
  step_enqueue: "task_enqueue options byteLength digest actor request now q = (r, q') \<Longrightarrow> task_step options byteLength digest q q'"
| step_cancel: "task_cancel userId i q = (r, q') \<Longrightarrow> task_step options byteLength digest q q'"
| step_read: "task_step options byteLength digest q (task_prune options now q)"
| step_writer: "writer_step q q' \<Longrightarrow> task_step options byteLength digest q q'"

abbreviation task_reachable :: "task_options \<Rightarrow> (task_request \<Rightarrow> nat) \<Rightarrow> (task_request \<Rightarrow> string) \<Rightarrow> task_queue \<Rightarrow> bool" where
  "task_reachable options byteLength digest \<equiv> (task_step options byteLength digest)\<^sup>*\<^sup>* RuleTaskQueue"

section \<open>Jobs that are right\<close>

definition status_count :: "result_status \<Rightarrow> rule_job \<Rightarrow> nat" where
  "status_count s j = length (filter (\<lambda>r. rtr_status r = s) (rtj_results j))"

text \<open>The results are those of the first actions in order, those that were cancelled come last, and the counters agree.\<close>

definition job_counts :: "nat \<Rightarrow> rule_job \<Rightarrow> bool" where
  "job_counts i j \<longleftrightarrow>
     rts_id (rtj_snapshot j) = i \<and> job_completed j \<le> job_total j \<and> 0 < job_total j \<and>
     map rtr_index (rtj_results j) = [0..<job_completed j] \<and>
     rts_cancelled (rtj_snapshot j) \<le> job_completed j \<and>
     map (\<lambda>r. rtr_status r = Cancelled) (rtj_results j) =
       replicate (job_completed j - rts_cancelled (rtj_snapshot j)) False @ replicate (rts_cancelled (rtj_snapshot j)) True \<and>
     rts_succeeded (rtj_snapshot j) = status_count Succeeded j \<and> rts_failed (rtj_snapshot j) = status_count Failed j \<and>
     rts_skipped (rtj_snapshot j) = status_count Skipped j"

definition rule_job_ok :: "nat \<Rightarrow> rule_job \<Rightarrow> bool" where
  "rule_job_ok i j \<longleftrightarrow> job_counts i j \<and> (finished j \<longleftrightarrow> job_completed j = job_total j) \<and>
     (\<not> finished j \<longrightarrow> rts_cancelled (rtj_snapshot j) = 0) \<and> (finished j \<longrightarrow> rtj_payloadBytes j = 0)"

lemma new_job_ok: "trq_actions request \<noteq> [] \<Longrightarrow> rule_job_ok i (new_rule_job i actor request hash bytes now)"
  by (simp add: rule_job_ok_def job_counts_def new_rule_job_def finished_def job_completed_def job_total_def status_count_def)

lemma counts_cancel_rest:
  assumes "job_counts i j" "rts_cancelled (rtj_snapshot j) = 0"
  shows "job_counts i (cancel_rest j)" "job_completed (cancel_rest j) = job_total (cancel_rest j)" "job_total (cancel_rest j) = job_total j"
    "finished (cancel_rest j) = finished j" "rts_cancelled (rtj_snapshot (cancel_rest j)) = job_total j - job_completed j"
    "rtj_actor (cancel_rest j) = rtj_actor j"
proof -
  let ?c = "job_completed j" and ?t = "job_total j"
  have le: "?c \<le> ?t" and m: "max ?c ?t = ?t" using assms by (simp_all add: job_counts_def max_def)
  have f: "job_completed (cancel_rest j) = ?t" "job_total (cancel_rest j) = ?t" "rts_id (rtj_snapshot (cancel_rest j)) = rts_id (rtj_snapshot j)"
    "rts_cancelled (rtj_snapshot (cancel_rest j)) = ?t - ?c"
    "rtj_results (cancel_rest j) = rtj_results j @
       map (\<lambda>k. \<lparr>rtr_index = k, rtr_status = Cancelled, rtr_error = None, rtr_value = None\<rparr>) [?c..<?t]"
    using m assms(2) by (simp_all add: cancel_rest_def Let_def job_completed_def job_total_def)
  have c: "status_count s (cancel_rest j) = status_count s j" if "s \<noteq> Cancelled" for s
    using that by (auto simp: status_count_def f filter_empty_conv)
  show "job_completed (cancel_rest j) = job_total (cancel_rest j)" "job_total (cancel_rest j) = ?t"
    "rts_cancelled (rtj_snapshot (cancel_rest j)) = ?t - ?c" using f by simp_all
  show "finished (cancel_rest j) = finished j" "rtj_actor (cancel_rest j) = rtj_actor j"
    by (simp_all add: cancel_rest_def Let_def finished_def)
  have "[0..<?t] = [0..<?c] @ [?c..<?t]" using le by (metis le0 le_add_diff_inverse upt_add_eq_append)
  then have "map rtr_index (rtj_results (cancel_rest j)) = [0..<?t]" using assms by (simp add: f job_counts_def comp_def)
  moreover have "map (\<lambda>r. rtr_status r = Cancelled) (rtj_results (cancel_rest j)) = replicate ?c False @ replicate (?t - ?c) True"
    using assms by (simp add: f job_counts_def comp_def map_replicate_const)
  ultimately show "job_counts i (cancel_rest j)"
    using assms le c [of Succeeded] c [of Failed] c [of Skipped]
    unfolding job_counts_def f by (simp add: cancel_rest_def Let_def)
qed

lemma counts_record:
  assumes "job_counts i j" "rts_cancelled (rtj_snapshot j) = 0" "job_completed j < job_total j"
  shows "job_counts i (record_result outcome j)" "job_completed (record_result outcome j) = job_completed j + 1"
    "job_total (record_result outcome j) = job_total j" "rts_cancelled (rtj_snapshot (record_result outcome j)) = 0"
    "finished (record_result outcome j) = finished j" "rtj_actor (record_result outcome j) = rtj_actor j"
proof -
  let ?j = "record_result outcome j" and ?r = "result_of (job_completed j) outcome"
  show f: "job_completed ?j = job_completed j + 1" "job_total ?j = job_total j" "rts_cancelled (rtj_snapshot ?j) = 0"
    "finished ?j = finished j" "rtj_actor ?j = rtj_actor j"
    using assms(2) by (simp_all add: record_result_def Let_def job_completed_def job_total_def finished_def)
  have r: "rtj_results ?j = rtj_results j @ [?r]" "rts_id (rtj_snapshot ?j) = rts_id (rtj_snapshot j)"
    by (simp_all add: record_result_def Let_def)
  have n: "rtr_status ?r \<noteq> Cancelled" "rtr_index ?r = job_completed j" by (simp_all add: result_of_def split: exec_outcome.split)
  have "map (\<lambda>r. rtr_status r = Cancelled) (rtj_results ?j) = replicate (job_completed j + 1) False"
    using assms(1,2) n(1) by (simp add: r job_counts_def replicate_append_same flip: replicate_Suc)
  moreover have "rts_succeeded (rtj_snapshot ?j) = status_count Succeeded ?j" "rts_failed (rtj_snapshot ?j) = status_count Failed ?j"
    "rts_skipped (rtj_snapshot ?j) = status_count Skipped ?j"
    using assms(1) by (auto simp: record_result_def Let_def status_count_def job_counts_def)
  ultimately show "job_counts i ?j" using assms n(2) unfolding job_counts_def f r by simp
qed

lemma finish_job_fields [simp]:
  "job_counts i (finish_job now j) = job_counts i j" "finished (finish_job now j)" "job_completed (finish_job now j) = job_completed j"
  "job_total (finish_job now j) = job_total j" "rts_cancelled (rtj_snapshot (finish_job now j)) = rts_cancelled (rtj_snapshot j)"
  "rtj_payloadBytes (finish_job now j) = 0" "rtj_actor (finish_job now j) = rtj_actor j"
  by (simp_all add: finish_job_def job_counts_def status_count_def job_completed_def job_total_def finished_def)

section \<open>The invariant of the queue\<close>

definition started :: "task_queue \<Rightarrow> nat \<Rightarrow> nat list" where
  "started q i = map snd (filter (\<lambda>e. fst e = i) (rtq_log q))"

definition log_ok :: "task_queue \<Rightarrow> bool" where
  "log_ok q \<longleftrightarrow> (\<forall>k. \<exists>n. started q k = [0..<n]) \<and> (\<forall>k \<ge> rtq_next q. started q k = [])"

text \<open>The number of actions of a job that came to an end.\<close>

definition carried_out :: "rule_job \<Rightarrow> nat" where
  "carried_out j = job_completed j - rts_cancelled (rtj_snapshot j)"

definition rtq_ok :: "task_queue \<Rightarrow> bool" where
  "rtq_ok q \<longleftrightarrow> jm_ok (rtq_jobs q) \<and>
     (\<forall>i j. jm_get (rtq_jobs q) i = Some j \<longrightarrow> i < rtq_next q \<and> rule_job_ok i j \<and>
        started q i = [0..<carried_out j + (if rtq_active q = Some i then 1 else 0)]) \<and>
     distinct (rtq_ready q) \<and>
     (\<forall>i. i \<in> set (rtq_ready q) \<longleftrightarrow> rtq_active q \<noteq> Some i \<and> (\<exists>j. jm_get (rtq_jobs q) i = Some j \<and> \<not> finished j)) \<and>
     (\<forall>i. rtq_active q = Some i \<longleftrightarrow> rtq_phase q = Drain_Executing i) \<and>
     (\<forall>i. rtq_active q = Some i \<longrightarrow> (\<exists>j. jm_get (rtq_jobs q) i = Some j \<and> \<not> finished j)) \<and>
     (rtq_ready q \<noteq> [] \<and> rtq_phase q = Drain_Off \<longrightarrow> 0 < rtq_wakeups q) \<and> log_ok q"

text \<open>The same but for one job whose turn it is.\<close>

definition others_ok :: "nat \<Rightarrow> task_queue \<Rightarrow> bool" where
  "others_ok i q \<longleftrightarrow> jm_ok (rtq_jobs q) \<and>
     (\<forall>k j. k \<noteq> i \<and> jm_get (rtq_jobs q) k = Some j \<longrightarrow> k < rtq_next q \<and> rule_job_ok k j \<and> started q k = [0..<carried_out j]) \<and>
     distinct (rtq_ready q) \<and> i \<notin> set (rtq_ready q) \<and> i < rtq_next q \<and>
     (\<forall>k. k \<noteq> i \<longrightarrow> (k \<in> set (rtq_ready q) \<longleftrightarrow> (\<exists>j. jm_get (rtq_jobs q) k = Some j \<and> \<not> finished j))) \<and> log_ok q"

lemma upt_exists [simp]: "\<exists>n. [] = [0..<n]" "\<exists>n. [0..<m] @ [m] = [0..<n]"
  by (rule exI [of _ 0], simp) (rule exI [of _ "m + 1"], simp)

lemma started_cong: "rtq_log q' = rtq_log q \<Longrightarrow> started q' i = started q i"
  by (simp add: started_def)

lemma log_ok_cong: "rtq_log q' = rtq_log q \<Longrightarrow> rtq_next q' = rtq_next q \<Longrightarrow> log_ok q' = log_ok q"
  by (simp add: log_ok_def started_def)

lemma rtq_okD:
  assumes "rtq_ok q"
  shows "jm_ok (rtq_jobs q)" "distinct (rtq_ready q)" "log_ok q"
    "jm_get (rtq_jobs q) i = Some j \<Longrightarrow> i < rtq_next q" "jm_get (rtq_jobs q) i = Some j \<Longrightarrow> rule_job_ok i j"
    "jm_get (rtq_jobs q) i = Some j \<Longrightarrow> started q i = [0..<carried_out j + (if rtq_active q = Some i then 1 else 0)]"
    "i \<in> set (rtq_ready q) \<longleftrightarrow> rtq_active q \<noteq> Some i \<and> (\<exists>j. jm_get (rtq_jobs q) i = Some j \<and> \<not> finished j)"
    "rtq_active q = Some i \<longleftrightarrow> rtq_phase q = Drain_Executing i"
    "rtq_active q = Some i \<Longrightarrow> \<exists>j. jm_get (rtq_jobs q) i = Some j \<and> \<not> finished j"
    "rtq_ready q \<noteq> [] \<Longrightarrow> rtq_phase q = Drain_Off \<Longrightarrow> 0 < rtq_wakeups q"
  using assms unfolding rtq_ok_def by blast+

lemma others_ok_active: "rtq_ok q \<Longrightarrow> rtq_active q = Some i \<Longrightarrow> others_ok i q"
  unfolding rtq_ok_def others_ok_def by auto

lemma others_ok_head:
  assumes "rtq_ok q" "rtq_active q = None" "rtq_ready q = i # rest"
  shows "others_ok i (q\<lparr>rtq_ready := rest, rtq_active := a\<rparr>)"
proof -
  have d: "distinct (i # rest)" using rtq_okD(2) [OF assms(1)] assms(3) by simp
  have "i \<in> set (rtq_ready q)" using assms(3) by simp
  then obtain j where "jm_get (rtq_jobs q) i = Some j" using rtq_okD(7) [OF assms(1)] by blast
  then have i: "i < rtq_next q" by (rule rtq_okD(4) [OF assms(1)])
  have r: "k \<in> set rest \<longleftrightarrow> (\<exists>j. jm_get (rtq_jobs q) k = Some j \<and> \<not> finished j)" if "k \<noteq> i" for k
    using rtq_okD(7) [OF assms(1), of k] assms(2,3) that by simp
  show ?thesis
    using d i r rtq_okD(1,3) [OF assms(1)] rtq_okD(4,5,6) [OF assms(1)] assms(2) unfolding others_ok_def
    by (simp add: log_ok_def started_def)
qed

lemma end_turn_ok:
  assumes o: "others_ok i q" and c: "job_counts i j" "rts_cancelled (rtj_snapshot j) = 0" "\<not> finished j"
    and st: "started q i = [0..<job_completed j]"
  shows "rtq_ok (end_turn now i j q)"
proof -
  let ?j = "if rtj_cancel j then cancel_rest j else j"
  have j: "job_counts i ?j" "job_total ?j = job_total j" "\<not> finished ?j" "carried_out ?j = job_completed j"
    using c counts_cancel_rest [OF c(1,2)] by (auto simp: carried_out_def job_counts_def)
  have q: "jm_ok (rtq_jobs q)" "distinct (rtq_ready q)" "i \<notin> set (rtq_ready q)" "i < rtq_next q" "log_ok q"
    "\<And>k j. k \<noteq> i \<Longrightarrow> jm_get (rtq_jobs q) k = Some j \<Longrightarrow> k < rtq_next q \<and> rule_job_ok k j \<and> started q k = [0..<carried_out j]"
    "\<And>k. k \<noteq> i \<Longrightarrow> k \<in> set (rtq_ready q) \<longleftrightarrow> (\<exists>j. jm_get (rtq_jobs q) k = Some j \<and> \<not> finished j)"
    using o unfolding others_ok_def by blast+
  show ?thesis
  proof (cases "job_completed ?j = job_total ?j")
    case True
    let ?q = "(set_rule_job i (finish_job now ?j) q)\<lparr>rtq_active := None, rtq_phase := Drain_Yielding\<rparr>"
    have e: "end_turn now i j q = ?q" unfolding end_turn_def Let_def if_P [OF True] by (rule refl)
    have "rule_job_ok i (finish_job now ?j)" "carried_out (finish_job now ?j) = job_completed j"
      using True j by (simp_all add: rule_job_ok_def carried_out_def)
    then have "jm_get (rtq_jobs ?q) k = Some m \<Longrightarrow> k < rtq_next ?q \<and> rule_job_ok k m \<and> started ?q k = [0..<carried_out m]" for k m
      using q(4,6) st by (cases "k = i") (auto simp: set_rule_job_def started_def)
    moreover have "k \<in> set (rtq_ready ?q) \<longleftrightarrow> (\<exists>m. jm_get (rtq_jobs ?q) k = Some m \<and> \<not> finished m)" for k
      using q(3,7) by (cases "k = i") (auto simp: set_rule_job_def)
    moreover have "log_ok ?q" using q(5) by (simp add: log_ok_def started_def set_rule_job_def)
    ultimately show ?thesis unfolding e rtq_ok_def using q(1,2) by (simp add: set_rule_job_def)
  next
    case False
    let ?q = "(set_rule_job i ?j q)\<lparr>rtq_ready := rtq_ready q @ [i], rtq_active := None, rtq_phase := Drain_Yielding\<rparr>"
    have e: "end_turn now i j q = ?q" unfolding end_turn_def Let_def if_not_P [OF False] by (rule refl)
    have n: "\<not> rtj_cancel j" using False counts_cancel_rest(2) [OF c(1,2)] by (auto split: if_splits)
    then have "rule_job_ok i ?j" using c False by (simp add: rule_job_ok_def)
    then have "jm_get (rtq_jobs ?q) k = Some m \<Longrightarrow> k < rtq_next ?q \<and> rule_job_ok k m \<and> started ?q k = [0..<carried_out m]" for k m
      using q(4,6) st j(4) by (cases "k = i") (auto simp: set_rule_job_def started_def)
    moreover have "k \<in> set (rtq_ready ?q) \<longleftrightarrow> (\<exists>m. jm_get (rtq_jobs ?q) k = Some m \<and> \<not> finished m)" for k
      using q(3,7) j(3) by (cases "k = i") (auto simp: set_rule_job_def)
    moreover have "log_ok ?q" using q(5) by (simp add: log_ok_def started_def set_rule_job_def)
    ultimately show ?thesis unfolding e rtq_ok_def using q(1,2,3) by (simp add: set_rule_job_def)
  qed
qed

lemma unfinished_counts:
  assumes "rtq_ok q" "jm_get (rtq_jobs q) i = Some j" "\<not> finished j"
  shows "job_counts i j" "rts_cancelled (rtj_snapshot j) = 0" "job_completed j < job_total j" "carried_out j = job_completed j"
proof -
  have "rule_job_ok i j" by (rule rtq_okD(5) [OF assms(1,2)])
  then show "job_counts i j" "rts_cancelled (rtj_snapshot j) = 0" "job_completed j < job_total j" "carried_out j = job_completed j"
    using assms(3) by (auto simp: rule_job_ok_def job_counts_def carried_out_def)
qed

lemma started_snoc: "started (q\<lparr>rtq_log := rtq_log q @ [(i, n)]\<rparr>) k = (if k = i then started q i @ [n] else started q k)"
  by (simp add: started_def)

lemma drain_turn_ok:
  assumes ok: "rtq_ok q" and act: "rtq_active q = None"
  shows "rtq_ok (drain_turn now q)"
proof (cases "rtq_ready q")
  case Nil
  then show ?thesis using ok act unfolding rtq_ok_def drain_turn_def by (auto simp: log_ok_def started_def)
next
  case (Cons i rest)
  have "i \<in> set (rtq_ready q)" using Cons by simp
  then obtain j where j: "jm_get (rtq_jobs q) i = Some j" "\<not> finished j" using rtq_okD(7) [OF ok] by blast
  note c = unfinished_counts [OF ok j]
  have st: "started q i = [0..<job_completed j]" using rtq_okD(6) [OF ok j(1)] act c(4) by simp
  show ?thesis
  proof (cases "rtj_cancel j")
    case True
    then have "drain_turn now q = end_turn now i j (q\<lparr>rtq_ready := rest, rtq_active := Some i\<rparr>)"
      using Cons j by (simp add: drain_turn_def)
    then show ?thesis using end_turn_ok [OF others_ok_head [OF ok act Cons] c(1,2) j(2)] st by (simp add: started_def)
  next
    case False
    let ?j = "j\<lparr>rtj_snapshot := (rtj_snapshot j)\<lparr>rts_state := T_Running\<rparr>\<rparr>"
    let ?q = "(set_rule_job i ?j (q\<lparr>rtq_ready := rest, rtq_active := Some i\<rparr>))\<lparr>rtq_phase := Drain_Executing i, rtq_log := rtq_log q @ [(i, job_completed j)]\<rparr>"
    have e: "drain_turn now q = ?q" using Cons j False by (simp add: drain_turn_def)
    note o = others_ok_head [OF ok act Cons, of "Some i"]
    have jj: "rule_job_ok i ?j" "\<not> finished ?j" "carried_out ?j = carried_out j"
      using rtq_okD(5) [OF ok j(1)] j(2)
      by (simp_all add: rule_job_ok_def job_counts_def finished_def job_completed_def job_total_def status_count_def carried_out_def)
    have s: "started ?q k = (if k = i then [0..<job_completed j + 1] else started q k)" for k
      using st by (simp add: started_def)
    have "jm_get (rtq_jobs ?q) k = Some m \<Longrightarrow> k < rtq_next ?q \<and> rule_job_ok k m \<and>
        started ?q k = [0..<carried_out m + (if rtq_active ?q = Some k then 1 else 0)]" for k m
      using o jj c(4) unfolding s by (cases "k = i") (auto simp: others_ok_def set_rule_job_def started_def)
    moreover have "k \<in> set (rtq_ready ?q) \<longleftrightarrow> rtq_active ?q \<noteq> Some k \<and> (\<exists>m. jm_get (rtq_jobs ?q) k = Some m \<and> \<not> finished m)" for k
      using o by (cases "k = i") (auto simp: others_ok_def set_rule_job_def)
    moreover have "log_ok ?q"
    proof -
      have l: "log_ok q" "i < rtq_next q" using o by (simp_all add: others_ok_def log_ok_def started_def)
      have "\<exists>n. started ?q k = [0..<n]" for k using l(1) unfolding s log_ok_def by (cases "k = i") auto
      moreover have "started ?q k = []" if "rtq_next q \<le> k" for k using that l unfolding s log_ok_def by auto
      ultimately show ?thesis unfolding log_ok_def by (simp add: set_rule_job_def)
    qed
    ultimately show ?thesis unfolding e rtq_ok_def using o jj(2) by (simp add: others_ok_def set_rule_job_def)
  qed
qed

lemma execute_returned_ok:
  assumes ok: "rtq_ok q" and ph: "rtq_phase q = Drain_Executing i"
  shows "rtq_ok (execute_returned outcome now q)"
proof -
  have act: "rtq_active q = Some i" using ph rtq_okD(8) [OF ok] by blast
  then obtain j where j: "jm_get (rtq_jobs q) i = Some j" "\<not> finished j" using rtq_okD(9) [OF ok] by blast
  note c = unfinished_counts [OF ok j] and r = counts_record [OF unfinished_counts(1,2,3) [OF ok j], of outcome]
  have "started q i = [0..<job_completed (record_result outcome j)]"
    using rtq_okD(6) [OF ok j(1)] act c(4) r(2) by simp
  from end_turn_ok [OF others_ok_active [OF ok act] r(1,4) _ this] j(2) r(5)
  show ?thesis using ph j by (simp add: execute_returned_def)
qed


lemma prune_ok: "rtq_ok q \<Longrightarrow> rtq_ok (task_prune options now q)"
proof -
  assume ok: "rtq_ok q"
  have g: "jm_get (rtq_jobs (task_prune options now q)) i =
      (case jm_get (rtq_jobs q) i of None \<Rightarrow> None | Some j \<Rightarrow>
         if (case rts_finishedAt (rtj_snapshot j) of Some t \<Rightarrow> t < now - rto_retentionMs options | None \<Rightarrow> False) then None else Some j)" for i
    using rtq_okD(1) [OF ok] by (simp add: task_prune_def jm_get_prune)
  have sub: "jm_get (rtq_jobs (task_prune options now q)) i = Some j \<Longrightarrow> jm_get (rtq_jobs q) i = Some j" for i j
    unfolding g by (auto split: option.splits if_splits)
  have un: "(\<exists>j. jm_get (rtq_jobs (task_prune options now q)) i = Some j \<and> \<not> finished j) \<longleftrightarrow>
      (\<exists>j. jm_get (rtq_jobs q) i = Some j \<and> \<not> finished j)" for i
    unfolding g by (auto simp: finished_def split: option.splits)
  have f: "rtq_ready (task_prune options now q) = rtq_ready q" "rtq_active (task_prune options now q) = rtq_active q"
    "rtq_phase (task_prune options now q) = rtq_phase q" "rtq_wakeups (task_prune options now q) = rtq_wakeups q"
    "rtq_next (task_prune options now q) = rtq_next q" "rtq_log (task_prune options now q) = rtq_log q"
    "jm_ok (rtq_jobs (task_prune options now q))"
    using rtq_okD(1) [OF ok] by (simp_all add: task_prune_def)
  show ?thesis
    using ok sub unfolding rtq_ok_def un f by (simp add: f(7) started_def log_ok_def f(5,6))
qed

lemma evict_finished_props:
  assumes "evict_finished maxJobs n es jobs retained = (jobs', retained')" "jm_ok jobs"
    and "\<And>i j. (i, j) \<in> set es \<Longrightarrow> jm_get jobs i = Some j" "distinct (map fst es)" "retained = jm_sum job_total jobs"
  shows "jm_ok jobs'" "retained' = jm_sum job_total jobs'" "length jobs' \<le> length jobs"
    "jm_get jobs' i = Some j \<Longrightarrow> jm_get jobs i = Some j"
    "jm_get jobs i = Some j \<Longrightarrow> \<not> finished j \<Longrightarrow> jm_get jobs' i = Some j"
proof -
  have "jm_ok jobs' \<and> retained' = jm_sum job_total jobs' \<and> length jobs' \<le> length jobs \<and>
    (\<forall>i j. jm_get jobs' i = Some j \<longrightarrow> jm_get jobs i = Some j) \<and>
    (\<forall>i j. jm_get jobs i = Some j \<and> \<not> finished j \<longrightarrow> jm_get jobs' i = Some j)"
    using assms
  proof (induction maxJobs n es jobs retained rule: evict_finished.induct)
    case (2 maxJobs n i j es jobs retained)
    show ?case
    proof (cases "length jobs < maxJobs \<and> retained + n \<le> 20000")
      case True
      then show ?thesis using 2 by auto
    next
      case F: False
      have g: "jm_get jobs i = Some j" using 2(5) by simp
      show ?thesis
      proof (cases "finished j")
        case True
        have e: "evict_finished maxJobs n es (jm_del i jobs) (retained - job_total j) = (jobs', retained')"
          using 2(3) unfolding evict_finished.simps if_not_P [OF F] if_P [OF True] .
        have s: "retained - job_total j = jm_sum job_total (jm_del i jobs)"
          using jm_sum_del [OF 2(4) g, of job_total] 2(7) by simp
        have m: "jm_get (jm_del i jobs) k = Some l" if "(k, l) \<in> set es" for k l
          using 2(5) [of k l] 2(6) that by (auto simp: rev_image_eqI)
        have ok: "jm_ok (jm_del i jobs)" and d: "distinct (jm_keys es)" using 2(4,6) by simp_all
        have IH: "jm_ok jobs' \<and> retained' = jm_sum job_total jobs' \<and> length jobs' \<le> length (jm_del i jobs) \<and>
            (\<forall>k l. jm_get jobs' k = Some l \<longrightarrow> jm_get (jm_del i jobs) k = Some l) \<and>
            (\<forall>k l. jm_get (jm_del i jobs) k = Some l \<and> \<not> finished l \<longrightarrow> jm_get jobs' k = Some l)"
          by (rule 2(1) [OF F True e ok _ d s]) (rule m)
        have "length (jm_del i jobs) \<le> length jobs" using 2(4) by (simp add: jm_length_del)
        moreover have "jm_get jobs k = Some l" if "jm_get (jm_del i jobs) k = Some l" for k l using that by (simp split: if_splits)
        moreover have "jm_get (jm_del i jobs) k = Some l" if "jm_get jobs k = Some l" "\<not> finished l" for k l
          using that True g by (cases "k = i") simp_all
        ultimately show ?thesis using IH by (meson le_trans)
      next
        case False
        have e: "evict_finished maxJobs n es jobs retained = (jobs', retained')"
          using 2(3) unfolding evict_finished.simps if_not_P [OF F] if_not_P [OF False] .
        show ?thesis by (rule 2(2) [OF F False e 2(4) _ _ 2(7)]) (use 2(5,6) in auto)
      qed
    qed
  qed auto
  then show "jm_ok jobs'" "retained' = jm_sum job_total jobs'" "length jobs' \<le> length jobs"
    "jm_get jobs' i = Some j \<Longrightarrow> jm_get jobs i = Some j"
    "jm_get jobs i = Some j \<Longrightarrow> \<not> finished j \<Longrightarrow> jm_get jobs' i = Some j"
    by blast+
qed

lemma restrict_ok:
  assumes ok: "rtq_ok q" and jm: "jm_ok jobs'"
    and sub: "\<And>i j. jm_get jobs' i = Some j \<Longrightarrow> jm_get (rtq_jobs q) i = Some j"
    and un: "\<And>i j. jm_get (rtq_jobs q) i = Some j \<Longrightarrow> \<not> finished j \<Longrightarrow> jm_get jobs' i = Some j"
  shows "rtq_ok (q\<lparr>rtq_jobs := jobs'\<rparr>)"
proof -
  have "(\<exists>j. jm_get jobs' i = Some j \<and> \<not> finished j) \<longleftrightarrow> (\<exists>j. jm_get (rtq_jobs q) i = Some j \<and> \<not> finished j)" for i
    using sub un by blast
  then show ?thesis
    using ok jm sub unfolding rtq_ok_def by (simp add: started_def log_ok_def)
qed

lemma add_job_ok:
  assumes ok: "rtq_ok q" and ne: "trq_actions request \<noteq> []"
  defines "i \<equiv> rtq_next q"
  shows "rtq_ok (q\<lparr>rtq_jobs := jm_set i (new_rule_job i actor request hash bytes now) (rtq_jobs q), rtq_ready := rtq_ready q @ [i],
      rtq_next := i + 1, rtq_wakeups := rtq_wakeups q + 1\<rparr>)"
proof -
  let ?j = "new_rule_job i actor request hash bytes now"
  have new: "jm_get (rtq_jobs q) i = None" using rtq_okD(4) [OF ok, of i] by (cases "jm_get (rtq_jobs q) i") (auto simp: i_def)
  have ready: "i \<notin> set (rtq_ready q)" using rtq_okD(7) [OF ok, of i] new by auto
  have act: "rtq_active q \<noteq> Some i" using rtq_okD(9) [OF ok, of i] new by auto
  have log: "started q i = []" "log_ok q" using rtq_okD(3) [OF ok] by (simp_all add: log_ok_def i_def)
  have j: "rule_job_ok i ?j" "\<not> finished ?j" "carried_out ?j = 0"
    using new_job_ok [OF ne] by (simp_all add: new_rule_job_def finished_def carried_out_def job_completed_def)
  show ?thesis
    using ok new ready act log j unfolding rtq_ok_def
    by (auto simp: started_def log_ok_def less_Suc_eq i_def)
qed

lemma task_enqueue_ok:
  assumes ok: "rtq_ok q" and e: "task_enqueue options byteLength digest actor request now q = (r, q')"
  shows "rtq_ok q'"
proof -
  let ?q = "task_prune options now q" and ?n = "length (trq_actions request)"
  have p: "rtq_ok ?q" by (rule prune_ok [OF ok])
  obtain jobs' retained where v: "evict_finished (rto_maxJobs options) ?n (rtq_jobs ?q) (rtq_jobs ?q) (jm_sum job_total (rtq_jobs ?q)) =
    (jobs', retained)" by (metis surj_pair)
  note E = evict_finished_props [OF v rtq_okD(1) [OF p] jm_in_set_get [OF rtq_okD(1) [OF p]] rtq_okD(1) [OF p, unfolded jm_ok_def] refl]
  have q1: "rtq_ok (?q\<lparr>rtq_jobs := jobs'\<rparr>)" by (rule restrict_ok [OF p E(1)]) (use E(4,5) in blast)+
  show ?thesis
  proof (cases "2 * 1024 * 1024 < byteLength request \<or> ?n = 0 \<or> 5000 < ?n")
    case True
    then show ?thesis using e p by (simp add: task_enqueue_def Let_def)
  next
    case False
    then have ne: "trq_actions request \<noteq> []" by auto
    show ?thesis
      using e p q1 add_job_ok [OF q1 ne, of actor "digest request" "byteLength request" now] v
      unfolding task_enqueue_def Let_def if_not_P [OF False]
      by (auto split: option.splits if_splits)
  qed
qed

lemma cancel_ok:
  assumes ok: "rtq_ok q" and e: "task_cancel userId i q = (r, q')"
  shows "rtq_ok q'"
proof -
  have main: "rtq_ok (set_rule_job i (j\<lparr>rtj_cancel := True\<rparr>) (q\<lparr>rtq_wakeups := rtq_wakeups q + 1\<rparr>))"
    if j: "jm_get (rtq_jobs q) i = Some j" "\<not> finished j" for j
  proof -
    let ?j = "j\<lparr>rtj_cancel := True\<rparr>"
    have jj: "rule_job_ok i ?j" "\<not> finished ?j" "carried_out ?j = carried_out j"
      using rtq_okD(5) [OF ok j(1)] j(2)
      by (simp_all add: rule_job_ok_def job_counts_def finished_def job_completed_def job_total_def status_count_def carried_out_def)
    show ?thesis
      using ok jj j unfolding rtq_ok_def set_rule_job_def by (auto simp: started_def log_ok_def)
  qed
  show ?thesis using e ok main by (auto simp: task_cancel_def Let_def split: option.splits if_splits)
qed

lemma writer_ok:
  assumes ok: "rtq_ok q" and step: "writer_step q q'"
  shows "rtq_ok q'"
  using step
proof cases
  case (step_wake now)
  have act: "rtq_phase q = Drain_Off \<Longrightarrow> rtq_active q = None" using rtq_okD(8) [OF ok] by (cases "rtq_active q") auto
  have w: "rtq_ok (q\<lparr>rtq_wakeups := n\<rparr>)" if "rtq_phase q \<noteq> Drain_Off" for n
    using ok that unfolding rtq_ok_def by (simp add: started_def log_ok_def)
  show ?thesis
  proof (cases "rtq_phase q = Drain_Off")
    case True
    have "rtq_ok (q\<lparr>rtq_phase := Drain_Yielding\<rparr>)" using ok act [OF True] unfolding rtq_ok_def by (simp add: started_def log_ok_def True)
    then have "rtq_ok (q\<lparr>rtq_phase := Drain_Yielding, rtq_wakeups := rtq_wakeups q - 1\<rparr>)"
      unfolding rtq_ok_def by (simp add: started_def log_ok_def)
    from drain_turn_ok [OF this] have d: "rtq_ok (drain_turn now (q\<lparr>rtq_phase := Drain_Yielding, rtq_wakeups := rtq_wakeups q - 1\<rparr>))"
      using act [OF True] by simp
    have "drain_turn now (q\<lparr>rtq_phase := Drain_Yielding, rtq_wakeups := rtq_wakeups q - 1\<rparr>) = drain_turn now (q\<lparr>rtq_wakeups := rtq_wakeups q - 1\<rparr>)"
      by (auto simp: drain_turn_def end_turn_def set_rule_job_def Let_def split: list.splits option.splits)
    then show ?thesis using d step_wake True by (simp add: task_drain_def)
  next
    case False
    then show ?thesis using step_wake w by (simp add: task_drain_def)
  qed
next
  case (step_execute i outcome now)
  then show ?thesis using execute_returned_ok [OF ok] by simp
next
  case (step_yield now)
  have "rtq_active q = None" using rtq_okD(8) [OF ok] step_yield(2) by (cases "rtq_active q") auto
  then show ?thesis using drain_turn_ok [OF ok] step_yield by simp
qed

lemma task_reachable_ok: "task_reachable options byteLength digest q \<Longrightarrow> rtq_ok q"
proof (induction rule: rtranclp_induct)
  case base
  show ?case by (simp add: rtq_ok_def RuleTaskQueue_def started_def log_ok_def)
next
  case (step q q')
  from step(2) show ?case
    by cases (use step(3) task_enqueue_ok cancel_ok prune_ok writer_ok in blast)+
qed

section \<open>Every action once\<close>

lemma distinct_by_key: "(\<And>k. distinct (map snd (filter (\<lambda>e. fst e = k) xs))) \<Longrightarrow> distinct xs"
proof (induction xs)
  case (Cons e xs)
  have "distinct (map snd (filter (\<lambda>e. fst e = k) xs))" for k
    using Cons.prems [of k] by (cases "fst e = k") simp_all
  moreover have "e \<notin> set xs"
    using Cons.prems [of "fst e"] by (auto simp: image_iff)
  ultimately show ?case using Cons.IH by simp
qed simp

lemma job_counts_sum:
  assumes "job_counts i j"
  shows "rts_succeeded (rtj_snapshot j) + rts_failed (rtj_snapshot j) + rts_skipped (rtj_snapshot j) + rts_cancelled (rtj_snapshot j) = job_completed j"
    "k < job_completed j \<Longrightarrow> rtr_status (rtj_results j ! k) = Cancelled \<longleftrightarrow> carried_out j \<le> k"
proof -
  have l: "length (rtj_results j) = job_completed j" using assms unfolding job_counts_def by (metis length_map length_upt minus_nat.diff_0)
  have c: "map (\<lambda>r. rtr_status r = Cancelled) (rtj_results j) =
       replicate (carried_out j) False @ replicate (rts_cancelled (rtj_snapshot j)) True"
    using assms by (simp add: job_counts_def carried_out_def)
  have "length (filter id (map (\<lambda>r. rtr_status r = Cancelled) (rtj_results j))) = rts_cancelled (rtj_snapshot j)" unfolding c by simp
  then have "status_count Cancelled j = rts_cancelled (rtj_snapshot j)" by (simp add: status_count_def filter_map comp_def)
  moreover have "status_count Succeeded j + status_count Failed j + status_count Skipped j + status_count Cancelled j = length (rtj_results j)"
  proof -
    have "length (filter (\<lambda>r. rtr_status r = Succeeded) rs) + length (filter (\<lambda>r. rtr_status r = Failed) rs) +
        length (filter (\<lambda>r. rtr_status r = Skipped) rs) + length (filter (\<lambda>r. rtr_status r = Cancelled) rs) = length rs" for rs :: "rule_result list"
    proof (induction rs)
      case (Cons r rs)
      then show ?case by (cases "rtr_status r") simp_all
    qed simp
    then show ?thesis by (simp add: status_count_def)
  qed
  ultimately show "rts_succeeded (rtj_snapshot j) + rts_failed (rtj_snapshot j) + rts_skipped (rtj_snapshot j) + rts_cancelled (rtj_snapshot j) = job_completed j"
    using assms l by (simp add: job_counts_def)
  assume k: "k < job_completed j"
  then have "rtr_status (rtj_results j ! k) = Cancelled \<longleftrightarrow> map (\<lambda>r. rtr_status r = Cancelled) (rtj_results j) ! k" using l by simp
  also have "\<dots> \<longleftrightarrow> carried_out j \<le> k"
  proof (cases "k < carried_out j")
    case False
    then have "k - carried_out j < rts_cancelled (rtj_snapshot j)" using k unfolding carried_out_def by linarith
    then show ?thesis using False unfolding c by (simp add: nth_append)
  qed (simp add: c nth_append)
  finally show "rtr_status (rtj_results j ! k) = Cancelled \<longleftrightarrow> carried_out j \<le> k" .
qed

text \<open>
  C15. Every action of a job is carried out at most once and in order, however calls and answers are interleaved.  The results
  of a job are those of its first actions in order, they are cancelled exactly for the actions that were never started, the
  counters add up, and a job is finished exactly when it has a result for every action.
\<close>

theorem rule_tasks_carried_out_once:
  assumes "task_reachable options byteLength digest q" and "jm_get (rtq_jobs q) i = Some j"
  shows "distinct (rtq_log q) \<and> (\<exists>n. started q i = [0..<n]) \<and>
    map rtr_index (rtj_results j) = [0..<job_completed j] \<and>
    rts_succeeded (rtj_snapshot j) + rts_failed (rtj_snapshot j) + rts_skipped (rtj_snapshot j) + rts_cancelled (rtj_snapshot j) =
      job_completed j \<and>
    (\<forall>k < job_completed j. rtr_status (rtj_results j ! k) = Cancelled \<longleftrightarrow> k \<notin> set (started q i)) \<and>
    (finished j \<longleftrightarrow> job_completed j = job_total j) \<and> job_completed j \<le> job_total j"
proof -
  have ok: "rtq_ok q" by (rule task_reachable_ok [OF assms(1)])
  have j: "rule_job_ok i j" by (rule rtq_okD(5) [OF ok assms(2)])
  then have c: "job_counts i j" by (simp add: rule_job_ok_def)
  have "distinct (started q k)" for k using rtq_okD(3) [OF ok] unfolding log_ok_def by (metis distinct_upt)
  then have d: "distinct (rtq_log q)" unfolding started_def by (rule distinct_by_key)
  have st: "started q i = [0..<carried_out j + (if rtq_active q = Some i then 1 else 0)]" by (rule rtq_okD(6) [OF ok assms(2)])
  have act: "carried_out j = job_completed j" if "rtq_active q = Some i"
    using unfinished_counts(4) [OF ok assms(2)] rtq_okD(9) [OF ok that] assms(2) by auto
  have "\<forall>k < job_completed j. rtr_status (rtj_results j ! k) = Cancelled \<longleftrightarrow> k \<notin> set (started q i)"
    using job_counts_sum(2) [OF c] act unfolding st by auto
  then show ?thesis using d st job_counts_sum(1) [OF c] j by (auto simp: rule_job_ok_def job_counts_def)
qed

section \<open>Bounds\<close>

definition task_bounds :: "task_options \<Rightarrow> task_queue \<Rightarrow> bool" where
  "task_bounds options q \<longleftrightarrow> length (rtq_jobs q) \<le> rto_maxJobs options \<and> jm_sum job_total (rtq_jobs q) \<le> 20000 \<and>
     jm_sum pending_items (rtq_jobs q) \<le> rto_maxPendingItems options \<and> jm_sum pending_bytes (rtq_jobs q) \<le> 8 * 1024 * 1024 \<and>
     (\<forall>u. jm_sum (pending_of_user u) (rtq_jobs q) \<le> rto_maxUserJobs options)"

lemma jm_sum_set: "jm_get m k = Some w \<Longrightarrow> jm_sum f (jm_set k v m) + f w = jm_sum f m + f v"
  by (induction m) (auto simp: jm_sum_def split: if_splits)

lemma jm_sum_prune_le: "jm_sum f (jm_prune P m) \<le> jm_sum f m"
  by (induction m) (auto simp: jm_sum_def jm_prune_def)

text \<open>A job whose weights did not grow takes the place of another.\<close>

lemma bounds_set:
  assumes b: "task_bounds options q" and g: "jm_get (rtq_jobs q) i = Some j"
    and w: "job_total j' \<le> job_total j" "pending_items j' \<le> pending_items j" "pending_bytes j' \<le> pending_bytes j"
      "\<And>u. pending_of_user u j' \<le> pending_of_user u j"
    and q': "rtq_jobs q' = jm_set i j' (rtq_jobs q)"
  shows "task_bounds options q'"
proof -
  have s: "jm_sum f (rtq_jobs q') \<le> jm_sum f (rtq_jobs q)" if "f j' \<le> f j" for f
    using jm_sum_set [OF g, of f j'] that unfolding q' by linarith
  have "length (rtq_jobs q') = length (rtq_jobs q)"
    using jm_get_value [OF g] g unfolding q' jm_length_set by (simp add: jm_get_None_iff [symmetric] del: set_map)
  moreover have "jm_sum (pending_of_user u) (rtq_jobs q') \<le> jm_sum (pending_of_user u) (rtq_jobs q)" for u by (rule s) (rule w(4))
  ultimately show ?thesis
    using b s [OF w(1)] s [OF w(2)] s [OF w(3)] unfolding task_bounds_def by (auto intro: order_trans)
qed

lemma evict_finished_sum: "evict_finished maxJobs n es jobs retained = (jobs', retained') \<Longrightarrow> jm_sum f jobs' \<le> jm_sum f jobs"
  by (induction maxJobs n es jobs retained rule: evict_finished.induct) (auto split: if_splits intro: order_trans [OF _ jm_sum_del_le])

lemma end_turn_bounds:
  assumes b: "task_bounds options q" and g: "jm_get (rtq_jobs q) i = Some j" "\<not> finished j"
    and j': "job_counts i j'" "rts_cancelled (rtj_snapshot j') = 0" "\<not> finished j'" "job_total j' = job_total j"
      "job_completed j \<le> job_completed j'" "rtj_payloadBytes j' = rtj_payloadBytes j" "rtj_actor j' = rtj_actor j"
    and q1: "rtq_jobs q1 = rtq_jobs q"
  shows "task_bounds options (end_turn now i j' q1)"
proof -
  note C = counts_cancel_rest [OF j'(1,2)]
  have p: "rtj_payloadBytes (cancel_rest j') = rtj_payloadBytes j'" by (simp add: cancel_rest_def Let_def)
  have w: "job_total j2 \<le> job_total j" "pending_items j2 \<le> pending_items j" "pending_bytes j2 \<le> pending_bytes j"
      "pending_of_user u j2 \<le> pending_of_user u j"
    if "j2 = j' \<or> j2 = cancel_rest j' \<or> j2 = finish_job now j' \<or> j2 = finish_job now (cancel_rest j')" for j2 u
    using that g(2) j' C p by (auto simp: pending_items_def pending_bytes_def pending_of_user_def)
  have "\<exists>j2. (j2 = j' \<or> j2 = cancel_rest j' \<or> j2 = finish_job now j' \<or> j2 = finish_job now (cancel_rest j')) \<and>
      rtq_jobs (end_turn now i j' q1) = jm_set i j2 (rtq_jobs q)"
    by (auto simp: end_turn_def Let_def set_rule_job_def q1)
  then obtain j2 where j2: "j2 = j' \<or> j2 = cancel_rest j' \<or> j2 = finish_job now j' \<or> j2 = finish_job now (cancel_rest j')"
    "rtq_jobs (end_turn now i j' q1) = jm_set i j2 (rtq_jobs q)" by blast
  show ?thesis by (rule bounds_set [OF b g(1) w [OF j2(1)] j2(2)])
qed

lemma bounds_jobs: "rtq_jobs q' = rtq_jobs q \<Longrightarrow> task_bounds options q' = task_bounds options q"
  by (simp add: task_bounds_def)

lemma drain_turn_bounds:
  assumes ok: "rtq_ok q" and act: "rtq_active q = None" and b: "task_bounds options q"
  shows "task_bounds options (drain_turn now q)"
proof (cases "rtq_ready q")
  case Nil
  then show ?thesis using b by (simp add: drain_turn_def task_bounds_def)
next
  case (Cons i rest)
  have "i \<in> set (rtq_ready q)" using Cons by simp
  then obtain j where j: "jm_get (rtq_jobs q) i = Some j" "\<not> finished j" using rtq_okD(7) [OF ok] by blast
  note c = unfinished_counts [OF ok j]
  show ?thesis
  proof (cases "rtj_cancel j")
    case True
    then have e: "drain_turn now q = end_turn now i j (q\<lparr>rtq_ready := rest, rtq_active := Some i\<rparr>)"
      using Cons j by (simp add: drain_turn_def)
    show ?thesis unfolding e by (rule end_turn_bounds [OF b j c(1,2) j(2)]) simp_all
  next
    case False
    let ?j = "j\<lparr>rtj_snapshot := (rtj_snapshot j)\<lparr>rts_state := T_Running\<rparr>\<rparr>"
    have e: "rtq_jobs (drain_turn now q) = jm_set i ?j (rtq_jobs q)" using Cons j False by (simp add: drain_turn_def set_rule_job_def)
    show ?thesis
      by (rule bounds_set [OF b j(1) _ _ _ _ e])
         (simp_all add: job_total_def job_completed_def pending_items_def pending_bytes_def pending_of_user_def finished_def)
  qed
qed

lemma writer_bounds:
  assumes ok: "rtq_ok q" and b: "task_bounds options q" and step: "writer_step q q'"
  shows "task_bounds options q'"
  using step
proof cases
  case (step_wake now)
  let ?q = "q\<lparr>rtq_phase := Drain_Yielding, rtq_wakeups := rtq_wakeups q - 1\<rparr>"
  show ?thesis
  proof (cases "rtq_phase q = Drain_Off")
    case True
    then have act: "rtq_active q = None" using rtq_okD(8) [OF ok] by (cases "rtq_active q") auto
    have "rtq_ok ?q" using ok act unfolding rtq_ok_def by (simp add: started_def log_ok_def True)
    from drain_turn_bounds [OF this, of options now] act b have "task_bounds options (drain_turn now ?q)" by (simp add: task_bounds_def)
    moreover have "rtq_jobs (drain_turn now ?q) = rtq_jobs (drain_turn now (q\<lparr>rtq_wakeups := rtq_wakeups q - 1\<rparr>))"
      by (auto simp: drain_turn_def end_turn_def set_rule_job_def Let_def split: list.splits option.splits)
    ultimately show ?thesis using step_wake True by (simp add: task_drain_def task_bounds_def)
  next
    case False
    then show ?thesis using step_wake b by (simp add: task_drain_def task_bounds_def)
  qed
next
  case (step_execute i outcome now)
  have act: "rtq_active q = Some i" using step_execute(2) rtq_okD(8) [OF ok] by blast
  then obtain j where j: "jm_get (rtq_jobs q) i = Some j" "\<not> finished j" using rtq_okD(9) [OF ok] by blast
  note r = counts_record [OF unfinished_counts(1,2,3) [OF ok j], of outcome]
  have e: "q' = end_turn now i (record_result outcome j) q" using step_execute j by (simp add: execute_returned_def)
  show ?thesis unfolding e
    by (rule end_turn_bounds [OF b j r(1,4)]) (use r j in \<open>simp_all add: record_result_def Let_def\<close>)
next
  case (step_yield now)
  then have "rtq_active q = None" using rtq_okD(8) [OF ok] by (cases "rtq_active q") auto
  then show ?thesis using drain_turn_bounds [OF ok _ b] step_yield by simp
qed

lemma prune_bounds: "task_bounds options q \<Longrightarrow> task_bounds options (task_prune options' now q)"
  unfolding task_bounds_def task_prune_def
  by (auto intro: order_trans [OF jm_sum_prune_le] order_trans [OF jm_length_prune_le])

lemma enqueue_bounds:
  assumes ok: "rtq_ok q" and b: "task_bounds options q" and e: "task_enqueue options byteLength digest actor request now q = (r, q')"
  shows "task_bounds options q'"
proof -
  let ?q = "task_prune options now q" and ?n = "length (trq_actions request)" and ?bytes = "byteLength request" and ?u = "ta_userId actor"
  have p: "rtq_ok ?q" "task_bounds options ?q" using prune_ok [OF ok] prune_bounds [OF b] by blast+
  obtain jobs' retained where v: "evict_finished (rto_maxJobs options) ?n (rtq_jobs ?q) (rtq_jobs ?q) (jm_sum job_total (rtq_jobs ?q)) =
    (jobs', retained)" by (metis surj_pair)
  note E = evict_finished_props [OF v rtq_okD(1) [OF p(1)] jm_in_set_get [OF rtq_okD(1) [OF p(1)]] rtq_okD(1) [OF p(1), unfolded jm_ok_def] refl]
  note S = evict_finished_sum [OF v]
  have q1: "task_bounds options (?q\<lparr>rtq_jobs := jobs'\<rparr>)"
    using p(2) S E(3) unfolding task_bounds_def by (simp add: le_trans [OF S] le_trans [OF E(3)])
  have "rtq_next ?q = rtq_next q" by (simp add: task_prune_def)
  have new: "jm_get jobs' (rtq_next q) = None"
    using E(4) [of "rtq_next q"] rtq_okD(4) [OF p(1), of "rtq_next q"] by (cases "jm_get jobs' (rtq_next q)") (auto simp: task_prune_def)
  define j where "j = new_rule_job (rtq_next q) actor request (digest request) ?bytes now"
  have j: "job_total j = ?n" "pending_items j = ?n" "pending_bytes j = ?bytes" "pending_of_user u j = (if u = ?u then 1 else 0)" for u
    by (auto simp: j_def new_rule_job_def job_total_def job_completed_def pending_items_def pending_bytes_def pending_of_user_def finished_def)
  consider "q' = ?q" | "q' = ?q\<lparr>rtq_jobs := jobs'\<rparr>"
    | "rtq_jobs q' = jm_set (rtq_next q) j jobs'" "length jobs' < rto_maxJobs options" "retained + ?n \<le> 20000"
      "jm_sum (pending_of_user ?u) (rtq_jobs ?q) < rto_maxUserJobs options"
      "jm_sum pending_items (rtq_jobs ?q) + ?n \<le> rto_maxPendingItems options" "jm_sum pending_bytes (rtq_jobs ?q) + ?bytes \<le> 8 * 1024 * 1024"
    using e v unfolding task_enqueue_def Let_def j_def \<open>rtq_next ?q = rtq_next q\<close> [symmetric]
    by (auto split: if_splits option.splits)
  then show ?thesis
  proof cases
    case 3
    have s: "jm_sum f (rtq_jobs q') = jm_sum f jobs' + f j" for f unfolding 3(1) by (rule jm_sum_new [OF new])
    have l: "length (rtq_jobs q') = Suc (length jobs')" unfolding 3(1) jm_length_set using new by (simp add: jm_get_None_iff del: set_map)
    have u: "jm_sum (pending_of_user u) (rtq_jobs q') \<le> rto_maxUserJobs options" for u
      using S [of "pending_of_user u"] 3(4) p(2) unfolding s j(4) task_bounds_def by (cases "u = ?u") (auto intro: order_trans)
    show ?thesis
      unfolding task_bounds_def
    proof (intro conjI allI)
      show "length (rtq_jobs q') \<le> rto_maxJobs options" using l 3(2) by simp
      show "jm_sum job_total (rtq_jobs q') \<le> 20000" using s [of job_total] j(1) 3(3) E(2) by simp
      show "jm_sum pending_items (rtq_jobs q') \<le> rto_maxPendingItems options" using s [of pending_items] j(2) 3(5) S [of pending_items] by linarith
      show "jm_sum pending_bytes (rtq_jobs q') \<le> 8 * 1024 * 1024" using s [of pending_bytes] j(3) 3(6) S [of pending_bytes] by linarith
      show "jm_sum (pending_of_user u) (rtq_jobs q') \<le> rto_maxUserJobs options" for u by (rule u)
    qed
  qed (use p q1 in simp_all)
qed

lemma cancel_bounds: "task_bounds options q \<Longrightarrow> task_cancel userId i q = (r, q') \<Longrightarrow> task_bounds options q'"
proof -
  assume b: "task_bounds options q" and e: "task_cancel userId i q = (r, q')"
  have "task_bounds options (set_rule_job i (j\<lparr>rtj_cancel := True\<rparr>) (q\<lparr>rtq_wakeups := rtq_wakeups q + 1\<rparr>))"
    if "jm_get (rtq_jobs q) i = Some j" for j
    by (rule bounds_set [OF b that])
       (simp_all add: set_rule_job_def job_total_def job_completed_def pending_items_def pending_bytes_def pending_of_user_def finished_def)
  then show ?thesis using e b by (auto simp: task_cancel_def Let_def split: option.splits if_splits)
qed

text \<open>
  C35. The queue stays within its limits at every moment: the number of jobs and of retained actions, the actions and bytes that
  wait, and the unfinished jobs of every user.
\<close>

theorem rule_tasks_bounded:
  assumes "task_reachable options byteLength digest q"
  shows "length (rtq_jobs q) \<le> rto_maxJobs options \<and> jm_sum job_total (rtq_jobs q) \<le> 20000 \<and>
    jm_sum pending_items (rtq_jobs q) \<le> rto_maxPendingItems options \<and> jm_sum pending_bytes (rtq_jobs q) \<le> 8 * 1024 * 1024 \<and>
    (\<forall>u. jm_sum (pending_of_user u) (rtq_jobs q) \<le> rto_maxUserJobs options)"
  using assms unfolding task_bounds_def [symmetric]
proof (induction rule: rtranclp_induct)
  case base
  show ?case by (simp add: task_bounds_def RuleTaskQueue_def)
next
  case (step q q')
  note ok = task_reachable_ok [OF step(1)]
  note b = step(3)
  from step(2) show ?case
  proof cases
    case step_enqueue
    then show ?thesis by (rule enqueue_bounds [OF ok b])
  next
    case step_cancel
    then show ?thesis by (rule cancel_bounds [OF b])
  next
    case (step_read now)
    show ?thesis unfolding step_read by (rule prune_bounds [OF b])
  next
    case step_writer
    then show ?thesis by (rule writer_bounds [OF ok b])
  qed
qed

section \<open>No job waits for ever\<close>

definition phase_weight :: "drain_phase \<Rightarrow> nat" where
  "phase_weight p = (case p of Drain_Off \<Rightarrow> 0 | Drain_Executing _ \<Rightarrow> 1 | Drain_Yielding \<Rightarrow> 2)"

definition work_left :: "task_queue \<Rightarrow> nat" where
  "work_left q = 3 * jm_sum pending_items (rtq_jobs q) + phase_weight (rtq_phase q) + 2 * rtq_wakeups q"

text \<open>The place of a waiting job, counted from one.\<close>

definition place :: "task_queue \<Rightarrow> nat \<Rightarrow> nat" where
  "place q i = position_of i (rtq_ready q)"

lemma position_append: "i \<in> set xs \<Longrightarrow> position_of i (xs @ ys) = position_of i xs"
  by (induction xs) auto

lemma position_pos: "position_of i xs = 0 \<longleftrightarrow> i \<notin> set xs"
  by (induction xs) auto

lemma pending_cancel_rest: "job_counts i j \<Longrightarrow> rts_cancelled (rtj_snapshot j) = 0 \<Longrightarrow> pending_items (cancel_rest j) = 0"
  using counts_cancel_rest [of i j] by (simp add: pending_items_def)

lemma end_turn_pending:
  assumes g: "jm_get (rtq_jobs q) i = Some j" "\<not> finished j" "job_completed j < job_total j"
    and j': "job_counts i j'" "rts_cancelled (rtj_snapshot j') = 0" "\<not> finished j'" "job_total j' = job_total j"
      "job_completed j' = job_completed j + 1 \<or> j' = j \<and> rtj_cancel j"
    and q1: "rtq_jobs q1 = rtq_jobs q"
  shows "jm_sum pending_items (rtq_jobs (end_turn now i j' q1)) < jm_sum pending_items (rtq_jobs q)"
    "rtq_phase (end_turn now i j' q1) = Drain_Yielding" "rtq_wakeups (end_turn now i j' q1) = rtq_wakeups q1"
    "rtq_ready (end_turn now i j' q1) = rtq_ready q1 \<or> rtq_ready (end_turn now i j' q1) = rtq_ready q1 @ [i]"
proof -
  note C = counts_cancel_rest [OF j'(1,2)]
  let ?j = "if rtj_cancel j' then cancel_rest j' else j'"
  have e: "rtq_jobs (end_turn now i j' q1) = jm_set i (if job_completed ?j = job_total ?j then finish_job now ?j else ?j) (rtq_jobs q)"
    by (simp add: end_turn_def Let_def set_rule_job_def q1)
  have "pending_items (if job_completed ?j = job_total ?j then finish_job now ?j else ?j) < pending_items j"
    using g(2,3) j' C by (auto simp: pending_items_def)
  then show "jm_sum pending_items (rtq_jobs (end_turn now i j' q1)) < jm_sum pending_items (rtq_jobs q)"
    using jm_sum_set [OF g(1), of pending_items] unfolding e by (metis add_less_cancel_left add_less_mono1 add.commute nat_add_left_cancel_less)
  show "rtq_phase (end_turn now i j' q1) = Drain_Yielding" "rtq_wakeups (end_turn now i j' q1) = rtq_wakeups q1"
    "rtq_ready (end_turn now i j' q1) = rtq_ready q1 \<or> rtq_ready (end_turn now i j' q1) = rtq_ready q1 @ [i]"
    by (simp_all add: end_turn_def Let_def set_rule_job_def)
qed

lemma drain_turn_work:
  assumes ok: "rtq_ok q" and act: "rtq_active q = None"
  shows "3 * jm_sum pending_items (rtq_jobs (drain_turn now q)) + phase_weight (rtq_phase (drain_turn now q)) \<le>
      3 * jm_sum pending_items (rtq_jobs q) + 1"
    "rtq_wakeups (drain_turn now q) = rtq_wakeups q"
    "i \<in> set (rtq_ready q) \<Longrightarrow> place (drain_turn now q) i < place q i \<or> place q i = 1"
proof -
  have "3 * jm_sum pending_items (rtq_jobs (drain_turn now q)) + phase_weight (rtq_phase (drain_turn now q)) \<le>
      3 * jm_sum pending_items (rtq_jobs q) + 1 \<and> rtq_wakeups (drain_turn now q) = rtq_wakeups q \<and>
      (i \<in> set (rtq_ready q) \<longrightarrow> place (drain_turn now q) i < place q i \<or> place q i = 1)"
  proof (cases "rtq_ready q")
    case Nil
    then show ?thesis by (simp add: drain_turn_def phase_weight_def)
  next
    case (Cons k rest)
    have "k \<in> set (rtq_ready q)" using Cons by simp
    then obtain j where j: "jm_get (rtq_jobs q) k = Some j" "\<not> finished j" using rtq_okD(7) [OF ok] by blast
    note c = unfinished_counts [OF ok j]
    have front: "position_of i ys < place q i \<or> place q i = 1" if "i \<in> set (rtq_ready q)" "ys = rest \<or> ys = rest @ [k]" for ys
      using that Cons position_append [of i rest "[k]"] position_pos [of i rest] by (cases "i = k") (auto simp: place_def)
    show ?thesis
    proof (cases "rtj_cancel j")
      case True
      let ?q = "q\<lparr>rtq_ready := rest, rtq_active := Some k\<rparr>"
      have e: "drain_turn now q = end_turn now k j ?q" using Cons j True by (simp add: drain_turn_def)
      have qj: "rtq_jobs ?q = rtq_jobs q" by simp
      note E = end_turn_pending [OF j c(3) c(1,2) j(2) refl disjI2 [OF conjI [OF refl True]] qj, where now = now]
      show ?thesis unfolding e place_def using E True front [unfolded place_def] by (auto simp: phase_weight_def)
    next
      case False
      let ?j = "j\<lparr>rtj_snapshot := (rtj_snapshot j)\<lparr>rts_state := T_Running\<rparr>\<rparr>"
      have d: "rtq_jobs (drain_turn now q) = jm_set k ?j (rtq_jobs q)" "rtq_phase (drain_turn now q) = Drain_Executing k"
        "rtq_wakeups (drain_turn now q) = rtq_wakeups q" "rtq_ready (drain_turn now q) = rest"
        using Cons j False by (simp_all add: drain_turn_def set_rule_job_def)
      have "pending_items ?j = pending_items j" by (simp add: pending_items_def finished_def job_total_def job_completed_def)
      then have "jm_sum pending_items (rtq_jobs (drain_turn now q)) = jm_sum pending_items (rtq_jobs q)"
        using jm_sum_set [OF j(1), of pending_items ?j] unfolding d(1) by simp
      then show ?thesis using d(2,3,4) front [of rest] unfolding place_def by (simp add: phase_weight_def)
    qed
  qed
  then show "3 * jm_sum pending_items (rtq_jobs (drain_turn now q)) + phase_weight (rtq_phase (drain_turn now q)) \<le>
      3 * jm_sum pending_items (rtq_jobs q) + 1"
    "rtq_wakeups (drain_turn now q) = rtq_wakeups q"
    "i \<in> set (rtq_ready q) \<Longrightarrow> place (drain_turn now q) i < place q i \<or> place q i = 1"
    by blast+
qed

text \<open>A call of \<open>drain\<close> does not look at the phase it starts from.\<close>

lemma drain_turn_phase:
  "drain_turn now (q\<lparr>rtq_phase := p, rtq_wakeups := n\<rparr>) = drain_turn now (q\<lparr>rtq_wakeups := n\<rparr>)"
  by (auto simp: drain_turn_def end_turn_def set_rule_job_def Let_def split: list.splits option.splits)

lemma writer_work:
  assumes ok: "rtq_ok q" and step: "writer_step q q'"
  shows "work_left q' < work_left q" "i \<in> set (rtq_ready q) \<Longrightarrow> place q' i \<le> place q i \<or> place q i = 1"
proof -
  have "work_left q' < work_left q \<and> (i \<in> set (rtq_ready q) \<longrightarrow> place q' i \<le> place q i \<or> place q i = 1)"
    using step
  proof cases
    case (step_wake now)
    let ?q = "q\<lparr>rtq_phase := Drain_Yielding, rtq_wakeups := rtq_wakeups q - 1\<rparr>"
    show ?thesis
    proof (cases "rtq_phase q = Drain_Off")
      case True
      then have act: "rtq_active q = None" using rtq_okD(8) [OF ok] by (cases "rtq_active q") auto
      have "rtq_ok ?q" using ok act unfolding rtq_ok_def by (simp add: started_def log_ok_def True)
      note D = drain_turn_work [OF this, where now = now, unfolded drain_turn_phase, simplified]
      have q': "q' = drain_turn now (q\<lparr>rtq_wakeups := rtq_wakeups q - 1\<rparr>)" using step_wake True by (simp add: task_drain_def)
      show ?thesis
        using D(1,2) D(3) [where i = i] act step_wake(2) True unfolding q' work_left_def
        by (auto simp: phase_weight_def place_def)
    next
      case False
      then have "q' = q\<lparr>rtq_wakeups := rtq_wakeups q - 1\<rparr>" using step_wake by (simp add: task_drain_def)
      then show ?thesis using step_wake(2) by (simp add: work_left_def place_def)
    qed
  next
    case (step_execute k outcome now)
    have act: "rtq_active q = Some k" using step_execute(2) rtq_okD(8) [OF ok] by blast
    then obtain j where j: "jm_get (rtq_jobs q) k = Some j" "\<not> finished j" using rtq_okD(9) [OF ok] by blast
    note c = unfinished_counts [OF ok j]
    note r = counts_record [OF c(1,2,3), where outcome = outcome]
    have e: "q' = end_turn now k (record_result outcome j) q" using step_execute j by (simp add: execute_returned_def)
    have "\<not> finished (record_result outcome j)" using r(5) j(2) by simp
    note E = end_turn_pending [OF j c(3) r(1,4) this r(3) disjI1 [OF r(2)] refl, where now = now]
    have "place q' i = place q i" if "i \<in> set (rtq_ready q)"
      using E(4) that position_append [of i "rtq_ready q" "[k]"] unfolding e place_def by auto
    then show ?thesis using E(1,2,3) step_execute(2) unfolding e work_left_def by (simp add: phase_weight_def)
  next
    case (step_yield now)
    then have "rtq_active q = None" using rtq_okD(8) [OF ok] by (cases "rtq_active q") auto
    note D = drain_turn_work [OF ok this, where now = now]
    show ?thesis using D(1,2) D(3) [where i = i] step_yield unfolding work_left_def by (auto simp: phase_weight_def)
  qed
  then show "work_left q' < work_left q" "i \<in> set (rtq_ready q) \<Longrightarrow> place q' i \<le> place q i \<or> place q i = 1" by blast+
qed

text \<open>
  C28. Every accepted job comes to its end.  While a job is unfinished it is kept, it is in line or having its turn, and the writer
  can take a step; every step of the writer lowers the work left, so with no further calls it ends after at most that many
  steps; and a job never falls back in line before its turn has come.
\<close>

theorem rule_tasks_drain:
  assumes "task_reachable options byteLength digest q"
    and "jm_get (rtq_jobs q) i = Some j" "\<not> finished j"
  shows "(\<exists>q'. writer_step q q') \<and> (i \<in> set (rtq_ready q) \<or> rtq_active q = Some i) \<and>
    (\<forall>q'. writer_step q q' \<longrightarrow> work_left q' < work_left q \<and>
      (i \<in> set (rtq_ready q) \<longrightarrow> place q' i \<le> place q i \<or> place q i = 1))"
proof (intro conjI allI impI)
  have ok: "rtq_ok q" by (rule task_reachable_ok [OF assms(1)])
  show r: "i \<in> set (rtq_ready q) \<or> rtq_active q = Some i" using rtq_okD(7) [OF ok, of i] assms(2,3) by auto
  show "\<exists>q'. writer_step q q'"
  proof (cases "rtq_phase q")
    case Drain_Off
    then have "rtq_active q = None" using rtq_okD(8) [OF ok] by (cases "rtq_active q") auto
    then have "rtq_ready q \<noteq> []" using r by auto
    then show ?thesis using rtq_okD(10) [OF ok _ Drain_Off] writer_step.step_wake by blast
  next
    case Drain_Executing
    then show ?thesis using writer_step.step_execute by blast
  next
    case Drain_Yielding
    then show ?thesis using writer_step.step_yield by blast
  qed
  show "work_left q' < work_left q" if "writer_step q q'" for q' by (rule writer_work(1) [OF ok that])
  show "place q' i \<le> place q i \<or> place q i = 1" if "writer_step q q'" "i \<in> set (rtq_ready q)" for q'
    by (rule writer_work(2) [OF ok that])
qed

section \<open>Witnesses\<close>

definition demo_task_actor :: task_actor where
  "demo_task_actor = \<lparr>ta_userId = 7, ta_sid = None, ta_kind = ''web'', ta_dev = False, ta_requestId = ''req''\<rparr>"

definition demo_task_request :: task_request where
  "demo_task_request = \<lparr>trq_requestId = ''batch-01'', trq_title = ''demo'',
     trq_actions = replicate 2 \<lparr>rta_operation = ''toggle'', rta_input = JNull, rta_conflictStrategy = ''error''\<rparr>\<rparr>"

definition demo_task_queue :: task_queue where
  "demo_task_queue = execute_returned (Exec_Value None) 2
     (task_drain 1 (snd (task_enqueue default_task_options (\<lambda>_. 100) (\<lambda>_. ''d'') demo_task_actor demo_task_request 0 RuleTaskQueue)))"

definition demo_rule_job :: rule_job where
  "demo_rule_job = the (jm_get (rtq_jobs demo_task_queue) 0)"

lemma demo_task_reachable: "task_reachable default_task_options (\<lambda>_. 100) (\<lambda>_. ''d'') demo_task_queue"
proof -
  let ?step = "task_step default_task_options (\<lambda>_. 100) (\<lambda>_. ''d'')"
  let ?q1 = "snd (task_enqueue default_task_options (\<lambda>_. 100) (\<lambda>_. ''d'') demo_task_actor demo_task_request 0 RuleTaskQueue)"
  have "?step RuleTaskQueue ?q1" by (rule step_enqueue [OF prod.collapse [symmetric]])
  moreover have "0 < rtq_wakeups ?q1" by code_simp
  then have "?step ?q1 (task_drain 1 ?q1)" by (intro step_writer step_wake)
  moreover have "(case rtq_phase (task_drain 1 ?q1) of Drain_Executing i \<Rightarrow> i = 0 | _ \<Rightarrow> False)" by code_simp
  then have "rtq_phase (task_drain 1 ?q1) = Drain_Executing 0" by (simp split: drain_phase.splits)
  then have "?step (task_drain 1 ?q1) demo_task_queue" unfolding demo_task_queue_def by (intro step_writer step_execute)
  ultimately show ?thesis by (meson rtranclp.rtrancl_into_rtrancl rtranclp.rtrancl_refl)
qed

lemma demo_rule_job_there: "jm_get (rtq_jobs demo_task_queue) 0 = Some demo_rule_job" "\<not> finished demo_rule_job"
proof -
  have "jm_get (rtq_jobs demo_task_queue) 0 \<noteq> None" by code_simp
  then show "jm_get (rtq_jobs demo_task_queue) 0 = Some demo_rule_job" by (simp add: demo_rule_job_def)
  show "\<not> finished demo_rule_job" by code_simp
qed

theorem rule_tasks_carried_out_once_witness:
  "job_completed demo_rule_job = 1 \<and> map rtr_index (rtj_results demo_rule_job) = [0] \<and> distinct (rtq_log demo_task_queue)"
proof -
  have "job_completed demo_rule_job = 1" by code_simp
  then show ?thesis using rule_tasks_carried_out_once [OF demo_task_reachable demo_rule_job_there(1)] by simp
qed

theorem rule_tasks_bounded_witness:
  "jm_sum pending_items (rtq_jobs demo_task_queue) = 1 \<and> jm_sum pending_items (rtq_jobs demo_task_queue) \<le> 20000"
proof -
  have "jm_sum pending_items (rtq_jobs demo_task_queue) = 1" by code_simp
  then show ?thesis using rule_tasks_bounded [OF demo_task_reachable] by (simp add: default_task_options_def)
qed

theorem rule_tasks_drain_witness:
  "rtq_active demo_task_queue = None \<and> 0 \<in> set (rtq_ready demo_task_queue) \<and> (\<exists>q'. writer_step demo_task_queue q')"
proof -
  have "rtq_active demo_task_queue = None" by code_simp
  then show ?thesis using rule_tasks_drain [OF demo_task_reachable demo_rule_job_there] by simp
qed

end
