(* ===== verification/Spec2Isabelle.thy ===== *)
theory Spec2Isabelle
imports FX_Prelude Port_Policy Port_Reservations Probe_Counters Tunnel_Auto_Latency Group_Auto_Latency Multi_Entry_Latency
  Heartbeat_Gate Tcping_Report_Gate Auth_Limits Fast_Liveness Offline_Debounce Group_Health Evaluation_Queue Recheck_Scheduler Plugin_Tasks
  Tunnel_Plan Runtime_Status Billing_Calendar Billing_Cycles Link_Access Link_Access_View Shared_Tunnel_View
  Promise_Chain Task_Locks Rule_Quota Task_Dispatcher Work_Pools Query_Cache Host_Traffic Failover_Health Group_Ddns Failover_Run Entry_Run
  Agent_Challenges Agent_Reports Mimic_Guard
  Rule_Tasks
begin

text \<open>
  ForwardX is a panel that manages port-forwarding rules on many hosts.  The control plane is the TypeScript server
  under \<open>server/\<close>; an agent on every host polls it with heartbeats, receives the rules, tunnels and probes that host
  has to run, and reports traffic, latencies and the state of its listeners.  This development models the decision
  logic of that server: the state it keeps in memory between requests and the pure planners and checks that turn rows
  of the database into what agents and users get.

  \<^bold>\<open>Parts, theories and files.\<close>

  \<^item> \<^theory_text>\<open>FX_Prelude\<close>: the JavaScript vocabulary (coercions, insertion-ordered \<open>Map\<close> as an association list, sets as
    lists, the stores that outlive a request) and the lemmas all theories share.  \<^theory_text>\<open>Timers\<close>: \<open>setTimeout\<close>
    and \<open>clearTimeout\<close> as a locale of a timer service.  \<^theory_text>\<open>Promise_Chain\<close>: chains of promises as a locale, a
    first-in first-out lock per key.
  \<^item> Ports.  \<^theory_text>\<open>Port_Policy\<close> (\<open>portPolicy.ts\<close>): the sets of ports hosts, subscriptions and users may use, how they
    are parsed, printed and combined, and how a free port is picked.  \<^theory_text>\<open>Port_Reservations\<close>
    (\<open>portReservations.ts\<close>): the reservations that keep a port between its choice and the insertion of its rule.
  \<^item> Latencies and probes.  \<^theory_text>\<open>Probe_Counters\<close> models the floating-point arithmetic of the packet counters;
    \<^theory_text>\<open>Tunnel_Auto_Latency\<close>, \<^theory_text>\<open>Group_Auto_Latency\<close> and \<^theory_text>\<open>Multi_Entry_Latency\<close> the three modules that put the
    hops of a path together (\<open>tunnelAutoLatencyState.ts\<close>, \<open>forwardGroupAutoLatencyState.ts\<close>,
    \<open>tunnelMultiEntryLatencyState.ts\<close>).  \<^theory_text>\<open>Tcping_Report_Gate\<close> (\<open>agentTcpingReportGate.ts\<close>) drops reports that say
    nothing new.
  \<^item> Agents.  \<^theory_text>\<open>Heartbeat_Gate\<close> (\<open>agentHeartbeatGate.ts\<close>) admits heartbeats and keeps stable plans,
    \<^theory_text>\<open>Agent_Versions\<close> compares versions, \<^theory_text>\<open>Fast_Liveness\<close> (\<open>agentFastLiveness.ts\<close>) declares silent hosts offline
    and \<^theory_text>\<open>Offline_Debounce\<close> (\<open>hostOfflineNotificationDebouncer.ts\<close>) delays the notification of it.
    \<^theory_text>\<open>Plugin_Tasks\<close> (\<open>pluginAgentTasks.ts\<close>) hands plugin actions to agents and collects their results.
  \<^item> Forwarding groups.  \<^theory_text>\<open>Group_Health\<close>, \<^theory_text>\<open>Evaluation_Queue\<close> and \<^theory_text>\<open>Recheck_Scheduler\<close>
    (\<open>forwardGroupHealthRecheck.ts\<close>): how long a health verdict counts, the queue of groups to evaluate and the timer
    that wakes a group when a verdict runs out.
  \<^item> Reports of agents.  \<^theory_text>\<open>Agent_Challenges\<close> (\<open>agentAuthChallenge.ts\<close>): the challenges an agent proves its key on, each good once.
    \<^theory_text>\<open>Agent_Reports\<close> (\<open>agentStatusOrdering.ts\<close>, \<open>agentActivity.ts\<close>): which status reports are news, and the last sign of life.
    \<^theory_text>\<open>Mimic_Guard\<close> (\<open>mimicRemovalGuard.ts\<close>): when the disguise of an interface that nothing needs may be removed.
  \<^item> Failover.  \<^theory_text>\<open>Host_Traffic\<close> (\<open>shared/hostTrafficPolicy.ts\<close>, \<open>shared/tunnelRelay.ts\<close>,
    \<open>hostTrafficRuntimePlan.ts\<close>) says which hosts have used up their traffic and plans tunnels around them;
    \<^theory_text>\<open>Failover_Health\<close>, \<^theory_text>\<open>Group_Ddns\<close>, \<^theory_text>\<open>Failover_Run\<close> and
    \<^theory_text>\<open>Entry_Run\<close> (\<open>repositories/forwardGroupRepository.ts\<close>, \<open>shared/forwardGroupDdns.ts\<close>, \<open>forwardGroupDdns.ts\<close>) evaluate the
    members of a group, name the addresses it can publish, choose the members its name points to and bring the name up to date.
  \<^item> Plans and status.  \<^theory_text>\<open>Tunnel_Plan\<close> (\<open>tunnelRuntimePlan.ts\<close>, \<open>tunnelExitStrategy.ts\<close>) says which processes and
    listeners a tunnel needs on which host; \<^theory_text>\<open>Runtime_Status\<close> (\<open>tunnelRuntimeStatus.ts\<close>,
    \<open>forwardGroupRuntimeStatus.ts\<close>) puts together from the reports what is running.
  \<^item> Access.  \<^theory_text>\<open>Link_Access\<close>, \<^theory_text>\<open>Link_Access_View\<close> and \<^theory_text>\<open>Shared_Tunnel_View\<close> (\<open>linkAccessView.ts\<close>): what a user
    reaches from its grants, which of its rules reach agents, and what it sees of a tunnel shared with it.
  \<^item> Accounts.  \<^theory_text>\<open>Auth_Limits\<close> (\<open>authRateLimit.ts\<close>, \<open>ai/rateLimiter.ts\<close>, \<open>twoFactorChallenges.ts\<close>): limits on
    attempts.  \<^theory_text>\<open>Billing_Calendar\<close> (\<open>shared/billingTime.ts\<close>) and \<^theory_text>\<open>Billing_Cycles\<close> (parts of
    \<open>billingRepository.ts\<close> and \<open>hostRepository.ts\<close>): the calendar in China standard time, paid periods and traffic
    resets.
  \<^item> Concurrency.  \<^theory_text>\<open>Task_Locks\<close> (\<open>keyedTaskLock.ts\<close>), \<^theory_text>\<open>Task_Dispatcher\<close> (\<open>keyedTaskDispatcher.ts\<close>),
    \<^theory_text>\<open>Work_Pools\<close> (\<open>requestWorkPool.ts\<close>, \<open>asyncPool.ts\<close>) and \<^theory_text>\<open>Rule_Quota\<close> (\<open>ruleQuotaReservations.ts\<close>): who runs
    when, and the quotas that hold although requests overlap.
    \<^theory_text>\<open>Rule_Tasks\<close> (\<open>ruleTaskQueue.ts\<close>): the writer that carries out batches of rule changes in turn.  \<^theory_text>\<open>Query_Cache\<close>
    (\<open>queryCache.ts\<close>): the cache of query results that is renewed in the background.
  \<^bold>\<open>How a state corresponds to the code.\<close>  A module-level \<open>Map\<close> or \<open>Set\<close> is a field of the state record of its
  theory, under the name it has in the code or that name with a prefix; an object that is changed in place and shared
  is a position in a heap.  A function that reads or changes the state takes it as an argument and returns it.  The
  server is single threaded: what runs between two \<open>await\<close>s is one step, so a component whose functions await is an
  inductive step relation, with a step per stretch of code, and its theorems are about all states its steps
  reach.  \<open>Date.now()\<close> is an argument; where the code relies on a clock that does not go back, the step relation
  says so, and everywhere else times are arbitrary.  A promise is named by its position in the list of the calls
  made so far.

  \<^bold>\<open>Conventions.\<close>  Optional fields, \<open>null\<close> and \<open>undefined\<close> are \<^typ>\<open>'a option\<close> where the code does not tell them
  apart, and a datatype of JavaScript values where it does (\<open>Number(null)\<close> is 0).  Identifiers, ports and counters are
  integers, as the code checks with \<open>Number.isInteger\<close> or truncates; ratios and scaled times that are rounded are
  rationals rounded by \<open>fl\<close>, the nearest double.  Exceptions and rejections are values of a sum or of a
  datatype of outcomes.  Texts for people are not kept apart from each other unless code depends on them.

  \<^bold>\<open>Lemma groups.\<close>  Every component has lemmas that characterise its pure helpers, an invariant (\<open>..._ok\<close>) kept by every
  operation, and on top of them the properties numbered C1, C2 and so on: what an operation returns on every branch, a
  specification the detailed state refines (a history for the limiter and the lock-out, a queue for the lock, a
  closure for the scopes, reachability for the tunnels), or a safety statement over all interleavings.  The
  termination and liveness properties say that searches return and that queues drain.  Each property with a hypothesis is
  followed by a witness that applies it to a concrete input.

  \<^bold>\<open>Bounds and fuel.\<close>  \<open>fl\<close> scales its argument by at most 1074 halvings, enough for every normal double.
  \<open>billingDateTime\<close> makes the four attempts the code makes, and the round trip shows that they suffice from
  1992 to 9999.  The 256 attempts at a free port and the 1,200 turns of the host extension are the code's own guards; the
  latter covers a hundred years.  The reset searches of a subscription have no guard in the code and are
  \<^theory_text>\<open>partial_function (option)\<close>, with theorems that they return.

  \<^bold>\<open>Parameters.\<close>  The offset of the time zone at an instant (from the run time's zone data), the number parser of the
  run time, random identifiers, the rows read from the database, and the functions given by callers (mappers, loads, the work of a
  locked section) are arguments of the definitions or choices of the environment in the step relations.

  \<^bold>\<open>Not modelled.\<close>  Database access, the repositories and the schema: SQL through third-party drivers in three
  dialects; the functions of the repositories that only compute (periods, resets, the failover of groups) are modelled.  The
  HTTP routes and API routers, which mix reading rows, the modelled planners and answers in one function each.  Texts of
  configurations and scripts for programs outside the repository.  Integrations with payment, messaging and login services.
  The web client.  The agent and the FXP transport, which are not TypeScript.
\<close>

end
